(* ===== verification/Prelude.thy ===== *)
theory Prelude
  imports Main "HOL-Library.Word" "HOL-Library.Sublist"
begin

text \<open>
  Shared vocabulary of the development: the faults a C program can run into, exit codes,
  character constants, and the generic lemmas on lists and words that the component
  theories use. Nothing here models a source file.
\<close>

section \<open>Faults, exit codes, characters\<close>

text \<open>
  Undefined behaviour that the modelled code can reach is a value: a read or write outside
  an array, or the use of a null pointer. \<open>Inl\<close> carries the fault, \<open>Inr\<close> the result.
\<close>

datatype fault = OutOfBounds | NullDeref

type_synonym 'a cres = "fault + 'a"

abbreviation (input) EXIT_SUCCESS :: int where "EXIT_SUCCESS \<equiv> 0"
abbreviation (input) EXIT_FAILURE :: int where "EXIT_FAILURE \<equiv> 1"

text \<open>
  A C \<^verbatim>\<open>int\<close> has 32 bits; where the code may count or convert beyond them the result wraps.
\<close>

definition int32 :: "int \<Rightarrow> int" where
  "int32 i = (i + 2 ^ 31) mod 2 ^ 32 - 2 ^ 31"

lemma int32_range: "-(2 ^ 31) \<le> int32 i" "int32 i < 2 ^ 31"
  by (simp_all add: int32_def)

lemma int32_id [simp]: "-(2 ^ 31) \<le> i \<Longrightarrow> i < 2 ^ 31 \<Longrightarrow> int32 i = i"
  by (simp add: int32_def)

lemma int32_idem [simp]: "int32 (int32 i) = int32 i"
  using int32_range [of i] by simp

lemma int32_add [simp]: "int32 (int32 a + b) = int32 (a + b)"
  using mod_add_left_eq [of "a + 2 ^ 31" "2 ^ 32" b] by (simp add: int32_def ac_simps)

abbreviation NUL :: char where "NUL \<equiv> CHR 0x00"
abbreviation TAB :: char where "TAB \<equiv> CHR 0x09"
abbreviation LF :: char where "LF \<equiv> CHR 0x0A"
abbreviation CR :: char where "CR \<equiv> CHR 0x0D"
abbreviation SPC :: char where "SPC \<equiv> CHR 0x20"

text \<open>What a program prints: on standard output, on standard error, or through \<^verbatim>\<open>perror\<close>.\<close>

datatype say = Out string | Err string | Perror string

named_theorems kernel_simps \<open>equations of the system-call model\<close>
named_theorems heap_simps \<open>equations of linked structures in a heap\<close>

section \<open>Lists\<close>

lemma takeWhile_dropWhile_length [simp]:
  "length (takeWhile P xs) + length (dropWhile P xs) = length xs"
  by (metis length_append takeWhile_dropWhile_id)

lemma dropWhile_Cons_not:
  "dropWhile P xs = y # ys \<Longrightarrow> \<not> P y"
  by (metis hd_dropWhile list.distinct(1) list.sel(1))

lemma dropWhile_length_le: "length (dropWhile P xs) \<le> length xs"
  by (induction xs) auto

lemma takeWhile_length_le: "length (takeWhile P xs) \<le> length xs"
  by (induction xs) auto

lemma drop_length_take: "drop (length (take m xs)) xs = drop m xs"
  by (simp add: min_def)

lemma drop_take_drop: "drop n xs = take m (drop n xs) @ drop (n + length (take m (drop n xs))) xs"
proof -
  have e: "drop m (drop n xs) = drop (n + length (take m (drop n xs))) xs"
    by (auto simp: min_def add.commute)
  from append_take_drop_id [of m "drop n xs", unfolded e] show ?thesis by (rule sym)
qed

lemma strict_prefix_take_drop:
  assumes "strict_prefix d (drop n b)"
  shows "strict_prefix (take n b @ d) b"
proof -
  from assms obtain z zs where "drop n b = d @ z # zs"
    by (meson strict_prefixE')
  then have "b = (take n b @ d) @ z # zs"
    using append_take_drop_id [of n b] by simp
  then show ?thesis by (rule strict_prefixI')
qed

lemma set_tl_subset: "set (tl xs) \<subseteq> set xs"
  by (cases xs) auto

lemma take_list_update_self [simp]: "take n (xs[n := x]) = take n xs"
  by (simp add: list_eq_iff_nth_eq)

lemma take_Suc_list_update:
  "n < length xs \<Longrightarrow> take (Suc n) (xs[n := x]) = take n xs @ [x]"
  by (simp add: take_Suc_conv_app_nth)

section \<open>Words of a text\<close>

text \<open>
  \<open>split_words sep s\<close> are the maximal runs of characters that are no separators: the
  specification that the tokenizers of the repository are compared with.
\<close>

function split_words :: "('a \<Rightarrow> bool) \<Rightarrow> 'a list \<Rightarrow> 'a list list" where
  "split_words sep s =
     (case dropWhile sep s of
        [] \<Rightarrow> []
      | c # cs \<Rightarrow> (c # takeWhile (\<lambda>x. \<not> sep x) cs) #
          split_words sep (dropWhile (\<lambda>x. \<not> sep x) cs))"
  by pat_completeness auto
termination
proof (relation "measure (\<lambda>(sep, s). length s)", goal_cases)
  case 1
  show ?case by simp
next
  case (2 sep s c cs)
  have "length (c # cs) \<le> length s"
    using dropWhile_length_le [of sep s] 2 by simp
  moreover have "length (dropWhile (\<lambda>x. \<not> sep x) cs) \<le> length cs"
    by (rule dropWhile_length_le)
  ultimately show ?case by simp
qed

declare split_words.simps [simp del]

lemma split_words_Nil [simp]: "split_words sep [] = []"
  by (simp add: split_words.simps)

lemma split_words_sep [simp]: "sep c \<Longrightarrow> split_words sep (c # cs) = split_words sep cs"
  by (simp add: split_words.simps [of sep "c # cs"] split_words.simps [of sep cs])

lemma split_words_word [simp]:
  "\<not> sep c \<Longrightarrow> split_words sep (c # cs) =
     (c # takeWhile (\<lambda>x. \<not> sep x) cs) # split_words sep (dropWhile (\<lambda>x. \<not> sep x) cs)"
  by (subst split_words.simps) simp

lemma split_words_dropWhile [simp]: "split_words sep (dropWhile sep s) = split_words sep s"
  by (induction s) auto

lemma split_words_elem:
  "w \<in> set (split_words sep s) \<Longrightarrow> w \<noteq> [] \<and> (\<forall>c \<in> set w. \<not> sep c)"
proof (induction sep s rule: split_words.induct)
  case (1 sep s)
  show ?case
  proof (cases "dropWhile sep s")
    case Nil
    with "1.prems" show ?thesis by (simp add: split_words.simps [of sep s])
  next
    case (Cons c cs)
    with "1.prems" consider "w = c # takeWhile (\<lambda>x. \<not> sep x) cs"
      | "w \<in> set (split_words sep (dropWhile (\<lambda>x. \<not> sep x) cs))"
      by (auto simp: split_words.simps [of sep s])
    then show ?thesis
    proof cases
      case 1
      with Cons show ?thesis by (auto dest: dropWhile_Cons_not set_takeWhileD)
    next
      case 2
      with "1.IH" Cons show ?thesis by blast
    qed
  qed
qed

text \<open>A word that is followed by a separator is the first one.\<close>

lemma split_words_append:
  assumes "w \<noteq> []" and "\<forall>c \<in> set w. \<not> sep c" and "sep x"
  shows "split_words sep (w @ x # rest) = w # split_words sep rest"
proof -
  from assms(1) obtain c cs where w: "w = c # cs" by (cases w) auto
  have "takeWhile (\<lambda>y. \<not> sep y) (cs @ x # rest) = cs" "dropWhile (\<lambda>y. \<not> sep y) (cs @ x # rest) = x # rest"
    using assms(2,3) w by (simp_all add: takeWhile_append2 dropWhile_append2)
  with assms w show ?thesis by simp
qed

lemma split_words_none: "\<forall>c \<in> set s. sep c \<Longrightarrow> split_words sep s = []"
  by (induction s) auto

end
