(* ===== verification/CString.thy ===== *)
theory CString
  imports Prelude
begin

text \<open>
  The parts of the C library for text that the programs use: strings in character arrays,
  searching, decimal output and input (\<^verbatim>\<open>printf\<close> and \<^verbatim>\<open>scanf\<close> with \<^verbatim>\<open>%d\<close>),
  \<^verbatim>\<open>strtok\<close> and \<^verbatim>\<open>fgets\<close>, with the laws the components rely on. A C string that is not
  looked at as an array is a \<open>string\<close> without a NUL character.
\<close>

section \<open>Strings in arrays\<close>

text \<open>The string that starts at the beginning of an array, and whether it is terminated.\<close>

definition cstr :: "char list \<Rightarrow> string" where
  "cstr a = takeWhile (\<lambda>c. c \<noteq> NUL) a"

definition terminated :: "char list \<Rightarrow> bool" where
  "terminated a \<longleftrightarrow> NUL \<in> set a"

text \<open>\<^verbatim>\<open>strcpy(a, s)\<close> and \<^verbatim>\<open>strcat(a, s)\<close> into an array: writing past its end is a fault.\<close>

definition strcpy :: "char list \<Rightarrow> string \<Rightarrow> char list cres" where
  "strcpy a s = (if length s < length a then Inr (s @ NUL # drop (Suc (length s)) a)
                 else Inl OutOfBounds)"

definition strcat :: "char list \<Rightarrow> string \<Rightarrow> char list cres" where
  "strcat a s = (if terminated a then strcpy a (cstr a @ s) else Inl OutOfBounds)"

definition no_nul :: "string \<Rightarrow> bool" where
  "no_nul s \<longleftrightarrow> NUL \<notin> set s"

lemma cstr_append_NUL [simp]: "no_nul s \<Longrightarrow> cstr (s @ NUL # rest) = s"
  unfolding cstr_def no_nul_def by (induction s) auto

lemma terminated_append_NUL [simp]: "terminated (s @ NUL # rest)"
  by (simp add: terminated_def)

lemma no_nul_cstr [simp]: "no_nul (cstr a)"
  by (auto simp: no_nul_def cstr_def dest: set_takeWhileD)

lemma no_nul_append [simp]: "no_nul (s @ t) \<longleftrightarrow> no_nul s \<and> no_nul t"
  by (auto simp: no_nul_def)

lemma no_nul_Nil [simp]: "no_nul []"
  by (simp add: no_nul_def)

lemma no_nul_Cons [simp]: "no_nul (c # s) \<longleftrightarrow> c \<noteq> NUL \<and> no_nul s"
  by (auto simp: no_nul_def)

lemma cstr_length: "terminated a \<Longrightarrow> length (cstr a) < length a"
  unfolding terminated_def cstr_def
  by (induction a) auto

lemma strcpy_ok:
  "strcpy a s = Inr b \<Longrightarrow> no_nul s \<Longrightarrow> cstr b = s \<and> terminated b \<and> length b = length a"
  by (auto simp: strcpy_def split: if_splits)

lemma strcat_ok:
  "strcat a s = Inr b \<Longrightarrow> no_nul s \<Longrightarrow>
     cstr b = cstr a @ s \<and> terminated b \<and> length b = length a"
  unfolding strcat_def using strcpy_ok [of a "cstr a @ s" b] by (auto split: if_splits)

lemma strcpy_fits: "length s < length a \<Longrightarrow> \<exists>b. strcpy a s = Inr b"
  by (simp add: strcpy_def)

text \<open>What a call that stores a string in an array leaves there, when it fits.\<close>

definition put_string :: "char list \<Rightarrow> string \<Rightarrow> char list" where
  "put_string a s = s @ NUL # drop (Suc (length s)) a"

lemma length_put_string [simp]: "length s < length a \<Longrightarrow> length (put_string a s) = length a"
  by (simp add: put_string_def)

lemma cstr_cut: "cstr (s @ NUL # t) = cstr s"
  by (induction s) (simp_all add: cstr_def)

lemma cstr_put_string: "cstr (put_string a s) = cstr s"
  by (simp add: put_string_def cstr_cut)

lemma terminated_put_string [simp]: "terminated (put_string a s)"
  by (simp add: put_string_def)

lemma cstr_no_nul [simp]: "no_nul s \<Longrightarrow> cstr s = s"
  by (induction s) (simp_all add: cstr_def)

lemma cstr_le: "length (cstr s) \<le> length s"
  unfolding cstr_def by (rule length_takeWhile_le)

section \<open>Searching\<close>

fun strchr :: "string \<Rightarrow> char \<Rightarrow> string option" where
  "strchr [] c = None"
| "strchr (x # xs) c = (if x = c then Some (x # xs) else strchr xs c)"

text \<open>\<^verbatim>\<open>strrchr\<close>: the suffix that starts at the last occurrence.\<close>

fun strrchr :: "string \<Rightarrow> char \<Rightarrow> string option" where
  "strrchr [] c = None"
| "strrchr (x # xs) c =
     (case strrchr xs c of
        Some s \<Rightarrow> Some s
      | None \<Rightarrow> if x = c then Some (x # xs) else None)"

fun strstr :: "string \<Rightarrow> string \<Rightarrow> string option" where
  "strstr [] n = (if n = [] then Some [] else None)"
| "strstr (x # xs) n = (if take (length n) (x # xs) = n then Some (x # xs) else strstr xs n)"

lemma strchr_None: "strchr s c = None \<longleftrightarrow> c \<notin> set s"
  by (induction s) auto

lemma strchr_Some: "strchr s c = Some t \<Longrightarrow> \<exists>u. s = u @ c # tl t \<and> hd t = c \<and> c \<notin> set u"
proof (induction s)
  case Nil
  then show ?case by simp
next
  case (Cons x xs)
  show ?case
  proof (cases "x = c")
    case True
    with Cons.prems show ?thesis by (intro exI [of _ "[]"]) auto
  next
    case False
    with Cons obtain u where "xs = u @ c # tl t" "hd t = c" "c \<notin> set u" by auto
    with False show ?thesis by (intro exI [of _ "x # u"]) auto
  qed
qed

lemma strrchr_None: "strrchr s c = None \<longleftrightarrow> c \<notin> set s"
  by (induction s) (auto split: option.splits)

lemma strrchr_append: "c \<notin> set t \<Longrightarrow> strrchr (s @ c # t) c = Some (c # t)"
  using strrchr_None [of t c] by (induction s) auto

lemma take_eq_prefix: "take (length n) s = n \<longleftrightarrow> prefix n s"
  by (metis append_eq_conv_conj prefix_def)

lemma strstr_sublist: "strstr s n \<noteq> None \<longleftrightarrow> sublist n s"
  by (induction s) (auto simp: take_eq_prefix sublist_Cons_right)

section \<open>Decimal numbers\<close>

definition digit :: "nat \<Rightarrow> char" where
  "digit n = char_of (48 + n mod 10)"

definition is_digit :: "char \<Rightarrow> bool" where
  "is_digit c \<longleftrightarrow> 48 \<le> (of_char c :: nat) \<and> (of_char c :: nat) \<le> 57"

definition digit_val :: "char \<Rightarrow> nat" where
  "digit_val c = of_char c - 48"

fun show_nat :: "nat \<Rightarrow> string" where
  "show_nat n = (if n < 10 then [digit n] else show_nat (n div 10) @ [digit (n mod 10)])"

declare show_nat.simps [simp del]

definition show_int :: "int \<Rightarrow> string" where
  "show_int i = (if i < 0 then CHR ''-'' # show_nat (nat (- i)) else show_nat (nat i))"

fun scan_digits :: "nat \<Rightarrow> string \<Rightarrow> nat \<times> string" where
  "scan_digits acc [] = (acc, [])"
| "scan_digits acc (c # cs) =
     (if is_digit c then scan_digits (10 * acc + digit_val c) cs else (acc, c # cs))"

lemma scan_digits_split: "scan_digits acc s = (n, rest) \<Longrightarrow> \<exists>ds. s = ds @ rest \<and> (\<forall>c \<in> set ds. is_digit c)"
proof (induction acc s rule: scan_digits.induct)
  case (2 acc c cs)
  show ?case
  proof (cases "is_digit c")
    case True
    with 2 obtain ds where "cs = ds @ rest" "\<forall>c \<in> set ds. is_digit c" by auto
    with True show ?thesis by (intro exI [of _ "c # ds"]) simp
  qed (use 2 in simp)
qed simp

definition is_space :: "char \<Rightarrow> bool" where
  "is_space c \<longleftrightarrow> c = SPC \<or> c = TAB \<or> c = LF \<or> c = CR \<or> c = CHR 0x0B \<or> c = CHR 0x0C"

definition scan_unsigned :: "string \<Rightarrow> (nat \<times> string) option" where
  "scan_unsigned s =
     (case s of [] \<Rightarrow> None | c # cs \<Rightarrow> if is_digit c then Some (scan_digits 0 s) else None)"

text \<open>
  \<^verbatim>\<open>%d\<close> of \<^verbatim>\<open>scanf\<close>: white space is skipped, an optional sign, then at least one digit.
  \<open>None\<close> is a failed conversion, which leaves the variable as it was. The value is converted as
  glibc does it: as a \<^verbatim>\<open>long\<close>, at whose limits it stops, and cut to the low 32 bits for the \<^verbatim>\<open>int\<close>
  (the C standard leaves a number outside the range of \<^verbatim>\<open>int\<close> undefined).
\<close>

definition conv_d :: "int \<Rightarrow> int" where
  "conv_d i = int32 (max (- (2 ^ 63)) (min (2 ^ 63 - 1) i))"

lemma conv_d_id [simp]: "- (2 ^ 31) \<le> i \<Longrightarrow> i < 2 ^ 31 \<Longrightarrow> conv_d i = i"
  by (simp add: conv_d_def)

definition scan_int :: "string \<Rightarrow> (int \<times> string) option" where
  "scan_int s =
     (let t = dropWhile is_space s in
      case t of
        [] \<Rightarrow> None
      | c # cs \<Rightarrow>
          if c = CHR ''-'' then map_option (map_prod (\<lambda>n. conv_d (- int n)) id) (scan_unsigned cs)
          else if c = CHR ''+'' then map_option (map_prod (\<lambda>n. conv_d (int n)) id) (scan_unsigned cs)
          else map_option (map_prod (\<lambda>n. conv_d (int n)) id) (scan_unsigned t))"

lemma of_char_digit [simp]: "of_char (digit n) = (48 + n mod 10 :: nat)"
proof -
  have "48 + n mod 10 < (256::nat)" by (simp add: trans_less_add1)
  then show ?thesis by (simp add: digit_def)
qed

lemma is_digit_digit [simp]: "is_digit (digit n)"
proof -
  have "n mod 10 \<le> 9" by presburger
  then show ?thesis by (simp add: is_digit_def)
qed

lemma digit_val_digit [simp]: "digit_val (digit n) = n mod 10"
  by (simp add: digit_val_def)

lemma scan_digits_append:
  "\<forall>c \<in> set ds. is_digit c \<Longrightarrow> scan_digits acc (ds @ rest) = scan_digits (fst (scan_digits acc ds)) rest"
  by (induction ds arbitrary: acc) auto

lemma show_nat_digits: "\<forall>c \<in> set (show_nat n). is_digit c"
proof (induction n rule: show_nat.induct)
  case (1 n)
  then show ?case by (cases "n < 10") (auto simp: show_nat.simps [of n])
qed

lemma show_nat_nonempty [simp]: "show_nat n \<noteq> []"
  by (subst show_nat.simps) simp

lemma scan_digits_show_nat: "fst (scan_digits 0 (show_nat n)) = n"
proof (induction n rule: show_nat.induct)
  case (1 n)
  show ?case
  proof (cases "n < 10")
    case True
    then show ?thesis by (simp add: show_nat.simps [of n])
  next
    case False
    with 1 have "fst (scan_digits 0 (show_nat (n div 10))) = n div 10" by simp
    with False show ?thesis
      by (simp add: show_nat.simps [of n] scan_digits_append [OF show_nat_digits])
  qed
qed

definition starts_digit :: "string \<Rightarrow> bool" where
  "starts_digit s \<longleftrightarrow> (case s of [] \<Rightarrow> False | c # _ \<Rightarrow> is_digit c)"

lemma scan_digits_stop [simp]: "\<not> starts_digit s \<Longrightarrow> scan_digits acc s = (acc, s)"
  by (cases s) (auto simp: starts_digit_def)

lemma scan_unsigned_show_nat:
  "\<not> starts_digit rest \<Longrightarrow> scan_unsigned (show_nat n @ rest) = Some (n, rest)"
proof -
  assume r: "\<not> starts_digit rest"
  obtain c cs where c: "show_nat n = c # cs" by (meson list.exhaust show_nat_nonempty)
  then have "is_digit c" using show_nat_digits [of n] by simp
  with c r show ?thesis
    unfolding scan_unsigned_def
    using scan_digits_append [OF show_nat_digits, of 0 n rest] scan_digits_show_nat [of n]
    by simp
qed

lemma digit_not_space_sign:
  "is_digit c \<Longrightarrow> \<not> is_space c \<and> c \<noteq> CHR ''-'' \<and> c \<noteq> CHR ''+''"
  by (auto simp: is_digit_def is_space_def)

text \<open>
  What \<^verbatim>\<open>printf("%d")\<close> writes, \<^verbatim>\<open>scanf("%d")\<close> reads back, whatever follows it; a number that is no
  \<^verbatim>\<open>int\<close> is converted as above.
\<close>

lemma scan_int_show_int:
  assumes "\<not> starts_digit rest"
  shows "scan_int (show_int i @ rest) = Some (conv_d i, rest)"
proof (cases "i < 0")
  case True
  then show ?thesis
    by (simp add: scan_int_def show_int_def is_space_def scan_unsigned_show_nat [OF assms])
next
  case False
  obtain c cs where c: "show_nat (nat i) = c # cs" by (meson list.exhaust show_nat_nonempty)
  then have "is_digit c" using show_nat_digits [of "nat i"] by simp
  from digit_not_space_sign [OF this] c False show ?thesis
    using scan_unsigned_show_nat [OF assms, of "nat i"]
    by (simp add: scan_int_def show_int_def)
qed

text \<open>
  The conversion together with what it leaves of the input: white space and a sign are taken even if no number
  follows.
\<close>

definition scan_d :: "string \<Rightarrow> int option \<times> string" where
  "scan_d s =
     (case dropWhile is_space s of
        [] \<Rightarrow> (None, [])
      | c # cs \<Rightarrow>
          if c = CHR ''-'' then (case scan_unsigned cs of None \<Rightarrow> (None, cs) | Some (n, r) \<Rightarrow> (Some (conv_d (- int n)), r))
          else if c = CHR ''+'' then (case scan_unsigned cs of None \<Rightarrow> (None, cs) | Some (n, r) \<Rightarrow> (Some (conv_d (int n)), r))
          else (case scan_unsigned (c # cs) of None \<Rightarrow> (None, c # cs) | Some (n, r) \<Rightarrow> (Some (conv_d (int n)), r)))"

lemma scan_d_number:
  assumes "\<not> starts_digit rest"
  shows "scan_d (show_int i @ rest) = (Some (conv_d i), rest)"
proof (cases "i < 0")
  case True
  then show ?thesis by (simp add: scan_d_def show_int_def is_space_def scan_unsigned_show_nat [OF assms])
next
  case False
  obtain c cs where c: "show_nat (nat i) = c # cs" by (meson list.exhaust show_nat_nonempty)
  then have "is_digit c" using show_nat_digits [of "nat i"] by simp
  then show ?thesis
    using False c digit_not_space_sign [of c] scan_unsigned_show_nat [OF assms, of "nat i"]
    by (simp add: scan_d_def show_int_def)
qed

lemma scan_unsigned_suffix: "scan_unsigned s = Some (n, r) \<Longrightarrow> suffix r s"
  by (auto simp: scan_unsigned_def suffix_def split: list.splits if_splits dest: scan_digits_split)

lemma scan_d_suffix: "suffix (snd (scan_d s)) s"
proof -
  have "suffix (snd (scan_d s)) (dropWhile is_space s)"
    by (auto simp: scan_d_def suffix_Cons split: list.splits if_splits option.splits dest: scan_unsigned_suffix)
  also have "suffix (dropWhile is_space s) s" by (rule suffix_dropWhile)
  finally show ?thesis .
qed

section \<open>Tokens and lines\<close>

text \<open>
  One call of \<^verbatim>\<open>strtok\<close> with a single delimiter: the next token and the text the saved
  pointer refers to afterwards.
\<close>

definition strtok :: "char \<Rightarrow> string \<Rightarrow> (string \<times> string) option" where
  "strtok d s =
     (case dropWhile (\<lambda>c. c = d) s of
        [] \<Rightarrow> None
      | c # cs \<Rightarrow> Some (c # takeWhile (\<lambda>x. x \<noteq> d) cs, drop 1 (dropWhile (\<lambda>x. x \<noteq> d) cs)))"

lemma strtok_shorter: "strtok d s = Some (w, s') \<Longrightarrow> length s' < length s"
proof -
  assume "strtok d s = Some (w, s')"
  then obtain c cs where "dropWhile (\<lambda>c. c = d) s = c # cs"
    and "s' = drop 1 (dropWhile (\<lambda>x. x \<noteq> d) cs)"
    by (auto simp: strtok_def split: list.splits)
  moreover have "length (dropWhile (\<lambda>c. c = d) s) \<le> length s"
    and "length (dropWhile (\<lambda>x. x \<noteq> d) cs) \<le> length cs"
    by (rule dropWhile_length_le)+
  ultimately show ?thesis by simp
qed

lemma split_words_drop1:
  "split_words sep (drop 1 (dropWhile (\<lambda>x. \<not> sep x) cs)) =
     split_words sep (dropWhile (\<lambda>x. \<not> sep x) cs)"
proof (cases "dropWhile (\<lambda>x. \<not> sep x) cs")
  case Nil
  then show ?thesis by (simp del: dropWhile_eq_Nil_conv)
next
  case (Cons y ys)
  then have "sep y" using dropWhile_Cons_not [OF Cons] by simp
  with Cons show ?thesis by simp
qed

lemma strtok_words:
  "split_words (\<lambda>c. c = d) s =
     (case strtok d s of None \<Rightarrow> [] | Some (w, s') \<Rightarrow> w # split_words (\<lambda>c. c = d) s')"
proof (cases "dropWhile (\<lambda>c. c = d) s")
  case Nil
  then show ?thesis
    by (simp add: strtok_def split_words.simps [of _ s] del: dropWhile_eq_Nil_conv)
next
  case (Cons c cs)
  with split_words_drop1 [of "\<lambda>c. c = d" cs] show ?thesis
    by (simp add: strtok_def split_words.simps [of _ s])
qed

text \<open>
  \<^verbatim>\<open>fgets(buf, n, stream)\<close> on the characters the stream still holds: a line with its
  newline, at most \<open>n - 1\<close> characters of it, and the rest; \<open>None\<close> is the null pointer at
  the end of the stream (and for \<open>n = 1\<close> no modelled caller exists).
\<close>

fun line_upto :: "nat \<Rightarrow> string \<Rightarrow> string \<times> string" where
  "line_upto 0 s = ([], s)"
| "line_upto (Suc n) [] = ([], [])"
| "line_upto (Suc n) (c # cs) =
     (if c = LF then ([c], cs) else (case line_upto n cs of (l, r) \<Rightarrow> (c # l, r)))"

definition fgets :: "nat \<Rightarrow> string \<Rightarrow> (string \<times> string) option" where
  "fgets n s = (if s = [] then None else Some (line_upto (n - 1) s))"

lemma line_upto_split: "line_upto n s = (l, r) \<Longrightarrow> s = l @ r \<and> length l \<le> n"
  by (induction n s arbitrary: l r rule: line_upto.induct) (auto split: if_splits prod.splits)

lemma line_upto_LF: "line_upto n s = (l, r) \<Longrightarrow> LF \<notin> set (butlast l)"
proof (induction n s arbitrary: l r rule: line_upto.induct)
  case (3 n c cs)
  obtain l' r' where e: "line_upto n cs = (l', r')" by (cases "line_upto n cs")
  show ?case
  proof (cases "c = LF")
    case True
    with 3 show ?thesis by auto
  next
    case False
    with 3 e have "LF \<notin> set (butlast l')" and "l = c # l'" by auto
    with False show ?thesis by simp
  qed
qed auto

lemma line_upto_line:
  "LF \<notin> set s \<Longrightarrow> Suc (length s) \<le> n \<Longrightarrow> line_upto n (s @ LF # rest) = (s @ [LF], rest)"
proof (induction s arbitrary: n)
  case Nil
  then show ?case by (cases n) auto
next
  case (Cons c s)
  then show ?case by (cases n) auto
qed

lemma fgets_split: "fgets n s = Some (l, r) \<Longrightarrow> s = l @ r \<and> length l \<le> n - 1"
  by (auto simp: fgets_def split: if_splits dest: line_upto_split)

lemma line_upto_progress: "s \<noteq> [] \<Longrightarrow> 0 < n \<Longrightarrow> line_upto n s = (l, r) \<Longrightarrow> length r < length s"
proof (cases n)
  case (Suc m)
  assume s: "s \<noteq> []" and e: "line_upto n s = (l, r)"
  from s obtain c cs where "s = c # cs" by (cases s) auto
  with e Suc have "l \<noteq> []" by (auto split: if_splits prod.splits)
  with line_upto_split [OF e] show ?thesis by auto
qed simp

lemma line_upto_again: "line_upto n s = (l, r) \<Longrightarrow> line_upto n l = (l, [])"
  by (induction n s arbitrary: l r rule: line_upto.induct) (auto split: if_splits prod.splits)

lemma fgets_shorter: "fgets n s = Some (l, r) \<Longrightarrow> 1 < n \<Longrightarrow> length r < length s"
  using line_upto_progress [of s "n - 1" l r] by (auto simp: fgets_def split: if_splits)

end
