(* ===== verification/Posix.thy ===== *)
theory Posix
  imports CString
begin

text \<open>
  The system calls on file descriptors that the programs use: \<^verbatim>\<open>open\<close>, \<^verbatim>\<open>read\<close>, \<^verbatim>\<open>write\<close>,
  \<^verbatim>\<open>lseek\<close>, \<^verbatim>\<open>dup\<close>, \<^verbatim>\<open>dup2\<close>, \<^verbatim>\<open>close\<close> and \<^verbatim>\<open>umask\<close>, on one process's descriptor table, the
  open file descriptions behind it, and the files. Two schedules hold what the environment
  does to the next reads and writes: a failure, a short count, or a full transfer. The locales at the
  end are the contracts that the transfer loops of the programs rely on, and the
  interpretations show that these system calls keep them.
\<close>

unbundle bit_operations_syntax

text \<open>Permission bits of \<^verbatim>\<open><sys/stat.h>\<close>.\<close>

abbreviation (input) S_ISUID :: "32 word" where "S_ISUID \<equiv> 0x800"
abbreviation (input) S_IRUSR :: "32 word" where "S_IRUSR \<equiv> 0x100"
abbreviation (input) S_IWUSR :: "32 word" where "S_IWUSR \<equiv> 0x80"
abbreviation (input) S_IXUSR :: "32 word" where "S_IXUSR \<equiv> 0x40"
abbreviation (input) S_IRGRP :: "32 word" where "S_IRGRP \<equiv> 0x20"
abbreviation (input) S_IWGRP :: "32 word" where "S_IWGRP \<equiv> 0x10"
abbreviation (input) S_IXGRP :: "32 word" where "S_IXGRP \<equiv> 0x8"
abbreviation (input) S_IROTH :: "32 word" where "S_IROTH \<equiv> 0x4"
abbreviation (input) S_IWOTH :: "32 word" where "S_IWOTH \<equiv> 0x2"
abbreviation (input) S_IXOTH :: "32 word" where "S_IXOTH \<equiv> 0x1"

section \<open>State\<close>

datatype acc = O_RDONLY | O_WRONLY | O_RDWR
datatype oflag = O_CREAT | O_EXCL | O_TRUNC | O_APPEND | O_NONBLOCK

text \<open>
  An open file description refers to a regular file (path, offset, append mode) or is one
  end of a connection (bytes that have arrived and are not read yet, bytes sent so far).
\<close>

datatype obj = RegFile string nat bool | Conn string string

record ofd =
  okind :: obj
  oacc :: acc

record inode =
  content :: string
  perms :: "32 word"

datatype io = Fail | Upto nat | Full

record kernel =
  files :: "string \<rightharpoonup> inode"
  fdt :: "nat option list"
  ofdt :: "ofd list"
  rsched :: "io list"
  wsched :: "io list"
  denied :: "string list"
  cmask :: "32 word"

section \<open>Descriptors\<close>

definition get_ofd :: "kernel \<Rightarrow> int \<Rightarrow> nat option" where
  "get_ofd k fd =
     (if 0 \<le> fd \<and> nat fd < length (fdt k) then
        (case fdt k ! nat fd of
           None \<Rightarrow> None
         | Some i \<Rightarrow> if i < length (ofdt k) then Some i else None)
      else None)"

fun free_slot :: "nat option list \<Rightarrow> nat" where
  "free_slot [] = 0"
| "free_slot (None # xs) = 0"
| "free_slot (Some i # xs) = Suc (free_slot xs)"

definition set_slot :: "nat option list \<Rightarrow> nat \<Rightarrow> nat option \<Rightarrow> nat option list" where
  "set_slot t n v = (t @ replicate (Suc n - length t) None)[n := v]"

definition set_kind :: "kernel \<Rightarrow> nat \<Rightarrow> obj \<Rightarrow> kernel" where
  "set_kind k i x = k\<lparr>ofdt := (ofdt k)[i := (ofdt k ! i)\<lparr>okind := x\<rparr>]\<rparr>"

definition alloc_fd :: "kernel \<Rightarrow> ofd \<Rightarrow> int \<times> kernel" where
  "alloc_fd k d =
     (let n = free_slot (fdt k) in
      (int n, k\<lparr>fdt := set_slot (fdt k) n (Some (length (ofdt k))), ofdt := ofdt k @ [d]\<rparr>))"

section \<open>Transfers\<close>

definition next_rd :: "kernel \<Rightarrow> io \<times> kernel" where
  "next_rd k = (case rsched k of [] \<Rightarrow> (Full, k) | x # xs \<Rightarrow> (x, k\<lparr>rsched := xs\<rparr>))"

definition next_wr :: "kernel \<Rightarrow> io \<times> kernel" where
  "next_wr k = (case wsched k of [] \<Rightarrow> (Full, k) | x # xs \<Rightarrow> (x, k\<lparr>wsched := xs\<rparr>))"

fun amount :: "io \<Rightarrow> nat \<Rightarrow> nat" where
  "amount Fail n = 0"
| "amount (Upto m) n = min n (Suc m)"
| "amount Full n = n"

definition text_of :: "kernel \<Rightarrow> string \<Rightarrow> string" where
  "text_of k p = (case files k p of None \<Rightarrow> [] | Some f \<Rightarrow> content f)"

definition set_text :: "kernel \<Rightarrow> string \<Rightarrow> string \<Rightarrow> kernel" where
  "set_text k p t =
     (case files k p of
        None \<Rightarrow> k
      | Some f \<Rightarrow> k\<lparr>files := (files k)(p \<mapsto> f\<lparr>content := t\<rparr>)\<rparr>)"

text \<open>Writing \<open>d\<close> at an offset; a gap behind the end of the file reads as NUL bytes.\<close>

definition put_at :: "string \<Rightarrow> nat \<Rightarrow> string \<Rightarrow> string" where
  "put_at t off d = take off (t @ replicate (off - length t) NUL) @ d @ drop (off + length d) t"

definition sys_read :: "kernel \<Rightarrow> int \<Rightarrow> nat \<Rightarrow> int \<times> string \<times> kernel" where
  "sys_read k fd n =
     (case get_ofd k fd of
        None \<Rightarrow> (-1, [], k)
      | Some i \<Rightarrow>
          if oacc (ofdt k ! i) = O_WRONLY then (-1, [], k)
          else (case next_rd k of
              (Fail, k1) \<Rightarrow> (-1, [], k1)
            | (s, k1) \<Rightarrow>
                (case okind (ofdt k ! i) of
                   RegFile p off app \<Rightarrow>
                     (let d = take (amount s n) (drop off (text_of k p)) in
                      (int (length d), d, set_kind k1 i (RegFile p (off + length d) app)))
                 | Conn inq outq \<Rightarrow>
                     (let d = take (amount s n) inq in
                      (int (length d), d, set_kind k1 i (Conn (drop (length d) inq) outq))))))"

definition sys_write :: "kernel \<Rightarrow> int \<Rightarrow> string \<Rightarrow> int \<times> kernel" where
  "sys_write k fd b =
     (case get_ofd k fd of
        None \<Rightarrow> (-1, k)
      | Some i \<Rightarrow>
          if oacc (ofdt k ! i) = O_RDONLY then (-1, k)
          else (case next_wr k of
              (Fail, k1) \<Rightarrow> (-1, k1)
            | (s, k1) \<Rightarrow>
                (let d = take (amount s (length b)) b in
                 (int (length d),
                  (case okind (ofdt k ! i) of
                     RegFile p off app \<Rightarrow>
                       (let o' = (if app then length (text_of k p) else off) in
                        set_kind (set_text k1 p (put_at (text_of k p) o' d)) i
                          (RegFile p (o' + length d) app))
                   | Conn inq outq \<Rightarrow> set_kind k1 i (Conn inq (outq @ d)))))))"

text \<open>\<^verbatim>\<open>writev\<close> writes the gathered blocks in one transfer.\<close>

definition sys_writev :: "kernel \<Rightarrow> int \<Rightarrow> string list \<Rightarrow> int \<times> kernel" where
  "sys_writev k fd vec = sys_write k fd (concat vec)"

datatype whence = SEEK_SET | SEEK_CUR | SEEK_END

definition sys_lseek :: "kernel \<Rightarrow> int \<Rightarrow> int \<Rightarrow> whence \<Rightarrow> int \<times> kernel" where
  "sys_lseek k fd d w =
     (case get_ofd k fd of
        None \<Rightarrow> (-1, k)
      | Some i \<Rightarrow>
          (case okind (ofdt k ! i) of
             Conn _ _ \<Rightarrow> (-1, k)
           | RegFile p off app \<Rightarrow>
               (let n = (case w of SEEK_SET \<Rightarrow> 0 | SEEK_CUR \<Rightarrow> int off
                                 | SEEK_END \<Rightarrow> int (length (text_of k p))) + d
                in if n < 0 then (-1, k) else (n, set_kind k i (RegFile p (nat n) app)))))"

section \<open>Opening, duplicating, closing\<close>

definition sys_umask :: "kernel \<Rightarrow> 32 word \<Rightarrow> kernel" where
  "sys_umask k m = k\<lparr>cmask := m\<rparr>"

definition sys_open :: "kernel \<Rightarrow> string \<Rightarrow> acc \<Rightarrow> oflag list \<Rightarrow> 32 word \<Rightarrow> int \<times> kernel" where
  "sys_open k p a fl mode =
     (if p \<in> set (denied k) then (-1, k)
      else (case files k p of
          None \<Rightarrow>
            if O_CREAT \<in> set fl then
              alloc_fd (k\<lparr>files := (files k)(p \<mapsto> \<lparr>content = [], perms = mode AND NOT (cmask k)\<rparr>)\<rparr>)
                \<lparr>okind = RegFile p 0 (O_APPEND \<in> set fl), oacc = a\<rparr>
            else (-1, k)
        | Some f \<Rightarrow>
            if O_CREAT \<in> set fl \<and> O_EXCL \<in> set fl then (-1, k)
            else alloc_fd (if O_TRUNC \<in> set fl then set_text k p [] else k)
              \<lparr>okind = RegFile p 0 (O_APPEND \<in> set fl), oacc = a\<rparr>))"

definition sys_dup :: "kernel \<Rightarrow> int \<Rightarrow> int \<times> kernel" where
  "sys_dup k fd =
     (case get_ofd k fd of
        None \<Rightarrow> (-1, k)
      | Some i \<Rightarrow> let n = free_slot (fdt k) in (int n, k\<lparr>fdt := set_slot (fdt k) n (Some i)\<rparr>))"

definition sys_dup2 :: "kernel \<Rightarrow> int \<Rightarrow> int \<Rightarrow> int \<times> kernel" where
  "sys_dup2 k old new =
     (case get_ofd k old of
        None \<Rightarrow> (-1, k)
      | Some i \<Rightarrow> if new < 0 then (-1, k)
          else (new, k\<lparr>fdt := set_slot (fdt k) (nat new) (Some i)\<rparr>))"

definition sys_close :: "kernel \<Rightarrow> int \<Rightarrow> int \<times> kernel" where
  "sys_close k fd =
     (case get_ofd k fd of
        None \<Rightarrow> (-1, k)
      | Some i \<Rightarrow> (0, k\<lparr>fdt := (fdt k)[nat fd := None]\<rparr>))"

text \<open>A process with its three standard descriptors on a terminal, and these files.\<close>

definition boot :: "(string \<rightharpoonup> inode) \<Rightarrow> io list \<Rightarrow> io list \<Rightarrow> kernel" where
  "boot fs rs ws = \<lparr>files = fs, fdt = [Some 0, Some 1, Some 2],
     ofdt = replicate 3 \<lparr>okind = Conn [] [], oacc = O_RDWR\<rparr>, rsched = rs, wsched = ws, denied = [], cmask = 18\<rparr>"

section \<open>Frame lemmas\<close>

definition put_rsched :: "kernel \<Rightarrow> io list \<Rightarrow> kernel" where
  "put_rsched k s = k\<lparr>rsched := s\<rparr>"

definition put_wsched :: "kernel \<Rightarrow> io list \<Rightarrow> kernel" where
  "put_wsched k s = k\<lparr>wsched := s\<rparr>"

lemma next_rd_eq: "next_rd k = (case rsched k of [] \<Rightarrow> Full | x # _ \<Rightarrow> x, put_rsched k (tl (rsched k)))"
  by (cases "rsched k") (simp_all add: next_rd_def put_rsched_def)

lemma next_wr_eq: "next_wr k = (case wsched k of [] \<Rightarrow> Full | x # _ \<Rightarrow> x, put_wsched k (tl (wsched k)))"
  by (cases "wsched k") (simp_all add: next_wr_def put_wsched_def)

lemma get_ofd_frame [simp]:
  "get_ofd (put_rsched k s) fd = get_ofd k fd"
  "get_ofd (put_wsched k s) fd = get_ofd k fd"
  "get_ofd (set_text k p t) fd = get_ofd k fd"
  "get_ofd (set_kind k i x) fd = get_ofd k fd"
  by (simp_all add: get_ofd_def put_rsched_def put_wsched_def set_text_def set_kind_def
      split: option.splits)

lemma ofdt_frame [simp]:
  "ofdt (put_rsched k s) = ofdt k"
  "ofdt (put_wsched k s) = ofdt k"
  "ofdt (set_text k p t) = ofdt k"
  by (simp_all add: put_rsched_def put_wsched_def set_text_def split: option.splits)

lemma files_frame [simp]:
  "files (put_rsched k s) = files k"
  "files (put_wsched k s) = files k"
  "files (set_kind k i x) = files k"
  by (simp_all add: put_rsched_def put_wsched_def set_kind_def)

lemma files_set_text [simp]: "files (set_text k p t) q = None \<longleftrightarrow> files k q = None"
  by (simp add: set_text_def split: option.splits)

lemma sched_frame [simp]:
  "rsched (put_rsched k s) = s" "rsched (put_wsched k s) = rsched k"
  "rsched (set_text k p t) = rsched k" "rsched (set_kind k i x) = rsched k"
  "wsched (put_rsched k s) = wsched k" "wsched (put_wsched k s) = s"
  "wsched (set_text k p t) = wsched k" "wsched (set_kind k i x) = wsched k"
  by (simp_all add: put_rsched_def put_wsched_def set_kind_def set_text_def split: option.splits)

lemma text_of_frame [simp]:
  "text_of (put_rsched k s) p = text_of k p"
  "text_of (put_wsched k s) p = text_of k p"
  "text_of (set_kind k i x) p = text_of k p"
  by (simp_all add: text_of_def)

lemma text_of_set_text [simp]:
  "text_of (set_text k p t) q = (if q = p \<and> files k p \<noteq> None then t else text_of k q)"
  by (simp add: text_of_def set_text_def split: option.splits)

lemma get_ofd_bound: "get_ofd k fd = Some i \<Longrightarrow> i < length (ofdt k)"
  by (auto simp: get_ofd_def split: if_splits option.splits)

lemma ofdt_set_kind:
  "i < length (ofdt k) \<Longrightarrow>
     ofdt (set_kind k i x) ! j = (if j = i then (ofdt k ! i)\<lparr>okind := x\<rparr> else ofdt k ! j)"
  by (simp add: set_kind_def nth_list_update)

lemma put_at_end [simp]: "put_at t (length t) d = t @ d"
  by (simp add: put_at_def)

lemma put_at_0 [simp]: "put_at [] 0 d = d"
  by (simp add: put_at_def)

end
