(* ===== verification/Channel.thy ===== *)
theory Channel
  imports Posix
begin

text \<open>
  The contracts of byte transfers. \<open>byte_sink\<close> is what a loop around \<^verbatim>\<open>write\<close> or \<^verbatim>\<open>send\<close>
  relies on: a call either fails and delivers nothing, or delivers a non-empty prefix of
  what it was given. \<open>byte_copy\<close> adds the reading side of a copy loop. The extensions
  with no failures are separate, so that a client's error behaviour and its success are
  both provable. All of them are interpreted on the system calls of the kernel model.
\<close>

section \<open>Contracts\<close>

locale byte_sink =
  fixes wr :: "'k \<Rightarrow> int \<Rightarrow> string \<Rightarrow> int \<times> 'k"
    and sent :: "'k \<Rightarrow> int \<Rightarrow> string"
    and ok :: "'k \<Rightarrow> int \<Rightarrow> bool"
  assumes wr_keeps: "ok k fd \<Longrightarrow> b \<noteq> [] \<Longrightarrow> wr k fd b = (r, k') \<Longrightarrow> ok k' fd"
    and wr_prefix: "ok k fd \<Longrightarrow> b \<noteq> [] \<Longrightarrow> wr k fd b = (r, k') \<Longrightarrow>
      r = -1 \<and> sent k' fd = sent k fd \<or>
      0 < r \<and> r \<le> int (length b) \<and> sent k' fd = sent k fd @ take (nat r) b"

locale reliable_sink = byte_sink +
  assumes wr_succeeds: "ok k fd \<Longrightarrow> b \<noteq> [] \<Longrightarrow> fst (wr k fd b) \<noteq> -1"

text \<open>The reading side alone: a call fails and takes nothing, or takes the next bytes.\<close>

locale byte_source =
  fixes rd :: "'k \<Rightarrow> int \<Rightarrow> nat \<Rightarrow> int \<times> string \<times> 'k"
    and pending :: "'k \<Rightarrow> int \<Rightarrow> string"
    and ok :: "'k \<Rightarrow> int \<Rightarrow> bool"
  assumes src_keeps: "ok k r \<Longrightarrow> rd k r n = (c, d, k') \<Longrightarrow> ok k' r"
    and src_takes: "ok k r \<Longrightarrow> 0 < n \<Longrightarrow> rd k r n = (c, d, k') \<Longrightarrow>
      c = -1 \<and> d = [] \<and> pending k' r = pending k r \<or>
      c = int (length d) \<and> length d \<le> n \<and> pending k r = d @ pending k' r \<and>
        (d = [] \<longrightarrow> pending k r = [])"

locale reliable_source = byte_source +
  assumes src_succeeds: "ok k r \<Longrightarrow> fst (rd k r n) \<noteq> -1"
begin

text \<open>Reading one byte of a non-empty input.\<close>

lemma read_one:
  assumes "ok k r" and "pending k r = x # xs"
  shows "\<exists>k'. rd k r 1 = (1, [x], k') \<and> ok k' r \<and> pending k' r = xs"
proof -
  obtain c d k' where e: "rd k r 1 = (c, d, k')" by (cases "rd k r 1")
  have "c = int (length d) \<and> length d \<le> 1 \<and> x # xs = d @ pending k' r \<and> d \<noteq> []"
    using src_takes [OF assms(1) _ e] src_succeeds [OF assms(1), of 1] e assms(2) by auto
  then have "d = [x]" "pending k' r = xs" "c = 1" by (cases d; auto)+
  with e src_keeps [OF assms(1) e] show ?thesis by simp
qed

lemma read_end:
  assumes "ok k r" and "pending k r = []" and "0 < n"
  shows "\<exists>k'. rd k r n = (0, [], k') \<and> ok k' r \<and> pending k' r = []"
proof -
  obtain c d k' where e: "rd k r n = (c, d, k')" by (cases "rd k r n")
  with src_takes [OF assms(1,3) e] src_succeeds [OF assms(1), of n] src_keeps [OF assms(1) e] assms(2)
  show ?thesis by auto
qed

end

locale byte_copy =
  fixes rd :: "'k \<Rightarrow> int \<Rightarrow> nat \<Rightarrow> int \<times> string \<times> 'k"
    and wr :: "'k \<Rightarrow> int \<Rightarrow> string \<Rightarrow> int \<times> 'k"
    and sent :: "'k \<Rightarrow> int \<Rightarrow> string"
    and pending :: "'k \<Rightarrow> int \<Rightarrow> string"
    and ok :: "'k \<Rightarrow> int \<Rightarrow> int \<Rightarrow> bool"
  assumes rd_keeps: "ok k r w \<Longrightarrow> rd k r n = (c, d, k') \<Longrightarrow> ok k' r w \<and> sent k' w = sent k w"
    and rd_takes: "ok k r w \<Longrightarrow> 0 < n \<Longrightarrow> rd k r n = (c, d, k') \<Longrightarrow>
      c = -1 \<and> d = [] \<and> pending k' r = pending k r \<or>
      c = int (length d) \<and> length d \<le> n \<and> pending k r = d @ pending k' r \<and>
        (d = [] \<longrightarrow> pending k r = [])"
    and wr_sink: "ok k r w \<Longrightarrow> b \<noteq> [] \<Longrightarrow> wr k w b = (c, k') \<Longrightarrow>
      ok k' r w \<and> pending k' r = pending k r \<and>
      (c = -1 \<and> sent k' w = sent k w \<or>
       0 < c \<and> c \<le> int (length b) \<and> sent k' w = sent k w @ take (nat c) b)"

text \<open>Seen from its writing side, a copy is a sink, whatever the reading side still holds.\<close>

sublocale byte_copy \<subseteq> out: byte_sink wr sent "\<lambda>k w. ok k r w \<and> pending k r = p" for r p
proof (unfold_locales, goal_cases)
  case (1 k fd b c k')
  then show ?case using wr_sink [of k r fd b c k'] by auto
next
  case (2 k fd b c k')
  then show ?case using wr_sink [of k r fd b c k'] by auto
qed

sublocale byte_copy \<subseteq> src: byte_source rd pending "\<lambda>k r. ok k r w \<and> sent k w = s" for w s
proof (unfold_locales, goal_cases)
  case (1 k r n c d k')
  then show ?case using rd_keeps [of k r w n c d k'] by auto
next
  case (2 k r n c d k')
  then show ?case using rd_takes [of k r w n c d k'] by auto
qed

locale reliable_copy = byte_copy +
  assumes rd_succeeds: "ok k r w \<Longrightarrow> fst (rd k r n) \<noteq> -1"
    and wr_copy_succeeds: "ok k r w \<Longrightarrow> b \<noteq> [] \<Longrightarrow> fst (wr k w b) \<noteq> -1"

sublocale reliable_copy \<subseteq> rout: reliable_sink wr sent "\<lambda>k w. ok k r w \<and> pending k r = p" for r p
  by unfold_locales (use wr_copy_succeeds in auto)

sublocale reliable_copy \<subseteq> rsrc: reliable_source rd pending "\<lambda>k r. ok k r w \<and> sent k w = s" for w s
  by unfold_locales (use rd_succeeds in auto)

text \<open>A copy whose writes are never short: what a loop without a retry relies on.\<close>

locale full_copy = reliable_copy +
  assumes wr_full: "ok k r w \<Longrightarrow> b \<noteq> [] \<Longrightarrow> fst (wr k w b) = int (length b)"

section \<open>Retry loops\<close>

text \<open>
  Several programs repeat a call until all bytes are gone or it fails. \<open>L\<close> is such a loop: it
  satisfies the recursion equation of the loop wherever the sink is usable.
\<close>

locale retry_loop = byte_sink +
  fixes L :: "'a \<Rightarrow> int \<Rightarrow> string \<Rightarrow> (int \<times> 'a) option"
  assumes L_stop: "L k fd [] = Some (0, k)"
    and L_step: "ok k fd \<Longrightarrow> b \<noteq> [] \<Longrightarrow>
      L k fd b = (case wr k fd b of (n, k') \<Rightarrow>
        if n = -1 then Some (-1, k') else L k' fd (drop (nat n) b))"
begin

text \<open>
  The loop returns for every environment: 0 exactly when everything was delivered, and
  -1 with a proper prefix delivered otherwise.
\<close>

lemma delivers:
  assumes "ok k fd"
  shows "\<exists>r k' d. L k fd b = Some (r, k') \<and> ok k' fd \<and> sent k' fd = sent k fd @ d \<and>
    (r = 0 \<and> d = b \<or> r = -1 \<and> strict_prefix d b)"
  using assms
proof (induction b arbitrary: k rule: length_induct)
  case (1 b)
  show ?case
  proof (cases "b = []")
    case True
    with "1.prems" show ?thesis by (auto simp: L_stop)
  next
    case False
    obtain n k1 where e: "wr k fd b = (n, k1)" by (cases "wr k fd b")
    have ok1: "ok k1 fd" using wr_keeps [OF "1.prems" False e] .
    from wr_prefix [OF "1.prems" False e] show ?thesis
    proof
      assume n: "n = -1 \<and> sent k1 fd = sent k fd"
      with e L_step [OF "1.prems" False] have "L k fd b = Some (-1, k1)" by simp
      with n ok1 False show ?thesis by (auto simp: strict_prefix_def)
    next
      assume n: "0 < n \<and> n \<le> int (length b) \<and> sent k1 fd = sent k fd @ take (nat n) b"
      with e L_step [OF "1.prems" False] have w: "L k fd b = L k1 fd (drop (nat n) b)" by simp
      from n have "length (drop (nat n) b) < length b" by auto
      with "1.IH" ok1 obtain r k' d where
        IH: "L k1 fd (drop (nat n) b) = Some (r, k')" "ok k' fd"
          "sent k' fd = sent k1 fd @ d"
          "r = 0 \<and> d = drop (nat n) b \<or> r = -1 \<and> strict_prefix d (drop (nat n) b)"
        by blast
      have "r = 0 \<and> take (nat n) b @ d = b \<or> r = -1 \<and> strict_prefix (take (nat n) b @ d) b"
        using IH(4) by (auto intro: strict_prefix_take_drop)
      with IH(1-3) w n show ?thesis by (intro exI [of _ r] exI [of _ k'] exI) auto
    qed
  qed
qed

end

locale reliable_retry = retry_loop + reliable_sink
begin

lemma complete: "ok k fd \<Longrightarrow> \<exists>k'. L k fd b = Some (0, k') \<and> ok k' fd \<and> sent k' fd = sent k fd @ b"
proof (induction b arbitrary: k rule: length_induct)
  case (1 b)
  show ?case
  proof (cases "b = []")
    case True
    with "1.prems" show ?thesis by (auto simp: L_stop)
  next
    case False
    obtain n k1 where e: "wr k fd b = (n, k1)" by (cases "wr k fd b")
    have ok1: "ok k1 fd" using wr_keeps [OF "1.prems" False e] .
    have n: "0 < n" "n \<le> int (length b)" "sent k1 fd = sent k fd @ take (nat n) b"
      using wr_prefix [OF "1.prems" False e] wr_succeeds [OF "1.prems" False] e by auto
    then have "length (drop (nat n) b) < length b" by auto
    with "1.IH" ok1 obtain k' where "L k1 fd (drop (nat n) b) = Some (0, k')"
      "ok k' fd" "sent k' fd = sent k1 fd @ drop (nat n) b" by blast
    with n e L_step [OF "1.prems" False] show ?thesis by auto
  qed
qed

end

section \<open>The kernel model keeps them\<close>

definition kind_of :: "kernel \<Rightarrow> int \<Rightarrow> obj option" where
  "kind_of k fd = map_option (\<lambda>i. okind (ofdt k ! i)) (get_ofd k fd)"

definition acc_of :: "kernel \<Rightarrow> int \<Rightarrow> acc option" where
  "acc_of k fd = map_option (\<lambda>i. oacc (ofdt k ! i)) (get_ofd k fd)"

definition sent_bytes :: "kernel \<Rightarrow> int \<Rightarrow> string" where
  "sent_bytes k fd =
     (case kind_of k fd of
        Some (RegFile p off app) \<Rightarrow> text_of k p
      | Some (Conn inq outq) \<Rightarrow> outq
      | None \<Rightarrow> [])"

definition pending :: "kernel \<Rightarrow> int \<Rightarrow> string" where
  "pending k fd =
     (case kind_of k fd of
        Some (RegFile p off app) \<Rightarrow> drop off (text_of k p)
      | Some (Conn inq outq) \<Rightarrow> inq
      | None \<Rightarrow> [])"

text \<open>A descriptor that appends: a connection, or a file that is written at its end.\<close>

definition sink_ok :: "kernel \<Rightarrow> int \<Rightarrow> bool" where
  "sink_ok k fd =
     (acc_of k fd \<noteq> Some O_RDONLY \<and>
      (case kind_of k fd of
         Some (RegFile p off app) \<Rightarrow> files k p \<noteq> None \<and> (app \<or> off = length (text_of k p))
       | Some (Conn inq outq) \<Rightarrow> True
       | None \<Rightarrow> False))"

definition source_ok :: "kernel \<Rightarrow> int \<Rightarrow> bool" where
  "source_ok k fd = (acc_of k fd \<noteq> Some O_WRONLY \<and> kind_of k fd \<noteq> None)"

fun apart :: "obj option \<Rightarrow> obj option \<Rightarrow> bool" where
  "apart (Some (RegFile p _ _)) (Some (RegFile q _ _)) = (p \<noteq> q)"
| "apart _ _ = True"

definition copy_ok :: "kernel \<Rightarrow> int \<Rightarrow> int \<Rightarrow> bool" where
  "copy_ok k r w =
     (source_ok k r \<and> sink_ok k w \<and> get_ofd k r \<noteq> get_ofd k w \<and> apart (kind_of k r) (kind_of k w))"

definition no_fail :: "kernel \<Rightarrow> bool" where
  "no_fail k = (Fail \<notin> set (rsched k) \<and> Fail \<notin> set (wsched k))"

definition full_writes :: "kernel \<Rightarrow> bool" where
  "full_writes k = (set (wsched k) \<subseteq> {Full})"

lemmas chan_defs = kind_of_def acc_of_def sent_bytes_def pending_def sink_ok_def source_ok_def

lemma kind_frame [simp]:
  "kind_of (put_rsched k s) fd = kind_of k fd" "kind_of (put_wsched k s) fd = kind_of k fd"
  "kind_of (set_text k p t) fd = kind_of k fd"
  "acc_of (put_rsched k s) fd = acc_of k fd" "acc_of (put_wsched k s) fd = acc_of k fd"
  "acc_of (set_text k p t) fd = acc_of k fd"
  by (simp_all add: chan_defs)

lemma chan_frame [simp]:
  "sent_bytes (put_rsched k s) fd = sent_bytes k fd" "sent_bytes (put_wsched k s) fd = sent_bytes k fd"
  "pending (put_rsched k s) fd = pending k fd" "pending (put_wsched k s) fd = pending k fd"
  "sink_ok (put_rsched k s) fd = sink_ok k fd" "sink_ok (put_wsched k s) fd = sink_ok k fd"
  "source_ok (put_rsched k s) fd = source_ok k fd" "source_ok (put_wsched k s) fd = source_ok k fd"
  "copy_ok (put_rsched k s) fd w = copy_ok k fd w" "copy_ok (put_wsched k s) fd w = copy_ok k fd w"
  by (auto simp: sent_bytes_def pending_def sink_ok_def source_ok_def copy_ok_def
      split: option.splits obj.splits)

lemma kind_set_kind:
  "get_ofd k fd = Some i \<Longrightarrow> kind_of (set_kind k i x) fd = Some x"
  "get_ofd k fd \<noteq> Some i \<Longrightarrow> i < length (ofdt k) \<Longrightarrow> kind_of (set_kind k i x) fd = kind_of k fd"
  "i < length (ofdt k) \<Longrightarrow> acc_of (set_kind k i x) fd = acc_of k fd"
  by (auto simp: chan_defs ofdt_set_kind get_ofd_bound intro!: option.map_cong)

lemma denied_frame [simp]:
  "denied (put_rsched k s) = denied k" "denied (put_wsched k s) = denied k"
  "denied (set_kind k i x) = denied k" "denied (set_text k p t) = denied k"
  by (simp_all add: put_rsched_def put_wsched_def set_kind_def set_text_def split: option.splits)

lemma kind_Some: "kind_of k fd = Some x \<longleftrightarrow> (\<exists>i. get_ofd k fd = Some i \<and> okind (ofdt k ! i) = x)"
  by (auto simp: kind_of_def)

lemma kind_of_same: "get_ofd k a = get_ofd k b \<Longrightarrow> kind_of k a = kind_of k b"
  by (simp add: kind_of_def)

lemma sched_Fail_tl: "Fail \<notin> set xs \<Longrightarrow> Fail \<notin> set (tl xs)"
  by (cases xs) auto

text \<open>One read, seen through the descriptors: what it returns and what it leaves unchanged.\<close>

lemma sys_read_cases:
  assumes "sys_read k r n = (c, d, k')" and "source_ok k r"
  obtains (fail) "c = -1" "d = []" "k' = put_rsched k (tl (rsched k))" "Fail \<in> set (rsched k)"
  | (regular) i p off app m where "get_ofd k r = Some i" "kind_of k r = Some (RegFile p off app)"
      "d = take m (drop off (text_of k p))" "m \<le> n" "0 < n \<longrightarrow> 0 < m" "c = int (length d)"
      "k' = set_kind (put_rsched k (tl (rsched k))) i (RegFile p (off + length d) app)"
  | (socket) i inq outq m where "get_ofd k r = Some i" "kind_of k r = Some (Conn inq outq)"
      "d = take m inq" "m \<le> n" "0 < n \<longrightarrow> 0 < m" "c = int (length d)"
      "k' = set_kind (put_rsched k (tl (rsched k))) i (Conn (drop (length d) inq) outq)"
proof -
  from assms(2) obtain i where i: "get_ofd k r = Some i" and a: "oacc (ofdt k ! i) \<noteq> O_WRONLY"
    by (auto simp: chan_defs)
  define s where "s = (case rsched k of [] \<Rightarrow> Full | x # _ \<Rightarrow> x)"
  show thesis
  proof (cases "s = Fail")
    case True
    then have "Fail \<in> set (rsched k)" by (auto simp: s_def split: list.splits)
    with True i a assms(1) show thesis
      by (intro fail) (auto simp: sys_read_def next_rd_eq s_def [symmetric])
  next
    case False
    then have m: "amount s n \<le> n" "0 < n \<longrightarrow> 0 < amount s n" by (cases s; simp)+
    show thesis
    proof (cases "okind (ofdt k ! i)")
      case (RegFile p off app)
      with False i a assms(1) m show thesis
        by (intro regular [of i p off app "amount s n"])
          (auto simp: sys_read_def next_rd_eq s_def [symmetric] Let_def kind_of_def split: io.splits)
    next
      case (Conn inq outq)
      with False i a assms(1) m show thesis
        by (intro socket [of i inq outq "amount s n"])
          (auto simp: sys_read_def next_rd_eq s_def [symmetric] Let_def kind_of_def split: io.splits)
    qed
  qed
qed

lemma sys_write_cases:
  assumes "sys_write k w b = (c, k')" and "sink_ok k w" and "b \<noteq> []"
  obtains (fail) "c = -1" "k' = put_wsched k (tl (wsched k))" "Fail \<in> set (wsched k)"
  | (regular) i p off app d where "get_ofd k w = Some i" "kind_of k w = Some (RegFile p off app)"
      "d \<noteq> []" "prefix d b" "c = int (length d)" "full_writes k \<longrightarrow> d = b" "files k p \<noteq> None"
      "k' = set_kind (set_text (put_wsched k (tl (wsched k))) p (text_of k p @ d)) i
        (RegFile p (length (text_of k p) + length d) app)"
  | (socket) i inq outq d where "get_ofd k w = Some i" "kind_of k w = Some (Conn inq outq)"
      "d \<noteq> []" "prefix d b" "c = int (length d)" "full_writes k \<longrightarrow> d = b"
      "k' = set_kind (put_wsched k (tl (wsched k))) i (Conn inq (outq @ d))"
proof -
  from assms(2) obtain i where i: "get_ofd k w = Some i" and a: "oacc (ofdt k ! i) \<noteq> O_RDONLY"
    by (auto simp: chan_defs split: option.splits)
  define s where "s = (case wsched k of [] \<Rightarrow> Full | x # _ \<Rightarrow> x)"
  define d where "d = take (amount s (length b)) b"
  show thesis
  proof (cases "s = Fail")
    case True
    then have "Fail \<in> set (wsched k)" by (auto simp: s_def split: list.splits)
    with True i a assms(1) show thesis
      by (intro fail) (auto simp: sys_write_def next_wr_eq s_def [symmetric])
  next
    case False
    then have "0 < amount s (length b)" using assms(3) by (cases s) auto
    then have d: "d \<noteq> []" "prefix d b" using assms(3) by (auto simp: d_def take_is_prefix)
    have f: "full_writes k \<longrightarrow> d = b"
    proof
      assume "full_writes k"
      then have "s = Full" by (auto simp: s_def full_writes_def split: list.splits)
      then show "d = b" by (simp add: d_def)
    qed
    have e: "sys_write k w b = (int (length d),
        (case okind (ofdt k ! i) of
           RegFile p off app \<Rightarrow>
             (let o' = (if app then length (text_of k p) else off) in
              set_kind (set_text (put_wsched k (tl (wsched k))) p (put_at (text_of k p) o' d)) i
                (RegFile p (o' + length d) app))
         | Conn inq outq \<Rightarrow> set_kind (put_wsched k (tl (wsched k))) i (Conn inq (outq @ d))))"
      using False i a
      by (cases s; cases "okind (ofdt k ! i)") (simp_all add: sys_write_def next_wr_eq s_def [symmetric] d_def Let_def)
    show thesis
    proof (cases "okind (ofdt k ! i)")
      case (RegFile p off app)
      with i assms(2) have "files k p \<noteq> None" "app \<or> off = length (text_of k p)"
        by (auto simp: sink_ok_def kind_of_def)
      with i assms(1) d f e RegFile show thesis
        by (intro regular [of i p off app d]) (auto simp: kind_of_def)
    next
      case (Conn inq outq)
      with i assms(1) d f e show thesis
        by (intro socket [of i inq outq d]) (auto simp: kind_of_def)
    qed
  qed
qed

lemma copy_ok_read:
  assumes "copy_ok k r w" and "sys_read k r n = (c, d, k')"
  shows "copy_ok k' r w \<and> sent_bytes k' w = sent_bytes k w"
proof -
  from assms(1) have s: "source_ok k r" "sink_ok k w" and ne: "get_ofd k r \<noteq> get_ofd k w"
    by (auto simp: copy_ok_def)
  from assms(2) s(1) show ?thesis
  proof (cases rule: sys_read_cases)
    case fail
    with assms(1) show ?thesis by simp
  next
    case (regular i p off app m)
    note b = get_ofd_bound [OF regular(1)]
    with regular ne assms(1) show ?thesis
      by (auto simp: copy_ok_def sink_ok_def source_ok_def sent_bytes_def kind_set_kind
          split: option.splits obj.splits elim!: apart.elims)
  next
    case (socket i inq outq m)
    note b = get_ofd_bound [OF socket(1)]
    with socket ne assms(1) show ?thesis
      by (auto simp: copy_ok_def sink_ok_def source_ok_def sent_bytes_def kind_set_kind
          split: option.splits obj.splits elim!: apart.elims)
  qed
qed

lemma read_takes:
  assumes "source_ok k r" and "0 < n" and "sys_read k r n = (c, d, k')"
  shows "c = -1 \<and> d = [] \<and> pending k' r = pending k r \<and> Fail \<in> set (rsched k) \<or>
    c = int (length d) \<and> length d \<le> n \<and> pending k r = d @ pending k' r \<and>
      (d = [] \<longrightarrow> pending k r = [])"
  using assms(3,1)
proof (cases rule: sys_read_cases)
  case fail
  then show ?thesis by simp
next
  case (regular i p off app m)
  note b = get_ofd_bound [OF regular(1)]
  have p: "pending k r = drop off (text_of k p)"
      "pending k' r = drop (off + length d) (text_of k p)"
    using regular b by (simp_all add: pending_def kind_set_kind)
  have "pending k r = d @ pending k' r"
    unfolding p regular(3) by (rule drop_take_drop)
  moreover have "length d \<le> n" and "d = [] \<longrightarrow> pending k r = []"
    using regular(3-5) assms(2) p by auto
  ultimately show ?thesis using regular(6) by blast
next
  case (socket i inq outq m)
  note b = get_ofd_bound [OF socket(1)]
  have p: "pending k r = inq" "pending k' r = drop (length d) inq"
    using socket b by (simp_all add: pending_def kind_set_kind)
  have "pending k r = d @ pending k' r"
    unfolding p socket(3) drop_length_take by simp
  moreover have "length d \<le> n" and "d = [] \<longrightarrow> pending k r = []"
    using socket(3-5) assms(2) p by auto
  ultimately show ?thesis using socket(6) by blast
qed

lemma sink_ok_write:
  assumes "sink_ok k w" and "b \<noteq> []" and "sys_write k w b = (c, k')"
  shows "sink_ok k' w \<and>
    (c = -1 \<and> sent_bytes k' w = sent_bytes k w \<and> Fail \<in> set (wsched k) \<or>
     0 < c \<and> c \<le> int (length b) \<and> sent_bytes k' w = sent_bytes k w @ take (nat c) b \<and>
       (full_writes k \<longrightarrow> c = int (length b)))"
  using assms(3,1,2)
proof (cases rule: sys_write_cases)
  case fail
  with assms(1) show ?thesis by simp
next
  case (regular i p off app d)
  note b = get_ofd_bound [OF regular(1)]
  from regular(3,4) have "0 < length d" "length d \<le> length b" "take (length d) b = d"
    by (auto simp: prefix_length_le take_eq_prefix)
  with regular b assms(1) show ?thesis
    by (auto simp: sent_bytes_def sink_ok_def kind_set_kind)
next
  case (socket i inq outq d)
  note b = get_ofd_bound [OF socket(1)]
  from socket(3,4) have "0 < length d" "length d \<le> length b" "take (length d) b = d"
    by (auto simp: prefix_length_le take_eq_prefix)
  with socket b assms(1) show ?thesis
    by (auto simp: sent_bytes_def sink_ok_def kind_set_kind)
qed

lemma copy_ok_write:
  assumes "copy_ok k r w" and "b \<noteq> []" and "sys_write k w b = (c, k')"
  shows "copy_ok k' r w \<and> pending k' r = pending k r"
proof -
  from assms(1) have s: "source_ok k r" "sink_ok k w" and ne: "get_ofd k r \<noteq> get_ofd k w"
    by (auto simp: copy_ok_def)
  from assms(3) s(2) assms(2) show ?thesis
  proof (cases rule: sys_write_cases)
    case fail
    with assms(1) show ?thesis by simp
  next
    case (regular i p off app d)
    note b = get_ofd_bound [OF regular(1)]
    with regular ne assms(1) show ?thesis
      by (auto simp: copy_ok_def sink_ok_def source_ok_def pending_def kind_set_kind
          split: option.splits obj.splits elim!: apart.elims)
  next
    case (socket i inq outq d)
    note b = get_ofd_bound [OF socket(1)]
    with socket ne assms(1) show ?thesis
      by (auto simp: copy_ok_def sink_ok_def source_ok_def pending_def kind_set_kind
          split: option.splits obj.splits elim!: apart.elims)
  qed
qed

text \<open>The interpretations: the laws of each contract hold for the modelled system calls.\<close>

interpretation posix_sink: byte_sink sys_write sent_bytes sink_ok
  by unfold_locales (use sink_ok_write in blast)+

interpretation posix_copy: byte_copy sys_read sys_write sent_bytes pending copy_ok
proof (unfold_locales, goal_cases)
  case (1 k r w n c d k')
  then show ?case by (rule copy_ok_read)
next
  case (2 k r w n c d k')
  then show ?case using read_takes [of k r n c d k'] by (auto simp: copy_ok_def)
next
  case (3 k r w b c k')
  then show ?case
    using sink_ok_write [of k w b c k'] copy_ok_write [of k r w b c k'] by (auto simp: copy_ok_def)
qed

text \<open>The schedules only get shorter, so an environment without failures stays one.\<close>

lemma sys_read_sched:
  "sys_read k r n = (c, d, k') \<Longrightarrow>
     set (rsched k') \<subseteq> set (rsched k) \<and> set (wsched k') = set (wsched k)"
  using set_tl_subset [of "rsched k"]
  by (simp add: sys_read_def next_rd_eq Let_def
      split: option.splits if_splits io.splits obj.splits prod.splits list.splits) auto

lemma sys_write_sched:
  "sys_write k w b = (c, k') \<Longrightarrow>
     set (wsched k') \<subseteq> set (wsched k) \<and> set (rsched k') = set (rsched k)"
  using set_tl_subset [of "wsched k"]
  by (simp add: sys_write_def next_wr_eq Let_def
      split: option.splits if_splits io.splits obj.splits prod.splits list.splits) auto

text \<open>
  The file behind a descriptor, and the frame of a transfer: the destination keeps its
  file, and no other file changes.
\<close>

definition path_of :: "kernel \<Rightarrow> int \<Rightarrow> string option" where
  "path_of k fd = (case kind_of k fd of Some (RegFile p _ _) \<Rightarrow> Some p | _ \<Rightarrow> None)"

definition framed :: "string option \<Rightarrow> (string \<rightharpoonup> inode) \<Rightarrow> kernel \<Rightarrow> int \<Rightarrow> bool" where
  "framed p fs k w = (path_of k w = p \<and> (\<forall>q. Some q \<noteq> p \<longrightarrow> files k q = fs q))"

lemma framed_read:
  assumes "framed p fs k w" and "source_ok k r" and "sys_read k r n = (c, d, k')"
  shows "framed p fs k' w"
  using assms(3,2)
proof (cases rule: sys_read_cases)
  case fail
  with assms(1) show ?thesis by (simp add: framed_def path_of_def)
next
  case (regular i q off app m)
  note b = get_ofd_bound [OF regular(1)]
  have "path_of k' w = path_of k w"
    using regular b kind_of_same [of k w r]
    by (cases "get_ofd k w = Some i") (auto simp: path_of_def kind_set_kind)
  with assms(1) regular show ?thesis by (simp add: framed_def)
next
  case (socket i inq outq m)
  note b = get_ofd_bound [OF socket(1)]
  have "path_of k' w = path_of k w"
    using socket b kind_of_same [of k w r]
    by (cases "get_ofd k w = Some i") (auto simp: path_of_def kind_set_kind)
  with assms(1) socket show ?thesis by (simp add: framed_def)
qed

lemma framed_write:
  assumes "framed p fs k w" and "sink_ok k w" and "b \<noteq> []" and "sys_write k w b = (c, k')"
  shows "framed p fs k' w"
  using assms(4,2,3)
proof (cases rule: sys_write_cases)
  case fail
  with assms(1) show ?thesis by (simp add: framed_def path_of_def)
next
  case (regular i q off app d)
  with assms(1) have q: "p = Some q" by (auto simp: framed_def path_of_def)
  have "files k' x = files k x" if "x \<noteq> q" for x
    using regular(8) that by (simp add: set_text_def split: option.splits)
  with assms(1) q regular show ?thesis by (auto simp: framed_def path_of_def kind_set_kind)
next
  case (socket i inq outq d)
  note b = get_ofd_bound [OF socket(1)]
  with assms(1) socket show ?thesis by (auto simp: framed_def path_of_def kind_set_kind)
qed

definition copy_safe :: "string option \<Rightarrow> (string \<rightharpoonup> inode) \<Rightarrow> kernel \<Rightarrow> int \<Rightarrow> int \<Rightarrow> bool" where
  "copy_safe p fs k r w = (copy_ok k r w \<and> no_fail k \<and> framed p fs k w)"

text \<open>
  With full writes, and with the description behind the destination named: its bytes can
  still be looked up after the descriptor is closed.
\<close>

definition copy_full :: "string option \<Rightarrow> kernel \<Rightarrow> nat \<Rightarrow> kernel \<Rightarrow> int \<Rightarrow> int \<Rightarrow> bool" where
  "copy_full p k0 i k r w =
     (copy_safe p (files k0) k r w \<and> full_writes k \<and> get_ofd k w = Some i \<and> denied k = denied k0)"

lemma sys_read_frame:
  "sys_read k r n = (c, d, k') \<Longrightarrow> get_ofd k' x = get_ofd k x \<and> denied k' = denied k"
  by (auto simp: sys_read_def next_rd_eq Let_def
      split: option.splits if_splits io.splits obj.splits prod.splits list.splits)

lemma sys_write_frame:
  "sys_write k w b = (c, k') \<Longrightarrow> get_ofd k' x = get_ofd k x \<and> denied k' = denied k"
  by (auto simp: sys_write_def next_wr_eq Let_def
      split: option.splits if_splits io.splits obj.splits prod.splits list.splits)

lemma copy_safe_rd:
  "copy_safe p fs k r w \<Longrightarrow> sys_read k r n = (c, d, k') \<Longrightarrow> copy_safe p fs k' r w"
  using copy_ok_read [of k r w n c d k'] sys_read_sched [of k r n c d k']
    framed_read [of p fs k w r n c d k']
  unfolding copy_safe_def no_fail_def copy_ok_def by blast

lemma copy_safe_wr:
  "copy_safe p fs k r w \<Longrightarrow> b \<noteq> [] \<Longrightarrow> sys_write k w b = (c, k') \<Longrightarrow> copy_safe p fs k' r w"
  using copy_ok_write [of k r w b c k'] sys_write_sched [of k w b c k']
    framed_write [of p fs k w b c k']
  unfolding copy_safe_def no_fail_def copy_ok_def by blast

lemma copy_full_rd:
  "copy_full p k0 i k r w \<Longrightarrow> sys_read k r n = (c, d, k') \<Longrightarrow> copy_full p k0 i k' r w"
  using copy_safe_rd [of p "files k0" k r w n c d k'] sys_read_sched [of k r n c d k']
    sys_read_frame [of k r n c d k' w]
  unfolding copy_full_def full_writes_def by auto

lemma copy_full_wr:
  "copy_full p k0 i k r w \<Longrightarrow> b \<noteq> [] \<Longrightarrow> sys_write k w b = (c, k') \<Longrightarrow> copy_full p k0 i k' r w"
  using copy_safe_wr [of p "files k0" k r w b c k'] sys_write_sched [of k w b c k']
    sys_write_frame [of k w b c k' w]
  unfolding copy_full_def full_writes_def by auto

lemma read_no_fail: "source_ok k r \<Longrightarrow> no_fail k \<Longrightarrow> fst (sys_read k r n) \<noteq> -1"
proof -
  assume s: "source_ok k r" "no_fail k"
  obtain c d k' where e: "sys_read k r n = (c, d, k')" by (cases "sys_read k r n")
  from e s(1) show ?thesis
    by (cases rule: sys_read_cases) (use s e in \<open>auto simp: no_fail_def\<close>)
qed

lemma write_no_fail: "sink_ok k w \<Longrightarrow> no_fail k \<Longrightarrow> b \<noteq> [] \<Longrightarrow> fst (sys_write k w b) \<noteq> -1"
  using sink_ok_write [of k w b "fst (sys_write k w b)" "snd (sys_write k w b)"]
  by (auto simp: no_fail_def)

interpretation posix_reliable:
  reliable_copy sys_read sys_write sent_bytes pending "copy_safe p fs" for p fs
proof (unfold_locales, goal_cases)
  case (1 k r w n c d k')
  then show ?case using copy_ok_read [of k r w n c d k'] copy_safe_rd [of p fs k r w n c d k']
    by (auto simp: copy_safe_def)
next
  case (2 k r w n c d k')
  then show ?case using read_takes [of k r n c d k'] by (auto simp: copy_safe_def copy_ok_def)
next
  case (3 k r w b c k')
  then show ?case
    using posix_copy.wr_sink [of k r w b c k'] copy_safe_wr [of p fs k r w b c k']
    by (auto simp: copy_safe_def)
next
  case (4 k r w n)
  then show ?case using read_no_fail by (auto simp: copy_safe_def copy_ok_def)
next
  case (5 k r w b)
  then show ?case using write_no_fail by (auto simp: copy_safe_def copy_ok_def)
qed

interpretation posix_full:
  full_copy sys_read sys_write sent_bytes pending "copy_full p k0 i" for p k0 i
proof (unfold_locales, goal_cases)
  case (1 k r w n c d k')
  then show ?case
    using posix_reliable.rd_keeps [of p "files k0" k r w n c d k'] copy_full_rd [of p k0 i k r w n c d k']
    by (auto simp: copy_full_def)
next
  case (2 k r w n c d k')
  then show ?case using posix_reliable.rd_takes [of p "files k0" k r w n c d k'] by (auto simp: copy_full_def)
next
  case (3 k r w b c k')
  then show ?case
    using posix_reliable.wr_sink [of p "files k0" k r w b c k'] copy_full_wr [of p k0 i k r w b c k']
    by (auto simp: copy_full_def)
next
  case (4 k r w n)
  then show ?case using read_no_fail by (auto simp: copy_full_def copy_safe_def copy_ok_def)
next
  case (5 k r w b)
  then show ?case using write_no_fail by (auto simp: copy_full_def copy_safe_def copy_ok_def)
next
  case (6 k r w b)
  obtain c k' where e: "sys_write k w b = (c, k')" by (cases "sys_write k w b")
  with 6 show ?case
    using sink_ok_write [of k w b c k']
    by (auto simp: copy_full_def copy_safe_def copy_ok_def no_fail_def)
qed

section \<open>Opening a file for a transfer\<close>

lemma free_slot_le: "free_slot t \<le> length t"
  by (induction t rule: free_slot.induct) auto

lemma free_slot_None: "free_slot t < length t \<Longrightarrow> t ! free_slot t = None"
  by (induction t rule: free_slot.induct) auto

lemma set_slot_nth:
  "set_slot t n v ! m = (if m = n then v else if m < length t then t ! m else None)"
  if "m < length (set_slot t n v)"
  using that by (auto simp: set_slot_def nth_append nth_list_update)

lemma length_set_slot: "length (set_slot t n v) = max (length t) (Suc n)"
  by (simp add: set_slot_def)

lemma alloc_fd_frame:
  assumes "alloc_fd k d = (fd, k')"
  shows "0 \<le> fd" "get_ofd k' fd = Some (length (ofdt k))" "ofdt k' = ofdt k @ [d]"
    "files k' = files k" "rsched k' = rsched k" "wsched k' = wsched k" "denied k' = denied k"
    "cmask k' = cmask k" "get_ofd k fd = None"
  using assms free_slot_le [of "fdt k"] free_slot_None [of "fdt k"]
  by (auto simp: alloc_fd_def Let_def get_ofd_def set_slot_nth length_set_slot)

lemma alloc_fd_others:
  assumes "alloc_fd k d = (fd, k')" and "get_ofd k g = Some i"
  shows "get_ofd k' g = Some i"
proof -
  have "g \<noteq> fd" using alloc_fd_frame(9) [OF assms(1)] assms(2) by auto
  with assms show ?thesis
    by (auto simp: alloc_fd_def Let_def get_ofd_def set_slot_nth length_set_slot
        split: if_splits option.splits)
qed

text \<open>An existing file opens at its start; a new one is created empty with the masked mode.\<close>

lemma sys_open_existing:
  assumes "files k p = Some f" and "p \<notin> set (denied k)"
    and "\<not> (O_CREAT \<in> set fl \<and> O_EXCL \<in> set fl)" and "O_TRUNC \<notin> set fl"
  shows "sys_open k p a fl m = alloc_fd k \<lparr>okind = RegFile p 0 (O_APPEND \<in> set fl), oacc = a\<rparr>"
  using assms by (auto simp: sys_open_def)

definition add_file :: "kernel \<Rightarrow> string \<Rightarrow> 32 word \<Rightarrow> kernel" where
  "add_file k p m = k\<lparr>files := (files k)(p \<mapsto> \<lparr>content = [], perms = m AND NOT (cmask k)\<rparr>)\<rparr>"

lemma sys_open_new:
  assumes "files k p = None" and "p \<notin> set (denied k)" and "O_CREAT \<in> set fl"
  shows "sys_open k p a fl m =
    alloc_fd (add_file k p m) \<lparr>okind = RegFile p 0 (O_APPEND \<in> set fl), oacc = a\<rparr>"
  using assms by (simp add: sys_open_def add_file_def)

lemma add_file_frame [simp]:
  "get_ofd (add_file k p m) fd = get_ofd k fd" "ofdt (add_file k p m) = ofdt k"
  "files (add_file k p m) q = (if q = p then Some \<lparr>content = [], perms = m AND NOT (cmask k)\<rparr> else files k q)"
  "rsched (add_file k p m) = rsched k" "wsched (add_file k p m) = wsched k"
  "denied (add_file k p m) = denied k" "cmask (add_file k p m) = cmask k"
  by (simp_all add: add_file_def get_ofd_def split: option.splits)

lemma umask_frame [simp]:
  "get_ofd (sys_umask k m) fd = get_ofd k fd" "ofdt (sys_umask k m) = ofdt k"
  "files (sys_umask k m) = files k" "rsched (sys_umask k m) = rsched k"
  "wsched (sys_umask k m) = wsched k" "denied (sys_umask k m) = denied k"
  "cmask (sys_umask k m) = m"
  by (simp_all add: sys_umask_def get_ofd_def split: option.splits)

text \<open>Opening a source and a new destination sets up a copy of the whole source.\<close>

lemma open_copy:
  assumes src: "files k src = Some f" "src \<notin> set (denied k)"
    and dst: "files k dst = None" "dst \<notin> set (denied k)" and fl: "O_CREAT \<in> set fl" "O_APPEND \<notin> set fl"
  obtains r w k1 k2 where "sys_open k src O_RDONLY [] 0 = (r, k1)" "sys_open k1 dst O_WRONLY fl m = (w, k2)"
    "0 \<le> r" "0 \<le> w" "copy_ok k2 r w" "pending k2 r = content f" "sent_bytes k2 w = []"
    "kind_of k2 w = Some (RegFile dst 0 False)"
    "rsched k2 = rsched k" "wsched k2 = wsched k" "files k2 = (files k)(dst \<mapsto> \<lparr>content = [], perms = m AND NOT (cmask k)\<rparr>)"
proof -
  obtain r k1 where o1: "alloc_fd k \<lparr>okind = RegFile src 0 False, oacc = O_RDONLY\<rparr> = (r, k1)"
    by (cases "alloc_fd k \<lparr>okind = RegFile src 0 False, oacc = O_RDONLY\<rparr>")
  note f1 = alloc_fd_frame [OF o1]
  obtain w k2 where o2: "alloc_fd (add_file k1 dst m) \<lparr>okind = RegFile dst 0 False, oacc = O_WRONLY\<rparr> = (w, k2)"
    by (cases "alloc_fd (add_file k1 dst m) \<lparr>okind = RegFile dst 0 False, oacc = O_WRONLY\<rparr>")
  note f2 = alloc_fd_frame [OF o2]
  have "get_ofd (add_file k1 dst m) r = Some (length (ofdt k))" using f1(2) by simp
  note g = alloc_fd_others [OF o2 this]
  have kinds: "kind_of k2 r = Some (RegFile src 0 False)" "acc_of k2 r = Some O_RDONLY"
    "kind_of k2 w = Some (RegFile dst 0 False)" "acc_of k2 w = Some O_WRONLY"
    using g f2(2,3) f1(3) by (simp_all add: kind_of_def acc_of_def nth_append)
  have ne: "src \<noteq> dst" using src dst by auto
  have fs: "files k2 = (files k)(dst \<mapsto> \<lparr>content = [], perms = m AND NOT (cmask k)\<rparr>)"
    using f2(4) f1(4,8) by (simp add: fun_eq_iff)
  have t: "text_of k2 src = content f" "text_of k2 dst = []"
    using fs src ne by (simp_all add: text_of_def)
  have "copy_ok k2 r w"
    using kinds g f2(2) f1(3) ne t fs by (simp add: copy_ok_def source_ok_def sink_ok_def)
  moreover have "pending k2 r = content f" "sent_bytes k2 w = []"
    using kinds t by (simp_all add: pending_def sent_bytes_def)
  ultimately show thesis
    using that [of r k1 w k2] o1 o2 f1 f2 fs kinds src dst fl
    by (simp add: sys_open_existing [OF src] sys_open_new)
qed

section \<open>Reading a connection\<close>

text \<open>A connection that is only read: the files and the rest of the environment stay as they are.\<close>

definition listening :: "kernel \<Rightarrow> kernel \<Rightarrow> int \<Rightarrow> bool" where
  "listening k0 k r =
     (source_ok k r \<and> (\<exists>inq outq. kind_of k r = Some (Conn inq outq)) \<and> no_fail k \<and>
      files k = files k0 \<and> wsched k = wsched k0 \<and> denied k = denied k0)"

lemma listening_read:
  assumes "listening k0 k r" and "sys_read k r n = (c, d, k')"
  shows "listening k0 k' r"
proof -
  from assms(1) have s: "source_ok k r" "no_fail k" by (auto simp: listening_def)
  from assms(2) s(1) show ?thesis
  proof (cases rule: sys_read_cases)
    case fail
    with assms(1) show ?thesis by (simp add: listening_def no_fail_def)
  next
    case (regular i p off app m)
    with assms(1) show ?thesis by (auto simp: listening_def)
  next
    case (socket i inq outq m)
    with assms(1) get_ofd_bound [OF socket(1)] sched_Fail_tl [of "rsched k"] show ?thesis
      by (auto simp: listening_def source_ok_def no_fail_def kind_set_kind)
  qed
qed

interpretation posix_listen: reliable_source sys_read pending "listening k0" for k0
proof (unfold_locales, goal_cases)
  case (1 k r n c d k')
  then show ?case by (rule listening_read)
next
  case (2 k r n c d k')
  then show ?case using read_takes [of k r n c d k'] by (auto simp: listening_def)
next
  case (3 k r n)
  then show ?case using read_no_fail by (auto simp: listening_def)
qed

text \<open>Opening the destination of a received file empties or creates it.\<close>

definition truncated :: "kernel \<Rightarrow> string \<Rightarrow> 32 word \<Rightarrow> kernel" where
  "truncated k p m = (if files k p = None then add_file k p m else set_text k p [])"

lemma sys_open_trunc:
  assumes "p \<notin> set (denied k)" and "O_CREAT \<in> set fl" and "O_TRUNC \<in> set fl" and "O_EXCL \<notin> set fl"
  shows "sys_open k p a fl m = alloc_fd (truncated k p m) \<lparr>okind = RegFile p 0 (O_APPEND \<in> set fl), oacc = a\<rparr>"
  using assms by (auto simp: sys_open_def truncated_def add_file_def split: option.splits)

lemma truncated_frame [simp]:
  "get_ofd (truncated k p m) fd = get_ofd k fd" "ofdt (truncated k p m) = ofdt k"
  "rsched (truncated k p m) = rsched k" "wsched (truncated k p m) = wsched k"
  "denied (truncated k p m) = denied k" "text_of (truncated k p m) p = []" "files (truncated k p m) p \<noteq> None"
  "q \<noteq> p \<Longrightarrow> files (truncated k p m) q = files k q"
  by (simp_all add: truncated_def) (auto simp: text_of_def set_text_def split: option.splits)

lemma open_received:
  assumes "listening k0 k r" and "p \<notin> set (denied k)" and "full_writes k"
  obtains w i k' where "sys_open k p O_WRONLY [O_CREAT, O_TRUNC] m = (w, k')" "0 \<le> w"
    "copy_full (Some p) k i k' r w" "pending k' r = pending k r" "sent_bytes k' w = []"
proof -
  from assms(1) obtain i inq outq where r: "get_ofd k r = Some i" "okind (ofdt k ! i) = Conn inq outq"
    "oacc (ofdt k ! i) \<noteq> O_WRONLY" by (auto simp: listening_def source_ok_def kind_Some acc_of_def)
  define d where "d = \<lparr>okind = RegFile p 0 False, oacc = O_WRONLY\<rparr>"
  obtain w k' where a: "alloc_fd (truncated k p m) d = (w, k')" by (cases "alloc_fd (truncated k p m) d")
  note f = alloc_fd_frame [OF a]
  note b = get_ofd_bound [OF r(1)]
  have kr: "kind_of k r = Some (Conn inq outq)" using r by (simp add: kind_of_def)
  have g: "get_ofd k' r = Some i" using alloc_fd_others [OF a] r(1) by simp
  have k: "kind_of k' r = Some (Conn inq outq)" "acc_of k' r \<noteq> Some O_WRONLY"
    "kind_of k' w = Some (RegFile p 0 False)" "acc_of k' w = Some O_WRONLY" "get_ofd k' r \<noteq> get_ofd k' w"
    using g r b f(2,3) by (auto simp: kind_of_def acc_of_def nth_append d_def)
  have t: "text_of k' p = []" "files k' p \<noteq> None" "\<forall>q. q \<noteq> p \<longrightarrow> files k' q = files k q"
    using f(4) truncated_frame(6) [of k p m] by (simp_all add: text_of_def)
  have "copy_full (Some p) k (length (ofdt k)) k' r w"
    using k t f(2,5-7) assms(1,3)
    by (auto simp: copy_full_def copy_safe_def copy_ok_def source_ok_def sink_ok_def framed_def path_of_def
        listening_def no_fail_def full_writes_def)
  moreover have "pending k' r = pending k r" "sent_bytes k' w = []"
    using k t kr by (simp_all add: pending_def sent_bytes_def)
  ultimately show thesis
    using that [of w k' "length (ofdt k)"] f(1) a assms(2) by (simp add: sys_open_trunc d_def)
qed

lemma files_close [simp]: "files (snd (sys_close k fd)) = files k"
  by (simp add: sys_close_def split: option.splits)

text \<open>A connection or an appending descriptor on which writes may be short but do not fail.\<close>

definition steady_sink :: "kernel \<Rightarrow> int \<Rightarrow> bool" where
  "steady_sink k w = (sink_ok k w \<and> Fail \<notin> set (wsched k))"

interpretation posix_steady: reliable_sink sys_write sent_bytes steady_sink
proof (unfold_locales, goal_cases)
  case (1 k fd b r k')
  then show ?case using sink_ok_write [of k fd b r k'] sys_write_sched [of k fd b r k']
    by (auto simp: steady_sink_def)
next
  case (2 k fd b r k')
  then show ?case using sink_ok_write [of k fd b r k'] by (auto simp: steady_sink_def)
next
  case (3 k fd b)
  then show ?case
    using sink_ok_write [of k fd b "fst (sys_write k fd b)" "snd (sys_write k fd b)"]
    by (auto simp: steady_sink_def)
qed

text \<open>Opening an existing file to send it over an open connection.\<close>

lemma open_to_send:
  assumes "files k p = Some f" and "p \<notin> set (denied k)" and "no_fail k" and "full_writes k"
    and w: "get_ofd k w = Some i" "okind (ofdt k ! i) = Conn inq outq" "oacc (ofdt k ! i) \<noteq> O_RDONLY"
  obtains r k' where "sys_open k p O_RDONLY [] 0 = (r, k')" "0 \<le> r"
    "copy_full None k i k' r w" "pending k' r = content f" "sent_bytes k' w = outq"
proof -
  define d where "d = \<lparr>okind = RegFile p 0 False, oacc = O_RDONLY\<rparr>"
  obtain r k' where a: "alloc_fd k d = (r, k')" by (cases "alloc_fd k d")
  note f = alloc_fd_frame [OF a]
  note b = get_ofd_bound [OF w(1)]
  have g: "get_ofd k' w = Some i" using alloc_fd_others [OF a] w(1) by simp
  have k: "kind_of k' w = Some (Conn inq outq)" "acc_of k' w \<noteq> Some O_RDONLY"
    "kind_of k' r = Some (RegFile p 0 False)" "acc_of k' r = Some O_RDONLY" "get_ofd k' r \<noteq> get_ofd k' w"
    using g w b f(2,3) by (auto simp: kind_of_def acc_of_def nth_append d_def)
  have t: "text_of k' p = content f" using f(4) assms(1) by (simp add: text_of_def)
  have "copy_full None k i k' r w"
    using k g f(4-7) assms(3,4)
    by (auto simp: copy_full_def copy_safe_def copy_ok_def source_ok_def sink_ok_def framed_def path_of_def
        no_fail_def full_writes_def)
  moreover have "pending k' r = content f" "sent_bytes k' w = outq"
    using k t by (simp_all add: pending_def sent_bytes_def)
  ultimately show thesis
    using that [of r k'] f(1) a assms(1,2) by (simp add: sys_open_existing d_def)
qed

lemma close_frame [simp]:
  "ofdt (snd (sys_close k fd)) = ofdt k" "rsched (snd (sys_close k fd)) = rsched k"
  "wsched (snd (sys_close k fd)) = wsched k" "denied (snd (sys_close k fd)) = denied k"
  "text_of (snd (sys_close k fd)) p = text_of k p"
  by (simp_all add: sys_close_def text_of_def split: option.splits)

text \<open>What has been sent through a connection's description.\<close>

definition out_of :: "kernel \<Rightarrow> nat \<Rightarrow> string" where
  "out_of k i = (case okind (ofdt k ! i) of Conn inq outq \<Rightarrow> outq | RegFile _ _ _ \<Rightarrow> [])"

lemma out_of_sent: "copy_full None k0 i k r w \<Longrightarrow> out_of k i = sent_bytes k w"
  by (auto simp: copy_full_def copy_safe_def framed_def path_of_def out_of_def sent_bytes_def kind_of_def
      split: obj.splits)

lemma out_of_close [simp]: "out_of (snd (sys_close k fd)) i = out_of k i"
  by (simp add: out_of_def)

end
