(* ===== verification/FileTools.thy ===== *)
theory FileTools
  imports Channel
begin

text \<open>
  The programs of \<^verbatim>\<open>src/02_Files\<close> on the kernel model: \<^verbatim>\<open>cpy_file.c\<close> with its retry loop
  \<^verbatim>\<open>write2\<close>, \<^verbatim>\<open>backward.c\<close>, \<^verbatim>\<open>dup_fd.c\<close>, \<^verbatim>\<open>write_file.c\<close>, \<^verbatim>\<open>write_vec.c\<close>,
  \<^verbatim>\<open>create_file.c\<close> and the two writing processes of \<^verbatim>\<open>trash.c\<close>. The two transfer loops take
  \<^verbatim>\<open>read\<close> and \<^verbatim>\<open>write\<close> as arguments and are verified inside the contracts of theory
  \<open>Channel\<close>. A loop whose end depends on the environment is a \<open>partial_function\<close>;
  \<open>None\<close> would mean that it does not return.
\<close>

section \<open>cpy_file.c\<close>

partial_function (option) write2 ::
  "('k \<Rightarrow> int \<Rightarrow> string \<Rightarrow> int \<times> 'k) \<Rightarrow> 'k \<Rightarrow> int \<Rightarrow> string \<Rightarrow> (int \<times> 'k) option" where
  "write2 wr k fd buffer =
     (if buffer = [] then Some (0, k)
      else (case wr k fd buffer of (written, k') \<Rightarrow>
        if written = -1 then Some (-1, k')
        else write2 wr k' fd (drop (nat written) buffer)))"

partial_function (option) cpy_loop ::
  "('k \<Rightarrow> int \<Rightarrow> nat \<Rightarrow> int \<times> string \<times> 'k) \<Rightarrow> ('k \<Rightarrow> int \<Rightarrow> string \<Rightarrow> int \<times> 'k) \<Rightarrow>
   'k \<Rightarrow> int \<Rightarrow> int \<Rightarrow> say list \<Rightarrow> (say list \<times> 'k) option" where
  "cpy_loop rd wr k fd_r fd_w out =
     (case rd k fd_r 64 of (n, buffer, k1) \<Rightarrow>
        if n > 0 then
          Option.bind (write2 wr k1 fd_w buffer) (\<lambda>(r, k2).
            cpy_loop rd wr k2 fd_r fd_w
              (if r > 0 then out @ [Perror ''Fehler bei write()''] else out))
        else Some (out, k1))"

definition rw_mode :: "32 word" where
  "rw_mode = S_IRUSR OR S_IWUSR OR S_IRGRP OR S_IWGRP OR S_IROTH"

definition cpy_main :: "string list \<Rightarrow> kernel \<Rightarrow> (int \<times> say list \<times> kernel) option" where
  "cpy_main argv k0 =
     (let k = sys_umask k0 0 in
      if length argv < 3 then
        Some (EXIT_FAILURE, [Err (''> '' @ argv ! 0 @ '' quelldatei zieldatei\<newline>'')], k)
      else
        (case sys_open k (argv ! 1) O_RDONLY [] 0 of (fd_r, k1) \<Rightarrow>
         case sys_open k1 (argv ! 2) O_WRONLY [O_EXCL, O_CREAT] rw_mode of (fd_w, k2) \<Rightarrow>
           if fd_r = -1 \<or> fd_w = -1 then
             Some (EXIT_FAILURE, [Perror ''Fehler bei open()''], k2)
           else map_option (\<lambda>(out, k3). (EXIT_SUCCESS, out, k3))
             (cpy_loop sys_read sys_write k2 fd_r fd_w [])))"

section \<open>backward.c\<close>

partial_function (option) bwread_loop ::
  "kernel \<Rightarrow> int \<Rightarrow> nat \<Rightarrow> string \<Rightarrow> (int \<times> nat \<times> string \<times> kernel) option" where
  "bwread_loop k fd nl out =
     (case sys_read k fd 1 of (rv, d, k1) \<Rightarrow>
        if rv = 1 then
          (let ch = hd d;
               nl' = (if ch = LF \<and> nl = 0 then Suc nl else nl);
               out' = (if ch = LF \<and> nl = 0 then out else out @ [ch])
           in case sys_lseek k1 fd (-2) SEEK_CUR of (p, k2) \<Rightarrow>
              if p < 0 then Some (rv, nl', out', k2) else bwread_loop k2 fd nl' out')
        else Some (rv, nl, out, k1))"

definition bwread :: "kernel \<Rightarrow> int \<Rightarrow> (string \<times> say list \<times> kernel) option" where
  "bwread k fd =
     (case sys_lseek k fd (-1) SEEK_END of (_, k1) \<Rightarrow>
        map_option (\<lambda>(rv, nl, out, k2).
          (if nl > 0 then out @ [LF] else out,
           if rv = 0 then [Err ''EOF unerwartet ...\<newline>'']
           else if rv = -1 then [Perror ''Fehler bei read()''] else [], k2))
        (bwread_loop k1 fd 0 []))"

definition backward_main :: "string list \<Rightarrow> kernel \<Rightarrow> (int \<times> string \<times> say list \<times> kernel) option" where
  "backward_main argv k =
     (if length argv < 2 then
        Some (EXIT_FAILURE, [], [Err (''Syntax: '' @ argv ! 0 @ '' datei\<newline>'')], k)
      else (case sys_open k (argv ! 1) O_RDONLY [] 0 of (fd, k1) \<Rightarrow>
        if fd < 0 then Some (EXIT_FAILURE, [], [Perror ''open''], k1)
        else map_option (\<lambda>(out, es, k2). (EXIT_SUCCESS, out, es, k2)) (bwread k1 fd)))"

section \<open>dup_fd.c\<close>

definition test_write :: "string \<Rightarrow> kernel \<Rightarrow> kernel" where
  "test_write s k = snd (sys_write k 1 s)"

definition dup_fd_main :: "kernel \<Rightarrow> int \<times> say list \<times> kernel" where
  "dup_fd_main k0 =
     (let k = sys_umask k0 0 in
      case sys_open k ''file1'' O_WRONLY [O_CREAT] rw_mode of (fd1, k1) \<Rightarrow>
      case sys_open k1 ''file2'' O_WRONLY [O_CREAT] rw_mode of (fd2, k2) \<Rightarrow>
      if fd1 = -1 \<or> fd2 = -1 then (EXIT_FAILURE, [Perror ''Fehler bei open()''], k2)
      else
        (let k3 = test_write ''Zeile 1\<newline>'' k2;
             k4 = snd (sys_dup2 k3 fd1 1);
             k5 = test_write ''Zeile 2\<newline>'' k4;
             k6 = snd (sys_dup2 k5 fd2 1);
             k7 = test_write ''Zeile 3\<newline>'' k6;
             k8 = test_write ''Zeile 4\<newline>'' k7;
             k9 = snd (sys_dup2 k8 fd1 1);
             k10 = test_write ''Zeile 5\<newline>'' k9;
             k11 = snd (sys_dup2 k10 fd2 1);
             k12 = test_write ''Zeile 6\<newline>'' k11;
             k13 = test_write ''Zeile 7\<newline>'' k12;
             k14 = snd (sys_close k13 fd1);
             k15 = snd (sys_close k14 fd2)
         in case sys_dup k15 2 of (fd3, k16) \<Rightarrow>
            (EXIT_SUCCESS, [], snd (sys_write k16 fd3 ''Schwerer fehler...\<newline>''))))"

section \<open>write_file.c, write_vec.c, create_file.c\<close>

definition write_file_main :: "string list \<Rightarrow> kernel \<Rightarrow> int \<times> say list \<times> kernel" where
  "write_file_main argv k0 =
     (let k = sys_umask k0 0 in
      if length argv < 2 then
        (EXIT_FAILURE, [Err (''Usage: '' @ argv ! 0 @ '' datei_zum_oeffnen\<newline>'')], k)
      else
        (let str = (if length argv < 3 then ''Keine Angaben gemacht\<newline>'' else argv ! 2);
             size = int (length str)
         in case sys_open k (argv ! 1) O_WRONLY [O_APPEND, O_CREAT] rw_mode of (fd, k1) \<Rightarrow>
            if fd = -1 then (EXIT_FAILURE, [Perror ''Fehler bei open()''], k1)
            else (case sys_write k1 fd str of (n, k2) \<Rightarrow>
              (EXIT_SUCCESS, if n \<noteq> size then [Perror ''Fehler bei write()''] else [], k2))))"

fun fill_vec :: "string list \<Rightarrow> string list \<times> int \<Rightarrow> string list \<times> int" where
  "fill_vec [] (vec, len) = (vec, len)"
| "fill_vec (s # ss) (vec, len) = fill_vec ss (vec @ [s], len + int (length s))"

definition write_vec_main :: "kernel \<Rightarrow> int \<times> say list \<times> kernel" where
  "write_vec_main k0 =
     (let k = sys_umask k0 0 in
      case sys_open k ''test'' O_WRONLY [O_CREAT, O_EXCL] rw_mode of (fd, k1) \<Rightarrow>
      if fd = -1 then (EXIT_FAILURE, [Perror ''open()''], k1)
      else (case fill_vec [''Ein string\<newline>'', ''Noch einer\<newline>'', ''Der letzte\<newline>''] ([], 0) of
        (vec, len) \<Rightarrow>
          (case sys_writev k1 fd vec of (n, k2) \<Rightarrow>
             if n \<noteq> len then (EXIT_FAILURE, [Perror ''writev()''], k2)
             else (EXIT_SUCCESS, [], snd (sys_close k2 fd)))))"

definition create_mode :: "32 word" where
  "create_mode = S_ISUID OR S_IRUSR OR S_IWUSR OR S_IRGRP OR S_IWGRP OR S_IROTH"

text \<open>\<open>errtext\<close> is the text \<^verbatim>\<open>strerror(errno)\<close> gives for the failure.\<close>

definition create_file_main :: "string \<Rightarrow> kernel \<Rightarrow> int \<times> say list \<times> kernel" where
  "create_file_main errtext k0 =
     (let k = sys_umask k0 0 in
      case sys_open k ''test_file.txt'' O_WRONLY [O_EXCL, O_CREAT] create_mode of (fd, k1) \<Rightarrow>
      if fd = -1 then (EXIT_FAILURE, [Out errtext], k1) else (EXIT_SUCCESS, [], k1))"

section \<open>trash.c\<close>

text \<open>
  After \<^verbatim>\<open>fork\<close> both processes hold descriptors of the same open file description. Each runs
  its loop of ten rounds, one byte to the file and one to standard output; the scheduler
  interleaves the two sequences of calls. The random pauses have no other effect. The parent
  waits for the child and ends the line. \<open>None\<close> is for a sequence that is no interleaving.
\<close>

fun rounds :: "nat \<Rightarrow> int \<Rightarrow> char \<Rightarrow> (int \<times> char) list" where
  "rounds 0 fd c = []"
| "rounds (Suc n) fd c = (fd, c) # (1, c) # rounds n fd c"

fun run_writes :: "(int \<times> char) list \<Rightarrow> kernel \<Rightarrow> kernel" where
  "run_writes [] k = k"
| "run_writes ((fd, c) # ops) k = run_writes ops (snd (sys_write k fd [c]))"

definition trash_open :: "kernel \<Rightarrow> int \<times> kernel" where
  "trash_open k = sys_open k ''file.txt'' O_WRONLY [O_CREAT, O_TRUNC] 0x1B6"

definition trash_outcome ::
  "bool \<Rightarrow> kernel \<Rightarrow> (int \<times> char) list \<Rightarrow> (int \<times> say list \<times> kernel) option" where
  "trash_outcome forked k ops =
     (case trash_open k of (fd, k1) \<Rightarrow>
        if fd = -1 then Some (EXIT_FAILURE, [Perror ''open()''], k1)
        else if \<not> forked then Some (EXIT_FAILURE, [Perror ''fork()''], k1)
        else if ops \<in> shuffles (rounds 10 fd (CHR ''x'')) (rounds 10 fd (CHR ''X''))
        then Some (EXIT_SUCCESS, [Out ''\<newline>''], run_writes ops k1) else None)"

section \<open>The retry loop and the copy loop, inside their contracts\<close>

lemma write2_Nil: "write2 wr k fd [] = Some (0, k)"
  by (simp add: write2.simps)

lemma write2_result: "write2 wr k fd b = Some x \<Longrightarrow> fst x = 0 \<or> fst x = -1"
proof (rule write2.raw_induct [where P = "\<lambda>wr k fd b x. fst x = 0 \<or> fst x = -1"])
  fix w and wr :: "'a \<Rightarrow> int \<Rightarrow> string \<Rightarrow> int \<times> 'a" and k fd b and y :: "int \<times> 'a"
  assume IH: "\<And>wr k fd b y. w wr k fd b = Some y \<Longrightarrow> fst y = 0 \<or> fst y = -1"
    and eq: "(if b = [] then Some (0, k) else case wr k fd b of (n, k') \<Rightarrow>
      if n = -1 then Some (-1, k') else w wr k' fd (drop (nat n) b)) = Some y"
  obtain n k' where e: "wr k fd b = (n, k')" by (cases "wr k fd b")
  from eq show "fst y = 0 \<or> fst y = -1"
    unfolding e by (auto split: if_splits dest: IH)
qed

text \<open>\<^verbatim>\<open>write2\<close> is a retry loop around whatever \<^verbatim>\<open>write\<close> it is given.\<close>

sublocale byte_sink \<subseteq> w2: retry_loop wr sent ok "write2 wr"
  by unfold_locales (simp_all add: write2_Nil write2.simps [of wr])

sublocale reliable_sink \<subseteq> rw2: reliable_retry wr sent ok "write2 wr"
  by unfold_locales

context byte_copy
begin

text \<open>
  The copy loop returns whatever the environment does, and prints nothing: the test
  \<^verbatim>\<open>write2(...) > 0\<close> never holds, so a failed write goes unreported.
\<close>

lemma cpy_loop_silent:
  "ok k r w \<Longrightarrow> \<exists>k'. cpy_loop rd wr k r w out = Some (out, k') \<and> ok k' r w"
proof (induction "length (pending k r)" arbitrary: k rule: less_induct)
  case less
  obtain n d k1 where e: "rd k r 64 = (n, d, k1)" by (cases "rd k r 64")
  have ok1: "ok k1 r w" using rd_keeps [OF less.prems e] by simp
  show ?case
  proof (cases "n > 0")
    case False
    with e ok1 show ?thesis by (simp add: cpy_loop.simps)
  next
    case True
    with rd_takes [OF less.prems _ e] have d: "d \<noteq> []" "pending k r = d @ pending k1 r" by auto
    from out.w2.delivers [of k1 r w "pending k1 r" d] ok1
    obtain x k2 where w: "write2 wr k1 w d = Some (x, k2)" "ok k2 r w" "pending k2 r = pending k1 r"
      by blast
    have x: "\<not> x > 0" using write2_result [OF w(1)] by auto
    from d w(3) have "length (pending k2 r) < length (pending k r)" by simp
    from less.hyps [OF this w(2)] True e w(1) x show ?thesis
      by (simp add: cpy_loop.simps [of rd wr k r w])
  qed
qed

end

context reliable_copy
begin

lemma cpy_loop_copies:
  "ok k r w \<Longrightarrow> \<exists>k'. cpy_loop rd wr k r w out = Some (out, k') \<and> ok k' r w \<and>
     sent k' w = sent k w @ pending k r \<and> pending k' r = []"
proof (induction "length (pending k r)" arbitrary: k rule: less_induct)
  case less
  obtain n d k1 where e: "rd k r 64 = (n, d, k1)" by (cases "rd k r 64")
  have ok1: "ok k1 r w" "sent k1 w = sent k w" using rd_keeps [OF less.prems e] by simp_all
  have n: "n = int (length d)" "pending k r = d @ pending k1 r" "d = [] \<longrightarrow> pending k r = []"
    using rd_takes [OF less.prems _ e] rd_succeeds [OF less.prems, of 64] e by auto
  show ?case
  proof (cases "d = []")
    case True
    with e n ok1 show ?thesis by (simp add: cpy_loop.simps)
  next
    case False
    from rout.rw2.complete [of k1 r w "pending k1 r" d] ok1
    obtain k2 where w: "write2 wr k1 w d = Some (0, k2)" "ok k2 r w" "pending k2 r = pending k1 r"
      "sent k2 w = sent k1 w @ d" by blast
    from False n w(3) have "length (pending k2 r) < length (pending k r)" by simp
    from less.hyps [OF this w(2)] False n e w ok1 show ?thesis
      by (simp add: cpy_loop.simps [of rd wr k r w])
  qed
qed

end

section \<open>Properties of cpy_file.c\<close>

lemma cpy_open:
  assumes "files k src = Some f" and "files k dst = None"
    and "src \<notin> set (denied k)" and "dst \<notin> set (denied k)"
  shows "\<exists>r w k1 k2. sys_open (sys_umask k 0) src O_RDONLY [] 0 = (r, k1) \<and>
    sys_open k1 dst O_WRONLY [O_EXCL, O_CREAT] rw_mode = (w, k2) \<and> 0 \<le> r \<and> 0 \<le> w \<and>
    copy_ok k2 r w \<and> pending k2 r = content f \<and> sent_bytes k2 w = [] \<and>
    framed (Some dst) (files k) k2 w \<and> rsched k2 = rsched k \<and> wsched k2 = wsched k"
proof -
  have "files (sys_umask k 0) src = Some f" "src \<notin> set (denied (sys_umask k 0))"
    "files (sys_umask k 0) dst = None" "dst \<notin> set (denied (sys_umask k 0))" using assms by simp_all
  then obtain r w k1 k2 where
    "sys_open (sys_umask k 0) src O_RDONLY [] 0 = (r, k1)"
      "sys_open k1 dst O_WRONLY [O_EXCL, O_CREAT] rw_mode = (w, k2)" "0 \<le> r" "0 \<le> w"
      "copy_ok k2 r w" "pending k2 r = content f" "sent_bytes k2 w = []"
      "kind_of k2 w = Some (RegFile dst 0 False)"
      "rsched k2 = rsched (sys_umask k 0)" "wsched k2 = wsched (sys_umask k 0)"
      "files k2 = (files (sys_umask k 0))(dst \<mapsto>
         \<lparr>content = [], perms = rw_mode AND NOT (cmask (sys_umask k 0))\<rparr>)"
    by (rule open_copy [where fl = "[O_EXCL, O_CREAT]" and m = rw_mode]) auto
  then show ?thesis by (auto simp: framed_def path_of_def)
qed

text \<open>
  C14: \<^verbatim>\<open>write2\<close> on any descriptor that appends (a connection, or a file written at its end)
  returns for every sequence of short and failed writes; it returns 0 exactly when all
  bytes were delivered, and -1 when only a proper prefix of them was.
\<close>

theorem write2_total:
  assumes "sink_ok k fd"
  shows "\<exists>r k' d. write2 sys_write k fd b = Some (r, k') \<and> sent_bytes k' fd = sent_bytes k fd @ d \<and>
    (r = 0 \<and> d = b \<or> r = -1 \<and> strict_prefix d b)"
  using posix_sink.w2.delivers [OF assms, of b] by blast

theorem write2_total_witness:
  "\<exists>r k' d. write2 sys_write (boot Map.empty [] [Upto 1, Fail]) 1 ''abc'' = Some (r, k') \<and>
     sent_bytes k' 1 = sent_bytes (boot Map.empty [] [Upto 1, Fail]) 1 @ d \<and>
     (r = 0 \<and> d = ''abc'' \<or> r = -1 \<and> strict_prefix d ''abc'')"
  by (rule write2_total) (simp add: sink_ok_def kind_of_def acc_of_def get_ofd_def boot_def)

text \<open>
  C12: \<^verbatim>\<open>cpy_file\<close> copies: for an existing source and a new destination, whatever short
  reads and writes the environment produces (but no failures), the program exits with
  success, prints nothing, and the destination holds exactly the bytes of the source,
  created with mode 0664.
\<close>

theorem cpy_main_copies:
  assumes "argv = [prog, src, dst]" and "files k src = Some f" and "files k dst = None"
    and "src \<notin> set (denied k)" and "dst \<notin> set (denied k)" and "no_fail k"
  shows "\<exists>k' f'. cpy_main argv k = Some (EXIT_SUCCESS, [], k') \<and> files k' dst = Some f' \<and>
    content f' = content f \<and> (\<forall>q. q \<noteq> dst \<longrightarrow> files k' q = files k q)"
proof -
  from cpy_open [OF assms(2,3,4,5)] obtain r w k1 k2 where
    o: "sys_open (sys_umask k 0) src O_RDONLY [] 0 = (r, k1)"
      "sys_open k1 dst O_WRONLY [O_EXCL, O_CREAT] rw_mode = (w, k2)" "0 \<le> r" "0 \<le> w"
    and c: "copy_ok k2 r w" "pending k2 r = content f" "sent_bytes k2 w = []"
      "framed (Some dst) (files k) k2 w" "rsched k2 = rsched k" "wsched k2 = wsched k"
    by blast
  have safe: "copy_safe (Some dst) (files k) k2 r w"
    using c assms(6) by (simp add: copy_safe_def no_fail_def)
  from posix_reliable.cpy_loop_copies [OF safe, of "[]"] obtain k' where
    l: "cpy_loop sys_read sys_write k2 r w [] = Some ([], k')" "copy_safe (Some dst) (files k) k' r w"
      "sent_bytes k' w = content f" using c by auto
  from l(2) obtain off app where kd: "kind_of k' w = Some (RegFile dst off app)"
    by (auto simp: copy_safe_def framed_def path_of_def split: option.splits obj.splits)
  with l(2) obtain f' where "files k' dst = Some f'"
    by (auto simp: copy_safe_def copy_ok_def sink_ok_def)
  with kd l o assms(1) show ?thesis
    by (auto simp: cpy_main_def Let_def sent_bytes_def text_of_def copy_safe_def framed_def)
qed

theorem cpy_main_copies_witness:
  "\<exists>k' f'. cpy_main [''cp'', ''a'', ''b'']
      (boot [''a'' \<mapsto> \<lparr>content = ''hallo'', perms = 0\<rparr>] [Upto 1, Full] [Upto 0, Upto 0, Full]) =
      Some (EXIT_SUCCESS, [], k') \<and> files k' ''b'' = Some f' \<and> content f' = ''hallo''"
  using cpy_main_copies [of "[''cp'', ''a'', ''b'']" "''cp''" "''a''" "''b''"
      "boot [''a'' \<mapsto> \<lparr>content = ''hallo'', perms = 0\<rparr>] [Upto 1, Full] [Upto 0, Upto 0, Full]"
      "\<lparr>content = ''hallo'', perms = 0\<rparr>"]
  by (simp add: boot_def no_fail_def) blast

text \<open>
  \<^verbatim>\<open>cpy_file\<close> never reports a failed transfer: once both files are open it exits with
  success and prints nothing for every environment, also one in which reads or writes fail
  and bytes are lost. The test \<^verbatim>\<open>write2(...) > 0\<close> in the loop cannot hold.
\<close>

theorem cpy_main_never_reports:
  assumes "argv = [prog, src, dst]" and "files k src = Some f" and "files k dst = None"
    and "src \<notin> set (denied k)" and "dst \<notin> set (denied k)"
  shows "\<exists>k'. cpy_main argv k = Some (EXIT_SUCCESS, [], k')"
proof -
  from cpy_open [OF assms(2-5)] obtain r w k1 k2 where
    o: "sys_open (sys_umask k 0) src O_RDONLY [] 0 = (r, k1)"
      "sys_open k1 dst O_WRONLY [O_EXCL, O_CREAT] rw_mode = (w, k2)" "0 \<le> r" "0 \<le> w"
    and c: "copy_ok k2 r w" by blast
  from posix_copy.cpy_loop_silent [OF c, of "[]"] o assms(1) show ?thesis
    by (auto simp: cpy_main_def Let_def)
qed

theorem cpy_main_never_reports_witness:
  "\<exists>k'. cpy_main [''cp'', ''a'', ''b'']
      (boot [''a'' \<mapsto> \<lparr>content = ''hallo'', perms = 0\<rparr>] [] [Fail]) = Some (EXIT_SUCCESS, [], k')"
  using cpy_main_never_reports [of "[''cp'', ''a'', ''b'']" "''cp''" "''a''" "''b''"
      "boot [''a'' \<mapsto> \<lparr>content = ''hallo'', perms = 0\<rparr>] [] [Fail]"
      "\<lparr>content = ''hallo'', perms = 0\<rparr>"]
  by (simp add: boot_def)

section \<open>backward.c\<close>

text \<open>A descriptor that reads a file of known contents at a known offset, without failures.\<close>

definition reading :: "kernel \<Rightarrow> int \<Rightarrow> string \<Rightarrow> nat \<Rightarrow> bool \<Rightarrow> string \<Rightarrow> bool" where
  "reading k fd p off app c =
     (kind_of k fd = Some (RegFile p off app) \<and> acc_of k fd \<noteq> Some O_WRONLY \<and>
      text_of k p = c \<and> Fail \<notin> set (rsched k))"

lemma reading_read:
  assumes "reading k fd p off app c"
  shows "\<exists>k'. sys_read k fd 1 = (if off < length c then (1, [c ! off], k') else (0, [], k')) \<and>
    reading k' fd p (if off < length c then Suc off else off) app c"
proof -
  from assms have k: "kind_of k fd = Some (RegFile p off app)" "source_ok k fd" "text_of k p = c"
    "acc_of k fd \<noteq> Some O_WRONLY" "Fail \<notin> set (rsched k)"
    by (auto simp: reading_def source_ok_def)
  obtain n d k' where e: "sys_read k fd 1 = (n, d, k')" by (cases "sys_read k fd 1")
  from e k(2) show ?thesis
  proof (cases rule: sys_read_cases)
    case fail
    with k show ?thesis by simp
  next
    case (regular i q o' a m)
    have "m = 1" using regular(4,5) by simp
    with regular k have d: "d = take 1 (drop off c)" by auto
    have "reading k' fd p (off + length d) app c"
      using regular k get_ofd_bound [OF regular(1)] sched_Fail_tl [of "rsched k"]
      by (simp add: reading_def kind_set_kind)
    with d e regular(6) show ?thesis by (auto simp: take_Suc hd_drop_conv_nth)
  next
    case (socket i inq outq m)
    with k show ?thesis by simp
  qed
qed

lemma reading_seek:
  assumes "reading k fd p off app c" and "n = (case w of SEEK_SET \<Rightarrow> 0 | SEEK_CUR \<Rightarrow> int off
      | SEEK_END \<Rightarrow> int (length c)) + d"
  shows "\<exists>k'. sys_lseek k fd d w = (if n < 0 then (-1, k) else (n, k')) \<and> reading k' fd p (nat n) app c"
proof -
  from assms obtain i where i: "get_ofd k fd = Some i" "okind (ofdt k ! i) = RegFile p off app"
    "text_of k p = c" by (auto simp: reading_def kind_Some)
  have "reading (set_kind k i (RegFile p (nat n) app)) fd p (nat n) app c"
    using assms(1) i get_ofd_bound [OF i(1)] by (simp add: reading_def kind_set_kind)
  with i assms(2) show ?thesis
    by (intro exI [of _ "set_kind k i (RegFile p (nat n) app)"]) (cases w; simp add: sys_lseek_def Let_def)
qed

lemma bwread_loop_reverses:
  assumes "reading k fd p off app c" and "off < length c"
  shows "\<exists>k'. bwread_loop k fd nl out =
    Some (1, if nl = 0 \<and> LF \<in> set (take (Suc off) c) then 1 else nl,
      out @ (if nl = 0 then remove1 LF (rev (take (Suc off) c)) else rev (take (Suc off) c)), k')"
  using assms
proof (induction off arbitrary: k nl out)
  case 0
  from reading_read [OF 0(1)] 0(2) obtain k1 where
    r: "sys_read k fd 1 = (1, [c ! 0], k1)" "reading k1 fd p 1 app c" by auto
  from reading_seek [OF r(2), of "-1" SEEK_CUR "-2"] obtain k2 where
    "sys_lseek k1 fd (-2) SEEK_CUR = (-1, k1)" by auto
  with r 0(2) show ?case
    by (simp add: bwread_loop.simps [of k] Let_def take_Suc_conv_app_nth)
next
  case (Suc off)
  from reading_read [OF Suc(2)] Suc(3) obtain k1 where
    r: "sys_read k fd 1 = (1, [c ! Suc off], k1)" "reading k1 fd p (Suc (Suc off)) app c" by auto
  from reading_seek [OF r(2), of "int off" SEEK_CUR "-2"] obtain k2 where
    s: "sys_lseek k1 fd (-2) SEEK_CUR = (int off, k2)" "reading k2 fd p off app c" by auto
  have t: "take (Suc (Suc off)) c = take (Suc off) c @ [c ! Suc off]"
    using Suc(3) by (rule take_Suc_conv_app_nth)
  note IH = Suc.IH [OF s(2) Suc_lessD [OF Suc(3)]]
  show ?case
  proof (cases "c ! Suc off = LF \<and> nl = 0")
    case True
    with IH [of 1 out] r s show ?thesis
      by (auto simp: bwread_loop.simps [of k] Let_def t)
  next
    case False
    with IH [of nl "out @ [c ! Suc off]"] r s show ?thesis
      by (auto simp: bwread_loop.simps [of k] Let_def t)
  qed
qed

text \<open>
  \<^verbatim>\<open>backward\<close> prints a non-empty file reversed: the bytes in reverse order, except that
  the last line feed of the file is moved to the end of the output; it returns and reports
  nothing when no read fails.
\<close>

theorem bwread_reverses:
  assumes "reading k fd p off app c" and "c \<noteq> []"
  shows "\<exists>k'. bwread k fd = Some (remove1 LF (rev c) @ (if LF \<in> set c then [LF] else []), [], k')"
proof -
  from reading_seek [OF assms(1), of "int (length c) - 1" SEEK_END "-1"] assms(2) obtain k1 where
    s: "sys_lseek k fd (-1) SEEK_END = (int (length c) - 1, k1)"
    and r: "reading k1 fd p (nat (int (length c) - 1)) app c" by (cases c) auto
  from assms(2) have l: "Suc (nat (int (length c) - 1)) = length c" by (cases c) auto
  then have "nat (int (length c) - 1) < length c" by linarith
  from bwread_loop_reverses [OF r this, of 0 "[]", unfolded l] obtain k' where
    "bwread_loop k1 fd 0 [] = Some (1, if LF \<in> set c then 1 else 0, remove1 LF (rev c), k')" by auto
  with s show ?thesis by (intro exI [of _ k']) (simp add: bwread_def)
qed

theorem bwread_reverses_witness:
  "\<exists>k'. bwread (snd (sys_open (boot [''t'' \<mapsto> \<lparr>content = ''ab\<newline>cd\<newline>'', perms = 0\<rparr>] [Upto 7] [])
      ''t'' O_RDONLY [] 0)) 3 = Some (''dc\<newline>ba\<newline>'', [], k')"
proof -
  have "reading (snd (sys_open (boot [''t'' \<mapsto> \<lparr>content = ''ab\<newline>cd\<newline>'', perms = 0\<rparr>] [Upto 7] [])
      ''t'' O_RDONLY [] 0)) 3 ''t'' 0 False ''ab\<newline>cd\<newline>''"
    by (simp add: reading_def boot_def sys_open_def alloc_fd_def kind_of_def acc_of_def get_ofd_def
        set_slot_def text_of_def eval_nat_numeral)
  from bwread_reverses [OF this] show ?thesis by simp
qed

text \<open>
  On an empty file \<^verbatim>\<open>backward\<close> prints nothing and reports an unexpected end of file: the
  seek to one byte before the end fails, its result is ignored, and the first read returns 0.
\<close>

theorem bwread_empty:
  assumes "reading k fd p 0 app []"
  shows "\<exists>k'. bwread k fd = Some ([], [Err ''EOF unerwartet ...\<newline>''], k')"
proof -
  from reading_seek [OF assms, of "-1" SEEK_END "-1"] have "sys_lseek k fd (-1) SEEK_END = (-1, k)" by auto
  moreover from reading_read [OF assms] obtain k' where "sys_read k fd 1 = (0, [], k')" by auto
  ultimately show ?thesis by (simp add: bwread_def bwread_loop.simps [of k])
qed

theorem bwread_empty_witness:
  "\<exists>k'. bwread (snd (sys_open (boot [''t'' \<mapsto> \<lparr>content = [], perms = 0\<rparr>] [] [])
      ''t'' O_RDONLY [] 0)) 3 = Some ([], [Err ''EOF unerwartet ...\<newline>''], k')"
  by (rule bwread_empty [where p = "''t''" and app = False])
    (simp add: reading_def boot_def sys_open_def alloc_fd_def kind_of_def acc_of_def get_ofd_def
        set_slot_def text_of_def eval_nat_numeral)

section \<open>dup_fd.c, write_file.c, create_file.c, write_vec.c\<close>

lemmas call_defs = sys_open_def sys_write_def sys_dup_def sys_dup2_def sys_close_def sys_umask_def
  alloc_fd_def get_ofd_def set_slot_def set_kind_def set_text_def text_of_def next_wr_def put_at_def

text \<open>
  The kernel states between the calls of \<^verbatim>\<open>dup_fd\<close>: \<open>g\<close> is the description that descriptor 1
  refers to, \<open>x1\<close>, \<open>x2\<close> and \<open>t\<close> what has been written to the two files and the terminal.
\<close>

definition dup_state :: "(string \<rightharpoonup> inode) \<Rightarrow> nat \<Rightarrow> string \<Rightarrow> string \<Rightarrow> string \<Rightarrow> kernel" where
  "dup_state fs g x1 x2 t = \<lparr>files = fs(''file1'' \<mapsto> \<lparr>content = x1, perms = rw_mode\<rparr>,
       ''file2'' \<mapsto> \<lparr>content = x2, perms = rw_mode\<rparr>),
     fdt = [Some 0, Some g, Some 2, Some 3, Some 4],
     ofdt = [\<lparr>okind = Conn [] [], oacc = O_RDWR\<rparr>, \<lparr>okind = Conn [] t, oacc = O_RDWR\<rparr>,
       \<lparr>okind = Conn [] [], oacc = O_RDWR\<rparr>,
       \<lparr>okind = RegFile ''file1'' (length x1) False, oacc = O_WRONLY\<rparr>,
       \<lparr>okind = RegFile ''file2'' (length x2) False, oacc = O_WRONLY\<rparr>],
     rsched = [], wsched = [], denied = [], cmask = 0\<rparr>"

lemma dup_state_step:
  "test_write s (dup_state fs (Suc 0) x1 x2 t) = dup_state fs (Suc 0) x1 x2 (t @ s)"
  "test_write s (dup_state fs 3 x1 x2 t) = dup_state fs 3 (x1 @ s) x2 t"
  "test_write s (dup_state fs 4 x1 x2 t) = dup_state fs 4 x1 (x2 @ s) t"
  "snd (sys_dup2 (dup_state fs g x1 x2 t) 3 1) = dup_state fs 3 x1 x2 t"
  "snd (sys_dup2 (dup_state fs g x1 x2 t) 4 1) = dup_state fs 4 x1 x2 t"
  by (simp_all add: test_write_def dup_state_def call_defs Let_def fun_upd_twist)

lemma dup_state_open:
  assumes "fs ''file1'' = None" and "fs ''file2'' = None"
  shows "\<exists>k1. sys_open (sys_umask (boot fs [] []) 0) ''file1'' O_WRONLY [O_CREAT] rw_mode = (3, k1) \<and>
    sys_open k1 ''file2'' O_WRONLY [O_CREAT] rw_mode = (4, dup_state fs (Suc 0) [] [] [])"
  using assms by (simp add: dup_state_def boot_def call_defs Let_def eval_nat_numeral)

text \<open>
  \<^verbatim>\<open>dup_fd\<close> redirects as it announces: each \<^verbatim>\<open>dup2\<close> onto descriptor 1 sends the next
  lines to the chosen file, lines written through the same file again continue where the
  previous ones ended, and the copy of descriptor 2 reaches the error channel.
\<close>

theorem dup_fd_routes:
  assumes "fs ''file1'' = None" and "fs ''file2'' = None"
  shows "\<exists>k'. dup_fd_main (boot fs [] []) = (EXIT_SUCCESS, [], k') \<and>
    files k' = fs(''file1'' \<mapsto> \<lparr>content = ''Zeile 2\<newline>Zeile 5\<newline>'', perms = rw_mode\<rparr>,
                  ''file2'' \<mapsto> \<lparr>content = ''Zeile 3\<newline>Zeile 4\<newline>Zeile 6\<newline>Zeile 7\<newline>'', perms = rw_mode\<rparr>) \<and>
    okind (ofdt k' ! 1) = Conn [] ''Zeile 1\<newline>'' \<and>
    okind (ofdt k' ! 2) = Conn [] ''Schwerer fehler...\<newline>''"
proof -
  define k13 where "k13 = dup_state fs 4 ''Zeile 2\<newline>Zeile 5\<newline>''
    ''Zeile 3\<newline>Zeile 4\<newline>Zeile 6\<newline>Zeile 7\<newline>'' ''Zeile 1\<newline>''"
  define k15 where "k15 = snd (sys_close (snd (sys_close k13 3)) 4)"
  from dup_state_open [OF assms] have "dup_fd_main (boot fs [] []) =
      (EXIT_SUCCESS, [], snd (sys_write (snd (sys_dup k15 2)) (fst (sys_dup k15 2)) ''Schwerer fehler...\<newline>''))"
    by (auto simp: dup_fd_main_def dup_state_step k15_def k13_def Let_def split: prod.splits)
  then show ?thesis
    by (simp add: k15_def k13_def dup_state_def call_defs Let_def)
qed

theorem dup_fd_routes_witness:
  "\<exists>k'. dup_fd_main (boot Map.empty [] []) = (EXIT_SUCCESS, [], k') \<and>
    text_of k' ''file1'' = ''Zeile 2\<newline>Zeile 5\<newline>''"
  using dup_fd_routes [of Map.empty] by (auto simp: text_of_def)

text \<open>
  \<^verbatim>\<open>write_file\<close> appends: when writes are not interrupted, the text given (or the default
  text when there is none) is added behind the old contents of the file, also when the file
  is new; the program exits with success and reports nothing.
\<close>

theorem write_file_appends:
  assumes "full_writes k" and "p \<notin> set (denied k)"
    and "s = (case rest of [] \<Rightarrow> ''Keine Angaben gemacht\<newline>'' | t # _ \<Rightarrow> t)"
  shows "\<exists>k'. write_file_main (prog # p # rest) k = (EXIT_SUCCESS, [], k') \<and>
    text_of k' p = text_of k p @ s"
proof -
  have s: "(if length (prog # p # rest) < 3 then ''Keine Angaben gemacht\<newline>'' else (prog # p # rest) ! 2) = s"
    using assms(3) by (cases rest) simp_all
  define d where "d = \<lparr>okind = RegFile p 0 True, oacc = O_WRONLY\<rparr>"
  obtain k0 where o: "sys_open (sys_umask k 0) p O_WRONLY [O_APPEND, O_CREAT] rw_mode = alloc_fd k0 d"
    and k0: "text_of k0 p = text_of k p" "files k0 p \<noteq> None" "wsched k0 = wsched k"
    using assms(2)
    by (cases "files k p") (simp_all add: sys_open_existing sys_open_new d_def text_of_def)
  obtain fd k1 where a: "alloc_fd k0 d = (fd, k1)" by (cases "alloc_fd k0 d")
  note f = alloc_fd_frame [OF a]
  have k1: "text_of k1 p = text_of k p" "files k1 p \<noteq> None" "fd \<noteq> -1"
    using f(1,4) k0 by (auto simp: text_of_def)
  have i: "ofdt k1 ! length (ofdt k0) = d" by (simp add: f(3))
  have w: "(case wsched k1 of [] \<Rightarrow> Full | x # _ \<Rightarrow> x) = Full"
    using assms(1) f(6) k0(3) by (auto simp: full_writes_def split: list.splits)
  have "\<exists>k2. sys_write k1 fd s = (int (length s), k2) \<and> text_of k2 p = text_of k p @ s"
    using k1 f(2) i w by (simp add: sys_write_def next_wr_eq d_def Let_def)
  with k1(3) o a s show ?thesis by (auto simp: write_file_main_def Let_def)
qed

theorem write_file_appends_witness:
  "\<exists>k'. write_file_main [''wf'', ''log'', ''neu''] (boot [''log'' \<mapsto> \<lparr>content = ''alt'', perms = 0\<rparr>] [] []) =
      (EXIT_SUCCESS, [], k') \<and> text_of k' ''log'' = ''altneu''"
  using write_file_appends [of "boot [''log'' \<mapsto> \<lparr>content = ''alt'', perms = 0\<rparr>] [] []" "''log''"
      "''neu''" "[''neu'']" "''wf''"]
  by (simp add: boot_def full_writes_def text_of_def)

section \<open>trash.c\<close>

lemma write_elsewhere:
  assumes "sink_ok k a" and "sink_ok k w" and "get_ofd k a \<noteq> get_ofd k w"
    and "apart (kind_of k a) (kind_of k w)" and "b \<noteq> []" and "sys_write k w b = (c, k')"
  shows "sink_ok k' a \<and> sent_bytes k' a = sent_bytes k a \<and> get_ofd k' a \<noteq> get_ofd k' w \<and>
    apart (kind_of k' a) (kind_of k' w)"
  using assms(6,2,5)
proof (cases rule: sys_write_cases)
  case fail
  with assms show ?thesis by simp
next
  case (regular i p off app d)
  note b = get_ofd_bound [OF regular(1)]
  with regular assms show ?thesis
    by (auto simp: sink_ok_def sent_bytes_def kind_set_kind
        split: option.splits obj.splits elim!: apart.elims)
next
  case (socket i inq outq d)
  note b = get_ofd_bound [OF socket(1)]
  with socket assms show ?thesis
    by (auto simp: sink_ok_def sent_bytes_def kind_set_kind
        split: option.splits obj.splits elim!: apart.elims)
qed

definition two_sinks :: "kernel \<Rightarrow> int \<Rightarrow> bool" where
  "two_sinks k fd = (sink_ok k fd \<and> sink_ok k 1 \<and> get_ofd k fd \<noteq> get_ofd k 1 \<and>
     apart (kind_of k fd) (kind_of k 1) \<and> Fail \<notin> set (wsched k))"

lemma write_keeps_path:
  assumes "sink_ok k w" and "b \<noteq> []" and "sys_write k w b = (c, k')"
  shows "path_of k' a = path_of k a"
  using assms(3,1,2)
proof (cases rule: sys_write_cases)
  case fail
  then show ?thesis by (simp add: path_of_def)
next
  case (regular i p off app d)
  then show ?thesis using get_ofd_bound [OF regular(1)] kind_of_same [of k a w]
    by (cases "get_ofd k a = Some i") (auto simp: path_of_def kind_set_kind)
next
  case (socket i inq outq d)
  then show ?thesis using get_ofd_bound [OF socket(1)] kind_of_same [of k a w]
    by (cases "get_ofd k a = Some i") (auto simp: path_of_def kind_set_kind)
qed

lemma apart_sym: "apart x y \<Longrightarrow> apart y x"
  by (induction x y rule: apart.induct) (auto elim: apart.elims)

lemma two_sinks_write:
  assumes "two_sinks k fd" and "w = fd \<or> w = 1" and "sys_write k w [c] = (n, k')"
  shows "two_sinks k' fd \<and> sent_bytes k' fd = sent_bytes k fd @ (if w = fd then [c] else [])"
proof -
  from assms(1) have k: "sink_ok k fd" "sink_ok k 1" "get_ofd k fd \<noteq> get_ofd k 1"
    "apart (kind_of k fd) (kind_of k 1)" "Fail \<notin> set (wsched k)" by (auto simp: two_sinks_def)
  then have ne: "fd \<noteq> 1" by auto
  from sys_write_sched [OF assms(3)] k(5) have f: "Fail \<notin> set (wsched k')" by auto
  show ?thesis
  proof (cases "w = fd")
    case True
    from sink_ok_write [OF k(1) _ assms(3) [unfolded True]] k(5)
    have "sink_ok k' fd" "sent_bytes k' fd = sent_bytes k fd @ [c]" by auto
    moreover from write_elsewhere [OF k(2,1) _ _ _ assms(3) [unfolded True]] k(3) apart_sym [OF k(4)]
    have "sink_ok k' 1" "get_ofd k' 1 \<noteq> get_ofd k' fd" "apart (kind_of k' 1) (kind_of k' fd)" by auto
    ultimately show ?thesis using f True apart_sym by (auto simp: two_sinks_def)
  next
    case False
    with assms(2,3) have e: "sys_write k 1 [c] = (n, k')" by simp
    from sink_ok_write [OF k(2) _ e] have "sink_ok k' 1" by simp
    with write_elsewhere [OF k(1-4) _ e] f False show ?thesis by (auto simp: two_sinks_def)
  qed
qed

lemma run_writes_file:
  assumes "two_sinks k fd" and "\<forall>(f, c) \<in> set ops. f = fd \<or> f = 1"
  shows "sent_bytes (run_writes ops k) fd = sent_bytes k fd @ map snd (filter (\<lambda>(f, c). f = fd) ops) \<and>
    path_of (run_writes ops k) fd = path_of k fd"
  using assms
proof (induction ops arbitrary: k)
  case Nil
  then show ?case by simp
next
  case (Cons op ops)
  obtain f c where op: "op = (f, c)" by (cases op)
  obtain n k1 where e: "sys_write k f [c] = (n, k1)" by (cases "sys_write k f [c]")
  from two_sinks_write [OF Cons.prems(1) _ e] Cons.prems(2) op
  have "two_sinks k1 fd" "sent_bytes k1 fd = sent_bytes k fd @ (if f = fd then [c] else [])" by auto
  moreover have "path_of k1 fd = path_of k fd"
    using write_keeps_path [OF _ _ e] Cons.prems op by (auto simp: two_sinks_def)
  ultimately show ?case using Cons.IH [of k1] Cons.prems(2) op e by simp
qed

lemma map_shuffles: "map f ` shuffles xs ys \<subseteq> shuffles (map f xs) (map f ys)"
  by (induction xs ys rule: shuffles.induct) auto

lemma filter_rounds:
  "fd \<noteq> 1 \<Longrightarrow> map snd (filter (\<lambda>(f, x). f = fd) (rounds n fd c)) = replicate n c"
  by (induction n) auto

lemma rounds_fd: "(f, x) \<in> set (rounds n fd c) \<Longrightarrow> f = fd \<or> f = 1"
  by (induction n) auto

text \<open>
  The two processes of \<^verbatim>\<open>trash\<close> never overwrite each other: they share one file offset, so
  for every interleaving of their writes the file holds all twenty characters, an
  interleaving of the ten of the parent with the ten of the child.
\<close>

theorem trash_keeps_all:
  assumes "Fail \<notin> set ws"
    and "ops \<in> shuffles (rounds 10 3 (CHR ''x'')) (rounds 10 3 (CHR ''X''))"
  shows "\<exists>k'. trash_outcome True (boot fs rs ws) ops = Some (EXIT_SUCCESS, [Out ''\<newline>''], k') \<and>
    text_of k' ''file.txt'' \<in> shuffles (replicate 10 (CHR ''x'')) (replicate 10 (CHR ''X''))"
proof -
  obtain k1 where o: "trash_open (boot fs rs ws) = (3, k1)" and k1: "two_sinks k1 3"
    "sent_bytes k1 3 = []" "kind_of k1 3 = Some (RegFile ''file.txt'' 0 False)"
    using assms(1)
    by (cases "fs ''file.txt''") (simp_all add: trash_open_def boot_def sys_open_def alloc_fd_def Let_def
        set_slot_def set_text_def two_sinks_def sink_ok_def sent_bytes_def kind_of_def acc_of_def
        get_ofd_def text_of_def eval_nat_numeral)
  have fds: "\<forall>(f, c) \<in> set ops. f = 3 \<or> f = 1"
    using set_shuffles [OF assms(2)] rounds_fd by fastforce
  have "filter (\<lambda>(f, c). f = 3) ops \<in> shuffles
      (filter (\<lambda>(f, c). f = 3) (rounds 10 3 (CHR ''x''))) (filter (\<lambda>(f, c). f = 3) (rounds 10 3 (CHR ''X'')))"
    using assms(2) by (metis filter_shuffles imageI)
  from subsetD [OF map_shuffles [of snd] imageI [OF this]]
  have sh: "map snd (filter (\<lambda>(f, c). f = 3) ops) \<in>
      shuffles (replicate 10 (CHR ''x'')) (replicate 10 (CHR ''X''))"
    by (simp only: filter_rounds [of 3, simplified])
  from run_writes_file [OF k1(1) fds] k1(2,3) have
    r: "sent_bytes (run_writes ops k1) 3 = map snd (filter (\<lambda>(f, c). f = 3) ops)"
      "path_of (run_writes ops k1) 3 = Some ''file.txt''" by (auto simp: path_of_def)
  then have "text_of (run_writes ops k1) ''file.txt'' = map snd (filter (\<lambda>(f, c). f = 3) ops)"
    by (auto simp: sent_bytes_def path_of_def split: option.splits obj.splits)
  with sh o assms(2) show ?thesis by (simp add: trash_outcome_def)
qed

theorem trash_keeps_all_witness:
  "\<exists>k'. trash_outcome True (boot Map.empty [] [Upto 0])
      (splice (rounds 10 3 (CHR ''x'')) (rounds 10 3 (CHR ''X''))) =
      Some (EXIT_SUCCESS, [Out ''\<newline>''], k') \<and>
    text_of k' ''file.txt'' \<in> shuffles (replicate 10 (CHR ''x'')) (replicate 10 (CHR ''X''))"
  by (rule trash_keeps_all) (simp, rule splice_in_shuffles)

end
