(* ===== verification/FileTransfer.thy ===== *)
theory FileTransfer
  imports Channel
begin

text \<open>
  The file transfer of \<^verbatim>\<open>src/11_Network\<close>: the client \<^verbatim>\<open>parallel_server/client2.c\<close> sends the name
  of a file, a line feed and its contents over a connection, and three servers store what
  they receive under \<^verbatim>\<open>$HOME/tmp\<close>: \<^verbatim>\<open>server2.c\<close> one connection after the other, \<^verbatim>\<open>pserver.c\<close> in
  a child process each, \<^verbatim>\<open>thserver.c\<close> in a thread each. A connection is a descriptor of the kernel
  model; what the peer sends is its input. The arrays \<^verbatim>\<open>puffer\<close> and \<^verbatim>\<open>path_file\<close> are lists of 1024
  characters that keep their old contents between uses, so accesses outside them and
  unterminated strings are faults. \<open>err\<close> is the text \<^verbatim>\<open>strerror(errno)\<close> yields, \<open>home\<close> the value
  of the environment variable.
\<close>

datatype ctl = Continue | Exit int
datatype xfer = Done | ReadErr | WriteErr

section \<open>client2.c\<close>

definition base_name :: "string \<Rightarrow> string" where
  "base_name s = (case strrchr s (CHR ''/'') of None \<Rightarrow> s | Some t \<Rightarrow> drop 1 t)"

partial_function (option) send_loop ::
  "('k \<Rightarrow> int \<Rightarrow> nat \<Rightarrow> int \<times> string \<times> 'k) \<Rightarrow> ('k \<Rightarrow> int \<Rightarrow> string \<Rightarrow> int \<times> 'k) \<Rightarrow>
   'k \<Rightarrow> int \<Rightarrow> int \<Rightarrow> char list \<Rightarrow> (xfer \<times> char list \<times> 'k) cres option" where
  "send_loop rd wr k fd sockfd puffer =
     (case rd k fd (length puffer) of (n, d, k1) \<Rightarrow>
        if n > 0 then
          (if nat n < length puffer then
             (let p = (d @ drop (nat n) puffer)[nat n := NUL] in
              case wr k1 sockfd (take (nat n) p) of (m, k2) \<Rightarrow>
                if m \<noteq> n then Some (Inr (WriteErr, p, k2))
                else send_loop rd wr k2 fd sockfd p)
           else Some (Inl OutOfBounds))
        else Some (Inr (if n < 0 then ReadErr else Done, puffer, k1)))"

definition send_end ::
  "string \<Rightarrow> int \<Rightarrow> (xfer \<times> char list \<times> kernel) cres \<Rightarrow> (ctl \<times> say list \<times> char list \<times> kernel) cres option" where
  "send_end err sockfd r = Some (case r of
       Inl f \<Rightarrow> Inl f
     | Inr (WriteErr, p, k) \<Rightarrow>
         Inr (Exit EXIT_FAILURE, [Out (''Fehler bei write() ... ('' @ err @ '')\<newline>'')], p, k)
     | Inr (ReadErr, p, k) \<Rightarrow>
         Inr (Exit EXIT_FAILURE, [Out (''Fehler bei read() ... ('' @ err @ '')\<newline>'')], p, k)
     | Inr (Done, p, k) \<Rightarrow> Inr (Continue, [], p, snd (sys_close k sockfd)))"

definition send_file ::
  "string \<Rightarrow> string \<Rightarrow> int \<Rightarrow> char list \<Rightarrow> kernel \<Rightarrow> (ctl \<times> say list \<times> char list \<times> kernel) cres option" where
  "send_file err arg sockfd puffer k =
     (case sys_open k arg O_RDONLY [] 0 of (fd, k1) \<Rightarrow>
      if fd < 0 then
        Some (Inr (Continue, [Out (''Kann Datei ('' @ arg @ '') nicht oeffnen ... ('' @ err @ '')\<newline>'')], puffer, k1))
      else (case strcpy puffer arg of Inl f \<Rightarrow> Some (Inl f) | Inr p1 \<Rightarrow>
           (case strcat p1 [LF] of Inl f \<Rightarrow> Some (Inl f) | Inr p2 \<Rightarrow>
             (let help = base_name (cstr p2); name_len = int (length help) in
              case sys_write k1 sockfd help of (m, k2) \<Rightarrow>
                if m \<noteq> name_len then
                  Some (Inr (Continue, [Out (''Konnte \"'' @ arg @ ''\" nicht versenden?\<newline>'')], p2,
                    snd (sys_close (snd (sys_close k2 fd)) sockfd)))
                else Option.bind (send_loop sys_read sys_write k2 fd sockfd p2) (send_end err sockfd)))))"

text \<open>What the network does with the socket of each file.\<close>

datatype net = SocketFail | ConnectFail | Connected

fun client2_loop ::
  "string \<Rightarrow> (string \<times> net) list \<Rightarrow> char list \<Rightarrow> kernel \<Rightarrow> say list \<Rightarrow> (int \<times> say list \<times> kernel) cres option" where
  "client2_loop err [] puffer k out =
     Some (Inr (EXIT_SUCCESS, out @ [Out ''Datei(en) erfolgreich versendet\<newline>''], k))"
| "client2_loop err ((arg, SocketFail) # rest) puffer k out =
     Some (Inr (EXIT_FAILURE, out @ [Out (''Fehler bei socket() ... ('' @ err @ '')\<newline>'')], k))"
| "client2_loop err ((arg, ConnectFail) # rest) puffer k out =
     Some (Inr (EXIT_FAILURE, out @ [Out (''Fehler bei connect() ... ('' @ err @ '')\<newline>'')],
       snd (alloc_fd k \<lparr>okind = Conn [] [], oacc = O_RDWR\<rparr>)))"
| "client2_loop err ((arg, Connected) # rest) puffer k out =
     (case alloc_fd k \<lparr>okind = Conn [] [], oacc = O_RDWR\<rparr> of (sockfd, k1) \<Rightarrow>
        Option.bind (send_file err arg sockfd puffer k1) (\<lambda>r. case r of
            Inl f \<Rightarrow> Some (Inl f)
          | Inr (Exit c, says, p, k2) \<Rightarrow> Some (Inr (c, out @ says, k2))
          | Inr (Continue, says, p, k2) \<Rightarrow> client2_loop err rest p k2 (out @ says)))"

text \<open>\<open>known\<close>: the host was found; \<open>nets\<close>: the outcome of \<^verbatim>\<open>socket\<close> and \<^verbatim>\<open>connect\<close> for each file.\<close>

definition client2_main ::
  "string \<Rightarrow> bool \<Rightarrow> net list \<Rightarrow> char list \<Rightarrow> string list \<Rightarrow> kernel \<Rightarrow> (int \<times> say list \<times> kernel) cres option" where
  "client2_main err known nets puffer argv k =
     (if length argv < 3 then
        Some (Inr (EXIT_FAILURE, [Out (''Usage: '' @ argv ! 0 @ '' rechner datei(en)\<newline>'')], k))
      else if \<not> known then
        Some (Inr (EXIT_FAILURE, [Perror ''Fehler beim Suchen des Rechners\<newline>''], k))
      else client2_loop err (zip (drop 2 argv) nets) puffer k [])"

section \<open>What the three servers share\<close>

text \<open>
  The name line is read byte by byte into \<^verbatim>\<open>puffer\<close>. The result is the last value of \<^verbatim>\<open>n\<close>;
  the loop has no bound on \<^verbatim>\<open>j\<close>, so a byte behind the end of the array is a fault.
\<close>

function read_name ::
  "('k \<Rightarrow> int \<Rightarrow> nat \<Rightarrow> int \<times> string \<times> 'k) \<Rightarrow> 'k \<Rightarrow> int \<Rightarrow> char list \<Rightarrow> nat \<Rightarrow> (int \<times> char list \<times> 'k) cres" where
  "read_name rd k connfd puffer j =
     (case rd k connfd 1 of (n, d, k1) \<Rightarrow>
        if n > 0 then
          (if j < length puffer then
             (if hd d = LF then Inr (n, puffer[j := NUL], k1)
              else read_name rd k1 connfd (puffer[j := hd d]) (Suc j))
           else Inl OutOfBounds)
        else Inr (n, puffer, k1))"
  by pat_completeness auto
termination by (relation "measure (\<lambda>(rd, k, connfd, puffer, j). length puffer - j)") auto

declare read_name.simps [simp del]

definition make_path :: "string option \<Rightarrow> char list \<Rightarrow> char list \<Rightarrow> char list cres" where
  "make_path home path_file puffer =
     (case home of
        None \<Rightarrow> Inl NullDeref
      | Some h \<Rightarrow>
          (case strcpy path_file h of Inl f \<Rightarrow> Inl f | Inr p1 \<Rightarrow>
             (case strcat p1 ''/tmp/'' of Inl f \<Rightarrow> Inl f | Inr p2 \<Rightarrow>
                (if terminated puffer then strcat p2 (cstr puffer) else Inl OutOfBounds))))"

partial_function (option) receive_loop ::
  "('k \<Rightarrow> int \<Rightarrow> nat \<Rightarrow> int \<times> string \<times> 'k) \<Rightarrow> ('k \<Rightarrow> int \<Rightarrow> string \<Rightarrow> int \<times> 'k) \<Rightarrow>
   'k \<Rightarrow> int \<Rightarrow> int \<Rightarrow> char list \<Rightarrow> int \<Rightarrow> (xfer \<times> int \<times> char list \<times> 'k) option" where
  "receive_loop rd wr k connfd fd puffer ngesammt =
     (case rd k connfd (length puffer) of (n, d, k1) \<Rightarrow>
        if n > 0 then
          (let p = d @ drop (nat n) puffer in
           case wr k1 fd (take (nat n) p) of (m, k2) \<Rightarrow>
             if m \<noteq> n then Some (WriteErr, ngesammt, p, k2)
             else receive_loop rd wr k2 connfd fd p (int32 (ngesammt + n)))
        else Some (if n < 0 then ReadErr else Done, ngesammt, puffer, k1))"

text \<open>The messages of a transfer that has ended, and what the caller does next.\<close>

definition transfer_end ::
  "string \<Rightarrow> say list \<Rightarrow> int \<Rightarrow> int \<Rightarrow> char list \<Rightarrow> xfer \<times> int \<times> char list \<times> kernel \<Rightarrow>
   ctl \<times> say list \<times> char list \<times> char list \<times> kernel" where
  "transfer_end err out connfd fd path = (\<lambda>(x, ng, p, k). case x of
       WriteErr \<Rightarrow> (Exit EXIT_FAILURE, out @ [Out (''Fehler bei write() ... ('' @ err @ '')\<newline>'')], p, path, k)
     | ReadErr \<Rightarrow> (Exit EXIT_FAILURE, out @ [Out ''Fehler bei read() ...\<newline>''], p, path, k)
     | Done \<Rightarrow> (Continue, out @ [Out (''Beendet ('' @ show_int ng @ '' Bytes)\<newline>'')], p, path,
         snd (sys_close (snd (sys_close k fd)) connfd)))"

definition name_msg :: "char list \<Rightarrow> string" where
  "name_msg puffer = ''Dateiname \"'' @ cstr puffer @ ''\" wird kopiert nach ''"

definition open_msg :: "string \<Rightarrow> char list \<Rightarrow> string" where
  "open_msg err puffer = ''... kann '' @ cstr puffer @ '' nicht oeffnen ('' @ err @ '')\<newline>''"

section \<open>server2.c\<close>

text \<open>The body of the accept loop.\<close>

definition serve_conn ::
  "string option \<Rightarrow> string \<Rightarrow> int \<Rightarrow> char list \<Rightarrow> char list \<Rightarrow> kernel \<Rightarrow>
   (ctl \<times> say list \<times> char list \<times> char list \<times> kernel) cres option" where
  "serve_conn home err connfd puffer path_file k =
     (case read_name sys_read k connfd puffer 0 of
        Inl f \<Rightarrow> Some (Inl f)
      | Inr (n, p1, k1) \<Rightarrow>
          if n < 0 then
            Some (Inr (Exit EXIT_FAILURE, [Out ''... Daten empfangen\<newline>'', Out ''Fehler bei read() ...\<newline>''],
              p1, path_file, k1))
          else if \<not> terminated p1 then Some (Inl OutOfBounds)
          else (case make_path home path_file p1 of
              Inl f \<Rightarrow> Some (Inl f)
            | Inr path \<Rightarrow>
                (let out = [Out ''... Daten empfangen\<newline>'', Out (name_msg p1), Out (cstr path @ [LF])] in
                 case sys_open k1 (cstr path) O_WRONLY [O_CREAT, O_TRUNC] 0x1A4 of (fd, k2) \<Rightarrow>
                   if fd < 0 then
                     Some (Inr (Continue, out @ [Out (open_msg err p1)], p1, path, snd (sys_close k2 connfd)))
                   else map_option (\<lambda>r. Inr (transfer_end err out connfd fd path r))
                     (receive_loop sys_read sys_write k2 connfd fd p1 0))))"

text \<open>
  What \<^verbatim>\<open>accept\<close> returns: a connection over which the peer sends these bytes, a call
  interrupted by a signal, or another failure. At the end of the list the server waits.
\<close>

datatype accepted = Peer string | Interrupted | AcceptFails

fun server2_loop ::
  "string option \<Rightarrow> string \<Rightarrow> accepted list \<Rightarrow> char list \<Rightarrow> char list \<Rightarrow> kernel \<Rightarrow> say list \<Rightarrow>
   (int option \<times> say list \<times> kernel) cres option" where
  "server2_loop home err [] puffer path_file k out = Some (Inr (None, out, k))"
| "server2_loop home err (Peer s # rest) puffer path_file k out =
     (case alloc_fd k \<lparr>okind = Conn s [], oacc = O_RDWR\<rparr> of (connfd, k1) \<Rightarrow>
        Option.bind (serve_conn home err connfd puffer path_file k1) (\<lambda>r. case r of
            Inl f \<Rightarrow> Some (Inl f)
          | Inr (Exit c, says, p, q, k2) \<Rightarrow> Some (Inr (Some c, out @ says, k2))
          | Inr (Continue, says, p, q, k2) \<Rightarrow> server2_loop home err rest p q k2 (out @ says)))"
| "server2_loop home err (_ # rest) puffer path_file k out =
     Some (Inr (Some EXIT_FAILURE, out @ [Out (''Fehler bei accept() ... ('' @ err @ '')\<newline>'')], k))"

text \<open>The setup that the three servers have in common, given the results of the three calls.\<close>

definition server_setup :: "string \<Rightarrow> bool \<Rightarrow> bool \<Rightarrow> bool \<Rightarrow> kernel \<Rightarrow> int \<times> say list \<times> kernel + int \<times> say list \<times> kernel" where
  "server_setup err socket_ok bind_ok listen_ok k =
     (if \<not> socket_ok then Inl (EXIT_FAILURE, [Out (''Fehler bei socket() ... ('' @ err @ '')\<newline>'')], k)
      else (case alloc_fd k \<lparr>okind = Conn [] [], oacc = O_RDWR\<rparr> of (sockfd, k1) \<Rightarrow>
        (let out = [Out ''Socket erfolgreich angelegt\<newline>''] in
         if \<not> bind_ok then Inl (EXIT_FAILURE, out @ [Out (''Fehler bei bind() ... ('' @ err @ '')\<newline>'')], k1)
         else (let out = out @ [Out ''Server bereit und wartet ...\<newline>''] in
           if \<not> listen_ok then Inl (EXIT_FAILURE, out @ [Out (''Fehler bei listen() ... ('' @ err @ '')\<newline>'')], k1)
           else Inr (sockfd, out, k1)))))"

definition server2_main ::
  "string option \<Rightarrow> string \<Rightarrow> bool \<Rightarrow> bool \<Rightarrow> bool \<Rightarrow> accepted list \<Rightarrow> char list \<Rightarrow> char list \<Rightarrow> kernel \<Rightarrow>
   (int option \<times> say list \<times> kernel) cres option" where
  "server2_main home err so bo lo evs puffer path_file k =
     (case server_setup err so bo lo k of
        Inl (c, out, k1) \<Rightarrow> Some (Inr (Some c, out, k1))
      | Inr (sockfd, out, k1) \<Rightarrow> server2_loop home err evs puffer path_file k1 out)"

section \<open>pserver.c\<close>

fun no_zombie :: "int list \<Rightarrow> say list" where
  "no_zombie [] = []"
| "no_zombie (pid # pids) =
     (if pid > 0 then Out (''Child-Server mit pid-'' @ show_int pid @ '' hat sich beendet\<newline>'') # no_zombie pids
      else [])"

text \<open>
  The child closes the listening socket, serves the connection, closes it a second time
  and then runs on into the accept loop, whose call fails on the closed socket: it exits there.
\<close>

definition child_accept :: "string \<Rightarrow> say list \<Rightarrow> kernel \<Rightarrow> int \<times> say list \<times> kernel" where
  "child_accept err out k = (EXIT_FAILURE, out @ [Out (''Fehler bei accept() ... ('' @ err @ '')\<newline>'')], k)"

definition pserver_child ::
  "string option \<Rightarrow> string \<Rightarrow> int \<Rightarrow> int \<Rightarrow> char list \<Rightarrow> char list \<Rightarrow> kernel \<Rightarrow> (int \<times> say list \<times> kernel) cres option" where
  "pserver_child home err sockfd connfd puffer path_file k =
     (let k0 = snd (sys_close k sockfd) in
      case read_name sys_read k0 connfd puffer 0 of
        Inl f \<Rightarrow> Some (Inl f)
      | Inr (n, p1, k1) \<Rightarrow>
          if n < 0 then Some (Inr (EXIT_FAILURE, [Out ''Fehler bei read() ...\<newline>''], k1))
          else if \<not> terminated p1 then Some (Inl OutOfBounds)
          else (case make_path home path_file p1 of
              Inl f \<Rightarrow> Some (Inl f)
            | Inr path \<Rightarrow>
                (let out = [Out (name_msg p1), Out (cstr path @ [LF])] in
                 case sys_open k1 (cstr path) O_WRONLY [O_CREAT, O_TRUNC] 0x1A4 of (fd, k2) \<Rightarrow>
                   if fd < 0 then
                     Some (Inr (child_accept err (out @ [Out (open_msg err p1)]) (snd (sys_close k2 connfd))))
                   else map_option (\<lambda>r. Inr (case transfer_end err out connfd fd path r of
                         (Exit c, says, p, q, k3) \<Rightarrow> (c, says, k3)
                       | (Continue, says, p, q, k3) \<Rightarrow> child_accept err says (snd (sys_close k3 connfd))))
                     (receive_loop sys_read sys_write k2 connfd fd p1 0))))"

text \<open>
  The parent: each accepted connection is handed to a child (a copy of the process as it
  is then) if \<^verbatim>\<open>fork\<close> succeeds, and closed. The result lists the children's start states.
\<close>

fun pserver_loop ::
  "string \<Rightarrow> (accepted \<times> bool) list \<Rightarrow> kernel \<Rightarrow> say list \<Rightarrow> (int \<times> kernel) list \<Rightarrow>
   int option \<times> say list \<times> (int \<times> kernel) list \<times> kernel" where
  "pserver_loop err [] k out children = (None, out, children, k)"
| "pserver_loop err ((Interrupted, _) # rest) k out children = pserver_loop err rest k out children"
| "pserver_loop err ((AcceptFails, _) # rest) k out children =
     (Some EXIT_FAILURE, out @ [Out (''Fehler bei accept() ... ('' @ err @ '')\<newline>'')], children, k)"
| "pserver_loop err ((Peer s, forked) # rest) k out children =
     (case alloc_fd k \<lparr>okind = Conn s [], oacc = O_RDWR\<rparr> of (connfd, k1) \<Rightarrow>
        pserver_loop err rest (snd (sys_close k1 connfd)) (out @ [Out ''... Daten empfangen\<newline>''])
          (if forked then children @ [(connfd, k1)] else children))"

definition pserver_main ::
  "string \<Rightarrow> bool \<Rightarrow> bool \<Rightarrow> bool \<Rightarrow> (accepted \<times> bool) list \<Rightarrow> kernel \<Rightarrow>
   int option \<times> say list \<times> (int \<times> kernel) list \<times> kernel" where
  "pserver_main err so bo lo evs k =
     (case server_setup err so bo lo k of
        Inl (c, out, k1) \<Rightarrow> (Some c, out, [], k1)
      | Inr (sockfd, out, k1) \<Rightarrow> pserver_loop err evs k1 out [])"

section \<open>thserver.c\<close>

text \<open>
  \<^verbatim>\<open>copy\<close>: after a failed \<^verbatim>\<open>open\<close> there is no return, so the loop runs on the closed connection.
\<close>

definition copy_conn ::
  "string option \<Rightarrow> string \<Rightarrow> int \<Rightarrow> char list \<Rightarrow> char list \<Rightarrow> kernel \<Rightarrow>
   (ctl \<times> say list \<times> char list \<times> char list \<times> kernel) cres option" where
  "copy_conn home err connfd puffer path_file k =
     (case read_name sys_read k connfd puffer 0 of
        Inl f \<Rightarrow> Some (Inl f)
      | Inr (n, p1, k1) \<Rightarrow>
          if n < 0 then
            Some (Inr (Exit EXIT_FAILURE, [Out ''... Daten empfangen'', Out ''Fehler bei read() ...\<newline>''],
              p1, path_file, k1))
          else if \<not> terminated p1 then Some (Inl OutOfBounds)
          else (case make_path home path_file p1 of
              Inl f \<Rightarrow> Some (Inl f)
            | Inr path \<Rightarrow>
                (let out = [Out ''... Daten empfangen'', Out (name_msg p1), Out (cstr path @ [LF])] in
                 case sys_open k1 (cstr path) O_WRONLY [O_CREAT, O_TRUNC] 0x1A4 of (fd, k2) \<Rightarrow>
                   (let out' = (if fd < 0 then out @ [Out (open_msg err p1)] else out);
                        k3 = (if fd < 0 then snd (sys_close k2 connfd) else k2)
                    in map_option (\<lambda>r. Inr (transfer_end err out' connfd fd path r))
                         (receive_loop sys_read sys_write k3 connfd fd p1 0)))))"

definition threading_socket ::
  "string option \<Rightarrow> string \<Rightarrow> int \<Rightarrow> char list \<Rightarrow> char list \<Rightarrow> kernel \<Rightarrow> (ctl \<times> say list \<times> kernel) cres option" where
  "threading_socket home err connfd puffer path_file k =
     map_option (\<lambda>r. case r of
         Inl f \<Rightarrow> Inl f
       | Inr (Exit c, says, p, q, k1) \<Rightarrow> Inr (Exit c, says, k1)
       | Inr (Continue, says, p, q, k1) \<Rightarrow> Inr (Continue, says, snd (sys_close k1 connfd)))
     (copy_conn home err connfd puffer path_file k)"

text \<open>The accepting thread starts one detached thread for each connection and never waits.\<close>

fun thserver_loop ::
  "string \<Rightarrow> accepted list \<Rightarrow> kernel \<Rightarrow> say list \<Rightarrow> int list \<Rightarrow> int option \<times> say list \<times> int list \<times> kernel" where
  "thserver_loop err [] k out threads = (None, out, threads, k)"
| "thserver_loop err (Interrupted # rest) k out threads = thserver_loop err rest k out threads"
| "thserver_loop err (AcceptFails # rest) k out threads =
     (Some EXIT_FAILURE, out @ [Out (''Fehler bei accept() ... ('' @ err @ '')\<newline>'')], threads, k)"
| "thserver_loop err (Peer s # rest) k out threads =
     (case alloc_fd k \<lparr>okind = Conn s [], oacc = O_RDWR\<rparr> of (connfd, k1) \<Rightarrow>
        thserver_loop err rest k1 out (threads @ [connfd]))"

definition thserver_main ::
  "string \<Rightarrow> bool \<Rightarrow> bool \<Rightarrow> bool \<Rightarrow> accepted list \<Rightarrow> kernel \<Rightarrow> int option \<times> say list \<times> int list \<times> kernel" where
  "thserver_main err so bo lo evs k =
     (case server_setup err so bo lo k of
        Inl (c, out, k1) \<Rightarrow> (Some c, out, [], k1)
      | Inr (sockfd, out, k1) \<Rightarrow> thserver_loop err evs k1 out [])"

section \<open>The loops, inside their contracts\<close>

context reliable_source
begin

lemma read_name_line:
  assumes "ok k r" and "pending k r = s @ LF # rest" and "LF \<notin> set s" and "j + length s < length puffer"
  shows "\<exists>k'. read_name rd k r puffer j =
      Inr (1, take j puffer @ s @ NUL # drop (Suc (j + length s)) puffer, k') \<and>
    ok k' r \<and> pending k' r = rest"
  using assms
proof (induction s arbitrary: k j puffer)
  case Nil
  with read_one [of k r LF rest] obtain k' where "rd k r 1 = (1, [LF], k')" "ok k' r" "pending k' r = rest"
    by auto
  with Nil.prems(4) show ?case by (simp add: read_name.simps [of rd k] upd_conv_take_nth_drop)
next
  case (Cons x s)
  with read_one [of k r x "s @ LF # rest"] obtain k1 where
    r: "rd k r 1 = (1, [x], k1)" "ok k1 r" "pending k1 r = s @ LF # rest" by auto
  have "Suc j + length s < length (puffer[j := x])" "LF \<notin> set s" using Cons.prems by auto
  from Cons.IH [OF r(2,3) this(2,1)] obtain k' where
    "read_name rd k1 r (puffer[j := x]) (Suc j) =
       Inr (1, take (Suc j) (puffer[j := x]) @ s @ NUL # drop (Suc (Suc j + length s)) (puffer[j := x]), k')"
    "ok k' r" "pending k' r = rest" by blast
  moreover have "x \<noteq> LF" using Cons.prems(3) by auto
  ultimately show ?case using r(1) Cons.prems(4)
    by (simp add: read_name.simps [of rd k] take_Suc_list_update)
qed

text \<open>A name line that does not fit into the array is written behind its end.\<close>

lemma read_name_overflow:
  assumes "ok k r" and "pending k r = s @ rest" and "LF \<notin> set s" and "length puffer < j + length s"
    and "j \<le> length puffer"
  shows "read_name rd k r puffer j = Inl OutOfBounds"
  using assms
proof (induction s arbitrary: k j puffer)
  case Nil
  then show ?case by simp
next
  case (Cons x s)
  with read_one [of k r x "s @ rest"] obtain k1 where
    r: "rd k r 1 = (1, [x], k1)" "ok k1 r" "pending k1 r = s @ rest" by auto
  show ?case
  proof (cases "j < length puffer")
    case True
    with Cons.prems have "length (puffer[j := x]) < Suc j + length s" "Suc j \<le> length (puffer[j := x])"
      "LF \<notin> set s" by auto
    with Cons.IH [OF r(2,3) this(3,1,2)] r(1) Cons.prems(3) True show ?thesis
      by (simp add: read_name.simps [of rd k])
  next
    case False
    with r(1) show ?thesis by (simp add: read_name.simps [of rd k])
  qed
qed

end

context full_copy
begin

lemma receive_loop_stores:
  assumes "ok k r w" and "puffer \<noteq> []"
  shows "\<exists>p k'. receive_loop rd wr k r w puffer (int32 ng) =
      Some (Done, int32 (ng + int (length (pending k r))), p, k') \<and>
    length p = length puffer \<and> ok k' r w \<and> sent k' w = sent k w @ pending k r"
  using assms
proof (induction "length (pending k r)" arbitrary: k puffer ng rule: less_induct)
  case less
  obtain n d k1 where e: "rd k r (length puffer) = (n, d, k1)" by (cases "rd k r (length puffer)")
  have ok1: "ok k1 r w" "sent k1 w = sent k w" using rd_keeps [OF less.prems(1) e] by simp_all
  have n: "n = int (length d)" "pending k r = d @ pending k1 r" "d = [] \<longrightarrow> pending k r = []"
    "length d \<le> length puffer"
    using rd_takes [OF less.prems(1) _ e] rd_succeeds [OF less.prems(1), of "length puffer"] e less.prems(2)
    by auto
  show ?case
  proof (cases "d = []")
    case True
    with e n ok1 show ?thesis by (simp add: receive_loop.simps)
  next
    case False
    obtain m k2 where w: "wr k1 w d = (m, k2)" by (cases "wr k1 w d")
    from wr_sink [OF ok1(1) False w] wr_full [OF ok1(1) False] w n(1)
    have k2: "m = n" "ok k2 r w" "pending k2 r = pending k1 r" "sent k2 w = sent k1 w @ d" by auto
    define p where "p = d @ drop (length d) puffer"
    have lp: "length p = length puffer" "p \<noteq> []" using n(4) False by (simp_all add: p_def)
    have "length (pending k2 r) < length (pending k r)" using False n(2) k2(3) by simp
    from less.hyps [OF this k2(2) lp(2), of "ng + n"] obtain q k' where
      "receive_loop rd wr k2 r w p (int32 (ng + n)) = Some (Done, int32 (ng + n + int (length (pending k2 r))), q, k')"
      "length q = length p" "ok k' r w" "sent k' w = sent k2 w @ pending k2 r" by blast
    with lp False e n w k2 ok1 show ?thesis
      by (simp add: receive_loop.simps [of rd wr k] p_def Let_def add.assoc)
  qed
qed

end

context byte_copy
begin

text \<open>Both loops return whatever the environment does.\<close>

lemma receive_loop_returns:
  assumes "ok k r w" and "puffer \<noteq> []"
  shows "receive_loop rd wr k r w puffer ng \<noteq> None"
  using assms
proof (induction "length (pending k r)" arbitrary: k puffer ng rule: less_induct)
  case less
  obtain n d k1 where e: "rd k r (length puffer) = (n, d, k1)" by (cases "rd k r (length puffer)")
  have ok1: "ok k1 r w" using rd_keeps [OF less.prems(1) e] by simp
  show ?case
  proof (cases "n > 0")
    case False
    with e show ?thesis by (simp add: receive_loop.simps)
  next
    case True
    with rd_takes [OF less.prems(1) _ e] less.prems(2) have
      d: "n = int (length d)" "d \<noteq> []" "pending k r = d @ pending k1 r" by auto
    obtain m k2 where w: "wr k1 w d = (m, k2)" by (cases "wr k1 w d")
    from wr_sink [OF ok1 d(2) w] have k2: "ok k2 r w" "pending k2 r = pending k1 r" by simp_all
    with d have "length (pending k2 r) < length (pending k r)" by simp
    from less.hyps [OF this k2(1), of "d @ drop (length d) puffer" "int32 (ng + n)"] d True e w show ?thesis
      by (simp add: receive_loop.simps [of rd wr k] Let_def)
  qed
qed

end

section \<open>Storing an upload\<close>

lemma make_path_ok:
  assumes "no_nul h" and "terminated puffer" and "length h + 5 + length (cstr puffer) < length path_file"
  shows "\<exists>path. make_path (Some h) path_file puffer = Inr path \<and>
    cstr path = h @ ''/tmp/'' @ cstr puffer \<and> length path = length path_file"
proof -
  from assms(3) strcpy_fits [of h path_file] obtain p1 where p1: "strcpy path_file h = Inr p1" by auto
  note c1 = strcpy_ok [OF p1 assms(1)]
  with assms(3) have "strcat p1 ''/tmp/'' = strcpy p1 (h @ ''/tmp/'')" by (simp add: strcat_def)
  moreover from c1 assms(3) strcpy_fits [of "h @ ''/tmp/''" p1] obtain p2 where
    "strcpy p1 (h @ ''/tmp/'') = Inr p2" by auto
  ultimately have p2: "strcat p1 ''/tmp/'' = Inr p2" by simp
  have c2: "cstr p2 = h @ ''/tmp/''" "terminated p2" "length p2 = length path_file"
    using strcat_ok [OF p2] c1 by simp_all
  then have "strcat p2 (cstr puffer) = strcpy p2 (h @ ''/tmp/'' @ cstr puffer)" by (simp add: strcat_def)
  moreover from c2 assms(3) strcpy_fits [of "h @ ''/tmp/'' @ cstr puffer" p2] obtain p3 where
    "strcpy p2 (h @ ''/tmp/'' @ cstr puffer) = Inr p3" by auto
  ultimately have p3: "strcat p2 (cstr puffer) = Inr p3" by simp
  from strcat_ok [OF p3] c2 p1 p2 p3 assms(2) show ?thesis by (simp add: make_path_def)
qed

text \<open>The wire format, and the conditions under which the fixed arrays are large enough.\<close>

definition upload :: "string \<Rightarrow> string \<Rightarrow> string" where
  "upload name c = name @ LF # c"

definition name_fits :: "string \<Rightarrow> char list \<Rightarrow> char list \<Rightarrow> string \<Rightarrow> bool" where
  "name_fits h puffer path_file name =
     (no_nul h \<and> no_nul name \<and> LF \<notin> set name \<and> length name < length puffer \<and>
      length h + 5 + length name < length path_file)"

text \<open>Where an upload with this name goes: the common part of the three servers.\<close>

lemma receive_name:
  assumes "listening k0 k connfd" and "pending k connfd = upload name c"
    and "name_fits h puffer path_file name"
  obtains p1 k1 path where "read_name sys_read k connfd puffer 0 = Inr (1, p1, k1)"
    "listening k0 k1 connfd" "pending k1 connfd = c" "terminated p1" "cstr p1 = name"
    "length p1 = length puffer" "make_path (Some h) path_file p1 = Inr path"
    "cstr path = h @ ''/tmp/'' @ name" "length path = length path_file"
proof -
  from assms(2,3) have nf: "pending k connfd = name @ LF # c" "LF \<notin> set name" "0 + length name < length puffer"
    by (simp_all add: upload_def name_fits_def)
  from posix_listen.read_name_line [OF assms(1) nf] obtain k1 where
    r: "read_name sys_read k connfd puffer 0 = Inr (1, name @ NUL # drop (Suc (length name)) puffer, k1)"
      "listening k0 k1 connfd" "pending k1 connfd = c" by auto
  define p1 where "p1 = name @ NUL # drop (Suc (length name)) puffer"
  have p1: "terminated p1" "cstr p1 = name" "length p1 = length puffer"
    using assms(3) by (auto simp: p1_def name_fits_def)
  from make_path_ok [of h p1 path_file] p1 assms(3) obtain path where
    "make_path (Some h) path_file p1 = Inr path" "cstr path = h @ ''/tmp/'' @ name"
    "length path = length path_file" by (auto simp: name_fits_def)
  with that [OF r(1) [folded p1_def] r(2,3) p1] show thesis by simp
qed

text \<open>The three servers behave alike once the file is open.\<close>

lemma receive_stores:
  assumes "listening k0 k connfd" and "full_writes k" and "p \<notin> set (denied k)" and "puffer \<noteq> []"
  obtains fd k2 q k3 where "sys_open k p O_WRONLY [O_CREAT, O_TRUNC] m = (fd, k2)" "0 \<le> fd"
    "receive_loop sys_read sys_write k2 connfd fd puffer 0 =
       Some (Done, int32 (int (length (pending k connfd))), q, k3)"
    "length q = length puffer" "text_of k3 p = pending k connfd" "\<forall>x. x \<noteq> p \<longrightarrow> files k3 x = files k x"
    "files k3 p \<noteq> None" "no_fail k3" "full_writes k3" "denied k3 = denied k"
proof -
  from open_received [OF assms(1,3,2)] obtain fd i k2 where
    o: "sys_open k p O_WRONLY [O_CREAT, O_TRUNC] m = (fd, k2)" "0 \<le> fd"
      "copy_full (Some p) k i k2 connfd fd" "pending k2 connfd = pending k connfd" "sent_bytes k2 fd = []"
    by blast
  from posix_full.receive_loop_stores [OF o(3) assms(4), of 0] o(4,5) obtain q k3 where
    l: "receive_loop sys_read sys_write k2 connfd fd puffer 0 =
        Some (Done, int32 (int (length (pending k connfd))), q, k3)" "length q = length puffer"
      "copy_full (Some p) k i k3 connfd fd" "sent_bytes k3 fd = pending k connfd" by auto
  from l(3) obtain off app where kd: "kind_of k3 fd = Some (RegFile p off app)"
    by (auto simp: copy_full_def copy_safe_def framed_def path_of_def split: option.splits obj.splits)
  with l(3,4) have "text_of k3 p = pending k connfd" "\<forall>x. x \<noteq> p \<longrightarrow> files k3 x = files k x"
    "files k3 p \<noteq> None" "no_fail k3" "full_writes k3" "denied k3 = denied k"
    by (auto simp: sent_bytes_def copy_full_def copy_safe_def framed_def copy_ok_def sink_ok_def)
  with that [OF o(1,2) l(1,2)] show thesis by blast
qed

text \<open>
  One connection of \<^verbatim>\<open>server2\<close>: for any segmentation of the incoming bytes, a name line
  followed by contents is stored as \<^verbatim>\<open>$HOME/tmp/name\<close> with exactly these contents, no other
  file changes, and the number of bytes is reported; the server goes on to the next connection.
\<close>

definition stored_msgs :: "string \<Rightarrow> string \<Rightarrow> string \<Rightarrow> say list" where
  "stored_msgs h name c = [Out ''... Daten empfangen\<newline>'', Out (''Dateiname \"'' @ name @ ''\" wird kopiert nach ''),
     Out (h @ ''/tmp/'' @ name @ [LF]), Out (''Beendet ('' @ show_int (int32 (int (length c))) @ '' Bytes)\<newline>'')]"

lemma serve_conn_stores:
  assumes "listening k k connfd" and "full_writes k" and "pending k connfd = upload name c"
    and "name_fits h puffer path_file name" and "h @ ''/tmp/'' @ name \<notin> set (denied k)"
  obtains p q k' where "serve_conn (Some h) err connfd puffer path_file k =
      Some (Inr (Continue, stored_msgs h name c, p, q, k'))"
    "length p = length puffer" "length q = length path_file"
    "text_of k' (h @ ''/tmp/'' @ name) = c" "\<forall>x. x \<noteq> h @ ''/tmp/'' @ name \<longrightarrow> files k' x = files k x"
    "no_fail k'" "full_writes k'" "denied k' = denied k"
proof -
  from receive_name [OF assms(1,3,4)] obtain p1 k1 path where
    r: "read_name sys_read k connfd puffer 0 = Inr (1, p1, k1)" "listening k k1 connfd"
      "pending k1 connfd = c" "terminated p1" "cstr p1 = name" "length p1 = length puffer"
      "make_path (Some h) path_file p1 = Inr path" "cstr path = h @ ''/tmp/'' @ name"
      "length path = length path_file" by blast
  have k1: "full_writes k1" "cstr path \<notin> set (denied k1)" "p1 \<noteq> []" "files k1 = files k" "denied k1 = denied k"
    using r(2,4,8) assms(2,5) by (auto simp: listening_def full_writes_def terminated_def)
  from receive_stores [OF r(2) k1(1-3), of "0x1A4"] obtain fd k2 q k3 where
    s: "sys_open k1 (cstr path) O_WRONLY [O_CREAT, O_TRUNC] 0x1A4 = (fd, k2)" "0 \<le> fd"
      "receive_loop sys_read sys_write k2 connfd fd p1 0 = Some (Done, int32 (int (length c)), q, k3)"
      "length q = length p1" "text_of k3 (cstr path) = c" "\<forall>x. x \<noteq> cstr path \<longrightarrow> files k3 x = files k1 x"
      "no_fail k3" "full_writes k3" "denied k3 = denied k1"
    unfolding r(3) by metis
  have "serve_conn (Some h) err connfd puffer path_file k = Some (Inr (Continue, stored_msgs h name c, q, path,
      snd (sys_close (snd (sys_close k3 fd)) connfd)))"
    using r s(1-3) by (simp add: serve_conn_def transfer_end_def name_msg_def stored_msgs_def Let_def)
  from that [OF this] r s k1 show thesis by (simp add: no_fail_def full_writes_def)
qed

lemma accept_listening:
  assumes "alloc_fd k \<lparr>okind = Conn s [], oacc = O_RDWR\<rparr> = (c, k1)" and "no_fail k"
  shows "listening k1 k1 c" "pending k1 c = s"
  using alloc_fd_frame [OF assms(1)] assms(2)
  by (auto simp: listening_def source_ok_def kind_of_def acc_of_def no_fail_def pending_def)

text \<open>
  C2: \<^verbatim>\<open>server2\<close> stores every upload of a sequence of connections: afterwards each file under
  \<^verbatim>\<open>$HOME/tmp\<close> holds the contents of the last upload with its name, all other files are
  unchanged, and the server still waits for the next connection.
\<close>

theorem server2_stores_all:
  assumes "no_fail k" and "full_writes k"
    and "\<forall>(n, c) \<in> set us. name_fits h puffer path_file n \<and> h @ ''/tmp/'' @ n \<notin> set (denied k)"
  shows "\<exists>says k'. server2_loop (Some h) err (map (\<lambda>(n, c). Peer (upload n c)) us) puffer path_file k out =
      Some (Inr (None, says, k')) \<and>
    (\<forall>p. text_of k' p = (case map_of (rev (map (\<lambda>(n, c). (h @ ''/tmp/'' @ n, c)) us)) p of
       Some c \<Rightarrow> c | None \<Rightarrow> text_of k p))"
  using assms
proof (induction us arbitrary: k puffer path_file out)
  case Nil
  then show ?case by simp
next
  case (Cons u us)
  obtain n c where u: "u = (n, c)" by (cases u)
  obtain fd k1 where a: "alloc_fd k \<lparr>okind = Conn (upload n c) [], oacc = O_RDWR\<rparr> = (fd, k1)"
    by (cases "alloc_fd k \<lparr>okind = Conn (upload n c) [], oacc = O_RDWR\<rparr>")
  note f = alloc_fd_frame [OF a] and l = accept_listening [OF a Cons.prems(1)]
  have k1: "full_writes k1" "name_fits h puffer path_file n" "h @ ''/tmp/'' @ n \<notin> set (denied k1)"
    using f(6,7) Cons.prems(2,3) u by (simp_all add: full_writes_def)
  from serve_conn_stores [OF l(1) k1(1) l(2) k1(2,3), of err] obtain p q k2 where
    s: "serve_conn (Some h) err fd puffer path_file k1 = Some (Inr (Continue, stored_msgs h n c, p, q, k2))"
      "length p = length puffer" "length q = length path_file"
      "text_of k2 (h @ ''/tmp/'' @ n) = c" "\<forall>x. x \<noteq> h @ ''/tmp/'' @ n \<longrightarrow> files k2 x = files k1 x"
      "no_fail k2" "full_writes k2" "denied k2 = denied k1" by blast
  have t: "text_of k2 x = (if x = h @ ''/tmp/'' @ n then c else text_of k x)" for x
    using s(4,5) f(4) by (simp add: text_of_def)
  have "\<forall>(n, c) \<in> set us. name_fits h p q n \<and> h @ ''/tmp/'' @ n \<notin> set (denied k2)"
    using Cons.prems(3) s(2,3,8) f(7) by (auto simp: name_fits_def)
  from Cons.IH [OF s(6,7) this, of "out @ stored_msgs h n c"] obtain says k' where
    "server2_loop (Some h) err (map (\<lambda>(n, c). Peer (upload n c)) us) p q k2 (out @ stored_msgs h n c) =
       Some (Inr (None, says, k'))"
    "\<forall>x. text_of k' x = (case map_of (rev (map (\<lambda>(n, c). (h @ ''/tmp/'' @ n, c)) us)) x of
       Some c \<Rightarrow> c | None \<Rightarrow> text_of k2 x)" by blast
  with u a s(1) t show ?case by (auto simp: map_add_def split: option.splits)
qed

theorem server2_stores_all_witness:
  "\<exists>says k'. server2_loop (Some ''/r'') ''E'' (map (\<lambda>(n, c). Peer (upload n c)) [(''a'', ''xy''), (''b'', []), (''a'', ''z'')])
      (replicate 1024 NUL) (replicate 1024 NUL) (boot Map.empty [Upto 0, Upto 7] []) [] = Some (Inr (None, says, k')) \<and>
    text_of k' ''/r/tmp/a'' = ''z''"
proof -
  have "\<exists>says k'. server2_loop (Some ''/r'') ''E'' (map (\<lambda>(n, c). Peer (upload n c)) [(''a'', ''xy''), (''b'', []), (''a'', ''z'')])
      (replicate 1024 NUL) (replicate 1024 NUL) (boot Map.empty [Upto 0, Upto 7] []) [] = Some (Inr (None, says, k')) \<and>
    (\<forall>p. text_of k' p = (case map_of (rev (map (\<lambda>(n, c). (''/r'' @ ''/tmp/'' @ n, c)) [(''a'', ''xy''), (''b'', []), (''a'', ''z'')])) p of
       Some c \<Rightarrow> c | None \<Rightarrow> text_of (boot Map.empty [Upto 0, Upto 7] []) p))"
    by (rule server2_stores_all) (simp_all add: boot_def no_fail_def full_writes_def name_fits_def)
  then show ?thesis by auto
qed

text \<open>A fresh process that has just accepted a connection on descriptor 3.\<close>

definition accepted_conn :: "(string \<rightharpoonup> inode) \<Rightarrow> io list \<Rightarrow> string list \<Rightarrow> string \<Rightarrow> kernel" where
  "accepted_conn fs rs dn s = snd (alloc_fd ((boot fs rs [])\<lparr>denied := dn\<rparr>) \<lparr>okind = Conn s [], oacc = O_RDWR\<rparr>)"

lemma accepted_conn_listening:
  assumes "Fail \<notin> set rs"
  shows "listening (accepted_conn fs rs dn s) (accepted_conn fs rs dn s) 3"
    "pending (accepted_conn fs rs dn s) 3 = s" "full_writes (accepted_conn fs rs dn s)"
    "denied (accepted_conn fs rs dn s) = dn" "files (accepted_conn fs rs dn s) = fs"
    "get_ofd (accepted_conn fs rs dn s) 3 = Some 3" "no_fail (accepted_conn fs rs dn s)"
    "ofdt (accepted_conn fs rs dn s) ! 3 = \<lparr>okind = Conn s [], oacc = O_RDWR\<rparr>"
  using assms
  by (simp_all add: accepted_conn_def boot_def alloc_fd_def set_slot_def listening_def source_ok_def kind_of_def
      acc_of_def get_ofd_def no_fail_def full_writes_def pending_def eval_nat_numeral)

lemma accepted_conn_rsched: "rsched (accepted_conn fs rs dn s) = rs"
  by (simp add: accepted_conn_def boot_def alloc_fd_def Let_def)

section \<open>The client\<close>

lemma base_name_append_LF:
  "base_name (s @ [LF]) = base_name s @ [LF]"
proof (cases "CHR ''/'' \<in> set s")
  case True
  then obtain u v where "s = u @ CHR ''/'' # v" "CHR ''/'' \<notin> set v" by (metis split_list_last)
  then show ?thesis using strrchr_append [of "CHR ''/''" v u] strrchr_append [of "CHR ''/''" "v @ [LF]" u]
    by (simp add: base_name_def)
next
  case False
  then show ?thesis using strrchr_None [of s "CHR ''/''"] strrchr_None [of "s @ [LF]" "CHR ''/''"]
    by (simp add: base_name_def)
qed

text \<open>
  What one \<^verbatim>\<open>read\<close> returns is fixed by the head of the schedule. \<open>read_fills n ss len\<close> says that,
  while \<open>len\<close> bytes are read with an array of \<open>n\<close> characters under this schedule, some \<^verbatim>\<open>read\<close>
  fills the whole array.
\<close>

fun read_fills :: "nat \<Rightarrow> io list \<Rightarrow> nat \<Rightarrow> bool" where
  "read_fills n [] len = (n \<le> len)"
| "read_fills n (s # ss) len =
     (0 < len \<and> (n \<le> min (amount s n) len \<or> read_fills n ss (len - min (amount s n) len)))"

lemma read_fills_step:
  assumes "0 < n"
  shows "read_fills n ss len = (let m = min (amount (case ss of [] \<Rightarrow> Full | s # _ \<Rightarrow> s) n) len in
    0 < len \<and> (n \<le> m \<or> read_fills n (tl ss) (len - m)))"
  using assms by (cases ss) (auto simp: Let_def)

lemma short_not_fills: "len < n \<Longrightarrow> \<not> read_fills n ss len"
  by (induction n ss len rule: read_fills.induct) auto

lemma sys_read_amount:
  assumes "source_ok k r" and "no_fail k"
  obtains d k' where "sys_read k r n = (int (length d), d, k')" "rsched k' = tl (rsched k)"
    "d = take (amount (case rsched k of [] \<Rightarrow> Full | s # _ \<Rightarrow> s) n) (pending k r)"
proof -
  from assms(1) obtain j where j: "get_ofd k r = Some j" "oacc (ofdt k ! j) \<noteq> O_WRONLY"
    by (auto simp: source_ok_def kind_of_def acc_of_def)
  define s where "s = (case rsched k of [] \<Rightarrow> Full | s # _ \<Rightarrow> s)"
  have "s \<noteq> Fail" using assms(2) by (auto simp: s_def no_fail_def split: list.splits)
  then show thesis using j that
    by (cases s; cases "okind (ofdt k ! j)")
      (auto simp: sys_read_def next_rd_eq s_def [symmetric] Let_def pending_def kind_of_def)
qed

lemma sys_write_rsched: "sys_write k w b = (c, k') \<Longrightarrow> rsched k' = rsched k"
  by (auto simp: sys_write_def next_wr_eq Let_def
      split: option.splits if_splits io.splits obj.splits prod.splits list.splits)

text \<open>
  The loop of the client, for a file of any length: it writes behind the end of its array as
  soon as one \<^verbatim>\<open>read\<close> fills it, and otherwise sends everything.
\<close>

lemma send_loop_cases:
  assumes "copy_full p k0 i k r w" and "puffer \<noteq> []"
  shows "if read_fills (length puffer) (rsched k) (length (pending k r))
    then send_loop sys_read sys_write k r w puffer = Some (Inl OutOfBounds)
    else \<exists>q k'. send_loop sys_read sys_write k r w puffer = Some (Inr (Done, q, k')) \<and>
      copy_full p k0 i k' r w \<and> sent_bytes k' w = sent_bytes k w @ pending k r"
  using assms
proof (induction "length (pending k r)" arbitrary: k puffer rule: less_induct)
  case less
  define n where "n = length puffer"
  have n: "0 < n" using less.prems(2) by (simp add: n_def)
  have "source_ok k r" "no_fail k" using less.prems(1) by (auto simp: copy_full_def copy_safe_def copy_ok_def)
  then obtain d k1 where e: "sys_read k r n = (int (length d), d, k1)" "rsched k1 = tl (rsched k)"
    and d: "d = take (amount (case rsched k of [] \<Rightarrow> Full | s # _ \<Rightarrow> s) n) (pending k r)"
    by (rule sys_read_amount)
  note fills = read_fills_step [OF n, of "rsched k" "length (pending k r)", unfolded Let_def]
  from posix_full.rd_keeps [OF less.prems(1) e(1)] have
    k1: "copy_full p k0 i k1 r w" "sent_bytes k1 w = sent_bytes k w" by simp_all
  from posix_full.rd_takes [OF less.prems(1) n e(1)] have
    t: "length d \<le> n" "pending k r = d @ pending k1 r" "d = [] \<longrightarrow> pending k r = []" by auto
  have ld: "length d = min (amount (case rsched k of [] \<Rightarrow> Full | s # _ \<Rightarrow> s) n) (length (pending k r))"
    using d by simp
  show ?case
  proof (cases "d = []")
    case True
    with e t k1 fills show ?thesis by (simp add: send_loop.simps n_def)
  next
    case False
    then have pos: "0 < length (pending k r)" using t(2) by simp
    show ?thesis
    proof (cases "length d = n")
      case True
      with fills [folded ld] pos have "read_fills (length puffer) (rsched k) (length (pending k r))"
        by (simp add: n_def)
      with e False True less.prems(2) show ?thesis by (simp add: send_loop.simps n_def)
    next
      case sh: False
      then have l: "length d < n" using t(1) by simp
      obtain m k2 where w: "sys_write k1 w d = (m, k2)" by (cases "sys_write k1 w d")
      from posix_full.wr_sink [OF k1(1) False w] posix_full.wr_full [OF k1(1) False] w
      have k2: "m = int (length d)" "copy_full p k0 i k2 r w" "pending k2 r = pending k1 r"
        "sent_bytes k2 w = sent_bytes k1 w @ d" by auto
      define q where "q = (d @ drop (length d) puffer)[length d := NUL]"
      have q: "length q = n" "q \<noteq> []" "take (length d) q = d" using l n by (auto simp: q_def n_def)
      have lt: "length (pending k2 r) < length (pending k r)" using False t(2) k2(3) by simp
      have rs: "rsched k2 = tl (rsched k)" using sys_write_rsched [OF w] e(2) by simp
      have f: "read_fills n (rsched k) (length (pending k r)) = read_fills n (rsched k2) (length (pending k2 r))"
        using fills [folded ld] pos l t(2) k2(3) rs by simp
      have s: "send_loop sys_read sys_write k r w puffer = send_loop sys_read sys_write k2 r w q"
        using e(1) w l False k2(1) q(3)
        by (subst send_loop.simps) (simp add: n_def [symmetric] q_def [symmetric] Let_def)
      from less.hyps [OF lt k2(2) q(2)] show ?thesis
        unfolding s f [unfolded n_def] using q(1) k2(3,4) k1(2) t(2) by (auto simp: n_def split: if_splits)
    qed
  qed
qed

text \<open>The name line has been sent and the file is open: where the client enters its loop.\<close>

lemma send_file_enters_loop:
  assumes "files k arg = Some f" and "arg \<notin> set (denied k)" and "no_fail k" and "full_writes k"
    and "get_ofd k sockfd = Some i" and "ofdt k ! i = \<lparr>okind = Conn inq [], oacc = O_RDWR\<rparr>"
    and "no_nul arg" and "length arg + 1 < length puffer"
  obtains r p2 k2 where "copy_full None k i k2 r sockfd" "pending k2 r = content f" "length p2 = length puffer"
    "sent_bytes k2 sockfd = base_name arg @ [LF]" "rsched k2 = rsched k"
    "send_file err arg sockfd puffer k = Option.bind (send_loop sys_read sys_write k2 r sockfd p2) (send_end err sockfd)"
proof -
  from assms(6) have oi: "okind (ofdt k ! i) = Conn inq []" "oacc (ofdt k ! i) \<noteq> O_RDONLY" by simp_all
  from open_to_send [OF assms(1-5) oi] obtain r k1 where
    o: "sys_open k arg O_RDONLY [] 0 = (r, k1)" "0 \<le> r" "copy_full None k i k1 r sockfd"
      "pending k1 r = content f" "sent_bytes k1 sockfd = []" by blast
  from strcpy_fits [of arg puffer] assms(8) obtain p1 where p1: "strcpy puffer arg = Inr p1" by auto
  note c1 = strcpy_ok [OF p1 assms(7)]
  then have "strcat p1 [LF] = strcpy p1 (arg @ [LF])" by (simp add: strcat_def)
  with strcpy_fits [of "arg @ [LF]" p1] c1 assms(8) obtain p2 where p2: "strcat p1 [LF] = Inr p2" by auto
  have c2: "cstr p2 = arg @ [LF]" "length p2 = length puffer" using strcat_ok [OF p2] c1 by simp_all
  define hlp where "hlp = base_name arg @ [LF]"
  then have h: "base_name (cstr p2) = hlp" "hlp \<noteq> []" by (simp_all add: c2 base_name_append_LF)
  obtain m k2 where w: "sys_write k1 sockfd hlp = (m, k2)" by (cases "sys_write k1 sockfd hlp")
  from posix_full.wr_sink [OF o(3) h(2) w] posix_full.wr_full [OF o(3) h(2)] w o(4,5)
  have k2: "m = int (length hlp)" "copy_full None k i k2 r sockfd" "pending k2 r = content f"
    "sent_bytes k2 sockfd = hlp" by auto
  have "send_file err arg sockfd puffer k =
      Option.bind (send_loop sys_read sys_write k2 r sockfd p2) (send_end err sockfd)"
    using o(1,2) p1 p2 h w k2(1) by (simp add: send_file_def Let_def)
  moreover have "rsched k2 = rsched k"
    using o(1) sys_write_rsched [OF w] assms(1,2) alloc_fd_frame(5) by (auto simp: sys_open_existing)
  ultimately show thesis using that [of k2 r p2] k2 c2(2) by (simp add: hlp_def)
qed

text \<open>
  \<^verbatim>\<open>client2\<close> sends exactly the name behind the last slash, a line feed and the contents, prints
  nothing and closes the connection, unless a \<^verbatim>\<open>read\<close> of the file fills its array.
\<close>

lemma send_file_cases:
  assumes "files k arg = Some f" and "arg \<notin> set (denied k)" and "no_fail k" and "full_writes k"
    and "get_ofd k sockfd = Some i" and "ofdt k ! i = \<lparr>okind = Conn inq [], oacc = O_RDWR\<rparr>"
    and "no_nul arg" and "length arg + 1 < length puffer"
  shows "if read_fills (length puffer) (rsched k) (length (content f))
    then send_file err arg sockfd puffer k = Some (Inl OutOfBounds)
    else \<exists>p k'. send_file err arg sockfd puffer k = Some (Inr (Continue, [], p, k')) \<and>
      out_of k' i = upload (base_name arg) (content f)"
proof -
  obtain r p2 k2 where e: "copy_full None k i k2 r sockfd" "pending k2 r = content f" "length p2 = length puffer"
    "sent_bytes k2 sockfd = base_name arg @ [LF]" "rsched k2 = rsched k"
    "send_file err arg sockfd puffer k = Option.bind (send_loop sys_read sys_write k2 r sockfd p2) (send_end err sockfd)"
    by (rule send_file_enters_loop [OF assms(1-8), of err]) (rule that)
  have "p2 \<noteq> []" using assms(8) e(3) by auto
  note c = send_loop_cases [OF e(1) this, unfolded e(2-5)]
  show ?thesis
  proof (cases "read_fills (length puffer) (rsched k) (length (content f))")
    case True
    with c e(6) show ?thesis by (simp add: send_end_def)
  next
    case False
    with c obtain q k3 where
      l: "send_loop sys_read sys_write k2 r sockfd p2 = Some (Inr (Done, q, k3))"
        "copy_full None k i k3 r sockfd" "sent_bytes k3 sockfd = (base_name arg @ [LF]) @ content f" by auto
    have "send_file err arg sockfd puffer k = Some (Inr (Continue, [], q, snd (sys_close k3 sockfd)))"
      using e(6) l(1) by (simp add: send_end_def)
    moreover have "out_of (snd (sys_close k3 sockfd)) i = upload (base_name arg) (content f)"
      using out_of_sent [OF l(2)] l(3) by (simp add: upload_def)
    ultimately show ?thesis using False by auto
  qed
qed

text \<open>
  C1: the transfer round trip, for a file of any length and any segmentation of the reads on
  both sides. If no \<^verbatim>\<open>read\<close> of the client fills its array of 1024 characters, which is so for
  every file of less than 1024 bytes and for a longer one only when its reads come in shorter
  pieces, the file arrives at \<^verbatim>\<open>server2\<close> under \<^verbatim>\<open>$HOME/tmp\<close> and its base name with the same
  contents, and no other file of the server changes. Otherwise the client writes its
  terminator \<^verbatim>\<open>puffer[n] = 0\<close> behind the array, and this is what happens to every file of at
  least 1024 bytes whose reads are complete. Assumed: the file exists and can be opened, no call fails, writes are
  complete, the name fits into the arrays, and the server may create the file.
\<close>

theorem transfer_round_trip:
  assumes "files k arg = Some f" and "arg \<notin> set (denied k)" and "no_fail k" and "full_writes k"
    and "get_ofd k sockfd = Some i" and "ofdt k ! i = \<lparr>okind = Conn inq [], oacc = O_RDWR\<rparr>"
    and "no_nul arg" and "length arg + 1 < length puffer"
    and "name_fits h buf path_file (base_name arg)" and "h @ ''/tmp/'' @ base_name arg \<notin> set dn"
    and "Fail \<notin> set rs"
  shows "(if read_fills (length puffer) (rsched k) (length (content f))
     then send_file err arg sockfd puffer k = Some (Inl OutOfBounds)
     else \<exists>p k' p' q' says ks. send_file err arg sockfd puffer k = Some (Inr (Continue, [], p, k')) \<and>
       serve_conn (Some h) err 3 buf path_file (accepted_conn fs rs dn (out_of k' i)) =
         Some (Inr (Continue, says, p', q', ks)) \<and>
       text_of ks (h @ ''/tmp/'' @ base_name arg) = content f \<and>
       (\<forall>x. x \<noteq> h @ ''/tmp/'' @ base_name arg \<longrightarrow> files ks x = fs x)) \<and>
    (length (content f) < length puffer \<longrightarrow> \<not> read_fills (length puffer) (rsched k) (length (content f))) \<and>
    (rsched k = [] \<longrightarrow>
      read_fills (length puffer) (rsched k) (length (content f)) = (length puffer \<le> length (content f)))"
proof -
  note a = accepted_conn_listening [OF assms(11), of fs dn "upload (base_name arg) (content f)"]
  have d: "h @ ''/tmp/'' @ base_name arg \<notin> set (denied (accepted_conn fs rs dn (upload (base_name arg) (content f))))"
    using assms(10) a(4) by simp
  obtain q r k2 where
    s: "serve_conn (Some h) err 3 buf path_file (accepted_conn fs rs dn (upload (base_name arg) (content f))) =
       Some (Inr (Continue, stored_msgs h (base_name arg) (content f), q, r, k2))"
    and t: "text_of k2 (h @ ''/tmp/'' @ base_name arg) = content f"
      "\<forall>x. x \<noteq> h @ ''/tmp/'' @ base_name arg \<longrightarrow> files k2 x = fs x"
    by (rule serve_conn_stores [OF a(1,3,2) assms(9) d, of err]) (use a(5) in \<open>auto intro: that\<close>)
  show ?thesis
    using send_file_cases [OF assms(1-8), of err] s t short_not_fills
    by (auto split: if_splits)
qed

theorem transfer_round_trip_witness:
  "\<exists>p k' p' q' says ks. send_file ''E'' ''/d/a'' 3 (replicate 1024 NUL)
      (accepted_conn [''/d/a'' \<mapsto> \<lparr>content = replicate 1500 (CHR ''z''), perms = 0\<rparr>] [Upto 999] [] []) =
      Some (Inr (Continue, [], p, k')) \<and>
    serve_conn (Some ''/r'') ''E'' 3 (replicate 1024 NUL) (replicate 1024 NUL)
      (accepted_conn Map.empty [Upto 1] [] (out_of k' 3)) = Some (Inr (Continue, says, p', q', ks)) \<and>
    text_of ks (''/r'' @ ''/tmp/'' @ base_name ''/d/a'') = replicate 1500 (CHR ''z'')"
proof -
  define z where "z = replicate 1500 (CHR ''z'')"
  define b where "b = replicate 1024 NUL"
  define k where "k = accepted_conn [''/d/a'' \<mapsto> \<lparr>content = z, perms = 0\<rparr>] [Upto 999] [] []"
  have l: "length z = 1500" "length b = 1024" by (simp_all add: z_def b_def)
  have k: "files k ''/d/a'' = Some \<lparr>content = z, perms = 0\<rparr>" "''/d/a'' \<notin> set (denied k)" "no_fail k" "full_writes k"
    "get_ofd k 3 = Some 3" "ofdt k ! nat 3 = \<lparr>okind = Conn [] [], oacc = O_RDWR\<rparr>" "rsched k = [Upto 999]"
    by (simp_all add: k_def accepted_conn_listening accepted_conn_rsched)
  have f: "\<not> read_fills (length b) (rsched k) (length (content \<lparr>content = z, perms = 0\<rparr>))"
    using l k(7) by simp
  have n: "no_nul ''/d/a''" "length ''/d/a'' + 1 < length b" "name_fits ''/r'' b b (base_name ''/d/a'')"
    using l by (simp_all add: name_fits_def base_name_def)
  have "''/r'' @ ''/tmp/'' @ base_name ''/d/a'' \<notin> set []" "Fail \<notin> set [Upto 1]" by simp_all
  from transfer_round_trip [OF k(1-5) k(6) [unfolded nat_numeral] n this, of "''E''" Map.empty, unfolded if_not_P [OF f]]
  show ?thesis unfolding k_def b_def z_def by auto
qed

section \<open>Where the fixed arrays are too small\<close>

text \<open>
  \<^verbatim>\<open>client2\<close> writes behind the end of its buffer whenever one \<^verbatim>\<open>read\<close> fills it: for a file that
  is at least as long as the buffer and an uninterrupted read, the terminating
  \<^verbatim>\<open>puffer[n] = 0\<close> is out of bounds.
\<close>

theorem send_file_overflows:
  assumes "files k arg = Some f" and "arg \<notin> set (denied k)" and "no_fail k" and "full_writes k"
    and "get_ofd k sockfd = Some i" and "ofdt k ! i = \<lparr>okind = Conn inq [], oacc = O_RDWR\<rparr>"
    and "no_nul arg" and "length arg + 1 < length puffer"
    and "rsched k = []" and "length puffer \<le> length (content f)"
  shows "send_file err arg sockfd puffer k = Some (Inl OutOfBounds)"
  using send_file_cases [OF assms(1-8), of err] assms(9,10) by simp

theorem send_file_overflows_witness:
  "send_file ''E'' ''big'' 3 (replicate 1024 NUL)
     (accepted_conn [''big'' \<mapsto> \<lparr>content = replicate 1024 (CHR ''z''), perms = 0\<rparr>] [] [] []) = Some (Inl OutOfBounds)"
  by (rule send_file_overflows [where i = 3 and f = "\<lparr>content = replicate 1024 (CHR ''z''), perms = 0\<rparr>" and inq = "[]"])
    (simp_all add: accepted_conn_listening accepted_conn_rsched)

text \<open>
  The servers write behind the end of their buffer when the peer sends more than 1024
  bytes without a line feed: the loop that reads the name has no bound.
\<close>

theorem server_name_overflows:
  assumes "listening k k connfd" and "pending k connfd = s @ rest" and "LF \<notin> set s"
    and "length puffer < length s"
  shows "serve_conn home err connfd puffer path_file k = Some (Inl OutOfBounds)"
proof -
  have "read_name sys_read k connfd puffer 0 = Inl OutOfBounds"
    using posix_listen.read_name_overflow [OF assms(1-3), of puffer 0] assms(4) by simp
  then show ?thesis by (simp add: serve_conn_def)
qed

theorem server_name_overflows_witness:
  "serve_conn None ''E'' 3 (replicate 1024 NUL) (replicate 1024 NUL)
     (accepted_conn Map.empty [] [] (replicate 1025 (CHR ''A''))) = Some (Inl OutOfBounds)"
  by (rule server_name_overflows [of _ 3 "replicate 1025 (CHR ''A'')" "[]"])
    (simp_all add: accepted_conn_listening)

section \<open>The parallel servers\<close>

lemma get_ofd_close: "get_ofd (snd (sys_close k fd)) x = (if x = fd then None else get_ofd k x)"
proof (cases "get_ofd k fd")
  case None
  then show ?thesis by (simp add: sys_close_def)
next
  case (Some i)
  then have "0 \<le> fd" "nat fd < length (fdt k)" by (auto simp: get_ofd_def split: if_splits)
  then have n: "x \<noteq> fd \<Longrightarrow> 0 \<le> x \<Longrightarrow> nat fd \<noteq> nat x" by auto
  from Some have "snd (sys_close k fd) = k\<lparr>fdt := (fdt k)[nat fd := None]\<rparr>" by (simp add: sys_close_def)
  moreover have "get_ofd (k\<lparr>fdt := (fdt k)[nat fd := None]\<rparr>) x = (if x = fd then None else get_ofd k x)"
  proof (cases "x = fd")
    case True
    then show ?thesis using \<open>nat fd < length (fdt k)\<close> by (simp add: get_ofd_def)
  next
    case False
    then show ?thesis using n by (cases "0 \<le> x") (simp_all add: get_ofd_def cong: option.case_cong)
  qed
  ultimately show ?thesis by simp
qed

lemma accept_close_ofd:
  assumes "alloc_fd k d = (c, k1)" and "get_ofd k x = Some i"
  shows "get_ofd (snd (sys_close k1 c)) x = Some i"
  using alloc_fd_others [OF assms] alloc_fd_frame(9) [OF assms(1)] assms(2) by (auto simp: get_ofd_close)

definition child_ok :: "(accepted \<times> bool) list \<Rightarrow> int \<times> kernel \<Rightarrow> bool" where
  "child_ok evs x = (case x of (c, kc) \<Rightarrow> (Peer (pending kc c), True) \<in> set evs \<and> listening kc kc c)"

lemma pserver_loop_children:
  assumes "pserver_loop err evs k out cs = (r, out', cs', k')" and "no_fail k"
  shows "(\<forall>x \<in> set cs'. x \<in> set cs \<or> child_ok evs x) \<and> (\<forall>x i. get_ofd k x = Some i \<longrightarrow> get_ofd k' x = Some i)"
  using assms
proof (induction evs arbitrary: k out cs)
  case Nil
  then show ?case by simp
next
  case (Cons e evs)
  obtain ev forked where e: "e = (ev, forked)" by (cases e)
  have mono: "child_ok evs x \<Longrightarrow> child_ok (e # evs) x" for x by (auto simp: child_ok_def split: prod.splits)
  show ?case
  proof (cases ev)
    case (Peer s)
    obtain c k1 where a: "alloc_fd k \<lparr>okind = Conn s [], oacc = O_RDWR\<rparr> = (c, k1)"
      by (cases "alloc_fd k \<lparr>okind = Conn s [], oacc = O_RDWR\<rparr>")
    define cs1 where "cs1 = (if forked then cs @ [(c, k1)] else cs)"
    have nf: "no_fail (snd (sys_close k1 c))" using alloc_fd_frame(5,6) [OF a] Cons.prems(2) by (simp add: no_fail_def)
    from Cons.prems(1) e Peer a
    have "pserver_loop err evs (snd (sys_close k1 c)) (out @ [Out ''... Daten empfangen\<newline>'']) cs1 = (r, out', cs', k')"
      by (simp add: cs1_def)
    from Cons.IH [OF this nf] have IH: "\<forall>x \<in> set cs'. x \<in> set cs1 \<or> child_ok evs x"
      "\<forall>x i. get_ofd (snd (sys_close k1 c)) x = Some i \<longrightarrow> get_ofd k' x = Some i" by simp_all
    have new: "forked \<Longrightarrow> child_ok (e # evs) (c, k1)"
      using accept_listening [OF a Cons.prems(2)] e Peer by (simp add: child_ok_def)
    have "\<forall>x \<in> set cs'. x \<in> set cs \<or> child_ok (e # evs) x"
      using IH(1) mono new by (cases forked) (auto simp: cs1_def)
    with IH(2) accept_close_ofd [OF a] show ?thesis by blast
  next
    case Interrupted
    with Cons.IH [of k out cs] Cons.prems e mono show ?thesis by auto
  next
    case AcceptFails
    with Cons.prems e show ?thesis by auto
  qed
qed

text \<open>
  The parent of \<^verbatim>\<open>pserver\<close> gives each accepted connection to one child with the peer's bytes
  still unread, and keeps its own descriptors: every descriptor it had before is open
  afterwards and refers to the same object.
\<close>

theorem pserver_parent:
  assumes "pserver_loop err evs k [] [] = (r, out, children, k')" and "no_fail k"
  shows "(\<forall>(c, kc) \<in> set children. (Peer (pending kc c), True) \<in> set evs \<and> listening kc kc c) \<and>
    (\<forall>x i. get_ofd k x = Some i \<longrightarrow> get_ofd k' x = Some i)"
  using pserver_loop_children [OF assms] by (auto simp: child_ok_def)

theorem pserver_parent_witness:
  "\<exists>r out c kc k'. pserver_loop ''E'' [(Peer ''a'', True), (Interrupted, True)] (boot Map.empty [] []) [] [] =
     (r, out, [(c, kc)], k') \<and> pending kc c = ''a'' \<and> get_ofd k' 2 = Some 2"
proof -
  obtain c k1 where a: "alloc_fd (boot Map.empty [] []) \<lparr>okind = Conn ''a'' [], oacc = O_RDWR\<rparr> = (c, k1)"
    by (cases "alloc_fd (boot Map.empty [] []) \<lparr>okind = Conn ''a'' [], oacc = O_RDWR\<rparr>")
  have e: "pserver_loop ''E'' [(Peer ''a'', True), (Interrupted, True)] (boot Map.empty [] []) [] [] =
     (None, [Out ''... Daten empfangen\<newline>''], [(c, k1)], snd (sys_close k1 c))" using a by simp
  have b: "no_fail (boot Map.empty [] [])" "get_ofd (boot Map.empty [] []) 2 = Some 2"
    by (simp_all add: boot_def no_fail_def get_ofd_def)
  from pserver_parent [OF e b(1)] b(2) have "pending k1 c = ''a''" "get_ofd (snd (sys_close k1 c)) 2 = Some 2"
    by auto
  with e show ?thesis by blast
qed

lemma kind_close:
  "kind_of (snd (sys_close k fd)) x = (if x = fd then None else kind_of k x)"
  "acc_of (snd (sys_close k fd)) x = (if x = fd then None else acc_of k x)"
  by (simp_all add: kind_of_def acc_of_def get_ofd_close)

lemma listening_close:
  assumes "listening k k c" and "fd \<noteq> c"
  shows "listening (snd (sys_close k fd)) (snd (sys_close k fd)) c"
    "pending (snd (sys_close k fd)) c = pending k c"
  using assms by (auto simp: listening_def source_ok_def kind_close no_fail_def pending_def)

text \<open>
  A child of \<^verbatim>\<open>pserver\<close> stores the upload it was given, but then exits with failure: it
  never leaves the accept loop and fails there on the socket it has closed itself.
\<close>

theorem pserver_child_stores:
  assumes "listening k k connfd" and "sockfd \<noteq> connfd" and "full_writes k" and "pending k connfd = upload name c"
    and "name_fits h puffer path_file name" and "h @ ''/tmp/'' @ name \<notin> set (denied k)"
  shows "\<exists>out k'. pserver_child (Some h) err sockfd connfd puffer path_file k =
      Some (Inr (EXIT_FAILURE, out @ [Out (''Fehler bei accept() ... ('' @ err @ '')\<newline>'')], k')) \<and>
    text_of k' (h @ ''/tmp/'' @ name) = c \<and> (\<forall>x. x \<noteq> h @ ''/tmp/'' @ name \<longrightarrow> files k' x = files k x)"
proof -
  define k0 where "k0 = snd (sys_close k sockfd)"
  have l: "listening k0 k0 connfd" "pending k0 connfd = upload name c"
    using listening_close [OF assms(1,2)] assms(4) by (simp_all add: k0_def)
  have k0: "full_writes k0" "denied k0 = denied k" "files k0 = files k" using assms(3) by (simp_all add: k0_def full_writes_def)
  obtain p1 k1 path where
    r: "read_name sys_read k0 connfd puffer 0 = Inr (1, p1, k1)" "listening k0 k1 connfd"
      "pending k1 connfd = c" "terminated p1" "make_path (Some h) path_file p1 = Inr path"
      "cstr path = h @ ''/tmp/'' @ name"
    by (rule receive_name [OF l assms(5)]) (rule that)
  have k1: "full_writes k1" "cstr path \<notin> set (denied k1)" "p1 \<noteq> []" "files k1 = files k"
    using r(2,4,6) k0 assms(6) by (auto simp: listening_def full_writes_def terminated_def)
  obtain fd k2 q k3 where
    s: "sys_open k1 (cstr path) O_WRONLY [O_CREAT, O_TRUNC] 0x1A4 = (fd, k2)" "0 \<le> fd"
      "receive_loop sys_read sys_write k2 connfd fd p1 0 = Some (Done, int32 (int (length (pending k1 connfd))), q, k3)"
      "text_of k3 (cstr path) = pending k1 connfd" "\<forall>x. x \<noteq> cstr path \<longrightarrow> files k3 x = files k1 x"
    by (rule receive_stores [OF r(2) k1(1-3), of "0x1A4"]) (rule that)
  then show ?thesis using r k1(4)
    by (simp add: pserver_child_def transfer_end_def child_accept_def Let_def k0_def [symmetric])
qed

theorem pserver_child_stores_witness:
  "\<exists>out k'. pserver_child (Some ''/r'') ''E'' 2 3 (replicate 1024 NUL) (replicate 1024 NUL)
      (accepted_conn Map.empty [Upto 0] [] (upload ''a'' ''xy'')) =
      Some (Inr (EXIT_FAILURE, out @ [Out (''Fehler bei accept() ... ('' @ ''E'' @ '')\<newline>'')], k')) \<and>
    text_of k' (''/r'' @ ''/tmp/'' @ ''a'') = ''xy'' \<and>
    (\<forall>x. x \<noteq> ''/r'' @ ''/tmp/'' @ ''a'' \<longrightarrow>
      files k' x = files (accepted_conn Map.empty [Upto 0] [] (upload ''a'' ''xy'')) x)"
  by (rule pserver_child_stores) (simp_all add: accepted_conn_listening name_fits_def)

text \<open>
  C40: a file that cannot be opened ends the connection in \<^verbatim>\<open>server2\<close>, which goes on, but ends
  the whole process in \<^verbatim>\<open>thserver\<close>: \<^verbatim>\<open>copy\<close> does not return after the failed \<^verbatim>\<open>open\<close> and exits in
  the read on the connection it has closed.
\<close>

theorem open_failure_handling:
  assumes "listening k k connfd" and "pending k connfd = upload name c"
    and "name_fits h puffer path_file name" and "h @ ''/tmp/'' @ name \<in> set (denied k)"
  shows "\<exists>says p q k1 says' k2.
    serve_conn (Some h) err connfd puffer path_file k = Some (Inr (Continue, says, p, q, k1)) \<and>
    threading_socket (Some h) err connfd puffer path_file k = Some (Inr (Exit EXIT_FAILURE, says', k2))"
proof -
  obtain p1 k1 path where
    r: "read_name sys_read k connfd puffer 0 = Inr (1, p1, k1)" "listening k k1 connfd" "terminated p1"
      "make_path (Some h) path_file p1 = Inr path" "cstr path = h @ ''/tmp/'' @ name"
    by (rule receive_name [OF assms(1-3)]) (rule that)
  then have "cstr path \<in> set (denied k1)" using assms(4) by (simp add: listening_def)
  then have o: "sys_open k1 (cstr path) O_WRONLY [O_CREAT, O_TRUNC] m = (-1, k1)" for m
    by (simp add: sys_open_def)
  have "receive_loop sys_read sys_write (snd (sys_close k1 connfd)) connfd (-1) p1 0 =
      Some (ReadErr, 0, p1, snd (sys_close k1 connfd))"
    by (simp add: receive_loop.simps sys_read_def get_ofd_close)
  with r(1,3,4) o show ?thesis
    by (simp add: serve_conn_def threading_socket_def copy_conn_def transfer_end_def Let_def)
qed

theorem open_failure_handling_witness:
  "\<exists>says p q k1 says' k2.
    serve_conn (Some ''/r'') ''E'' 3 (replicate 1024 NUL) (replicate 1024 NUL)
      (accepted_conn Map.empty [] [''/r/tmp/a''] (upload ''a'' ''xy'')) = Some (Inr (Continue, says, p, q, k1)) \<and>
    threading_socket (Some ''/r'') ''E'' 3 (replicate 1024 NUL) (replicate 1024 NUL)
      (accepted_conn Map.empty [] [''/r/tmp/a''] (upload ''a'' ''xy'')) = Some (Inr (Exit EXIT_FAILURE, says', k2))"
  by (rule open_failure_handling [where name = "''a''" and c = "''xy''"])
    (simp_all add: accepted_conn_listening name_fits_def)

end
