(* ===== verification/HttpServer.thy ===== *)
theory HttpServer
  imports Channel
begin

text \<open>
  The HTTP server \<^verbatim>\<open>src/11_Network/select/http_server.c\<close>: the tokenizer \<^verbatim>\<open>GetToken\<close>, the two
  sending loops, the response header, one request (\<^verbatim>\<open>httpd\<close>) and the loops of the child and of
  the accepting process. A character array is a list of its size, so a read or a write outside
  it is a fault; a pointer into an array is the suffix that starts there. The bytes that the
  buffered stream of one request yields are the argument \<open>s\<close>; at their end \<^verbatim>\<open>fgets\<close> returns the
  null pointer, which the code dereferences. \<open>date\<close> and \<open>lastmod\<close> are the two lines that
  \<^verbatim>\<open>strftime\<close> formats.
\<close>

section \<open>GetToken\<close>

definition gt_sep :: "char \<Rightarrow> char \<Rightarrow> bool" where
  "gt_sep delim c \<longleftrightarrow> c = delim \<or> c = SPC \<or> c = NUL \<or> c = TAB \<or> c = CR \<or> c = LF"

fun gt_skip :: "char \<Rightarrow> char list \<Rightarrow> char list cres" where
  "gt_skip delim [] = Inl OutOfBounds"
| "gt_skip delim (c # cs) = (if gt_sep delim c then gt_skip delim cs else Inr (c # cs))"

fun gt_copy :: "char \<Rightarrow> nat \<Rightarrow> char list \<Rightarrow> char list \<Rightarrow> nat \<Rightarrow> (nat option \<times> char list \<times> char list) cres" where
  "gt_copy delim toklen [] token len = Inl OutOfBounds"
| "gt_copy delim toklen (c # cs) token len =
     (if \<not> gt_sep delim c then
        (if len < length token then
           (if Suc len > toklen - 1 then Inr (None, cs, token[len := c])
            else gt_copy delim toklen cs (token[len := c]) (Suc len))
         else Inl OutOfBounds)
      else Inr (Some len, c # cs, token))"

fun gt_loop :: "char \<Rightarrow> nat \<Rightarrow> nat \<Rightarrow> char list \<Rightarrow> char list \<Rightarrow> nat \<Rightarrow> (int \<times> char list) cres" where
  "gt_loop delim toklen 0 rest token len = Inr (int len, token)"
| "gt_loop delim toklen (Suc k) rest token len =
     (if token = [] then Inl OutOfBounds
      else (case gt_skip delim rest of
          Inl f \<Rightarrow> Inl f
        | Inr rest1 \<Rightarrow>
            (case gt_copy delim toklen rest1 (token[0 := NUL]) 0 of
               Inl f \<Rightarrow> Inl f
             | Inr (None, rest2, token2) \<Rightarrow> Inr (-1, token2)
             | Inr (Some len2, rest2, token2) \<Rightarrow>
                 (if len2 < length token2 then gt_loop delim toklen k rest2 (token2[len2 := NUL]) len2
                  else Inl OutOfBounds))))"

definition GetToken :: "char list \<Rightarrow> nat \<Rightarrow> char list \<Rightarrow> nat \<Rightarrow> char \<Rightarrow> (int \<times> char list) cres" where
  "GetToken buf n token toklen delim = gt_loop delim toklen n buf token 0"

section \<open>Sending\<close>

partial_function (option) SendBlock ::
  "('k \<Rightarrow> int \<Rightarrow> string \<Rightarrow> int \<times> 'k) \<Rightarrow> 'k \<Rightarrow> int \<Rightarrow> string \<Rightarrow> (int \<times> 'k) option" where
  "SendBlock wr k soc r =
     (if r = [] then Some (0, k)
      else (case wr k soc r of (len, k') \<Rightarrow>
        if len = -1 then Some (-1, k') else SendBlock wr k' soc (drop (nat len) r)))"

partial_function (option) SendBuf_loop ::
  "('k \<Rightarrow> int \<Rightarrow> string \<Rightarrow> int \<times> 'k) \<Rightarrow> 'k \<Rightarrow> int \<Rightarrow> string \<Rightarrow> int \<Rightarrow> (int \<times> 'k) option" where
  "SendBuf_loop wr k soc r rlen =
     (if rlen > 0 then
        (case wr k soc r of (len, k') \<Rightarrow>
           if len = -1 then Some (-1, k')
           else SendBuf_loop wr k' soc (drop (nat len) r) (rlen - len))
      else Some (0, k))"

definition SendBuf ::
  "('k \<Rightarrow> int \<Rightarrow> string \<Rightarrow> int \<times> 'k) \<Rightarrow> 'k \<Rightarrow> int \<Rightarrow> string \<Rightarrow> (int \<times> 'k) option" where
  "SendBuf wr k soc buf = SendBuf_loop wr k soc buf (int (length buf))"

abbreviation (input) CRLF :: string where "CRLF \<equiv> [CR, LF]"

text \<open>The results of the calls in the header are ignored.\<close>

fun send_bufs :: "('k \<Rightarrow> int \<Rightarrow> string \<Rightarrow> int \<times> 'k) \<Rightarrow> 'k \<Rightarrow> int \<Rightarrow> string list \<Rightarrow> 'k option" where
  "send_bufs wr k soc [] = Some k"
| "send_bufs wr k soc (b # bs) = Option.bind (SendBuf wr k soc b) (\<lambda>(r, k'). send_bufs wr k' soc bs)"

definition header_lines :: "int \<Rightarrow> string \<Rightarrow> int \<Rightarrow> string \<Rightarrow> string option \<Rightarrow> string list" where
  "header_lines code phase len date lastmod =
     [''HTTP/1.1 '' @ show_int code @ '' '' @ phase @ CRLF, date, ''Server: http_server 0.1'' @ CRLF] @
     (case lastmod of None \<Rightarrow> [] | Some l \<Rightarrow> [l]) @
     [''Accept-Ranges: none'' @ CRLF, ''Content-Length: '' @ show_int len @ CRLF,
      ''Connection: Keep-Alive'' @ CRLF, ''Content-Type text/html'' @ CRLF, CRLF]"

definition SendHTTPHeader ::
  "('k \<Rightarrow> int \<Rightarrow> string \<Rightarrow> int \<times> 'k) \<Rightarrow> 'k \<Rightarrow> int \<Rightarrow> int \<Rightarrow> string \<Rightarrow> int \<Rightarrow> string \<Rightarrow> string option \<Rightarrow> 'k option" where
  "SendHTTPHeader wr k soc code phase len date lastmod =
     send_bufs wr k soc (header_lines code phase len date lastmod)"

section \<open>One request\<close>

record req =
  buf :: "char list"
  http_method :: "char list"
  headline :: "char list"
  request_header :: "char list"
  hTitle :: "char list"
  hValue :: "char list"
  isFirst :: bool
  retval :: int
  log :: "say list"

definition req0 :: req where
  "req0 = \<lparr>buf = replicate 512 NUL, http_method = replicate 255 NUL, headline = replicate 1024 NUL,
     request_header = replicate 2048 NUL, hTitle = replicate 32 NUL, hValue = replicate 128 NUL,
     isFirst = True, retval = 0, log = [Out ''-----------Request-Header Client-------------\<newline>'']\<rparr>"

text \<open>What happens to one line that is in \<^verbatim>\<open>buf\<close>: the headline, or a further header line.\<close>

definition first_line :: "req \<Rightarrow> req cres" where
  "first_line q =
     (case strcpy (headline q) (cstr (buf q)) of
        Inl f \<Rightarrow> Inl f
      | Inr h \<Rightarrow>
          (case GetToken h 1 (http_method q) 255 NUL of
             Inl f \<Rightarrow> Inl f
           | Inr (_, m) \<Rightarrow> Inr (q\<lparr>headline := h, http_method := m, isFirst := False\<rparr>)))"

definition header_line :: "req \<Rightarrow> req cres" where
  "header_line q =
     (case strcat (request_header q) (cstr (buf q)) of
        Inl f \<Rightarrow> Inl f
      | Inr h \<Rightarrow>
          (case GetToken (buf q) 1 (hTitle q) 32 (CHR '':'') of
             Inl f \<Rightarrow> Inl f
           | Inr (_, t) \<Rightarrow>
               (let q1 = q\<lparr>request_header := h, hTitle := t\<rparr> in
                if cstr t = ''Connection'' then
                  (case GetToken (buf q) 2 (hValue q) 128 SPC of
                     Inl f \<Rightarrow> Inl f
                   | Inr (_, v) \<Rightarrow>
                       if cstr v = ''Keep-Alive'' then
                         Inr (q1\<lparr>hValue := v, retval := 1,
                           log := log q1 @ [Out (''Client benoetigt keep alive'' @ CRLF)]\<rparr>)
                       else
                         Inr (q1\<lparr>hValue := v, retval := -1,
                           log := log q1 @ [Out (''Client benoetigt kein keep alive'' @ CRLF)]\<rparr>))
                else Inr q1)))"

text \<open>
  The reading loop. \<^verbatim>\<open>fgets\<close> may store up to 2048 characters into \<^verbatim>\<open>buf\<close>, which has 512.
\<close>

function read_request :: "string \<Rightarrow> req \<Rightarrow> req cres" where
  "read_request s q =
     (case fgets 2048 s of
        None \<Rightarrow> Inl NullDeref
      | Some (line, rest) \<Rightarrow>
          (case strcpy (buf q) line of
             Inl f \<Rightarrow> Inl f
           | Inr b \<Rightarrow>
               (let q1 = q\<lparr>buf := b\<rparr> in
                if b ! 0 = CR \<and> b ! 1 = LF then Inr q1
                else
                  (let q2 = q1\<lparr>log := log q1 @ [Out (''ClientRequest: '' @ cstr b)]\<rparr> in
                   case (if isFirst q2 then first_line q2 else header_line q2) of
                     Inl f \<Rightarrow> Inl f
                   | Inr q3 \<Rightarrow> read_request rest q3))))"
  by pat_completeness auto
termination
  by (relation "measure (\<lambda>(s, q). length s)") (auto dest: fgets_shorter)

declare read_request.simps [simp del]

definition error404 :: string where
  "error404 = ''<HTML><HEAD><TITLE>404 Not Found</TITLE></HEAD><BODY><H1>Nicht gefunden</H1>'' @
     ''Die angeforderte URL konnte nicht auf disem Server gefunden werden.'' @
     ''<P><HR><I>http_server0.1</I></BODY></HTML>'' @ CRLF @ CRLF"

definition send_404 :: "string \<Rightarrow> int \<Rightarrow> kernel \<Rightarrow> kernel option" where
  "send_404 date soc k =
     (let n = int (length error404) + 1 in
      Option.bind (SendHTTPHeader sys_write k soc 404 ''FILE NOT FOUND.'' n date None) (\<lambda>k1.
      Option.bind (SendBlock sys_write k1 soc (error404 @ [NUL])) (\<lambda>(_, k2).
      Option.bind (SendBuf sys_write k2 soc (CRLF @ CRLF)) (\<lambda>(_, k3). Some k3))))"

definition send_file_200 :: "string \<Rightarrow> string \<Rightarrow> string \<Rightarrow> int \<Rightarrow> kernel \<Rightarrow> kernel option" where
  "send_file_200 date lastmod blob soc k =
     Option.bind (SendHTTPHeader sys_write k soc 200 ''OK'' (int (length blob)) date (Some lastmod)) (\<lambda>k1.
     Option.bind (SendBlock sys_write k1 soc blob) (\<lambda>(_, k2).
     Option.bind (SendBuf sys_write k2 soc (CRLF @ CRLF)) (\<lambda>(_, k3). Some k3)))"

text \<open>
  \<^verbatim>\<open>fopen(path, "r")\<close> and the block that is sent. A directory can be opened too (\<open>dirs\<close> gives the
  directories); then \<^verbatim>\<open>fread\<close> fails, and what is sent are the \<^verbatim>\<open>st_size\<close> bytes that \<^verbatim>\<open>malloc\<close> returned,
  as they were: that is the string \<open>dirs\<close> has for the directory.
\<close>

definition http_open :: "(string \<Rightarrow> string option) \<Rightarrow> string \<Rightarrow> kernel \<Rightarrow> string option" where
  "http_open dirs path k =
     (if path \<in> set (denied k) then None
      else case dirs path of Some blob \<Rightarrow> Some blob | None \<Rightarrow> map_option content (files k path))"

text \<open>The answer to a request that has been read.\<close>

definition answer :: "(string \<Rightarrow> string option) \<Rightarrow> string \<Rightarrow> string \<Rightarrow> int \<Rightarrow> req \<Rightarrow> kernel \<Rightarrow> (int \<times> say list \<times> kernel) cres option" where
  "answer dirs date lastmod soc q k =
     (let out = log q @ [Out (''Fertig mit dem Lesen des Request-Headers...'' @ CRLF),
          Out ''-------------------------------------------\<newline>''] in
      if cstr (http_method q) = ''GET'' \<or> cstr (http_method q) = ''get'' then
        (case GetToken (headline q) 2 (replicate 512 NUL) 1024 NUL of
           Inl f \<Rightarrow> Some (Inl f)
         | Inr (_, uri) \<Rightarrow>
             (case GetToken uri 1 (replicate 255 NUL) 255 (CHR ''/'') of
                Inl f \<Rightarrow> Some (Inl f)
              | Inr (_, dir) \<Rightarrow>
                  if \<not> terminated uri \<or> \<not> Suc (length (cstr uri)) < 512 then Some (Inl OutOfBounds)
                  else
                    (let path = CHR ''.'' # cstr uri;
                         out = out @ [Out (''Folgende Datei wurde vom Client angefordert: '' @ cstr uri @ CRLF)]
                     in case http_open dirs path k of
                        None \<Rightarrow> map_option (\<lambda>k'. Inr (-1, out @ [Out (''404 Nacricht'' @ CRLF)], k'))
                                 (send_404 date soc k)
                      | Some blob \<Rightarrow> map_option (\<lambda>k'. Inr (retval q, out @ [Out (''Datei existiert ...'' @ CRLF),
                                   Out (''Alle Daten gesendet ...'' @ CRLF)], k'))
                                 (send_file_200 date lastmod blob soc k))))
      else Some (Inr (retval q, out, k)))"

definition httpd ::
  "(string \<Rightarrow> string option) \<Rightarrow> string \<Rightarrow> string \<Rightarrow> int \<Rightarrow> string \<Rightarrow> kernel \<Rightarrow> (int \<times> say list \<times> kernel) cres option" where
  "httpd dirs date lastmod soc s k =
     (case read_request s req0 of Inl f \<Rightarrow> Some (Inl f) | Inr q \<Rightarrow> answer dirs date lastmod soc q k)"

section \<open>The child and the accepting process\<close>

text \<open>
  Each time round its loop the child learns from \<^verbatim>\<open>select\<close> and \<^verbatim>\<open>FIONREAD\<close> that the call failed,
  that the peer has closed, or that a request can be read.
\<close>

datatype select_ev = SelectFails | Readable string

fun child_loop ::
  "(string \<Rightarrow> string option) \<Rightarrow> string \<Rightarrow> string \<Rightarrow> int \<Rightarrow> select_ev list \<Rightarrow> kernel \<Rightarrow> say list \<Rightarrow> (bool \<times> say list \<times> kernel) cres option" where
  "child_loop dirs date lastmod soc [] k out = Some (Inr (False, out, k))"
| "child_loop dirs date lastmod soc (SelectFails # evs) k out =
     Some (Inr (True, out @ [Out (''Client socket '' @ show_int soc @ '' beendet'' @ CRLF)], snd (sys_close k soc)))"
| "child_loop dirs date lastmod soc (Readable s # evs) k out =
     (if s = [] then
        Some (Inr (True, out @ [Out (''Client socket '' @ show_int soc @ '' beendet'' @ CRLF)], snd (sys_close k soc)))
      else Option.bind (httpd dirs date lastmod soc s k) (\<lambda>r. case r of
            Inl f \<Rightarrow> Some (Inl f)
          | Inr (result, says, k1) \<Rightarrow>
              if result < 0 then
                Some (Inr (True, out @ says @ [Out (''Client socket '' @ show_int soc @ '' beendet'' @ CRLF)],
                  snd (sys_close k1 soc)))
              else child_loop dirs date lastmod soc evs k1 (out @ says)))"

definition child_main ::
  "(string \<Rightarrow> string option) \<Rightarrow> string \<Rightarrow> string \<Rightarrow> int \<Rightarrow> select_ev list \<Rightarrow> kernel \<Rightarrow> (bool \<times> say list \<times> kernel) cres option" where
  "child_main dirs date lastmod soc_cli evs k =
     (if soc_cli \<noteq> -1 then
        child_loop dirs date lastmod soc_cli evs k
          [Out (''Client verbunden mit socket '' @ show_int soc_cli @ CRLF)]
      else Some (Inr (True, [Out (''Fehler: accepting client'' @ [CHR 0x27] @ ''s connection.'' @ CRLF)], k)))"

text \<open>
  The accepting process: an accepted peer (or a failed \<^verbatim>\<open>accept\<close>) and the result of \<^verbatim>\<open>fork\<close>.
\<close>

fun http_loop ::
  "string \<Rightarrow> (string option \<times> bool) list \<Rightarrow> kernel \<Rightarrow> say list \<Rightarrow> (int \<times> kernel) list \<Rightarrow>
   say list \<times> (int \<times> kernel) list \<times> kernel" where
  "http_loop err [] k out cs = (out @ [Out (''Warte auf Clientverbindung ... '' @ CRLF)], cs, k)"
| "http_loop err ((peer, forked) # evs) k out cs =
     (case (case peer of None \<Rightarrow> (-1, k) | Some s \<Rightarrow> alloc_fd k \<lparr>okind = Conn s [], oacc = O_RDWR\<rparr>) of
        (soc_cli, k1) \<Rightarrow>
          (let out1 = out @ [Out (''Warte auf Clientverbindung ... '' @ CRLF)] in
           if forked then http_loop err evs (snd (sys_close k1 soc_cli)) out1 (cs @ [(soc_cli, k1)])
           else http_loop err evs k1 (out1 @ [Out (''Fehler bie fork() ('' @ err @ '')'' @ CRLF)]) cs))"

definition http_main ::
  "string \<Rightarrow> bool \<Rightarrow> bool \<Rightarrow> (string option \<times> bool) list \<Rightarrow> kernel \<Rightarrow>
   int option \<times> say list \<times> (int \<times> kernel) list \<times> kernel" where
  "http_main err bind_ok listen_ok evs k =
     (case alloc_fd k \<lparr>okind = Conn [] [], oacc = O_RDWR\<rparr> of (soc, k1) \<Rightarrow>
      if \<not> bind_ok then (Some EXIT_FAILURE, [Out (''Fehler: binding server socket'' @ CRLF)], [], k1)
      else if \<not> listen_ok then (Some EXIT_FAILURE, [Out (''Fehler: listening server socket'' @ CRLF)], [], k1)
      else (None, http_loop err evs k1 [] []))"

section \<open>GetToken is a tokenizer\<close>

lemma gt_skip_eq:
  "gt_skip delim s = (case dropWhile (gt_sep delim) s of [] \<Rightarrow> Inl OutOfBounds | c # cs \<Rightarrow> Inr (c # cs))"
  by (induction s) auto

text \<open>Copying one word that fits: it is placed at \<open>len\<close>, and the rest starts with a separator.\<close>

lemma gt_copy_word:
  assumes "\<forall>c \<in> set w. \<not> gt_sep delim c" and "gt_sep delim x" and "len + length w < toklen"
    and "len + length w \<le> length token"
  shows "gt_copy delim toklen (w @ x # rest) token len =
    Inr (Some (len + length w), x # rest, take len token @ w @ drop (len + length w) token)"
  using assms
proof (induction w arbitrary: token len)
  case Nil
  then show ?case by simp
next
  case (Cons c w)
  then have "gt_copy delim toklen (w @ x # rest) (token[len := c]) (Suc len) =
    Inr (Some (Suc len + length w), x # rest,
      take (Suc len) (token[len := c]) @ w @ drop (Suc len + length w) (token[len := c]))" by simp
  with Cons.prems show ?case by (simp add: take_Suc_list_update)
qed

text \<open>A word that does not fit is cut off after \<open>toklen\<close> characters.\<close>

lemma gt_copy_long:
  assumes "\<forall>c \<in> set w. \<not> gt_sep delim c" and "toklen \<le> len + length w" and "len < toklen"
    and "toklen \<le> length token"
  shows "\<exists>rest'. gt_copy delim toklen (w @ rest) token len =
    Inr (None, rest', take len token @ take (toklen - len) w @ drop toklen token)"
  using assms
proof (induction w arbitrary: token len)
  case Nil
  then show ?case by simp
next
  case (Cons c w)
  show ?case
  proof (cases "Suc len = toklen")
    case True
    with Cons.prems show ?thesis by (auto simp: upd_conv_take_nth_drop)
  next
    case False
    with Cons.prems Cons.IH [of "Suc len" "token[len := c]"]
    have "\<exists>rest'. gt_copy delim toklen (w @ rest) (token[len := c]) (Suc len) =
      Inr (None, rest', take (Suc len) (token[len := c]) @ take (toklen - Suc len) w @ drop toklen (token[len := c]))"
      by simp
    moreover have "toklen - len = Suc (toklen - Suc len)" using Cons.prems(3) by simp
    ultimately show ?thesis using False Cons.prems by (auto simp: take_Suc_list_update)
  qed
qed

lemma split_words_first:
  assumes "split_words sep s = w # ws" and "s \<noteq> []" and "sep (last s)"
  obtains x rest where "dropWhile sep s = w @ x # rest" "sep x" "split_words sep (x # rest) = ws"
    "w \<noteq> []" "\<forall>c \<in> set w. \<not> sep c" "last (x # rest) = last s"
proof -
  from assms(1) obtain c cs where d: "dropWhile sep s = c # cs"
    and w: "w = c # takeWhile (\<lambda>x. \<not> sep x) cs" and ws: "ws = split_words sep (dropWhile (\<lambda>x. \<not> sep x) cs)"
    by (auto simp: split_words.simps [of sep s] split: list.splits)
  have nc: "\<not> sep c" using dropWhile_Cons_not [OF d] .
  have l: "last (c # cs) = last s" using d by (metis append_is_Nil_conv last_appendR list.distinct(1) takeWhile_dropWhile_id)
  have "dropWhile (\<lambda>x. \<not> sep x) cs \<noteq> []"
  proof
    assume "dropWhile (\<lambda>x. \<not> sep x) cs = []"
    then have "\<not> sep (last (c # cs))" using nc by (cases "cs = []") auto
    with l assms(3) show False by simp
  qed
  then obtain x rest where r: "dropWhile (\<lambda>x. \<not> sep x) cs = x # rest" by (cases "dropWhile (\<lambda>x. \<not> sep x) cs") auto
  have x: "sep x" using dropWhile_Cons_not [OF r] by simp
  have e: "dropWhile sep s = w @ x # rest" using d w r takeWhile_dropWhile_id [of "\<lambda>x. \<not> sep x" cs] by simp
  have "c # cs = w @ x # rest" using d e by simp
  then have "last (c # cs) = last (x # rest)" by (simp only: last_appendR list.distinct not_False_eq_True)
  with l have last: "last (x # rest) = last s" by simp
  have words: "split_words sep (x # rest) = ws" unfolding ws r ..
  have "w \<noteq> []" "\<forall>c \<in> set w. \<not> sep c" using w nc by (auto dest: set_takeWhileD)
  from that [OF e x words this last] show thesis .
qed

lemma token_frame:
  assumes "length w < toklen" and "length w < length token"
  shows "length (w @ NUL # drop (Suc (length w)) token) = length token \<and>
    drop toklen (w @ NUL # drop (Suc (length w)) token) = drop toklen token \<and>
    (last token = NUL \<longrightarrow> last (w @ NUL # drop (Suc (length w)) token) = NUL)"
proof -
  from assms(1) obtain j where j: "toklen = Suc (length w + j)" using less_imp_Suc_add by blast
  show ?thesis using assms(2) unfolding j by (simp add: add.commute last_drop)
qed

lemma gt_loop_fits:
  assumes "split_words (gt_sep delim) s = w # ws" and "s \<noteq> []" and "gt_sep delim (last s)"
    and "length w < toklen" and "length w < length token"
  obtains rest token2 where "\<And>m len. gt_loop delim toklen (Suc m) s token len =
      gt_loop delim toklen m rest token2 (length w)"
    "split_words (gt_sep delim) rest = ws" "rest \<noteq> []" "gt_sep delim (last rest)"
    "token2 = w @ NUL # drop (Suc (length w)) token" "length token2 = length token"
    "drop toklen token2 = drop toklen token" "last token = NUL \<longrightarrow> last token2 = NUL"
proof -
  obtain x rest where d: "dropWhile (gt_sep delim) s = w @ x # rest" "gt_sep delim x" "w \<noteq> []"
    "\<forall>c \<in> set w. \<not> gt_sep delim c" "split_words (gt_sep delim) (x # rest) = ws" "last (x # rest) = last s"
    by (rule split_words_first [OF assms(1-3)]) (rule that)
  have ne: "token \<noteq> []" using assms(5) by auto
  have c: "gt_copy delim toklen (w @ x # rest) (token[0 := NUL]) 0 =
      Inr (Some (length w), x # rest, w @ drop (length w) (token[0 := NUL]))"
    using gt_copy_word [OF d(4,2), of 0 toklen "token[0 := NUL]"] assms(4,5) by simp
  have t: "(w @ drop (length w) (token[0 := NUL]))[length w := NUL] = w @ NUL # drop (Suc (length w)) token"
    using assms(4,5) d(3) by (cases w) (auto simp: upd_conv_take_nth_drop list_update_append)
  have k: "gt_skip delim s = Inr (w @ x # rest)"
    unfolding gt_skip_eq d(1) using d(3) by (cases w) simp_all
  have "gt_loop delim toklen (Suc m) s token len =
      gt_loop delim toklen m (x # rest) (w @ NUL # drop (Suc (length w)) token) (length w)" for m len
    using ne k c t assms(4,5) by simp
  moreover have "gt_sep delim (last (x # rest))" using d(6) assms(3) by (simp only:)
  ultimately show thesis using that [OF _ d(5) list.distinct(2)] token_frame [OF assms(4,5)] by blast
qed

lemma gt_loop_long:
  assumes "split_words (gt_sep delim) s = w # ws" and "s \<noteq> []" and "gt_sep delim (last s)"
    and "toklen \<le> length w" and "0 < toklen" and "toklen \<le> length token"
  shows "gt_loop delim toklen (Suc m) s token len = Inr (-1, take toklen w @ drop toklen token)"
proof -
  obtain x rest where d: "dropWhile (gt_sep delim) s = w @ x # rest" "w \<noteq> []" "\<forall>c \<in> set w. \<not> gt_sep delim c"
    by (rule split_words_first [OF assms(1-3)]) (rule that)
  have ne: "token \<noteq> []" using assms(5,6) by auto
  have "\<exists>rest'. gt_copy delim toklen (w @ x # rest) (token[0 := NUL]) 0 =
      Inr (None, rest', take toklen w @ drop toklen token)"
    using gt_copy_long [OF d(3), of toklen 0 "token[0 := NUL]" "x # rest"] assms(4-6) by simp
  moreover have "gt_skip delim s = Inr (w @ x # rest)"
    unfolding gt_skip_eq d(1) using d(2) by (cases w) simp_all
  ultimately show ?thesis using ne by auto
qed

lemma gt_loop_none:
  assumes "split_words (gt_sep delim) s = []" and "token \<noteq> []"
  shows "gt_loop delim toklen (Suc m) s token len = Inl OutOfBounds"
proof -
  have "dropWhile (gt_sep delim) s = []"
    using assms(1) by (auto simp: split_words.simps [of _ s] split: list.splits simp del: dropWhile_eq_Nil_conv)
  then have "gt_skip delim s = Inl OutOfBounds" unfolding gt_skip_eq by (simp only: list.case)
  with assms(2) show ?thesis by simp
qed

lemma gt_loop_word:
  assumes "m < length ws" and "split_words (gt_sep delim) s = ws" and "s \<noteq> []" and "gt_sep delim (last s)"
    and "\<forall>w \<in> set (take (Suc m) ws). length w < toklen \<and> length w < length token"
  shows "\<exists>token'. gt_loop delim toklen (Suc m) s token len = Inr (int (length (ws ! m)), token') \<and>
    cstr token' = ws ! m \<and> length token' = length token \<and> drop toklen token' = drop toklen token \<and>
    (last token = NUL \<longrightarrow> last token' = NUL)"
  using assms
proof (induction m arbitrary: s ws token len)
  case 0
  then obtain w ws' where ws: "ws = w # ws'" by (cases ws) auto
  have lw: "length w < toklen" "length w < length token" using 0(5) ws by simp_all
  obtain rest token2 where r: "\<And>m len. gt_loop delim toklen (Suc m) s token len = gt_loop delim toklen m rest token2 (length w)"
      "token2 = w @ NUL # drop (Suc (length w)) token" and t: "length token2 = length token"
      "drop toklen token2 = drop toklen token" "last token = NUL \<longrightarrow> last token2 = NUL"
    by (rule gt_loop_fits [OF 0(2) [unfolded ws] 0(3,4) lw]) (rule that)
  have "no_nul w"
    using split_words_elem [of w "gt_sep delim" s] 0(2) ws by (auto simp: no_nul_def gt_sep_def)
  then have "cstr token2 = w" using r(2) by simp
  with ws t show ?case unfolding r(1) by simp
next
  case (Suc m)
  then obtain w ws' where ws: "ws = w # ws'" by (cases ws) auto
  have lw: "length w < toklen" "length w < length token" using Suc.prems(5) ws by simp_all
  obtain rest token2 where r: "\<And>m len. gt_loop delim toklen (Suc m) s token len = gt_loop delim toklen m rest token2 (length w)"
      "split_words (gt_sep delim) rest = ws'" "rest \<noteq> []" "gt_sep delim (last rest)"
      and t: "length token2 = length token"
      "drop toklen token2 = drop toklen token" "last token = NUL \<longrightarrow> last token2 = NUL"
    by (rule gt_loop_fits [OF Suc.prems(2) [unfolded ws] Suc.prems(3,4) lw]) (rule that)
  have "m < length ws'" "\<forall>w \<in> set (take (Suc m) ws'). length w < toklen \<and> length w < length token2"
    using Suc.prems ws t by simp_all
  from Suc.IH [OF this(1) r(2-4) this(2), of "length w"] ws t show ?case
    unfolding r(1) by auto
qed

lemma gt_loop_safe:
  assumes "m < length (split_words (gt_sep delim) s)" and "s \<noteq> []" and "gt_sep delim (last s)"
    and "0 < toklen" and "toklen \<le> length token"
  shows "\<exists>r token'. gt_loop delim toklen (Suc m) s token len = Inr (r, token') \<and>
    length token' = length token \<and> drop toklen token' = drop toklen token"
  using assms
proof (induction m arbitrary: s token len)
  case (0 s)
  then obtain w ws where ws: "split_words (gt_sep delim) s = w # ws" by (cases "split_words (gt_sep delim) s") auto
  show ?case
  proof (cases "length w < toklen")
    case True
    obtain rest token2 where r: "\<And>m len. gt_loop delim toklen (Suc m) s token len = gt_loop delim toklen m rest token2 (length w)"
        "split_words (gt_sep delim) rest = ws" "rest \<noteq> []" "gt_sep delim (last rest)"
      and t: "length token2 = length token" "drop toklen token2 = drop toklen token"
    by (rule gt_loop_fits [OF ws 0(2,3) True less_le_trans [OF True 0(5)]]) (rule that)
    with t show ?thesis unfolding r(1) by simp
  next
    case False
    then show ?thesis using gt_loop_long [OF ws 0(2,3) _ 0(4,5), of 0 len] 0(5) by (simp del: gt_loop.simps)
  qed
next
  case (Suc m)
  then obtain w ws where ws: "split_words (gt_sep delim) s = w # ws" by (cases "split_words (gt_sep delim) s") auto
  show ?case
  proof (cases "length w < toklen")
    case True
    obtain rest token2 where r: "\<And>m len. gt_loop delim toklen (Suc m) s token len = gt_loop delim toklen m rest token2 (length w)"
        "split_words (gt_sep delim) rest = ws" "rest \<noteq> []" "gt_sep delim (last rest)"
      and t: "length token2 = length token" "drop toklen token2 = drop toklen token"
    by (rule gt_loop_fits [OF ws Suc.prems(2,3) True less_le_trans [OF True Suc.prems(5)]]) (rule that)
    have "m < length (split_words (gt_sep delim) rest)" "toklen \<le> length token2" using Suc.prems ws r(2) t by simp_all
    from Suc.IH [OF this(1) r(3,4) Suc.prems(4) this(2), of "length w"] t show ?thesis unfolding r(1) by simp
  next
    case False
    then show ?thesis using gt_loop_long [OF ws Suc.prems(2,3) _ Suc.prems(4,5), of "Suc m" len] Suc.prems(5)
      by (simp del: gt_loop.simps)
  qed
qed

lemma GetToken_nth:
  assumes "0 < n" and "n \<le> length (split_words (gt_sep delim) b)" and "b \<noteq> []" and "gt_sep delim (last b)"
    and "\<forall>w \<in> set (take n (split_words (gt_sep delim) b)). length w < toklen \<and> length w < length token"
  shows "\<exists>token'. GetToken b n token toklen delim =
      Inr (int (length (split_words (gt_sep delim) b ! (n - 1))), token') \<and>
    cstr token' = split_words (gt_sep delim) b ! (n - 1) \<and>
    length token' = length token \<and> drop toklen token' = drop toklen token \<and> (last token = NUL \<longrightarrow> last token' = NUL)"
proof -
  from assms(1) obtain m where n: "n = Suc m" by (cases n) auto
  have "m < length (split_words (gt_sep delim) b)" using assms(2) n by simp
  from gt_loop_word [OF this refl assms(3,4) assms(5) [unfolded n], of 0] show ?thesis
    unfolding GetToken_def n diff_Suc_1 .
qed



text \<open>
  A word that does not fit is reported with -1, and in no case does \<^verbatim>\<open>GetToken\<close> write
  behind \<^verbatim>\<open>toklen\<close>; but when the buffer holds fewer words than asked for, it reads behind the end
  of the buffer, since it skips NUL characters too.
\<close>

theorem GetToken_bounds:
  assumes "b \<noteq> []" and "gt_sep delim (last b)" and "0 < n" and "0 < toklen" and "toklen \<le> length token"
  shows "(n \<le> length (split_words (gt_sep delim) b) \<longrightarrow>
      (\<exists>r token'. GetToken b n token toklen delim = Inr (r, token') \<and> drop toklen token' = drop toklen token)) \<and>
    (split_words (gt_sep delim) b = [] \<longrightarrow> GetToken b n token toklen delim = Inl OutOfBounds)"
proof -
  from assms(3) obtain m where n: "n = Suc m" by (cases n) auto
  have "token \<noteq> []" using assms(4,5) by auto
  then show ?thesis
    using gt_loop_safe [OF _ assms(1,2,4,5), of m 0] gt_loop_none [of delim b token toklen m 0]
    unfolding GetToken_def n by (auto simp del: gt_loop.simps)
qed

theorem GetToken_bounds_witness:
  "GetToken (CHR ''/'' # replicate 511 NUL) 1 (replicate 255 NUL) 255 (CHR ''/'') = Inl OutOfBounds"
proof -
  have "dropWhile (gt_sep (CHR ''/'')) (replicate 511 NUL) = []" by (simp add: gt_sep_def)
  then have "split_words (gt_sep (CHR ''/'')) (CHR ''/'' # replicate 511 NUL) = []"
    by (simp add: split_words.simps [of _ "CHR ''/'' # replicate 511 NUL"] gt_sep_def)
  then show ?thesis
    using GetToken_bounds [of "CHR ''/'' # replicate 511 NUL" "CHR ''/''" 1 255 "replicate 255 NUL"]
    by (simp add: gt_sep_def)
qed

section \<open>The sending loops are retry loops\<close>

sublocale byte_sink \<subseteq> sblock: retry_loop wr sent ok "SendBlock wr"
  by unfold_locales (simp_all add: SendBlock.simps [of wr])

sublocale byte_sink \<subseteq> sbuf: retry_loop wr sent ok "SendBuf wr"
proof (unfold_locales, goal_cases)
  case (1 k fd)
  show ?case by (simp add: SendBuf_def SendBuf_loop.simps)
next
  case (2 k fd b)
  obtain n k1 where e: "wr k fd b = (n, k1)" by (cases "wr k fd b")
  from wr_prefix [OF 2 e] have "n = -1 \<or> int (length b) - n = int (length (drop (nat n) b))" by auto
  then show ?case using e 2(2) by (auto simp: SendBuf_def SendBuf_loop.simps [of wr k fd b])
qed

sublocale reliable_sink \<subseteq> rblock: reliable_retry wr sent ok "SendBlock wr"
  by unfold_locales

sublocale reliable_sink \<subseteq> rbuf: reliable_retry wr sent ok "SendBuf wr"
  by unfold_locales

context reliable_sink
begin

lemma send_bufs_complete:
  "ok k fd \<Longrightarrow> \<exists>k'. send_bufs wr k fd bs = Some k' \<and> ok k' fd \<and> sent k' fd = sent k fd @ concat bs"
proof (induction bs arbitrary: k)
  case Nil
  then show ?case by simp
next
  case (Cons b bs)
  from rbuf.complete [OF Cons.prems, of b] obtain k1 where
    "SendBuf wr k fd b = Some (0, k1)" "ok k1 fd" "sent k1 fd = sent k fd @ b" by blast
  with Cons.IH [of k1] show ?case by auto
qed

end

text \<open>
  \<^verbatim>\<open>SendBlock\<close> and \<^verbatim>\<open>SendBuf\<close> return for every sequence of short and failed sends; each
  returns 0 exactly when all bytes were delivered and -1 when only a proper prefix was.
\<close>

theorem Send_total:
  assumes "sink_ok k soc"
  shows "(\<exists>r k' d. SendBlock sys_write k soc b = Some (r, k') \<and> sent_bytes k' soc = sent_bytes k soc @ d \<and>
      (r = 0 \<and> d = b \<or> r = -1 \<and> strict_prefix d b)) \<and>
    (\<exists>r k' d. SendBuf sys_write k soc b = Some (r, k') \<and> sent_bytes k' soc = sent_bytes k soc @ d \<and>
      (r = 0 \<and> d = b \<or> r = -1 \<and> strict_prefix d b))"
  using posix_sink.sblock.delivers [OF assms, of b] posix_sink.sbuf.delivers [OF assms, of b] by blast

theorem Send_total_witness:
  "\<exists>r k' d. SendBuf sys_write (boot Map.empty [] [Upto 1, Fail]) 1 ''abc'' = Some (r, k') \<and>
     sent_bytes k' 1 = sent_bytes (boot Map.empty [] [Upto 1, Fail]) 1 @ d \<and>
     (r = 0 \<and> d = ''abc'' \<or> r = -1 \<and> strict_prefix d ''abc'')"
proof -
  have "sink_ok (boot Map.empty [] [Upto 1, Fail]) 1"
    by (simp add: sink_ok_def kind_of_def acc_of_def get_ofd_def boot_def)
  from Send_total [OF this, of "''abc''"] show ?thesis by blast
qed

lemma send_200_complete:
  assumes "steady_sink k soc"
  shows "\<exists>k'. send_file_200 date lastmod blob soc k = Some k' \<and> sent_bytes k' soc = sent_bytes k soc @
    concat (header_lines 200 ''OK'' (int (length blob)) date (Some lastmod)) @ blob @ CRLF @ CRLF"
proof -
  from posix_steady.send_bufs_complete [OF assms] obtain k1 where
    1: "SendHTTPHeader sys_write k soc 200 ''OK'' (int (length blob)) date (Some lastmod) = Some k1" "steady_sink k1 soc"
      "sent_bytes k1 soc = sent_bytes k soc @ concat (header_lines 200 ''OK'' (int (length blob)) date (Some lastmod))"
    unfolding SendHTTPHeader_def by blast
  from posix_steady.rblock.complete [OF 1(2), of blob] obtain k2 where
    2: "SendBlock sys_write k1 soc blob = Some (0, k2)" "steady_sink k2 soc"
      "sent_bytes k2 soc = sent_bytes k1 soc @ blob" by blast
  from posix_steady.rbuf.complete [OF 2(2), of "CRLF @ CRLF"] obtain k3 where
    "SendBuf sys_write k2 soc (CRLF @ CRLF) = Some (0, k3)" "sent_bytes k3 soc = sent_bytes k2 soc @ CRLF @ CRLF" by blast
  with 1 2 show ?thesis by (auto simp: send_file_200_def)
qed

lemma send_404_complete:
  assumes "steady_sink k soc"
  shows "\<exists>k'. send_404 date soc k = Some k' \<and> sent_bytes k' soc = sent_bytes k soc @
    concat (header_lines 404 ''FILE NOT FOUND.'' (int (length error404) + 1) date None) @ error404 @ [NUL] @ CRLF @ CRLF"
proof -
  define n where "n = int (length error404) + 1"
  from posix_steady.send_bufs_complete [OF assms] obtain k1 where
    1: "SendHTTPHeader sys_write k soc 404 ''FILE NOT FOUND.'' n date None = Some k1" "steady_sink k1 soc"
      "sent_bytes k1 soc = sent_bytes k soc @ concat (header_lines 404 ''FILE NOT FOUND.'' n date None)"
    unfolding SendHTTPHeader_def by blast
  from posix_steady.rblock.complete [OF 1(2), of "error404 @ [NUL]"] obtain k2 where
    2: "SendBlock sys_write k1 soc (error404 @ [NUL]) = Some (0, k2)" "steady_sink k2 soc"
      "sent_bytes k2 soc = sent_bytes k1 soc @ error404 @ [NUL]" by blast
  from posix_steady.rbuf.complete [OF 2(2), of "CRLF @ CRLF"] obtain k3 where
    "SendBuf sys_write k2 soc (CRLF @ CRLF) = Some (0, k3)" "sent_bytes k3 soc = sent_bytes k2 soc @ CRLF @ CRLF" by blast
  with 1 2 show ?thesis by (auto simp: send_404_def Let_def n_def)
qed

section \<open>A whole request\<close>

lemma fgets_line:
  assumes "LF \<notin> set s" and "length s < 2046"
  shows "fgets 2048 (s @ LF # rest) = Some (s @ [LF], rest)"
  using line_upto_line [OF assms(1), of 2047 rest] assms(2) by (simp add: fgets_def)

text \<open>One line of a request that fits into \<^verbatim>\<open>buf\<close>, and the empty line that ends it.\<close>

lemma read_line:
  assumes "LF \<notin> set s" and "no_nul s" and "Suc (length s) < length (buf q)" and "length (buf q) = 512"
    and "s = c # cs" and "c \<noteq> CR" and "b = s @ LF # NUL # drop (length s + 2) (buf q)"
  shows "read_request (s @ LF # rest) q =
    (case (let q2 = q\<lparr>buf := b, log := log q @ [Out (''ClientRequest: '' @ s @ [LF])]\<rparr> in
           if isFirst q2 then first_line q2 else header_line q2) of
       Inl f \<Rightarrow> Inl f | Inr q3 \<Rightarrow> read_request rest q3)"
proof -
  have f: "fgets 2048 (s @ LF # rest) = Some (s @ [LF], rest)"
    using assms(1,3,4) by (intro fgets_line) simp_all
  have p: "strcpy (buf q) (s @ [LF]) = Inr b" using assms(3,7) by (simp add: strcpy_def)
  have c: "cstr b = s @ [LF]" using cstr_append_NUL [of "s @ [LF]"] assms(2,7) by simp
  have "b ! 0 \<noteq> CR" using assms(5-7) by simp
  then show ?thesis
    unfolding read_request.simps [of "s @ LF # rest"] f option.case prod.case p sum.case
    by (simp add: Let_def c)
qed

lemma read_stream_end:
  assumes "length (buf q) = 512"
  shows "read_request (CR # LF # rest) q = Inr (q\<lparr>buf := CR # LF # NUL # drop 3 (buf q)\<rparr>)"
proof -
  have "fgets 2048 ([CR] @ LF # rest) = Some ([CR] @ [LF], rest)" by (rule fgets_line) simp_all
  then have f: "fgets 2048 (CR # LF # rest) = Some ([CR, LF], rest)" by simp
  have "strcpy (buf q) [CR, LF] = Inr (CR # LF # NUL # drop 3 (buf q))"
    using assms by (simp add: strcpy_def eval_nat_numeral)
  then show ?thesis unfolding read_request.simps [of "CR # LF # rest"] f by (simp add: Let_def)
qed

definition word_ok :: "string \<Rightarrow> bool" where
  "word_ok w \<longleftrightarrow> w \<noteq> [] \<and> (\<forall>c \<in> set w. \<not> gt_sep NUL c)"

lemma word_ok_chars: "word_ok w \<Longrightarrow> no_nul w \<and> LF \<notin> set w \<and> (\<forall>c \<in> set w. \<not> gt_sep SPC c)"
  by (auto simp: word_ok_def no_nul_def gt_sep_def)

lemma words_headline:
  assumes "word_ok uri"
  shows "split_words (gt_sep NUL) (''GET '' @ uri @ '' HTTP/1.1'' @ CR # LF # NUL # rest) =
    ''GET'' # uri # ''HTTP/1.1'' # split_words (gt_sep NUL) rest"
proof -
  have "split_words (gt_sep NUL) (uri @ SPC # ''HTTP/1.1'' @ CR # LF # NUL # rest) =
      uri # split_words (gt_sep NUL) (''HTTP/1.1'' @ CR # LF # NUL # rest)"
    using assms by (intro split_words_append) (auto simp: word_ok_def gt_sep_def)
  then show ?thesis by (simp add: gt_sep_def)
qed

text \<open>A request for a path, with at most a \<^verbatim>\<open>Connection\<close> header.\<close>

definition request :: "string \<Rightarrow> string option \<Rightarrow> string" where
  "request uri conn = ''GET '' @ uri @ '' HTTP/1.1'' @ CRLF @
     (case conn of None \<Rightarrow> [] | Some v \<Rightarrow> ''Connection: '' @ v @ CRLF) @ CRLF"

definition uri_ok :: "string \<Rightarrow> bool" where
  "uri_ok uri \<longleftrightarrow> word_ok uri \<and> length uri < 480 \<and> (\<exists>c \<in> set uri. c \<noteq> CHR ''/'')"

definition conn_ok :: "string option \<Rightarrow> bool" where
  "conn_ok conn \<longleftrightarrow> (case conn of None \<Rightarrow> True | Some v \<Rightarrow> word_ok v \<and> length v < 128)"

lemma read_headline:
  assumes "word_ok uri" and "length uri < 480"
  obtains q where "read_request (''GET '' @ uri @ '' HTTP/1.1'' @ CR # LF # rest) req0 = read_request rest q"
    "cstr (http_method q) = ''GET''" "\<not> isFirst q" "retval q = 0" "length (buf q) = 512" "last (buf q) = NUL"
    "request_header q = replicate 2048 NUL" "hTitle q = replicate 32 NUL" "hValue q = replicate 128 NUL"
    "length (headline q) = 1024" "last (headline q) = NUL"
    "\<exists>r. headline q = ''GET '' @ uri @ '' HTTP/1.1'' @ CR # LF # NUL # r"
proof -
  define s where "s = ''GET '' @ uri @ '' HTTP/1.1'' @ [CR]"
  define b where "b = s @ LF # NUL # drop (length s + 2) (buf req0)"
  define h where "h = s @ LF # NUL # replicate (1024 - (length s + 2)) NUL"
  define q2 where "q2 = req0\<lparr>buf := b, log := log req0 @ [Out (''ClientRequest: '' @ s @ [LF])]\<rparr>"
  have s: "LF \<notin> set s" "no_nul s" "length s < 496" "s = CHR ''G'' # tl s"
    using word_ok_chars [OF assms(1)] assms(2) by (auto simp: s_def)
  have cb: "cstr b = s @ [LF]" using cstr_append_NUL [of "s @ [LF]"] s(2) by (simp add: b_def)
  have lb: "length b = 512" "last b = NUL" using s(3) by (simp_all add: b_def req0_def)
  have lh: "length h = 1024" "last h = NUL" "h \<noteq> []" using s(3) by (simp_all add: h_def)
  have "strcpy (headline req0) (s @ [LF]) = Inr h" using s(3) by (simp add: strcpy_def h_def req0_def)
  moreover have w: "split_words (gt_sep NUL) h = ''GET'' # uri # ''HTTP/1.1'' # split_words (gt_sep NUL) (replicate (1024 - (length s + 2)) NUL)"
    using words_headline [OF assms(1)] by (simp add: h_def s_def)
  obtain m where "GetToken h 1 (http_method req0) 255 NUL = Inr (3, m)" "cstr m = ''GET''"
    using GetToken_nth [of 1 NUL h 255 "http_method req0"] w lh(2,3)
    by (auto simp: gt_sep_def req0_def)
  ultimately have f: "first_line q2 = Inr (q2\<lparr>headline := h, http_method := m, isFirst := False\<rparr>)" "cstr m = ''GET''"
    using cb by (simp_all add: first_line_def q2_def)
  have "read_request (s @ LF # rest) req0 = read_request rest (q2\<lparr>headline := h, http_method := m, isFirst := False\<rparr>)"
    using read_line [of s req0 "CHR ''G''" "tl s" b rest] s f(1) by (simp add: b_def q2_def req0_def)
  moreover have "\<exists>r. h = ''GET '' @ uri @ '' HTTP/1.1'' @ CR # LF # NUL # r" by (simp add: h_def s_def)
  ultimately show thesis
    using f(2) lb lh by (intro that [of "q2\<lparr>headline := h, http_method := m, isFirst := False\<rparr>"])
      (simp_all add: s_def q2_def req0_def)
qed

text \<open>The value that a request's \<^verbatim>\<open>Connection\<close> header gives \<^verbatim>\<open>retval\<close>.\<close>

definition keep_alive :: "string option \<Rightarrow> int" where
  "keep_alive conn = (case conn of None \<Rightarrow> 0 | Some v \<Rightarrow> if v = ''Keep-Alive'' then 1 else -1)"

lemma words_connection:
  assumes "word_ok v"
  shows "split_words (gt_sep (CHR '':'')) (''Connection: '' @ v @ CR # LF # NUL # rest) =
      ''Connection'' # split_words (gt_sep (CHR '':'')) (v @ CR # LF # NUL # rest)"
    "split_words (gt_sep SPC) (''Connection: '' @ v @ CR # LF # NUL # rest) =
      ''Connection:'' # v # split_words (gt_sep SPC) rest"
proof -
  have "split_words (gt_sep SPC) (v @ CR # LF # NUL # rest) = v # split_words (gt_sep SPC) (LF # NUL # rest)"
    using assms by (intro split_words_append) (auto simp: word_ok_def gt_sep_def)
  then show "split_words (gt_sep SPC) (''Connection: '' @ v @ CR # LF # NUL # rest) =
      ''Connection:'' # v # split_words (gt_sep SPC) rest" by (simp add: gt_sep_def)
qed (simp add: gt_sep_def)

lemma read_connection:
  assumes "word_ok v" and "length v < 128" and "\<not> isFirst q" and "length (buf q) = 512" and "last (buf q) = NUL"
    and "request_header q = replicate 2048 NUL" and "hTitle q = replicate 32 NUL" and "hValue q = replicate 128 NUL"
  obtains q' where "read_request (''Connection: '' @ v @ CR # LF # rest) q = read_request rest q'"
    "retval q' = keep_alive (Some v)" "length (buf q') = 512" "http_method q' = http_method q" "headline q' = headline q"
proof -
  define s where "s = ''Connection: '' @ v @ [CR]"
  define b where "b = s @ LF # NUL # drop (length s + 2) (buf q)"
  define q2 where "q2 = q\<lparr>buf := b, log := log q @ [Out (''ClientRequest: '' @ s @ [LF])]\<rparr>"
  have s: "LF \<notin> set s" "no_nul s" "length s < 142" "s = CHR ''C'' # tl s"
    using word_ok_chars [OF assms(1)] assms(2) by (auto simp: s_def)
  have cb: "cstr b = s @ [LF]" using cstr_append_NUL [of "s @ [LF]"] s(2) by (simp add: b_def)
  have lb: "length b = 512" "last b = NUL" "b \<noteq> []" using s(3) assms(4,5) by (simp_all add: b_def last_drop)
  have b: "b = ''Connection: '' @ v @ CR # LF # NUL # drop (length s + 2) (buf q)" by (simp add: b_def s_def)
  have l: "gt_sep d (last b)" for d using lb(2) by (simp add: gt_sep_def)
  obtain h where h: "strcat (request_header q) (s @ [LF]) = Inr h"
    using s(3) assms(6) by (auto simp: strcat_def strcpy_def terminated_def cstr_def)
  have "take 1 (split_words (gt_sep (CHR '':'')) b) = [''Connection'']"
    "split_words (gt_sep (CHR '':'')) b ! 0 = ''Connection''" "1 \<le> length (split_words (gt_sep (CHR '':'')) b)"
    unfolding b words_connection(1) [OF assms(1)] by simp_all
  with GetToken_nth [of 1 "CHR '':''" b 32 "hTitle q"] lb(3) l assms(7) obtain t where
    t: "GetToken b 1 (hTitle q) 32 (CHR '':'') = Inr (10, t)" "cstr t = ''Connection''" by auto
  have "take 2 (split_words (gt_sep SPC) b) = [''Connection:'', v]"
    "split_words (gt_sep SPC) b ! 1 = v" "2 \<le> length (split_words (gt_sep SPC) b)"
    unfolding b words_connection(2) [OF assms(1)] by (simp_all add: numeral_2_eq_2)
  with GetToken_nth [of 2 SPC b 128 "hValue q"] lb(3) l assms(2,8) obtain u where
    u: "GetToken b 2 (hValue q) 128 SPC = Inr (int (length v), u)" "cstr u = v" by auto
  define q' where "q' = q2\<lparr>request_header := h, hTitle := t, hValue := u, retval := keep_alive (Some v),
      log := log q2 @ [Out ((if v = ''Keep-Alive'' then ''Client benoetigt keep alive'' else ''Client benoetigt kein keep alive'') @ CRLF)]\<rparr>"
  have "header_line q2 = Inr q'"
    using h t u cb by (simp add: header_line_def q'_def q2_def keep_alive_def Let_def)
  then have "read_request (s @ LF # rest) q = read_request rest q'"
    using read_line [of s q "CHR ''C''" "tl s" b rest] s assms(3,4) by (simp add: b_def q2_def)
  with lb show thesis by (intro that [of q']) (simp_all add: s_def q'_def q2_def)
qed

lemma read_whole_request:
  assumes u: "word_ok uri" "length uri < 480" and "conn_ok conn"
  obtains q where "read_request (request uri conn @ rest) req0 = Inr q" "cstr (http_method q) = ''GET''"
    "retval q = keep_alive conn" "length (headline q) = 1024" "last (headline q) = NUL"
    "\<exists>r. headline q = ''GET '' @ uri @ '' HTTP/1.1'' @ CR # LF # NUL # r"
proof -
  define tl2 where "tl2 = (case conn of None \<Rightarrow> [] | Some v \<Rightarrow> ''Connection: '' @ v @ CRLF) @ CR # LF # rest"
  obtain q where q: "read_request (''GET '' @ uri @ '' HTTP/1.1'' @ CR # LF # tl2) req0 = read_request tl2 q"
    "cstr (http_method q) = ''GET''" "\<not> isFirst q" "retval q = 0" "length (buf q) = 512" "last (buf q) = NUL"
    "request_header q = replicate 2048 NUL" "hTitle q = replicate 32 NUL" "hValue q = replicate 128 NUL"
    "length (headline q) = 1024" "last (headline q) = NUL"
    "\<exists>r. headline q = ''GET '' @ uri @ '' HTTP/1.1'' @ CR # LF # NUL # r"
    by (rule read_headline [OF u]) (rule that)
  have r: "request uri conn @ rest = ''GET '' @ uri @ '' HTTP/1.1'' @ CR # LF # tl2"
    by (simp add: request_def tl2_def split: option.splits)
  show thesis
  proof (cases conn)
    case None
    with read_stream_end [OF q(5), of rest] q that show thesis
      unfolding r q(1) by (simp add: tl2_def keep_alive_def)
  next
    case (Some v)
    with assms(3) have v: "word_ok v" "length v < 128" by (simp_all add: conn_ok_def)
    obtain q' where q': "read_request (''Connection: '' @ v @ CR # LF # (CR # LF # rest)) q = read_request (CR # LF # rest) q'"
      "retval q' = keep_alive (Some v)" "length (buf q') = 512" "http_method q' = http_method q" "headline q' = headline q"
      by (rule read_connection [OF v q(3,5-9)]) (rule that)
    have t: "tl2 = ''Connection: '' @ v @ CR # LF # (CR # LF # rest)" using Some by (simp add: tl2_def)
    show thesis
      using that [of "q'\<lparr>buf := CR # LF # NUL # drop 3 (buf q')\<rparr>"] q q'(2-5) Some
      unfolding r q(1) t q'(1) read_stream_end [OF q'(3)] by simp
  qed
qed

text \<open>The path token and the directory token of a read request.\<close>

lemma uri_tokens:
  assumes "uri_ok uri" and "h = ''GET '' @ uri @ '' HTTP/1.1'' @ CR # LF # NUL # r" and "last h = NUL"
  obtains u d x y where "GetToken h 2 (replicate 512 NUL) 1024 NUL = Inr (x, u)" "cstr u = uri" "terminated u"
    "GetToken u 1 (replicate 255 NUL) 255 (CHR ''/'') = Inr (y, d)"
proof -
  have u: "word_ok uri" "length uri < 480" using assms(1) by (simp_all add: uri_ok_def)
  have w: "take 2 (split_words (gt_sep NUL) h) = [''GET'', uri]" "split_words (gt_sep NUL) h ! 1 = uri"
    "2 \<le> length (split_words (gt_sep NUL) h)"
    unfolding assms(2) words_headline [OF u(1)] by (simp_all add: numeral_2_eq_2)
  have l: "gt_sep NUL (last h)" "h \<noteq> []" using assms(2,3) by (simp_all add: gt_sep_def)
  from GetToken_nth [of 2 NUL h 1024 "replicate 512 NUL"] w l u(2) obtain t where
    t: "GetToken h 2 (replicate 512 NUL) 1024 NUL = Inr (int (length uri), t)" "cstr t = uri" "length t = 512" "last t = NUL"
    by auto
  have ne: "t \<noteq> []" using t(3) by auto
  then have nt: "terminated t" using t(4) by (metis last_in_set terminated_def)
  obtain c where c: "c \<in> set uri" "c \<noteq> CHR ''/''" using assms(1) by (auto simp: uri_ok_def)
  have "c \<in> set t" using c(1) t(2) by (auto simp: cstr_def dest: set_takeWhileD)
  moreover have "\<not> gt_sep (CHR ''/'') c" using c u(1) by (auto simp: word_ok_def gt_sep_def)
  ultimately have "dropWhile (gt_sep (CHR ''/'')) t \<noteq> []" by (auto simp: dropWhile_eq_Nil_conv)
  then have "0 < length (split_words (gt_sep (CHR ''/'')) t)"
    by (cases "dropWhile (gt_sep (CHR ''/'')) t") (simp_all add: split_words.simps [of _ t] del: dropWhile_eq_Nil_conv)
  moreover have "gt_sep (CHR ''/'') (last t)" using t(4) by (simp add: gt_sep_def)
  ultimately obtain y d where "GetToken t 1 (replicate 255 NUL) 255 (CHR ''/'') = Inr (y, d)"
    using gt_loop_safe [of 0 "CHR ''/''" t 255 "replicate 255 NUL" 0] ne unfolding GetToken_def One_nat_def by auto
  with that t nt show thesis by blast
qed

definition response :: "string \<Rightarrow> string \<Rightarrow> string option \<Rightarrow> string" where
  "response date lastmod f =
     (case f of
        Some blob \<Rightarrow> concat (header_lines 200 ''OK'' (int (length blob)) date (Some lastmod)) @ blob @ CRLF @ CRLF
      | None \<Rightarrow> concat (header_lines 404 ''FILE NOT FOUND.'' (int (length error404) + 1) date None) @
          error404 @ [NUL] @ CRLF @ CRLF)"

lemma httpd_answers:
  assumes "uri_ok uri" and "conn_ok conn" and "steady_sink k soc"
  shows "\<exists>says k'. httpd dirs date lastmod soc (request uri conn @ rest) k =
      Some (Inr (if http_open dirs (CHR ''.'' # uri) k = None then -1 else keep_alive conn, says, k')) \<and>
    sent_bytes k' soc = sent_bytes k soc @ response date lastmod (http_open dirs (CHR ''.'' # uri) k)"
proof -
  obtain q r where q: "read_request (request uri conn @ rest) req0 = Inr q" "cstr (http_method q) = ''GET''"
    "retval q = keep_alive conn" "last (headline q) = NUL" "headline q = ''GET '' @ uri @ '' HTTP/1.1'' @ CR # LF # NUL # r"
    by (rule read_whole_request [OF _ _ assms(2), of uri rest]) (use assms(1) in \<open>auto simp: uri_ok_def\<close>)
  obtain u d x y where t: "GetToken (headline q) 2 (replicate 512 NUL) 1024 NUL = Inr (x, u)" "cstr u = uri" "terminated u"
    "GetToken u 1 (replicate 255 NUL) 255 (CHR ''/'') = Inr (y, d)"
    by (rule uri_tokens [OF assms(1) q(5,4)]) (rule that)
  have l: "Suc (length uri) < 512" using assms(1) by (simp add: uri_ok_def)
  show ?thesis
  proof (cases "http_open dirs (CHR ''.'' # uri) k")
    case None
    with send_404_complete [OF assms(3), of date] q t l show ?thesis
      by (auto simp: httpd_def answer_def response_def Let_def)
  next
    case (Some blob)
    with send_200_complete [OF assms(3), of date lastmod blob] q t l show ?thesis
      by (auto simp: httpd_def answer_def response_def Let_def)
  qed
qed



text \<open>
  The child keeps the connection exactly as long as requests succeed: a request for a
  missing file, or one with a \<^verbatim>\<open>Connection\<close> header other than \<^verbatim>\<open>Keep-Alive\<close>, closes the connection
  after its answer, and any other request is answered and the loop goes on.
\<close>

theorem child_keeps_connection:
  assumes "uri_ok uri" and "conn_ok conn" and "steady_sink k soc"
  shows "\<exists>says k1. sent_bytes k1 soc = sent_bytes k soc @ response date lastmod (http_open dirs (CHR ''.'' # uri) k) \<and>
    child_loop dirs date lastmod soc (Readable (request uri conn) # evs) k out =
      (if http_open dirs (CHR ''.'' # uri) k = None \<or> keep_alive conn = -1 then
         Some (Inr (True, out @ says @ [Out (''Client socket '' @ show_int soc @ '' beendet'' @ CRLF)], snd (sys_close k1 soc)))
       else child_loop dirs date lastmod soc evs k1 (out @ says))"
proof -
  have "request uri conn \<noteq> []" by (simp add: request_def)
  moreover have "keep_alive conn < 0 \<longleftrightarrow> keep_alive conn = -1" by (auto simp: keep_alive_def split: option.splits)
  moreover obtain says k' where "httpd dirs date lastmod soc (request uri conn) k =
      Some (Inr (if http_open dirs (CHR ''.'' # uri) k = None then -1 else keep_alive conn, says, k'))"
    "sent_bytes k' soc = sent_bytes k soc @ response date lastmod (http_open dirs (CHR ''.'' # uri) k)"
    using httpd_answers [OF assms, of dirs date lastmod "[]"] by auto
  ultimately show ?thesis by (intro exI [of _ says] exI [of _ k']) auto
qed

theorem child_keeps_connection_witness:
  "\<exists>says k1. child_loop Map.empty ''D'' ''L'' 1 (Readable (request ''/a'' None) # []) (boot Map.empty [] []) [] =
     Some (Inr (True, [] @ says @ [Out (''Client socket '' @ show_int 1 @ '' beendet'' @ CRLF)], snd (sys_close k1 1)))"
proof -
  have "uri_ok ''/a''" "conn_ok None" "steady_sink (boot Map.empty [] []) 1"
    "http_open Map.empty (CHR ''.'' # ''/a'') (boot Map.empty [] []) = None"
    by (simp_all add: http_open_def uri_ok_def conn_ok_def word_ok_def gt_sep_def steady_sink_def sink_ok_def kind_of_def acc_of_def
      get_ofd_def boot_def)
  from child_keeps_connection [OF this(1-3), of "''D''" "''L''" Map.empty "[]" "[]"] this(4) show ?thesis by auto
qed

text \<open>
  A request for a path of two or more slashes reads behind the end of the array \<^verbatim>\<open>uri\<close>: the
  directory token is searched although there is none, and \<^verbatim>\<open>GetToken\<close> skips the NUL characters
  up to the end of the array. (For a single slash the rest of the name of the request is found instead.)
\<close>

theorem slashes_overrun:
  assumes "conn_ok conn" and "2 \<le> n" and "n < 480"
  shows "httpd dirs date lastmod soc (request (replicate n (CHR ''/'')) conn) k = Some (Inl OutOfBounds)"
proof -
  define uri where "uri = replicate n (CHR ''/'')"
  have w: "word_ok uri" "length uri < 480" using assms(2,3) by (auto simp: word_ok_def uri_def gt_sep_def)
  obtain q r where q: "read_request (request uri conn @ []) req0 = Inr q" "cstr (http_method q) = ''GET''"
    "last (headline q) = NUL" "headline q = ''GET '' @ uri @ '' HTTP/1.1'' @ CR # LF # NUL # r"
    by (rule read_whole_request [OF w assms(1), of "[]"]) blast
  have ws: "split_words (gt_sep NUL) (headline q) = ''GET'' # uri # ''HTTP/1.1'' # split_words (gt_sep NUL) r"
    unfolding q(4) by (rule words_headline [OF w(1)])
  have l: "headline q \<noteq> []" "gt_sep NUL (last (headline q))" using q(3,4) by (simp_all add: gt_sep_def)
  have lg: "length ''GET'' < 1024" "length ''GET'' < length (replicate 512 NUL)" by simp_all
  obtain rest1 token1 where 1: "\<And>m len. gt_loop NUL 1024 (Suc m) (headline q) (replicate 512 NUL) len = gt_loop NUL 1024 m rest1 token1 (length ''GET'')"
    "split_words (gt_sep NUL) rest1 = uri # ''HTTP/1.1'' # split_words (gt_sep NUL) r" "rest1 \<noteq> []" "gt_sep NUL (last rest1)"
    "token1 = ''GET'' @ NUL # drop (Suc (length ''GET'')) (replicate 512 NUL)" "length token1 = length (replicate 512 NUL)"
    by (rule gt_loop_fits [OF ws l lg]) (rule that)
  have l1: "length uri < 1024" "length uri < length token1" using w(2) 1(6) by simp_all
  obtain rest2 token2 where 2: "\<And>m len. gt_loop NUL 1024 (Suc m) rest1 token1 len = gt_loop NUL 1024 m rest2 token2 (length uri)"
    "token2 = uri @ NUL # drop (Suc (length uri)) token1" "last token1 = NUL \<longrightarrow> last token2 = NUL"
    by (rule gt_loop_fits [OF 1(2-4) l1]) (rule that)
  have g: "GetToken (headline q) 2 (replicate 512 NUL) 1024 NUL = Inr (int (length uri), token2)"
    unfolding GetToken_def numeral_2_eq_2 1(1) 2(1) by simp
  from assms(2) obtain j where j: "n = Suc (Suc j)" by (metis add_2_eq_Suc le_Suc_ex)
  have "\<forall>c \<in> set token2. gt_sep (CHR ''/'') c"
    unfolding 2(2) 1(5) uri_def j by (auto simp: gt_sep_def dest: in_set_dropD)
  then have "split_words (gt_sep (CHR ''/'')) token2 = []" by (rule split_words_none)
  then have "GetToken token2 1 (replicate 255 NUL) 255 (CHR ''/'') = Inl OutOfBounds"
    unfolding GetToken_def One_nat_def by (rule gt_loop_none) simp
  with q(1,2) g show ?thesis by (simp add: httpd_def answer_def Let_def uri_def)
qed

theorem slashes_overrun_witness:
  "httpd Map.empty ''D'' ''L'' 1 (request (replicate 2 (CHR ''/'')) (Some ''close'')) (boot Map.empty [] []) = Some (Inl OutOfBounds)"
  by (rule slashes_overrun) (simp_all add: conn_ok_def word_ok_def gt_sep_def)

text \<open>
  When the peer closes the connection before the blank line, the null pointer that
  \<^verbatim>\<open>fgets\<close> returns is dereferenced; a first line of 512 or more characters overruns \<^verbatim>\<open>buf\<close>.
\<close>

theorem httpd_input_faults:
  assumes "LF \<notin> set s" and "512 \<le> length s" and "length s < 2046"
  shows "httpd dirs date lastmod soc [] k = Some (Inl NullDeref) \<and>
    httpd dirs date lastmod soc (s @ LF # rest) k = Some (Inl OutOfBounds)"
proof -
  have "fgets 2048 (s @ LF # rest) = Some (s @ [LF], rest)" using assms by (intro fgets_line) simp_all
  moreover have "strcpy (buf req0) (s @ [LF]) = Inl OutOfBounds" using assms(2) by (simp add: strcpy_def req0_def)
  ultimately have "read_request (s @ LF # rest) req0 = Inl OutOfBounds" by (simp add: read_request.simps)
  moreover have "read_request [] req0 = Inl NullDeref" by (simp add: read_request.simps fgets_def)
  ultimately show ?thesis by (simp add: httpd_def)
qed

theorem httpd_input_faults_witness:
  "httpd Map.empty ''D'' ''L'' 1 (replicate 600 (CHR ''A'') @ LF # []) (boot Map.empty [] []) = Some (Inl OutOfBounds)"
  using httpd_input_faults [of "replicate 600 (CHR ''A'')" Map.empty "''D''" "''L''" 1 "boot Map.empty [] []" "[]"] by simp

end
