(* ===== verification/MultiServer.thy ===== *)
theory MultiServer
  imports Channel
begin

text \<open>
  The chat server and its client: \<^verbatim>\<open>src/11_Network/select/multi_server.c\<close> keeps the clients in an
  array of slots and waits for all of them with \<^verbatim>\<open>select\<close>; \<^verbatim>\<open>client3.c\<close> sends what is typed. The
  outcome of the blocking calls of one round (what \<^verbatim>\<open>select\<close> returns, also -1, and the descriptors
  it leaves in its set, the accepted socket, the bytes each \<^verbatim>\<open>recv\<close> yields) is the argument of the round. The size of the slot
  array, \<^verbatim>\<open>FD_SETSIZE\<close>, is the length of the list.
\<close>

section \<open>multi_server.c\<close>

record server =
  sock1 :: int
  sock_max :: int
  max_slot :: int
  client_sock :: "int list"
  gesamt_sock :: "int set"

record round =
  select_ret :: int
  lese_sock :: "int set"
  accepted :: "int option"
  received :: "int \<Rightarrow> string option"

definition error_exit :: "string \<Rightarrow> string \<Rightarrow> say" where
  "error_exit err msg = Err (msg @ '': '' @ err @ ''\<newline>'')"

definition server0 :: "nat \<Rightarrow> int \<Rightarrow> server" where
  "server0 fd_setsize s = \<lparr>sock1 = s, sock_max = s, max_slot = -1,
     client_sock = replicate fd_setsize (-1), gesamt_sock = {s}\<rparr>"

fun first_free :: "int list \<Rightarrow> nat" where
  "first_free [] = 0"
| "first_free (c # cs) = (if c < 0 then 0 else Suc (first_free cs))"

text \<open>The results of the system calls: a negative descriptor, \<open>False\<close> or \<open>None\<close> is a failure, which ends the program.\<close>

definition create_socket :: "string \<Rightarrow> int \<Rightarrow> say + int" where
  "create_socket err sock = (if sock < 0 then Inl (error_exit err ''Fehler beim Anlegen des Sockets'') else Inr sock)"

definition bind_socket :: "string \<Rightarrow> bool \<Rightarrow> say option" where
  "bind_socket err ok = (if ok then None else Some (error_exit err ''Kann Socket nicht \"binden\"''))"

definition listen_socket :: "string \<Rightarrow> bool \<Rightarrow> say option" where
  "listen_socket err ok = (if ok then None else Some (error_exit err ''Fehler bei listen()''))"

definition accept_socket :: "string \<Rightarrow> int option \<Rightarrow> say + int" where
  "accept_socket err acc = (case acc of None \<Rightarrow> Inl (error_exit err ''Fehler bei accept()'') | Some sock \<Rightarrow> Inr sock)"

text \<open>
  A new client: \<open>Inl\<close> is the message of an exit; a descriptor outside the \<^verbatim>\<open>fd_set\<close> is a fault.
\<close>

definition accept_client :: "string \<Rightarrow> int option \<Rightarrow> server \<Rightarrow> (say + server) cres" where
  "accept_client err acc st =
     (case accept_socket err acc of
        Inl e \<Rightarrow> Inr (Inl e)
      | Inr sock2 \<Rightarrow>
          (let i = first_free (client_sock st) in
           if i = length (client_sock st) then
             Inr (Inl (error_exit err ''Server ueberlaset -- zu viele Clients''))
           else if sock2 \<ge> int (length (client_sock st)) then Inl OutOfBounds
           else Inr (Inr (st\<lparr>client_sock := (client_sock st)[i := sock2],
               gesamt_sock := insert sock2 (gesamt_sock st),
               sock_max := (if sock2 > sock_max st then sock2 else sock_max st),
               max_slot := (if int i > max_slot st then int i else max_slot st)\<rparr>))))"

text \<open>
  \<^verbatim>\<open>TCP_recv\<close> terminates what it received, also after 0 bytes; only a failure ends the program.
\<close>

definition TCP_recv :: "string \<Rightarrow> string option \<Rightarrow> say + string" where
  "TCP_recv err r =
     (case r of None \<Rightarrow> Inl (error_exit err ''Fehler bei recv()'') | Some data \<Rightarrow> Inr (cstr data))"

definition received_msg :: "string \<Rightarrow> say" where
  "received_msg buffer = Out (''Nachricht empfangen: '' @ buffer @ ''\<newline>'')"

fun scan_clients ::
  "string \<Rightarrow> round \<Rightarrow> nat list \<Rightarrow> int \<Rightarrow> server \<Rightarrow> say list \<Rightarrow> (say + server) \<times> say list" where
  "scan_clients err ev [] ready st out = (Inr st, out)"
| "scan_clients err ev (i # is) ready st out =
     (let sock3 = client_sock st ! i in
      if sock3 < 0 then scan_clients err ev is ready st out
      else if sock3 \<in> lese_sock ev then
        (case TCP_recv err (received ev sock3) of
           Inl e \<Rightarrow> (Inl e, out)
         | Inr buffer \<Rightarrow>
             (let quit = (buffer = ''quit\<newline>'');
                  st' = (if quit then st\<lparr>gesamt_sock := gesamt_sock st - {sock3},
                           client_sock := (client_sock st)[i := -1]\<rparr> else st);
                  out' = out @ received_msg buffer #
                    (if quit then [Out ''Ein Client hat sich beendet\<newline>''] else [])
              in if ready - 1 \<le> 0 then (Inr st', out')
                 else scan_clients err ev is (ready - 1) st' out'))
      else scan_clients err ev is ready st out)"

definition server_round :: "string \<Rightarrow> round \<Rightarrow> server \<Rightarrow> say list \<Rightarrow> ((say + server) \<times> say list) cres" where
  "server_round err ev st out =
     (let ready = select_ret ev in
      if sock1 st \<in> lese_sock ev then
        (case accept_client err (accepted ev) st of
           Inl f \<Rightarrow> Inl f
         | Inr (Inl e) \<Rightarrow> Inr (Inl e, out)
         | Inr (Inr st1) \<Rightarrow>
             if ready - 1 \<le> 0 then Inr (Inr st1, out)
             else Inr (scan_clients err ev [0..<nat (max_slot st1 + 1)] (ready - 1) st1 out))
      else Inr (scan_clients err ev [0..<nat (max_slot st + 1)] ready st out))"

text \<open>The main program: setup, then one round after the other.\<close>

fun server_loop :: "string \<Rightarrow> round list \<Rightarrow> server \<Rightarrow> say list \<Rightarrow> ((say + server) \<times> say list) cres" where
  "server_loop err [] st out = Inr (Inr st, out)"
| "server_loop err (ev # evs) st out =
     (case server_round err ev st out of
        Inl f \<Rightarrow> Inl f
      | Inr (Inl e, out') \<Rightarrow> Inr (Inl e, out')
      | Inr (Inr st', out') \<Rightarrow> server_loop err evs st' out')"

definition multi_server_main ::
  "nat \<Rightarrow> string \<Rightarrow> int \<Rightarrow> bool \<Rightarrow> bool \<Rightarrow> round list \<Rightarrow> ((say + server) \<times> say list) cres" where
  "multi_server_main fd_setsize err sock bind_ok listen_ok evs =
     (case create_socket err sock of
        Inl e \<Rightarrow> Inr (Inl e, [])
      | Inr sock \<Rightarrow> (case bind_socket err bind_ok of
          Some e \<Rightarrow> Inr (Inl e, [])
        | None \<Rightarrow> (case listen_socket err listen_ok of
            Some e \<Rightarrow> Inr (Inl e, [])
          | None \<Rightarrow> server_loop err evs (server0 fd_setsize sock) [])))"

section \<open>client3.c\<close>

definition TCP_send ::
  "('k \<Rightarrow> int \<Rightarrow> string \<Rightarrow> int \<times> 'k) \<Rightarrow> string \<Rightarrow> 'k \<Rightarrow> int \<Rightarrow> string \<Rightarrow> say option \<times> 'k" where
  "TCP_send wr err k sock data =
     (case wr k sock data of (n, k') \<Rightarrow>
        (if n = -1 then Some (error_exit err ''Fehler send()'') else None, k'))"

text \<open>
  The loop reads lines until \<^verbatim>\<open>quit\<close>. At the end of the input \<^verbatim>\<open>fgets\<close> leaves the empty string.
\<close>

partial_function (option) client3_loop ::
  "('k \<Rightarrow> int \<Rightarrow> string \<Rightarrow> int \<times> 'k) \<Rightarrow> string \<Rightarrow> 'k \<Rightarrow> int \<Rightarrow> string \<Rightarrow> (say option \<times> 'k) option" where
  "client3_loop wr err k sock stdin =
     (let line = (case fgets 1024 stdin of None \<Rightarrow> [] | Some (l, r) \<Rightarrow> l);
          rest = (case fgets 1024 stdin of None \<Rightarrow> [] | Some (l, r) \<Rightarrow> r);
          buffer = cstr line
      in case TCP_send wr err k sock buffer of
           (Some e, k') \<Rightarrow> Some (Some e, k')
         | (None, k') \<Rightarrow> if buffer = ''quit\<newline>'' then Some (None, k')
                         else client3_loop wr err k' sock rest)"

text \<open>
  \<open>inet_addr\<close> is -1 for text that is no address; then the first address of the host counts. \<open>reach\<close> tells to which addresses the
  connection can be made. On the left is the message of an exit.
\<close>

record resolver =
  inet_addr :: "string \<Rightarrow> 32 word"
  host_addr :: "string \<Rightarrow> 32 word option"
  reach :: "32 word \<Rightarrow> bool"

definition connect_socket :: "string \<Rightarrow> resolver \<Rightarrow> string \<Rightarrow> say + 32 word" where
  "connect_socket err net serv_addr =
     (let addr = inet_addr net serv_addr;
          sin_addr = (if addr \<noteq> -1 then Some addr else host_addr net serv_addr)
      in case sin_addr of
           None \<Rightarrow> Inl (error_exit err ''Unknown Server'')
         | Some a \<Rightarrow> if reach net a then Inr a
             else Inl (error_exit err ''Kann Socket nicht \"binden\" (keine Verbindung zum Server)''))"

definition client3_main ::
  "string \<Rightarrow> string list \<Rightarrow> bool \<Rightarrow> resolver \<Rightarrow> string \<Rightarrow> kernel \<Rightarrow> (int \<times> say list \<times> kernel) option" where
  "client3_main err argv socket_ok net stdin k =
     (if length argv < 2 then
        Some (EXIT_FAILURE, [Out (''Usage: '' @ argv ! 0 @ '' serverAdress\<newline>'')], k)
      else (case create_socket err (if socket_ok then 0 else -1) of
        Inl e \<Rightarrow> Some (EXIT_FAILURE, [e], k)
      | Inr s0 \<Rightarrow> (case connect_socket err net (argv ! 1) of
          Inl e \<Rightarrow> Some (EXIT_FAILURE, [e], k)
        | Inr a \<Rightarrow> (case alloc_fd k \<lparr>okind = Conn [] [], oacc = O_RDWR\<rparr> of (sock, k1) \<Rightarrow>
            map_option (\<lambda>(e, k2). case e of
                Some m \<Rightarrow> (EXIT_FAILURE, [m], k2)
              | None \<Rightarrow> (EXIT_SUCCESS, [], snd (sys_close k2 sock)))
            (client3_loop sys_write err k1 sock stdin)))))"

text \<open>An address in the argument is used as it is; a name that is not known ends the client before it connects.\<close>

lemma connect_socket_cases:
  "inet_addr net a \<noteq> -1 \<Longrightarrow> reach net (inet_addr net a) \<Longrightarrow> connect_socket err net a = Inr (inet_addr net a)"
  "inet_addr net a = -1 \<Longrightarrow> host_addr net a = None \<Longrightarrow> connect_socket err net a = Inl (error_exit err ''Unknown Server'')"
  by (simp_all add: connect_socket_def)

section \<open>The slot table\<close>

definition clients :: "server \<Rightarrow> int set" where
  "clients st = {c \<in> set (client_sock st). 0 \<le> c}"

text \<open>
  The invariant: the watched set is the listening socket with the clients, each client has one
  slot, \<^verbatim>\<open>sock_max\<close> bounds the watched descriptors and \<^verbatim>\<open>max_slot\<close> the used slots.
\<close>

definition server_inv :: "server \<Rightarrow> bool" where
  "server_inv st \<longleftrightarrow>
     gesamt_sock st = insert (sock1 st) (clients st) \<and> 0 \<le> sock1 st \<and> sock1 st \<notin> clients st \<and>
     (\<forall>c \<in> gesamt_sock st. c \<le> sock_max st) \<and>
     (\<forall>i < length (client_sock st). 0 \<le> client_sock st ! i \<longrightarrow> int i \<le> max_slot st) \<and>
     max_slot st < int (length (client_sock st)) \<and> -1 \<le> max_slot st \<and>
     (\<forall>i < length (client_sock st). \<forall>j < length (client_sock st).
        client_sock st ! i = client_sock st ! j \<longrightarrow> 0 \<le> client_sock st ! i \<longrightarrow> i = j)"

definition round_ok :: "round \<Rightarrow> server \<Rightarrow> bool" where
  "round_ok ev st \<longleftrightarrow> lese_sock ev \<subseteq> gesamt_sock st \<and>
     (case accepted ev of None \<Rightarrow> True | Some s \<Rightarrow> 0 \<le> s \<and> s \<notin> gesamt_sock st)"

lemma first_free_le: "first_free cs \<le> length cs"
  by (induction cs) auto

lemma first_free_neg: "first_free cs < length cs \<Longrightarrow> cs ! first_free cs < 0"
  by (induction cs) auto

lemma first_free_full: "first_free cs = length cs \<longleftrightarrow> (\<forall>c \<in> set cs. 0 \<le> c)"
  by (induction cs) auto

lemma clients_iff: "c \<in> clients st \<longleftrightarrow> (\<exists>i < length (client_sock st). client_sock st ! i = c \<and> 0 \<le> c)"
  by (auto simp: clients_def in_set_conv_nth)

lemma clientI: "i < length (client_sock st) \<Longrightarrow> 0 \<le> client_sock st ! i \<Longrightarrow> client_sock st ! i \<in> clients st"
  by (auto simp: clients_def)

lemma accept_client_inv:
  assumes "server_inv st" and "0 \<le> s" and "s \<notin> gesamt_sock st" and "accept_client err (Some s) st = Inr (Inr st')"
  shows "server_inv st' \<and> clients st' = insert s (clients st) \<and> sock1 st' = sock1 st \<and>
    length (client_sock st') = length (client_sock st) \<and>
    (\<forall>j < length (client_sock st). 0 \<le> client_sock st ! j \<longrightarrow> client_sock st' ! j = client_sock st ! j)"
proof -
  define i where "i = first_free (client_sock st)"
  have i: "i < length (client_sock st)"
    using assms(4) first_free_le [of "client_sock st"]
    by (auto simp: accept_client_def accept_socket_def Let_def i_def split: if_splits)
  then have n: "client_sock st ! i < 0" unfolding i_def by (rule first_free_neg)
  have st': "st' = st\<lparr>client_sock := (client_sock st)[i := s], gesamt_sock := insert s (gesamt_sock st),
      sock_max := (if s > sock_max st then s else sock_max st),
      max_slot := (if int i > max_slot st then int i else max_slot st)\<rparr>"
    using assms(4) by (auto simp: accept_client_def accept_socket_def Let_def i_def split: if_splits)
  have c: "clients st' = insert s (clients st)"
  proof (rule set_eqI)
    fix x
    show "x \<in> clients st' \<longleftrightarrow> x \<in> insert s (clients st)"
    proof
      assume "x \<in> clients st'"
      then obtain j where "j < length (client_sock st)" "(client_sock st)[i := s] ! j = x" "0 \<le> x"
        by (auto simp: clients_iff st')
      then show "x \<in> insert s (clients st)" by (cases "j = i") (auto simp: clients_iff)
    next
      assume "x \<in> insert s (clients st)"
      then consider "x = s" | j where "j < length (client_sock st)" "client_sock st ! j = x" "0 \<le> x"
        by (auto simp: clients_iff)
      then show "x \<in> clients st'"
      proof cases
        case 1
        with i assms(2) show ?thesis by (auto simp: clients_iff st' intro!: exI [of _ i])
      next
        case 2
        with n have "j \<noteq> i" by auto
        with 2 show ?thesis by (auto simp: clients_iff st' intro!: exI [of _ j])
      qed
    qed
  qed
  have s: "s \<notin> clients st" "s \<noteq> sock1 st" using assms(1,3) by (auto simp: server_inv_def)
  have inv: "gesamt_sock st = insert (sock1 st) (clients st)" "0 \<le> sock1 st" "sock1 st \<notin> clients st"
    "\<forall>c \<in> gesamt_sock st. c \<le> sock_max st" "max_slot st < int (length (client_sock st))" "-1 \<le> max_slot st"
    using assms(1) by (auto simp: server_inv_def)
  have slots: "\<And>j. j < length (client_sock st) \<Longrightarrow> 0 \<le> client_sock st ! j \<Longrightarrow> int j \<le> max_slot st"
    using assms(1) by (simp add: server_inv_def)
  have inj: "\<And>j l. j < length (client_sock st) \<Longrightarrow> l < length (client_sock st) \<Longrightarrow>
      client_sock st ! j = client_sock st ! l \<Longrightarrow> 0 \<le> client_sock st ! j \<Longrightarrow> j = l"
    using assms(1) by (simp add: server_inv_def)
  have fresh: "\<And>j. j < length (client_sock st) \<Longrightarrow> client_sock st ! j \<noteq> s"
    using s(1) assms(2) by (auto simp: clients_iff)
  have "gesamt_sock st' = insert (sock1 st') (clients st')" using inv(1) c by (auto simp: st')
  moreover have "0 \<le> sock1 st'" "sock1 st' \<notin> clients st'" using inv(2,3) c s(2) by (auto simp: st')
  moreover have "\<forall>c \<in> gesamt_sock st'. c \<le> sock_max st'" using inv(4) by (fastforce simp: st')
  moreover have "\<forall>j < length (client_sock st'). 0 \<le> client_sock st' ! j \<longrightarrow> int j \<le> max_slot st'"
  proof (intro allI impI)
    fix j assume "j < length (client_sock st')" "0 \<le> client_sock st' ! j"
    with slots [of j] i show "int j \<le> max_slot st'" by (cases "j = i") (auto simp: st' nth_list_update)
  qed
  moreover have "max_slot st' < int (length (client_sock st'))" "-1 \<le> max_slot st'" using inv(5,6) i by (auto simp: st')
  moreover have "\<forall>j < length (client_sock st'). \<forall>l < length (client_sock st').
      client_sock st' ! j = client_sock st' ! l \<longrightarrow> 0 \<le> client_sock st' ! j \<longrightarrow> j = l"
  proof (intro allI impI)
    fix j l assume "j < length (client_sock st')" "l < length (client_sock st')"
      "client_sock st' ! j = client_sock st' ! l" "0 \<le> client_sock st' ! j"
    with inj [of j l] fresh [of j] fresh [of l] show "j = l"
      by (cases "j = i"; cases "l = i") (auto simp: st')
  qed
  ultimately have "server_inv st'" unfolding server_inv_def by blast
  moreover have "sock1 st' = sock1 st" "length (client_sock st') = length (client_sock st)"
    "\<forall>j < length (client_sock st). 0 \<le> client_sock st ! j \<longrightarrow> client_sock st' ! j = client_sock st ! j"
    using i n by (auto simp: st' nth_list_update)
  ultimately show ?thesis using c by blast
qed

text \<open>What the scan does to one slot, and what it prints for it.\<close>

definition is_ready :: "round \<Rightarrow> int \<Rightarrow> bool" where
  "is_ready ev c \<longleftrightarrow> 0 \<le> c \<and> c \<in> lese_sock ev"

definition says_quit :: "round \<Rightarrow> int \<Rightarrow> bool" where
  "says_quit ev c \<longleftrightarrow> is_ready ev c \<and> (case received ev c of None \<Rightarrow> False | Some d \<Rightarrow> cstr d = ''quit\<newline>'')"

definition slot_log :: "round \<Rightarrow> int \<Rightarrow> say list" where
  "slot_log ev c =
     (if is_ready ev c then
        received_msg (cstr (the (received ev c))) #
          (if says_quit ev c then [Out ''Ein Client hat sich beendet\<newline>''] else [])
      else [])"

definition after_scan :: "round \<Rightarrow> nat set \<Rightarrow> server \<Rightarrow> server" where
  "after_scan ev A st = st\<lparr>
     gesamt_sock := gesamt_sock st - {c. \<exists>i \<in> A. client_sock st ! i = c \<and> says_quit ev c},
     client_sock := map (\<lambda>i. if i \<in> A \<and> says_quit ev (client_sock st ! i) then -1 else client_sock st ! i)
       [0..<length (client_sock st)]\<rparr>"

lemma after_scan_empty [simp]: "after_scan ev {} st = st"
  by (simp add: after_scan_def map_nth)

lemma after_scan_cong:
  assumes "{c. \<exists>i \<in> A. client_sock st ! i = c \<and> says_quit ev c} = {c. \<exists>i \<in> B. client_sock st ! i = c \<and> says_quit ev c}"
    and "\<And>i. i < length (client_sock st) \<Longrightarrow> says_quit ev (client_sock st ! i) \<Longrightarrow> i \<in> A \<longleftrightarrow> i \<in> B"
  shows "after_scan ev A st = after_scan ev B st"
proof -
  have "map (\<lambda>i. if i \<in> A \<and> says_quit ev (client_sock st ! i) then -1 else client_sock st ! i) [0..<length (client_sock st)] =
      map (\<lambda>i. if i \<in> B \<and> says_quit ev (client_sock st ! i) then -1 else client_sock st ! i) [0..<length (client_sock st)]"
    using assms(2) by (intro map_cong) auto
  with assms(1) show ?thesis by (simp only: after_scan_def)
qed

lemma after_scan_none:
  assumes "\<forall>i \<in> A. \<not> says_quit ev (client_sock st ! i)"
  shows "after_scan ev A st = st"
proof -
  have "after_scan ev A st = after_scan ev {} st" using assms by (intro after_scan_cong) auto
  then show ?thesis by simp
qed

lemma after_scan_insert:
  assumes "i \<notin> A" and "i < length (client_sock st)" and "says_quit ev (client_sock st ! i)"
    and "st' = st\<lparr>gesamt_sock := gesamt_sock st - {client_sock st ! i}, client_sock := (client_sock st)[i := -1]\<rparr>"
  shows "after_scan ev A st' = after_scan ev (insert i A) st"
proof -
  have "gesamt_sock (after_scan ev A st') = gesamt_sock (after_scan ev (insert i A) st)"
    using assms by (auto simp: after_scan_def nth_list_update)
  moreover have "client_sock (after_scan ev A st') = client_sock (after_scan ev (insert i A) st)"
    using assms by (auto simp: after_scan_def nth_list_update intro!: nth_equalityI)
  ultimately show ?thesis using assms(4) by (simp add: after_scan_def)
qed

lemma after_scan_skip:
  assumes "\<not> says_quit ev (client_sock st ! i)"
  shows "after_scan ev (insert i A) st = after_scan ev A st"
  using assms by (intro after_scan_cong) auto

text \<open>
  The counter of ready descriptors never cuts the scan short: when it reaches zero, no
  slot is left that is ready.
\<close>

lemma scan_clients_all:
  assumes "distinct is" and "\<forall>i \<in> set is. i < length (client_sock st)"
    and "\<forall>i \<in> set is. is_ready ev (client_sock st ! i) \<longrightarrow> received ev (client_sock st ! i) \<noteq> None"
    and "int (length (filter (\<lambda>i. is_ready ev (client_sock st ! i)) is)) \<le> ready"
  shows "scan_clients err ev is ready st out =
    (Inr (after_scan ev (set is) st), out @ concat (map (\<lambda>i. slot_log ev (client_sock st ! i)) is))"
  using assms
proof (induction "is" arbitrary: ready st out)
  case Nil
  then show ?case by simp
next
  case (Cons i "is")
  define c where "c = client_sock st ! i"
  show ?case
  proof (cases "is_ready ev c")
    case False
    then have nq: "\<not> says_quit ev (client_sock st ! i)" "slot_log ev (client_sock st ! i) = []"
      by (auto simp: says_quit_def slot_log_def c_def)
    have "scan_clients err ev (i # is) ready st out = scan_clients err ev is ready st out"
      using False by (auto simp: is_ready_def c_def Let_def)
    with Cons.IH [of st ready out] Cons.prems False nq after_scan_skip [OF nq(1)] show ?thesis
      by (simp add: c_def)
  next
    case True
    then obtain d where d: "received ev c = Some d" using Cons.prems(3) by (auto simp: c_def)
    define st' where "st' = (if says_quit ev c then st\<lparr>gesamt_sock := gesamt_sock st - {c},
        client_sock := (client_sock st)[i := -1]\<rparr> else st)"
    have q: "says_quit ev c \<longleftrightarrow> cstr d = ''quit\<newline>''" using True d by (simp add: says_quit_def)
    have log: "slot_log ev c = received_msg (cstr d) # (if says_quit ev c then [Out ''Ein Client hat sich beendet\<newline>''] else [])"
      using True d by (simp add: slot_log_def)
    have step: "scan_clients err ev (i # is) ready st out =
        (if ready - 1 \<le> 0 then (Inr st', out @ slot_log ev c) else scan_clients err ev is (ready - 1) st' (out @ slot_log ev c))"
      using True d q by (simp add: c_def [symmetric] is_ready_def TCP_recv_def Let_def st'_def log)
    have i: "i \<notin> set is" "i < length (client_sock st)" "distinct is" using Cons.prems(1,2) by auto
    have same: "client_sock st' ! j = client_sock st ! j" if "j \<in> set is" for j
      using that i by (auto simp: st'_def nth_list_update)
    have a: "after_scan ev (set is) st' = after_scan ev (set (i # is)) st"
      using after_scan_insert [OF i(1,2), of ev st'] after_scan_skip [of ev st i "set is"]
      by (cases "says_quit ev c") (simp_all add: st'_def c_def)
    have m: "map (\<lambda>j. slot_log ev (client_sock st' ! j)) is = map (\<lambda>j. slot_log ev (client_sock st ! j)) is"
      using same by simp
    have f: "filter (\<lambda>j. is_ready ev (client_sock st' ! j)) is = filter (\<lambda>j. is_ready ev (client_sock st ! j)) is"
      using same by (auto intro: filter_cong)
    have r: "int (length (filter (\<lambda>j. is_ready ev (client_sock st ! j)) is)) \<le> ready - 1"
      using Cons.prems(4) True by (simp add: c_def)
    show ?thesis
    proof (cases "ready - 1 \<le> 0")
      case True
      with r have none: "\<forall>j \<in> set is. \<not> is_ready ev (client_sock st ! j)"
        by (cases "filter (\<lambda>j. is_ready ev (client_sock st ! j)) is") (auto simp: filter_empty_conv)
      then have "\<forall>j \<in> set is. \<not> says_quit ev (client_sock st' ! j)" using same by (auto simp: says_quit_def)
      from after_scan_none [OF this] a have "st' = after_scan ev (set (i # is)) st" by simp
      moreover have "concat (map (\<lambda>j. slot_log ev (client_sock st ! j)) is) = []"
        using none by (auto simp: slot_log_def)
      ultimately show ?thesis using step True by (simp add: c_def)
    next
      case False
      have p: "\<forall>j \<in> set is. j < length (client_sock st')"
        "\<forall>j \<in> set is. is_ready ev (client_sock st' ! j) \<longrightarrow> received ev (client_sock st' ! j) \<noteq> None"
        using Cons.prems(2,3) same by (auto simp: st'_def)
      from Cons.IH [OF i(3) p, of "ready - 1" "out @ slot_log ev c"] r f a m step False show ?thesis
        by (simp add: c_def)
    qed
  qed
qed

lemma after_scan_slot:
  "j < length (client_sock st) \<Longrightarrow> client_sock (after_scan ev A st) ! j =
     (if j \<in> A \<and> says_quit ev (client_sock st ! j) then -1 else client_sock st ! j)"
  by (simp add: after_scan_def)

text \<open>Whatever the counter is, a scan that ends has removed some of the slots that said \<^verbatim>\<open>quit\<close>.\<close>

lemma scan_clients_some:
  assumes "distinct is" and "\<forall>i \<in> set is. i < length (client_sock st)"
    and "scan_clients err ev is ready st out = (Inr st', out')"
  shows "\<exists>A \<subseteq> set is. st' = after_scan ev A st"
  using assms
proof (induction "is" arbitrary: ready st out)
  case Nil
  then show ?case by simp
next
  case (Cons i "is")
  define c where "c = client_sock st ! i"
  have i: "i \<notin> set is" "i < length (client_sock st)" "distinct is" "\<forall>j \<in> set is. j < length (client_sock st)"
    using Cons.prems(1,2) by auto
  show ?case
  proof (cases "is_ready ev c")
    case False
    then have "scan_clients err ev is ready st out = (Inr st', out')"
      using Cons.prems(3) by (auto simp: is_ready_def c_def Let_def split: if_splits)
    with Cons.IH [OF i(3,4) this] show ?thesis by auto
  next
    case True
    then obtain d where d: "received ev c = Some d"
      using Cons.prems(3) by (auto simp: is_ready_def c_def TCP_recv_def Let_def split: option.splits)
    define st1 where "st1 = (if says_quit ev c then st\<lparr>gesamt_sock := gesamt_sock st - {c},
        client_sock := (client_sock st)[i := -1]\<rparr> else st)"
    have q: "says_quit ev c \<longleftrightarrow> cstr d = ''quit\<newline>''" using True d by (simp add: says_quit_def)
    have a: "after_scan ev A st1 = after_scan ev (insert i A) st" if "i \<notin> A" for A
      using after_scan_insert [OF that i(2), of ev st1] after_scan_skip [of ev st i A]
      by (cases "says_quit ev c") (simp_all add: st1_def c_def)
    have "st' = st1 \<or> (\<exists>r o'. scan_clients err ev is r st1 o' = (Inr st', out'))"
      using Cons.prems(3) True d q
      by (auto simp: c_def [symmetric] is_ready_def TCP_recv_def Let_def st1_def split: if_splits)
    then show ?thesis
    proof
      assume "st' = st1"
      with a [of "{}"] show ?thesis by (intro exI [of _ "{i}"]) simp
    next
      assume "\<exists>r o'. scan_clients err ev is r st1 o' = (Inr st', out')"
      then obtain r o' where r: "scan_clients err ev is r st1 o' = (Inr st', out')" by blast
      have "\<forall>j \<in> set is. j < length (client_sock st1)" using i(4) by (simp add: st1_def)
      from Cons.IH [OF i(3) this r] obtain A where "A \<subseteq> set is" "st' = after_scan ev A st1" by blast
      with a [of A] i(1) show ?thesis by (intro exI [of _ "insert i A"]) auto
    qed
  qed
qed

lemma after_scan_inv:
  assumes "server_inv st" and "A \<subseteq> {..<length (client_sock st)}"
  shows "server_inv (after_scan ev A st) \<and>
    clients (after_scan ev A st) = {c \<in> clients st. \<not> (says_quit ev c \<and> (\<exists>i \<in> A. client_sock st ! i = c))}"
proof -
  let ?st = "after_scan ev A st"
  have len: "length (client_sock ?st) = length (client_sock st)" "max_slot ?st = max_slot st"
    "sock1 ?st = sock1 st" "sock_max ?st = sock_max st" by (simp_all add: after_scan_def)
  have inv: "gesamt_sock st = insert (sock1 st) (clients st)" "0 \<le> sock1 st" "sock1 st \<notin> clients st"
    "\<forall>c \<in> gesamt_sock st. c \<le> sock_max st" "max_slot st < int (length (client_sock st))" "-1 \<le> max_slot st"
    using assms(1) by (auto simp: server_inv_def)
  have slots: "\<And>j. j < length (client_sock st) \<Longrightarrow> 0 \<le> client_sock st ! j \<Longrightarrow> int j \<le> max_slot st"
    using assms(1) by (simp add: server_inv_def)
  have inj: "\<And>j l. j < length (client_sock st) \<Longrightarrow> l < length (client_sock st) \<Longrightarrow>
      client_sock st ! j = client_sock st ! l \<Longrightarrow> 0 \<le> client_sock st ! j \<Longrightarrow> j = l"
    using assms(1) by (simp add: server_inv_def)
  have slot: "client_sock ?st ! j = (if j \<in> A \<and> says_quit ev (client_sock st ! j) then -1 else client_sock st ! j)"
    if "j < length (client_sock st)" for j using after_scan_slot [OF that] .
  have c: "clients ?st = {c \<in> clients st. \<not> (says_quit ev c \<and> (\<exists>i \<in> A. client_sock st ! i = c))}"
  proof (intro set_eqI iffI)
    fix c assume "c \<in> clients ?st"
    then obtain j where j: "j < length (client_sock st)" "client_sock ?st ! j = c" "0 \<le> c"
      unfolding clients_iff len(1) by blast
    then have n: "client_sock st ! j = c" "\<not> (j \<in> A \<and> says_quit ev c)"
      using slot [OF j(1)] by (auto split: if_splits)
    have "i = j" if "i \<in> A" "client_sock st ! i = c" for i
      using inj [of i j] that n(1) j(1,3) assms(2) by auto
    with n j clientI [of j st] show "c \<in> {c \<in> clients st. \<not> (says_quit ev c \<and> (\<exists>i \<in> A. client_sock st ! i = c))}"
      by auto
  next
    fix c assume "c \<in> {c \<in> clients st. \<not> (says_quit ev c \<and> (\<exists>i \<in> A. client_sock st ! i = c))}"
    then obtain j where "j < length (client_sock st)" "client_sock st ! j = c" "0 \<le> c" "\<not> (j \<in> A \<and> says_quit ev c)"
      unfolding clients_iff by blast
    with slot [of j] clientI [of j ?st] len(1) show "c \<in> clients ?st" by auto
  qed
  have "{c. \<exists>i \<in> A. client_sock st ! i = c \<and> says_quit ev c} =
      {c \<in> clients st. says_quit ev c \<and> (\<exists>i \<in> A. client_sock st ! i = c)}"
    using assms(2) by (auto simp: clients_iff says_quit_def is_ready_def)
  then have "gesamt_sock ?st = insert (sock1 ?st) (clients ?st)"
    unfolding c len using inv(1,3) by (auto simp: after_scan_def)
  moreover have "0 \<le> sock1 ?st" "sock1 ?st \<notin> clients ?st" using inv(2,3) c len by auto
  moreover have "\<forall>c \<in> gesamt_sock ?st. c \<le> sock_max ?st" using inv(4) len by (auto simp: after_scan_def)
  moreover have "\<forall>j < length (client_sock ?st). 0 \<le> client_sock ?st ! j \<longrightarrow> int j \<le> max_slot ?st"
    using slots slot len by (auto split: if_splits)
  moreover have "max_slot ?st < int (length (client_sock ?st))" "-1 \<le> max_slot ?st" using inv(5,6) len by simp_all
  moreover have "\<forall>j < length (client_sock ?st). \<forall>l < length (client_sock ?st).
      client_sock ?st ! j = client_sock ?st ! l \<longrightarrow> 0 \<le> client_sock ?st ! j \<longrightarrow> j = l"
    using inj slot len(1) by (auto split: if_splits)
  ultimately have "server_inv ?st" unfolding server_inv_def by blast
  with c show ?thesis by blast
qed

lemma after_scan_all:
  assumes "server_inv st"
  shows "server_inv (after_scan ev {..<length (client_sock st)} st)"
    and "clients (after_scan ev {..<length (client_sock st)} st) = {c \<in> clients st. \<not> says_quit ev c}"
  using after_scan_inv [OF assms, of "{..<length (client_sock st)}" ev] by (auto simp: clients_iff)

text \<open>The slots that are scanned are all that can be ready, and there are at most \<^verbatim>\<open>ready\<close> of them.\<close>

lemma scan_round:
  assumes "server_inv st" and "finite (lese_sock ev)"
    and "\<forall>c \<in> lese_sock ev. c \<noteq> sock1 st \<longrightarrow> received ev c \<noteq> None"
    and "int (card (lese_sock ev - {sock1 st})) \<le> ready"
  shows "scan_clients err ev [0..<nat (max_slot st + 1)] ready st out =
    (Inr (after_scan ev {..<length (client_sock st)} st), out @ concat (map (slot_log ev) (client_sock st)))"
proof -
  define m where "m = nat (max_slot st + 1)"
  have m: "m \<le> length (client_sock st)" using assms(1) by (auto simp: server_inv_def m_def)
  have beyond: "\<not> is_ready ev (client_sock st ! i)" if "m \<le> i" "i < length (client_sock st)" for i
  proof
    assume "is_ready ev (client_sock st ! i)"
    then have "int i \<le> max_slot st" using assms(1) that(2) by (auto simp: server_inv_def is_ready_def)
    with that(1) show False by (simp add: m_def)
  qed
  have inj: "inj_on (\<lambda>i. client_sock st ! i) {i. i < length (client_sock st) \<and> 0 \<le> client_sock st ! i}"
    using assms(1) by (auto simp: server_inv_def inj_on_def)
  let ?R = "{i. i < m \<and> is_ready ev (client_sock st ! i)}"
  have "?R \<subseteq> {i. i < length (client_sock st) \<and> 0 \<le> client_sock st ! i}" using m by (auto simp: is_ready_def)
  then have "card ?R = card ((\<lambda>i. client_sock st ! i) ` ?R)" by (intro card_image [symmetric] inj_on_subset [OF inj])
  also have "\<dots> \<le> card (lese_sock ev - {sock1 st})"
  proof (intro card_mono)
    show "(\<lambda>i. client_sock st ! i) ` ?R \<subseteq> lese_sock ev - {sock1 st}"
    proof
      fix c assume "c \<in> (\<lambda>i. client_sock st ! i) ` ?R"
      then obtain i where "i < m" "client_sock st ! i = c" "0 \<le> c" "c \<in> lese_sock ev"
        unfolding is_ready_def by blast
      then have "c \<in> clients st" "c \<in> lese_sock ev" using m clientI [of i st] by simp_all
      moreover have "sock1 st \<notin> clients st" using assms(1) by (simp add: server_inv_def)
      ultimately show "c \<in> lese_sock ev - {sock1 st}" by auto
    qed
  qed (use assms(2) in simp)
  finally have r: "int (length (filter (\<lambda>i. is_ready ev (client_sock st ! i)) [0..<m])) \<le> ready"
    using assms(4) by (simp add: length_filter_conv_card cong: conj_cong)
  have "scan_clients err ev [0..<m] ready st out =
      (Inr (after_scan ev (set [0..<m]) st), out @ concat (map (\<lambda>i. slot_log ev (client_sock st ! i)) [0..<m]))"
  proof (intro scan_clients_all r)
    show "\<forall>i \<in> set [0..<m]. is_ready ev (client_sock st ! i) \<longrightarrow> received ev (client_sock st ! i) \<noteq> None"
    proof (intro ballI impI)
      fix i assume i: "i \<in> set [0..<m]" "is_ready ev (client_sock st ! i)"
      then have "client_sock st ! i \<in> clients st" using m by (intro clientI) (auto simp: is_ready_def)
      then have "client_sock st ! i \<noteq> sock1 st" using assms(1) by (auto simp: server_inv_def)
      with i(2) assms(3) show "received ev (client_sock st ! i) \<noteq> None" by (auto simp: is_ready_def)
    qed
  qed (use m in auto)
  moreover have "after_scan ev (set [0..<m]) st = after_scan ev {..<length (client_sock st)} st"
  proof (intro after_scan_cong)
    have q: "i \<in> set [0..<m] \<longleftrightarrow> i \<in> {..<length (client_sock st)}"
      if "says_quit ev (client_sock st ! i)" for i
    proof (cases "i < m")
      case True
      with m show ?thesis by simp
    next
      case False
      with that beyond [of i] show ?thesis by (auto simp: says_quit_def)
    qed
    then show "{c. \<exists>i \<in> set [0..<m]. client_sock st ! i = c \<and> says_quit ev c} =
        {c. \<exists>i \<in> {..<length (client_sock st)}. client_sock st ! i = c \<and> says_quit ev c}" by blast
    show "i \<in> set [0..<m] \<longleftrightarrow> i \<in> {..<length (client_sock st)}"
      if "says_quit ev (client_sock st ! i)" for i using q [OF that] .
  qed
  moreover have "concat (map (\<lambda>i. slot_log ev (client_sock st ! i)) [0..<m]) = concat (map (slot_log ev) (client_sock st))"
  proof -
    have "client_sock st = map (\<lambda>i. client_sock st ! i) ([0..<m] @ [m..<length (client_sock st)])"
    proof -
      have "[0..<m] @ [m..<length (client_sock st)] = [0..<length (client_sock st)]"
        using m by (metis le_Suc_ex upt_add_eq_append zero_le)
      then show ?thesis by (simp only: map_nth)
    qed
    then have "concat (map (slot_log ev) (client_sock st)) =
        concat (map (\<lambda>i. slot_log ev (client_sock st ! i)) [0..<m]) @
        concat (map (\<lambda>i. slot_log ev (client_sock st ! i)) [m..<length (client_sock st)])"
      by (metis (no_types, lifting) concat_append map_append map_map comp_apply map_eq_conv)
    moreover have "concat (map (\<lambda>i. slot_log ev (client_sock st ! i)) [m..<length (client_sock st)]) = []"
      using beyond by (auto simp: slot_log_def)
    ultimately show ?thesis by simp
  qed
  ultimately show ?thesis by (simp add: m_def)
qed

section \<open>Properties of the server\<close>

text \<open>The states between rounds, for every behaviour of the network, failures of \<^verbatim>\<open>select\<close> included.\<close>

inductive reachable :: "string \<Rightarrow> nat \<Rightarrow> int \<Rightarrow> server \<Rightarrow> bool" for err n s where
  start: "0 \<le> s \<Longrightarrow> reachable err n s (server0 n s)"
| round: "reachable err n s st \<Longrightarrow> round_ok ev st \<Longrightarrow>
    server_round err ev st out = Inr (Inr st', out') \<Longrightarrow> reachable err n s st'"

lemma server0_inv: "0 \<le> s \<Longrightarrow> server_inv (server0 n s)"
  by (auto simp: server_inv_def server0_def clients_iff)

text \<open>One round, as a function of the state and what the network did.\<close>

lemma server_round_result:
  assumes "server_inv st" and "finite (lese_sock ev)" and "select_ret ev = int (card (lese_sock ev))" and "lese_sock ev \<subseteq> gesamt_sock st"
    and "\<forall>c \<in> lese_sock ev. c \<noteq> sock1 st \<longrightarrow> received ev c \<noteq> None"
    and "if sock1 st \<in> lese_sock ev then (\<exists>s. accepted ev = Some s \<and> 0 \<le> s \<and> s \<notin> gesamt_sock st \<and>
        accept_client err (Some s) st = Inr (Inr st1)) else st1 = st"
  shows "server_round err ev st out =
      Inr (Inr (after_scan ev {..<length (client_sock st1)} st1), out @ concat (map (slot_log ev) (client_sock st1)))"
    and "server_inv st1"
proof -
  have "server_inv st1 \<and> sock1 st1 = sock1 st \<and>
    server_round err ev st out =
      Inr (Inr (after_scan ev {..<length (client_sock st1)} st1), out @ concat (map (slot_log ev) (client_sock st1)))"
  proof (cases "sock1 st \<in> lese_sock ev")
    case False
    then have "st1 = st" "lese_sock ev - {sock1 st} = lese_sock ev" using assms(6) by auto
    with scan_round [OF assms(1,2,5), of "int (card (lese_sock ev))" err out] assms(1) False
    show ?thesis by (simp add: server_round_def Let_def assms(3))
  next
    case True
    with assms(6) obtain s where s: "accepted ev = Some s" "0 \<le> s" "s \<notin> gesamt_sock st"
      "accept_client err (Some s) st = Inr (Inr st1)" by auto
    from accept_client_inv [OF assms(1) s(2-4)] have i: "server_inv st1" "clients st1 = insert s (clients st)"
      "sock1 st1 = sock1 st" by blast+
    define r where "r = int (card (lese_sock ev)) - 1"
    have "0 < card (lese_sock ev)" using True assms(2) by (auto simp: card_gt_0_iff)
    then have r: "int (card (lese_sock ev - {sock1 st1})) = r"
      using True i(3) by (simp add: r_def card_Diff_singleton)
    from i(3) assms(5) have rc: "\<forall>c \<in> lese_sock ev. c \<noteq> sock1 st1 \<longrightarrow> received ev c \<noteq> None" by simp
    from scan_round [OF i(1) assms(2) rc, of r err out] r
    have sc: "scan_clients err ev [0..<nat (max_slot st1 + 1)] r st1 out =
      (Inr (after_scan ev {..<length (client_sock st1)} st1), out @ concat (map (slot_log ev) (client_sock st1)))" by simp
    show ?thesis
    proof (cases "r \<le> 0")
      case False
      with True s sc i show ?thesis by (simp add: server_round_def Let_def r_def assms(3))
    next
      case rz: True
      with r have "card (lese_sock ev - {sock1 st1}) = 0" by simp
      then have only: "lese_sock ev \<subseteq> {sock1 st1}" using assms(2) by auto
      have none: "\<not> is_ready ev (client_sock st1 ! j)" if "j < length (client_sock st1)" for j
        using only i(1) clientI [OF that] by (auto simp: is_ready_def server_inv_def)
      then have "after_scan ev {..<length (client_sock st1)} st1 = st1"
        by (intro after_scan_none) (auto simp: says_quit_def)
      moreover have "concat (map (slot_log ev) (client_sock st1)) = []"
        using none by (auto simp: slot_log_def in_set_conv_nth)
      ultimately show ?thesis using True s i rz by (simp add: server_round_def Let_def r_def assms(3))
    qed
  qed
  then show "server_round err ev st out =
      Inr (Inr (after_scan ev {..<length (client_sock st1)} st1), out @ concat (map (slot_log ev) (client_sock st1)))"
    and "server_inv st1" by blast+
qed

text \<open>
  C6: between any two rounds of \<^verbatim>\<open>multi_server\<close> the watched descriptors are exactly the listening
  socket and the clients in the slots, no descriptor has two slots, \<^verbatim>\<open>sock_max\<close> bounds the watched
  descriptors and \<^verbatim>\<open>max\<close> the slots in use.
\<close>

theorem server_invariant:
  assumes "reachable err n s st"
  shows "server_inv st"
  using assms
proof (induction rule: reachable.induct)
  case start
  then show ?case by (rule server0_inv)
next
  case (round st ev out st' out')
  have "\<exists>st1. server_inv st1 \<and> (st' = st1 \<or>
      (\<exists>r. scan_clients err ev [0..<nat (max_slot st1 + 1)] r st1 out = (Inr st', out')))"
  proof (cases "sock1 st \<in> lese_sock ev")
    case True
    with round(3) obtain st1 where st1: "accept_client err (accepted ev) st = Inr (Inr st1)"
      by (auto simp: server_round_def Let_def split: sum.splits)
    then obtain s where "accepted ev = Some s" by (auto simp: accept_client_def accept_socket_def split: option.splits)
    with st1 round(2) accept_client_inv [OF round.IH, of s err st1] have "server_inv st1" by (auto simp: round_ok_def)
    with True st1 round(3) show ?thesis by (auto simp: server_round_def Let_def split: if_splits)
  next
    case False
    with round(3) round.IH show ?thesis by (auto simp: server_round_def Let_def)
  qed
  then obtain st1 where st1: "server_inv st1" "st' = st1 \<or>
      (\<exists>r. scan_clients err ev [0..<nat (max_slot st1 + 1)] r st1 out = (Inr st', out'))" by blast
  from st1(2) show ?case
  proof
    assume "\<exists>r. scan_clients err ev [0..<nat (max_slot st1 + 1)] r st1 out = (Inr st', out')"
    then obtain r where r: "scan_clients err ev [0..<nat (max_slot st1 + 1)] r st1 out = (Inr st', out')" by blast
    have m: "\<forall>i \<in> set [0..<nat (max_slot st1 + 1)]. i < length (client_sock st1)"
      using st1(1) by (auto simp: server_inv_def)
    from scan_clients_some [OF _ m r] obtain A where "A \<subseteq> set [0..<nat (max_slot st1 + 1)]" "st' = after_scan ev A st1" by auto
    with after_scan_inv [OF st1(1), of A ev] m show ?case by blast
  qed (use st1(1) in simp)
qed

theorem server_invariant_witness:
  "server_inv (server0 8 3)"
  using server_invariant [OF reachable.start [of 3 "''E''" 8]] by simp

text \<open>
  C7: a round in which \<^verbatim>\<open>select\<close> succeeds serves every client that it reports, in the order of the
  slots, whether or not the listening socket is ready too: the messages are printed, exactly
  the clients that sent \<^verbatim>\<open>quit\<close> lose their slot and are no longer watched, and a connection that
  is accepted is added to both. The counter of ready descriptors never ends the round too early.
  Assumed: no \<^verbatim>\<open>recv\<close> fails, and for a new connection \<^verbatim>\<open>accept\<close> yields a fresh descriptor inside the
  \<^verbatim>\<open>fd_set\<close> and a slot is free (the other cases end the program or are a fault).
\<close>

definition new_clients :: "round \<Rightarrow> server \<Rightarrow> int set" where
  "new_clients ev st = (if sock1 st \<in> lese_sock ev then set_option (accepted ev) else {})"

lemma accept_client_ok:
  assumes "\<exists>c \<in> set (client_sock st). c < 0" and "s < int (length (client_sock st))"
  shows "\<exists>st1. accept_client err (Some s) st = Inr (Inr st1) \<and>
    client_sock st1 = (client_sock st)[first_free (client_sock st) := s]"
  using assms first_free_full [of "client_sock st"]
  by (auto simp: accept_client_def accept_socket_def Let_def)

theorem server_round_serves:
  assumes "server_inv st" and "finite (lese_sock ev)" and "lese_sock ev \<subseteq> gesamt_sock st"
    and "select_ret ev = int (card (lese_sock ev))"
    and "\<forall>c \<in> lese_sock ev. c \<noteq> sock1 st \<longrightarrow> received ev c \<noteq> None"
    and "sock1 st \<in> lese_sock ev \<Longrightarrow> \<exists>s. accepted ev = Some s \<and> 0 \<le> s \<and> s \<notin> gesamt_sock st \<and>
      s < int (length (client_sock st)) \<and> (\<exists>c \<in> set (client_sock st). c < 0)"
  shows "\<exists>st'. server_round err ev st out = Inr (Inr st', out @ concat (map (slot_log ev) (client_sock st))) \<and>
    clients st' = {c \<in> clients st. \<not> says_quit ev c} \<union> new_clients ev st \<and>
    gesamt_sock st' = insert (sock1 st) ({c \<in> clients st. \<not> says_quit ev c} \<union> new_clients ev st)"
proof (cases "sock1 st \<in> lese_sock ev")
  case False
  with server_round_result [OF assms(1,2,4,3,5), where ?st1.0 = st] have
    "server_round err ev st out = Inr (Inr (after_scan ev {..<length (client_sock st)} st),
      out @ concat (map (slot_log ev) (client_sock st)))" by simp
  with after_scan_all [OF assms(1), of ev] False show ?thesis
    by (auto simp: server_inv_def after_scan_def new_clients_def)
next
  case True
  with assms(6) obtain s where s: "accepted ev = Some s" "0 \<le> s" "s \<notin> gesamt_sock st"
    "s < int (length (client_sock st))" "\<exists>c \<in> set (client_sock st). c < 0" by auto
  define i where "i = first_free (client_sock st)"
  obtain st1 where a: "accept_client err (Some s) st = Inr (Inr st1)" "client_sock st1 = (client_sock st)[i := s]"
    using accept_client_ok [OF s(5,4)] unfolding i_def by blast
  note n = accept_client_inv [OF assms(1) s(2,3) a(1)]
  have i: "i < length (client_sock st)" "client_sock st ! i < 0"
    using s(5) first_free_full [of "client_sock st"] first_free_le [of "client_sock st"] first_free_neg [of "client_sock st"]
    by (fastforce simp: i_def)+
  have nr: "\<not> is_ready ev s" using s(3) assms(3) by (auto simp: is_ready_def)
  have log: "map (slot_log ev) (client_sock st1) = map (slot_log ev) (client_sock st)"
    using i nr by (intro nth_equalityI) (auto simp: a(2) nth_list_update slot_log_def is_ready_def)
  from server_round_result [OF assms(1,2,4,3,5), where ?st1.0 = st1] True s(1-3) a(1) have
    "server_round err ev st out = Inr (Inr (after_scan ev {..<length (client_sock st1)} st1),
      out @ concat (map (slot_log ev) (client_sock st)))" by (simp add: log)
  moreover have "clients (after_scan ev {..<length (client_sock st1)} st1) = {c \<in> clients st. \<not> says_quit ev c} \<union> new_clients ev st"
  proof -
    have "\<not> says_quit ev s" using nr by (simp add: says_quit_def)
    moreover have "new_clients ev st = {s}" using True s(1) by (simp add: new_clients_def)
    moreover have "clients st1 = insert s (clients st)" "server_inv st1" using n by simp_all
    ultimately show ?thesis using after_scan_all(2) [of st1 ev] by auto
  qed
  moreover have "gesamt_sock (after_scan ev {..<length (client_sock st1)} st1) =
      insert (sock1 st) (clients (after_scan ev {..<length (client_sock st1)} st1))"
  proof -
    have "sock1 (after_scan ev {..<length (client_sock st1)} st1) = sock1 st" using n by (simp add: after_scan_def)
    moreover have "server_inv (after_scan ev {..<length (client_sock st1)} st1)" using n by (intro after_scan_all) simp
    ultimately show ?thesis by (simp add: server_inv_def)
  qed
  ultimately show ?thesis by (simp only:) blast
qed

theorem server_round_serves_witness:
  "\<exists>st'. server_round ''E''
      \<lparr>select_ret = 3, lese_sock = {3, 4, 5}, accepted = Some 6, received = (\<lambda>c. Some (if c = 4 then ''quit\<newline>'' else ''hi''))\<rparr>
      \<lparr>sock1 = 3, sock_max = 5, max_slot = 1, client_sock = [4, 5, -1, -1, -1, -1, -1, -1], gesamt_sock = {3, 4, 5}\<rparr> [] =
      Inr (Inr st', [received_msg ''quit\<newline>'', Out ''Ein Client hat sich beendet\<newline>'', received_msg ''hi'']) \<and>
    clients st' = {5, 6} \<and> gesamt_sock st' = {3, 5, 6}"
proof -
  let ?st = "\<lparr>sock1 = 3, sock_max = 5, max_slot = 1, client_sock = [4, 5, -1, -1, -1, -1, -1, -1], gesamt_sock = {3, 4, 5}\<rparr>"
  let ?ev = "\<lparr>select_ret = 3, lese_sock = {3, 4, 5}, accepted = Some 6, received = (\<lambda>c. Some (if c = 4 then ''quit\<newline>'' else ''hi''))\<rparr>"
  have c: "clients ?st = {4, 5}" by (auto simp: clients_def)
  have n: "{c \<in> clients ?st. \<not> says_quit ?ev c} \<union> new_clients ?ev ?st = {5, 6}"
    unfolding c by (auto simp: says_quit_def is_ready_def cstr_def new_clients_def)
  have l: "concat (map (slot_log ?ev) (client_sock ?st)) =
      [received_msg ''quit\<newline>'', Out ''Ein Client hat sich beendet\<newline>'', received_msg ''hi'']"
    by (simp add: slot_log_def is_ready_def says_quit_def cstr_def)
  have "server_inv ?st" unfolding server_inv_def c by (auto simp: less_Suc_eq eval_nat_numeral)
  from server_round_serves [OF this, of ?ev "''E''" "[]", unfolded n l] show ?thesis by (auto simp: insert_commute)
qed

text \<open>
  When \<^verbatim>\<open>select\<close> fails the program does not look at its result; on Linux the set is left as it was
  passed, so the listening socket is in it, and the program waits in \<^verbatim>\<open>accept\<close> for a new client
  and serves nobody else.
\<close>

lemma server_round_select_fails:
  assumes "server_inv st" and "select_ret ev = -1" and "lese_sock ev = gesamt_sock st" and "accept_client err (accepted ev) st = Inr (Inr st1)"
  shows "server_round err ev st out = Inr (Inr st1, out)"
  using assms by (simp add: server_round_def server_inv_def)

text \<open>
  The message about too many clients can never be reached with descriptors that fit the
  \<^verbatim>\<open>fd_set\<close>: the three standard descriptors and the listening socket leave a free slot, and the
  next descriptor is set outside the \<^verbatim>\<open>fd_set\<close> instead.
\<close>

theorem too_many_clients_unreachable:
  assumes "server_inv st" and "\<forall>c \<in> clients st. 3 \<le> c \<and> c < int (length (client_sock st))"
    and "3 \<le> length (client_sock st)" and "int (length (client_sock st)) \<le> s"
  shows "accept_client err (Some s) st = Inl OutOfBounds"
proof -
  have "first_free (client_sock st) \<noteq> length (client_sock st)"
  proof
    assume "first_free (client_sock st) = length (client_sock st)"
    then have pos: "\<forall>c \<in> set (client_sock st). 0 \<le> c" by (simp add: first_free_full)
    then have c: "clients st = set (client_sock st)" by (auto simp: clients_def)
    have "distinct (client_sock st)"
      unfolding distinct_conv_nth using assms(1) pos by (auto simp: server_inv_def)
    then have "length (client_sock st) = card (clients st)" by (simp add: c distinct_card)
    also have "\<dots> \<le> card {3..<int (length (client_sock st))}" using assms(2) by (intro card_mono) auto
    finally show False using assms(3) by simp
  qed
  then show ?thesis using assms(4) by (simp add: accept_client_def accept_socket_def Let_def)
qed

theorem too_many_clients_unreachable_witness:
  "accept_client ''E'' (Some 4) \<lparr>sock1 = 3, sock_max = 3, max_slot = -1, client_sock = replicate 4 (-1), gesamt_sock = {3}\<rparr> =
     Inl OutOfBounds"
  by (rule too_many_clients_unreachable) (auto simp: server_inv_def clients_def)

section \<open>The client\<close>

text \<open>The lines up to and including the first \<^verbatim>\<open>quit\<close>.\<close>

lemma fgets_1024:
  assumes "LF \<notin> set l" and "length l < 1022"
  shows "fgets 1024 (l @ LF # rest) = Some (l @ [LF], rest)"
  using line_upto_line [OF assms(1), of 1023 rest] assms(2) by (simp add: fgets_def)

lemma client_line:
  assumes "full_writes k" and "Fail \<notin> set (wsched k)" and "sink_ok k w" and "b \<noteq> []"
  shows "\<exists>k'. TCP_send sys_write err k w b = (None, k') \<and> full_writes k' \<and> Fail \<notin> set (wsched k') \<and> sink_ok k' w \<and>
    sent_bytes k' w = sent_bytes k w @ b"
proof -
  obtain c k' where e: "sys_write k w b = (c, k')" by (cases "sys_write k w b")
  with sink_ok_write [OF assms(3,4) e] sys_write_sched [OF e] assms(1,2) show ?thesis
    by (auto simp: full_writes_def TCP_send_def)
qed

text \<open>
  The client sends every line that is typed, with its line feed and in order, up to and
  including the line \<^verbatim>\<open>quit\<close>, and then returns; whatever follows is not read.
\<close>

theorem client3_sends:
  assumes "full_writes k" and "sink_ok k sock"
    and "\<forall>l \<in> set ls. LF \<notin> set l \<and> no_nul l \<and> length l < 1022 \<and> l \<noteq> ''quit''"
  shows "\<exists>k'. client3_loop sys_write err k sock (concat (map (\<lambda>l. l @ [LF]) ls) @ ''quit\<newline>'' @ rest) = Some (None, k') \<and>
    sent_bytes k' sock = sent_bytes k sock @ concat (map (\<lambda>l. l @ [LF]) ls) @ ''quit\<newline>''"
proof -
  have "Fail \<notin> set (wsched k)" using assms(1) by (auto simp: full_writes_def)
  with assms show ?thesis
  proof (induction ls arbitrary: k)
    case Nil
    have f: "fgets 1024 (''quit\<newline>'' @ rest) = Some (''quit\<newline>'', rest)"
      using fgets_1024 [of "''quit''" rest] by simp
    have c: "cstr ''quit\<newline>'' = ''quit\<newline>''" by (simp add: cstr_def)
    from client_line [OF Nil(1,4,2), of "''quit\<newline>''" err] obtain k' where
      "TCP_send sys_write err k sock ''quit\<newline>'' = (None, k')" "sent_bytes k' sock = sent_bytes k sock @ ''quit\<newline>''" by auto
    with f c show ?case by (simp add: client3_loop.simps [of _ _ k])
  next
    case (Cons l ls)
    define more where "more = concat (map (\<lambda>l. l @ [LF]) ls) @ ''quit\<newline>'' @ rest"
    have f: "fgets 1024 (l @ LF # more) = Some (l @ [LF], more)" using Cons.prems(3) by (intro fgets_1024) auto
    have c: "cstr (l @ [LF]) = l @ [LF]" "l @ [LF] \<noteq> ''quit\<newline>''"
      using Cons.prems(3) by (auto simp: cstr_def no_nul_def takeWhile_append2)
    from client_line [OF Cons.prems(1,4,2), of "l @ [LF]" err] obtain k1 where
      k1: "TCP_send sys_write err k sock (l @ [LF]) = (None, k1)" "sent_bytes k1 sock = sent_bytes k sock @ l @ [LF]"
      "full_writes k1" "Fail \<notin> set (wsched k1)" "sink_ok k1 sock" by auto
    from Cons.IH [OF k1(3,5) _ k1(4)] Cons.prems(3) obtain k' where k':
      "client3_loop sys_write err k1 sock more = Some (None, k')"
      "sent_bytes k' sock = sent_bytes k1 sock @ concat (map (\<lambda>l. l @ [LF]) ls) @ ''quit\<newline>''" by (auto simp: more_def)
    have 1: "client3_loop sys_write err k sock (l @ LF # more) = client3_loop sys_write err k1 sock more"
      using f c k1(1) by (simp add: client3_loop.simps [of _ _ k] Let_def)
    have 2: "concat (map (\<lambda>l. l @ [LF]) (l # ls)) @ ''quit\<newline>'' @ rest = l @ LF # more"
      by (simp add: more_def)
    have 3: "sent_bytes k' sock = sent_bytes k sock @ concat (map (\<lambda>l. l @ [LF]) (l # ls)) @ ''quit\<newline>''"
      using k'(2) k1(2) by simp
    from k'(1) 1 2 3 show ?case by (intro exI [of _ k'] conjI) (simp_all only:)
  qed
qed

theorem client3_sends_witness:
  "\<exists>k'. client3_loop sys_write ''E'' (boot Map.empty [] []) 1 (concat (map (\<lambda>l. l @ [LF]) [''hi'', []]) @ ''quit\<newline>'' @ ''x'') =
     Some (None, k') \<and>
    sent_bytes k' 1 = sent_bytes (boot Map.empty [] []) 1 @ concat (map (\<lambda>l. l @ [LF]) [''hi'', []]) @ ''quit\<newline>''"
  by (rule client3_sends) (simp_all add: boot_def full_writes_def sink_ok_def kind_of_def acc_of_def get_ofd_def)

lemma client3_quit:
  "client3_loop wr err k sock stdin = Some x \<Longrightarrow> fst x = None \<longrightarrow> sublist ''quit\<newline>'' stdin"
proof (rule client3_loop.raw_induct [where P = "\<lambda>wr err k sock s x. fst x = None \<longrightarrow> sublist ''quit\<newline>'' s"])
  fix w wr err k sock s y
  assume IH: "\<And>wr err k sock s y. w wr err k sock s = Some y \<Longrightarrow> fst y = None \<longrightarrow> sublist ''quit\<newline>'' s"
    and eq: "(let line = case fgets 1024 s of None \<Rightarrow> [] | Some (l, r) \<Rightarrow> l;
            rest = case fgets 1024 s of None \<Rightarrow> [] | Some (l, r) \<Rightarrow> r; buffer = cstr line
        in case TCP_send wr err k sock buffer of (None, k') \<Rightarrow> if buffer = ''quit\<newline>'' then Some (None, k') else w wr err k' sock rest
          | (Some e, k') \<Rightarrow> Some (Some e, k')) = Some y"
  obtain line rest where lr: "line = (case fgets 1024 s of None \<Rightarrow> [] | Some (l, r) \<Rightarrow> l)"
    "rest = (case fgets 1024 s of None \<Rightarrow> [] | Some (l, r) \<Rightarrow> r)" by blast
  have s: "s = line @ rest" using lr fgets_split [of 1024 s] by (auto simp: fgets_def split: if_splits prod.splits)
  have p: "prefix (cstr line) line" by (auto simp: cstr_def intro: prefixI [OF takeWhile_dropWhile_id [symmetric]])
  obtain e k1 where t: "TCP_send wr err k sock (cstr line) = (e, k1)" by (cases "TCP_send wr err k sock (cstr line)")
  show "fst y = None \<longrightarrow> sublist ''quit\<newline>'' s"
  proof
    assume y: "fst y = None"
    show "sublist ''quit\<newline>'' s"
    proof (cases "cstr line = ''quit\<newline>''")
      case True
      with p s show ?thesis by (metis prefix_imp_sublist sublist_appendI sublist_order.order_trans prefix_append sublist_append_rightI)
    next
      case False
      with eq t lr y have "w wr err k1 sock rest = Some y" by (auto simp: Let_def split: option.splits)
      from IH [OF this] y s show ?thesis by (simp add: sublist_append)
    qed
  qed
qed

text \<open>
  The client returns normally only if \<^verbatim>\<open>quit\<close> is typed: at the end of its input without it,
  the loop goes on for as long as sending succeeds.
\<close>

theorem client3_needs_quit:
  assumes "client3_loop wr err k sock stdin = Some (None, k')"
  shows "sublist ''quit\<newline>'' stdin"
  using client3_quit [OF assms] by simp

theorem client3_needs_quit_witness:
  "sublist ''quit\<newline>'' ''quit\<newline>''"
proof -
  have "fgets 1024 ''quit\<newline>'' = Some (''quit\<newline>'', [])" using fgets_1024 [of "''quit''" "[]"] by simp
  then have "client3_loop (\<lambda>k fd b. (1, ())) ''E'' () 1 ''quit\<newline>'' = Some (None, ())"
    by (simp add: client3_loop.simps TCP_send_def cstr_def)
  then show ?thesis by (rule client3_needs_quit)
qed

end
