(* ===== verification/MsgQueue.thy ===== *)
theory MsgQueue
  imports CString
begin

text \<open>
  The message-queue server and client of \<^verbatim>\<open>src/09_IPC\<close>: \<^verbatim>\<open>msq_header.h\<close>, \<^verbatim>\<open>msq_server.c\<close> and
  \<^verbatim>\<open>msq_client.c\<close>. The server keeps the clients' queue identifiers in a linked list on the
  heap; here the heap is a map from addresses to nodes, a null or dangling pointer that is used
  is a fault, and \<open>allocs\<close> tells which of the next calls of \<^verbatim>\<open>malloc\<close> succeed. A message queue is the
  list of the messages in it; \<^verbatim>\<open>msgsnd\<close> fails for a missing queue and for a type that is not
  positive. A message is the C string in its array of \<^verbatim>\<open>MSG_LEN\<close> characters: clients send the whole
  array, which \<^verbatim>\<open>sprintf\<close> has terminated, so a message has less than \<^verbatim>\<open>MSG_LEN\<close> characters; an
  array without its end, which only a foreign program could send, is not modelled.
\<close>

section \<open>Message queues\<close>

type_synonym queues = "int \<rightharpoonup> (int \<times> string) list"

definition msgsnd :: "queues \<Rightarrow> int \<Rightarrow> int \<Rightarrow> string \<Rightarrow> int \<times> queues" where
  "msgsnd qs q prio msg =
     (if prio \<le> 0 then (-1, qs)
      else (case qs q of None \<Rightarrow> (-1, qs) | Some ms \<Rightarrow> (0, qs(q \<mapsto> ms @ [(prio, msg)]))))"

text \<open>The first message of a queue, without waiting for one.\<close>

definition msgrcv :: "queues \<Rightarrow> int \<Rightarrow> (int \<times> string) option \<times> queues" where
  "msgrcv qs q = (case qs q of Some (m # ms) \<Rightarrow> (Some m, qs(q \<mapsto> ms)) | _ \<Rightarrow> (None, qs))"

section \<open>The list of clients\<close>

record node =
  nid :: int
  nnext :: "nat option"

record mq =
  heap :: "nat \<rightharpoonup> node"
  id_first :: "nat option"
  brk :: nat
  allocs :: "bool list"

definition malloc :: "mq \<Rightarrow> nat option \<times> mq" where
  "malloc s =
     (case allocs s of
        False # bs \<Rightarrow> (None, s\<lparr>allocs := bs\<rparr>)
      | bs \<Rightarrow> (Some (brk s), s\<lparr>heap := (heap s)(brk s \<mapsto> \<lparr>nid = 0, nnext = None\<rparr>),
          brk := Suc (brk s), allocs := tl bs\<rparr>))"

partial_function (option) last_node :: "(nat \<rightharpoonup> node) \<Rightarrow> nat \<Rightarrow> nat cres option" where
  "last_node h p =
     (case h p of
        None \<Rightarrow> Some (Inl NullDeref)
      | Some n \<Rightarrow> (case nnext n of None \<Rightarrow> Some (Inr p) | Some q \<Rightarrow> last_node h q))"

text \<open>\<open>Inl\<close> inside is \<^verbatim>\<open>exit\<close>. The second \<^verbatim>\<open>malloc\<close> is not tested.\<close>

definition mq_verwaltung_add :: "int \<Rightarrow> mq \<Rightarrow> (int + mq) cres option" where
  "mq_verwaltung_add i s =
     (case id_first s of
        None \<Rightarrow>
          (case malloc s of
             (None, s1) \<Rightarrow> Some (Inr (Inl EXIT_FAILURE))
           | (Some a, s1) \<Rightarrow>
               Some (Inr (Inr (s1\<lparr>id_first := Some a, heap := (heap s1)(a \<mapsto> \<lparr>nid = i, nnext = None\<rparr>)\<rparr>))))
      | Some p \<Rightarrow>
          Option.bind (last_node (heap s) p) (\<lambda>r. Some (case r of
              Inl f \<Rightarrow> Inl f
            | Inr ptr \<Rightarrow>
                (case malloc s of
                   (None, s1) \<Rightarrow> Inl NullDeref
                 | (Some a, s1) \<Rightarrow>
                     (case heap s1 ptr of
                        None \<Rightarrow> Inl NullDeref
                      | Some n \<Rightarrow> Inr (Inr (s1\<lparr>heap := (heap s1)(ptr \<mapsto> n\<lparr>nnext := Some a\<rparr>,
                          a \<mapsto> \<lparr>nid = i, nnext = None\<rparr>)\<rparr>)))))))"

partial_function (option) remove_after :: "int \<Rightarrow> mq \<Rightarrow> nat \<Rightarrow> (say list \<times> mq) cres option" where
  "remove_after i s ptr =
     (case heap s ptr of
        None \<Rightarrow> Some (Inl NullDeref)
      | Some n \<Rightarrow>
          (case nnext n of
             None \<Rightarrow> Some (Inr ([], s))
           | Some tmp \<Rightarrow>
               (case heap s tmp of
                  None \<Rightarrow> Some (Inl NullDeref)
                | Some t \<Rightarrow>
                    if nid t = i then
                      Some (Inr ([Out (''User '' @ show_int i @ '' hat sich ausgeloggt\<newline>'')],
                        s\<lparr>heap := (heap s)(ptr \<mapsto> n\<lparr>nnext := nnext t\<rparr>, tmp := None)\<rparr>))
                    else remove_after i s tmp)))"

definition mq_verwaltung_remove :: "int \<Rightarrow> mq \<Rightarrow> (say list \<times> mq) cres option" where
  "mq_verwaltung_remove i s =
     (case id_first s of
        None \<Rightarrow> Some (Inr ([], s))
      | Some p \<Rightarrow>
          (case heap s p of
             None \<Rightarrow> Some (Inl NullDeref)
           | Some n \<Rightarrow>
               if nid n = i then
                 Some (Inr ([Out (''User '' @ show_int i @ '' hat sich asugeloggt\<newline>'')],
                   s\<lparr>id_first := nnext n, heap := (heap s)(p := None)\<rparr>))
               else remove_after i s p))"

definition deliver_msg :: "int \<Rightarrow> int \<Rightarrow> say" where
  "deliver_msg res q =
     (if res < 0 then Out (''Konnte Nachricht an Client MQ '' @ show_int q @ '' nicht zustellen ...\<newline>'')
      else Out (''Nachricht an Client MQ '' @ show_int q @ '' zugestellt\<newline>''))"

partial_function (option) verteilen_loop ::
  "(nat \<rightharpoonup> node) \<Rightarrow> nat option \<Rightarrow> int \<Rightarrow> string \<Rightarrow> queues \<Rightarrow> say list \<Rightarrow> (say list \<times> queues) cres option" where
  "verteilen_loop h ptr p str qs out =
     (case ptr of
        None \<Rightarrow> Some (Inr (out, qs))
      | Some a \<Rightarrow>
          (case h a of
             None \<Rightarrow> Some (Inl NullDeref)
           | Some n \<Rightarrow>
               (case msgsnd qs (nid n) p str of (res, qs') \<Rightarrow>
                  verteilen_loop h (nnext n) p str qs' (out @ [deliver_msg res (nid n)]))))"

definition verteilen :: "string \<Rightarrow> int \<Rightarrow> mq \<Rightarrow> queues \<Rightarrow> (say list \<times> queues) cres option" where
  "verteilen str p s qs = verteilen_loop (heap s) (id_first s) p str qs []"

section \<open>The server\<close>

text \<open>
  \<^verbatim>\<open>sscanf(message, "%d:%s", &client_id, puffer)\<close>: a conversion that fails leaves its variable.
\<close>

definition scan_login :: "string \<Rightarrow> int \<Rightarrow> string \<Rightarrow> int \<times> string" where
  "scan_login msg client_id puffer =
     (case scan_int msg of
        None \<Rightarrow> (client_id, puffer)
      | Some (i, rest) \<Rightarrow>
          (if rest \<noteq> [] \<and> hd rest = CHR '':'' then
             (let w = takeWhile (\<lambda>c. \<not> is_space c) (dropWhile is_space (tl rest))
              in (i, if w = [] then puffer else w))
           else (i, puffer)))"

definition scan_logout :: "string \<Rightarrow> int \<Rightarrow> int" where
  "scan_logout msg client_id = (case scan_int msg of None \<Rightarrow> client_id | Some (i, _) \<Rightarrow> i)"

text \<open>
  The loop of \<^verbatim>\<open>main\<close> over the received messages; \<open>None\<close> in the list is a failed \<^verbatim>\<open>msgrcv\<close>. It is
  written over the three operations on the list of clients.
\<close>

fun msq_loop ::
  "(int \<Rightarrow> 's \<Rightarrow> (int + 's) cres option) \<Rightarrow> (int \<Rightarrow> 's \<Rightarrow> (say list \<times> 's) cres option) \<Rightarrow>
   (string \<Rightarrow> int \<Rightarrow> 's \<Rightarrow> queues \<Rightarrow> (say list \<times> queues) cres option) \<Rightarrow>
   (int \<times> string) option list \<Rightarrow> int \<Rightarrow> string \<Rightarrow> 's \<Rightarrow> queues \<Rightarrow> say list \<Rightarrow>
   (int option \<times> 's \<times> queues \<times> say list) cres option" where
  "msq_loop add rem dist [] client_id puffer s qs out = Some (Inr (None, s, qs, out))"
| "msq_loop add rem dist (None # msgs) client_id puffer s qs out =
     Some (Inr (Some EXIT_FAILURE, s, qs, out @ [Out ''Fehler beim Empfangen einer Nachricht?\<newline>'']))"
| "msq_loop add rem dist (Some (prio, msg) # msgs) client_id puffer s qs out =
     (if prio = 1 then
        (let i = scan_logout msg client_id in
         Option.bind (rem i s) (\<lambda>r. case r of
             Inl f \<Rightarrow> Some (Inl f)
           | Inr (says, s1) \<Rightarrow> msq_loop add rem dist msgs i puffer s1 qs (out @ says)))
      else
        (case scan_login msg client_id puffer of (i, p) \<Rightarrow>
           Option.bind (add i s) (\<lambda>r. case r of
               Inl f \<Rightarrow> Some (Inl f)
             | Inr (Inl code) \<Rightarrow> Some (Inr (Some code, s, qs, out))
             | Inr (Inr s1) \<Rightarrow>
                 Option.bind (dist p i s1 qs) (\<lambda>r. case r of
                     Inl f \<Rightarrow> Some (Inl f)
                   | Inr (says, qs1) \<Rightarrow> msq_loop add rem dist msgs i p s1 qs1 (out @ says)))))"

definition setup_server :: "int \<Rightarrow> int \<times> say list" where
  "setup_server res =
     (if res < 0 then (-1, [Out ''Serverfehler beim Einrichten der Message Queue\<newline>'']) else (res, []))"

definition mq0 :: "bool list \<Rightarrow> mq" where
  "mq0 al = \<lparr>heap = Map.empty, id_first = None, brk = 0, allocs = al\<rparr>"

definition msq_server_main ::
  "int \<Rightarrow> bool list \<Rightarrow> (int \<times> string) option list \<Rightarrow> int \<Rightarrow> string \<Rightarrow> queues \<Rightarrow>
   (int option \<times> mq \<times> queues \<times> say list) cres option" where
  "msq_server_main get_res al msgs client_id puffer qs =
     (case setup_server get_res of (server_id, out) \<Rightarrow>
        if server_id < 0 then Some (Inr (Some EXIT_FAILURE, mq0 al, qs, out))
        else msq_loop mq_verwaltung_add mq_verwaltung_remove verteilen msgs client_id puffer (mq0 al) qs
               [Out (''Server l'' @ [CHR 0xC3, CHR 0xA4] @ ''uft ...\<newline>'')])"

section \<open>The client\<close>

definition setup_client :: "int \<Rightarrow> int \<times> say list" where
  "setup_client res =
     (if res = -1 then (-1, [Out ''Client-Fehler beim Einrichten der Message queue!\<newline>'']) else (res, []))"

text \<open>
  After the login each element of the list is one round of the loop: what other processes have
  put into the client's queue meanwhile. The loop ends when the signal handler clears
  \<^verbatim>\<open>ende\<close>, here at the end of the list.
\<close>

fun client_rounds :: "int \<Rightarrow> (int \<times> string) list list \<Rightarrow> queues \<Rightarrow> say list \<Rightarrow> queues \<times> say list" where
  "client_rounds client_id [] qs out = (qs, out)"
| "client_rounds client_id (ms # rounds) qs out =
     (case msgrcv (qs(client_id := map_option (\<lambda>q. q @ ms) (qs client_id))) client_id of
        (None, qs1) \<Rightarrow> client_rounds client_id rounds qs1 out
      | (Some (prio, msg), qs1) \<Rightarrow>
          client_rounds client_id rounds qs1
            (out @ [Out (''('' @ msg @ '') von User mit der Message Queue ID: '' @ show_int prio @ ''\<newline>'')]))"

text \<open>
  \<open>server_res\<close> and \<open>client_res\<close> are what \<^verbatim>\<open>msgget\<close> returns; \<open>first\<close> is what arrives while the client
  waits for its first message (\<open>None\<close>: the call fails). The second test is of \<^verbatim>\<open>server_id\<close> again.
\<close>

definition msq_client_main ::
  "int \<Rightarrow> int \<Rightarrow> (int \<times> string) option \<Rightarrow> (int \<times> string) list list \<Rightarrow> queues \<Rightarrow> int \<times> queues \<times> say list" where
  "msq_client_main server_res client_res first rounds qs =
     (case setup_client server_res of (server_id, out0) \<Rightarrow>
      if server_id < 0 then (EXIT_FAILURE, qs, out0)
      else (case setup_client client_res of (client_id, out1) \<Rightarrow>
        (let qs0 = (if client_id = -1 then qs else qs(client_id \<mapsto> [])) in
         if server_id < 0 then (EXIT_FAILURE, qs0, out0 @ out1)
         else (case msgsnd qs0 server_id 2 (show_int client_id @ '':Login'') of (res, qs1) \<Rightarrow>
           if res = -1 then (EXIT_FAILURE, qs1, out0 @ out1 @ [Out ''Konnte keine Nachricht versenden ...\<newline>''])
           else (case first of
               None \<Rightarrow> (EXIT_FAILURE, qs1, out0 @ out1 @ [Out ''Fehler beim Erhalt der Nachricht ...\<newline>''])
             | Some (prio, msg) \<Rightarrow>
                 (case client_rounds client_id rounds qs1 (out0 @ out1 @ [Out (show_int prio @ '': '' @ msg @ ''\<newline>'')]) of
                    (qs2, out2) \<Rightarrow>
                      (case msgsnd qs2 server_id 1 (show_int client_id) of (res2, qs3) \<Rightarrow>
                         if res2 = -1 then (EXIT_FAILURE, qs3, out2 @ [Out ''Konnte keine Nachricht versenden ...\<newline>''])
                         else (EXIT_SUCCESS, qs3(client_id := None), out2))))))))"

section \<open>What the server promises\<close>

text \<open>The behaviour on the plain list of identifiers.\<close>

fun spread :: "int list \<Rightarrow> int \<Rightarrow> string \<Rightarrow> queues \<Rightarrow> say list \<times> queues" where
  "spread [] p str qs = ([], qs)"
| "spread (i # is) p str qs =
     (case msgsnd qs i p str of (res, qs1) \<Rightarrow>
        (case spread is p str qs1 of (says, qs2) \<Rightarrow> (deliver_msg res i # says, qs2)))"

definition logout_msgs :: "int \<Rightarrow> int list \<Rightarrow> say list" where
  "logout_msgs i ids =
     (if ids \<noteq> [] \<and> hd ids = i then [Out (''User '' @ show_int i @ '' hat sich asugeloggt\<newline>'')]
      else if i \<in> set ids then [Out (''User '' @ show_int i @ '' hat sich ausgeloggt\<newline>'')] else [])"

fun chat_spec ::
  "(int \<times> string) option list \<Rightarrow> int \<Rightarrow> string \<Rightarrow> int list \<Rightarrow> queues \<Rightarrow> say list \<Rightarrow>
   int option \<times> int list \<times> queues \<times> say list" where
  "chat_spec [] client_id puffer ids qs out = (None, ids, qs, out)"
| "chat_spec (None # msgs) client_id puffer ids qs out =
     (Some EXIT_FAILURE, ids, qs, out @ [Out ''Fehler beim Empfangen einer Nachricht?\<newline>''])"
| "chat_spec (Some (prio, msg) # msgs) client_id puffer ids qs out =
     (if prio = 1 then
        (let i = scan_logout msg client_id in
         chat_spec msgs i puffer (remove1 i ids) qs (out @ logout_msgs i ids))
      else
        (case scan_login msg client_id puffer of (i, p) \<Rightarrow>
           (case spread (ids @ [i]) i p qs of (says, qs1) \<Rightarrow>
              chat_spec msgs i p (ids @ [i]) qs1 (out @ says))))"

text \<open>
  The contract of the list of clients: \<open>rep s ids\<close> says that the state \<open>s\<close> stores the identifiers
  \<open>ids\<close>. The server loop, written over the operations, then computes what \<open>chat_spec\<close> says.
\<close>

locale registry =
  fixes add :: "int \<Rightarrow> 's \<Rightarrow> (int + 's) cres option"
    and rem :: "int \<Rightarrow> 's \<Rightarrow> (say list \<times> 's) cres option"
    and dist :: "string \<Rightarrow> int \<Rightarrow> 's \<Rightarrow> queues \<Rightarrow> (say list \<times> queues) cres option"
    and rep :: "'s \<Rightarrow> int list \<Rightarrow> bool"
  assumes add_rep: "rep s ids \<Longrightarrow> \<exists>s'. add i s = Some (Inr (Inr s')) \<and> rep s' (ids @ [i])"
    and rem_rep: "rep s ids \<Longrightarrow> \<exists>s'. rem i s = Some (Inr (logout_msgs i ids, s')) \<and> rep s' (remove1 i ids)"
    and dist_rep: "rep s ids \<Longrightarrow> dist str p s qs = Some (Inr (spread ids p str qs))"
begin

lemma loop_refines:
  assumes "rep s ids" and "chat_spec msgs client_id puffer ids qs out = (c, ids', qs', out')"
  shows "\<exists>s'. msq_loop add rem dist msgs client_id puffer s qs out = Some (Inr (c, s', qs', out')) \<and> rep s' ids'"
  using assms
proof (induction msgs arbitrary: client_id puffer s ids qs out)
  case Nil
  then show ?case by auto
next
  case (Cons m msgs)
  show ?case
  proof (cases m)
    case None
    with Cons.prems show ?thesis by auto
  next
    case (Some pm)
    obtain prio msg where m: "m = Some (prio, msg)" using Some by (cases pm) auto
    show ?thesis
    proof (cases "prio = 1")
      case True
      define i where "i = scan_logout msg client_id"
      from rem_rep [OF Cons.prems(1), of i] obtain s1 where
        "rem i s = Some (Inr (logout_msgs i ids, s1))" "rep s1 (remove1 i ids)" by blast
      with Cons.IH [OF this(2)] Cons.prems(2) m True show ?thesis by (simp add: i_def Let_def)
    next
      case False
      obtain i p where ip: "scan_login msg client_id puffer = (i, p)" by (cases "scan_login msg client_id puffer")
      from add_rep [OF Cons.prems(1), of i] obtain s1 where
        s1: "add i s = Some (Inr (Inr s1))" "rep s1 (ids @ [i])" by blast
      obtain says qs1 where sp: "spread (ids @ [i]) i p qs = (says, qs1)" by (cases "spread (ids @ [i]) i p qs")
      from Cons.IH [OF s1(2), of i p qs1 "out @ says"] Cons.prems(2) dist_rep [OF s1(2)] m False ip s1(1) sp
      show ?thesis by simp
    qed
  qed
qed

end

section \<open>The heap keeps the contract\<close>

fun nodes :: "(nat \<rightharpoonup> node) \<Rightarrow> nat option \<Rightarrow> (nat \<times> int) list \<Rightarrow> bool" where
  "nodes h p [] = (p = None)"
| "nodes h p ((a, i) # xs) =
     (p = Some a \<and> (case h a of None \<Rightarrow> False | Some n \<Rightarrow> nid n = i \<and> nodes h (nnext n) xs))"

definition mq_rep :: "mq \<Rightarrow> int list \<Rightarrow> bool" where
  "mq_rep s ids \<longleftrightarrow> (\<exists>xs. map snd xs = ids \<and> nodes (heap s) (id_first s) xs \<and> distinct (map fst xs) \<and>
     dom (heap s) = set (map fst xs) \<and> (\<forall>a \<in> dom (heap s). a < brk s) \<and> set (allocs s) \<subseteq> {True})"

lemma mq_repI:
  assumes "map snd xs = ids" and "nodes (heap s) (id_first s) xs" and "distinct (map fst xs)"
    and "dom (heap s) = set (map fst xs)" and "\<forall>a \<in> dom (heap s). a < brk s" and "set (allocs s) \<subseteq> {True}"
  shows "mq_rep s ids"
  unfolding mq_rep_def using assms by blast

lemma nodes_frame: "a \<notin> fst ` set xs \<Longrightarrow> nodes (h(a := v)) p xs = nodes h p xs"
  by (induction h p xs rule: nodes.induct) (auto split: option.splits)

lemma nodes_Some: "nodes h (Some a) xs \<Longrightarrow> \<exists>i ys. xs = (a, i) # ys"
  by (cases xs) auto

lemma last_node_nodes:
  "nodes h (Some p) (xs @ [(b, j)]) \<Longrightarrow> last_node h p = Some (Inr b) \<and> (\<exists>n. h b = Some n \<and> nid n = j \<and> nnext n = None)"
proof (induction xs arbitrary: p)
  case Nil
  then obtain n where "h b = Some n" "p = b" "nid n = j" "nnext n = None" by (auto split: option.splits)
  then show ?case by (simp add: last_node.simps)
next
  case (Cons x xs)
  obtain a i where x: "x = (a, i)" by (cases x)
  from Cons.prems x obtain n where n: "p = a" "h a = Some n" "nodes h (nnext n) (xs @ [(b, j)])"
    by (auto split: option.splits)
  then obtain q where q: "nnext n = Some q" by (cases "nnext n"; cases xs) auto
  with Cons.IH [of q] n show ?case by (simp add: last_node.simps [of h a])
qed

lemma nodes_snoc:
  assumes "nodes h p (xs @ [(b, j)])" and "distinct (map fst (xs @ [(b, j)]))" and "a \<notin> fst ` set (xs @ [(b, j)])"
    and "h b = Some n"
  shows "nodes (h(b \<mapsto> n\<lparr>nnext := Some a\<rparr>, a \<mapsto> \<lparr>nid = i, nnext = None\<rparr>)) p (xs @ [(b, j), (a, i)])"
  using assms
proof (induction xs arbitrary: p)
  case Nil
  then show ?case by auto
next
  case (Cons x xs)
  then show ?case by (cases x) (auto split: option.splits)
qed

lemma malloc_ok:
  assumes "set (allocs s) \<subseteq> {True}"
  shows "\<exists>al. malloc s = (Some (brk s), s\<lparr>heap := (heap s)(brk s \<mapsto> \<lparr>nid = 0, nnext = None\<rparr>), brk := Suc (brk s), allocs := al\<rparr>) \<and>
    set al \<subseteq> {True}"
  using assms by (cases "allocs s") (auto simp: malloc_def)

lemma mq_add_rep:
  assumes "mq_rep s ids"
  shows "\<exists>s'. mq_verwaltung_add i s = Some (Inr (Inr s')) \<and> mq_rep s' (ids @ [i])"
proof -
  from assms obtain xs where xs: "map snd xs = ids" "nodes (heap s) (id_first s) xs" "distinct (map fst xs)"
    "dom (heap s) = set (map fst xs)" "\<forall>a \<in> dom (heap s). a < brk s" "set (allocs s) \<subseteq> {True}"
    unfolding mq_rep_def by blast
  from malloc_ok [OF xs(6)] obtain al where
    m: "malloc s = (Some (brk s), s\<lparr>heap := (heap s)(brk s \<mapsto> \<lparr>nid = 0, nnext = None\<rparr>), brk := Suc (brk s), allocs := al\<rparr>)"
      "set al \<subseteq> {True}" by blast
  have fresh: "brk s \<notin> fst ` set xs" using xs(4,5) by auto
  show ?thesis
  proof (cases "id_first s")
    case None
    with xs(2) have "xs = []" by (cases xs) auto
    with xs m None show ?thesis
      by (auto simp: mq_verwaltung_add_def mq_rep_def intro!: exI [of _ "[(brk s, i)]"])
  next
    case (Some p)
    with xs(2) have "xs \<noteq> []" by (cases xs) auto
    then obtain ys b j where ys: "xs = ys @ [(b, j)]" by (metis rev_exhaust surj_pair)
    from last_node_nodes [of "heap s" p ys b j] xs(2) Some ys obtain n where
      l: "last_node (heap s) p = Some (Inr b)" "heap s b = Some n" "nid n = j" "nnext n = None" by auto
    have ne: "brk s \<noteq> b" using fresh ys by auto
    define h where "h = (heap s)(b \<mapsto> n\<lparr>nnext := Some (brk s)\<rparr>, brk s \<mapsto> \<lparr>nid = i, nnext = None\<rparr>)"
    have h: "(heap s)(brk s \<mapsto> \<lparr>nid = 0, nnext = None\<rparr>, b \<mapsto> n\<lparr>nnext := Some (brk s)\<rparr>, brk s \<mapsto> \<lparr>nid = i, nnext = None\<rparr>) = h"
      using ne by (auto simp: h_def)
    have r: "mq_verwaltung_add i s = Some (Inr (Inr (s\<lparr>heap := h, brk := Suc (brk s), allocs := al\<rparr>)))"
      using Some l m ne h by (simp add: mq_verwaltung_add_def)
    have "nodes h (id_first s) (xs @ [(brk s, i)])"
      using nodes_snoc [of "heap s" "id_first s" ys b j "brk s" n i] xs(2,3) fresh l(2) ys by (simp add: h_def)
    moreover have "dom h = set (map fst (xs @ [(brk s, i)]))"
      using xs(4) l(2) by (auto simp: h_def)
    ultimately have "mq_rep (s\<lparr>heap := h, brk := Suc (brk s), allocs := al\<rparr>) (ids @ [i])"
      unfolding mq_rep_def using xs(1,3,4,5) fresh m(2)
      by (intro exI [of _ "xs @ [(brk s, i)]"]) (auto simp: less_Suc_eq)
    with r show ?thesis by blast
  qed
qed

lemma nodes_cong: "\<forall>a \<in> fst ` set xs. h a = h' a \<Longrightarrow> nodes h p xs = nodes h' p xs"
  by (induction h p xs rule: nodes.induct) (auto split: option.splits)

lemma nodes_unlink:
  assumes "nodes h p (xs @ (a, j) # (b, i) # ys)" and "distinct (map fst (xs @ (a, j) # (b, i) # ys))"
    and "h a = Some n" and "h b = Some t" and "h' a = Some (n\<lparr>nnext := nnext t\<rparr>)"
    and "\<forall>x. x \<noteq> a \<and> x \<noteq> b \<longrightarrow> h' x = h x"
  shows "nodes h' p (xs @ (a, j) # ys)"
  using assms
proof (induction xs arbitrary: p)
  case Nil
  then have "\<forall>x \<in> fst ` set ys. h' x = h x" by auto
  then have "nodes h' (nnext t) ys = nodes h (nnext t) ys" by (rule nodes_cong)
  with Nil show ?case by auto
next
  case (Cons x xs)
  obtain q k where x: "x = (q, k)" by (cases x)
  with Cons.prems have "q \<noteq> a" "q \<noteq> b" by auto
  with Cons.prems(6) have "h' q = h q" by simp
  with Cons x show ?case by (auto split: option.splits)
qed

lemma remove_after_none:
  assumes "nodes (heap s) (Some p) ((p, j) # xs)" and "i \<notin> snd ` set xs"
  shows "remove_after i s p = Some (Inr ([], s))"
  using assms
proof (induction xs arbitrary: p j)
  case Nil
  then obtain n where "heap s p = Some n" "nnext n = None" by (auto split: option.splits)
  then show ?case by (simp add: remove_after.simps [of i s p])
next
  case (Cons x xs)
  obtain q k where x: "x = (q, k)" by (cases x)
  from Cons.prems x obtain n t where "heap s p = Some n" "nnext n = Some q" "heap s q = Some t" "nid t = k" "k \<noteq> i"
    by (auto split: option.splits)
  moreover have "remove_after i s q = Some (Inr ([], s))"
    using Cons.IH [of q k] Cons.prems x by (auto split: option.splits)
  ultimately show ?case by (simp add: remove_after.simps [of i s p])
qed

lemma remove_after_found:
  assumes "nodes (heap s) (Some p) ((p, j) # us @ (b, i) # vs)" and "i \<notin> snd ` set us"
  shows "\<exists>n t. heap s (fst (last ((p, j) # us))) = Some n \<and> heap s b = Some t \<and>
    remove_after i s p = Some (Inr ([Out (''User '' @ show_int i @ '' hat sich ausgeloggt\<newline>'')],
      s\<lparr>heap := (heap s)(fst (last ((p, j) # us)) \<mapsto> n\<lparr>nnext := nnext t\<rparr>, b := None)\<rparr>))"
  using assms
proof (induction us arbitrary: p j)
  case Nil
  then obtain n t where "heap s p = Some n" "nnext n = Some b" "heap s b = Some t" "nid t = i"
    by (auto split: option.splits)
  then show ?case by (simp add: remove_after.simps [of i s p] fun_upd_def)
next
  case (Cons x us)
  obtain q k where x: "x = (q, k)" by (cases x)
  from Cons.prems x obtain n t where "heap s p = Some n" "nnext n = Some q" "heap s q = Some t" "nid t = k" "k \<noteq> i"
    by (auto split: option.splits)
  then have "remove_after i s p = remove_after i s q" by (simp add: remove_after.simps [of i s p])
  moreover have "nodes (heap s) (Some q) ((q, k) # us @ (b, i) # vs)" "i \<notin> snd ` set us"
    using Cons.prems x by (auto split: option.splits)
  ultimately show ?case using Cons.IH [of q k] x by simp
qed

lemma mq_rem_rep:
  assumes "mq_rep s ids"
  shows "\<exists>s'. mq_verwaltung_remove i s = Some (Inr (logout_msgs i ids, s')) \<and> mq_rep s' (remove1 i ids)"
proof -
  from assms obtain xs where xs: "map snd xs = ids" "nodes (heap s) (id_first s) xs" "distinct (map fst xs)"
    "dom (heap s) = set (map fst xs)" "\<forall>a \<in> dom (heap s). a < brk s" "set (allocs s) \<subseteq> {True}"
    unfolding mq_rep_def by blast
  show ?thesis
  proof (cases xs)
    case Nil
    with xs assms show ?thesis by (auto simp: mq_verwaltung_remove_def logout_msgs_def)
  next
    case (Cons x ys)
    obtain p j where x: "x = (p, j)" by (cases x)
    from xs(2) Cons x obtain n where n: "id_first s = Some p" "heap s p = Some n" "nid n = j" "nodes (heap s) (nnext n) ys"
      by (auto split: option.splits)
    show ?thesis
    proof (cases "j = i")
      case True
      have "nodes ((heap s)(p := None)) (nnext n) ys" using n(4) xs(3) Cons x by (simp add: nodes_frame)
      moreover have "dom ((heap s)(p := None)) = set (map fst ys)" using xs(3,4) Cons x by auto
      ultimately have "mq_rep (s\<lparr>id_first := nnext n, heap := (heap s)(p := None)\<rparr>) (remove1 i ids)"
        unfolding mq_rep_def using xs Cons x True by (intro exI [of _ ys]) auto
      moreover have "mq_verwaltung_remove i s = Some (Inr (logout_msgs i ids, s\<lparr>id_first := nnext n, heap := (heap s)(p := None)\<rparr>))"
        using n True xs(1) Cons x by (auto simp: mq_verwaltung_remove_def logout_msgs_def)
      ultimately show ?thesis by blast
    next
      case False
      have r: "mq_verwaltung_remove i s = remove_after i s p" using n False by (simp add: mq_verwaltung_remove_def)
      have ra: "nodes (heap s) (Some p) ((p, j) # ys)" "distinct (p # map fst ys)"
        using xs(2,3) Cons x n(1) by simp_all
      show ?thesis
      proof (cases "i \<in> set (map snd ys)")
        case False
        then have "i \<notin> snd ` set ys" by simp
        with remove_after_none [OF ra(1)] r have "mq_verwaltung_remove i s = Some (Inr ([], s))" by simp
        moreover have ni: "i \<notin> set ids" using False xs(1) Cons x \<open>j \<noteq> i\<close> by auto
        moreover have "logout_msgs i ids = []" using ni by (cases ids) (auto simp: logout_msgs_def)
        ultimately show ?thesis using assms remove1_idem [OF ni] by simp
      next
        case True
        then obtain us1 vs1 where sp: "map snd ys = us1 @ i # vs1" "i \<notin> set us1" by (meson split_list_first)
        then obtain us b vs where ys: "ys = us @ (b, i) # vs" "us1 = map snd us"
          by (auto simp: map_eq_append_conv map_eq_Cons_conv)
        with sp(2) have ni: "i \<notin> snd ` set us" by simp
        obtain us' a k where la: "(p, j) # us = us' @ [(a, k)]" by (cases "(p, j) # us" rule: rev_cases) auto
        from remove_after_found [OF ra(1) [unfolded ys(1)] ni] la obtain n' t where
          w: "heap s a = Some n'" "heap s b = Some t"
            "remove_after i s p = Some (Inr ([Out (''User '' @ show_int i @ '' hat sich ausgeloggt\<newline>'')],
              s\<lparr>heap := (heap s)(a \<mapsto> n'\<lparr>nnext := nnext t\<rparr>, b := None)\<rparr>))" by auto
        define h where "h = (heap s)(a \<mapsto> n'\<lparr>nnext := nnext t\<rparr>, b := None)"
        have xs': "xs = us' @ [(a, k), (b, i)] @ vs"
        proof -
          have "xs = ((p, j) # us) @ (b, i) # vs" using Cons x ys(1) by simp
          then show ?thesis unfolding la by simp
        qed
        have ni': "i \<notin> snd ` set (us' @ [(a, k)])" using ni False unfolding la [symmetric] by auto
        have xs2: "xs = us' @ (a, k) # (b, i) # vs" using xs' by (simp only: append_Cons append_Nil)
        have ab: "a \<noteq> b" using xs(3) xs2 by auto
        have "nodes h (id_first s) (us' @ (a, k) # vs)"
          by (rule nodes_unlink [OF xs(2) [unfolded xs2] xs(3) [unfolded xs2] w(1,2)]) (use ab in \<open>auto simp: h_def\<close>)
        then have "nodes h (id_first s) (us' @ [(a, k)] @ vs)" by (simp only: append_Cons append_Nil)
        moreover have "dom h = set (map fst (us' @ [(a, k)] @ vs))"
          using xs(3,4) xs' w(1) by (auto simp: h_def)
        moreover have "map snd (us' @ [(a, k)] @ vs) = remove1 i ids"
        proof -
          have "ids = map snd (us' @ [(a, k)]) @ i # map snd vs" using xs(1) xs' by simp
          with ni' show ?thesis by (simp add: remove1_append)
        qed
        moreover have "distinct (map fst (us' @ [(a, k)] @ vs))" using xs(3) unfolding xs' by auto
        moreover have "\<forall>x \<in> dom h. x < brk s" using xs(5) w(1) by (auto simp: h_def)
        ultimately have "mq_rep (s\<lparr>heap := h\<rparr>) (remove1 i ids)"
          using xs(6) by (intro mq_repI [of "us' @ [(a, k)] @ vs"]) simp_all
        moreover have "logout_msgs i ids = [Out (''User '' @ show_int i @ '' hat sich ausgeloggt\<newline>'')]"
        proof -
          have "ids = j # map snd ys" "i \<in> set ids" using xs(1) [symmetric] Cons x True by simp_all
          with False show ?thesis by (simp add: logout_msgs_def)
        qed
        moreover have "mq_verwaltung_remove i s = Some (Inr ([Out (''User '' @ show_int i @ '' hat sich ausgeloggt\<newline>'')], s\<lparr>heap := h\<rparr>))"
          using r w(3) unfolding h_def by (rule trans)
        ultimately show ?thesis by (intro exI [of _ "s\<lparr>heap := h\<rparr>"]) simp
      qed
    qed
  qed
qed

lemma verteilen_nodes:
  "nodes h p xs \<Longrightarrow> verteilen_loop h p prio str qs out =
     Some (Inr (map_prod (\<lambda>says. out @ says) id (spread (map snd xs) prio str qs)))"
proof (induction xs arbitrary: p qs out)
  case Nil
  then show ?case by (simp add: verteilen_loop.simps)
next
  case (Cons x xs)
  obtain a i where x: "x = (a, i)" by (cases x)
  from Cons.prems x obtain n where n: "p = Some a" "h a = Some n" "nid n = i" "nodes h (nnext n) xs"
    by (auto split: option.splits)
  obtain res qs1 where m: "msgsnd qs i prio str = (res, qs1)" by (cases "msgsnd qs i prio str")
  obtain says qs2 where sp: "spread (map snd xs) prio str qs1 = (says, qs2)" by (cases "spread (map snd xs) prio str qs1")
  from Cons.IH [OF n(4), of qs1 "out @ [deliver_msg res i]"] n m sp x show ?case
    by (simp add: verteilen_loop.simps [of h "Some a"])
qed

interpretation mq: registry mq_verwaltung_add mq_verwaltung_remove verteilen mq_rep
proof (unfold_locales, goal_cases)
  case (1 s ids i)
  then show ?case by (rule mq_add_rep)
next
  case (2 s ids i)
  then show ?case by (rule mq_rem_rep)
next
  case (3 s ids str p qs)
  then obtain xs where "map snd xs = ids" "nodes (heap s) (id_first s) xs" by (auto simp: mq_rep_def)
  then show ?case by (cases "spread ids p str qs") (auto simp: verteilen_def verteilen_nodes)
qed

section \<open>Properties\<close>

text \<open>What a client sends is what the server reads.\<close>

lemma scan_login_msg: "scan_login (show_int i @ '':Login'') client_id puffer = (conv_d i, ''Login'')"
proof -
  have "scan_int (show_int i @ '':Login'') = Some (conv_d i, '':Login'')"
    by (rule scan_int_show_int) (simp add: starts_digit_def is_digit_def)
  then show ?thesis by (simp add: scan_login_def is_space_def)
qed

text \<open>
  Bounds: the word that \<^verbatim>\<open>%s\<close> stores is no longer than the message, and a client's messages fit
  with room to spare, so neither \<^verbatim>\<open>puffer\<close> nor the array \<^verbatim>\<open>verteilen\<close> copies it to (\<^verbatim>\<open>MSG_LEN\<close> characters
  each) overflows for messages of less than \<^verbatim>\<open>MSG_LEN\<close> characters.
\<close>

lemma scan_int_length: "scan_int s = Some (i, r) \<Longrightarrow> length r \<le> length s"
proof -
  assume "scan_int s = Some (i, r)"
  then obtain u v where "suffix (u :: string) (dropWhile is_space s)" "scan_unsigned u = Some (v, r)"
    by (auto simp: scan_int_def Let_def suffix_Cons split: list.splits if_splits)
  then show ?thesis
    using scan_unsigned_suffix [of u v r] suffix_dropWhile [of is_space s] by (meson suffix_length_le suffix_order.trans)
qed

lemma scan_login_bound:
  assumes "length msg < m" and "length puffer < m"
  shows "length (snd (scan_login msg client_id puffer)) < m"
proof (cases "scan_int msg")
  case None
  with assms show ?thesis by (simp add: scan_login_def)
next
  case (Some ir)
  obtain i r where ir: "ir = (i, r)" by (cases ir)
  have "length (takeWhile (\<lambda>c. \<not> is_space c) (dropWhile is_space (tl r))) \<le> length r"
    using length_takeWhile_le [of "\<lambda>c. \<not> is_space c" "dropWhile is_space (tl r)"] length_dropWhile_le [of is_space "tl r"]
    by simp
  with Some ir scan_int_length [of msg i r] assms show ?thesis by (simp add: scan_login_def Let_def)
qed

lemma show_nat_bound: "n < 10 ^ k \<Longrightarrow> 0 < k \<Longrightarrow> length (show_nat n) \<le> k"
proof (induction k arbitrary: n)
  case 0
  then show ?case by simp
next
  case (Suc k)
  show ?case
  proof (cases "n < 10")
    case True
    then show ?thesis by (simp add: show_nat.simps [of n])
  next
    case False
    then have "0 < k" using Suc.prems by (cases k) auto
    with Suc.IH [of "n div 10"] Suc.prems False show ?thesis
      by (simp add: show_nat.simps [of n] less_mult_imp_div_less mult.commute)
  qed
qed

lemma client_messages_fit:
  assumes "- (2 ^ 31) \<le> i" and "i < 2 ^ 31"
  shows "length (show_int i @ '':Login'') < 1024"
proof -
  have "nat i < 10 ^ 10" "nat (- i) < 10 ^ 10" using assms by simp_all
  with show_nat_bound [of "nat i" 10] show_nat_bound [of "nat (- i)" 10] show ?thesis by (auto simp: show_int_def)
qed

lemma scan_logout_msg: "scan_logout (show_int i) client_id = conv_d i"
  using scan_int_show_int [of "[]" i] by (simp add: scan_logout_def starts_digit_def)

text \<open>
  C5: the server refines its specification: started with an empty list and with memory
  available, it returns for every sequence of messages, and its final list of clients, all
  queues and everything it prints are what \<open>chat_spec\<close> computes on plain lists; no pointer
  it follows is null or dangling.
\<close>

theorem msq_server_refines:
  assumes "set al \<subseteq> {True}" and "0 \<le> get_res"
    and "chat_spec msgs client_id puffer [] qs [Out (''Server l'' @ [CHR 0xC3, CHR 0xA4] @ ''uft ...\<newline>'')] = (c, ids, qs', out)"
  shows "\<exists>s. msq_server_main get_res al msgs client_id puffer qs = Some (Inr (c, s, qs', out)) \<and> mq_rep s ids"
proof -
  have "mq_rep (mq0 al) []" using assms(1) by (intro mq_repI [of "[]"]) (simp_all add: mq0_def)
  from mq.loop_refines [OF this assms(3)] assms(2) show ?thesis
    by (simp add: msq_server_main_def setup_server_def)
qed

theorem msq_server_refines_witness:
  "\<exists>s qs' out. msq_server_main 0 [] [Some (2, show_int 5 @ '':Login''), Some (1, show_int 5)] 0 [] [5 \<mapsto> []] =
     Some (Inr (None, s, qs', out)) \<and> mq_rep s []"
proof -
  obtain says q where "spread [5] 5 ''Login'' [5 \<mapsto> []] = (says, q)" by (cases "spread [5] 5 ''Login'' [5 \<mapsto> []]")
  then have "chat_spec [Some (2, show_int 5 @ '':Login''), Some (1, show_int 5)] 0 [] [] [5 \<mapsto> []]
      [Out (''Server l'' @ [CHR 0xC3, CHR 0xA4] @ ''uft ...\<newline>'')] =
    (None, [], q, [Out (''Server l'' @ [CHR 0xC3, CHR 0xA4] @ ''uft ...\<newline>'')] @ says @ logout_msgs 5 [5])"
    by (simp add: scan_login_msg scan_logout_msg del: spread.simps)
  from msq_server_refines [OF _ _ this, of "[]" 0] show ?thesis by auto
qed

lemma msgsnd_others: "q \<noteq> i \<Longrightarrow> snd (msgsnd qs i p str) q = qs q"
  by (simp add: msgsnd_def split: option.splits)

lemma spread_others: "q \<notin> set ids \<Longrightarrow> snd (spread ids p str qs) q = qs q"
proof (induction ids arbitrary: qs)
  case Nil
  then show ?case by simp
next
  case (Cons i ids)
  obtain res qs1 where m: "msgsnd qs i p str = (res, qs1)" by (cases "msgsnd qs i p str")
  obtain says qs2 where sp: "spread ids p str qs1 = (says, qs2)" by (cases "spread ids p str qs1")
  from Cons.IH [of qs1] Cons.prems msgsnd_others [of q i qs p str] m sp show ?case by simp
qed

lemma spread_delivers:
  "distinct ids \<Longrightarrow> 0 < p \<Longrightarrow> q \<in> set ids \<Longrightarrow> qs q = Some ms \<Longrightarrow>
     snd (spread ids p str qs) q = Some (ms @ [(p, str)])"
proof (induction ids arbitrary: qs)
  case Nil
  then show ?case by simp
next
  case (Cons i ids)
  obtain res qs1 where m: "msgsnd qs i p str = (res, qs1)" by (cases "msgsnd qs i p str")
  have e: "snd (spread (i # ids) p str qs) = snd (spread ids p str qs1)" using m by (simp split: prod.splits)
  show ?case
  proof (cases "q = i")
    case True
    with m Cons.prems have "qs1 q = Some (ms @ [(p, str)])" by (auto simp: msgsnd_def)
    with e Cons.prems True spread_others [of q ids p str qs1] show ?thesis by simp
  next
    case False
    with m Cons.prems have "qs1 q = Some ms" by (auto simp: msgsnd_def split: option.splits if_splits)
    with Cons.IH [of qs1] Cons.prems False e show ?thesis by simp
  qed
qed

text \<open>
  A login reaches everybody: when the login message of a client arrives, its identifier
  joins the list, and every client of the list, the new one included, finds the
  announcement with that identifier at the end of its queue.
\<close>

theorem login_reaches_all:
  assumes "mq_rep s ids" and "distinct (ids @ [i])" and "0 < i" and "i < 2 ^ 31" and "\<forall>q \<in> set (ids @ [i]). qs q \<noteq> None"
  shows "\<exists>s' qs' out'. msq_loop mq_verwaltung_add mq_verwaltung_remove verteilen [Some (2, show_int i @ '':Login'')]
      client_id puffer s qs out = Some (Inr (None, s', qs', out')) \<and> mq_rep s' (ids @ [i]) \<and>
    (\<forall>q \<in> set (ids @ [i]). qs' q = Some (the (qs q) @ [(i, ''Login'')]))"
proof -
  obtain says qs' where sp: "spread (ids @ [i]) i ''Login'' qs = (says, qs')" by (cases "spread (ids @ [i]) i ''Login'' qs")
  have "qs' q = Some (the (qs q) @ [(i, ''Login'')])" if "q \<in> set (ids @ [i])" for q
    using spread_delivers [OF assms(2,3) that, of qs "the (qs q)" "''Login''"] assms(5) that sp by auto
  moreover have "chat_spec [Some (2, show_int i @ '':Login'')] client_id puffer ids qs out = (None, ids @ [i], qs', out @ says)"
    using sp scan_login_msg [of i client_id puffer] assms(3,4) by simp
  ultimately show ?thesis using mq.loop_refines [OF assms(1)] by blast
qed

theorem login_reaches_all_witness:
  "\<exists>s' qs' out'. msq_loop mq_verwaltung_add mq_verwaltung_remove verteilen [Some (2, show_int 7 @ '':Login'')]
      0 [] (mq0 []) [7 \<mapsto> []] [] = Some (Inr (None, s', qs', out')) \<and> mq_rep s' ([] @ [7]) \<and>
    (\<forall>q \<in> set ([] @ [7]). qs' q = Some (the ([7 \<mapsto> []] q) @ [(7, ''Login'')]))"
proof -
  have "mq_rep (mq0 []) []" by (intro mq_repI [of "[]"]) (simp_all add: mq0_def)
  from login_reaches_all [OF this, of 7 "[7 \<mapsto> []]" 0 "[]" "[]"] show ?thesis by simp
qed

text \<open>
  The protocol of a client: if it succeeds, it has put exactly its login and its logout
  message into the server's queue, its own queue is gone, and a server that processes the
  two messages has the same clients afterwards as before.
\<close>

lemma client_rounds_others: "q \<noteq> c \<Longrightarrow> fst (client_rounds c rounds qs out) q = qs q"
  by (induction c rounds qs out rule: client_rounds.induct)
    (auto simp: msgrcv_def split: prod.splits option.splits list.splits)

theorem client_session:
  assumes "qs server = Some ms" and "0 \<le> server" and "0 \<le> client" and "client \<noteq> server"
    and "mq_rep s ids" and "client \<notin> set ids" and "client < 2 ^ 31"
  shows "\<exists>qs' out. msq_client_main server client (Some first) rounds qs = (EXIT_SUCCESS, qs', out) \<and>
      qs' server = Some (ms @ [(2, show_int client @ '':Login''), (1, show_int client)]) \<and> qs' client = None \<and>
      (\<exists>s' qs2 out2. msq_loop mq_verwaltung_add mq_verwaltung_remove verteilen
         [Some (2, show_int client @ '':Login''), Some (1, show_int client)] cid puffer s qs1 [] =
         Some (Inr (None, s', qs2, out2)) \<and> mq_rep s' ids)"
proof -
  obtain prio msg where first: "first = (prio, msg)" by (cases first)
  define qsa where "qsa = qs(client \<mapsto> [], server \<mapsto> ms @ [(2, show_int client @ '':Login'')])"
  have a: "msgsnd (qs(client \<mapsto> [])) server 2 (show_int client @ '':Login'') = (0, qsa)"
    using assms(1,4) by (simp add: msgsnd_def qsa_def)
  obtain qsb out where b: "client_rounds client rounds qsa [Out (show_int prio @ '': '' @ msg @ ''\<newline>'')] = (qsb, out)"
    by (cases "client_rounds client rounds qsa [Out (show_int prio @ '': '' @ msg @ ''\<newline>'')]")
  have "qsb server = qsa server" using client_rounds_others [of server client rounds qsa] b assms(4) by (metis fst_conv)
  then have c: "msgsnd qsb server 1 (show_int client) =
      (0, qsb(server \<mapsto> ms @ [(2, show_int client @ '':Login''), (1, show_int client)]))"
    by (simp add: msgsnd_def qsa_def)
  have cl: "msq_client_main server client (Some first) rounds qs = (EXIT_SUCCESS,
      (qsb(server \<mapsto> ms @ [(2, show_int client @ '':Login''), (1, show_int client)]))(client := None), out)"
    using a b c assms(2,3) first by (simp add: msq_client_main_def setup_client_def Let_def)
  obtain says qs2 where sp: "spread (ids @ [client]) client ''Login'' qs1 = (says, qs2)"
    by (cases "spread (ids @ [client]) client ''Login'' qs1")
  have "chat_spec [Some (2, show_int client @ '':Login''), Some (1, show_int client)] cid puffer ids qs1 [] =
      (None, remove1 client (ids @ [client]), qs2, says @ logout_msgs client (ids @ [client]))"
    using sp assms(3,7) by (simp add: scan_login_msg scan_logout_msg)
  moreover have "remove1 client (ids @ [client]) = ids" using assms(6) by (simp add: remove1_append)
  ultimately show ?thesis using cl mq.loop_refines [OF assms(5)] assms(4) by fastforce
qed

theorem client_session_witness:
  "\<exists>qs' out. msq_client_main 3 7 (Some (7, ''Login'')) [[(9, ''Login'')]] [3 \<mapsto> []] = (EXIT_SUCCESS, qs', out) \<and>
     qs' 3 = Some [(2, show_int 7 @ '':Login''), (1, show_int 7)]"
proof -
  have "mq_rep (mq0 []) []" by (intro mq_repI [of "[]"]) (simp_all add: mq0_def)
  from client_session [OF _ _ _ _ this, of "[3 \<mapsto> []]" 3 "[]" 7 "(7, ''Login'')" "[[(9, ''Login'')]]" 0 "[]" "[3 \<mapsto> []]"]
  show ?thesis by auto
qed

text \<open>
  The second and every later client is stored through an untested \<^verbatim>\<open>malloc\<close>: when it
  fails, the server uses a null pointer.
\<close>

theorem second_malloc_unchecked:
  "msq_loop mq_verwaltung_add mq_verwaltung_remove verteilen
     [Some (2, show_int i @ '':Login''), Some (2, show_int j @ '':Login'')] c p (mq0 [True, False]) qs out =
     Some (Inl NullDeref)"
proof -
  have v: "\<exists>r. verteilen ''Login'' (conv_d i) s1 qs = Some (Inr r)"
    if "s1 = \<lparr>heap = [0 \<mapsto> \<lparr>nid = conv_d i, nnext = None\<rparr>], id_first = Some 0, brk = 1, allocs = [False]\<rparr>" for s1
    using that verteilen_nodes [of "heap s1" "Some 0" "[(0, conv_d i)]" "conv_d i" "''Login''" qs "[]"] by (simp add: verteilen_def)
  show ?thesis
    using v by (auto simp: scan_login_msg mq_verwaltung_add_def malloc_def mq0_def last_node.simps split: prod.splits)
qed

end
