(* ===== verification/Interleave.thy ===== *)
theory Interleave
  imports Prelude
begin

text \<open>
  Systems of processes or threads that share state. A system is a function \<open>act\<close>: \<open>act a s\<close> is
  the state after the step \<open>a\<close> (of one process), or \<open>None\<close> when that step has to wait. The
  theory has the runs of such a system and the locales in which its invariants, mutual
  exclusion, termination and refinement are proved once; the theories of the concurrent
  programs interpret them.
\<close>

section \<open>Runs\<close>

inductive reach :: "('a \<Rightarrow> 's \<Rightarrow> 's option) \<Rightarrow> 's \<Rightarrow> 's \<Rightarrow> bool" for act s0 where
  reach_refl [intro]: "reach act s0 s0"
| reach_step: "reach act s0 s \<Longrightarrow> act a s = Some s' \<Longrightarrow> reach act s0 s'"

inductive_cases reach_lastE: "reach act s0 s"

text \<open>The steps of a list one after the other; \<open>None\<close> when one of them has to wait.\<close>

fun run :: "('a \<Rightarrow> 's \<Rightarrow> 's option) \<Rightarrow> 'a list \<Rightarrow> 's \<Rightarrow> 's option" where
  "run act [] s = Some s"
| "run act (a # as) s = Option.bind (act a s) (run act as)"

lemma reach_trans: "reach act s1 s2 \<Longrightarrow> reach act s0 s1 \<Longrightarrow> reach act s0 s2"
  by (induction rule: reach.induct) (auto intro: reach_step)

lemma run_reach: "run act as s = Some s' \<Longrightarrow> reach act s s'"
proof (induction as arbitrary: s)
  case (Cons a as)
  then obtain t where "act a s = Some t" "run act as t = Some s'" by (cases "act a s") auto
  with Cons.IH show ?case using reach_trans reach_step [OF reach_refl] by metis
qed auto

lemma run_append: "run act (as @ bs) s = Option.bind (run act as s) (run act bs)"
  by (induction as arbitrary: s) (auto split: Option.bind_splits)

lemma reach_run: "reach act s s' \<Longrightarrow> \<exists>as. run act as s = Some s'"
proof (induction rule: reach.induct)
  case reach_refl
  show ?case by (rule exI [of _ "[]"]) simp
next
  case (reach_step s' a s'')
  then obtain as where "run act as s = Some s'" by blast
  with reach_step.hyps(2) have "run act (as @ [a]) s = Some s''" by (simp add: run_append)
  then show ?case ..
qed

text \<open>A schedule can be run and ends in a state with the property \<open>P\<close>.\<close>

definition leads :: "('a \<Rightarrow> 's \<Rightarrow> 's option) \<Rightarrow> 'a list \<Rightarrow> 's \<Rightarrow> ('s \<Rightarrow> bool) \<Rightarrow> bool" where
  "leads act as s P \<longleftrightarrow> (case run act as s of None \<Rightarrow> False | Some s' \<Rightarrow> P s')"

section \<open>Invariants\<close>

text \<open>
  \<open>ok\<close> says that nothing has happened yet that the program does not guard against (a killed
  process, a counter at its limit); it can only get lost. Under \<open>ok\<close> the invariant holds.
\<close>

locale guarded_protocol =
  fixes act :: "'a \<Rightarrow> 's \<Rightarrow> 's option"
    and init :: "'s \<Rightarrow> bool"
    and ok :: "'s \<Rightarrow> bool"
    and inv :: "'s \<Rightarrow> bool"
  assumes init_inv: "init s \<Longrightarrow> inv s"
    and ok_back: "act a s = Some s' \<Longrightarrow> ok s' \<Longrightarrow> ok s"
    and step_inv: "inv s \<Longrightarrow> act a s = Some s' \<Longrightarrow> ok s' \<Longrightarrow> inv s'"
begin

lemma reach_inv: "reach act s0 s \<Longrightarrow> init s0 \<Longrightarrow> ok s \<Longrightarrow> inv s"
  by (induction rule: reach.induct) (auto intro: init_inv step_inv ok_back)

end

text \<open>An invariant that survives every step.\<close>

locale protocol =
  fixes act :: "'a \<Rightarrow> 's \<Rightarrow> 's option"
    and init :: "'s \<Rightarrow> bool"
    and inv :: "'s \<Rightarrow> bool"
  assumes inv_init: "init s \<Longrightarrow> inv s"
    and inv_step: "inv s \<Longrightarrow> act a s = Some s' \<Longrightarrow> inv s'"

sublocale protocol \<subseteq> guarded: guarded_protocol act init "\<lambda>_. True" inv
  by unfold_locales (auto intro: inv_init inv_step)

context protocol begin

lemma always: "reach act s0 s \<Longrightarrow> init s0 \<Longrightarrow> inv s"
  using guarded.reach_inv by blast

end

section \<open>Mutual exclusion\<close>

text \<open>\<open>inside s\<close> is the number of processes in their critical section.\<close>

locale mutual_exclusion = guarded_protocol +
  fixes inside :: "'b \<Rightarrow> nat"
  assumes inside_le: "inv s \<Longrightarrow> inside s \<le> 1"
begin

lemma one_inside: "reach act s0 s \<Longrightarrow> init s0 \<Longrightarrow> ok s \<Longrightarrow> inside s \<le> 1"
  by (intro inside_le reach_inv)

end

section \<open>Termination\<close>

text \<open>
  A system that comes to rest: every step lowers a measure, but for the steps that the
  environment adds (waking up for no reason, trying again), which may raise it by \<open>extra\<close>; the
  states without another step are the final ones. A run is then at most as long as the measure
  allows together with these steps, and every state can be run to a final one.
\<close>

locale bounded_protocol = protocol +
  fixes size_of :: "'b \<Rightarrow> nat"
    and final :: "'b \<Rightarrow> bool"
    and extra :: "'a \<Rightarrow> nat"
  assumes paid: "inv s \<Longrightarrow> act a s = Some s' \<Longrightarrow> Suc (size_of s') \<le> size_of s + extra a"
    and advance: "inv s \<Longrightarrow> \<not> final s \<Longrightarrow> \<exists>a s'. act a s = Some s' \<and> extra a = 0"
begin

lemma run_keeps: "inv s \<Longrightarrow> run act as s = Some s' \<Longrightarrow> inv s'"
proof (induction as arbitrary: s)
  case (Cons a as)
  then obtain t where "act a s = Some t" "run act as t = Some s'" by (cases "act a s") auto
  with Cons inv_step show ?case by blast
qed simp

lemma run_paid: "inv s \<Longrightarrow> run act as s = Some s' \<Longrightarrow> size_of s' + length as \<le> size_of s + sum_list (map extra as)"
proof (induction as arbitrary: s)
  case (Cons a as)
  then obtain t where t: "act a s = Some t" "run act as t = Some s'" by (cases "act a s") auto
  from Cons.IH [OF inv_step [OF Cons.prems(1) t(1)] t(2)] paid [OF Cons.prems(1) t(1)] show ?case by simp
qed simp

lemma finish: "inv s \<Longrightarrow> \<exists>as s'. run act as s = Some s' \<and> final s'"
proof (induction "size_of s" arbitrary: s rule: less_induct)
  case less
  show ?case
  proof (cases "final s")
    case True
    then show ?thesis by (intro exI [of _ "[]"] exI [of _ s]) simp
  next
    case False
    with advance less.prems obtain a t where t: "act a s = Some t" "extra a = 0" by blast
    from less.hyps [OF _ inv_step [OF less.prems t(1)]] paid [OF less.prems t(1)] t(2) obtain as s'
      where "run act as t = Some s'" "final s'" by auto
    with t show ?thesis by (intro exI [of _ "a # as"] exI [of _ s']) simp
  qed
qed

text \<open>A run that can be continued only by the environment's steps has come to a final state.\<close>

lemma stuck: "inv s \<Longrightarrow> run act as s = Some s' \<Longrightarrow> (\<And>a. extra a = 0 \<Longrightarrow> act a s' = None) \<Longrightarrow> final s'"
  using advance [OF run_keeps] by fastforce

end

text \<open>The systems without such steps.\<close>

locale terminating_protocol = protocol +
  fixes size_of :: "'b \<Rightarrow> nat"
    and final :: "'b \<Rightarrow> bool"
  assumes decreases: "inv s \<Longrightarrow> act a s = Some s' \<Longrightarrow> size_of s' < size_of s"
    and progress: "inv s \<Longrightarrow> \<not> final s \<Longrightarrow> \<exists>a s'. act a s = Some s'"

sublocale terminating_protocol \<subseteq> bounded: bounded_protocol act init inv size_of final "\<lambda>_. 0"
  by unfold_locales (use decreases progress in \<open>auto simp: Suc_le_eq\<close>)

context terminating_protocol begin

lemma run_bound: "inv s \<Longrightarrow> run act as s = Some s' \<Longrightarrow> size_of s' + length as \<le> size_of s"
  using bounded.run_paid [of s as s'] by (simp add: sum_list_0)

lemma can_finish: "inv s \<Longrightarrow> \<exists>as s'. run act as s = Some s' \<and> final s'"
  by (rule bounded.finish)

lemma stuck_final: "inv s \<Longrightarrow> run act as s = Some s' \<Longrightarrow> (\<And>a. act a s' = None) \<Longrightarrow> final s'"
  using bounded.stuck by blast

end

section \<open>Refinement\<close>

text \<open>
  \<open>lab a s\<close> are the events that the step \<open>a\<close> in the state \<open>s\<close> shows to the outside, and the
  trace of a schedule is what it shows in all.
\<close>

fun trace :: "('a \<Rightarrow> 's \<Rightarrow> 'l list) \<Rightarrow> ('a \<Rightarrow> 's \<Rightarrow> 's option) \<Rightarrow> 'a list \<Rightarrow> 's \<Rightarrow> 'l list" where
  "trace lab act [] s = []"
| "trace lab act (a # as) s = lab a s @ (case act a s of None \<Rightarrow> [] | Some s' \<Rightarrow> trace lab act as s')"

text \<open>
  \<open>view\<close> maps the states of the program to those of a specification, whose steps are the events:
  the specification can do what every step of the program shows, and arrives at the view of the
  next state. So each trace of the program is a run of the specification.
\<close>

locale refinement_mapping = guarded_protocol +
  fixes lab :: "'a \<Rightarrow> 'b \<Rightarrow> 'c list"
    and spec :: "'c \<Rightarrow> 'd \<Rightarrow> 'd option"
    and view :: "'b \<Rightarrow> 'd"
  assumes view_step: "inv s \<Longrightarrow> act a s = Some s' \<Longrightarrow> ok s' \<Longrightarrow> run spec (lab a s) (view s) = Some (view s')"
begin

lemma run_ok: "run act as s = Some s' \<Longrightarrow> ok s' \<Longrightarrow> ok s"
  by (induction as arbitrary: s) (auto split: Option.bind_splits dest: ok_back)

lemma trace_run:
  assumes "inv s" and "run act as s = Some s'" and "ok s'"
  shows "run spec (trace lab act as s) (view s) = Some (view s')"
  using assms(1,2)
proof (induction as arbitrary: s)
  case (Cons a as)
  then obtain t where t: "act a s = Some t" "run act as t = Some s'" by (cases "act a s") auto
  have ok: "ok t" by (rule run_ok [OF t(2) assms(3)])
  from view_step [OF Cons.prems(1) t(1) ok] Cons.IH [OF step_inv [OF Cons.prems(1) t(1) ok] t(2)] t(1)
  show ?case by (simp add: run_append)
qed simp

end

section \<open>Lists of processes\<close>

lemma sum_list_update_at:
  fixes f :: "'a \<Rightarrow> int"
  shows "i < length xs \<Longrightarrow> sum_list (map f (xs[i := x])) = sum_list (map f xs) - f (xs ! i) + f x"
proof (induction xs arbitrary: i)
  case (Cons y ys)
  then show ?case by (cases i) auto
qed simp

lemma sum_list_at_le:
  fixes f :: "'a \<Rightarrow> int"
  assumes "\<And>x. x \<in> set xs \<Longrightarrow> 0 \<le> f x" and "i < length xs"
  shows "f (xs ! i) \<le> sum_list (map f xs)"
  using assms
proof (induction xs arbitrary: i)
  case (Cons y ys)
  have s: "0 \<le> sum_list (map f ys)" by (rule sum_list_nonneg) (use Cons.prems(1) in auto)
  show ?case
  proof (cases i)
    case 0
    with s show ?thesis by simp
  next
    case (Suc j)
    then have "f (ys ! j) \<le> sum_list (map f ys)" using Cons.prems by (intro Cons.IH) auto
    moreover have "0 \<le> f y" using Cons.prems(1) by simp
    ultimately show ?thesis using Suc by simp
  qed
qed simp

lemma set_update_subset: "x \<in> set (xs[i := y]) \<Longrightarrow> x = y \<or> x \<in> set xs"
  using set_update_subset_insert [of xs i y] by auto

lemma update_eq_update [simp]: "i < length xs \<Longrightarrow> xs[i := x] = xs[i := y] \<longleftrightarrow> x = y"
  by (metis nth_list_update_eq)

end
