(* ===== verification/SharedMem.thy ===== *)
theory SharedMem
  imports Interleave CString
begin

text \<open>
  The shared-memory programs of \<^verbatim>\<open>src/09_IPC\<close>: \<^verbatim>\<open>shm_header.h\<close>, \<^verbatim>\<open>shm_server.c\<close> and
  \<^verbatim>\<open>shm_client.c\<close>, one server and any number of clients with one buffer between them and two
  System V semaphores. A step is one
  system call or one access to the buffer; the processes are interleaved freely. Every
  semaphore operation is done with \<^verbatim>\<open>SEM_UNDO\<close>: the kernel keeps an adjustment per process and
  semaphore and adds it when the process ends.
\<close>

section \<open>Semaphores\<close>

abbreviation (input) SEMVMX :: int where "SEMVMX \<equiv> 32767"
abbreviation (input) SEMAEM :: int where "SEMAEM \<equiv> 32767"

text \<open>
  \<^verbatim>\<open>semop\<close> with one operation \<open>d\<close> and \<^verbatim>\<open>SEM_UNDO\<close> on a semaphore with value \<open>v\<close> by a process with
  adjustment \<open>u\<close>. It blocks, fails (a counter at its limit), or gives the new values.
\<close>

datatype sem_result = Blocked | Failed | Done int int

definition semop :: "int \<Rightarrow> int \<Rightarrow> int \<Rightarrow> sem_result" where
  "semop d v u =
     (if v + d < 0 then Blocked
      else if SEMVMX < v + d \<or> SEMAEM < u - d \<or> u - d < - SEMAEM - 1 then Failed
      else Done (v + d) (u - d))"

text \<open>The value after the adjustment of a process that ends.\<close>

definition sem_undo :: "int \<Rightarrow> int \<Rightarrow> int" where
  "sem_undo v u = max 0 (min SEMVMX (v + u))"

text \<open>
  \<^verbatim>\<open>safesemop\<close> with the operation \<open>d\<close>: \<open>None\<close> while the process has to wait; a failure is printed
  and otherwise ignored. \<open>alive\<close>: the semaphores have not been removed.
\<close>

definition safesemop :: "bool \<Rightarrow> int \<Rightarrow> int \<Rightarrow> int \<Rightarrow> int \<Rightarrow> (int \<times> int \<times> say list) option" where
  "safesemop alive semid d v u =
     (case (if alive then semop d v u else Failed) of
        Blocked \<Rightarrow> None
      | Failed \<Rightarrow> Some (v, u, [Out (''Fehler: Semaphor mit ID '' @ show_int semid @ '', (1 Operation)\<newline>'')])
      | Done v' u' \<Rightarrow> Some (v', u', []))"

definition locksem :: "bool \<Rightarrow> int \<Rightarrow> int \<Rightarrow> int \<Rightarrow> (int \<times> int \<times> say list) option" where
  "locksem alive semid v u = safesemop alive semid (-1) v u"

definition unlocksem :: "bool \<Rightarrow> int \<Rightarrow> int \<Rightarrow> int \<Rightarrow> (int \<times> int \<times> say list) option" where
  "unlocksem alive semid v u = safesemop alive semid 1 v u"

lemma locksem_ok:
  "0 \<le> u \<Longrightarrow> u < SEMAEM \<Longrightarrow> v \<le> SEMVMX \<Longrightarrow>
     locksem True sid v u = (if v < 1 then None else Some (v - 1, u + 1, []))"
  by (simp add: locksem_def safesemop_def semop_def)

lemma unlocksem_ok:
  "- SEMAEM \<le> u \<Longrightarrow> u \<le> 0 \<Longrightarrow> 0 \<le> v \<Longrightarrow> v < SEMVMX \<Longrightarrow> unlocksem True sid v u = Some (v + 1, u - 1, [])"
  by (simp add: unlocksem_def safesemop_def semop_def)

section \<open>Server and clients\<close>

text \<open>
  Where a client is: in the menu, before \<^verbatim>\<open>locksem\<close>, before \<^verbatim>\<open>fgets\<close> into the buffer, before
  \<^verbatim>\<open>unlocksem\<close>, ended. The server: before \<^verbatim>\<open>locksem\<close>, before printing the buffer, before \<^verbatim>\<open>unlocksem\<close>,
  ended.
\<close>

datatype client_pc = CMenu | CWait | CWrite | CPost | CGone
datatype server_pc = SWait | SGot | SPost | SGone

record shm_client =
  cpc :: client_pc
  cstdin :: string
  cinput :: char
  cundo_empty :: int
  cundo_full :: int
  cout :: "say list"

text \<open>
  The shared memory: the segment's buffer, the semaphores \<^verbatim>\<open>SN_EMPTY\<close> and \<^verbatim>\<open>SN_FULL\<close>, and the
  processes. \<open>sent\<close> and \<open>got\<close> record what has been put into the buffer and what the server
  has taken out of it; the program does not have them.
\<close>

record shm =
  semid :: int
  alive :: bool
  sn_empty :: int
  sn_full :: int
  buffer :: string
  spc :: server_pc
  sundo_empty :: int
  sundo_full :: int
  sout :: "say list"
  clients :: "shm_client list"
  sent :: "string list"
  got :: "string list"

abbreviation (input) BUFFERSIZE :: nat where "BUFFERSIZE \<equiv> 1020"

definition menu :: string where
  "menu = ''\<newline>\<newline>Menu\<newline>1. Eine Nachricht verschicken\<newline>2. Client-Ende\<newline>''"

text \<open>A client ends: its adjustments are added to the semaphores.\<close>

definition client_exit :: "nat \<Rightarrow> shm \<Rightarrow> shm" where
  "client_exit i s =
     (let c = clients s ! i in
      s\<lparr>sn_empty := sem_undo (sn_empty s) (cundo_empty c), sn_full := sem_undo (sn_full s) (cundo_full c),
        clients := (clients s)[i := c\<lparr>cpc := CGone\<rparr>]\<rparr>)"

text \<open>
  The menu reads with \<^verbatim>\<open>fgets(input, 3, stdin)\<close> and looks at \<^verbatim>\<open>input[0]\<close>; at the end of the input
  \<^verbatim>\<open>input\<close> keeps what it has, and so does the message buffer.
\<close>

definition read_input :: "shm_client \<Rightarrow> shm_client" where
  "read_input c =
     (case fgets 3 (cstdin c) of
        None \<Rightarrow> c\<lparr>cout := cout c @ [Out menu]\<rparr>
      | Some (l, r) \<Rightarrow> c\<lparr>cstdin := r, cinput := hd l, cout := cout c @ [Out menu]\<rparr>)"

text \<open>The next step of client \<open>i\<close>.\<close>

definition client_step :: "nat \<Rightarrow> shm \<Rightarrow> shm option" where
  "client_step i s =
     (if length (clients s) \<le> i then None
      else (let c = clients s ! i in
        case cpc c of
          CMenu \<Rightarrow>
            (let c' = read_input c in
             if cinput c' = CHR ''1'' then
               Some (s\<lparr>clients := (clients s)[i := c'\<lparr>cpc := CWait, cout := cout c' @ [Out ''Warte ...'']\<rparr>]\<rparr>)
             else if cinput c' = CHR ''2'' then
               Some (client_exit i (s\<lparr>clients := (clients s)[i := c']\<rparr>))
             else Some (s\<lparr>clients := (clients s)[i := c']\<rparr>))
        | CWait \<Rightarrow>
            (case locksem (alive s) (semid s) (sn_empty s) (cundo_empty c) of
               None \<Rightarrow> None
             | Some (v, u, says) \<Rightarrow>
                 Some (s\<lparr>sn_empty := v, clients := (clients s)[i := c\<lparr>cpc := CWrite, cundo_empty := u,
                   cout := cout c @ says @ [Out ''\<newline>... fertig\<newline>'', Out ''Eingabe machen: '']\<rparr>]\<rparr>))
        | CWrite \<Rightarrow>
            (let (text, rest) = (case fgets BUFFERSIZE (cstdin c) of
                   None \<Rightarrow> (buffer s, cstdin c) | Some (l, r) \<Rightarrow> (l, r)) in
             Some (s\<lparr>buffer := text, sent := sent s @ [text],
               clients := (clients s)[i := c\<lparr>cpc := CPost, cstdin := rest\<rparr>]\<rparr>))
        | CPost \<Rightarrow>
            (case unlocksem (alive s) (semid s) (sn_full s) (cundo_full c) of
               None \<Rightarrow> None
             | Some (v, u, says) \<Rightarrow>
                 Some (s\<lparr>sn_full := v, clients := (clients s)[i := c\<lparr>cpc := CMenu, cundo_full := u,
                   cout := cout c @ says\<rparr>]\<rparr>))
        | CGone \<Rightarrow> None))"

definition server_step :: "shm \<Rightarrow> shm option" where
  "server_step s =
     (case spc s of
        SWait \<Rightarrow>
          (case locksem (alive s) (semid s) (sn_full s) (sundo_full s) of
             None \<Rightarrow> None
           | Some (v, u, says) \<Rightarrow>
               Some (s\<lparr>sn_full := v, sundo_full := u, spc := SGot,
                 sout := sout s @ says @ [Out ''\<newline>... fertig.\<newline>'']\<rparr>))
      | SGot \<Rightarrow>
          Some (s\<lparr>spc := SPost, got := got s @ [buffer s],
            sout := sout s @ [Out (''Nachricht erhalten: '' @ buffer s @ ''\<newline>'')]\<rparr>)
      | SPost \<Rightarrow>
          (case unlocksem (alive s) (semid s) (sn_empty s) (sundo_empty s) of
             None \<Rightarrow> None
           | Some (v, u, says) \<Rightarrow>
               Some (s\<lparr>sn_empty := v, sundo_empty := u, spc := SWait,
                 sout := sout s @ says @ [Out ''Warte ...'']\<rparr>))
      | SGone \<Rightarrow> None)"

text \<open>\<^verbatim>\<open>delete\<close>, run at the exit of the server: the semaphores are removed.\<close>

definition shm_delete :: "shm \<Rightarrow> shm" where
  "shm_delete s = s\<lparr>alive := False, spc := SGone,
     sout := sout s @ [Out (''\<newline>Server wird beendet - Loesche Semaphor '' @ show_int (semid s) @ ''.\<newline>'')] @
       (if alive s then [] else [Out ''Fehler beim loeschen des Semaphors.\<newline>''])\<rparr>"

text \<open>
  The steps: of the server, of a client, \<^verbatim>\<open>SIGINT\<close> for the server (\<^verbatim>\<open>sigdelete\<close>), and the end of a
  client by a signal.
\<close>

datatype shm_action = Server | Client nat | Interrupt | Kill nat

fun shm_act :: "shm_action \<Rightarrow> shm \<Rightarrow> shm option" where
  "shm_act Server s = server_step s"
| "shm_act (Client i) s = client_step i s"
| "shm_act Interrupt s = (if spc s = SGone then None else Some (shm_delete s))"
| "shm_act (Kill i) s =
     (if i < length (clients s) \<and> cpc (clients s ! i) \<noteq> CGone then Some (client_exit i s) else None)"

text \<open>
  The state when the server has set everything up and each client has attached the segment:
  its \<^verbatim>\<open>stdin\<close>, and the uninitialised \<^verbatim>\<open>input[0]\<close>.
\<close>

definition attached :: "string \<times> char \<Rightarrow> shm_client" where
  "attached x = \<lparr>cpc = CMenu, cstdin = fst x, cinput = snd x, cundo_empty = 0, cundo_full = 0, cout = []\<rparr>"

definition shm_setup :: "int \<Rightarrow> int \<Rightarrow> (string \<times> char) list \<Rightarrow> shm" where
  "shm_setup sid shmid ins =
     \<lparr>semid = sid, alive = True, sn_empty = 1, sn_full = 0, buffer = [], spc = SWait, sundo_empty = 0, sundo_full = 0,
      sout = [Out (''Server laeuft mit Shared-Memory-ID '' @ show_int shmid @ ''\<newline>''), Out ''Warte ...''],
      clients = map attached ins, sent = [], got = []\<rparr>"

section \<open>The protocol\<close>

definition holds :: "shm_client \<Rightarrow> int" where
  "holds c = of_bool (cpc c = CWrite \<or> cpc c = CPost)"

definition posting :: "shm_client \<Rightarrow> int" where
  "posting c = of_bool (cpc c = CPost)"

definition server_holds :: "shm \<Rightarrow> int" where
  "server_holds s = of_bool (spc s = SGot \<or> spc s = SPost)"

text \<open>How many processes use the buffer, and how many messages it holds that are not taken out yet.\<close>

definition users :: "shm \<Rightarrow> int" where
  "users s = sum_list (map holds (clients s)) + server_holds s"

definition pending :: "shm \<Rightarrow> int" where
  "pending s = sn_full s + sum_list (map posting (clients s)) + of_bool (spc s = SGot)"

text \<open>
  The situations the protocol does not cover: the semaphores are removed, a client has ended,
  or so many messages have been sent that the adjustments reach their limit.
\<close>

definition calm :: "shm \<Rightarrow> bool" where
  "calm s \<longleftrightarrow> alive s \<and> (\<forall>c \<in> set (clients s). cpc c \<noteq> CGone) \<and> int (length (sent s)) < SEMAEM"

definition client_ok :: "int \<Rightarrow> shm_client \<Rightarrow> bool" where
  "client_ok n c \<longleftrightarrow> 0 \<le> cundo_empty c \<and> cundo_empty c \<le> n + of_bool (cpc c = CWrite) \<and>
     posting c - n \<le> cundo_full c \<and> cundo_full c \<le> 0"

text \<open>What has been sent is what the server has taken, and what is still in the buffer.\<close>

definition delivered :: "shm \<Rightarrow> bool" where
  "delivered s \<longleftrightarrow> sent s = got s @ replicate (nat (pending s)) (buffer s)"

definition shm_inv :: "shm \<Rightarrow> bool" where
  "shm_inv s \<longleftrightarrow> 0 \<le> sn_empty s \<and> 0 \<le> sn_full s \<and> sn_empty s + sn_full s + users s = 1 \<and>
     delivered s \<and> spc s \<noteq> SGone \<and> (spc s = SPost \<longrightarrow> got s \<noteq> []) \<and>
     sundo_full s = int (length (got s)) + of_bool (spc s = SGot) \<and>
     sundo_empty s = of_bool (spc s = SPost) - int (length (got s)) \<and>
     (\<forall>c \<in> set (clients s). client_ok (int (length (sent s))) c)"

lemma holds_nonneg [simp]: "0 \<le> holds c" "0 \<le> posting c" "posting c \<le> holds c"
  by (simp_all add: holds_def posting_def)

lemma users_nonneg: "0 \<le> users s"
proof -
  have "0 \<le> sum_list (map holds (clients s))" by (rule sum_list_nonneg) auto
  then show ?thesis by (simp add: users_def server_holds_def)
qed

lemma of_bool_nonneg: "of_bool P \<le> (x::int) \<Longrightarrow> 0 \<le> x"
  by (cases P) auto

lemma users_update:
  assumes "i < length (clients s)" and "clients s' = (clients s)[i := c']" and "spc s' = spc s"
  shows "users s' = users s - holds (clients s ! i) + holds c'"
    and "pending s' = pending s - posting (clients s ! i) + posting c' + sn_full s' - sn_full s"
  using assms by (simp_all add: users_def pending_def server_holds_def sum_list_update_at)

lemma pending_bounds:
  assumes "shm_inv s"
  shows "of_bool (spc s = SGot) \<le> pending s" and "pending s + sn_empty s \<le> 1"
proof -
  have "sum_list (map posting (clients s)) \<le> sum_list (map holds (clients s))"
    by (rule sum_list_mono) simp
  moreover have "of_bool (spc s = SGot) \<le> server_holds s" by (simp add: server_holds_def)
  moreover have "0 \<le> sum_list (map posting (clients s))" by (rule sum_list_nonneg) auto
  ultimately show "of_bool (spc s = SGot) \<le> pending s" "pending s + sn_empty s \<le> 1"
    using assms by (simp_all add: shm_inv_def users_def pending_def)
qed

lemma posting_pending: "shm_inv s \<Longrightarrow> i < length (clients s) \<Longrightarrow> posting (clients s ! i) \<le> pending s"
  using sum_list_at_le [of "clients s" posting i] by (simp add: pending_def shm_inv_def)

lemma holds_users: "shm_inv s \<Longrightarrow> i < length (clients s) \<Longrightarrow> holds (clients s ! i) \<le> users s"
  using sum_list_at_le [of "clients s" holds i] by (simp add: users_def server_holds_def)

lemma writer_pending:
  assumes "shm_inv s" and "i < length (clients s)"
  shows "pending s + (holds (clients s ! i) - posting (clients s ! i)) \<le> 1"
proof -
  have "holds (clients s ! i) - posting (clients s ! i) \<le> sum_list (map (\<lambda>c. holds c - posting c) (clients s))"
    by (rule sum_list_at_le) (simp_all add: assms(2))
  moreover have "of_bool (spc s = SGot) \<le> server_holds s" by (simp add: server_holds_def)
  ultimately show ?thesis using assms(1)
    by (simp add: sum_list_subtractf shm_inv_def users_def pending_def)
qed

text \<open>What a step of a client is.\<close>

lemma client_step_frame:
  assumes "client_step i s = Some s'"
  obtains c' ts where "i < length (clients s)" "cpc (clients s ! i) \<noteq> CGone" "clients s' = (clients s)[i := c']"
    "alive s' = alive s" "spc s' = spc s" "sent s' = sent s @ ts"
  using assms
  by (auto simp: client_step_def client_exit_def Let_def split: if_splits client_pc.splits option.splits prod.splits)

lemma calm_back:
  assumes "shm_act a s = Some s'" and "calm s'"
  shows "calm s"
proof (cases a)
  case Server
  with assms show ?thesis
    by (auto simp: server_step_def calm_def split: server_pc.splits option.splits)
next
  case (Client i)
  with assms(1) have "client_step i s = Some s'" by simp
  then obtain c' ts where st: "i < length (clients s)" "cpc (clients s ! i) \<noteq> CGone" "clients s' = (clients s)[i := c']"
    "alive s' = alive s" "spc s' = spc s" "sent s' = sent s @ ts" by (rule client_step_frame)
  have "cpc c \<noteq> CGone" if "c \<in> set (clients s)" for c
  proof -
    from that obtain j where j: "j < length (clients s)" "c = clients s ! j" by (auto simp: in_set_conv_nth)
    show ?thesis
    proof (cases "j = i")
      case False
      then have "c = clients s' ! j" "j < length (clients s')" using j st(3) by simp_all
      then have "c \<in> set (clients s')" by simp
      with assms(2) show ?thesis by (simp add: calm_def)
    qed (use j st(2) in simp)
  qed
  with assms(2) st(4,6) show ?thesis by (simp add: calm_def)
next
  case Interrupt
  with assms show ?thesis by (auto simp: calm_def shm_delete_def split: if_splits)
next
  case (Kill i)
  with assms(1) have s': "i < length (clients s)" "s' = client_exit i s" by (simp_all split: if_splits)
  then have "clients s' ! i \<in> set (clients s')" "cpc (clients s' ! i) = CGone"
    by (simp_all add: client_exit_def Let_def set_update_memI)
  with assms(2) show ?thesis by (auto simp: calm_def)
qed

lemma client_ok_mono: "client_ok m c \<Longrightarrow> m \<le> n \<Longrightarrow> client_ok n c"
  by (auto simp: client_ok_def)

lemma client_ok_update:
  assumes "\<forall>c \<in> set cs. client_ok m c" and "m \<le> n" and "client_ok n c'"
  shows "\<forall>c \<in> set (cs[i := c']). client_ok n c"
  using assms client_ok_mono by (metis set_update_subset)

lemma shm_inv_client:
  "shm_inv s \<Longrightarrow> i < length (clients s) \<Longrightarrow> client_ok (int (length (sent s))) (clients s ! i)"
  unfolding shm_inv_def by (blast intro: nth_mem)

text \<open>The four steps of a client that stays.\<close>

lemma client_step_calm:
  assumes "shm_inv s" and "client_step i s = Some s'" and "calm s'"
  defines "c \<equiv> clients s ! i"
  obtains
    (menu) c' where "cpc c = CMenu" "s' = s\<lparr>clients := (clients s)[i := c']\<rparr>" "cpc c' = CMenu \<or> cpc c' = CWait"
      "cundo_empty c' = cundo_empty c" "cundo_full c' = cundo_full c"
  | (lock) c' where "cpc c = CWait" "1 \<le> sn_empty s" "cpc c' = CWrite"
      "s' = s\<lparr>sn_empty := sn_empty s - 1, clients := (clients s)[i := c']\<rparr>"
      "cundo_empty c' = cundo_empty c + 1" "cundo_full c' = cundo_full c"
  | (put) c' m where "cpc c = CWrite" "cpc c' = CPost"
      "s' = s\<lparr>buffer := m, sent := sent s @ [m], clients := (clients s)[i := c']\<rparr>"
      "cundo_empty c' = cundo_empty c" "cundo_full c' = cundo_full c"
  | (unlock) c' where "cpc c = CPost" "cpc c' = CMenu"
      "s' = s\<lparr>sn_full := sn_full s + 1, clients := (clients s)[i := c']\<rparr>"
      "cundo_empty c' = cundo_empty c" "cundo_full c' = cundo_full c - 1"
proof -
  from assms(2) obtain c1 ts where fr: "i < length (clients s)" "cpc (clients s ! i) \<noteq> CGone"
    "clients s' = (clients s)[i := c1]" by (rule client_step_frame)
  have cm: "calm s" using calm_back [of "Client i" s s'] assms(2,3) by simp
  have ok: "client_ok (int (length (sent s))) c" using shm_inv_client [OF assms(1) fr(1)] by (simp only: c_def)
  have live: "cpc c1 \<noteq> CGone"
    using assms(3) fr(1,3) set_update_memI [OF fr(1), of c1] unfolding calm_def by metis
  show thesis
  proof (cases "cpc c")
    case CMenu
    have rd: "cpc (read_input c) = cpc c" "cundo_empty (read_input c) = cundo_empty c"
      "cundo_full (read_input c) = cundo_full c" by (auto simp: read_input_def split: option.splits)
    have "cinput (read_input c) \<noteq> CHR ''2''"
    proof
      assume "cinput (read_input c) = CHR ''2''"
      with assms(2) fr(1,3) CMenu have "cpc c1 = CGone"
        by (auto simp: client_step_def client_exit_def Let_def c_def)
      with live show False ..
    qed
    with assms(2) fr(1) CMenu obtain c' where "s' = s\<lparr>clients := (clients s)[i := c']\<rparr>"
        "c' = (read_input c)\<lparr>cpc := CWait, cout := cout (read_input c) @ [Out ''Warte ...'']\<rparr> \<or> c' = read_input c"
      by (auto simp: client_step_def Let_def c_def split: if_splits)
    with CMenu rd show ?thesis by (intro menu [of c']) auto
  next
    case CWait
    have "sn_empty s \<le> 1" using pending_bounds(2) [OF assms(1)]
      of_bool_nonneg [OF pending_bounds(1) [OF assms(1)]] by simp
    then have "locksem (alive s) (semid s) (sn_empty s) (cundo_empty c) =
        (if sn_empty s < 1 then None else Some (sn_empty s - 1, cundo_empty c + 1, []))"
      using locksem_ok [of "cundo_empty c" "sn_empty s"] ok CWait cm by (simp add: client_ok_def calm_def)
    with assms(2) fr(1) CWait obtain c' where "1 \<le> sn_empty s"
        "s' = s\<lparr>sn_empty := sn_empty s - 1, clients := (clients s)[i := c']\<rparr>" "c' = c\<lparr>cpc := CWrite,
          cundo_empty := cundo_empty c + 1, cout := cout c @ [Out ''\<newline>... fertig\<newline>'', Out ''Eingabe machen: '']\<rparr>"
      by (auto simp: client_step_def Let_def c_def split: if_splits)
    with CWait show ?thesis by (intro lock [of c']) auto
  next
    case CWrite
    with assms(2) fr(1) obtain c' m r where "s' = s\<lparr>buffer := m, sent := sent s @ [m], clients := (clients s)[i := c']\<rparr>"
        "c' = c\<lparr>cpc := CPost, cstdin := r\<rparr>"
      by (auto simp: client_step_def Let_def c_def split: prod.splits)
    with CWrite show ?thesis by (intro put [of c']) auto
  next
    case CPost
    have "sn_full s \<le> 1" "0 \<le> sn_full s" "posting c = 1"
      using assms(1) users_nonneg [of s] CPost
      by (simp_all add: shm_inv_def c_def posting_def)
    then have "unlocksem (alive s) (semid s) (sn_full s) (cundo_full c) = Some (sn_full s + 1, cundo_full c - 1, [])"
      using unlocksem_ok [of "cundo_full c" "sn_full s"] ok cm by (simp add: client_ok_def calm_def)
    with assms(2) fr(1) CPost obtain c' where
        "s' = s\<lparr>sn_full := sn_full s + 1, clients := (clients s)[i := c']\<rparr>"
        "c' = c\<lparr>cpc := CMenu, cundo_full := cundo_full c - 1\<rparr>"
      by (auto simp: client_step_def Let_def c_def)
    with CPost show ?thesis by (intro unlock [of c']) auto
  next
    case CGone
    with fr(2) c_def show ?thesis by simp
  qed
qed

lemma client_inv:
  assumes "shm_inv s" and "client_step i s = Some s'" and "calm s'"
  shows "shm_inv s'"
proof -
  define c where "c = clients s ! i"
  from assms(2) obtain i: "i < length (clients s)" by (rule client_step_frame)
  have ok: "client_ok (int (length (sent s))) c" using shm_inv_client [OF assms(1) i] by (simp only: c_def)
  have all: "\<forall>c \<in> set (clients s). client_ok (int (length (sent s))) c" using assms(1) unfolding shm_inv_def by blast
  have dl: "delivered s" using assms(1) by (simp add: shm_inv_def)
  note upd = users_update [OF i, where s' = s', folded c_def]
  note le = holds_users [OF assms(1) i, folded c_def] posting_pending [OF assms(1) i, folded c_def]
    of_bool_nonneg [OF pending_bounds(1) [OF assms(1)]]
  show ?thesis
    using assms
  proof (cases rule: client_step_calm)
    case (menu c')
    have "client_ok (int (length (sent s))) c'"
      using ok menu(1,3-5) by (auto simp: client_ok_def posting_def c_def)
    then have "\<forall>c \<in> set (clients s'). client_ok (int (length (sent s))) c"
      using client_ok_update [OF all order_refl] menu(2) by simp
    moreover have "users s' = users s" "pending s' = pending s"
      using upd [of c'] menu by (auto simp: c_def holds_def posting_def)
    moreover have "delivered s'" using dl menu(2) calculation(3) by (simp add: delivered_def)
    ultimately show ?thesis using assms(1) menu(2) by (simp add: shm_inv_def)
  next
    case (lock c')
    have "client_ok (int (length (sent s))) c'"
      using ok lock(1,3,5,6) by (auto simp: client_ok_def posting_def c_def)
    then have "\<forall>c \<in> set (clients s'). client_ok (int (length (sent s))) c"
      using client_ok_update [OF all order_refl] lock(4) by simp
    moreover have "users s' = users s + 1" "pending s' = pending s"
      using upd [of c'] lock by (auto simp: c_def holds_def posting_def)
    moreover have "delivered s'" using dl lock(4) calculation(3) by (simp add: delivered_def)
    ultimately show ?thesis using assms(1) lock(2,4) by (simp add: shm_inv_def)
  next
    case (put c' m)
    have "client_ok (int (length (sent s'))) c'"
      using ok put by (auto simp: client_ok_def posting_def c_def)
    then have "\<forall>c \<in> set (clients s'). client_ok (int (length (sent s'))) c"
      using client_ok_update [OF all, of "int (length (sent s'))" c' i] put(3) by simp
    moreover have u: "users s' = users s" "pending s' = pending s + 1"
      using upd [of c'] put by (auto simp: c_def holds_def posting_def)
    moreover have "pending s = 0"
      using writer_pending [OF assms(1) i] le(3) put(1) by (simp add: c_def holds_def posting_def split: if_splits)
    moreover have "delivered s'" using dl put(3) u(2) calculation(4) by (simp add: delivered_def)
    ultimately show ?thesis using assms(1) put(3) by (simp add: shm_inv_def)
  next
    case (unlock c')
    have "client_ok (int (length (sent s))) c'"
      using ok unlock(1,2,4,5) by (auto simp: client_ok_def posting_def c_def)
    then have "\<forall>c \<in> set (clients s'). client_ok (int (length (sent s))) c"
      using client_ok_update [OF all order_refl] unlock(3) by simp
    moreover have "users s' = users s - 1" "pending s' = pending s"
      using upd [of c'] unlock by (auto simp: c_def holds_def posting_def)
    moreover have "delivered s'" using dl unlock(3) calculation(3) by (simp add: delivered_def)
    ultimately show ?thesis using assms(1) unlock(3) by (simp add: shm_inv_def)
  qed
qed

lemma server_users:
  assumes "clients s' = clients s"
  shows "users s' = users s - server_holds s + server_holds s'"
    and "pending s' = pending s + sn_full s' - sn_full s + of_bool (spc s' = SGot) - of_bool (spc s = SGot)"
  using assms by (simp_all add: users_def pending_def)

text \<open>The three steps of the server.\<close>

lemma server_step_calm:
  assumes "shm_inv s" and "server_step s = Some s'" and "calm s'"
  obtains
    (lock) out where "spc s = SWait" "1 \<le> sn_full s"
      "s' = s\<lparr>sn_full := sn_full s - 1, sundo_full := sundo_full s + 1, spc := SGot, sout := out\<rparr>"
  | (take) out where "spc s = SGot" "s' = s\<lparr>spc := SPost, got := got s @ [buffer s], sout := out\<rparr>"
  | (unlock) out where "spc s = SPost"
      "s' = s\<lparr>sn_empty := sn_empty s + 1, sundo_empty := sundo_empty s - 1, spc := SWait, sout := out\<rparr>"
proof -
  have "calm s" using calm_back [of Server s s'] assms(2,3) by simp
  moreover have "length (got s) \<le> length (sent s)" using assms(1) by (simp add: shm_inv_def delivered_def)
  ultimately have cm: "alive s" "int (length (got s)) < SEMAEM" by (simp_all add: calm_def)
  have b: "0 \<le> sn_empty s" "0 \<le> sn_full s" "sn_empty s \<le> 1" "sn_full s \<le> 1"
    using assms(1) users_nonneg [of s] by (simp_all add: shm_inv_def)
  show thesis
  proof (cases "spc s")
    case SWait
    then have "sundo_full s = int (length (got s))" using assms(1) by (simp add: shm_inv_def)
    then have "locksem (alive s) (semid s) (sn_full s) (sundo_full s) =
        (if sn_full s < 1 then None else Some (sn_full s - 1, sundo_full s + 1, []))"
      using locksem_ok [of "sundo_full s" "sn_full s"] cm b by simp
    with assms(2) SWait show ?thesis by (intro lock) (auto simp: server_step_def split: if_splits)
  next
    case SGot
    with assms(2) show ?thesis by (intro take) (auto simp: server_step_def)
  next
    case SPost
    then have "sundo_empty s = 1 - int (length (got s))" "1 \<le> int (length (got s))"
      using assms(1) by (simp_all add: shm_inv_def Suc_le_eq)
    then have "unlocksem (alive s) (semid s) (sn_empty s) (sundo_empty s) = Some (sn_empty s + 1, sundo_empty s - 1, [])"
      using unlocksem_ok [of "sundo_empty s" "sn_empty s"] cm b by simp
    with assms(2) SPost show ?thesis by (intro unlock) (auto simp: server_step_def)
  next
    case SGone
    with assms(1) show ?thesis by (simp add: shm_inv_def)
  qed
qed

lemma server_inv:
  assumes "shm_inv s" and "server_step s = Some s'" and "calm s'"
  shows "shm_inv s'"
proof -
  have dl: "delivered s" using assms(1) by (simp add: shm_inv_def)
  show ?thesis
    using assms
  proof (cases rule: server_step_calm)
    case (lock out)
    then have "users s' = users s + 1" "pending s' = pending s"
      using server_users [of s' s] by (simp_all add: server_holds_def)
    moreover have "delivered s'" using dl lock(3) calculation(2) by (simp add: delivered_def)
    ultimately show ?thesis using assms(1) lock by (simp add: shm_inv_def)
  next
    case (take out)
    then have u: "users s' = users s" "pending s' = pending s - 1"
      using server_users [of s' s] by (simp_all add: server_holds_def)
    have "0 \<le> sn_empty s" using assms(1) by (simp add: shm_inv_def)
    with pending_bounds [OF assms(1)] take(1) have "pending s = 1" by simp
    then have "delivered s'" using dl take(2) u by (simp add: delivered_def)
    then show ?thesis using assms(1) take u by (simp add: shm_inv_def)
  next
    case (unlock out)
    then have "users s' = users s - 1" "pending s' = pending s"
      using server_users [of s' s] by (simp_all add: server_holds_def)
    moreover have "delivered s'" using dl unlock(2) calculation(2) by (simp add: delivered_def)
    ultimately show ?thesis using assms(1) unlock by (simp add: shm_inv_def)
  qed
qed

section \<open>What the protocol guarantees\<close>

definition shm_init :: "shm \<Rightarrow> bool" where
  "shm_init s \<longleftrightarrow> (\<exists>sid shmid ins. s = shm_setup sid shmid ins)"

lemma shm_setup_inv: "shm_inv (shm_setup sid shmid ins)" "pending (shm_setup sid shmid ins) = 0"
proof -
  have "sum_list (map (holds \<circ> attached) ins) = 0" "sum_list (map (posting \<circ> attached) ins) = 0"
    by (induction ins) (simp_all add: holds_def posting_def attached_def)
  then show "shm_inv (shm_setup sid shmid ins)" "pending (shm_setup sid shmid ins) = 0"
    by (auto simp: shm_inv_def shm_setup_def users_def pending_def delivered_def server_holds_def client_ok_def
        attached_def posting_def)
qed

lemma users_le: "shm_inv s \<Longrightarrow> users s \<le> 1"
  by (simp add: shm_inv_def)

lemma nat_users_le: "shm_inv s \<Longrightarrow> nat (users s) \<le> 1"
  using users_le [of s] by simp

text \<open>
  The specification: a buffer with one place. A message can be put into it when it is empty,
  and only the message in it can be taken out.
\<close>

datatype place_action = Put string | Take string

fun one_place :: "place_action \<Rightarrow> string option \<Rightarrow> string option option" where
  "one_place (Put m) None = Some (Some m)"
| "one_place (Take m) (Some m') = (if m = m' then Some None else None)"
| "one_place _ _ = None"

definition shm_view :: "shm \<Rightarrow> string option" where
  "shm_view s = (if pending s = 0 then None else Some (buffer s))"

text \<open>
  The events of a step: a client that writes puts the line it reads (or, at the end of its
  input, what is in the buffer), and the server takes what it prints.
\<close>

fun shm_label :: "shm_action \<Rightarrow> shm \<Rightarrow> place_action list" where
  "shm_label (Client i) s =
     (if i < length (clients s) \<and> cpc (clients s ! i) = CWrite then
        [Put (case fgets BUFFERSIZE (cstdin (clients s ! i)) of None \<Rightarrow> buffer s | Some (l, r) \<Rightarrow> l)]
      else [])"
| "shm_label Server s = (if spc s = SGot then [Take (buffer s)] else [])"
| "shm_label _ s = []"

text \<open>What the server prints for a message, and the messages that are taken in a trace.\<close>

definition receipt :: "string \<Rightarrow> say" where
  "receipt m = Out (''Nachricht erhalten: '' @ m @ ''\<newline>'')"

definition is_receipt :: "say \<Rightarrow> bool" where
  "is_receipt x = (case x of Out t \<Rightarrow> prefix ''Nachricht erhalten: '' t | _ \<Rightarrow> False)"

fun taken :: "place_action list \<Rightarrow> string list" where
  "taken [] = []"
| "taken (Take m # ls) = m # taken ls"
| "taken (Put m # ls) = taken ls"

lemma taken_append: "taken (ls @ ms) = taken ls @ taken ms"
  by (induction ls rule: taken.induct) auto

lemma shm_act_receipts:
  assumes "shm_act a s = Some s'"
  shows "filter is_receipt (sout s') = filter is_receipt (sout s) @ map receipt (taken (shm_label a s))"
proof (cases a)
  case Server
  with assms show ?thesis
    by (auto simp: server_step_def locksem_def unlocksem_def safesemop_def is_receipt_def receipt_def
        split: server_pc.splits option.splits sem_result.splits if_splits)
next
  case (Client i)
  with assms show ?thesis
    by (auto simp: client_step_def client_exit_def Let_def split: if_splits client_pc.splits option.splits prod.splits)
next
  case Interrupt
  with assms show ?thesis by (auto simp: shm_delete_def is_receipt_def split: if_splits)
next
  case (Kill i)
  with assms show ?thesis by (auto simp: client_exit_def Let_def split: if_splits)
qed

lemma shm_receipts:
  "run shm_act as s = Some s' \<Longrightarrow>
     filter is_receipt (sout s') = filter is_receipt (sout s) @ map receipt (taken (trace shm_label shm_act as s))"
proof (induction as arbitrary: s)
  case (Cons a as)
  then obtain t where "shm_act a s = Some t" "run shm_act as t = Some s'" by (cases "shm_act a s") auto
  with Cons.IH [of t] shm_act_receipts [of a s t] show ?case by (simp add: taken_append)
qed simp

lemma shm_act_inv:
  assumes "shm_inv s" and "shm_act a s = Some s'" and "calm s'"
  shows "shm_inv s' \<and> run one_place (shm_label a s) (shm_view s) = Some (shm_view s')"
proof (cases a)
  case Server
  with assms(2) have st: "server_step s = Some s'" by simp
  have "run one_place (shm_label Server s) (shm_view s) = Some (shm_view s')"
    using assms(1) st assms(3)
  proof (cases rule: server_step_calm)
    case (take out)
    have "0 \<le> sn_empty s" using assms(1) by (simp add: shm_inv_def)
    with pending_bounds [OF assms(1)] take(1) have "pending s = 1" by simp
    with take server_users [of s' s] show ?thesis by (simp add: shm_view_def)
  qed (use server_users [of s' s] in \<open>simp_all add: shm_view_def\<close>)
  with server_inv [OF assms(1) st assms(3)] Server show ?thesis by blast
next
  case (Client i)
  with assms(2) have st: "client_step i s = Some s'" by simp
  then obtain i: "i < length (clients s)" by (rule client_step_frame)
  have "run one_place (shm_label (Client i) s) (shm_view s) = Some (shm_view s')"
    using assms(1) st assms(3)
  proof (cases rule: client_step_calm)
    case (put c' m)
    have "0 \<le> pending s" by (rule of_bool_nonneg [OF pending_bounds(1) [OF assms(1)]])
    with writer_pending [OF assms(1) i] put(1) have "pending s = 0" by (simp add: holds_def posting_def)
    moreover have "pending s' = pending s + 1"
      using users_update(2) [OF i, of s' c'] put by (simp add: posting_def)
    moreover have "buffer s' = (case fgets BUFFERSIZE (cstdin (clients s ! i)) of None \<Rightarrow> buffer s | Some (l, r) \<Rightarrow> l)"
      using st put(1) i by (auto simp: client_step_def Let_def split: option.splits)
    ultimately show ?thesis using put(1) i by (simp add: shm_view_def)
  next
    case (menu c')
    then have "pending s' = pending s" using users_update(2) [OF i, of s' c'] by (auto simp: posting_def)
    with menu(1,2) show ?thesis by (simp add: shm_view_def)
  next
    case (lock c')
    then have "pending s' = pending s" using users_update(2) [OF i, of s' c'] by (auto simp: posting_def)
    with lock(1,4) show ?thesis by (simp add: shm_view_def)
  next
    case (unlock c')
    then have "pending s' = pending s" using users_update(2) [OF i, of s' c'] by (auto simp: posting_def)
    with unlock(1,3) show ?thesis by (simp add: shm_view_def)
  qed
  with client_inv [OF assms(1) st assms(3)] Client show ?thesis by blast
next
  case Interrupt
  with assms(2,3) show ?thesis by (auto simp: shm_delete_def calm_def split: if_splits)
next
  case (Kill i)
  with assms(2) have "i < length (clients s)" "s' = client_exit i s" by (simp_all split: if_splits)
  then have "clients s' ! i \<in> set (clients s')" "cpc (clients s' ! i) = CGone"
    by (simp_all add: client_exit_def Let_def set_update_memI)
  with assms(3) show ?thesis by (auto simp: calm_def)
qed

interpretation shm: mutual_exclusion shm_act shm_init calm shm_inv "\<lambda>s. nat (users s)"
  by unfold_locales
    (auto simp: shm_init_def shm_setup_inv nat_users_le [simplified] dest: calm_back shm_act_inv)

interpretation shm_ref: refinement_mapping shm_act shm_init calm shm_inv shm_label one_place shm_view
  by unfold_locales (use shm_act_inv in blast)

text \<open>
  C8: mutual exclusion and delivery: for any number of clients, any input they read and any
  interleaving, as long as the server runs, no client has ended and fewer than 32767
  messages have been sent, at most one process uses the buffer, and the server has printed
  the messages in the order they were written, each once, all but at most the last one.
\<close>

theorem shm_exclusive_delivery:
  assumes "reach shm_act (shm_setup sid shmid ins) s" and "calm s"
  shows "users s \<le> 1 \<and> (sent s = got s \<or> sent s = got s @ [buffer s])"
proof
  have init: "shm_init (shm_setup sid shmid ins)" by (auto simp: shm_init_def)
  show "users s \<le> 1" using shm.one_inside [OF assms(1) init assms(2)] by simp
  have inv: "shm_inv s" by (rule shm.reach_inv [OF assms(1) init assms(2)])
  then have "pending s \<le> 1" using pending_bounds(2) [OF inv] by (simp add: shm_inv_def)
  with of_bool_nonneg [OF pending_bounds(1) [OF inv]] consider "pending s = 0" | "pending s = 1" by linarith
  then show "sent s = got s \<or> sent s = got s @ [buffer s]"
    using inv by cases (simp_all add: shm_inv_def delivered_def)
qed

abbreviation (input) round_trip :: "shm_action list" where
  "round_trip \<equiv> [Client 0, Client 0, Client 0, Client 0, Server, Server, Server]"

theorem shm_exclusive_delivery_witness:
  "\<exists>s. reach shm_act (shm_setup 7 8 [(''1\<newline>A\<newline>'', CHR ''x'')]) s \<and> calm s \<and> users s \<le> 1 \<and>
     (sent s = got s \<or> sent s = got s @ [buffer s]) \<and> got s = [''A\<newline>'']"
proof -
  define s where "s = the (run shm_act round_trip (shm_setup 7 8 [(''1\<newline>A\<newline>'', CHR ''x'')]))"
  have r: "run shm_act round_trip (shm_setup 7 8 [(''1\<newline>A\<newline>'', CHR ''x'')]) = Some s"
    and c: "calm s" and g: "got s = [''A\<newline>'']"
    unfolding s_def by code_simp+
  from shm_exclusive_delivery [OF run_reach [OF r] c] c g run_reach [OF r] show ?thesis by blast
qed

text \<open>
  C9: the program refines a buffer with one place: whatever the interleaving, the writes of the
  clients and the outputs of the server are, in the order in which they happen, a run of that
  buffer, in which a message is only put into the empty place and each put is followed by the
  output of just that message before the next one. It is in the state in which the program's
  buffer is, and the server has printed exactly the messages taken out. As in C8, this holds as
  long as the server runs, no client has ended and fewer than 32767 messages have been sent.
\<close>

theorem shm_refines_one_place:
  assumes "run shm_act as (shm_setup sid shmid ins) = Some s" and "calm s"
  shows "run one_place (trace shm_label shm_act as (shm_setup sid shmid ins)) None = Some (shm_view s) \<and>
    filter is_receipt (sout s) = map receipt (taken (trace shm_label shm_act as (shm_setup sid shmid ins)))"
proof
  have "pending (shm_setup sid shmid ins) = 0" by (rule shm_setup_inv)
  then have "shm_view (shm_setup sid shmid ins) = None" by (simp add: shm_view_def)
  with shm_ref.trace_run [OF shm_setup_inv(1) assms]
  show "run one_place (trace shm_label shm_act as (shm_setup sid shmid ins)) None = Some (shm_view s)" by simp
  have "filter is_receipt (sout (shm_setup sid shmid ins)) = []" by (simp add: shm_setup_def is_receipt_def)
  with shm_receipts [OF assms(1)]
  show "filter is_receipt (sout s) = map receipt (taken (trace shm_label shm_act as (shm_setup sid shmid ins)))" by simp
qed

theorem shm_refines_one_place_witness:
  "\<exists>s. run shm_act (round_trip @ [Client 1, Client 1, Client 1, Client 1])
      (shm_setup 7 8 [(''1\<newline>A\<newline>'', CHR ''x''), (''1\<newline>B\<newline>'', CHR ''x'')]) = Some s \<and>
     run one_place [Put ''A\<newline>'', Take ''A\<newline>'', Put ''B\<newline>''] None = Some (shm_view s) \<and>
     filter is_receipt (sout s) = [receipt ''A\<newline>'']"
proof -
  let ?as = "round_trip @ [Client 1, Client 1, Client 1, Client 1]"
  let ?s0 = "shm_setup 7 8 [(''1\<newline>A\<newline>'', CHR ''x''), (''1\<newline>B\<newline>'', CHR ''x'')]"
  define s where "s = the (run shm_act ?as ?s0)"
  have r: "run shm_act ?as ?s0 = Some s" and c: "calm s"
    and t: "trace shm_label shm_act ?as ?s0 = [Put ''A\<newline>'', Take ''A\<newline>'', Put ''B\<newline>'']"
    unfolding s_def by code_simp+
  from shm_refines_one_place [OF r c] r show ?thesis unfolding t by (intro exI [of _ s]) simp
qed

text \<open>
  A client that ends breaks the protocol, because its adjustments put back what it has
  taken and take back what it has put: in the first schedule it ends before the server has
  looked, and its message is lost; in the second it ends after a complete exchange, and the two
  other clients are in the buffer together, so that one message is overwritten and the
  other one is printed twice.
\<close>

theorem client_exit_breaks_protocol:
  "leads shm_act [Client 0, Client 0, Client 0, Client 0, Client 0] (shm_setup 7 8 [(''1\<newline>A\<newline>2\<newline>'', CHR ''x'')])
     (\<lambda>s. sent s = [''A\<newline>''] \<and> got s = [] \<and> server_step s = None \<and> client_step 0 s = None) \<and>
   leads shm_act (round_trip @ [Client 0, Client 1, Client 2, Client 1, Client 2])
     (shm_setup 7 8 [(''1\<newline>A\<newline>2\<newline>'', CHR ''x''), (''1\<newline>B\<newline>'', CHR ''x''), (''1\<newline>C\<newline>'', CHR ''x'')])
     (\<lambda>s. users s = 2) \<and>
   leads shm_act (round_trip @ [Client 0, Client 1, Client 2, Client 1, Client 2, Client 1, Client 2, Client 1, Client 2] @
       [Server, Server, Server, Server, Server, Server])
     (shm_setup 7 8 [(''1\<newline>A\<newline>2\<newline>'', CHR ''x''), (''1\<newline>B\<newline>'', CHR ''x''), (''1\<newline>C\<newline>'', CHR ''x'')])
     (\<lambda>s. sent s = [''A\<newline>'', ''B\<newline>'', ''C\<newline>''] \<and> got s = [''A\<newline>'', ''C\<newline>'', ''C\<newline>''])"
  by (intro conjI) code_simp+

end
