(* ===== verification/SemLock.thy ===== *)
theory SemLock
  imports SharedMem
begin

text \<open>
  \<^verbatim>\<open>src/09_IPC/sem.c\<close>: any number of processes that share one semaphore, created by the first of
  them, and use it as a lock around a critical section. Processes are interleaved at every
  system call and may be killed at any time; the kernel then undoes their semaphore
  operations (\<^verbatim>\<open>SEM_UNDO\<close>).
\<close>

section \<open>The program\<close>

text \<open>
  Before the first \<^verbatim>\<open>semget\<close>, before the second one, before \<^verbatim>\<open>semctl\<close>, before \<^verbatim>\<open>LOCK\<close>, in the critical
  section (before \<^verbatim>\<open>UNLOCK\<close>), after it, ended with an exit code (\<open>None\<close>: killed).
\<close>

datatype sem_pc = PInit | PCreate | PSet | PLock | PCritical | PAfter | PEnded "int option"

record sem_proc =
  pid :: int
  ppc :: sem_pc
  pundo :: int
  pout :: "say list"

text \<open>
  The semaphore set of the key (\<open>None\<close>: it does not exist) and the processes. \<open>orphaned\<close> records
  that a process was killed between creating the semaphore and setting it.
\<close>

record sem_sys =
  sem_id :: int
  semval :: "int option"
  procs :: "sem_proc list"
  orphaned :: bool

definition put_proc :: "nat \<Rightarrow> sem_proc \<Rightarrow> sem_sys \<Rightarrow> sem_sys" where
  "put_proc i p s = s\<lparr>procs := (procs s)[i := p]\<rparr>"

text \<open>The end of a process: its adjustment is added and is used up.\<close>

definition proc_exit :: "nat \<Rightarrow> int option \<Rightarrow> say list \<Rightarrow> sem_sys \<Rightarrow> sem_sys" where
  "proc_exit i code says s =
     (let p = procs s ! i in
      put_proc i (p\<lparr>ppc := PEnded code, pundo := 0, pout := pout p @ says\<rparr>)
        (s\<lparr>semval := map_option (\<lambda>v. sem_undo v (pundo p)) (semval s)\<rparr>))"

definition init_semaphore :: "nat \<Rightarrow> sem_sys \<Rightarrow> sem_sys" where
  "init_semaphore i s =
     (let p = procs s ! i; ready = [Out ''Vor dem kritischen Codeabschnitt ...\<newline>''] in
      case ppc p of
        PInit \<Rightarrow>
          (if semval s = None then put_proc i (p\<lparr>ppc := PCreate\<rparr>) s
           else put_proc i (p\<lparr>ppc := PLock, pout := pout p @ ready\<rparr>) s)
      | PCreate \<Rightarrow>
          (if semval s = None then
             put_proc i (p\<lparr>ppc := PSet, pout := pout p @
               [Out (''(angelegt) Semaphor-ID : '' @ show_int (sem_id s) @ ''\<newline>'')]\<rparr>) (s\<lparr>semval := Some 0\<rparr>)
           else proc_exit i (Some EXIT_FAILURE) [Out ''Fehler beim Anlegen des semaphors ...\<newline>''] s)
      | _ \<Rightarrow>
          (let s1 = s\<lparr>semval := Some 1, procs := map (\<lambda>q. q\<lparr>pundo := 0\<rparr>) (procs s)\<rparr> in
           put_proc i (p\<lparr>ppc := PLock, pundo := 0, pout := pout p @ ready\<rparr>) s1))"

definition semaphore_operation :: "int \<Rightarrow> nat \<Rightarrow> sem_pc \<Rightarrow> say list \<Rightarrow> sem_sys \<Rightarrow> sem_sys option" where
  "semaphore_operation d i pc' says s =
     (let p = procs s ! i in
      case (case semval s of None \<Rightarrow> Failed | Some v \<Rightarrow> semop d v (pundo p)) of
        Blocked \<Rightarrow> None
      | Failed \<Rightarrow> Some (proc_exit i (Some EXIT_FAILURE) [Perror ''semop()''] s)
      | Done v u \<Rightarrow> Some (put_proc i (p\<lparr>ppc := pc', pundo := u, pout := pout p @ says\<rparr>) (s\<lparr>semval := Some v\<rparr>)))"

text \<open>The next step of process \<open>i\<close> through \<^verbatim>\<open>main\<close>.\<close>

definition sem_main :: "nat \<Rightarrow> sem_sys \<Rightarrow> sem_sys option" where
  "sem_main i s =
     (if length (procs s) \<le> i then None
      else (let p = procs s ! i in
        case ppc p of
          PLock \<Rightarrow>
            semaphore_operation (-1) i PCritical
              [Out (''PID '' @ show_int (pid p) @ '' verwendet Semaphor '' @ show_int (sem_id s) @ ''\<newline>''),
               Out ''Im kritischen Codeabschnitt ...\<newline>''] s
        | PCritical \<Rightarrow> semaphore_operation 1 i PAfter [Out ''Nach dem kritischen Codeabschnitt ...\<newline>''] s
        | PAfter \<Rightarrow> Some (proc_exit i (Some EXIT_SUCCESS) [] s)
        | PEnded _ \<Rightarrow> None
        | _ \<Rightarrow> Some (init_semaphore i s)))"

definition is_ended :: "sem_proc \<Rightarrow> bool" where
  "is_ended p \<longleftrightarrow> (case ppc p of PEnded _ \<Rightarrow> True | _ \<Rightarrow> False)"

definition crash :: "nat \<Rightarrow> sem_sys \<Rightarrow> sem_sys option" where
  "crash i s =
     (if length (procs s) \<le> i \<or> is_ended (procs s ! i) then None
      else Some ((proc_exit i None [] s)\<lparr>orphaned := (orphaned s \<or> ppc (procs s ! i) = PSet)\<rparr>))"

datatype sem_action = Run nat | Crash nat

fun sem_act :: "sem_action \<Rightarrow> sem_sys \<Rightarrow> sem_sys option" where
  "sem_act (Run i) s = sem_main i s"
| "sem_act (Crash i) s = crash i s"

text \<open>
  The processes start; the semaphore does not exist, or an earlier run has left it free (the
  program never removes it).
\<close>

definition sem_start :: "int \<Rightarrow> int option \<Rightarrow> int list \<Rightarrow> sem_sys" where
  "sem_start sid v pids =
     \<lparr>sem_id = sid, semval = v, procs = map (\<lambda>n. \<lparr>pid = n, ppc = PInit, pundo = 0, pout = []\<rparr>) pids, orphaned = False\<rparr>"

definition sem_init :: "sem_sys \<Rightarrow> bool" where
  "sem_init s \<longleftrightarrow> (\<exists>sid v pids. s = sem_start sid v pids \<and> (v = None \<or> v = Some 1))"

section \<open>The invariant\<close>

definition critical :: "sem_proc \<Rightarrow> int" where
  "critical p = of_bool (ppc p = PCritical)"

definition setting :: "sem_proc \<Rightarrow> int" where
  "setting p = of_bool (ppc p = PSet)"

definition n_critical :: "sem_sys \<Rightarrow> int" where
  "n_critical s = sum_list (map critical (procs s))"

definition n_setting :: "sem_sys \<Rightarrow> int" where
  "n_setting s = sum_list (map setting (procs s))"

text \<open>
  Once the semaphore exists, there is exactly one of: a free semaphore, a process in the
  critical section, a process that has still to set the semaphore, or a creator killed
  before that.
\<close>

definition sem_inv :: "sem_sys \<Rightarrow> bool" where
  "sem_inv s \<longleftrightarrow>
     (\<forall>p \<in> set (procs s). pundo p = critical p) \<and>
     (case semval s of
        None \<Rightarrow> \<not> orphaned s \<and> (\<forall>p \<in> set (procs s). ppc p = PInit \<or> ppc p = PCreate \<or> is_ended p)
      | Some v \<Rightarrow> 0 \<le> v \<and> v + n_critical s + n_setting s + of_bool (orphaned s) = 1)"

lemma put_proc_sums:
  assumes "i < length (procs s)"
  shows "n_critical (put_proc i p s) = n_critical s - critical (procs s ! i) + critical p"
    and "n_setting (put_proc i p s) = n_setting s - setting (procs s ! i) + setting p"
  using assms by (simp_all add: n_critical_def n_setting_def put_proc_def sum_list_update_at)

lemma put_proc_frame [simp]:
  "semval (put_proc i p s) = semval s" "orphaned (put_proc i p s) = orphaned s"
  "procs (put_proc i p s) = (procs s)[i := p]"
  by (simp_all add: put_proc_def)

lemma reset_frame [simp]: "critical (q\<lparr>pundo := u\<rparr>) = critical q" "setting (q\<lparr>pundo := u\<rparr>) = setting q"
  by (simp_all add: critical_def setting_def)

lemma sums_frame [simp]:
  "n_critical (s\<lparr>semval := v\<rparr>) = n_critical s" "n_setting (s\<lparr>semval := v\<rparr>) = n_setting s"
  "n_critical (s\<lparr>orphaned := b\<rparr>) = n_critical s" "n_setting (s\<lparr>orphaned := b\<rparr>) = n_setting s"
  "n_critical (s\<lparr>semval := v, procs := map (\<lambda>q. q\<lparr>pundo := 0\<rparr>) (procs s)\<rparr>) = n_critical s"
  "n_setting (s\<lparr>semval := v, procs := map (\<lambda>q. q\<lparr>pundo := 0\<rparr>) (procs s)\<rparr>) = n_setting s"
  by (simp_all add: n_critical_def n_setting_def comp_def)

lemma sums_nonneg: "0 \<le> n_critical s" "0 \<le> n_setting s"
  unfolding n_critical_def n_setting_def by (rule sum_list_nonneg, auto simp: critical_def setting_def)+

lemma sums_at:
  assumes "i < length (procs s)"
  shows "critical (procs s ! i) \<le> n_critical s" "setting (procs s ! i) \<le> n_setting s"
  using sum_list_at_le [of "procs s" critical i] sum_list_at_le [of "procs s" setting i] assms
  by (simp_all add: n_critical_def n_setting_def critical_def setting_def)

text \<open>
  A process \<open>i\<close> is put in another place and the semaphore gets another value: what has to be
  checked.
\<close>

lemma sem_inv_put:
  assumes "sem_inv s" and "i < length (procs s)" and "pundo p = critical p"
    and "semval s' = Some v" and "0 \<le> v" and "procs s' = (procs s)[i := p]"
    and "v + n_critical s + critical p - critical (procs s ! i) +
      (n_setting s + setting p - setting (procs s ! i)) + of_bool (orphaned s') = 1"
  shows "sem_inv s'"
proof -
  have "n_critical s' = n_critical s - critical (procs s ! i) + critical p"
    "n_setting s' = n_setting s - setting (procs s ! i) + setting p"
    using assms(2,6) by (simp_all add: n_critical_def n_setting_def sum_list_update_at)
  moreover have "\<forall>q \<in> set (procs s'). pundo q = critical q"
    using assms(1,3,6) by (auto simp: sem_inv_def dest: set_update_subset)
  ultimately show ?thesis using assms(4,5,7) by (simp add: sem_inv_def)
qed

lemma sem_inv_none:
  assumes "sem_inv s" and "i < length (procs s)" and "semval s = None" and "semval s' = None" and "\<not> orphaned s'"
    and "procs s' = (procs s)[i := p]" and "pundo p = 0" and "ppc p = PInit \<or> ppc p = PCreate \<or> is_ended p"
  shows "sem_inv s'"
proof -
  have "critical p = 0" using assms(8) by (auto simp: critical_def is_ended_def)
  then show ?thesis using assms by (auto simp: sem_inv_def dest: set_update_subset)
qed

lemma sem_inv_none_sums:
  assumes "sem_inv s" and "semval s = None"
  shows "n_critical s = 0" "n_setting s = 0" "\<not> orphaned s"
proof -
  have "critical p = 0 \<and> setting p = 0" if "p \<in> set (procs s)" for p
    using assms that by (auto simp: sem_inv_def critical_def setting_def is_ended_def)
  then have "map critical (procs s) = map (\<lambda>_. 0) (procs s)" "map setting (procs s) = map (\<lambda>_. 0) (procs s)"
    by simp_all
  then show "n_critical s = 0" "n_setting s = 0"
    by (simp_all only: n_critical_def n_setting_def sum_list_0 map_replicate_const sum_list_replicate mult_zero_right)
  show "\<not> orphaned s" using assms by (simp add: sem_inv_def)
qed

lemma sem_inv_at: "sem_inv s \<Longrightarrow> i < length (procs s) \<Longrightarrow> pundo (procs s ! i) = critical (procs s ! i)"
  by (simp add: sem_inv_def)

lemma sem_inv_some: "sem_inv s \<Longrightarrow> semval s = Some v \<Longrightarrow> 0 \<le> v \<and> v + n_critical s + n_setting s + of_bool (orphaned s) = 1"
  by (simp add: sem_inv_def)

lemma crash_inv:
  assumes "sem_inv s" and "crash i s = Some s'"
  shows "sem_inv s'"
proof -
  from assms(2) have i: "i < length (procs s)" and s': "s' = (proc_exit i None [] s)\<lparr>orphaned := (orphaned s \<or> ppc (procs s ! i) = PSet)\<rparr>"
    by (auto simp: crash_def split: if_splits)
  show ?thesis
  proof (cases "semval s")
    case None
    have "\<not> orphaned s" "ppc (procs s ! i) \<noteq> PSet" "pundo (procs s ! i) = 0"
      using sem_inv_none_sums [OF assms(1) None] sums_at [OF i] sem_inv_at [OF assms(1) i]
      by (auto simp: setting_def critical_def split: if_splits)
    with None i show ?thesis
      by (intro sem_inv_none [OF assms(1) i None, where p = "(procs s ! i)\<lparr>ppc := PEnded None, pundo := 0\<rparr>"]) (simp_all add: s' proc_exit_def Let_def is_ended_def)
  next
    case (Some v)
    note v = sem_inv_some [OF assms(1) Some]
    have c: "pundo (procs s ! i) = critical (procs s ! i)" by (rule sem_inv_at [OF assms(1) i])
    have "0 \<le> v + critical (procs s ! i)" "v + critical (procs s ! i) \<le> 1"
      using v sums_nonneg [of s] sums_at [OF i] by (auto simp: critical_def of_bool_def split: if_splits)
    then have "sem_undo v (pundo (procs s ! i)) = v + critical (procs s ! i)" by (simp add: sem_undo_def c)
    moreover have "orphaned s \<Longrightarrow> ppc (procs s ! i) \<noteq> PSet"
      using v sums_nonneg [of s] sums_at [OF i] by (auto simp: setting_def)
    ultimately show ?thesis
      using Some i v by (intro sem_inv_put [OF assms(1) i])
        (auto simp: s' proc_exit_def Let_def critical_def setting_def split: if_splits)
  qed
qed

text \<open>Under the invariant the operations on the semaphore never fail.\<close>

lemma sem_inv_bounds:
  assumes "sem_inv s" and "i < length (procs s)" and "semval s = Some v"
  shows "0 \<le> v" "v + critical (procs s ! i) + setting (procs s ! i) + of_bool (orphaned s) \<le> 1" "v \<le> 1"
  using sem_inv_some [OF assms(1,3)] sums_at [OF assms(2)] sums_nonneg [of s] by (auto simp: of_bool_def split: if_splits)

lemma exists_at:
  assumes "sem_inv s" and "i < length (procs s)" and "ppc (procs s ! i) \<notin> {PInit, PCreate}" and "\<not> is_ended (procs s ! i)"
  obtains v where "semval s = Some v"
  using assms nth_mem [OF assms(2)] by (cases "semval s") (auto simp: sem_inv_def)

lemma lock_step:
  assumes "sem_inv s" and "i < length (procs s)" and "ppc (procs s ! i) = PLock"
    and "semaphore_operation (-1) i PCritical says s = Some s'"
  shows "semval s = Some 1" and "s' = put_proc i ((procs s ! i)\<lparr>ppc := PCritical, pundo := 1,
    pout := pout (procs s ! i) @ says\<rparr>) (s\<lparr>semval := Some 0\<rparr>)"
proof -
  from exists_at [OF assms(1,2)] assms(3) obtain v where v: "semval s = Some v" by (auto simp: is_ended_def)
  have "pundo (procs s ! i) = 0" using sem_inv_at [OF assms(1,2)] assms(3) by (simp add: critical_def)
  moreover have "v \<le> 1" "0 \<le> v"
    using sem_inv_bounds [OF assms(1,2) v] assms(3) by (auto simp: critical_def setting_def of_bool_def split: if_splits)
  ultimately show "semval s = Some 1" "s' = put_proc i ((procs s ! i)\<lparr>ppc := PCritical, pundo := 1,
      pout := pout (procs s ! i) @ says\<rparr>) (s\<lparr>semval := Some 0\<rparr>)"
    using assms(4) v by (auto simp: semaphore_operation_def semop_def Let_def split: if_splits)
qed

lemma unlock_step:
  assumes "sem_inv s" and "i < length (procs s)" and "ppc (procs s ! i) = PCritical"
  shows "semval s = Some 0" and "semaphore_operation 1 i PAfter says s = Some (put_proc i ((procs s ! i)\<lparr>ppc := PAfter,
    pundo := 0, pout := pout (procs s ! i) @ says\<rparr>) (s\<lparr>semval := Some 1\<rparr>))"
proof -
  from exists_at [OF assms(1,2)] assms(3) obtain v where v: "semval s = Some v" by (auto simp: is_ended_def)
  have u: "pundo (procs s ! i) = 1" using sem_inv_at [OF assms(1,2)] assms(3) by (simp add: critical_def)
  have "v = 0" using sem_inv_bounds [OF assms(1,2) v] assms(3) by (auto simp: critical_def setting_def of_bool_def split: if_splits)
  with u v show "semval s = Some 0" "semaphore_operation 1 i PAfter says s = Some (put_proc i ((procs s ! i)\<lparr>ppc := PAfter,
    pundo := 0, pout := pout (procs s ! i) @ says\<rparr>) (s\<lparr>semval := Some 1\<rparr>))"
    by (simp_all add: semaphore_operation_def semop_def Let_def)
qed

lemma run_inv:
  assumes "sem_inv s" and "sem_main i s = Some s'"
  shows "sem_inv s'"
proof -
  from assms(2) have i: "i < length (procs s)" by (auto simp: sem_main_def split: if_splits)
  define p where "p = procs s ! i"
  note bounds = sem_inv_bounds [OF assms(1) i]
  have u: "pundo p = critical p" using sem_inv_at [OF assms(1) i] by (simp add: p_def)
  show ?thesis
  proof (cases "ppc p")
    case PInit
    show ?thesis
    proof (cases "semval s")
      case None
      then have s': "s' = put_proc i (p\<lparr>ppc := PCreate\<rparr>) s"
        using assms(2) i PInit by (simp add: sem_main_def init_semaphore_def Let_def p_def)
      show ?thesis
        by (rule sem_inv_none [OF assms(1) i None, where p = "p\<lparr>ppc := PCreate\<rparr>"])
          (use None u PInit sem_inv_none_sums(3) [OF assms(1) None] in \<open>simp_all add: s' critical_def\<close>)
    next
      case (Some v)
      define q where "q = p\<lparr>ppc := PLock, pout := pout p @ [Out ''Vor dem kritischen Codeabschnitt ...\<newline>'']\<rparr>"
      have s': "s' = put_proc i q s"
        using assms(2) i PInit Some by (simp add: sem_main_def init_semaphore_def Let_def p_def q_def)
      show ?thesis
        by (rule sem_inv_put [OF assms(1) i, where p = q and v = v])
          (use Some u PInit sem_inv_some [OF assms(1) Some] in \<open>simp_all add: s' q_def critical_def setting_def p_def\<close>)
    qed
  next
    case PCreate
    show ?thesis
    proof (cases "semval s")
      case None
      define q where "q = p\<lparr>ppc := PSet, pout := pout p @ [Out (''(angelegt) Semaphor-ID : '' @ show_int (sem_id s) @ ''\<newline>'')]\<rparr>"
      have s': "s' = put_proc i q (s\<lparr>semval := Some 0\<rparr>)"
        using assms(2) i PCreate None by (simp add: sem_main_def init_semaphore_def Let_def p_def q_def)
      show ?thesis
        by (rule sem_inv_put [OF assms(1) i, where p = q and v = 0])
          (use None u PCreate sem_inv_none_sums [OF assms(1) None] in \<open>simp_all add: s' q_def critical_def setting_def p_def\<close>)
    next
      case (Some v)
      define q where "q = p\<lparr>ppc := PEnded (Some EXIT_FAILURE), pundo := 0,
        pout := pout p @ [Out ''Fehler beim Anlegen des semaphors ...\<newline>'']\<rparr>"
      have s': "s' = put_proc i q (s\<lparr>semval := Some (sem_undo v (pundo p))\<rparr>)"
        using assms(2) i PCreate Some by (simp add: sem_main_def init_semaphore_def proc_exit_def Let_def p_def q_def)
      have "sem_undo v (pundo p) = v" using u PCreate bounds [OF Some]
        by (simp add: sem_undo_def critical_def p_def min_absorb2)
      then show ?thesis
        by (intro sem_inv_put [OF assms(1) i, where p = q and v = v])
          (use Some u PCreate sem_inv_some [OF assms(1) Some] in \<open>simp_all add: s' q_def critical_def setting_def p_def\<close>)
    qed
  next
    case PSet
    then obtain v where v: "semval s = Some v" using exists_at [OF assms(1) i] by (auto simp: p_def is_ended_def)
    have z: "v = 0" "\<not> orphaned s" "n_setting s = 1" "n_critical s = 0"
      using sem_inv_some [OF assms(1) v] sums_nonneg [of s] sums_at [OF i] PSet
      by (auto simp: setting_def critical_def p_def of_bool_def split: if_splits)
    define s1 where "s1 = s\<lparr>semval := Some 1, procs := map (\<lambda>q. q\<lparr>pundo := 0\<rparr>) (procs s)\<rparr>"
    define q where "q = p\<lparr>ppc := PLock, pundo := 0, pout := pout p @ [Out ''Vor dem kritischen Codeabschnitt ...\<newline>'']\<rparr>"
    have s': "s' = put_proc i q s1"
      using assms(2) i PSet by (simp add: sem_main_def init_semaphore_def Let_def p_def q_def s1_def)
    have "critical x = 0" if "x \<in> set (procs s)" for x
    proof -
      from that obtain j where "j < length (procs s)" "x = procs s ! j" by (auto simp: in_set_conv_nth)
      with sums_at(1) [of j s] z(4) show ?thesis
        by (auto simp: critical_def of_bool_def split: if_splits)
    qed
    then have "\<forall>x \<in> set (procs s'). pundo x = critical x"
      using i by (auto simp: s' s1_def q_def critical_def dest!: set_update_subset)
    moreover have "n_critical s' = 0" "n_setting s' = 0"
      using i z PSet put_proc_sums [of i s1 q] by (simp_all add: s' s1_def q_def p_def critical_def setting_def)
    ultimately show ?thesis using z by (simp add: sem_inv_def s' s1_def)
  next
    case PLock
    then obtain says where op: "semaphore_operation (-1) i PCritical says s = Some s'"
      using assms(2) i by (auto simp: sem_main_def Let_def p_def)
    note st = lock_step [OF assms(1) i PLock [unfolded p_def] op]
    show ?thesis
      by (rule sem_inv_put [OF assms(1) i, where v = 0 and p = "p\<lparr>ppc := PCritical, pundo := 1, pout := pout p @ says\<rparr>"])
        (use PLock sem_inv_some [OF assms(1) st(1)] in \<open>simp_all add: st(2) critical_def setting_def p_def\<close>)
  next
    case PCritical
    define says where "says = [Out ''Nach dem kritischen Codeabschnitt ...\<newline>'']"
    have op: "semaphore_operation 1 i PAfter says s = Some s'"
      using assms(2) i PCritical by (simp add: sem_main_def Let_def p_def says_def)
    note st = unlock_step [OF assms(1) i PCritical [unfolded p_def]]
    have s': "s' = put_proc i (p\<lparr>ppc := PAfter, pundo := 0, pout := pout p @ says\<rparr>) (s\<lparr>semval := Some 1\<rparr>)"
      using op st(2) [of says] by (simp add: p_def)
    show ?thesis
      by (rule sem_inv_put [OF assms(1) i, where v = 1 and p = "p\<lparr>ppc := PAfter, pundo := 0, pout := pout p @ says\<rparr>"])
        (use PCritical sem_inv_some [OF assms(1) st(1)] in \<open>simp_all add: s' critical_def setting_def p_def\<close>)
  next
    case PAfter
    then obtain v where v: "semval s = Some v" using exists_at [OF assms(1) i] by (auto simp: p_def is_ended_def)
    define q where "q = p\<lparr>ppc := PEnded (Some EXIT_SUCCESS), pundo := 0\<rparr>"
    have "sem_undo v (pundo p) = v" using u PAfter bounds [OF v]
      by (simp add: sem_undo_def critical_def p_def min_absorb2)
    then have s': "s' = put_proc i q (s\<lparr>semval := Some v\<rparr>)"
      using assms(2) i PAfter v by (simp add: sem_main_def proc_exit_def Let_def p_def q_def)
    show ?thesis
      by (rule sem_inv_put [OF assms(1) i, where p = q and v = v])
        (use v u PAfter sem_inv_some [OF assms(1) v] in \<open>simp_all add: s' q_def critical_def setting_def p_def\<close>)
  next
    case (PEnded c)
    with assms(2) i show ?thesis by (simp add: sem_main_def Let_def p_def)
  qed
qed

lemma sem_start_inv: "v = None \<or> v = Some 1 \<Longrightarrow> sem_inv (sem_start sid v pids)"
proof -
  have "sum_list (map (\<lambda>x. critical \<lparr>pid = x, ppc = PInit, pundo = 0, pout = []\<rparr>) pids) = 0"
    "sum_list (map (\<lambda>x. setting \<lparr>pid = x, ppc = PInit, pundo = 0, pout = []\<rparr>) pids) = 0"
    by (simp_all add: critical_def setting_def)
  then show "v = None \<or> v = Some 1 \<Longrightarrow> sem_inv (sem_start sid v pids)"
    by (auto simp: sem_inv_def sem_start_def n_critical_def n_setting_def critical_def comp_def)
qed

lemma sem_act_inv: "sem_inv s \<Longrightarrow> sem_act a s = Some s' \<Longrightarrow> sem_inv s'"
  by (cases a) (auto dest: run_inv crash_inv)

lemma n_critical_le: "sem_inv s \<Longrightarrow> n_critical s \<le> 1"
proof (cases "semval s")
  case None
  then show "sem_inv s \<Longrightarrow> ?thesis" using sem_inv_none_sums [of s] by simp
next
  case (Some v)
  then show "sem_inv s \<Longrightarrow> ?thesis" using sem_inv_some [of s v] sums_nonneg [of s] by (auto simp: of_bool_def split: if_splits)
qed

interpretation sem: protocol sem_act sem_init sem_inv
  by unfold_locales (auto simp: sem_init_def sem_start_inv dest: sem_act_inv)

interpretation sem_mutex: mutual_exclusion sem_act sem_init "\<lambda>_. True" sem_inv "\<lambda>s. nat (n_critical s)"
  by unfold_locales (use n_critical_le in \<open>simp add: nat_le_iff\<close>)

section \<open>Termination\<close>

fun rank :: "sem_pc \<Rightarrow> nat" where
  "rank PInit = 6"
| "rank PCreate = 5"
| "rank PSet = 4"
| "rank PLock = 3"
| "rank PCritical = 2"
| "rank PAfter = 1"
| "rank (PEnded _) = 0"

definition sem_rank :: "sem_sys \<Rightarrow> nat" where
  "sem_rank s = sum_list (map rank (map ppc (procs s)))"

definition all_ended :: "sem_sys \<Rightarrow> bool" where
  "all_ended s \<longleftrightarrow> (\<forall>p \<in> set (procs s). is_ended p)"

lemma sem_main_moves:
  assumes "sem_main i s = Some s'"
  shows "i < length (procs s) \<and> orphaned s' = orphaned s \<and>
    (\<exists>pc. map ppc (procs s') = (map ppc (procs s))[i := pc] \<and> rank pc < rank (ppc (procs s ! i)))"
proof -
  from assms have i: "i < length (procs s)" by (auto simp: sem_main_def split: if_splits)
  have reset: "map (ppc \<circ> (\<lambda>q. q\<lparr>pundo := 0\<rparr>)) (procs s) = map ppc (procs s)" by simp
  show ?thesis
  proof (cases "ppc (procs s ! i)")
    case PInit
    with assms i have "map ppc (procs s') = (map ppc (procs s))[i := PCreate] \<or>
        map ppc (procs s') = (map ppc (procs s))[i := PLock]" "orphaned s' = orphaned s"
      by (auto simp: sem_main_def init_semaphore_def Let_def map_update split: if_splits)
    with i PInit show ?thesis by force
  next
    case PCreate
    with assms i have "map ppc (procs s') = (map ppc (procs s))[i := PSet] \<or>
        map ppc (procs s') = (map ppc (procs s))[i := PEnded (Some EXIT_FAILURE)]" "orphaned s' = orphaned s"
      by (auto simp: sem_main_def init_semaphore_def proc_exit_def Let_def map_update split: if_splits)
    with i PCreate show ?thesis by force
  next
    case PSet
    with assms i have "map ppc (procs s') = (map ppc (procs s))[i := PLock]" "orphaned s' = orphaned s"
      by (auto simp: sem_main_def init_semaphore_def Let_def map_update comp_def)
    with i PSet show ?thesis by force
  next
    case PLock
    with assms i have "map ppc (procs s') = (map ppc (procs s))[i := PCritical] \<or>
        map ppc (procs s') = (map ppc (procs s))[i := PEnded (Some EXIT_FAILURE)]" "orphaned s' = orphaned s"
      by (auto simp: sem_main_def semaphore_operation_def proc_exit_def Let_def map_update split: sem_result.splits option.splits)
    with i PLock show ?thesis by force
  next
    case PCritical
    with assms i have "map ppc (procs s') = (map ppc (procs s))[i := PAfter] \<or>
        map ppc (procs s') = (map ppc (procs s))[i := PEnded (Some EXIT_FAILURE)]" "orphaned s' = orphaned s"
      by (auto simp: sem_main_def semaphore_operation_def proc_exit_def Let_def map_update split: sem_result.splits option.splits)
    with i PCritical show ?thesis by force
  next
    case PAfter
    with assms i have "map ppc (procs s') = (map ppc (procs s))[i := PEnded (Some EXIT_SUCCESS)]" "orphaned s' = orphaned s"
      by (auto simp: sem_main_def proc_exit_def Let_def map_update)
    with i PAfter show ?thesis by force
  next
    case (PEnded c)
    with assms i show ?thesis by (simp add: sem_main_def Let_def)
  qed
qed

lemma sem_rank_decreases:
  assumes "sem_main i s = Some s'"
  shows "sem_rank s' < sem_rank s"
proof -
  from sem_main_moves [OF assms] obtain pc where pc: "i < length (procs s)"
    "map ppc (procs s') = (map ppc (procs s))[i := pc]" "rank pc < rank (ppc (procs s ! i))" by blast
  have "rank (ppc (procs s ! i)) \<le> sum_list (map rank (map ppc (procs s)))"
    using pc(1) by (intro member_le_sum_list) auto
  with pc show ?thesis by (simp add: sem_rank_def map_update sum_list_update del: map_map)
qed

lemma sum_list_pos_ex:
  assumes "(0::int) < sum_list (map f xs)"
  shows "\<exists>x \<in> set xs. 0 < f x"
proof (rule ccontr)
  assume "\<not> ?thesis"
  then have "sum_list (map f xs) \<le> sum_list (map (\<lambda>_. 0) xs)" by (intro sum_list_mono) auto
  with assms show False by simp
qed

lemma sem_progress:
  assumes "sem_inv s" and "\<not> orphaned s" and "\<not> all_ended s"
  shows "\<exists>i s'. sem_main i s = Some s'"
proof -
  have go: "\<exists>s'. sem_main j s = Some s'" if "j < length (procs s)" "\<not> is_ended (procs s ! j)" "ppc (procs s ! j) \<noteq> PLock" for j
    using that unlock_step(2) [OF assms(1) that(1)]
    by (cases "ppc (procs s ! j)") (auto simp: sem_main_def Let_def is_ended_def)
  from assms(3) obtain i where i: "i < length (procs s)" "\<not> is_ended (procs s ! i)"
    by (auto simp: all_ended_def in_set_conv_nth)
  show ?thesis
  proof (cases "ppc (procs s ! i) = PLock")
    case False
    with go i show ?thesis by blast
  next
    case True
    then obtain v where v: "semval s = Some v" using exists_at [OF assms(1) i(1)] by (auto simp: is_ended_def)
    show ?thesis
    proof (cases "v = 0")
      case False
      with sem_inv_bounds [OF assms(1) i(1) v] have "v = 1" by linarith
      with True v i show ?thesis
        by (intro exI [of _ i]) (auto simp: sem_main_def semaphore_operation_def semop_def Let_def)
    next
      case True
      with sem_inv_some [OF assms(1) v] assms(2) have "0 < sum_list (map (\<lambda>p. critical p + setting p) (procs s))"
        by (simp add: n_critical_def n_setting_def sum_list_addf)
      from sum_list_pos_ex [OF this] obtain j where j: "j < length (procs s)" "0 < critical (procs s ! j) + setting (procs s ! j)"
        by (auto simp: in_set_conv_nth)
      then have "ppc (procs s ! j) = PCritical \<or> ppc (procs s ! j) = PSet" by (auto simp: critical_def setting_def split: if_splits)
      with go [OF j(1)] show ?thesis by (auto simp: is_ended_def)
    qed
  qed
qed

interpretation sem_term: terminating_protocol sem_main sem_init "\<lambda>s. sem_inv s \<and> \<not> orphaned s" sem_rank all_ended
proof
  show "sem_inv s \<and> \<not> orphaned s" if "sem_init s" for s
    using that sem.inv_init [OF that] by (auto simp: sem_init_def sem_start_def)
  show "sem_inv s' \<and> \<not> orphaned s'" if "sem_inv s \<and> \<not> orphaned s" "sem_main i s = Some s'" for s i s'
    using that run_inv sem_main_moves [OF that(2)] by blast
  show "sem_rank s' < sem_rank s" if "sem_inv s \<and> \<not> orphaned s" "sem_main i s = Some s'" for s i s'
    by (rule sem_rank_decreases [OF that(2)])
  show "\<exists>i s'. sem_main i s = Some s'" if "sem_inv s \<and> \<not> orphaned s" "\<not> all_ended s" for s
    using that sem_progress by blast
qed

section \<open>What the lock guarantees\<close>

text \<open>
  C10: mutual exclusion with crashes: whatever number of processes are started, however they
  are interleaved and whichever of them are killed, at most one is in the critical section; and
  when nobody is inside and nobody is or was killed while creating the semaphore, it is free: a
  process that dies inside does not keep the lock.
\<close>

theorem sem_mutual_exclusion:
  assumes "v = None \<or> v = Some 1" and "reach sem_act (sem_start sid v pids) s"
  shows "n_critical s \<le> 1 \<and>
    (semval s \<noteq> None \<and> n_critical s = 0 \<and> n_setting s = 0 \<and> \<not> orphaned s \<longrightarrow> semval s = Some 1)"
proof -
  have init: "sem_init (sem_start sid v pids)" using assms(1) by (auto simp: sem_init_def)
  have "n_critical s \<le> 1" using sem_mutex.one_inside [OF assms(2) init] by (simp add: nat_le_iff)
  moreover have "sem_inv s" by (rule sem.always [OF assms(2) init])
  ultimately show ?thesis by (auto simp: sem_inv_def)
qed

theorem sem_mutual_exclusion_witness:
  "\<exists>s. reach sem_act (sem_start 3 None [100, 101]) s \<and> n_critical s \<le> 1 \<and> semval s = Some 1"
proof -
  define s where "s = the (run sem_act [Run 0, Run 0, Run 0, Run 0, Crash 0] (sem_start 3 None [100, 101]))"
  have r: "run sem_act [Run 0, Run 0, Run 0, Run 0, Crash 0] (sem_start 3 None [100, 101]) = Some s"
    and c: "semval s \<noteq> None \<and> n_critical s = 0 \<and> n_setting s = 0 \<and> \<not> orphaned s"
    unfolding s_def by code_simp+
  from sem_mutual_exclusion [OF _ run_reach [OF r]] c run_reach [OF r] show ?thesis by auto
qed

text \<open>
  C11: no deadlock: if no process is killed, every run has at most six steps for each process,
  and a run that cannot be continued has ended all of them.
\<close>

theorem sem_terminates:
  assumes "v = None \<or> v = Some 1" and "run sem_main is (sem_start sid v pids) = Some s"
  shows "length is \<le> 6 * length pids \<and> ((\<forall>i. sem_main i s = None) \<longrightarrow> all_ended s)"
proof -
  have inv: "sem_inv (sem_start sid v pids) \<and> \<not> orphaned (sem_start sid v pids)"
    using sem_start_inv [OF assms(1)] by (simp add: sem_start_def)
  have "sem_rank (sem_start sid v pids) = 6 * length pids"
    by (simp add: sem_rank_def sem_start_def comp_def sum_list_triv)
  with sem_term.run_bound [OF inv assms(2)] sem_term.stuck_final [OF inv assms(2)] show ?thesis by auto
qed

theorem sem_terminates_witness:
  "\<exists>s. run sem_main [0, 0, 0, 0, 0, 0] (sem_start 3 None [100]) = Some s \<and> all_ended s"
proof -
  define s where "s = the (run sem_main [0, 0, 0, 0, 0, 0] (sem_start 3 None [100]))"
  have r: "run sem_main [0, 0, 0, 0, 0, 0] (sem_start 3 None [100]) = Some s"
    and c: "length (procs s) = 1 \<and> is_ended (procs s ! 0)"
    unfolding s_def by code_simp+
  have "sem_main i s = None" for i
    using c by (cases i) (auto simp: sem_main_def is_ended_def Let_def split: sem_pc.splits)
  with sem_terminates [of None "[0, 0, 0, 0, 0, 0]" 3 "[100]" s] r show ?thesis by auto
qed

text \<open>
  The window between looking for the semaphore and creating it: of two processes started
  together one can end with a failure although nothing is wrong, and a process that is killed
  between creating the semaphore and setting it leaves it at 0, where the others wait forever.
\<close>

theorem sem_creation_window:
  "leads sem_act [Run 0, Run 1, Run 0, Run 1] (sem_start 3 None [100, 101])
     (\<lambda>s. ppc (procs s ! 1) = PEnded (Some EXIT_FAILURE) \<and> semval s \<noteq> None) \<and>
   leads sem_act [Run 0, Run 0, Crash 0, Run 1] (sem_start 3 None [100, 101])
     (\<lambda>s. ppc (procs s ! 1) = PLock \<and> sem_main 1 s = None \<and> sem_main 0 s = None)"
  by (intro conjI) code_simp+

end
