(* ===== verification/Pthread.thy ===== *)
theory Pthread
  imports Interleave CString
begin

text \<open>
  What the thread programs of \<^verbatim>\<open>src/10_Threads\<close> use of POSIX threads: mutexes, condition variables,
  semaphores and streams shared by threads. A mutex is its owner; the threads that wait for a
  condition are those whose program counter says so. \<^verbatim>\<open>pthread_cond_signal\<close> wakes one waiting
  thread, chosen by the environment; waking up without a signal is a step of its own, so more
  than one thread may continue after a signal.
\<close>

definition mutex_lock :: "nat \<Rightarrow> nat option \<Rightarrow> nat option option" where
  "mutex_lock i m = (if m = None then Some (Some i) else None)"

text \<open>
  \<open>wake p\<close> is where a thread at \<open>p\<close> continues when it is woken, and \<open>None\<close> when it does not wait.
  \<^verbatim>\<open>pthread_cond_signal\<close> moves one of the waiting threads, if there is one.
\<close>

definition sleepers :: "('p \<Rightarrow> 'p option) \<Rightarrow> 'p list \<Rightarrow> nat list" where
  "sleepers wake pcs = filter (\<lambda>i. wake (pcs ! i) \<noteq> None) [0..<length pcs]"

definition cond_wake :: "('p \<Rightarrow> 'p option) \<Rightarrow> nat \<Rightarrow> 'p list \<Rightarrow> 'p list" where
  "cond_wake wake k pcs =
     (let ws = sleepers wake pcs in
      if ws = [] then pcs else (let j = ws ! (k mod length ws) in pcs[j := the (wake (pcs ! j))]))"

text \<open>The same for threads that wait at \<open>w\<close> and continue at \<open>r\<close>.\<close>

definition cond_signal :: "'p \<Rightarrow> 'p \<Rightarrow> nat \<Rightarrow> 'p list \<Rightarrow> 'p list" where
  "cond_signal w r k pcs = cond_wake (\<lambda>p. if p = w then Some r else None) k pcs"

lemma set_sleepers: "set (sleepers wake pcs) = {i. i < length pcs \<and> wake (pcs ! i) \<noteq> None}"
  by (auto simp: sleepers_def)

lemma cond_wake_cases:
  obtains (none) "\<forall>p \<in> set pcs. wake p = None" "cond_wake wake k pcs = pcs"
  | (one) j p where "j < length pcs" "wake (pcs ! j) = Some p" "cond_wake wake k pcs = pcs[j := p]"
proof (cases "sleepers wake pcs = []")
  case True
  then have "set (sleepers wake pcs) = {}" by simp
  then have "\<forall>p \<in> set pcs. wake p = None" unfolding set_sleepers by (auto simp: in_set_conv_nth)
  with True none show thesis by (simp add: cond_wake_def Let_def)
next
  case False
  let ?j = "sleepers wake pcs ! (k mod length (sleepers wake pcs))"
  have "?j \<in> set (sleepers wake pcs)" using False by simp
  then have "?j < length pcs \<and> wake (pcs ! ?j) \<noteq> None" unfolding set_sleepers by blast
  with False one [of ?j] show thesis by (auto simp: cond_wake_def Let_def)
qed

lemma length_cond_wake [simp]: "length (cond_wake wake k pcs) = length pcs"
  by (cases rule: cond_wake_cases [of pcs wake k]) simp_all

lemma cond_signal_cases:
  obtains (none) "w \<notin> set pcs" "cond_signal w r k pcs = pcs"
  | (one) j where "j < length pcs" "pcs ! j = w" "cond_signal w r k pcs = pcs[j := r]"
proof (cases rule: cond_wake_cases [of pcs "\<lambda>p. if p = w then Some r else None" k])
  case none
  then show thesis using that(1) by (fastforce simp: cond_signal_def split: if_splits)
next
  case (one j p)
  then show thesis using that(2) [of j] by (simp add: cond_signal_def split: if_splits)
qed

lemma length_cond_signal [simp]: "length (cond_signal w r k pcs) = length pcs"
  by (simp add: cond_signal_def)

text \<open>The measure of a list of program counters, and what moving one of them does to it.\<close>

definition total :: "('p \<Rightarrow> nat) \<Rightarrow> 'p list \<Rightarrow> nat" where
  "total f pcs = sum_list (map f pcs)"

lemma total_update: "i < length pcs \<Longrightarrow> total f (pcs[i := p]) + f (pcs ! i) = total f pcs + f p"
proof -
  assume i: "i < length pcs"
  then have "f (pcs ! i) \<le> sum_list (map f pcs)" by (intro member_le_sum_list) auto
  with i show ?thesis by (simp add: total_def map_update sum_list_update)
qed

lemma total_update_less:
  assumes "i < length pcs" and "f p < f (pcs ! i)"
  shows "total f (pcs[i := p]) < total f pcs"
  using total_update [of i pcs f p] assms by simp

lemma total_signal_le: "f r \<le> f w \<Longrightarrow> total f (cond_signal w r k pcs) \<le> total f pcs"
proof (cases rule: cond_signal_cases [of w pcs r k])
  case (one j)
  assume le: "f r \<le> f w"
  show ?thesis
  proof (cases "f r = f w")
    case True
    with one have "map f (pcs[j := r]) = map f pcs" by (simp add: map_update list_eq_iff_nth_eq nth_list_update)
    with one show ?thesis by (simp add: total_def)
  next
    case False
    with le one total_update_less [of j pcs f r] show ?thesis by simp
  qed
qed simp

lemma total_replicate [simp]: "total f (replicate n p) = n * f p"
  by (simp add: total_def sum_list_replicate)

text \<open>
  The threads in \<open>holds\<close> states are those that own the mutex.
\<close>

definition owner_ok :: "('p \<Rightarrow> bool) \<Rightarrow> nat option \<Rightarrow> 'p list \<Rightarrow> bool" where
  "owner_ok holds m pcs \<longleftrightarrow> (\<forall>i. m = Some i \<longrightarrow> i < length pcs) \<and> (\<forall>i < length pcs. holds (pcs ! i) \<longleftrightarrow> m = Some i)"

lemma owner_ok_lock:
  "owner_ok holds None pcs \<Longrightarrow> i < length pcs \<Longrightarrow> holds p \<Longrightarrow> owner_ok holds (Some i) (pcs[i := p])"
  by (auto simp: owner_ok_def nth_list_update)

lemma owner_ok_unlock:
  "owner_ok holds m pcs \<Longrightarrow> i < length pcs \<Longrightarrow> holds (pcs ! i) \<Longrightarrow> \<not> holds p \<Longrightarrow> owner_ok holds None (pcs[i := p])"
  by (auto simp: owner_ok_def nth_list_update)

lemma owner_ok_move:
  "owner_ok holds m pcs \<Longrightarrow> (i < length pcs \<Longrightarrow> holds p = holds (pcs ! i)) \<Longrightarrow> owner_ok holds m (pcs[i := p])"
  by (cases "i < length pcs") (auto simp: owner_ok_def nth_list_update)

lemma owner_ok_signal:
  assumes "owner_ok holds m pcs" and "holds w = holds r"
  shows "owner_ok holds m (cond_signal w r k pcs)"
proof (cases rule: cond_signal_cases [of w pcs r k])
  case (one j)
  with assms show ?thesis by (auto intro: owner_ok_move)
qed (use assms in simp)

text \<open>If the mutex is held, its owner is one of the threads; if not, nobody is in such a state.\<close>

lemma owner_ok_cases:
  assumes "owner_ok holds m pcs"
  obtains (free) "m = None" "\<forall>p \<in> set pcs. \<not> holds p"
  | (held) i where "m = Some i" "i < length pcs" "holds (pcs ! i)"
proof (cases m)
  case None
  with assms have "\<forall>p \<in> set pcs. \<not> holds p" by (auto simp: owner_ok_def in_set_conv_nth)
  with None free show thesis by blast
next
  case (Some i)
  with assms held [of i] show thesis by (simp add: owner_ok_def)
qed

end
