(* ===== verification/ThreadCond.thy ===== *)
theory ThreadCond
  imports Pthread
begin

text \<open>
  Threads that wait for a condition: \<^verbatim>\<open>src/10_Threads/thread9.c\<close>, a chain of three threads that wake
  each other. The threads interleave freely; the calls of \<^verbatim>\<open>sleep\<close> order nothing.
\<close>

section \<open>The chain of \<^verbatim>\<open>thread9.c\<close>\<close>

abbreviation (input) THREAD_MAX :: nat where "THREAD_MAX \<equiv> 3"

text \<open>
  Where a thread is: not created, at its start, before \<^verbatim>\<open>pthread_mutex_lock\<close>, before
  \<^verbatim>\<open>pthread_cond_wait\<close>, waiting, woken and waiting for the mutex, before
  \<^verbatim>\<open>pthread_cond_signal\<close>, before \<^verbatim>\<open>pthread_mutex_unlock\<close>, returned.
\<close>

datatype t9pc = T9none | T9start | T9lock | T9cond | T9wait | T9woken | T9signal | T9unlock | T9done
datatype t9main = M9create nat | M9sleep | M9signal | M9join nat | M9exit int

record t9 =
  t9mutex :: "nat option"
  t9pcs :: "t9pc list"
  t9main :: t9main
  t9out :: "say list"

definition t9go :: "nat \<Rightarrow> t9pc \<Rightarrow> t9 \<Rightarrow> t9" where
  "t9go i p s = s\<lparr>t9pcs := (t9pcs s)[i := p]\<rparr>"

text \<open>The next step of the function \<^verbatim>\<open>threads\<close> in thread \<open>i\<close>; \<open>id\<close> is its \<^verbatim>\<open>pthread_self()\<close>.\<close>

definition threads :: "nat \<Rightarrow> int \<Rightarrow> nat \<Rightarrow> t9 \<Rightarrow> t9 option" where
  "threads i tid k s =
     (if length (t9pcs s) \<le> i then None
      else case t9pcs s ! i of
        T9start \<Rightarrow> Some (t9go i T9lock (s\<lparr>t9out := t9out s @
          [Out (TAB # ''->Thread '' @ show_int tid @ '' wartet auf Bedingung\<newline>'')]\<rparr>))
      | T9lock \<Rightarrow> map_option (\<lambda>m. t9go i T9cond (s\<lparr>t9mutex := m\<rparr>)) (mutex_lock i (t9mutex s))
      | T9cond \<Rightarrow> Some (t9go i T9wait (s\<lparr>t9mutex := None\<rparr>))
      | T9woken \<Rightarrow> map_option (\<lambda>m. t9go i T9signal (s\<lparr>t9mutex := m, t9out := t9out s @
          [Out (''->Thread '' @ show_int tid @ '' hat Bedingung erhalten\<newline>''),
           Out (''->Thread '' @ show_int tid @ '' Sende Bedingugsvariable\<newline>'')]\<rparr>)) (mutex_lock i (t9mutex s))
      | T9signal \<Rightarrow> Some (s\<lparr>t9pcs := cond_signal T9wait T9woken k ((t9pcs s)[i := T9unlock])\<rparr>)
      | T9unlock \<Rightarrow> Some (t9go i T9done (s\<lparr>t9mutex := None\<rparr>))
      | _ \<Rightarrow> None)"

text \<open>The next step of \<^verbatim>\<open>main\<close>; \<open>ok\<close>: a thread can be created.\<close>

definition thread9_main :: "int \<Rightarrow> bool \<Rightarrow> nat \<Rightarrow> t9 \<Rightarrow> t9 option" where
  "thread9_main tid ok k s =
     (case t9main s of
        M9create i \<Rightarrow>
          (if i < THREAD_MAX then
             (if ok then Some (t9go i T9start (s\<lparr>t9main := M9create (Suc i)\<rparr>))
              else Some (s\<lparr>t9main := M9exit EXIT_FAILURE, t9out := t9out s @ [Err ''Konnte Thread nicht erzeugen ...!\<newline>'']\<rparr>))
           else Some (s\<lparr>t9main := M9sleep, t9out := t9out s @ [Out ''\<newline>-> Main-Thread hat 3 Threads erzeugt\<newline>'']\<rparr>))
      | M9sleep \<Rightarrow> Some (s\<lparr>t9main := M9signal, t9out := t9out s @ [Out ''->Main-Thread: Sende Bedingugsvariable\<newline>'']\<rparr>)
      | M9signal \<Rightarrow> Some (s\<lparr>t9main := M9join 0, t9pcs := cond_signal T9wait T9woken k (t9pcs s)\<rparr>)
      | M9join i \<Rightarrow>
          (if i < THREAD_MAX then (if t9pcs s ! i = T9done then Some (s\<lparr>t9main := M9join (Suc i)\<rparr>) else None)
           else Some (s\<lparr>t9main := M9exit EXIT_SUCCESS, t9out := t9out s @
             [Out (''<- Main-Thread beendet (ID:'' @ show_int tid @ '')\<newline>'')]\<rparr>))
      | M9exit c \<Rightarrow> None)"

text \<open>
  The steps: of a thread or of \<^verbatim>\<open>main\<close>, with the choices of the environment, and a waiting thread
  that wakes up without a signal. After \<^verbatim>\<open>exit\<close> there are none.
\<close>

datatype t9act = T9Thread nat int nat | T9Main int bool nat | T9Spurious nat

fun t9_act :: "t9act \<Rightarrow> t9 \<Rightarrow> t9 option" where
  "t9_act (T9Thread i tid k) s = (case t9main s of M9exit c \<Rightarrow> None | _ \<Rightarrow> threads i tid k s)"
| "t9_act (T9Main tid ok k) s = thread9_main tid ok k s"
| "t9_act (T9Spurious i) s =
     (case t9main s of
        M9exit c \<Rightarrow> None
      | _ \<Rightarrow> if i < length (t9pcs s) \<and> t9pcs s ! i = T9wait then Some (t9go i T9woken s) else None)"

definition thread9_start :: "int \<Rightarrow> t9" where
  "thread9_start tid = \<lparr>t9mutex = None, t9pcs = replicate THREAD_MAX T9none, t9main = M9create 0,
     t9out = [Out (''\<newline>-> Main-Thread gestartet (ID:'' @ show_int tid @ '')\<newline>'')]\<rparr>"

text \<open>
  The situation the program aims at with \<^verbatim>\<open>sleep(1)\<close>: all three threads wait when \<^verbatim>\<open>main\<close> signals.
\<close>

definition all_waiting :: "t9 \<Rightarrow> bool" where
  "all_waiting s \<longleftrightarrow> t9main s = M9signal \<and> t9mutex s = None \<and> t9pcs s = replicate THREAD_MAX T9wait"

definition holds9 :: "t9pc \<Rightarrow> bool" where
  "holds9 p \<longleftrightarrow> p = T9cond \<or> p = T9signal \<or> p = T9unlock"

text \<open>As long as a thread waits, another one is on its way to signal.\<close>

definition chained :: "t9pc list \<Rightarrow> bool" where
  "chained pcs \<longleftrightarrow> (T9wait \<in> set pcs \<longrightarrow> T9woken \<in> set pcs \<or> T9signal \<in> set pcs)"

definition t9_inv :: "t9 \<Rightarrow> bool" where
  "t9_inv s \<longleftrightarrow> length (t9pcs s) = THREAD_MAX \<and> owner_ok holds9 (t9mutex s) (t9pcs s) \<and>
     set (t9pcs s) \<subseteq> {T9wait, T9woken, T9signal, T9unlock, T9done} \<and>
     (case t9main s of
        M9signal \<Rightarrow> True
      | M9join j \<Rightarrow> j \<le> THREAD_MAX \<and> chained (t9pcs s) \<and> (\<forall>i < j. t9pcs s ! i = T9done)
      | M9exit c \<Rightarrow> c = EXIT_SUCCESS \<and> set (t9pcs s) \<subseteq> {T9done}
      | _ \<Rightarrow> False)"

fun rank9 :: "t9pc \<Rightarrow> nat" where
  "rank9 T9wait = 4" | "rank9 T9woken = 3" | "rank9 T9signal = 2" | "rank9 T9unlock = 1" | "rank9 T9done = 0"
| "rank9 _ = 5"

fun main_rank9 :: "t9main \<Rightarrow> nat" where
  "main_rank9 M9signal = 6" | "main_rank9 (M9join i) = 5 - i" | "main_rank9 (M9exit c) = 0" | "main_rank9 _ = 7"

definition t9_size :: "t9 \<Rightarrow> nat" where
  "t9_size s = total rank9 (t9pcs s) + main_rank9 (t9main s)"

lemma chained_signal:
  assumes "i < length pcs" "pcs ! i = T9signal"
  shows "chained (cond_signal T9wait T9woken k (pcs[i := T9unlock]))"
proof (cases rule: cond_signal_cases [of T9wait "pcs[i := T9unlock]" T9woken k])
  case (one j)
  then have "T9woken \<in> set (pcs[i := T9unlock, j := T9woken])" by (simp add: set_update_memI)
  with one show ?thesis by (simp add: chained_def)
qed (simp add: chained_def)

lemma chained_update:
  assumes "chained pcs" and "i < length pcs" and "(pcs ! i, p) \<in> {(T9wait, T9woken), (T9woken, T9signal), (T9unlock, T9done)}"
  shows "chained (pcs[i := p])"
proof -
  have keep: "q \<in> set (pcs[i := p])" if "q \<in> set pcs" "pcs ! i \<noteq> q" for q
    using that by (metis in_set_conv_nth length_list_update nth_list_update_neq)
  have new: "p \<in> set (pcs[i := p])" by (rule set_update_memI [OF assms(2)])
  from assms(3) consider "p = T9woken" | "p = T9signal" | "pcs ! i = T9unlock" "p = T9done" by auto
  then show ?thesis
  proof cases
    case 3
    with assms(1) keep show ?thesis by (auto simp: chained_def dest!: set_update_subset)
  qed (use new in \<open>auto simp: chained_def\<close>)
qed

text \<open>The steps of a thread in the states of the invariant.\<close>

lemma thread_step_cases:
  assumes "t9_inv s" and "threads i tid k s = Some s'"
  obtains (lock) "t9pcs s ! i = T9woken" "t9mutex s = None" "t9mutex s' = Some i" "t9pcs s' = (t9pcs s)[i := T9signal]"
  | (signal) "t9pcs s ! i = T9signal" "t9mutex s' = t9mutex s"
      "t9pcs s' = cond_signal T9wait T9woken k ((t9pcs s)[i := T9unlock])"
  | (unlock) "t9pcs s ! i = T9unlock" "t9mutex s' = None" "t9pcs s' = (t9pcs s)[i := T9done]"
proof -
  from assms(2) have i: "i < length (t9pcs s)" by (auto simp: threads_def split: if_splits)
  then have "t9pcs s ! i \<in> {T9wait, T9woken, T9signal, T9unlock, T9done}"
    using assms(1) nth_mem [OF i] unfolding t9_inv_def by blast
  with assms(2) i that show thesis
    by (auto simp: threads_def t9go_def mutex_lock_def split: if_splits)
qed

lemma threads_frame: "threads i tid k s = Some s' \<Longrightarrow> i < length (t9pcs s) \<and> t9main s' = t9main s"
  by (auto simp: threads_def t9go_def split: if_splits t9pc.splits)

lemma done_stays:
  assumes "\<forall>i < j. pcs ! i = T9done" and "pcs ! l \<noteq> T9done"
  shows "\<forall>i < j. pcs[l := p] ! i = T9done"
  using assms by (metis nth_list_update_neq)

lemma done_signal:
  assumes "\<forall>i < j. pcs ! i = T9done"
  shows "\<forall>i < j. cond_signal T9wait T9woken k pcs ! i = T9done"
proof (cases rule: cond_signal_cases [of T9wait pcs T9woken k])
  case (one l)
  with assms show ?thesis using done_stays [of j pcs l T9woken] by simp
qed (use assms in simp)

lemma set_signal: "set (cond_signal w r k pcs) \<subseteq> insert r (set pcs)"
proof (cases rule: cond_signal_cases [of w pcs r k])
  case (one j)
  then show ?thesis by (auto dest: set_update_subset)
qed auto

text \<open>What a step may change, seen from the other threads and from \<^verbatim>\<open>main\<close>.\<close>

lemma t9_inv_thread:
  assumes "t9_inv s" and "threads i tid k s = Some s'" and "\<forall>c. t9main s \<noteq> M9exit c"
  shows "t9_inv s'"
proof -
  have i: "i < length (t9pcs s)" "t9main s' = t9main s" using threads_frame [OF assms(2)] by simp_all
  have inv: "length (t9pcs s) = THREAD_MAX" "owner_ok holds9 (t9mutex s) (t9pcs s)"
    "set (t9pcs s) \<subseteq> {T9wait, T9woken, T9signal, T9unlock, T9done}" using assms(1) by (simp_all add: t9_inv_def)
  have dn: "\<forall>l < j. t9pcs s' ! l = T9done" if "\<forall>l < j. t9pcs s ! l = T9done" for j
    using assms(1,2)
  proof (cases rule: thread_step_cases)
    case signal
    then show ?thesis using done_signal [OF done_stays [OF that, of i T9unlock]] by simp
  qed (use done_stays [OF that] in auto)
  have "length (t9pcs s') = THREAD_MAX \<and> owner_ok holds9 (t9mutex s') (t9pcs s') \<and>
     set (t9pcs s') \<subseteq> {T9wait, T9woken, T9signal, T9unlock, T9done} \<and> (chained (t9pcs s) \<longrightarrow> chained (t9pcs s'))"
    using assms(1,2)
  proof (cases rule: thread_step_cases)
    case lock
    then have "owner_ok holds9 (t9mutex s') (t9pcs s')"
      using owner_ok_lock [of holds9 "t9pcs s" i T9signal] inv(2) i by (simp add: holds9_def)
    with lock inv i chained_update [of "t9pcs s" i T9signal] show ?thesis
      using set_update_subset_insert [of "t9pcs s" i T9signal] by auto
  next
    case signal
    have "owner_ok holds9 (t9mutex s) ((t9pcs s)[i := T9unlock])"
      using inv(2) signal(1) by (intro owner_ok_move) (auto simp: holds9_def)
    then have "owner_ok holds9 (t9mutex s') (t9pcs s')"
      using signal(2,3) owner_ok_signal [of holds9] by (simp add: holds9_def)
    with signal inv i chained_signal [OF i(1) signal(1)] show ?thesis
      using set_signal [of T9wait T9woken k "(t9pcs s)[i := T9unlock]"] set_update_subset_insert [of "t9pcs s" i T9unlock]
      by auto
  next
    case unlock
    then have "owner_ok holds9 (t9mutex s') (t9pcs s')"
      using owner_ok_unlock [OF inv(2) i(1), of T9done] by (simp add: holds9_def)
    with unlock inv i chained_update [of "t9pcs s" i T9done] show ?thesis
      using set_update_subset_insert [of "t9pcs s" i T9done] by auto
  qed
  with assms(1,3) dn i(2) show ?thesis by (auto simp: t9_inv_def split: t9main.splits)
qed

lemma t9_inv_main:
  assumes "t9_inv s" and "thread9_main tid ok k s = Some s'"
  shows "t9_inv s'"
proof (cases "t9main s")
  case M9signal
  then have s': "s' = s\<lparr>t9main := M9join 0, t9pcs := cond_signal T9wait T9woken k (t9pcs s)\<rparr>"
    using assms(2) by (simp add: thread9_main_def)
  have "chained (t9pcs s')"
  proof (cases rule: cond_signal_cases [of T9wait "t9pcs s" T9woken k])
    case (one j)
    then have "T9woken \<in> set ((t9pcs s)[j := T9woken])" by (simp add: set_update_memI)
    with one s' show ?thesis by (simp add: chained_def)
  qed (use s' in \<open>simp add: chained_def\<close>)
  moreover have "owner_ok holds9 (t9mutex s') (t9pcs s')"
    using assms(1) s' owner_ok_signal [of holds9] by (simp add: t9_inv_def holds9_def)
  ultimately show ?thesis using assms(1) s' set_signal [of T9wait T9woken k "t9pcs s"] by (auto simp: t9_inv_def)
next
  case (M9join j)
  show ?thesis
  proof (cases "j < THREAD_MAX")
    case True
    with M9join assms show ?thesis
      by (auto simp: thread9_main_def t9_inv_def less_Suc_eq split: if_splits)
  next
    case False
    with M9join assms(1) have "set (t9pcs s) \<subseteq> {T9done}" by (auto simp: t9_inv_def in_set_conv_nth)
    with False M9join assms show ?thesis by (auto simp: thread9_main_def t9_inv_def)
  qed
qed (use assms in \<open>simp_all add: t9_inv_def thread9_main_def\<close>)

lemma t9_inv_spurious:
  assumes "t9_inv s" and "\<forall>c. t9main s \<noteq> M9exit c" and "i < length (t9pcs s)" and "t9pcs s ! i = T9wait"
  shows "t9_inv (t9go i T9woken s)"
proof -
  have "\<forall>l < j. (t9pcs s)[i := T9woken] ! l = T9done" if "\<forall>l < j. t9pcs s ! l = T9done" for j
    using done_stays [OF that] assms(4) by simp
  moreover have "owner_ok holds9 (t9mutex s) ((t9pcs s)[i := T9woken])"
    using assms(1,4) by (intro owner_ok_move) (auto simp: t9_inv_def holds9_def)
  moreover have "chained (t9pcs s) \<Longrightarrow> chained ((t9pcs s)[i := T9woken])"
    using chained_update [of "t9pcs s" i T9woken] assms(3,4) by simp
  ultimately show ?thesis using assms(1,2) set_update_subset_insert [of "t9pcs s" i T9woken]
    by (auto simp: t9_inv_def t9go_def split: t9main.splits)
qed

lemma t9_act_inv:
  assumes "t9_inv s" and "t9_act a s = Some s'"
  shows "t9_inv s'"
proof (cases a)
  case (T9Thread i tid k)
  with assms show ?thesis using t9_inv_thread [OF assms(1)] by (auto split: t9main.splits)
next
  case (T9Main tid ok k)
  with assms show ?thesis using t9_inv_main by simp
next
  case (T9Spurious i)
  with assms show ?thesis using t9_inv_spurious [OF assms(1)] by (auto split: t9main.splits if_splits)
qed

lemma t9_decreases:
  assumes "t9_inv s" and "t9_act a s = Some s'"
  shows "t9_size s' < t9_size s"
proof -
  have thread: "t9_size s' < t9_size s" if "threads i tid k s = Some s'" for i tid k
  proof -
    have i: "i < length (t9pcs s)" "t9main s' = t9main s" using threads_frame [OF that] by simp_all
    show ?thesis
      using assms(1) that
    proof (cases rule: thread_step_cases)
      case signal
      have "total rank9 ((t9pcs s)[i := T9unlock]) < total rank9 (t9pcs s)"
        using i signal(1) by (intro total_update_less) simp_all
      with signal i total_signal_le [of rank9 T9woken T9wait k "(t9pcs s)[i := T9unlock]"] show ?thesis
        by (simp add: t9_size_def)
    qed (use i total_update_less [of i "t9pcs s" rank9] in \<open>auto simp: t9_size_def\<close>)
  qed
  show ?thesis
  proof (cases a)
    case (T9Thread i tid k)
    with assms(2) thread show ?thesis by (auto split: t9main.splits)
  next
    case (T9Main tid ok k)
    with assms total_signal_le [of rank9 T9woken T9wait k "t9pcs s"] show ?thesis
      by (cases "t9main s") (auto simp: thread9_main_def t9_inv_def t9_size_def split: if_splits)
  next
    case (T9Spurious i)
    with assms(2) total_update_less [of i "t9pcs s" rank9 T9woken] show ?thesis
      by (auto simp: t9_size_def t9go_def split: t9main.splits if_splits)
  qed
qed

lemma thread_moves:
  assumes "t9_inv s" and "i < length (t9pcs s)" and "t9pcs s ! i \<in> {T9signal, T9unlock} \<or> t9pcs s ! i = T9woken \<and> t9mutex s = None"
  shows "\<exists>s'. threads i 0 0 s = Some s'"
  using assms by (auto simp: threads_def mutex_lock_def)

lemma t9_progress:
  assumes "t9_inv s" and "\<forall>c. t9main s \<noteq> M9exit c"
  shows "\<exists>a s'. t9_act a s = Some s'"
proof -
  have thread: "\<exists>a s'. t9_act a s = Some s'" if "threads i 0 0 s = Some s'" for i s'
    using that assms(2) by (intro exI [of _ "T9Thread i 0 0"] exI [of _ s']) (auto split: t9main.splits)
  have main: "\<exists>a s'. t9_act a s = Some s'" if "thread9_main 0 True 0 s = Some s'" for s'
    using that by (intro exI [of _ "T9Main 0 True 0"] exI [of _ s']) simp
  show ?thesis
  proof (cases "t9main s")
    case (M9join j)
    have inv: "owner_ok holds9 (t9mutex s) (t9pcs s)" "chained (t9pcs s)"
      "set (t9pcs s) \<subseteq> {T9wait, T9woken, T9signal, T9unlock, T9done}" using assms(1) M9join by (simp_all add: t9_inv_def)
    show ?thesis
      using inv(1)
    proof (cases rule: owner_ok_cases)
      case free
      show ?thesis
      proof (cases "T9woken \<in> set (t9pcs s)")
        case True
        then obtain i where "i < length (t9pcs s)" "t9pcs s ! i = T9woken" by (auto simp: in_set_conv_nth)
        with thread thread_moves [OF assms(1)] free show ?thesis by blast
      next
        case False
        then have "set (t9pcs s) \<subseteq> {T9done}" using inv free by (auto simp: chained_def holds9_def)
        moreover have "length (t9pcs s) = THREAD_MAX" using assms(1) by (simp add: t9_inv_def)
        ultimately have "j < THREAD_MAX \<Longrightarrow> t9pcs s ! j = T9done" using nth_mem [of j "t9pcs s"] by fastforce
        with M9join have "\<exists>s'. thread9_main 0 True 0 s = Some s'" by (simp add: thread9_main_def)
        with main show ?thesis by blast
      qed
    next
      case (held i)
      have "t9pcs s ! i \<in> {T9signal, T9unlock}"
        using subsetD [OF inv(3) nth_mem [OF held(2)]] held(3) by (auto simp: holds9_def)
      with thread thread_moves [OF assms(1) held(2)] show ?thesis by blast
    qed
  qed (use assms main in \<open>auto simp: t9_inv_def thread9_main_def\<close>)
qed

lemma all_waiting_inv: "all_waiting s \<Longrightarrow> t9_inv s"
  by (auto simp: all_waiting_def t9_inv_def owner_ok_def holds9_def)

interpretation t9: terminating_protocol t9_act all_waiting t9_inv t9_size "\<lambda>s. \<exists>c. t9main s = M9exit c"
  by unfold_locales (use all_waiting_inv t9_act_inv t9_decreases t9_progress in blast)+

text \<open>
  C20: the chain wakes everybody: if all three threads wait when \<^verbatim>\<open>main\<close> signals, every run from
  there, with any choice of the woken threads and any wake-ups without a signal, has at most 18
  steps and cannot stop before all threads have returned and the program has exited with success.
\<close>

theorem thread9_all_return:
  assumes "all_waiting s" and "run t9_act as s = Some s'"
  shows "length as \<le> 18 \<and>
    ((\<forall>a. t9_act a s' = None) \<longrightarrow> t9main s' = M9exit EXIT_SUCCESS \<and> set (t9pcs s') \<subseteq> {T9done})"
proof -
  have inv: "t9_inv s" by (rule all_waiting_inv [OF assms(1)])
  have "t9_size s = 18" using assms(1) by (simp add: all_waiting_def t9_size_def)
  moreover have "t9_inv s'" using t9.always [OF run_reach [OF assms(2)] assms(1)] .
  ultimately have "t9main s' = M9exit EXIT_SUCCESS \<and> set (t9pcs s') \<subseteq> {T9done}" if "t9main s' = M9exit c" for c
    using that by (simp add: t9_inv_def)
  moreover have "length as \<le> 18" using t9.run_bound [OF inv assms(2)] \<open>t9_size s = 18\<close> by simp
  ultimately show ?thesis using t9.stuck_final [OF inv assms(2)] by blast
qed

abbreviation (input) t9_prologue :: "t9act list" where
  "t9_prologue \<equiv> [T9Main 1 True 0, T9Main 1 True 0, T9Main 1 True 0, T9Main 1 True 0]"

abbreviation (input) t9_enter :: "t9act list" where
  "t9_enter \<equiv> [T9Thread 0 2 0, T9Thread 0 2 0, T9Thread 0 2 0, T9Thread 1 3 0, T9Thread 1 3 0, T9Thread 1 3 0,
     T9Thread 2 4 0, T9Thread 2 4 0, T9Thread 2 4 0]"

theorem thread9_all_return_witness:
  "\<exists>s. reach t9_act (thread9_start 1) s \<and> all_waiting s \<and> (\<exists>as s'. run t9_act as s = Some s' \<and> length as \<le> 18 \<and>
     t9main s' = M9exit EXIT_SUCCESS)"
proof -
  define s where "s = the (run t9_act (t9_prologue @ t9_enter @ [T9Main 1 True 0]) (thread9_start 1))"
  have r: "run t9_act (t9_prologue @ t9_enter @ [T9Main 1 True 0]) (thread9_start 1) = Some s" and w: "all_waiting s"
    unfolding s_def all_waiting_def by code_simp+
  obtain as s' where run: "run t9_act as s = Some s'" and e: "\<exists>c. t9main s' = M9exit c"
    using t9.can_finish [OF all_waiting_inv [OF w]] by blast
  from e obtain c where c: "t9main s' = M9exit c" by blast
  have "t9_act a s' = None" for a
    using c by (cases a) (simp_all add: thread9_main_def)
  with thread9_all_return [OF w run] run w run_reach [OF r] show ?thesis by blast
qed

text \<open>
  Without that order the program hangs: if \<^verbatim>\<open>main\<close> signals before the threads wait, all three of
  them wait, \<^verbatim>\<open>main\<close> waits for the first one, and no step is left for any of them.
\<close>

theorem thread9_lost_wakeup:
  "\<exists>s. reach t9_act (thread9_start 1) s \<and> t9pcs s = [T9wait, T9wait, T9wait] \<and> t9main s = M9join 0 \<and>
     (\<forall>i tid k. t9_act (T9Thread i tid k) s = None) \<and> (\<forall>tid ok k. t9_act (T9Main tid ok k) s = None)"
proof -
  define s where "s = the (run t9_act (t9_prologue @ [T9Main 1 True 0, T9Main 1 True 0] @ t9_enter) (thread9_start 1))"
  have r: "run t9_act (t9_prologue @ [T9Main 1 True 0, T9Main 1 True 0] @ t9_enter) (thread9_start 1) = Some s"
    and w: "t9pcs s = [T9wait, T9wait, T9wait]" "t9main s = M9join 0"
    unfolding s_def by code_simp+
  have "threads i tid k s = None" for i tid k
    using w by (auto simp: threads_def less_Suc_eq_0_disj nth_Cons' split: t9pc.splits)
  with r w run_reach [OF r] show ?thesis by (intro exI [of _ s]) (simp add: thread9_main_def)
qed

end
