(* ===== verification/Terminal.thy ===== *)
theory Terminal
  imports CString
begin

unbundle bit_operations_syntax

text \<open>
  The terminal programs of \<^verbatim>\<open>src/13_Terminal\<close>: \<^verbatim>\<open>baud.c\<close>, \<^verbatim>\<open>setbaud.c\<close>, \<^verbatim>\<open>my_getch.c\<close>, \<^verbatim>\<open>keystroke.c\<close>,
  \<^verbatim>\<open>my_getpass.c\<close> and \<^verbatim>\<open>my_eof.c\<close>. A terminal is its attributes, what is typed on it, and the results
  of the next calls of \<^verbatim>\<open>tcgetattr\<close> and \<^verbatim>\<open>tcsetattr\<close> (an empty list: they succeed). The flags and
  speeds have their values on Linux.
\<close>

section \<open>Terminals\<close>

type_synonym flags = "32 word"

abbreviation (input) BRKINT :: flags where "BRKINT \<equiv> 0x2"
abbreviation (input) INPCK :: flags where "INPCK \<equiv> 0x10"
abbreviation (input) ISTRIP :: flags where "ISTRIP \<equiv> 0x20"
abbreviation (input) ICRNL :: flags where "ICRNL \<equiv> 0x100"
abbreviation (input) IXON :: flags where "IXON \<equiv> 0x400"
abbreviation (input) OPOST :: flags where "OPOST \<equiv> 0x1"
abbreviation (input) CSIZE :: flags where "CSIZE \<equiv> 0x30"
abbreviation (input) CS8 :: flags where "CS8 \<equiv> 0x30"
abbreviation (input) PARENB :: flags where "PARENB \<equiv> 0x100"
abbreviation (input) ISIG :: flags where "ISIG \<equiv> 0x1"
abbreviation (input) ICANON :: flags where "ICANON \<equiv> 0x2"
abbreviation (input) ECHO :: flags where "ECHO \<equiv> 0x8"
abbreviation (input) ECHONL :: flags where "ECHONL \<equiv> 0x40"
abbreviation (input) IEXTEN :: flags where "IEXTEN \<equiv> 0x8000"
abbreviation (input) VEOF :: nat where "VEOF \<equiv> 4"
abbreviation (input) VTIME :: nat where "VTIME \<equiv> 5"
abbreviation (input) VMIN :: nat where "VMIN \<equiv> 6"

record termios =
  c_iflag :: flags
  c_oflag :: flags
  c_cflag :: flags
  c_lflag :: flags
  c_cc :: "nat list"
  c_ispeed :: flags
  c_ospeed :: flags

record tty =
  attr :: termios
  getok :: "bool list"
  setok :: "bool list"
  typed :: string

definition next_ok :: "bool list \<Rightarrow> bool" where
  "next_ok bs = (bs = [] \<or> hd bs)"

definition tcgetattr :: "tty \<Rightarrow> termios option \<times> tty" where
  "tcgetattr t = (if next_ok (getok t) then Some (attr t) else None, t\<lparr>getok := tl (getok t)\<rparr>)"

definition tcsetattr :: "termios \<Rightarrow> tty \<Rightarrow> int \<times> tty" where
  "tcsetattr a t =
     (if next_ok (setok t) then (0, t\<lparr>attr := a, setok := tl (setok t)\<rparr>) else (-1, t\<lparr>setok := tl (setok t)\<rparr>))"

text \<open>\<^verbatim>\<open>TCSAFLUSH\<close> also discards what has been typed and not read.\<close>

definition tcsetattr_flush :: "termios \<Rightarrow> tty \<Rightarrow> int \<times> tty" where
  "tcsetattr_flush a t = (case tcsetattr a t of (r, t') \<Rightarrow> (r, if r = 0 then t'\<lparr>typed := []\<rparr> else t'))"

section \<open>Baud rates\<close>

text \<open>\<^verbatim>\<open>speed_to_values_array\<close>: the constants \<^verbatim>\<open>B0\<close> to \<^verbatim>\<open>B230400\<close> and their rates.\<close>

definition speed_to_values_array :: "(flags \<times> int) list" where
  "speed_to_values_array =
     [(0, 0), (1, 50), (2, 75), (3, 110), (4, 134), (5, 150), (6, 200), (7, 300), (8, 600), (9, 1200), (10, 1800),
      (11, 2400), (12, 4800), (13, 9600), (14, 19200), (15, 38400), (0x1001, 57600), (0x1002, 115200), (0x1003, 230400)]"

abbreviation (input) B115200 :: flags where "B115200 \<equiv> 0x1002"

text \<open>The loop of \<^verbatim>\<open>baudrate_wert\<close> runs up to and including the number of entries.\<close>

function baud_loop :: "nat \<Rightarrow> flags \<Rightarrow> int cres" where
  "baud_loop i baud =
     (if i \<le> length speed_to_values_array then
        (if length speed_to_values_array \<le> i then Inl OutOfBounds
         else if baud = fst (speed_to_values_array ! i) then Inr (snd (speed_to_values_array ! i))
         else baud_loop (Suc i) baud)
      else Inr (-1))"
  by pat_completeness auto
termination
  by (relation "measure (\<lambda>(i, baud). Suc (length speed_to_values_array) - i)") auto

declare baud_loop.simps [simp del]

definition baudrate_wert :: "flags \<Rightarrow> int cres" where
  "baudrate_wert baud = baud_loop 0 baud"

definition rate_lines :: "int \<Rightarrow> int \<Rightarrow> say list" where
  "rate_lines i out = [Out (''Eingabe-Baudrate: '' @ show_int i @ ''\<newline>''), Out (''Ausgabe-Baudrate: '' @ show_int out @ ''\<newline>'')]"

text \<open>
  Both rates of the attributes as \<^verbatim>\<open>main\<close> of \<^verbatim>\<open>baud.c\<close> and \<^verbatim>\<open>setbaud.c\<close> determines them: a fault, or
  what is printed before a failure, or the two rates.
\<close>

definition both_rates :: "termios \<Rightarrow> (say list + int \<times> int) cres" where
  "both_rates a =
     (case baudrate_wert (c_ispeed a) of
        Inl f \<Rightarrow> Inl f
      | Inr i \<Rightarrow>
          if i = -1 then Inr (Inl [Out ''Fehler bei baud_input ...\<newline>''])
          else (case baudrate_wert (c_ospeed a) of
             Inl f \<Rightarrow> Inl f
           | Inr out \<Rightarrow>
               if out = -1 then Inr (Inl [Out ''Fehler bei baud_output ...\<newline>'']) else Inr (Inr (i, out))))"

definition baud_main :: "string list \<Rightarrow> bool \<Rightarrow> bool \<Rightarrow> tty \<Rightarrow> (int \<times> say list \<times> tty) cres" where
  "baud_main argv open_ok isatty t =
     (if length argv \<noteq> 2 then Inr (EXIT_FAILURE, [Out (''Usage: '' @ hd argv @ '' Geraetepfad\<newline>'')], t)
      else if \<not> open_ok then Inr (EXIT_FAILURE, [Perror ''fopen()''], t)
      else if \<not> isatty then Inr (EXIT_FAILURE, [Out (argv ! 1 @ '' ist kein TTY\<newline>'')], t)
      else (case tcgetattr t of
          (None, t1) \<Rightarrow> Inr (EXIT_FAILURE, [Out ''Fehler bei tcgetattr()\<newline>''], t1)
        | (Some a, t1) \<Rightarrow>
            (case both_rates a of
               Inl f \<Rightarrow> Inl f
             | Inr (Inl says) \<Rightarrow> Inr (EXIT_FAILURE, says, t1)
             | Inr (Inr (i, out)) \<Rightarrow> Inr (EXIT_SUCCESS, rate_lines i out, t1))))"

text \<open>\<^verbatim>\<open>fehler_exit\<close> prints the message and exits with failure.\<close>

definition fehler_exit :: "say list \<Rightarrow> string \<Rightarrow> tty \<Rightarrow> int \<times> say list \<times> tty" where
  "fehler_exit out error_msg t = (EXIT_FAILURE, out @ [Out error_msg], t)"

definition setbaud_main :: "string list \<Rightarrow> bool \<Rightarrow> bool \<Rightarrow> tty \<Rightarrow> (int \<times> say list \<times> tty) cres" where
  "setbaud_main argv open_ok isatty t =
     (if length argv \<noteq> 2 then Inr (EXIT_FAILURE, [Out (''Usage: '' @ hd argv @ '' Geraetepfad\<newline>'')], t)
      else if \<not> open_ok then Inr (fehler_exit [] (''Fehler bei fopen() kann '' @ argv ! 1 @ '' nicht oeffnen'') t)
      else if \<not> isatty then Inr (fehler_exit [] (argv ! 1 @ '' ist kein TTY\<newline>'') t)
      else (case tcgetattr t of
          (None, t1) \<Rightarrow> Inr (fehler_exit [] ''Fehler bei tcgetattr()\<newline>'' t1)
        | (Some a, t1) \<Rightarrow>
            (case both_rates a of
               Inl f \<Rightarrow> Inl f
             | Inr (Inl says) \<Rightarrow> Inr (EXIT_FAILURE, says, t1)
             | Inr (Inr (i, out)) \<Rightarrow>
                 (case tcsetattr_flush (a\<lparr>c_ispeed := B115200, c_ospeed := B115200\<rparr>) t1 of (r, t2) \<Rightarrow>
                    if r = -1 then Inr (fehler_exit (rate_lines i out) ''Fehler bei tcsetattr ...\<newline>'' t2)
                    else (case tcgetattr t2 of
                        (None, t3) \<Rightarrow> Inr (fehler_exit (rate_lines i out) ''Fehler bei tcgetattr ...\<newline>'' t3)
                      | (Some a', t3) \<Rightarrow>
                          (case both_rates a' of
                             Inl f \<Rightarrow> Inl f
                           | Inr (Inl says) \<Rightarrow> Inr (EXIT_FAILURE, rate_lines i out @ says, t3)
                           | Inr (Inr (i', out')) \<Rightarrow>
                               Inr (EXIT_SUCCESS, rate_lines i out @ rate_lines i' out', t3)))))))"

section \<open>Raw mode: \<^verbatim>\<open>my_getch.c\<close>\<close>

definition raw_attr :: "termios \<Rightarrow> termios" where
  "raw_attr a = a\<lparr>
     c_iflag := c_iflag a AND NOT (BRKINT OR ICRNL OR INPCK OR ISTRIP OR IXON),
     c_oflag := c_oflag a AND NOT OPOST,
     c_cflag := (c_cflag a AND NOT (CSIZE OR PARENB)) OR CS8,
     c_lflag := c_lflag a AND NOT (ECHO OR ICANON OR IEXTEN OR ISIG),
     c_cc := (c_cc a)[VMIN := 1, VTIME := 0]\<rparr>"

text \<open>
  \<^verbatim>\<open>raw\<close> returns \<^verbatim>\<open>old_io\<close> if it succeeds. The keys of the list are typed one after the other while
  \<^verbatim>\<open>getch\<close> waits; \<open>None\<close> is \<^verbatim>\<open>EOF\<close>.
\<close>

definition raw :: "tty \<Rightarrow> termios option \<times> tty" where
  "raw t =
     (case tcgetattr t of
        (None, t1) \<Rightarrow> (None, t1)
      | (Some old_io, t1) \<Rightarrow>
          (case tcsetattr_flush (raw_attr old_io) t1 of (r, t2) \<Rightarrow> (if r = -1 then None else Some old_io, t2)))"

definition getch :: "char option \<Rightarrow> tty \<Rightarrow> char option option \<times> tty" where
  "getch key t =
     (case raw t of
        (None, t1) \<Rightarrow> (None, t1)
      | (Some old_io, t1) \<Rightarrow> (Some key, snd (tcsetattr old_io t1)))"

definition show_key :: "char option \<Rightarrow> string" where
  "show_key key = (case key of None \<Rightarrow> [CHR 0xFF] | Some c \<Rightarrow> [c])"

text \<open>
  The loop of \<^verbatim>\<open>main\<close>. When the keys are used up the program has set the terminal raw once more and waits
  in \<^verbatim>\<open>getchar\<close>: the exit code is \<open>None\<close> and the terminal is the raw one.
\<close>

fun getch_loop :: "char option list \<Rightarrow> tty \<Rightarrow> say list \<Rightarrow> int option \<times> say list \<times> tty" where
  "getch_loop [] t out =
     (case raw t of
        (None, t1) \<Rightarrow> (Some EXIT_FAILURE, out @ [Out ''Fehler bei raw()\<newline>''], t1)
      | (Some old_io, t1) \<Rightarrow> (None, out, t1))"
| "getch_loop (key # keys) t out =
     (case getch key t of
        (None, t1) \<Rightarrow> (Some EXIT_FAILURE, out @ [Out ''Fehler bei raw()\<newline>''], t1)
      | (Some zeichen, t1) \<Rightarrow>
          if zeichen \<noteq> Some (CHR ''q'') then
            getch_loop keys t1 (out @ [Out (CHR 0x27 # show_key zeichen @ [CHR 0x27] @ '' != '' @ [CHR 0x27] @ ''q'' @ [CHR 0x27, LF])])
          else (Some EXIT_SUCCESS, out @ [Out (CHR 0x27 # show_key zeichen @ [CHR 0x27] @ '' == '' @ [CHR 0x27] @ ''q'' @ [CHR 0x27, LF]),
            Out ''ENDE\<newline>''], t1))"

definition getch_main :: "char option list \<Rightarrow> tty \<Rightarrow> int option \<times> say list \<times> tty" where
  "getch_main keys t =
     getch_loop keys t [Out (''Warte auf '' @ [CHR 0x27] @ ''q'' @ [CHR 0x27] @ '' um das Programm zu beenden\<newline>'')]"

section \<open>Keys: \<^verbatim>\<open>keystroke.c\<close>\<close>

text \<open>
  What arrives on the terminal: bursts of bytes, each of which a \<^verbatim>\<open>read\<close> gets at once as far as its
  buffer reaches; \<open>None\<close> is a \<^verbatim>\<open>read\<close> that fails, an empty burst the end of the input. Without a
  burst \<^verbatim>\<open>read\<close> waits.
\<close>

fun tty_read :: "nat \<Rightarrow> string option list \<Rightarrow> (string option \<times> string option list) option" where
  "tty_read n [] = None"
| "tty_read n (None # bs) = Some (None, bs)"
| "tty_read n (Some b # bs) = Some (Some (take n b), if length b \<le> n then bs else Some (drop n b) # bs)"

definition new_tty :: "tty \<Rightarrow> termios option \<times> tty" where
  "new_tty t =
     (case tcgetattr t of
        (None, t1) \<Rightarrow> (None, t1)
      | (Some BACKUP_TTY, t1) \<Rightarrow>
          (let buffer = BACKUP_TTY\<lparr>c_lflag := c_lflag BACKUP_TTY AND NOT (ECHO OR ICANON OR ISIG),
             c_cc := (c_cc BACKUP_TTY)[VMIN := 1]\<rparr> in
           case tcsetattr_flush buffer t1 of (r, t2) \<Rightarrow> (if r = -1 then None else Some BACKUP_TTY, t2)))"

definition restore_tty :: "termios \<Rightarrow> tty \<Rightarrow> int \<times> tty" where
  "restore_tty BACKUP_TTY t = tcsetattr_flush BACKUP_TTY t"

definition esc_report :: "string \<Rightarrow> say list" where
  "esc_report buffer =
     (if buffer = ''[[A'' then [Out ''F1\<newline>''] else []) @
     (if buffer = ''[[B'' then [Out ''F2\<newline>''] else []) @
     (if buffer = ''[C'' then [Out ''->\<newline>''] else []) @
     (if buffer = ''[D'' then [Out ''<-\<newline>''] else []) @
     (if buffer = ''[B'' then [Out ''V\<newline>''] else []) @
     (if buffer = ''[A'' then [Out ''^\<newline>''] else []) @
     (if buffer = ''[1~'' then [Out ''Pos 1\<newline>''] else []) @
     (if buffer = ''[6~'' then [Out ''Pg Dwn\<newline>''] else []) @
     (if buffer = ''[5~'' then [Out ''Pg Up\<newline>''] else [])"

text \<open>\<^verbatim>\<open>char\<close> is signed.\<close>

definition schar :: "char \<Rightarrow> int" where
  "schar c = (let v = of_char c in if 128 \<le> v then v - 256 else v)"

definition char_report :: "char \<Rightarrow> say list" where
  "char_report c = (if schar c < 32 \<or> schar c = 127 then [Out (show_int (schar c) @ ''\<newline>'')] else [Out [c, LF]])"

fun burst_size :: "string option list \<Rightarrow> nat" where
  "burst_size [] = 0"
| "burst_size (b # bs) = Suc (case b of None \<Rightarrow> 0 | Some s \<Rightarrow> length s) + burst_size bs"

lemma tty_read_size: "0 < n \<Longrightarrow> tty_read n bs = Some (r, bs') \<Longrightarrow> burst_size bs' < burst_size bs"
  by (induction n bs rule: tty_read.induct) (auto split: if_splits)

text \<open>
  The loop of \<^verbatim>\<open>main\<close>: \<open>None\<close> when it waits for more input, otherwise whether it ended with \<^verbatim>\<open>q\<close> or
  with a failed \<^verbatim>\<open>read\<close>. A failed second \<^verbatim>\<open>read\<close> gives \<^verbatim>\<open>buffer[-1] = 0\<close>.
\<close>

function keystroke_loop :: "string option list \<Rightarrow> say list \<Rightarrow> (bool option \<times> say list) cres" where
  "keystroke_loop bs out =
     (case tty_read 1 bs of
        None \<Rightarrow> Inr (None, out)
      | Some (Some (c # _), bs1) \<Rightarrow>
          if c = CHR 0x1B then
            (case tty_read 4 bs1 of
               None \<Rightarrow> Inr (None, out)
             | Some (None, bs2) \<Rightarrow> Inl OutOfBounds
             | Some (Some d, bs2) \<Rightarrow> keystroke_loop bs2 (out @ esc_report (cstr (d @ [NUL]))))
          else if c = CHR ''q'' then Inr (Some True, out @ char_report c)
          else keystroke_loop bs1 (out @ char_report c)
      | Some (_, bs1) \<Rightarrow> Inr (Some False, out @ [Out ''Fehler bei read()\<newline>'']))"
  by pat_completeness auto
termination
proof (relation "measure (\<lambda>(bs, out). burst_size bs)", goal_cases)
  case 1
  show ?case by simp
next
  case (2 bs out x2 x bs1 x2a c cs x2b r bs2 d)
  then have "tty_read 1 bs = Some (x, bs1)" "tty_read 4 bs1 = Some (r, bs2)" by simp_all
  with tty_read_size [of 1 bs x bs1] tty_read_size [of 4 bs1 r bs2] show ?case by simp
next
  case (3 bs out x2 x bs1 x2a c cs)
  then have "tty_read 1 bs = Some (x, bs1)" by simp
  with tty_read_size [of 1 bs x bs1] show ?case by simp
qed

declare keystroke_loop.simps [simp del]

definition keystroke_main :: "string option list \<Rightarrow> tty \<Rightarrow> (int option \<times> say list \<times> tty) cres" where
  "keystroke_main bs t =
     (case new_tty t of
        (None, t1) \<Rightarrow> Inr (Some EXIT_FAILURE, [Out ''Fehler bei new_tty()\<newline>''], t1)
      | (Some BACKUP_TTY, t1) \<Rightarrow>
          (case keystroke_loop bs [] of
             Inl f \<Rightarrow> Inl f
           | Inr (None, out) \<Rightarrow> Inr (None, out, t1)
           | Inr (Some quit, out) \<Rightarrow>
               Inr (Some (if quit then EXIT_SUCCESS else EXIT_FAILURE), out, snd (restore_tty BACKUP_TTY t1))))"

section \<open>Passwords: \<^verbatim>\<open>my_getpass.c\<close>\<close>

abbreviation (input) PASS :: nat where "PASS \<equiv> 8"

text \<open>
  \<open>garbage\<close> is what the uninitialised structures hold when \<^verbatim>\<open>tcgetattr\<close> fails; the result is the
  string in the static buffer \<^verbatim>\<open>passwort\<close>, which keeps its old contents \<open>old\<close> at the end of the input.
  \<open>typed\<close> is here all that is typed, up to the line end or the end of the input, so that \<^verbatim>\<open>fgets\<close> returns.
\<close>

definition my_getpass :: "termios \<Rightarrow> string \<Rightarrow> tty \<Rightarrow> string \<times> say list \<times> tty" where
  "my_getpass garbage old t =
     (case tcgetattr t of (a, t1) \<Rightarrow>
      (let origstate = (case a of None \<Rightarrow> garbage | Some a' \<Rightarrow> a');
           o1 = (if a = None then [Out ''tcgetattr() failed\<newline>''] else []);
           changedstate = origstate\<lparr>c_lflag := (c_lflag origstate AND NOT ECHO) OR ECHONL\<rparr> in
       case tcsetattr changedstate t1 of (r2, t2) \<Rightarrow>
       (let o2 = (if r2 \<noteq> 0 then [Out ''tcsetattr() failed\<newline>''] else []) in
        case tcgetattr t2 of (b, t3) \<Rightarrow>
        (let teststate = (case b of None \<Rightarrow> garbage | Some b' \<Rightarrow> b');
             o3 = (if c_lflag teststate AND ECHO \<noteq> 0 then [Out ''ECHO-Flag konnte nicht abgeschaltet werden\<newline>''] else []) @
               (if c_lflag teststate AND ECHONL = 0 then [Out ''ECHONL-Flag konnte nicht eingeschaltet werden\<newline>''] else []) @
               [Out ''Passwort eingeben: ''];
             (passwort, rest) = (case fgets PASS (typed t3) of None \<Rightarrow> (old, typed t3) | Some lr \<Rightarrow> lr) in
         case tcsetattr origstate (t3\<lparr>typed := rest\<rparr>) of (r4, t4) \<Rightarrow>
           (passwort, o1 @ o2 @ o3 @ (if r4 \<noteq> 0 then [Out ''tcsetattr() failed''] else []), t4)))))"

definition getpass_main :: "termios \<Rightarrow> tty \<Rightarrow> int \<times> say list \<times> tty" where
  "getpass_main garbage t =
     (case my_getpass garbage [] t of (ptr, out, t1) \<Rightarrow>
        (EXIT_SUCCESS, out @ [Out (''Ihre Eingabe war: '' @ ptr @ ''\<newline>'')], t1))"

section \<open>The end of the input: \<^verbatim>\<open>my_eof.c\<close>\<close>

text \<open>
  In canonical mode (\<^verbatim>\<open>ICANON\<close>, which the program leaves as it is) the character in \<^verbatim>\<open>c_cc[VEOF]\<close> ends a \<^verbatim>\<open>read\<close>; after a line end or at the start it
  is the end of the file. \<open>keys\<close> is typed after the attributes have been set; \<open>None\<close> when the
  program still waits.
\<close>

fun canonical :: "char \<Rightarrow> string \<Rightarrow> string \<Rightarrow> string option" where
  "canonical eof [] pending = None"
| "canonical eof (c # cs) pending =
     (if c = eof then
        (if pending = [] then Some [] else map_option (\<lambda>r. pending @ r) (canonical eof cs []))
      else if c = LF then map_option (\<lambda>r. pending @ LF # r) (canonical eof cs [])
      else canonical eof cs (pending @ [c]))"

definition eof_main :: "string \<Rightarrow> string \<Rightarrow> tty \<Rightarrow> int option \<times> say list \<times> tty" where
  "eof_main strerror keys t =
     (case tcgetattr t of
        (None, t1) \<Rightarrow> (Some EXIT_FAILURE, [Out (''Fehler bei tcgetattr(): '' @ strerror @ ''\<newline>'')], t1)
      | (Some term, t1) \<Rightarrow>
          (case tcsetattr_flush (term\<lparr>c_cc := (c_cc term)[VEOF := 27]\<rparr>) t1 of (r, t2) \<Rightarrow>
             if r < 0 then (Some EXIT_FAILURE, [Out (''Fehler bei tcsetattr(): '' @ strerror @ ''\<newline>'')], t2)
             else (let prompt = [Out ''Eingabe machen (mit ESC abbrechen)\<newline>''] in
               case canonical (char_of (c_cc (attr t2) ! VEOF)) keys [] of
                 None \<Rightarrow> (None, prompt, t2)
               | Some input \<Rightarrow> (Some EXIT_SUCCESS, prompt @ map (\<lambda>c. Out [c]) input, t2))))"

section \<open>Properties\<close>

lemma baud_loop_lookup:
  "i \<le> length speed_to_values_array \<Longrightarrow>
     baud_loop i baud = (case map_of (drop i speed_to_values_array) baud of None \<Rightarrow> Inl OutOfBounds | Some v \<Rightarrow> Inr v)"
proof (induction i baud rule: baud_loop.induct)
  case (1 i baud)
  show ?case
  proof (cases "i < length speed_to_values_array")
    case True
    then have d: "drop i speed_to_values_array = speed_to_values_array ! i # drop (Suc i) speed_to_values_array"
      by (simp add: Cons_nth_drop_Suc)
    have "map_of (drop i speed_to_values_array) baud =
        (if baud = fst (speed_to_values_array ! i) then Some (snd (speed_to_values_array ! i))
         else map_of (drop (Suc i) speed_to_values_array) baud)"
      unfolding d by (cases "speed_to_values_array ! i") auto
    with "1.IH" True show ?thesis by (simp add: baud_loop.simps [of i])
  next
    case False
    with "1.prems" show ?thesis by (subst baud_loop.simps) simp
  qed
qed

text \<open>
  \<^verbatim>\<open>baudrate_wert\<close> finds the rate of every speed of its table; for any other speed it reads behind
  the table, because the loop runs one entry too far: the \<^verbatim>\<open>-1\<close> its callers test for is never
  returned before that.
\<close>

theorem baudrate_wert_lookup:
  "baudrate_wert baud = (case map_of speed_to_values_array baud of None \<Rightarrow> Inl OutOfBounds | Some v \<Rightarrow> Inr v)"
  using baud_loop_lookup [of 0 baud] by (simp add: baudrate_wert_def)

definition same_device :: "tty \<Rightarrow> tty \<Rightarrow> bool" where
  "same_device t t' \<longleftrightarrow> attr t' = attr t \<and> getok t' = [] \<and> setok t' = []"

definition reliable :: "tty \<Rightarrow> bool" where
  "reliable t \<longleftrightarrow> getok t = [] \<and> setok t = []"

lemma tcgetattr_reliable: "reliable t \<Longrightarrow> tcgetattr t = (Some (attr t), t)"
  by (simp add: tcgetattr_def reliable_def next_ok_def)

lemma tcsetattr_reliable: "reliable t \<Longrightarrow> tcsetattr a t = (0, t\<lparr>attr := a\<rparr>)"
  by (simp add: tcsetattr_def reliable_def next_ok_def)

lemma tcsetattr_flush_reliable: "reliable t \<Longrightarrow> tcsetattr_flush a t = (0, t\<lparr>attr := a, typed := []\<rparr>)"
  by (simp add: tcsetattr_flush_def tcsetattr_reliable)

lemma reliable_update [simp]: "reliable (t\<lparr>attr := a\<rparr>) = reliable t" "reliable (t\<lparr>typed := s\<rparr>) = reliable t"
  by (simp_all add: reliable_def)

lemma baud_known:
  "map_of speed_to_values_array b = Some v \<Longrightarrow> baudrate_wert b = Inr v \<and> v \<noteq> -1"
proof -
  assume m: "map_of speed_to_values_array b = Some v"
  then have "(b, v) \<in> set speed_to_values_array" by (rule map_of_SomeD)
  then have "0 \<le> v" by (auto simp: speed_to_values_array_def)
  with m show ?thesis using baud_loop_lookup [of 0 b] by (simp add: baudrate_wert_def)
qed

lemma both_rates_known:
  "map_of speed_to_values_array (c_ispeed a) = Some i \<Longrightarrow> map_of speed_to_values_array (c_ospeed a) = Some out \<Longrightarrow>
     both_rates a = Inr (Inr (i, out))"
  using baud_known [of "c_ispeed a" i] baud_known [of "c_ospeed a" out] by (simp add: both_rates_def)

lemma B115200_known: "map_of speed_to_values_array B115200 = Some 115200"
  by (simp add: speed_to_values_array_def)

text \<open>
  \<^verbatim>\<open>setbaud\<close> on a terminal with known rates prints them, sets both to 115200 and changes
  nothing else of the attributes, and prints the new ones.
\<close>

theorem setbaud_sets_both:
  assumes "reliable t" and "map_of speed_to_values_array (c_ispeed (attr t)) = Some i"
    and "map_of speed_to_values_array (c_ospeed (attr t)) = Some out"
  shows "setbaud_main [prog, path] True True t =
    Inr (EXIT_SUCCESS, rate_lines i out @ rate_lines 115200 115200,
      t\<lparr>attr := (attr t)\<lparr>c_ispeed := B115200, c_ospeed := B115200\<rparr>, typed := []\<rparr>)"
proof -
  have new: "both_rates ((attr t)\<lparr>c_ispeed := B115200, c_ospeed := B115200\<rparr>) = Inr (Inr (115200, 115200))"
    by (rule both_rates_known) (simp_all add: B115200_known)
  show ?thesis
    using new assms(1) both_rates_known [OF assms(2,3)]
    by (simp add: setbaud_main_def tcgetattr_reliable tcsetattr_flush_reliable)
qed

definition sample_attr :: termios where
  "sample_attr = \<lparr>c_iflag = 0x500, c_oflag = 0x5, c_cflag = 0xBF, c_lflag = 0x8A3B, c_cc = replicate 32 0,
     c_ispeed = 13, c_ospeed = 15\<rparr>"

definition sample_tty :: tty where
  "sample_tty = \<lparr>attr = sample_attr, getok = [], setok = [], typed = ''geheimnis\<newline>''\<rparr>"

theorem setbaud_sets_both_witness:
  "setbaud_main [''setbaud'', ''/dev/tty''] True True sample_tty =
    Inr (EXIT_SUCCESS, rate_lines 9600 38400 @ rate_lines 115200 115200,
      sample_tty\<lparr>attr := sample_attr\<lparr>c_ispeed := B115200, c_ospeed := B115200\<rparr>, typed := []\<rparr>)"
  using setbaud_sets_both [of sample_tty 9600 38400 "''setbaud''" "''/dev/tty''"]
  by (simp add: sample_tty_def sample_attr_def reliable_def speed_to_values_array_def)

text \<open>One round of \<^verbatim>\<open>getch\<close> leaves the attributes as they were.\<close>

lemma getch_reliable: "reliable t \<Longrightarrow> getch key t = (Some key, t\<lparr>typed := []\<rparr>)"
  by (simp add: getch_def raw_def tcgetattr_reliable tcsetattr_flush_reliable tcsetattr_reliable)

lemma raw_reliable: "reliable t \<Longrightarrow> raw t = (Some (attr t), t\<lparr>attr := raw_attr (attr t), typed := []\<rparr>)"
  by (simp add: raw_def tcgetattr_reliable tcsetattr_flush_reliable)

lemma getch_loop_attr:
  assumes "reliable t" and "getch_loop keys t out = (code, out', t')"
  shows "code = (if Some CHR ''q'' \<in> set keys then Some EXIT_SUCCESS else None) \<and>
    attr t' = (if code = None then raw_attr (attr t) else attr t)"
  using assms
proof (induction keys arbitrary: t out)
  case Nil
  then show ?case by (auto simp: raw_reliable)
next
  case (Cons key keys)
  show ?case
  proof (cases "key = Some CHR ''q''")
    case True
    with Cons.prems show ?thesis by (auto simp: getch_reliable)
  next
    case False
    let ?t = "t\<lparr>typed := []\<rparr>"
    have r: "reliable ?t" "attr ?t = attr t" using Cons.prems(1) by simp_all
    from Cons.prems False obtain out2 where "getch_loop keys ?t out2 = (code, out', t')"
      by (simp add: getch_reliable)
    from Cons.IH [OF r(1) this] False r(2) show ?thesis by simp
  qed
qed

definition key_attr :: "termios \<Rightarrow> termios" where
  "key_attr a = a\<lparr>c_lflag := c_lflag a AND NOT (ECHO OR ICANON OR ISIG), c_cc := (c_cc a)[VMIN := 1]\<rparr>"

lemma keystroke_attr:
  assumes "reliable t" and "keystroke_main bs t = Inr (code, out, t')"
  shows "attr t' = (if code = None then key_attr (attr t) else attr t)"
  using assms
  by (auto simp: keystroke_main_def new_tty_def key_attr_def tcgetattr_reliable tcsetattr_flush_reliable restore_tty_def Let_def
      split: sum.splits option.splits)

lemma getpass_restores: "reliable t \<Longrightarrow> attr (snd (snd (getpass_main garbage t))) = attr t"
  by (auto simp: getpass_main_def my_getpass_def tcgetattr_reliable tcsetattr_reliable Let_def split: prod.splits option.splits)

text \<open>
  C33: on a terminal whose calls succeed the three programs that change the terminal restore it. \<^verbatim>\<open>my_getch\<close> ends, with
  success, exactly when \<^verbatim>\<open>q\<close> is among the keys typed, and then the attributes are those found at the
  start; with other keys it waits for the next one, and while it waits the terminal is in the raw mode made of those
  attributes. \<^verbatim>\<open>my_getpass\<close> leaves the attributes as it found them. So does \<^verbatim>\<open>keystroke\<close> when it has ended, with
  \<^verbatim>\<open>q\<close> or with a failed \<^verbatim>\<open>read\<close>; while it waits, lines, echo and signals are off and nothing else has changed.
\<close>

theorem terminal_restored:
  assumes "reliable t" and "getch_main keys t = (c1, out1, t1)" and "getpass_main garbage t = (c2, out2, t2)"
    and "keystroke_main bs t = Inr (c3, out3, t3)"
  shows "c1 = (if Some CHR ''q'' \<in> set keys then Some EXIT_SUCCESS else None) \<and>
    attr t1 = (if c1 = None then raw_attr (attr t) else attr t) \<and>
    attr t2 = attr t \<and>
    attr t3 = (if c3 = None then key_attr (attr t) else attr t)"
proof -
  have "c1 = (if Some CHR ''q'' \<in> set keys then Some EXIT_SUCCESS else None) \<and>
      attr t1 = (if c1 = None then raw_attr (attr t) else attr t)"
    by (rule getch_loop_attr [OF assms(1) assms(2) [unfolded getch_main_def]])
  with getpass_restores [OF assms(1), of garbage] keystroke_attr [OF assms(1,4)] assms(3) show ?thesis by simp
qed

theorem terminal_restored_witness:
  "(case (getch_main [Some CHR ''x'', Some CHR ''q''] sample_tty, getch_main [Some CHR ''x''] sample_tty) of
     ((c, _, t), (c', _, t')) \<Rightarrow> c = Some EXIT_SUCCESS \<and> attr t = sample_attr \<and> c' = None \<and> attr t' = raw_attr sample_attr)"
proof -
  obtain c1 out1 t1 where g: "getch_main [Some CHR ''x'', Some CHR ''q''] sample_tty = (c1, out1, t1)" by (cases rule: prod_cases3)
  obtain c2 out2 t2 where w: "getch_main [Some CHR ''x''] sample_tty = (c2, out2, t2)" by (cases rule: prod_cases3)
  obtain c out t where p: "getpass_main sample_attr sample_tty = (c, out, t)" by (cases rule: prod_cases3)
  have r: "reliable sample_tty" "attr sample_tty = sample_attr" by (simp_all add: reliable_def sample_tty_def)
  have "keystroke_loop [Some ''q''] [] = Inr (Some True, char_report CHR ''q'')" by (simp add: keystroke_loop.simps)
  then have "\<exists>c3 o3 t3. keystroke_main [Some ''q''] sample_tty = Inr (c3, o3, t3)"
    by (simp add: keystroke_main_def new_tty_def tcgetattr_reliable tcsetattr_flush_reliable r Let_def)
  then obtain c3 o3 t3 where k: "keystroke_main [Some ''q''] sample_tty = Inr (c3, o3, t3)" by blast
  from terminal_restored [OF r(1) g p k] terminal_restored [OF r(1) w p k] r(2) show ?thesis by (simp add: g w)
qed

text \<open>The keys \<^verbatim>\<open>keystroke\<close> knows, and what they send and print.\<close>

datatype key = Plain char | Special string string

fun key_bytes :: "key \<Rightarrow> string" where
  "key_bytes (Plain c) = [c]"
| "key_bytes (Special sq name) = CHR 0x1B # sq"

fun key_report :: "key \<Rightarrow> say list" where
  "key_report (Plain c) = char_report c"
| "key_report (Special sq name) = [Out (name @ ''\<newline>'')]"

definition special_keys :: "(string \<times> string) list" where
  "special_keys = [(''[[A'', ''F1''), (''[[B'', ''F2''), (''[C'', ''->''), (''[D'', ''<-''), (''[B'', ''V''), (''[A'', ''^''),
     (''[1~'', ''Pos 1''), (''[6~'', ''Pg Dwn''), (''[5~'', ''Pg Up'')]"

fun known_key :: "key \<Rightarrow> bool" where
  "known_key (Plain c) = (c \<noteq> CHR 0x1B \<and> c \<noteq> CHR ''q'')"
| "known_key (Special sq name) = ((sq, name) \<in> set special_keys)"

lemma keystroke_key:
  assumes "known_key k"
  shows "keystroke_loop (Some (key_bytes k) # bs) out = keystroke_loop bs (out @ key_report k)"
proof (cases k)
  case (Plain c)
  with assms show ?thesis by (subst keystroke_loop.simps) simp
next
  case (Special sq name)
  with assms have "(sq, name) \<in> set special_keys" by simp
  then have "0 < length sq \<and> length sq \<le> 4 \<and> cstr (sq @ [NUL]) = sq \<and> esc_report sq = [Out (name @ ''\<newline>'')]"
    unfolding special_keys_def by (auto simp: esc_report_def cstr_def)
  then show ?thesis using Special by (subst keystroke_loop.simps) (simp add: Suc_le_eq)
qed

lemma keystroke_keys:
  "\<forall>k \<in> set ks. known_key k \<Longrightarrow>
     keystroke_loop (map (Some \<circ> key_bytes) ks @ bs) out = keystroke_loop bs (out @ concat (map key_report ks))"
  by (induction ks arbitrary: out) (simp_all add: keystroke_key)

text \<open>
  \<^verbatim>\<open>keystroke\<close> reports every key: whatever keys are pressed one after the other, plain ones or
  those it knows the sequences of, it prints them in order up to \<^verbatim>\<open>q\<close>, exits with success and
  leaves the terminal as it was.
\<close>

theorem keystroke_reports:
  assumes "reliable t" and "\<forall>k \<in> set ks. known_key k"
  shows "keystroke_main (map (Some \<circ> key_bytes) ks @ Some ''q'' # bs) t =
    Inr (Some EXIT_SUCCESS, concat (map key_report ks) @ [Out ''q\<newline>''], t\<lparr>typed := []\<rparr>)"
proof -
  have "keystroke_loop (Some ''q'' # bs) out = Inr (Some True, out @ [Out ''q\<newline>''])" for out
    by (subst keystroke_loop.simps) (simp add: char_report_def schar_def)
  with keystroke_keys [OF assms(2)] assms(1) show ?thesis
    by (simp add: keystroke_main_def new_tty_def tcgetattr_reliable tcsetattr_flush_reliable restore_tty_def Let_def)
qed

theorem keystroke_reports_witness:
  "keystroke_main [Some ''a'', Some (CHR 0x1B # ''[A''), Some ''q''] sample_tty =
    Inr (Some EXIT_SUCCESS, [Out ''a\<newline>'', Out ''^\<newline>'', Out ''q\<newline>''], sample_tty\<lparr>typed := []\<rparr>)"
proof -
  have "char_report (CHR ''a'') = [Out ''a\<newline>'']" by (simp add: char_report_def schar_def)
  with keystroke_reports [of sample_tty "[Plain (CHR ''a''), Special ''[A'' ''^'']" "[]"] show ?thesis
    by (simp add: sample_tty_def reliable_def special_keys_def)
qed

end
