(* ===== verification/SigSync.thy ===== *)
theory SigSync
  imports Interleave "HOL-Library.Multiset"
begin

text \<open>
  \<^verbatim>\<open>src/08_Signals/sig_sync.c\<close>: a parent and a child process that take turns by sending each
  other \<^verbatim>\<open>SIGUSR1\<close> and \<^verbatim>\<open>SIGUSR2\<close>. A process has its signal mask, its pending signals and the
  variables of the program; the two processes and the delivery of signals interleave freely.
  The calls of \<^verbatim>\<open>sigprocmask\<close> succeed (their arguments are valid), and the output is unbuffered
  between the lines, as on a terminal.
\<close>

section \<open>The program\<close>

abbreviation (input) MAXR :: nat where "MAXR \<equiv> 5"

datatype usr = USR1 | USR2

text \<open>
  Round \<open>n\<close> of the loops: in \<^verbatim>\<open>kind_wartet\<close> or \<^verbatim>\<open>eltern_warten\<close>, before \<^verbatim>\<open>printf\<close>, before \<^verbatim>\<open>kill\<close>; then
  the message after the loop, and the end.
\<close>

datatype sync_pc = Wait nat | Print nat | Kill nat | EndMsg | Ended

record sproc =
  spc :: sync_pc
  flag :: bool
  smask :: "usr set"
  mask_alt :: "usr set"
  pending :: "usr set"

record sync =
  kind :: sproc
  eltern :: sproc
  shown :: "string list"

text \<open>\<^verbatim>\<open>mask_null\<close> is empty, \<^verbatim>\<open>mask_neu\<close> has both signals.\<close>

definition start_sync :: "sproc \<Rightarrow> sproc" where
  "start_sync p = p\<lparr>mask_alt := smask p, smask := smask p \<union> {USR1, USR2}\<rparr>"

text \<open>
  The handler \<^verbatim>\<open>sig_func\<close> runs with the mask \<open>m\<close> and the signal itself blocked; when it returns,
  the mask is again what it was before.
\<close>

definition sig_func :: "usr \<Rightarrow> usr set \<Rightarrow> sproc \<Rightarrow> sproc" where
  "sig_func sig m p =
     (let h = start_sync (p\<lparr>smask := m \<union> {sig}\<rparr>) in
      h\<lparr>flag := True, smask := smask p, pending := pending p - {sig}\<rparr>)"

text \<open>
  \<^verbatim>\<open>kind_wartet\<close> and \<^verbatim>\<open>eltern_warten\<close>: with the flag set the process goes on to \<open>pc\<close>, otherwise it
  sleeps in \<^verbatim>\<open>sigsuspend(&mask_null)\<close> until a signal \<open>sig\<close> is there.
\<close>

definition warten :: "usr \<Rightarrow> sync_pc \<Rightarrow> sproc \<Rightarrow> sproc option" where
  "warten sig pc p =
     (if flag p then Some (p\<lparr>flag := False, smask := smask p \<union> mask_alt p, spc := pc\<rparr>)
      else if sig \<in> pending p then Some (sig_func sig {} p)
      else None)"

definition kill :: "usr \<Rightarrow> sproc \<Rightarrow> sproc" where
  "kill sig p = (if spc p = Ended then p else p\<lparr>pending := insert sig (pending p)\<rparr>)"

text \<open>The next step of the child.\<close>

definition kind_step :: "usr \<Rightarrow> sync \<Rightarrow> sync option" where
  "kind_step sig s =
     (let p = kind s in
      case spc p of
        Wait n \<Rightarrow> map_option (\<lambda>p'. s\<lparr>kind := p'\<rparr>) (warten sig (Print n) p)
      | Print n \<Rightarrow> Some (s\<lparr>kind := p\<lparr>spc := Kill n\<rparr>, shown := shown s @ [''Kind \<newline>'']\<rparr>)
      | Kill n \<Rightarrow>
          Some (s\<lparr>kind := p\<lparr>spc := if Suc n < MAXR then Wait (Suc n) else EndMsg\<rparr>, eltern := kill USR1 (eltern s)\<rparr>)
      | EndMsg \<Rightarrow> Some (s\<lparr>kind := p\<lparr>spc := Ended\<rparr>, shown := shown s @ [''--- Kind Ende ---\<newline>'']\<rparr>)
      | Ended \<Rightarrow> None)"

text \<open>The next step of the parent.\<close>

definition eltern_step :: "usr \<Rightarrow> sync \<Rightarrow> sync option" where
  "eltern_step sig s =
     (let p = eltern s in
      case spc p of
        Print n \<Rightarrow> Some (s\<lparr>eltern := p\<lparr>spc := Kill n\<rparr>, shown := shown s @ [''Eltern \<newline>'']\<rparr>)
      | Kill n \<Rightarrow> Some (s\<lparr>eltern := p\<lparr>spc := Wait n\<rparr>, kind := kill USR2 (kind s)\<rparr>)
      | Wait n \<Rightarrow>
          map_option (\<lambda>p'. s\<lparr>eltern := p'\<rparr>) (warten sig (if Suc n < MAXR then Print (Suc n) else EndMsg) p)
      | EndMsg \<Rightarrow> Some (s\<lparr>eltern := p\<lparr>spc := Ended\<rparr>, shown := shown s @ [''-- Eltern Ende ---\<newline>'']\<rparr>)
      | Ended \<Rightarrow> None)"

text \<open>A pending signal that is not blocked is delivered at any time.\<close>

definition deliverable :: "usr \<Rightarrow> sproc \<Rightarrow> bool" where
  "deliverable sig p \<longleftrightarrow> spc p \<noteq> Ended \<and> sig \<in> pending p \<and> sig \<notin> smask p"

datatype sync_action = Kind usr | Eltern usr | DeliverKind usr | DeliverEltern usr

fun sync_act :: "sync_action \<Rightarrow> sync \<Rightarrow> sync option" where
  "sync_act (Kind sig) s = kind_step sig s"
| "sync_act (Eltern sig) s = eltern_step sig s"
| "sync_act (DeliverKind sig) s =
     (if deliverable sig (kind s) then Some (s\<lparr>kind := sig_func sig (smask (kind s)) (kind s)\<rparr>) else None)"
| "sync_act (DeliverEltern sig) s =
     (if deliverable sig (eltern s) then Some (s\<lparr>eltern := sig_func sig (smask (eltern s)) (eltern s)\<rparr>) else None)"

text \<open>\<^verbatim>\<open>main\<close> up to the loops: the result of \<^verbatim>\<open>fork\<close> decides.\<close>

definition sig_sync_main :: "bool \<Rightarrow> int \<times> say list + sync" where
  "sig_sync_main fork_ok =
     (let p = start_sync \<lparr>spc = Print 0, flag = False, smask = {}, mask_alt = {}, pending = {}\<rparr> in
      if \<not> fork_ok then Inl (EXIT_FAILURE, [Perror ''fork()''])
      else Inr \<lparr>kind = p\<lparr>spc := Wait 0\<rparr>, eltern = p, shown = []\<rparr>)"

section \<open>Taking turns\<close>

definition turns :: "nat \<Rightarrow> string list" where
  "turns n = concat (replicate n [''Eltern \<newline>'', ''Kind \<newline>''])"

definition quiet :: "sproc \<Rightarrow> bool" where
  "quiet p \<longleftrightarrow> \<not> flag p \<and> pending p = {}"

definition masked :: "sync \<Rightarrow> bool" where
  "masked s \<longleftrightarrow> smask (kind s) = {USR1, USR2} \<and> smask (eltern s) = {USR1, USR2}"

definition kind_end :: "sync \<Rightarrow> bool" where
  "kind_end s \<longleftrightarrow> spc (kind s) = EndMsg \<or> spc (kind s) = Ended"

definition last_words :: "sync \<Rightarrow> string list \<Rightarrow> bool" where
  "last_words s xs \<longleftrightarrow> mset xs = (if spc (kind s) = Ended then {#''--- Kind Ende ---\<newline>''#} else {#}) +
     (if spc (eltern s) = Ended then {#''-- Eltern Ende ---\<newline>''#} else {#})"

text \<open>
  The stages of round \<open>n\<close>, in the order of the protocol: who is where, which signal is on its way,
  and what has been printed; and the end, where the child need not wait for the parent.
\<close>

inductive stage :: "sync \<Rightarrow> bool" where
  eltern_prints: "n < MAXR \<Longrightarrow> spc (eltern s) = Print n \<Longrightarrow> spc (kind s) = Wait n \<Longrightarrow> quiet (kind s) \<Longrightarrow> quiet (eltern s) \<Longrightarrow>
     shown s = turns n \<Longrightarrow> stage s"
| eltern_kills: "n < MAXR \<Longrightarrow> spc (eltern s) = Kill n \<Longrightarrow> spc (kind s) = Wait n \<Longrightarrow> quiet (kind s) \<Longrightarrow> quiet (eltern s) \<Longrightarrow>
     shown s = turns n @ [''Eltern \<newline>''] \<Longrightarrow> stage s"
| kind_wakes: "n < MAXR \<Longrightarrow> spc (eltern s) = Wait n \<Longrightarrow> spc (kind s) = Wait n \<Longrightarrow> flag (kind s) = (pending (kind s) = {}) \<Longrightarrow>
     pending (kind s) \<subseteq> {USR2} \<Longrightarrow> quiet (eltern s) \<Longrightarrow> shown s = turns n @ [''Eltern \<newline>''] \<Longrightarrow> stage s"
| kind_prints: "n < MAXR \<Longrightarrow> spc (eltern s) = Wait n \<Longrightarrow> spc (kind s) = Print n \<Longrightarrow> quiet (kind s) \<Longrightarrow> quiet (eltern s) \<Longrightarrow>
     shown s = turns n @ [''Eltern \<newline>''] \<Longrightarrow> stage s"
| kind_kills: "n < MAXR \<Longrightarrow> spc (eltern s) = Wait n \<Longrightarrow> spc (kind s) = Kill n \<Longrightarrow> quiet (kind s) \<Longrightarrow> quiet (eltern s) \<Longrightarrow>
     shown s = turns (Suc n) \<Longrightarrow> stage s"
| eltern_wakes: "Suc n < MAXR \<Longrightarrow> spc (eltern s) = Wait n \<Longrightarrow> spc (kind s) = Wait (Suc n) \<Longrightarrow> quiet (kind s) \<Longrightarrow>
     flag (eltern s) = (pending (eltern s) = {}) \<Longrightarrow> pending (eltern s) \<subseteq> {USR1} \<Longrightarrow> shown s = turns (Suc n) \<Longrightarrow> stage s"
| eltern_wakes_last: "Suc n = MAXR \<Longrightarrow> spc (eltern s) = Wait n \<Longrightarrow> kind_end s \<Longrightarrow> quiet (kind s) \<Longrightarrow>
     flag (eltern s) = (pending (eltern s) = {}) \<Longrightarrow> pending (eltern s) \<subseteq> {USR1} \<Longrightarrow>
     shown s = turns MAXR @ xs \<Longrightarrow> last_words s xs \<Longrightarrow> stage s"
| ending: "spc (eltern s) = EndMsg \<or> spc (eltern s) = Ended \<Longrightarrow> kind_end s \<Longrightarrow> quiet (kind s) \<Longrightarrow> quiet (eltern s) \<Longrightarrow>
     shown s = turns MAXR @ xs \<Longrightarrow> last_words s xs \<Longrightarrow> stage s"

lemma turns_Suc: "turns n @ [''Eltern \<newline>'', ''Kind \<newline>''] = turns (Suc n)"
proof -
  have "concat (replicate n xs) @ xs = xs @ concat (replicate n xs)" for xs :: "string list"
    by (induction n) auto
  then show ?thesis by (simp add: turns_def)
qed

lemmas turns_step = turns_Suc [unfolded append_Cons append_Nil]

lemma sig_func_simps [simp]:
  "spc (sig_func sig m p) = spc p" "flag (sig_func sig m p)" "smask (sig_func sig m p) = smask p"
  "pending (sig_func sig m p) = pending p - {sig}"
  by (simp_all add: sig_func_def start_sync_def Let_def)

lemma kill_simps [simp]: "spc (kill sig p) = spc p" "flag (kill sig p) = flag p" "smask (kill sig p) = smask p"
  by (simp_all add: kill_def)

lemma warten_cases:
  assumes "warten sig pc p = Some p'"
  obtains (leave) "flag p" "spc p' = pc" "\<not> flag p'" "pending p' = pending p" "smask p \<subseteq> smask p'"
  | (wake) "\<not> flag p" "sig \<in> pending p" "p' = sig_func sig {} p"
  using assms by (auto simp: warten_def split: if_splits)

lemma usr_full: "{USR1, USR2} \<subseteq> m \<Longrightarrow> m = {USR1, USR2}"
  using usr.exhaust by blast

lemma masked_step:
  assumes "masked s" and "sync_act a s = Some s'"
  shows "masked s'"
proof -
  have w: "smask p' = {USR1, USR2}" if "warten sig pc p = Some p'" "smask p = {USR1, USR2}" for sig pc p p'
    using that(1) by (cases rule: warten_cases) (use that(2) usr_full [of "smask p'"] in auto)
  show ?thesis using assms w
    by (cases a) (auto simp: masked_def kind_step_def eltern_step_def Let_def split: sync_pc.splits if_splits)
qed

lemma not_deliverable: "masked s \<Longrightarrow> \<not> deliverable sig (kind s) \<and> \<not> deliverable sig (eltern s)"
  by (cases sig) (auto simp: masked_def deliverable_def)

lemma turns_kind: "(turns n @ [''Eltern \<newline>'']) @ [''Kind \<newline>''] = turns (Suc n)"
  using turns_Suc [of n] by simp

text \<open>The steps that are possible: of the child and of the parent.\<close>

lemma act_cases:
  assumes "masked s" and "sync_act a s = Some s'"
  obtains sig where "kind_step sig s = Some s'" | sig where "eltern_step sig s = Some s'"
  using assms not_deliverable [OF assms(1)] by (cases a) auto

lemma kind_step_stage:
  assumes "stage s" and "kind_step sig s = Some s'"
  shows "stage s'"
  using assms(1)
proof cases
  case (kind_wakes n)
  with assms(2) obtain p' where p': "warten sig (Print n) (kind s) = Some p'" "s' = s\<lparr>kind := p'\<rparr>"
    by (auto simp: kind_step_def)
  from p'(1) show ?thesis
  proof (cases rule: warten_cases)
    case leave
    with kind_wakes p' show ?thesis by (intro stage.kind_prints [of n]) (auto simp: quiet_def)
  next
    case wake
    with kind_wakes p' show ?thesis by (intro stage.kind_wakes [of n]) auto
  qed
next
  case (kind_prints n)
  with assms(2) show ?thesis
    by (intro stage.kind_kills [of n]) (auto simp: kind_step_def quiet_def turns_kind [unfolded append_assoc append_Cons append_Nil])
next
  case (kind_kills n)
  then have s': "s' = s\<lparr>kind := (kind s)\<lparr>spc := if Suc n < MAXR then Wait (Suc n) else EndMsg\<rparr>, eltern := kill USR1 (eltern s)\<rparr>"
    and pend: "pending (kill USR1 (eltern s)) = {USR1}"
    using assms(2) by (simp_all add: kind_step_def kill_def quiet_def)
  show ?thesis
  proof (cases "Suc n < MAXR")
    case True
    with kind_kills s' pend show ?thesis by (intro stage.eltern_wakes [of n]) (auto simp: quiet_def)
  next
    case False
    with kind_kills(1) have "Suc n = MAXR" by simp
    with kind_kills s' pend show ?thesis
      by (intro stage.eltern_wakes_last [of n _ "[]"]) (auto simp: quiet_def kind_end_def last_words_def)
  qed
next
  case (eltern_wakes_last n xs)
  then have "spc (kind s) = EndMsg" and s': "s' = s\<lparr>kind := (kind s)\<lparr>spc := Ended\<rparr>, shown := shown s @ [''--- Kind Ende ---\<newline>'']\<rparr>"
    using assms(2) by (auto simp: kind_step_def kind_end_def)
  with eltern_wakes_last show ?thesis
    by (intro stage.eltern_wakes_last [of n _ "xs @ [''--- Kind Ende ---\<newline>'']"]) (auto simp: quiet_def kind_end_def last_words_def)
next
  case (ending xs)
  then have "spc (kind s) = EndMsg" and s': "s' = s\<lparr>kind := (kind s)\<lparr>spc := Ended\<rparr>, shown := shown s @ [''--- Kind Ende ---\<newline>'']\<rparr>"
    using assms(2) by (auto simp: kind_step_def kind_end_def)
  with ending show ?thesis
    by (intro stage.ending [of _ "xs @ [''--- Kind Ende ---\<newline>'']"]) (auto simp: quiet_def kind_end_def last_words_def)
qed (use assms(2) in \<open>auto simp: kind_step_def warten_def quiet_def\<close>)

lemma eltern_step_stage:
  assumes "stage s" and "eltern_step sig s = Some s'"
  shows "stage s'"
  using assms(1)
proof cases
  case (eltern_prints n)
  with assms(2) show ?thesis by (intro stage.eltern_kills [of n]) (auto simp: eltern_step_def quiet_def)
next
  case (eltern_kills n)
  with assms(2) show ?thesis by (intro stage.kind_wakes [of n]) (auto simp: eltern_step_def quiet_def kill_def)
next
  case (eltern_wakes n)
  with assms(2) obtain p' where p': "warten sig (Print (Suc n)) (eltern s) = Some p'" "s' = s\<lparr>eltern := p'\<rparr>"
    by (auto simp: eltern_step_def)
  from p'(1) show ?thesis
  proof (cases rule: warten_cases)
    case leave
    with eltern_wakes p' show ?thesis by (intro stage.eltern_prints [of "Suc n"]) (auto simp: quiet_def)
  next
    case wake
    with eltern_wakes p' show ?thesis by (intro stage.eltern_wakes [of n]) auto
  qed
next
  case (eltern_wakes_last n xs)
  with assms(2) obtain p' where p': "warten sig EndMsg (eltern s) = Some p'" "s' = s\<lparr>eltern := p'\<rparr>"
    by (auto simp: eltern_step_def)
  from p'(1) show ?thesis
  proof (cases rule: warten_cases)
    case leave
    with eltern_wakes_last p' show ?thesis
      by (intro stage.ending [of _ xs]) (auto simp: quiet_def kind_end_def last_words_def)
  next
    case wake
    with eltern_wakes_last p' show ?thesis
      by (intro stage.eltern_wakes_last [of n _ xs]) (auto simp: kind_end_def last_words_def)
  qed
next
  case (ending xs)
  then have "spc (eltern s) = EndMsg" and s': "s' = s\<lparr>eltern := (eltern s)\<lparr>spc := Ended\<rparr>, shown := shown s @ [''-- Eltern Ende ---\<newline>'']\<rparr>"
    using assms(2) by (auto simp: eltern_step_def)
  with ending show ?thesis
    by (intro stage.ending [of _ "xs @ [''-- Eltern Ende ---\<newline>'']"]) (auto simp: quiet_def kind_end_def last_words_def)
qed (use assms(2) in \<open>auto simp: eltern_step_def warten_def quiet_def\<close>)

section \<open>Termination\<close>

definition kind_rank :: "sproc \<Rightarrow> nat" where
  "kind_rank p = (case spc p of
     Wait n \<Rightarrow> 4 * (MAXR - n) + (if flag p then 0 else 1)
   | Print n \<Rightarrow> 4 * (MAXR - n) - 1
   | Kill n \<Rightarrow> 4 * (MAXR - n) - 2
   | EndMsg \<Rightarrow> 1
   | Ended \<Rightarrow> 0)"

definition eltern_rank :: "sproc \<Rightarrow> nat" where
  "eltern_rank p = (case spc p of
     Print n \<Rightarrow> 4 * (MAXR - n) + 1
   | Kill n \<Rightarrow> 4 * (MAXR - n)
   | Wait n \<Rightarrow> 4 * (MAXR - n) - (if flag p then 2 else 1)
   | EndMsg \<Rightarrow> 1
   | Ended \<Rightarrow> 0)"

definition sync_rank :: "sync \<Rightarrow> nat" where
  "sync_rank s = kind_rank (kind s) + eltern_rank (eltern s)"

fun pc_bound :: "sync_pc \<Rightarrow> bool" where
  "pc_bound (Wait n) = (n < MAXR)"
| "pc_bound (Print n) = (n < MAXR)"
| "pc_bound (Kill n) = (n < MAXR)"
| "pc_bound _ = True"

definition all_done :: "sync \<Rightarrow> bool" where
  "all_done s \<longleftrightarrow> spc (kind s) = Ended \<and> spc (eltern s) = Ended"

lemma stage_bound: "stage s \<Longrightarrow> pc_bound (spc (kind s)) \<and> pc_bound (spc (eltern s))"
  by (induction rule: stage.induct) (auto simp: kind_end_def)

lemma rank_kill [simp]: "kind_rank (kill sig p) = kind_rank p" "eltern_rank (kill sig p) = eltern_rank p"
  by (simp_all add: kind_rank_def eltern_rank_def)

lemma kind_step_rank:
  assumes "stage s" and "kind_step sig s = Some s'"
  shows "sync_rank s' < sync_rank s"
proof (cases "spc (kind s)")
  case (Wait n)
  then have n: "n < MAXR" using stage_bound [OF assms(1)] by simp
  from Wait assms(2) obtain p' where p': "warten sig (Print n) (kind s) = Some p'" "s' = s\<lparr>kind := p'\<rparr>"
    by (auto simp: kind_step_def)
  from p'(1) have "kind_rank p' < kind_rank (kind s)"
    by (cases rule: warten_cases) (use Wait n in \<open>auto simp: kind_rank_def\<close>)
  with p' show ?thesis by (simp add: sync_rank_def)
qed (use assms(2) stage_bound [OF assms(1)] in \<open>auto simp: kind_step_def sync_rank_def kind_rank_def split: if_splits\<close>)

lemma eltern_step_rank:
  assumes "stage s" and "eltern_step sig s = Some s'"
  shows "sync_rank s' < sync_rank s"
proof (cases "spc (eltern s)")
  case (Wait n)
  define pc where "pc = (if Suc n < MAXR then Print (Suc n) else EndMsg)"
  have n: "n < MAXR" using Wait stage_bound [OF assms(1)] by simp
  from Wait assms(2) obtain p' where p': "warten sig pc (eltern s) = Some p'" "s' = s\<lparr>eltern := p'\<rparr>"
    by (auto simp: eltern_step_def pc_def)
  from p'(1) have "eltern_rank p' < eltern_rank (eltern s)"
    by (cases rule: warten_cases) (use Wait n in \<open>auto simp: eltern_rank_def pc_def\<close>)
  with p' show ?thesis by (simp add: sync_rank_def)
qed (use assms(2) stage_bound [OF assms(1)] in \<open>auto simp: eltern_step_def sync_rank_def eltern_rank_def split: if_splits\<close>)

lemma stage_progress:
  assumes "stage s" and "\<not> all_done s"
  shows "\<exists>a s'. sync_act a s = Some s'"
proof -
  have k: "\<exists>a s'. sync_act a s = Some s'" if "kind_step sig s \<noteq> None" for sig
    using that by (intro exI [of _ "Kind sig"]) auto
  have e: "\<exists>a s'. sync_act a s = Some s'" if "eltern_step sig s \<noteq> None" for sig
    using that by (intro exI [of _ "Eltern sig"]) auto
  from assms(1) show ?thesis
  proof cases
    case (kind_wakes n)
    then have "flag (kind s) \<or> USR2 \<in> pending (kind s)" by blast
    with kind_wakes(3) show ?thesis by (intro k [of USR2]) (auto simp: kind_step_def warten_def Let_def)
  next
    case (eltern_wakes n)
    then have "flag (eltern s) \<or> USR1 \<in> pending (eltern s)" by blast
    with eltern_wakes(2) show ?thesis by (intro e [of USR1]) (auto simp: eltern_step_def warten_def Let_def)
  next
    case (eltern_wakes_last n xs)
    then have "flag (eltern s) \<or> USR1 \<in> pending (eltern s)" by blast
    with eltern_wakes_last(2) show ?thesis by (intro e [of USR1]) (auto simp: eltern_step_def warten_def Let_def)
  next
    case (ending xs)
    then consider "spc (kind s) = EndMsg" | "spc (eltern s) = EndMsg"
      using assms(2) by (auto simp: all_done_def kind_end_def)
    then show ?thesis
    proof cases
      case 1
      then show ?thesis by (intro k [of USR1]) (simp add: kind_step_def)
    next
      case 2
      then show ?thesis by (intro e [of USR1]) (simp add: eltern_step_def)
    qed
  next
    case (eltern_prints n)
    then show ?thesis by (intro e [of USR1]) (simp add: eltern_step_def)
  next
    case (eltern_kills n)
    then show ?thesis by (intro e [of USR1]) (simp add: eltern_step_def)
  next
    case (kind_prints n)
    then show ?thesis by (intro k [of USR1]) (simp add: kind_step_def)
  next
    case (kind_kills n)
    then show ?thesis by (intro k [of USR1]) (simp add: kind_step_def)
  qed
qed

interpretation sync: terminating_protocol sync_act "\<lambda>s. sig_sync_main True = Inr s" "\<lambda>s. masked s \<and> stage s" sync_rank all_done
proof
  show "masked s \<and> stage s" if "sig_sync_main True = Inr s" for s
    using that by (auto simp: sig_sync_main_def start_sync_def Let_def masked_def quiet_def turns_def intro!: stage.eltern_prints [of 0])
  show "masked s' \<and> stage s'" if "masked s \<and> stage s" "sync_act a s = Some s'" for s a s'
  proof -
    have "masked s" "stage s" using that(1) by simp_all
    from this(1) that(2) have "stage s'"
      by (cases rule: act_cases) (use \<open>stage s\<close> kind_step_stage eltern_step_stage in blast)+
    with masked_step \<open>masked s\<close> that(2) show ?thesis by blast
  qed
  show "sync_rank s' < sync_rank s" if "masked s \<and> stage s" "sync_act a s = Some s'" for s a s'
  proof -
    have "masked s" "stage s" using that(1) by simp_all
    from this(1) that(2) show ?thesis
      by (cases rule: act_cases) (use \<open>stage s\<close> kind_step_rank eltern_step_rank in blast)+
  qed
  show "\<exists>a s'. sync_act a s = Some s'" if "masked s \<and> stage s" "\<not> all_done s" for s
    using that stage_progress by blast
qed

lemma take_turns:
  "stage s \<Longrightarrow> prefix (take 10 (shown s)) (turns MAXR)"
proof -
  have less: "prefix (take 10 (turns n @ [''Eltern \<newline>''])) (turns MAXR) \<and> prefix (take 10 (turns n)) (turns MAXR)
      \<and> prefix (take 10 (turns (Suc n))) (turns MAXR)" if "n < MAXR" for n
  proof -
    from that have "n \<in> {0, 1, 2, 3, 4}" by auto
    then show ?thesis by (auto simp: turns_def numeral_eq_Suc)
  qed
  have last: "take 10 (turns MAXR @ xs) = turns MAXR" for xs by (simp add: turns_def numeral_eq_Suc)
  show "stage s \<Longrightarrow> ?thesis"
    by (induction rule: stage.induct) (use less last in \<open>auto simp del: replicate.simps\<close>)
qed

text \<open>
  C18: strict alternation: for every interleaving of the two processes and of the delivery of the
  signals, the first ten lines are printed alternately by parent and child, the parent first; the
  program takes at most 42 steps, and it can stop only when both have ended, having printed all
  ten lines and their two closing lines.
\<close>

theorem sync_alternates:
  assumes "sig_sync_main True = Inr s0" and "run sync_act as s0 = Some s"
  shows "length as \<le> 42 \<and> prefix (take 10 (shown s)) (turns MAXR) \<and>
    ((\<forall>a. sync_act a s = None) \<longrightarrow> all_done s \<and> take 10 (shown s) = turns MAXR \<and>
       mset (drop 10 (shown s)) = {#''--- Kind Ende ---\<newline>'', ''-- Eltern Ende ---\<newline>''#})"
proof -
  have inv0: "masked s0 \<and> stage s0" by (rule sync.inv_init [OF assms(1)])
  have st: "stage s" using sync.always [OF run_reach [OF assms(2)] assms(1)] by blast
  have "sync_rank s0 = 42"
    using assms(1) by (auto simp: sig_sync_main_def start_sync_def Let_def sync_rank_def kind_rank_def eltern_rank_def)
  with sync.run_bound [OF inv0 assms(2)] have len: "length as \<le> 42" by simp
  have "take 10 (shown s) = turns MAXR \<and> mset (drop 10 (shown s)) = {#''--- Kind Ende ---\<newline>'', ''-- Eltern Ende ---\<newline>''#}"
    if "all_done s"
    using st
  proof cases
    case (ending xs)
    have "length (turns MAXR) = 10" by (simp add: turns_def numeral_eq_Suc)
    with ending(5,6) that show ?thesis by (simp add: last_words_def all_done_def)
  qed (use that in \<open>auto simp: all_done_def\<close>)
  with len take_turns [OF st] sync.stuck_final [OF inv0 assms(2)] show ?thesis by blast
qed

abbreviation (input) one_turn :: "sync_action list" where
  "one_turn \<equiv> [Eltern USR1, Eltern USR1, Kind USR2, Kind USR2, Kind USR1, Kind USR1, Eltern USR1, Eltern USR1]"

theorem sync_alternates_witness:
  "\<exists>s0 s. sig_sync_main True = Inr s0 \<and>
     run sync_act (one_turn @ one_turn @ one_turn @ one_turn @ one_turn @ [Kind USR1, Eltern USR1]) s0 = Some s \<and>
     all_done s \<and> take 10 (shown s) = turns MAXR"
proof -
  define s0 where "s0 = projr (sig_sync_main True)"
  define s where "s = the (run sync_act (one_turn @ one_turn @ one_turn @ one_turn @ one_turn @ [Kind USR1, Eltern USR1]) s0)"
  have i: "sig_sync_main True = Inr s0" unfolding s0_def by (simp add: sig_sync_main_def Let_def)
  have r: "run sync_act (one_turn @ one_turn @ one_turn @ one_turn @ one_turn @ [Kind USR1, Eltern USR1]) s0 = Some s"
    and d: "all_done s"
    unfolding s_def s0_def all_done_def by code_simp+
  have "sync_act a s = None" for a
    using d by (cases a) (auto simp: all_done_def kind_step_def eltern_step_def deliverable_def)
  with sync_alternates [OF i r] i r show ?thesis by blast
qed

end
