(* ===== verification/SigHandlers.thy ===== *)
theory SigHandlers
  imports CString
begin

text \<open>
  \<^verbatim>\<open>src/08_Signals/sig.c\<close> and \<^verbatim>\<open>ping_pong.c\<close>: the actions of a process for its signals, how the
  programs change them, and what the arriving signals do. Signals arrive one at a time, between
  two steps of the main program.
\<close>

section \<open>Signal actions\<close>

abbreviation (input) SIGINT :: int where "SIGINT \<equiv> 2"
abbreviation (input) SIGABRT :: int where "SIGABRT \<equiv> 6"
abbreviation (input) SIGFPE :: int where "SIGFPE \<equiv> 8"
abbreviation (input) SIGKILL :: int where "SIGKILL \<equiv> 9"
abbreviation (input) SIGALRM :: int where "SIGALRM \<equiv> 14"
abbreviation (input) SIGSTOP :: int where "SIGSTOP \<equiv> 19"

text \<open>A handler: the default action, ignoring, an error, or the function of the program.\<close>

datatype handler = SIG_DFL | SIG_IGN | SIG_ERR | Function

record sigaction =
  sa_handler :: handler
  sa_mask :: "int list"
  sa_restart :: bool

type_synonym actions = "int \<Rightarrow> sigaction"

definition get_action :: "actions \<Rightarrow> int \<Rightarrow> sigaction option" where
  "get_action acts nr = (if 1 \<le> nr \<and> nr \<le> 64 then Some (acts nr) else None)"

definition set_action :: "actions \<Rightarrow> int \<Rightarrow> sigaction \<Rightarrow> actions option" where
  "set_action acts nr sa =
     (if 1 \<le> nr \<and> nr \<le> 64 \<and> nr \<noteq> SIGKILL \<and> nr \<noteq> SIGSTOP then Some (acts(nr := sa)) else None)"

definition default_actions :: actions where
  "default_actions nr = \<lparr>sa_handler = SIG_DFL, sa_mask = [], sa_restart = False\<rparr>"

definition my_signal :: "int \<Rightarrow> handler \<Rightarrow> actions \<Rightarrow> handler \<times> actions" where
  "my_signal sig_nr signalhandler acts =
     (case set_action acts sig_nr \<lparr>sa_handler = signalhandler, sa_mask = [], sa_restart = True\<rparr> of
        None \<Rightarrow> (SIG_ERR, acts)
      | Some acts' \<Rightarrow> (sa_handler (acts sig_nr), acts'))"

definition signal_add :: "int \<Rightarrow> handler \<Rightarrow> actions \<Rightarrow> handler \<times> actions" where
  "signal_add sig_nr signalhandler acts =
     (case get_action acts sig_nr of
        None \<Rightarrow> (SIG_ERR, acts)
      | Some sa \<Rightarrow>
          (let add_sig = sa\<lparr>sa_handler := signalhandler, sa_mask := List.insert sig_nr (sa_mask sa), sa_restart := True\<rparr> in
           case set_action acts sig_nr add_sig of
             None \<Rightarrow> (SIG_ERR, acts)
           | Some acts' \<Rightarrow> (sa_handler add_sig, acts')))"

definition signal_del :: "int \<Rightarrow> actions \<Rightarrow> handler \<times> actions" where
  "signal_del sig_nr acts =
     (case get_action acts sig_nr of
        None \<Rightarrow> (SIG_ERR, acts)
      | Some sa \<Rightarrow>
          (let del_sig = sa\<lparr>sa_handler := SIG_DFL, sa_mask := removeAll sig_nr (sa_mask sa), sa_restart := True\<rparr> in
           case set_action acts sig_nr del_sig of
             None \<Rightarrow> (SIG_ERR, acts)
           | Some acts' \<Rightarrow> (sa_handler del_sig, acts')))"

definition check_signal :: "int \<Rightarrow> actions \<Rightarrow> say list" where
  "check_signal sig_nr acts =
     (case get_action acts sig_nr of
        None \<Rightarrow> []
      | Some sa \<Rightarrow>
          [Out (''Aktion beim Auftreten von Signal '' @ show_int sig_nr @ '': ''),
           (if sa_handler sa = SIG_DFL then Out ''Standardaktion (default)\<newline>''
            else if sa_handler sa = SIG_IGN then Out ''Wird ignoriert\<newline>''
            else Out ''Signalhandler wird aufgerufeb\<newline>'')])"

section \<open>The program \<^verbatim>\<open>sig.c\<close>\<close>

record sig_state =
  acts :: actions
  alarm :: bool
  killed :: "int option"
  sig_out :: "say list"

text \<open>The handler; \<open>nr\<close> is the number typed into its menu.\<close>

definition check_sig :: "int \<Rightarrow> int \<Rightarrow> sig_state \<Rightarrow> sig_state" where
  "check_sig signr nr s =
     (if signr = SIGINT then
        (let s1 = s\<lparr>sig_out := sig_out s @ [Out ''SIGINT ausgeloest\<newline>'', Out ''- 1 - Signal aus Maske entfernen\<newline>'',
           Out ''- 2 - Signal ignorieren\<newline>'', Out ''- 3 - SIGALARM in 5 Sek ausloesen\<newline>'',
           Out ''- 4 - Programm beenden\<newline>'', Out ''Ihre Wahl: '']\<rparr> in
         if nr = 1 then s1\<lparr>acts := snd (signal_del SIGINT (acts s1)), sig_out := sig_out s1 @ [Out ''SIGINT wurde entfernt\<newline>'']\<rparr>
         else if nr = 2 then s1
         else if nr = 3 then s1\<lparr>alarm := True\<rparr>
         else if nr = 4 then s1\<lparr>killed := Some SIGKILL\<rparr>
         else s1\<lparr>sig_out := sig_out s1 @ [Out ''Unbekannte Eingabe!\<newline>'']\<rparr>)
      else if signr = SIGALRM then s\<lparr>sig_out := sig_out s @ [Out ''SIGALRM ausgeloest\<newline>''], killed := Some SIGKILL\<rparr>
      else s)"

text \<open>
  A signal arrives: the default action ends the process (that of all signals the program is
  concerned with).
\<close>

definition arrive :: "int \<times> int \<Rightarrow> sig_state \<Rightarrow> sig_state" where
  "arrive ev s =
     (if killed s \<noteq> None then s
      else case sa_handler (acts s (fst ev)) of
        Function \<Rightarrow> check_sig (fst ev) (snd ev) s
      | SIG_IGN \<Rightarrow> s
      | _ \<Rightarrow> s\<lparr>killed := Some (fst ev)\<rparr>)"

text \<open>\<^verbatim>\<open>main\<close>: the actions are set and shown; then signals arrive in the endless loop.\<close>

definition sig_setup :: sig_state where
  "sig_setup =
     (let a1 = snd (my_signal SIGINT Function default_actions);
          a2 = snd (signal_add SIGALRM Function a1);
          a3 = snd (signal_add SIGABRT SIG_IGN a2) in
      \<lparr>acts = a3, alarm = False, killed = None,
       sig_out = check_signal SIGINT a3 @ check_signal SIGALRM a3 @ check_signal SIGABRT a3 @ check_signal SIGFPE a3 @
         [Out ''<ctrl>-<c> druecken'']\<rparr>)"

definition sig_main :: "(int \<times> int) list \<Rightarrow> sig_state" where
  "sig_main evs = fold arrive evs sig_setup"

section \<open>The program \<^verbatim>\<open>ping_pong.c\<close>\<close>

text \<open>
  \<^verbatim>\<open>catch_sigint\<close> decrements the counter and installs itself again. Each element of the list is one
  round of the main loop: how many \<^verbatim>\<open>SIGINT\<close> arrive during it. The result is whether the loop has
  ended within these rounds.
\<close>

definition catch_sigint :: "32 word \<times> actions \<Rightarrow> 32 word \<times> actions" where
  "catch_sigint s = (fst s - 1, snd (my_signal SIGINT Function (snd s)))"

fun ping_loop :: "32 word \<times> actions \<Rightarrow> nat list \<Rightarrow> say list \<Rightarrow> bool \<times> say list" where
  "ping_loop s [] out = (fst s = 0, out)"
| "ping_loop s (k # ks) out =
     (if fst s = 0 then (True, out)
      else ping_loop ((catch_sigint ^^ k) s) ks (out @ [Out ''Ping-'', Out ''Pong\<newline>'']))"

definition ping_main :: "nat list \<Rightarrow> bool \<times> say list" where
  "ping_main ks = ping_loop (1, snd (my_signal SIGINT Function default_actions)) ks []"

section \<open>Properties\<close>

text \<open>
  Adding and removing an action: for a signal that can be caught, \<^verbatim>\<open>signal_add\<close> installs the
  handler and blocks the signal while it runs, \<^verbatim>\<open>signal_del\<close> after it restores the default action
  with the signal out of the mask, and neither touches the other signals; for any other number both
  return \<^verbatim>\<open>SIG_ERR\<close> and change nothing.
\<close>

theorem signal_add_del:
  "if 1 \<le> nr \<and> nr \<le> 64 \<and> nr \<noteq> SIGKILL \<and> nr \<noteq> SIGSTOP then
     (\<exists>as1 as2. signal_add nr h as = (h, as1) \<and> sa_handler (as1 nr) = h \<and> nr \<in> set (sa_mask (as1 nr)) \<and>
        signal_del nr as1 = (SIG_DFL, as2) \<and> sa_handler (as2 nr) = SIG_DFL \<and>
        set (sa_mask (as2 nr)) = set (sa_mask (as nr)) - {nr} \<and> as2(nr := as nr) = as)
   else signal_add nr h as = (SIG_ERR, as) \<and> signal_del nr as = (SIG_ERR, as)"
  by (auto simp: signal_add_def signal_del_def get_action_def set_action_def Let_def)

definition harmless :: "int \<times> int \<Rightarrow> bool" where
  "harmless ev \<longleftrightarrow> fst ev = SIGABRT \<or> fst ev = SIGINT \<and> snd ev \<noteq> 1 \<and> snd ev \<noteq> 4"

lemma setup_actions:
  "sa_handler (acts sig_setup SIGINT) = Function" "sa_handler (acts sig_setup SIGALRM) = Function"
  "sa_handler (acts sig_setup SIGABRT) = SIG_IGN" "killed sig_setup = None"
  by (simp_all add: sig_setup_def my_signal_def signal_add_def get_action_def set_action_def default_actions_def Let_def)

lemma harmless_arrive:
  assumes "killed s = None" "sa_handler (acts s SIGINT) = Function" "sa_handler (acts s SIGABRT) = SIG_IGN" "harmless ev"
  shows "killed (arrive ev s) = None \<and> acts (arrive ev s) = acts s"
  using assms by (auto simp: arrive_def harmless_def check_sig_def Let_def)

lemma harmless_fold:
  "\<forall>ev \<in> set evs. harmless ev \<Longrightarrow> killed s = None \<Longrightarrow> sa_handler (acts s SIGINT) = Function \<Longrightarrow>
     sa_handler (acts s SIGABRT) = SIG_IGN \<Longrightarrow> killed (fold arrive evs s) = None \<and> acts (fold arrive evs s) = acts s"
proof (induction evs arbitrary: s)
  case (Cons ev evs)
  then show ?case using harmless_arrive [of s ev] by simp
qed simp

text \<open>
  What the program does with its signals: it survives \<^verbatim>\<open>SIGABRT\<close> and every \<^verbatim>\<open>SIGINT\<close> answered with
  something other than 1 or 4 any number of times; a \<^verbatim>\<open>SIGINT\<close> answered with 1 gives the signal back
  its default action, so that the next one ends the process.
\<close>

theorem sig_session:
  assumes "\<forall>ev \<in> set evs. harmless ev"
  shows "killed (sig_main evs) = None \<and> killed (sig_main (evs @ [(SIGINT, 4)])) = Some SIGKILL \<and>
    killed (sig_main (evs @ [(SIGINT, 1)])) = None \<and> killed (sig_main (evs @ [(SIGINT, 1), (SIGINT, nr)])) = Some SIGINT"
proof -
  define s where "s = fold arrive evs sig_setup"
  have s: "killed s = None" "acts s = acts sig_setup"
    using harmless_fold [OF assms, of sig_setup] setup_actions by (simp_all add: s_def)
  have one: "killed (arrive (SIGINT, 1) s) = None" "sa_handler (acts (arrive (SIGINT, 1) s) SIGINT) = SIG_DFL"
    using s setup_actions by (simp_all add: arrive_def check_sig_def signal_del_def get_action_def set_action_def Let_def)
  have "killed (arrive (SIGINT, 4) s) = Some SIGKILL"
    using s setup_actions by (simp add: arrive_def check_sig_def Let_def)
  moreover have "killed (arrive (SIGINT, nr) (arrive (SIGINT, 1) s)) = Some SIGINT"
    using one by (simp add: arrive_def)
  ultimately show ?thesis using s one by (simp add: sig_main_def s_def [symmetric])
qed

theorem sig_session_witness:
  "killed (sig_main [(SIGABRT, 0), (SIGINT, 3)]) = None \<and> killed (sig_main [(SIGABRT, 0), (SIGINT, 3), (SIGINT, 1), (SIGINT, 2)]) = Some SIGINT"
  using sig_session [of "[(SIGABRT, 0), (SIGINT, 3)]" 2] by (simp add: harmless_def)

lemma catch_iterate: "fst ((catch_sigint ^^ k) s) = fst s - of_nat k"
  by (induction k) (simp_all add: catch_sigint_def algebra_simps)

lemma ping_quiet:
  "fst s \<noteq> 0 \<Longrightarrow> ping_loop s (replicate n 0) out = (False, out @ concat (replicate n [Out ''Ping-'', Out ''Pong\<newline>'']))"
  by (induction n arbitrary: out) simp_all

lemma ping_quiet_then:
  "fst s \<noteq> 0 \<Longrightarrow> ping_loop s (replicate n 0 @ ks) out = ping_loop s ks (out @ concat (replicate n [Out ''Ping-'', Out ''Pong\<newline>'']))"
  by (induction n arbitrary: out) simp_all

text \<open>
  The loop of \<^verbatim>\<open>ping_pong\<close> ends after one \<^verbatim>\<open>SIGINT\<close>, with every ping followed by its pong; but when
  two arrive in the same round the counter passes zero, and no number of further rounds ends it.
\<close>

theorem ping_pong_counter:
  "ping_main (replicate n 0 @ 1 # ks) = (True, concat (replicate (Suc n) [Out ''Ping-'', Out ''Pong\<newline>''])) \<and>
   fst (ping_main (replicate n 0 @ 2 # replicate m 0)) = False"
proof -
  define s where "s = (1 :: 32 word, snd (my_signal SIGINT Function default_actions))"
  have s: "fst s = 1" by (simp add: s_def)
  have app: "concat (replicate n xs) @ xs = concat (replicate (Suc n) xs)" for xs :: "say list"
    by (induction n) auto
  have one: "fst (catch_sigint s) = 0" using catch_iterate [of 1 s] s by simp
  have "ping_loop t ks out = (True, out)" if "fst t = 0" for t out
    using that by (cases ks) simp_all
  with one s ping_quiet_then [of s n "1 # ks" "[]"] app [of "[Out ''Ping-'', Out ''Pong\<newline>'']"]
  have a: "ping_main (replicate n 0 @ 1 # ks) = (True, concat (replicate (Suc n) [Out ''Ping-'', Out ''Pong\<newline>'']))"
    by (simp add: ping_main_def s_def [symmetric])
  have two: "fst ((catch_sigint ^^ 2) s) = - 1" using catch_iterate [of 2 s] s by simp
  then have "fst ((catch_sigint ^^ 2) s) \<noteq> 0" by simp
  from ping_quiet [OF this] s ping_quiet_then [of s n "2 # replicate m 0" "[]"]
  have "fst (ping_main (replicate n 0 @ 2 # replicate m 0)) = False"
    by (simp add: ping_main_def s_def [symmetric])
  with a show ?thesis by blast
qed

end
