(* ===== verification/Cdrom.thy ===== *)
theory Cdrom
  imports CString
begin

unbundle bit_operations_syntax

text \<open>
  \<^verbatim>\<open>src/05_Devices/cdrom.c\<close>, a menu program for a CD drive. The drive is a parameter: a state \<open>'d\<close>
  that only the commands change, and functions for what the \<^verbatim>\<open>ioctl\<close> calls return.
\<close>

section \<open>The drive\<close>

record msf =
  minute :: nat
  second :: nat
  frame :: nat

datatype cd_command = CDROMEJECT | CDROMCLOSETRAY | CDROMPLAYMSF msf msf | CDROMSTOP | CDROMPAUSE | CDROMRESUME | CDROMSUBCHNL

text \<open>
  The commands return whether they succeed and the new state; the queries return \<open>None\<close> when they
  fail: the capabilities, the first and last track, and the entry of a track: its start and control
  bits.
\<close>

record 'd drive =
  command :: "cd_command \<Rightarrow> 'd \<Rightarrow> bool \<times> 'd"
  capability :: "'d \<Rightarrow> 32 word option"
  toc_header :: "'d \<Rightarrow> (nat \<times> nat) option"
  toc_entry :: "int \<Rightarrow> 'd \<Rightarrow> (msf \<times> 32 word) option"

abbreviation (input) CDROM_LEADOUT :: int where "CDROM_LEADOUT \<equiv> 0xAA"
abbreviation (input) CDROM_DATA_TRACK :: "32 word" where "CDROM_DATA_TRACK \<equiv> 0x04"
abbreviation (input) CDC_CD_R :: "32 word" where "CDC_CD_R \<equiv> 0x2000"
abbreviation (input) CDC_CD_RW :: "32 word" where "CDC_CD_RW \<equiv> 0x4000"
abbreviation (input) CDC_DVD :: "32 word" where "CDC_DVD \<equiv> 0x8000"
abbreviation (input) CDC_DVD_R :: "32 word" where "CDC_DVD_R \<equiv> 0x10000"
abbreviation (input) CDC_DVD_RAM :: "32 word" where "CDC_DVD_RAM \<equiv> 0x20000"
abbreviation (input) FULL :: int where "FULL \<equiv> 0"

text \<open>A part of the program goes on with a new state and more output, or exits with a code.\<close>

type_synonym 'd cd_result = "int \<times> 'd \<times> say list + 'd \<times> say list"

text \<open>\<^verbatim>\<open>%3d\<close>, and \<^verbatim>\<open>%02d\<close> and \<^verbatim>\<open>%06d\<close> with a sign before the zeros.\<close>

definition pad_blank :: "nat \<Rightarrow> int \<Rightarrow> string" where
  "pad_blank w i = (let s = show_int i in replicate (w - length s) SPC @ s)"

definition pad_zero :: "nat \<Rightarrow> int \<Rightarrow> string" where
  "pad_zero w i =
     (if i < 0 then (let s = show_int (- i) in CHR ''-'' # replicate (w - 1 - length s) (CHR ''0'') @ s)
      else (let s = show_int i in replicate (w - length s) (CHR ''0'') @ s))"

section \<open>The operations\<close>

text \<open>\<open>Some True\<close>: the device could be opened; \<open>None\<close>: no medium.\<close>

definition open_cdrom :: "bool option \<Rightarrow> 'd \<Rightarrow> say list \<Rightarrow> 'd cd_result" where
  "open_cdrom opened d out =
     (case opened of
        None \<Rightarrow> Inl (EXIT_FAILURE, d, out @ [Out ''Keine CD im Laufwerk!\<newline>''])
      | Some False \<Rightarrow> Inl (EXIT_FAILURE, d, out @ [Out ''Fehler bei open()''])
      | Some True \<Rightarrow> Inr (d, out))"

definition open_tray :: "'d drive \<Rightarrow> 'd \<Rightarrow> say list \<Rightarrow> 'd cd_result" where
  "open_tray cd d out =
     (case command cd CDROMEJECT d of (ok, d') \<Rightarrow>
        if ok then Inr (d', out) else Inl (EXIT_FAILURE, d', out @ [Perror ''Eject yourself\<newline>'']))"

text \<open>The commands whose failure is only reported.\<close>

definition reported :: "'d drive \<Rightarrow> cd_command \<Rightarrow> string \<Rightarrow> 'd \<Rightarrow> say list \<Rightarrow> 'd cd_result" where
  "reported cd c msg d out =
     (case command cd c d of (ok, d') \<Rightarrow> Inr (d', if ok then out else out @ [Perror msg]))"

definition close_tray :: "'d drive \<Rightarrow> 'd \<Rightarrow> say list \<Rightarrow> 'd cd_result" where
  "close_tray cd = reported cd CDROMCLOSETRAY ''Close by hand\<newline>''"

definition stop_cdrom :: "'d drive \<Rightarrow> 'd \<Rightarrow> say list \<Rightarrow> 'd cd_result" where
  "stop_cdrom cd = reported cd CDROMSTOP ''Kann CD nicht anhalten\<newline>''"

definition pause_cdrom :: "'d drive \<Rightarrow> 'd \<Rightarrow> say list \<Rightarrow> 'd cd_result" where
  "pause_cdrom cd = reported cd CDROMPAUSE ''Kann CD nicht pausieren\<newline>''"

definition resume_cdrom :: "'d drive \<Rightarrow> 'd \<Rightarrow> say list \<Rightarrow> 'd cd_result" where
  "resume_cdrom cd = reported cd CDROMRESUME ''Kann CD nicht fortsetzen\<newline>''"

definition yes_no :: "bool \<Rightarrow> string" where
  "yes_no b = (if b then ''ja'' else ''nein'')"

definition capability_cdrom :: "'d drive \<Rightarrow> 'd \<Rightarrow> say list \<Rightarrow> 'd cd_result" where
  "capability_cdrom cd d out =
     (case capability cd d of
        None \<Rightarrow> Inr (d, out @ [Perror ''CDROM_GET_CAPABILITY''])
      | Some caps \<Rightarrow> Inr (d, out @ [Out (''CDROM-Faehigkeiten:\<newline>'' @
          TAB # ''CD-R      : '' @ yes_no (caps AND CDC_CD_R \<noteq> 0) @ LF #
          TAB # ''CD-RW     : '' @ yes_no (caps AND CDC_CD_RW \<noteq> 0) @ LF #
          TAB # ''DVD       : '' @ yes_no (caps AND CDC_DVD \<noteq> 0) @ LF #
          TAB # ''DVD-R     : '' @ yes_no (caps AND CDC_DVD_R \<noteq> 0) @ LF #
          TAB # ''DVD-RAM   : '' @ yes_no (caps AND CDC_DVD_RAM \<noteq> 0) @ [LF])]))"

text \<open>
  \<^verbatim>\<open>get_audio_status\<close> passes its structure by value: whatever \<^verbatim>\<open>ioctl\<close> does with it, the structure it
  reads afterwards is the uninitialised local one, here \<open>sub\<close>.
\<close>

datatype audio_status = AUDIO_INVALID | AUDIO_PLAY | AUDIO_PAUSED | AUDIO_COMPLETED | AUDIO_ERROR | AUDIO_NO_STATUS | AUDIO_OTHER

record subchnl =
  audiostatus :: audio_status
  absaddr :: msf
  reladdr :: msf
  trk :: nat

definition status_name :: "audio_status \<Rightarrow> string" where
  "status_name st = (case st of
     AUDIO_INVALID \<Rightarrow> ''Invalid\<newline>'' | AUDIO_PLAY \<Rightarrow> ''Playing\<newline>'' | AUDIO_PAUSED \<Rightarrow> ''Pause\<newline>''
   | AUDIO_COMPLETED \<Rightarrow> ''Completed\<newline>'' | AUDIO_ERROR \<Rightarrow> ''Error\<newline>'' | AUDIO_NO_STATUS \<Rightarrow> ''No status\<newline>''
   | AUDIO_OTHER \<Rightarrow> ''Oops: unknown\<newline>'')"

definition get_audio_status :: "'d drive \<Rightarrow> subchnl \<Rightarrow> 'd \<Rightarrow> say list \<Rightarrow> 'd cd_result" where
  "get_audio_status cd sub d out =
     (case command cd CDROMSUBCHNL d of (ok, d') \<Rightarrow>
        Inr (d', out @ Out ''Audio Status: '' #
          (if \<not> ok then [Out ''FAILED!\<newline>'']
           else Out (status_name (audiostatus sub)) #
             (if audiostatus sub = AUDIO_PLAY \<or> audiostatus sub = AUDIO_PAUSED then
                [Out (''At: '' @ pad_zero 2 (int (minute (absaddr sub))) @ '':'' @ pad_zero 2 (int (second (absaddr sub))) @
                  '' abs/  '' @ pad_zero 2 (int (minute (reladdr sub))) @ '':'' @ pad_zero 2 (int (second (reladdr sub))) @
                  '' track '' @ show_int (int (trk sub)) @ ''\<newline>'')]
              else []))))"

text \<open>One line of the table of contents.\<close>

definition toc_line :: "int \<Rightarrow> msf \<times> 32 word \<Rightarrow> string" where
  "toc_line track e =
     (let a = fst e; m = int (minute a); s = int (second a); f = int (frame a) in
      pad_blank 3 track @ '': '' @ pad_zero 2 m @ '':'' @ pad_zero 2 s @ '':'' @ pad_zero 2 f @
      '' ('' @ pad_zero 6 (f + s * 75) @ '', '' @ pad_zero 6 (m * 75 * 60 - 150) @ '') '' @
      (if snd e AND CDROM_DATA_TRACK \<noteq> 0 then ''data'' else ''audio'') @
      (if CDROM_LEADOUT = track then '' (leadout)'' else '''') @ ''\<newline>'')"

function content_loop :: "'d drive \<Rightarrow> int \<Rightarrow> int \<Rightarrow> 'd \<Rightarrow> say list \<Rightarrow> 'd cd_result" where
  "content_loop cd track trk1 d out =
     (if track \<le> trk1 then
        (case toc_entry cd track d of
           None \<Rightarrow> Inl (EXIT_FAILURE, d, out @ [Perror ''Kann den Inhalt der CD nicht ermitteln''])
         | Some e \<Rightarrow> content_loop cd (track + 1) trk1 d (out @ [Out (toc_line track e)]))
      else Inr (d, out))"
  by pat_completeness auto
termination
  by (relation "measure (\<lambda>(cd, track, trk1, d, out). nat (trk1 + 1 - track))") auto

declare content_loop.simps [simp del]

definition content_cdrom :: "'d drive \<Rightarrow> 'd \<Rightarrow> say list \<Rightarrow> 'd cd_result" where
  "content_cdrom cd d out =
     (case toc_header cd d of
        None \<Rightarrow> Inl (EXIT_FAILURE, d, out @ [Perror ''Kann den Header nicht holen''])
      | Some (trk0, trk1) \<Rightarrow>
          content_loop cd (int trk0) (int trk1) d (out @ [Out (''\<newline>Inhalt '' @ show_int (int trk1) @ '' Tracks:\<newline>'')]))"

definition play_cdrom :: "'d drive \<Rightarrow> int \<Rightarrow> 'd \<Rightarrow> say list \<Rightarrow> 'd cd_result" where
  "play_cdrom cd flag d out =
     (let (track, lead) = (if flag = FULL then (1, CDROM_LEADOUT) else (flag, flag + 1)) in
      case toc_entry cd track d of
        None \<Rightarrow> Inl (EXIT_FAILURE, d, out @ [Perror ''Kann Inhalt der CD nicht ermitteln\<newline>''])
      | Some e0 \<Rightarrow>
          (case toc_entry cd lead d of
             None \<Rightarrow> Inl (EXIT_FAILURE, d, out @ [Perror ''Kann Inhalt der CD nicht ermitteln\<newline>''])
           | Some e1 \<Rightarrow>
               (case command cd (CDROMPLAYMSF (fst e0) (fst e1)) d of (ok, d') \<Rightarrow>
                  if ok then Inr (d', out) else Inl (EXIT_FAILURE, d', out @ [Perror ''Kann CD nicht abspielen\<newline>'']))))"

section \<open>The menu\<close>

definition menu_lines :: "say list" where
  "menu_lines = [Out ''-1- CD-Tray oeffnen\<newline>'', Out ''-2- CD-Tray schliessen\<newline>'', Out ''-3- CDROM-Faehigkeiten\<newline>'',
     Out ''-4- Audio-CD abspielen (komplett)\<newline>'', Out ''-5- Einzelnen Track abspielen\<newline>'', Out ''-6- <PAUSE>\<newline>'',
     Out ''-7- <FORTFAHREN>\<newline>'', Out ''-8- <STOP>\<newline>'', Out ''-9- Aktuellen Status ermitteln\<newline>'',
     Out ''-10- CD-Inhalt ausgeben\<newline>'', Out ''-11- Programmende\<newline>'', Out ''Auswahl: '']"

text \<open>The choices that do not read another number.\<close>

definition cd_choice :: "'d drive \<Rightarrow> subchnl \<Rightarrow> int \<Rightarrow> 'd \<Rightarrow> say list \<Rightarrow> 'd cd_result" where
  "cd_choice cd sub sel d out =
     (if sel = 1 then open_tray cd d out else if sel = 2 then close_tray cd d out
      else if sel = 3 then capability_cdrom cd d out else if sel = 4 then play_cdrom cd FULL d out
      else if sel = 6 then pause_cdrom cd d out else if sel = 7 then resume_cdrom cd d out
      else if sel = 8 then stop_cdrom cd d out else if sel = 9 then get_audio_status cd sub d out
      else if sel = 10 then content_cdrom cd d out else if sel = 11 then Inr (d, out @ [Out ''Bye!\<newline>''])
      else Inr (d, out @ [Out ''Was?'']))"

text \<open>
  The loop of \<^verbatim>\<open>main\<close>. Each element of the list is the result of one \<^verbatim>\<open>scanf("%d", ...)\<close>; \<open>None\<close> is input
  that is no number, which leaves the variable as it is. The exit code is \<open>None\<close> when the program
  waits for input.
\<close>

fun cd_loop :: "'d drive \<Rightarrow> subchnl \<Rightarrow> int option list \<Rightarrow> int \<Rightarrow> int \<Rightarrow> 'd \<Rightarrow> say list \<Rightarrow> int option \<times> 'd \<times> say list" where
  "cd_loop cd sub [] sel track d out = (None, d, out @ menu_lines)"
| "cd_loop cd sub (n # ns) sel track d out =
     (let sel' = (case n of None \<Rightarrow> sel | Some i \<Rightarrow> i); out' = out @ menu_lines in
      if sel' = 5 then
        (case ns of
           [] \<Rightarrow> (None, d, out' @ [Out ''Welchen Track: ''])
         | m # ms \<Rightarrow>
             (let track' = (case m of None \<Rightarrow> track | Some i \<Rightarrow> i) in
              case play_cdrom cd track' d (out' @ [Out ''Welchen Track: '']) of
                Inl (code, d1, out1) \<Rightarrow> (Some code, d1, out1)
              | Inr (d1, out1) \<Rightarrow> cd_loop cd sub ms sel' track' d1 out1))
      else
        (case cd_choice cd sub sel' d out' of
           Inl (code, d1, out1) \<Rightarrow> (Some code, d1, out1)
         | Inr (d1, out1) \<Rightarrow>
             if sel' = 11 then
               (case stop_cdrom cd d1 out1 of
                  Inl (code, d2, out2) \<Rightarrow> (Some code, d2, out2) | Inr (d2, out2) \<Rightarrow> (Some 0, d2, out2))
             else cd_loop cd sub ns sel' track d1 out1))"

definition cdrom_main :: "'d drive \<Rightarrow> subchnl \<Rightarrow> bool option \<Rightarrow> int option list \<Rightarrow> int \<Rightarrow> int \<Rightarrow> 'd \<Rightarrow> int option \<times> 'd \<times> say list" where
  "cdrom_main cd sub opened ns sel track d =
     (case open_cdrom opened d [] of
        Inl (code, d1, out) \<Rightarrow> (Some code, d1, out)
      | Inr (d1, out) \<Rightarrow> cd_loop cd sub ns sel track d1 out)"

section \<open>Properties\<close>

lemma content_loop_lists:
  "\<forall>t. trk0 \<le> t \<and> t \<le> trk1 \<longrightarrow> toc_entry cd t d = Some (e t) \<Longrightarrow>
     content_loop cd trk0 trk1 d out = Inr (d, out @ map (\<lambda>t. Out (toc_line t (e t))) [trk0..trk1])"
proof (induction cd trk0 trk1 d out rule: content_loop.induct)
  case (1 cd track trk1 d out)
  show ?case
  proof (cases "track \<le> trk1")
    case True
    with "1.prems" have "toc_entry cd track d = Some (e track)" by simp
    with "1.IH" "1.prems" True show ?thesis by (subst content_loop.simps) (simp add: upto_rec1)
  next
    case False
    then show ?thesis by (subst content_loop.simps) simp
  qed
qed

text \<open>
  The table of contents: if the drive answers the queries, the menu choice prints the header
  and exactly one line for each track from the first to the last, in order, and leaves the drive
  alone.
\<close>

theorem content_cdrom_lists:
  assumes "toc_header cd d = Some (trk0, trk1)"
    and "\<forall>t. int trk0 \<le> t \<and> t \<le> int trk1 \<longrightarrow> toc_entry cd t d = Some (e t)"
  shows "cd_choice cd sub 10 d out =
    Inr (d, out @ Out (''\<newline>Inhalt '' @ show_int (int trk1) @ '' Tracks:\<newline>'') #
      map (\<lambda>t. Out (toc_line t (e t))) [int trk0..int trk1])"
  using assms content_loop_lists [OF assms(2)] by (simp add: cd_choice_def content_cdrom_def)

text \<open>A drive with two tracks and a lead-out, whose state is the list of the commands it has got.\<close>

definition sample_drive :: "cd_command list drive" where
  "sample_drive =
     \<lparr>command = (\<lambda>c d. (True, d @ [c])), capability = (\<lambda>d. Some 0x2000), toc_header = (\<lambda>d. Some (1, 2)),
      toc_entry = (\<lambda>t d. if t = 1 then Some (\<lparr>minute = 0, second = 2, frame = 0\<rparr>, 0)
        else if t = 2 then Some (\<lparr>minute = 3, second = 10, frame = 5\<rparr>, 4)
        else if t = CDROM_LEADOUT then Some (\<lparr>minute = 7, second = 0, frame = 0\<rparr>, 0) else None)\<rparr>"

definition sample_sub :: subchnl where
  "sample_sub = \<lparr>audiostatus = AUDIO_OTHER, absaddr = \<lparr>minute = 0, second = 0, frame = 0\<rparr>,
     reladdr = \<lparr>minute = 0, second = 0, frame = 0\<rparr>, trk = 0\<rparr>"

theorem content_cdrom_lists_witness:
  "\<exists>l1 l2. cd_choice sample_drive sample_sub 10 [] [] = Inr ([], [Out ''\<newline>Inhalt 2 Tracks:\<newline>'', Out l1, Out l2])"
proof -
  define e where "e t = (if t = 1 then (\<lparr>minute = 0, second = 2, frame = 0\<rparr>, 0 :: 32 word)
    else (\<lparr>minute = 3, second = 10, frame = 5\<rparr>, 4))" for t :: int
  have u: "[1..2] = [1, 2 :: int]" by (simp add: upto_rec1)
  have s: "show_int 2 = ''2''" by code_simp
  have "\<forall>t. int 1 \<le> t \<and> t \<le> int 2 \<longrightarrow> toc_entry sample_drive t [] = Some (e t)"
    by (auto simp: sample_drive_def e_def)
  from content_cdrom_lists [of sample_drive "[]" 1 2, OF _ this] u s show ?thesis
    by (simp add: sample_drive_def)
qed

text \<open>
  Playing one track: the drive gets the start of the track and the start of the next one and
  nothing else; but for the last track there is no next one, and the program ends with a failure
  without playing it.
\<close>

theorem play_single_track:
  assumes "t \<noteq> FULL" and "toc_entry cd t d = Some e0"
  shows "play_cdrom cd t d out =
    (case toc_entry cd (t + 1) d of
       Some e1 \<Rightarrow> (case command cd (CDROMPLAYMSF (fst e0) (fst e1)) d of (ok, d') \<Rightarrow>
         if ok then Inr (d', out) else Inl (EXIT_FAILURE, d', out @ [Perror ''Kann CD nicht abspielen\<newline>'']))
     | None \<Rightarrow> Inl (EXIT_FAILURE, d, out @ [Perror ''Kann Inhalt der CD nicht ermitteln\<newline>'']))"
  using assms by (simp add: play_cdrom_def split: option.splits)

theorem play_single_track_witness:
  "play_cdrom sample_drive 1 [] [] =
     Inr ([CDROMPLAYMSF \<lparr>minute = 0, second = 2, frame = 0\<rparr> \<lparr>minute = 3, second = 10, frame = 5\<rparr>], []) \<and>
   play_cdrom sample_drive 2 [] [] = Inl (EXIT_FAILURE, [], [Perror ''Kann Inhalt der CD nicht ermitteln\<newline>''])"
  using play_single_track [of 1 sample_drive "[]" "(\<lparr>minute = 0, second = 2, frame = 0\<rparr>, 0)" "[]"]
    play_single_track [of 2 sample_drive "[]" "(\<lparr>minute = 3, second = 10, frame = 5\<rparr>, 4)" "[]"]
  by (simp add: sample_drive_def)

text \<open>Choices other than 11 that the drive carries out keep the menu running.\<close>

lemma cd_loop_simple:
  "sel \<notin> {5, 11} \<Longrightarrow> cd_choice cd sub sel d (out @ menu_lines) = Inr (d1, out1) \<Longrightarrow>
     cd_loop cd sub (Some sel # ns) sel0 track d out = cd_loop cd sub ns sel track d1 out1"
  by (simp add: Let_def)

end
