(* ===== verification/PrintQueue.thy ===== *)
theory PrintQueue
  imports CString
begin

text \<open>
  The printing service over FIFOs in \<^verbatim>\<open>src/09_IPC\<close>: \<^verbatim>\<open>client.c\<close> sends its process number and the typed
  lines through \<^verbatim>\<open>fifo.polling\<close>, \<^verbatim>\<open>server.c\<close> prints them and answers through the FIFO named after the
  number; \<^verbatim>\<open>sender.c\<close> and \<^verbatim>\<open>printme.c\<close> collect lines the same way; \<^verbatim>\<open>filter.c\<close> is the word filter for a
  pipeline. Character arrays are lists of their full length, with the indeterminate contents they
  start with as arguments; an access behind their end is a fault.
\<close>

section \<open>Collecting lines\<close>

text \<open>
  The loop with \<^verbatim>\<open>fgets\<close> and \<^verbatim>\<open>strcat\<close> that \<^verbatim>\<open>client.c\<close>, \<^verbatim>\<open>sender.c\<close> and \<^verbatim>\<open>printme.c\<close> share:
  \<open>n + 2\<close> is the size passed to \<^verbatim>\<open>fgets\<close>. The result is \<^verbatim>\<open>puffer\<close>, \<^verbatim>\<open>inhalt\<close>, the rest of the input
  and what was printed.
\<close>

type_synonym collected = "char list \<times> char list \<times> string \<times> say list"

function collect :: "nat \<Rightarrow> string \<Rightarrow> char list \<Rightarrow> char list \<Rightarrow> string \<Rightarrow> say list \<Rightarrow> collected cres" where
  "collect n prompt puffer inhalt inp out =
     (case fgets (n + 2) inp of
        None \<Rightarrow> Inr (puffer, inhalt, inp, out)
      | Some (line, rest) \<Rightarrow>
          (let puffer' = put_string puffer line in
           if length (cstr inhalt) + length (cstr puffer') < length inhalt then
             (case strcat inhalt (cstr puffer') of
                Inl f \<Rightarrow> Inl f
              | Inr inhalt' \<Rightarrow> collect n prompt puffer' inhalt' rest (out @ [Out prompt]))
           else Inr (puffer', inhalt, rest, out)))"
  by pat_completeness auto
termination
  by (relation "measure (\<lambda>(n, p, a, b, inp, out). length inp)") (auto dest: fgets_shorter)

declare collect.simps [simp del]

text \<open>\<^verbatim>\<open>inhalt[BUF - 1] = '\0'\<close> after the loop.\<close>

definition terminate_at_end :: "char list \<Rightarrow> char list" where
  "terminate_at_end a = a[length a - 1 := NUL]"

section \<open>\<^verbatim>\<open>client.c\<close>, \<^verbatim>\<open>sender.c\<close> and \<^verbatim>\<open>printme.c\<close>\<close>

abbreviation (input) BUFSZ :: nat where "BUFSZ \<equiv> 4096"

datatype mkfifo_result = Made | Exists | Refused

text \<open>What a program did to FIFOs: the bytes written into a FIFO and the name it unlinked.\<close>

datatype fifo_op = WriteFifo string string | UnlinkFifo string

text \<open>
  The answer is the result of the \<^verbatim>\<open>read\<close>: its value and the bytes it stored. The array of the name
  for \<^verbatim>\<open>unlink\<close> is never assigned.
\<close>

definition client_main ::
  "nat \<Rightarrow> mkfifo_result \<Rightarrow> bool \<Rightarrow> bool \<Rightarrow> char list \<Rightarrow> char list \<Rightarrow> char list \<Rightarrow> string \<Rightarrow> int \<times> string
     \<Rightarrow> (int \<times> say list \<times> fifo_op list) cres" where
  "client_main pid made fd_ok fdx_ok puffer0 inhalt0 delete_fifo inp answer =
     (let puffer1 = put_string puffer0 (''fifo.'' @ show_nat pid);
          inhalt1 = put_string inhalt0 (show_nat pid @ [LF]);
          out0 = (if made = Exists then [Out ''Verwende vorhandene FIFO\<newline>''] else []) in
      if made = Refused then Inr (EXIT_FAILURE, [Perror ''mkfifo()''], [])
      else if \<not> fd_ok \<or> \<not> fdx_ok then Inr (EXIT_FAILURE, out0 @ [Perror ''open()''], [])
      else
        (case collect (BUFSZ - 2) ''>'' puffer1 inhalt1 inp
             (out0 @ [Out ''Bitte Nachricht eingeben (CTR+D zum Beenden)\<newline>>'']) of
           Inl f \<Rightarrow> Inl f
         | Inr (puffer2, inhalt2, rest, out) \<Rightarrow>
             (let msg = terminate_at_end inhalt2;
                  puffer3 = snd answer @ drop (length (snd answer)) puffer2;
                  wr = [WriteFifo ''fifo.polling'' (take BUFSZ msg)] in
              if fst answer \<noteq> 0 \<and> \<not> terminated puffer3 \<or> \<not> terminated delete_fifo then Inl OutOfBounds
              else
                Inr (EXIT_SUCCESS, out @ (if fst answer \<noteq> 0 then [Out (cstr puffer3 @ [LF])] else []),
                  wr @ [UnlinkFifo (cstr delete_fifo)]))))"

definition sender_main :: "bool \<Rightarrow> char list \<Rightarrow> char list \<Rightarrow> string \<Rightarrow> (int \<times> say list \<times> fifo_op list) cres" where
  "sender_main fd_ok puffer0 inhalt0 inp =
     (let inhalt1 = inhalt0[0 := NUL] in
      if \<not> fd_ok then Inr (EXIT_FAILURE, [Perror ''open()''], [])
      else
        (case collect (BUFSZ - 2) ''>'' puffer0 inhalt1 inp
             [Out ''Bitte Nachricht an FIFO eingeben (mit CTRL+D beenden\<newline>>''] of
           Inl f \<Rightarrow> Inl f
         | Inr (puffer2, inhalt2, rest, out) \<Rightarrow>
             (let msg = terminate_at_end inhalt2 in
              Inr (EXIT_SUCCESS, out, [WriteFifo ''fifo.polling'' (take (length (cstr msg) + 1) msg)]))))"

text \<open>
  \<^verbatim>\<open>an_den_drucker\<close> of \<^verbatim>\<open>printme.c\<close>: the text goes to \<^verbatim>\<open>lpr\<close>, whose input is the second component.
\<close>

definition an_den_drucker :: "bool \<Rightarrow> string \<Rightarrow> int \<times> say list + say list \<times> string" where
  "an_den_drucker popen_ok txt =
     (if \<not> popen_ok then Inl (EXIT_FAILURE, [Perror ''popen()''])
      else Inr ([Out ''Sende Auftrag an Drucker...\<newline>''], txt))"

definition printme_main :: "bool \<Rightarrow> char list \<Rightarrow> char list \<Rightarrow> string \<Rightarrow> (int \<times> say list \<times> string option) cres" where
  "printme_main popen_ok puffer0 inhalt0 inp =
     (case collect (8192 - 2) ''->'' puffer0 (inhalt0[0 := NUL]) inp
          [Out ''Bitte Text zum  Drucken schreiben (Beenden mit CTR+D)!\<newline>->''] of
        Inl f \<Rightarrow> Inl f
      | Inr (puffer2, inhalt2, rest, out) \<Rightarrow>
          (case an_den_drucker popen_ok (cstr (terminate_at_end inhalt2)) of
             Inl (code, msg) \<Rightarrow> Inr (code, out @ msg, None)
           | Inr (msg, printed) \<Rightarrow> Inr (EXIT_SUCCESS, out @ msg, Some printed)))"

section \<open>\<^verbatim>\<open>server.c\<close>\<close>

text \<open>The loop that copies the number at the beginning of the message into \<^verbatim>\<open>pid\<close>.\<close>

function copy_pid :: "char list \<Rightarrow> nat \<Rightarrow> char list \<Rightarrow> nat \<Rightarrow> (char list \<times> nat) cres" where
  "copy_pid puffer n pid i =
     (if n \<ge> length puffer then Inl OutOfBounds
      else if puffer ! n = LF then Inr (pid, i)
      else if i \<ge> length pid then Inl OutOfBounds
      else copy_pid puffer (Suc n) (pid[i := puffer ! n]) (Suc i))"
  by pat_completeness auto
termination by (relation "measure (\<lambda>(puffer, n, pid, i). length puffer - n)") auto

declare copy_pid.simps [simp del]

text \<open>The name of the FIFO for the answer: \<^verbatim>\<open>pid[++i]\<close> is set, and \<open>i\<close> characters are appended.\<close>

definition answer_name :: "char list \<Rightarrow> char list \<Rightarrow> (string \<times> char list) cres" where
  "answer_name puffer pid =
     (case copy_pid puffer 0 pid 0 of
        Inl f \<Rightarrow> Inl f
      | Inr (pid1, i) \<Rightarrow>
          if Suc i \<ge> length pid1 then Inl OutOfBounds
          else (let pid2 = pid1[Suc i := LF] in Inr (''fifo.'' @ cstr (take (Suc i) pid2), pid2)))"

definition REPLY :: string where
  "REPLY = ''Habe Anfrage erhalten\<newline>'' @ [NUL]"

record fifo_server =
  puffer :: "char list"
  pid :: "char list"
  answers :: "(string \<times> string) list"
  srv_out :: "say list"

text \<open>
  \<^verbatim>\<open>an_den_drucker\<close> of the server: the text is only shown, the line that would send it to the printer
  is commented out. \<open>Inl\<close> inside the result is the failure of \<^verbatim>\<open>popen\<close>.
\<close>

definition server_drucker :: "bool \<Rightarrow> char list \<Rightarrow> (say list + say list) cres" where
  "server_drucker popen_ok txt =
     (if \<not> popen_ok then Inr (Inl [Perror ''popen()''])
      else if \<not> terminated txt then Inl OutOfBounds
      else Inr (Inr [Out ''Sende Auftrag an Drucker ...\<newline>'', Out (cstr txt)]))"

text \<open>
  One round of the main loop. \<open>rd\<close> is the result of \<^verbatim>\<open>read\<close> with the bytes it stored, \<open>can_open\<close> tells
  which FIFOs can be opened for writing. \<open>Inl\<close> inside the result is the exit code of the program.
\<close>

definition fifo_round ::
  "int \<times> string \<Rightarrow> bool \<Rightarrow> (string \<Rightarrow> bool) \<Rightarrow> fifo_server \<Rightarrow> (int \<times> fifo_server + fifo_server) cres" where
  "fifo_round rd popen_ok can_open s =
     (if fst rd = 0 then Inr (Inr s)
      else
        (let s1 = s\<lparr>puffer := snd rd @ drop (length (snd rd)) (puffer s)\<rparr> in
         case server_drucker popen_ok (puffer s1) of
           Inl f \<Rightarrow> Inl f
         | Inr (Inl msg) \<Rightarrow> Inr (Inl (EXIT_FAILURE, s1\<lparr>srv_out := srv_out s1 @ msg\<rparr>))
         | Inr (Inr msg) \<Rightarrow>
             (let s2 = s1\<lparr>srv_out := srv_out s1 @ msg\<rparr> in
              case answer_name (puffer s2) (pid s2) of
                Inl f \<Rightarrow> Inl f
              | Inr (antwort, pid') \<Rightarrow>
                  (let s3 = s2\<lparr>pid := pid'\<rparr> in
                   if \<not> can_open antwort then Inr (Inl (EXIT_FAILURE, s3\<lparr>srv_out := srv_out s3 @ [Perror ''open(2)'']\<rparr>))
                   else Inr (Inr (s3\<lparr>answers := answers s3 @ [(antwort, REPLY)]\<rparr>))))))"

fun fifo_rounds ::
  "((int \<times> string) \<times> bool \<times> (string \<Rightarrow> bool)) list \<Rightarrow> fifo_server \<Rightarrow> (int \<times> fifo_server + fifo_server) cres" where
  "fifo_rounds [] s = Inr (Inr s)"
| "fifo_rounds ((rd, popen_ok, can_open) # rs) s =
     (case fifo_round rd popen_ok can_open s of
        Inl f \<Rightarrow> Inl f
      | Inr (Inl r) \<Rightarrow> Inr (Inl r)
      | Inr (Inr s') \<Rightarrow> fifo_rounds rs s')"

definition fifo_server_main ::
  "mkfifo_result \<Rightarrow> bool \<Rightarrow> char list \<Rightarrow> char list \<Rightarrow> ((int \<times> string) \<times> bool \<times> (string \<Rightarrow> bool)) list
     \<Rightarrow> (int \<times> fifo_server + fifo_server) cres" where
  "fifo_server_main made r_ok puffer0 pid0 rs =
     (let s = \<lparr>puffer = puffer0, pid = pid0, answers = [],
               srv_out = (if made = Exists then [Out ''Verwende vorhandene FIFO\<newline>''] else [])\<rparr> in
      if made = Refused then Inr (Inl (EXIT_FAILURE, s\<lparr>srv_out := [Perror ''mkfifo()'']\<rparr>))
      else if \<not> r_ok then Inr (Inl (EXIT_FAILURE, s\<lparr>srv_out := srv_out s @ [Perror ''open(1)'']\<rparr>))
      else fifo_rounds rs s)"

section \<open>\<^verbatim>\<open>filter.c\<close>\<close>

definition filterwords :: "string list" where
  "filterwords = [''undo'', ''oder'', ''aber'', ''ein'']"

text \<open>The inner loop over the filter words: what is printed for the word \<open>p\<close>, and \<^verbatim>\<open>merker\<close>.\<close>

fun filter_word :: "string list \<Rightarrow> string \<Rightarrow> string \<times> bool" where
  "filter_word [] p = ([], False)"
| "filter_word (f # fs) p =
     (let (txt, merker) = filter_word fs p in
      if strstr p f \<noteq> None then (replicate (length f) CHR ''x'' @ '' '' @ txt, True)
      else (txt, merker))"

definition shown_word :: "string \<Rightarrow> string" where
  "shown_word p =
     (let (txt, merker) = filter_word filterwords p in if merker then txt else txt @ p @ '' '')"

text \<open>\<^verbatim>\<open>output\<close>: the loop over the words that \<^verbatim>\<open>strtok\<close> finds; \<open>s\<close> is the text it has left.\<close>

function (sequential) filter_output :: "string \<Rightarrow> string" where
  "filter_output s =
     (case strtok SPC s of
        None \<Rightarrow> []
      | Some (p, rest) \<Rightarrow> shown_word p @ filter_output rest)"
  by pat_completeness auto
termination by (relation "measure length") (auto dest: strtok_shorter)

declare filter_output.simps [simp del]

function filter_main :: "string \<Rightarrow> string" where
  "filter_main inp =
     (case fgets 255 inp of
        None \<Rightarrow> []
      | Some (line, rest) \<Rightarrow> filter_output (cstr line) @ filter_main rest)"
  by pat_completeness auto
termination by (relation "measure length") (auto dest: fgets_shorter)

declare filter_main.simps [simp del]

section \<open>Collecting never leaves the buffers\<close>

lemma strcat_fits:
  assumes "terminated a" and "no_nul s" and "length (cstr a) + length s < length a"
  obtains b where "strcat a s = Inr b" "cstr b = cstr a @ s" "terminated b" "length b = length a"
proof -
  from assms have "\<exists>b. strcat a s = Inr b" by (simp add: strcat_def strcpy_fits)
  then obtain b where b: "strcat a s = Inr b" ..
  with strcat_ok [OF this assms(2)] that show thesis by blast
qed

lemma collect_ok:
  assumes "terminated b" and "n + 2 \<le> length p"
  shows "\<exists>p' b' rest out'. collect n prompt p b inp out = Inr (p', b', rest, out') \<and>
    length p' = length p \<and> length b' = length b \<and> terminated b' \<and>
    (no_nul inp \<longrightarrow> prefix (cstr b') (cstr b @ inp)) \<and>
    (no_nul inp \<and> length (cstr b) + length inp < length b \<longrightarrow> cstr b' = cstr b @ inp \<and> rest = [])"
  using assms
proof (induction n prompt p b inp out rule: collect.induct)
  case (1 n prompt p b inp out)
  show ?case
  proof (cases "fgets (n + 2) inp")
    case None
    then have "inp = []" by (simp add: fgets_def split: if_splits)
    with None "1.prems" show ?thesis by (subst collect.simps) simp
  next
    case (Some lr)
    then obtain l r where lr: "fgets (n + 2) inp = Some (l, r)" by (cases lr) auto
    have inp: "inp = l @ r" and "length l \<le> n + 1" using fgets_split [OF lr] by auto
    then have lp: "length (put_string p l) = length p" using "1.prems" by simp
    let ?l = "cstr (put_string p l)"
    show ?thesis
    proof (cases "length (cstr b) + length ?l < length b")
      case True
      obtain c where c: "strcat b ?l = Inr c" "cstr c = cstr b @ ?l" "terminated c" "length c = length b"
        using strcat_fits [OF "1.prems"(1) no_nul_cstr True] .
      have "collect n prompt p b inp out = collect n prompt (put_string p l) c r (out @ [Out prompt])"
        using lr True c(1) by (subst collect.simps) (simp add: Let_def)
      moreover have "no_nul inp \<Longrightarrow> ?l = l" using inp by (simp add: cstr_put_string)
      moreover have "n + 2 \<le> length (put_string p l)" using "1.prems" lp by simp
      ultimately show ?thesis
        using "1.IH" [OF lr refl refl True c(1) c(3)] c lp inp by auto
    next
      case False
      then have "collect n prompt p b inp out = Inr (put_string p l, b, r, out)"
        using lr by (subst collect.simps) (simp add: Let_def)
      moreover have "length ?l \<le> length inp" using cstr_le [of l] inp by (simp add: cstr_put_string)
      ultimately show ?thesis using False "1.prems" lp by (auto simp: not_less)
    qed
  qed
qed

section \<open>The name of the answer\<close>

lemma copy_pid_copies:
  assumes "LF \<notin> set ds" and "n \<le> length ds" and "n \<le> length a"
  shows "copy_pid (ds @ LF # r) n (take n ds @ drop n a) n =
    (if length ds \<le> length a then Inr (ds @ drop (length ds) a, length ds) else Inl OutOfBounds)"
  using assms(2,3)
proof (induction "length ds - n" arbitrary: n)
  case 0
  then have "n = length ds" by simp
  with 0 show ?case by (subst copy_pid.simps) (simp add: nth_append)
next
  case (Suc k)
  then have n: "n < length ds" by simp
  then have c: "(ds @ LF # r) ! n = ds ! n" "ds ! n \<noteq> LF"
    using nth_mem [OF n] assms(1) by (simp add: nth_append, metis)
  show ?case
  proof (cases "n < length a")
    case True
    have "(take n ds @ drop n a)[n := ds ! n] = take (Suc n) ds @ drop (Suc n) a"
      using n True by (simp add: list_update_append upd_conv_take_nth_drop take_Suc_conv_app_nth)
    then have "copy_pid (ds @ LF # r) n (take n ds @ drop n a) n =
        copy_pid (ds @ LF # r) (Suc n) (take (Suc n) ds @ drop (Suc n) a) (Suc n)"
      using n c True by (subst copy_pid.simps) simp
    also have "\<dots> = (if length ds \<le> length a then Inr (ds @ drop (length ds) a, length ds) else Inl OutOfBounds)"
      using Suc n True by simp
    finally show ?thesis .
  next
    case False
    with n c show ?thesis by (subst copy_pid.simps) simp
  qed
qed

text \<open>
  The name the server opens: the number, and behind it whatever the array still holds there.
\<close>

lemma answer_name_of:
  assumes "LF \<notin> set ds" and "no_nul ds" and "length a = 6"
  shows "answer_name (ds @ LF # r) a =
    (if length ds < 5 then
       Inr (''fifo.'' @ ds @ cstr [a ! length ds], (ds @ drop (length ds) a)[Suc (length ds) := LF])
     else Inl OutOfBounds)"
proof -
  let ?k = "length ds"
  have c: "copy_pid (ds @ LF # r) 0 a 0 =
      (if ?k \<le> 6 then Inr (ds @ drop ?k a, ?k) else Inl OutOfBounds)"
    using copy_pid_copies [OF assms(1), of 0 a r] assms(3) by simp
  show ?thesis
  proof (cases "?k < 5")
    case True
    have "take (Suc ?k) ((ds @ drop ?k a)[Suc ?k := LF]) = ds @ [a ! ?k]"
      using True assms(3) by (simp add: take_Suc_conv_app_nth nth_append)
    moreover have "cstr (ds @ x) = ds @ cstr x" for x
      using assms(2) unfolding cstr_def no_nul_def by (induction ds) auto
    ultimately show ?thesis using True c assms(3) by (simp add: answer_name_def Let_def)
  next
    case False
    with c assms(3) show ?thesis by (simp add: answer_name_def)
  qed
qed

lemma show_nat_clean: "LF \<notin> set (show_nat n)" "no_nul (show_nat n)"
  using show_nat_digits [of n] by (auto simp: is_digit_def no_nul_def)

lemma terminated_split: "terminated a \<Longrightarrow> \<exists>t. a = cstr a @ NUL # t"
  unfolding terminated_def cstr_def by (induction a) auto

lemma terminate_at_end_ok:
  assumes "terminated a"
  shows "cstr (terminate_at_end a) = cstr a" "terminated (terminate_at_end a)" "length (terminate_at_end a) = length a"
proof -
  define c where "c = cstr a"
  from terminated_split [OF assms] obtain t where t: "a = c @ NUL # t" unfolding c_def ..
  have "\<exists>t'. terminate_at_end a = c @ NUL # t'"
  proof (cases t)
    case Nil
    with t show ?thesis by (intro exI [of _ "[]"]) (simp add: terminate_at_end_def list_update_append)
  next
    case (Cons x y)
    with t have "terminate_at_end a = c @ NUL # t[length t - 1 := NUL]"
      by (simp add: terminate_at_end_def list_update_append)
    then show ?thesis ..
  qed
  then show "cstr (terminate_at_end a) = cstr a" "terminated (terminate_at_end a)"
    using no_nul_cstr [of a] by (auto simp: c_def)
qed (simp add: terminate_at_end_def)

text \<open>What a client writes into the queue: its number, the lines, and the end of the string.\<close>

lemma client_message:
  assumes "made \<noteq> Refused" and "length puffer0 = BUFSZ" and "length inhalt0 = BUFSZ" and "terminated dname"
    and "no_nul inp" and "Suc (length (show_nat n)) + length inp < BUFSZ" and "terminated (snd answer)"
  shows "\<exists>out tl. client_main n made True True puffer0 inhalt0 dname inp answer =
    Inr (EXIT_SUCCESS, out, [WriteFifo ''fifo.polling'' (show_nat n @ LF # inp @ NUL # tl), UnlinkFifo (cstr dname)]) \<and>
    length (show_nat n @ LF # inp @ NUL # tl) = BUFSZ"
proof -
  define b where "b = put_string inhalt0 (show_nat n @ [LF])"
  define p where "p = put_string puffer0 (''fifo.'' @ show_nat n)"
  define out0 where "out0 = (if made = Exists then [Out ''Verwende vorhandene FIFO\<newline>''] else []) @
    [Out ''Bitte Nachricht eingeben (CTR+D zum Beenden)\<newline>>'']"
  have b: "terminated b" "length b = BUFSZ" "cstr b = show_nat n @ [LF]"
    using assms(3,6) show_nat_clean [of n] by (simp_all add: b_def cstr_put_string)
  have "BUFSZ - 2 + 2 \<le> length p" using assms(2) by (simp add: p_def put_string_def)
  from collect_ok [OF b(1) this, of "''>''" inp out0] b assms(5,6)
  obtain p' b' rest out' where c: "collect (BUFSZ - 2) ''>'' p b inp out0 = Inr (p', b', rest, out')"
    "length b' = BUFSZ" "terminated b'" "cstr b' = show_nat n @ LF # inp" by auto
  define m where "m = terminate_at_end b'"
  have m: "cstr m = show_nat n @ LF # inp" "terminated m" "length m = BUFSZ"
    using terminate_at_end_ok [OF c(3)] c by (simp_all add: m_def)
  then obtain tl where "m = show_nat n @ LF # inp @ NUL # tl" using terminated_split [OF m(2)] by auto
  moreover have "terminated (snd answer @ x)" for x using assms(7) by (simp add: terminated_def)
  ultimately show ?thesis
    using assms(1,4) c(1) m
    unfolding client_main_def Let_def b_def [symmetric] p_def [symmetric]
    by (intro exI [of _ "out' @ (if fst answer \<noteq> 0 then [Out (cstr (snd answer @ drop (length (snd answer)) p') @ [LF])] else [])"]
          exI [of _ tl])
      (simp add: out0_def [symmetric] m_def [symmetric])
qed

section \<open>Properties\<close>

text \<open>
  Collecting lines is safe and complete: for every input and every contents of its arrays,
  \<^verbatim>\<open>printme\<close> never writes behind \<^verbatim>\<open>puffer\<close> or \<^verbatim>\<open>inhalt\<close>; what it hands to the printer is the beginning of
  the input, and all of it when it has less than 8192 characters.
\<close>

theorem printme_prints:
  assumes "length puffer0 = 8192" and "length inhalt0 = 8192" and "no_nul inp"
  shows "\<exists>out printed. printme_main True puffer0 inhalt0 inp = Inr (EXIT_SUCCESS, out, Some printed) \<and>
    prefix printed inp \<and> (length inp < 8192 \<longrightarrow> printed = inp)"
proof -
  define b where "b = inhalt0[0 := NUL]"
  define out0 where "out0 = [Out ''Bitte Text zum  Drucken schreiben (Beenden mit CTR+D)!\<newline>->'']"
  obtain x xs where "inhalt0 = x # xs" using assms(2) by (cases inhalt0) auto
  then have "b = [] @ NUL # xs" by (simp add: b_def)
  then have b: "terminated b" "cstr b = []" by (simp_all add: cstr_def terminated_def)
  have bl: "length b = 8192" using assms(2) unfolding b_def by simp
  have "8192 - 2 + 2 \<le> length puffer0" using assms(1) by simp
  from collect_ok [OF b(1) this, of "''->''" inp out0] b bl assms(3)
  obtain p' b' rest out' where c: "collect (8192 - 2) ''->'' puffer0 b inp out0 = Inr (p', b', rest, out')"
    "terminated b'" "prefix (cstr b') inp" "length inp < 8192 \<longrightarrow> cstr b' = inp" by auto
  have "printme_main True puffer0 inhalt0 inp =
      Inr (EXIT_SUCCESS, out' @ [Out ''Sende Auftrag an Drucker...\<newline>''], Some (cstr b'))"
    using c(1) terminate_at_end_ok(1) [OF c(2)]
    unfolding printme_main_def b_def [symmetric] out0_def [symmetric] by (simp add: an_den_drucker_def)
  with c show ?thesis by blast
qed

theorem printme_prints_witness:
  "\<exists>out. printme_main True (replicate 8192 CHR ''?'') (replicate 8192 CHR ''?'') ''eins\<newline>zwei\<newline>'' =
    Inr (EXIT_SUCCESS, out, Some ''eins\<newline>zwei\<newline>'')"
  using printme_prints [of "replicate 8192 CHR ''?''" "replicate 8192 CHR ''?''" "''eins\<newline>zwei\<newline>''"] by auto

text \<open>
  C27: a request travels from \<^verbatim>\<open>client\<close> to \<^verbatim>\<open>server\<close>: when the server reads what the client wrote, it
  prints the client's number and lines; it then answers into the client's FIFO if the number has
  less than five digits and the array \<^verbatim>\<open>pid\<close> happens to hold a NUL behind it; with any other
  character there it looks for a FIFO that does not exist and ends with a failure; and with five
  digits or more it writes behind the array.
\<close>

theorem print_request:
  assumes "made \<noteq> Refused" and "length puffer0 = BUFSZ" and "length inhalt0 = BUFSZ" and "terminated dname"
    and "no_nul inp" and "Suc (length (show_nat n)) + length inp < BUFSZ" and "terminated (snd answer)"
    and "client_main n made True True puffer0 inhalt0 dname inp answer = Inr (code, out, WriteFifo q bytes # ops)"
    and "length (puffer s) = BUFSZ" and "length (pid s) = 6"
  shows "code = EXIT_SUCCESS \<and> q = ''fifo.polling'' \<and>
    (let k = length (show_nat n); name = ''fifo.'' @ show_nat n;
         r = fifo_round (int (length bytes), bytes) True (\<lambda>f. f = name) s;
         lines = srv_out s @ [Out ''Sende Auftrag an Drucker ...\<newline>'', Out (show_nat n @ LF # inp)] in
     if k \<ge> 5 then r = Inl OutOfBounds
     else if pid s ! k = NUL then (\<exists>s'. r = Inr (Inr s') \<and> srv_out s' = lines \<and> answers s' = answers s @ [(name, REPLY)])
     else (\<exists>s'. r = Inr (Inl (EXIT_FAILURE, s')) \<and> srv_out s' = lines @ [Perror ''open(2)''] \<and> answers s' = answers s))"
proof -
  from client_message [OF assms(1-7)] assms(8) obtain tl where
    msg: "code = EXIT_SUCCESS" "q = ''fifo.polling''" "bytes = show_nat n @ LF # inp @ NUL # tl" "length bytes = BUFSZ"
    by auto
  have c: "terminated bytes" "cstr bytes = show_nat n @ LF # inp"
    using assms(5) show_nat_clean [of n] cstr_cut [of "show_nat n @ LF # inp" tl] by (simp_all add: msg(3) terminated_def)
  have name: "answer_name bytes (pid s) =
    (if length (show_nat n) < 5 then
       Inr (''fifo.'' @ show_nat n @ cstr [pid s ! length (show_nat n)],
         (show_nat n @ drop (length (show_nat n)) (pid s))[Suc (length (show_nat n)) := LF])
     else Inl OutOfBounds)"
    using answer_name_of [OF show_nat_clean assms(10)] msg(3) by simp
  show ?thesis using msg(1,2,4) c name assms(9)
    by (simp add: fifo_round_def server_drucker_def Let_def cstr_def)
qed

theorem print_request_witness:
  "\<exists>bytes s'. fifo_round (int (length bytes), bytes) True (\<lambda>f. f = ''fifo.77'')
      \<lparr>puffer = replicate BUFSZ NUL, pid = replicate 6 NUL, answers = [], srv_out = []\<rparr> = Inr (Inr s') \<and>
     answers s' = [(''fifo.77'', REPLY)] \<and>
     srv_out s' = [Out ''Sende Auftrag an Drucker ...\<newline>'', Out ''77\<newline>Hallo\<newline>'']"
proof -
  have n: "show_nat 77 = ''77''" by code_simp
  let ?g = "replicate BUFSZ CHR ''?''"
  let ?s = "\<lparr>puffer = replicate BUFSZ NUL, pid = replicate 6 NUL, answers = [], srv_out = []\<rparr>"
  obtain out bytes ops where c: "client_main 77 Made True True ?g ?g [NUL] ''Hallo\<newline>'' (23, REPLY) =
    Inr (EXIT_SUCCESS, out, WriteFifo ''fifo.polling'' bytes # ops)"
    using client_message [of Made ?g ?g "[NUL]" "''Hallo\<newline>''" 77 "(23, REPLY)"] n
    by (auto simp: terminated_def REPLY_def)
  have "terminated [NUL]" "no_nul ''Hallo\<newline>''" "terminated (snd (23 :: int, REPLY))"
    by (simp_all add: terminated_def REPLY_def)
  from print_request [OF _ _ _ this(1,2) _ this(3) c, of ?s] n
  have "\<exists>s'. fifo_round (int (length bytes), bytes) True (\<lambda>f. f = ''fifo.77'') ?s = Inr (Inr s') \<and>
     srv_out s' = [Out ''Sende Auftrag an Drucker ...\<newline>'', Out ''77\<newline>Hallo\<newline>''] \<and> answers s' = [(''fifo.77'', REPLY)]"
    by (simp add: Let_def)
  then show ?thesis by blast
qed

section \<open>The word filter\<close>

lemma sublist_word:
  assumes "sublist f (w @ d # r)" and "d \<notin> set f"
  shows "sublist f w \<or> sublist f r"
proof -
  from assms(1) consider "sublist f w" | "sublist f (d # r)"
    | xs ys where "f = xs @ ys" "suffix xs w" "prefix ys (d # r)"
    by (auto simp: sublist_append)
  then show ?thesis
  proof cases
    case 2
    then show ?thesis using assms(2) by (auto simp: sublist_Cons_right prefix_Cons)
  next
    case 3
    then have "ys = []" using assms(2) by (auto simp: prefix_Cons)
    with 3 show ?thesis by (auto intro: suffix_imp_sublist)
  qed simp
qed

definition free_of_words :: "string \<Rightarrow> bool" where
  "free_of_words t \<longleftrightarrow> (\<forall>f \<in> set filterwords. \<not> sublist f t)"

lemma filterwords_letters: "f \<in> set filterwords \<Longrightarrow> SPC \<notin> set f \<and> \<not> set f \<subseteq> {CHR ''x''}"
  by (auto simp: filterwords_def)

lemma free_append: "free_of_words w \<Longrightarrow> free_of_words r \<Longrightarrow> free_of_words (w @ SPC # r)"
  using filterwords_letters sublist_word unfolding free_of_words_def by metis

lemma free_sublist: "free_of_words t \<Longrightarrow> sublist w t \<Longrightarrow> free_of_words w"
  unfolding free_of_words_def using sublist_order.order.trans by blast

lemma free_xs: "free_of_words (replicate n CHR ''x'')"
  unfolding free_of_words_def
proof
  fix f assume "f \<in> set filterwords"
  from filterwords_letters [OF this] show "\<not> sublist f (replicate n CHR ''x'')"
    using set_mono_sublist [of f "replicate n CHR ''x''"] by (auto simp: set_replicate_conv_if split: if_splits)
qed

text \<open>Text without filter words that ends with a blank, as every call of \<^verbatim>\<open>output\<close> leaves it.\<close>

definition spaced :: "string \<Rightarrow> bool" where
  "spaced t \<longleftrightarrow> free_of_words t \<and> (t = [] \<or> last t = SPC)"

lemma spaced_Nil [intro]: "spaced []"
  using free_xs [of 0] by (simp add: spaced_def)

lemma spaced_word: "free_of_words w \<Longrightarrow> spaced (w @ [SPC])"
  using free_append [of w "[]"] spaced_Nil by (simp add: spaced_def)

lemma spaced_append [intro]:
  assumes "spaced a" and "spaced b"
  shows "spaced (a @ b)"
proof (cases "a = []")
  case False
  then have a: "a = butlast a @ [SPC]" using assms(1) append_butlast_last_id [of a] by (simp add: spaced_def)
  have "free_of_words (butlast a)"
    using assms(1) free_sublist [of a "butlast a"] by (simp add: spaced_def prefix_imp_sublist prefixeq_butlast)
  then have "free_of_words (butlast a @ SPC # b)" using assms(2) free_append by (simp add: spaced_def)
  with a have "free_of_words (a @ b)" by (metis append.assoc append_Cons append_Nil)
  with assms False show ?thesis by (auto simp: spaced_def last_append)
qed (use assms in simp)

lemma filter_word_spaced: "spaced (fst (filter_word fs p))"
proof (induction fs)
  case (Cons f fs)
  then show ?case using spaced_append [OF spaced_word [OF free_xs [of "length f"]]]
    by (simp add: case_prod_unfold Let_def)
qed (simp add: spaced_Nil)

lemma filter_word_unmarked: "\<not> snd (filter_word fs p) \<Longrightarrow> fst (filter_word fs p) = [] \<and> (\<forall>f \<in> set fs. \<not> sublist f p)"
  by (induction fs) (auto simp: case_prod_unfold Let_def strstr_sublist [symmetric] split: if_splits)

lemma shown_word_spaced: "spaced (shown_word p)"
  using filter_word_spaced [of filterwords p] filter_word_unmarked [of filterwords p] spaced_word [of p]
  by (auto simp: shown_word_def Let_def case_prod_unfold free_of_words_def)

lemma filter_output_words: "filter_output s = concat (map shown_word (split_words (\<lambda>c. c = SPC) s))"
proof (induction s rule: filter_output.induct)
  case (1 s)
  then show ?case
    by (subst filter_output.simps, subst strtok_words) (auto split: option.splits)
qed

lemma concat_spaced: "(\<And>w. spaced (f w)) \<Longrightarrow> spaced (concat (map f ws))"
  by (induction ws) auto

lemma filter_main_spaced: "spaced (filter_main inp)"
proof (induction inp rule: filter_main.induct)
  case (1 inp)
  have "spaced (filter_output t)" for t
    unfolding filter_output_words by (rule concat_spaced) (rule shown_word_spaced)
  with 1 show ?case by (subst filter_main.simps) (auto split: option.splits)
qed

text \<open>
  The filter: a line is printed word by word, every word followed by a blank and replaced by
  crosses when it contains filter words; and whatever the input and however \<^verbatim>\<open>fgets\<close> cuts its lines,
  no filter word occurs anywhere in the output.
\<close>

theorem filter_lets_nothing_through:
  "filter_output s = concat (map shown_word (split_words (\<lambda>c. c = SPC) s)) \<and>
   \<not> (\<exists>f \<in> set filterwords. sublist f (filter_main inp))"
  using filter_output_words filter_main_spaced [of inp] by (auto simp: spaced_def free_of_words_def)

end
