(* ===== verification/ThreadData.thy ===== *)
theory ThreadData
  imports Pthread
begin

text \<open>
  \<^verbatim>\<open>src/10_Threads/thread12.c\<close>: a server announces data four times, two clients wait until there are
  some. Other than in \<^verbatim>\<open>thread9.c\<close> the condition variable is used with a predicate, so the program
  comes to its end under every schedule. The calls of \<^verbatim>\<open>sleep\<close> order nothing; all calls but
  \<^verbatim>\<open>pthread_create\<close> succeed. What happens under the mutex between two calls is one step.
\<close>

section \<open>The program\<close>

abbreviation (input) NUMTHREADS :: nat where "NUMTHREADS \<equiv> 2"

text \<open>
  Where a client is: not created, at its start, before \<^verbatim>\<open>pthread_mutex_lock\<close>, at the outer loop, at
  the inner loop, waiting, woken and waiting for the mutex, behind the inner loop, before
  \<^verbatim>\<open>pthread_mutex_unlock\<close>, returned. The number is \<^verbatim>\<open>retries\<close>.
\<close>

datatype c12 = C12none | C12start | C12lock | C12loop int | C12check int | C12wait int | C12woken int
  | C12work int | C12unlock | C12done
datatype m12 = M12create nat | M12loop | M12lock | M12put | M12signal | M12unlock | M12join nat | M12exit int

record t12 =
  mutex :: "nat option"
  clients :: "c12 list"
  server :: m12
  anzahlDaten :: int
  datenVorhanden :: bool
  geteilteDaten :: int
  out12 :: "say list"

definition say12 :: "string \<Rightarrow> int \<Rightarrow> string \<Rightarrow> say" where
  "say12 before tid after = Out (before @ show_int tid @ after)"

definition checkResult :: "string \<Rightarrow> int \<Rightarrow> say list" where
  "checkResult txt val = (if val \<noteq> 0 then [Out (''Fehler mit '' @ show_int val @ '' bei '' @ txt)] else [])"

definition go12 :: "nat \<Rightarrow> c12 \<Rightarrow> t12 \<Rightarrow> t12" where
  "go12 i p s = s\<lparr>clients := (clients s)[i := p]\<rparr>"

definition tell :: "say list \<Rightarrow> t12 \<Rightarrow> t12" where
  "tell ms s = s\<lparr>out12 := out12 s @ ms\<rparr>"

text \<open>Where a thread that waits for the condition continues.\<close>

fun wake12 :: "c12 \<Rightarrow> c12 option" where
  "wake12 (C12wait r) = Some (C12woken r)"
| "wake12 p = None"

text \<open>The next step of \<^verbatim>\<open>theThread\<close> in thread \<open>i\<close>; \<open>tid\<close> is its \<^verbatim>\<open>pthread_self()\<close>.\<close>

definition theThread :: "nat \<Rightarrow> int \<Rightarrow> t12 \<Rightarrow> t12 option" where
  "theThread i tid s =
     (if length (clients s) \<le> i then None
      else case clients s ! i of
        C12start \<Rightarrow> Some (go12 i C12lock (tell [say12 (TAB # ''->Client '') tid '': gestartet\<newline>''] s))
      | C12lock \<Rightarrow> map_option (\<lambda>m. go12 i (C12loop 2) (s\<lparr>mutex := m\<rparr>)) (mutex_lock i (mutex s))
      | C12loop r \<Rightarrow>
          (let r' = r - 1 in
           if r' \<noteq> 0 then Some (go12 i (C12check r') s)
           else Some (go12 i C12unlock (tell [say12 (TAB # ''->Client '') tid '': Alles erledigt\<newline>''] s)))
      | C12check r \<Rightarrow>
          (if \<not> datenVorhanden s then
             Some (go12 i (C12wait r) (tell [say12 (TAB # ''->Client '') tid '': Warte auf Daten ...\<newline>''] (s\<lparr>mutex := None\<rparr>)))
           else Some (go12 i (C12work r) (tell [say12 (TAB # ''->Client '') tid
             ('': Daten wurden gemeldet --->\<newline>'' @ TAB # ''----> Bearbeite Daten solange sie gesch'' @
              [CHR 0xC3, CHR 0xBC] @ ''tzt sind (lock)\<newline>'')] s)))
      | C12woken r \<Rightarrow> map_option (\<lambda>m. go12 i (C12check r) (s\<lparr>mutex := m\<rparr>)) (mutex_lock i (mutex s))
      | C12work r \<Rightarrow> Some (go12 i (C12loop r) (if geteilteDaten s = 0 then s\<lparr>datenVorhanden := False\<rparr> else s))
      | C12unlock \<Rightarrow> Some (go12 i C12done (s\<lparr>mutex := None\<rparr>))
      | _ \<Rightarrow> None)"

text \<open>The next step of \<^verbatim>\<open>main\<close>, which is thread \<open>NUMTHREADS\<close>; \<open>rc\<close> is the result of \<^verbatim>\<open>pthread_create\<close>.\<close>

definition thread12_main :: "int \<Rightarrow> int \<Rightarrow> nat \<Rightarrow> t12 \<Rightarrow> t12 option" where
  "thread12_main tid rc k s =
     (case server s of
        M12create i \<Rightarrow>
          (if i < NUMTHREADS then
             (if rc \<noteq> 0 then Some (tell (checkResult ''pthread_create()\<newline>'' rc) (s\<lparr>server := M12exit EXIT_FAILURE\<rparr>))
              else Some (go12 i C12start (s\<lparr>server := M12create (Suc i)\<rparr>)))
           else Some (s\<lparr>server := M12loop\<rparr>))
      | M12loop \<Rightarrow>
          (let s1 = s\<lparr>anzahlDaten := anzahlDaten s - 1\<rparr> in
           if anzahlDaten s \<noteq> 0 then Some (tell [Out ''->Server: Daten gefunden\<newline>''] (s1\<lparr>server := M12lock\<rparr>))
           else Some (s1\<lparr>server := M12join 0\<rparr>))
      | M12lock \<Rightarrow> map_option (\<lambda>m. tell [Out ''->Server: Sperre Daten und gib Meldung an Consumer\<newline>'']
          (s\<lparr>mutex := m, server := M12put\<rparr>)) (mutex_lock NUMTHREADS (mutex s))
      | M12put \<Rightarrow> Some (s\<lparr>geteilteDaten := geteilteDaten s + 1, datenVorhanden := True, server := M12signal\<rparr>)
      | M12signal \<Rightarrow> Some (tell [Out ''->Server: Gib gesperrte Daten wieder frei\<newline>'']
          (s\<lparr>clients := cond_wake wake12 k (clients s), server := M12unlock\<rparr>))
      | M12unlock \<Rightarrow> Some (s\<lparr>mutex := None, server := M12loop\<rparr>)
      | M12join i \<Rightarrow>
          (if i < NUMTHREADS then (if clients s ! i = C12done then Some (s\<lparr>server := M12join (Suc i)\<rparr>) else None)
           else Some (tell [say12 ''<- Main-Thread beendet (ID:'' tid '')\<newline>''] (s\<lparr>server := M12exit EXIT_SUCCESS\<rparr>)))
      | M12exit c \<Rightarrow> None)"

datatype t12act = T12Client nat int | T12Main int int nat | T12Spurious nat

definition exited :: "t12 \<Rightarrow> bool" where
  "exited s \<longleftrightarrow> (case server s of M12exit c \<Rightarrow> True | _ \<Rightarrow> False)"

text \<open>The steps of the threads, and a waiting thread that wakes up without a signal.\<close>

fun t12_act :: "t12act \<Rightarrow> t12 \<Rightarrow> t12 option" where
  "t12_act (T12Client i tid) s = (if exited s then None else theThread i tid s)"
| "t12_act (T12Main tid rc k) s = thread12_main tid rc k s"
| "t12_act (T12Spurious i) s =
     (if exited s \<or> length (clients s) \<le> i then None
      else map_option (\<lambda>p. go12 i p s) (wake12 (clients s ! i)))"

definition thread12_start :: "int \<Rightarrow> t12" where
  "thread12_start tid = \<lparr>mutex = None, clients = replicate NUMTHREADS C12none, server = M12create 0, anzahlDaten = 4,
     datenVorhanden = False, geteilteDaten = 0, out12 = [say12 ''->Main Thread '' tid '' gestartet ...\<newline>'']\<rparr>"

section \<open>The invariant\<close>

text \<open>The threads that own the mutex, \<^verbatim>\<open>main\<close> being the last of them.\<close>

fun holds12 :: "c12 \<Rightarrow> bool" where
  "holds12 (C12loop r) = True"
| "holds12 (C12check r) = True"
| "holds12 (C12work r) = True"
| "holds12 C12unlock = True"
| "holds12 p = False"

fun serves12 :: "m12 \<Rightarrow> bool" where
  "serves12 M12put = True"
| "serves12 M12signal = True"
| "serves12 M12unlock = True"
| "serves12 p = False"

definition owners :: "t12 \<Rightarrow> bool list" where
  "owners s = map holds12 (clients s) @ [serves12 (server s)]"

text \<open>The values \<^verbatim>\<open>retries\<close> can have.\<close>

fun retries_ok :: "c12 \<Rightarrow> bool" where
  "retries_ok (C12loop r) \<longleftrightarrow> r = 1 \<or> r = 2"
| "retries_ok (C12check r) \<longleftrightarrow> r = 1"
| "retries_ok (C12wait r) \<longleftrightarrow> r = 1"
| "retries_ok (C12woken r) \<longleftrightarrow> r = 1"
| "retries_ok (C12work r) \<longleftrightarrow> r = 1"
| "retries_ok p \<longleftrightarrow> True"

definition asleep :: "c12 list \<Rightarrow> nat" where
  "asleep = total (\<lambda>p. if wake12 p = None then 0 else 1)"

text \<open>How often the server will still announce data.\<close>

definition signals_left :: "t12 \<Rightarrow> int" where
  "signals_left s =
     (case server s of
        M12join j \<Rightarrow> 0
      | M12exit c \<Rightarrow> 0
      | m \<Rightarrow> if m \<in> {M12lock, M12put, M12signal} then anzahlDaten s + 1 else anzahlDaten s)"

definition data_ok :: "t12 \<Rightarrow> bool" where
  "data_ok s \<longleftrightarrow> 0 \<le> geteilteDaten s \<and> (datenVorhanden s \<longleftrightarrow> 0 < geteilteDaten s) \<and>
     int (asleep (clients s)) \<le> signals_left s \<and> (\<not> datenVorhanden s \<longrightarrow> int NUMTHREADS \<le> signals_left s)"

definition server_ok :: "t12 \<Rightarrow> bool" where
  "server_ok s \<longleftrightarrow>
     (case server s of
        M12create n \<Rightarrow> n \<le> NUMTHREADS \<and> anzahlDaten s = 4 \<and> (\<forall>i < NUMTHREADS. clients s ! i = C12none \<longleftrightarrow> n \<le> i)
      | M12join j \<Rightarrow> j \<le> NUMTHREADS \<and> C12none \<notin> set (clients s) \<and> (\<forall>i < j. clients s ! i = C12done)
      | M12exit c \<Rightarrow> True
      | m \<Rightarrow> C12none \<notin> set (clients s) \<and> 0 \<le> anzahlDaten s \<and> anzahlDaten s \<le> (if m = M12loop then 4 else 3) \<and>
          (m \<in> {M12signal, M12unlock} \<longrightarrow> datenVorhanden s))"

definition t12_inv :: "t12 \<Rightarrow> bool" where
  "t12_inv s \<longleftrightarrow> length (clients s) = NUMTHREADS \<and>
     (if exited s then server s = M12exit EXIT_SUCCESS \<longrightarrow> set (clients s) \<subseteq> {C12done}
      else owner_ok (\<lambda>h. h) (mutex s) (owners s) \<and> (\<forall>p \<in> set (clients s). retries_ok p) \<and> data_ok s \<and> server_ok s)"

section \<open>The measure\<close>

fun rank12 :: "c12 \<Rightarrow> nat" where
  "rank12 C12done = 0" | "rank12 C12unlock = 1" | "rank12 (C12loop r) = (if r = 1 then 2 else 7)"
| "rank12 (C12work r) = 3" | "rank12 (C12wait r) = 4" | "rank12 (C12check r) = 5" | "rank12 (C12woken r) = 6"
| "rank12 C12lock = 8" | "rank12 C12start = 9" | "rank12 C12none = 10"

definition main_rank12 :: "t12 \<Rightarrow> nat" where
  "main_rank12 s =
     (let k = nat (anzahlDaten s) in
      case server s of
        M12create n \<Rightarrow> 35 - n
      | M12loop \<Rightarrow> 7 * k + 4
      | M12lock \<Rightarrow> 7 * k + 10
      | M12put \<Rightarrow> 7 * k + 9
      | M12signal \<Rightarrow> 7 * k + 8
      | M12unlock \<Rightarrow> 7 * k + 5
      | M12join j \<Rightarrow> 3 - j
      | M12exit c \<Rightarrow> 0)"

definition t12_size :: "t12 \<Rightarrow> nat" where
  "t12_size s = main_rank12 s + total rank12 (clients s)"

fun t12_extra :: "t12act \<Rightarrow> nat" where
  "t12_extra (T12Spurious i) = 3"
| "t12_extra a = 0"

section \<open>Every step keeps the invariant\<close>

lemma tell_simps [simp]:
  "clients (tell ms s) = clients s" "server (tell ms s) = server s" "mutex (tell ms s) = mutex s"
  "anzahlDaten (tell ms s) = anzahlDaten s" "datenVorhanden (tell ms s) = datenVorhanden s"
  "geteilteDaten (tell ms s) = geteilteDaten s"
  by (simp_all add: tell_def)

lemma go12_simps [simp]:
  "clients (go12 i p s) = (clients s)[i := p]" "server (go12 i p s) = server s" "mutex (go12 i p s) = mutex s"
  "anzahlDaten (go12 i p s) = anzahlDaten s" "datenVorhanden (go12 i p s) = datenVorhanden s"
  "geteilteDaten (go12 i p s) = geteilteDaten s"
  by (simp_all add: go12_def)

text \<open>What a step of a client does.\<close>

lemma theThread_moves:
  assumes "theThread i tid s = Some s'" and "\<forall>p \<in> set (clients s). retries_ok p"
    and "datenVorhanden s \<longleftrightarrow> 0 < geteilteDaten s"
  obtains p where "i < length (clients s)" "clients s' = (clients s)[i := p]" "server s' = server s"
    "anzahlDaten s' = anzahlDaten s" "geteilteDaten s' = geteilteDaten s" "datenVorhanden s' = datenVorhanden s"
    "mutex s' = mutex s \<and> holds12 p = holds12 (clients s ! i) \<or> mutex s = None \<and> mutex s' = Some i \<and> holds12 p \<or>
     mutex s' = None \<and> holds12 (clients s ! i) \<and> \<not> holds12 p"
    "retries_ok p" "rank12 p < rank12 (clients s ! i)" "p \<noteq> C12none"
    "clients s ! i \<noteq> C12none" "clients s ! i \<noteq> C12done" "wake12 p = None \<or> \<not> datenVorhanden s"
proof -
  from assms(1) have i: "i < length (clients s)" by (auto simp: theThread_def split: if_splits)
  then have "retries_ok (clients s ! i)" using assms(2) by simp
  with assms(1,3) i that show thesis
    by (cases "clients s ! i") (auto simp: theThread_def mutex_lock_def Let_def split: if_splits)
qed

lemma asleep_le: "asleep cs \<le> length cs"
  by (induction cs) (auto simp: asleep_def total_def)

lemma asleep_update: "i < length cs \<Longrightarrow> wake12 p = None \<Longrightarrow> asleep (cs[i := p]) \<le> asleep cs"
  using total_update [of i cs "\<lambda>p. if wake12 p = None then 0 else 1" p] by (simp add: asleep_def)

lemma owners_update:
  "i < length (clients s) \<Longrightarrow> map holds12 ((clients s)[i := p]) @ [serves12 (server s)] = (owners s)[i := holds12 p]"
  by (simp add: owners_def map_update list_update_append)

lemma owner_move:
  assumes "owner_ok (\<lambda>h. h) m hs" and "i < length hs"
    and "m' = m \<and> h = hs ! i \<or> m = None \<and> m' = Some i \<and> h \<or> m' = None \<and> hs ! i \<and> \<not> h"
  shows "owner_ok (\<lambda>h. h) m' (hs[i := h])"
  using assms owner_ok_lock [of "\<lambda>h. h" hs i h] owner_ok_unlock [of "\<lambda>h. h" m hs i h]
    owner_ok_move [of "\<lambda>h. h" m hs i h] by blast

lemma server_ok_move:
  assumes "server_ok s" and "length (clients s) = NUMTHREADS" and "clients s' = (clients s)[i := p]" and "server s' = server s"
    and "anzahlDaten s' = anzahlDaten s" and "datenVorhanden s' = datenVorhanden s"
    and "p \<noteq> C12none" and "clients s ! i \<noteq> C12none" and "clients s ! i \<noteq> C12done"
  shows "server_ok s'"
proof -
  have none: "C12none \<notin> set (clients s) \<Longrightarrow> C12none \<notin> set ((clients s)[i := p])"
    using assms(7) by (auto dest: set_update_subset)
  have at: "(clients s)[i := p] ! j = C12none \<longleftrightarrow> clients s ! j = C12none" if "j < NUMTHREADS" for j
    using that assms(2,7,8) by (cases "i = j") auto
  have dn: "(clients s)[i := p] ! j = C12done" if "clients s ! j = C12done" for j
    using that assms(9) by (metis nth_list_update_neq)
  show ?thesis
    using assms(1,3-6) none at dn unfolding server_ok_def by (cases "server s") auto
qed

lemma client_keeps:
  assumes inv: "t12_inv s" "\<not> exited s" and step: "theThread i tid s = Some s'"
  shows "t12_inv s' \<and> t12_size s' < t12_size s"
proof -
  from inv have i: "length (clients s) = NUMTHREADS" "owner_ok (\<lambda>h. h) (mutex s) (owners s)"
    "\<forall>p \<in> set (clients s). retries_ok p" "data_ok s" "server_ok s" by (simp_all add: t12_inv_def)
  from i(4) have dv: "datenVorhanden s \<longleftrightarrow> 0 < geteilteDaten s" by (simp add: data_ok_def)
  from step i(3) dv show ?thesis
  proof (rule theThread_moves)
    fix p
    assume m: "i < length (clients s)" "clients s' = (clients s)[i := p]" "server s' = server s"
      "anzahlDaten s' = anzahlDaten s" "geteilteDaten s' = geteilteDaten s" "datenVorhanden s' = datenVorhanden s"
      "mutex s' = mutex s \<and> holds12 p = holds12 (clients s ! i) \<or> mutex s = None \<and> mutex s' = Some i \<and> holds12 p \<or>
       mutex s' = None \<and> holds12 (clients s ! i) \<and> \<not> holds12 p"
      "retries_ok p" "rank12 p < rank12 (clients s ! i)" "p \<noteq> C12none"
      "clients s ! i \<noteq> C12none" "clients s ! i \<noteq> C12done" "wake12 p = None \<or> \<not> datenVorhanden s"
    have "owner_ok (\<lambda>h. h) (mutex s') ((owners s)[i := holds12 p])"
      by (rule owner_move [OF i(2)]) (use m(1,7) in \<open>auto simp: owners_def nth_append\<close>)
    then have own: "owner_ok (\<lambda>h. h) (mutex s') (owners s')"
      using owners_update [OF m(1), of p] m(2,3) by (simp add: owners_def)
    have sl: "signals_left s' = signals_left s" using m(3,4) by (simp add: signals_left_def split: m12.split)
    have "data_ok s'"
    proof (cases "wake12 p = None")
      case True
      with i(4) sl m(2,5,6) asleep_update [OF m(1) True] show ?thesis by (simp add: data_ok_def)
    next
      case False
      with m(13) have "\<not> datenVorhanden s" by blast
      with i(1,4) sl m(2,5,6) asleep_le [of "(clients s)[i := p]"] show ?thesis by (simp add: data_ok_def)
    qed
    moreover have "server_ok s'"
      by (rule server_ok_move [OF i(5,1) m(2-4,6,10-12)])
    moreover have "\<forall>q \<in> set (clients s'). retries_ok q"
      using i(3) m(2,8) by (auto dest: set_update_subset)
    moreover have "exited s' \<longleftrightarrow> exited s" using m(3) by (simp add: exited_def)
    moreover have "t12_size s' < t12_size s"
      using total_update_less [OF m(1,9)] m(2-4) by (simp add: t12_size_def main_rank12_def)
    ultimately show ?thesis using own inv(2) i(1) m(2) by (simp add: t12_inv_def)
  qed
qed

text \<open>What a signal does to the clients.\<close>

lemma wake12_Some: "wake12 p = Some q \<Longrightarrow> \<exists>r. p = C12wait r \<and> q = C12woken r"
  by (cases p) auto

lemma wake12_holds: "map holds12 (cond_wake wake12 k cs) = map holds12 cs"
proof (cases rule: cond_wake_cases [of cs wake12 k])
  case (one j p)
  then show ?thesis
    using wake12_Some [OF one(2)] by (auto simp: list_eq_iff_nth_eq nth_list_update)
qed simp

lemma wake12_asleep: "asleep (cond_wake wake12 k cs) = asleep cs - 1"
proof (cases rule: cond_wake_cases [of cs wake12 k])
  case none
  then have "asleep cs = 0" unfolding asleep_def total_def by (induction cs) auto
  with none show ?thesis by simp
next
  case (one j p)
  have "asleep (cs[j := p]) + 1 = asleep cs"
    using total_update [OF one(1), of "\<lambda>p. if wake12 p = None then 0 else 1" p] wake12_Some [OF one(2)]
    by (auto simp: asleep_def)
  with one show ?thesis by simp
qed

lemma wake12_rank: "total rank12 (cond_wake wake12 k cs) \<le> total rank12 cs + 2"
proof (cases rule: cond_wake_cases [of cs wake12 k])
  case (one j p)
  then show ?thesis using total_update [OF one(1), of rank12 p] wake12_Some [OF one(2)] by auto
qed simp

lemma wake12_set:
  assumes "\<forall>p \<in> set cs. retries_ok p" and "C12none \<notin> set cs"
  shows "(\<forall>p \<in> set (cond_wake wake12 k cs). retries_ok p) \<and> C12none \<notin> set (cond_wake wake12 k cs)"
proof (cases rule: cond_wake_cases [of cs wake12 k])
  case (one j p)
  from wake12_Some [OF one(2)] obtain r where r: "cs ! j = C12wait r" "p = C12woken r" by blast
  have "retries_ok (cs ! j)" using assms(1) one(1) by simp
  then have "retries_ok p" "p \<noteq> C12none" using r by simp_all
  with one assms show ?thesis by (auto dest!: set_update_subset)
qed (use assms in simp)

text \<open>Steps of the server that leave the clients where they are, as far as the mutex is concerned.\<close>

lemma owner_server:
  assumes "owner_ok (\<lambda>h. h) (mutex s) (owners s)" and "length (clients s) = NUMTHREADS"
    and "map holds12 (clients s') = map holds12 (clients s)"
    and "mutex s' = mutex s \<and> serves12 (server s') = serves12 (server s) \<or>
      mutex s = None \<and> mutex s' = Some NUMTHREADS \<and> serves12 (server s') \<or>
      mutex s' = None \<and> serves12 (server s) \<and> \<not> serves12 (server s')"
  shows "owner_ok (\<lambda>h. h) (mutex s') (owners s')"
proof -
  have "owners s' = (owners s)[NUMTHREADS := serves12 (server s')]"
    using assms(2,3) by (simp add: owners_def list_update_append)
  moreover have "owners s ! NUMTHREADS = serves12 (server s)" "NUMTHREADS < length (owners s)"
    using assms(2) by (simp_all add: owners_def nth_append)
  ultimately show ?thesis using owner_move [OF assms(1), of NUMTHREADS] assms(4) by metis
qed

lemma server_keeps:
  assumes inv: "t12_inv s" "\<not> exited s" and step: "thread12_main tid rc k s = Some s'"
  shows "t12_inv s' \<and> t12_size s' < t12_size s"
proof -
  from inv have i: "length (clients s) = NUMTHREADS" "owner_ok (\<lambda>h. h) (mutex s) (owners s)"
    "\<forall>p \<in> set (clients s). retries_ok p" "data_ok s" "server_ok s" by (simp_all add: t12_inv_def)
  note defs0 = server_ok_def data_ok_def signals_left_def main_rank12_def t12_size_def exited_def t12_inv_def Let_def
  note defs = defs0 thread12_main_def mutex_lock_def
  note own = owner_server [OF i(2,1), of s']
  show ?thesis
  proof (cases "server s")
    case (M12create n)
    show ?thesis
    proof (cases "n < NUMTHREADS \<and> rc = 0")
      case True
      with M12create i(5) have n: "clients s ! n = C12none" "n < length (clients s)"
        using i(1) by (auto simp: server_ok_def)
      have s': "s' = go12 n C12start (s\<lparr>server := M12create (Suc n)\<rparr>)" using step M12create True by (simp add: thread12_main_def)
      have "owner_ok (\<lambda>h. h) (mutex s') (owners s')"
        by (rule own) (use s' n M12create in \<open>auto simp: list_eq_iff_nth_eq nth_list_update\<close>)
      moreover have "asleep (clients s') \<le> asleep (clients s)" using s' asleep_update [OF n(2)] by simp
      moreover have "total rank12 (clients s') < total rank12 (clients s)" using s' n total_update_less [OF n(2)] by simp
      moreover have "\<forall>p \<in> set (clients s'). retries_ok p" using s' i(3) by (auto dest: set_update_subset)
      moreover have "\<forall>j < NUMTHREADS. clients s' ! j = C12none \<longleftrightarrow> Suc n \<le> j"
        using s' M12create i(1,5) True by (auto simp: server_ok_def nth_list_update)
      moreover have "34 + a - n < 35 + b - n" if "a < b" for a b :: nat using that True by arith
      ultimately show ?thesis using i M12create True s' by (simp add: defs)
    next
      case False
      show ?thesis
      proof (cases "n < NUMTHREADS")
        case True
        with False M12create step i show ?thesis by (auto simp: defs)
      next
        case n: False
        then have s': "s' = s\<lparr>server := M12loop\<rparr>" using step M12create by (simp add: thread12_main_def)
        have "owner_ok (\<lambda>h. h) (mutex s') (owners s')" by (rule own) (use s' M12create in auto)
        moreover have "C12none \<notin> set (clients s)" using M12create n i(1,5) by (auto simp: server_ok_def in_set_conv_nth)
        ultimately show ?thesis using i M12create n s' by (auto simp: defs)
      qed
    qed
  next
    case M12loop
    have f: "clients s' = clients s" "mutex s' = mutex s" "geteilteDaten s' = geteilteDaten s" "datenVorhanden s' = datenVorhanden s"
      "anzahlDaten s' = anzahlDaten s - 1" "server s' = (if anzahlDaten s = 0 then M12join 0 else M12lock)"
      using step M12loop by (auto simp: thread12_main_def Let_def split: if_splits)
    have "owner_ok (\<lambda>h. h) (mutex s') (owners s')" by (rule own) (use f M12loop in simp_all)
    moreover have "0 \<le> anzahlDaten s" "anzahlDaten s \<le> 4" "C12none \<notin> set (clients s)" using i(5) M12loop by (simp_all add: server_ok_def)
    ultimately show ?thesis using f i(1,3,4) M12loop by (auto simp: defs0)
  next
    case M12lock
    have f: "clients s' = clients s" "mutex s = None" "mutex s' = Some NUMTHREADS" "geteilteDaten s' = geteilteDaten s"
      "datenVorhanden s' = datenVorhanden s" "anzahlDaten s' = anzahlDaten s" "server s' = M12put"
      using step M12lock by (auto simp: thread12_main_def mutex_lock_def split: if_splits)
    have "owner_ok (\<lambda>h. h) (mutex s') (owners s')" by (rule own) (use f in simp_all)
    with f i M12lock show ?thesis by (simp add: defs0)
  next
    case M12put
    have "owner_ok (\<lambda>h. h) (mutex s') (owners s')" by (rule own) (use step M12put in \<open>auto simp: defs\<close>)
    with step M12put i show ?thesis by (auto simp: defs)
  next
    case M12signal
    have f: "clients s' = cond_wake wake12 k (clients s)" "mutex s' = mutex s" "geteilteDaten s' = geteilteDaten s"
      "datenVorhanden s' = datenVorhanden s" "anzahlDaten s' = anzahlDaten s" "server s' = M12unlock"
      using step M12signal by (auto simp: thread12_main_def)
    have "owner_ok (\<lambda>h. h) (mutex s') (owners s')" by (rule own) (use f M12signal wake12_holds in simp_all)
    with f M12signal i wake12_rank [of k "clients s"] wake12_asleep [of k "clients s"] wake12_set [of "clients s" k] show ?thesis
      by (auto simp: defs0)
  next
    case M12unlock
    have "owner_ok (\<lambda>h. h) (mutex s') (owners s')" by (rule own) (use step M12unlock in \<open>auto simp: defs\<close>)
    with step M12unlock i show ?thesis by (auto simp: defs)
  next
    case (M12join j)
    show ?thesis
    proof (cases "j < NUMTHREADS")
      case True
      have "owner_ok (\<lambda>h. h) (mutex s') (owners s')" by (rule own) (use step M12join True in \<open>auto simp: defs split: if_splits\<close>)
      with True step M12join i show ?thesis by (auto simp: defs less_Suc_eq split: if_splits)
    next
      case False
      have "set (clients s) \<subseteq> {C12done}" using False M12join i(1,5) by (auto simp: server_ok_def in_set_conv_nth)
      moreover have "j \<le> NUMTHREADS" using M12join i(5) by (simp add: server_ok_def)
      ultimately show ?thesis using False step M12join i(1) by (auto simp: defs)
    qed
  next
    case (M12exit c)
    with inv(2) show ?thesis by (simp add: exited_def)
  qed
qed

lemma spurious_keeps:
  assumes inv: "t12_inv s" "\<not> exited s" and i: "i < length (clients s)" and w: "wake12 (clients s ! i) = Some p"
  shows "t12_inv (go12 i p s) \<and> Suc (t12_size (go12 i p s)) \<le> t12_size s + 3"
proof -
  from wake12_Some [OF w] obtain r where r: "clients s ! i = C12wait r" "p = C12woken r" by blast
  from inv have j: "length (clients s) = NUMTHREADS" "owner_ok (\<lambda>h. h) (mutex s) (owners s)"
    "\<forall>p \<in> set (clients s). retries_ok p" "data_ok s" "server_ok s" by (simp_all add: t12_inv_def)
  have "owner_ok (\<lambda>h. h) (mutex s) ((owners s)[i := holds12 p])"
    by (rule owner_move [OF j(2)]) (use i r in \<open>auto simp: owners_def nth_append\<close>)
  then have own: "owner_ok (\<lambda>h. h) (mutex s) (owners (go12 i p s))"
    using owners_update [OF i, of p] by (simp add: owners_def)
  have "signals_left (go12 i p s) = signals_left s" by (simp add: signals_left_def split: m12.split)
  then have dok: "data_ok (go12 i p s)" using j(4) asleep_update [OF i, of p] r by (simp add: data_ok_def)
  have ne: "p \<noteq> C12none" "clients s ! i \<noteq> C12none" "clients s ! i \<noteq> C12done" using r by simp_all
  moreover have "server_ok (go12 i p s)" by (rule server_ok_move [OF j(5,1) _ _ _ _ ne]) simp_all
  moreover have "retries_ok p" using j(3) i r by (metis nth_mem retries_ok.simps(3,4))
  then have "\<forall>q \<in> set (clients (go12 i p s)). retries_ok q" using j(3) by (auto dest!: set_update_subset)
  moreover have "Suc (t12_size (go12 i p s)) \<le> t12_size s + 3"
    using total_update [OF i, of rank12 p] r by (simp add: t12_size_def main_rank12_def)
  ultimately show ?thesis using dok own inv(2) j(1) by (simp add: t12_inv_def exited_def)
qed

lemma t12_step:
  assumes "t12_inv s" and "t12_act a s = Some s'"
  shows "t12_inv s' \<and> Suc (t12_size s') \<le> t12_size s + t12_extra a"
proof (cases a)
  case (T12Client i tid)
  with assms client_keeps [OF assms(1), of i tid s'] show ?thesis by (auto split: if_splits)
next
  case (T12Main tid rc k)
  with assms(2) have e: "thread12_main tid rc k s = Some s'" by simp
  then have "\<not> exited s" by (auto simp: exited_def thread12_main_def split: m12.splits)
  with T12Main server_keeps [OF assms(1) _ e] show ?thesis by simp
next
  case (T12Spurious i)
  with assms(2) obtain p where "\<not> exited s" "i < length (clients s)" "wake12 (clients s ! i) = Some p" "s' = go12 i p s"
    by (auto split: if_splits)
  with T12Spurious spurious_keeps [OF assms(1)] show ?thesis by simp
qed

section \<open>Somebody can always go on\<close>

lemma holder_moves:
  assumes "length (clients s) = NUMTHREADS" and "i < NUMTHREADS" and "holds12 (clients s ! i)" and "\<not> exited s"
  shows "\<exists>a s'. t12_act a s = Some s' \<and> t12_extra a = 0"
proof -
  have "theThread i 0 s \<noteq> None"
    using assms(1-3) by (cases "clients s ! i") (simp_all add: theThread_def Let_def)
  with assms(4) show ?thesis by (intro exI [of _ "T12Client i 0"]) auto
qed

lemma free_moves:
  assumes "length (clients s) = NUMTHREADS" and "i < NUMTHREADS" and "mutex s = None" and "\<not> exited s"
    and "clients s ! i \<noteq> C12none" and "clients s ! i \<noteq> C12done" and "wake12 (clients s ! i) = None"
  shows "\<exists>a s'. t12_act a s = Some s' \<and> t12_extra a = 0"
proof -
  have "theThread i 0 s \<noteq> None"
    using assms by (cases "clients s ! i") (simp_all add: theThread_def Let_def mutex_lock_def)
  with assms(4) show ?thesis by (intro exI [of _ "T12Client i 0"]) auto
qed

lemma nobody_asleep: "asleep cs = 0 \<Longrightarrow> p \<in> set cs \<Longrightarrow> wake12 p = None"
  by (induction cs) (auto simp: asleep_def total_def split: if_splits)

lemma t12_progress:
  assumes "t12_inv s" and "\<not> exited s"
  shows "\<exists>a s'. t12_act a s = Some s' \<and> t12_extra a = 0"
proof -
  from assms have i: "length (clients s) = NUMTHREADS" "owner_ok (\<lambda>h. h) (mutex s) (owners s)" "data_ok s" "server_ok s"
    by (simp_all add: t12_inv_def)
  have main: "\<exists>a s'. t12_act a s = Some s' \<and> t12_extra a = 0" if "thread12_main 0 0 0 s \<noteq> None"
    using that by (intro exI [of _ "T12Main 0 0 0"]) auto
  have waits: "\<exists>a s'. t12_act a s = Some s' \<and> t12_extra a = 0"
    if sv: "\<not> serves12 (server s)" and free: "mutex s = None \<Longrightarrow> \<exists>a s'. t12_act a s = Some s' \<and> t12_extra a = 0"
  proof (cases "mutex s")
    case (Some j)
    with i(2) have j: "j < length (owners s)" "owners s ! j" by (simp_all add: owner_ok_def)
    have "j \<noteq> NUMTHREADS" using j(2) sv i(1) by (auto simp: owners_def nth_append)
    with j i(1) have "j < NUMTHREADS" "holds12 (clients s ! j)" by (auto simp: owners_def nth_append)
    from holder_moves [OF i(1) this assms(2)] show ?thesis .
  qed (use free in simp)
  show ?thesis
  proof (cases "server s")
    case M12lock
    then show ?thesis using waits main by (simp add: thread12_main_def mutex_lock_def)
  next
    case (M12join j)
    show ?thesis
    proof (cases "j < NUMTHREADS \<and> clients s ! j \<noteq> C12done")
      case True
      have "asleep (clients s) = 0" using i(3) M12join by (simp add: data_ok_def signals_left_def)
      moreover have m: "clients s ! j \<in> set (clients s)" using True i(1) by simp
      ultimately have "wake12 (clients s ! j) = None" by (rule nobody_asleep)
      moreover have "clients s ! j \<noteq> C12none" using m M12join i(4) by (auto simp: server_ok_def)
      ultimately show ?thesis using waits free_moves [OF i(1) _ _ assms(2), of j] True M12join by simp
    next
      case False
      with M12join have "thread12_main 0 0 0 s \<noteq> None" by (auto simp: thread12_main_def)
      then show ?thesis by (rule main)
    qed
  qed (use assms(2) main in \<open>auto simp: thread12_main_def exited_def Let_def checkResult_def\<close>)
qed

definition starts12 :: "t12 \<Rightarrow> bool" where
  "starts12 s \<longleftrightarrow> (\<exists>tid. s = thread12_start tid)"

lemma starts12_inv: "starts12 s \<Longrightarrow> t12_inv s"
  by (auto simp: starts12_def thread12_start_def t12_inv_def exited_def owner_ok_def owners_def data_ok_def
      signals_left_def server_ok_def asleep_def total_def numeral_2_eq_2 less_Suc_eq)

interpretation t12: bounded_protocol t12_act starts12 t12_inv t12_size exited t12_extra
  by unfold_locales (use starts12_inv t12_step t12_progress in blast)+

section \<open>The property\<close>

definition spurious :: "t12act list \<Rightarrow> nat" where
  "spurious as = length (filter (\<lambda>a. case a of T12Spurious i \<Rightarrow> True | _ \<Rightarrow> False) as)"

lemma sum_extra: "sum_list (map t12_extra as) = 3 * spurious as"
  by (induction as) (auto simp: spurious_def split: t12act.splits)

text \<open>
  C16: the program ends under every schedule: a run has at most 55 steps and three for each wake-up
  without a signal; as long as the program has not ended some thread can go on without such a
  wake-up, so no announcement is lost and nobody waits for ever; and when it ends with success both
  clients have returned.
\<close>

theorem thread12_ends:
  assumes "run t12_act as (thread12_start tid) = Some s"
  shows "length as \<le> 55 + 3 * spurious as \<and>
    (exited s \<or> (\<exists>a s'. t12_act a s = Some s' \<and> t12_extra a = 0)) \<and>
    (server s = M12exit EXIT_SUCCESS \<longrightarrow> set (clients s) \<subseteq> {C12done})"
proof -
  have init: "t12_inv (thread12_start tid)" by (rule starts12_inv) (auto simp: starts12_def)
  have "t12_size (thread12_start tid) = 55"
    by (simp add: t12_size_def main_rank12_def thread12_start_def)
  then have "length as \<le> 55 + 3 * spurious as" using t12.run_paid [OF init assms] sum_extra by simp
  moreover have inv: "t12_inv s" by (rule t12.run_keeps [OF init assms])
  moreover have "exited s \<or> (\<exists>a s'. t12_act a s = Some s' \<and> t12_extra a = 0)" using t12.advance [OF inv] by blast
  moreover have "server s = M12exit EXIT_SUCCESS \<longrightarrow> set (clients s) \<subseteq> {C12done}"
    using inv by (auto simp: t12_inv_def exited_def)
  ultimately show ?thesis by blast
qed

abbreviation (input) round12 :: "t12act list" where
  "round12 \<equiv> replicate 5 (T12Main 1 0 0)"

abbreviation (input) schedule12 :: "t12act list" where
  "schedule12 \<equiv> replicate 3 (T12Main 1 0 0) @ replicate 4 (T12Client 0 2) @ replicate 4 (T12Client 1 3) @
     [T12Spurious 1, T12Client 1 3, T12Client 1 3] @
     round12 @ replicate 5 (T12Client 0 2) @ round12 @ replicate 5 (T12Client 1 3) @ round12 @ round12 @ replicate 4 (T12Main 1 0 0)"

theorem thread12_ends_witness:
  "\<exists>s. run t12_act schedule12 (thread12_start 1) = Some s \<and> exited s \<and> set (clients s) \<subseteq> {C12done} \<and>
     length schedule12 \<le> 58"
proof -
  define s where "s = the (run t12_act schedule12 (thread12_start 1))"
  have r: "run t12_act schedule12 (thread12_start 1) = Some s" and e: "server s = M12exit EXIT_SUCCESS"
    unfolding s_def by code_simp+
  have "spurious schedule12 = 1" by code_simp
  with thread12_ends [OF r] r e show ?thesis by (auto simp: exited_def)
qed

end
