(* ===== verification/ThreadSem.thy ===== *)
theory ThreadSem
  imports Pthread
begin

text \<open>
  \<^verbatim>\<open>src/10_Threads/thread13.c\<close>: one thread fills an array, a second one adds it up; a semaphore that
  starts with 0 makes the second one wait for the first. All calls succeed.
\<close>

section \<open>The program\<close>

text \<open>
  Where the two threads and \<^verbatim>\<open>main\<close> are. The number of \<open>Fill\<close> and \<open>Add\<close> is the index \<open>i\<close> of the loop,
  the second argument is \<^verbatim>\<open>summe\<close>.
\<close>

datatype filler = Fnone | Fstart | Fill nat | Fpost | Fvalue | Fend | Fdone
datatype adder = Anone | Await | Astart | Add nat int | Ashow int | Aend | Adone
datatype m13 = M13create nat | M13join nat | M13value | M13exit

record t13 =
  sem :: nat
  werte :: "int list"
  thread1 :: filler
  thread2 :: adder
  main13 :: m13
  out13 :: "say list"

definition tell13 :: "string \<Rightarrow> int \<Rightarrow> string \<Rightarrow> t13 \<Rightarrow> t13" where
  "tell13 before tid after s = s\<lparr>out13 := out13 s @ [Out (before @ show_int tid @ after)]\<rparr>"

definition filler_step :: "int \<Rightarrow> t13 \<Rightarrow> t13 option" where
  "filler_step tid s =
     (case thread1 s of
        Fstart \<Rightarrow> Some (tell13 (TAB # ''->Thread '') tid '' gestartet ..\<newline>'' (s\<lparr>thread1 := Fill 0\<rparr>))
      | Fill i \<Rightarrow>
          (if i < 10 then Some (s\<lparr>werte := (werte s)[i := int i], thread1 := Fill (Suc i)\<rparr>)
           else Some (tell13 ''->Thread '' tid '' Inkrementiere Semaphor\<newline>'' (s\<lparr>thread1 := Fpost\<rparr>)))
      | Fpost \<Rightarrow> Some (s\<lparr>sem := Suc (sem s), thread1 := Fvalue\<rparr>)
      | Fvalue \<Rightarrow> Some (tell13 ''->Semaphor inkrementiert (Wert: '' (int (sem s)) '')\<newline>'' (s\<lparr>thread1 := Fend\<rparr>))
      | Fend \<Rightarrow> Some (tell13 (TAB # ''->Thread '') tid '' ende ..\<newline>'' (s\<lparr>thread1 := Fdone\<rparr>))
      | _ \<Rightarrow> None)"

definition adder_step :: "int \<Rightarrow> t13 \<Rightarrow> t13 option" where
  "adder_step tid s =
     (case thread2 s of
        Await \<Rightarrow> (if sem s = 0 then None else Some (s\<lparr>sem := sem s - 1, thread2 := Astart\<rparr>))
      | Astart \<Rightarrow> Some (tell13 (TAB # ''->Thread '') tid '' gestartet ..\<newline>'' (s\<lparr>thread2 := Add 0 0\<rparr>))
      | Add i summe \<Rightarrow>
          (if i < 10 then Some (s\<lparr>thread2 := Add (Suc i) (summe + werte s ! i)\<rparr>)
           else Some (s\<lparr>thread2 := Ashow summe\<rparr>))
      | Ashow summe \<Rightarrow> Some (tell13 (TAB # ''->Summe '') summe ''\<newline>'' (s\<lparr>thread2 := Aend\<rparr>))
      | Aend \<Rightarrow> Some (tell13 (TAB # ''->Thread '') tid '' ende ..\<newline>'' (s\<lparr>thread2 := Adone\<rparr>))
      | _ \<Rightarrow> None)"

definition thread13_main :: "int \<Rightarrow> t13 \<Rightarrow> t13 option" where
  "thread13_main tid s =
     (case main13 s of
        M13create i \<Rightarrow>
          (if i = 0 then Some (s\<lparr>thread1 := Fstart, main13 := M13create 1\<rparr>)
           else Some (s\<lparr>thread2 := Await, main13 := M13join 0\<rparr>))
      | M13join i \<Rightarrow>
          (if i = 0 then (if thread1 s = Fdone then Some (s\<lparr>main13 := M13join 1\<rparr>) else None)
           else if thread2 s = Adone then Some (s\<lparr>main13 := M13value\<rparr>) else None)
      | M13value \<Rightarrow>
          (let s1 = tell13 ''-> Semaphor (Wert: '' (int (sem s)) '')\<newline>'' s;
               s2 = s1\<lparr>out13 := out13 s1 @ [Out ''-> Semaphor geloescht\<newline>'']\<rparr> in
           Some (tell13 ''<- Main-Thread beendet (ID:'' tid '')\<newline>'' (s2\<lparr>main13 := M13exit\<rparr>)))
      | M13exit \<Rightarrow> None)"

datatype t13act = Filler int | Adder int | Main13 int

fun t13_act :: "t13act \<Rightarrow> t13 \<Rightarrow> t13 option" where
  "t13_act (Filler tid) s = (if main13 s = M13exit then None else filler_step tid s)"
| "t13_act (Adder tid) s = (if main13 s = M13exit then None else adder_step tid s)"
| "t13_act (Main13 tid) s = thread13_main tid s"

text \<open>\<^verbatim>\<open>main\<close> up to the creation of the threads; a static array is zero.\<close>

definition thread13_start :: "int \<Rightarrow> t13" where
  "thread13_start tid =
     (let s = \<lparr>sem = 0, werte = replicate 10 0, thread1 = Fnone, thread2 = Anone, main13 = M13create 0, out13 = []\<rparr> in
      tell13 ''-> Semaphor initialisiert (Wert: '' (int (sem s)) '')\<newline>''
        (tell13 ''-> Main-Thread gestartet (ID:'' tid '')\<newline>'' s))"

section \<open>The invariant\<close>

fun written :: "filler \<Rightarrow> nat" where
  "written Fnone = 0" | "written Fstart = 0" | "written (Fill i) = i" | "written p = 10"

definition posted :: "filler \<Rightarrow> bool" where
  "posted p \<longleftrightarrow> p \<in> {Fvalue, Fend, Fdone}"

text \<open>The lines that show a sum.\<close>

definition sum_lines :: "say list \<Rightarrow> say list" where
  "sum_lines = filter (\<lambda>x. case x of Out t \<Rightarrow> prefix (TAB # ''->Summe '') t | _ \<Rightarrow> False)"

fun adder_ok :: "adder \<Rightarrow> say list \<Rightarrow> bool" where
  "adder_ok (Add i summe) ls \<longleftrightarrow> i \<le> 10 \<and> summe = sum_list (map int [0..<i]) \<and> ls = []"
| "adder_ok (Ashow summe) ls \<longleftrightarrow> summe = 45 \<and> ls = []"
| "adder_ok Aend ls \<longleftrightarrow> ls = [Out (TAB # ''->Summe '' @ show_int 45 @ ''\<newline>'')]"
| "adder_ok Adone ls \<longleftrightarrow> ls = [Out (TAB # ''->Summe '' @ show_int 45 @ ''\<newline>'')]"
| "adder_ok _ ls \<longleftrightarrow> ls = []"

fun main_ok13 :: "m13 \<Rightarrow> filler \<Rightarrow> adder \<Rightarrow> bool" where
  "main_ok13 (M13create i) p q \<longleftrightarrow> i \<le> 1 \<and> (i = 0 \<longleftrightarrow> p = Fnone) \<and> q = Anone"
| "main_ok13 (M13join i) p q \<longleftrightarrow> i \<le> 1 \<and> p \<noteq> Fnone \<and> q \<noteq> Anone \<and> (i = 1 \<longrightarrow> p = Fdone)"
| "main_ok13 M13value p q \<longleftrightarrow> p = Fdone \<and> q = Adone"
| "main_ok13 M13exit p q \<longleftrightarrow> p = Fdone \<and> q = Adone"

definition t13_inv :: "t13 \<Rightarrow> bool" where
  "t13_inv s \<longleftrightarrow> length (werte s) = 10 \<and> written (thread1 s) \<le> 10 \<and>
     (\<forall>i < written (thread1 s). werte s ! i = int i) \<and>
     sem s = (if posted (thread1 s) \<and> thread2 s \<in> {Anone, Await} then 1 else 0) \<and>
     (thread2 s \<notin> {Anone, Await} \<longrightarrow> posted (thread1 s)) \<and>
     adder_ok (thread2 s) (sum_lines (out13 s)) \<and> main_ok13 (main13 s) (thread1 s) (thread2 s)"

fun filler_rank :: "filler \<Rightarrow> nat" where
  "filler_rank Fnone = 16" | "filler_rank Fstart = 15" | "filler_rank (Fill i) = 14 - i" | "filler_rank Fpost = 3"
| "filler_rank Fvalue = 2" | "filler_rank Fend = 1" | "filler_rank Fdone = 0"

fun adder_rank :: "adder \<Rightarrow> nat" where
  "adder_rank Anone = 16" | "adder_rank Await = 15" | "adder_rank Astart = 14" | "adder_rank (Add i x) = 13 - i"
| "adder_rank (Ashow x) = 2" | "adder_rank Aend = 1" | "adder_rank Adone = 0"

fun main_rank13 :: "m13 \<Rightarrow> nat" where
  "main_rank13 (M13create i) = 5 - i" | "main_rank13 (M13join i) = 3 - i" | "main_rank13 M13value = 1"
| "main_rank13 M13exit = 0"

definition t13_size :: "t13 \<Rightarrow> nat" where
  "t13_size s = filler_rank (thread1 s) + adder_rank (thread2 s) + main_rank13 (main13 s)"

lemma tell13_simps [simp]:
  "sem (tell13 a i b s) = sem s" "werte (tell13 a i b s) = werte s" "thread1 (tell13 a i b s) = thread1 s"
  "thread2 (tell13 a i b s) = thread2 s" "main13 (tell13 a i b s) = main13 s"
  "out13 (tell13 a i b s) = out13 s @ [Out (a @ show_int i @ b)]"
  by (simp_all add: tell13_def)

lemma sum_lines_simps [simp]:
  "sum_lines [] = []" "sum_lines (xs @ ys) = sum_lines xs @ sum_lines ys"
  "sum_lines (Out (TAB # CHR ''-'' # CHR ''>'' # CHR ''T'' # t) # xs) = sum_lines xs"
  "sum_lines (Out (CHR ''-'' # t) # xs) = sum_lines xs" "sum_lines (Out (CHR ''<'' # t) # xs) = sum_lines xs"
  by (simp_all add: sum_lines_def)

lemma sum_lines_sum: "sum_lines [Out (TAB # ''->Summe '' @ t)] = [Out (TAB # ''->Summe '' @ t)]"
  by (simp add: sum_lines_def)

lemmas sum_lines_Summe [simp] = sum_lines_sum [unfolded append_Cons append_Nil]

text \<open>The steps of the threads, without what they print.\<close>

lemma filler_frame:
  assumes "filler_step tid s = Some s'"
  shows "thread2 s' = thread2 s \<and> main13 s' = main13 s \<and> sum_lines (out13 s') = sum_lines (out13 s)"
  using assms by (cases "thread1 s") (auto simp: filler_step_def split: if_splits)

lemma filler_cases:
  assumes "filler_step tid s = Some s'"
  obtains (start) "thread1 s = Fstart" "thread1 s' = Fill 0" "sem s' = sem s" "werte s' = werte s"
  | (fill) i where "thread1 s = Fill i" "i < 10" "thread1 s' = Fill (Suc i)" "sem s' = sem s" "werte s' = (werte s)[i := int i]"
  | (filled) i where "thread1 s = Fill i" "10 \<le> i" "thread1 s' = Fpost" "sem s' = sem s" "werte s' = werte s"
  | (post) "thread1 s = Fpost" "thread1 s' = Fvalue" "sem s' = Suc (sem s)" "werte s' = werte s"
  | (rest) "thread1 s = Fvalue \<and> thread1 s' = Fend \<or> thread1 s = Fend \<and> thread1 s' = Fdone" "sem s' = sem s" "werte s' = werte s"
  using assms by (cases "thread1 s") (auto simp: filler_step_def split: if_splits)

lemma adder_frame:
  assumes "adder_step tid s = Some s'"
  shows "thread1 s' = thread1 s \<and> main13 s' = main13 s \<and> werte s' = werte s"
  using assms by (cases "thread2 s") (auto simp: adder_step_def split: if_splits)

lemma adder_cases:
  assumes "adder_step tid s = Some s'"
  obtains (got) "thread2 s = Await" "sem s \<noteq> 0" "thread2 s' = Astart" "sem s' = sem s - 1" "sum_lines (out13 s') = sum_lines (out13 s)"
  | (start) "thread2 s = Astart" "thread2 s' = Add 0 0" "sem s' = sem s" "sum_lines (out13 s') = sum_lines (out13 s)"
  | (add) i x where "thread2 s = Add i x" "i < 10" "thread2 s' = Add (Suc i) (x + werte s ! i)" "sem s' = sem s"
      "sum_lines (out13 s') = sum_lines (out13 s)"
  | (added) i x where "thread2 s = Add i x" "10 \<le> i" "thread2 s' = Ashow x" "sem s' = sem s" "sum_lines (out13 s') = sum_lines (out13 s)"
  | (shown) x where "thread2 s = Ashow x" "thread2 s' = Aend" "sem s' = sem s"
      "sum_lines (out13 s') = sum_lines (out13 s) @ [Out (TAB # ''->Summe '' @ show_int x @ ''\<newline>'')]"
  | (ended) "thread2 s = Aend" "thread2 s' = Adone" "sem s' = sem s" "sum_lines (out13 s') = sum_lines (out13 s)"
proof (cases "thread2 s")
  case (Add i x)
  with assms add added show thesis by (auto simp: adder_step_def split: if_splits)
next
  case (Ashow x)
  with assms shown [of x] show thesis by (auto simp: adder_step_def)
qed (use assms got start ended in \<open>auto simp: adder_step_def split: if_splits\<close>)

lemma main_ok13_move:
  "main_ok13 m p q \<Longrightarrow> p \<noteq> Fnone \<Longrightarrow> p \<noteq> Fdone \<Longrightarrow> p' \<noteq> Fnone \<Longrightarrow> main_ok13 m p' q"
  "main_ok13 m p q \<Longrightarrow> q \<noteq> Anone \<Longrightarrow> q \<noteq> Adone \<Longrightarrow> q' \<noteq> Anone \<Longrightarrow> main_ok13 m p q'"
  by (cases m; auto)+

lemma filler_keeps:
  assumes "t13_inv s" and "filler_step tid s = Some s'"
  shows "t13_inv s' \<and> t13_size s' < t13_size s"
proof -
  note fr = filler_frame [OF assms(2)]
  have mo: "main_ok13 (main13 s) (thread1 s) (thread2 s)" using assms(1) by (simp add: t13_inv_def)
  from assms(2) have "thread1 s \<noteq> Fnone" "thread1 s \<noteq> Fdone" "thread1 s' \<noteq> Fnone"
    by (cases rule: filler_cases; auto)+
  then have "main_ok13 (main13 s') (thread1 s') (thread2 s')" using main_ok13_move(1) [OF mo] fr by simp
  with assms(2) show ?thesis
  proof (cases rule: filler_cases)
    case (fill i)
    with assms(1) fr \<open>main_ok13 (main13 s') _ _\<close> show ?thesis
      by (auto simp: t13_inv_def t13_size_def posted_def nth_list_update)
  qed (use assms(1) fr in \<open>auto simp: t13_inv_def t13_size_def posted_def\<close>)
qed

lemma sum_to_10: "sum_list (map int [0..<10]) = 45"
  by code_simp

lemma adder_keeps:
  assumes "t13_inv s" and "adder_step tid s = Some s'"
  shows "t13_inv s' \<and> t13_size s' < t13_size s"
proof -
  note fr = adder_frame [OF assms(2)]
  have mo: "main_ok13 (main13 s) (thread1 s) (thread2 s)" using assms(1) by (simp add: t13_inv_def)
  from assms(2) have "thread2 s \<noteq> Anone" "thread2 s \<noteq> Adone" "thread2 s' \<noteq> Anone"
    by (cases rule: adder_cases; auto)+
  then have mo': "main_ok13 (main13 s') (thread1 s') (thread2 s')" using main_ok13_move(2) [OF mo] fr by simp
  have ad: "adder_ok (thread2 s) (sum_lines (out13 s))" using assms(1) by (simp add: t13_inv_def)
  from assms(2) show ?thesis
  proof (cases rule: adder_cases)
    case (add i x)
    have "10 \<le> written (thread1 s)" using assms(1) add(1) by (cases "thread1 s") (auto simp: t13_inv_def posted_def)
    then have "werte s ! i = int i" using assms(1) add(2) by (simp add: t13_inv_def)
    with add assms(1) fr mo' show ?thesis by (auto simp: t13_inv_def t13_size_def)
  next
    case (added i x)
    then have "i = 10" using ad by simp
    with ad added(1) sum_to_10 have "x = 45" "sum_lines (out13 s) = []" by simp_all
    with added \<open>i = 10\<close> assms(1) fr mo' show ?thesis by (auto simp: t13_inv_def t13_size_def)
  qed (use assms(1) fr mo' in \<open>auto simp: t13_inv_def t13_size_def split: if_splits\<close>)
qed

lemma main13_keeps:
  assumes "t13_inv s" and "thread13_main tid s = Some s'"
  shows "t13_inv s' \<and> t13_size s' < t13_size s"
proof -
  have mo: "main_ok13 (main13 s) (thread1 s) (thread2 s)" using assms(1) by (simp add: t13_inv_def)
  show ?thesis
  proof (cases "main13 s")
    case (M13create i)
    show ?thesis
    proof (cases "i = 0")
      case True
      with assms(2) M13create have s': "s' = s\<lparr>thread1 := Fstart, main13 := M13create 1\<rparr>" by (simp add: thread13_main_def)
      from mo M13create True have "thread1 s = Fnone" "thread2 s = Anone" by simp_all
      with assms(1) M13create True s' show ?thesis by (simp add: t13_inv_def t13_size_def posted_def)
    next
      case False
      with assms(2) M13create have s': "s' = s\<lparr>thread2 := Await, main13 := M13join 0\<rparr>" by (simp add: thread13_main_def)
      from mo M13create False have "thread1 s \<noteq> Fnone" "thread2 s = Anone" "i = 1" by auto
      with assms(1) M13create s' show ?thesis by (simp add: t13_inv_def t13_size_def)
    qed
  next
    case (M13join i)
    with assms(2) have "s' = s\<lparr>main13 := if i = 0 then M13join 1 else M13value\<rparr>"
      "if i = 0 then thread1 s = Fdone else thread2 s = Adone" by (auto simp: thread13_main_def split: if_splits)
    with assms(1) M13join mo show ?thesis by (auto simp: t13_inv_def t13_size_def)
  next
    case M13value
    with assms(2) have "thread1 s' = thread1 s" "thread2 s' = thread2 s" "werte s' = werte s" "sem s' = sem s"
      "main13 s' = M13exit" "sum_lines (out13 s') = sum_lines (out13 s)"
      by (auto simp: thread13_main_def Let_def)
    with assms(1) M13value show ?thesis by (auto simp: t13_inv_def t13_size_def posted_def)
  qed (use assms(2) in \<open>simp add: thread13_main_def\<close>)
qed

lemma t13_step:
  assumes "t13_inv s" and "t13_act a s = Some s'"
  shows "t13_inv s' \<and> t13_size s' < t13_size s"
proof (cases a)
  case (Filler tid)
  with assms filler_keeps [OF assms(1), of tid s'] show ?thesis by (simp split: if_splits)
next
  case (Adder tid)
  with assms adder_keeps [OF assms(1), of tid s'] show ?thesis by (simp split: if_splits)
next
  case (Main13 tid)
  with assms main13_keeps [OF assms(1), of tid s'] show ?thesis by simp
qed

lemma t13_progress:
  assumes "t13_inv s" and "main13 s \<noteq> M13exit"
  shows "\<exists>a s'. t13_act a s = Some s'"
proof -
  have filler: "\<exists>a s'. t13_act a s = Some s'" if "thread1 s \<noteq> Fnone" "thread1 s \<noteq> Fdone"
  proof -
    have "filler_step 0 s \<noteq> None" using that by (cases "thread1 s") (simp_all add: filler_step_def)
    with assms(2) show ?thesis by (intro exI [of _ "Filler 0"]) simp
  qed
  have adder: "\<exists>a s'. t13_act a s = Some s'" if "thread2 s \<noteq> Anone" "thread2 s \<noteq> Adone" "thread1 s = Fdone"
  proof -
    have "adder_step 0 s \<noteq> None"
      using that assms(1) by (cases "thread2 s") (simp_all add: adder_step_def t13_inv_def posted_def)
    with assms(2) show ?thesis by (intro exI [of _ "Adder 0"]) simp
  qed
  have main: "\<exists>a s'. t13_act a s = Some s'" if "thread13_main 0 s \<noteq> None"
    using that by (intro exI [of _ "Main13 0"]) simp
  have mo: "main_ok13 (main13 s) (thread1 s) (thread2 s)" using assms(1) by (simp add: t13_inv_def)
  show ?thesis
  proof (cases "main13 s")
    case (M13join i)
    with mo have m: "thread1 s \<noteq> Fnone" "thread2 s \<noteq> Anone" by simp_all
    show ?thesis
    proof (cases "thread1 s = Fdone")
      case True
      show ?thesis
      proof (cases "thread2 s = Adone")
        case False
        with True m adder show ?thesis by blast
      qed (use True M13join main in \<open>simp add: thread13_main_def\<close>)
    qed (use m filler in blast)
  qed (use assms(2) main in \<open>simp_all add: thread13_main_def Let_def\<close>)
qed

definition starts13 :: "t13 \<Rightarrow> bool" where
  "starts13 s \<longleftrightarrow> (\<exists>tid. s = thread13_start tid)"

lemma starts13_inv: "starts13 s \<Longrightarrow> t13_inv s"
  by (auto simp: starts13_def thread13_start_def t13_inv_def posted_def Let_def)

interpretation t13: terminating_protocol t13_act starts13 t13_inv t13_size "\<lambda>s. main13 s = M13exit"
  by unfold_locales (use starts13_inv t13_step t13_progress in blast)+

section \<open>The property\<close>

text \<open>
  The semaphore orders the two threads: under every schedule the program takes at most 37 steps,
  cannot get stuck before its end, never adds up an element that is not written yet, and has then
  printed the sum 45, once.
\<close>

theorem thread13_sum:
  assumes "run t13_act as (thread13_start tid) = Some s"
  shows "length as \<le> 37 \<and>
    (main13 s = M13exit \<or> (\<exists>a s'. t13_act a s = Some s')) \<and>
    (\<forall>i x. thread2 s = Add i x \<longrightarrow> (\<forall>j < 10. werte s ! j = int j)) \<and>
    (main13 s = M13exit \<longrightarrow> sum_lines (out13 s) = [Out (TAB # ''->Summe 45\<newline>'')])"
proof -
  have init: "t13_inv (thread13_start tid)" by (rule starts13_inv) (auto simp: starts13_def)
  have "t13_size (thread13_start tid) = 37" by (simp add: t13_size_def thread13_start_def Let_def)
  then have "length as \<le> 37" using t13.run_bound [OF init assms] by simp
  moreover have inv: "t13_inv s" by (rule t13.bounded.run_keeps [OF init assms])
  moreover have "main13 s = M13exit \<or> (\<exists>a s'. t13_act a s = Some s')" using t13.progress [OF inv] by blast
  moreover have "\<forall>j < 10. werte s ! j = int j" if "thread2 s = Add i x" for i x
  proof -
    have "posted (thread1 s)" using inv that by (simp add: t13_inv_def)
    then have "written (thread1 s) = 10" by (auto simp: posted_def)
    with inv show ?thesis by (simp add: t13_inv_def)
  qed
  moreover have "show_int 45 = ''45''" by code_simp
  then have "sum_lines (out13 s) = [Out (TAB # ''->Summe 45\<newline>'')]" if "main13 s = M13exit"
    using inv that by (auto simp: t13_inv_def)
  ultimately show ?thesis by blast
qed

abbreviation (input) schedule13 :: "t13act list" where
  "schedule13 \<equiv> replicate 2 (Main13 1) @ replicate 14 (Filler 2) @ replicate 3 (Adder 3) @ [Filler 2] @
     replicate 12 (Adder 3) @ replicate 3 (Main13 1)"

theorem thread13_sum_witness:
  "\<exists>s. run t13_act schedule13 (thread13_start 1) = Some s \<and> main13 s = M13exit \<and>
     sum_lines (out13 s) = [Out (TAB # ''->Summe 45\<newline>'')]"
proof -
  define s where "s = the (run t13_act schedule13 (thread13_start 1))"
  have r: "run t13_act schedule13 (thread13_start 1) = Some s" and e: "main13 s = M13exit"
    unfolding s_def by code_simp+
  with thread13_sum [OF r] show ?thesis by blast
qed

end
