(* ===== verification/ThreadFile.thy ===== *)
theory ThreadFile
  imports Pthread
begin

text \<open>
  \<^verbatim>\<open>src/10_Threads/thread6.c\<close> and \<^verbatim>\<open>thread8.c\<close>: one thread writes a typed line into a file, another one
  reads the file back. In \<^verbatim>\<open>thread6.c\<close> a mutex keeps them apart, in \<^verbatim>\<open>thread8.c\<close> the mutex also hands
  the file over: \<^verbatim>\<open>main\<close> locks it and the writer unlocks it. Each call of the C library is one step;
  unlocking a mutex of another thread opens it, as the default mutex of the platform does.
\<close>

section \<open>The stream\<close>

record stream =
  fcontent :: string
  fpos :: nat

definition new_stream :: stream where
  "new_stream = \<lparr>fcontent = [], fpos = 0\<rparr>"

definition stream_puts :: "string \<Rightarrow> stream \<Rightarrow> stream" where
  "stream_puts t f =
     f\<lparr>fcontent := take (fpos f) (fcontent f) @ t @ drop (fpos f + length t) (fcontent f), fpos := fpos f + length t\<rparr>"

definition stream_gets :: "nat \<Rightarrow> stream \<Rightarrow> string option \<times> stream" where
  "stream_gets n f =
     (case fgets n (drop (fpos f) (fcontent f)) of
        None \<Rightarrow> (None, f)
      | Some (l, r) \<Rightarrow> (Some l, f\<lparr>fpos := fpos f + length l\<rparr>))"

section \<open>The two threads\<close>

abbreviation (input) LINEBUF :: nat where "LINEBUF \<equiv> 255"

datatype wpc = Wnone | Wlock | Wprompt | Wread | Wput | Wunlock | Wdone
datatype rpc = Rnone | Rlock | Rrewind | Rread | Rshow | Rput | Runlock | Rdone
datatype fmain = FMcreate nat | FMjoin nat | FMexit int

text \<open>
  The static variables of \<^verbatim>\<open>main\<close> in cells of four bytes: each \<^verbatim>\<open>ret\<close> is an \<^verbatim>\<open>int\<close>, one cell, and each identity of a
  thread has two, the low half and the high half. \<^verbatim>\<open>pthread_join\<close> is given the address of a \<^verbatim>\<open>ret\<close> and stores
  the eight bytes that the thread returns there, its identity: the low half goes into the \<^verbatim>\<open>ret\<close>, the high half
  into whatever cell lies behind it.
\<close>

datatype cell = Ret nat | Low nat | High nat | Other nat

type_synonym pthr = "32 word \<times> 32 word"

definition id_val :: "pthr \<Rightarrow> int" where
  "id_val t = sint (snd t) * 2 ^ 32 + uint (fst t)"

text \<open>
  A line buffer is \<open>None\<close> as long as its contents are indeterminate; \<open>undef\<close> says that such a buffer
  has been used as a string, after which the program has no defined behaviour. \<open>made\<close> are the identities of
  the threads (also what they return) and \<open>cells\<close> the variables; \<open>astray\<close> says that \<^verbatim>\<open>pthread_join\<close> was called with
  an identity that is not the one of the thread, which is undefined too.
\<close>

record tf =
  locked :: bool
  fz :: stream
  input :: string
  writer :: wpc
  reader :: rpc
  fmain :: fmain
  wstring :: "string option"
  rstring :: "string option"
  undef :: bool
  fout :: "say list"
  made :: "nat \<Rightarrow> pthr"
  cells :: "cell \<Rightarrow> 32 word"
  astray :: bool

definition fsay :: "string \<Rightarrow> tf \<Rightarrow> tf" where
  "fsay t s = s\<lparr>fout := fout s @ [Out t]\<rparr>"

text \<open>\<^verbatim>\<open>thread_schreiben\<close> from its prompt on.\<close>

definition write_line :: "tf \<Rightarrow> tf option" where
  "write_line s =
     (case writer s of
        Wprompt \<Rightarrow> Some (fsay ''Bitte Eingabe machen: '' (s\<lparr>writer := Wread\<rparr>))
      | Wread \<Rightarrow>
          (case fgets LINEBUF (input s) of
             None \<Rightarrow> Some (s\<lparr>writer := Wput\<rparr>)
           | Some (l, r) \<Rightarrow> Some (s\<lparr>input := r, wstring := Some l, writer := Wput\<rparr>))
      | Wput \<Rightarrow>
          (case wstring s of
             None \<Rightarrow> Some (s\<lparr>undef := True\<rparr>)
           | Some l \<Rightarrow> Some (s\<lparr>fz := stream_puts l (fz s), writer := Wunlock\<rparr>))
      | Wunlock \<Rightarrow> Some (s\<lparr>locked := False, writer := Wdone\<rparr>)
      | _ \<Rightarrow> None)"

text \<open>\<^verbatim>\<open>thread_lesen\<close> from \<^verbatim>\<open>rewind\<close> on.\<close>

definition ausgabe :: "int \<Rightarrow> say" where
  "ausgabe tid = Out (''Ausgabe Thread '' @ show_int tid @ '': '')"

definition read_line :: "int \<Rightarrow> tf \<Rightarrow> tf option" where
  "read_line tid s =
     (case reader s of
        Rrewind \<Rightarrow> Some (s\<lparr>fz := (fz s)\<lparr>fpos := 0\<rparr>, reader := Rread\<rparr>)
      | Rread \<Rightarrow>
          (case stream_gets LINEBUF (fz s) of
             (None, f) \<Rightarrow> Some (s\<lparr>reader := Rshow\<rparr>)
           | (Some l, f) \<Rightarrow> Some (s\<lparr>fz := f, rstring := Some l, reader := Rshow\<rparr>))
      | Rshow \<Rightarrow> Some (s\<lparr>reader := Rput, fout := fout s @ [ausgabe tid]\<rparr>)
      | Rput \<Rightarrow>
          (case rstring s of
             None \<Rightarrow> Some (s\<lparr>undef := True\<rparr>)
           | Some l \<Rightarrow> Some (fsay l (s\<lparr>reader := Runlock\<rparr>)))
      | Runlock \<Rightarrow> Some (s\<lparr>locked := False, reader := Rdone\<rparr>)
      | _ \<Rightarrow> None)"

section \<open>\<^verbatim>\<open>thread6.c\<close>\<close>

definition thread6_schreiben :: "tf \<Rightarrow> tf option" where
  "thread6_schreiben s =
     (if writer s = Wlock then (if locked s then None else Some (s\<lparr>locked := True, writer := Wprompt\<rparr>))
      else write_line s)"

definition thread6_lesen :: "int \<Rightarrow> tf \<Rightarrow> tf option" where
  "thread6_lesen tid s =
     (if reader s = Rlock then (if locked s then None else Some (s\<lparr>locked := True, reader := Rrewind\<rparr>))
      else read_line tid s)"

text \<open>
  The part of \<^verbatim>\<open>main\<close> that creates and joins the threads, the same in both programs: \<open>start\<close> is where
  the writer begins, \<open>ok\<close> the success of \<^verbatim>\<open>pthread_create\<close>, \<open>new\<close> the identity of the thread that is created.
\<close>

definition create_failed :: "tf \<Rightarrow> tf" where
  "create_failed s = s\<lparr>fmain := FMexit EXIT_FAILURE, fout := fout s @ [Err ''Konnte Thread nicht erzeugen ...!\<newline>'']\<rparr>"

definition fjoin :: "nat \<Rightarrow> tf \<Rightarrow> bool" where
  "fjoin i s \<longleftrightarrow> (if i = 0 then writer s = Wdone else reader s = Rdone)"

definition goodbye :: "int \<Rightarrow> pthr \<times> pthr \<Rightarrow> say list" where
  "goodbye tid tids =
     [Out (TAB # ''<-Thread '' @ show_int (id_val (fst tids)) @ '' fertig\<newline>''),
      Out (TAB # ''<-Thread '' @ show_int (id_val (snd tids)) @ '' fertig\<newline>''),
      Out (''<- Main-Thread beendet (ID:'' @ show_int tid @ '')\<newline>'')]"

text \<open>The variable \<open>i\<close> of the identities, what a creation stores there, and what a join stores (\<open>behind i\<close>: the cell behind \<^verbatim>\<open>ret\<close>).\<close>

definition thread_var :: "nat \<Rightarrow> tf \<Rightarrow> pthr" where
  "thread_var i s = (cells s (Low i), cells s (High i))"

definition created :: "nat \<Rightarrow> pthr \<Rightarrow> tf \<Rightarrow> tf" where
  "created i new s = s\<lparr>made := (made s)(i := new), cells := (cells s)(Low i := fst new, High i := snd new)\<rparr>"

definition stored :: "(nat \<Rightarrow> cell) \<Rightarrow> nat \<Rightarrow> tf \<Rightarrow> tf" where
  "stored behind i s = s\<lparr>cells := (cells s)(Ret i := fst (made s i), behind i := snd (made s i))\<rparr>"

definition create_join :: "wpc \<Rightarrow> (nat \<Rightarrow> cell) \<Rightarrow> bool \<Rightarrow> int \<Rightarrow> pthr \<Rightarrow> tf \<Rightarrow> tf option" where
  "create_join start behind ok tid new s =
     (case fmain s of
        FMcreate i \<Rightarrow>
          (if \<not> ok then Some (create_failed s)
           else if i = 0 then Some (created 0 new (s\<lparr>writer := start, fmain := FMcreate 1\<rparr>))
           else Some (created 1 new (s\<lparr>reader := Rlock, fmain := FMjoin 0\<rparr>)))
      | FMjoin i \<Rightarrow>
          (if i < 2 then
             (if thread_var i s \<noteq> made s i then Some (s\<lparr>astray := True\<rparr>)
              else if fjoin i s then Some (stored behind i (s\<lparr>fmain := FMjoin (Suc i)\<rparr>)) else None)
           else Some (s\<lparr>fmain := FMexit EXIT_SUCCESS, fout := fout s @ goodbye tid (thread_var 0 s, thread_var 1 s)\<rparr>))
      | FMexit c \<Rightarrow> None)"

text \<open>In \<^verbatim>\<open>thread6.c\<close> the two \<^verbatim>\<open>ret\<close> are an array, and \<open>after\<close> is the cell behind it.\<close>

definition array_cells :: "cell \<Rightarrow> nat \<Rightarrow> cell" where
  "array_cells after i = (if i = 0 then Ret 1 else after)"

definition thread6_main :: "cell \<Rightarrow> bool \<Rightarrow> int \<Rightarrow> pthr \<Rightarrow> tf \<Rightarrow> tf option" where
  "thread6_main after = create_join Wlock (array_cells after)"

text \<open>\<^verbatim>\<open>open_file\<close>: what is said before the program ends when the file cannot be opened.\<close>

definition open_file :: "bool \<Rightarrow> say list option" where
  "open_file opened =
     (if opened then None else Some [Out (''Konnte Datei testfile nicht '' @ [CHR 0xC3, CHR 0xB6] @ ''ffnen\<newline>'')])"

definition thread6_start :: "bool \<Rightarrow> int \<Rightarrow> string \<Rightarrow> int \<times> say list + tf" where
  "thread6_start opened tid inp =
     (let out = [Out (''\<newline>-> Main-Thread gestartet (ID:'' @ show_int tid @ '')\<newline>'')] in
      case open_file opened of
        Some msg \<Rightarrow> Inl (EXIT_FAILURE, out @ msg)
      | None \<Rightarrow> Inr \<lparr>locked = False, fz = new_stream, input = inp, writer = Wnone, reader = Rnone, fmain = FMcreate 0,
          wstring = None, rstring = None, undef = False, fout = out,
        made = \<lambda>_. (0, 0), cells = \<lambda>_. 0, astray = False\<rparr>)"

section \<open>\<^verbatim>\<open>thread8.c\<close>\<close>

definition thread8_schreiben :: "tf \<Rightarrow> tf option" where
  "thread8_schreiben s = write_line s"

definition thread8_lesen :: "int \<Rightarrow> tf \<Rightarrow> tf option" where
  "thread8_lesen tid s =
     (if reader s = Rlock then
        (if locked s then Some (fsay ''Lese Thread wartet auf Arbeit ...\<newline>'' s)
         else Some (s\<lparr>locked := True, reader := Rrewind\<rparr>))
      else read_line tid s)"

text \<open>In \<^verbatim>\<open>thread8.c\<close> they are two variables, \<^verbatim>\<open>ret1\<close> and \<^verbatim>\<open>ret2\<close>; what lies behind each is up to the compiler.\<close>

definition thread8_main :: "(nat \<Rightarrow> cell) \<Rightarrow> bool \<Rightarrow> int \<Rightarrow> pthr \<Rightarrow> tf \<Rightarrow> tf option" where
  "thread8_main behind = create_join Wprompt behind"

definition thread8_start :: "bool \<Rightarrow> bool \<Rightarrow> int \<Rightarrow> string \<Rightarrow> int \<times> say list + tf" where
  "thread8_start malloc_ok opened tid inp =
     (let out = [Out (''\<newline>-> Main-Thread gestartet (ID:'' @ show_int tid @ '')\<newline>'')] in
      if \<not> malloc_ok then Inl (EXIT_FAILURE, [Out ''Konnte keinen Speicher reservieren ...!\<newline>''])
      else if \<not> opened then Inl (EXIT_FAILURE, out @ [Out ''Konnte Datei filename nicht oeffnen\<newline>''])
      else Inr \<lparr>locked = True, fz = new_stream, input = inp, writer = Wnone, reader = Rnone, fmain = FMcreate 0,
        wstring = None, rstring = None, undef = False, fout = out,
        made = \<lambda>_. (0, 0), cells = \<lambda>_. 0, astray = False\<rparr>)"

section \<open>The systems\<close>

datatype tf_act = Schreiben | Lesen int | Warten int | FMain bool int pthr

definition over :: "tf \<Rightarrow> bool" where
  "over s \<longleftrightarrow> undef s \<or> astray s \<or> (case fmain s of FMexit c \<Rightarrow> True | _ \<Rightarrow> False)"

fun t6_act :: "cell \<Rightarrow> tf_act \<Rightarrow> tf \<Rightarrow> tf option" where
  "t6_act after Schreiben s = (if over s then None else thread6_schreiben s)"
| "t6_act after (Lesen tid) s = (if over s then None else thread6_lesen tid s)"
| "t6_act after (Warten tid) s = None"
| "t6_act after (FMain ok tid new) s = (if over s then None else thread6_main after ok tid new s)"

text \<open>In \<^verbatim>\<open>thread8.c\<close> a failed attempt to lock the mutex is a step of its own, \<open>Warten\<close>.\<close>

definition busy :: "tf \<Rightarrow> bool" where
  "busy s \<longleftrightarrow> reader s = Rlock \<and> locked s"

fun t8_act :: "(nat \<Rightarrow> cell) \<Rightarrow> tf_act \<Rightarrow> tf \<Rightarrow> tf option" where
  "t8_act behind Schreiben s = (if over s then None else thread8_schreiben s)"
| "t8_act behind (Lesen tid) s = (if over s \<or> busy s then None else thread8_lesen tid s)"
| "t8_act behind (Warten tid) s = (if over s \<or> \<not> busy s then None else thread8_lesen tid s)"
| "t8_act behind (FMain ok tid new) s = (if over s then None else thread8_main behind ok tid new s)"

fun tf_extra :: "tf_act \<Rightarrow> nat" where
  "tf_extra (Warten tid) = 1"
| "tf_extra a = 0"

section \<open>The invariants\<close>

text \<open>What the reader has printed.\<close>

definition shown :: "string \<Rightarrow> rpc \<Rightarrow> say list \<Rightarrow> bool" where
  "shown l p out \<longleftrightarrow>
     (case p of
        Rput \<Rightarrow> \<exists>tid pre. out = pre @ [ausgabe tid]
      | Runlock \<Rightarrow> \<exists>tid pre post. out = pre @ [ausgabe tid, Out l] @ post
      | Rdone \<Rightarrow> \<exists>tid pre post. out = pre @ [ausgabe tid, Out l] @ post
      | _ \<Rightarrow> True)"

definition inside :: "rpc \<Rightarrow> bool" where
  "inside p \<longleftrightarrow> p \<in> {Rrewind, Rread, Rshow, Rput, Runlock}"

text \<open>Nothing of the reader has happened yet, and the mutex is locked.\<close>

definition waits :: "tf \<Rightarrow> bool" where
  "waits s \<longleftrightarrow> locked s \<and> (reader s = Rnone \<or> reader s = Rlock)"

text \<open>From the writer's prompt on: \<open>inp\<close> is the input and \<open>l\<close> its first line.\<close>

definition phase :: "string \<Rightarrow> string \<Rightarrow> tf \<Rightarrow> bool" where
  "phase inp l s \<longleftrightarrow>
     (case writer s of
        Wprompt \<Rightarrow> waits s \<and> input s = inp \<and> fz s = new_stream
      | Wread \<Rightarrow> waits s \<and> input s = inp \<and> fz s = new_stream
      | Wput \<Rightarrow> waits s \<and> wstring s = Some l \<and> fz s = new_stream
      | Wunlock \<Rightarrow> waits s \<and> fcontent (fz s) = l
      | Wdone \<Rightarrow> fcontent (fz s) = l \<and> (locked s \<longleftrightarrow> inside (reader s)) \<and> shown l (reader s) (fout s) \<and>
          (reader s = Rread \<longrightarrow> fpos (fz s) = 0) \<and> (reader s \<in> {Rshow, Rput} \<longrightarrow> rstring s = Some l)
      | _ \<Rightarrow> False)"

definition fmain_ok :: "tf \<Rightarrow> bool" where
  "fmain_ok s \<longleftrightarrow>
     (case fmain s of
        FMcreate i \<Rightarrow> i \<le> 1 \<and> (i = 0 \<longleftrightarrow> writer s = Wnone) \<and> reader s = Rnone
      | FMjoin i \<Rightarrow> i \<le> 2 \<and> writer s \<noteq> Wnone \<and> reader s \<noteq> Rnone \<and> (1 \<le> i \<longrightarrow> writer s = Wdone) \<and> (2 \<le> i \<longrightarrow> reader s = Rdone)
      | FMexit c \<Rightarrow> c = EXIT_SUCCESS \<longrightarrow> writer s = Wdone \<and> reader s = Rdone)"

text \<open>Before the writer has come to its prompt.\<close>

definition before6 :: "string \<Rightarrow> tf \<Rightarrow> bool" where
  "before6 inp s \<longleftrightarrow> input s = inp \<and> fz s = new_stream \<and> wstring s = None \<and> rstring s = None \<and>
     ((reader s = Rnone \<or> reader s = Rlock) \<and> \<not> locked s \<or> reader s \<in> {Rrewind, Rread, Rshow, Rput} \<and> locked s)"

definition before8 :: "string \<Rightarrow> tf \<Rightarrow> bool" where
  "before8 inp s \<longleftrightarrow> input s = inp \<and> fz s = new_stream \<and> waits s"

text \<open>The first line of the input can be read.\<close>

definition first_line :: "string \<Rightarrow> string \<Rightarrow> bool" where
  "first_line inp l \<longleftrightarrow> (\<exists>r. fgets LINEBUF inp = Some (l, r))"

definition t6_inv :: "string \<Rightarrow> string \<Rightarrow> tf \<Rightarrow> bool" where
  "t6_inv inp l s \<longleftrightarrow> first_line inp l \<and>
     (undef s \<or> fmain_ok s \<and> (if writer s = Wnone \<or> writer s = Wlock then before6 inp s else phase inp l s))"

definition t8_inv :: "string \<Rightarrow> string \<Rightarrow> tf \<Rightarrow> bool" where
  "t8_inv inp l s \<longleftrightarrow> first_line inp l \<and> \<not> undef s \<and> fmain_ok s \<and>
     (if writer s = Wnone then before8 inp s else phase inp l s)"

fun wrank :: "wpc \<Rightarrow> nat" where
  "wrank Wnone = 6" | "wrank Wlock = 5" | "wrank Wprompt = 4" | "wrank Wread = 3" | "wrank Wput = 2" | "wrank Wunlock = 1"
| "wrank Wdone = 0"

fun rrank :: "rpc \<Rightarrow> nat" where
  "rrank Rnone = 7" | "rrank Rlock = 6" | "rrank Rrewind = 5" | "rrank Rread = 4" | "rrank Rshow = 3" | "rrank Rput = 2"
| "rrank Runlock = 1" | "rrank Rdone = 0"

fun frank :: "fmain \<Rightarrow> nat" where
  "frank (FMcreate i) = 5 - i" | "frank (FMjoin i) = 3 - i" | "frank (FMexit c) = 0"

definition tf_size :: "tf \<Rightarrow> nat" where
  "tf_size s = wrank (writer s) + rrank (reader s) + frank (fmain s) + (if undef s \<or> astray s then 0 else 1)"

lemma fsay_simps [simp]:
  "locked (fsay t s) = locked s" "fz (fsay t s) = fz s" "input (fsay t s) = input s" "writer (fsay t s) = writer s"
  "reader (fsay t s) = reader s" "fmain (fsay t s) = fmain s" "wstring (fsay t s) = wstring s"
  "rstring (fsay t s) = rstring s" "undef (fsay t s) = undef s" "astray (fsay t s) = astray s" "fout (fsay t s) = fout s @ [Out t]"
  by (simp_all add: fsay_def)

lemma created_simps [simp]:
  "locked (created i n s) = locked s" "fz (created i n s) = fz s" "input (created i n s) = input s" "writer (created i n s) = writer s"
  "reader (created i n s) = reader s" "fmain (created i n s) = fmain s" "wstring (created i n s) = wstring s"
  "rstring (created i n s) = rstring s" "undef (created i n s) = undef s" "fout (created i n s) = fout s" "astray (created i n s) = astray s"
  by (simp_all add: created_def)

lemma stored_simps [simp]:
  "locked (stored b i s) = locked s" "fz (stored b i s) = fz s" "input (stored b i s) = input s" "writer (stored b i s) = writer s"
  "reader (stored b i s) = reader s" "fmain (stored b i s) = fmain s" "wstring (stored b i s) = wstring s"
  "rstring (stored b i s) = rstring s" "undef (stored b i s) = undef s" "fout (stored b i s) = fout s" "astray (stored b i s) = astray s"
  by (simp_all add: stored_def)

text \<open>Reading a line back that \<^verbatim>\<open>fgets\<close> has delivered gives the same line.\<close>

lemma fgets_again: "first_line inp l \<Longrightarrow> fgets LINEBUF l = Some (l, [])"
proof -
  assume "first_line inp l"
  then obtain r where r: "inp \<noteq> []" "line_upto 254 inp = (l, r)" by (auto simp: first_line_def fgets_def split: if_splits)
  from line_upto_progress [OF r(1) _ r(2)] line_upto_split [OF r(2)] have "l \<noteq> []" by auto
  with line_upto_again [OF r(2)] show ?thesis by (simp add: fgets_def)
qed

section \<open>Steps\<close>

lemma write_line_phase:
  assumes "phase inp l s" and "first_line inp l" and "write_line s = Some s'"
  shows "phase inp l s' \<and> reader s' = reader s \<and> fmain s' = fmain s \<and> undef s' = undef s \<and> astray s' = astray s \<and>
    writer s' \<noteq> Wnone \<and> writer s' \<noteq> Wlock \<and> writer s \<noteq> Wdone \<and> wrank (writer s') < wrank (writer s)"
proof (cases "writer s")
  case Wread
  with assms show ?thesis by (auto simp: write_line_def phase_def waits_def first_line_def)
next
  case Wput
  with assms show ?thesis by (auto simp: write_line_def phase_def waits_def stream_puts_def new_stream_def)
qed (use assms in \<open>auto simp: write_line_def phase_def waits_def shown_def inside_def\<close>)

lemma read_line_phase:
  assumes "phase inp l s" and "first_line inp l" and "writer s = Wdone" and "read_line tid s = Some s'"
  shows "phase inp l s' \<and> writer s' = Wdone \<and> fmain s' = fmain s \<and> undef s' = undef s \<and> astray s' = astray s \<and>
    reader s' \<noteq> Rnone \<and> reader s \<noteq> Rnone \<and> reader s \<noteq> Rdone \<and> rrank (reader s') < rrank (reader s)"
proof (cases "reader s")
  case Rread
  then have "stream_gets LINEBUF (fz s) = (Some l, (fz s)\<lparr>fpos := length l\<rparr>)"
    using assms(1,3) fgets_again [OF assms(2)] by (simp add: phase_def stream_gets_def)
  with Rread assms(1,3,4) show ?thesis by (auto simp: read_line_def phase_def shown_def inside_def)
next
  case Rput
  with assms(1,3) obtain tid' pre where f: "fout s = pre @ [ausgabe tid']" "rstring s = Some l"
    by (auto simp: phase_def shown_def)
  with Rput assms(4) have s': "s' = fsay l (s\<lparr>reader := Runlock\<rparr>)" by (simp add: read_line_def)
  from f have "fout s' = pre @ [ausgabe tid', Out l] @ []" by (simp add: s')
  then have "shown l Runlock (fout s')" unfolding shown_def rpc.case by blast
  with Rput assms(1,3) show ?thesis by (simp add: s' phase_def inside_def)
next
  case Runlock
  with assms(4) have s': "s' = s\<lparr>locked := False, reader := Rdone\<rparr>" by (simp add: read_line_def)
  from Runlock assms(1,3) show ?thesis by (simp add: s' phase_def shown_def inside_def)
qed (use assms in \<open>auto simp: read_line_def phase_def shown_def inside_def\<close>)

text \<open>The reader of \<^verbatim>\<open>thread6.c\<close> that comes first finds nothing.\<close>

lemma read_line_before:
  assumes "before6 inp s" and "reader s \<noteq> Rnone" "reader s \<noteq> Rlock" and "read_line tid s = Some s'" and "\<not> undef s"
  shows "(undef s' \<or> before6 inp s') \<and> writer s' = writer s \<and> fmain s' = fmain s \<and> astray s' = astray s \<and>
    reader s' \<noteq> Rnone \<and> reader s \<noteq> Rdone \<and>
    rrank (reader s') + (if undef s' then 0 else 1) < rrank (reader s) + 1"
proof (cases "reader s")
  case Rread
  with assms show ?thesis by (auto simp: read_line_def before6_def stream_gets_def new_stream_def fgets_def)
qed (use assms in \<open>auto simp: read_line_def before6_def new_stream_def\<close>)

lemma fmain_ok_writer:
  "fmain_ok s \<Longrightarrow> reader s' = reader s \<Longrightarrow> fmain s' = fmain s \<Longrightarrow> writer s \<noteq> Wnone \<Longrightarrow> writer s \<noteq> Wdone \<Longrightarrow>
     writer s' \<noteq> Wnone \<Longrightarrow> fmain_ok s'"
  by (auto simp: fmain_ok_def split: fmain.splits)

lemma fmain_ok_reader:
  "fmain_ok s \<Longrightarrow> writer s' = writer s \<Longrightarrow> fmain s' = fmain s \<Longrightarrow> reader s \<noteq> Rnone \<Longrightarrow> reader s \<noteq> Rdone \<Longrightarrow>
     reader s' \<noteq> Rnone \<Longrightarrow> fmain_ok s'"
  by (auto simp: fmain_ok_def split: fmain.splits)

section \<open>\<^verbatim>\<open>thread8.c\<close> keeps its invariant\<close>

lemma t8_writer:
  assumes "t8_inv inp l s" and "thread8_schreiben s = Some s'"
  shows "t8_inv inp l s' \<and> tf_size s' < tf_size s"
proof -
  from assms(2) have w: "writer s \<noteq> Wnone" by (auto simp: thread8_schreiben_def write_line_def)
  then have "phase inp l s" "first_line inp l" "fmain_ok s" "\<not> undef s" using assms(1) by (auto simp: t8_inv_def)
  with write_line_phase [OF this(1,2)] assms(2) fmain_ok_writer [of s s'] w show ?thesis
    by (simp add: thread8_schreiben_def t8_inv_def tf_size_def)
qed

lemma t8_reader:
  assumes "t8_inv inp l s" and "thread8_lesen tid s = Some s'"
  shows "t8_inv inp l s' \<and> (if busy s then tf_size s' = tf_size s else tf_size s' < tf_size s)"
proof (cases "busy s")
  case True
  then have s': "s' = fsay ''Lese Thread wartet auf Arbeit ...\<newline>'' s" using assms(2) by (simp add: busy_def thread8_lesen_def)
  have "shown l Rlock out" for out by (simp add: shown_def)
  then have "phase inp l s \<Longrightarrow> phase inp l s'"
    using True unfolding phase_def s' by (auto simp: busy_def waits_def split: wpc.splits)
  moreover have "before8 inp s \<Longrightarrow> before8 inp s'" unfolding before8_def waits_def s' by simp
  moreover have "fmain_ok s \<Longrightarrow> fmain_ok s'" unfolding fmain_ok_def s' by (simp split: fmain.splits)
  ultimately show ?thesis using assms(1) True unfolding t8_inv_def tf_size_def s' by simp
next
  case False
  have r: "reader s \<noteq> Rnone" using assms(2) by (auto simp: thread8_lesen_def read_line_def)
  have i: "first_line inp l" "fmain_ok s" "\<not> undef s" using assms(1) by (simp_all add: t8_inv_def)
  have d: "writer s = Wdone \<and> phase inp l s"
  proof (rule ccontr)
    assume "\<not> (writer s = Wdone \<and> phase inp l s)"
    then have "waits s" using assms(1) by (cases "writer s") (auto simp: t8_inv_def before8_def phase_def)
    with r False show False by (auto simp: waits_def busy_def)
  qed
  show ?thesis
  proof (cases "reader s = Rlock")
    case True
    with False assms(2) have s': "s' = s\<lparr>locked := True, reader := Rrewind\<rparr>"
      by (auto simp: thread8_lesen_def busy_def split: if_splits)
    have "phase inp l s'" using conjunct1 [OF d] conjunct2 [OF d] True s' by (simp add: phase_def inside_def shown_def)
    with i d True False s' fmain_ok_reader [of s s'] show ?thesis by (simp add: t8_inv_def tf_size_def)
  next
    case nl: False
    with assms(2) have "read_line tid s = Some s'" by (simp add: thread8_lesen_def)
    from read_line_phase [OF conjunct2 [OF d] i(1) conjunct1 [OF d] this] fmain_ok_reader [of s s'] i d False show ?thesis
      by (simp add: t8_inv_def tf_size_def)
  qed
qed

text \<open>Steps of \<^verbatim>\<open>main\<close> do not concern the two threads.\<close>

lemma phase_goodbye:
  assumes "phase inp l s" and "writer s = Wdone" and "reader s = Rdone"
  shows "phase inp l (s\<lparr>fmain := m, fout := fout s @ ms\<rparr>)"
proof -
  from assms obtain tid pre post where "fout s = pre @ [ausgabe tid, Out l] @ post" by (auto simp: phase_def shown_def)
  then have "fout s @ ms = pre @ [ausgabe tid, Out l] @ (post @ ms)" by simp
  then have "shown l Rdone (fout s @ ms)" unfolding shown_def rpc.case by blast
  with assms show ?thesis by (simp add: phase_def)
qed

lemma phase_main [simp]: "phase inp l (s\<lparr>fmain := m\<rparr>) = phase inp l s"
  by (simp add: phase_def waits_def split: wpc.split)

lemma phase_vars [simp]:
  "phase inp l (created i n s) = phase inp l s" "phase inp l (stored b i s) = phase inp l s" "phase inp l (s\<lparr>astray := a\<rparr>) = phase inp l s"
  by (simp_all add: phase_def waits_def split: wpc.split)

lemma before_vars [simp]:
  "before8 inp (created i n s) = before8 inp s" "before8 inp (stored b i s) = before8 inp s" "before8 inp (s\<lparr>astray := a\<rparr>) = before8 inp s"
  "before6 inp (created i n s) = before6 inp s" "before6 inp (stored b i s) = before6 inp s" "before6 inp (s\<lparr>astray := a\<rparr>) = before6 inp s"
  by (simp_all add: before8_def before6_def waits_def)

lemma phase_failed [simp]: "reader s = Rnone \<Longrightarrow> phase inp l (create_failed s) = phase inp l s"
  by (simp add: phase_def waits_def shown_def create_failed_def split: wpc.split)

lemma phase_reader: "phase inp l s \<Longrightarrow> reader s = Rnone \<Longrightarrow> phase inp l (s\<lparr>reader := Rlock, fmain := m\<rparr>)"
  by (cases "writer s") (auto simp: phase_def waits_def shown_def inside_def)

lemma create_failed_simps [simp]:
  "reader (create_failed s) = reader s" "writer (create_failed s) = writer s" "fmain (create_failed s) = FMexit EXIT_FAILURE"
  "undef (create_failed s) = undef s" "astray (create_failed s) = astray s" "input (create_failed s) = input s" "fz (create_failed s) = fz s"
  "locked (create_failed s) = locked s" "rstring (create_failed s) = rstring s" "wstring (create_failed s) = wstring s"
  by (simp_all add: create_failed_def)

text \<open>What \<^verbatim>\<open>main\<close> does: a thread is created, a creation fails, a thread is joined, the end.\<close>

lemma create_join_cases:
  assumes "create_join start behind ok tid new s = Some s'" and "fmain_ok s"
  obtains (failed) i where "fmain s = FMcreate i" "i \<le> 1" "reader s = Rnone" "s' = create_failed s"
  | (create) "fmain s = FMcreate 0" "writer s = Wnone" "reader s = Rnone"
      "s' = created 0 new (s\<lparr>writer := start, fmain := FMcreate 1\<rparr>)"
  | (second) "fmain s = FMcreate 1" "writer s \<noteq> Wnone" "reader s = Rnone"
      "s' = created 1 new (s\<lparr>reader := Rlock, fmain := FMjoin 0\<rparr>)"
  | (astray) i where "fmain s = FMjoin i" "i < 2" "thread_var i s \<noteq> made s i" "s' = s\<lparr>astray := True\<rparr>"
  | (joined) i where "fmain s = FMjoin i" "i < 2" "fjoin i s" "thread_var i s = made s i"
      "s' = stored behind i (s\<lparr>fmain := FMjoin (Suc i)\<rparr>)"
  | (finished) "fmain s = FMjoin 2" "writer s = Wdone" "reader s = Rdone"
      "s' = s\<lparr>fmain := FMexit EXIT_SUCCESS, fout := fout s @ goodbye tid (thread_var 0 s, thread_var 1 s)\<rparr>"
proof (cases "fmain s")
  case (FMcreate i)
  show thesis
  proof (cases "\<not> ok")
    case True
    with FMcreate assms failed show thesis by (simp add: create_join_def fmain_ok_def)
  next
    case False
    show thesis
    proof (cases "i = 0")
      case True
      with False FMcreate assms create show thesis by (simp add: create_join_def fmain_ok_def)
    next
      case i: False
      with FMcreate assms(2) have "i = 1" by (simp add: fmain_ok_def)
      with False i FMcreate assms second show thesis by (simp add: create_join_def fmain_ok_def)
    qed
  qed
next
  case (FMjoin i)
  show thesis
  proof (cases "i < 2")
    case True
    with FMjoin assms(1) joined astray show thesis by (simp add: create_join_def split: if_splits)
  next
    case False
    with FMjoin assms(2) have "i = 2" by (simp add: fmain_ok_def)
    with FMjoin assms finished show thesis by (simp add: create_join_def fmain_ok_def)
  qed
qed (use assms in \<open>simp add: create_join_def\<close>)

lemma t8_main:
  assumes inv: "t8_inv inp l s" "\<not> astray s" and e: "thread8_main behind ok tid new s = Some s'"
  shows "t8_inv inp l s' \<and> tf_size s' < tf_size s"
proof -
  have i: "first_line inp l" "fmain_ok s" "\<not> undef s" using inv(1) by (simp_all add: t8_inv_def)
  from e [unfolded thread8_main_def] i(2) show ?thesis
  proof (cases rule: create_join_cases)
    case (failed j)
    with i inv show ?thesis by (auto simp: t8_inv_def tf_size_def fmain_ok_def before8_def waits_def)
  next
    case create
    with i inv show ?thesis by (simp add: t8_inv_def tf_size_def fmain_ok_def before8_def phase_def waits_def)
  next
    case second
    with i inv phase_reader [of inp l s] show ?thesis by (simp add: t8_inv_def tf_size_def fmain_ok_def)
  next
    case (astray j)
    then have "fmain_ok s'" using i(2) by (simp add: fmain_ok_def)
    with astray i inv show ?thesis by (simp add: t8_inv_def tf_size_def)
  next
    case (joined j)
    have "writer s \<noteq> Wnone" using i(2) joined(1) by (simp add: fmain_ok_def)
    moreover have "fmain_ok s'" using joined i(2) by (auto simp: fmain_ok_def fjoin_def less_Suc_eq numeral_2_eq_2 split: if_splits)
    ultimately show ?thesis using joined i inv by (simp add: t8_inv_def tf_size_def)
  next
    case finished
    then have "phase inp l s'" using inv phase_goodbye [of inp l s] by (simp add: t8_inv_def)
    with finished i show ?thesis by (simp add: t8_inv_def tf_size_def fmain_ok_def)
  qed
qed

lemma t8_step:
  assumes "t8_inv inp l s" and "t8_act behind a s = Some s'"
  shows "t8_inv inp l s' \<and> Suc (tf_size s') \<le> tf_size s + tf_extra a"
proof (cases a)
  case Schreiben
  with assms t8_writer [OF assms(1), of s'] show ?thesis by (simp split: if_splits)
next
  case (Lesen tid)
  with assms t8_reader [OF assms(1), of tid s'] show ?thesis by (simp split: if_splits)
next
  case (Warten tid)
  with assms t8_reader [OF assms(1), of tid s'] show ?thesis by (simp split: if_splits)
next
  case (FMain ok tid new)
  with assms have "\<not> astray s" by (simp add: over_def split: if_splits)
  with FMain assms t8_main [OF assms(1), of behind ok tid new s'] show ?thesis by (simp split: if_splits)
qed

lemma t8_progress:
  assumes "t8_inv inp l s" and "\<not> over s"
  shows "\<exists>a s'. t8_act behind a s = Some s' \<and> tf_extra a = 0"
proof -
  have i: "fmain_ok s" using assms(1) by (simp add: t8_inv_def)
  have writer: "\<exists>a s'. t8_act behind a s = Some s' \<and> tf_extra a = 0" if "writer s \<noteq> Wnone" "writer s \<noteq> Wdone"
  proof -
    have "writer s \<noteq> Wlock" using assms(1) by (auto simp: t8_inv_def phase_def)
    with that have "thread8_schreiben s \<noteq> None"
      by (cases "writer s") (simp_all add: thread8_schreiben_def write_line_def split: option.split)
    with assms(2) show ?thesis by (intro exI [of _ Schreiben]) simp
  qed
  have reader: "\<exists>a s'. t8_act behind a s = Some s' \<and> tf_extra a = 0" if "writer s = Wdone" "reader s \<noteq> Rnone" "reader s \<noteq> Rdone"
  proof -
    have nb: "\<not> busy s" using assms(1) that(1) by (auto simp: t8_inv_def phase_def busy_def inside_def)
    then have "thread8_lesen 0 s \<noteq> None"
      using that by (cases "reader s") (simp_all add: thread8_lesen_def read_line_def busy_def split: option.split prod.split)
    with assms(2) nb show ?thesis by (intro exI [of _ "Lesen 0"]) simp
  qed
  have main: "\<exists>a s'. t8_act behind a s = Some s' \<and> tf_extra a = 0" if "thread8_main behind True 0 (0, 0) s \<noteq> None"
    using that assms(2) by (intro exI [of _ "FMain True 0 (0, 0)"]) simp
  show ?thesis
  proof (cases "fmain s")
    case (FMcreate j)
    then show ?thesis using main by (simp add: thread8_main_def create_join_def)
  next
    case (FMjoin j)
    show ?thesis
    proof (cases "j < 2 \<and> \<not> fjoin j s")
      case True
      with FMjoin i writer reader show ?thesis by (cases "writer s = Wdone") (auto simp: fmain_ok_def fjoin_def split: if_splits)
    next
      case False
      with FMjoin have "thread8_main behind True 0 (0, 0) s \<noteq> None" by (auto simp: thread8_main_def create_join_def)
      then show ?thesis by (rule main)
    qed
  qed (use assms(2) in \<open>simp add: over_def\<close>)
qed

section \<open>\<^verbatim>\<open>thread6.c\<close> keeps its invariant\<close>

lemma t6_writer:
  assumes inv: "t6_inv inp l s" "\<not> undef s" "\<not> astray s" and e: "thread6_schreiben s = Some s'"
  shows "t6_inv inp l s' \<and> tf_size s' < tf_size s"
proof (cases "writer s = Wlock")
  case True
  with e have s': "s' = s\<lparr>locked := True, writer := Wprompt\<rparr>" "\<not> locked s"
    by (auto simp: thread6_schreiben_def split: if_splits)
  have i: "first_line inp l" "fmain_ok s" "before6 inp s" using inv True by (simp_all add: t6_inv_def)
  have "phase inp l s'" using i(3) s' by (auto simp: before6_def phase_def waits_def)
  with i True s' fmain_ok_writer [of s s'] show ?thesis by (simp add: t6_inv_def tf_size_def)
next
  case False
  with e have w: "write_line s = Some s'" by (simp add: thread6_schreiben_def)
  then have "writer s \<noteq> Wnone" by (auto simp: write_line_def)
  with False inv have i: "phase inp l s" "first_line inp l" "fmain_ok s" by (auto simp: t6_inv_def)
  from write_line_phase [OF i(1,2) w] fmain_ok_writer [of s s'] \<open>writer s \<noteq> Wnone\<close> i inv(2) show ?thesis
    by (simp add: t6_inv_def tf_size_def)
qed

lemma t6_reader:
  assumes inv: "t6_inv inp l s" "\<not> undef s" "\<not> astray s" and e: "thread6_lesen tid s = Some s'"
  shows "t6_inv inp l s' \<and> tf_size s' < tf_size s"
proof -
  have r: "reader s \<noteq> Rnone" using e by (auto simp: thread6_lesen_def read_line_def)
  have i: "first_line inp l" "fmain_ok s" using inv by (auto simp: t6_inv_def)
  show ?thesis
  proof (cases "writer s = Wnone \<or> writer s = Wlock")
    case early: True
    then have b: "before6 inp s" using inv by (auto simp: t6_inv_def)
    show ?thesis
    proof (cases "reader s = Rlock")
      case True
      with e have s': "s' = s\<lparr>locked := True, reader := Rrewind\<rparr>" by (auto simp: thread6_lesen_def split: if_splits)
      with b True have "before6 inp s'" by (simp add: before6_def)
      with i early True s' fmain_ok_reader [of s s'] show ?thesis by (auto simp: t6_inv_def tf_size_def)
    next
      case False
      with e have "read_line tid s = Some s'" by (simp add: thread6_lesen_def)
      from read_line_before [OF b r False this inv(2)] fmain_ok_reader [of s s'] i r early inv(2,3) show ?thesis
        by (auto simp: t6_inv_def tf_size_def split: if_splits)
    qed
  next
    case False
    then have p: "phase inp l s" using inv by (simp add: t6_inv_def)
    have d: "writer s = Wdone"
    proof (rule ccontr)
      assume "writer s \<noteq> Wdone"
      with p have "waits s" by (cases "writer s") (auto simp: phase_def)
      with r e show False by (auto simp: waits_def thread6_lesen_def)
    qed
    show ?thesis
    proof (cases "reader s = Rlock")
      case True
      with e have s': "s' = s\<lparr>locked := True, reader := Rrewind\<rparr>" by (auto simp: thread6_lesen_def split: if_splits)
      have "phase inp l s'" using p d s' by (simp add: phase_def inside_def shown_def)
      with i d True s' fmain_ok_reader [of s s'] show ?thesis by (simp add: t6_inv_def tf_size_def)
    next
      case nl: False
      with e have "read_line tid s = Some s'" by (simp add: thread6_lesen_def)
      from read_line_phase [OF p i(1) d this] fmain_ok_reader [of s s'] i d inv(2) show ?thesis
        by (simp add: t6_inv_def tf_size_def)
    qed
  qed
qed

lemma before6_main [simp]: "before6 inp (s\<lparr>fmain := m\<rparr>) = before6 inp s"
  by (simp add: before6_def)

lemma t6_main:
  assumes inv: "t6_inv inp l s" "\<not> undef s" "\<not> astray s" and e: "thread6_main after ok tid new s = Some s'"
  shows "t6_inv inp l s' \<and> tf_size s' < tf_size s"
proof -
  have i: "first_line inp l" "fmain_ok s" using inv by (auto simp: t6_inv_def)
  from e [unfolded thread6_main_def] i(2) show ?thesis
  proof (cases rule: create_join_cases)
    case (failed j)
    with i inv show ?thesis by (auto simp: t6_inv_def tf_size_def fmain_ok_def before6_def)
  next
    case create
    with i inv show ?thesis by (simp add: t6_inv_def tf_size_def fmain_ok_def before6_def)
  next
    case second
    show ?thesis
    proof (cases "writer s = Wlock")
      case True
      then have "before6 inp s" using inv by (simp add: t6_inv_def)
      with True second i show ?thesis by (simp add: t6_inv_def tf_size_def fmain_ok_def before6_def)
    next
      case False
      with second i inv phase_reader [of inp l s] show ?thesis by (simp add: t6_inv_def tf_size_def fmain_ok_def)
    qed
  next
    case (astray j)
    then have "fmain_ok s'" using i(2) by (simp add: fmain_ok_def)
    with astray i inv show ?thesis by (simp add: t6_inv_def tf_size_def)
  next
    case (joined j)
    have "fmain_ok s'" using joined i(2) by (auto simp: fmain_ok_def fjoin_def less_Suc_eq numeral_2_eq_2 split: if_splits)
    moreover have "frank (FMjoin (Suc j)) < frank (FMjoin j)" using joined by simp
    then have "tf_size s' < tf_size s" using joined unfolding tf_size_def by (simp del: frank.simps)
    ultimately show ?thesis using joined i inv by (simp add: t6_inv_def)
  next
    case finished
    then have "phase inp l s'" using inv phase_goodbye [of inp l s] by (simp add: t6_inv_def)
    with finished i show ?thesis by (simp add: t6_inv_def tf_size_def fmain_ok_def)
  qed
qed

lemma t6_step:
  assumes "t6_inv inp l s" and "t6_act after a s = Some s'"
  shows "t6_inv inp l s' \<and> tf_size s' < tf_size s"
proof -
  have u: "\<not> undef s" "\<not> astray s"
    using assms(2) by (cases a; auto simp: over_def split: if_splits)+
  show ?thesis
  proof (cases a)
    case Schreiben
    with assms t6_writer [OF assms(1) u, of s'] show ?thesis by (simp split: if_splits)
  next
    case (Lesen tid)
    with assms t6_reader [OF assms(1) u, of tid s'] show ?thesis by (simp split: if_splits)
  next
    case (FMain ok tid new)
    with assms t6_main [OF assms(1) u, of after ok tid new s'] show ?thesis by (simp split: if_splits)
  qed (use assms(2) in simp)
qed

lemma t6_progress:
  assumes "t6_inv inp l s" and "\<not> over s"
  shows "\<exists>a s'. t6_act after a s = Some s'"
proof -
  have u: "\<not> undef s" using assms(2) by (simp add: over_def)
  have i: "fmain_ok s" using assms(1) u by (simp add: t6_inv_def)
  have writer: "\<exists>a s'. t6_act after a s = Some s'" if "thread6_schreiben s \<noteq> None"
    using that assms(2) by (intro exI [of _ Schreiben]) simp
  have reader: "\<exists>a s'. t6_act after a s = Some s'" if "thread6_lesen 0 s \<noteq> None"
    using that assms(2) by (intro exI [of _ "Lesen 0"]) simp
  have main: "\<exists>a s'. t6_act after a s = Some s'" if "thread6_main after True 0 (0, 0) s \<noteq> None"
    using that assms(2) by (intro exI [of _ "FMain True 0 (0, 0)"]) simp
  have reads: "thread6_lesen 0 s \<noteq> None" if "inside (reader s)"
    using that by (cases "reader s") (simp_all add: inside_def thread6_lesen_def read_line_def split: option.split prod.split)
  show ?thesis
  proof (cases "fmain s")
    case (FMcreate j)
    then show ?thesis using main by (simp add: thread6_main_def create_join_def)
  next
    case (FMjoin j)
    then have ne: "writer s \<noteq> Wnone" "reader s \<noteq> Rnone" using i by (simp_all add: fmain_ok_def)
    show ?thesis
    proof (cases "j < 2 \<and> \<not> fjoin j s")
      case False
      with FMjoin have "thread6_main after True 0 (0, 0) s \<noteq> None" by (auto simp: thread6_main_def create_join_def)
      then show ?thesis by (rule main)
    next
      case True
      show ?thesis
      proof (cases "writer s = Wdone")
        case d: True
        then have p: "phase inp l s" using assms(1) u by (simp add: t6_inv_def)
        have "reader s \<noteq> Rdone" using True d by (auto simp: fjoin_def split: if_splits)
        with d p ne have "inside (reader s) \<or> reader s = Rlock \<and> \<not> locked s" by (cases "reader s") (auto simp: phase_def inside_def)
        with reads reader show ?thesis by (auto simp: thread6_lesen_def)
      next
        case False
        show ?thesis
        proof (cases "writer s = Wlock")
          case lock: True
          then have "before6 inp s" using assms(1) u by (simp add: t6_inv_def)
          then have "inside (reader s) \<or> \<not> locked s" by (auto simp: before6_def inside_def)
          with reads reader writer lock show ?thesis by (auto simp: thread6_schreiben_def)
        next
          case nl: False
          then have "thread6_schreiben s \<noteq> None"
            using ne False by (cases "writer s") (simp_all add: thread6_schreiben_def write_line_def split: option.split)
          then show ?thesis by (rule writer)
        qed
      qed
    qed
  qed (use assms(2) in \<open>simp add: over_def\<close>)
qed

section \<open>Properties\<close>

definition starts6 :: "string \<Rightarrow> string \<Rightarrow> tf \<Rightarrow> bool" where
  "starts6 inp l s \<longleftrightarrow> first_line inp l \<and> (\<exists>tid. thread6_start True tid inp = Inr s)"

definition starts8 :: "string \<Rightarrow> string \<Rightarrow> tf \<Rightarrow> bool" where
  "starts8 inp l s \<longleftrightarrow> first_line inp l \<and> (\<exists>tid. thread8_start True True tid inp = Inr s)"

lemma starts6_inv: "starts6 inp l s \<Longrightarrow> t6_inv inp l s"
  by (auto simp: starts6_def thread6_start_def open_file_def t6_inv_def before6_def fmain_ok_def Let_def)

lemma starts8_inv: "starts8 inp l s \<Longrightarrow> t8_inv inp l s"
  by (auto simp: starts8_def thread8_start_def t8_inv_def before8_def waits_def fmain_ok_def Let_def)

interpretation t6: terminating_protocol "t6_act after" "starts6 inp l" "t6_inv inp l" tf_size over for after inp l
  by unfold_locales (use starts6_inv t6_step t6_progress in blast)+

interpretation t8: bounded_protocol "t8_act behind" "starts8 inp l" "t8_inv inp l" tf_size over tf_extra for behind inp l
  by unfold_locales (use starts8_inv t8_step t8_progress in blast)+

text \<open>The reader has printed its heading and then the line \<open>l\<close>.\<close>

definition printed :: "string \<Rightarrow> tf \<Rightarrow> bool" where
  "printed l s \<longleftrightarrow> (\<exists>tid pre post. fout s = pre @ [ausgabe tid, Out l] @ post)"

lemma phase_printed: "phase inp l s \<Longrightarrow> writer s = Wdone \<Longrightarrow> reader s = Rdone \<Longrightarrow> printed l s"
  by (simp add: phase_def shown_def printed_def)

text \<open>
  If none of the cells that the joins overwrite belongs to one of the identities, these stay what they were.
\<close>

definition spares_ids :: "cell \<Rightarrow> bool" where
  "spares_ids c = (case c of Low j \<Rightarrow> False | High j \<Rightarrow> False | _ \<Rightarrow> True)"

definition harmless :: "(nat \<Rightarrow> cell) \<Rightarrow> bool" where
  "harmless behind \<longleftrightarrow> spares_ids (behind 0) \<and> spares_ids (behind 1)"

definition ids_inv :: "tf \<Rightarrow> bool" where
  "ids_inv s \<longleftrightarrow> \<not> astray s \<and>
     (case fmain s of
        FMcreate i \<Rightarrow> i \<le> 1 \<and> (\<forall>j < i. thread_var j s = made s j)
      | FMjoin i \<Rightarrow> \<forall>j < 2. thread_var j s = made s j
      | FMexit c \<Rightarrow> c = EXIT_SUCCESS \<longrightarrow> (\<exists>tid. suffix (goodbye tid (made s 0, made s 1)) (fout s)))"

lemma write_line_vars: "write_line s = Some s' \<Longrightarrow> cells s' = cells s \<and> made s' = made s \<and> fmain s' = fmain s \<and> astray s' = astray s"
  by (auto simp: write_line_def fsay_def split: wpc.splits option.splits prod.splits)

lemma read_line_vars: "read_line tid s = Some s' \<Longrightarrow> cells s' = cells s \<and> made s' = made s \<and> fmain s' = fmain s \<and> astray s' = astray s"
  by (auto simp: read_line_def fsay_def split: rpc.splits option.splits prod.splits)

lemma ids_inv_same:
  "ids_inv s \<Longrightarrow> \<not> over s \<Longrightarrow> cells s' = cells s \<Longrightarrow> made s' = made s \<Longrightarrow> fmain s' = fmain s \<Longrightarrow> astray s' = astray s \<Longrightarrow> ids_inv s'"
  by (auto simp: ids_inv_def thread_var_def over_def split: fmain.splits)

lemma ids_step:
  assumes b: "harmless behind" and inv: "ids_inv s" and e: "t8_act behind a s = Some s'"
  shows "ids_inv s'"
proof -
  have o: "\<not> over s" using e by (cases a) (auto split: if_splits)
  have sp: "Low j \<noteq> behind i" "High j \<noteq> behind i" if "i < 2" for i j
    using b that by (auto simp: harmless_def spares_ids_def less_2_cases_iff split: cell.splits)
  show ?thesis
  proof (cases a)
    case Schreiben
    with e o write_line_vars [of s s'] ids_inv_same [OF inv o] show ?thesis by (simp add: thread8_schreiben_def)
  next
    case (Lesen tid)
    with e o read_line_vars [of tid s s'] ids_inv_same [OF inv o, of s'] show ?thesis
      by (auto simp: thread8_lesen_def fsay_def split: if_splits)
  next
    case (Warten tid)
    with e o read_line_vars [of tid s s'] ids_inv_same [OF inv o, of s'] show ?thesis
      by (auto simp: thread8_lesen_def fsay_def split: if_splits)
  next
    case (FMain ok tid new)
    with e o have m: "create_join Wprompt behind ok tid new s = Some s'" by (simp add: thread8_main_def)
    show ?thesis
    proof (cases "fmain s")
      case (FMcreate i)
      then show ?thesis using m inv
        by (auto simp: create_join_def ids_inv_def create_failed_def created_def thread_var_def less_Suc_eq less_2_cases_iff split: if_splits)
    next
      case (FMjoin i)
      show ?thesis
      proof (cases "i < 2")
        case True
        with m FMjoin inv have s': "s' = stored behind i (s\<lparr>fmain := FMjoin (Suc i)\<rparr>)"
          by (auto simp: create_join_def ids_inv_def split: if_splits)
        show ?thesis using inv FMjoin sp [OF True] by (auto simp: s' ids_inv_def thread_var_def stored_def)
      next
        case False
        with m FMjoin have s': "s' = s\<lparr>fmain := FMexit EXIT_SUCCESS, fout := fout s @ goodbye tid (thread_var 0 s, thread_var 1 s)\<rparr>"
          by (simp add: create_join_def)
        have "suffix (goodbye tid (made s 0, made s 1)) (fout s')"
          using inv FMjoin by (simp add: s' ids_inv_def suffix_def)
        then show ?thesis using inv by (auto simp: s' ids_inv_def)
      qed
    qed (use o in \<open>simp add: over_def\<close>)
  qed
qed

interpretation t8_ids: protocol "t8_act behind" "\<lambda>s. harmless behind \<and> starts8 inp l s" "\<lambda>s. harmless behind \<and> ids_inv s"
  for behind inp l
proof unfold_locales
  fix s show "harmless behind \<and> starts8 inp l s \<Longrightarrow> harmless behind \<and> ids_inv s"
    by (auto simp: starts8_def thread8_start_def ids_inv_def Let_def)
  fix a s s' show "harmless behind \<and> ids_inv s \<Longrightarrow> t8_act behind a s = Some s' \<Longrightarrow> harmless behind \<and> ids_inv s'"
    using ids_step by blast
qed

text \<open>
  C23: the handover of \<^verbatim>\<open>thread8\<close>: under every schedule the program comes to its end, in at most 19
  steps besides the reader's failed attempts to lock the mutex, never uses a line that was not
  read, and when it ends with success the reader has printed the line that was typed. The eight bytes that
  each \<^verbatim>\<open>pthread_join\<close> stores at an \<^verbatim>\<open>int\<close> also overwrite the four bytes behind it: if none of these belongs to
  a variable with an identity, \<^verbatim>\<open>main\<close> joins the right threads and in the end prints their identities. Otherwise
  the second join may get a wrong identity (\<open>astray\<close>, where the run ends too).
\<close>

theorem thread8_handover:
  assumes "thread8_start True True tid inp = Inr s0" and "fgets LINEBUF inp = Some (l, r)" and "run (t8_act behind) as s0 = Some s"
  shows "length as \<le> 19 + length (filter (\<lambda>a. tf_extra a \<noteq> 0) as) \<and> \<not> undef s \<and>
    (over s \<or> (\<exists>a s'. t8_act behind a s = Some s' \<and> tf_extra a = 0)) \<and>
    (fmain s = FMexit EXIT_SUCCESS \<longrightarrow> printed l s) \<and>
    (harmless behind \<longrightarrow> \<not> astray s \<and>
      (fmain s = FMexit EXIT_SUCCESS \<longrightarrow> (\<exists>tid. suffix (goodbye tid (made s 0, made s 1)) (fout s))))"
proof -
  have st: "starts8 inp l s0" using assms(1,2) by (auto simp: starts8_def first_line_def)
  then have init: "t8_inv inp l s0" by (rule starts8_inv)
  have "tf_size s0 = 19" using assms(1) by (auto simp: thread8_start_def tf_size_def Let_def)
  moreover have "sum_list (map tf_extra xs) = length (filter (\<lambda>a. tf_extra a \<noteq> 0) xs)" for xs
  proof (induction xs)
    case (Cons a xs)
    then show ?case by (cases a) simp_all
  qed simp
  ultimately have "length as \<le> 19 + length (filter (\<lambda>a. tf_extra a \<noteq> 0) as)" using t8.run_paid [OF init assms(3)] by simp
  moreover have inv: "t8_inv inp l s" by (rule t8.run_keeps [OF init assms(3)])
  moreover have "over s \<or> (\<exists>a s'. t8_act behind a s = Some s' \<and> tf_extra a = 0)" using t8.advance [OF inv] by blast
  moreover have "printed l s" if "fmain s = FMexit EXIT_SUCCESS"
    using inv that phase_printed [of inp l s] by (auto simp: t8_inv_def fmain_ok_def split: if_splits)
  moreover have "harmless behind \<longrightarrow> \<not> astray s \<and>
      (fmain s = FMexit EXIT_SUCCESS \<longrightarrow> (\<exists>tid. suffix (goodbye tid (made s 0, made s 1)) (fout s)))"
  proof
    assume "harmless behind"
    with t8_ids.always [OF run_reach [OF assms(3)]] st have "ids_inv s" by blast
    then show "\<not> astray s \<and> (fmain s = FMexit EXIT_SUCCESS \<longrightarrow> (\<exists>tid. suffix (goodbye tid (made s 0, made s 1)) (fout s)))"
      by (auto simp: ids_inv_def simp del: One_nat_def)
  qed
  ultimately show ?thesis unfolding t8_inv_def by blast
qed

abbreviation (input) schedule8 :: "tf_act list" where
  "schedule8 \<equiv> [FMain True 1 (2, 7), FMain True 1 (3, 7), Warten 3, Schreiben, Schreiben, Schreiben, Schreiben,
     Lesen 3, Lesen 3, Lesen 3, Lesen 3, Lesen 3, Lesen 3, FMain True 1 (0, 0), FMain True 1 (0, 0), FMain True 1 (0, 0)]"

lemmas evaluate8 = thread8_start_def over_def busy_def thread8_main_def create_join_def created_def stored_def thread_var_def
  fjoin_def thread8_lesen_def read_line_def thread8_schreiben_def write_line_def fsay_def stream_gets_def stream_puts_def
  new_stream_def

theorem thread8_handover_witness:
  "\<exists>s0 s. thread8_start True True 1 ''Hallo\<newline>'' = Inr s0 \<and> run (t8_act (\<lambda>i. Other i)) schedule8 s0 = Some s \<and>
     fmain s = FMexit EXIT_SUCCESS \<and> printed ''Hallo\<newline>'' s \<and> (\<exists>tid. suffix (goodbye tid (made s 0, made s 1)) (fout s))"
proof -
  define s0 where "s0 = (case thread8_start True True 1 ''Hallo\<newline>'' of Inr s \<Rightarrow> s)"
  have 1: "thread8_start True True 1 ''Hallo\<newline>'' = Inr s0" unfolding s0_def by (simp add: thread8_start_def Let_def)
  have g: "fgets LINEBUF ''Hallo\<newline>'' = Some (''Hallo\<newline>'', [])" by code_simp
  have "leads (t8_act (\<lambda>i. Other i)) schedule8 s0 (\<lambda>s. fmain s = FMexit EXIT_SUCCESS)"
    by (simp add: leads_def s0_def evaluate8 g)
  then obtain s where 2: "run (t8_act (\<lambda>i. Other i)) schedule8 s0 = Some s" and e: "fmain s = FMexit EXIT_SUCCESS"
    by (auto simp: leads_def split: option.splits)
  have h: "harmless (\<lambda>i. Other i)" by (simp add: harmless_def spares_ids_def)
  from thread8_handover [OF 1 g 2] h e 1 2 show ?thesis by blast
qed

text \<open>
  If \<^verbatim>\<open>thread2\<close> lies behind \<^verbatim>\<open>ret1\<close>, the first join destroys the identity that the second one needs.
\<close>

lemma thread8_astray:
  "case thread8_start True True 1 ''Hallo\<newline>'' of
     Inl e \<Rightarrow> False
   | Inr s0 \<Rightarrow> leads (t8_act (\<lambda>i. Low 1)) [FMain True 1 (2, 7), FMain True 1 (3, 7), Schreiben, Schreiben, Schreiben, Schreiben,
       FMain True 1 (0, 0), FMain True 1 (0, 0)] s0 (\<lambda>s. astray s \<and> over s)"
proof -
  have "fgets LINEBUF ''Hallo\<newline>'' = Some (''Hallo\<newline>'', [])" by code_simp
  then show ?thesis by (simp add: leads_def evaluate8)
qed

text \<open>
  The mutex of \<^verbatim>\<open>thread6\<close> does not order the threads: every schedule ends after at most 19 steps, and
  a success means that the typed line was printed; but if the reader locks the mutex first, it
  finds an empty file and prints a buffer that was never written.
\<close>

theorem thread6_outcomes:
  assumes "thread6_start True tid inp = Inr s0" and "fgets LINEBUF inp = Some (l, r)"
  shows "(\<forall>as s. run (t6_act after) as s0 = Some s \<longrightarrow> length as \<le> 19 \<and> (over s \<or> (\<exists>a s'. t6_act after a s = Some s')) \<and>
      (\<not> undef s \<and> fmain s = FMexit EXIT_SUCCESS \<longrightarrow> printed l s)) \<and>
    (\<exists>as s. run (t6_act after) as s0 = Some s \<and> undef s)"
proof (intro conjI allI impI)
  have "starts6 inp l s0" using assms by (auto simp: starts6_def first_line_def)
  then have init: "t6_inv inp l s0" by (rule starts6_inv)
  have size: "tf_size s0 = 19" using assms(1) by (auto simp: thread6_start_def open_file_def tf_size_def Let_def)
  fix as s assume r: "run (t6_act after) as s0 = Some s"
  show "length as \<le> 19" using t6.run_bound [OF init r] size by simp
  have inv: "t6_inv inp l s" by (rule t6.bounded.run_keeps [OF init r])
  show "over s \<or> (\<exists>a s'. t6_act after a s = Some s')" using t6.progress [OF inv] by blast
  show "printed l s" if "\<not> undef s \<and> fmain s = FMexit EXIT_SUCCESS"
    using inv that phase_printed [of inp l s] by (auto simp: t6_inv_def fmain_ok_def split: if_splits)
next
  let ?as = "[FMain True 1 (2, 7), FMain True 1 (3, 7), Lesen 3, Lesen 3, Lesen 3, Lesen 3, Lesen 3]"
  have "\<exists>s. run (t6_act after) ?as s0 = Some s \<and> undef s"
    using assms(1)
    by (auto simp: thread6_start_def open_file_def Let_def over_def thread6_main_def create_join_def thread6_lesen_def
        read_line_def stream_gets_def fgets_def new_stream_def)
  then show "\<exists>as s. run (t6_act after) as s0 = Some s \<and> undef s" by blast
qed

theorem thread6_outcomes_witness:
  "\<exists>s0 as s. thread6_start True 1 ''Hallo\<newline>'' = Inr s0 \<and> run (t6_act after) as s0 = Some s \<and> undef s"
proof -
  define s0 where "s0 = (case thread6_start True 1 ''Hallo\<newline>'' of Inr s \<Rightarrow> s)"
  have 1: "thread6_start True 1 ''Hallo\<newline>'' = Inr s0" unfolding s0_def by (simp add: thread6_start_def open_file_def Let_def)
  have "fgets LINEBUF ''Hallo\<newline>'' = Some (''Hallo\<newline>'', [])" by code_simp
  from thread6_outcomes [OF 1 this] 1 show ?thesis by blast
qed

end
