(* ===== verification/FileAttr.thy ===== *)
theory FileAttr
  imports CString
begin

unbundle bit_operations_syntax

text \<open>
  \<^verbatim>\<open>src/03_Attributes\<close>: \<^verbatim>\<open>my_stat.c\<close> lists the files of the working directory with their type and
  access rights, \<^verbatim>\<open>my_link.c\<close> counts the links of a file while it creates a hard and a symbolic one.
  \<^verbatim>\<open>e\<close> is the text of \<^verbatim>\<open>strerror(errno)\<close>.
\<close>

section \<open>\<^verbatim>\<open>my_stat.c\<close>\<close>

type_synonym mode = "32 word"

abbreviation (input) S_IFMT :: mode where "S_IFMT \<equiv> 0xF000"
abbreviation (input) S_IFREG :: mode where "S_IFREG \<equiv> 0x8000"
abbreviation (input) S_IFDIR :: mode where "S_IFDIR \<equiv> 0x4000"
abbreviation (input) S_IFCHR :: mode where "S_IFCHR \<equiv> 0x2000"
abbreviation (input) S_IFBLK :: mode where "S_IFBLK \<equiv> 0x6000"
abbreviation (input) S_IFIFO :: mode where "S_IFIFO \<equiv> 0x1000"

definition rwx :: string where
  "rwx = ''rwxrwxrwx''"

definition bits :: "mode list" where
  "bits = [0x100, 0x80, 0x40, 0x20, 0x10, 0x8, 0x4, 0x2, 0x1]"

definition dateiart :: "mode \<Rightarrow> string" where
  "dateiart m =
     (if m AND S_IFMT = S_IFREG then ''Regulaere Datei               : ''
      else if m AND S_IFMT = S_IFDIR then ''Verzeichnis                  : ''
      else if m AND S_IFMT = S_IFCHR then ''Zeichenorient. Geraetedatei:  : ''
      else if m AND S_IFMT = S_IFBLK then ''Blockorient. Geraetedatei     : ''
      else if m AND S_IFMT = S_IFIFO then ''FIFO oder named Pipe         : ''
      else ''Unbekanne Datei              : '')"

text \<open>The loop over the nine bits: the array \<^verbatim>\<open>l_rwx\<close> after the steps from \<open>i\<close> on.\<close>

function rights_loop :: "mode \<Rightarrow> nat \<Rightarrow> string \<Rightarrow> string" where
  "rights_loop m i l_rwx =
     (if i < 9 then rights_loop m (Suc i) (l_rwx[i := if m AND bits ! i \<noteq> 0 then rwx ! i else CHR ''-''])
      else l_rwx)"
  by pat_completeness auto
termination by (relation "measure (\<lambda>(m, i, a). 9 - i)") auto

declare rights_loop.simps [simp del]

definition rights :: "mode \<Rightarrow> string \<Rightarrow> string" where
  "rights m l_rwx = cstr ((rights_loop m 0 (l_rwx[0 := NUL]))[9 := NUL])"

definition pad_right :: "nat \<Rightarrow> string \<Rightarrow> string" where
  "pad_right n t = t @ replicate (n - length t) SPC"

text \<open>The main loop; an entry is its name and the mode \<^verbatim>\<open>stat\<close> returns, or \<open>None\<close> when it fails.\<close>

fun stat_loop :: "string \<Rightarrow> string \<Rightarrow> (string \<times> mode option) list \<Rightarrow> say list \<Rightarrow> int \<times> say list" where
  "stat_loop e l_rwx [] out = (EXIT_SUCCESS, out)"
| "stat_loop e l_rwx ((name, st) # es) out =
     (case st of
        None \<Rightarrow> (EXIT_FAILURE, out @ [Err (''Fehler bei stat: '' @ e @ ''\<newline>'')])
      | Some m \<Rightarrow> stat_loop e l_rwx es
          (out @ [Out (dateiart m), Out (pad_right 20 name @ '' [''), Out (rights m (l_rwx[9 := NUL]) @ '']\<newline>'')]))"

definition my_stat_main :: "string \<Rightarrow> string \<Rightarrow> (string \<times> mode option) list option \<Rightarrow> int \<times> say list" where
  "my_stat_main e l_rwx dir =
     (case dir of
        None \<Rightarrow> (EXIT_FAILURE, [Err (''Fehler bei opendir: '' @ e @ ''\<newline>'')])
      | Some es \<Rightarrow> stat_loop e l_rwx es [])"

section \<open>\<^verbatim>\<open>my_link.c\<close>\<close>

text \<open>
  A directory of hard links to inodes and of symbolic links, and the link counts. \<^verbatim>\<open>stat\<close> follows
  symbolic links, at most 40 of them.
\<close>

datatype entry = Inode nat | Symlink string

record links =
  names :: "string \<rightharpoonup> entry"
  nlink :: "nat \<Rightarrow> nat"

fun resolve :: "nat \<Rightarrow> (string \<rightharpoonup> entry) \<Rightarrow> string \<Rightarrow> nat option" where
  "resolve 0 d name = None"
| "resolve (Suc n) d name =
     (case d name of None \<Rightarrow> None | Some (Inode i) \<Rightarrow> Some i | Some (Symlink t) \<Rightarrow> resolve n d t)"

definition sys_stat :: "string \<Rightarrow> links \<Rightarrow> nat option" where
  "sys_stat name fs = map_option (nlink fs) (resolve 41 (names fs) name)"

definition sys_link :: "string \<Rightarrow> string \<Rightarrow> links \<Rightarrow> int \<times> links" where
  "sys_link old new fs =
     (case (names fs old, names fs new) of
        (Some (Inode i), None) \<Rightarrow> (0, fs\<lparr>names := (names fs)(new \<mapsto> Inode i), nlink := (nlink fs)(i := Suc (nlink fs i))\<rparr>)
      | (Some (Symlink t), None) \<Rightarrow> (0, fs\<lparr>names := (names fs)(new \<mapsto> Symlink t)\<rparr>)
      | _ \<Rightarrow> (-1, fs))"

definition sys_symlink :: "string \<Rightarrow> string \<Rightarrow> links \<Rightarrow> int \<times> links" where
  "sys_symlink target new fs =
     (if names fs new = None then (0, fs\<lparr>names := (names fs)(new \<mapsto> Symlink target)\<rparr>) else (-1, fs))"

definition sys_unlink :: "string \<Rightarrow> links \<Rightarrow> links" where
  "sys_unlink name fs =
     (case names fs name of
        None \<Rightarrow> fs
      | Some (Inode i) \<Rightarrow> fs\<lparr>names := (names fs)(name := None), nlink := (nlink fs)(i := nlink fs i - 1)\<rparr>
      | Some (Symlink t) \<Rightarrow> fs\<lparr>names := (names fs)(name := None)\<rparr>)"

definition HARD_LINK :: string where "HARD_LINK = ''hard_link''"
definition SYM_LINK :: string where "SYM_LINK = ''sym_link''"

definition attribute :: "string \<Rightarrow> string \<Rightarrow> links \<Rightarrow> int \<times> say list" where
  "attribute e name fs =
     (case sys_stat name fs of
        None \<Rightarrow> (-1, [Err (''Fehler bei stat: '' @ e @ ''\<newline>'')])
      | Some n \<Rightarrow> (1, [Out (''Anzahl Links  : '' @ show_nat n @ ''\<newline>'')]))"

text \<open>\<^verbatim>\<open>readlink\<close> of the symbolic link, of which \<^verbatim>\<open>printf\<close> shows at most 255 characters.\<close>

definition link_target :: "links \<Rightarrow> string" where
  "link_target fs = (case names fs SYM_LINK of Some (Symlink t) \<Rightarrow> take 255 t | _ \<Rightarrow> [])"

definition my_link_main :: "string \<Rightarrow> string list \<Rightarrow> links \<Rightarrow> int \<times> say list \<times> links" where
  "my_link_main e argv fs =
     (if length argv < 2 then (EXIT_FAILURE, [Out (''usage: '' @ concat (take 1 argv) @ '' datei\<newline>'')], fs)
      else
        (let ptr = argv ! 1; (r1, o1) = attribute e ptr fs in
         if r1 < 0 then (EXIT_FAILURE, o1, fs)
         else
           (let (l, fs1) = sys_link ptr HARD_LINK fs in
            if l = -1 then (EXIT_FAILURE, o1 @ [Out ''Konnte keinen Hardlink erzeugen\<newline>''], fs1)
            else
              (let o2 = o1 @ [Out ''Nach dem Aufruf fon link()\<newline>'']; (r2, o3) = attribute e ptr fs1 in
               if r2 < 0 then (EXIT_FAILURE, o2 @ o3, fs1)
               else
                 (let (l2, fs2) = sys_symlink ptr SYM_LINK fs1 in
                  if l2 = -1 then (EXIT_FAILURE, o2 @ o3 @ [Out ''Konnte keinen symlink erstellen\<newline>''], fs2)
                  else
                    (let o4 = o2 @ o3 @ [Out ''Nach dem Funktionsaufruf von symlink()\<newline>'']; (r3, o5) = attribute e ptr fs2 in
                     if r3 < 0 then (EXIT_FAILURE, o4 @ o5, fs2)
                     else (EXIT_SUCCESS, o4 @ o5 @
                       [Out (''Der symbolische Link \"'' @ SYM_LINK @ ''\" zeigt auf \"'' @ link_target fs2 @ ''\"\<newline>'')],
                       sys_unlink SYM_LINK (sys_unlink HARD_LINK fs2))))))))"

section \<open>Access rights\<close>

lemma and_single_bit:
  fixes m :: mode
  assumes "m AND 2 ^ k \<noteq> 0" and "k < 32"
  shows "m AND 2 ^ k = 2 ^ k"
proof -
  have "bit m k"
  proof (rule ccontr)
    assume "\<not> bit m k"
    then have "m AND 2 ^ k = 0" by (intro bit_word_eqI) (auto simp: bit_simps)
    with assms(1) show False by simp
  qed
  with assms(2) show ?thesis by (intro bit_word_eqI) (auto simp: bit_simps)
qed

text \<open>The mode that a string of rights describes.\<close>

fun read_rights :: "string \<Rightarrow> mode list \<Rightarrow> mode" where
  "read_rights (c # cs) (b # bs) = (if c \<noteq> CHR ''-'' then b else 0) OR read_rights cs bs"
| "read_rights _ _ = 0"

definition rights_string :: "mode \<Rightarrow> string" where
  "rights_string m = map (\<lambda>(c, b). if m AND b \<noteq> 0 then c else CHR ''-'') (zip rwx bits)"

lemma rights_loop_works:
  assumes "length a = 10"
  shows "rights_loop m 0 a = rights_string m @ drop 9 a"
proof -
  obtain x0 x1 x2 x3 x4 x5 x6 x7 x8 x9 where a: "a = [x0, x1, x2, x3, x4, x5, x6, x7, x8, x9]"
    using assms by (auto simp: length_Suc_conv eval_nat_numeral)
  show ?thesis
    unfolding a rights_string_def rwx_def bits_def
    by (simp add: rights_loop.simps rwx_def bits_def)
qed

lemma rights_string_facts: "no_nul (rights_string m)" "length (rights_string m) = 9"
  by (simp_all add: rights_string_def rwx_def bits_def)

lemma rights_works:
  assumes "length a = 10"
  shows "rights m (a[9 := NUL]) = rights_string m"
proof -
  have "rights_loop m 0 (((a[9 := NUL])[0 := NUL])) = rights_string m @ drop 9 ((a[9 := NUL])[0 := NUL])"
    using assms by (intro rights_loop_works) simp
  moreover have "drop 9 ((a[9 := NUL])[0 := NUL]) = [NUL]"
    using assms by (simp add: drop_update_swap) (simp add: length_Suc_conv eval_nat_numeral; auto)
  ultimately show ?thesis
    using rights_string_facts [of m] by (simp add: rights_def list_update_append)
qed

lemma single_bits:
  "m AND b \<noteq> 0 \<Longrightarrow> b \<in> set bits \<Longrightarrow> m AND b = b"
  using and_single_bit [of m 8] and_single_bit [of m 7] and_single_bit [of m 6] and_single_bit [of m 5] and_single_bit [of m 4]
    and_single_bit [of m 3] and_single_bit [of m 2] and_single_bit [of m 1] and_single_bit [of m 0]
  by (auto simp: bits_def)

lemma read_back:
  "set bs \<subseteq> set bits \<Longrightarrow> length cs = length bs \<Longrightarrow> CHR ''-'' \<notin> set cs \<Longrightarrow>
     read_rights (map (\<lambda>(c, b). if m AND b \<noteq> 0 then c else CHR ''-'') (zip cs bs)) bs = m AND foldr (OR) bs 0"
proof (induction bs arbitrary: cs)
  case (Cons b bs)
  then obtain c cs' where cs: "cs = c # cs'" by (cases cs) auto
  have "m AND b \<noteq> 0 \<Longrightarrow> m AND b = b" using single_bits [of m b] Cons.prems(1) by simp
  with Cons cs show ?case by (auto simp: bit.conj_disj_distrib)
qed simp

lemma stat_loop_lists:
  assumes "length a = 10"
  shows "stat_loop e a (map (\<lambda>(n, m). (n, Some m)) fs) out =
    (EXIT_SUCCESS, out @ concat (map (\<lambda>(n, m).
       [Out (dateiart m), Out (pad_right 20 n @ '' [''), Out (rights_string m @ '']\<newline>'')]) fs))"
  by (induction fs arbitrary: out) (auto simp: rights_works [OF assms])

text \<open>
  \<^verbatim>\<open>my_stat\<close>: if every file of the directory can be examined, the program prints for each of them,
  in order, its type, its name and its rights, whatever the array held before; and the nine
  characters of the rights are the nine low bits of the mode, which can be read back from them.
\<close>

theorem my_stat_lists:
  assumes "length l_rwx = 10"
  shows "my_stat_main e l_rwx (Some (map (\<lambda>(n, m). (n, Some m)) fs)) =
      (EXIT_SUCCESS, concat (map (\<lambda>(n, m).
         [Out (dateiart m), Out (pad_right 20 n @ '' [''), Out (rights_string m @ '']\<newline>'')]) fs)) \<and>
    rights m (l_rwx[9 := NUL]) = rights_string m \<and> read_rights (rights_string m) bits = m AND 0x1FF"
proof -
  have "foldr (OR) bits 0 = 0x1FF" by (simp add: bits_def)
  moreover have "length rwx = length bits" "CHR ''-'' \<notin> set rwx" by (simp_all add: rwx_def bits_def)
  ultimately have "read_rights (rights_string m) bits = m AND 0x1FF"
    using read_back [of bits rwx m] by (simp add: rights_string_def)
  with stat_loop_lists [OF assms, of e fs "[]"] rights_works [OF assms, of m] show ?thesis
    by (simp add: my_stat_main_def)
qed

theorem my_stat_lists_witness:
  "my_stat_main [] (replicate 10 CHR ''?'') (Some [(''a.out'', Some 0x81ED)]) =
     (EXIT_SUCCESS, [Out ''Regulaere Datei               : '', Out ''a.out                ['', Out ''rwxr-xr-x]\<newline>'']) \<and>
   read_rights ''rwxr-xr-x'' bits = 0x1ED"
proof -
  have r: "rights_string 0x81ED = ''rwxr-xr-x''" by code_simp
  have "dateiart 0x81ED = ''Regulaere Datei               : ''" "pad_right 20 ''a.out'' @ '' ['' = ''a.out                [''" by code_simp+
  with r my_stat_lists [of "replicate 10 CHR ''?''" "[]" "[(''a.out'', 0x81ED)]" "0x81ED"] show ?thesis by simp
qed

section \<open>Links\<close>

lemma stat_file: "names fs f = Some (Inode i) \<Longrightarrow> sys_stat f fs = Some (nlink fs i)"
  by (simp add: sys_stat_def numeral_eq_Suc)

text \<open>
  \<^verbatim>\<open>my_link\<close> for a file with \<open>n\<close> links: it reports \<open>n\<close>, then \<open>n + 1\<close> behind the hard link and still
  \<open>n + 1\<close> behind the symbolic one, shows where that points to and leaves the directory and the link
  counts as they were; but if the symbolic link cannot be created, the hard link stays behind.
\<close>

theorem my_link_counts:
  assumes "names fs f = Some (Inode i)" and "names fs HARD_LINK = None" and "length f \<le> 255"
  shows "my_link_main e [prog, f] fs =
    (let n1 = Out (''Anzahl Links  : '' @ show_nat (Suc (nlink fs i)) @ ''\<newline>'');
         out = [Out (''Anzahl Links  : '' @ show_nat (nlink fs i) @ ''\<newline>''), Out ''Nach dem Aufruf fon link()\<newline>'', n1] in
     if names fs SYM_LINK = None then
       (EXIT_SUCCESS, out @ [Out ''Nach dem Funktionsaufruf von symlink()\<newline>'', n1,
          Out (''Der symbolische Link \"'' @ SYM_LINK @ ''\" zeigt auf \"'' @ f @ ''\"\<newline>'')], fs)
     else (EXIT_FAILURE, out @ [Out ''Konnte keinen symlink erstellen\<newline>''],
       fs\<lparr>names := (names fs)(HARD_LINK \<mapsto> Inode i), nlink := (nlink fs)(i := Suc (nlink fs i))\<rparr>))"
proof -
  have ne: "f \<noteq> HARD_LINK" using assms(1,2) by auto
  have hs: "HARD_LINK \<noteq> SYM_LINK" "SYM_LINK \<noteq> HARD_LINK" by (simp_all add: HARD_LINK_def SYM_LINK_def)
  show ?thesis
  proof (cases "names fs SYM_LINK")
    case None
    then have "f \<noteq> SYM_LINK" using assms(1) by auto
    with None ne hs assms show ?thesis
      by (simp add: my_link_main_def attribute_def stat_file sys_link_def sys_symlink_def sys_unlink_def link_target_def
          Let_def fun_upd_twist fun_upd_idem)
  next
    case (Some x)
    with ne hs assms show ?thesis
      by (simp add: my_link_main_def attribute_def stat_file sys_link_def sys_symlink_def Let_def)
  qed
qed

theorem my_link_counts_witness:
  "\<exists>out. my_link_main [] [''my_link'', ''f''] \<lparr>names = [''f'' \<mapsto> Inode 7], nlink = (\<lambda>i. 1)\<rparr> =
     (EXIT_SUCCESS, out, \<lparr>names = [''f'' \<mapsto> Inode 7], nlink = (\<lambda>i. 1)\<rparr>) \<and> last out = Out ''Der symbolische Link \"sym_link\" zeigt auf \"f\"\<newline>''"
  using my_link_counts [of "\<lparr>names = [''f'' \<mapsto> Inode 7], nlink = (\<lambda>i. 1)\<rparr>" "''f''" 7 "[]" "''my_link''"]
  by (simp add: HARD_LINK_def SYM_LINK_def Let_def)

end
