(* ===== verification/Inet.thy ===== *)
theory Inet
  imports CString
begin

unbundle bit_operations_syntax

text \<open>
  \<^verbatim>\<open>src/11_Network/addr.c\<close>: an IP address is taken apart into its network and its local part, by the
  classes A, B and C, and put together again. The functions of the C library follow their
  documentation: an address is a 32-bit word in network byte order, read on a little-endian
  machine. What \<^verbatim>\<open>inet_aton\<close> makes of the argument is a parameter.
\<close>

section \<open>The functions of the library\<close>

type_synonym addr = "32 word"

definition ntohl :: "addr \<Rightarrow> addr" where
  "ntohl w = push_bit 24 w OR (push_bit 8 (w AND 0xFF00)) OR (drop_bit 8 w AND 0xFF00) OR drop_bit 24 w"

abbreviation (input) htonl :: "addr \<Rightarrow> addr" where "htonl \<equiv> ntohl"

text \<open>The class of an address in host byte order.\<close>

definition class_a :: "addr \<Rightarrow> bool" where
  "class_a h \<longleftrightarrow> h AND 0x80000000 = 0"

definition class_b :: "addr \<Rightarrow> bool" where
  "class_b h \<longleftrightarrow> h AND 0xC0000000 = 0x80000000"

definition inet_netof :: "addr \<Rightarrow> addr" where
  "inet_netof ip =
     (let h = ntohl ip in
      if class_a h then drop_bit 24 (h AND 0xFF000000)
      else if class_b h then drop_bit 16 (h AND 0xFFFF0000)
      else drop_bit 8 (h AND 0xFFFFFF00))"

definition inet_lnaof :: "addr \<Rightarrow> addr" where
  "inet_lnaof ip =
     (let h = ntohl ip in
      if class_a h then h AND 0x00FFFFFF else if class_b h then h AND 0x0000FFFF else h AND 0x000000FF)"

definition inet_makeaddr :: "addr \<Rightarrow> addr \<Rightarrow> addr" where
  "inet_makeaddr net host =
     htonl (if net < 128 then push_bit 24 net OR (host AND 0x00FFFFFF)
            else if net < 65536 then push_bit 16 net OR (host AND 0x0000FFFF)
            else if net < 16777216 then push_bit 8 net OR (host AND 0x000000FF)
            else net OR host)"

definition show_word :: "addr \<Rightarrow> string" where
  "show_word w = show_nat (unat w)"

definition inet_ntoa :: "addr \<Rightarrow> string" where
  "inet_ntoa ip =
     (let h = ntohl ip in
      show_word (drop_bit 24 h) @ ''.'' @ show_word (drop_bit 16 h AND 0xFF) @ ''.'' @
      show_word (drop_bit 8 h AND 0xFF) @ ''.'' @ show_word (h AND 0xFF))"

section \<open>The program\<close>

definition pad_left :: "nat \<Rightarrow> string \<Rightarrow> string" where
  "pad_left n t = replicate (n - length t) SPC @ t"

definition ip_adressen :: "string \<Rightarrow> addr option \<Rightarrow> say list" where
  "ip_adressen ip_addr aton =
     (case aton of
        None \<Rightarrow> []
      | Some ip \<Rightarrow>
          [Out ''\<newline> *** Gesamtteil der IP-Adresse *** \<newline>'',
           Out (''IP-Adresse                               : '' @ ip_addr @ ''\<newline>''),
           Out (''IP-Adresse als 32-bit Wert - inet_aton() : '' @ show_word ip @ ''\<newline>''),
           Out (''IP-Adresse string - inet_ntoa()          : '' @ inet_ntoa ip @ ''\<newline>'')])"

definition ip_netzwerk :: "addr option \<Rightarrow> say list" where
  "ip_netzwerk aton =
     (case aton of
        None \<Rightarrow> []
      | Some ip \<Rightarrow>
          (let net = inet_netof ip in
           if net = 0 then []
           else
             (let net_num = ntohl (push_bit 8 (inet_netof ip)); net_ip = inet_makeaddr (htonl net_num) 0 in
              [Out ''\<newline> *** Netzwerkteil der IP-Adresse *** \<newline>'',
               Out (''Netzwerk-Teil der Adresse `inet_netof()` : '' @ show_word net @ ''\<newline>''),
               Out (''--->'' @ inet_ntoa net_num),
               Out (''--> (als 32-bit Wert)   : '' @ show_word net_num @ ''\<newline>''),
               Out (''inet_makeaddr()-> (als 32-bit Wert)      : '' @ show_int (sint net_ip) @ ''\<newline>'')])))"

definition ip_lokal :: "addr option \<Rightarrow> say list" where
  "ip_lokal aton =
     (case aton of
        None \<Rightarrow> []
      | Some ip \<Rightarrow>
          (let lokal_num = ntohl (inet_lnaof ip); lokal_ip = inet_makeaddr 0 (htonl lokal_num) in
           [Out ''\<newline> *** Lokaler Teil der IP-Adresse *** \<newline>'',
            Out (''--->'' @ inet_ntoa lokal_num),
            Out (''--> (als 32-bit Wert)     : '' @ show_word lokal_num @ ''\<newline>''),
            Out (''inet_makeaddr()-> (als 32-bit Wert)    : '' @ show_word lokal_ip @ ''\<newline>'')]))"

text \<open>\<^verbatim>\<open>ip_zusammen\<close>: the address that is put together, and what is printed.\<close>

definition zusammen_ip :: "addr \<Rightarrow> addr" where
  "zusammen_ip ip =
     (let lokal_num = ntohl (inet_lnaof ip); net_num = ntohl (push_bit 8 (inet_netof ip)) in
      inet_makeaddr (htonl net_num) (htonl lokal_num))"

definition ip_zusammen :: "addr option \<Rightarrow> say list" where
  "ip_zusammen aton =
     (case aton of
        None \<Rightarrow> []
      | Some ip \<Rightarrow>
          (let lokal_num = ntohl (inet_lnaof ip); net_num = ntohl (push_bit 8 (inet_netof ip)) in
           [Out ''\<newline> *** Lokale Teile und Netzwerkteil zusammensetzen *** \<newline>'',
            Out ''Lokaler Teil: '', Out (pad_left 21 (inet_ntoa lokal_num) @ '' = ''),
            Out (''(als 32-bit Wert : '' @ show_word lokal_num @ ''\<newline>''),
            Out ''Netzwerk Teil: '', Out (pad_left 20 (inet_ntoa net_num) @ '' = ''),
            Out (''(als 32-bit Wert : '' @ show_word net_num @ ''\<newline>''),
            Out ''Alles wieder mit inet_makeaddr() zusamenfuegt: '',
            Out (''\<newline>'' @ inet_ntoa (zusammen_ip ip) @ '' = '' @ show_word (zusammen_ip ip) @ ''\<newline>'')]))"

definition addr_main :: "(string \<Rightarrow> addr option) \<Rightarrow> string list \<Rightarrow> int \<times> say list" where
  "addr_main aton argv =
     (if length argv \<noteq> 2 then (EXIT_SUCCESS, [Out (''Verwendung '' @ concat (take 1 argv) @ '' IP-Adresse\<newline>'')])
      else
        (let ptr = argv ! 1 in
         (EXIT_SUCCESS, ip_adressen ptr (aton ptr) @ ip_netzwerk (aton ptr) @ ip_lokal (aton ptr) @ ip_zusammen (aton ptr))))"

section \<open>Properties\<close>

lemma no_bit [simp]: "32 \<le> n \<Longrightarrow> \<not> bit (w :: addr) n"
  using bit_imp_le_length [of w n] by auto

text \<open>Equality of addresses, one position after the other.\<close>

primrec agree_on :: "nat list \<Rightarrow> addr \<Rightarrow> addr \<Rightarrow> bool" where
  "agree_on [] v w = True"
| "agree_on (n # ns) v w = ((bit v n = bit w n) \<and> agree_on ns v w)"

lemma agree_on_iff: "agree_on ns v w \<longleftrightarrow> (\<forall>n \<in> set ns. bit v n = bit w n)"
  by (induction ns) simp_all

lemma addr_eqI: "agree_on (0 # 1 # [2..<32]) v w \<Longrightarrow> v = w"
proof (rule bit_word_eqI)
  fix n
  assume a: "agree_on (0 # 1 # [2..<32]) v w" and n: "n < LENGTH(32)"
  from n have "n = 0 \<or> n = 1 \<or> n \<in> set [2..<32]" unfolding set_upt by auto
  then have "n \<in> set (0 # 1 # [2..<32])" unfolding list.set by blast
  with a show "bit v n = bit w n" unfolding agree_on_iff by blast
qed

named_theorems positions \<open>equations that decide a bit at a given position\<close>

lemmas [positions] = upt_rec_numeral bit_simps

lemma ntohl_twice [simp]: "ntohl (ntohl w) = w"
  by (rule addr_eqI) (simp add: positions ntohl_def)

text \<open>The octets of an address, as numbers.\<close>

lemma class_a_iff: "class_a h \<longleftrightarrow> \<not> bit h 31"
proof -
  have "h AND 0x80000000 = (if bit h 31 then 0x80000000 else 0)"
    by (rule addr_eqI) (simp add: positions)
  then show ?thesis by (simp add: class_a_def)
qed

lemma class_b_iff: "class_b h \<longleftrightarrow> bit h 31 \<and> \<not> bit h 30"
proof -
  have "h AND 0xC0000000 = (if bit h 31 then 0x80000000 else 0) OR (if bit h 30 then 0x40000000 else 0)"
    by (rule addr_eqI) (simp add: positions)
  then show ?thesis by (simp add: class_b_def)
qed

lemma below_power:
  fixes w :: addr
  assumes "k < 32"
  shows "w < 2 ^ k \<longleftrightarrow> drop_bit k w = 0"
proof -
  have "w < 2 ^ k \<longleftrightarrow> uint w < 2 ^ k" using assms by (simp add: word_2p_lem word_size)
  also have "\<dots> \<longleftrightarrow> int (unat w) < int (2 ^ k)" by simp
  also have "\<dots> \<longleftrightarrow> unat w < 2 ^ k" by (rule of_nat_less_iff)
  also have "\<dots> \<longleftrightarrow> unat w div 2 ^ k = 0" by (simp add: div_eq_0_iff)
  also have "\<dots> \<longleftrightarrow> drop_bit k (unat w) = 0" by (simp only: drop_bit_eq_div)
  also have "\<dots> \<longleftrightarrow> unat (drop_bit k w) = 0" by (simp only: unat_drop_bit_eq)
  finally show ?thesis by (simp add: unat_eq_0)
qed

lemma not_below: "bit (w :: addr) i \<Longrightarrow> k \<le> i \<Longrightarrow> k < 32 \<Longrightarrow> \<not> w < 2 ^ k"
proof -
  assume i: "bit w i" "k \<le> i" and k: "k < 32"
  then have "bit (drop_bit k w) (i - k)" by (simp add: bit_simps)
  then have "drop_bit k w \<noteq> 0" by auto
  with below_power [OF k] show "\<not> w < 2 ^ k" by simp
qed

lemmas limits = below_power [of 7] below_power [of 16] below_power [of 24]

text \<open>What \<^verbatim>\<open>inet_makeaddr\<close> makes of the shifted network part, class by class.\<close>

lemma combine_a:
  assumes "class_a h" and "\<not> h < 0x1000000"
  defines "net \<equiv> push_bit 8 (drop_bit 24 (h AND 0xFF000000)) :: addr"
  shows "\<not> net < 128 \<and> net < 65536 \<and> push_bit 16 net OR ((h AND 0x00FFFFFF) AND 0x0000FFFF) = h AND 0xFF00FFFF"
proof (intro conjI)
  have "drop_bit 24 h \<noteq> 0" using assms(2) limits(3) [of h] by simp
  then obtain j where j: "bit h (24 + j)" by (auto simp: bit_eq_iff bit_simps)
  then have "j < 8" using no_bit [of "24 + j" h] by (cases "j < 8") simp_all
  have "agree_on [8..<16] 0xFF00 (- 1)" by (simp add: positions)
  moreover have "8 + j \<in> set [8..<16]" unfolding set_upt using \<open>j < 8\<close> by simp
  ultimately have "bit (0xFF00 :: addr) (8 + j) = bit (- 1 :: addr) (8 + j)" unfolding agree_on_iff by blast
  with \<open>j < 8\<close> have "bit (0xFF00 :: addr) (8 + j)" unfolding bit_minus_1_iff by simp
  with j have "bit net (8 + j)" by (simp add: net_def bit_simps)
  from not_below [OF this, of 7] show "\<not> net < 128" by simp
  have "drop_bit 16 net = 0"
    by (rule addr_eqI) (simp add: net_def positions)
  with limits(2) [of net] show "net < 65536" by simp
  show "push_bit 16 net OR ((h AND 0x00FFFFFF) AND 0x0000FFFF) = h AND 0xFF00FFFF"
    by (rule addr_eqI) (simp add: net_def positions)
qed

lemma combine_b:
  assumes "class_b h"
  defines "net \<equiv> push_bit 8 (drop_bit 16 (h AND 0xFFFF0000)) :: addr"
  shows "\<not> net < 128 \<and> \<not> net < 65536 \<and> net < 16777216 \<and>
    push_bit 8 net OR ((h AND 0x0000FFFF) AND 0x000000FF) = h AND 0xFFFF00FF"
proof (intro conjI)
  have b: "bit net 23" using assms(1) by (simp add: class_b_iff net_def bit_simps)
  from not_below [OF this, of 7] show "\<not> net < 128" by simp
  from not_below [OF b, of 16] show "\<not> net < 65536" by simp
  have "drop_bit 24 net = 0"
    by (rule addr_eqI) (simp add: net_def positions)
  with limits(3) [of net] show "net < 16777216" by simp
  show "push_bit 8 net OR ((h AND 0x0000FFFF) AND 0x000000FF) = h AND 0xFFFF00FF"
    by (rule addr_eqI) (simp add: net_def positions)
qed

lemma combine_low:
  assumes "h < (0x1000000 :: addr)"
  shows "class_a h \<and> push_bit 8 (drop_bit 24 (h AND 0xFF000000)) = 0 \<and> ((h AND 0x00FFFFFF) AND 0x00FFFFFF) = h"
proof -
  have "drop_bit 24 h = 0" using assms limits(3) [of h] by simp
  then have z: "\<not> bit h (24 + n)" for n by (metis bit_drop_bit_eq bit_0_eq bot_apply bot_bool_def comp_apply)
  have high: "\<not> bit h n" if "24 \<le> n" for n using z [of "n - 24"] that by simp
  have "class_a h" using high by (simp add: class_a_iff)
  moreover have "push_bit 8 (drop_bit 24 (h AND 0xFF000000)) = (0 :: addr)"
      by (rule addr_eqI) (simp add: positions high)
  moreover have "((h AND 0x00FFFFFF) AND 0x00FFFFFF) = h"
    by (rule addr_eqI) (simp add: positions high)
  ultimately show ?thesis by blast
qed

lemma combine_c:
  assumes "\<not> class_a h" and "\<not> class_b h"
  defines "net \<equiv> push_bit 8 (drop_bit 8 (h AND 0xFFFFFF00)) :: addr"
  shows "\<not> net < 128 \<and> \<not> net < 65536 \<and> \<not> net < 16777216 \<and> net OR (h AND 0x000000FF) = h"
proof (intro conjI)
  have b: "bit net 31" using assms(1) by (simp add: class_a_iff net_def bit_simps)
  from not_below [OF this, of 7] show "\<not> net < 128" by simp
  from not_below [OF b, of 16] show "\<not> net < 65536" by simp
  from not_below [OF b, of 24] show "\<not> net < 16777216" by simp
  show "net OR (h AND 0x000000FF) = h"
    by (rule addr_eqI) (simp add: net_def positions)
qed

text \<open>
  Taking an address apart and putting it together again, in host byte order: an address of
  class C (and every higher one) comes back as it was, and so does one whose first octet is zero;
  one of class B loses its third octet and one of class A its second, because the network part is
  shifted by eight bits whatever the class.
\<close>

theorem addr_recombines:
  "let h = ntohl ip in
   ntohl (zusammen_ip ip) =
     (if class_a h then (if h < 0x1000000 then h else h AND 0xFF00FFFF)
      else if class_b h then h AND 0xFFFF00FF
      else h)"
proof -
  define h where "h = ntohl ip"
  note defs = zusammen_ip_def inet_netof_def inet_lnaof_def inet_makeaddr_def Let_def h_def [symmetric]
  consider "h < 0x1000000" | "class_a h" "\<not> h < 0x1000000" | "class_b h" "\<not> class_a h" | "\<not> class_a h" "\<not> class_b h"
    by blast
  then show ?thesis
  proof cases
    case 1
    with combine_low [OF 1] show ?thesis by (simp add: defs)
  next
    case 2
    with combine_a [OF 2] show ?thesis by (simp add: defs)
  next
    case 3
    have "\<not> h < 0x1000000" using 3 combine_low [of h] by blast
    with 3 combine_b [OF 3(1)] show ?thesis by (simp add: defs)
  next
    case 4
    have "\<not> h < 0x1000000" using 4 combine_low [of h] by blast
    with 4 combine_c [OF 4] show ?thesis by (simp add: defs)
  qed
qed

end
