(* ===== verification/Dialogue.thy ===== *)
theory Dialogue
  imports CString Interleave
begin

text \<open>
  The two-sided dialogues of \<^verbatim>\<open>src/11_Network\<close>: \<^verbatim>\<open>server1.c\<close> with \<^verbatim>\<open>client1.c\<close> over TCP, and
  \<^verbatim>\<open>unix_domain_sockets/uds_server.c\<close> with \<^verbatim>\<open>uds_client.c\<close> over a local socket. Server and client
  take turns: each sends a typed line and prints what comes back, until one of them says
  \<^verbatim>\<open>quit\<close>. The two pairs have the same loops and differ in what they say when they are
  connected (\<open>greet\<close>, \<open>hello\<close>). The connection is the bytes under way in each direction; one
  step is one call on the socket. The arrays of 1025 characters start with indeterminate contents.
\<close>

section \<open>The state\<close>

datatype spc = SAccept | SSend | SRecv | SFault | SKilled
datatype cpc = CConnect | CRecv | CSend | CClosed | CFault | CKilled

record talk =
  server_pc :: spc
  conn :: bool
  accepted :: bool
  hung_up :: bool
  server_buf :: "char list"
  server_in :: string
  server_out :: "say list"
  client_pc :: cpc
  linked :: bool
  client_buf :: "char list"
  client_in :: string
  client_out :: "say list"
  to_client :: string
  to_server :: string

text \<open>
  \<open>conn\<close>: the result of \<^verbatim>\<open>accept\<close> is a connection; \<open>accepted\<close>: the client has been taken from the
  queue; \<open>hung_up\<close>: the server has closed the connection; \<open>linked\<close>: \<^verbatim>\<open>connect\<close> succeeded.
\<close>

section \<open>Calls\<close>

abbreviation TALKBUF :: nat where "TALKBUF \<equiv> 1024"

text \<open>
  \<^verbatim>\<open>recv(s, buffer, BUF-1, 0)\<close>: at most \<open>n\<close> of the bytes under way, at least one; nothing at the end;
  \<open>None\<close> when it has to wait.
\<close>

definition recv_bytes :: "nat \<Rightarrow> bool \<Rightarrow> string \<Rightarrow> (string \<times> string) option" where
  "recv_bytes n over pipe =
     (if pipe \<noteq> [] then (let k = max 1 (min n (TALKBUF - 1)) in Some (take k pipe, drop k pipe))
      else if over then Some ([], []) else None)"

text \<open>\<^verbatim>\<open>if (size > 0) buffer[size] = '\0'\<close> after the bytes have been stored.\<close>

definition store_message :: "char list \<Rightarrow> string \<Rightarrow> char list" where
  "store_message buffer d = (if d = [] then buffer else put_string buffer d)"

text \<open>\<^verbatim>\<open>fgets(buffer, BUF, stdin)\<close>, whose result nobody looks at.\<close>

definition type_line :: "char list \<Rightarrow> string \<Rightarrow> char list \<times> string" where
  "type_line buffer inp =
     (case fgets TALKBUF inp of None \<Rightarrow> (buffer, inp) | Some (line, rest) \<Rightarrow> (put_string buffer line, rest))"

abbreviation quit :: string where "quit \<equiv> ''quit\<newline>''"

definition ask :: say where "ask = Out ''Nachricht zum versenden: ''"

definition empfangen :: "string \<Rightarrow> say" where
  "empfangen t = Out (''Nachricht empfangen: '' @ t @ ''\<newline>'')"

definition erhalten :: "string \<Rightarrow> say" where
  "erhalten t = Out (''Nachricht erhalten:'' @ t @ ''\<newline>'')"

section \<open>The loops\<close>

text \<open>One call of the server: the end of a dialogue closes the connection and returns to \<^verbatim>\<open>accept\<close>.\<close>

definition server_message :: "string \<Rightarrow> talk \<Rightarrow> talk" where
  "server_message d s =
     (let buffer = store_message (server_buf s) d in
      if \<not> terminated buffer then s\<lparr>server_pc := SFault\<rparr>
      else s\<lparr>server_buf := buffer,
             server_out := server_out s @ [empfangen (cstr buffer)],
             server_pc := if cstr buffer \<noteq> quit then SSend else SAccept,
             hung_up := hung_up s \<or> (conn s \<and> cstr buffer = quit)\<rparr>)"

definition talk_server :: "string \<Rightarrow> nat \<Rightarrow> talk \<Rightarrow> talk option" where
  "talk_server greet n s =
     (case server_pc s of
        SAccept \<Rightarrow>
          (if linked s \<and> \<not> accepted s then
             Some (s\<lparr>conn := True, accepted := True, server_out := server_out s @ [Out greet], server_pc := SSend\<rparr>)
           else None)
      | SSend \<Rightarrow>
          (case type_line (server_buf s) (server_in s) of (buffer, rest) \<Rightarrow>
             if \<not> terminated buffer then Some (s\<lparr>server_pc := SFault\<rparr>)
             else Some (s\<lparr>server_buf := buffer, server_in := rest,
               server_out := server_out s @ [ask],
               to_client := if conn s \<and> client_pc s \<notin> {CClosed, CKilled} then to_client s @ cstr buffer else to_client s,
               server_pc := SRecv\<rparr>))
      | SRecv \<Rightarrow>
          (if conn s then
             map_option (\<lambda>(d, rest). server_message d (s\<lparr>to_server := rest\<rparr>))
               (recv_bytes n (client_pc s \<in> {CClosed, CKilled}) (to_server s))
           else Some (server_message [] s))
      | _ \<Rightarrow> None)"

definition talk_client :: "string \<Rightarrow> nat \<Rightarrow> talk \<Rightarrow> talk option" where
  "talk_client hello n s =
     (case client_pc s of
        CConnect \<Rightarrow> Some (s\<lparr>linked := True, client_out := client_out s @ [Out hello], client_pc := CRecv\<rparr>)
      | CRecv \<Rightarrow>
          (case (if linked s then recv_bytes n (hung_up s \<or> server_pc s = SKilled) (to_client s) else Some ([], to_client s)) of
             None \<Rightarrow> None
           | Some (d, rest) \<Rightarrow>
               (let buffer = store_message (client_buf s) d in
                if \<not> terminated buffer then Some (s\<lparr>client_pc := CFault\<rparr>)
                else Some (s\<lparr>to_client := rest, client_buf := buffer,
                  client_out := client_out s @ [erhalten (cstr buffer)],
                  client_pc := if cstr buffer \<noteq> quit then CSend else CClosed\<rparr>)))
      | CSend \<Rightarrow>
          (case type_line (client_buf s) (client_in s) of (buffer, rest) \<Rightarrow>
             Some (s\<lparr>client_buf := buffer, client_in := rest,
               client_out := client_out s @ [ask],
               to_server := if linked s \<and> \<not> hung_up s \<and> server_pc s \<noteq> SKilled then to_server s @ cstr buffer else to_server s,
               client_pc := if cstr buffer \<noteq> quit then CRecv else CClosed\<rparr>))
      | _ \<Rightarrow> None)"

text \<open>
  The environment may let \<^verbatim>\<open>accept\<close> and \<^verbatim>\<open>connect\<close> fail, which neither program looks at, and end a
  program that sends to a closed connection (\<^verbatim>\<open>SIGPIPE\<close>).
\<close>

datatype talk_call = Server nat | Client nat | NoAccept | NoConnect | ServerPipe | ClientPipe

fun talk_act :: "string \<Rightarrow> string \<Rightarrow> talk_call \<Rightarrow> talk \<Rightarrow> talk option" where
  "talk_act greet hello (Server n) s = talk_server greet n s"
| "talk_act greet hello (Client n) s = talk_client hello n s"
| "talk_act greet hello NoAccept s =
     (if server_pc s = SAccept then Some (s\<lparr>conn := False, server_pc := SSend\<rparr>) else None)"
| "talk_act greet hello NoConnect s =
     (if client_pc s = CConnect then Some (s\<lparr>linked := False, client_pc := CRecv\<rparr>) else None)"
| "talk_act greet hello ServerPipe s =
     (if server_pc s = SSend \<and> conn s \<and> client_pc s \<in> {CClosed, CKilled} then Some (s\<lparr>server_pc := SKilled\<rparr>) else None)"
| "talk_act greet hello ClientPipe s =
     (if client_pc s = CSend \<and> hung_up s then Some (s\<lparr>client_pc := CKilled\<rparr>) else None)"

section \<open>The programs\<close>

text \<open>What the programs say before the first connection; \<open>sock\<close> and \<open>bound\<close>: the calls succeeded.\<close>

definition cleared :: "bool \<Rightarrow> say list" where
  "cleared sock = Out (CHR 0x1B # ''[2J'') # (if sock then [Out ''Socket wurde angelegt\<newline>''] else [])"

definition talk_server_start :: "bool \<Rightarrow> bool \<Rightarrow> say list" where
  "talk_server_start sock bound = cleared sock @ (if bound then [] else [Out ''Port ist nicht frei!\<newline>''])"

definition talk_client_start :: "bool \<Rightarrow> say list" where
  "talk_client_start sock = cleared sock"

definition client1_main :: "string list \<Rightarrow> bool \<Rightarrow> (int \<times> say list) + say list" where
  "client1_main argv sock =
     (if length argv < 2 then Inl (EXIT_FAILURE, [Out (''Usage: '' @ concat (take 1 argv) @ '' ServerAddress\<newline>'')])
      else Inr (talk_client_start sock))"

definition server1_loop :: "string \<Rightarrow> nat \<Rightarrow> talk \<Rightarrow> talk option" where
  "server1_loop addr = talk_server (''Ein client ('' @ addr @ '') ist verbunden ...\<newline>'')"

definition client1_loop :: "string \<Rightarrow> nat \<Rightarrow> talk \<Rightarrow> talk option" where
  "client1_loop addr = talk_client (''Verbindung zum Server ('' @ addr @ '') hergestellt\<newline>'')"

definition uds_server_loop :: "nat \<Rightarrow> talk \<Rightarrow> talk option" where
  "uds_server_loop = talk_server ''Ein client ist verbunden ...\<newline>''"

definition uds_client_loop :: "nat \<Rightarrow> talk \<Rightarrow> talk option" where
  "uds_client_loop = talk_client ''Verbindung zum Server hergestellt\<newline>''"

definition uds_server_start :: "bool \<Rightarrow> bool \<Rightarrow> say list" where
  "uds_server_start = talk_server_start"

definition uds_client_start :: "bool \<Rightarrow> say list" where
  "uds_client_start = talk_client_start"

text \<open>The two programs at their start, with what will be typed into each.\<close>

definition talk_start :: "char list \<Rightarrow> string \<Rightarrow> char list \<Rightarrow> string \<Rightarrow> talk" where
  "talk_start sbuf sin cbuf cin =
     \<lparr>server_pc = SAccept, conn = False, accepted = False, hung_up = False, server_buf = sbuf, server_in = sin,
      server_out = talk_server_start True True, client_pc = CConnect, linked = False, client_buf = cbuf, client_in = cin,
      client_out = talk_client_start True, to_client = [], to_server = []\<rparr>"

section \<open>The course of a dialogue\<close>

text \<open>What both sides print when the lines \<open>ss\<close> are typed at the server and \<open>cs\<close> at the client.\<close>

fun server_says :: "string list \<Rightarrow> string list \<Rightarrow> say list" where
  "server_says [] cs = []"
| "server_says (l # ss) cs =
     ask # (if l = quit then [empfangen quit]
            else case cs of [] \<Rightarrow> [] | c # cs' \<Rightarrow> empfangen c # (if c = quit then [] else server_says ss cs'))"

fun client_says :: "string list \<Rightarrow> string list \<Rightarrow> say list" where
  "client_says [] cs = []"
| "client_says (l # ss) cs =
     erhalten l # (if l = quit then []
                   else ask # (case cs of [] \<Rightarrow> [] | c # cs' \<Rightarrow> if c = quit then [] else client_says ss cs'))"

text \<open>One of the two says \<^verbatim>\<open>quit\<close> while both still have lines to type.\<close>

fun settles :: "string list \<Rightarrow> string list \<Rightarrow> bool" where
  "settles [] cs = False"
| "settles (l # ss) cs = (l = quit \<or> (case cs of [] \<Rightarrow> False | c # cs' \<Rightarrow> c = quit \<or> settles ss cs'))"

definition typed_line :: "string \<Rightarrow> bool" where
  "typed_line l \<longleftrightarrow> l \<noteq> [] \<and> last l = LF \<and> LF \<notin> set (butlast l) \<and> no_nul l \<and> length l < TALKBUF"

text \<open>Each \<^verbatim>\<open>recv\<close> gets everything that has been sent so far.\<close>

datatype side = TheServer | TheClient

fun turn :: "string \<Rightarrow> string \<Rightarrow> side \<Rightarrow> talk \<Rightarrow> talk option" where
  "turn greet hello TheServer s = talk_act greet hello (Server (TALKBUF - 1)) s"
| "turn greet hello TheClient s = talk_act greet hello (Client (TALKBUF - 1)) s"

abbreviation joined :: "talk \<Rightarrow> bool" where
  "joined s \<equiv> conn s \<and> accepted s \<and> linked s \<and> \<not> hung_up s"

abbreviation typing :: "string list \<Rightarrow> string list \<Rightarrow> talk \<Rightarrow> bool" where
  "typing ss cs s \<equiv> list_all typed_line ss \<and> list_all typed_line cs \<and> server_in s = concat ss \<and> client_in s = concat cs"

inductive talking :: "string \<Rightarrow> string \<Rightarrow> say list \<Rightarrow> say list \<Rightarrow> talk \<Rightarrow> bool" for greet hello so co where
  t_connect: "server_pc s = SAccept \<Longrightarrow> client_pc s = CConnect \<Longrightarrow> \<not> accepted s \<and> \<not> linked s \<and> \<not> hung_up s \<Longrightarrow>
     to_client s = [] \<Longrightarrow> to_server s = [] \<Longrightarrow> typing ss cs s \<Longrightarrow> settles ss cs \<Longrightarrow>
     server_out s @ Out greet # server_says ss cs = so \<Longrightarrow> client_out s @ Out hello # client_says ss cs = co \<Longrightarrow>
     talking greet hello so co s"
| t_accept: "server_pc s = SAccept \<Longrightarrow> client_pc s = CRecv \<Longrightarrow> \<not> accepted s \<and> linked s \<and> \<not> hung_up s \<Longrightarrow>
     to_client s = [] \<Longrightarrow> to_server s = [] \<Longrightarrow> typing ss cs s \<Longrightarrow> settles ss cs \<Longrightarrow>
     server_out s @ Out greet # server_says ss cs = so \<Longrightarrow> client_out s @ client_says ss cs = co \<Longrightarrow>
     talking greet hello so co s"
| t_send: "server_pc s = SSend \<Longrightarrow> client_pc s = CRecv \<Longrightarrow> joined s \<Longrightarrow>
     to_client s = [] \<Longrightarrow> to_server s = [] \<Longrightarrow> typing ss cs s \<Longrightarrow> settles ss cs \<Longrightarrow>
     server_out s @ server_says ss cs = so \<Longrightarrow> client_out s @ client_says ss cs = co \<Longrightarrow>
     talking greet hello so co s"
| t_sent: "server_pc s = SRecv \<Longrightarrow> client_pc s = CRecv \<Longrightarrow> joined s \<Longrightarrow> typed_line l \<Longrightarrow>
     to_client s = l \<Longrightarrow> to_server s = [] \<Longrightarrow> typing ss cs s \<Longrightarrow> settles (l # ss) cs \<Longrightarrow>
     terminated (server_buf s) \<Longrightarrow> cstr (server_buf s) = l \<Longrightarrow>
     server_out s @ tl (server_says (l # ss) cs) = so \<Longrightarrow> client_out s @ client_says (l # ss) cs = co \<Longrightarrow>
     talking greet hello so co s"
| t_heard: "server_pc s = SRecv \<Longrightarrow> client_pc s = CSend \<Longrightarrow> joined s \<Longrightarrow> l \<noteq> quit \<Longrightarrow>
     to_client s = [] \<Longrightarrow> to_server s = [] \<Longrightarrow> typing ss cs s \<Longrightarrow> settles (l # ss) cs \<Longrightarrow>
     server_out s @ tl (server_says (l # ss) cs) = so \<Longrightarrow> client_out s @ tl (client_says (l # ss) cs) = co \<Longrightarrow>
     talking greet hello so co s"
| t_answered: "server_pc s = SRecv \<Longrightarrow> client_pc s = (if c = quit then CClosed else CRecv) \<Longrightarrow> joined s \<Longrightarrow> typed_line c \<Longrightarrow>
     to_client s = [] \<Longrightarrow> to_server s = c \<Longrightarrow> typing ss cs s \<Longrightarrow> c = quit \<or> settles ss cs \<Longrightarrow>
     server_out s @ empfangen c # (if c = quit then [] else server_says ss cs) = so \<Longrightarrow>
     client_out s @ (if c = quit then [] else client_says ss cs) = co \<Longrightarrow>
     talking greet hello so co s"
| t_left: "server_pc s = SRecv \<Longrightarrow> client_pc s = CClosed \<Longrightarrow> joined s \<Longrightarrow>
     to_client s = [] \<Longrightarrow> to_server s = [] \<Longrightarrow> terminated (server_buf s) \<Longrightarrow> cstr (server_buf s) = quit \<Longrightarrow>
     server_out s @ [empfangen quit] = so \<Longrightarrow> client_out s = co \<Longrightarrow> talking greet hello so co s"
| t_over: "server_pc s = SAccept \<Longrightarrow> client_pc s = CClosed \<Longrightarrow> accepted s \<and> hung_up s \<Longrightarrow>
     server_out s = so \<Longrightarrow> client_out s = co \<Longrightarrow> talking greet hello so co s"

text \<open>The work that is left.\<close>

definition talk_size :: "talk \<Rightarrow> nat" where
  "talk_size s = 4 * length (server_in s) +
     (case server_pc s of
        SAccept \<Rightarrow> (if accepted s then 0 else if client_pc s = CConnect then 2 else 1)
      | SRecv \<Rightarrow> (if to_client s \<noteq> [] then 3 else if client_pc s = CSend then 2 else 1)
      | _ \<Rightarrow> 0)"

definition parted :: "talk \<Rightarrow> bool" where
  "parted s \<longleftrightarrow> server_pc s = SAccept \<and> client_pc s = CClosed \<and> accepted s"

lemma type_line_typed:
  assumes "typed_line l"
  shows "type_line b (l @ rest) = (put_string b l, rest)"
proof -
  have l: "l = butlast l @ [LF]" and w: "LF \<notin> set (butlast l)" "Suc (length (butlast l)) \<le> TALKBUF - 1"
    using assms append_butlast_last_id [of l] by (auto simp: typed_line_def)
  have "line_upto (TALKBUF - 1) (butlast l @ LF # rest) = (butlast l @ [LF], rest)"
    by (rule line_upto_line [OF w])
  moreover have "butlast l @ LF # rest = l @ rest" by (subst (2) l) simp
  ultimately have "line_upto (TALKBUF - 1) (l @ rest) = (l, rest)" using l by metis
  moreover have "l \<noteq> []" using assms by (simp add: typed_line_def)
  ultimately show ?thesis by (simp add: type_line_def fgets_def)
qed

lemma recv_typed: "typed_line l \<Longrightarrow> recv_bytes 1023 e l = Some (l, [])"
  by (simp add: recv_bytes_def typed_line_def Let_def)

lemma recv_nothing: "recv_bytes n e [] = (if e then Some ([], []) else None)"
  by (simp add: recv_bytes_def)

lemma typed_cstr: "typed_line l \<Longrightarrow> cstr (put_string b l) = l"
  by (simp add: cstr_put_string typed_line_def)

lemma store_typed: "typed_line l \<Longrightarrow> store_message b l = put_string b l"
  by (simp add: store_message_def typed_line_def)

lemmas turn_simps = talk_server_def talk_client_def server_message_def Let_def
  type_line_typed recv_typed recv_nothing typed_cstr store_typed

lemma talking_step:
  assumes "talking greet hello so co s" and "turn greet hello a s = Some s'"
  shows "talking greet hello so co s'"
  using assms(1)
proof cases
  case (t_connect ss cs)
  then have "s' = s\<lparr>linked := True, client_out := client_out s @ [Out hello], client_pc := CRecv\<rparr>"
    using assms(2) by (cases a) (simp_all add: turn_simps)
  with t_connect show ?thesis by (intro talking.t_accept [of _ ss cs]) simp_all
next
  case (t_accept ss cs)
  then have "s' = s\<lparr>conn := True, accepted := True, server_out := server_out s @ [Out greet], server_pc := SSend\<rparr>"
    using assms(2) by (cases a) (simp_all add: turn_simps)
  with t_accept show ?thesis by (intro talking.t_send [of _ ss cs]) simp_all
next
  case (t_send ss cs)
  then obtain l ss' where ss: "ss = l # ss'" and l: "typed_line l" by (cases ss) auto
  with t_send have "s' = s\<lparr>server_buf := put_string (server_buf s) l, server_in := concat ss',
      server_out := server_out s @ [ask], to_client := l, server_pc := SRecv\<rparr>"
    using assms(2) by (cases a) (simp_all add: turn_simps)
  with t_send ss l show ?thesis by (intro talking.t_sent [of _ l ss' cs]) (simp_all add: typed_cstr)
next
  case (t_sent l ss cs)
  then have s': "s' = s\<lparr>to_client := [], client_buf := put_string (client_buf s) l,
      client_out := client_out s @ [erhalten l], client_pc := if l \<noteq> quit then CSend else CClosed\<rparr>"
    using assms(2) by (cases a) (simp_all add: turn_simps)
  show ?thesis
  proof (cases "l = quit")
    case True
    with t_sent s' show ?thesis by (intro talking.t_left) simp_all
  next
    case False
    with t_sent s' show ?thesis by (intro talking.t_heard [of _ l ss cs]) simp_all
  qed
next
  case (t_heard l ss cs)
  then obtain c cs' where cs: "cs = c # cs'" and c: "typed_line c" by (cases cs) auto
  with t_heard have "s' = s\<lparr>client_buf := put_string (client_buf s) c, client_in := concat cs',
      client_out := client_out s @ [ask], to_server := c, client_pc := if c \<noteq> quit then CRecv else CClosed\<rparr>"
    using assms(2) by (cases a) (simp_all add: turn_simps)
  with t_heard cs c show ?thesis by (intro talking.t_answered [of _ c ss cs']) (simp_all split: if_splits)
next
  case (t_answered c ss cs)
  then have s': "s' = s\<lparr>to_server := [], server_buf := put_string (server_buf s) c,
      server_out := server_out s @ [empfangen c], server_pc := if c \<noteq> quit then SSend else SAccept, hung_up := c = quit\<rparr>"
    using assms(2) by (cases a) (simp_all add: turn_simps split: if_splits)
  show ?thesis
  proof (cases "c = quit")
    case True
    with t_answered s' show ?thesis by (intro talking.t_over) simp_all
  next
    case False
    with t_answered s' show ?thesis by (intro talking.t_send [of _ ss cs]) simp_all
  qed
next
  case t_left
  then have "server_pc s' = SAccept \<and> client_pc s' = CClosed \<and> accepted s' \<and> hung_up s' \<and>
      server_out s' = server_out s @ [empfangen quit] \<and> client_out s' = client_out s"
    using assms(2) by (cases a) (auto simp: turn_simps store_message_def)
  with t_left show ?thesis by (intro talking.t_over) simp_all
next
  case t_over
  with assms(2) show ?thesis by (cases a) (simp_all add: turn_simps)
qed

lemma talking_size:
  assumes "talking greet hello so co s" and "turn greet hello a s = Some s'"
  shows "talk_size s' < talk_size s"
  using assms(1)
proof cases
  case (t_connect ss cs)
  with assms(2) show ?thesis by (cases a) (auto simp: turn_simps talk_size_def)
next
  case (t_accept ss cs)
  with assms(2) show ?thesis by (cases a) (auto simp: turn_simps talk_size_def)
next
  case (t_send ss cs)
  then obtain l ss' where ss: "ss = l # ss'" and l: "typed_line l" by (cases ss) auto
  then have "3 < 4 * length l" by (cases l) (simp_all add: typed_line_def)
  with t_send ss l assms(2) show ?thesis by (cases a) (auto simp: turn_simps talk_size_def)
next
  case (t_sent l ss cs)
  then have "l \<noteq> []" by (simp add: typed_line_def)
  with t_sent assms(2) show ?thesis by (cases a) (auto simp: turn_simps talk_size_def)
next
  case (t_heard l ss cs)
  then obtain c cs' where cs: "cs = c # cs'" and c: "typed_line c" by (cases cs) auto
  with t_heard assms(2) show ?thesis by (cases a) (auto simp: turn_simps talk_size_def split: if_splits)
next
  case (t_answered c ss cs)
  with assms(2) show ?thesis by (cases a) (auto simp: turn_simps talk_size_def split: if_splits)
next
  case t_left
  with assms(2) show ?thesis by (cases a) (auto simp: turn_simps talk_size_def store_message_def)
next
  case t_over
  with assms(2) show ?thesis by (cases a) (simp_all add: turn_simps)
qed

lemma turn_moves:
  "talk_act greet hello (Server 1023) s \<noteq> None \<Longrightarrow> \<exists>a s'. turn greet hello a s = Some s'"
  "talk_act greet hello (Client 1023) s \<noteq> None \<Longrightarrow> \<exists>a s'. turn greet hello a s = Some s'"
  by (rule exI [of _ TheServer], simp) (rule exI [of _ TheClient], simp)

lemma talking_progress:
  assumes "talking greet hello so co s" and "\<not> parted s"
  shows "\<exists>a s'. turn greet hello a s = Some s'"
  using assms(1)
proof cases
  case (t_connect ss cs)
  then show ?thesis by (intro turn_moves(2)) (simp add: turn_simps)
next
  case (t_accept ss cs)
  then show ?thesis by (intro turn_moves(1)) (simp add: turn_simps)
next
  case (t_send ss cs)
  then show ?thesis by (intro turn_moves(1)) (simp add: turn_simps split: prod.split)
next
  case (t_sent l ss cs)
  then show ?thesis by (intro turn_moves(2)) (simp add: turn_simps)
next
  case (t_heard l ss cs)
  then show ?thesis by (intro turn_moves(2)) (simp add: turn_simps split: prod.split)
next
  case (t_answered c ss cs)
  then show ?thesis by (intro turn_moves(1)) (simp add: turn_simps)
next
  case t_left
  then show ?thesis by (intro turn_moves(1)) (simp add: turn_simps)
next
  case t_over
  with assms(2) show ?thesis by (simp add: parted_def)
qed

text \<open>The programs at their start, with lines to type that lead to an end.\<close>

definition talk_starts :: "string \<Rightarrow> string \<Rightarrow> say list \<Rightarrow> say list \<Rightarrow> talk \<Rightarrow> bool" where
  "talk_starts greet hello so co s \<longleftrightarrow> (\<exists>sbuf ss cbuf cs. list_all typed_line ss \<and> list_all typed_line cs \<and> settles ss cs \<and>
     s = talk_start sbuf (concat ss) cbuf (concat cs) \<and>
     so = talk_server_start True True @ Out greet # server_says ss cs \<and>
     co = talk_client_start True @ Out hello # client_says ss cs)"

lemma talk_starts_talking: "talk_starts greet hello so co s \<Longrightarrow> talking greet hello so co s"
  unfolding talk_starts_def by (elim exE conjE) (rule talking.t_connect, auto simp: talk_start_def)

interpretation dialogue: terminating_protocol "turn greet hello" "talk_starts greet hello so co"
  "talking greet hello so co" talk_size parted for greet hello so co
  by unfold_locales (fact talk_starts_talking talking_step talking_size talking_progress)+

section \<open>Properties\<close>

text \<open>The two pairs of programs.\<close>

definition inet_talk :: "string \<Rightarrow> string \<Rightarrow> side \<Rightarrow> talk \<Rightarrow> talk option" where
  "inet_talk saddr caddr a = (case a of TheServer \<Rightarrow> server1_loop caddr (TALKBUF - 1) | TheClient \<Rightarrow> client1_loop saddr (TALKBUF - 1))"

definition uds_talk :: "side \<Rightarrow> talk \<Rightarrow> talk option" where
  "uds_talk a = (case a of TheServer \<Rightarrow> uds_server_loop (TALKBUF - 1) | TheClient \<Rightarrow> uds_client_loop (TALKBUF - 1))"

definition inet_greet :: "string \<Rightarrow> string" where "inet_greet addr = ''Ein client ('' @ addr @ '') ist verbunden ...\<newline>''"
definition inet_hello :: "string \<Rightarrow> string" where "inet_hello addr = ''Verbindung zum Server ('' @ addr @ '') hergestellt\<newline>''"

lemma inet_talk_turn: "inet_talk saddr caddr = turn (inet_greet caddr) (inet_hello saddr)"
proof (rule ext)+
  fix a s
  show "inet_talk saddr caddr a s = turn (inet_greet caddr) (inet_hello saddr) a s"
    by (cases a) (simp_all only: inet_talk_def server1_loop_def client1_loop_def inet_greet_def inet_hello_def
      turn.simps talk_act.simps side.case)
qed

lemma uds_talk_turn: "uds_talk = turn ''Ein client ist verbunden ...\<newline>'' ''Verbindung zum Server hergestellt\<newline>''"
proof (rule ext)+
  fix a s
  show "uds_talk a s = turn ''Ein client ist verbunden ...\<newline>'' ''Verbindung zum Server hergestellt\<newline>'' a s"
    by (cases a) (simp_all only: uds_talk_def uds_server_loop_def uds_client_loop_def turn.simps talk_act.simps side.case)
qed

text \<open>The end of every schedule, for any greetings.\<close>

lemma talk_agrees:
  assumes "list_all typed_line ss" and "list_all typed_line cs" and "settles ss cs"
    and "s0 = talk_start sbuf (concat ss) cbuf (concat cs)" and "run (turn greet hello) as s0 = Some s"
  shows "length as \<le> 4 * length (concat ss) + 2 \<and> (\<exists>bs s'. run (turn greet hello) bs s = Some s' \<and> parted s') \<and>
    ((\<forall>a. turn greet hello a s = None) \<longrightarrow> parted s \<and>
       server_out s = talk_server_start True True @ Out greet # server_says ss cs \<and>
       client_out s = talk_client_start True @ Out hello # client_says ss cs)"
proof -
  define so co where "so = talk_server_start True True @ Out greet # server_says ss cs"
    and "co = talk_client_start True @ Out hello # client_says ss cs"
  have start: "talk_starts greet hello so co s0" unfolding talk_starts_def so_def co_def using assms(1-4) by blast
  then have i0: "talking greet hello so co s0" by (rule talk_starts_talking)
  have i: "talking greet hello so co s" using dialogue.bounded.run_keeps [OF i0 assms(5)] .
  have "talk_size s0 = 4 * length (concat ss) + 2" using assms(4) by (simp add: talk_size_def talk_start_def)
  then have len: "length as \<le> 4 * length (concat ss) + 2" using dialogue.run_bound [OF i0 assms(5)] by linarith
  have "server_out s = so \<and> client_out s = co" if "parted s"
    using i by (cases rule: talking.cases) (use that in \<open>auto simp: parted_def split: if_splits\<close>)
  moreover have "parted s" if "\<forall>a. turn greet hello a s = None"
    using dialogue.stuck_final [OF i0 assms(5)] that by blast
  ultimately show ?thesis using len dialogue.can_finish [OF i] unfolding so_def co_def by blast
qed

text \<open>
  C15: \<^verbatim>\<open>server1.c\<close> with \<^verbatim>\<open>client1.c\<close>, and \<^verbatim>\<open>uds_server.c\<close> with \<^verbatim>\<open>uds_client.c\<close>: when lines are typed on both
  sides and one of them is \<^verbatim>\<open>quit\<close>, every schedule in which a message arrives in one piece is bounded,
  can always be continued to the end, and stops only there: both sides have left the dialogue, and
  each has printed exactly what the other one said, up to the first \<^verbatim>\<open>quit\<close>.
\<close>

theorem dialogue_agrees:
  assumes "list_all typed_line ss" and "list_all typed_line cs" and "settles ss cs"
    and "act = inet_talk saddr caddr \<and> greet = inet_greet caddr \<and> hello = inet_hello saddr \<or>
      act = uds_talk \<and> greet = ''Ein client ist verbunden ...\<newline>'' \<and> hello = ''Verbindung zum Server hergestellt\<newline>''"
    and "run act as (talk_start sbuf (concat ss) cbuf (concat cs)) = Some s"
  shows "length as \<le> 4 * length (concat ss) + 2 \<and> (\<exists>bs s'. run act bs s = Some s' \<and> parted s') \<and>
    ((\<forall>a. act a s = None) \<longrightarrow> parted s \<and>
       server_out s = talk_server_start True True @ Out greet # server_says ss cs \<and>
       client_out s = talk_client_start True @ Out hello # client_says ss cs)"
proof -
  have "act = turn greet hello" using assms(4) inet_talk_turn uds_talk_turn by metis
  with assms(5) talk_agrees [OF assms(1-3) refl] show ?thesis by blast
qed

definition talk_example :: "side list" where
  "talk_example = [TheClient, TheServer, TheServer, TheClient, TheClient, TheServer]"

theorem dialogue_agrees_witness:
  "\<exists>s. run uds_talk talk_example (talk_start [] ''hi\<newline>'' [] ''quit\<newline>'') = Some s \<and> (\<exists>bs s'. run uds_talk bs s = Some s' \<and> parted s')"
proof -
  define s where "s = the (run uds_talk talk_example (talk_start [] ''hi\<newline>'' [] ''quit\<newline>''))"
  have r: "run uds_talk talk_example (talk_start [] ''hi\<newline>'' [] ''quit\<newline>'') = Some s"
    unfolding s_def by code_simp
  have l: "list_all typed_line [''hi\<newline>'']" "list_all typed_line [''quit\<newline>'']" "settles [''hi\<newline>''] [''quit\<newline>'']" by code_simp+
  have c: "concat [''hi\<newline>''] = ''hi\<newline>''" "concat [''quit\<newline>''] = ''quit\<newline>''" by simp_all
  from dialogue_agrees [OF l, of uds_talk] r c show ?thesis by metis
qed

text \<open>
  Without the assumption that a message arrives in one piece the dialogue can go on after \<^verbatim>\<open>quit\<close>: the
  client reads the line in two pieces, recognises neither, and asks for an answer.
\<close>

definition split_quit :: "talk_call list" where
  "split_quit = [Client 1023, Server 1023, Server 1023, Client 2, Client 1023, Server 1023]"

lemma split_quit_goes_on:
  "leads (talk_act ''g'' ''h'') split_quit (talk_start [] ''quit\<newline>'' [] ''ja\<newline>'')
     (\<lambda>s. server_pc s = SSend \<and> client_pc s = CRecv \<and> to_client s = ''it\<newline>'')"
  unfolding split_quit_def by code_simp

end
