(* ===== verification/PipePairs.thy ===== *)
theory PipePairs
  imports PrintQueue Interleave
begin

text \<open>
  Two processes and a pipe, \<^verbatim>\<open>src/09_IPC\<close>: \<^verbatim>\<open>pipe1.c\<close> copies a file through a pipe to the standard
  output, \<^verbatim>\<open>pipe2.c\<close> sends a typed line through a pipe into a file, \<^verbatim>\<open>fifo4.c\<close> sends a text from the child
  to the parent through a FIFO. Parent and child interleave freely, one system call at a time. The
  argument of a step is the result the environment wants for the call: negative for a failure, else
  the most bytes it transfers. A pipe is the bytes in it; all texts are shorter than its capacity, so
  a write does not block, and one of at most \<^verbatim>\<open>PIPE_BUF\<close> bytes is atomic.
\<close>

abbreviation PIPE_BUF :: nat where "PIPE_BUF \<equiv> 4096"

datatype process = Parent | Child

text \<open>The bytes that a \<^verbatim>\<open>read\<close> with the result \<open>r\<close> takes: at least one, if there are any.\<close>

definition taken :: "int \<Rightarrow> string \<Rightarrow> string" where
  "taken r t = take (max 1 (min (nat r) PIPE_BUF)) t"

section \<open>\<^verbatim>\<open>pipe1.c\<close>\<close>

datatype p1pc = P1read | P1write | P1wait | P1end int
datatype c1pc = C1read | C1write | C1end int

record pipe1 =
  parent1 :: p1pc
  n1 :: int
  puffer1 :: string
  child1 :: c1pc
  cn1 :: int
  cpuffer1 :: string
  in_pipe1 :: string
  stdout1 :: string
  said1 :: "say list"

definition pipe1_start :: pipe1 where
  "pipe1_start = \<lparr>parent1 = P1read, n1 = 0, puffer1 = [], child1 = C1read, cn1 = 0, cpuffer1 = [], in_pipe1 = [],
     stdout1 = [], said1 = []\<rparr>"

definition pipe1_main :: "string list \<Rightarrow> bool \<Rightarrow> bool \<Rightarrow> bool \<Rightarrow> int \<times> say list + pipe1" where
  "pipe1_main argv open_ok pipe_ok fork_ok =
     (if length argv \<noteq> 2 then Inl (EXIT_FAILURE, [Out (''Usage: '' @ concat (take 1 argv) @ '' Datei\<newline>'')])
      else if \<not> open_ok then Inl (EXIT_FAILURE, [Perror ''open()''])
      else if \<not> pipe_ok then Inl (EXIT_FAILURE, [Perror ''pipe()''])
      else if \<not> fork_ok then Inl (EXIT_FAILURE, [Perror ''fork()''])
      else Inr pipe1_start)"

text \<open>A count of -1 that is passed on to \<^verbatim>\<open>write\<close> makes it fail with -1, which is the count again.\<close>

definition pipe1_parent :: "string \<Rightarrow> int \<Rightarrow> pipe1 \<Rightarrow> pipe1 option" where
  "pipe1_parent content r s =
     (case parent1 s of
        P1read \<Rightarrow>
          Some (if r < 0 then s\<lparr>n1 := -1, parent1 := P1write\<rparr>
                else s\<lparr>n1 := int (length (taken r content)), puffer1 := taken r content, parent1 := P1write\<rparr>)
      | P1write \<Rightarrow>
          Some (if n1 s < 0 then s\<lparr>parent1 := P1wait\<rparr>
                else if r < 0 then s\<lparr>said1 := said1 s @ [Perror ''write()''], parent1 := P1end EXIT_FAILURE\<rparr>
                else s\<lparr>in_pipe1 := in_pipe1 s @ puffer1 s, parent1 := P1wait\<rparr>)
      | P1wait \<Rightarrow>
          (case child1 s of
             C1end _ \<Rightarrow> Some (if r < 0 then s\<lparr>said1 := said1 s @ [Perror ''waitpid()''], parent1 := P1end EXIT_FAILURE\<rparr>
                              else s\<lparr>parent1 := P1end EXIT_SUCCESS\<rparr>)
           | _ \<Rightarrow> None)
      | P1end _ \<Rightarrow> None)"

definition pipe1_child :: "int \<Rightarrow> pipe1 \<Rightarrow> pipe1 option" where
  "pipe1_child r s =
     (case child1 s of
        C1read \<Rightarrow>
          (if in_pipe1 s \<noteq> [] then
             Some (if r < 0 then s\<lparr>cn1 := -1, child1 := C1write\<rparr>
                   else s\<lparr>cn1 := int (length (taken r (in_pipe1 s))), cpuffer1 := taken r (in_pipe1 s),
                          in_pipe1 := drop (length (taken r (in_pipe1 s))) (in_pipe1 s), child1 := C1write\<rparr>)
           else (case parent1 s of P1end _ \<Rightarrow> Some (s\<lparr>cn1 := 0, child1 := C1write\<rparr>) | _ \<Rightarrow> None))
      | C1write \<Rightarrow>
          Some (if cn1 s < 0 then s\<lparr>child1 := C1end EXIT_SUCCESS\<rparr>
                else (let s' = s\<lparr>stdout1 := stdout1 s @ take (nat r) (cpuffer1 s)\<rparr> in
                  if r < cn1 s then s'\<lparr>said1 := said1 s @ [Perror ''write()''], child1 := C1end EXIT_FAILURE\<rparr>
                  else s'\<lparr>child1 := C1end EXIT_SUCCESS\<rparr>))
      | C1end _ \<Rightarrow> None)"

text \<open>The parent's \<^verbatim>\<open>read\<close> has the result \<open>k\<close>; the other calls succeed.\<close>

fun pipe1_turn :: "string \<Rightarrow> int \<Rightarrow> process \<Rightarrow> pipe1 \<Rightarrow> pipe1 option" where
  "pipe1_turn content k Parent s = pipe1_parent content (if parent1 s = P1read then k else int PIPE_BUF) s"
| "pipe1_turn content k Child s = pipe1_child (int PIPE_BUF) s"

definition part1 :: "string \<Rightarrow> int \<Rightarrow> string" where
  "part1 content k = (if k < 0 then [] else taken k content)"

definition pipe1_inv :: "string \<Rightarrow> int \<Rightarrow> pipe1 \<Rightarrow> bool" where
  "pipe1_inv content k s \<longleftrightarrow> said1 s = [] \<and> (let d = part1 content k in
     case (parent1 s, child1 s) of
       (P1read, C1read) \<Rightarrow> in_pipe1 s = [] \<and> stdout1 s = [] \<and> puffer1 s = []
     | (P1write, C1read) \<Rightarrow> in_pipe1 s = [] \<and> stdout1 s = [] \<and> puffer1 s = d \<and> n1 s = (if k < 0 then -1 else int (length d))
     | (P1wait, C1read) \<Rightarrow> in_pipe1 s = d \<and> stdout1 s = []
     | (P1wait, C1write) \<Rightarrow> d \<noteq> [] \<and> in_pipe1 s = [] \<and> stdout1 s = [] \<and> cpuffer1 s = d \<and> cn1 s = int (length d)
     | (P1wait, C1end c) \<Rightarrow> d \<noteq> [] \<and> c = EXIT_SUCCESS \<and> in_pipe1 s = [] \<and> stdout1 s = d
     | (P1end p, C1end c) \<Rightarrow> d \<noteq> [] \<and> p = EXIT_SUCCESS \<and> c = EXIT_SUCCESS \<and> in_pipe1 s = [] \<and> stdout1 s = d
     | _ \<Rightarrow> False)"

definition pipe1_size :: "pipe1 \<Rightarrow> nat" where
  "pipe1_size s = (case parent1 s of P1read \<Rightarrow> 3 | P1write \<Rightarrow> 2 | P1wait \<Rightarrow> 1 | P1end _ \<Rightarrow> 0) +
     (case child1 s of C1read \<Rightarrow> 2 | C1write \<Rightarrow> 1 | C1end _ \<Rightarrow> 0)"

text \<open>Both have ended, or both wait for each other.\<close>

definition pipe1_rests :: "string \<Rightarrow> int \<Rightarrow> pipe1 \<Rightarrow> bool" where
  "pipe1_rests content k s \<longleftrightarrow>
     (if part1 content k = [] then parent1 s = P1wait \<and> child1 s = C1read
      else parent1 s = P1end EXIT_SUCCESS \<and> child1 s = C1end EXIT_SUCCESS)"

lemma part1_short: "length (part1 content k) \<le> PIPE_BUF" "k < 0 \<Longrightarrow> part1 content k = []"
  "\<not> k < 0 \<Longrightarrow> taken k content = part1 content k"
  by (auto simp: part1_def taken_def)

lemma taken_all: "length d \<le> PIPE_BUF \<Longrightarrow> taken (int PIPE_BUF) d = d"
  by (simp add: taken_def)

lemma pipe1_step:
  assumes "pipe1_inv content k s" and "pipe1_turn content k a s = Some s'"
  shows "pipe1_inv content k s' \<and> pipe1_size s' < pipe1_size s"
proof -
  define d where "d = part1 content k"
  note facts = part1_short(1) [of content k, folded d_def] part1_short(2,3) [of k content, folded d_def] taken_all [of d]
  show ?thesis using assms facts
    by (cases a) (auto simp: pipe1_inv_def pipe1_parent_def pipe1_child_def pipe1_size_def Let_def d_def [symmetric]
        split: p1pc.splits c1pc.splits if_splits)
qed

lemma pipe1_progress:
  assumes "pipe1_inv content k s" and "\<not> pipe1_rests content k s"
  shows "\<exists>a s'. pipe1_turn content k a s = Some s'"
proof -
  have p: "\<exists>a s'. pipe1_turn content k a s = Some s'" if "pipe1_turn content k a s \<noteq> None" for a using that by auto
  define d where "d = part1 content k"
  note defs = pipe1_inv_def pipe1_rests_def pipe1_parent_def pipe1_child_def Let_def d_def [symmetric]
  show ?thesis
  proof (cases "parent1 s")
    case P1wait
    show ?thesis
    proof (cases "child1 s")
      case C1read
      with P1wait assms have "in_pipe1 s \<noteq> []" by (simp add: defs split: if_splits)
      with C1read show ?thesis by (intro p [of Child]) (simp add: pipe1_child_def)
    next
      case C1write
      then show ?thesis by (intro p [of Child]) (simp add: pipe1_child_def)
    next
      case (C1end c)
      with P1wait show ?thesis by (intro p [of Parent]) (simp add: pipe1_parent_def)
    qed
  next
    case (P1end c)
    with assms have False by (cases "child1 s") (simp_all add: defs)
    then show ?thesis ..
  qed (intro p [of Parent], simp add: pipe1_parent_def)+
qed

lemma pipe1_start_inv: "s = pipe1_start \<Longrightarrow> pipe1_inv content k s"
  by (simp add: pipe1_start_def pipe1_inv_def)

interpretation p1: terminating_protocol "pipe1_turn content k" "\<lambda>s. s = pipe1_start" "pipe1_inv content k" pipe1_size
    "pipe1_rests content k" for content k
  by unfold_locales (fact pipe1_start_inv pipe1_step [THEN conjunct1] pipe1_step [THEN conjunct2] pipe1_progress)+

section \<open>\<^verbatim>\<open>pipe2.c\<close>\<close>

datatype p2pc = P2type | P2exit | P2end
datatype c2pc = C2read | C2exit | C2end

record pipe2 =
  parent2 :: p2pc
  puffer2 :: "char list"
  stdin2 :: string
  child2 :: c2pc
  cpuffer2 :: "char list"
  in_pipe2 :: string
  newfile :: string
  said2 :: "say list"
  fault2 :: bool

text \<open>Both processes have their own copy of the array, with the same indeterminate contents.\<close>

definition pipe2_start :: "char list \<Rightarrow> string \<Rightarrow> string \<Rightarrow> pipe2" where
  "pipe2_start arr inp old = \<lparr>parent2 = P2type, puffer2 = arr, stdin2 = inp, child2 = C2read, cpuffer2 = arr,
     in_pipe2 = [], newfile = old, said2 = [], fault2 = False\<rparr>"

definition pipe2_main :: "string list \<Rightarrow> bool \<Rightarrow> bool \<Rightarrow> bool \<Rightarrow> char list \<Rightarrow> string \<Rightarrow> string \<Rightarrow> int \<times> say list + pipe2" where
  "pipe2_main argv open_ok pipe_ok fork_ok arr inp old =
     (if length argv \<noteq> 2 then Inl (EXIT_FAILURE, [Out (''Usage: '' @ concat (take 1 argv) @ '' Datei\<newline>'')])
      else if \<not> open_ok then Inl (EXIT_FAILURE, [Perror ''fopen()''])
      else if \<not> pipe_ok then Inl (EXIT_FAILURE, [Perror ''pipe()''])
      else if \<not> fork_ok then Inl (EXIT_FAILURE, [Perror ''fork()''])
      else Inr (pipe2_start arr inp old))"

text \<open>\<^verbatim>\<open>fgets\<close> into the array, and \<^verbatim>\<open>fputs\<close> of the array: a fault if it holds no string.\<close>

definition get_line :: "char list \<Rightarrow> string \<Rightarrow> char list \<times> string" where
  "get_line a inp = (case fgets PIPE_BUF inp of None \<Rightarrow> (a, inp) | Some (l, rest) \<Rightarrow> (put_string a l, rest))"

text \<open>
  The streams are buffered: the parent's text reaches the pipe when it exits, the child's line the
  file when that exits. \<open>fdopen_ok\<close>: \<^verbatim>\<open>fdopen\<close> succeeds. The child's \<^verbatim>\<open>fgets\<close> returns with a whole line, with a full array, or at the end.
\<close>

definition pipe2_parent :: "bool \<Rightarrow> pipe2 \<Rightarrow> pipe2 option" where
  "pipe2_parent fdopen_ok s =
     (case parent2 s of
        P2type \<Rightarrow>
          (if \<not> fdopen_ok then Some (s\<lparr>said2 := said2 s @ [Perror ''fdopen()''], parent2 := P2end\<rparr>)
           else case get_line (puffer2 s) (stdin2 s) of (a, rest) \<Rightarrow>
             Some (if terminated a then s\<lparr>puffer2 := a, stdin2 := rest, parent2 := P2exit\<rparr>
                   else s\<lparr>fault2 := True, parent2 := P2end\<rparr>))
      | P2exit \<Rightarrow> Some (s\<lparr>in_pipe2 := in_pipe2 s @ cstr (puffer2 s), parent2 := P2end\<rparr>)
      | P2end \<Rightarrow> None)"

definition pipe2_child :: "bool \<Rightarrow> pipe2 \<Rightarrow> pipe2 option" where
  "pipe2_child fdopen_ok s =
     (case child2 s of
        C2read \<Rightarrow>
          (if \<not> fdopen_ok then Some (s\<lparr>said2 := said2 s @ [Perror ''fdopen()''], child2 := C2end\<rparr>)
           else if LF \<in> set (in_pipe2 s) \<or> PIPE_BUF \<le> Suc (length (in_pipe2 s)) \<or> parent2 s = P2end then
             (case get_line (cpuffer2 s) (in_pipe2 s) of (a, rest) \<Rightarrow>
                Some (if terminated a then s\<lparr>cpuffer2 := a, in_pipe2 := rest, child2 := C2exit\<rparr>
                      else s\<lparr>fault2 := True, child2 := C2end\<rparr>))
           else None)
      | C2exit \<Rightarrow> Some (s\<lparr>newfile := newfile s @ cstr (cpuffer2 s), child2 := C2end\<rparr>)
      | C2end \<Rightarrow> None)"

fun pipe2_turn :: "process \<Rightarrow> pipe2 \<Rightarrow> pipe2 option" where
  "pipe2_turn Parent s = pipe2_parent True s"
| "pipe2_turn Child s = pipe2_child True s"

definition top_line :: "string \<Rightarrow> string" where
  "top_line inp = fst (line_upto (PIPE_BUF - 1) inp)"

definition pipe2_inv :: "string \<Rightarrow> string \<Rightarrow> pipe2 \<Rightarrow> bool" where
  "pipe2_inv l old s \<longleftrightarrow> \<not> fault2 s \<and> (case parent2 s of
      P2type \<Rightarrow> child2 s = C2read \<and> stdin2 s \<noteq> [] \<and> no_nul (stdin2 s) \<and> top_line (stdin2 s) = l \<and> in_pipe2 s = [] \<and> newfile s = old
    | P2exit \<Rightarrow> child2 s = C2read \<and> terminated (puffer2 s) \<and> cstr (puffer2 s) = l \<and> in_pipe2 s = [] \<and> newfile s = old
    | P2end \<Rightarrow> (case child2 s of
        C2read \<Rightarrow> in_pipe2 s = l \<and> newfile s = old
      | C2exit \<Rightarrow> terminated (cpuffer2 s) \<and> cstr (cpuffer2 s) = l \<and> newfile s = old
      | C2end \<Rightarrow> newfile s = old @ l))"

definition pipe2_size :: "pipe2 \<Rightarrow> nat" where
  "pipe2_size s = (case parent2 s of P2type \<Rightarrow> 2 | P2exit \<Rightarrow> 1 | P2end \<Rightarrow> 0) +
     (case child2 s of C2read \<Rightarrow> 2 | C2exit \<Rightarrow> 1 | C2end \<Rightarrow> 0)"

definition pipe2_over :: "pipe2 \<Rightarrow> bool" where
  "pipe2_over s \<longleftrightarrow> parent2 s = P2end \<and> child2 s = C2end"

lemma top_line_again:
  assumes "inp \<noteq> []" and "l = top_line inp"
  shows "l \<noteq> []" "line_upto 4095 l = (l, [])" "no_nul inp \<Longrightarrow> no_nul l"
proof -
  obtain r where r: "line_upto (PIPE_BUF - 1) inp = (l, r)"
    using assms(2) by (cases "line_upto (PIPE_BUF - 1) inp") (simp add: top_line_def)
  from line_upto_progress [OF assms(1) _ r] line_upto_split [OF r] show "l \<noteq> []" by auto
  from line_upto_again [OF r] show "line_upto 4095 l = (l, [])" by simp
  from line_upto_split [OF r] show "no_nul inp \<Longrightarrow> no_nul l" by simp
qed

lemma pipe2_step:
  assumes "pipe2_inv l old s" and "pipe2_turn a s = Some s'" and l: "l \<noteq> []" "line_upto 4095 l = (l, [])" "no_nul l"
  shows "pipe2_inv l old s' \<and> pipe2_size s' < pipe2_size s"
proof (cases a)
  case Parent
  show ?thesis
  proof (cases "parent2 s")
    case P2type
    then have "get_line (puffer2 s) (stdin2 s) = (put_string (puffer2 s) l, snd (line_upto 4095 (stdin2 s)))"
      using assms(1) by (auto simp: pipe2_inv_def get_line_def fgets_def top_line_def split: prod.split)
    with P2type Parent assms l(3) show ?thesis
      by (auto simp: pipe2_inv_def pipe2_parent_def pipe2_size_def cstr_put_string)
  qed (use Parent assms in \<open>auto simp: pipe2_inv_def pipe2_parent_def pipe2_size_def split: c2pc.splits\<close>)
next
  case Child
  then have c: "parent2 s = P2end" using assms(1,2)
    by (cases "parent2 s") (auto simp: pipe2_inv_def pipe2_child_def)
  show ?thesis
  proof (cases "child2 s")
    case C2read
    then have "get_line (cpuffer2 s) (in_pipe2 s) = (put_string (cpuffer2 s) l, [])"
      using assms(1) c l by (simp add: pipe2_inv_def get_line_def fgets_def)
    with C2read Child c assms l(3) show ?thesis
      by (auto simp: pipe2_inv_def pipe2_child_def pipe2_size_def cstr_put_string)
  qed (use Child c assms in \<open>auto simp: pipe2_inv_def pipe2_child_def pipe2_size_def\<close>)
qed

lemma pipe2_progress:
  assumes "pipe2_inv l old s" and "\<not> pipe2_over s"
  shows "\<exists>a s'. pipe2_turn a s = Some s'"
proof -
  have p: "\<exists>a s'. pipe2_turn a s = Some s'" if "pipe2_turn a s \<noteq> None" for a using that by auto
  show ?thesis
  proof (cases "parent2 s = P2end")
    case True
    with assms(2) show ?thesis
      by (intro p [of Child]) (auto simp: pipe2_over_def pipe2_child_def split: c2pc.split prod.split)
  next
    case False
    then show ?thesis by (intro p [of Parent]) (auto simp: pipe2_parent_def split: p2pc.split prod.split)
  qed
qed

definition pipe2_begins :: "string \<Rightarrow> string \<Rightarrow> pipe2 \<Rightarrow> bool" where
  "pipe2_begins l old s \<longleftrightarrow> (\<exists>a inp. s = pipe2_start a inp old \<and> inp \<noteq> [] \<and> no_nul inp \<and> l = top_line inp)"

definition pipe2_good :: "string \<Rightarrow> string \<Rightarrow> pipe2 \<Rightarrow> bool" where
  "pipe2_good l old s \<longleftrightarrow> l \<noteq> [] \<and> line_upto 4095 l = (l, []) \<and> no_nul l \<and> pipe2_inv l old s"

lemma pipe2_begins_good: "pipe2_begins l old s \<Longrightarrow> pipe2_good l old s"
  using top_line_again by (auto simp: pipe2_begins_def pipe2_good_def pipe2_inv_def pipe2_start_def)

lemma pipe2_good_step: "pipe2_good l old s \<Longrightarrow> pipe2_turn a s = Some s' \<Longrightarrow> pipe2_good l old s' \<and> pipe2_size s' < pipe2_size s"
  using pipe2_step unfolding pipe2_good_def by blast

interpretation p2: terminating_protocol pipe2_turn "pipe2_begins l old" "pipe2_good l old" pipe2_size pipe2_over for l old
  by unfold_locales (use pipe2_begins_good pipe2_good_step pipe2_progress pipe2_good_def in blast)+

section \<open>\<^verbatim>\<open>fifo4.c\<close>\<close>

definition fifo4_text :: string where
  "fifo4_text = ''Dieser Text ist f'' @ [CHR 0xC3, CHR 0xBC] @ ''r die FIFO an den Elternprozess\<newline>''"

text \<open>
  Opening one end of a FIFO waits until the other end is opened too: a process first arrives and goes
  on when the other one has arrived.
\<close>

datatype p4pc = P4open | P4arrived | P4wait | P4read | P4end int
datatype c4pc = C4open | C4arrived | C4write | C4end int

record fifo4 =
  parent4 :: p4pc
  child4 :: c4pc
  reader_here :: bool
  writer_here :: bool
  in_fifo :: string
  buf4 :: "char list"
  parent_says4 :: "say list"
  child_says4 :: "say list"

definition fifo4_start :: "char list \<Rightarrow> say list \<Rightarrow> fifo4" where
  "fifo4_start buf says = \<lparr>parent4 = P4open, child4 = C4open, reader_here = False, writer_here = False, in_fifo = [],
     buf4 = buf, parent_says4 = says, child_says4 = []\<rparr>"

definition fifo4_main :: "mkfifo_result \<Rightarrow> bool \<Rightarrow> char list \<Rightarrow> int \<times> say list + fifo4" where
  "fifo4_main made fork_ok buf =
     (let says = (if made = Made then [] else [Perror ''mkfifo()'']) in
      if made = Refused then Inl (EXIT_FAILURE, says)
      else if \<not> fork_ok then Inl (EXIT_FAILURE, says @ [Perror ''fork()''])
      else Inr (fifo4_start buf says))"

definition fifo4_parent :: "int \<Rightarrow> fifo4 \<Rightarrow> fifo4 option" where
  "fifo4_parent r s =
     (case parent4 s of
        P4open \<Rightarrow> Some (if r < 0 then s\<lparr>parent_says4 := parent_says4 s @ [Perror ''open()''], parent4 := P4end EXIT_FAILURE\<rparr>
                        else s\<lparr>reader_here := True, parent4 := P4arrived\<rparr>)
      | P4arrived \<Rightarrow> (if writer_here s then Some (s\<lparr>parent4 := P4wait\<rparr>) else None)
      | P4wait \<Rightarrow> (case child4 s of C4end _ \<Rightarrow> Some (s\<lparr>parent4 := P4read\<rparr>) | _ \<Rightarrow> None)
      | P4read \<Rightarrow>
          (let d = (if r < 0 then [] else take (min (max 1 (nat r)) (length fifo4_text)) (in_fifo s));
               buf = (d @ drop (length d) (buf4 s))[length fifo4_text := NUL] in
           Some (s\<lparr>in_fifo := drop (length d) (in_fifo s), buf4 := buf,
             parent_says4 := parent_says4 s @ [Out '' --- Elternprozess ---\<newline>'', Out (cstr buf), Out '' --- Ende ---\<newline>''],
             parent4 := P4end EXIT_SUCCESS\<rparr>))
      | P4end _ \<Rightarrow> None)"

definition fifo4_child :: "int \<Rightarrow> fifo4 \<Rightarrow> fifo4 option" where
  "fifo4_child r s =
     (case child4 s of
        C4open \<Rightarrow>
          (let s' = s\<lparr>child_says4 := child_says4 s @ [Out '' --- Kindprozess ---\<newline>'']\<rparr> in
           Some (if r < 0 then s'\<lparr>child_says4 := child_says4 s' @ [Perror ''open()''], child4 := C4end EXIT_FAILURE\<rparr>
                 else s'\<lparr>writer_here := True, child4 := C4arrived\<rparr>))
      | C4arrived \<Rightarrow> (if reader_here s then Some (s\<lparr>child4 := C4write\<rparr>) else None)
      | C4write \<Rightarrow> Some (s\<lparr>in_fifo := (if r < 0 then in_fifo s else in_fifo s @ fifo4_text), child4 := C4end EXIT_SUCCESS\<rparr>)
      | C4end _ \<Rightarrow> None)"

text \<open>All calls succeed, but for the child's \<^verbatim>\<open>open\<close> when \<open>ok\<close> is false.\<close>

fun fifo4_turn :: "bool \<Rightarrow> process \<Rightarrow> fifo4 \<Rightarrow> fifo4 option" where
  "fifo4_turn ok Parent s = fifo4_parent (int PIPE_BUF) s"
| "fifo4_turn ok Child s = fifo4_child (if child4 s = C4open \<and> \<not> ok then -1 else int PIPE_BUF) s"

text \<open>What has been said, by the place where a process is.\<close>

definition fifo4_inv :: "bool \<Rightarrow> say list \<Rightarrow> fifo4 \<Rightarrow> bool" where
  "fifo4_inv ok says s \<longleftrightarrow>
     length (buf4 s) = 100 \<and> reader_here s = (parent4 s \<noteq> P4open) \<and> writer_here s = (ok \<and> child4 s \<noteq> C4open) \<and>
     (ok \<and> child4 s = C4end EXIT_SUCCESS \<or> parent4 s \<notin> {P4read, P4end EXIT_SUCCESS}) \<and>
     (writer_here s \<or> parent4 s \<in> {P4open, P4arrived}) \<and> (\<forall>c. parent4 s = P4end c \<longrightarrow> c = EXIT_SUCCESS) \<and>
     (reader_here s \<and> ok \<or> child4 s \<notin> {C4write, C4end EXIT_SUCCESS}) \<and>
     (\<forall>c. child4 s = C4end c \<longrightarrow> c = (if ok then EXIT_SUCCESS else EXIT_FAILURE)) \<and> (child4 s = C4arrived \<longrightarrow> ok) \<and>
     in_fifo s = (if child4 s = C4end EXIT_SUCCESS \<and> parent4 s \<noteq> P4end EXIT_SUCCESS then fifo4_text else []) \<and>
     parent_says4 s = says @ (if parent4 s = P4end EXIT_SUCCESS
       then [Out '' --- Elternprozess ---\<newline>'', Out fifo4_text, Out '' --- Ende ---\<newline>''] else [])"

definition fifo4_size :: "fifo4 \<Rightarrow> nat" where
  "fifo4_size s = (case parent4 s of P4open \<Rightarrow> 4 | P4arrived \<Rightarrow> 3 | P4wait \<Rightarrow> 2 | P4read \<Rightarrow> 1 | P4end _ \<Rightarrow> 0) +
     (case child4 s of C4open \<Rightarrow> 3 | C4arrived \<Rightarrow> 2 | C4write \<Rightarrow> 1 | C4end _ \<Rightarrow> 0)"

text \<open>Both have ended, or the child's \<^verbatim>\<open>open\<close> failed and the parent waits in its own for ever.\<close>

definition fifo4_rests :: "bool \<Rightarrow> fifo4 \<Rightarrow> bool" where
  "fifo4_rests ok s \<longleftrightarrow>
     (if ok then parent4 s = P4end EXIT_SUCCESS \<and> child4 s = C4end EXIT_SUCCESS
      else parent4 s = P4arrived \<and> child4 s = C4end EXIT_FAILURE)"

lemma fifo4_read:
  assumes "length buf = 100"
  shows "cstr ((fifo4_text @ drop (length fifo4_text) buf)[length fifo4_text := NUL]) = fifo4_text"
proof -
  have n: "length fifo4_text = 51" "no_nul fifo4_text" by (simp_all add: fifo4_text_def)
  then obtain x xs where "drop 51 buf = x # xs" using assms by (cases "drop 51 buf") auto
  then show ?thesis using n by (simp add: list_update_append)
qed

lemma fifo4_long: "take (min (max 1 (nat (int PIPE_BUF))) (length fifo4_text)) fifo4_text = fifo4_text"
  by (simp add: fifo4_text_def)

lemma fifo4_parent_step:
  assumes "fifo4_inv ok says s" and "fifo4_parent (int PIPE_BUF) s = Some s'"
  shows "fifo4_inv ok says s' \<and> fifo4_size s' < fifo4_size s"
proof (cases "parent4 s")
  case P4read
  with assms(1) have c: "ok" "child4 s = C4end 0" "in_fifo s = fifo4_text" "length (buf4 s) = 100" by (simp_all add: fifo4_inv_def)
  define buf where "buf = (fifo4_text @ drop (length fifo4_text) (buf4 s))[length fifo4_text := NUL]"
  have b: "cstr buf = fifo4_text" "length buf = 100"
    using fifo4_read [OF c(4)] c(4) by (simp_all add: buf_def fifo4_text_def)
  have "s' = s\<lparr>in_fifo := [], buf4 := buf, parent_says4 := parent_says4 s @
      [Out '' --- Elternprozess ---\<newline>'', Out fifo4_text, Out '' --- Ende ---\<newline>''], parent4 := P4end EXIT_SUCCESS\<rparr>"
    using P4read assms(2) c fifo4_long b(1) by (simp add: fifo4_parent_def Let_def buf_def [symmetric])
  with P4read assms(1) b c show ?thesis by (simp add: fifo4_inv_def fifo4_size_def)
next
  case P4open
  with assms show ?thesis by (auto simp: fifo4_inv_def fifo4_parent_def fifo4_size_def)
next
  case P4arrived
  with assms show ?thesis by (auto simp: fifo4_inv_def fifo4_parent_def fifo4_size_def split: if_splits)
next
  case P4wait
  with assms show ?thesis by (auto simp: fifo4_inv_def fifo4_parent_def fifo4_size_def split: if_splits c4pc.splits)
next
  case P4end
  with assms show ?thesis by (simp add: fifo4_parent_def)
qed

lemma fifo4_child_step:
  assumes "fifo4_inv ok says s" and "fifo4_turn ok Child s = Some s'"
  shows "fifo4_inv ok says s' \<and> fifo4_size s' < fifo4_size s"
proof (cases "child4 s")
  case C4open
  with assms show ?thesis by (cases "parent4 s") (auto simp: fifo4_inv_def fifo4_child_def fifo4_size_def Let_def split: if_splits)
next
  case C4arrived
  with assms show ?thesis by (auto simp: fifo4_inv_def fifo4_child_def fifo4_size_def split: if_splits)
next
  case C4write
  with assms show ?thesis by (auto simp: fifo4_inv_def fifo4_child_def fifo4_size_def split: if_splits)
next
  case C4end
  with assms show ?thesis by (simp add: fifo4_child_def)
qed

lemma fifo4_progress:
  assumes "fifo4_inv ok says s" and "\<not> fifo4_rests ok s"
  shows "\<exists>a s'. fifo4_turn ok a s = Some s'"
proof -
  have p: "\<exists>a s'. fifo4_turn ok a s = Some s'" if "fifo4_turn ok a s \<noteq> None" for a using that by auto
  show ?thesis
  proof (cases "child4 s")
    case C4open
    then show ?thesis by (intro p [of Child]) (simp add: fifo4_child_def Let_def)
  next
    case C4write
    then show ?thesis by (intro p [of Child]) (simp add: fifo4_child_def)
  next
    case C4arrived
    show ?thesis
    proof (cases "parent4 s = P4open")
      case True
      then show ?thesis by (intro p [of Parent]) (simp add: fifo4_parent_def)
    next
      case False
      with C4arrived assms(1) show ?thesis by (intro p [of Child]) (simp add: fifo4_child_def fifo4_inv_def)
    qed
  next
    case (C4end c)
    with assms show ?thesis
      by (intro p [of Parent]) (cases "parent4 s"; simp add: fifo4_parent_def fifo4_inv_def fifo4_rests_def Let_def split: if_splits)
  qed
qed

definition fifo4_begins :: "say list \<Rightarrow> fifo4 \<Rightarrow> bool" where
  "fifo4_begins says s \<longleftrightarrow> (\<exists>buf. length buf = 100 \<and> s = fifo4_start buf says)"

lemma fifo4_step:
  assumes "fifo4_inv ok says s" and "fifo4_turn ok a s = Some s'"
  shows "fifo4_inv ok says s' \<and> fifo4_size s' < fifo4_size s"
proof (cases a)
  case Parent
  with assms(2) have "fifo4_parent (int PIPE_BUF) s = Some s'" by (simp only: fifo4_turn.simps)
  then show ?thesis by (rule fifo4_parent_step [OF assms(1)])
next
  case Child
  with assms(2) fifo4_child_step [OF assms(1)] show ?thesis by blast
qed

lemma fifo4_begins_inv: "fifo4_begins says s \<Longrightarrow> fifo4_inv ok says s"
  by (auto simp: fifo4_begins_def fifo4_start_def fifo4_inv_def)

interpretation f4: terminating_protocol "fifo4_turn ok" "fifo4_begins says" "fifo4_inv ok says" fifo4_size "fifo4_rests ok"
    for ok says
  by unfold_locales (fact fifo4_begins_inv fifo4_step [THEN conjunct1] fifo4_step [THEN conjunct2] fifo4_progress)+

section \<open>Properties\<close>

text \<open>
  C19: \<^verbatim>\<open>pipe1.c\<close>: under every schedule of parent and child the program takes at most five steps; it
  then has copied what the parent's one \<^verbatim>\<open>read\<close> got of the file (at most \<^verbatim>\<open>PIPE_BUF\<close> bytes) to the
  standard output and both processes have ended. If the file is empty or that \<^verbatim>\<open>read\<close> fails, every schedule
  ends with both waiting for each other: the parent for the end of the child, the child for bytes,
  since the parent does not close its end of the pipe.
\<close>

theorem pipe1_copies:
  assumes "run (pipe1_turn content k) as pipe1_start = Some s"
  shows "length as \<le> 5 \<and> (\<exists>bs s'. run (pipe1_turn content k) bs s = Some s' \<and> pipe1_rests content k s') \<and>
    ((\<forall>a. pipe1_turn content k a s = None) \<longrightarrow>
       (if content = [] \<or> k < 0 then parent1 s = P1wait \<and> child1 s = C1read \<and> stdout1 s = []
        else parent1 s = P1end EXIT_SUCCESS \<and> child1 s = C1end EXIT_SUCCESS \<and>
          stdout1 s = take (max 1 (min (nat k) PIPE_BUF)) content \<and> said1 s = []))"
proof -
  have i0: "pipe1_inv content k pipe1_start" by (rule pipe1_start_inv) simp
  have i: "pipe1_inv content k s" by (rule p1.bounded.run_keeps [OF i0 assms])
  have len: "length as \<le> 5" using p1.run_bound [OF i0 assms] by (simp add: pipe1_size_def pipe1_start_def)
  have empty: "part1 content k = [] \<longleftrightarrow> content = [] \<or> k < 0" by (auto simp: part1_def taken_def)
  have all: "k \<ge> 0 \<Longrightarrow> part1 content k = take (max 1 (min (nat k) PIPE_BUF)) content" by (simp add: part1_def taken_def)
  have "pipe1_rests content k s" if "\<forall>a. pipe1_turn content k a s = None" using p1.stuck_final [OF i0 assms] that by blast
  moreover have "if content = [] \<or> k < 0 then parent1 s = P1wait \<and> child1 s = C1read \<and> stdout1 s = []
      else parent1 s = P1end EXIT_SUCCESS \<and> child1 s = C1end EXIT_SUCCESS \<and>
        stdout1 s = take (max 1 (min (nat k) PIPE_BUF)) content \<and> said1 s = []" if "pipe1_rests content k s"
    using that i all unfolding pipe1_rests_def empty by (auto simp: pipe1_inv_def Let_def split: if_splits)
  ultimately show ?thesis using len p1.can_finish [OF i] by blast
qed

theorem pipe1_copies_witness:
  "\<exists>s. run (pipe1_turn ''abc'' 4096) [Parent, Parent, Child, Child, Parent] pipe1_start = Some s \<and> stdout1 s = ''abc''"
proof -
  define s where "s = the (run (pipe1_turn ''abc'' 4096) [Parent, Parent, Child, Child, Parent] pipe1_start)"
  have r: "run (pipe1_turn ''abc'' 4096) [Parent, Parent, Child, Child, Parent] pipe1_start = Some s"
    and stop: "pipe1_turn ''abc'' 4096 Parent s = None" "pipe1_turn ''abc'' 4096 Child s = None"
    unfolding s_def by code_simp+
  have "\<forall>a. pipe1_turn ''abc'' 4096 a s = None" using stop process.exhaust by metis
  with pipe1_copies [OF r] have "stdout1 s = take (max 1 (min (nat 4096) PIPE_BUF)) ''abc''" by auto
  with r show ?thesis by (intro exI [of _ s]) simp
qed

text \<open>
  \<^verbatim>\<open>pipe2.c\<close>: when a line can be typed, every schedule takes at most four steps, can be continued to
  the end, and ends with exactly this line (cut at the size of the array) behind the old contents of the
  file, without a string that is not terminated.
\<close>

theorem pipe2_appends:
  assumes "inp \<noteq> []" and "no_nul inp" and "run pipe2_turn as (pipe2_start arr inp old) = Some s"
  shows "length as \<le> 4 \<and> (\<exists>bs s'. run pipe2_turn bs s = Some s' \<and> pipe2_over s') \<and>
    ((\<forall>a. pipe2_turn a s = None) \<longrightarrow>
       pipe2_over s \<and> newfile s = old @ fst (line_upto (PIPE_BUF - 1) inp) \<and> \<not> fault2 s)"
proof -
  define l where "l = top_line inp"
  have "pipe2_begins l old (pipe2_start arr inp old)" using assms(1,2) by (auto simp: pipe2_begins_def l_def)
  then have i0: "pipe2_good l old (pipe2_start arr inp old)" by (rule pipe2_begins_good)
  have i: "pipe2_good l old s" by (rule p2.bounded.run_keeps [OF i0 assms(3)])
  have len: "length as \<le> 4" using p2.run_bound [OF i0 assms(3)] by (simp add: pipe2_size_def pipe2_start_def)
  have "newfile s = old @ l \<and> \<not> fault2 s" if "pipe2_over s"
    using that i by (simp add: pipe2_good_def pipe2_inv_def pipe2_over_def)
  then show ?thesis using len p2.can_finish [OF i] p2.stuck_final [OF i0 assms(3)] unfolding l_def top_line_def by blast
qed

theorem pipe2_appends_witness:
  "\<exists>s. run pipe2_turn [Parent, Parent, Child, Child] (pipe2_start ''x'' ''ab\<newline>c'' ''old'') = Some s \<and> newfile s = ''oldab\<newline>''"
proof -
  define s where "s = the (run pipe2_turn [Parent, Parent, Child, Child] (pipe2_start ''x'' ''ab\<newline>c'' ''old''))"
  have r: "run pipe2_turn [Parent, Parent, Child, Child] (pipe2_start ''x'' ''ab\<newline>c'' ''old'') = Some s"
    and stop: "pipe2_turn Parent s = None" "pipe2_turn Child s = None"
    unfolding s_def by code_simp+
  have "\<forall>a. pipe2_turn a s = None" using stop process.exhaust by metis
  with pipe2_appends [OF _ _ r] have "newfile s = ''old'' @ fst (line_upto (PIPE_BUF - 1) ''ab\<newline>c'')"
    by (auto simp: no_nul_def)
  moreover have "line_upto (PIPE_BUF - 1) ''ab\<newline>c'' = (''ab\<newline>'', ''c'')"
    using line_upto_line [of "''ab''" "PIPE_BUF - 1" "''c''"] by simp
  ultimately have "newfile s = ''oldab\<newline>''" by (simp only: fst_conv append.simps)
  with r show ?thesis by blast
qed

text \<open>
  C22: \<^verbatim>\<open>fifo4.c\<close>: under every schedule, opening the two ends of the FIFO does not lock the processes
  against each other, the child's text arrives whole although the child has ended before it is read, and
  both processes end. But if the child's \<^verbatim>\<open>open\<close> fails, the child ends and the parent waits for a
  writer for ever.
\<close>

theorem fifo4_delivers:
  assumes "length buf = 100" and "run (fifo4_turn ok) as (fifo4_start buf says) = Some s"
  shows "length as \<le> 7 \<and> (\<exists>bs s'. run (fifo4_turn ok) bs s = Some s' \<and> fifo4_rests ok s') \<and>
    ((\<forall>a. fifo4_turn ok a s = None) \<longrightarrow>
       (if ok then parent4 s = P4end EXIT_SUCCESS \<and> child4 s = C4end EXIT_SUCCESS \<and> in_fifo s = [] \<and>
          parent_says4 s = says @ [Out '' --- Elternprozess ---\<newline>'', Out fifo4_text, Out '' --- Ende ---\<newline>'']
        else parent4 s = P4arrived \<and> child4 s = C4end EXIT_FAILURE))"
proof -
  have "fifo4_begins says (fifo4_start buf says)" using assms(1) by (auto simp: fifo4_begins_def)
  then have i0: "fifo4_inv ok says (fifo4_start buf says)" by (rule fifo4_begins_inv)
  have i: "fifo4_inv ok says s" by (rule f4.bounded.run_keeps [OF i0 assms(2)])
  have len: "length as \<le> 7" using f4.run_bound [OF i0 assms(2)] by (simp add: fifo4_size_def fifo4_start_def)
  have "if ok then parent4 s = P4end EXIT_SUCCESS \<and> child4 s = C4end EXIT_SUCCESS \<and> in_fifo s = [] \<and>
          parent_says4 s = says @ [Out '' --- Elternprozess ---\<newline>'', Out fifo4_text, Out '' --- Ende ---\<newline>'']
        else parent4 s = P4arrived \<and> child4 s = C4end EXIT_FAILURE" if "fifo4_rests ok s"
  proof -
    have f: "in_fifo s = (if child4 s = C4end EXIT_SUCCESS \<and> parent4 s \<noteq> P4end EXIT_SUCCESS then fifo4_text else [])"
      "parent_says4 s = says @ (if parent4 s = P4end EXIT_SUCCESS
         then [Out '' --- Elternprozess ---\<newline>'', Out fifo4_text, Out '' --- Ende ---\<newline>''] else [])"
      using i unfolding fifo4_inv_def by blast+
    show ?thesis
    proof (cases ok)
      case True
      with that have "parent4 s = P4end EXIT_SUCCESS \<and> child4 s = C4end EXIT_SUCCESS" by (simp add: fifo4_rests_def)
      with f True show ?thesis by simp
    next
      case False
      with that show ?thesis by (simp add: fifo4_rests_def)
    qed
  qed
  then show ?thesis using len f4.can_finish [OF i] f4.stuck_final [OF i0 assms(2)] by blast
qed

theorem fifo4_delivers_witness:
  "\<exists>s. run (fifo4_turn True) [Child, Parent, Child, Child, Parent, Parent, Parent] (fifo4_start (replicate 100 NUL) []) = Some s \<and>
     parent4 s = P4end EXIT_SUCCESS"
proof -
  define s where "s = the (run (fifo4_turn True) [Child, Parent, Child, Child, Parent, Parent, Parent] (fifo4_start (replicate 100 NUL) []))"
  have r: "run (fifo4_turn True) [Child, Parent, Child, Child, Parent, Parent, Parent] (fifo4_start (replicate 100 NUL) []) = Some s"
    and stop: "fifo4_turn True Parent s = None" "fifo4_turn True Child s = None"
    unfolding s_def by code_simp+
  have "\<forall>a. fifo4_turn True a s = None" using stop process.exhaust by metis
  with fifo4_delivers [OF _ r] have "parent4 s = P4end EXIT_SUCCESS" by simp
  with r show ?thesis by blast
qed

end
