(* ===== verification/PipeFilter.thy ===== *)
theory PipeFilter
  imports PrintQueue
begin

text \<open>
  Programs of \<^verbatim>\<open>src/09_IPC\<close> that feed other programs: \<^verbatim>\<open>popen1.c\<close> and \<^verbatim>\<open>pipe3b.c\<close> send a file through the
  word filter of \<open>PrintQueue\<close>, \<^verbatim>\<open>pipe3.c\<close> through \<^verbatim>\<open>less\<close>; \<^verbatim>\<open>polling_fifo.c\<close> prints what the programs
  \<^verbatim>\<open>sender.c\<close> put into its FIFO; \<^verbatim>\<open>fifo2.c\<close> talks to itself; \<^verbatim>\<open>popen2.c\<close> hands a mail to \<^verbatim>\<open>sendmail\<close>. The
  reader of a pipe gets all of it and ends at its end, so the two programs of a pipeline compose as
  functions. Character arrays are lists of their full length with indeterminate first contents.
\<close>

section \<open>\<^verbatim>\<open>popen1.c\<close>\<close>

text \<open>The array has eight times \<^verbatim>\<open>PIPE_BUF\<close> characters. \<open>puts_ok\<close>: which calls of \<^verbatim>\<open>fputs\<close> succeed.\<close>

abbreviation MAXBUF :: nat where "MAXBUF \<equiv> 32768"

function popen1_loop :: "bool list \<Rightarrow> string \<Rightarrow> string \<Rightarrow> (int \<times> say list) \<times> string" where
  "popen1_loop puts_ok content sent =
     (case fgets MAXBUF content of
        None \<Rightarrow> ((EXIT_SUCCESS, []), sent)
      | Some (line, rest) \<Rightarrow>
          (case puts_ok of
             False # _ \<Rightarrow> ((EXIT_FAILURE, [Err ''Fehler bie fputs() ...\<newline>'']), sent)
           | _ \<Rightarrow> popen1_loop (tl puts_ok) rest (sent @ cstr line)))"
  by pat_completeness auto
termination by (relation "measure (\<lambda>(p, c, s). length c)") (auto dest: fgets_shorter)

declare popen1_loop.simps [simp del]

text \<open>The second component is the input of the filter, when it is started.\<close>

definition popen1_main :: "string list \<Rightarrow> bool \<Rightarrow> bool \<Rightarrow> bool list \<Rightarrow> string \<Rightarrow> (int \<times> say list) \<times> string option" where
  "popen1_main argv open_ok popen_ok puts_ok content =
     (if length argv \<noteq> 2 then ((EXIT_FAILURE, [Err (''Usage: '' @ concat (take 1 argv) @ '' DateiZumLesen\<newline>'')]), None)
      else if \<not> open_ok then ((EXIT_FAILURE, [Err ''Fehler bei fopen() ...\<newline>'']), None)
      else if \<not> popen_ok then ((EXIT_FAILURE, [Err ''Fehler bei popen ...\<newline>'']), None)
      else (case popen1_loop puts_ok content [] of (r, sent) \<Rightarrow> (r, Some sent)))"

section \<open>\<^verbatim>\<open>pipe3.c\<close> and \<^verbatim>\<open>pipe3b.c\<close>\<close>

text \<open>
  \<^verbatim>\<open>fread\<close> of \<^verbatim>\<open>PIPE_BUF\<close> bytes and \<^verbatim>\<open>fputs\<close> of the array; nobody puts an end to the string. The arrays
  differ: \<^verbatim>\<open>PIPE_BUF\<close> characters in \<^verbatim>\<open>pipe3.c\<close>, eight times as many in \<^verbatim>\<open>pipe3b.c\<close>.
\<close>

definition fread_fputs :: "char list \<Rightarrow> string \<Rightarrow> string cres" where
  "fread_fputs arr content =
     (let d = take 4096 content; a = d @ drop (length d) arr in
      if terminated a then Inr (cstr a) else Inl OutOfBounds)"

definition pipe3_parent :: "bool \<Rightarrow> bool \<Rightarrow> char list \<Rightarrow> string \<Rightarrow> (int \<times> say list \<times> string) cres" where
  "pipe3_parent fdopen_ok wait_ok arr content =
     (if \<not> fdopen_ok then Inr (EXIT_FAILURE, [Err ''Fehler bei fdopen() ...\<newline>''], [])
      else case fread_fputs arr content of
        Inl f \<Rightarrow> Inl f
      | Inr sent \<Rightarrow>
          (if wait_ok then Inr (EXIT_SUCCESS, [], sent)
           else Inr (EXIT_FAILURE, [Err ''Fehler bei waitpid() ...\<newline>''], sent)))"

text \<open>\<open>stdin_free\<close>: the pipe got descriptor 0 itself. \<open>prog\<close> is the program that is started.\<close>

definition pipe3_child :: "bool \<Rightarrow> bool \<Rightarrow> bool \<Rightarrow> (string \<Rightarrow> string) \<Rightarrow> string \<Rightarrow> (int \<times> say list) + string" where
  "pipe3_child stdin_free dup_ok exec_ok prog inp =
     (if \<not> stdin_free \<and> \<not> dup_ok then Inl (EXIT_FAILURE, [Err ''Fehler bei dup2() ...\<newline>''])
      else if \<not> exec_ok then Inl (EXIT_FAILURE, [Err ''Fehler bei execl() ...\<newline>''])
      else Inr (prog inp))"

definition pipe3b_parent :: "bool \<Rightarrow> bool \<Rightarrow> char list \<Rightarrow> string \<Rightarrow> (int \<times> say list \<times> string) cres" where
  "pipe3b_parent = pipe3_parent"

definition pipe3b_child :: "bool \<Rightarrow> bool \<Rightarrow> bool \<Rightarrow> string \<Rightarrow> (int \<times> say list) + string" where
  "pipe3b_child stdin_free dup_ok exec_ok = pipe3_child stdin_free dup_ok exec_ok filter_main"

text \<open>What comes before: the argument, the file, the pipe and the child.\<close>

definition pipe3_setup :: "string list \<Rightarrow> bool \<Rightarrow> bool \<Rightarrow> bool \<Rightarrow> (int \<times> say list) option" where
  "pipe3_setup argv open_ok pipe_ok fork_ok =
     (if length argv \<noteq> 2 then Some (EXIT_FAILURE, [Err (''Usage: '' @ concat (take 1 argv) @ '' DateiZumLesen\<newline>'')])
      else if \<not> open_ok then Some (EXIT_FAILURE, [Err ''Fehler bei fopen() ...\<newline>''])
      else if \<not> pipe_ok then Some (EXIT_FAILURE, [Err ''Fehler bei pipe() ...\<newline>''])
      else if \<not> fork_ok then Some (EXIT_FAILURE, [Err ''Fehler bei fork() ...\<newline>''])
      else None)"

definition pipe3b_setup :: "string list \<Rightarrow> bool \<Rightarrow> bool \<Rightarrow> bool \<Rightarrow> (int \<times> say list) option" where
  "pipe3b_setup = pipe3_setup"

section \<open>\<^verbatim>\<open>polling_fifo.c\<close> and \<^verbatim>\<open>fifo2.c\<close>\<close>

text \<open>
  The results of the reads: the count and the bytes. The text is printed, since sending it to the
  printer is commented out.
\<close>

definition polling_drucker :: "bool \<Rightarrow> char list \<Rightarrow> ((int \<times> say list) + say list) cres" where
  "polling_drucker popen_ok arr =
     (if \<not> popen_ok then Inr (Inl (EXIT_FAILURE, [Perror ''popen()'']))
      else if \<not> terminated arr then Inl OutOfBounds
      else Inr (Inr [Out ''Sende Auftrag an den Drucker\<newline>'', Out (cstr arr)]))"

fun polling_rounds :: "bool \<Rightarrow> char list \<Rightarrow> (int \<times> string) list \<Rightarrow> say list \<Rightarrow> (int option \<times> say list) cres" where
  "polling_rounds popen_ok arr [] out = Inr (None, out)"
| "polling_rounds popen_ok arr ((n, d) # rs) out =
     (if n = 0 then polling_rounds popen_ok arr rs out
      else (let a = (if n < 0 then arr else d @ drop (length d) arr) in
        case polling_drucker popen_ok a of
          Inl f \<Rightarrow> Inl f
        | Inr (Inl (c, says)) \<Rightarrow> Inr (Some c, out @ says)
        | Inr (Inr says) \<Rightarrow> polling_rounds popen_ok a rs (out @ says)))"

definition polling_main :: "mkfifo_result \<Rightarrow> bool \<Rightarrow> bool \<Rightarrow> char list \<Rightarrow> (int \<times> string) list \<Rightarrow> (int option \<times> say list) cres" where
  "polling_main made open_ok popen_ok arr rs =
     (case made of
        Refused \<Rightarrow> Inr (Some EXIT_FAILURE, [Perror ''mkfifo()''])
      | _ \<Rightarrow>
          (let says = (if made = Exists then [Out ''Versuche vorhandene FIFO zu verwenden.\<newline>''] else []) in
           if \<not> open_ok then Inr (Some EXIT_FAILURE, says @ [Perror ''open()''])
           else polling_rounds popen_ok arr rs says))"

definition fifo2_text :: string where
  "fifo2_text = ''Dieser Text ist f'' @ [CHR 0xC3, CHR 0xBC] @ ''r die FIFO\<newline>''"

text \<open>\<open>w\<close> and \<open>r\<close>: the results that the environment wants for \<^verbatim>\<open>write\<close> and \<^verbatim>\<open>read\<close>.\<close>

definition fifo2_main :: "mkfifo_result \<Rightarrow> bool \<Rightarrow> int \<Rightarrow> int \<Rightarrow> char list \<Rightarrow> (int \<times> say list) cres" where
  "fifo2_main made open_ok w r buf =
     (let says = (if made = Made then [] else [Perror ''mkfifo()'']) in
      if made = Refused then Inr (EXIT_FAILURE, says)
      else if \<not> open_ok then Inr (EXIT_FAILURE, says @ [Perror ''open()''])
      else (let sent = (if w < 0 then [] else take (nat w) fifo2_text); n = (if w < 0 then -1 else int (length sent)) in
        if n < 0 \<or> r < 0 then Inr (EXIT_FAILURE, says @ [Perror ''read()''])
        else (let d = take (min (nat n) (nat r)) sent; b = d @ drop (length d) buf in
          if terminated b then Inr (EXIT_SUCCESS, says @ [Out (''Gelesen aus der FIFO: '' @ cstr b @ ''\<newline>'')])
          else Inl OutOfBounds)))"

section \<open>\<^verbatim>\<open>popen2.c\<close>\<close>

abbreviation BUF1 :: nat where "BUF1 \<equiv> 255"

text \<open>One header line: the array, and the rest of the input.\<close>

definition head_line :: "char list \<Rightarrow> string \<Rightarrow> char list \<times> string" where
  "head_line a inp = (case fgets BUF1 inp of None \<Rightarrow> (a, inp) | Some (l, rest) \<Rightarrow> (put_string a l, rest))"

text \<open>\<^verbatim>\<open>sub[strlen(sub) - 1] = '\0'\<close>.\<close>

definition chop :: "char list \<Rightarrow> char list cres" where
  "chop a = (if \<not> terminated a \<or> cstr a = [] then Inl OutOfBounds else Inr (a[length (cstr a) - 1 := NUL]))"

text \<open>
  \<^verbatim>\<open>sendmail\<close>: \<open>which\<close> is what \<^verbatim>\<open>which sendmail\<close> prints, without bound read into an array of 255
  characters that is not initialised before. The second component is the input of \<^verbatim>\<open>sendmail\<close>, when it is started.
\<close>

definition sendmail :: "bool \<Rightarrow> string \<Rightarrow> bool \<Rightarrow> string \<Rightarrow> string \<Rightarrow> string \<Rightarrow> string
    \<Rightarrow> ((int option \<times> say list) \<times> string option) cres" where
  "sendmail which_ok which popen_ok to from subject inhalt =
     (if \<not> which_ok then Inr ((Some EXIT_FAILURE, [Perror ''popen()'']), None)
      else if which = [] \<or> BUF1 \<le> length which + 8 then Inl OutOfBounds
      else if \<not> popen_ok then Inr ((Some EXIT_FAILURE, [Err ''Konnte keine Verbindung zu sendmail aufbauen!\<newline>'']), None)
      else Inr ((None, [Out (''Mail wurde versendet an: '' @ to @ ''\<newline>'')]),
        Some (''From:'' @ from @ '' To:'' @ to @ ''Subject:'' @ subject @ ''\<newline>'' @ inhalt @ ''\<newline>'')))"

definition popen2_main :: "bool \<Rightarrow> string \<Rightarrow> bool \<Rightarrow> char list \<Rightarrow> char list \<Rightarrow> char list \<Rightarrow> char list \<Rightarrow> char list \<Rightarrow> string
    \<Rightarrow> ((int \<times> say list) \<times> string option) cres" where
  "popen2_main which_ok which popen_ok to0 from0 sub0 inhalt0 puffer0 inp =
     (case head_line to0 inp of (to, r1) \<Rightarrow> case head_line from0 r1 of (from, r2) \<Rightarrow> case head_line sub0 r2 of (sub, r3) \<Rightarrow>
        case chop sub of Inl f \<Rightarrow> Inl f | Inr sub' \<Rightarrow>
          (case collect (BUF1 - 3) ''>'' puffer0 (inhalt0[0 := NUL]) r3
             [Out ''Mail to: '', Out ''Mail from: '', Out ''Betreff: '', Out ''Inhalt (beenden mit CTR+D) \<newline>>''] of
             Inl f \<Rightarrow> Inl f
           | Inr (pf, ih, rest, out) \<Rightarrow>
               (let inhalt' = terminate_at_end ih in
                if \<not> terminated to \<or> \<not> terminated from then Inl OutOfBounds
                else case sendmail which_ok which popen_ok (cstr to) (cstr from) (cstr sub') (cstr inhalt') of
                  Inl f \<Rightarrow> Inl f
                | Inr ((Some c, says), m) \<Rightarrow> Inr ((c, out @ says), m)
                | Inr ((None, says), m) \<Rightarrow> Inr ((EXIT_SUCCESS, out @ says), m))))"

section \<open>Properties\<close>

lemma popen1_loop_all:
  assumes "no_nul content" and "False \<notin> set puts_ok"
  shows "popen1_loop puts_ok content sent = ((EXIT_SUCCESS, []), sent @ content)"
  using assms
proof (induction puts_ok content sent rule: popen1_loop.induct)
  case (1 puts_ok content sent)
  show ?case
  proof (cases "fgets MAXBUF content")
    case None
    then have "content = []" by (simp add: fgets_def split: if_splits)
    with None show ?thesis by (subst popen1_loop.simps) simp
  next
    case (Some lr)
    then obtain l r where lr: "fgets MAXBUF content = Some (l, r)" by (cases lr) auto
    have c: "content = l @ r" using fgets_split [OF lr] by simp
    then have n: "no_nul l" "no_nul r" using "1.prems"(1) by simp_all
    have "False \<notin> set (tl puts_ok)" using "1.prems"(2) set_tl_subset by fast
    with "1.IH" [OF lr refl] n(2) "1.prems"(2)
    have "popen1_loop (tl puts_ok) r (sent @ cstr l) = ((EXIT_SUCCESS, []), (sent @ cstr l) @ r)"
      by (cases puts_ok) (auto split: bool.splits)
    moreover have "popen1_loop puts_ok content sent = popen1_loop (tl puts_ok) r (sent @ cstr l)"
      using lr "1.prems"(2) by (subst popen1_loop.simps) (auto split: list.split bool.split)
    ultimately show ?thesis using c n by simp
  qed
qed

lemma fread_fputs_short:
  assumes "no_nul content" and "length content < 4096" and "length content < length arr" and "arr ! length content = NUL"
  shows "fread_fputs arr content = Inr content"
proof -
  have "drop (length content) arr = NUL # drop (Suc (length content)) arr"
    using assms(3,4) by (metis Cons_nth_drop_Suc)
  with assms(1,2) show ?thesis by (simp add: fread_fputs_def Let_def)
qed

text \<open>
  C35: the two pipelines around the word filter, \<^verbatim>\<open>popen1.c\<close> and \<^verbatim>\<open>pipe3b.c\<close>, show what the filter makes of
  the whole file, none of its words among it; \<^verbatim>\<open>pipe3b.c\<close> only for a file of less than
  \<^verbatim>\<open>PIPE_BUF\<close> characters and with an array that happens to hold a NUL behind them. \<^verbatim>\<open>pipe3.c\<close> reads
  behind its array for every longer file.
\<close>

theorem pipelines_filter:
  assumes "no_nul content" and "False \<notin> set puts_ok" and "length argv = 2"
  shows "popen1_main argv True True puts_ok content = ((EXIT_SUCCESS, []), Some content) \<and>
    (length arr = MAXBUF \<and> length content < 4096 \<and> arr ! length content = NUL \<longrightarrow>
       pipe3b_parent True True arr content = Inr (EXIT_SUCCESS, [], content) \<and>
       pipe3b_child False True True content = Inr (filter_main content)) \<and>
    (length arr3 = 4096 \<and> 4096 \<le> length content \<longrightarrow> pipe3_parent True True arr3 content = Inl OutOfBounds) \<and>
    \<not> (\<exists>f \<in> set filterwords. sublist f (filter_main content))"
proof (intro conjI impI)
  show "popen1_main argv True True puts_ok content = ((EXIT_SUCCESS, []), Some content)"
    using assms(3) popen1_loop_all [OF assms(1,2), of "[]"] by (simp add: popen1_main_def)
next
  assume a: "length arr = MAXBUF \<and> length content < 4096 \<and> arr ! length content = NUL"
  then have "fread_fputs arr content = Inr content" by (intro fread_fputs_short assms(1)) simp_all
  then show "pipe3b_parent True True arr content = Inr (EXIT_SUCCESS, [], content)"
    by (simp add: pipe3b_parent_def pipe3_parent_def)
  show "pipe3b_child False True True content = Inr (filter_main content)" by (simp add: pipe3b_child_def pipe3_child_def)
next
  assume "length arr3 = 4096 \<and> 4096 \<le> length content"
  moreover from this have "no_nul (take 4096 content)"
    using assms(1) append_take_drop_id [of 4096 content] no_nul_append by metis
  ultimately show "pipe3_parent True True arr3 content = Inl OutOfBounds"
    by (simp add: pipe3_parent_def fread_fputs_def Let_def terminated_def no_nul_def)
next
  show "\<not> (\<exists>f \<in> set filterwords. sublist f (filter_main content))"
    using filter_main_spaced [of content] by (auto simp: spaced_def free_of_words_def)
qed

text \<open>What a sender puts into the FIFO.\<close>

lemma sender_message:
  assumes "length puffer0 = BUFSZ" and "length inhalt0 = BUFSZ" and "no_nul inp" and "length inp < BUFSZ"
  shows "\<exists>out. sender_main True puffer0 inhalt0 inp = Inr (EXIT_SUCCESS, out, [WriteFifo ''fifo.polling'' (inp @ [NUL])])"
proof -
  define b where "b = inhalt0[0 := NUL]"
  obtain x xs where "inhalt0 = x # xs" using assms(2) by (cases inhalt0) auto
  then have b: "terminated b" "cstr b = []" "length b = BUFSZ" using assms(2) by (simp_all add: b_def terminated_def cstr_def)
  have "BUFSZ - 2 + 2 \<le> length puffer0" using assms(1) by simp
  from collect_ok [OF b(1) this, of "''>''" inp "[Out ''Bitte Nachricht an FIFO eingeben (mit CTRL+D beenden\<newline>>'']"] b assms(3,4)
  obtain p' b' rest out where c: "collect (BUFSZ - 2) ''>'' puffer0 b inp [Out ''Bitte Nachricht an FIFO eingeben (mit CTRL+D beenden\<newline>>'']
      = Inr (p', b', rest, out)" "terminated b'" "cstr b' = inp" by auto
  have m: "cstr (terminate_at_end b') = inp" "terminated (terminate_at_end b')"
    using terminate_at_end_ok [OF c(2)] c(3) by simp_all
  then obtain t where "terminate_at_end b' = inp @ NUL # t" using terminated_split [OF m(2)] by auto
  then have "take (length (cstr (terminate_at_end b')) + 1) (terminate_at_end b') = inp @ [NUL]" using m(1) by simp
  with c(1) show ?thesis by (simp add: sender_main_def Let_def b_def [symmetric])
qed

theorem pipelines_filter_witness:
  "popen1_main [''p'', ''f''] True True [] ''Hallo'' = ((EXIT_SUCCESS, []), Some ''Hallo'') \<and>
   pipe3b_parent True True (replicate MAXBUF NUL) ''Hallo'' = Inr (EXIT_SUCCESS, [], ''Hallo'')"
proof -
  have "length (replicate MAXBUF NUL) = MAXBUF \<and> length ''Hallo'' < 4096 \<and> replicate MAXBUF NUL ! length ''Hallo'' = NUL"
    by simp
  with pipelines_filter [of "''Hallo''" "[]" "[''p'', ''f'']" "replicate MAXBUF NUL"] show ?thesis by simp
qed

text \<open>One run of a sender: its arrays at the start and what is typed.\<close>

definition sender_ok :: "char list \<times> char list \<times> string \<Rightarrow> bool" where
  "sender_ok x = (case x of (p0, i0, inp) \<Rightarrow> length p0 = BUFSZ \<and> length i0 = BUFSZ \<and> no_nul inp \<and> length inp < BUFSZ)"

definition sends :: "char list \<times> char list \<times> string \<Rightarrow> string \<Rightarrow> bool" where
  "sends x m = (case x of (p0, i0, inp) \<Rightarrow>
     (case sender_main True p0 i0 inp of
        Inr (c, out, ops) \<Rightarrow> c = EXIT_SUCCESS \<and> ops = [WriteFifo ''fifo.polling'' m]
      | Inl f \<Rightarrow> False))"

definition polled :: "char list \<times> char list \<times> string \<Rightarrow> say list" where
  "polled x = [Out ''Sende Auftrag an den Drucker\<newline>'', Out (snd (snd x))]"

lemma sends_message:
  assumes "sender_ok x"
  shows "sends x m \<longleftrightarrow> m = snd (snd x) @ [NUL]"
proof -
  obtain p0 i0 inp where x: "x = (p0, i0, inp)" by (cases x)
  with assms sender_message [of p0 i0 inp] show ?thesis by (auto simp: sender_ok_def sends_def)
qed

lemma polling_rounds_senders:
  assumes "list_all sender_ok xs" and "list_all2 sends xs ms"
  shows "polling_rounds True arr (map (\<lambda>m. (int (length m), m)) ms) out = Inr (None, out @ concat (map polled xs))"
  using assms(2,1)
proof (induction xs ms arbitrary: arr out rule: list_all2_induct)
  case (Cons x xs m ms)
  then have m: "m = snd (snd x) @ [NUL]" and n: "no_nul (snd (snd x))"
    using sends_message [of x m] by (auto simp: sender_ok_def)
  define a where "a = m @ drop (length m) arr"
  have "terminated a" "cstr a = snd (snd x)" using m n by (simp_all add: a_def)
  with m n Cons show ?case by (simp add: Let_def a_def [symmetric] polling_drucker_def polled_def)
qed simp

text \<open>
  \<^verbatim>\<open>sender.c\<close> and \<^verbatim>\<open>polling_fifo.c\<close> together: when the messages of any number of senders are read one at a
  time, the service prints exactly what was typed into each, in order, whatever its array still holds from
  longer messages, because a sender writes the end of its string too.
\<close>

theorem polling_prints_senders:
  assumes "list_all sender_ok xs" and "list_all2 sends xs ms" and "made \<noteq> Refused"
  shows "polling_main made True True arr (map (\<lambda>m. (int (length m), m)) ms) =
    Inr (None, (if made = Exists then [Out ''Versuche vorhandene FIFO zu verwenden.\<newline>''] else []) @
      concat (map (\<lambda>(p0, i0, inp). [Out ''Sende Auftrag an den Drucker\<newline>'', Out inp]) xs))"
proof -
  have "polled = (\<lambda>(p0, i0, inp). [Out ''Sende Auftrag an den Drucker\<newline>'', Out inp])"
    by (rule ext) (simp add: polled_def split: prod.split)
  with assms(3) polling_rounds_senders [OF assms(1,2)] show ?thesis
    by (cases made) (simp_all add: polling_main_def)
qed

theorem polling_prints_senders_witness:
  "polling_main Made True True (replicate BUFSZ NUL) [(3, ''ab'' @ [NUL])] =
     Inr (None, [Out ''Sende Auftrag an den Drucker\<newline>'', Out ''ab''])"
proof -
  define x where "x = (replicate BUFSZ NUL, replicate BUFSZ NUL, ''ab'')"
  have ok: "sender_ok x" unfolding x_def sender_ok_def prod.case length_replicate by (simp add: no_nul_def)
  then have "sends x (''ab'' @ [NUL])" using sends_message [OF ok] by (simp add: x_def)
  with ok polling_prints_senders [of "[x]" "[''ab'' @ [NUL]]" Made "replicate BUFSZ NUL"] show ?thesis
    by (simp add: x_def)
qed

text \<open>Two messages that one read delivers: the second one is lost behind the NUL of the first.\<close>

lemma polling_loses:
  assumes "no_nul m1" and "m1 \<noteq> []"
  shows "polling_rounds True arr [(int (length (m1 @ NUL # m2)), m1 @ NUL # m2)] [] =
    Inr (None, [Out ''Sende Auftrag an den Drucker\<newline>'', Out m1])"
  using assms by (simp add: polling_drucker_def Let_def)

text \<open>A line of the header.\<close>

definition header_ok :: "string \<Rightarrow> bool" where
  "header_ok t \<longleftrightarrow> no_nul t \<and> LF \<notin> set t \<and> length t < BUF1 - 1"

lemma head_line_typed: "header_ok t \<Longrightarrow> head_line a (t @ LF # rest) = (put_string a (t @ [LF]), rest)"
  using line_upto_line [of t "BUF1 - 1" rest] by (simp add: head_line_def fgets_def header_ok_def)

lemma chop_line:
  assumes "no_nul t"
  shows "\<exists>b. chop (put_string a (t @ [LF])) = Inr b \<and> cstr b = t"
proof -
  have "cstr (put_string a (t @ [LF])) = t @ [LF]" using assms by (simp add: cstr_put_string)
  then have "chop (put_string a (t @ [LF])) = Inr ((put_string a (t @ [LF]))[length t := NUL])" by (simp add: chop_def)
  moreover have "(put_string a (t @ [LF]))[length t := NUL] = t @ NUL # NUL # drop (Suc (Suc (length t))) a"
    by (simp add: put_string_def list_update_append)
  ultimately show ?thesis using assms by simp
qed

text \<open>
  \<^verbatim>\<open>popen2.c\<close>: three header lines and a text of less than 8192 characters are handed to \<^verbatim>\<open>sendmail\<close> without
  loss and without a write behind any of the five arrays. The result shows the format of the mail:
  the line of the receiver begins with a space, so it continues the line before, and no
  empty line separates the text from the header.
\<close>

theorem mail_complete:
  assumes "header_ok t" and "header_ok f" and "header_ok s" and "no_nul content" and "length content < 8192"
    and "length inhalt0 = 8192" and "length puffer0 = BUF1" and "which \<noteq> []" and "length which < BUF1 - 8"
  shows "\<exists>out. popen2_main True which True to0 from0 sub0 inhalt0 puffer0 (t @ LF # f @ LF # s @ LF # content) =
    Inr ((EXIT_SUCCESS, out),
      Some (''From:'' @ f @ LF # '' To:'' @ t @ LF # ''Subject:'' @ s @ LF # content @ [LF]))"
proof -
  define b where "b = inhalt0[0 := NUL]"
  define out0 where "out0 = [Out ''Mail to: '', Out ''Mail from: '', Out ''Betreff: '', Out ''Inhalt (beenden mit CTR+D) \<newline>>'']"
  obtain x xs where "inhalt0 = x # xs" using assms(6) by (cases inhalt0) auto
  then have b: "terminated b" "cstr b = []" "length b = 8192" using assms(6) by (simp_all add: b_def terminated_def cstr_def)
  have "BUF1 - 3 + 2 \<le> length puffer0" using assms(7) by simp
  from collect_ok [OF b(1) this, of "''>''" content out0] b assms(4,5)
  obtain p' i' rest out where c: "collect (BUF1 - 3) ''>'' puffer0 b content out0 = Inr (p', i', rest, out)"
    "terminated i'" "cstr i' = content" by auto
  have m: "cstr (terminate_at_end i') = content" using terminate_at_end_ok [OF c(2)] c(3) by simp
  obtain sub' where sub: "chop (put_string sub0 (s @ [LF])) = Inr sub'" "cstr sub' = s"
    using chop_line assms(3) unfolding header_ok_def by blast
  have n: "no_nul t" "no_nul f" using assms(1,2) by (simp_all add: header_ok_def)
  have "popen2_main True which True to0 from0 sub0 inhalt0 puffer0 (t @ LF # f @ LF # s @ LF # content) =
    Inr ((EXIT_SUCCESS, out @ [Out (''Mail wurde versendet an: '' @ (t @ [LF]) @ ''\<newline>'')]),
      Some (''From:'' @ (f @ [LF]) @ '' To:'' @ (t @ [LF]) @ ''Subject:'' @ s @ ''\<newline>'' @ content @ ''\<newline>''))"
    unfolding popen2_main_def head_line_typed [OF assms(1)] head_line_typed [OF assms(2)] head_line_typed [OF assms(3)]
      prod.case sub(1) sum.case b_def [symmetric] out0_def [symmetric] c(1) Let_def
    using assms(8,9) n m sub(2) by (simp add: sendmail_def cstr_put_string)
  then show ?thesis by simp
qed

theorem mail_complete_witness:
  "\<exists>out. popen2_main True ''/usr/sbin/sendmail'' True [] [] [] (replicate 8192 NUL) (replicate BUF1 NUL) ''you\<newline>me\<newline>hi\<newline>Hello'' =
     Inr ((EXIT_SUCCESS, out), Some ''From:me\<newline> To:you\<newline>Subject:hi\<newline>Hello\<newline>'')"
proof -
  have "header_ok ''you''" "header_ok ''me''" "header_ok ''hi''" "no_nul ''Hello''" by (simp_all add: header_ok_def)
  from mail_complete [OF this, of "replicate 8192 NUL" "replicate BUF1 NUL" "''/usr/sbin/sendmail''" "[]" "[]" "[]"]
  show ?thesis by simp
qed

end
