(* ===== verification/Datagram.thy ===== *)
theory Datagram
  imports CString
begin

text \<open>
  Programs of \<^verbatim>\<open>src/11_Network\<close> that exchange datagrams: \<^verbatim>\<open>udp/udp_client.c\<close> sends its arguments to
  \<^verbatim>\<open>udp/udp_server.c\<close>, \<^verbatim>\<open>multicast/multicast_server.c\<close> sends a text to a group to which
  \<^verbatim>\<open>multicast/multicast_client.c\<close> listens. A datagram is the bytes in it; the network may lose, repeat and
  reorder datagrams, so a receiver gets any list of datagrams that have been sent. The results of the
  calls are arguments; \<open>err\<close> is the text of \<^verbatim>\<open>strerror(errno)\<close>.
\<close>

section \<open>The UDP client\<close>

text \<open>The loop over the arguments: \<open>i\<close> is the index; \<open>oks\<close> tells which calls of \<^verbatim>\<open>sendto\<close> succeed.\<close>

fun send_args :: "string \<Rightarrow> nat \<Rightarrow> bool list \<Rightarrow> string list \<Rightarrow> string list \<Rightarrow> (int \<times> say list) \<times> string list" where
  "send_args prog i oks [] sent = ((EXIT_SUCCESS, []), sent)"
| "send_args prog i oks (arg # args) sent =
     (case oks of
        False # _ \<Rightarrow>
          ((EXIT_FAILURE, [Out (prog @ '': Konnte Datei nicht senden '' @ show_nat (i - 1) @ '': '' @ arg @ ''\<newline>'')]), sent)
      | _ \<Rightarrow> send_args prog (Suc i) (tl oks) args (sent @ [arg @ [NUL]]))"

text \<open>\<open>host\<close>: the name and the address that \<^verbatim>\<open>gethostbyname\<close> found.\<close>

definition udp_client_main ::
  "string list \<Rightarrow> (string \<times> string) option \<Rightarrow> bool \<Rightarrow> bool \<Rightarrow> string \<Rightarrow> bool list \<Rightarrow> (int \<times> say list) \<times> string list" where
  "udp_client_main argv host sock_ok bind_ok err oks =
     (let prog = concat (take 1 argv) in
      if length argv < 3 then ((EXIT_FAILURE, [Out (''Usage: '' @ prog @ '' <server> <data1> ... <dataN>\<newline>'')]), [])
      else case host of
        None \<Rightarrow> ((EXIT_FAILURE, [Out (prog @ '': unbekannter Host '' @ [CHR 0x27] @ argv ! 1 @ [CHR 0x27, LF])]), [])
      | Some (h_name, ip) \<Rightarrow>
          (let hello = Out (prog @ '': sende Daten an '' @ [CHR 0x27] @ h_name @ [CHR 0x27] @ '' (IP : '' @ ip @ '')\<newline>'') in
           if \<not> sock_ok then
             ((EXIT_FAILURE, [hello, Out (prog @ '': Kann Socket nicht oeffnen ('' @ err @ '')\<newline>'')]), [])
           else if \<not> bind_ok then
             ((EXIT_FAILURE, [hello, Out (prog @ '': Kann Port nicht binden ('' @ err @ '')\<newline>'')]), [])
           else (case send_args prog 2 oks (drop 2 argv) [] of ((c, says), sent) \<Rightarrow> ((c, hello # says), sent))))"

section \<open>The UDP server\<close>

abbreviation UDPBUF :: nat where "UDPBUF \<equiv> 255"

text \<open>What a call of \<^verbatim>\<open>recvfrom\<close> yields: nothing, or a datagram with the time, sender and port.\<close>

datatype arrival = Failed | Arrived string string nat string

text \<open>
  One round: the first 255 characters of \<^verbatim>\<open>puffer\<close> are cleared, the last one is not; the line feed of the
  time is overwritten, and looked for without a test.
\<close>

definition udp_round :: "string \<Rightarrow> char list \<Rightarrow> arrival \<Rightarrow> (say list \<times> char list) cres" where
  "udp_round prog puffer ev =
     (let cleared = replicate UDPBUF NUL @ drop UDPBUF puffer in
      case ev of
        Failed \<Rightarrow> Inr ([Out (prog @ '': Kann keine Daten empfangen ...\<newline>'')], cleared)
      | Arrived ctime addr port datagram \<Rightarrow>
          (let d = take UDPBUF datagram; arr = d @ drop (length d) cleared in
           if LF \<notin> set (take UDPBUF ctime) then Inl NullDeref
           else if \<not> terminated arr then Inl OutOfBounds
           else Inr ([Out (takeWhile (\<lambda>c. c \<noteq> LF) ctime @ '': Daten erhalten von '' @ addr @ '':UDP'' @ show_nat port @
             '' : '' @ cstr arr @ '' \<newline>'')], arr)))"

fun udp_rounds :: "string \<Rightarrow> char list \<Rightarrow> arrival list \<Rightarrow> say list \<Rightarrow> say list cres" where
  "udp_rounds prog puffer [] out = Inr out"
| "udp_rounds prog puffer (ev # evs) out =
     (case udp_round prog puffer ev of
        Inl f \<Rightarrow> Inl f
      | Inr (says, puffer') \<Rightarrow> udp_rounds prog puffer' evs (out @ says))"

definition udp_server_main :: "string \<Rightarrow> bool \<Rightarrow> bool \<Rightarrow> string \<Rightarrow> char list \<Rightarrow> arrival list \<Rightarrow> (int option \<times> say list) cres" where
  "udp_server_main prog sock_ok bind_ok err puffer evs =
     (if \<not> sock_ok then
        Inr (Some EXIT_FAILURE, [Out (prog @ '': Kann Socket nicht '' @ [CHR 0xC3, CHR 0xB6] @ ''ffnen ...('' @ err @ '')\<newline>'')])
      else if \<not> bind_ok then
        Inr (Some EXIT_FAILURE, [Out (prog @ '': Kann Portnummer 1234 nicht binden ('' @ err @ '')\<newline>'')])
      else map_sum id (\<lambda>says. (None, says))
        (udp_rounds prog puffer evs [Out (prog @ '': Wartet auf Daten am Port (UDP), 1234\<newline>'')]))"

section \<open>Multicast\<close>

definition broadcast_text :: string where "broadcast_text = ''broadcast test (hallo client)''"

text \<open>The server: one datagram for each call that succeeds; the text goes without its NUL.\<close>

fun broadcast :: "bool list \<Rightarrow> string list \<Rightarrow> (int \<times> say list) option \<times> string list" where
  "broadcast [] sent = (None, sent)"
| "broadcast (ok # oks) sent =
     (if ok then broadcast oks (sent @ [broadcast_text]) else (Some (EXIT_FAILURE, [Perror ''sendto()'']), sent))"

definition multicast_server_main :: "bool \<Rightarrow> bool list \<Rightarrow> (int option \<times> say list) \<times> string list" where
  "multicast_server_main sock_ok oks =
     (if \<not> sock_ok then ((Some EXIT_FAILURE, [Perror ''socket()'']), [])
      else (case broadcast oks [] of
         (None, sent) \<Rightarrow> ((None, [Out ''Server ist bereit ...\<newline>'']), sent)
       | (Some (c, says), sent) \<Rightarrow> ((Some c, Out ''Server ist bereit ...\<newline>'' # says), sent)))"

text \<open>
  The socket of the client: which of the calls \<^verbatim>\<open>socket\<close>, \<^verbatim>\<open>setsockopt\<close>, \<^verbatim>\<open>bind\<close>, \<^verbatim>\<open>setsockopt\<close> and the
  translation of the address succeed ends the program or not; joining the group may fail.
\<close>

definition setup_multicast_socket :: "bool \<Rightarrow> bool \<Rightarrow> bool \<Rightarrow> bool \<Rightarrow> bool \<Rightarrow> bool \<Rightarrow> (int \<times> say list) + say list" where
  "setup_multicast_socket sock_ok reuse_ok bind_ok loop_ok addr_ok join_ok =
     (if \<not> sock_ok then Inl (EXIT_FAILURE, [Perror ''socket()''])
      else if \<not> reuse_ok then Inl (EXIT_FAILURE, [Perror ''setsockopt()''])
      else if \<not> bind_ok then Inl (EXIT_FAILURE, [Perror ''bind()''])
      else if \<not> loop_ok then Inl (EXIT_FAILURE, [Perror ''bind(): IP_MULTICAST_LOOP''])
      else if \<not> addr_ok then Inl (EXIT_FAILURE, [Perror ''244.0.0.1 ist keine Multicast-Adresse\<newline>''])
      else Inr (if join_ok then [] else [Perror ''setsockopt():IP_ADD_MEMBERSHIP'']))"

text \<open>A number left-justified in two places.\<close>

definition two_places :: "nat \<Rightarrow> string" where
  "two_places n = show_nat n @ replicate (2 - length (show_nat n)) SPC"

text \<open>
  The ten answers; \<open>iter\<close> is the number of the first one. A datagram is stored over the old contents of
  the array of 256 characters; \<open>None\<close> is a failed call.
\<close>

fun answers :: "nat \<Rightarrow> char list \<Rightarrow> string option list \<Rightarrow> say list \<Rightarrow> say list cres" where
  "answers iter message [] out = Inr out"
| "answers iter message (r # rs) out =
     (let d = (case r of None \<Rightarrow> [] | Some t \<Rightarrow> take 256 t); m = d @ drop (length d) message in
      if \<not> terminated m then Inl OutOfBounds
      else answers (Suc iter) m rs (out @ (if r = None then [Perror ''recvfrom()''] else []) @
        [Out (''Antwort #'' @ two_places iter @ '' vom Server: '' @ cstr m @ ''\<newline>'')]))"

definition multicast_client_main ::
  "bool \<Rightarrow> (int \<times> say list) + say list \<Rightarrow> bool \<Rightarrow> char list \<Rightarrow> string option list \<Rightarrow> (int \<times> say list) cres" where
  "multicast_client_main host_ok setup drop_ok message rs =
     (if \<not> host_ok then Inr (EXIT_FAILURE, [Perror ''gethostbyname()''])
      else case setup of
        Inl (c, says) \<Rightarrow> Inr (c, says)
      | Inr says \<Rightarrow>
          (case answers 1 message (take 10 rs) says of
             Inl f \<Rightarrow> Inl f
           | Inr out \<Rightarrow> Inr (EXIT_SUCCESS, out @ (if drop_ok then [] else [Perror ''setsockopt():IP_DROP_MEMBERSHIP'']))))"

section \<open>Properties\<close>

lemma send_args_all:
  assumes "False \<notin> set oks"
  shows "send_args prog i oks args sent = ((EXIT_SUCCESS, []), sent @ map (\<lambda>a. a @ [NUL]) args)"
  using assms
proof (induction args arbitrary: i oks sent)
  case (Cons a args)
  have "False \<notin> set (tl oks)" using Cons.prems set_tl_subset by fast
  with Cons show ?case by (cases oks) (auto split: bool.split)
qed simp

text \<open>A datagram that arrives has been sent, and its time is a line as \<^verbatim>\<open>ctime\<close> yields it.\<close>

fun comes_from :: "string list \<Rightarrow> arrival \<Rightarrow> bool" where
  "comes_from sent Failed = False"
| "comes_from sent (Arrived ctime addr port d) = (d \<in> set sent \<and> LF \<in> set (take UDPBUF ctime))"

fun arrival_line :: "arrival \<Rightarrow> say" where
  "arrival_line Failed = Out []"
| "arrival_line (Arrived ctime addr port d) = Out (takeWhile (\<lambda>c. c \<noteq> LF) ctime @ '': Daten erhalten von '' @ addr @ '':UDP'' @
     show_nat port @ '' : '' @ take UDPBUF (butlast d) @ '' \<newline>'')"

lemma received_text:
  assumes "no_nul a" and "length puffer = Suc UDPBUF" and "length a < UDPBUF \<or> last puffer = NUL"
  defines "d \<equiv> take UDPBUF (a @ [NUL])"
  defines "arr \<equiv> d @ drop (length d) (replicate UDPBUF NUL @ drop UDPBUF puffer)"
  shows "terminated arr \<and> cstr arr = take UDPBUF a \<and> length arr = Suc UDPBUF \<and> last arr = last puffer"
proof -
  have p: "drop UDPBUF puffer = [last puffer]"
    using assms(2) by (metis Suc_n_not_le_n append_butlast_last_id append_eq_conv_conj diff_Suc_1 length_butlast list.size(3) zero_le)
  show ?thesis
  proof (cases "length a < UDPBUF")
    case True
    then have "d = a @ [NUL]" by (simp add: d_def)
    with True p assms(1) show ?thesis by (simp add: arr_def)
  next
    case False
    then have "d = take UDPBUF a" "length d = UDPBUF" by (simp_all add: d_def)
    moreover have "no_nul (take UDPBUF a)" using assms(1) append_take_drop_id [of UDPBUF a] no_nul_append by metis
    ultimately show ?thesis using False p assms(3) by (simp add: arr_def)
  qed
qed

lemma udp_rounds_shown:
  assumes "\<forall>a \<in> set args. no_nul a" and "length puffer = Suc UDPBUF"
    and "(\<forall>a \<in> set args. length a < UDPBUF) \<or> last puffer = NUL" and "list_all (comes_from (map (\<lambda>a. a @ [NUL]) args)) evs"
  shows "udp_rounds prog puffer evs out = Inr (out @ map arrival_line evs)"
  using assms(2-4)
proof (induction evs arbitrary: puffer out)
  case (Cons ev evs)
  then obtain ctime addr port a where ev: "ev = Arrived ctime addr port (a @ [NUL])" "a \<in> set args" "LF \<in> set (take UDPBUF ctime)"
    by (cases ev) auto
  define d where "d = take UDPBUF (a @ [NUL])"
  define arr where "arr = d @ drop (length d) (replicate UDPBUF NUL @ drop UDPBUF puffer)"
  have "length a < UDPBUF \<or> last puffer = NUL" using Cons.prems(2) ev(2) by blast
  from received_text [OF _ Cons.prems(1) this] assms(1) ev(2)
  have arr: "terminated arr" "cstr arr = take UDPBUF a" "length arr = Suc UDPBUF" "last arr = last puffer"
    unfolding arr_def d_def by blast+
  have "udp_round prog puffer ev = Inr ([arrival_line ev], arr)"
    unfolding ev(1) udp_round_def Let_def arrival.case d_def [symmetric] arr_def [symmetric]
    using ev(3) arr(1,2) by simp
  with Cons.IH [of arr] Cons.prems(2,3) arr(3,4) show ?case by simp
qed simp

text \<open>
  C29: UDP client and server: the client sends its arguments, each once and in order; whatever the network
  makes of these datagrams by losing, repeating and reordering them, the server prints for each one that
  arrives exactly the argument it came from (cut at 255 characters, when the last character of the array,
  which nobody clears, is a NUL), with nothing of the datagrams before.
\<close>

theorem udp_delivers:
  assumes "udp_client_main argv (Some h) True True err oks = ((c, says), sent)" and "3 \<le> length argv" and "False \<notin> set oks"
    and "\<forall>a \<in> set (drop 2 argv). no_nul a" and "length puffer = Suc UDPBUF"
    and "(\<forall>a \<in> set (drop 2 argv). length a < UDPBUF) \<or> last puffer = NUL" and "list_all (comes_from sent) evs"
  shows "c = EXIT_SUCCESS \<and> sent = map (\<lambda>a. a @ [NUL]) (drop 2 argv) \<and>
    udp_server_main prog True True err puffer evs =
      Inr (None, Out (prog @ '': Wartet auf Daten am Port (UDP), 1234\<newline>'') # map arrival_line evs)"
proof -
  have s: "c = EXIT_SUCCESS \<and> sent = map (\<lambda>a. a @ [NUL]) (drop 2 argv)"
    using assms(1,2) send_args_all [OF assms(3)] by (cases h) (auto simp: udp_client_main_def Let_def)
  with assms(7) have "list_all (comes_from (map (\<lambda>a. a @ [NUL]) (drop 2 argv))) evs" by simp
  from udp_rounds_shown [OF assms(4,5,6) this] s show ?thesis by (simp add: udp_server_main_def)
qed

theorem udp_delivers_witness:
  "udp_server_main ''s'' True True [] (replicate 256 NUL)
     [Arrived ''Mon\<newline>'' ''::1'' 7 (''b'' @ [NUL]), Arrived ''Mon\<newline>'' ''::1'' 7 (''a'' @ [NUL])] =
   Inr (None, Out (''s'' @ '': Wartet auf Daten am Port (UDP), 1234\<newline>'') # map arrival_line
     [Arrived ''Mon\<newline>'' ''::1'' 7 (''b'' @ [NUL]), Arrived ''Mon\<newline>'' ''::1'' 7 (''a'' @ [NUL])])"
proof -
  have c: "\<exists>says. udp_client_main [''c'', ''h'', ''a'', ''b''] (Some (''h'', ''::1'')) True True [] [] = ((0, says), [''a'' @ [NUL], ''b'' @ [NUL]])"
    by (simp add: udp_client_main_def Let_def)
  then obtain says where "udp_client_main [''c'', ''h'', ''a'', ''b''] (Some (''h'', ''::1'')) True True [] [] = ((0, says), [''a'' @ [NUL], ''b'' @ [NUL]])" ..
  from udp_delivers [OF this, of "replicate 256 NUL"
      "[Arrived ''Mon\<newline>'' ''::1'' 7 (''b'' @ [NUL]), Arrived ''Mon\<newline>'' ''::1'' 7 (''a'' @ [NUL])]" "''s''"]
  show ?thesis by (simp add: no_nul_def)
qed

lemma broadcast_texts: "False \<notin> set oks \<Longrightarrow> broadcast oks sent = (None, sent @ replicate (length oks) broadcast_text)"
  by (induction oks arbitrary: sent) (auto simp: replicate_app_Cons_same)

lemma answers_tail:
  assumes "length message = 256" and "list_all (\<lambda>r. r = Some broadcast_text) rs"
  shows "answers iter (broadcast_text @ drop 29 message) rs out =
    (if rs = [] \<or> terminated (drop 29 message) then
       Inr (out @ map (\<lambda>i. Out (''Antwort #'' @ two_places i @ '' vom Server: '' @ broadcast_text @ cstr (drop 29 message) @ ''\<newline>''))
         [iter..<iter + length rs])
     else Inl OutOfBounds)"
  using assms(2)
proof (induction rs arbitrary: iter out)
  case (Cons r rs)
  have n: "length broadcast_text = 29" "no_nul broadcast_text" by (simp_all add: broadcast_text_def)
  have c: "cstr (broadcast_text @ x) = broadcast_text @ cstr x" for x
    by (simp add: cstr_def broadcast_text_def)
  have t: "terminated (broadcast_text @ x) \<longleftrightarrow> terminated x" for x using n(2) by (simp add: terminated_def no_nul_def)
  have u: "[iter..<iter + length (r # rs)] = iter # [Suc iter..<Suc iter + length rs]"
    using upt_conv_Cons [of iter "Suc (iter + length rs)"] by simp
  from Cons show ?case unfolding u by (auto simp: Let_def n c t)
qed simp

text \<open>
  Multicast server and client: what the server sends has no NUL, so each of the client's answers
  shows the text followed by what its array holds behind it; if there is no NUL the client reads behind
  the array.
\<close>

theorem multicast_answers:
  assumes "multicast_server_main True oks = ((None, says), sent)" and "False \<notin> set oks"
    and "length message = 256" and "list_all (\<lambda>r. r \<in> Some ` set sent) rs" and "rs \<noteq> []"
  shows "multicast_client_main True (Inr []) True message rs =
    (if terminated (drop 29 message) then
       Inr (EXIT_SUCCESS, map (\<lambda>i. Out (''Antwort #'' @ two_places i @ '' vom Server: '' @ broadcast_text @ cstr (drop 29 message) @ ''\<newline>''))
         [1..<1 + min 10 (length rs)])
     else Inl OutOfBounds)"
proof -
  have "set sent \<subseteq> {broadcast_text}"
    using assms(1) broadcast_texts [OF assms(2)] by (auto simp: multicast_server_main_def)
  with assms(4) have rs: "list_all (\<lambda>r. r = Some broadcast_text) (take 10 rs)" by (auto simp: list_all_iff dest: in_set_takeD)
  obtain rs' where r: "take 10 rs = Some broadcast_text # rs'" using rs assms(5) by (cases rs) auto
  have n: "length broadcast_text = 29" by (simp add: broadcast_text_def)
  have "answers 1 message (take 10 rs) [] = answers 1 (broadcast_text @ drop 29 message) (take 10 rs) []"
    unfolding r by (simp add: n)
  moreover have "min (length rs) 10 = min 10 (length rs)" by simp
  ultimately show ?thesis using answers_tail [OF assms(3) rs, of 1 "[]"] assms(5)
    by (simp add: multicast_client_main_def)
qed

theorem multicast_answers_witness:
  "multicast_client_main True (Inr []) True (replicate 256 NUL) [Some broadcast_text] =
     Inr (EXIT_SUCCESS, [Out (''Antwort #'' @ two_places 1 @ '' vom Server: '' @ broadcast_text @ ''\<newline>'')])"
proof -
  have s: "\<exists>says. multicast_server_main True [True] = ((None, says), [broadcast_text])"
    by (simp add: multicast_server_main_def)
  then obtain says where "multicast_server_main True [True] = ((None, says), [broadcast_text])" ..
  from multicast_answers [OF this, of "replicate 256 NUL" "[Some broadcast_text]"]
  show ?thesis by (simp add: cstr_def terminated_def)
qed

end
