(* ===== verification/Curses.thy ===== *)
theory Curses
  imports CString
begin

text \<open>
  Programs of \<^verbatim>\<open>src/13_Terminal\<close> that draw with ncurses: the game of \<^verbatim>\<open>cur10.c\<close> and, in colour,
  \<^verbatim>\<open>cur11.c\<close>; the windows of \<^verbatim>\<open>cur12.c\<close> and \<^verbatim>\<open>cur15.c\<close>; the mouse of \<^verbatim>\<open>cur13.c\<close> and \<^verbatim>\<open>cur14.c\<close>. The
  library is not modelled but for the windows that exist and where they are: a program is the sequence
  of calls it makes, as a function of the keys and clicks that \<^verbatim>\<open>getch\<close> and \<^verbatim>\<open>getmouse\<close> yield.
\<close>

section \<open>The calls\<close>

datatype glyph = Plain char | LowerLeft | LowerRight | Tee

datatype attribute = Bold | Dim | Underline | ColorPair nat

datatype draw =
    Addch int int glyph
  | Delch int int
  | Attrset "attribute list"
  | Printw int int string
  | Scrl nat
  | Halfdelay nat

section \<open>The game of \<^verbatim>\<open>cur10.c\<close>\<close>

abbreviation QUIT :: int where "QUIT \<equiv> 113"
abbreviation LEFT :: int where "LEFT \<equiv> 260"
abbreviation RIGHT :: int where "RIGHT \<equiv> 261"

definition game_help :: string where
  "game_help = CHR 0x27 # ''q'' @ CHR 0x27 # '' druecken fuer Quit | Taste fuer Start | <- nach links -> nach rechts''"

definition wipe :: "int \<Rightarrow> draw list" where
  "wipe x = [Delch 9 (x + 2), Delch 9 (x + 1), Delch 9 x, Delch 9 (x - 1), Delch 9 (x - 2)]"

definition print_raumschiff :: "int \<Rightarrow> draw list" where
  "print_raumschiff x = wipe x @ [Addch 10 (x - 1) LowerLeft, Addch 10 (x + 1) LowerRight, Addch 10 x Tee]"

text \<open>One star, at a column that \<^verbatim>\<open>rand\<close> yields, and the two lines at the top.\<close>

definition star :: "nat \<Rightarrow> int \<Rightarrow> draw list" where
  "star zufall x = [Addch 20 (int (zufall mod 79)) (Plain (CHR ''*'')), Printw 0 0 game_help,
     Printw 1 0 (''Position Raumschiff '' @ show_int x)]"

definition steer :: "int \<Rightarrow> int \<Rightarrow> int" where
  "steer c x =
     (if c = LEFT then (if x < 1 then 79 else x - 1)
      else if c = RIGHT then (if x > 79 then 1 else x + 1)
      else x)"

text \<open>
  The loop over the keys that are still to come: whether the game has ended, the place of the ship, and
  the calls. \<open>rnd\<close> are the values of \<^verbatim>\<open>rand\<close>, \<open>k\<close> how many have been used; \<open>stars\<close> and \<open>ship\<close> draw.
\<close>

fun game :: "(nat \<Rightarrow> int \<Rightarrow> draw list) \<Rightarrow> (int \<Rightarrow> draw list) \<Rightarrow> (nat \<Rightarrow> nat) \<Rightarrow> nat \<Rightarrow> int list \<Rightarrow> int \<Rightarrow> draw list
    \<Rightarrow> bool \<times> int \<times> draw list" where
  "game stars ship rnd k [] x out = (False, x, out)"
| "game stars ship rnd k (c # cs) x out =
     (let out1 = out @ Scrl 1 # concat (map (\<lambda>i. stars (rnd (k + i)) x) [0..<5]);
          x' = steer c x;
          out2 = out1 @ Halfdelay 3 # ship x' in
      if c = QUIT then (True, x', out2) else game stars ship rnd (k + 5) cs x' out2)"

definition cur10_main :: "(nat \<Rightarrow> nat) \<Rightarrow> int list \<Rightarrow> bool \<times> int \<times> draw list" where
  "cur10_main rnd keys = game star print_raumschiff rnd 0 keys 40 []"

section \<open>The game in colour, \<^verbatim>\<open>cur11.c\<close>\<close>

definition print_raumschiff11 :: "int \<Rightarrow> draw list" where
  "print_raumschiff11 x = wipe x @ [Attrset [Bold, ColorPair 2], Addch 10 (x - 1) LowerLeft, Addch 10 (x + 1) LowerRight,
     Attrset [Bold, ColorPair 3], Addch 10 x Tee]"

definition star11 :: "nat \<Rightarrow> int \<Rightarrow> draw list" where
  "star11 zufall x = [Attrset [Dim, ColorPair 1], Addch 20 (int (zufall mod 79)) (Plain (CHR ''*'')),
     Attrset [Underline, Bold, ColorPair 4], Printw 0 0 game_help, Printw 1 0 (''Position Raumschiff '' @ show_int x)]"

definition cur11_main :: "bool \<Rightarrow> (nat \<Rightarrow> nat) \<Rightarrow> int list \<Rightarrow> int + bool \<times> int \<times> draw list" where
  "cur11_main has_colors rnd keys =
     (if has_colors then Inr (game star11 print_raumschiff11 rnd 0 keys 40 []) else Inl EXIT_FAILURE)"

section \<open>Windows\<close>

text \<open>A window is where it begins and its size; a pointer to a window is a number.\<close>

record window =
  beg_y :: int
  beg_x :: int
  rows :: int
  cols :: int

record screen =
  windows :: "nat \<rightharpoonup> window"
  next_window :: nat

definition newwin :: "int \<Rightarrow> int \<Rightarrow> int \<Rightarrow> int \<Rightarrow> screen \<Rightarrow> nat \<times> screen" where
  "newwin r c y x s = (next_window s, s\<lparr>windows := (windows s)(next_window s \<mapsto> \<lparr>beg_y = y, beg_x = x, rows = r, cols = c\<rparr>),
     next_window := Suc (next_window s)\<rparr>)"

text \<open>Moving a window off the screen of \<open>h\<close> lines and \<open>b\<close> columns fails and leaves it where it is.\<close>

definition mvwin :: "int \<Rightarrow> int \<Rightarrow> nat \<Rightarrow> int \<Rightarrow> int \<Rightarrow> screen \<Rightarrow> screen option" where
  "mvwin h b w y x s = map_option (\<lambda>win.
     if 0 \<le> y \<and> 0 \<le> x \<and> y + rows win \<le> h \<and> x + cols win \<le> b
     then s\<lparr>windows := (windows s)(w \<mapsto> win\<lparr>beg_y := y, beg_x := x\<rparr>)\<rparr> else s) (windows s w)"

definition delwin :: "nat \<Rightarrow> screen \<Rightarrow> screen option" where
  "delwin w s = map_option (\<lambda>_. s\<lparr>windows := (windows s)(w := None)\<rparr>) (windows s w)"

section \<open>\<^verbatim>\<open>cur15.c\<close>\<close>

datatype wsize = MINSIZE | MAXSIZE

record cur15 =
  disp :: screen
  fenster :: nat
  wsize :: wsize
  y_click :: int
  x_click :: int
  y_click2 :: int
  x_click2 :: int

definition open15 :: "wsize \<Rightarrow> screen \<Rightarrow> nat \<times> screen" where
  "open15 z s = (case z of MAXSIZE \<Rightarrow> newwin 24 79 0 0 s | MINSIZE \<Rightarrow> newwin 10 40 5 15 s)"

text \<open>\<^verbatim>\<open>where_clicked\<close>: \<open>Inl\<close> is the exit; \<open>None\<close> the use of a window that does not exist.\<close>

definition where_clicked :: "int \<Rightarrow> int \<Rightarrow> cur15 \<Rightarrow> (int + cur15) option" where
  "where_clicked y x s =
     (case windows (disp s) (fenster s) of
        None \<Rightarrow> None
      | Some win \<Rightarrow>
          (let y2 = beg_y win; x2 = beg_x win; s' = s\<lparr>y_click := y, x_click := x, y_click2 := y2, x_click2 := x2\<rparr> in
           if y = y2 \<and> x = x2 then Some (Inl EXIT_FAILURE)
           else if y = y2 \<and> (x = x2 + 39 \<or> x = x2 + 78) then
             map_option (\<lambda>d. Inr (s'\<lparr>disp := d, wsize := if wsize s = MINSIZE then MAXSIZE else MINSIZE\<rparr>))
               (delwin (fenster s) (disp s))
           else Some (Inr s')))"

text \<open>What follows a click: a new window of the size that is now wanted, a small one beside the place of the click.\<close>

definition after_click :: "int \<Rightarrow> int \<Rightarrow> cur15 \<Rightarrow> cur15 option" where
  "after_click h b s =
     (case open15 (wsize s) (disp s) of (w, d) \<Rightarrow>
        if wsize s = MAXSIZE then Some (s\<lparr>disp := d, fenster := w\<rparr>)
        else map_option (\<lambda>d'. s\<lparr>disp := d', fenster := w\<rparr>) (mvwin h b w (y_click s + 1) (x_click s + 1) d))"

definition cur15_event :: "int \<Rightarrow> int \<Rightarrow> int \<times> int \<Rightarrow> cur15 \<Rightarrow> (int + cur15) option" where
  "cur15_event h b pos s =
     (case where_clicked (fst pos) (snd pos) s of
        None \<Rightarrow> None
      | Some (Inl c) \<Rightarrow> Some (Inl c)
      | Some (Inr s') \<Rightarrow> map_option Inr (after_click h b s'))"

fun cur15_events :: "int \<Rightarrow> int \<Rightarrow> (int \<times> int) list \<Rightarrow> cur15 \<Rightarrow> (int + cur15) option" where
  "cur15_events h b [] s = Some (Inr s)"
| "cur15_events h b (pos # ps) s =
     (case cur15_event h b pos s of
        None \<Rightarrow> None
      | Some (Inl c) \<Rightarrow> Some (Inl c)
      | Some (Inr s') \<Rightarrow> cur15_events h b ps s')"

definition cur15_start :: cur15 where
  "cur15_start =
     (case open15 MINSIZE \<lparr>windows = Map.empty, next_window = 0\<rparr> of (w, d) \<Rightarrow>
        \<lparr>disp = d, fenster = w, wsize = MINSIZE, y_click = 0, x_click = 0, y_click2 = 0, x_click2 = 0\<rparr>)"

section \<open>\<^verbatim>\<open>cur12.c\<close>\<close>

text \<open>The pairs of colours that are shown: number, foreground, background.\<close>

definition all_pairs :: "bool \<Rightarrow> (nat \<times> nat \<times> nat) list" where
  "all_pairs has_colors =
     (if has_colors then zip [1..<65] (concat (map (\<lambda>farbe1. map (\<lambda>farbe2. (farbe1, farbe2)) [0..<8]) (rev [0..<8]))) else [])"

definition show_all_pairs :: "bool \<Rightarrow> string list" where
  "show_all_pairs has_colors = ''Darstellung aller Farbpaare: \<newline>'' # map (\<lambda>(i, _). '' '' @ show_nat i @ '' '') (all_pairs has_colors)"

record cur12 =
  disp12 :: screen
  fenster1 :: nat
  fenster2 :: nat
  texts12 :: "string list"

text \<open>The steps of \<^verbatim>\<open>main\<close>; \<open>None\<close> is the use of a window that does not exist.\<close>

type_synonym step12 = "cur12 \<Rightarrow> cur12 option"

definition tell12 :: "string \<Rightarrow> step12" where
  "tell12 t s = Some (s\<lparr>texts12 := texts12 s @ [t]\<rparr>)"

text \<open>A call on a window: refreshing, touching, reading a key, with what is printed into it before.\<close>

definition use1 :: "string \<Rightarrow> step12" where
  "use1 t s = (if windows (disp12 s) (fenster1 s) = None then None else tell12 t s)"

definition use2 :: "string \<Rightarrow> step12" where
  "use2 t s = (if windows (disp12 s) (fenster2 s) = None then None else tell12 t s)"

definition create1 :: "int \<Rightarrow> int \<Rightarrow> int \<Rightarrow> int \<Rightarrow> string \<Rightarrow> step12" where
  "create1 r c y x t s = (case newwin r c y x (disp12 s) of (w, d) \<Rightarrow> tell12 t (s\<lparr>disp12 := d, fenster1 := w\<rparr>))"

definition create2 :: "int \<Rightarrow> int \<Rightarrow> int \<Rightarrow> int \<Rightarrow> string \<Rightarrow> step12" where
  "create2 r c y x t s = (case newwin r c y x (disp12 s) of (w, d) \<Rightarrow> tell12 t (s\<lparr>disp12 := d, fenster2 := w\<rparr>))"

definition move1 :: "int \<Rightarrow> int \<Rightarrow> int \<Rightarrow> int \<Rightarrow> step12" where
  "move1 h b y x s = map_option (\<lambda>d. s\<lparr>disp12 := d\<rparr>) (mvwin h b (fenster1 s) y x (disp12 s))"

definition move2 :: "int \<Rightarrow> int \<Rightarrow> int \<Rightarrow> int \<Rightarrow> step12" where
  "move2 h b y x s = map_option (\<lambda>d. s\<lparr>disp12 := d\<rparr>) (mvwin h b (fenster2 s) y x (disp12 s))"

text \<open>\<^verbatim>\<open>getbegyx\<close> and \<^verbatim>\<open>mvwin\<close> relative to it.\<close>

definition shift2 :: "int \<Rightarrow> int \<Rightarrow> int \<Rightarrow> int \<Rightarrow> step12" where
  "shift2 h b dy dx s =
     (case windows (disp12 s) (fenster2 s) of None \<Rightarrow> None
      | Some win \<Rightarrow> move2 h b (beg_y win + dy) (beg_x win + dx) s)"

definition delete1 :: step12 where
  "delete1 s = map_option (\<lambda>d. s\<lparr>disp12 := d\<rparr>) (delwin (fenster1 s) (disp12 s))"

definition delete2 :: step12 where
  "delete2 s = map_option (\<lambda>d. s\<lparr>disp12 := d\<rparr>) (delwin (fenster2 s) (disp12 s))"

text \<open>\<^verbatim>\<open>fenster2 = dupwin(fenster1)\<close>.\<close>

definition copy2 :: step12 where
  "copy2 s = (case windows (disp12 s) (fenster1 s) of None \<Rightarrow> None
     | Some win \<Rightarrow> (case newwin (rows win) (cols win) (beg_y win) (beg_x win) (disp12 s) of
         (w, d) \<Rightarrow> Some (s\<lparr>disp12 := d, fenster2 := w\<rparr>)))"

fun steps12 :: "step12 list \<Rightarrow> step12" where
  "steps12 [] s = Some s"
| "steps12 (f # fs) s = Option.bind (f s) (steps12 fs)"

definition cur12_script :: "int \<Rightarrow> int \<Rightarrow> step12 list" where
  "cur12_script h b =
     [create1 11 50 0 0 ''Hallo Welt'', use1 [],
      create2 10 50 11 30 ''Fenster 2'', use2 [],
      use1 ''Wir verschieben Fenster 2 mit mvwin()'',
      shift2 h b 3 (- 20), use1 [], use2 [],
      use1 ''Wir loeschen Fenster 2 mit delwin()'', delete2,
      move1 h b 0 0, use1 [],
      use1 ''Wir kopieren dieses Fenster mit dupwin()'', copy2,
      move2 h b 12 0, use2 [],
      use1 ''Fenster 1 wird nun geloescht'', delete1,
      use2 [], tell12 ''Nun wird das letzte Fenster auch beendet'', use2 [], delete2,
      tell12 ''Jetzt ist nur nach das stdscr Fenster in Betrieb'']"

definition cur12_main :: "bool \<Rightarrow> int \<Rightarrow> int \<Rightarrow> cur12 option" where
  "cur12_main has_colors h b = steps12 (cur12_script h b)
     \<lparr>disp12 = \<lparr>windows = Map.empty, next_window = 0\<rparr>, fenster1 = 0, fenster2 = 0, texts12 = show_all_pairs has_colors\<rparr>"

section \<open>The mouse, \<^verbatim>\<open>cur13.c\<close> and \<^verbatim>\<open>cur14.c\<close>\<close>

text \<open>What a round gets: another key, or a click that \<^verbatim>\<open>getmouse\<close> reports or not.\<close>

datatype bstate = Pressed | Released | Clicked
datatype input = Key | NoMouse | Mouse bstate int int

text \<open>A number right-justified in two places.\<close>

definition right_two :: "int \<Rightarrow> string" where
  "right_two i = replicate (2 - length (show_int i)) SPC @ show_int i"

definition cur13_round :: "input \<Rightarrow> draw list" where
  "cur13_round ev = (case ev of Mouse st y x \<Rightarrow> [Printw 1 0 (''y = '' @ right_two y @ '' x = '' @ right_two x)] | _ \<Rightarrow> [])"

definition cur14_round :: "input \<Rightarrow> draw list" where
  "cur14_round ev =
     (case ev of
        Mouse Pressed y x \<Rightarrow> [Printw 1 0 (''Linke Maustaste gedrueckt: y = '' @ right_two y @ '' x = '' @ right_two x)]
      | Mouse Released y x \<Rightarrow> [Printw 2 0 (''Linke Maustaste losgelassen: y = '' @ right_two y @ '' x = '' @ right_two x)]
      | _ \<Rightarrow> [])"

section \<open>The ship\<close>

text \<open>The keys that count: those up to the first \<^verbatim>\<open>q\<close>.\<close>

definition pressed :: "int \<Rightarrow> int list \<Rightarrow> int" where
  "pressed c keys = int (length (filter (\<lambda>k. k = c) (takeWhile (\<lambda>k. k \<noteq> QUIT) keys)))"

lemma steer_range: "0 \<le> x \<and> x \<le> 80 \<Longrightarrow> 0 \<le> steer c x \<and> steer c x \<le> 80"
  by (simp add: steer_def)

lemma steer_ring: "0 \<le> x \<and> x \<le> 80 \<Longrightarrow>
  steer c x mod 80 = (x + (if c = RIGHT then 1 else 0) - (if c = LEFT then 1 else 0)) mod 80"
proof -
  assume x: "0 \<le> x \<and> x \<le> 80"
  consider "x = 0" | "x = 80" | "0 < x \<and> x < 80" using x by linarith
  then show ?thesis by cases (auto simp: steer_def)
qed

lemma game_ring:
  assumes "0 \<le> x \<and> x \<le> 80" and "game stars ship rnd k keys x out = (over, x', out')"
  shows "(over \<longleftrightarrow> QUIT \<in> set keys) \<and> 0 \<le> x' \<and> x' \<le> 80 \<and> x' mod 80 = (x + pressed RIGHT keys - pressed LEFT keys) mod 80"
  using assms
proof (induction keys arbitrary: k x out)
  case Nil
  then show ?case by (simp add: pressed_def)
next
  case (Cons c cs)
  show ?case
  proof (cases "c = QUIT")
    case True
    with Cons.prems show ?thesis by (auto simp: Let_def pressed_def steer_def)
  next
    case False
    define r l where "r = (if c = RIGHT then 1 else 0 :: int)" and "l = (if c = LEFT then 1 else 0 :: int)"
    obtain k' out1 where g: "game stars ship rnd k' cs (steer c x) out1 = (over, x', out')"
      using Cons.prems(2) False by (auto simp: Let_def)
    from Cons.IH [OF steer_range [OF Cons.prems(1)] g]
    have ih: "(over \<longleftrightarrow> QUIT \<in> set cs) \<and> 0 \<le> x' \<and> x' \<le> 80"
      "x' mod 80 = (steer c x + pressed RIGHT cs - pressed LEFT cs) mod 80" by blast+
    have p: "pressed RIGHT (c # cs) = r + pressed RIGHT cs" "pressed LEFT (c # cs) = l + pressed LEFT cs"
      using False by (simp_all add: pressed_def r_def l_def)
    have "(steer c x + pressed RIGHT cs - pressed LEFT cs) mod 80 = (steer c x + (pressed RIGHT cs - pressed LEFT cs)) mod 80"
      by (simp only: add_diff_eq)
    also have "\<dots> = (steer c x mod 80 + (pressed RIGHT cs - pressed LEFT cs)) mod 80" by (simp only: mod_add_left_eq)
    also have "\<dots> = ((x + r - l) mod 80 + (pressed RIGHT cs - pressed LEFT cs)) mod 80"
      using steer_ring [OF Cons.prems(1), of c] by (simp add: r_def l_def)
    also have "\<dots> = ((x + r - l) + (pressed RIGHT cs - pressed LEFT cs)) mod 80" by (rule mod_add_left_eq)
    finally have "x' mod 80 = (x + pressed RIGHT (c # cs) - pressed LEFT (c # cs)) mod 80"
      using ih(2) p by (simp add: algebra_simps)
    with ih(1) False show ?thesis by auto
  qed
qed

text \<open>Erasing the attributes.\<close>

definition plain_draw :: "draw list \<Rightarrow> draw list" where
  "plain_draw = filter (\<lambda>d. case d of Attrset _ \<Rightarrow> False | _ \<Rightarrow> True)"

lemma plain_append [simp]: "plain_draw (xs @ ys) = plain_draw xs @ plain_draw ys"
  by (simp add: plain_draw_def)

lemma plain_Cons [simp]: "plain_draw (d # ds) = (case d of Attrset _ \<Rightarrow> plain_draw ds | _ \<Rightarrow> d # plain_draw ds)"
  by (simp add: plain_draw_def split: draw.split)

lemma plain_parts: "plain_draw (star11 z x) = star z x" "plain_draw (print_raumschiff11 x) = print_raumschiff x"
  by (simp_all add: star_def star11_def print_raumschiff_def print_raumschiff11_def wipe_def plain_draw_def)

lemma plain_concat: "plain_draw (concat (map f xs)) = concat (map (\<lambda>i. plain_draw (f i)) xs)"
  by (induction xs) (simp_all add: plain_draw_def)

lemma game_colour:
  assumes "game star11 print_raumschiff11 rnd k keys x out = (over, x', out')"
  shows "game star print_raumschiff rnd k keys x (plain_draw out) = (over, x', plain_draw out')"
  using assms
proof (induction keys arbitrary: k x out)
  case (Cons c cs)
  define out1 where "out1 = out @ Scrl 1 # concat (map (\<lambda>i. star11 (rnd (k + i)) x) [0..<5]) @
    Halfdelay 3 # print_raumschiff11 (steer c x)"
  have p: "plain_draw out1 = plain_draw out @ Scrl 1 # concat (map (\<lambda>i. star (rnd (k + i)) x) [0..<5]) @
      Halfdelay 3 # print_raumschiff (steer c x)"
    by (simp add: out1_def plain_concat plain_parts del: upt_Suc upt.simps)
  show ?case
  proof (cases "c = QUIT")
    case True
    with Cons.prems have "over \<and> x' = steer c x \<and> out' = out1" by (auto simp: Let_def out1_def)
    with True p show ?thesis by (simp add: Let_def del: upt_Suc upt.simps)
  next
    case False
    with Cons.prems have "game star11 print_raumschiff11 rnd (k + 5) cs (steer c x) out1 = (over, x', out')"
      by (simp add: Let_def out1_def)
    from Cons.IH [OF this] p False show ?thesis by (simp add: Let_def)
  qed
qed simp

text \<open>
  C37: the game of \<^verbatim>\<open>cur10.c\<close>: for every sequence of keys it ends exactly when \<^verbatim>\<open>q\<close> is pressed, and the ship
  moves on a ring of 80 columns: its place stays between 0 and 80 (two names of the same column) and is
  the start moved by the difference of the keys to the right and to the left. \<^verbatim>\<open>cur11.c\<close> is the same game in
  colour: without the attributes it makes the same calls.
\<close>

theorem ship_ring:
  assumes "cur10_main rnd keys = (over, x, calls)"
  shows "(over \<longleftrightarrow> QUIT \<in> set keys) \<and> 0 \<le> x \<and> x \<le> 80 \<and> x mod 80 = (40 + pressed RIGHT keys - pressed LEFT keys) mod 80 \<and>
    (\<exists>calls11. cur11_main True rnd keys = Inr (over, x, calls11) \<and> plain_draw calls11 = calls)"
proof -
  obtain over' x' calls11 where c: "game star11 print_raumschiff11 rnd 0 keys 40 [] = (over', x', calls11)" by (metis prod_cases3)
  from game_colour [OF this] assms have "over' = over \<and> x' = x \<and> plain_draw calls11 = calls"
    by (simp add: cur10_main_def plain_draw_def)
  with c have "\<exists>calls11. cur11_main True rnd keys = Inr (over, x, calls11) \<and> plain_draw calls11 = calls"
    by (simp add: cur11_main_def)
  with game_ring [of 40 star print_raumschiff rnd 0 keys "[]" over x calls] assms show ?thesis
    by (simp add: cur10_main_def)
qed

theorem ship_ring_witness:
  "\<exists>calls. cur10_main (\<lambda>_. 3) [RIGHT, LEFT, LEFT, QUIT, LEFT] = (True, 39, calls) \<and> (39 :: int) mod 80 = (40 + 1 - 2) mod 80"
proof -
  have e: "\<exists>calls. cur10_main (\<lambda>_. 3) [RIGHT, LEFT, LEFT, QUIT, LEFT] = (True, 39, calls)"
    by (simp add: cur10_main_def Let_def steer_def del: upt_Suc upt.simps)
  then obtain calls where c: "cur10_main (\<lambda>_. 3) [RIGHT, LEFT, LEFT, QUIT, LEFT] = (True, 39, calls)" ..
  from ship_ring [OF c] have "(39 :: int) mod 80 = (40 + 1 - 2) mod 80" by (simp add: pressed_def)
  with c show ?thesis by blast
qed

section \<open>The windows\<close>

text \<open>The clicks that hit the mark for the other size, among those before the end.\<close>

fun toggles :: "int \<Rightarrow> int \<Rightarrow> (int \<times> int) list \<Rightarrow> cur15 \<Rightarrow> nat" where
  "toggles h b [] s = 0"
| "toggles h b (pos # ps) s =
     (case cur15_event h b pos s of
        Some (Inr s') \<Rightarrow> (if wsize s' = wsize s then 0 else 1) + toggles h b ps s'
      | _ \<Rightarrow> 0)"

definition shape :: "wsize \<Rightarrow> int \<times> int" where
  "shape z = (case z of MAXSIZE \<Rightarrow> (24, 79) | MINSIZE \<Rightarrow> (10, 40))"

definition cur15_inv :: "cur15 \<Rightarrow> bool" where
  "cur15_inv s \<longleftrightarrow> finite (dom (windows (disp s))) \<and> (\<forall>w \<in> dom (windows (disp s)). w < next_window (disp s)) \<and>
     (\<exists>win. windows (disp s) (fenster s) = Some win \<and> (rows win, cols win) = shape (wsize s))"

definition live :: "cur15 \<Rightarrow> nat" where
  "live s = card (dom (windows (disp s)))"

lemma open15_facts:
  assumes "finite (dom (windows d))" and "\<forall>w \<in> dom (windows d). w < next_window d" and "open15 z d = (w, d')"
  shows "w = next_window d" "next_window d' = Suc (next_window d)" "dom (windows d') = insert w (dom (windows d))"
    "card (dom (windows d')) = Suc (card (dom (windows d)))" "\<exists>win. windows d' w = Some win \<and> (rows win, cols win) = shape z"
    "finite (dom (windows d'))" "\<forall>v \<in> dom (windows d'). v < next_window d'"
proof -
  show w: "w = next_window d" "next_window d' = Suc (next_window d)" and d: "dom (windows d') = insert w (dom (windows d))"
    and "\<exists>win. windows d' w = Some win \<and> (rows win, cols win) = shape z"
    using assms(3) by (cases z; auto simp: open15_def newwin_def shape_def)+
  have "w \<notin> dom (windows d)" using w assms(2) by blast
  then show "card (dom (windows d')) = Suc (card (dom (windows d)))" unfolding d using assms(1) by simp
  show "finite (dom (windows d'))" unfolding d using assms(1) by simp
  show "\<forall>v \<in> dom (windows d'). v < next_window d'" unfolding d using assms(2) w by (metis insert_iff less_Suc_eq)
qed

lemma mvwin_facts:
  assumes "mvwin h b w y x d = Some d'"
  shows "dom (windows d') = dom (windows d)" "next_window d' = next_window d"
    "windows d w = Some win \<Longrightarrow> \<exists>win'. windows d' w = Some win' \<and> rows win' = rows win \<and> cols win' = cols win"
  using assms by (auto simp: mvwin_def split: if_splits)

lemma after_click_inv:
  assumes "finite (dom (windows (disp s)))" and "\<forall>w \<in> dom (windows (disp s)). w < next_window (disp s)"
  shows "\<exists>s'. after_click h b s = Some s' \<and> cur15_inv s' \<and> wsize s' = wsize s \<and> live s' = Suc (live s)"
proof -
  obtain w d where o: "open15 (wsize s) (disp s) = (w, d)" by force
  note f = open15_facts [OF assms o]
  show ?thesis
  proof (cases "wsize s")
    case MAXSIZE
    then have "after_click h b s = Some (s\<lparr>disp := d, fenster := w\<rparr>)" using o by (simp add: after_click_def)
    moreover have "cur15_inv (s\<lparr>disp := d, fenster := w\<rparr>)" using f(5,6,7) by (simp add: cur15_inv_def)
    moreover have "live (s\<lparr>disp := d, fenster := w\<rparr>) = Suc (live s)" using f(4) by (simp add: live_def)
    ultimately show ?thesis by simp
  next
    case MINSIZE
    obtain win where win: "windows d w = Some win" "(rows win, cols win) = shape (wsize s)" using f(5) by blast
    then obtain d' where m: "mvwin h b w (y_click s + 1) (x_click s + 1) d = Some d'" by (simp add: mvwin_def)
    from mvwin_facts(3) [OF m win(1)] win(2)
    obtain win' where "windows d' w = Some win'" "(rows win', cols win') = shape (wsize s)" by auto
    note w' = this mvwin_facts(1,2) [OF m]
    have "after_click h b s = Some (s\<lparr>disp := d', fenster := w\<rparr>)" using MINSIZE o m by (simp add: after_click_def)
    moreover have "cur15_inv (s\<lparr>disp := d', fenster := w\<rparr>)" using f(6,7) w' by (simp add: cur15_inv_def)
    moreover have "live (s\<lparr>disp := d', fenster := w\<rparr>) = Suc (live s)" using f(4) w' by (simp add: live_def)
    ultimately show ?thesis by simp
  qed
qed

lemma cur15_event_inv:
  assumes "cur15_inv s"
  shows "\<exists>r. cur15_event h b pos s = Some r \<and> (\<forall>c. r = Inl c \<longrightarrow> c = EXIT_FAILURE) \<and>
    (\<forall>s'. r = Inr s' \<longrightarrow> cur15_inv s' \<and> live s' = (if wsize s' = wsize s then Suc (live s) else live s))"
proof -
  obtain win where win: "windows (disp s) (fenster s) = Some win" using assms by (auto simp: cur15_inv_def)
  have fin: "finite (dom (windows (disp s)))" and below: "\<forall>w \<in> dom (windows (disp s)). w < next_window (disp s)"
    using assms by (simp_all add: cur15_inv_def)
  obtain y x where pos: "pos = (y, x)" by (cases pos)
  define s1 where "s1 = s\<lparr>y_click := y, x_click := x, y_click2 := beg_y win, x_click2 := beg_x win\<rparr>"
  consider (quit) "y = beg_y win \<and> x = beg_x win"
    | (toggle) "\<not> (y = beg_y win \<and> x = beg_x win)" "y = beg_y win \<and> (x = beg_x win + 39 \<or> x = beg_x win + 78)"
    | (plain) "\<not> (y = beg_y win \<and> x = beg_x win)" "\<not> (y = beg_y win \<and> (x = beg_x win + 39 \<or> x = beg_x win + 78))"
    by blast
  then show ?thesis
  proof cases
    case quit
    with win pos show ?thesis by (simp add: cur15_event_def where_clicked_def Let_def)
  next
    case toggle
    define d where "d = disp s\<lparr>windows := (windows (disp s))(fenster s := None)\<rparr>"
    define s2 where "s2 = s1\<lparr>disp := d, wsize := if wsize s = MINSIZE then MAXSIZE else MINSIZE\<rparr>"
    have w: "where_clicked y x s = Some (Inr s2)"
      using win toggle by (simp add: where_clicked_def Let_def delwin_def s2_def s1_def d_def)
    have dom: "dom (windows (disp s2)) = dom (windows (disp s)) - {fenster s}" by (auto simp: s2_def d_def)
    have "finite (dom (windows (disp s2)))" "\<forall>w \<in> dom (windows (disp s2)). w < next_window (disp s2)"
      using fin below unfolding dom by (auto simp: s2_def d_def)
    from after_click_inv [OF this, of h b] obtain s' where s': "after_click h b s2 = Some s'" "cur15_inv s'" "wsize s' = wsize s2"
      "live s' = Suc (live s2)" by blast
    have "fenster s \<in> dom (windows (disp s))" using win by blast
    then have "Suc (live s2) = live s" unfolding live_def dom by (rule card_Suc_Diff1 [OF fin])
    moreover have "wsize s2 \<noteq> wsize s" by (cases "wsize s") (simp_all add: s2_def)
    moreover have "cur15_event h b pos s = Some (Inr s')" using w s'(1) pos by (simp add: cur15_event_def)
    ultimately show ?thesis using s'(2,3,4) by auto
  next
    case plain
    then have w: "where_clicked y x s = Some (Inr s1)" using win by (auto simp: where_clicked_def Let_def s1_def)
    have d: "disp s1 = disp s" "wsize s1 = wsize s" by (simp_all add: s1_def)
    from after_click_inv [of s1 h b] fin below obtain s' where "after_click h b s1 = Some s'" "cur15_inv s'"
      "wsize s' = wsize s1" "live s' = Suc (live s1)" unfolding d by blast
    moreover from this(1) w pos have "cur15_event h b pos s = Some (Inr s')" by (simp add: cur15_event_def)
    moreover have "live s1 = live s" by (simp add: live_def d)
    ultimately show ?thesis using d by auto
  qed
qed

lemma cur15_events_inv:
  assumes "cur15_inv s"
  shows "\<exists>r. cur15_events h b ps s = Some r \<and> (\<forall>c. r = Inl c \<longrightarrow> c = EXIT_FAILURE) \<and>
    (\<forall>s'. r = Inr s' \<longrightarrow> cur15_inv s' \<and> live s' + toggles h b ps s = live s + length ps \<and>
       (wsize s' = wsize s \<longleftrightarrow> even (toggles h b ps s)))"
  using assms
proof (induction ps arbitrary: s)
  case (Cons pos ps)
  from cur15_event_inv [OF Cons.prems, of h b pos] obtain r where r: "cur15_event h b pos s = Some r"
    "\<forall>c. r = Inl c \<longrightarrow> c = EXIT_FAILURE"
    "\<forall>s'. r = Inr s' \<longrightarrow> cur15_inv s' \<and> live s' = (if wsize s' = wsize s then Suc (live s) else live s)" by blast
  show ?case
  proof (cases r)
    case (Inl c)
    with r show ?thesis by simp
  next
    case (Inr s1)
    with r(3) have s1: "cur15_inv s1" "live s1 = (if wsize s1 = wsize s then Suc (live s) else live s)" by simp_all
    from Cons.IH [OF s1(1)] obtain r' where r': "cur15_events h b ps s1 = Some r'" "\<forall>c. r' = Inl c \<longrightarrow> c = EXIT_FAILURE"
      "\<forall>s'. r' = Inr s' \<longrightarrow> cur15_inv s' \<and> live s' + toggles h b ps s1 = live s1 + length ps \<and>
         (wsize s' = wsize s1 \<longleftrightarrow> even (toggles h b ps s1))" by blast
    have t: "toggles h b (pos # ps) s = (if wsize s1 = wsize s then 0 else 1) + toggles h b ps s1"
      using r(1) Inr by simp
    have two: "x = y \<longleftrightarrow> (x = z \<longleftrightarrow> z = y)" for x y z :: wsize by (cases x; cases y; cases z) simp_all
    have "cur15_inv s' \<and> live s' + toggles h b (pos # ps) s = live s + length (pos # ps) \<and>
        (wsize s' = wsize s \<longleftrightarrow> even (toggles h b (pos # ps) s))" if "r' = Inr s'" for s'
      using r'(3) that s1(2) t two [of "wsize s'" "wsize s" "wsize s1"] by (auto split: if_splits)
    with r(1) Inr r' show ?thesis by (simp del: toggles.simps)
  qed
qed simp

lemma cur15_start_inv: "cur15_inv cur15_start" "live cur15_start = 1" "wsize cur15_start = MINSIZE"
  by (simp_all add: cur15_start_def open15_def newwin_def cur15_inv_def live_def shape_def)

text \<open>
  C34: the windows of \<^verbatim>\<open>cur15.c\<close>: for every sequence of clicks and every size of the screen the program
  never touches a window it has deleted; the window it shows always has the shape of the size that was
  chosen last, which changes with every click on a mark; and each click elsewhere leaves the old window
  undeleted behind the new one, so their number grows without bound. Closing the window ends the program with
  failure.
\<close>

theorem cur15_windows:
  shows "\<exists>r. cur15_events h b ps cur15_start = Some r \<and>
    (case r of
       Inl c \<Rightarrow> c = EXIT_FAILURE
     | Inr s \<Rightarrow> (\<exists>win. windows (disp s) (fenster s) = Some win \<and> (rows win, cols win) = shape (wsize s)) \<and>
         card (dom (windows (disp s))) + toggles h b ps cur15_start = 1 + length ps \<and>
         (wsize s = MINSIZE \<longleftrightarrow> even (toggles h b ps cur15_start)))"
proof -
  from cur15_events_inv [OF cur15_start_inv(1), of h b ps]
  obtain r where "cur15_events h b ps cur15_start = Some r" "\<forall>c. r = Inl c \<longrightarrow> c = EXIT_FAILURE"
    "\<forall>s'. r = Inr s' \<longrightarrow> cur15_inv s' \<and> live s' + toggles h b ps cur15_start = live cur15_start + length ps \<and>
       (wsize s' = wsize cur15_start \<longleftrightarrow> even (toggles h b ps cur15_start))" by blast
  then show ?thesis using cur15_start_inv(2) unfolding cur15_start_inv(3) live_def cur15_inv_def
    by (intro exI [of _ r]) (cases r; auto)
qed

lemma cur15_leaks: "\<exists>s. cur15_events 24 80 [(8, 20), (9, 20), (10, 20)] cur15_start = Some (Inr s) \<and>
    windows (disp s) 3 = Some \<lparr>beg_y = 11, beg_x = 21, rows = 10, cols = 40\<rparr> \<and>
    (\<forall>w < 3. windows (disp s) w \<noteq> None)"
  by (simp add: cur15_start_def cur15_event_def where_clicked_def after_click_def open15_def newwin_def mvwin_def delwin_def
    numeral_eq_Suc less_Suc_eq)

lemma length_all_pairs: "length (all_pairs True) = 64"
  by (simp add: all_pairs_def length_concat comp_def sum_list_triv)

lemmas script_simps = cur12_script_def create1_def create2_def use1_def use2_def tell12_def move1_def move2_def shift2_def
  delete1_def delete2_def copy2_def newwin_def mvwin_def delwin_def

text \<open>
  \<^verbatim>\<open>cur12.c\<close>: for every size of the screen the program runs to its end without using a window that it
  has deleted, and then all three windows it has created are deleted, each once; the third one, the copy of
  the first, is moved to line 12 if the screen has room for it there, and else stays over the first.
\<close>

theorem cur12_clean:
  "\<exists>s. cur12_main has_colors h b = Some s \<and> windows (disp12 s) = Map.empty \<and> next_window (disp12 s) = 3 \<and>
    (\<exists>s1. steps12 (take 15 (cur12_script h b))
       \<lparr>disp12 = \<lparr>windows = Map.empty, next_window = 0\<rparr>, fenster1 = 0, fenster2 = 0, texts12 = show_all_pairs has_colors\<rparr> = Some s1 \<and>
       windows (disp12 s1) = [0 \<mapsto> \<lparr>beg_y = 0, beg_x = 0, rows = 11, cols = 50\<rparr>,
         2 \<mapsto> \<lparr>beg_y = (if 23 \<le> h \<and> 50 \<le> b then 12 else 0), beg_x = 0, rows = 11, cols = 50\<rparr>])"
proof -
  define t where "t = show_all_pairs has_colors"
  have "\<exists>s. steps12 (cur12_script h b) \<lparr>disp12 = \<lparr>windows = Map.empty, next_window = 0\<rparr>, fenster1 = 0, fenster2 = 0, texts12 = t\<rparr> = Some s \<and>
      windows (disp12 s) = Map.empty \<and> next_window (disp12 s) = 3"
    by (simp add: script_simps fun_upd_twist)
  moreover have "\<exists>s1. steps12 (take 15 (cur12_script h b)) \<lparr>disp12 = \<lparr>windows = Map.empty, next_window = 0\<rparr>, fenster1 = 0, fenster2 = 0, texts12 = t\<rparr> = Some s1 \<and>
       windows (disp12 s1) = [0 \<mapsto> \<lparr>beg_y = 0, beg_x = 0, rows = 11, cols = 50\<rparr>,
         2 \<mapsto> \<lparr>beg_y = (if 23 \<le> h \<and> 50 \<le> b then 12 else 0), beg_x = 0, rows = 11, cols = 50\<rparr>]"
    by (simp add: script_simps numeral_2_eq_2)
  ultimately show ?thesis unfolding cur12_main_def t_def by blast
qed

end
