(* ===== verification/Crew.thy ===== *)
theory Crew
  imports Pthread
begin

text \<open>
  The shape that the programs \<^verbatim>\<open>thread1.c\<close> to \<^verbatim>\<open>thread4.c\<close> and \<^verbatim>\<open>thread17.c\<close> to \<^verbatim>\<open>thread19.c\<close> share:
  \<^verbatim>\<open>main\<close> creates some threads, joins each of them and ends. A thread is the list of its actions (calls
  of the library and accesses to memory that others see), as a function of what it gets from its
  environment; \<^verbatim>\<open>main\<close> is a list of actions of its own, creations and joins. The scheduler picks whose
  action is next. The locale \<open>joined_crew\<close> shows once what every schedule has in common: it ends, each thread
  has done what its list says, in this order and after \<^verbatim>\<open>main\<close>'s preparations for it, and what \<^verbatim>\<open>main\<close>
  does after the last join comes after all of that.
\<close>

section \<open>The system\<close>

datatype 'i job = Do 'i | Check say | Create nat | Join nat "'i list"

text \<open>\<open>Failed\<close> is an exit with failure and what is said before; \<open>Undefined\<close> the loss of defined behaviour.\<close>

datatype stop = Running | Failed say | Undefined

text \<open>
  \<open>todo\<close> is what each thread still has to do, \<open>None\<close> before it is created; \<open>jobs\<close> what \<^verbatim>\<open>main\<close> has to do.
  Nothing depends on \<open>history\<close>, which records who did what.
\<close>

record ('i, 's) crew =
  todo :: "'i list option list"
  jobs :: "'i job list"
  mem :: 's
  stop :: stop
  history :: "(nat option \<times> 'i) list"

type_synonym ('i, 's) exec = "nat option \<Rightarrow> 'i \<Rightarrow> 's \<Rightarrow> 's"

definition perform :: "('i, 's) exec \<Rightarrow> nat option \<Rightarrow> 'i list \<Rightarrow> ('i, 's) crew \<Rightarrow> ('i, 's) crew" where
  "perform exec who as s = s\<lparr>mem := fold (exec who) as (mem s), history := history s @ map (Pair who) as\<rparr>"

datatype crew_step = Thread nat | Main bool

text \<open>
  A creation or another call that is checked fails when its step says so. What is said then is given by
  \<open>Check\<close> and, for creations, by \<open>failure\<close>; it is \<open>None\<close> for a program that does not check creations,
  which later joins a thread that does not exist.
\<close>

fun crew_act :: "('i, 's) exec \<Rightarrow> (nat \<Rightarrow> 'i list) \<Rightarrow> say option \<Rightarrow> crew_step \<Rightarrow> ('i, 's) crew \<Rightarrow> ('i, 's) crew option" where
  "crew_act exec script failure (Thread i) s =
     (if stop s \<noteq> Running \<or> jobs s = [] \<or> length (todo s) \<le> i then None
      else (case todo s ! i of
          Some (a # as) \<Rightarrow> Some (perform exec (Some i) [a] (s\<lparr>todo := (todo s)[i := Some as]\<rparr>))
        | _ \<Rightarrow> None))"
| "crew_act exec script failure (Main ok) s =
     (if stop s \<noteq> Running then None
      else (case jobs s of
          [] \<Rightarrow> None
        | Do a # r \<Rightarrow> Some (perform exec None [a] (s\<lparr>jobs := r\<rparr>))
        | Check msg # r \<Rightarrow> Some (if ok then s\<lparr>jobs := r\<rparr> else s\<lparr>stop := Failed msg\<rparr>)
        | Create i # r \<Rightarrow>
            Some (if ok then s\<lparr>todo := (todo s)[i := Some (script i)], jobs := r\<rparr>
                  else s\<lparr>stop := (case failure of None \<Rightarrow> Undefined | Some msg \<Rightarrow> Failed msg)\<rparr>)
        | Join i as # r \<Rightarrow> (if todo s ! i = Some [] then Some (perform exec None as (s\<lparr>jobs := r\<rparr>)) else None)))"

definition crew_start :: "nat \<Rightarrow> 'i job list \<Rightarrow> 's \<Rightarrow> ('i, 's) crew" where
  "crew_start n js m = \<lparr>todo = replicate n None, jobs = js, mem = m, stop = Running, history = []\<rparr>"

lemma crew_all_done: "jobs s = [] \<Longrightarrow> crew_act exec script failure a s = None"
  by (cases a) simp_all

text \<open>The schedule in which \<^verbatim>\<open>main\<close> takes \<open>k\<close> steps, \<open>n\<close> threads take \<open>l\<close> steps each in turn, and then \<^verbatim>\<open>main\<close> \<open>j\<close>.\<close>

definition in_turn :: "nat \<Rightarrow> nat \<Rightarrow> nat \<Rightarrow> nat \<Rightarrow> crew_step list" where
  "in_turn k n l j = replicate k (Main True) @ concat (replicate l (map Thread [0..<n])) @ replicate j (Main True)"

section \<open>What is in a list of jobs\<close>

fun creates :: "'i job list \<Rightarrow> nat list" where
  "creates [] = []"
| "creates (Create i # js) = i # creates js"
| "creates (_ # js) = creates js"

fun joins :: "'i job list \<Rightarrow> nat list" where
  "joins [] = []"
| "joins (Join i as # js) = i # joins js"
| "joins (_ # js) = joins js"

fun dos :: "'i job list \<Rightarrow> 'i list" where
  "dos [] = []"
| "dos (Do a # js) = a # dos js"
| "dos (Join i as # js) = as @ dos js"
| "dos (_ # js) = dos js"

lemma creates_append [simp]: "creates (xs @ ys) = creates xs @ creates ys"
  by (induction xs rule: creates.induct) simp_all

lemma joins_append [simp]: "joins (xs @ ys) = joins xs @ joins ys"
  by (induction xs rule: joins.induct) simp_all

lemma dos_append [simp]: "dos (xs @ ys) = dos xs @ dos ys"
  by (induction xs rule: dos.induct) simp_all

lemma map_Do [simp]: "creates (map Do as) = []" "joins (map Do as) = []" "dos (map Do as) = as"
  by (induction as) simp_all

lemma map_Join [simp]: "creates (map (\<lambda>i. Join i (f i)) is) = []" "joins (map (\<lambda>i. Join i (f i)) is) = is"
    "dos (map (\<lambda>i. Join i (f i)) is) = concat (map f is)"
  by (induction "is") simp_all

lemma joins_in: "Join i as \<in> set js \<Longrightarrow> i \<in> set (joins js)"
  by (induction js rule: joins.induct) auto

definition own :: "nat option \<Rightarrow> (nat option \<times> 'i) list \<Rightarrow> 'i list" where
  "own who h = map snd (filter (\<lambda>e. fst e = who) h)"

lemma own_simps [simp]: "own who [] = []" "own who (h @ h') = own who h @ own who h'"
    "own who (e # h) = (if fst e = who then snd e # own who h else own who h)"
    "own who (map (Pair w) as) = (if w = who then as else [])"
  by (simp_all add: own_def comp_def)

lemma own_in: "a \<in> set (own who h) \<longleftrightarrow> (who, a) \<in> set h"
  by (induction h) auto

lemma split_first: "x \<in> set h \<Longrightarrow> P x \<Longrightarrow> \<exists>h1 e h2. h = h1 @ e # h2 \<and> P e \<and> (\<forall>y \<in> set h1. \<not> P y)"
  by (rule split_list_first_prop) (rule bexI)

definition replay :: "('i, 's) exec \<Rightarrow> (nat option \<times> 'i) list \<Rightarrow> 's \<Rightarrow> 's" where
  "replay exec h = fold (\<lambda>e. exec (fst e) (snd e)) h"

lemma replay_simps [simp]: "replay exec [] m = m" "replay exec (h @ h') m = replay exec h' (replay exec h m)"
    "replay exec (e # h) m = replay exec h (exec (fst e) (snd e) m)"
    "replay exec (map (Pair who) as) m = fold (exec who) as m"
  by (simp_all add: replay_def fold_map comp_def)

section \<open>Every schedule\<close>

locale joined_crew =
  fixes exec :: "('i, 's) exec"
    and script :: "nat \<Rightarrow> 'i list"
    and failure :: "say option"
    and n :: nat
    and starts :: "'i job list"
    and got :: "nat \<Rightarrow> 'i list"
    and last_part :: "'i list"
  assumes some_thread: "0 < n"
    and creates_all: "creates starts = [0..<n]"
    and joins_later: "joins starts = []"
begin

definition plan :: "'i job list" where
  "plan = starts @ map (\<lambda>i. Join i (got i)) [0..<n] @ map Do last_part"

definition before :: "nat \<Rightarrow> 'i list" where
  "before i = dos (takeWhile (\<lambda>j. j \<noteq> Create i) starts)"

definition tail_ok :: "('i, 's) crew \<Rightarrow> bool" where
  "tail_ok s \<longleftrightarrow> (joins (jobs s) = [] \<longrightarrow>
     (\<exists>h. history s = h @ map (Pair None) (take (length last_part - length (jobs s)) last_part) \<and>
        (\<forall>i < n. own (Some i) h = script i)))"

definition causal :: "(nat option \<times> 'i) list \<Rightarrow> bool" where
  "causal h \<longleftrightarrow> (\<forall>h1 i a h2. h = h1 @ (Some i, a) # h2 \<longrightarrow> i < n \<and> prefix (before i) (own None h1))"

definition rest :: "('i, 's) crew \<Rightarrow> nat \<Rightarrow> 'i list" where
  "rest s i = (case todo s ! i of None \<Rightarrow> script i | Some as \<Rightarrow> as)"

definition crew_inv :: "'s \<Rightarrow> ('i, 's) crew \<Rightarrow> bool" where
  "crew_inv m s \<longleftrightarrow> length (todo s) = n \<and> suffix (jobs s) plan \<and>
     (\<forall>i < n. todo s ! i = None \<longleftrightarrow> i \<in> set (creates (jobs s))) \<and>
     (\<forall>i < n. i \<notin> set (joins (jobs s)) \<longrightarrow> todo s ! i = Some []) \<and>
     (\<forall>i < n. own (Some i) (history s) @ rest s i = script i) \<and>
     own None (history s) @ dos (jobs s) = dos plan \<and>
     mem s = replay exec (history s) m \<and> causal (history s) \<and> tail_ok s"

lemmas crew_invD = crew_inv_def [THEN iffD1]

lemma plan_parts: "creates plan = [0..<n]" "joins plan = [0..<n]"
  using creates_all joins_later by (simp_all add: plan_def)

lemma suffix_distinct: "suffix js plan \<Longrightarrow> distinct (creates js) \<and> distinct (joins js) \<and> set (creates js) \<subseteq> {..<n} \<and> set (joins js) \<subseteq> {..<n}"
proof -
  assume "suffix js plan"
  then obtain d where d: "plan = d @ js" by (auto simp: suffix_def)
  have "creates d @ creates js = [0..<n]" "joins d @ joins js = [0..<n]"
    using plan_parts unfolding d by simp_all
  then show ?thesis by (metis atLeastLessThan_upt distinct_append distinct_upt lessThan_atLeast0 set_append sup_ge2)
qed

text \<open>From the first join on there are only joins, then only the last part.\<close>

lemma suffix_join: "suffix (Join i as # r) plan \<Longrightarrow> creates r = [] \<and> (joins r = [] \<longrightarrow> r = map Do last_part)"
proof -
  assume "suffix (Join i as # r) plan"
  moreover have "Join i as \<notin> set starts" using joins_in [of i as starts] joins_later by auto
  ultimately have s: "suffix (Join i as # r) (map (\<lambda>i. Join i (got i)) [0..<n] @ map Do last_part)"
    unfolding plan_def suffix_append [of _ starts] by (auto simp: suffix_def Cons_eq_append_conv)
  then have "\<not> suffix (Join i as # r) (map Do last_part)" by (auto simp: suffix_def map_eq_append_conv)
  with s obtain xs where "Join i as # r = xs @ map Do last_part" "suffix xs (map (\<lambda>i. Join i (got i)) [0..<n])"
    unfolding suffix_append by blast
  then obtain ys where ys: "r = ys @ map Do last_part" "suffix (Join i as # ys) (map (\<lambda>i. Join i (got i)) [0..<n])"
    by (cases xs) auto
  then obtain d where d: "map (\<lambda>i. Join i (got i)) [0..<n] = (d @ [Join i as]) @ ys" by (auto simp: suffix_def)
  then obtain k where "ys = map (\<lambda>i. Join i (got i)) (drop k [0..<n])" by (metis drop_map append_eq_conv_conj)
  with ys(1) show ?thesis by auto
qed

lemma suffix_tail: "suffix js plan \<Longrightarrow> joins js = [] \<Longrightarrow> suffix js (map Do last_part)"
proof -
  assume s: "suffix js plan" and j: "joins js = []"
  obtain m where m: "n = Suc m" using some_thread by (cases n) auto
  have p: "plan = (starts @ map (\<lambda>i. Join i (got i)) [0..<m]) @ Join m (got m) # map Do last_part"
    unfolding plan_def unfolding m by simp
  from s j have "suffix js (Join m (got m) # map Do last_part)" unfolding p suffix_append by auto
  with j show ?thesis by (auto simp: suffix_Cons)
qed

lemma before_created: "suffix js plan \<Longrightarrow> i < n \<Longrightarrow> i \<notin> set (creates js) \<Longrightarrow> h @ dos js = dos plan \<Longrightarrow> prefix (before i) h"
proof -
  assume s: "suffix js plan" and i: "i < n" "i \<notin> set (creates js)" and h: "h @ dos js = dos plan"
  obtain d where d: "plan = d @ js" using s by (auto simp: suffix_def)
  have hd: "h = dos d" using h unfolding d by simp
  have in_creates: "Create i \<in> set xs \<longleftrightarrow> i \<in> set (creates xs)" for xs :: "'i job list"
    by (induction xs rule: creates.induct) auto
  have "i \<in> set (creates starts)" using i creates_all by simp
  then have cs: "Create i \<in> set starts" unfolding in_creates .
  have "i \<in> set (creates plan)" using i plan_parts by simp
  then have cd: "Create i \<in> set d" using i(2) unfolding in_creates d by simp
  have "takeWhile (\<lambda>j. j \<noteq> Create i) starts = takeWhile (\<lambda>j. j \<noteq> Create i) plan"
    unfolding plan_def using cs by (intro takeWhile_append1 [symmetric]) auto
  also have "\<dots> = takeWhile (\<lambda>j. j \<noteq> Create i) d" unfolding d using cd by (intro takeWhile_append1) auto
  finally have "before i = dos (takeWhile (\<lambda>j. j \<noteq> Create i) d)" by (simp add: before_def)
  then show ?thesis unfolding hd by (metis dos_append prefixI takeWhile_dropWhile_id)
qed

lemma causal_snoc:
  assumes "causal h" and "\<And>i. who = Some i \<Longrightarrow> i < n \<and> prefix (before i) (own None h)"
  shows "causal (h @ [(who, a)])"
  unfolding causal_def
proof (intro allI impI)
  fix h1 i b h2
  assume "h @ [(who, a)] = h1 @ (Some i, b) # h2"
  then consider "h = h1" "who = Some i" | h3 where "h = h1 @ (Some i, b) # h3"
    by (cases h2 rule: rev_cases) auto
  then show "i < n \<and> prefix (before i) (own None h1)" using assms by cases (auto simp: causal_def)
qed

lemma causal_main: "causal h \<Longrightarrow> causal (h @ map (Pair None) as)"
proof (induction as rule: rev_induct)
  case (snoc a as)
  then have "causal ((h @ map (Pair None) as) @ [(None, a)])" by (intro causal_snoc) auto
  then show ?case by simp
qed simp

lemma inv_thread:
  assumes inv: "crew_inv m s" and i: "i < n" and t: "todo s ! i = Some (a # as)"
  shows "crew_inv m (perform exec (Some i) [a] (s\<lparr>todo := (todo s)[i := Some as]\<rparr>))"
proof -
  let ?s = "perform exec (Some i) [a] (s\<lparr>todo := (todo s)[i := Some as]\<rparr>)"
  note inv = crew_invD [OF inv]
  have s: "todo ?s = (todo s)[i := Some as]" "jobs ?s = jobs s" "mem ?s = exec (Some i) a (mem s)"
    "history ?s = history s @ [(Some i, a)]" by (simp_all add: perform_def)
  have j: "i \<in> set (joins (jobs s))" using inv i t by auto
  have c: "i \<notin> set (creates (jobs s))" using inv i t by auto
  have "tail_ok ?s" using j by (auto simp: tail_ok_def s)
  moreover have "causal (history ?s)" unfolding s
    using inv i by (intro causal_snoc) (auto intro: before_created [OF _ i c])
  moreover have "own (Some k) (history ?s) @ rest ?s k = script k" if k: "k < n" for k
    using inv k i t by (cases "k = i") (auto simp: s rest_def nth_list_update)
  ultimately show ?thesis unfolding crew_inv_def s using inv i j c t by (auto simp: nth_list_update)
qed

lemma inv_do:
  assumes inv: "crew_inv m s" and j: "jobs s = Do a # r"
  shows "crew_inv m (perform exec None [a] (s\<lparr>jobs := r\<rparr>))"
proof -
  let ?s = "perform exec None [a] (s\<lparr>jobs := r\<rparr>)"
  note inv = crew_invD [OF inv, unfolded j]
  have s: "todo ?s = todo s" "jobs ?s = r" "mem ?s = exec None a (mem s)"
    "history ?s = history s @ [(None, a)]" by (simp_all add: perform_def)
  have "tail_ok ?s" unfolding tail_ok_def s
  proof
    assume "joins r = []"
    then have nj: "joins (Do a # r) = []" by simp
    have "suffix (Do a # r) (map Do last_part)" using inv by (intro suffix_tail nj) blast
    then obtain d where "map Do last_part = d @ Do a # r" by (auto simp: suffix_def)
    then obtain d' r' where d: "last_part = d' @ a # r'" "r = map Do r'"
      by (auto simp: map_eq_append_conv map_eq_Cons_conv)
    obtain h where h: "history s = h @ map (Pair None) (take (length last_part - length (Do a # r)) last_part)"
      "\<forall>i < n. own (Some i) h = script i" using inv nj by (auto simp: tail_ok_def j)
    have "history s @ [(None, a)] = h @ map (Pair None) (take (length last_part - length r) last_part)"
      using h(1) d by (simp add: take_append)
    with h(2) show "\<exists>h. history s @ [(None, a)] = h @ map (Pair None) (take (length last_part - length r) last_part) \<and>
        (\<forall>i < n. own (Some i) h = script i)" by blast
  qed
  moreover have "causal (history ?s)" unfolding s using inv causal_main [of "history s" "[a]"] by simp
  ultimately show ?thesis unfolding crew_inv_def s using inv by (auto simp: rest_def s suffix_ConsD)
qed

lemma inv_quiet:
  assumes inv: "crew_inv m s" and j: "jobs s = x # r" and x: "x = Check msg \<or> x = Create i"
    and t: "todo s' = (if x = Create i then (todo s)[i := Some (script i)] else todo s)"
    and s': "jobs s' = r" "mem s' = mem s" "history s' = history s"
  shows "crew_inv m s'"
proof -
  note inv = crew_invD [OF inv, unfolded j]
  have sf: "suffix (x # r) plan" "suffix r plan" using inv by (auto intro: suffix_ConsD)
  have jr: "joins r = joins (x # r)" "dos r = dos (x # r)" using x by auto
  have "joins r \<noteq> []"
  proof
    assume "joins r = []"
    with jr have "suffix (x # r) (map Do last_part)" using sf by (intro suffix_tail) simp_all
    then show False using x by (auto simp: suffix_def map_eq_append_conv)
  qed
  then have tail: "tail_ok s'" by (simp add: tail_ok_def s')
  show ?thesis
  proof (cases "x = Create i")
    case True
    with suffix_distinct [OF sf(1)] have i: "i < n" "i \<notin> set (creates r)" by auto
    have none: "todo s ! i = None" using inv i(1) True by auto
    have "own (Some i) (history s) @ rest s i = script i" using inv i(1) by blast
    with none have old: "todo s ! i = None" "own (Some i) (history s) = []" by (simp_all add: rest_def)
    have "todo s ! i \<noteq> None" if "i \<notin> set (joins (jobs s))" using inv i(1) that unfolding j by auto
    with old have ij: "i \<in> set (joins (jobs s))" by blast
    have td: "todo s' = (todo s)[i := Some (script i)]" "length (todo s) = n" using t True inv by simp_all
    have "todo s' ! k = None \<longleftrightarrow> k \<in> set (creates r)" if "k < n" for k
      using inv that i td True by (cases "k = i") auto
    moreover have "todo s' ! k = Some []" if "k < n" "k \<notin> set (joins r)" for k
      using inv that ij jr j td by (cases "k = i") auto
    moreover have "own (Some k) (history s) @ rest s' k = script k" if "k < n" for k
      using inv that old td by (cases "k = i") (auto simp: rest_def)
    ultimately show ?thesis unfolding crew_inv_def s' using inv td tail sf(2) jr by simp
  next
    case False
    then have "creates r = creates (x # r)" using x by auto
    then show ?thesis unfolding crew_inv_def s' t using inv tail sf(2) jr False by (auto simp: rest_def t)
  qed
qed

lemma inv_join:
  assumes inv: "crew_inv m s" and j: "jobs s = Join i as # r" and t: "todo s ! i = Some []"
  shows "crew_inv m (perform exec None as (s\<lparr>jobs := r\<rparr>))"
proof -
  let ?s = "perform exec None as (s\<lparr>jobs := r\<rparr>)"
  note inv = crew_invD [OF inv, unfolded j]
  have s: "todo ?s = todo s" "jobs ?s = r" "mem ?s = fold (exec None) as (mem s)"
    "history ?s = history s @ map (Pair None) as" by (simp_all add: perform_def)
  have sf: "suffix (Join i as # r) plan" "suffix r plan" using inv by (auto intro: suffix_ConsD)
  have "tail_ok ?s" unfolding tail_ok_def s
  proof
    assume jr: "joins r = []"
    with suffix_join [OF sf(1)] have r: "r = map Do last_part" by blast
    have "own (Some k) (history s) = script k" if "k < n" for k
    proof -
      have "todo s ! k = Some []" using inv jr that t by (cases "k = i") auto
      with inv that show ?thesis by (auto simp: rest_def)
    qed
    then show "\<exists>h. history s @ map (Pair None) as = h @ map (Pair None) (take (length last_part - length r) last_part) \<and>
        (\<forall>i < n. own (Some i) h = script i)" using r by (intro exI [of _ "history s @ map (Pair None) as"]) simp
  qed
  moreover have "causal (history ?s)" unfolding s using inv causal_main by blast
  ultimately show ?thesis unfolding crew_inv_def s using inv sf(2) t by (auto simp: rest_def s)
qed

lemma crew_inv_start: "crew_inv m (crew_start n plan m)"
proof -
  have "joins plan \<noteq> []" using plan_parts some_thread by simp
  then show ?thesis using plan_parts by (simp add: crew_inv_def crew_start_def tail_ok_def causal_def rest_def)
qed

lemma crew_step:
  assumes "crew_inv m s" and "crew_act exec script failure a s = Some s'"
  shows "crew_inv m s'"
proof (cases a)
  case (Thread i)
  with assms(2) obtain b as where t: "i < length (todo s)" "todo s ! i = Some (b # as)"
    "s' = perform exec (Some i) [b] (s\<lparr>todo := (todo s)[i := Some as]\<rparr>)"
    by (auto split: if_splits option.splits list.splits)
  have "i < n" using t(1) assms(1) by (simp add: crew_inv_def)
  from inv_thread [OF assms(1) this t(2)] show ?thesis unfolding t(3) .
next
  case (Main ok)
  have same: "crew_inv m (s\<lparr>stop := x\<rparr>)" for x
    using assms(1) by (simp add: crew_inv_def tail_ok_def rest_def)
  obtain j r where j: "jobs s = j # r" using assms(2) Main by (auto split: if_splits list.splits)
  show ?thesis
  proof (cases j)
    case (Do b)
    with assms Main j have "s' = perform exec None [b] (s\<lparr>jobs := r\<rparr>)" by (auto split: if_splits)
    with inv_do [OF assms(1)] j Do show ?thesis by simp
  next
    case (Check msg)
    with assms Main j have "s' = (if ok then s\<lparr>jobs := r\<rparr> else s\<lparr>stop := Failed msg\<rparr>)" by (auto split: if_splits)
    then show ?thesis using inv_quiet [OF assms(1) j, of msg _ "s\<lparr>jobs := r\<rparr>"] Check same by simp
  next
    case (Create i)
    with assms Main j have "s' = (if ok then s\<lparr>todo := (todo s)[i := Some (script i)], jobs := r\<rparr>
        else s\<lparr>stop := (case failure of None \<Rightarrow> Undefined | Some msg \<Rightarrow> Failed msg)\<rparr>)" by (auto split: if_splits)
    then show ?thesis using inv_quiet [OF assms(1) j, of _ i "s\<lparr>todo := (todo s)[i := Some (script i)], jobs := r\<rparr>"]
      Create same by simp
  next
    case (Join i as)
    with assms Main j have "todo s ! i = Some []" "s' = perform exec None as (s\<lparr>jobs := r\<rparr>)" by (auto split: if_splits)
    with inv_join [OF assms(1)] j Join show ?thesis by simp
  qed
qed

definition crew_size :: "('i, 's) crew \<Rightarrow> nat" where
  "crew_size s = (if stop s \<noteq> Running then 0 else length (jobs s) + (\<Sum>i < n. length (rest s i)))"

definition crew_over :: "('i, 's) crew \<Rightarrow> bool" where
  "crew_over s \<longleftrightarrow> stop s \<noteq> Running \<or> jobs s = []"

lemma rest_sum_less:
  assumes "i < n" and "rest s i = a # rest s' i" and "\<And>k. k < n \<Longrightarrow> k \<noteq> i \<Longrightarrow> rest s' k = rest s k"
  shows "Suc (\<Sum>k < n. length (rest s' k)) = (\<Sum>k < n. length (rest s k))"
proof -
  have "(\<Sum>k < n. length (rest t k)) = length (rest t i) + (\<Sum>k \<in> {..<n} - {i}. length (rest t k))" for t :: "('i, 's) crew"
    using assms(1) by (simp add: sum.remove [of _ i])
  moreover have "(\<Sum>k \<in> {..<n} - {i}. length (rest s' k)) = (\<Sum>k \<in> {..<n} - {i}. length (rest s k))"
    by (rule sum.cong) (use assms(3) in auto)
  ultimately show ?thesis using assms(2) by simp
qed

lemma crew_decreases:
  assumes inv: "crew_inv m s" and st: "crew_act exec script failure a s = Some s'"
  shows "crew_size s' < crew_size s"
proof (cases a)
  case (Thread i)
  with st obtain b as where t: "i < length (todo s)" "todo s ! i = Some (b # as)" "stop s = Running"
    "s' = perform exec (Some i) [b] (s\<lparr>todo := (todo s)[i := Some as]\<rparr>)"
    by (auto split: if_splits option.splits list.splits)
  have i: "i < n" using t(1) inv by (simp add: crew_inv_def)
  have "Suc (\<Sum>k < n. length (rest s' k)) = (\<Sum>k < n. length (rest s k))"
    by (rule rest_sum_less [OF i]) (use t in \<open>auto simp: rest_def perform_def\<close>)
  with t show ?thesis by (simp add: crew_size_def perform_def)
next
  case (Main ok)
  then obtain j r where j: "jobs s = j # r" "stop s = Running" using st by (auto split: if_splits list.splits)
  have d: "crew_size s' < crew_size s" if "stop s' \<noteq> Running \<or> jobs s' = r" "\<And>k. k < n \<Longrightarrow> rest s' k = rest s k"
    using that j by (auto simp: crew_size_def)
  show ?thesis
  proof (cases j)
    case (Create i)
    with crew_invD [OF inv] j suffix_distinct have "i < n" "todo s ! i = None" by fastforce+
    then have q: "rest (s\<lparr>todo := (todo s)[i := Some (script i)], jobs := r\<rparr>) k = rest s k" for k
      by (cases "k = i"; cases "i < length (todo s)") (simp_all add: rest_def list_update_beyond)
    show ?thesis
    proof (cases ok)
      case True
      then have "s' = s\<lparr>todo := (todo s)[i := Some (script i)], jobs := r\<rparr>" using st Main Create j by simp
      with q show ?thesis by (intro d) simp_all
    next
      case False
      then have "stop s' \<noteq> Running \<and> todo s' = todo s" using st Main Create j by (auto split: option.splits)
      then show ?thesis by (intro d) (simp_all add: rest_def)
    qed
  qed (use st Main j in \<open>intro d; auto simp: rest_def perform_def split: if_splits\<close>)+
qed

lemma crew_progress:
  assumes inv: "crew_inv m s" and nf: "\<not> crew_over s"
  shows "\<exists>a s'. crew_act exec script failure a s = Some s'"
proof -
  from nf obtain j r where j: "jobs s = j # r" "stop s = Running" by (cases "jobs s") (auto simp: crew_over_def)
  note inv = crew_invD [OF inv, unfolded j]
  show ?thesis
  proof (cases j)
    case (Join i as)
    have sf: "suffix (Join i as # r) plan" using inv Join by simp
    have i: "i < n" using suffix_distinct [OF sf] by simp
    have "i \<notin> set (creates (j # r))" using suffix_join [OF sf] Join by simp
    with inv i obtain bs where bs: "todo s ! i = Some bs" by auto
    show ?thesis
    proof (cases bs)
      case Nil
      with bs j Join have "crew_act exec script failure (Main True) s = Some (perform exec None as (s\<lparr>jobs := r\<rparr>))" by simp
      then show ?thesis by blast
    next
      case (Cons b bs')
      with bs j i inv have "crew_act exec script failure (Thread i) s =
          Some (perform exec (Some i) [b] (s\<lparr>todo := (todo s)[i := Some bs']\<rparr>))" by simp
      then show ?thesis by blast
    qed
  qed (use j in \<open>auto intro!: exI [of _ "Main True"]\<close>)
qed

end

sublocale joined_crew \<subseteq> scheduled: terminating_protocol "crew_act exec script failure" "\<lambda>s. s = crew_start n plan m" "crew_inv m" crew_size crew_over
  for m
  by unfold_locales (simp_all add: crew_inv_start crew_step crew_decreases crew_progress)

context joined_crew begin

text \<open>The number of steps that no schedule exceeds.\<close>

definition bound :: nat where
  "bound = length plan + (\<Sum>i < n. length (script i))"

text \<open>A history of all that \<^verbatim>\<open>main\<close> does up to its last join and all that the threads do.\<close>

definition complete :: "(nat option \<times> 'i) list \<Rightarrow> bool" where
  "complete h \<longleftrightarrow> own None h = dos starts @ concat (map got [0..<n]) \<and> (\<forall>i < n. own (Some i) h = script i) \<and> causal h"

lemma bounded_run: "run (crew_act exec script failure) as (crew_start n plan m) = Some s \<Longrightarrow> length as \<le> bound"
proof -
  assume r: "run (crew_act exec script failure) as (crew_start n plan m) = Some s"
  have "(\<Sum>i < n. length (rest (crew_start n plan m) i)) = (\<Sum>i < n. length (script i))"
    by (rule sum.cong) (simp_all add: crew_start_def rest_def)
  then have "crew_size (crew_start n plan m) = bound"
    by (simp add: crew_size_def bound_def) (simp add: crew_start_def)
  with scheduled.run_bound [OF crew_inv_start r] show ?thesis by simp
qed

lemma stays: "run (crew_act exec script failure) as (crew_start n plan m) = Some s \<Longrightarrow> crew_inv m s"
  using scheduled.bounded.run_keeps [OF crew_inv_start] .

lemma ends:
  assumes r: "run (crew_act exec script failure) as (crew_start n plan m) = Some s"
    and over: "\<And>a. crew_act exec script failure a s = None" and ok: "stop s = Running"
  shows "\<exists>h. complete h \<and> mem s = replay exec (h @ map (Pair None) last_part) m"
proof -
  from scheduled.stuck_final [OF crew_inv_start r over] ok have j: "jobs s = []" by (simp add: crew_over_def)
  note inv = crew_invD [OF stays [OF r], unfolded j]
  from inv obtain h where h: "history s = h @ map (Pair None) last_part" "\<forall>i < n. own (Some i) h = script i"
    by (auto simp: tail_ok_def j)
  have "own None h @ last_part = dos starts @ concat (map got [0..<n]) @ last_part"
    using inv h(1) by (simp add: plan_def)
  moreover have "causal h" using inv unfolding h(1) causal_def by (metis append_Cons append.assoc)
  ultimately have "complete h" using h(2) by (simp add: complete_def)
  with inv h(1) show ?thesis by auto
qed

text \<open>
  The steps that concern thread \<open>i\<close>: its own and those of \<^verbatim>\<open>main\<close> that \<open>P\<close> selects. When \<^verbatim>\<open>main\<close> does the
  latter before it creates the thread, their order is the same in every schedule.
\<close>

definition concerns :: "('i \<Rightarrow> bool) \<Rightarrow> nat \<Rightarrow> nat option \<times> 'i \<Rightarrow> bool" where
  "concerns P i e \<longleftrightarrow> fst e = Some i \<or> fst e = None \<and> P (snd e)"

lemma filter_own: "own None (filter (concerns P i) h) = filter P (own None h)"
    "own (Some i) (filter (concerns P i) h) = own (Some i) h"
  by (induction h) (auto simp: concerns_def)

lemma complete_in: "complete h \<Longrightarrow> (Some i, a) \<in> set h \<Longrightarrow> i < n \<and> a \<in> set (script i)"
proof -
  assume c: "complete h" and a: "(Some i, a) \<in> set h"
  then obtain h1 h2 where h: "h = h1 @ (Some i, a) # h2" by (meson split_list)
  from c h have "i < n" unfolding complete_def causal_def by blast
  moreover have "a \<in> set (own (Some i) h)" unfolding h by simp
  ultimately show ?thesis using c by (simp add: complete_def)
qed

lemma complete_main: "complete h \<Longrightarrow> (None, a) \<in> set h \<Longrightarrow> a \<in> set (dos starts @ concat (map got [0..<n]))"
proof -
  assume c: "complete h" and "(None, a) \<in> set h"
  then have "a \<in> set (own None h)" by (force simp: own_def)
  with c show ?thesis by (simp only: complete_def)
qed

lemma all_own: "(\<And>e. e \<in> set h \<Longrightarrow> fst e = who) \<Longrightarrow> h = map (Pair who) (own who h)"
proof (induction h)
  case (Cons e h)
  have "fst e = who" by (rule Cons.prems) simp
  moreover have "h = map (Pair who) (own who h)" by (rule Cons.IH) (simp add: Cons.prems)
  ultimately show ?case by (cases e) simp
qed simp

lemma complete_own_main:
  "complete h \<Longrightarrow> filter (\<lambda>e. fst e = None) h = map (Pair None) (dos starts @ concat (map got [0..<n]))"
proof -
  assume c: "complete h"
  have "own None (filter (\<lambda>e. fst e = None) h) = own None h" by (simp add: own_def)
  with all_own [of "filter (\<lambda>e. fst e = None) h" None] c show ?thesis by (simp add: complete_def)
qed

lemma only_thread:
  assumes "own None (filter (concerns P i) h) = []" and "x \<in> set (filter (concerns P i) h)"
  shows "fst x = Some i"
proof -
  have "fst x \<noteq> None" using assms unfolding own_def by (metis (mono_tags, lifting) filter_empty_conv map_is_Nil_conv)
  moreover have "fst x = Some i \<or> fst x = None" using assms(2) by (auto simp: concerns_def)
  ultimately show ?thesis by auto
qed

lemma concerns_order:
  assumes c: "complete h" and i: "i < n" and b: "filter P (before i) = filter P (dos starts @ concat (map got [0..<n]))"
  shows "filter (concerns P i) h = map (Pair None) (filter P (before i)) @ map (Pair (Some i)) (script i)"
proof (cases "script i")
  case Nil
  with c i have "own (Some i) (filter (concerns P i) h) = []" unfolding filter_own by (simp add: complete_def)
  then have "fst e = None" if "e \<in> set (filter (concerns P i) h)" for e
    using that by (auto simp: concerns_def own_def filter_empty_conv)
  from all_own [of "filter (concerns P i) h" None, OF this] show ?thesis
    unfolding filter_own using c b Nil by (simp add: complete_def)
next
  case (Cons a as)
  let ?f = "filter (concerns P i)"
  have "\<exists>e \<in> set h. fst e = Some i"
  proof (rule ccontr)
    assume "\<not> (\<exists>e \<in> set h. fst e = Some i)"
    then have "own (Some i) h = []" by (auto simp: own_def filter_empty_conv)
    with c i Cons show False by (simp add: complete_def)
  qed
  then obtain h1 e h2 where h: "h = h1 @ e # h2" "fst e = Some i" "\<forall>x \<in> set h1. fst x \<noteq> Some i"
    using split_list_first_prop [of h "\<lambda>e. fst e = Some i"] by auto
  obtain a' where e: "e = (Some i, a')" using h(2) by (cases e) simp
  have h1: "own (Some i) h1 = []" using h(3) by (simp add: own_def filter_empty_conv)
  have "prefix (before i) (own None h1)" using c h(1) unfolding e complete_def causal_def by blast
  then obtain z where z: "own None h1 = before i @ z" by (auto simp: prefix_def)
  have "own None h1 @ own None h2 = dos starts @ concat (map got [0..<n])" using c h(1) e by (simp add: complete_def)
  then have "filter P (own None h1) @ filter P (own None h2) = filter P (before i)" using b by (metis filter_append)
  then have n2: "filter P (own None h1) = filter P (before i)" "filter P (own None h2) = []" using z by auto
  have "fst x = None" if "x \<in> set (?f h1)" for x using that h(3) by (auto simp: concerns_def)
  from all_own [of "?f h1" None, OF this] have p1: "?f h1 = map (Pair None) (filter P (before i))"
    unfolding filter_own n2(1) .
  have "own None (?f (e # h2)) = []" unfolding filter_own using n2(2) e by simp
  then have "fst x = Some i" if "x \<in> set (?f (e # h2))" for x using that by (rule only_thread)
  from all_own [of "?f (e # h2)" "Some i", OF this] have p2: "?f (e # h2) = map (Pair (Some i)) (own (Some i) (e # h2))"
    unfolding filter_own .
  have "own (Some i) (h1 @ e # h2) = script i" using c i unfolding complete_def h(1) by blast
  then have "own (Some i) (e # h2) = script i" using h1 by (simp only: own_simps(2) append_Nil)
  with p1 p2 show ?thesis unfolding h(1) filter_append by simp
qed

end

text \<open>
  A part \<open>view\<close> of the memory that only some steps change, and they only as a function of it, is what
  these steps make of it.
\<close>

lemma replay_view:
  assumes "\<And>e m. e \<in> set h \<Longrightarrow> \<not> Q e \<Longrightarrow> view (exec (fst e) (snd e) m) = view m"
    and "\<And>e m m'. e \<in> set h \<Longrightarrow> Q e \<Longrightarrow> view m = view m' \<Longrightarrow> view (exec (fst e) (snd e) m) = view (exec (fst e) (snd e) m')"
  shows "view (replay exec h m) = view (replay exec (filter Q h) m)"
proof -
  have "view m = view m' \<Longrightarrow> view (replay exec h m) = view (replay exec (filter Q h) m')" for m m'
    using assms
  proof (induction h arbitrary: m m')
    case Nil
    show ?case using Nil.prems(1) by simp
  next
    case (Cons e h)
    have e: "e \<in> set (e # h)" and sub: "x \<in> set h \<Longrightarrow> x \<in> set (e # h)" for x by simp_all
    have IH: "view (replay exec h a) = view (replay exec (filter Q h) b)" if "view a = view b" for a b
      using that by (rule Cons.IH) (erule (1) Cons.prems(2) [OF sub] | erule (2) Cons.prems(3) [OF sub])+
    show ?case
    proof (cases "Q e")
      case True
      have "view (exec (fst e) (snd e) m) = view (exec (fst e) (snd e) m')" by (rule Cons.prems(3) [OF e True Cons.prems(1)])
      from IH [OF this] True show ?thesis by simp
    next
      case False
      have "view (exec (fst e) (snd e) m) = view m'" using Cons.prems(2) [OF e False] Cons.prems(1) by (rule trans)
      from IH [OF this] False show ?thesis by simp
    qed
  qed
  then show ?thesis by simp
qed

lemma replay_inv:
  assumes "I m" and "\<And>e m. e \<in> set h \<Longrightarrow> I m \<Longrightarrow> I (exec (fst e) (snd e) m)"
  shows "I (replay exec h m)"
  using assms by (induction h arbitrary: m) simp_all

lemma fold_inv:
  assumes "I m" and "\<And>a m. a \<in> set as \<Longrightarrow> I m \<Longrightarrow> I (exec who a m)"
  shows "I (fold (exec who) as m)"
  using assms by (induction as arbitrary: m) simp_all

end
