(* ===== verification/ThreadCrew.thy ===== *)
theory ThreadCrew
  imports Crew
begin

text \<open>
  \<^verbatim>\<open>src/10_Threads/thread1.c\<close>, where a cleanup handler frees the data of each thread, and what the
  programs of this shape share (\<open>ThreadResults\<close>, \<open>ThreadLocal\<close>). Each is a system of theory \<open>Crew\<close>: the
  lists of actions of \<^verbatim>\<open>main\<close> and of the threads, and what an action does to the memory that they
  share. \<open>tid\<close> are the identities that \<^verbatim>\<open>pthread_self\<close> yields, \<open>mid\<close> that of \<^verbatim>\<open>main\<close>. Lines that are
  printed are recorded with the thread that prints them.
\<close>

type_synonym lines = "(nat option \<times> string) list"

abbreviation MAX_THREADS :: nat where "MAX_THREADS \<equiv> 3"

definition hello :: "int \<Rightarrow> string" where
  "hello mid = ''\<newline>-> Main-Thread gestartet (ID:'' @ show_int mid @ '')\<newline>''"

definition bye :: "int \<Rightarrow> string" where
  "bye mid = ''<- Main-Thread beendet (ID:'' @ show_int mid @ '')\<newline>''"

definition not_created :: "say option" where
  "not_created = Some (Err ''Konnte Thread nicht erzeugen ...!\<newline>'')"

definition no_memory :: say where
  "no_memory = Out ''Konnte keinen Speicher reservieren ...!\<newline>''"

text \<open>\<^verbatim>\<open>1 + (int)(10.0 * rand() / (RAND_MAX + 1.0))\<close>, exact for the 31 bits that \<^verbatim>\<open>rand\<close> yields.\<close>

definition wert :: "int \<Rightarrow> int" where
  "wert r = 1 + 10 * r div 2 ^ 31"

lemma wert_range: "0 \<le> r \<Longrightarrow> r < 2 ^ 31 \<Longrightarrow> 1 \<le> wert r \<and> wert r \<le> 10"
  by (simp add: wert_def) linarith

lemma three: "[0..<MAX_THREADS] = [0, 1, 2]"
  by (simp add: upt_rec numeral_2_eq_2)

abbreviation (input) MSGBUF :: nat where "MSGBUF \<equiv> 255"

section \<open>\<^verbatim>\<open>thread1.c\<close>\<close>

text \<open>
  A thread works on the block that \<^verbatim>\<open>main\<close> has filled for it. \<open>misused\<close> are the blocks that were read or
  freed while they were not allocated.
\<close>

datatype act1 = Fill1 nat int string | Print1 string | PrintWert1 | PrintMsg1 | Free1

record mem1 =
  blocks1 :: "nat \<rightharpoonup> int \<times> string"
  misused1 :: "nat list"
  lines1 :: lines

definition with_block :: "nat option \<Rightarrow> (nat \<Rightarrow> int \<times> string \<Rightarrow> mem1) \<Rightarrow> mem1 \<Rightarrow> mem1" where
  "with_block who f m =
     (case who of None \<Rightarrow> m
      | Some i \<Rightarrow> (case blocks1 m i of None \<Rightarrow> m\<lparr>misused1 := i # misused1 m\<rparr> | Some d \<Rightarrow> f i d))"

definition say1 :: "nat option \<Rightarrow> string \<Rightarrow> mem1 \<Rightarrow> mem1" where
  "say1 who t m = m\<lparr>lines1 := lines1 m @ [(who, t)]\<rparr>"

fun exec1 :: "nat option \<Rightarrow> act1 \<Rightarrow> mem1 \<Rightarrow> mem1" where
  "exec1 who (Fill1 i w t) m = m\<lparr>blocks1 := (blocks1 m)(i \<mapsto> (w, take (MSGBUF - 1) t))\<rparr>"
| "exec1 who (Print1 t) m = say1 who t m"
| "exec1 who PrintWert1 m =
     with_block who (\<lambda>i d. say1 who (TAB # TAB # ''wert = '' @ CHR 0x22 # show_int (fst d) @ [CHR 0x22, LF]) m) m"
| "exec1 who PrintMsg1 m =
     with_block who (\<lambda>i d. say1 who (TAB # TAB # ''msg = '' @ CHR 0x22 # snd d @ [CHR 0x22, LF]) m) m"
| "exec1 who Free1 m = with_block who (\<lambda>i d. m\<lparr>blocks1 := (blocks1 m)(i := None)\<rparr>) m"

definition exit_handler_mem :: "act1 list" where
  "exit_handler_mem =
     [Print1 (TAB # ''Exit-Handler aufgerufen ...\<newline>''), Free1, Print1 (TAB # ''Speicher freigegeben\<newline>'')]"

definition mythread1 :: "(nat \<Rightarrow> int) \<Rightarrow> nat \<Rightarrow> act1 list" where
  "mythread1 tid i =
     [Print1 (TAB # ''-> Thread mit ID:'' @ show_int (tid i) @ '' gestartet\<newline>''), Print1 (TAB # ''Daten empfangen: \<newline>''),
      PrintWert1, PrintMsg1] @ exit_handler_mem"

definition msg1 :: "nat \<Rightarrow> string" where
  "msg1 i = ''Ich bin Thread Nr. '' @ show_nat (i + 1)"

definition starts1 :: "int \<Rightarrow> (nat \<Rightarrow> int) \<Rightarrow> act1 job list" where
  "starts1 mid rnd = Do (Print1 (hello mid)) #
     concat (map (\<lambda>i. [Check no_memory, Do (Fill1 i (wert (rnd i)) (msg1 i)), Create i]) [0..<MAX_THREADS])"

definition end1 :: "int \<Rightarrow> (nat \<Rightarrow> int) \<Rightarrow> act1 list" where
  "end1 mid tid = map (\<lambda>i. Print1 (''<-Thread '' @ show_int (tid i) @ '' ist fertig\<newline>'')) [0..<MAX_THREADS] @ [Print1 (bye mid)]"

definition thread1_start :: "int \<Rightarrow> (nat \<Rightarrow> int) \<Rightarrow> (nat \<Rightarrow> int) \<Rightarrow> (act1, mem1) crew" where
  "thread1_start mid tid rnd =
     crew_start MAX_THREADS (starts1 mid rnd @ map (\<lambda>i. Join i []) [0..<MAX_THREADS] @ map Do (end1 mid tid))
       \<lparr>blocks1 = Map.empty, misused1 = [], lines1 = []\<rparr>"

definition thread1_act :: "(nat \<Rightarrow> int) \<Rightarrow> crew_step \<Rightarrow> (act1, mem1) crew \<Rightarrow> (act1, mem1) crew option" where
  "thread1_act tid = crew_act exec1 (mythread1 tid) not_created"

lemma starts1_simps: "starts1 mid rnd =
    [Do (Print1 (hello mid)), Check no_memory, Do (Fill1 0 (wert (rnd 0)) (msg1 0)), Create 0,
     Check no_memory, Do (Fill1 1 (wert (rnd 1)) (msg1 1)), Create 1,
     Check no_memory, Do (Fill1 2 (wert (rnd 2)) (msg1 2)), Create 2]"
  by (simp add: starts1_def three)

interpretation t1: joined_crew exec1 "mythread1 tid" not_created MAX_THREADS "starts1 mid rnd" "\<lambda>_. []" "end1 mid tid" for tid mid rnd
  by unfold_locales (simp_all add: starts1_simps three)

text \<open>What concerns thread \<open>i\<close>: its block, its lines, whether it has misused its block.\<close>

definition view1 :: "nat \<Rightarrow> mem1 \<Rightarrow> (int \<times> string) option \<times> string list \<times> bool" where
  "view1 i m = (blocks1 m i, own (Some i) (lines1 m), i \<in> set (misused1 m))"

definition fills :: "nat \<Rightarrow> act1 \<Rightarrow> bool" where
  "fills i a = (case a of Fill1 j w t \<Rightarrow> j = i | _ \<Rightarrow> False)"

text \<open>The lines of a thread.\<close>

definition lines_of1 :: "(nat \<Rightarrow> int) \<Rightarrow> (nat \<Rightarrow> int) \<Rightarrow> nat \<Rightarrow> string list" where
  "lines_of1 tid rnd i =
     [TAB # ''-> Thread mit ID:'' @ show_int (tid i) @ '' gestartet\<newline>'', TAB # ''Daten empfangen: \<newline>'',
      TAB # TAB # ''wert = '' @ CHR 0x22 # show_int (wert (rnd i)) @ [CHR 0x22, LF],
      TAB # TAB # ''msg = '' @ CHR 0x22 # msg1 i @ [CHR 0x22, LF],
      TAB # ''Exit-Handler aufgerufen ...\<newline>'', TAB # ''Speicher freigegeben\<newline>'']"

lemma view1_other:
  "\<not> t1.concerns (fills i) i e \<Longrightarrow> (fst e \<noteq> None \<Longrightarrow> \<not> fills i (snd e)) \<Longrightarrow> view1 i (exec1 (fst e) (snd e) m) = view1 i m"
  by (cases "snd e")
    (auto simp: view1_def t1.concerns_def fills_def with_block_def say1_def nth_list_update split: option.splits if_splits)

lemma view1_same: "view1 i m = view1 i m' \<Longrightarrow> view1 i (exec1 (fst e) (snd e) m) = view1 i (exec1 (fst e) (snd e) m')"
  by (cases "snd e")
    (auto simp: view1_def with_block_def say1_def nth_list_update split: option.splits if_splits)

lemma before1: "i < MAX_THREADS \<Longrightarrow> filter (fills i) (t1.before mid rnd i) = [Fill1 i (wert (rnd i)) (msg1 i)]"
    "i < MAX_THREADS \<Longrightarrow> filter (fills i) (dos (starts1 mid rnd)) = [Fill1 i (wert (rnd i)) (msg1 i)]"
  unfolding t1.before_def unfolding starts1_simps by (auto simp: fills_def less_Suc_eq numeral_3_eq_3 numeral_2_eq_2)

lemma length1: "length (starts1 mid rnd) = 10" "length (end1 mid tid) = 4" "length (mythread1 tid i) = 7"
  by (simp_all add: starts1_simps end1_def mythread1_def exit_handler_mem_def)

lemma length_msg1: "i < MAX_THREADS \<Longrightarrow> length (msg1 i) \<le> 254"
proof -
  assume "i < MAX_THREADS"
  then have "length (show_nat (i + 1)) = 1" by (subst show_nat.simps) simp
  then show ?thesis by (simp add: msg1_def)
qed

lemma main_lines1:
  assumes h: "t1.complete tid mid rnd h" and m: "m = \<lparr>blocks1 = Map.empty, misused1 = [], lines1 = []\<rparr>"
  shows "own None (lines1 (replay exec1 h m)) = [hello mid]"
proof -
  have "own None (lines1 (replay exec1 h m)) = own None (lines1 (replay exec1 (filter (\<lambda>e. fst e = None) h) m))"
  proof (rule replay_view)
    fix e :: "nat option \<times> act1" and m m' :: mem1
    show "fst e \<noteq> None \<Longrightarrow> own None (lines1 (exec1 (fst e) (snd e) m)) = own None (lines1 m)"
      by (cases "snd e") (auto simp: with_block_def say1_def split: option.splits)
    assume "own None (lines1 m) = own None (lines1 m')"
    then show "own None (lines1 (exec1 (fst e) (snd e) m)) = own None (lines1 (exec1 (fst e) (snd e) m'))"
      by (cases "snd e") (auto simp: with_block_def say1_def split: option.splits)
  qed
  also have "filter (\<lambda>e. fst e = None) h = map (Pair None) (dos (starts1 mid rnd))"
    using t1.complete_own_main [OF h] by simp
  also have "own None (lines1 (replay exec1 \<dots> m)) = [hello mid]"
    by (simp add: m starts1_simps say1_def)
  finally show ?thesis .
qed

lemma view1_done:
  assumes h: "t1.complete tid mid rnd h" and i: "i < MAX_THREADS"
    and m: "m = \<lparr>blocks1 = Map.empty, misused1 = [], lines1 = []\<rparr>"
  shows "view1 i (replay exec1 h m) = (None, lines_of1 tid rnd i, False)"
proof -
  have "\<not> fills i a" if "a \<in> set (mythread1 tid k)" for a k
    using that by (auto simp: fills_def mythread1_def exit_handler_mem_def)
  then have "\<not> fills i (snd e)" if "e \<in> set h" "fst e \<noteq> None" for e
    using t1.complete_in [OF h] that by (metis option.exhaust prod.collapse)
  then have "view1 i (replay exec1 h m) = view1 i (replay exec1 (filter (t1.concerns (fills i) i) h) m)"
    by (intro replay_view view1_same view1_other)
  also have "filter (t1.concerns (fills i) i) h = (None, Fill1 i (wert (rnd i)) (msg1 i)) # map (Pair (Some i)) (mythread1 tid i)"
    using t1.concerns_order [OF h i, of "fills i"] before1 [OF i] by simp
  also have "view1 i (replay exec1 \<dots> m) = (None, lines_of1 tid rnd i, False)"
    using length_msg1 [OF i] by (simp add: m mythread1_def exit_handler_mem_def view1_def with_block_def say1_def lines_of1_def)
  finally show ?thesis .
qed

text \<open>
  C17: \<^verbatim>\<open>thread1.c\<close>: every schedule ends after at most 38 steps. Unless an allocation or a creation fails,
  each thread has then printed the number and the message that \<^verbatim>\<open>main\<close> prepared for it and its exit
  handler has run once; every block is freed, none was used before it was filled or after it was freed;
  and \<^verbatim>\<open>main\<close>'s farewell comes after all of that.
\<close>

theorem thread1_frees:
  assumes "run (thread1_act tid) as (thread1_start mid tid rnd) = Some s"
  shows "length as \<le> 38 \<and>
    ((\<forall>a. thread1_act tid a s = None) \<and> stop s = Running \<longrightarrow>
      (\<forall>i < MAX_THREADS. blocks1 (mem s) i = None \<and> i \<notin> set (misused1 (mem s))) \<and>
      (\<exists>ls. lines1 (mem s) = ls @ [(None, ''<-Thread '' @ show_int (tid 0) @ '' ist fertig\<newline>''),
           (None, ''<-Thread '' @ show_int (tid 1) @ '' ist fertig\<newline>''), (None, ''<-Thread '' @ show_int (tid 2) @ '' ist fertig\<newline>''),
           (None, bye mid)] \<and>
         own None ls = [hello mid] \<and> (\<forall>i < MAX_THREADS. own (Some i) ls = lines_of1 tid rnd i)))"
proof -
  define m where "m = \<lparr>blocks1 = Map.empty, misused1 = [], lines1 = []\<rparr>"
  have st: "thread1_start mid tid rnd = crew_start MAX_THREADS (t1.plan mid rnd tid) m"
    by (simp add: thread1_start_def t1.plan_def m_def)
  note r = assms [unfolded thread1_act_def st]
  have "t1.bound tid mid rnd = 38" unfolding t1.bound_def t1.plan_def by (simp add: length1)
  with t1.bounded_run [OF r] have "length as \<le> 38" by simp
  moreover have "(\<forall>i < MAX_THREADS. blocks1 (mem s) i = None \<and> i \<notin> set (misused1 (mem s))) \<and>
      (\<exists>ls. lines1 (mem s) = ls @ map (\<lambda>i. (None, ''<-Thread '' @ show_int (tid i) @ '' ist fertig\<newline>'')) [0..<MAX_THREADS] @ [(None, bye mid)] \<and>
         own None ls = [hello mid] \<and> (\<forall>i < MAX_THREADS. own (Some i) ls = lines_of1 tid rnd i))"
    if over: "\<forall>a. thread1_act tid a s = None" "stop s = Running"
  proof -
    from t1.ends [OF r] over obtain h where h: "t1.complete tid mid rnd h"
      "mem s = replay exec1 (h @ map (Pair None) (end1 mid tid)) m" by (auto simp: thread1_act_def)
    define m1 where "m1 = replay exec1 h m"
    have mem: "mem s = m1\<lparr>lines1 := lines1 m1 @ map (\<lambda>i. (None, ''<-Thread '' @ show_int (tid i) @ '' ist fertig\<newline>'')) [0..<MAX_THREADS] @ [(None, bye mid)]\<rparr>"
      using h(2) by (simp add: m1_def end1_def say1_def three)
    have v: "view1 i m1 = (None, lines_of1 tid rnd i, False)" if "i < MAX_THREADS" for i
      unfolding m1_def by (rule view1_done [OF h(1) that m_def])
    have "own None (lines1 m1) = [hello mid]" unfolding m1_def by (rule main_lines1 [OF h(1) m_def])
    then show ?thesis using v unfolding mem by (auto simp: view1_def)
  qed
  ultimately show ?thesis by (simp add: three)
qed

theorem thread1_frees_witness:
  "\<exists>s. run (thread1_act (\<lambda>i. 10 + int i)) (in_turn 10 3 7 7) (thread1_start 9 (\<lambda>i. 10 + int i) (\<lambda>i. 1073741824)) = Some s \<and>
    (\<forall>i < MAX_THREADS. blocks1 (mem s) i = None \<and> i \<notin> set (misused1 (mem s))) \<and>
    (\<exists>ls. own (Some 2) ls = lines_of1 (\<lambda>i. 10 + int i) (\<lambda>i. 1073741824) 2 \<and> prefix ls (lines1 (mem s)))"
proof -
  define tid where "tid = (\<lambda>i :: nat. 10 + int i)"
  define rnd where "rnd = (\<lambda>i :: nat. 1073741824 :: int)"
  define r where "r = run (thread1_act tid) (in_turn 10 3 7 7) (thread1_start 9 tid rnd)"
  have e: "r \<noteq> None" "jobs (the r) = []" "stop (the r) = Running"
    unfolding r_def tid_def rnd_def by code_simp+
  then obtain s where s: "r = Some s" "jobs s = []" "stop s = Running" by auto
  have over: "\<forall>a. thread1_act tid a s = None" using s(2) by (simp add: thread1_act_def crew_all_done)
  note f = thread1_frees [OF s(1) [unfolded r_def], THEN conjunct2, THEN mp, OF conjI [OF over s(3)]]
  from f [THEN conjunct2] obtain ls t where ls: "lines1 (mem s) = ls @ t" "\<forall>i < MAX_THREADS. own (Some i) ls = lines_of1 tid rnd i" by blast
  then have "own (Some 2) ls = lines_of1 tid rnd 2 \<and> prefix ls (lines1 (mem s))" by simp
  with s(1) f [THEN conjunct1] show ?thesis unfolding r_def tid_def rnd_def by blast
qed

end
