(* ===== verification/ThreadResults.thy ===== *)
theory ThreadResults
  imports ThreadCrew
begin

text \<open>
  \<^verbatim>\<open>src/10_Threads/thread2.c\<close>, where the threads fill blocks that \<^verbatim>\<open>main\<close> reads after joining them, and
  \<^verbatim>\<open>thread3.c\<close> and \<^verbatim>\<open>thread4.c\<close>, where the identity that a thread returns is joined into an array of
  \<^verbatim>\<open>int\<close>. Systems of theory \<open>Crew\<close>, as in \<open>ThreadCrew\<close>.
\<close>

section \<open>\<^verbatim>\<open>thread2.c\<close>\<close>

text \<open>A block holds a number and a message, indeterminate at first. \<open>bad2\<close> are the blocks read or written wrongly.\<close>

datatype act2 = Print2 string | Malloc2 nat | SetWert2 int | SetMsg2 string | ShowWert2 nat | ShowMsg2 nat

record mem2 =
  data2 :: "nat \<rightharpoonup> int option \<times> string option"
  bad2 :: "nat list"
  lines2 :: lines

definition say2 :: "nat option \<Rightarrow> string \<Rightarrow> mem2 \<Rightarrow> mem2" where
  "say2 who t m = m\<lparr>lines2 := lines2 m @ [(who, t)]\<rparr>"

definition into_block :: "nat option \<Rightarrow> (int option \<times> string option \<Rightarrow> int option \<times> string option) \<Rightarrow> mem2 \<Rightarrow> mem2" where
  "into_block who f m =
     (case who of None \<Rightarrow> m
      | Some i \<Rightarrow> (case data2 m i of None \<Rightarrow> m\<lparr>bad2 := i # bad2 m\<rparr> | Some d \<Rightarrow> m\<lparr>data2 := (data2 m)(i \<mapsto> f d)\<rparr>))"

fun exec2 :: "nat option \<Rightarrow> act2 \<Rightarrow> mem2 \<Rightarrow> mem2" where
  "exec2 who (Print2 t) m = say2 who t m"
| "exec2 who (Malloc2 i) m = m\<lparr>data2 := (data2 m)(i \<mapsto> (None, None))\<rparr>"
| "exec2 who (SetWert2 w) m = into_block who (\<lambda>d. (Some w, snd d)) m"
| "exec2 who (SetMsg2 t) m = into_block who (\<lambda>d. (fst d, Some (take (MSGBUF - 1) t))) m"
| "exec2 who (ShowWert2 i) m =
     (case data2 m i of
        Some (Some w, t) \<Rightarrow> say2 who (TAB # TAB # ''wert = '' @ CHR 0x22 # show_int w @ [CHR 0x22, LF]) m
      | _ \<Rightarrow> m\<lparr>bad2 := i # bad2 m\<rparr>)"
| "exec2 who (ShowMsg2 i) m =
     (case data2 m i of
        Some (w, Some t) \<Rightarrow> say2 who (TAB # TAB # ''msg = '' @ CHR 0x22 # t @ [CHR 0x22, LF]) m
      | _ \<Rightarrow> m\<lparr>bad2 := i # bad2 m\<rparr>)"

definition msg2 :: "int \<Rightarrow> string" where
  "msg2 self = ''Ich bin der Thread mit ID:'' @ show_int self"

definition mythread2 :: "(nat \<Rightarrow> int) \<Rightarrow> (nat \<Rightarrow> int) \<Rightarrow> nat \<Rightarrow> act2 list" where
  "mythread2 tid rnd i = [SetWert2 (wert (rnd i)), SetMsg2 (msg2 (tid i))]"

definition starts2 :: "int \<Rightarrow> act2 job list" where
  "starts2 mid = Do (Print2 (hello mid)) #
     concat (map (\<lambda>i. [Check no_memory, Do (Malloc2 i)]) [0..<MAX_THREADS]) @ map Create [0..<MAX_THREADS]"

definition show2 :: "nat \<Rightarrow> act2 list" where
  "show2 i = [Print2 ''Thread: Daten empfangen:\<newline>'', ShowWert2 i, ShowMsg2 i]"

definition end2 :: "int \<Rightarrow> act2 list" where
  "end2 mid = concat (map show2 [0..<MAX_THREADS]) @ [Print2 (bye mid)]"

definition thread2_start :: "int \<Rightarrow> (act2, mem2) crew" where
  "thread2_start mid =
     crew_start MAX_THREADS (starts2 mid @ map (\<lambda>i. Join i []) [0..<MAX_THREADS] @ map Do (end2 mid))
       \<lparr>data2 = Map.empty, bad2 = [], lines2 = []\<rparr>"

definition thread2_act :: "(nat \<Rightarrow> int) \<Rightarrow> (nat \<Rightarrow> int) \<Rightarrow> crew_step \<Rightarrow> (act2, mem2) crew \<Rightarrow> (act2, mem2) crew option" where
  "thread2_act tid rnd = crew_act exec2 (mythread2 tid rnd) not_created"

lemma starts2_simps: "starts2 mid =
    [Do (Print2 (hello mid)), Check no_memory, Do (Malloc2 0), Check no_memory, Do (Malloc2 1), Check no_memory, Do (Malloc2 2),
     Create 0, Create 1, Create 2]"
  by (simp add: starts2_def three)

interpretation t2: joined_crew exec2 "mythread2 tid rnd" not_created MAX_THREADS "starts2 mid" "\<lambda>_. []" "end2 mid" for tid rnd mid
  by unfold_locales (simp_all add: starts2_simps three)

definition mallocs :: "nat \<Rightarrow> act2 \<Rightarrow> bool" where
  "mallocs i a \<longleftrightarrow> a = Malloc2 i"

text \<open>Up to the last join nothing is printed but the greeting, and each block is its thread's.\<close>

definition view2 :: "nat \<Rightarrow> mem2 \<Rightarrow> (int option \<times> string option) option \<times> bool" where
  "view2 i m = (data2 m i, i \<in> set (bad2 m))"

definition quiet2 :: "act2 \<Rightarrow> bool" where
  "quiet2 a = (case a of ShowWert2 i \<Rightarrow> False | ShowMsg2 i \<Rightarrow> False | _ \<Rightarrow> True)"

lemma quiet_parts: "a \<in> set (mythread2 tid rnd i) \<Longrightarrow> quiet2 a \<and> \<not> mallocs k a \<and> (\<forall>t. a \<noteq> Print2 t)"
    "a \<in> set (dos (starts2 mid)) \<Longrightarrow> quiet2 a"
  by (auto simp: mythread2_def starts2_simps quiet2_def mallocs_def)

lemma complete_quiet:
  assumes h: "t2.complete tid rnd mid h" and e: "e \<in> set h"
  shows "quiet2 (snd e) \<and> (fst e \<noteq> None \<longrightarrow> \<not> mallocs k (snd e) \<and> (\<forall>t. snd e \<noteq> Print2 t))"
proof (cases "fst e")
  case None
  with e have "(None, snd e) \<in> set h" by (metis prod.collapse)
  from t2.complete_main [OF h this] have "snd e \<in> set (dos (starts2 mid))" by simp
  with None quiet_parts(2) show ?thesis by simp
next
  case (Some i)
  with e have "(Some i, snd e) \<in> set h" by (metis prod.collapse)
  from t2.complete_in [OF h this] have "snd e \<in> set (mythread2 tid rnd i)" by simp
  with Some quiet_parts(1) show ?thesis by blast
qed

lemma view2_done:
  assumes h: "t2.complete tid rnd mid h" and i: "i < MAX_THREADS"
    and m: "m = \<lparr>data2 = Map.empty, bad2 = [], lines2 = []\<rparr>"
  shows "view2 i (replay exec2 h m) = (Some (Some (wert (rnd i)), Some (take 254 (msg2 (tid i)))), False)"
proof -
  have "view2 i (replay exec2 h m) = view2 i (replay exec2 (filter (t2.concerns (mallocs i) i) h) m)"
  proof (rule replay_view)
    fix e :: "nat option \<times> act2" and m m' :: mem2
    assume "e \<in> set h" "\<not> t2.concerns (mallocs i) i e"
    with complete_quiet [OF h this(1), of i] show "view2 i (exec2 (fst e) (snd e) m) = view2 i m"
      by (cases "snd e") (auto simp: view2_def t2.concerns_def mallocs_def quiet2_def say2_def into_block_def split: option.splits)
  next
    fix e :: "nat option \<times> act2" and m m' :: mem2
    assume "view2 i m = view2 i m'"
    then show "view2 i (exec2 (fst e) (snd e) m) = view2 i (exec2 (fst e) (snd e) m')"
      by (cases "snd e") (auto simp: view2_def say2_def into_block_def split: option.splits)
  qed
  also have "filter (t2.concerns (mallocs i) i) h = (None, Malloc2 i) # map (Pair (Some i)) (mythread2 tid rnd i)"
  proof -
    have "filter (mallocs i) (t2.before mid i) = [Malloc2 i]" "filter (mallocs i) (dos (starts2 mid)) = [Malloc2 i]"
      using i unfolding t2.before_def unfolding starts2_simps by (auto simp: mallocs_def less_Suc_eq numeral_3_eq_3 numeral_2_eq_2)
    with t2.concerns_order [OF h i, of "mallocs i"] show ?thesis by simp
  qed
  also have "view2 i (replay exec2 \<dots> m) = (Some (Some (wert (rnd i)), Some (take 254 (msg2 (tid i)))), False)"
    by (simp add: m mythread2_def view2_def into_block_def)
  finally show ?thesis .
qed

lemma lines2_done:
  assumes h: "t2.complete tid rnd mid h" and m: "m = \<lparr>data2 = Map.empty, bad2 = [], lines2 = []\<rparr>"
  shows "lines2 (replay exec2 h m) = [(None, hello mid)]"
proof -
  have "lines2 (replay exec2 h m) = lines2 (replay exec2 (filter (\<lambda>e. fst e = None) h) m)"
  proof (rule replay_view)
    fix e :: "nat option \<times> act2" and m :: mem2
    assume "e \<in> set h" "fst e \<noteq> None"
    with complete_quiet [OF h this(1)] show "lines2 (exec2 (fst e) (snd e) m) = lines2 m"
      by (cases "snd e") (auto simp: quiet2_def into_block_def split: option.splits)
  next
    fix e :: "nat option \<times> act2" and m m' :: mem2
    assume "e \<in> set h" "lines2 m = lines2 m'"
    with complete_quiet [OF h this(1)] show "lines2 (exec2 (fst e) (snd e) m) = lines2 (exec2 (fst e) (snd e) m')"
      by (cases "snd e") (auto simp: quiet2_def say2_def into_block_def split: option.splits)
  qed
  also have "filter (\<lambda>e. fst e = None) h = map (Pair None) (dos (starts2 mid))"
    using t2.complete_own_main [OF h] by simp
  also have "lines2 (replay exec2 \<dots> m) = [(None, hello mid)]"
    by (simp add: m starts2_simps say2_def)
  finally show ?thesis .
qed

lemma length2: "length (starts2 mid) = 10" "length (end2 mid) = 10" "length (mythread2 tid rnd i) = 2"
  by (simp_all add: starts2_simps end2_def mythread2_def show2_def three)

text \<open>What \<^verbatim>\<open>main\<close> prints of each block, and its farewell.\<close>

definition block_lines :: "int \<Rightarrow> string \<Rightarrow> string list" where
  "block_lines w t =
     [''Thread: Daten empfangen:\<newline>'', TAB # TAB # ''wert = '' @ CHR 0x22 # show_int w @ [CHR 0x22, LF],
      TAB # TAB # ''msg = '' @ CHR 0x22 # t @ [CHR 0x22, LF]]"

definition report2 :: "int \<Rightarrow> (nat \<Rightarrow> int) \<Rightarrow> (nat \<Rightarrow> int) \<Rightarrow> string list" where
  "report2 mid tid rnd =
     concat (map (\<lambda>i. block_lines (wert (rnd i)) (take 254 (msg2 (tid i)))) [0..<MAX_THREADS]) @ [bye mid]"

lemma show_block: "data2 m i = Some (Some w, Some t) \<Longrightarrow>
    fold (exec2 who) (show2 i) m =
    m\<lparr>lines2 := lines2 m @ map (Pair who) (block_lines w t)\<rparr>"
  by (simp add: say2_def block_lines_def show2_def)

lemma show_blocks:
  assumes "\<forall>i \<in> set is. data2 m i = Some (Some (w i), Some (t i))"
  shows "fold (exec2 who) (concat (map show2 is)) m =
    m\<lparr>lines2 := lines2 m @ map (Pair who) (concat (map (\<lambda>i. block_lines (w i) (t i)) is))\<rparr>"
  using assms
proof (induction "is" arbitrary: m)
  case (Cons i "is")
  then have "data2 m i = Some (Some (w i), Some (t i))" by simp
  from show_block [OF this, of who] Cons show ?case by (simp add: fold_append)
qed simp

text \<open>
  \<^verbatim>\<open>thread2.c\<close>: every schedule ends after at most 29 steps. Unless an allocation or a creation fails,
  the output is the same under every schedule: after its greeting \<^verbatim>\<open>main\<close> reports, in the order of the
  threads, the number and the message that each has written into its block; nobody reads a block before it
  is filled. No block is ever freed.
\<close>

theorem thread2_reports:
  assumes "run (thread2_act tid rnd) as (thread2_start mid) = Some s"
  shows "length as \<le> 29 \<and>
    ((\<forall>a. thread2_act tid rnd a s = None) \<and> stop s = Running \<longrightarrow>
      lines2 (mem s) = map (Pair None) (hello mid # report2 mid tid rnd) \<and>
      (\<forall>i < MAX_THREADS. data2 (mem s) i \<noteq> None \<and> i \<notin> set (bad2 (mem s))))"
proof -
  define m where "m = \<lparr>data2 = Map.empty, bad2 = [], lines2 = []\<rparr>"
  have st: "thread2_start mid = crew_start MAX_THREADS (t2.plan mid) m"
    by (simp add: thread2_start_def t2.plan_def m_def)
  note r = assms [unfolded thread2_act_def st]
  have "t2.bound tid rnd mid = 29" unfolding t2.bound_def t2.plan_def by (simp add: length2)
  with t2.bounded_run [OF r] have "length as \<le> 29" by simp
  moreover have "lines2 (mem s) = map (Pair None) (hello mid # report2 mid tid rnd) \<and>
      (\<forall>i < MAX_THREADS. data2 (mem s) i \<noteq> None \<and> i \<notin> set (bad2 (mem s)))"
    if over: "\<forall>a. thread2_act tid rnd a s = None" "stop s = Running"
  proof -
    from t2.ends [OF r] over obtain h where h: "t2.complete tid rnd mid h"
      "mem s = replay exec2 (h @ map (Pair None) (end2 mid)) m" by (auto simp: thread2_act_def)
    define m1 where "m1 = replay exec2 h m"
    have v: "data2 m1 i = Some (Some (wert (rnd i)), Some (take 254 (msg2 (tid i))))" "i \<notin> set (bad2 m1)" if "i < MAX_THREADS" for i
      using view2_done [OF h(1) that m_def] unfolding m1_def view2_def by simp_all
    have l: "lines2 m1 = [(None, hello mid)]" unfolding m1_def by (rule lines2_done [OF h(1) m_def])
    have "mem s = m1\<lparr>lines2 := map (Pair None) (hello mid # report2 mid tid rnd)\<rparr>"
      using h(2) l show_blocks [of "[0..<MAX_THREADS]" m1 "\<lambda>i. wert (rnd i)" "\<lambda>i. take 254 (msg2 (tid i))" None] v(1)
      by (simp del: upt_Suc upt.simps add: end2_def say2_def report2_def m1_def [symmetric])
    with v show ?thesis by simp
  qed
  ultimately show ?thesis by blast
qed

theorem thread2_reports_witness:
  "\<exists>s. run (thread2_act (\<lambda>i. 10 + int i) (\<lambda>i. 0)) (in_turn 10 3 2 13) (thread2_start 9) = Some s \<and>
    lines2 (mem s) = map (Pair None) (hello 9 # report2 9 (\<lambda>i. 10 + int i) (\<lambda>i. 0))"
proof -
  define tid where "tid = (\<lambda>i :: nat. 10 + int i)"
  define r where "r = run (thread2_act tid (\<lambda>i. 0)) (in_turn 10 3 2 13) (thread2_start 9)"
  have e: "r \<noteq> None" "jobs (the r) = []" "stop (the r) = Running"
    unfolding r_def tid_def by code_simp+
  then obtain s where s: "r = Some s" "jobs s = []" "stop s = Running" by auto
  have over: "\<forall>a. thread2_act tid (\<lambda>i. 0) a s = None" using s(2) by (simp add: thread2_act_def crew_all_done)
  note f = thread2_reports [OF s(1) [unfolded r_def], THEN conjunct2, THEN mp, OF conjI [OF over s(3)]]
  with s(1) show ?thesis unfolding r_def tid_def by blast
qed

end
