(* ===== verification/ThreadIds.thy ===== *)
theory ThreadIds
  imports ThreadCrew
begin

text \<open>
  \<^verbatim>\<open>src/10_Threads/thread3.c\<close>, where a thread finds its task by comparing identities, and \<^verbatim>\<open>thread4.c\<close>,
  where threads show and change their scheduling parameters. In both \<^verbatim>\<open>pthread_join\<close> stores the identity
  that a thread returns, eight bytes, at an element of an array of \<^verbatim>\<open>int\<close>, four bytes: the array is a
  sequence of 32-bit cells, the low half first, and one more cell behind it. Systems of theory \<open>Crew\<close>.
\<close>

section \<open>What both programs do\<close>

abbreviation MAX5 :: nat where "MAX5 \<equiv> 5"

datatype act3 = Print3 string | Store3 nat | Aktion3 | Ret3 nat | Report3 nat

text \<open>\<open>ids3\<close> is the array \<^verbatim>\<open>thread\<close>, \<open>ret3\<close> the array \<^verbatim>\<open>ret\<close> with the memory behind it.\<close>

record mem3 =
  ids3 :: "nat \<Rightarrow> int"
  ret3 :: "nat \<Rightarrow> 32 word"
  lines3 :: lines

definition say3 :: "nat option \<Rightarrow> string \<Rightarrow> mem3 \<Rightarrow> mem3" where
  "say3 who t m = m\<lparr>lines3 := lines3 m @ [(who, t)]\<rparr>"

definition task_line :: "int \<Rightarrow> string \<Rightarrow> string" where
  "task_line self task = TAB # ''->('' @ show_int self @ ''): Aufgabe '' @ CHR 0x22 # task @ CHR 0x22 # '' Ausfuehren \<newline>''"

text \<open>\<^verbatim>\<open>aktion\<close> of \<^verbatim>\<open>thread3.c\<close>.\<close>

definition aktion :: "(nat \<Rightarrow> int) \<Rightarrow> int \<Rightarrow> string" where
  "aktion thread self =
     task_line self (if self = thread 0 then ''abc'' else if self = thread 1 then ''def''
       else if self = thread 2 then ''ghi'' else ''xyz'')"

definition done_line :: "32 word \<Rightarrow> string" where
  "done_line r = TAB # ''<-Thread '' @ show_int (sint r) @ '' mit Arbeit fertig\<newline>''"

definition low32 :: "int \<Rightarrow> 32 word" where
  "low32 v = word_of_int v"

definition high32 :: "int \<Rightarrow> 32 word" where
  "high32 v = word_of_int (v div 2 ^ 32)"

fun exec3 :: "(nat \<Rightarrow> int) \<Rightarrow> nat option \<Rightarrow> act3 \<Rightarrow> mem3 \<Rightarrow> mem3" where
  "exec3 tid who (Print3 t) m = say3 who t m"
| "exec3 tid who (Store3 i) m = m\<lparr>ids3 := (ids3 m)(i := tid i)\<rparr>"
| "exec3 tid who Aktion3 m = (case who of None \<Rightarrow> m | Some i \<Rightarrow> say3 who (aktion (ids3 m) (tid i)) m)"
| "exec3 tid who (Ret3 i) m = m\<lparr>ret3 := (ret3 m)(i := low32 (tid i), Suc i := high32 (tid i))\<rparr>"
| "exec3 tid who (Report3 i) m = say3 who (done_line (ret3 m i)) m"

definition starts3 :: "int \<Rightarrow> act3 job list" where
  "starts3 mid = Do (Print3 (hello mid)) # concat (map (\<lambda>i. [Create i, Do (Store3 i)]) [0..<MAX5])"

definition end3 :: "int \<Rightarrow> act3 list" where
  "end3 mid = map Report3 [0..<MAX5] @ [Print3 (bye mid)]"

definition start3 :: "int \<Rightarrow> (act3, mem3) crew" where
  "start3 mid =
     crew_start MAX5 (starts3 mid @ map (\<lambda>i. Join i [Ret3 i]) [0..<MAX5] @ map Do (end3 mid))
       \<lparr>ids3 = \<lambda>_. 0, ret3 = \<lambda>_. 0, lines3 = []\<rparr>"

section \<open>The threads\<close>

definition thread3_act :: "(nat \<Rightarrow> int) \<Rightarrow> crew_step \<Rightarrow> (act3, mem3) crew \<Rightarrow> (act3, mem3) crew option" where
  "thread3_act tid = crew_act (exec3 tid) (\<lambda>i. [Aktion3]) not_created"

text \<open>
  What a thread of \<^verbatim>\<open>thread4.c\<close> gets from its environment: the policy and priority that
  \<^verbatim>\<open>pthread_getschedparam\<close> yields (\<open>None\<close> if it fails) first and later, whether the user is root, and
  whether the parameters can be set.
\<close>

record sched_env =
  sched_first :: "(int \<times> int) option"
  root :: bool
  settable :: bool
  sched_later :: "(int \<times> int) option"

definition policy_name :: "int \<Rightarrow> string" where
  "policy_name policy =
     (if policy = 0 then ''SCHED_OTHER;\<newline>'' else if policy = 1 then ''SCHED_FIFO;\<newline>''
      else if policy = 2 then ''SCHED_RR;\<newline>'' else ''Unbekannt;\<newline>'')"

definition getprio :: "int \<Rightarrow> (int \<times> int) option \<Rightarrow> string list" where
  "getprio self r = (TAB # ''->Thread '' @ show_int self @ '':\<newline>'') #
     (case r of None \<Rightarrow> []
      | Some (policy, prio) \<Rightarrow> [''Zuteilung:\<newline>'', policy_name policy, ''Prioritaet: '' @ show_int prio @ ''\<newline>''])"

definition thread_prio_demo :: "int \<Rightarrow> sched_env \<Rightarrow> string list" where
  "thread_prio_demo self env = getprio self (sched_first env) @
     (if \<not> root env then [''Veraendern kann nur Super-User\<newline>'']
      else if \<not> settable env then [''Konnte Zuteilungsstrategie nicht aendern\<newline>'']
      else getprio self (sched_later env))"

definition thread4_act :: "(nat \<Rightarrow> int) \<Rightarrow> (nat \<Rightarrow> sched_env) \<Rightarrow> crew_step \<Rightarrow> (act3, mem3) crew \<Rightarrow> (act3, mem3) crew option" where
  "thread4_act tid env = crew_act (exec3 tid) (\<lambda>i. map Print3 (thread_prio_demo (tid i) (env i))) not_created"

section \<open>What both do in every schedule\<close>

lemma five: "[0..<MAX5] = [0, 1, 2, 3, 4]"
  by (simp add: upt_rec numeral_eq_Suc)

lemma starts3_simps: "starts3 mid =
    [Do (Print3 (hello mid)), Create 0, Do (Store3 0), Create 1, Do (Store3 1), Create 2, Do (Store3 2),
     Create 3, Do (Store3 3), Create 4, Do (Store3 4)]"
  by (simp add: starts3_def five)

interpretation t3: joined_crew "exec3 tid" script not_created MAX5 "starts3 mid" "\<lambda>i. [Ret3 i]" "end3 mid" for tid script mid
  by unfold_locales (simp_all add: starts3_simps five)

definition mem_start :: mem3 where
  "mem_start = \<lparr>ids3 = \<lambda>_. 0, ret3 = \<lambda>_. 0, lines3 = []\<rparr>"

text \<open>The cells after all joins: every low half survives, and the last high half lies behind the array.\<close>

definition ret_done :: "(nat \<Rightarrow> int) \<Rightarrow> nat \<Rightarrow> 32 word" where
  "ret_done tid = (\<lambda>_. 0)(0 := low32 (tid 0), 1 := low32 (tid 1), 2 := low32 (tid 2), 3 := low32 (tid 3), 4 := low32 (tid 4),
     5 := high32 (tid 4))"

text \<open>An action of a thread: a line of its own, or the task it has found.\<close>

definition thread_kind :: "act3 \<Rightarrow> bool" where
  "thread_kind a = (case a of Print3 t \<Rightarrow> True | Aktion3 \<Rightarrow> True | _ \<Rightarrow> False)"

lemma main_part3:
  assumes h: "t3.complete script mid h" and k: "\<And>i a. i < MAX5 \<Longrightarrow> a \<in> set (script i) \<Longrightarrow> thread_kind a"
  shows "ret3 (replay (exec3 tid) h mem_start) = ret_done tid \<and> own None (lines3 (replay (exec3 tid) h mem_start)) = [hello mid]"
proof -
  define view where "view m = (ret3 m, own None (lines3 m))" for m :: mem3
  have "view (replay (exec3 tid) h mem_start) = view (replay (exec3 tid) (filter (\<lambda>e. fst e = None) h) mem_start)"
  proof (rule replay_view)
    fix e :: "nat option \<times> act3" and m :: mem3
    assume e: "e \<in> set h" "fst e \<noteq> None"
    then obtain i where i: "(Some i, snd e) \<in> set h" "fst e = Some i" by (metis option.exhaust prod.collapse)
    from t3.complete_in [OF h i(1)] k have "thread_kind (snd e)" by blast
    with i(2) show "view (exec3 tid (fst e) (snd e) m) = view m"
      by (cases "snd e") (auto simp: thread_kind_def view_def say3_def)
  next
    fix e :: "nat option \<times> act3" and m m' :: mem3
    assume "fst e = None" "view m = view m'"
    then show "view (exec3 tid (fst e) (snd e) m) = view (exec3 tid (fst e) (snd e) m')"
      by (cases "snd e") (auto simp: view_def say3_def)
  qed
  also have "filter (\<lambda>e. fst e = None) h = map (Pair None) (dos (starts3 mid) @ concat (map (\<lambda>i. [Ret3 i]) [0..<MAX5]))"
    by (rule t3.complete_own_main [OF h])
  also have "view (replay (exec3 tid) \<dots> mem_start) = (ret_done tid, [hello mid])"
    by (simp add: view_def starts3_simps mem_start_def say3_def five ret_done_def fun_eq_iff)
  finally show ?thesis by (simp add: view_def)
qed

lemma report_lines:
  "fold (exec3 tid None) (end3 mid) m =
    m\<lparr>lines3 := lines3 m @ map (\<lambda>i. (None, done_line (ret3 m i))) [0..<MAX5] @ [(None, bye mid)]\<rparr>"
proof -
  have r: "fold (exec3 tid None) (map Report3 is) m = m\<lparr>lines3 := lines3 m @ map (\<lambda>i. (None, done_line (ret3 m i))) is\<rparr>" for "is" m
    by (induction "is" arbitrary: m) (simp_all add: say3_def)
  show ?thesis unfolding end3_def fold_append comp_apply r by (simp add: say3_def)
qed

text \<open>The end of \<^verbatim>\<open>main\<close>: what it prints of its array.\<close>

definition farewell3 :: "int \<Rightarrow> (nat \<Rightarrow> int) \<Rightarrow> lines" where
  "farewell3 mid tid = map (\<lambda>i. (None, done_line (low32 (tid i)))) [0..<MAX5] @ [(None, bye mid)]"

lemma ret_done_low: "map (\<lambda>i. (None, done_line (ret_done tid i))) [0..<MAX5] = map (\<lambda>i. (None, done_line (low32 (tid i)))) [0..<MAX5]"
  by (simp add: ret_done_def five)

lemma end_state3:
  assumes r: "run (crew_act (exec3 tid) script not_created) as (start3 mid) = Some s"
    and over: "\<And>a. crew_act (exec3 tid) script not_created a s = None" and ok: "stop s = Running"
    and k: "\<forall>i < MAX5. \<forall>a \<in> set (script i). thread_kind a"
  shows "\<exists>h. t3.complete script mid h \<and> lines3 (mem s) = lines3 (replay (exec3 tid) h mem_start) @ farewell3 mid tid \<and>
    own None (lines3 (replay (exec3 tid) h mem_start)) = [hello mid] \<and> ret3 (mem s) 5 = high32 (tid 4)"
proof -
  have "start3 mid = crew_start MAX5 (t3.plan mid) mem_start"
    by (simp add: start3_def t3.plan_def mem_start_def)
  from t3.ends [OF r [unfolded this] over ok] obtain h where h: "t3.complete script mid h"
    "mem s = replay (exec3 tid) (h @ map (Pair None) (end3 mid)) mem_start" by blast
  have m: "ret3 (replay (exec3 tid) h mem_start) = ret_done tid \<and> own None (lines3 (replay (exec3 tid) h mem_start)) = [hello mid]"
    by (rule main_part3 [OF h(1)]) (use k in blast)
  from h(2) m have "lines3 (mem s) = lines3 (replay (exec3 tid) h mem_start) @ farewell3 mid tid \<and> ret3 (mem s) = ret_done tid"
    by (simp add: report_lines farewell3_def ret_done_low)
  with h(1) m show ?thesis by (auto simp: ret_done_def)
qed

lemma bound3:
  assumes "run (crew_act (exec3 tid) script not_created) as (start3 mid) = Some s"
  shows "length as \<le> 22 + (\<Sum>i < MAX5. length (script i))"
proof -
  have st: "start3 mid = crew_start MAX5 (t3.plan mid) mem_start"
    by (simp add: start3_def t3.plan_def mem_start_def)
  have "t3.bound script mid = 22 + (\<Sum>i < MAX5. length (script i))"
    unfolding t3.bound_def t3.plan_def by (simp add: starts3_simps end3_def)
  with t3.bounded_run [OF assms [unfolded st]] show ?thesis by simp
qed

definition task3 :: "nat \<Rightarrow> string" where
  "task3 i = (if i = 0 then ''abc'' else if i = 1 then ''def'' else if i = 2 then ''ghi'' else ''xyz'')"

text \<open>What the array of identities can hold while the threads run, and what a thread then finds.\<close>

definition id_ok :: "(nat \<Rightarrow> int) \<Rightarrow> nat \<Rightarrow> int \<Rightarrow> bool" where
  "id_ok tid k v \<longleftrightarrow> v = 0 \<or> k < MAX5 \<and> v = tid k"

definition line_ok :: "(nat \<Rightarrow> int) \<Rightarrow> nat option \<times> string \<Rightarrow> bool" where
  "line_ok tid l \<longleftrightarrow> (\<forall>i. fst l = Some i \<longrightarrow> snd l \<in> {task_line (tid i) (task3 i), task_line (tid i) ''xyz''})"

definition ids_ok :: "(nat \<Rightarrow> int) \<Rightarrow> mem3 \<Rightarrow> bool" where
  "ids_ok tid m \<longleftrightarrow> (\<forall>k. id_ok tid k (ids3 m k)) \<and> (\<forall>l \<in> set (lines3 m). line_ok tid l)"

lemma aktion_task:
  assumes inj: "inj_on tid {..<MAX5}" and nz: "\<forall>i < MAX5. tid i \<noteq> 0" and i: "i < MAX5" and m: "ids_ok tid m"
  shows "line_ok tid (Some i, aktion (ids3 m) (tid i))"
proof -
  have "k = i" if e: "tid i = ids3 m k" for k
  proof -
    have "id_ok tid k (tid i)" using m e by (simp add: ids_ok_def)
    then have "k < MAX5" "tid k = tid i" using nz i by (auto simp: id_ok_def)
    with inj i show ?thesis by (auto dest: inj_onD)
  qed
  from this [of 0] this [of 1] this [of 2] show ?thesis by (auto simp: line_ok_def aktion_def task3_def)
qed

lemma thread3_lines:
  assumes h: "t3.complete (\<lambda>i. [Aktion3]) mid h" and i: "i < MAX5"
    and tid: "inj_on tid {..<MAX5}" "\<forall>i < MAX5. tid i \<noteq> 0"
  shows "own (Some i) (lines3 (replay (exec3 tid) h mem_start)) \<in>
    {[task_line (tid i) (task3 i)], [task_line (tid i) ''xyz'']}"
proof -
  let ?m = "replay (exec3 tid) h mem_start"
  have acts: "snd e = Aktion3 \<and> the (fst e) < MAX5" if "e \<in> set h" "fst e \<noteq> None" for e
    using t3.complete_in [OF h, of "the (fst e)" "snd e"] that by (cases e) auto
  have mains: "(\<exists>t. snd e = Print3 t) \<or> (\<exists>k < MAX5. snd e = Store3 k \<or> snd e = Ret3 k)" if "e \<in> set h" "fst e = None" for e
    using t3.complete_main [OF h, of "snd e"] that by (cases e) (auto simp: starts3_simps five)
  have "ids_ok tid ?m"
  proof (rule replay_inv)
    fix e :: "nat option \<times> act3" and m :: mem3
    assume e: "e \<in> set h" and m: "ids_ok tid m"
    show "ids_ok tid (exec3 tid (fst e) (snd e) m)"
    proof (cases "fst e")
      case None
      with mains [OF e] m show ?thesis by (auto simp: ids_ok_def say3_def id_ok_def [of tid _ "tid _"] line_ok_def [of tid "(None, _)"])
    next
      case (Some i)
      with acts [OF e] have i: "i < MAX5" "snd e = Aktion3" by simp_all
      from aktion_task [OF tid i(1) m] m Some i(2) show ?thesis by (auto simp: ids_ok_def say3_def)
    qed
  qed (simp add: ids_ok_def mem_start_def id_ok_def)
  note fits = this
  have "length (own (Some i) (lines3 ?m)) = 1"
  proof -
    have "length (own (Some i) (lines3 ?m)) = length (own (Some i) (lines3 (replay (exec3 tid) (filter (t3.concerns (\<lambda>_. False) i) h) mem_start)))"
    proof (rule replay_view)
      fix e :: "nat option \<times> act3" and m m' :: mem3
      show "\<not> t3.concerns (\<lambda>_. False) i e \<Longrightarrow> length (own (Some i) (lines3 (exec3 tid (fst e) (snd e) m))) = length (own (Some i) (lines3 m))"
        by (cases "snd e") (auto simp: t3.concerns_def say3_def split: option.splits)
      assume "length (own (Some i) (lines3 m)) = length (own (Some i) (lines3 m'))"
      then show "length (own (Some i) (lines3 (exec3 tid (fst e) (snd e) m))) = length (own (Some i) (lines3 (exec3 tid (fst e) (snd e) m')))"
        by (cases "snd e") (auto simp: say3_def split: option.splits)
    qed
    also have "filter (t3.concerns (\<lambda>_. False) i) h = [(Some i, Aktion3)]"
      using t3.concerns_order [OF h i, of "\<lambda>_. False"] by simp
    finally show ?thesis by (simp add: say3_def mem_start_def)
  qed
  then obtain t where t: "own (Some i) (lines3 ?m) = [t]" by (auto simp: length_Suc_conv)
  then have "(Some i, t) \<in> set (lines3 ?m)" unfolding own_in [symmetric] by simp
  with fits have "line_ok tid (Some i, t)" by (simp add: ids_ok_def)
  with t show ?thesis by (simp add: line_ok_def)
qed

text \<open>
  \<^verbatim>\<open>thread3.c\<close>: every schedule ends after at most 27 steps. Unless a creation fails, each thread has
  printed exactly one task, its own or, if \<^verbatim>\<open>main\<close> had not yet stored its identity, that of the last two;
  then \<^verbatim>\<open>main\<close> prints the low halves of the identities, and has overwritten the four bytes behind its
  array.
\<close>

theorem thread3_tasks:
  assumes r: "run (thread3_act tid) as (start3 mid) = Some s"
    and tid: "inj_on tid {..<MAX5}" "\<forall>i < MAX5. tid i \<noteq> 0"
  shows "length as \<le> 27 \<and>
    ((\<forall>a. thread3_act tid a s = None) \<and> stop s = Running \<longrightarrow>
      (\<exists>ls. lines3 (mem s) = ls @ farewell3 mid tid \<and> own None ls = [hello mid] \<and>
         (\<forall>i < MAX5. own (Some i) ls \<in> {[task_line (tid i) (task3 i)], [task_line (tid i) ''xyz'']})) \<and>
      ret3 (mem s) 5 = high32 (tid 4))"
proof -
  note r = r [unfolded thread3_act_def]
  have "length as \<le> 27" using bound3 [OF r] by simp
  moreover have "(\<exists>ls. lines3 (mem s) = ls @ farewell3 mid tid \<and> own None ls = [hello mid] \<and>
         (\<forall>i < MAX5. own (Some i) ls \<in> {[task_line (tid i) (task3 i)], [task_line (tid i) ''xyz'']})) \<and>
      ret3 (mem s) 5 = high32 (tid 4)"
    if over: "\<forall>a. thread3_act tid a s = None" "stop s = Running"
  proof -
    have k: "\<forall>i < MAX5. \<forall>a \<in> set [Aktion3]. thread_kind a" by (simp add: thread_kind_def)
    from end_state3 [OF r _ over(2) k] over(1) thread3_lines [OF _ _ tid] show ?thesis
      unfolding thread3_act_def by blast
  qed
  ultimately show ?thesis by blast
qed

theorem thread3_tasks_witness:
  "\<exists>s. run (thread3_act (\<lambda>i. 10 + int i)) (in_turn 11 5 1 11) (start3 9) = Some s \<and>
    (\<exists>ls. lines3 (mem s) = ls @ farewell3 9 (\<lambda>i. 10 + int i) \<and> own None ls = [hello 9]) \<and> ret3 (mem s) 5 = high32 14"
proof -
  define tid where "tid = (\<lambda>i :: nat. 10 + int i)"
  define r where "r = run (thread3_act tid) (in_turn 11 5 1 11) (start3 9)"
  have e: "r \<noteq> None" "jobs (the r) = []" "stop (the r) = Running"
    unfolding r_def tid_def by code_simp+
  then obtain s where s: "r = Some s" "jobs s = []" "stop s = Running" by auto
  have over: "\<forall>a. thread3_act tid a s = None" using s(2) by (simp add: thread3_act_def crew_all_done)
  have tid: "inj_on tid {..<MAX5}" "\<forall>i < MAX5. tid i \<noteq> 0" by (auto simp: tid_def inj_on_def)
  note f = thread3_tasks [OF s(1) [unfolded r_def] tid, THEN conjunct2, THEN mp, OF conjI [OF over s(3)]]
  have "tid 4 = 14" by (simp add: tid_def)
  with s(1) f show ?thesis unfolding r_def tid_def [symmetric] by auto
qed

lemma thread4_lines:
  assumes h: "t3.complete (\<lambda>i. map Print3 (thread_prio_demo (tid i) (env i))) mid h" and i: "i < MAX5"
  shows "own (Some i) (lines3 (replay (exec3 tid) h mem_start)) = thread_prio_demo (tid i) (env i)"
proof -
  let ?out = "\<lambda>m. own (Some i) (lines3 m)"
  have own_print: "?out (fold (exec3 tid (Some i)) (map Print3 ts) m) = ?out m @ ts" for ts m
    by (induction ts arbitrary: m) (simp_all add: say3_def)
  have "?out (replay (exec3 tid) h mem_start) = ?out (replay (exec3 tid) (filter (t3.concerns (\<lambda>_. False) i) h) mem_start)"
  proof (rule replay_view)
    fix e :: "nat option \<times> act3" and m m' :: mem3
    show "\<not> t3.concerns (\<lambda>_. False) i e \<Longrightarrow> ?out (exec3 tid (fst e) (snd e) m) = ?out m"
      by (cases "snd e") (auto simp: t3.concerns_def say3_def split: option.splits)
    assume e: "e \<in> set h" "t3.concerns (\<lambda>_. False) i e" and m: "?out m = ?out m'"
    from e(2) have "fst e = Some i" by (simp add: t3.concerns_def)
    with e(1) have "(Some i, snd e) \<in> set h" by (metis prod.collapse)
    from t3.complete_in [OF h this] have "\<exists>t. snd e = Print3 t" by auto
    with m show "?out (exec3 tid (fst e) (snd e) m) = ?out (exec3 tid (fst e) (snd e) m')"
      by (auto simp: say3_def)
  qed
  also have "filter (t3.concerns (\<lambda>_. False) i) h = map (Pair (Some i)) (map Print3 (thread_prio_demo (tid i) (env i)))"
    using t3.concerns_order [OF h i, of "\<lambda>_. False"] by simp
  also have "?out (replay (exec3 tid) \<dots> mem_start) = thread_prio_demo (tid i) (env i)"
    by (simp only: replay_simps own_print) (simp add: mem_start_def)
  finally show ?thesis .
qed

text \<open>
  \<^verbatim>\<open>thread4.c\<close>: every schedule ends. Unless a creation fails, each thread has shown its scheduling
  parameters and, for root, the new ones if they could be set, in this order whatever the other threads
  print in between; what \<^verbatim>\<open>main\<close> prints of the identities comes last.
\<close>

theorem thread4_shows:
  assumes r: "run (thread4_act tid env) as (start3 mid) = Some s"
  shows "length as \<le> 22 + (\<Sum>i < MAX5. length (thread_prio_demo (tid i) (env i))) \<and>
    ((\<forall>a. thread4_act tid env a s = None) \<and> stop s = Running \<longrightarrow>
      (\<exists>ls. lines3 (mem s) = ls @ farewell3 mid tid \<and> own None ls = [hello mid] \<and>
         (\<forall>i < MAX5. own (Some i) ls = thread_prio_demo (tid i) (env i))))"
proof -
  note r = r [unfolded thread4_act_def]
  have "length as \<le> 22 + (\<Sum>i < MAX5. length (thread_prio_demo (tid i) (env i)))" using bound3 [OF r] by simp
  moreover have "\<exists>ls. lines3 (mem s) = ls @ farewell3 mid tid \<and> own None ls = [hello mid] \<and>
         (\<forall>i < MAX5. own (Some i) ls = thread_prio_demo (tid i) (env i))"
    if over: "\<forall>a. thread4_act tid env a s = None" "stop s = Running"
  proof -
    have k: "\<forall>i < MAX5. \<forall>a \<in> set (map Print3 (thread_prio_demo (tid i) (env i))). thread_kind a"
      by (auto simp: thread_kind_def)
    from end_state3 [OF r _ over(2) k] over(1) thread4_lines show ?thesis
      unfolding thread4_act_def by blast
  qed
  ultimately show ?thesis by blast
qed

theorem thread4_shows_witness:
  "\<exists>s ls. run (thread4_act (\<lambda>i. 10 + int i) (\<lambda>i. \<lparr>sched_first = Some (0, 0), root = i < 2, settable = True, sched_later = Some (2, 2)\<rparr>))
      (in_turn 11 2 8 0 @ concat (replicate 5 [Thread 4, Thread 2, Thread 3]) @ replicate 11 (Main True)) (start3 9) = Some s \<and>
    lines3 (mem s) = ls @ farewell3 9 (\<lambda>i. 10 + int i) \<and>
    own (Some 1) ls = [TAB # ''->Thread 11:\<newline>'', ''Zuteilung:\<newline>'', ''SCHED_OTHER;\<newline>'', ''Prioritaet: 0\<newline>'',
      TAB # ''->Thread 11:\<newline>'', ''Zuteilung:\<newline>'', ''SCHED_RR;\<newline>'', ''Prioritaet: 2\<newline>'']"
proof -
  define tid where "tid = (\<lambda>i :: nat. 10 + int i)"
  define env where "env = (\<lambda>i :: nat. \<lparr>sched_first = Some (0 :: int, 0 :: int), root = i < 2, settable = True, sched_later = Some (2 :: int, 2 :: int)\<rparr>)"
  define r where "r = run (thread4_act tid env) (in_turn 11 2 8 0 @ concat (replicate 5 [Thread 4, Thread 2, Thread 3]) @ replicate 11 (Main True)) (start3 9)"
  have e: "r \<noteq> None" "jobs (the r) = []" "stop (the r) = Running"
    unfolding r_def tid_def env_def by code_simp+
  then obtain s where s: "r = Some s" "jobs s = []" "stop s = Running" by auto
  have over: "\<forall>a. thread4_act tid env a s = None" using s(2) by (simp add: thread4_act_def crew_all_done)
  note f = thread4_shows [OF s(1) [unfolded r_def], THEN conjunct2, THEN mp, OF conjI [OF over s(3)]]
  then obtain ls where ls: "lines3 (mem s) = ls @ farewell3 9 tid" "own (Some 1) ls = thread_prio_demo (tid 1) (env 1)" by auto
  have "thread_prio_demo (tid 1) (env 1) = [TAB # ''->Thread 11:\<newline>'', ''Zuteilung:\<newline>'', ''SCHED_OTHER;\<newline>'', ''Prioritaet: 0\<newline>'',
      TAB # ''->Thread 11:\<newline>'', ''Zuteilung:\<newline>'', ''SCHED_RR;\<newline>'', ''Prioritaet: 2\<newline>'']"
    unfolding tid_def env_def by code_simp
  with s(1) ls show ?thesis unfolding r_def tid_def env_def by auto
qed

end
