(* ===== verification/ThreadLocal.thy ===== *)
theory ThreadLocal
  imports ThreadCrew
begin

text \<open>
  \<^verbatim>\<open>src/10_Threads/thread17.c\<close>, where each thread writes into a file of its own through data specific to
  the thread, and \<^verbatim>\<open>thread18.c\<close> and \<^verbatim>\<open>thread19.c\<close>, where a function runs for every thread and, with
  \<^verbatim>\<open>pthread_once\<close>, for one of them. Systems of theory \<open>Crew\<close>; none of them checks \<^verbatim>\<open>pthread_create\<close>.
\<close>

section \<open>\<^verbatim>\<open>thread17.c\<close>\<close>

datatype act17 = Print17 string | Open17 | Set17 | Write17 string | Close17

text \<open>
  \<open>streams17 i\<close> is what thread \<open>i\<close> has written into its stream, kept in the buffer of the stream until it
  is closed; \<open>key17 i\<close> says that the key holds this stream for the thread; \<open>null17\<close> are the threads that
  used the key without a stream.
\<close>

record mem17 =
  fs17 :: "string \<rightharpoonup> string"
  streams17 :: "nat \<rightharpoonup> string"
  key17 :: "nat \<Rightarrow> bool"
  null17 :: "nat list"
  lines17 :: lines

definition th_fpname :: "int \<Rightarrow> string" where
  "th_fpname self = take (20 - 1) (''thread'' @ show_int self @ ''.thread'')"

definition thread_write :: "nat \<Rightarrow> string \<Rightarrow> mem17 \<Rightarrow> mem17" where
  "thread_write i t m =
     (case streams17 m i of
        Some b \<Rightarrow> (if key17 m i then m\<lparr>streams17 := (streams17 m)(i \<mapsto> b @ t)\<rparr> else m\<lparr>null17 := i # null17 m\<rparr>)
      | None \<Rightarrow> m\<lparr>null17 := i # null17 m\<rparr>)"

text \<open>\<^verbatim>\<open>fclose\<close> of the stream: the buffer is written at the beginning of the file.\<close>

definition thread_close :: "string \<Rightarrow> nat \<Rightarrow> mem17 \<Rightarrow> mem17" where
  "thread_close name i m =
     (case streams17 m i of
        Some b \<Rightarrow> m\<lparr>fs17 := (fs17 m)(name \<mapsto> b @ drop (length b) (case fs17 m name of Some c \<Rightarrow> c | None \<Rightarrow> [])),
          streams17 := (streams17 m)(i := None), key17 := (key17 m)(i := False)\<rparr>
      | None \<Rightarrow> m\<lparr>null17 := i # null17 m\<rparr>)"

fun exec17 :: "(nat \<Rightarrow> int) \<Rightarrow> nat option \<Rightarrow> act17 \<Rightarrow> mem17 \<Rightarrow> mem17" where
  "exec17 tid None a m = (case a of Print17 t \<Rightarrow> m\<lparr>lines17 := lines17 m @ [(None, t)]\<rparr> | _ \<Rightarrow> m)"
| "exec17 tid (Some i) a m =
     (case a of
        Print17 t \<Rightarrow> m\<lparr>lines17 := lines17 m @ [(Some i, t)]\<rparr>
      | Open17 \<Rightarrow> m\<lparr>fs17 := (fs17 m)(th_fpname (tid i) \<mapsto> []), streams17 := (streams17 m)(i \<mapsto> [])\<rparr>
      | Set17 \<Rightarrow> m\<lparr>key17 := (key17 m)(i := True)\<rparr>
      | Write17 t \<Rightarrow> thread_write i t m
      | Close17 \<Rightarrow> thread_close (th_fpname (tid i)) i m)"

text \<open>
  \<^verbatim>\<open>thread_tsd\<close>: \<open>opened\<close> is the success of \<^verbatim>\<open>fopen\<close>. The destructor of the key, \<^verbatim>\<open>thread_close\<close>, runs at
  \<^verbatim>\<open>pthread_exit\<close>, but only if the key has been set.
\<close>

definition thread_tsd :: "bool \<Rightarrow> act17 list" where
  "thread_tsd opened =
     (if opened then [Open17, Set17, Write17 ''Thread wurde gestartet ...\<newline>\<newline>'', Write17 ''Thread is fertig\<newline>'', Close17] else [])"

definition starts17 :: "int \<Rightarrow> act17 job list" where
  "starts17 mid = Do (Print17 (hello mid)) # map Create [0..<MAX_THREADS]"

definition thread17_start :: "int \<Rightarrow> (string \<rightharpoonup> string) \<Rightarrow> (act17, mem17) crew" where
  "thread17_start mid fs =
     crew_start MAX_THREADS (starts17 mid @ map (\<lambda>i. Join i []) [0..<MAX_THREADS] @ map Do [Print17 (bye mid)])
       \<lparr>fs17 = fs, streams17 = Map.empty, key17 = \<lambda>_. False, null17 = [], lines17 = []\<rparr>"

definition thread17_act :: "(nat \<Rightarrow> int) \<Rightarrow> (nat \<Rightarrow> bool) \<Rightarrow> crew_step \<Rightarrow> (act17, mem17) crew \<Rightarrow> (act17, mem17) crew option" where
  "thread17_act tid opened = crew_act (exec17 tid) (\<lambda>i. thread_tsd (opened i)) None"

lemma starts17_simps: "starts17 mid = [Do (Print17 (hello mid)), Create 0, Create 1, Create 2]"
  by (simp add: starts17_def three)

interpretation t17: joined_crew "exec17 tid" "\<lambda>i. thread_tsd (opened i)" None MAX_THREADS "starts17 mid" "\<lambda>_. []" "[Print17 (bye mid)]"
  for tid opened mid
  by unfold_locales (simp_all add: starts17_simps three)

definition view17 :: "(nat \<Rightarrow> int) \<Rightarrow> nat \<Rightarrow> mem17 \<Rightarrow> string option \<times> string option \<times> bool \<times> bool" where
  "view17 tid i m = (fs17 m (th_fpname (tid i)), streams17 m i, key17 m i, i \<in> set (null17 m))"

lemmas exec17_defs = view17_def thread_write_def thread_close_def

lemma view17_done:
  assumes h: "t17.complete opened mid h" and i: "i < MAX_THREADS"
    and names: "inj_on (\<lambda>i. th_fpname (tid i)) {..<MAX_THREADS}"
    and m: "m = \<lparr>fs17 = fs, streams17 = Map.empty, key17 = \<lambda>_. False, null17 = [], lines17 = []\<rparr>"
  shows "view17 tid i (replay (exec17 tid) h m) =
    (if opened i then Some (''Thread wurde gestartet ...\<newline>\<newline>'' @ ''Thread is fertig\<newline>'') else fs (th_fpname (tid i)), None, False, False)"
proof -
  have "view17 tid i (replay (exec17 tid) h m) = view17 tid i (replay (exec17 tid) (filter (t17.concerns (\<lambda>_. False) i) h) m)"
  proof (rule replay_view)
    fix e :: "nat option \<times> act17" and m m' :: mem17
    assume e: "e \<in> set h" "\<not> t17.concerns (\<lambda>_. False) i e"
    show "view17 tid i (exec17 tid (fst e) (snd e) m) = view17 tid i m"
    proof (cases "fst e")
      case None
      then show ?thesis by (simp add: view17_def split: act17.split)
    next
      case (Some j)
      with e have "j \<noteq> i" by (auto simp: t17.concerns_def)
      moreover have "(Some j, snd e) \<in> set h" using e(1) Some by (metis prod.collapse)
      ultimately have j: "j \<noteq> i" "(Some j, snd e) \<in> set h" .
      from t17.complete_in [OF h j(2)] have "j < MAX_THREADS" by simp
      with names i j(1) have "th_fpname (tid j) \<noteq> th_fpname (tid i)" by (auto dest: inj_onD)
      with Some j(1) show ?thesis by (auto simp: exec17_defs split: act17.split option.split)
    qed
  next
    fix e :: "nat option \<times> act17" and m m' :: mem17
    assume e: "t17.concerns (\<lambda>_. False) i e" and v: "view17 tid i m = view17 tid i m'"
    from e have "fst e = Some i" by (simp add: t17.concerns_def)
    with v show "view17 tid i (exec17 tid (fst e) (snd e) m) = view17 tid i (exec17 tid (fst e) (snd e) m')"
      by (cases "snd e") (auto simp: exec17_defs split: option.splits)
  qed
  also have "filter (t17.concerns (\<lambda>_. False) i) h = map (Pair (Some i)) (thread_tsd (opened i))"
    using t17.concerns_order [OF h i, of "\<lambda>_. False"] by simp
  also have "view17 tid i (replay (exec17 tid) \<dots> m) =
      (if opened i then Some (''Thread wurde gestartet ...\<newline>\<newline>'' @ ''Thread is fertig\<newline>'') else fs (th_fpname (tid i)), None, False, False)"
    by (simp add: m thread_tsd_def exec17_defs)
  finally show ?thesis .
qed

lemma lines17_done:
  assumes h: "t17.complete opened mid h" and m: "lines17 m = []"
  shows "lines17 (replay (exec17 tid) h m) = [(None, hello mid)]"
proof -
  have "lines17 (replay (exec17 tid) h m) = lines17 (replay (exec17 tid) (filter (\<lambda>e. fst e = None) h) m)"
  proof (rule replay_view)
    fix e :: "nat option \<times> act17" and m :: mem17
    assume "e \<in> set h" "fst e \<noteq> None"
    then obtain i where i: "(Some i, snd e) \<in> set h" "fst e = Some i" by (metis option.exhaust prod.collapse)
    from t17.complete_in [OF h i(1)] have "snd e \<in> set (thread_tsd (opened i))" by simp
    then have "\<forall>t. snd e \<noteq> Print17 t" by (auto simp: thread_tsd_def split: if_splits)
    with i(2) show "lines17 (exec17 tid (fst e) (snd e) m) = lines17 m"
      by (auto simp: thread_write_def thread_close_def split: act17.split option.split)
  next
    fix e :: "nat option \<times> act17" and m m' :: mem17
    assume "fst e = None" "lines17 m = lines17 m'"
    then show "lines17 (exec17 tid (fst e) (snd e) m) = lines17 (exec17 tid (fst e) (snd e) m')"
      by (simp split: act17.split)
  qed
  also have "filter (\<lambda>e. fst e = None) h = [(None, Print17 (hello mid))]"
    using t17.complete_own_main [OF h] by (simp add: starts17_simps)
  finally show ?thesis using m by simp
qed

text \<open>
  \<^verbatim>\<open>thread17.c\<close>: every schedule ends after at most 23 steps. If all threads are created and the names of
  their files differ, each thread that could open its file leaves exactly its two texts in it, whatever the
  file held before, and its stream is closed by the destructor of the key; the others leave their file alone;
  no thread uses the key without a stream.
\<close>

theorem thread17_logs:
  assumes r: "run (thread17_act tid opened) as (thread17_start mid fs) = Some s"
    and names: "inj_on (\<lambda>i. th_fpname (tid i)) {..<MAX_THREADS}"
  shows "length as \<le> 23 \<and>
    ((\<forall>a. thread17_act tid opened a s = None) \<and> stop s = Running \<longrightarrow>
      lines17 (mem s) = [(None, hello mid), (None, bye mid)] \<and>
      (\<forall>i < MAX_THREADS. streams17 (mem s) i = None \<and> i \<notin> set (null17 (mem s)) \<and>
         fs17 (mem s) (th_fpname (tid i)) =
           (if opened i then Some (''Thread wurde gestartet ...\<newline>\<newline>'' @ ''Thread is fertig\<newline>'') else fs (th_fpname (tid i)))))"
proof -
  define m where "m = \<lparr>fs17 = fs, streams17 = Map.empty, key17 = \<lambda>_ :: nat. False, null17 = [], lines17 = []\<rparr>"
  have st: "thread17_start mid fs = crew_start MAX_THREADS (t17.plan mid) m"
    by (simp add: thread17_start_def t17.plan_def m_def)
  note r = r [unfolded thread17_act_def st]
  have "t17.bound opened mid \<le> 23"
    unfolding t17.bound_def t17.plan_def by (simp add: starts17_simps thread_tsd_def numeral_3_eq_3)
  with t17.bounded_run [OF r] have "length as \<le> 23" by simp
  moreover have "lines17 (mem s) = [(None, hello mid), (None, bye mid)] \<and>
      (\<forall>i < MAX_THREADS. streams17 (mem s) i = None \<and> i \<notin> set (null17 (mem s)) \<and>
         fs17 (mem s) (th_fpname (tid i)) =
           (if opened i then Some (''Thread wurde gestartet ...\<newline>\<newline>'' @ ''Thread is fertig\<newline>'') else fs (th_fpname (tid i))))"
    if over: "\<forall>a. thread17_act tid opened a s = None" "stop s = Running"
  proof -
    from t17.ends [OF r] over obtain h where h: "t17.complete opened mid h"
      "mem s = replay (exec17 tid) (h @ map (Pair None) [Print17 (bye mid)]) m" by (auto simp: thread17_act_def)
    define m1 where "m1 = replay (exec17 tid) h m"
    have "mem s = m1\<lparr>lines17 := lines17 m1 @ [(None, bye mid)]\<rparr>" using h(2) by (simp add: m1_def)
    moreover have "lines17 m1 = [(None, hello mid)]" unfolding m1_def by (rule lines17_done [OF h(1)]) (simp add: m_def)
    moreover have "view17 tid i m1 = (if opened i then Some (''Thread wurde gestartet ...\<newline>\<newline>'' @ ''Thread is fertig\<newline>'')
        else fs (th_fpname (tid i)), None, False, False)" if "i < MAX_THREADS" for i
      unfolding m1_def by (rule view17_done [OF h(1) that names m_def])
    ultimately show ?thesis by (simp add: view17_def)
  qed
  ultimately show ?thesis by blast
qed

theorem thread17_logs_witness:
  "\<exists>s. run (thread17_act (\<lambda>i. 10 + int i) (\<lambda>i. True)) (in_turn 4 3 5 4) (thread17_start 9 [''thread11.thread'' \<mapsto> ''old'']) = Some s \<and>
    fs17 (mem s) ''thread11.thread'' = Some (''Thread wurde gestartet ...\<newline>\<newline>'' @ ''Thread is fertig\<newline>'')"
proof -
  define tid where "tid = (\<lambda>i :: nat. 10 + int i)"
  define r where "r = run (thread17_act tid (\<lambda>i. True)) (in_turn 4 3 5 4) (thread17_start 9 [''thread11.thread'' \<mapsto> ''old''])"
  have e: "r \<noteq> None" "jobs (the r) = []" "stop (the r) = Running"
    unfolding r_def tid_def by code_simp+
  then obtain s where s: "r = Some s" "jobs s = []" "stop s = Running" by auto
  have over: "\<forall>a. thread17_act tid (\<lambda>i. True) a s = None" using s(2) by (simp add: thread17_act_def crew_all_done)
  have n: "th_fpname (tid 0) = ''thread10.thread''" "th_fpname (tid 1) = ''thread11.thread''" "th_fpname (tid 2) = ''thread12.thread''"
    unfolding tid_def by code_simp+
  have "inj_on (\<lambda>i. th_fpname (tid i)) {0, 1, 2}" using n by (simp add: inj_on_def)
  moreover have "{..<MAX_THREADS} = {0, 1, 2}" by auto
  ultimately have names: "inj_on (\<lambda>i. th_fpname (tid i)) {..<MAX_THREADS}" by simp
  note f = thread17_logs [OF s(1) [unfolded r_def] names, THEN conjunct2, THEN mp, OF conjI [OF over s(3)]]
  from f [THEN conjunct2, THEN spec, of 1] n(2) s(1) show ?thesis unfolding r_def tid_def by auto
qed

text \<open>Identities of fifteen digits that differ in the last two only give the same file.\<close>

lemma th_fpname_clash: "th_fpname 140345678901234 = th_fpname 140345678901299"
  by (simp add: th_fpname_def show_int_def show_nat.simps)

section \<open>\<^verbatim>\<open>thread18.c\<close> and \<^verbatim>\<open>thread19.c\<close>\<close>

text \<open>\<open>Func18\<close> is the call of \<^verbatim>\<open>thread_once\<close>, \<open>Once18\<close> that of \<^verbatim>\<open>pthread_once\<close>, whose callers wait until the
  function has returned.\<close>

datatype act18 = Print18 string | Func18 | Once18

record mem18 =
  once18 :: bool
  lines18 :: lines

definition thread_once_line :: string where
  "thread_once_line = ''Funktion thread_once aufgerufen\<newline>''"

definition say18 :: "nat option \<Rightarrow> string \<Rightarrow> mem18 \<Rightarrow> mem18" where
  "say18 who t m = m\<lparr>lines18 := lines18 m @ [(who, t)]\<rparr>"

fun exec18 :: "nat option \<Rightarrow> act18 \<Rightarrow> mem18 \<Rightarrow> mem18" where
  "exec18 who (Print18 t) m = say18 who t m"
| "exec18 who Func18 m = say18 who thread_once_line m"
| "exec18 who Once18 m = (if once18 m then m else say18 who thread_once_line (m\<lparr>once18 := True\<rparr>))"

definition started_line :: "int \<Rightarrow> string" where
  "started_line self = ''Thread gestartet (ID:'' @ show_int self @ '')\<newline>''"

definition finished_line :: "int \<Rightarrow> string" where
  "finished_line self = ''Thread fertig gestartet (ID:'' @ show_int self @ '')\<newline>\<newline>''"

text \<open>\<^verbatim>\<open>thread_func\<close> with the call that the program makes.\<close>

definition thread_func :: "act18 \<Rightarrow> int \<Rightarrow> act18 list" where
  "thread_func call self = [Print18 (started_line self), call, Print18 (finished_line self)]"

definition starts18 :: "int \<Rightarrow> act18 job list" where
  "starts18 mid = Do (Print18 (hello mid)) # map Create [0..<MAX_THREADS]"

definition thread18_start :: "int \<Rightarrow> (act18, mem18) crew" where
  "thread18_start mid =
     crew_start MAX_THREADS (starts18 mid @ map (\<lambda>i. Join i []) [0..<MAX_THREADS] @ map Do [Print18 (bye mid)])
       \<lparr>once18 = False, lines18 = []\<rparr>"

definition thread18_act :: "(nat \<Rightarrow> int) \<Rightarrow> crew_step \<Rightarrow> (act18, mem18) crew \<Rightarrow> (act18, mem18) crew option" where
  "thread18_act tid = crew_act exec18 (\<lambda>i. thread_func Func18 (tid i)) None"

definition thread19_act :: "(nat \<Rightarrow> int) \<Rightarrow> crew_step \<Rightarrow> (act18, mem18) crew \<Rightarrow> (act18, mem18) crew option" where
  "thread19_act tid = crew_act exec18 (\<lambda>i. thread_func Once18 (tid i)) None"

lemma starts18_simps: "starts18 mid = [Do (Print18 (hello mid)), Create 0, Create 1, Create 2]"
  by (simp add: starts18_def three)

interpretation t18: joined_crew exec18 "\<lambda>i. thread_func call (tid i)" None MAX_THREADS "starts18 mid" "\<lambda>_. []" "[Print18 (bye mid)]"
  for call tid mid
  by unfold_locales (simp_all add: starts18_simps three)

text \<open>What is printed when the function runs for the threads in \<open>K\<close> only.\<close>

fun line18 :: "nat set \<Rightarrow> nat option \<times> act18 \<Rightarrow> lines" where
  "line18 K (who, Print18 t) = [(who, t)]"
| "line18 K (who, Func18) = [(who, thread_once_line)]"
| "line18 K (who, Once18) = (case who of None \<Rightarrow> [] | Some i \<Rightarrow> if i \<in> K then [(who, thread_once_line)] else [])"

lemma lines_after_once: "once18 m \<Longrightarrow> (\<And>i. (Some i, Once18) \<in> set h \<Longrightarrow> i \<notin> K) \<Longrightarrow>
    lines18 (replay exec18 h m) = lines18 m @ concat (map (line18 K) h)"
proof (induction h arbitrary: m)
  case (Cons e h)
  have "once18 (exec18 (fst e) (snd e) m)" using Cons.prems(1) by (cases "snd e") (simp_all add: say18_def)
  moreover have "lines18 (exec18 (fst e) (snd e) m) = lines18 m @ line18 K e"
    using Cons.prems by (cases e; cases "snd e") (auto simp: say18_def split: option.split)
  ultimately show ?case using Cons.IH Cons.prems(2) by simp
qed simp

lemma lines_before_once: "\<not> once18 m \<Longrightarrow> (\<And>who. (who, Once18) \<notin> set h) \<Longrightarrow>
    \<not> once18 (replay exec18 h m) \<and> lines18 (replay exec18 h m) = lines18 m @ concat (map (line18 K) h)"
proof (induction h arbitrary: m)
  case (Cons e h)
  have n: "snd e \<noteq> Once18" using Cons.prems(2) [of "fst e"] by (cases e) auto
  then have "\<not> once18 (exec18 (fst e) (snd e) m)" using Cons.prems(1) by (cases "snd e") (simp_all add: say18_def)
  moreover have "lines18 (exec18 (fst e) (snd e) m) = lines18 m @ line18 K e"
    using n by (cases e; cases "snd e") (auto simp: say18_def)
  ultimately show ?case using Cons.IH [of "exec18 (fst e) (snd e) m"] Cons.prems(2) by simp
qed simp

lemma own_lines: "own who (concat (map (line18 K) h)) = concat (map (\<lambda>a. map snd (line18 K (who, a))) (own who h))"
proof (induction h)
  case (Cons e h)
  have "own who (line18 K e) = (if fst e = who then map snd (line18 K (who, snd e)) else [])"
    by (cases e; cases "snd e") (auto split: option.split)
  with Cons show ?case by simp
qed simp

lemma main_prints18: "t18.complete call tid mid h \<Longrightarrow> (None, a) \<in> set h \<Longrightarrow> \<exists>t. a = Print18 t"
  using t18.complete_main [of call tid mid h a] by (simp add: starts18_simps)

lemma once_by_one:
  assumes h: "t18.complete Once18 tid mid h"
  shows "\<exists>k < MAX_THREADS. lines18 (replay exec18 h \<lparr>once18 = False, lines18 = []\<rparr>) = concat (map (line18 {k}) h)"
proof -
  have "own (Some 0) h = thread_func Once18 (tid 0)" using h by (simp add: t18.complete_def)
  then have "Once18 \<in> set (own (Some 0) h)" by (simp add: thread_func_def)
  then have "(Some 0, Once18) \<in> set h" by (simp add: own_in)
  from split_first [OF this, of "\<lambda>e. snd e = Once18"] obtain h1 e h2
    where split: "h = h1 @ e # h2" "snd e = Once18" "\<forall>x \<in> set h1. snd x \<noteq> Once18" by auto
  have "fst e \<noteq> None"
  proof
    assume "fst e = None"
    with split(1,2) have "(None, Once18) \<in> set h" by (cases e) auto
    from main_prints18 [OF h this] show False by simp
  qed
  then obtain k where e: "e = (Some k, Once18)" using split(2) by (cases e) auto
  have k: "k < MAX_THREADS" using t18.complete_in [OF h, of k Once18] split(1) e by simp
  have own: "own (Some k) h1 @ Once18 # own (Some k) h2 = thread_func Once18 (tid k)"
  proof -
    have "own (Some k) h = thread_func Once18 (tid k)" using h k unfolding t18.complete_def by blast
    then show ?thesis unfolding split(1) e by simp
  qed
  have "(Some k, Once18) \<notin> set h2"
  proof
    assume "(Some k, Once18) \<in> set h2"
    then have "Once18 \<in> set (own (Some k) h2)" by (simp add: own_in)
    then have "0 < count_list (own (Some k) h2) Once18" by (metis count_list_0_iff neq0_conv)
    then have "1 < count_list (thread_func Once18 (tid k)) Once18" unfolding own [symmetric] by simp
    then show False by (simp add: thread_func_def)
  qed
  then have after: "(Some i, Once18) \<in> set h2 \<Longrightarrow> i \<notin> {k}" for i by auto
  let ?m = "\<lparr>once18 = False, lines18 = []\<rparr>"
  from lines_before_once [of ?m h1 "{k}"] split(3)
  have b: "\<not> once18 (replay exec18 h1 ?m)" "lines18 (replay exec18 h1 ?m) = concat (map (line18 {k}) h1)" by force+
  define m1 where "m1 = exec18 (Some k) Once18 (replay exec18 h1 ?m)"
  have m1: "once18 m1" "lines18 m1 = concat (map (line18 {k}) h1) @ [(Some k, thread_once_line)]"
    using b by (simp_all add: m1_def say18_def)
  have "replay exec18 h ?m = replay exec18 h2 m1" unfolding split(1) e m1_def by (simp only: replay_simps fst_conv snd_conv)
  moreover have "lines18 (replay exec18 h2 m1) = lines18 m1 @ concat (map (line18 {k}) h2)"
    by (rule lines_after_once [OF m1(1) after])
  ultimately have "lines18 (replay exec18 h ?m) = concat (map (line18 {k}) h)"
    using m1(2) unfolding split(1) e by simp
  with k show ?thesis by blast
qed

lemma every_line:
  assumes h: "t18.complete Func18 tid mid h"
  shows "lines18 (replay exec18 h \<lparr>once18 = False, lines18 = []\<rparr>) = concat (map (line18 {}) h)"
proof -
  have "(who, Once18) \<notin> set h" for who
  proof
    assume a: "(who, Once18) \<in> set h"
    show False
    proof (cases who)
      case None
      with main_prints18 [OF h] a show False by blast
    next
      case (Some i)
      with t18.complete_in [OF h, of i Once18] a show False by (simp add: thread_func_def)
    qed
  qed
  then show ?thesis using lines_before_once [of "\<lparr>once18 = False, lines18 = []\<rparr>" h "{}"] by simp
qed

lemma ending18:
  assumes r: "run (crew_act exec18 (\<lambda>i. thread_func call (tid i)) None) as (thread18_start mid) = Some s"
  shows "length as \<le> 17 \<and>
    ((\<forall>a. crew_act exec18 (\<lambda>i. thread_func call (tid i)) None a s = None) \<and> stop s = Running \<longrightarrow>
      (\<exists>h. t18.complete call tid mid h \<and>
         lines18 (mem s) = lines18 (replay exec18 h \<lparr>once18 = False, lines18 = []\<rparr>) @ [(None, bye mid)]))"
proof -
  have st: "thread18_start mid = crew_start MAX_THREADS (t18.plan mid) \<lparr>once18 = False, lines18 = []\<rparr>"
    by (simp add: thread18_start_def t18.plan_def)
  note r = r [unfolded st]
  have "t18.bound call tid mid = 17"
    unfolding t18.bound_def t18.plan_def by (simp add: starts18_simps thread_func_def)
  with t18.bounded_run [OF r] t18.ends [OF r] show ?thesis by (fastforce simp: say18_def)
qed

text \<open>
  C32: \<^verbatim>\<open>thread18.c\<close> and \<^verbatim>\<open>thread19.c\<close>: in both every schedule ends after at most 17 steps. If all threads
  are created, each prints its two lines; between them \<^verbatim>\<open>thread18.c\<close> prints the line of the function for
  every thread, and \<^verbatim>\<open>thread19.c\<close>, with \<^verbatim>\<open>pthread_once\<close>, for exactly one of them, whichever comes first.
\<close>

theorem once_and_each:
  assumes "call = Func18 \<or> call = Once18"
    and "run (if call = Func18 then thread18_act tid else thread19_act tid) as (thread18_start mid) = Some s"
    and "\<forall>a. (if call = Func18 then thread18_act tid else thread19_act tid) a s = None" and "stop s = Running"
  shows "length as \<le> 17 \<and>
    (\<exists>K ls. lines18 (mem s) = ls @ [(None, bye mid)] \<and> own None ls = [hello mid] \<and>
       (if call = Func18 then K = {..<MAX_THREADS} else \<exists>k < MAX_THREADS. K = {k}) \<and>
       (\<forall>i < MAX_THREADS. own (Some i) ls =
          [started_line (tid i)] @ (if i \<in> K then [thread_once_line] else []) @ [finished_line (tid i)]))"
proof -
  have r: "run (crew_act exec18 (\<lambda>i. thread_func call (tid i)) None) as (thread18_start mid) = Some s"
    "\<forall>a. crew_act exec18 (\<lambda>i. thread_func call (tid i)) None a s = None"
    using assms(1-3) unfolding thread18_act_def thread19_act_def by (auto split: if_splits)
  from ending18 [OF r(1)] r(2) assms(4) obtain h where b: "length as \<le> 17" and h: "t18.complete call tid mid h"
    and l: "lines18 (mem s) = lines18 (replay exec18 h \<lparr>once18 = False, lines18 = []\<rparr>) @ [(None, bye mid)]" by blast
  from h have owns: "own None h = [Print18 (hello mid)]" "i < MAX_THREADS \<Longrightarrow> own (Some i) h = thread_func call (tid i)" for i
    unfolding t18.complete_def by (simp_all add: starts18_simps)
  have e: "own None (concat (map (line18 K) h)) = [hello mid]" for K unfolding own_lines owns(1) by simp
  show ?thesis
  proof (cases "call = Func18")
    case True
    with every_line h l have "lines18 (mem s) = concat (map (line18 {}) h) @ [(None, bye mid)]" by simp
    moreover have "own (Some i) (concat (map (line18 {}) h)) = [started_line (tid i), thread_once_line, finished_line (tid i)]"
      if "i < MAX_THREADS" for i
      unfolding own_lines owns(2) [OF that] True by (simp add: thread_func_def)
    ultimately show ?thesis using b e True
      by (intro conjI exI [of _ "{..<MAX_THREADS}"] exI [of _ "concat (map (line18 {}) h)"]) auto
  next
    case False
    with assms(1) have c: "call = Once18" by blast
    from once_by_one [OF h [unfolded c]] obtain k where k: "k < MAX_THREADS"
      "lines18 (replay exec18 h \<lparr>once18 = False, lines18 = []\<rparr>) = concat (map (line18 {k}) h)" by blast
    have "own (Some i) (concat (map (line18 {k}) h)) =
        [started_line (tid i)] @ (if i \<in> {k} then [thread_once_line] else []) @ [finished_line (tid i)]" if "i < MAX_THREADS" for i
      unfolding own_lines owns(2) [OF that] c by (simp add: thread_func_def)
    with b e k l False show ?thesis
      by (intro conjI exI [of _ "{k}"] exI [of _ "concat (map (line18 {k}) h)"]) auto
  qed
qed

theorem once_and_each_witness:
  "\<exists>s ls. run (thread19_act (\<lambda>i. 10 + int i)) (in_turn 4 3 3 4) (thread18_start 9) = Some s \<and>
    lines18 (mem s) = ls @ [(None, bye 9)] \<and> own None ls = [hello 9]"
proof -
  define tid where "tid = (\<lambda>i :: nat. 10 + int i)"
  define r where "r = run (thread19_act tid) (in_turn 4 3 3 4) (thread18_start 9)"
  have e: "r \<noteq> None" "jobs (the r) = []" "stop (the r) = Running"
    unfolding r_def tid_def by code_simp+
  then obtain s where s: "r = Some s" "jobs s = []" "stop s = Running" by auto
  have over: "\<forall>a. thread19_act tid a s = None" using s(2) by (simp add: thread19_act_def crew_all_done)
  note f = once_and_each [where call = Once18 and tid = tid and mid = 9 and s = s and as = "in_turn 4 3 3 4", simplified,
    OF s(1) [unfolded r_def] over s(3)]
  from f s(1) show ?thesis unfolding r_def tid_def by blast
qed

end
