(* ===== verification/ThreadRace.thy ===== *)
theory ThreadRace
  imports ThreadFile
begin

text \<open>
  \<^verbatim>\<open>src/10_Threads/thread5.c\<close>, the program of \<^verbatim>\<open>thread6.c\<close> before the mutex was added: writer and reader
  share the stream without synchronisation. The stream, the buffers and \<^verbatim>\<open>main\<close> are those of theory
  \<open>ThreadFile\<close>; the states in which the other programs lock and unlock the mutex are here the start of the
  reader and what follows the last output of both (\<^verbatim>\<open>fflush\<close> and the loop that only counts).
\<close>

definition thread5_schreiben :: "tf \<Rightarrow> tf option" where
  "thread5_schreiben s = (if writer s = Wunlock then Some (s\<lparr>writer := Wdone\<rparr>) else write_line s)"

definition thread5_lesen :: "int \<Rightarrow> tf \<Rightarrow> tf option" where
  "thread5_lesen tid s =
     (if reader s = Rlock then Some (s\<lparr>reader := Rrewind\<rparr>)
      else if reader s = Runlock then Some (s\<lparr>reader := Rdone\<rparr>)
      else read_line tid s)"

definition thread5_main :: "cell \<Rightarrow> bool \<Rightarrow> int \<Rightarrow> pthr \<Rightarrow> tf \<Rightarrow> tf option" where
  "thread5_main after = create_join Wprompt (array_cells after)"

definition thread5_start :: "bool \<Rightarrow> int \<Rightarrow> string \<Rightarrow> int \<times> say list + tf" where
  "thread5_start opened tid inp = thread6_start opened tid inp"

fun t5_act :: "cell \<Rightarrow> tf_act \<Rightarrow> tf \<Rightarrow> tf option" where
  "t5_act after Schreiben s = (if over s then None else thread5_schreiben s)"
| "t5_act after (Lesen tid) s = (if over s then None else thread5_lesen tid s)"
| "t5_act after (Warten tid) s = None"
| "t5_act after (FMain ok tid new) s = (if over s then None else thread5_main after ok tid new s)"

section \<open>The invariant\<close>

text \<open>Before the writer has written the file is empty and the reader has nothing; then it holds the line.\<close>

definition file5 :: "string \<Rightarrow> string \<Rightarrow> tf \<Rightarrow> bool" where
  "file5 inp l s \<longleftrightarrow>
     (case writer s of
        Wlock \<Rightarrow> False
      | Wput \<Rightarrow> wstring s = Some l \<and> fz s = new_stream \<and> rstring s = None
      | Wunlock \<Rightarrow> fcontent (fz s) = l \<and> fpos (fz s) \<in> {0, length l} \<and> rstring s \<in> {None, Some l}
      | Wdone \<Rightarrow> fcontent (fz s) = l \<and> fpos (fz s) \<in> {0, length l} \<and> rstring s \<in> {None, Some l}
      | _ \<Rightarrow> input s = inp \<and> fz s = new_stream \<and> rstring s = None)"

definition reader5 :: "string \<Rightarrow> tf \<Rightarrow> bool" where
  "reader5 l s \<longleftrightarrow> (reader s \<in> {Rnone, Rlock, Rrewind, Rread} \<longrightarrow> rstring s = None) \<and>
     (reader s = Rput \<and> rstring s \<noteq> None \<longrightarrow> (\<exists>tid pre. fout s = pre @ [ausgabe tid])) \<and>
     (reader s \<in> {Runlock, Rdone} \<longrightarrow> rstring s = Some l \<and> printed l s)"

definition t5_inv :: "string \<Rightarrow> string \<Rightarrow> tf \<Rightarrow> bool" where
  "t5_inv inp l s \<longleftrightarrow> first_line inp l \<and> (undef s \<or> fmain_ok s \<and> file5 inp l s \<and> reader5 l s)"

lemma fgets_one_line:
  assumes n: "n = 0 \<or> n = length l" and l: "first_line inp l"
  shows "fgets LINEBUF (drop n l) \<in> {None, Some (l, [])}"
proof (cases "n = 0")
  case True
  with fgets_again [OF l] show ?thesis by simp
next
  case False
  with n show ?thesis by (simp add: fgets_def)
qed

lemma t5_writer:
  assumes inv: "t5_inv inp l s" "\<not> undef s" and e: "thread5_schreiben s = Some s'"
  shows "t5_inv inp l s' \<and> tf_size s' < tf_size s"
proof -
  have i: "first_line inp l" "fmain_ok s" "file5 inp l s" "reader5 l s" using inv by (auto simp: t5_inv_def)
  obtain r where r: "fgets LINEBUF inp = Some (l, r)" using i(1) by (auto simp: first_line_def)
  have w: "writer s \<in> {Wprompt, Wread, Wput, Wunlock}"
    using e i(3) by (cases "writer s") (auto simp: thread5_schreiben_def write_line_def file5_def)
  have "writer s = Wprompt \<Longrightarrow> s' = fsay ''Bitte Eingabe machen: '' (s\<lparr>writer := Wread\<rparr>)"
    using e by (simp add: thread5_schreiben_def write_line_def)
  moreover have "writer s = Wunlock \<Longrightarrow> s' = s\<lparr>writer := Wdone\<rparr>"
    using e by (simp add: thread5_schreiben_def)
  moreover have "s' = s\<lparr>fz := stream_puts l (fz s), writer := Wunlock\<rparr>" if "writer s = Wput"
  proof -
    have "wstring s = Some l" using i(3) that by (simp add: file5_def)
    with e that show ?thesis by (simp add: thread5_schreiben_def write_line_def)
  qed
  moreover have "s' = s\<lparr>input := r, wstring := Some l, writer := Wput\<rparr>" if "writer s = Wread"
  proof -
    have "input s = inp" using i(3) that by (simp add: file5_def)
    with e that r show ?thesis by (simp add: thread5_schreiben_def write_line_def)
  qed
  ultimately consider (prompt) "writer s = Wprompt" "s' = fsay ''Bitte Eingabe machen: '' (s\<lparr>writer := Wread\<rparr>)"
    | (read) "writer s = Wread" "s' = s\<lparr>input := r, wstring := Some l, writer := Wput\<rparr>"
    | (put) "writer s = Wput" "s' = s\<lparr>fz := stream_puts l (fz s), writer := Wunlock\<rparr>"
    | (over) "writer s = Wunlock" "s' = s\<lparr>writer := Wdone\<rparr>"
    using w by blast
  then show ?thesis
  proof cases
    case prompt
    with i have "reader5 l s'" by (auto simp: file5_def reader5_def)
    with prompt i fmain_ok_writer [of s s'] show ?thesis by (simp add: t5_inv_def tf_size_def file5_def)
  next
    case read
    with i have "reader5 l s'" by (auto simp: file5_def reader5_def)
    with read i fmain_ok_writer [of s s'] show ?thesis by (simp add: t5_inv_def tf_size_def file5_def)
  next
    case put
    with i have "reader5 l s'" by (auto simp: file5_def reader5_def)
    with put i fmain_ok_writer [of s s'] show ?thesis
      by (simp add: t5_inv_def tf_size_def file5_def stream_puts_def new_stream_def)
  next
    case over
    with i have "reader5 l s'" by (simp add: reader5_def printed_def)
    with over i show ?thesis by (auto simp: t5_inv_def tf_size_def file5_def fmain_ok_def split: fmain.splits)
  qed
qed

lemma t5_reader:
  assumes inv: "t5_inv inp l s" "\<not> undef s" "\<not> astray s" and e: "thread5_lesen tid s = Some s'"
  shows "t5_inv inp l s' \<and> tf_size s' < tf_size s"
proof -
  have i: "first_line inp l" "fmain_ok s" "file5 inp l s" "reader5 l s" using inv by (auto simp: t5_inv_def)
  have wp: "writer s \<noteq> Wlock" using i(3) by (auto simp: file5_def)
  have keep: "t5_inv inp l s' \<and> tf_size s' < tf_size s"
    if "writer s' = writer s" "fmain s' = fmain s" "reader s \<notin> {Rnone, Rdone}" "reader s' \<noteq> Rnone"
      "rrank (reader s') < rrank (reader s)" "undef s' = undef s" "astray s' = astray s" "file5 inp l s'" "reader5 l s'"
    using that i fmain_ok_reader [of s s'] by (simp add: t5_inv_def tf_size_def)
  show ?thesis
  proof (cases "reader s")
    case Rlock
    with e have s': "s' = s\<lparr>reader := Rrewind\<rparr>" by (simp add: thread5_lesen_def)
    from i Rlock show ?thesis unfolding s' by (intro keep [unfolded s']) (auto simp: file5_def reader5_def split: wpc.splits)
  next
    case Rrewind
    with e have s': "s' = s\<lparr>fz := (fz s)\<lparr>fpos := 0\<rparr>, reader := Rread\<rparr>" by (simp add: thread5_lesen_def read_line_def)
    from i Rrewind show ?thesis unfolding s'
      by (intro keep [unfolded s']) (auto simp: file5_def reader5_def new_stream_def split: wpc.splits)
  next
    case Rread
    show ?thesis
    proof (cases "fgets LINEBUF (drop (fpos (fz s)) (fcontent (fz s)))")
      case None
      with Rread e have s': "s' = s\<lparr>reader := Rshow\<rparr>" by (simp add: thread5_lesen_def read_line_def stream_gets_def)
      from i Rread show ?thesis unfolding s' by (intro keep [unfolded s']) (auto simp: file5_def reader5_def split: wpc.splits)
    next
      case (Some p)
      obtain a b where p: "p = (a, b)" by force
      have w: "writer s = Wunlock \<or> writer s = Wdone"
      proof (rule ccontr)
        assume "\<not> (writer s = Wunlock \<or> writer s = Wdone)"
        then have "fz s = new_stream" using i(3) by (cases "writer s") (auto simp: file5_def)
        with Some show False by (simp add: new_stream_def fgets_def)
      qed
      then have f: "fcontent (fz s) = l" "fpos (fz s) = 0 \<or> fpos (fz s) = length l" using i(3) by (auto simp: file5_def)
      have "a = l" using fgets_one_line [OF f(2) i(1)] Some p f(1) by auto
      moreover have "fpos (fz s) = 0" using f Some by (auto simp: fgets_def)
      ultimately have s': "s' = s\<lparr>fz := (fz s)\<lparr>fpos := length l\<rparr>, rstring := Some l, reader := Rshow\<rparr>"
        using Rread e Some p by (simp add: thread5_lesen_def read_line_def stream_gets_def)
      from i Rread w f show ?thesis unfolding s' by (intro keep [unfolded s']) (auto simp: file5_def reader5_def)
    qed
  next
    case Rshow
    with e have s': "s' = s\<lparr>reader := Rput, fout := fout s @ [ausgabe tid]\<rparr>" by (simp add: thread5_lesen_def read_line_def)
    from i Rshow show ?thesis unfolding s' by (intro keep [unfolded s']) (auto simp: file5_def reader5_def split: wpc.splits)
  next
    case Rput
    show ?thesis
    proof (cases "rstring s")
      case None
      with Rput e have s': "s' = s\<lparr>undef := True\<rparr>" by (simp add: thread5_lesen_def read_line_def)
      with i inv(2,3) show ?thesis by (simp add: t5_inv_def tf_size_def)
    next
      case (Some a)
      with i have a: "a = l" by (cases "writer s") (auto simp: file5_def)
      with Some Rput e have s': "s' = fsay l (s\<lparr>reader := Runlock\<rparr>)" by (simp add: thread5_lesen_def read_line_def)
      obtain tid' pre where o: "fout s = pre @ [ausgabe tid']" using i(4) Rput Some by (auto simp: reader5_def)
      then have "fout s' = pre @ [ausgabe tid', Out l] @ []" unfolding s' by simp
      then have "printed l s'" unfolding printed_def by blast
      with Some a Rput have "reader5 l s'" unfolding reader5_def by (simp add: s')
      moreover have "file5 inp l s'" using i(3) unfolding s' file5_def by (simp split: wpc.splits)
      ultimately show ?thesis by (intro keep) (simp_all add: s' Rput)
    qed
  next
    case Runlock
    with e have s': "s' = s\<lparr>reader := Rdone\<rparr>" by (simp add: thread5_lesen_def)
    from i Runlock show ?thesis unfolding s'
      by (intro keep [unfolded s']) (auto simp: file5_def reader5_def printed_def split: wpc.splits)
  qed (use e in \<open>auto simp: thread5_lesen_def read_line_def\<close>)
qed

lemma printed_more: "printed l s \<Longrightarrow> fout s' = fout s @ ms \<Longrightarrow> printed l s'"
  unfolding printed_def by (metis append.assoc)

lemma t5_main:
  assumes inv: "t5_inv inp l s" "\<not> undef s" "\<not> astray s" and e: "thread5_main after ok tid new s = Some s'"
  shows "t5_inv inp l s' \<and> tf_size s' < tf_size s"
proof -
  have i: "first_line inp l" "fmain_ok s" "file5 inp l s" "reader5 l s" using inv by (auto simp: t5_inv_def)
  from e [unfolded thread5_main_def] i(2) show ?thesis
  proof (cases rule: create_join_cases)
    case (failed j)
    then have "reader5 l s'" using i(4) by (simp add: reader5_def)
    moreover have "file5 inp l s'" using i(3) failed by (simp add: file5_def split: wpc.splits)
    ultimately show ?thesis using failed i by (simp add: t5_inv_def tf_size_def fmain_ok_def)
  next
    case create
    then have "reader5 l s'" using i(4) by (simp add: reader5_def)
    moreover have "file5 inp l s'" using i(3) create by (simp add: file5_def)
    ultimately show ?thesis using create i by (simp add: t5_inv_def tf_size_def fmain_ok_def)
  next
    case second
    then have "reader5 l s'" using i(4) by (simp add: reader5_def)
    moreover have "file5 inp l s'" using i(3) second by (simp add: file5_def split: wpc.splits)
    ultimately show ?thesis using second i by (simp add: t5_inv_def tf_size_def fmain_ok_def)
  next
    case (astray j)
    then have "fmain_ok s'" using i(2) by (simp add: fmain_ok_def)
    moreover have "reader5 l s'" using i(4) astray by (simp add: reader5_def printed_def)
    moreover have "file5 inp l s'" using i(3) astray by (simp add: file5_def split: wpc.splits)
    ultimately show ?thesis using astray i inv by (simp add: t5_inv_def tf_size_def)
  next
    case (joined j)
    have "fmain_ok s'" using joined i(2) by (auto simp: fmain_ok_def fjoin_def less_Suc_eq numeral_2_eq_2 split: if_splits)
    moreover have "frank (FMjoin (Suc j)) < frank (FMjoin j)" using joined by simp
    then have "tf_size s' < tf_size s" using joined unfolding tf_size_def by (simp del: frank.simps)
    moreover have "reader5 l s'" using i(4) joined by (simp add: reader5_def printed_def)
    moreover have "file5 inp l s'" using i(3) joined by (simp add: file5_def split: wpc.splits)
    ultimately show ?thesis using i by (simp add: t5_inv_def)
  next
    case finished
    then have "printed l s" using i(4) by (simp add: reader5_def)
    then have "printed l s'" by (rule printed_more) (simp add: finished)
    then have "reader5 l s'" using i(4) finished by (simp add: reader5_def)
    moreover have "file5 inp l s'" using i(3) finished by (simp add: file5_def)
    ultimately show ?thesis using finished i by (simp add: t5_inv_def tf_size_def fmain_ok_def)
  qed
qed

lemma t5_step:
  assumes "t5_inv inp l s" and "t5_act after a s = Some s'"
  shows "t5_inv inp l s' \<and> tf_size s' < tf_size s"
proof -
  have u: "\<not> undef s" "\<not> astray s"
    using assms(2) by (cases a; auto simp: over_def split: if_splits)+
  show ?thesis
  proof (cases a)
    case Schreiben
    with assms t5_writer [OF assms(1) u(1), of s'] show ?thesis by (simp split: if_splits)
  next
    case (Lesen tid)
    with assms t5_reader [OF assms(1) u, of tid s'] show ?thesis by (simp split: if_splits)
  next
    case (FMain ok tid new)
    with assms t5_main [OF assms(1) u, of after ok tid new s'] show ?thesis by (simp split: if_splits)
  qed (use assms(2) in simp)
qed

lemma t5_progress:
  assumes "t5_inv inp l s" and no: "\<not> over s"
  shows "\<exists>a s'. t5_act after a s = Some s'"
proof -
  have u: "\<not> undef s" using no by (simp add: over_def)
  have i: "fmain_ok s" "file5 inp l s" using assms(1) u by (simp_all add: t5_inv_def)
  have main: "\<exists>a s'. t5_act after a s = Some s'" if "thread5_main after True 0 (0, 0) s \<noteq> None"
    using that no by (intro exI [of _ "FMain True 0 (0, 0)"]) simp
  show ?thesis
  proof (cases "fmain s")
    case (FMcreate j)
    then show ?thesis using main by (simp add: thread5_main_def create_join_def)
  next
    case (FMjoin j)
    then have ne: "writer s \<noteq> Wnone" "reader s \<noteq> Rnone" using i by (simp_all add: fmain_ok_def)
    show ?thesis
    proof (cases "j < 2 \<and> \<not> fjoin j s")
      case False
      with FMjoin have "thread5_main after True 0 (0, 0) s \<noteq> None" by (auto simp: thread5_main_def create_join_def)
      then show ?thesis by (rule main)
    next
      case True
      show ?thesis
      proof (cases "writer s = Wdone")
        case False
        then have "thread5_schreiben s \<noteq> None" using ne i(2)
          by (cases "writer s") (simp_all add: thread5_schreiben_def write_line_def file5_def split: option.split)
        with no show ?thesis by (intro exI [of _ Schreiben]) simp
      next
        case d: True
        with True have "reader s \<noteq> Rdone" by (auto simp: fjoin_def split: if_splits)
        then have "thread5_lesen 0 s \<noteq> None" using ne
          by (cases "reader s") (simp_all add: thread5_lesen_def read_line_def split: option.split prod.split)
        with no show ?thesis by (intro exI [of _ "Lesen 0"]) simp
      qed
    qed
  qed (use no in \<open>simp add: over_def\<close>)
qed

definition starts5 :: "string \<Rightarrow> string \<Rightarrow> tf \<Rightarrow> bool" where
  "starts5 inp l s \<longleftrightarrow> first_line inp l \<and> (\<exists>tid. thread5_start True tid inp = Inr s)"

lemma starts5_inv: "starts5 inp l s \<Longrightarrow> t5_inv inp l s"
  by (auto simp: starts5_def thread5_start_def thread6_start_def open_file_def t5_inv_def file5_def reader5_def fmain_ok_def Let_def)

interpretation t5: terminating_protocol "t5_act after" "starts5 inp l" "t5_inv inp l" tf_size over for after inp l
  by unfold_locales (use starts5_inv t5_step t5_progress in blast)+

section \<open>What the race can do\<close>

text \<open>
  \<^verbatim>\<open>thread5.c\<close>: under every schedule the program ends after at most 19 steps, by an exit or by the
  use of a buffer that was never filled. Whenever it ends with success the reader has printed exactly the
  line that was typed: a part of it, or an older text, is never shown, although nothing synchronises the two
  threads.
\<close>

theorem thread5_outcomes:
  assumes "fgets LINEBUF inp = Some (l, r)" and "thread5_start True tid inp = Inr s0" and run: "run (t5_act after) as s0 = Some s"
  shows "length as \<le> 19 \<and> ((\<forall>a. t5_act after a s = None) \<longrightarrow> over s) \<and> (fmain s = FMexit EXIT_SUCCESS \<and> \<not> undef s \<longrightarrow> printed l s)"
proof -
  have st: "starts5 inp l s0" using assms(1,2) by (auto simp: starts5_def first_line_def)
  note inv0 = starts5_inv [OF st]
  have inv: "t5_inv inp l s" by (rule t5.bounded.run_keeps [OF inv0 run])
  have "tf_size s0 = 19" using assms(2) by (auto simp: thread5_start_def thread6_start_def open_file_def Let_def tf_size_def)
  with t5.run_bound [OF inv0 run] have "length as \<le> 19" by simp
  moreover have "printed l s" if "fmain s = FMexit EXIT_SUCCESS" "\<not> undef s"
    using inv that by (auto simp: t5_inv_def fmain_ok_def reader5_def)
  moreover have "over s" if "\<forall>a. t5_act after a s = None"
    by (rule t5.stuck_final [OF inv0 run]) (use that in blast)
  ultimately show ?thesis by blast
qed

definition ordered5 :: "tf_act list" where
  "ordered5 = [FMain True 9 (1, 2), FMain True 9 (1, 2), Schreiben, Schreiben, Schreiben] @ replicate 6 (Lesen 2) @ [Schreiben] @
     replicate 3 (FMain True 9 (1, 2))"

lemmas evaluate5 = evaluate8 thread5_start_def thread6_start_def open_file_def thread5_main_def thread5_schreiben_def thread5_lesen_def
  array_cells_def

theorem thread5_outcomes_witness:
  "\<exists>s. run (t5_act (Other 0)) ordered5 (case thread5_start True 9 ''hallo'' of Inr s \<Rightarrow> s) = Some s \<and> printed ''hallo'' s"
proof -
  define s0 where "s0 = (case thread5_start True 9 ''hallo'' of Inr s \<Rightarrow> s)"
  have s0: "thread5_start True 9 ''hallo'' = Inr s0" by (simp add: s0_def thread5_start_def thread6_start_def open_file_def Let_def)
  have f: "fgets LINEBUF ''hallo'' = Some (''hallo'', [])" by code_simp
  define r where "r = run (t5_act (Other 0)) ordered5 s0"
  have o: "ordered5 = [FMain True 9 (1, 2), FMain True 9 (1, 2), Schreiben, Schreiben, Schreiben, Lesen 2, Lesen 2, Lesen 2, Lesen 2,
      Lesen 2, Lesen 2, Schreiben, FMain True 9 (1, 2), FMain True 9 (1, 2), FMain True 9 (1, 2)]"
    by (simp add: ordered5_def eval_nat_numeral)
  have "leads (t5_act (Other 0)) ordered5 s0 (\<lambda>s. fmain s = FMexit EXIT_SUCCESS \<and> \<not> undef s)"
    by (simp add: leads_def s0_def o evaluate5 f)
  then have "r \<noteq> None" "fmain (the r) = FMexit EXIT_SUCCESS" "\<not> undef (the r)"
    unfolding r_def by (auto simp: leads_def split: option.splits)
  then obtain s where s: "r = Some s" "fmain s = FMexit EXIT_SUCCESS" "\<not> undef s" by auto
  from thread5_outcomes [OF f s0 s(1) [unfolded r_def]] s(2,3) have "printed ''hallo'' s" by blast
  with s(1) show ?thesis unfolding r_def s0_def by blast
qed

text \<open>If the reader comes first it prints whatever its buffer holds.\<close>

lemma thread5_reader_first:
  "leads (t5_act (Other 0)) ([FMain True 9 (1, 2), FMain True 9 (1, 2)] @ replicate 5 (Lesen 2)) (case thread5_start True 9 ''hallo'' of Inr s \<Rightarrow> s) undef"
  by code_simp

end
