(* ===== verification/ThreadSum.thy ===== *)
theory ThreadSum
  imports Pthread
begin

text \<open>
  \<^verbatim>\<open>src/10_Threads/thread10.c\<close> and \<^verbatim>\<open>thread11.c\<close>: one thread fills an array and signals a condition, the
  other one waits for it and adds the numbers up. In \<^verbatim>\<open>thread11.c\<close> the array, the mutex and the condition
  are in a block that \<^verbatim>\<open>main\<close> allocates. The second thread waits without having locked the mutex, which
  POSIX leaves undefined; the model is that of the platform, where waiting opens the mutex whoever holds
  it, and waking up locks it.
\<close>

datatype pc1 = A1none | A1say | A1lock | A1write nat | A1tell | A1signal | A1unlock | A1end | A1done
datatype pc2 = B2none | B2say | B2wait | B2waiting | B2relock | B2say2 | B2read nat | B2end | B2sum | B2done
datatype pcm = MC1 | MC2 | MJ1 | MJ2 | MEnd | MDone

record t10 =
  locked10 :: bool
  werte10 :: "int list"
  pc1 :: pc1
  pc2 :: pc2
  pcm :: pcm
  summe :: int
  spurious10 :: bool
  exit10 :: bool
  undef10 :: bool
  out10 :: "say list"

definition say10 :: "string \<Rightarrow> t10 \<Rightarrow> t10" where
  "say10 t s = s\<lparr>out10 := out10 s @ [Out t]\<rparr>"

text \<open>\<^verbatim>\<open>thread1\<close>; \<open>ok\<close> is the success of locking and unlocking, which the thread checks.\<close>

definition thread1_10 :: "int \<Rightarrow> bool \<Rightarrow> t10 \<Rightarrow> t10 option" where
  "thread1_10 self ok s =
     (case pc1 s of
        A1say \<Rightarrow> Some (say10 (TAB # ''->Thread '' @ show_int self @ '' gestartet ..\<newline>'') (s\<lparr>pc1 := A1lock\<rparr>))
      | A1lock \<Rightarrow>
          (if \<not> ok then Some (say10 (''Fehler bei lock in Thread:'' @ show_int self @ ''\<newline>'') (s\<lparr>exit10 := True\<rparr>))
           else if locked10 s then None
           else Some (s\<lparr>locked10 := True, pc1 := A1write 0\<rparr>))
      | A1write i \<Rightarrow>
          (if i < 10 then Some (s\<lparr>werte10 := (werte10 s)[i := int i], pc1 := (if i = 9 then A1tell else A1write (i + 1))\<rparr>)
           else None)
      | A1tell \<Rightarrow> Some (say10 (''->Thread '' @ show_int self @ '' Sende Bedingugsvariable\<newline>'') (s\<lparr>pc1 := A1signal\<rparr>))
      | A1signal \<Rightarrow> Some (s\<lparr>pc2 := (if pc2 s = B2waiting then B2relock else pc2 s), pc1 := A1unlock\<rparr>)
      | A1unlock \<Rightarrow>
          (if \<not> ok then Some (say10 (''Fehler bei unlock in Thread:'' @ show_int self @ ''\<newline>'') (s\<lparr>exit10 := True\<rparr>))
           else Some (s\<lparr>locked10 := False, pc1 := A1end\<rparr>))
      | A1end \<Rightarrow> Some (say10 (TAB # ''->Thread '' @ show_int self @ '' ende ..\<newline>'') (s\<lparr>pc1 := A1done\<rparr>))
      | _ \<Rightarrow> None)"

text \<open>\<^verbatim>\<open>thread2\<close>.\<close>

definition thread2_10 :: "int \<Rightarrow> t10 \<Rightarrow> t10 option" where
  "thread2_10 self s =
     (case pc2 s of
        B2say \<Rightarrow> Some (say10 (''->Thread '' @ show_int self @ '' wartet auf Bedingugsvariable\<newline>'') (s\<lparr>pc2 := B2wait\<rparr>))
      | B2wait \<Rightarrow> Some (s\<lparr>locked10 := False, pc2 := B2waiting\<rparr>)
      | B2relock \<Rightarrow> (if locked10 s then None else Some (s\<lparr>locked10 := True, pc2 := B2say2\<rparr>))
      | B2say2 \<Rightarrow> Some (say10 (TAB # ''->Thread '' @ show_int self @ '' gestartet ..\<newline>'') (s\<lparr>pc2 := B2read 0\<rparr>))
      | B2read i \<Rightarrow>
          (if i < 10 then Some (s\<lparr>summe := summe s + werte10 s ! i, pc2 := (if i = 9 then B2end else B2read (i + 1))\<rparr>)
           else None)
      | B2end \<Rightarrow> Some (say10 (TAB # ''->Thread '' @ show_int self @ '' ende ..\<newline>'') (s\<lparr>pc2 := B2sum\<rparr>))
      | B2sum \<Rightarrow> Some (say10 (TAB # ''->Summe '' @ show_int (summe s) @ ''\<newline>'') (s\<lparr>pc2 := B2done\<rparr>))
      | _ \<Rightarrow> None)"

text \<open>Waking up without a signal.\<close>

definition wake10 :: "t10 \<Rightarrow> t10 option" where
  "wake10 s = (if pc2 s = B2waiting then Some (s\<lparr>pc2 := B2relock, spurious10 := True\<rparr>) else None)"

text \<open>
  \<^verbatim>\<open>main\<close>, with the creations, which are not checked: joining a thread that does not exist is undefined.
  \<open>destroy\<close> is the destruction of the mutex in \<^verbatim>\<open>thread11.c\<close>, undefined while it is locked.
\<close>

definition main10 :: "bool \<Rightarrow> int \<Rightarrow> bool \<Rightarrow> t10 \<Rightarrow> t10 option" where
  "main10 destroy mid ok s =
     (case pcm s of
        MC1 \<Rightarrow> Some (if ok then s\<lparr>pc1 := A1say, pcm := MC2\<rparr> else s\<lparr>undef10 := True\<rparr>)
      | MC2 \<Rightarrow> Some (if ok then s\<lparr>pc2 := B2say, pcm := MJ1\<rparr> else s\<lparr>undef10 := True\<rparr>)
      | MJ1 \<Rightarrow> (if pc1 s = A1done then Some (s\<lparr>pcm := MJ2\<rparr>) else None)
      | MJ2 \<Rightarrow> (if pc2 s = B2done then Some (s\<lparr>pcm := MEnd\<rparr>) else None)
      | MEnd \<Rightarrow>
          (if destroy \<and> locked10 s then Some (s\<lparr>undef10 := True\<rparr>)
           else Some (say10 (''<- Main-Thread beendet (ID:'' @ show_int mid @ '')\<newline>'') (s\<lparr>pcm := MDone\<rparr>)))
      | MDone \<Rightarrow> None)"

definition start10 :: "int \<Rightarrow> int list \<Rightarrow> t10" where
  "start10 mid w =
     \<lparr>locked10 = False, werte10 = w, pc1 = A1none, pc2 = B2none, pcm = MC1, summe = 0, spurious10 = False, exit10 = False,
      undef10 = False, out10 = [Out (''\<newline>-> Main-Thread gestartet (ID:'' @ show_int mid @ '')\<newline>'')]\<rparr>"

definition thread10_start :: "int \<Rightarrow> t10" where
  "thread10_start mid = start10 mid (replicate 10 0)"

text \<open>\<open>junk\<close> is what the block holds when it is allocated, \<open>None\<close> when there is none.\<close>

definition thread11_start :: "int \<Rightarrow> int list option \<Rightarrow> int \<times> say list + t10" where
  "thread11_start mid junk =
     (case junk of
        None \<Rightarrow> Inl (EXIT_FAILURE, [Out ''Konnte keinen Speicher allozieren...!\<newline>''])
      | Some w \<Rightarrow> Inr (start10 mid w))"

datatype step10 = T1 int bool | T2 int | Wake | TMain bool

definition stopped10 :: "t10 \<Rightarrow> bool" where
  "stopped10 s \<longleftrightarrow> exit10 s \<or> undef10 s \<or> pcm s = MDone"

fun act10 :: "bool \<Rightarrow> int \<Rightarrow> step10 \<Rightarrow> t10 \<Rightarrow> t10 option" where
  "act10 destroy mid (T1 self ok) s = (if stopped10 s then None else thread1_10 self ok s)"
| "act10 destroy mid (T2 self) s = (if stopped10 s then None else thread2_10 self s)"
| "act10 destroy mid Wake s = (if stopped10 s then None else wake10 s)"
| "act10 destroy mid (TMain ok) s = (if stopped10 s then None else main10 destroy mid ok s)"

section \<open>The invariant\<close>

text \<open>How many numbers have been written, and whether the signal has been sent.\<close>

fun written :: "pc1 \<Rightarrow> nat" where
  "written A1none = 0" | "written A1say = 0" | "written A1lock = 0" | "written (A1write i) = i" | "written _ = 10"

fun signalled :: "pc1 \<Rightarrow> bool" where
  "signalled A1unlock = True" | "signalled A1end = True" | "signalled A1done = True" | "signalled _ = False"

fun critical :: "pc1 \<Rightarrow> bool" where
  "critical (A1write i) = True" | "critical A1tell = True" | "critical A1signal = True" | "critical A1unlock = True"
| "critical _ = False"

text \<open>The states of the second thread after waiting, and those in which it holds the mutex.\<close>

fun woken :: "pc2 \<Rightarrow> bool" where
  "woken B2none = False" | "woken B2say = False" | "woken B2wait = False" | "woken B2waiting = False" | "woken _ = True"

fun added :: "pc2 \<Rightarrow> nat option" where
  "added (B2read i) = Some i" | "added B2end = Some 10" | "added B2sum = Some 10" | "added B2done = Some 10"
| "added B2none = Some 0" | "added B2say = Some 0" | "added B2wait = Some 0" | "added B2waiting = Some 0"
| "added B2relock = Some 0" | "added B2say2 = Some 0"

fun started10 :: "pcm \<Rightarrow> nat" where
  "started10 MC1 = 0" | "started10 MC2 = 1" | "started10 _ = 2"

definition sum_line :: "int \<Rightarrow> say" where
  "sum_line v = Out (TAB # ''->Summe '' @ show_int v @ ''\<newline>'')"

definition is_sum :: "say \<Rightarrow> bool" where
  "is_sum x \<longleftrightarrow> (case x of Out t \<Rightarrow> take 8 t = TAB # ''->Summe'' | _ \<Rightarrow> False)"

text \<open>The invariant: the array and the first thread, the control, the mutex, the output, the sum.\<close>

definition array_ok :: "t10 \<Rightarrow> bool" where
  "array_ok s \<longleftrightarrow> length (werte10 s) = 10 \<and> (\<forall>i < written (pc1 s). werte10 s ! i = int i) \<and> written (pc1 s) \<le> 10 \<and>
     (\<forall>i. pc1 s = A1write i \<longrightarrow> i < 10) \<and> (\<forall>i. pc2 s = B2read i \<longrightarrow> i < 10)"

definition control_ok :: "t10 \<Rightarrow> bool" where
  "control_ok s \<longleftrightarrow> (pc1 s = A1none \<longleftrightarrow> pcm s = MC1) \<and> (pc2 s = B2none \<longleftrightarrow> started10 (pcm s) < 2) \<and>
     (pcm s \<in> {MJ2, MEnd, MDone} \<longrightarrow> pc1 s = A1done) \<and> (pcm s \<in> {MEnd, MDone} \<longrightarrow> pc2 s = B2done)"

definition lock_ok :: "t10 \<Rightarrow> bool" where
  "lock_ok s \<longleftrightarrow> (locked10 s \<longrightarrow> critical (pc1 s) \<or> woken (pc2 s) \<and> pc2 s \<noteq> B2relock)"

definition output_ok :: "t10 \<Rightarrow> bool" where
  "output_ok s \<longleftrightarrow> filter is_sum (out10 s) = (if pc2 s = B2done then [sum_line (summe s)] else [])"

definition sum_ok :: "t10 \<Rightarrow> bool" where
  "sum_ok s \<longleftrightarrow> (\<not> spurious10 s \<longrightarrow> (woken (pc2 s) \<longrightarrow> signalled (pc1 s)) \<and> summe s = (\<Sum>i < the (added (pc2 s)). int i))"

definition inv10 :: "t10 \<Rightarrow> bool" where
  "inv10 s \<longleftrightarrow> array_ok s \<and> control_ok s \<and> lock_ok s \<and> output_ok s \<and> sum_ok s"

lemmas inv10_parts = array_ok_def control_ok_def lock_ok_def output_ok_def sum_ok_def

lemma sum_to_ten: "(\<Sum>i < 10. int i) = 45"
  by (simp add: numeral_eq_Suc)

lemma inv10_start: "length w = 10 \<Longrightarrow> inv10 (start10 mid w)"
  by (simp add: inv10_def inv10_parts start10_def is_sum_def)

lemma say10_simps [simp]: "pc1 (say10 t s) = pc1 s" "pc2 (say10 t s) = pc2 s" "pcm (say10 t s) = pcm s"
    "locked10 (say10 t s) = locked10 s" "werte10 (say10 t s) = werte10 s" "summe (say10 t s) = summe s"
    "spurious10 (say10 t s) = spurious10 s" "out10 (say10 t s) = out10 s @ [Out t]"
    "exit10 (say10 t s) = exit10 s" "undef10 (say10 t s) = undef10 s"
  by (simp_all add: say10_def)

lemma frame1:
  assumes "thread1_10 self ok s = Some s'"
  shows "pcm s' = pcm s \<and> pc1 s \<noteq> A1done \<and> pc1 s \<noteq> A1none \<and> pc1 s' \<noteq> A1none \<and> (pc2 s' = B2none \<longleftrightarrow> pc2 s = B2none) \<and>
    (pc2 s' = B2done \<longleftrightarrow> pc2 s = B2done)"
  using assms by (cases "pc1 s") (simp_all add: thread1_10_def split: if_splits, auto)

lemma step1:
  assumes "inv10 s" and "thread1_10 self ok s = Some s'"
  shows "array_ok s'" "control_ok s'" "lock_ok s'" "output_ok s'" "sum_ok s'"
proof -
  note parts = assms(1) [unfolded inv10_def]
  show "array_ok s'" using parts assms(2)
    by (cases "pc1 s") (auto simp: thread1_10_def array_ok_def nth_list_update less_Suc_eq split: if_splits)
  show "control_ok s'" using parts frame1 [OF assms(2)] by (auto simp: control_ok_def)
  show "lock_ok s'" using parts assms(2)
    by (cases "pc1 s") (auto simp: thread1_10_def lock_ok_def split: if_splits)
  show "output_ok s'" using parts assms(2)
    by (cases "pc1 s") (auto simp: thread1_10_def output_ok_def is_sum_def split: if_splits)
  show "sum_ok s'" using parts assms(2)
    by (cases "pc1 s") (auto simp: thread1_10_def sum_ok_def split: if_splits)
qed

lemma frame2:
  "thread2_10 self s = Some s' \<Longrightarrow> pc1 s' = pc1 s \<and> pcm s' = pcm s \<and> werte10 s' = werte10 s \<and> pc2 s \<noteq> B2done \<and> pc2 s \<noteq> B2none \<and>
     pc2 s' \<noteq> B2none \<and> spurious10 s' = spurious10 s"
  by (cases "pc2 s") (auto simp: thread2_10_def split: if_splits)

lemma step2:
  assumes "inv10 s" and "thread2_10 self s = Some s'"
  shows "array_ok s'" "control_ok s'" "lock_ok s'" "output_ok s'" "sum_ok s'"
proof -
  note parts = assms(1) [unfolded inv10_def]
  show "array_ok s'" using parts assms(2)
    by (cases "pc2 s") (auto simp: thread2_10_def array_ok_def split: if_splits)
  show "control_ok s'" using parts frame2 [OF assms(2)] by (auto simp: control_ok_def)
  show "lock_ok s'" using parts assms(2)
    by (cases "pc2 s") (auto simp: thread2_10_def lock_ok_def split: if_splits)
  show "output_ok s'" using parts assms(2)
    by (cases "pc2 s") (auto simp: thread2_10_def output_ok_def is_sum_def sum_line_def split: if_splits)
  show "sum_ok s'"
  proof (cases "pc2 s")
    case (B2read i)
    have "werte10 s ! i = int i" if "\<not> spurious10 s"
    proof -
      have "signalled (pc1 s)" using parts B2read that by (simp add: sum_ok_def)
      then have "written (pc1 s) = 10" by (cases "pc1 s") simp_all
      with parts B2read show ?thesis by (simp add: array_ok_def)
    qed
    with parts assms(2) B2read show ?thesis
      by (auto simp: thread2_10_def sum_ok_def lessThan_Suc numeral_eq_Suc split: if_splits)
  qed (use parts assms(2) in \<open>auto simp: thread2_10_def sum_ok_def split: if_splits\<close>)
qed

lemma wake_step: "inv10 s \<Longrightarrow> wake10 s = Some s' \<Longrightarrow> inv10 s'"
proof -
  assume inv: "inv10 s" and w: "wake10 s = Some s'"
  then have b: "pc2 s = B2waiting" "s' = s\<lparr>pc2 := B2relock, spurious10 := True\<rparr>" by (simp_all add: wake10_def split: if_splits)
  note parts = inv [unfolded inv10_def]
  have "array_ok s'" using parts b by (simp add: array_ok_def)
  moreover have "control_ok s'" using parts b by (simp add: control_ok_def)
  moreover have "lock_ok s'" using parts b by (simp add: lock_ok_def)
  moreover have "output_ok s'" "sum_ok s'" using parts b by (simp_all add: output_ok_def sum_ok_def)
  ultimately show ?thesis by (simp add: inv10_def)
qed

lemma main_step:
  assumes "inv10 s" and "main10 destroy mid ok s = Some s'"
  shows "array_ok s'" "control_ok s'" "lock_ok s'" "output_ok s'" "sum_ok s'"
proof -
  note parts = assms(1) [unfolded inv10_def]
  show "array_ok s'" using parts assms(2)
    by (cases "pcm s") (auto simp: main10_def array_ok_def control_ok_def split: if_splits)
  show "control_ok s'" using parts assms(2)
    by (cases "pcm s") (auto simp: main10_def control_ok_def split: if_splits)
  show "lock_ok s'" using parts assms(2)
    by (cases "pcm s") (auto simp: main10_def lock_ok_def control_ok_def split: if_splits)
  show "output_ok s'" using parts assms(2)
    by (cases "pcm s") (auto simp: main10_def output_ok_def control_ok_def is_sum_def split: if_splits)
  show "sum_ok s'" using parts assms(2)
    by (cases "pcm s") (auto simp: main10_def sum_ok_def control_ok_def split: if_splits)
qed

lemma act10_inv: "inv10 s \<Longrightarrow> act10 destroy mid a s = Some s' \<Longrightarrow> inv10 s'"
proof (cases a)
  case (T1 self ok)
  assume "inv10 s" "act10 destroy mid a s = Some s'"
  with step1 [of s self ok s'] T1 show ?thesis unfolding inv10_def [of s'] by (simp split: if_splits)
next
  case (T2 self)
  assume "inv10 s" "act10 destroy mid a s = Some s'"
  with step2 [of s self s'] T2 show ?thesis unfolding inv10_def [of s'] by (simp split: if_splits)
next
  case Wake
  assume "inv10 s" "act10 destroy mid a s = Some s'"
  with wake_step [of s s'] Wake show ?thesis by (simp split: if_splits)
next
  case (TMain ok)
  assume "inv10 s" "act10 destroy mid a s = Some s'"
  with main_step [of s destroy mid ok s'] TMain show ?thesis unfolding inv10_def [of s'] by (simp split: if_splits)
qed

section \<open>Every schedule\<close>

fun size1 :: "pc1 \<Rightarrow> nat" where
  "size1 A1none = 17" | "size1 A1say = 16" | "size1 A1lock = 15" | "size1 (A1write i) = 14 - i" | "size1 A1tell = 4"
| "size1 A1signal = 3" | "size1 A1unlock = 2" | "size1 A1end = 1" | "size1 A1done = 0"

fun size2 :: "pc2 \<Rightarrow> nat" where
  "size2 B2none = 18" | "size2 B2say = 17" | "size2 B2wait = 16" | "size2 B2waiting = 15" | "size2 B2relock = 14"
| "size2 B2say2 = 13" | "size2 (B2read i) = 12 - i" | "size2 B2end = 2" | "size2 B2sum = 1" | "size2 B2done = 0"

fun sizem :: "pcm \<Rightarrow> nat" where
  "sizem MC1 = 5" | "sizem MC2 = 4" | "sizem MJ1 = 3" | "sizem MJ2 = 2" | "sizem MEnd = 1" | "sizem MDone = 0"

definition size10 :: "t10 \<Rightarrow> nat" where
  "size10 s = (if exit10 s \<or> undef10 s then 0 else 1 + size1 (pc1 s) + size2 (pc2 s) + sizem (pcm s))"

text \<open>Nothing can happen but a wake-up without a signal.\<close>

definition resting :: "t10 \<Rightarrow> bool" where
  "resting s \<longleftrightarrow> stopped10 s \<or>
     pc1 s = A1done \<and> pc2 s = B2waiting \<and> pcm s = MJ2 \<or>
     pc1 s = A1lock \<and> locked10 s \<and> pc2 s = B2done \<and> pcm s = MJ1 \<and> spurious10 s"

lemma size10_less: "inv10 s \<Longrightarrow> act10 destroy mid a s = Some s' \<Longrightarrow> size10 s' < size10 s"
proof (cases a)
  case (T1 self ok)
  assume "inv10 s" and a: "act10 destroy mid a s = Some s'"
  then have b: "\<And>i. pc1 s = A1write i \<Longrightarrow> i < 10" by (simp add: inv10_def array_ok_def)
  from a T1 have t: "thread1_10 self ok s = Some s'" "\<not> exit10 s" "\<not> undef10 s" by (auto simp: stopped10_def split: if_splits)
  show ?thesis
  proof (cases "pc1 s")
    case (A1write i)
    with b t show ?thesis by (auto simp: thread1_10_def size10_def split: if_splits)
  qed (use t in \<open>auto simp: thread1_10_def size10_def split: if_splits\<close>)
next
  case (T2 self)
  assume "inv10 s" and a: "act10 destroy mid a s = Some s'"
  then have b: "\<And>i. pc2 s = B2read i \<Longrightarrow> i < 10" by (simp add: inv10_def array_ok_def)
  from a T2 have t: "thread2_10 self s = Some s'" "\<not> exit10 s" "\<not> undef10 s" by (auto simp: stopped10_def split: if_splits)
  show ?thesis
  proof (cases "pc2 s")
    case (B2read i)
    with b t show ?thesis by (auto simp: thread2_10_def size10_def split: if_splits)
  qed (use t in \<open>auto simp: thread2_10_def size10_def split: if_splits\<close>)
next
  case Wake
  assume "act10 destroy mid a s = Some s'"
  with Wake show ?thesis by (auto simp: wake10_def size10_def stopped10_def split: if_splits)
next
  case (TMain ok)
  assume inv: "inv10 s" and a: "act10 destroy mid a s = Some s'"
  from a TMain have t: "main10 destroy mid ok s = Some s'" "\<not> exit10 s" "\<not> undef10 s" by (auto simp: stopped10_def split: if_splits)
  have c: "pc1 s = A1none \<longleftrightarrow> pcm s = MC1" "pc2 s = B2none \<longleftrightarrow> started10 (pcm s) < 2"
    using inv by (simp_all add: inv10_def control_ok_def)
  show ?thesis using t c by (cases "pcm s") (auto simp: main10_def size10_def split: if_splits)
qed

lemma resting10: 
  assumes inv: "inv10 s" and nr: "\<not> resting s"
  shows "\<exists>a s'. a \<noteq> Wake \<and> act10 destroy mid a s = Some s'"
proof -
  have ns: "\<not> stopped10 s" using nr by (simp add: resting_def)
  note parts = inv [unfolded inv10_def]
  have m: "\<exists>a s'. a \<noteq> Wake \<and> act10 destroy mid a s = Some s'" if "main10 destroy mid True s \<noteq> None"
    using that ns by (intro exI [of _ "TMain True"]) auto
  have t1: "\<exists>a s'. a \<noteq> Wake \<and> act10 destroy mid a s = Some s'" if "thread1_10 0 True s \<noteq> None"
    using that ns by (intro exI [of _ "T1 0 True"]) auto
  have t2: "\<exists>a s'. a \<noteq> Wake \<and> act10 destroy mid a s = Some s'" if "thread2_10 0 s \<noteq> None"
    using that ns by (intro exI [of _ "T2 0"]) auto
  have w1: "thread1_10 0 True s \<noteq> None" if "pc1 s \<notin> {A1none, A1done}" "\<not> (pc1 s = A1lock \<and> locked10 s)"
    using that parts by (cases "pc1 s") (auto simp: thread1_10_def array_ok_def)
  have w2: "thread2_10 0 s \<noteq> None" if "pc2 s \<notin> {B2none, B2done, B2waiting}" "\<not> (pc2 s = B2relock \<and> locked10 s)"
    using that parts by (cases "pc2 s") (auto simp: thread2_10_def array_ok_def)
  have relock: "pc1 s \<notin> {A1none, A1done, A1lock}" if "pc2 s = B2relock" "locked10 s"
    using parts that by (auto simp: lock_ok_def)
  show ?thesis
  proof (cases "pcm s = MJ1 \<or> pcm s = MJ2")
    case False
    then have "main10 destroy mid True s \<noteq> None" using ns by (cases "pcm s") (auto simp: main10_def stopped10_def)
    then show ?thesis by (rule m)
  next
    case True
    then have st: "pc1 s \<noteq> A1none" "pc2 s \<noteq> B2none" using parts by (auto simp: control_ok_def)
    consider (one) "pc1 s \<noteq> A1done" "\<not> (pc1 s = A1lock \<and> locked10 s)" | (blocked) "pc1 s = A1lock" "locked10 s" | (fin) "pc1 s = A1done"
      by blast
    then show ?thesis
    proof cases
      case one
      with st w1 show ?thesis by (intro t1) auto
    next
      case blocked
      then have held: "woken (pc2 s)" "pc2 s \<noteq> B2relock" using parts by (auto simp: lock_ok_def)
      have sp: "spurious10 s" using parts held(1) blocked(1) by (auto simp: sum_ok_def)
      have "pcm s = MJ1" using True parts blocked(1) by (auto simp: control_ok_def)
      with nr blocked sp have "pc2 s \<noteq> B2done" by (auto simp: resting_def)
      moreover have "pc2 s \<noteq> B2waiting" using held(1) by auto
      ultimately show ?thesis using held st w2 by (intro t2) auto
    next
      case fin
      show ?thesis
      proof (cases "pcm s = MJ1")
        case True
        with fin have "main10 destroy mid True s \<noteq> None" by (simp add: main10_def)
        then show ?thesis by (rule m)
      next
        case False
        with \<open>pcm s = MJ1 \<or> pcm s = MJ2\<close> have mj: "pcm s = MJ2" by blast
        show ?thesis
        proof (cases "pc2 s = B2done")
          case True
          with mj have "main10 destroy mid True s \<noteq> None" by (simp add: main10_def)
          then show ?thesis by (rule m)
        next
          case False
          have "pc2 s \<noteq> B2waiting" using nr mj fin by (simp add: resting_def)
          with False st w2 relock fin show ?thesis by (intro t2) auto
        qed
      qed
    qed
  qed
qed

interpretation sum10: bounded_protocol "act10 destroy mid" "\<lambda>s. \<exists>w. length w = 10 \<and> s = start10 mid w" inv10 size10 resting "\<lambda>_. 0"
  for destroy mid
proof unfold_locales
  fix s s' a
  show "\<exists>w. length w = 10 \<and> s = start10 mid w \<Longrightarrow> inv10 s" by (auto intro: inv10_start)
  show "inv10 s \<Longrightarrow> act10 destroy mid a s = Some s' \<Longrightarrow> inv10 s'" by (rule act10_inv)
  show "inv10 s \<Longrightarrow> act10 destroy mid a s = Some s' \<Longrightarrow> Suc (size10 s') \<le> size10 s + 0" using size10_less by fastforce
  show "inv10 s \<Longrightarrow> \<not> resting s \<Longrightarrow> \<exists>a s'. act10 destroy mid a s = Some s' \<and> 0 = (0 :: nat)" using resting10 by blast
qed

text \<open>
  C24: \<^verbatim>\<open>thread10.c\<close> and \<^verbatim>\<open>thread11.c\<close>: every schedule ends after at most 41 steps. It comes to rest only when
  the program has ended, or when the signal was sent before the second thread waited for it, which then
  waits for ever, or when the second thread woke up without a signal and has kept the mutex that the first
  one still needs. A program that has ended normally has printed one sum, and the sum is 45 unless the thread woke up
  without a signal.
\<close>

theorem thread10_sum:
  assumes s0: "s0 = thread10_start mid \<and> \<not> destroy \<or> thread11_start mid (Some w) = Inr s0 \<and> length w = 10 \<and> destroy"
    and r: "run (act10 destroy mid) as s0 = Some s"
  shows "length as \<le> 41 \<and> ((\<forall>a. a \<noteq> Wake \<longrightarrow> act10 destroy mid a s = None) \<longrightarrow> resting s) \<and>
    (pcm s = MDone \<longrightarrow> filter is_sum (out10 s) = [sum_line (summe s)] \<and> (\<not> spurious10 s \<longrightarrow> summe s = 45))"
proof -
  have "\<exists>w. length w = 10 \<and> s0 = start10 mid w"
    using s0 unfolding thread10_start_def thread11_start_def by (metis Inr_inject length_replicate option.simps(5))
  then obtain w where w: "length w = 10" "s0 = start10 mid w" by blast
  have i0: "inv10 s0" using w inv10_start by simp
  have inv: "inv10 s" by (rule sum10.run_keeps [OF i0 r])
  have "size10 s0 = 41" by (simp add: w(2) start10_def size10_def)
  with sum10.run_paid [OF i0 r] have "length as \<le> 41" by (simp add: sum_list_0)
  moreover have "resting s" if "\<forall>a. a \<noteq> Wake \<longrightarrow> act10 destroy mid a s = None"
    using resting10 [OF inv, of destroy mid] that by (metis option.distinct(1))
  moreover have "filter is_sum (out10 s) = [sum_line (summe s)] \<and> (\<not> spurious10 s \<longrightarrow> summe s = 45)" if "pcm s = MDone"
  proof -
    have b: "pc2 s = B2done" using inv that by (simp add: inv10_def control_ok_def)
    with inv sum_to_ten show ?thesis by (simp add: inv10_def output_ok_def sum_ok_def)
  qed
  ultimately show ?thesis by blast
qed

theorem thread10_sum_witness:
  "\<exists>s. run (act10 False 9) ([TMain True, TMain True, T2 11, T2 11] @ replicate 16 (T1 10 True) @ replicate 14 (T2 11) @ replicate 3 (TMain True))
      (thread10_start 9) = Some s \<and> filter is_sum (out10 s) = [sum_line 45]"
proof -
  define sched where "sched = [TMain True, TMain True, T2 11, T2 11] @ replicate 16 (T1 10 True) @ replicate 14 (T2 11) @ replicate 3 (TMain True)"
  define r where "r = run (act10 False 9) sched (thread10_start 9)"
  have "r \<noteq> None" "pcm (the r) = MDone" "\<not> spurious10 (the r)"
    unfolding r_def sched_def by code_simp+
  then obtain s where s: "r = Some s" "pcm s = MDone" "\<not> spurious10 s" by auto
  from thread10_sum [of "thread10_start 9" 9 False "[]" sched s] s
  have "filter is_sum (out10 s) = [sum_line 45]" unfolding r_def by simp
  with s(1) show ?thesis unfolding r_def sched_def by blast
qed

text \<open>The signal is lost when the first thread is faster, whatever it does to be slower (it only sleeps).\<close>

lemma thread10_lost_signal:
  "leads (act10 False 9) ([TMain True, TMain True] @ replicate 16 (T1 10 True) @ [TMain True, T2 11, T2 11]) (thread10_start 9)
     (\<lambda>s. pc2 s = B2waiting \<and> pc1 s = A1done \<and> \<not> stopped10 s)"
  by code_simp

text \<open>A wake-up without a signal before the array is filled: the sum is 0 and the first thread waits for ever.\<close>

lemma thread10_early_wake:
  "leads (act10 False 9) ([TMain True, TMain True, T1 10 True, T2 11, T2 11, Wake] @ replicate 14 (T2 11)) (thread10_start 9)
     (\<lambda>s. summe s = 0 \<and> pc2 s = B2done \<and> act10 False 9 (T1 10 True) s = None \<and> pc1 s = A1lock)"
  by code_simp

text \<open>In \<^verbatim>\<open>thread11.c\<close> the usual order of events destroys a mutex that is locked.\<close>

lemma thread11_destroys_locked:
  "leads (act10 True 9) ([TMain True, TMain True, T2 11, T2 11] @ replicate 16 (T1 10 True) @ replicate 14 (T2 11) @ replicate 3 (TMain True))
     (start10 9 (replicate 10 7)) undef10"
  by code_simp

end
