(* ===== verification/ThreadCancel.thy ===== *)
theory ThreadCancel
  imports Pthread
begin

text \<open>
  Cancellation of threads, \<^verbatim>\<open>src/10_Threads/thread14.c\<close> and \<^verbatim>\<open>thread15.c\<close>. A request to cancel a thread
  stays pending until the thread comes to a cancellation point with cancellation enabled: \<^verbatim>\<open>sleep\<close> is one,
  \<^verbatim>\<open>printf\<close> may be one, as the step decides.
\<close>

section \<open>\<^verbatim>\<open>thread15.c\<close>\<close>

text \<open>
  The critical section is the output and \<^verbatim>\<open>sleep(5)\<close>, the work that must not be interrupted; \<open>slept15\<close>
  records that the \<^verbatim>\<open>sleep\<close> has returned, so that the section is complete.
\<close>

datatype p15 = Pnone | Pdisable | Pcritical | Psleep | Prestore | Pafter | Pended | Pcanceled
datatype m15 = Mcreate15 | Mcancel15 | Mjoin15 | Mtest15 | Mbye15 | Mexit15 int

record t15 =
  p15 :: p15
  enabled15 :: bool
  oldstate15 :: bool
  pending15 :: bool
  slept15 :: bool
  m15 :: m15
  out15 :: "say list"

definition fehler15 :: say where
  "fehler15 = Out ''Fehler bei pthread_setcancelstate()\<newline>''"

definition critical_line :: "int \<Rightarrow> say" where
  "critical_line self = Out (''Thread '' @ show_int self @ '' im kritischen Abschnitt\<newline>'')"

definition after_line :: "int \<Rightarrow> say" where
  "after_line self = Out (TAB # ''->Thread '' @ show_int self @ '' nach kritischem Abschnitt\<newline>'')"

definition hello15 :: "int \<Rightarrow> say" where
  "hello15 mid = Out (''\<newline>-> Main-Thread gestartet (ID:'' @ show_int mid @ '')\<newline>'')"

definition bye15 :: "int \<Rightarrow> say" where
  "bye15 mid = Out (''<- Main-Thread beendet (ID:'' @ show_int mid @ '')\<newline>'')"

definition canceled_here :: "bool \<Rightarrow> t15 \<Rightarrow> bool" where
  "canceled_here point s \<longleftrightarrow> point \<and> enabled15 s \<and> pending15 s"

text \<open>\<^verbatim>\<open>cancel_test\<close>: \<open>ok\<close> is the success of \<^verbatim>\<open>pthread_setcancelstate\<close>, \<open>point\<close> whether \<^verbatim>\<open>printf\<close> is a cancellation point.\<close>

definition cancel_test15 :: "int \<Rightarrow> bool \<Rightarrow> bool \<Rightarrow> t15 \<Rightarrow> t15 option" where
  "cancel_test15 self ok point s =
     (case p15 s of
        Pdisable \<Rightarrow> Some (if ok then s\<lparr>oldstate15 := enabled15 s, enabled15 := False, p15 := Pcritical\<rparr>
          else s\<lparr>out15 := out15 s @ [fehler15], m15 := Mexit15 EXIT_FAILURE\<rparr>)
      | Pcritical \<Rightarrow> Some (if canceled_here point s then s\<lparr>p15 := Pcanceled\<rparr>
          else s\<lparr>out15 := out15 s @ [critical_line self], p15 := Psleep\<rparr>)
      | Psleep \<Rightarrow> Some (if canceled_here True s then s\<lparr>p15 := Pcanceled\<rparr> else s\<lparr>slept15 := True, p15 := Prestore\<rparr>)
      | Prestore \<Rightarrow> Some (if ok then s\<lparr>enabled15 := oldstate15 s, p15 := Pafter\<rparr>
          else s\<lparr>out15 := out15 s @ [fehler15], m15 := Mexit15 EXIT_FAILURE\<rparr>)
      | Pafter \<Rightarrow> Some (if canceled_here point s then s\<lparr>p15 := Pcanceled\<rparr>
          else s\<lparr>out15 := out15 s @ [after_line self], p15 := Pended\<rparr>)
      | _ \<Rightarrow> None)"

definition thread15_main :: "int \<Rightarrow> bool \<Rightarrow> t15 \<Rightarrow> t15 option" where
  "thread15_main mid ok s =
     (case m15 s of
        Mcreate15 \<Rightarrow> Some (if ok then s\<lparr>p15 := Pdisable, m15 := Mcancel15\<rparr>
          else s\<lparr>out15 := out15 s @ [fehler15], m15 := Mexit15 EXIT_FAILURE\<rparr>)
      | Mcancel15 \<Rightarrow> Some (s\<lparr>pending15 := True, m15 := Mjoin15\<rparr>)
      | Mjoin15 \<Rightarrow> (if p15 s = Pended \<or> p15 s = Pcanceled then Some (s\<lparr>m15 := Mtest15\<rparr>) else None)
      | Mtest15 \<Rightarrow> Some (if p15 s = Pcanceled then s\<lparr>out15 := out15 s @ [fehler15], m15 := Mexit15 EXIT_FAILURE\<rparr>
          else s\<lparr>m15 := Mbye15\<rparr>)
      | Mbye15 \<Rightarrow> Some (s\<lparr>out15 := out15 s @ [bye15 mid], m15 := Mexit15 EXIT_SUCCESS\<rparr>)
      | Mexit15 c \<Rightarrow> None)"

definition thread15_start :: "int \<Rightarrow> t15" where
  "thread15_start mid =
     \<lparr>p15 = Pnone, enabled15 = True, oldstate15 = False, pending15 = False, slept15 = False,
      m15 = Mcreate15, out15 = [hello15 mid]\<rparr>"

datatype step15 = Test15 bool bool | Main15 bool

fun act15 :: "int \<Rightarrow> int \<Rightarrow> step15 \<Rightarrow> t15 \<Rightarrow> t15 option" where
  "act15 mid self (Test15 ok point) s = (case m15 s of Mexit15 c \<Rightarrow> None | _ \<Rightarrow> cancel_test15 self ok point s)"
| "act15 mid self (Main15 ok) s = thread15_main mid ok s"

fun rank_p15 :: "p15 \<Rightarrow> nat" where
  "rank_p15 Pnone = 6" | "rank_p15 Pdisable = 5" | "rank_p15 Pcritical = 4" | "rank_p15 Psleep = 3" | "rank_p15 Prestore = 2"
| "rank_p15 Pafter = 1" | "rank_p15 Pended = 0" | "rank_p15 Pcanceled = 0"

fun rank_m15 :: "m15 \<Rightarrow> nat" where
  "rank_m15 Mcreate15 = 5" | "rank_m15 Mcancel15 = 4" | "rank_m15 Mjoin15 = 3" | "rank_m15 Mtest15 = 2" | "rank_m15 Mbye15 = 1"
| "rank_m15 (Mexit15 c) = 0"

definition size15 :: "t15 \<Rightarrow> nat" where
  "size15 s = rank_p15 (p15 s) + rank_m15 (m15 s)"

definition over15 :: "t15 \<Rightarrow> bool" where
  "over15 s \<longleftrightarrow> (case m15 s of Mexit15 c \<Rightarrow> True | _ \<Rightarrow> False)"

text \<open>What has been printed when the thread is at its place: it is never cancelled in its critical section.\<close>

definition said15 :: "int \<Rightarrow> p15 \<Rightarrow> say list" where
  "said15 self p =
     (case p of Pnone \<Rightarrow> [] | Pdisable \<Rightarrow> [] | Pcritical \<Rightarrow> [] | Pended \<Rightarrow> [critical_line self, after_line self] | _ \<Rightarrow> [critical_line self])"

definition inv15 :: "int \<Rightarrow> int \<Rightarrow> t15 \<Rightarrow> bool" where
  "inv15 mid self s \<longleftrightarrow>
     (slept15 s \<longleftrightarrow> p15 s \<in> {Prestore, Pafter, Pended, Pcanceled}) \<and> (p15 s = Pcanceled \<longrightarrow> enabled15 s \<and> pending15 s) \<and>
     (p15 s \<in> {Pcritical, Psleep, Prestore} \<longrightarrow> \<not> enabled15 s \<and> oldstate15 s) \<and> (p15 s \<in> {Pnone, Pdisable, Pafter} \<longrightarrow> enabled15 s) \<and>
     (case m15 s of
        Mcreate15 \<Rightarrow> p15 s = Pnone \<and> \<not> pending15 s \<and> out15 s = [hello15 mid]
      | Mcancel15 \<Rightarrow> p15 s \<notin> {Pnone, Pcanceled} \<and> \<not> pending15 s \<and> out15 s = hello15 mid # said15 self (p15 s)
      | Mjoin15 \<Rightarrow> p15 s \<noteq> Pnone \<and> out15 s = hello15 mid # said15 self (p15 s)
      | Mtest15 \<Rightarrow> p15 s \<in> {Pended, Pcanceled} \<and> out15 s = hello15 mid # said15 self (p15 s)
      | Mbye15 \<Rightarrow> p15 s = Pended \<and> out15 s = hello15 mid # said15 self (p15 s)
      | Mexit15 c \<Rightarrow>
          c = EXIT_SUCCESS \<and> p15 s = Pended \<and> out15 s = [hello15 mid, critical_line self, after_line self, bye15 mid] \<or>
          c = EXIT_FAILURE \<and> p15 s \<in> {Pnone, Pdisable} \<and> out15 s = [hello15 mid, fehler15] \<or>
          c = EXIT_FAILURE \<and> p15 s \<in> {Prestore, Pcanceled} \<and> out15 s = [hello15 mid, critical_line self, fehler15])"

lemma test15_inv:
  assumes "inv15 mid self s" and "\<not> over15 s" and "cancel_test15 self ok point s = Some s'"
  shows "inv15 mid self s' \<and> size15 s' < size15 s"
proof (cases "p15 s")
  case Pdisable
  with assms show ?thesis
    by (cases "m15 s") (auto simp: cancel_test15_def inv15_def said15_def size15_def over15_def split: if_splits)
next
  case Pcritical
  with assms show ?thesis
    by (cases "m15 s") (auto simp: cancel_test15_def canceled_here_def inv15_def said15_def size15_def over15_def split: if_splits)
next
  case Psleep
  with assms show ?thesis
    by (cases "m15 s") (auto simp: cancel_test15_def canceled_here_def inv15_def said15_def size15_def over15_def split: if_splits)
next
  case Prestore
  with assms show ?thesis
    by (cases "m15 s") (auto simp: cancel_test15_def inv15_def said15_def size15_def over15_def split: if_splits)
next
  case Pafter
  with assms show ?thesis
    by (cases "m15 s") (auto simp: cancel_test15_def canceled_here_def inv15_def said15_def size15_def over15_def split: if_splits)
qed (use assms in \<open>auto simp: cancel_test15_def\<close>)

lemma main15_inv:
  assumes "inv15 mid self s" and "thread15_main mid ok s = Some s'"
  shows "inv15 mid self s' \<and> size15 s' < size15 s"
proof (cases "m15 s")
  case Mcreate15
  with assms show ?thesis by (auto simp: thread15_main_def inv15_def said15_def size15_def split: if_splits)
next
  case Mcancel15
  with assms(2) have "s' = s\<lparr>pending15 := True, m15 := Mjoin15\<rparr>" by (simp add: thread15_main_def)
  with Mcancel15 assms(1) show ?thesis by (simp add: inv15_def size15_def)
next
  case Mjoin15
  with assms(2) have "s' = s\<lparr>m15 := Mtest15\<rparr>" "p15 s \<in> {Pended, Pcanceled}" by (auto simp: thread15_main_def split: if_splits)
  with Mjoin15 assms(1) show ?thesis by (auto simp: inv15_def size15_def said15_def)
next
  case Mtest15
  with assms show ?thesis by (auto simp: thread15_main_def inv15_def said15_def size15_def split: if_splits)
next
  case Mbye15
  with assms(2) have "s' = s\<lparr>out15 := out15 s @ [bye15 mid], m15 := Mexit15 EXIT_SUCCESS\<rparr>" by (simp add: thread15_main_def)
  with Mbye15 assms(1) show ?thesis by (simp add: inv15_def size15_def said15_def)
qed (use assms in \<open>simp add: thread15_main_def\<close>)

lemma act15_inv:
  assumes "inv15 mid self s" and "act15 mid self a s = Some s'"
  shows "inv15 mid self s' \<and> size15 s' < size15 s"
proof (cases a)
  case (Test15 ok point)
  with assms(2) have "\<not> over15 s" "cancel_test15 self ok point s = Some s'" by (auto simp: over15_def split: m15.splits)
  with test15_inv [OF assms(1)] show ?thesis by blast
next
  case (Main15 ok)
  with assms main15_inv show ?thesis by auto
qed

lemma progress15:
  assumes "inv15 mid self s" and "\<not> over15 s"
  shows "\<exists>a s'. act15 mid self a s = Some s'"
proof -
  have m: "\<exists>a s'. act15 mid self a s = Some s'" if "thread15_main mid True s \<noteq> None"
    using that by (intro exI [of _ "Main15 True"]) auto
  show ?thesis
  proof (cases "m15 s = Mjoin15 \<and> p15 s \<notin> {Pended, Pcanceled}")
    case True
    then have "p15 s \<noteq> Pnone" using assms(1) by (auto simp: inv15_def)
    with True have "cancel_test15 self True True s \<noteq> None" by (cases "p15 s") (auto simp: cancel_test15_def)
    with True show ?thesis by (intro exI [of _ "Test15 True True"]) auto
  next
    case False
    then have "thread15_main mid True s \<noteq> None" using assms(2) by (cases "m15 s") (auto simp: thread15_main_def over15_def)
    then show ?thesis by (rule m)
  qed
qed

interpretation cancel15: terminating_protocol "act15 mid self" "\<lambda>s. s = thread15_start mid" "inv15 mid self" size15 over15
  for mid self
proof unfold_locales
  fix s s' a
  show "s = thread15_start mid \<Longrightarrow> inv15 mid self s" by (simp add: inv15_def thread15_start_def)
  show "inv15 mid self s \<Longrightarrow> act15 mid self a s = Some s' \<Longrightarrow> inv15 mid self s'" by (rule act15_inv [THEN conjunct1])
  show "inv15 mid self s \<Longrightarrow> act15 mid self a s = Some s' \<Longrightarrow> size15 s' < size15 s" by (rule act15_inv [THEN conjunct2])
  show "inv15 mid self s \<Longrightarrow> \<not> over15 s \<Longrightarrow> \<exists>a s'. act15 mid self a s = Some s'" by (rule progress15)
qed

text \<open>The lines are different, whatever the threads are called.\<close>

lemma lines15: "critical_line self \<noteq> hello15 mid" "critical_line self \<noteq> fehler15" "critical_line self \<noteq> bye15 mid"
  "after_line self \<noteq> hello15 mid" "after_line self \<noteq> fehler15" "after_line self \<noteq> critical_line self" "after_line self \<noteq> bye15 mid"
  by (simp_all add: critical_line_def after_line_def hello15_def fehler15_def bye15_def)

lemma section15:
  assumes "inv15 mid self s"
  shows "critical_line self \<in> set (out15 s) \<and> \<not> slept15 s \<longrightarrow> p15 s \<noteq> Pcanceled \<and> \<not> enabled15 s \<and> \<not> over15 s"
proof (cases "p15 s \<in> {Pcritical, Psleep}")
  case True
  with assms show ?thesis by (cases "m15 s") (auto simp: inv15_def over15_def lines15)
next
  case False
  with assms show ?thesis by (cases "m15 s"; cases "p15 s") (auto simp: inv15_def over15_def said15_def lines15 [symmetric] lines15)
qed

lemma canceled15:
  assumes "inv15 mid self s"
  shows "p15 s = Pcanceled \<longrightarrow> slept15 s \<and> enabled15 s \<and> take 2 (out15 s) = [hello15 mid, critical_line self] \<and>
    after_line self \<notin> set (out15 s)"
  using assms by (cases "m15 s") (auto simp: inv15_def said15_def lines15)

lemma ended15:
  assumes "inv15 mid self s" and "over15 s"
  shows "m15 s = Mexit15 EXIT_SUCCESS \<and> p15 s = Pended \<and> slept15 s \<and>
      out15 s = [hello15 mid, critical_line self, after_line self, bye15 mid] \<or>
    m15 s = Mexit15 EXIT_FAILURE \<and> p15 s \<in> {Pnone, Pdisable} \<and> out15 s = [hello15 mid, fehler15] \<or>
    m15 s = Mexit15 EXIT_FAILURE \<and> p15 s \<in> {Prestore, Pcanceled} \<and> slept15 s \<and> out15 s = [hello15 mid, critical_line self, fehler15]"
  using assms by (cases "m15 s") (auto simp: inv15_def over15_def)

text \<open>
  C31: \<^verbatim>\<open>thread15.c\<close>: under every schedule the program ends after at most 11 steps, and in every state
  that it reaches: while the critical section (the output and \<^verbatim>\<open>sleep(5)\<close>) has been entered and not left the
  thread is not cancelled, wherever the request arrives; a thread that has been cancelled has printed the line of
  the section, slept to the end and restored the old state, and nothing else of it is printed. Once the thread
  has entered the section the program does not end before the section is complete, whatever fails. It ends with success
  exactly when the thread has also printed what comes after the section; that the request is served
  there instead is reported as a failure of another call.
\<close>

theorem thread15_protects:
  assumes "run (act15 mid self) as (thread15_start mid) = Some s"
  shows "length as \<le> 11 \<and>
    (critical_line self \<in> set (out15 s) \<and> \<not> slept15 s \<longrightarrow> p15 s \<noteq> Pcanceled \<and> \<not> enabled15 s \<and> \<not> over15 s) \<and>
    (p15 s = Pcanceled \<longrightarrow> slept15 s \<and> enabled15 s \<and> take 2 (out15 s) = [hello15 mid, critical_line self] \<and>
       after_line self \<notin> set (out15 s)) \<and>
    ((\<forall>a. act15 mid self a s = None) \<longrightarrow>
      m15 s = Mexit15 EXIT_SUCCESS \<and> p15 s = Pended \<and> slept15 s \<and>
        out15 s = [hello15 mid, critical_line self, after_line self, bye15 mid] \<or>
      m15 s = Mexit15 EXIT_FAILURE \<and> p15 s \<in> {Pnone, Pdisable} \<and> out15 s = [hello15 mid, fehler15] \<or>
      m15 s = Mexit15 EXIT_FAILURE \<and> p15 s \<in> {Prestore, Pcanceled} \<and> slept15 s \<and>
        out15 s = [hello15 mid, critical_line self, fehler15])"
proof -
  have i0: "inv15 mid self (thread15_start mid)" by (simp add: inv15_def thread15_start_def)
  have inv: "inv15 mid self s" by (rule cancel15.bounded.run_keeps [OF i0 assms])
  have "size15 (thread15_start mid) = 11" by (simp add: size15_def thread15_start_def)
  with cancel15.run_bound [OF i0 assms] have "length as \<le> 11" by simp
  moreover note section15 [OF inv] canceled15 [OF inv]
  moreover have "over15 s" if "\<forall>a. act15 mid self a s = None"
    by (rule cancel15.stuck_final [OF i0 assms]) (use that in blast)
  ultimately show ?thesis using ended15 [OF inv] by blast
qed

theorem thread15_protects_witness:
  "\<exists>s. run (act15 9 10) [Main15 True, Test15 True True, Main15 True, Test15 True True, Test15 True True, Test15 True True,
      Test15 True True, Main15 True, Main15 True] (thread15_start 9) = Some s \<and>
    m15 s = Mexit15 EXIT_FAILURE \<and> slept15 s \<and> take 2 (out15 s) = [hello15 9, critical_line 10]"
proof -
  define sched where "sched = [Main15 True, Test15 True True, Main15 True, Test15 True True, Test15 True True, Test15 True True,
      Test15 True True, Main15 True, Main15 True]"
  define r where "r = run (act15 9 10) sched (thread15_start 9)"
  have "r \<noteq> None" "m15 (the r) = Mexit15 EXIT_FAILURE" "p15 (the r) = Pcanceled"
    unfolding r_def sched_def by code_simp+
  then obtain s where s: "r = Some s" "m15 s = Mexit15 EXIT_FAILURE" "p15 s = Pcanceled" by auto
  from thread15_protects [OF s(1) [unfolded r_def]] s(3) have "slept15 s" "take 2 (out15 s) = [hello15 9, critical_line 10]" by blast+
  with s show ?thesis unfolding r_def sched_def by blast
qed

section \<open>\<^verbatim>\<open>thread14.c\<close>\<close>

datatype k14 = Knone | Ksleep | Ktest | Kcancel | Ksay | Kend | Kover | Kcanceled
datatype m14 = Mt1 | Mt2 | Mt3 | Mj1 | Mj2 | Mj3 | Mbye14 | Mret14

text \<open>
  \<open>t1_14\<close> is \<open>None\<close> before the first thread is created, then whether it has drawn the number. The second
  and the third thread have a place and a pending request each. \<open>undef14\<close>: a request to a thread that has
  not been created or has already been joined.
\<close>

record t14 =
  zufallszahl :: nat
  t1_14 :: "bool option"
  k2 :: k14
  k3 :: k14
  pend2 :: bool
  pend3 :: bool
  m14 :: m14
  undef14 :: bool
  out14 :: "say list"

definition cancels_line :: "int \<Rightarrow> int \<Rightarrow> say" where
  "cancels_line self other = Out (TAB # ''->Thread '' @ show_int self @ '' beendet thread '' @ show_int other @ ''\<newline>'')"

definition ends_line :: "int \<Rightarrow> say" where
  "ends_line self = Out (TAB # ''->Thread '' @ show_int self @ '' zu Ende\<newline>'')"

definition zufall :: "nat \<Rightarrow> t14 \<Rightarrow> t14 option" where
  "zufall rnd s = (if t1_14 s = Some False then Some (s\<lparr>zufallszahl := rnd mod 50, t1_14 := Some True\<rparr>) else None)"

text \<open>\<^verbatim>\<open>cancel_test1\<close>, the second thread; \<open>point\<close> is whether \<^verbatim>\<open>printf\<close> is a cancellation point.\<close>

definition cancel_test1 :: "int \<times> int \<Rightarrow> bool \<Rightarrow> t14 \<Rightarrow> t14 option" where
  "cancel_test1 ids point s =
     (case k2 s of
        Ksleep \<Rightarrow> Some (s\<lparr>k2 := if pend2 s then Kcanceled else Ktest\<rparr>)
      | Ktest \<Rightarrow> Some (s\<lparr>k2 := if zufallszahl s > 25 then Kcancel else Kend\<rparr>)
      | Kcancel \<Rightarrow> Some (if k3 s = Knone then s\<lparr>undef14 := True\<rparr> else s\<lparr>pend3 := True, k2 := Ksay\<rparr>)
      | Ksay \<Rightarrow> Some (if point \<and> pend2 s then s\<lparr>k2 := Kcanceled\<rparr>
          else s\<lparr>out14 := out14 s @ [cancels_line (fst ids) (snd ids)], k2 := Kend\<rparr>)
      | Kend \<Rightarrow> Some (if point \<and> pend2 s then s\<lparr>k2 := Kcanceled\<rparr> else s\<lparr>out14 := out14 s @ [ends_line (fst ids)], k2 := Kover\<rparr>)
      | _ \<Rightarrow> None)"

text \<open>\<^verbatim>\<open>cancel_test2\<close>, the third thread: the other one may already have been joined.\<close>

definition cancel_test2 :: "int \<times> int \<Rightarrow> bool \<Rightarrow> t14 \<Rightarrow> t14 option" where
  "cancel_test2 ids point s =
     (case k3 s of
        Ksleep \<Rightarrow> Some (s\<lparr>k3 := if pend3 s then Kcanceled else Ktest\<rparr>)
      | Ktest \<Rightarrow> Some (s\<lparr>k3 := if zufallszahl s \<le> 25 then Kcancel else Kend\<rparr>)
      | Kcancel \<Rightarrow> Some (if m14 s = Mj3 then s\<lparr>undef14 := True\<rparr> else s\<lparr>pend2 := True, k3 := Ksay\<rparr>)
      | Ksay \<Rightarrow> Some (if point \<and> pend3 s then s\<lparr>k3 := Kcanceled\<rparr>
          else s\<lparr>out14 := out14 s @ [cancels_line (snd ids) (fst ids)], k3 := Kend\<rparr>)
      | Kend \<Rightarrow> Some (if point \<and> pend3 s then s\<lparr>k3 := Kcanceled\<rparr> else s\<lparr>out14 := out14 s @ [ends_line (snd ids)], k3 := Kover\<rparr>)
      | _ \<Rightarrow> None)"

definition thread14_main :: "int \<Rightarrow> t14 \<Rightarrow> t14 option" where
  "thread14_main mid s =
     (case m14 s of
        Mt1 \<Rightarrow> Some (s\<lparr>t1_14 := Some False, m14 := Mt2\<rparr>)
      | Mt2 \<Rightarrow> Some (s\<lparr>k2 := Ksleep, m14 := Mt3\<rparr>)
      | Mt3 \<Rightarrow> Some (s\<lparr>k3 := Ksleep, m14 := Mj1\<rparr>)
      | Mj1 \<Rightarrow> (if t1_14 s = Some True then Some (s\<lparr>m14 := Mj2\<rparr>) else None)
      | Mj2 \<Rightarrow> (if k2 s \<in> {Kover, Kcanceled} then Some (s\<lparr>m14 := Mj3\<rparr>) else None)
      | Mj3 \<Rightarrow> (if k3 s \<in> {Kover, Kcanceled} then Some (s\<lparr>m14 := Mbye14\<rparr>) else None)
      | Mbye14 \<Rightarrow> Some (s\<lparr>out14 := out14 s @ [bye15 mid], m14 := Mret14\<rparr>)
      | Mret14 \<Rightarrow> None)"

definition thread14_start :: "int \<Rightarrow> t14" where
  "thread14_start mid =
     \<lparr>zufallszahl = 0, t1_14 = None, k2 = Knone, k3 = Knone, pend2 = False, pend3 = False, m14 = Mt1, undef14 = False,
      out14 = [hello15 mid]\<rparr>"

datatype step14 = Zufall | Test1 bool | Test2 bool | Main14

fun act14 :: "nat \<Rightarrow> int \<Rightarrow> int \<times> int \<Rightarrow> step14 \<Rightarrow> t14 \<Rightarrow> t14 option" where
  "act14 rnd mid ids Zufall s = (if undef14 s then None else zufall rnd s)"
| "act14 rnd mid ids (Test1 point) s = (if undef14 s then None else cancel_test1 ids point s)"
| "act14 rnd mid ids (Test2 point) s = (if undef14 s then None else cancel_test2 ids point s)"
| "act14 rnd mid ids Main14 s = (if undef14 s then None else thread14_main mid s)"

fun rank_k :: "k14 \<Rightarrow> nat" where
  "rank_k Knone = 6" | "rank_k Ksleep = 5" | "rank_k Ktest = 4" | "rank_k Kcancel = 3" | "rank_k Ksay = 2" | "rank_k Kend = 1"
| "rank_k Kover = 0" | "rank_k Kcanceled = 0"

fun rank_m14 :: "m14 \<Rightarrow> nat" where
  "rank_m14 Mt1 = 7" | "rank_m14 Mt2 = 6" | "rank_m14 Mt3 = 5" | "rank_m14 Mj1 = 4" | "rank_m14 Mj2 = 3" | "rank_m14 Mj3 = 2"
| "rank_m14 Mbye14 = 1" | "rank_m14 Mret14 = 0"

definition size14 :: "t14 \<Rightarrow> nat" where
  "size14 s = (if undef14 s then 0 else 1 + (case t1_14 s of None \<Rightarrow> 2 | Some False \<Rightarrow> 1 | Some True \<Rightarrow> 0) +
     rank_k (k2 s) + rank_k (k3 s) + rank_m14 (m14 s))"

definition over14 :: "t14 \<Rightarrow> bool" where
  "over14 s \<longleftrightarrow> undef14 s \<or> m14 s = Mret14"

text \<open>The number is 0 until it is drawn; the second thread cancels only when it has seen more than 25.\<close>

definition fin14 :: "k14 \<Rightarrow> bool" where
  "fin14 k \<longleftrightarrow> k = Kover \<or> k = Kcanceled"

definition num14 :: "nat \<Rightarrow> t14 \<Rightarrow> bool" where
  "num14 rnd s \<longleftrightarrow> (zufallszahl s = 0 \<or> zufallszahl s = rnd mod 50) \<and>
     (k2 s = Kcancel \<or> k2 s = Ksay \<or> pend3 s \<longrightarrow> 25 < rnd mod 50)"

definition marks14 :: "t14 \<Rightarrow> bool" where
  "marks14 s \<longleftrightarrow> (k3 s = Kcanceled \<longrightarrow> pend3 s) \<and> (k2 s = Kcanceled \<longrightarrow> pend2 s)"

definition control14 :: "t14 \<Rightarrow> bool" where
  "control14 s \<longleftrightarrow> (t1_14 s = None \<longleftrightarrow> rank_m14 (m14 s) = 7) \<and> (k2 s = Knone \<longleftrightarrow> 6 \<le> rank_m14 (m14 s)) \<and>
     (k3 s = Knone \<longleftrightarrow> 5 \<le> rank_m14 (m14 s)) \<and>
     (rank_m14 (m14 s) \<le> 2 \<longrightarrow> fin14 (k2 s)) \<and> (rank_m14 (m14 s) \<le> 1 \<longrightarrow> fin14 (k3 s))"

definition inv14 :: "nat \<Rightarrow> t14 \<Rightarrow> bool" where
  "inv14 rnd s \<longleftrightarrow> num14 rnd s \<and> marks14 s \<and> control14 s"

lemma inv14_start: "inv14 rnd (thread14_start mid)"
  by (simp add: inv14_def num14_def marks14_def control14_def thread14_start_def)

lemma test1_size: "cancel_test1 ids point s = Some s' \<Longrightarrow> \<not> undef14 s \<Longrightarrow> size14 s' < size14 s"
  by (cases "k2 s") (auto simp: cancel_test1_def size14_def split: if_splits)

lemma test1_same: "cancel_test1 ids point s = Some s' \<Longrightarrow>
    m14 s' = m14 s \<and> t1_14 s' = t1_14 s \<and> k3 s' = k3 s \<and> zufallszahl s' = zufallszahl s \<and> pend2 s' = pend2 s"
  by (cases "k2 s") (auto simp: cancel_test1_def split: if_splits)

lemma test1_place: "cancel_test1 ids point s = Some s' \<Longrightarrow>
    k2 s \<noteq> Knone \<and> \<not> fin14 (k2 s) \<and> k2 s' \<noteq> Knone \<and> (k2 s' = Kcanceled \<longrightarrow> pend2 s) \<and> (pend3 s \<longrightarrow> pend3 s')"
  by (cases "k2 s") (auto simp: cancel_test1_def fin14_def split: if_splits)

lemma test1_cancels: "cancel_test1 ids point s = Some s' \<Longrightarrow>
    (k2 s' = Kcancel \<longrightarrow> 25 < zufallszahl s \<or> k2 s = Kcancel) \<and> (k2 s' = Ksay \<longrightarrow> k2 s = Kcancel) \<and> (pend3 s' \<longrightarrow> pend3 s \<or> k2 s = Kcancel)"
  by (cases "k2 s") (auto simp: cancel_test1_def split: if_splits)

lemma test2_size: "cancel_test2 ids point s = Some s' \<Longrightarrow> \<not> undef14 s \<Longrightarrow> size14 s' < size14 s"
  by (cases "k3 s") (auto simp: cancel_test2_def size14_def split: if_splits)

lemma test2_same: "cancel_test2 ids point s = Some s' \<Longrightarrow>
    m14 s' = m14 s \<and> t1_14 s' = t1_14 s \<and> k2 s' = k2 s \<and> zufallszahl s' = zufallszahl s \<and> pend3 s' = pend3 s"
  by (cases "k3 s") (auto simp: cancel_test2_def split: if_splits)

lemma test2_place: "cancel_test2 ids point s = Some s' \<Longrightarrow>
    k3 s \<noteq> Knone \<and> \<not> fin14 (k3 s) \<and> k3 s' \<noteq> Knone \<and> (k3 s' = Kcanceled \<longrightarrow> pend3 s) \<and> (pend2 s \<longrightarrow> pend2 s')"
  by (cases "k3 s") (auto simp: cancel_test2_def fin14_def split: if_splits)

lemma test1_inv: "inv14 rnd s \<Longrightarrow> cancel_test1 ids point s = Some s' \<Longrightarrow> \<not> undef14 s \<Longrightarrow> inv14 rnd s' \<and> size14 s' < size14 s"
proof -
  assume inv: "inv14 rnd s" and e: "cancel_test1 ids point s = Some s'" "\<not> undef14 s"
  note f = test1_same [OF e(1)] test1_place [OF e(1)] test1_cancels [OF e(1)]
  have "num14 rnd s'" using inv f unfolding inv14_def num14_def by auto
  moreover have "marks14 s'" using inv f unfolding inv14_def marks14_def by auto
  moreover have "control14 s'" using inv f unfolding inv14_def control14_def by auto
  ultimately show ?thesis using test1_size [OF e] by (simp add: inv14_def)
qed

lemma test2_inv: "inv14 rnd s \<Longrightarrow> cancel_test2 ids point s = Some s' \<Longrightarrow> \<not> undef14 s \<Longrightarrow> inv14 rnd s' \<and> size14 s' < size14 s"
proof -
  assume inv: "inv14 rnd s" and e: "cancel_test2 ids point s = Some s'" "\<not> undef14 s"
  note f = test2_same [OF e(1)] test2_place [OF e(1)]
  have "num14 rnd s'" using inv f unfolding inv14_def num14_def by auto
  moreover have "marks14 s'" using inv f unfolding inv14_def marks14_def by auto
  moreover have "control14 s'" using inv f unfolding inv14_def control14_def by auto
  ultimately show ?thesis using test2_size [OF e] by (simp add: inv14_def)
qed

lemma main14_inv:
  assumes inv: "inv14 rnd s" and e: "thread14_main mid s = Some s'" "\<not> undef14 s"
  shows "inv14 rnd s' \<and> size14 s' < size14 s"
proof (cases "m14 s")
  case Mt1
  with e(1) have "s' = s\<lparr>t1_14 := Some False, m14 := Mt2\<rparr>" by (auto simp: thread14_main_def fin14_def split: if_splits)
  with Mt1 e(2) inv show ?thesis by (auto simp: inv14_def num14_def marks14_def control14_def size14_def fin14_def)
next
  case Mt2
  with e(1) have "s' = s\<lparr>k2 := Ksleep, m14 := Mt3\<rparr>" by (auto simp: thread14_main_def fin14_def split: if_splits)
  with Mt2 e(2) inv show ?thesis by (auto simp: inv14_def num14_def marks14_def control14_def size14_def fin14_def)
next
  case Mt3
  with e(1) have "s' = s\<lparr>k3 := Ksleep, m14 := Mj1\<rparr>" by (auto simp: thread14_main_def fin14_def split: if_splits)
  with Mt3 e(2) inv show ?thesis by (auto simp: inv14_def num14_def marks14_def control14_def size14_def fin14_def)
next
  case Mj1
  with e(1) have "s' = s\<lparr>m14 := Mj2\<rparr>" by (auto simp: thread14_main_def fin14_def split: if_splits)
  with Mj1 e(2) inv show ?thesis by (auto simp: inv14_def num14_def marks14_def control14_def size14_def fin14_def)
next
  case Mj2
  with e(1) have "s' = s\<lparr>m14 := Mj3\<rparr>" "fin14 (k2 s)" by (auto simp: thread14_main_def fin14_def split: if_splits)
  with Mj2 e(2) inv show ?thesis by (auto simp: inv14_def num14_def marks14_def control14_def size14_def fin14_def)
next
  case Mj3
  with e(1) have "s' = s\<lparr>m14 := Mbye14\<rparr>" "fin14 (k3 s)" by (auto simp: thread14_main_def fin14_def split: if_splits)
  with Mj3 e(2) inv show ?thesis by (auto simp: inv14_def num14_def marks14_def control14_def size14_def fin14_def)
next
  case Mbye14
  with e(1) have "s' = s\<lparr>out14 := out14 s @ [bye15 mid], m14 := Mret14\<rparr>" by (auto simp: thread14_main_def fin14_def split: if_splits)
  with Mbye14 e(2) inv show ?thesis by (auto simp: inv14_def num14_def marks14_def control14_def size14_def fin14_def)
qed (use e in \<open>simp add: thread14_main_def\<close>)

lemma zufall_inv:
  assumes inv: "inv14 rnd s" and e: "zufall rnd s = Some s'" "\<not> undef14 s"
  shows "inv14 rnd s' \<and> size14 s' < size14 s"
proof -
  have s': "s' = s\<lparr>zufallszahl := rnd mod 50, t1_14 := Some True\<rparr>" "t1_14 s = Some False" using e(1) by (simp_all add: zufall_def split: if_splits)
  have "num14 rnd s'" "marks14 s'" "control14 s'" using inv s' by (simp_all add: inv14_def num14_def marks14_def control14_def)
  then show ?thesis using s' e(2) by (simp add: inv14_def size14_def)
qed

lemma act14_inv:
  assumes inv: "inv14 rnd s" and e: "act14 rnd mid ids a s = Some s'"
  shows "inv14 rnd s' \<and> size14 s' < size14 s"
proof -
  have u: "\<not> undef14 s" using e by (cases a) (simp_all split: if_splits)
  show ?thesis
  proof (cases a)
    case Zufall
    with e u have "zufall rnd s = Some s'" by simp
    from zufall_inv [OF inv this u] show ?thesis .
  next
    case (Test1 point)
    with e u have "cancel_test1 ids point s = Some s'" by simp
    from test1_inv [OF inv this u] show ?thesis .
  next
    case (Test2 point)
    with e u have "cancel_test2 ids point s = Some s'" by simp
    from test2_inv [OF inv this u] show ?thesis .
  next
    case Main14
    with e u have "thread14_main mid s = Some s'" by simp
    from main14_inv [OF inv this u] show ?thesis .
  qed
qed

lemma progress14:
  assumes inv: "inv14 rnd s" and no: "\<not> over14 s"
  shows "\<exists>a s'. act14 rnd mid ids a s = Some s'"
proof -
  have u: "\<not> undef14 s" and r: "m14 s \<noteq> Mret14" using no by (simp_all add: over14_def)
  have c: "control14 s" using inv by (simp add: inv14_def)
  have m: ?thesis if "thread14_main mid s \<noteq> None" using that u by (intro exI [of _ Main14]) auto
  have one: ?thesis if "k2 s \<noteq> Knone" "\<not> fin14 (k2 s)"
    using that u by (intro exI [of _ "Test1 True"]) (cases "k2 s"; simp add: cancel_test1_def fin14_def)
  have two: ?thesis if "k3 s \<noteq> Knone" "\<not> fin14 (k3 s)"
    using that u by (intro exI [of _ "Test2 True"]) (cases "k3 s"; simp add: cancel_test2_def fin14_def)
  show ?thesis
  proof (cases "m14 s")
    case Mj1
    show ?thesis
    proof (cases "t1_14 s = Some True")
      case False
      with Mj1 c have "t1_14 s = Some False" by (auto simp: control14_def)
      with u show ?thesis by (intro exI [of _ Zufall]) (simp add: zufall_def)
    qed (use Mj1 m in \<open>simp add: thread14_main_def\<close>)
  next
    case Mj2
    with c have "k2 s \<noteq> Knone" by (simp add: control14_def)
    with Mj2 one m show ?thesis by (cases "fin14 (k2 s)") (auto simp: thread14_main_def fin14_def)
  next
    case Mj3
    with c have "k3 s \<noteq> Knone" by (simp add: control14_def)
    with Mj3 two m show ?thesis by (cases "fin14 (k3 s)") (auto simp: thread14_main_def fin14_def)
  qed (use m r in \<open>simp_all add: thread14_main_def\<close>)
qed

interpretation cancel14: terminating_protocol "act14 rnd mid ids" "\<lambda>s. s = thread14_start mid" "inv14 rnd" size14 over14
  for rnd mid ids
proof unfold_locales
  fix s s' a
  show "s = thread14_start mid \<Longrightarrow> inv14 rnd s" by (simp add: inv14_start)
  show "inv14 rnd s \<Longrightarrow> act14 rnd mid ids a s = Some s' \<Longrightarrow> inv14 rnd s'" by (rule act14_inv [THEN conjunct1])
  show "inv14 rnd s \<Longrightarrow> act14 rnd mid ids a s = Some s' \<Longrightarrow> size14 s' < size14 s" by (rule act14_inv [THEN conjunct2])
  show "inv14 rnd s \<Longrightarrow> \<not> over14 s \<Longrightarrow> \<exists>a s'. act14 rnd mid ids a s = Some s'" by (rule progress14)
qed

text \<open>
  \<^verbatim>\<open>thread14.c\<close>: under every schedule the program ends after at most 22 steps. The third thread is
  cancelled only when the number is above 25; and when \<^verbatim>\<open>main\<close> returns both threads have ended, each by
  itself or at a request of the other one. (Each can be cancelled by the other one in the same run, when one of them
  tests the number before it is drawn.)
\<close>

theorem thread14_cancels:
  assumes "run (act14 rnd mid ids) as (thread14_start mid) = Some s"
  shows "length as \<le> 22 \<and> ((\<forall>a. act14 rnd mid ids a s = None) \<longrightarrow> over14 s) \<and> (k3 s = Kcanceled \<longrightarrow> 25 < rnd mod 50) \<and>
    (m14 s = Mret14 \<longrightarrow> fin14 (k2 s) \<and> fin14 (k3 s))"
proof -
  have inv: "inv14 rnd s" by (rule cancel14.bounded.run_keeps [OF inv14_start assms])
  have "size14 (thread14_start mid) = 22" by (simp add: size14_def thread14_start_def)
  with cancel14.run_bound [OF inv14_start assms] have "length as \<le> 22" by simp
  moreover have "over14 s" if "\<forall>a. act14 rnd mid ids a s = None"
    by (rule cancel14.stuck_final [OF inv14_start assms]) (use that in blast)
  ultimately show ?thesis using inv by (simp add: inv14_def num14_def marks14_def control14_def)
qed

text \<open>Both are cancelled: the third thread has seen 0, the second one 49.\<close>

lemma thread14_both_cancelled:
  "leads (act14 49 9 (2, 3)) [Main14, Main14, Main14, Test2 True, Test2 True, Zufall, Test1 True, Test1 True, Test1 True, Test2 True,
      Test1 True, Test2 True] (thread14_start 9) (\<lambda>s. k2 s = Kcanceled \<and> k3 s = Kcanceled)"
  by code_simp

text \<open>The third thread asks a thread that has been joined to end.\<close>

lemma thread14_joined:
  "leads (act14 1 9 (2, 3)) ([Main14, Main14, Main14, Zufall, Main14] @ replicate 3 (Test1 True) @ [Main14] @ replicate 3 (Test2 True))
     (thread14_start 9) undef14"
  by code_simp

end
