(* ===== verification/ThreadKill.thy ===== *)
theory ThreadKill
  imports Pthread
begin

text \<open>
  Signals to threads, \<^verbatim>\<open>src/10_Threads/thread20.c\<close>. \<^verbatim>\<open>main\<close> sends two signals to the first thread, which
  then sends two to the second one; both wait with \<^verbatim>\<open>sigwait\<close> for signals that they have unblocked. A
  pending signal that is not blocked runs its handler, or ends \<^verbatim>\<open>sigwait\<close> in a thread that waits for it:
  which of the two happens is open, as \<^verbatim>\<open>sigwait\<close> is only defined for blocked signals.
\<close>

datatype sig = SIGINT | SIGUSR1

datatype main20 = Ncreate1 | Nsay1 | Ncreate2 | Nsay2 | NsayInt | NkillInt | NsayUsr | NkillUsr | Nbye | Nover

datatype one20 = Onone | Ounblock | Owait | Ogot sig | OsayInt | OkillInt | OsayUsr | OkillUsr | Ojoin | Ostatus | Oend | Oover

datatype two20 = Wnone | Wunblock | Wwait | Wgot | Wend | Wover

text \<open>
  \<open>pend1\<close> and \<open>pend2\<close> are the pending signals, \<open>open1\<close> and \<open>open2\<close> those that are not blocked. \<open>handled2\<close>: a
  handler has run in the second thread. \<open>undef20\<close>: a signal to a detached thread that has ended, or a
  thread that could not be created.
\<close>

record t20 =
  main20 :: main20
  one20 :: one20
  two20 :: two20
  pend1 :: "sig \<Rightarrow> bool"
  pend2 :: "sig \<Rightarrow> bool"
  open1 :: "sig \<Rightarrow> bool"
  open2 :: "sig \<Rightarrow> bool"
  handled2 :: bool
  undef20 :: bool
  out20 :: "(nat \<times> string) list"

definition say20 :: "nat \<Rightarrow> string \<Rightarrow> t20 \<Rightarrow> t20" where
  "say20 who t s = s\<lparr>out20 := out20 s @ [(who, t)]\<rparr>"

definition int_handler :: "int \<Rightarrow> string" where
  "int_handler self = ''SIGINT erhalten von thread: '' @ show_int self @ ''\<newline>''"

definition usr1_handler :: "int \<Rightarrow> string" where
  "usr1_handler self = ''SIGUSR1 erhalten von thread: '' @ show_int self @ ''\<newline>''"

definition end_line20 :: "int \<Rightarrow> string" where
  "end_line20 self = ''Thread '' @ show_int self @ '': wird beendet\<newline>''"

definition created_line :: "int \<Rightarrow> string" where
  "created_line t = ''Thread '' @ show_int t @ '' erzeugt\<newline>''"

definition status_line :: "int \<Rightarrow> int \<Rightarrow> string" where
  "status_line t status = ''Thread '' @ show_int t @ '': Exit-Status = '' @ show_int status @ ''\<newline>''"

text \<open>The threads' identities: \<open>mid\<close> of \<^verbatim>\<open>main\<close>, \<open>t1\<close> and \<open>t2\<close>.\<close>

definition thread20_main :: "int \<Rightarrow> int \<Rightarrow> int \<Rightarrow> bool \<Rightarrow> t20 \<Rightarrow> t20 option" where
  "thread20_main mid t1 t2 ok s =
     (case main20 s of
        Ncreate1 \<Rightarrow> Some (if ok then s\<lparr>one20 := Ounblock, main20 := Nsay1\<rparr> else s\<lparr>undef20 := True\<rparr>)
      | Nsay1 \<Rightarrow> Some (say20 0 (created_line t1) (s\<lparr>main20 := Ncreate2\<rparr>))
      | Ncreate2 \<Rightarrow> Some (if ok then s\<lparr>two20 := Wunblock, main20 := Nsay2\<rparr> else s\<lparr>undef20 := True\<rparr>)
      | Nsay2 \<Rightarrow> Some (say20 0 (created_line t2) (s\<lparr>main20 := NsayInt\<rparr>))
      | NsayInt \<Rightarrow> Some (say20 0 (''Haupt-Thread '' @ show_int mid @ '' sendet SIGINT and '' @ show_int t2 @ ''\<newline>'') (s\<lparr>main20 := NkillInt\<rparr>))
      | NkillInt \<Rightarrow> Some (if one20 s = Oover then s\<lparr>undef20 := True\<rparr> else s\<lparr>pend1 := (pend1 s)(SIGINT := True), main20 := NsayUsr\<rparr>)
      | NsayUsr \<Rightarrow> Some (say20 0 (''Haupt-Thread '' @ show_int mid @ '' sendet SIGUSR and '' @ show_int t2 @ ''\<newline>'') (s\<lparr>main20 := NkillUsr\<rparr>))
      | NkillUsr \<Rightarrow> Some (if one20 s = Oover then s\<lparr>undef20 := True\<rparr> else s\<lparr>pend1 := (pend1 s)(SIGUSR1 := True), main20 := Nbye\<rparr>)
      | Nbye \<Rightarrow> Some (say20 0 (''<- Main-Thread beendet (ID:'' @ show_int mid @ '')\<newline>'') (s\<lparr>main20 := Nover\<rparr>))
      | Nover \<Rightarrow> None)"

text \<open>\<^verbatim>\<open>thrad_1\<close>; \<open>sig\<close> is the signal that \<^verbatim>\<open>sigwait\<close> takes if there are several.\<close>

definition thrad_1 :: "int \<Rightarrow> int \<Rightarrow> sig \<Rightarrow> t20 \<Rightarrow> t20 option" where
  "thrad_1 t1 t2 sig s =
     (case one20 s of
        Ounblock \<Rightarrow> Some (s\<lparr>open1 := \<lambda>_. True, one20 := Owait\<rparr>)
      | Owait \<Rightarrow> (if pend1 s sig then Some (s\<lparr>pend1 := (pend1 s)(sig := False), one20 := Ogot sig\<rparr>) else None)
      | Ogot g \<Rightarrow> Some (if g = SIGINT then say20 1 (int_handler t1) (s\<lparr>one20 := OsayInt\<rparr>) else s\<lparr>one20 := OsayInt\<rparr>)
      | OsayInt \<Rightarrow> Some (say20 1 (''Thread '' @ show_int t1 @ '': sende SIGINT and '' @ show_int t2 @ ''\<newline>'') (s\<lparr>one20 := OkillInt\<rparr>))
      | OkillInt \<Rightarrow> Some (if two20 s = Wnone then s\<lparr>undef20 := True\<rparr> else s\<lparr>pend2 := (pend2 s)(SIGINT := True), one20 := OsayUsr\<rparr>)
      | OsayUsr \<Rightarrow> Some (say20 1 (''Thread '' @ show_int t1 @ '': sende SIGUSR1 and '' @ show_int t2 @ ''\<newline>'') (s\<lparr>one20 := OkillUsr\<rparr>))
      | OkillUsr \<Rightarrow> Some (if two20 s = Wnone then s\<lparr>undef20 := True\<rparr> else s\<lparr>pend2 := (pend2 s)(SIGUSR1 := True), one20 := Ojoin\<rparr>)
      | Ojoin \<Rightarrow> (if two20 s = Wover then Some (s\<lparr>one20 := Ostatus\<rparr>) else None)
      | Ostatus \<Rightarrow> Some (say20 1 (status_line t2 99) (s\<lparr>one20 := Oend\<rparr>))
      | Oend \<Rightarrow> Some (say20 1 (end_line20 t1) (s\<lparr>one20 := Oover\<rparr>))
      | _ \<Rightarrow> None)"

definition thread_2 :: "int \<Rightarrow> t20 \<Rightarrow> t20 option" where
  "thread_2 t2 s =
     (case two20 s of
        Wunblock \<Rightarrow> Some (s\<lparr>open2 := (open2 s)(SIGUSR1 := True), two20 := Wwait\<rparr>)
      | Wwait \<Rightarrow> (if pend2 s SIGUSR1 then Some (s\<lparr>pend2 := (pend2 s)(SIGUSR1 := False), two20 := Wgot\<rparr>) else None)
      | Wgot \<Rightarrow> Some (say20 2 (usr1_handler t2) (s\<lparr>two20 := Wend\<rparr>))
      | Wend \<Rightarrow> Some (say20 2 (end_line20 t2) (s\<lparr>two20 := Wover\<rparr>))
      | _ \<Rightarrow> None)"

definition handler_line :: "sig \<Rightarrow> int \<Rightarrow> string" where
  "handler_line sig self = (case sig of SIGINT \<Rightarrow> int_handler self | SIGUSR1 \<Rightarrow> usr1_handler self)"

text \<open>A handler runs: the pending signal is delivered to a thread that has not ended and does not block it.\<close>

definition deliver1 :: "int \<Rightarrow> sig \<Rightarrow> t20 \<Rightarrow> t20 option" where
  "deliver1 t1 sig s = (if pend1 s sig \<and> open1 s sig \<and> one20 s \<noteq> Oover
     then Some (say20 1 (handler_line sig t1) (s\<lparr>pend1 := (pend1 s)(sig := False)\<rparr>)) else None)"

definition deliver2 :: "int \<Rightarrow> sig \<Rightarrow> t20 \<Rightarrow> t20 option" where
  "deliver2 t2 sig s = (if pend2 s sig \<and> open2 s sig \<and> two20 s \<noteq> Wover
     then Some (say20 2 (handler_line sig t2) (s\<lparr>pend2 := (pend2 s)(sig := False), handled2 := True\<rparr>)) else None)"

definition thread20_start :: "int \<Rightarrow> t20" where
  "thread20_start mid =
     \<lparr>main20 = Ncreate1, one20 = Onone, two20 = Wnone, pend1 = \<lambda>_. False, pend2 = \<lambda>_. False, open1 = \<lambda>_. False, open2 = \<lambda>_. False,
      handled2 = False, undef20 = False, out20 = [(0, ''\<newline>-> Main-Thread gestartet (ID:'' @ show_int mid @ '')\<newline>'')]\<rparr>"

datatype step20 = Main20 bool | One20 sig | Two20 | Deliver1 sig | Deliver2 sig

fun act20 :: "int \<Rightarrow> int \<Rightarrow> int \<Rightarrow> step20 \<Rightarrow> t20 \<Rightarrow> t20 option" where
  "act20 mid t1 t2 (Main20 ok) s = (if undef20 s then None else thread20_main mid t1 t2 ok s)"
| "act20 mid t1 t2 (One20 sig) s = (if undef20 s then None else thrad_1 t1 t2 sig s)"
| "act20 mid t1 t2 Two20 s = (if undef20 s then None else thread_2 t2 s)"
| "act20 mid t1 t2 (Deliver1 sig) s = (if undef20 s then None else deliver1 t1 sig s)"
| "act20 mid t1 t2 (Deliver2 sig) s = (if undef20 s then None else deliver2 t2 sig s)"

section \<open>What is left to do\<close>

fun rank_main :: "main20 \<Rightarrow> nat" where
  "rank_main Ncreate1 = 11" | "rank_main Nsay1 = 10" | "rank_main Ncreate2 = 9" | "rank_main Nsay2 = 8" | "rank_main NsayInt = 7"
| "rank_main NkillInt = 6" | "rank_main NsayUsr = 4" | "rank_main NkillUsr = 3" | "rank_main Nbye = 1" | "rank_main Nover = 0"

fun rank_one :: "one20 \<Rightarrow> nat" where
  "rank_one Onone = 13" | "rank_one Ounblock = 12" | "rank_one Owait = 11" | "rank_one (Ogot sig) = 10" | "rank_one OsayInt = 9"
| "rank_one OkillInt = 8" | "rank_one OsayUsr = 6" | "rank_one OkillUsr = 5" | "rank_one Ojoin = 3" | "rank_one Ostatus = 2"
| "rank_one Oend = 1" | "rank_one Oover = 0"

fun rank_two :: "two20 \<Rightarrow> nat" where
  "rank_two Wnone = 5" | "rank_two Wunblock = 4" | "rank_two Wwait = 3" | "rank_two Wgot = 2" | "rank_two Wend = 1" | "rank_two Wover = 0"

definition count_sig :: "(sig \<Rightarrow> bool) \<Rightarrow> nat" where
  "count_sig p = (if p SIGINT then 1 else 0) + (if p SIGUSR1 then 1 else 0)"

lemma count_sig_simps: "p g \<Longrightarrow> Suc (count_sig (p(g := False))) = count_sig p" "count_sig (p(g := True)) \<le> Suc (count_sig p)"
  by (cases g; simp add: count_sig_def)+

definition size20 :: "t20 \<Rightarrow> nat" where
  "size20 s = (if undef20 s then 0 else 1 + rank_main (main20 s) + rank_one (one20 s) + rank_two (two20 s) +
     count_sig (pend1 s) + count_sig (pend2 s))"

text \<open>What the second thread has printed.\<close>

definition said2 :: "t20 \<Rightarrow> string list" where
  "said2 s = map snd (filter (\<lambda>l. fst l = 2) (out20 s))"

definition took2 :: "t20 \<Rightarrow> bool" where
  "took2 s \<longleftrightarrow> rank_two (two20 s) \<le> 2"

text \<open>The invariant: the order of the creations, the signals to the first and to the second thread, the output.\<close>

definition order20 :: "t20 \<Rightarrow> bool" where
  "order20 s \<longleftrightarrow> (two20 s = Wnone \<longleftrightarrow> 9 \<le> rank_main (main20 s)) \<and> (one20 s = Onone \<longleftrightarrow> 11 \<le> rank_main (main20 s)) \<and>
     (rank_one (one20 s) \<le> 10 \<longrightarrow> rank_main (main20 s) \<le> 4) \<and> (rank_one (one20 s) \<le> 2 \<longrightarrow> two20 s = Wover) \<and>
     (pend1 s SIGINT \<longrightarrow> rank_main (main20 s) \<le> 4) \<and> (pend1 s SIGUSR1 \<longrightarrow> rank_main (main20 s) \<le> 4)"

definition second20 :: "t20 \<Rightarrow> bool" where
  "second20 s \<longleftrightarrow> \<not> open2 s SIGINT \<and> (two20 s \<noteq> Wnone \<and> two20 s \<noteq> Wunblock \<longrightarrow> open2 s SIGUSR1) \<and>
     (pend2 s SIGUSR1 \<or> handled2 s \<or> took2 s \<longleftrightarrow> rank_one (one20 s) \<le> 3) \<and>
     \<not> (pend2 s SIGUSR1 \<and> handled2 s) \<and> \<not> (pend2 s SIGUSR1 \<and> took2 s) \<and> \<not> (handled2 s \<and> took2 s)"

definition output20 :: "int \<Rightarrow> t20 \<Rightarrow> bool" where
  "output20 t2 s \<longleftrightarrow>
     said2 s = (if handled2 s \<or> rank_two (two20 s) \<le> 1 then [usr1_handler t2] else []) @ (if two20 s = Wover then [end_line20 t2] else [])"

definition first20 :: "t20 \<Rightarrow> bool" where
  "first20 s \<longleftrightarrow> (one20 s \<noteq> Onone \<and> one20 s \<noteq> Ounblock \<longrightarrow> open1 s = (\<lambda>_. True))"

definition inv20 :: "int \<Rightarrow> t20 \<Rightarrow> bool" where
  "inv20 t2 s \<longleftrightarrow> order20 s \<and> second20 s \<and> output20 t2 s \<and> first20 s"

lemma inv20_start: "inv20 t2 (thread20_start mid)"
  by (simp add: inv20_def order20_def second20_def output20_def first20_def thread20_start_def took2_def said2_def)

lemma say20_simps [simp]: "main20 (say20 w t s) = main20 s" "one20 (say20 w t s) = one20 s" "two20 (say20 w t s) = two20 s"
    "pend1 (say20 w t s) = pend1 s" "pend2 (say20 w t s) = pend2 s" "open1 (say20 w t s) = open1 s" "open2 (say20 w t s) = open2 s"
    "handled2 (say20 w t s) = handled2 s" "undef20 (say20 w t s) = undef20 s" "took2 (say20 w t s) = took2 s"
    "said2 (say20 w t s) = said2 s @ (if w = 2 then [t] else [])"
  by (simp_all add: say20_def said2_def took2_def)

lemma said2_simps [simp]: "said2 (s\<lparr>main20 := a\<rparr>) = said2 s" "said2 (s\<lparr>one20 := b\<rparr>) = said2 s" "said2 (s\<lparr>two20 := c\<rparr>) = said2 s"
    "said2 (s\<lparr>pend1 := d\<rparr>) = said2 s" "said2 (s\<lparr>pend2 := d\<rparr>) = said2 s" "said2 (s\<lparr>open1 := d\<rparr>) = said2 s"
    "said2 (s\<lparr>open2 := d\<rparr>) = said2 s" "said2 (s\<lparr>handled2 := h\<rparr>) = said2 s" "said2 (s\<lparr>undef20 := h\<rparr>) = said2 s"
  by (simp_all add: said2_def)

text \<open>What one step changes: \<^verbatim>\<open>main\<close>.\<close>

lemma main20_same: "thread20_main mid t1 t2 ok s = Some s' \<Longrightarrow>
    pend2 s' = pend2 s \<and> open1 s' = open1 s \<and> open2 s' = open2 s \<and> handled2 s' = handled2 s \<and> said2 s' = said2 s \<and>
    (one20 s' = one20 s \<or> main20 s = Ncreate1 \<and> one20 s' = Ounblock) \<and> (two20 s' = two20 s \<or> main20 s = Ncreate2 \<and> two20 s' = Wunblock)"
  by (cases "main20 s") (auto simp: thread20_main_def split: if_splits)

lemma main20_order: "thread20_main mid t1 t2 ok s = Some s' \<Longrightarrow> order20 s \<Longrightarrow> order20 s'"
  by (cases "main20 s") (auto simp: thread20_main_def order20_def split: if_splits)

lemma main20_size: "thread20_main mid t1 t2 ok s = Some s' \<Longrightarrow> order20 s \<Longrightarrow> \<not> undef20 s \<Longrightarrow> size20 s' < size20 s"
  using count_sig_simps(2) [of "pend1 s" SIGINT] count_sig_simps(2) [of "pend1 s" SIGUSR1]
  by (cases "main20 s") (auto simp: thread20_main_def order20_def size20_def say20_def split: if_splits)

lemma main20_inv:
  assumes inv: "inv20 t2 s" and e: "thread20_main mid t1 t2 ok s = Some s'" "\<not> undef20 s"
  shows "inv20 t2 s' \<and> size20 s' < size20 s"
proof -
  note f = main20_same [OF e(1)]
  have o: "order20 s" using inv by (simp add: inv20_def)
  have o': "order20 s'" by (rule main20_order [OF e(1) o])
  have w: "two20 s' = two20 s \<or> two20 s = Wnone \<and> two20 s' = Wunblock" using f o by (auto simp: order20_def)
  have p: "one20 s' = one20 s \<or> one20 s = Onone \<and> one20 s' = Ounblock" using f o by (auto simp: order20_def)
  have "took2 s' = took2 s" "two20 s' \<noteq> Wnone \<and> two20 s' \<noteq> Wunblock \<longleftrightarrow> two20 s \<noteq> Wnone \<and> two20 s \<noteq> Wunblock"
    "rank_one (one20 s') \<le> 3 \<longleftrightarrow> rank_one (one20 s) \<le> 3" using w p by (auto simp: took2_def)
  with f inv have "second20 s'" by (simp add: inv20_def second20_def)
  moreover have "output20 t2 s'" using inv f w unfolding inv20_def output20_def by auto
  moreover have "first20 s'" using inv f p unfolding inv20_def first20_def by auto
  ultimately show ?thesis using o' main20_size [OF e(1) o e(2)] by (simp add: inv20_def)
qed

text \<open>The first thread.\<close>

lemma one20_same: "thrad_1 t1 t2 g s = Some s' \<Longrightarrow> main20 s' = main20 s \<and> two20 s' = two20 s \<and> open2 s' = open2 s \<and>
    handled2 s' = handled2 s \<and> said2 s' = said2 s \<and> took2 s' = took2 s"
  by (cases "one20 s") (auto simp: thrad_1_def took2_def split: if_splits)

lemma one20_place: "thrad_1 t1 t2 g s = Some s' \<Longrightarrow> one20 s \<noteq> Onone \<and> one20 s' \<noteq> Onone \<and>
    (rank_one (one20 s') \<le> 10 \<longrightarrow> rank_one (one20 s) \<le> 10 \<or> pend1 s g) \<and> (rank_one (one20 s') \<le> 2 \<longrightarrow> rank_one (one20 s) \<le> 2 \<or> two20 s = Wover)"
  by (cases "one20 s") (simp_all add: thrad_1_def split: if_splits, auto)

lemma one20_pend: "thrad_1 t1 t2 g s = Some s' \<Longrightarrow> pend1 s' x \<Longrightarrow> pend1 s x"
  by (cases "one20 s") (auto simp: thrad_1_def split: if_splits)

lemma one20_order:
  assumes e: "thrad_1 t1 t2 g s = Some s'" and o: "order20 s"
  shows "order20 s'"
proof -
  note f = one20_same [OF e] one20_place [OF e] one20_pend [OF e]
  have "pend1 s g \<Longrightarrow> rank_main (main20 s) \<le> 4" using o by (cases g) (simp_all add: order20_def)
  with f o show ?thesis unfolding order20_def by metis
qed

lemma one20_sends: "thrad_1 t1 t2 g s = Some s' \<Longrightarrow> \<not> undef20 s' \<Longrightarrow>
    (pend2 s' SIGUSR1 \<longleftrightarrow> pend2 s SIGUSR1 \<or> one20 s = OkillUsr) \<and> (rank_one (one20 s') \<le> 3 \<longleftrightarrow> rank_one (one20 s) \<le> 3 \<or> one20 s = OkillUsr)"
  by (cases "one20 s") (simp_all add: thrad_1_def split: if_splits, auto)

lemma one20_second:
  assumes e: "thrad_1 t1 t2 g s = Some s'" and i: "second20 s" and u: "\<not> undef20 s'"
  shows "second20 s'"
proof -
  note f = one20_same [OF e] one20_sends [OF e u]
  have "\<not> pend2 s SIGUSR1 \<and> \<not> handled2 s \<and> \<not> took2 s" if "one20 s = OkillUsr" using i that by (auto simp: second20_def)
  with f i show ?thesis unfolding second20_def by metis
qed

lemma one20_first: "thrad_1 t1 t2 g s = Some s' \<Longrightarrow> first20 s \<Longrightarrow> order20 s \<Longrightarrow> \<not> undef20 s \<Longrightarrow> first20 s' \<and> \<not> undef20 s'"
  by (cases "one20 s") (auto simp: thrad_1_def first20_def order20_def say20_def split: if_splits)

lemma one20_size: "thrad_1 t1 t2 g s = Some s' \<Longrightarrow> \<not> undef20 s \<Longrightarrow> size20 s' < size20 s"
  using count_sig_simps(2) [of "pend2 s" SIGINT] count_sig_simps(2) [of "pend2 s" SIGUSR1] count_sig_simps(1) [of "pend1 s" g]
  by (cases "one20 s") (auto simp: thrad_1_def size20_def say20_def split: if_splits)

lemma one20_inv:
  assumes inv: "inv20 t2 s" and e: "thrad_1 t1 t2 g s = Some s'" "\<not> undef20 s"
  shows "inv20 t2 s' \<and> size20 s' < size20 s"
proof -
  note f = one20_same [OF e(1)]
  have i: "order20 s" "second20 s" "output20 t2 s" "first20 s" using inv by (simp_all add: inv20_def)
  have u: "first20 s' \<and> \<not> undef20 s'" by (rule one20_first [OF e(1) i(4,1) e(2)])
  have "output20 t2 s'" using i(3) f unfolding output20_def by simp
  with u one20_order [OF e(1) i(1)] one20_second [OF e(1) i(2) conjunct2 [OF u]] one20_size [OF e] e(2) show ?thesis
    by (simp add: inv20_def)
qed

text \<open>The second thread.\<close>

lemma two20_inv:
  assumes inv: "inv20 t2 s" and e: "thread_2 t2 s = Some s'" "\<not> undef20 s"
  shows "inv20 t2 s' \<and> size20 s' < size20 s"
proof -
  have i: "order20 s" "second20 s" "output20 t2 s" "first20 s" using inv by (simp_all add: inv20_def)
  show ?thesis
proof (cases "two20 s")
  case Wunblock
  with e(1) have s': "s' = s\<lparr>open2 := (open2 s)(SIGUSR1 := True), two20 := Wwait\<rparr>" by (auto simp: thread_2_def split: if_splits)
  have "order20 s'" "first20 s'" using i(1,4) Wunblock by (auto simp: s' order20_def first20_def)
  moreover have "second20 s'" using i(2) Wunblock s' by (simp add: second20_def took2_def)
  moreover have "output20 t2 s'" using i(2,3) Wunblock s' by (simp add: output20_def second20_def)
  moreover have "size20 s' < size20 s" using e(2) Wunblock s' count_sig_simps(1) [of "pend2 s" SIGUSR1] by (simp add: size20_def)
  ultimately show ?thesis by (simp add: inv20_def)
next
  case Wwait
  with e(1) have s': "s' = s\<lparr>pend2 := (pend2 s)(SIGUSR1 := False), two20 := Wgot\<rparr>" "pend2 s SIGUSR1" by (auto simp: thread_2_def split: if_splits)
  have "order20 s'" "first20 s'" using i(1,4) Wwait by (auto simp: s' order20_def first20_def)
  moreover have "second20 s'" using i(2) Wwait s' by (simp add: second20_def took2_def)
  moreover have "output20 t2 s'" using i(2,3) Wwait s' by (simp add: output20_def second20_def)
  moreover have "size20 s' < size20 s" using e(2) Wwait s' count_sig_simps(1) [of "pend2 s" SIGUSR1] by (simp add: size20_def)
  ultimately show ?thesis by (simp add: inv20_def)
next
  case Wgot
  with e(1) have s': "s' = say20 2 (usr1_handler t2) (s\<lparr>two20 := Wend\<rparr>)" by (simp add: thread_2_def)
  have "order20 s'" "first20 s'" using i(1,4) Wgot by (auto simp: s' order20_def first20_def)
  moreover have "second20 s'" using i(2) Wgot by (simp add: s' second20_def took2_def)
  moreover have "output20 t2 s'" using i(2,3) Wgot by (simp add: s' output20_def second20_def took2_def)
  moreover have "size20 s' < size20 s" using e(2) Wgot by (simp add: s' size20_def)
  ultimately show ?thesis by (simp add: inv20_def)
next
  case Wend
  with e(1) have s': "s' = say20 2 (end_line20 t2) (s\<lparr>two20 := Wover\<rparr>)" by (simp add: thread_2_def)
  have "order20 s'" "first20 s'" using i(1,4) Wend by (auto simp: s' order20_def first20_def)
  moreover have "second20 s'" using i(2) Wend by (simp add: s' second20_def took2_def)
  moreover have "output20 t2 s'" using i(2,3) Wend by (simp add: s' output20_def second20_def took2_def)
  moreover have "size20 s' < size20 s" using e(2) Wend by (simp add: s' size20_def)
  ultimately show ?thesis by (simp add: inv20_def)
qed (use e in \<open>simp_all add: thread_2_def\<close>)
qed

text \<open>The handlers.\<close>

lemma deliver1_inv:
  assumes inv: "inv20 t2 s" and e: "deliver1 t1 g s = Some s'" "\<not> undef20 s"
  shows "inv20 t2 s' \<and> size20 s' < size20 s"
proof -
  have s': "s' = say20 1 (handler_line g t1) (s\<lparr>pend1 := (pend1 s)(g := False)\<rparr>)" "pend1 s g"
    using e(1) by (auto simp: deliver1_def split: if_splits)
  have i: "order20 s" "second20 s" "output20 t2 s" "first20 s" using inv by (simp_all add: inv20_def)
  have "order20 s'" using i(1) by (auto simp: s'(1) order20_def)
  moreover have "second20 s'" using i(2) by (simp add: s'(1) second20_def took2_def)
  moreover have "output20 t2 s'" using i(3) by (simp add: s'(1) output20_def)
  moreover have "first20 s'" using i(4) by (simp add: s'(1) first20_def)
  moreover have "size20 s' < size20 s"
    using e(2) count_sig_simps(1) [of "pend1 s" g, OF s'(2)] by (simp add: s'(1) size20_def)
  ultimately show ?thesis by (simp add: inv20_def)
qed

lemma deliver2_inv:
  assumes inv: "inv20 t2 s" and e: "deliver2 t2 g s = Some s'" "\<not> undef20 s"
  shows "inv20 t2 s' \<and> size20 s' < size20 s"
proof -
  have s': "s' = say20 2 (handler_line g t2) (s\<lparr>pend2 := (pend2 s)(g := False), handled2 := True\<rparr>)" "pend2 s g" "open2 s g"
    using e(1) by (auto simp: deliver2_def split: if_splits)
  have i: "order20 s" "second20 s" "output20 t2 s" "first20 s" using inv by (simp_all add: inv20_def)
  have g: "g = SIGUSR1" using s'(3) i(2) by (cases g) (auto simp: second20_def)
  have n: "\<not> handled2 s" "\<not> took2 s" using s'(2) i(2) g by (auto simp: second20_def)
  have "order20 s'" using i(1) by (simp add: s'(1) order20_def)
  moreover have "second20 s'" using i(2) s'(2) n by (simp add: s'(1) second20_def g took2_def)
  moreover have "output20 t2 s'" using i(3) n by (auto simp: s'(1) output20_def g handler_line_def took2_def)
  moreover have "first20 s'" using i(4) by (simp add: s'(1) first20_def)
  moreover have "size20 s' < size20 s"
    using e(2) count_sig_simps(1) [of "pend2 s" g, OF s'(2)] by (simp add: s'(1) size20_def)
  ultimately show ?thesis by (simp add: inv20_def)
qed

lemma act20_inv:
  assumes inv: "inv20 t2 s" and e: "act20 mid t1 t2 a s = Some s'"
  shows "inv20 t2 s' \<and> size20 s' < size20 s"
proof -
  have u: "\<not> undef20 s" using e by (cases a) (simp_all split: if_splits)
  show ?thesis
  proof (cases a)
    case (Main20 ok)
    with e u have "thread20_main mid t1 t2 ok s = Some s'" by simp
    from main20_inv [OF inv this u] show ?thesis .
  next
    case (One20 g)
    with e u have "thrad_1 t1 t2 g s = Some s'" by simp
    from one20_inv [OF inv this u] show ?thesis .
  next
    case Two20
    with e u have "thread_2 t2 s = Some s'" by simp
    from two20_inv [OF inv this u] show ?thesis .
  next
    case (Deliver1 g)
    with e u have "deliver1 t1 g s = Some s'" by simp
    from deliver1_inv [OF inv this u] show ?thesis .
  next
    case (Deliver2 g)
    with e u have "deliver2 t2 g s = Some s'" by simp
    from deliver2_inv [OF inv this u] show ?thesis .
  qed
qed

text \<open>Where the program can come to rest.\<close>

definition rest20 :: "t20 \<Rightarrow> bool" where
  "rest20 s \<longleftrightarrow> undef20 s \<or>
     main20 s = Nover \<and>
     (one20 s = Oover \<and> two20 s = Wover \<or>
      one20 s = Owait \<and> two20 s = Wwait \<and> \<not> pend1 s SIGINT \<and> \<not> pend1 s SIGUSR1 \<or>
      one20 s = Ojoin \<and> two20 s = Wwait \<and> handled2 s)"

lemma progress20:
  assumes inv: "inv20 t2 s" and nr: "\<not> rest20 s"
  shows "\<exists>a s'. act20 mid t1 t2 a s = Some s'"
proof -
  have u: "\<not> undef20 s" using nr by (simp add: rest20_def)
  have i: "order20 s" "second20 s" using inv by (simp_all add: inv20_def)
  show ?thesis
  proof (cases "main20 s = Nover")
    case False
    then have "thread20_main mid t1 t2 True s \<noteq> None" by (cases "main20 s") (simp_all add: thread20_main_def)
    with u show ?thesis by (intro exI [of _ "Main20 True"]) auto
  next
    case True
    with i(1) have st: "one20 s \<noteq> Onone" "two20 s \<noteq> Wnone" by (simp_all add: order20_def)
    have two: ?thesis if "thread_2 t2 s \<noteq> None" using that u by (intro exI [of _ Two20]) auto
    have one: ?thesis if "thrad_1 t1 t2 g s \<noteq> None" for g using that u by (intro exI [of _ "One20 g"]) auto
    show ?thesis
    proof (cases "two20 s = Wover \<or> two20 s = Wwait \<and> \<not> pend2 s SIGUSR1")
      case False
      with st have "thread_2 t2 s \<noteq> None" by (cases "two20 s") (auto simp: thread_2_def)
      then show ?thesis by (rule two)
    next
      case waiting: True
      show ?thesis
      proof (cases "one20 s = Oover \<or> (one20 s = Owait \<and> (\<forall>g. \<not> pend1 s g)) \<or> one20 s = Ojoin \<and> two20 s \<noteq> Wover")
        case False
        show ?thesis
        proof (cases "one20 s = Owait")
          case True
          with False obtain g where "pend1 s g" by blast
          with True have "thrad_1 t1 t2 g s \<noteq> None" by (simp add: thrad_1_def)
          then show ?thesis by (rule one)
        next
          case nw: False
          with False st have "thrad_1 t1 t2 SIGINT s \<noteq> None" by (cases "one20 s") (auto simp: thrad_1_def)
          then show ?thesis by (rule one)
        qed
      next
        case True
        have "rest20 s"
        proof (cases "two20 s = Wover")
          case over: True
          then have "rank_one (one20 s) \<le> 3" using i(2) by (auto simp: second20_def took2_def)
          with True over \<open>main20 s = Nover\<close> show ?thesis by (auto simp: rest20_def)
        next
          case False
          with waiting have w: "two20 s = Wwait" "\<not> pend2 s SIGUSR1" by blast+
          with True i \<open>main20 s = Nover\<close> show ?thesis by (auto simp: rest20_def second20_def took2_def order20_def)
        qed
        with nr show ?thesis by blast
      qed
    qed
  qed
qed

interpretation kill20: terminating_protocol "act20 mid t1 t2" "\<lambda>s. s = thread20_start mid" "inv20 t2" size20 rest20
  for mid t1 t2
proof unfold_locales
  fix s s' a
  show "s = thread20_start mid \<Longrightarrow> inv20 t2 s" by (simp add: inv20_start)
  show "inv20 t2 s \<Longrightarrow> act20 mid t1 t2 a s = Some s' \<Longrightarrow> inv20 t2 s'" by (rule act20_inv [THEN conjunct1])
  show "inv20 t2 s \<Longrightarrow> act20 mid t1 t2 a s = Some s' \<Longrightarrow> size20 s' < size20 s" by (rule act20_inv [THEN conjunct2])
  show "inv20 t2 s \<Longrightarrow> \<not> rest20 s \<Longrightarrow> \<exists>a s'. act20 mid t1 t2 a s = Some s'" by (rule progress20)
qed

text \<open>
  \<^verbatim>\<open>thread20.c\<close>: every schedule ends after at most 30 steps. The second thread never gets the signal it
  blocks; it prints the line of the other signal at most once, and its farewell only after it. The program
  comes to rest when both threads have ended, or with a thread that waits for a signal which a handler
  has taken, or by the loss of defined behaviour: a signal to the first thread after it has ended. The second
  thread is always there when the first one sends it signals.
\<close>

theorem thread20_signals:
  assumes "run (act20 mid t1 t2) as (thread20_start mid) = Some s"
  shows "length as \<le> 30 \<and> said2 s \<in> {[], [usr1_handler t2], [usr1_handler t2, end_line20 t2]} \<and>
    (one20 s \<in> {Ostatus, Oend, Oover} \<longrightarrow> said2 s = [usr1_handler t2, end_line20 t2]) \<and>
    (one20 s \<in> {OkillInt, OkillUsr} \<longrightarrow> two20 s \<noteq> Wnone) \<and>
    ((\<forall>a. act20 mid t1 t2 a s = None) \<longrightarrow> rest20 s)"
proof -
  have inv: "inv20 t2 s" by (rule kill20.bounded.run_keeps [OF inv20_start assms])
  have "size20 (thread20_start mid) = 30" by (simp add: size20_def thread20_start_def count_sig_def)
  with kill20.run_bound [OF inv20_start assms] have "length as \<le> 30" by simp
  moreover have i: "order20 s" "output20 t2 s" using inv by (simp_all add: inv20_def)
  then have "said2 s \<in> {[], [usr1_handler t2], [usr1_handler t2, end_line20 t2]}" by (auto simp: output20_def)
  moreover have "said2 s = [usr1_handler t2, end_line20 t2]" if "one20 s \<in> {Ostatus, Oend, Oover}"
  proof -
    have "two20 s = Wover" using i(1) that by (auto simp: order20_def)
    with i(2) show ?thesis by (simp add: output20_def)
  qed
  moreover have "two20 s \<noteq> Wnone" if "one20 s \<in> {OkillInt, OkillUsr}" using i(1) that by (auto simp: order20_def)
  moreover have "rest20 s" if "\<forall>a. act20 mid t1 t2 a s = None"
    by (rule kill20.stuck_final [OF inv20_start assms]) (use that in blast)
  ultimately show ?thesis by blast
qed

definition usual20 :: "step20 list" where
  "usual20 = replicate 4 (Main20 True) @ [One20 SIGINT, Two20] @ replicate 5 (Main20 True) @ replicate 6 (One20 SIGINT) @ replicate 3 Two20 @
     replicate 2 (One20 SIGINT)"

theorem thread20_signals_witness:
  "\<exists>s. run (act20 9 10 11) usual20 (thread20_start 9) = Some s \<and> said2 s = [usr1_handler 11, end_line20 11]"
proof -
  define r where "r = run (act20 9 10 11) usual20 (thread20_start 9)"
  have "r \<noteq> None" "one20 (the r) = Oend"
    unfolding r_def usual20_def by code_simp+
  then obtain s where s: "r = Some s" "one20 s = Oend" by auto
  from thread20_signals [OF s(1) [unfolded r_def]] s(2) have "said2 s = [usr1_handler 11, end_line20 11]" by blast
  with s(1) show ?thesis unfolding r_def by blast
qed

text \<open>If the first thread is quicker than \<^verbatim>\<open>main\<close>'s second signal, that signal goes to a thread that has ended.\<close>

lemma thread20_dead:
  "leads (act20 9 10 11) (replicate 4 (Main20 True) @ [One20 SIGINT, Two20] @ replicate 3 (Main20 True) @ replicate 6 (One20 SIGINT) @ replicate 3 Two20 @
     replicate 3 (One20 SIGINT) @ [Main20 True]) (thread20_start 9) undef20"
  by code_simp

text \<open>If the signal comes between unblocking and waiting, the handler takes it and both threads wait for ever.\<close>

lemma thread20_waits:
  "leads (act20 9 10 11) (replicate 6 (Main20 True) @ [One20 SIGINT, One20 SIGINT] @ replicate 3 (Main20 True) @ replicate 5 (One20 SIGINT) @
     [Two20, Deliver2 SIGUSR1]) (thread20_start 9) rest20"
  by code_simp

end
