(* ===== verification/Processes.thy ===== *)
theory Processes
  imports Interleave CString "HOL-Library.Multiset"
begin

text \<open>
  The processes of a system as far as the programs of \<^verbatim>\<open>07_Processes\<close> use them: \<^verbatim>\<open>fork\<close>, \<^verbatim>\<open>wait\<close>,
  \<^verbatim>\<open>exec\<close>, \<^verbatim>\<open>exit\<close> and the buffer of the standard output. A program is what it still has to do: a
  constructor per call, with a continuation where the call has a result. A child therefore starts
  with a copy of its parent's variables (what its continuation has captured) and of the buffered output.
  The theory shows for all programs that the table of processes stays well-formed, that runs are
  bounded and come to their end, and what is printed under every schedule.
\<close>

section \<open>Programs\<close>

type_synonym pid = int

text \<open>What one \<^verbatim>\<open>printf\<close> prints; \<^verbatim>\<open>getpid()\<close> and \<^verbatim>\<open>getppid()\<close> are evaluated when it is called.\<close>

datatype piece = Lit string | Pid | PPid

type_synonym form = "piece list"
type_synonym shown_line = "form \<times> pid \<times> pid"

fun render_piece :: "pid \<Rightarrow> pid \<Rightarrow> piece \<Rightarrow> string" where
  "render_piece p q (Lit s) = s"
| "render_piece p q Pid = show_int p"
| "render_piece p q PPid = show_int q"

fun render :: "shown_line \<Rightarrow> string" where
  "render (f, p, q) = concat (map (render_piece p q) f)"

text \<open>
  \<open>Fork k\<close> goes on as \<open>k 0\<close> in the child and as \<open>k c\<close> in the parent, where \<open>c\<close> is the child or \<open>-1\<close>.
  \<open>Wait t h k\<close> is \<^verbatim>\<open>waitpid(t, &status, h ? WNOHANG : 0)\<close>; \<open>k\<close> gets its result and the status. \<open>Exec q t\<close>
  becomes \<open>q\<close>, or goes on as \<open>t\<close> when the program cannot be executed. \<open>Complain\<close> is \<^verbatim>\<open>perror\<close>; \<open>Spin\<close> is \<^verbatim>\<open>while(1);\<close>.
\<close>

datatype prog =
    Exit int
  | Abort
  | Spin
  | Print form prog
  | Flush prog
  | Complain string prog
  | Fork "int \<Rightarrow> prog"
  | Wait int bool "int \<Rightarrow> int \<Rightarrow> prog"
  | Exec prog prog

section \<open>The table of processes\<close>

datatype pstage = Runs prog | Ended int

record proc =
  parent :: pid
  buf :: "shown_line list"
  stage :: pstage

text \<open>
  \<open>out\<close> is what reaches the standard output (which all processes share) with its writer, \<open>err\<close> what \<^verbatim>\<open>perror\<close>
  says. \<open>dead\<close> remembers how each process ended, and \<open>lost\<close> that a \<^verbatim>\<open>fork\<close> failed or a process was killed.
\<close>

record world =
  table :: "(pid \<times> proc) list"
  out :: "(pid \<times> shown_line) list"
  err :: "(pid \<times> string) list"
  dead :: "(pid \<times> int) list"
  lost :: bool

abbreviation pids :: "world \<Rightarrow> pid list" where "pids w \<equiv> map fst (table w)"

definition entry_of :: "world \<Rightarrow> pid \<Rightarrow> proc option" where
  "entry_of w p = map_of (table w) p"

definition at :: "pid \<Rightarrow> (proc \<Rightarrow> proc) \<Rightarrow> (pid \<times> proc) list \<Rightarrow> (pid \<times> proc) list" where
  "at p f = map (\<lambda>(q, r). (q, if q = p then f r else r))"

definition goes_on :: "pid \<Rightarrow> prog \<Rightarrow> world \<Rightarrow> world" where
  "goes_on p t w = w\<lparr>table := at p (\<lambda>r. r\<lparr>stage := Runs t\<rparr>) (table w)\<rparr>"

definition buffers :: "pid \<Rightarrow> shown_line list \<Rightarrow> world \<Rightarrow> world" where
  "buffers p b w = w\<lparr>table := at p (\<lambda>r. r\<lparr>buf := b\<rparr>) (table w)\<rparr>"

definition writes :: "pid \<Rightarrow> shown_line list \<Rightarrow> world \<Rightarrow> world" where
  "writes p b w = w\<lparr>out := out w @ map (Pair p) b\<rparr>"

text \<open>A process that ends keeps its entry until it is waited for; its children go to process 1.\<close>

definition ends_with :: "pid \<Rightarrow> int \<Rightarrow> world \<Rightarrow> world" where
  "ends_with p st w = w\<lparr>
     table := map (\<lambda>(q, r). (q, if q = p then r\<lparr>buf := [], stage := Ended st\<rparr>
                               else if parent r = p then r\<lparr>parent := 1\<rparr> else r)) (table w),
     dead := dead w @ [(p, st)]\<rparr>"

text \<open>A new process gets an identity that is not in use, neither by a process nor as its parent.\<close>

definition fresh :: "pid \<Rightarrow> world \<Rightarrow> bool" where
  "fresh c w \<longleftrightarrow> 1 < c \<and> c \<notin> fst ` set (table w) \<and> c \<notin> parent ` snd ` set (table w)"

definition born :: "pid \<Rightarrow> proc \<Rightarrow> world \<Rightarrow> world" where
  "born c r w = w\<lparr>table := table w @ [(c, r)]\<rparr>"

definition candidates :: "pid \<Rightarrow> int \<Rightarrow> world \<Rightarrow> (pid \<times> proc) list" where
  "candidates p t w = filter (\<lambda>(q, r). parent r = p \<and> (t = -1 \<or> t = q)) (table w)"

definition reaped :: "pid \<Rightarrow> world \<Rightarrow> world" where
  "reaped c w = w\<lparr>table := filter (\<lambda>(q, r). q \<noteq> c) (table w)\<rparr>"

section \<open>Steps\<close>

text \<open>A line-buffered output (a terminal) is written at the end of a line.\<close>

definition full_line :: "form \<Rightarrow> bool" where
  "full_line f = (case rev f of Lit s # _ \<Rightarrow> s \<noteq> [] \<and> last s = LF | _ \<Rightarrow> False)"

fun do_print :: "bool \<Rightarrow> pid \<Rightarrow> proc \<Rightarrow> form \<Rightarrow> world \<Rightarrow> world" where
  "do_print tty p r f w =
     (let b = buf r @ [(f, p, parent r)]
      in if tty \<and> full_line f then buffers p [] (writes p b w) else buffers p b w)"

fun do_fork :: "pid \<Rightarrow> proc \<Rightarrow> int \<Rightarrow> (int \<Rightarrow> prog) \<Rightarrow> world \<Rightarrow> world option" where
  "do_fork p r c k w =
     (if c = -1 then Some (goes_on p (k (-1)) (w\<lparr>lost := True\<rparr>))
      else if fresh c w then Some (born c \<lparr>parent = p, buf = buf r, stage = Runs (k 0)\<rparr> (goes_on p (k c) w))
      else None)"

fun do_wait :: "pid \<Rightarrow> int \<Rightarrow> int \<Rightarrow> bool \<Rightarrow> (int \<Rightarrow> int \<Rightarrow> prog) \<Rightarrow> world \<Rightarrow> world option" where
  "do_wait p c t h k w =
     (if candidates p t w = [] then Some (goes_on p (k (-1) 0) w)
      else (case map_of (candidates p t w) c of
        Some r \<Rightarrow> (case stage r of Ended st \<Rightarrow> Some (reaped c (goes_on p (k c st) w)) | Runs _ \<Rightarrow> None)
      | None \<Rightarrow>
          if h \<and> (\<forall>x \<in> set (candidates p t w). \<not> (case stage (snd x) of Ended _ \<Rightarrow> True | Runs _ \<Rightarrow> False))
          then Some (goes_on p (k 0 0) w) else None))"

fun step :: "bool \<Rightarrow> pid \<Rightarrow> int \<Rightarrow> proc \<Rightarrow> prog \<Rightarrow> world \<Rightarrow> world option" where
  "step tty p c r (Exit n) w = Some (ends_with p (n mod 256 * 256) (writes p (buf r) w))"
| "step tty p c r Abort w = Some (ends_with p (if c = 0 then 6 else 134) w)"
| "step tty p c r Spin w = Some w"
| "step tty p c r (Print f t) w = Some (goes_on p t (do_print tty p r f w))"
| "step tty p c r (Flush t) w = Some (goes_on p t (buffers p [] (writes p (buf r) w)))"
| "step tty p c r (Complain s t) w = Some (goes_on p t (w\<lparr>err := err w @ [(p, s)]\<rparr>))"
| "step tty p c r (Fork k) w = do_fork p r c k w"
| "step tty p c r (Wait t h k) w = do_wait p c t h k w"
| "step tty p c r (Exec q t) w = Some (if c = 0 then goes_on p q (buffers p [] w) else goes_on p t w)"

text \<open>
  A process makes a step, where \<open>c\<close> is what the system answers (the new process, the child that is waited for); or it is killed by a signal.
\<close>

datatype event = Step pid int | Kill pid int bool

fun act :: "bool \<Rightarrow> event \<Rightarrow> world \<Rightarrow> world option" where
  "act tty (Step p c) w =
     (case entry_of w p of
        Some r \<Rightarrow> (case stage r of Runs t \<Rightarrow> step tty p c r t w | Ended _ \<Rightarrow> None)
      | None \<Rightarrow> None)"
| "act tty (Kill p g core) w =
     (case entry_of w p of
        Some r \<Rightarrow> (case stage r of
            Runs _ \<Rightarrow> if 0 < g \<and> g < 127 then Some (ends_with p (if core then g + 128 else g) (w\<lparr>lost := True\<rparr>)) else None
          | Ended _ \<Rightarrow> None)
      | None \<Rightarrow> None)"

text \<open>A program that the shell \<open>s\<close> starts as the process \<open>p\<close>.\<close>

definition launch :: "pid \<Rightarrow> pid \<Rightarrow> prog \<Rightarrow> world" where
  "launch p s t = \<lparr>table = [(p, \<lparr>parent = s, buf = [], stage = Runs t\<rparr>)], out = [], err = [], dead = [], lost = False\<rparr>"

definition all_over :: "world \<Rightarrow> bool" where
  "all_over w \<longleftrightarrow> (\<forall>x \<in> set (table w). case stage (snd x) of Ended _ \<Rightarrow> True | Runs _ \<Rightarrow> False)"

text \<open>What a process has written, and without the identities in it.\<close>

definition written_by :: "pid \<Rightarrow> world \<Rightarrow> shown_line list" where
  "written_by p w = map snd (filter (\<lambda>x. fst x = p) (out w))"

abbreviation forms :: "shown_line list \<Rightarrow> form list" where "forms \<equiv> map fst"

section \<open>Equations of the table\<close>

lemma map_of_at: "map_of (at p f xs) q = map_option (if q = p then f else id) (map_of xs q)"
  by (induction xs) (auto simp: at_def)

lemma fst_at [simp]: "map fst (at p f xs) = map fst xs"
  by (auto simp: at_def)

lemma map_of_without: "map_of (filter (\<lambda>(q, r). q \<noteq> c) xs) q = (if q = c then None else map_of xs q)"
  by (induction xs) auto

lemma map_of_snoc: "map_of (xs @ [(c, r)]) q = (case map_of xs q of Some x \<Rightarrow> Some x | None \<Rightarrow> if q = c then Some r else None)"
  by (induction xs) auto

lemma map_of_ending:
  "map_of (map (\<lambda>(q, r). (q, if q = p then f r else if P r then g r else r)) xs) q =
   map_option (\<lambda>r. if q = p then f r else if P r then g r else r) (map_of xs q)"
  by (induction xs) auto

lemma fst_ending:
  "map fst (map (\<lambda>(q, r). (q, if q = p then f r else if P r then g r else r)) xs) = map fst xs"
  by auto

lemma goes_on_simps [simp]:
  "pids (goes_on p t w) = pids w" "out (goes_on p t w) = out w" "err (goes_on p t w) = err w"
  "dead (goes_on p t w) = dead w" "lost (goes_on p t w) = lost w"
  by (simp_all add: goes_on_def)

lemma buffers_simps [simp]:
  "pids (buffers p b w) = pids w" "out (buffers p b w) = out w" "err (buffers p b w) = err w"
  "dead (buffers p b w) = dead w" "lost (buffers p b w) = lost w"
  by (simp_all add: buffers_def)

lemma writes_simps [simp]:
  "table (writes p b w) = table w" "err (writes p b w) = err w"
  "dead (writes p b w) = dead w" "lost (writes p b w) = lost w"
  by (simp_all add: writes_def)

lemma ends_with_simps [simp]:
  "pids (ends_with p st w) = pids w" "out (ends_with p st w) = out w" "err (ends_with p st w) = err w"
  "dead (ends_with p st w) = dead w @ [(p, st)]" "lost (ends_with p st w) = lost w"
  by (simp_all add: ends_with_def fst_ending del: map_map)

lemma born_simps [simp]:
  "pids (born c r w) = pids w @ [c]" "out (born c r w) = out w" "err (born c r w) = err w"
  "dead (born c r w) = dead w" "lost (born c r w) = lost w"
  by (simp_all add: born_def)

lemma reaped_simps [simp]:
  "out (reaped c w) = out w" "err (reaped c w) = err w" "dead (reaped c w) = dead w" "lost (reaped c w) = lost w"
  by (simp_all add: reaped_def)

lemma set_pids_reaped [simp]: "fst ` set (table (reaped c w)) = fst ` set (table w) - {c}"
  by (auto simp: reaped_def image_iff)

lemma find_goes_on: "entry_of (goes_on p t w) q = map_option (\<lambda>r. if q = p then r\<lparr>stage := Runs t\<rparr> else r) (entry_of w q)"
  by (cases "map_of (table w) q") (simp_all add: entry_of_def goes_on_def map_of_at)

lemma find_buffers: "entry_of (buffers p b w) q = map_option (\<lambda>r. if q = p then r\<lparr>buf := b\<rparr> else r) (entry_of w q)"
  by (cases "map_of (table w) q") (simp_all add: entry_of_def buffers_def map_of_at)

lemma find_ends_with: "entry_of (ends_with p st w) q =
    map_option (\<lambda>r. if q = p then r\<lparr>buf := [], stage := Ended st\<rparr> else if parent r = p then r\<lparr>parent := 1\<rparr> else r) (entry_of w q)"
  by (simp add: entry_of_def ends_with_def map_of_ending)

lemma find_born: "entry_of (born c r w) q =
    (case entry_of w q of Some x \<Rightarrow> Some x | None \<Rightarrow> if q = c then Some r else None)"
  by (simp add: entry_of_def born_def map_add_def split: option.split)

lemma find_reaped: "entry_of (reaped c w) q = (if q = c then None else entry_of w q)"
  by (simp add: entry_of_def reaped_def map_of_without)

lemma entry_writes [simp]: "entry_of (writes p b w) q = entry_of w q"
  by (simp add: entry_of_def)

lemma entry_lost [simp]: "entry_of (w\<lparr>lost := l\<rparr>) q = entry_of w q" "entry_of (w\<lparr>err := e\<rparr>) q = entry_of w q"
  by (simp_all add: entry_of_def)

lemma entry_in: "entry_of w q = Some r \<Longrightarrow> (q, r) \<in> set (table w)"
  by (simp add: entry_of_def map_of_SomeD)

lemmas find_simps = find_goes_on find_buffers find_ends_with find_born find_reaped

lemma fresh_none: "fresh c w \<Longrightarrow> entry_of w c = None"
  by (simp add: fresh_def entry_of_def map_of_eq_None_iff)

section \<open>The table is well-formed\<close>

text \<open>
  Each process has an entry of its own, parents come before their children (so that nobody is its
  own ancestor), and a process that has ended is nobody's parent.
\<close>

fun ordered :: "(pid \<times> proc) list \<Rightarrow> bool" where
  "ordered [] \<longleftrightarrow> True"
| "ordered ((q, r) # xs) \<longleftrightarrow> parent r \<noteq> q \<and> parent r \<notin> fst ` set xs \<and> ordered xs"

definition no_orphans :: "world \<Rightarrow> bool" where
  "no_orphans w \<longleftrightarrow> (\<forall>q r st. entry_of w q = Some r \<longrightarrow> stage r = Ended st \<longrightarrow>
     (\<forall>q' r'. entry_of w q' = Some r' \<longrightarrow> parent r' \<noteq> q))"

definition well_formed :: "world \<Rightarrow> bool" where
  "well_formed w \<longleftrightarrow> distinct (pids w) \<and> 1 \<notin> set (pids w) \<and> ordered (table w) \<and> no_orphans w"

lemma no_orphansD: "no_orphans w \<Longrightarrow> entry_of w q = Some r \<Longrightarrow> stage r = Ended st \<Longrightarrow> entry_of w q' = Some r' \<Longrightarrow> parent r' \<noteq> q"
  by (simp add: no_orphans_def)

lemma no_orphansI:
  "(\<And>q r st q' r'. entry_of w q = Some r \<Longrightarrow> stage r = Ended st \<Longrightarrow> entry_of w q' = Some r' \<Longrightarrow> parent r' = q \<Longrightarrow> False) \<Longrightarrow> no_orphans w"
  unfolding no_orphans_def by blast

lemma no_orphans_mono:
  assumes "no_orphans w"
    and "\<And>q r'. entry_of w' q = Some r' \<Longrightarrow> \<exists>r. entry_of w q = Some r \<and> parent r' = parent r \<and> (\<forall>st. stage r' = Ended st \<longrightarrow> stage r = Ended st)"
  shows "no_orphans w'"
proof (rule no_orphansI)
  fix q r st q' r'
  assume a: "entry_of w' q = Some r" "stage r = Ended st" "entry_of w' q' = Some r'" "parent r' = q"
  from assms(2) [OF a(1)] a(2) obtain x where x: "entry_of w q = Some x" "stage x = Ended st" by blast
  from assms(2) [OF a(3)] a(4) obtain y where y: "entry_of w q' = Some y" "parent y = q" by metis
  from no_orphansD [OF assms(1) x y(1)] y(2) show False by simp
qed

lemma ordered_map:
  assumes "ordered xs" and "1 \<notin> fst ` set xs"
    and "\<And>q r. parent (f q r) = parent r \<or> parent (f q r) = 1"
  shows "ordered (map (\<lambda>(q, r). (q, f q r)) xs)"
  using assms
proof (induction xs)
  case (Cons x xs)
  obtain q r where x: "x = (q, r)" by (cases x)
  have "fst ` set (map (\<lambda>(q, r). (q, f q r)) xs) = fst ` set xs" by force
  moreover have "parent (f q r) \<noteq> q" "parent (f q r) \<notin> fst ` set xs"
    using Cons.prems(3) [of q r] Cons.prems(1,2) by (elim disjE; simp add: x)+
  moreover have "ordered (map (\<lambda>(q, r). (q, f q r)) xs)" using Cons by (simp add: x)
  ultimately show ?case by (simp add: x del: set_map)
qed simp

lemma ordered_snoc: "ordered (xs @ [(c, r)]) \<longleftrightarrow> ordered xs \<and> c \<notin> parent ` snd ` set xs \<and> parent r \<noteq> c"
  by (induction xs) auto

lemma ordered_filter: "ordered xs \<Longrightarrow> ordered (filter P xs)"
  by (induction xs) auto

lemma ordered_goes_on: "well_formed w \<Longrightarrow> ordered (table (goes_on p t w))"
  unfolding goes_on_def at_def well_formed_def by (auto intro!: ordered_map)

lemma ordered_buffers: "well_formed w \<Longrightarrow> ordered (table (buffers p b w))"
  unfolding buffers_def at_def well_formed_def by (auto intro!: ordered_map)

lemma wf_writes [simp]: "well_formed (writes p b w) = well_formed w"
  by (simp add: well_formed_def no_orphans_def)

lemma wf_lost [simp]: "well_formed (w\<lparr>lost := l\<rparr>) = well_formed w" "well_formed (w\<lparr>err := e\<rparr>) = well_formed w"
  by (simp_all add: well_formed_def no_orphans_def)

lemma wf_goes_on:
  assumes "well_formed w" and "entry_of w p = Some r" and "stage r = Runs t"
  shows "well_formed (goes_on p t' w)"
proof -
  have "no_orphans w" using assms(1) by (simp add: well_formed_def)
  then have "no_orphans (goes_on p t' w)"
    by (rule no_orphans_mono) (auto simp: find_goes_on split: if_splits)
  with assms(1) ordered_goes_on show ?thesis by (simp add: well_formed_def)
qed

lemma wf_buffers: "well_formed w \<Longrightarrow> well_formed (buffers p b w)"
proof -
  assume w: "well_formed w"
  then have "no_orphans w" by (simp add: well_formed_def)
  then have "no_orphans (buffers p b w)"
    by (rule no_orphans_mono) (auto simp: find_buffers split: if_splits)
  with w ordered_buffers show ?thesis by (simp add: well_formed_def)
qed

lemma not_init: "well_formed w \<Longrightarrow> entry_of w q = Some r \<Longrightarrow> q \<noteq> 1"
  by (force simp: well_formed_def dest: entry_in)

lemma own_parent: "well_formed w \<Longrightarrow> entry_of w p = Some r \<Longrightarrow> parent r \<noteq> p"
proof -
  assume a: "well_formed w" "entry_of w p = Some r"
  obtain xs ys where "table w = xs @ (p, r) # ys" using a(2) by (meson entry_in split_list)
  with a(1) have "ordered (xs @ (p, r) # ys)" by (simp add: well_formed_def)
  then show ?thesis by (induction xs) auto
qed

lemma wf_ends_with:
  assumes "well_formed w" and "entry_of w p = Some r"
  shows "well_formed (ends_with p st w)"
proof -
  have "ordered (table (ends_with p st w))"
    unfolding ends_with_def using assms(1) by (auto simp: well_formed_def intro!: ordered_map)
  moreover have "no_orphans (ends_with p st w)"
  proof (rule no_orphansI)
    fix q x st' q' x'
    assume a: "entry_of (ends_with p st w) q = Some x" "stage x = Ended st'"
      "entry_of (ends_with p st w) q' = Some x'" "parent x' = q"
    from a(1,2) obtain y where y: "entry_of w q = Some y" "q \<noteq> p \<Longrightarrow> stage y = Ended st'"
      by (auto simp: find_ends_with split: if_splits)
    from a(3) obtain y' where y': "entry_of w q' = Some y'"
      and "x' = (if q' = p then y'\<lparr>buf := [], stage := Ended st\<rparr> else if parent y' = p then y'\<lparr>parent := 1\<rparr> else y')"
      by (auto simp: find_ends_with)
    then have x': "parent x' = (if q' \<noteq> p \<and> parent y' = p then 1 else parent y')" by simp
    show False
    proof (cases "q' \<noteq> p \<and> parent y' = p")
      case True
      with x' a(4) not_init [OF assms(1) y(1)] show ?thesis by simp
    next
      case False
      with x' a(4) have q: "parent y' = q" by auto
      with own_parent [OF assms(1) y'] False have "q \<noteq> p" by auto
      with no_orphansD [OF _ y(1) y(2) y'] q assms(1) show ?thesis by (simp add: well_formed_def)
    qed
  qed
  ultimately show ?thesis using assms(1) by (simp add: well_formed_def)
qed

lemma wf_born:
  assumes "well_formed w" and "fresh c w" and "entry_of w p = Some r" and "stage r = Runs t" and "parent r' = p" and "stage r' = Runs t'"
  shows "well_formed (born c r' w)"
proof -
  have none: "entry_of w c = None" using assms(2) by (rule fresh_none)
  then have pc: "p \<noteq> c" using assms(3) by auto
  have par: "parent x \<noteq> c" if "entry_of w q = Some x" for q x
    using assms(2) entry_in [OF that] by (force simp: fresh_def)
  have "ordered (table (born c r' w))"
    using assms pc by (simp add: born_def ordered_snoc well_formed_def fresh_def)
  moreover have "no_orphans (born c r' w)"
  proof (rule no_orphansI)
    fix q x st q' x'
    assume a: "entry_of (born c r' w) q = Some x" "stage x = Ended st" "entry_of (born c r' w) q' = Some x'" "parent x' = q"
    from a(1,2) assms(6) have x: "entry_of w q = Some x" by (auto simp: find_born split: option.splits if_splits)
    with assms(3,4) a(2) have "q \<noteq> p" by auto
    with a(3,4) assms(5) have "entry_of w q' = Some x'" by (auto simp: find_born split: option.splits if_splits)
    from no_orphansD [OF _ x a(2) this] a(4) assms(1) show False by (simp add: well_formed_def)
  qed
  ultimately show ?thesis using assms(1,2) by (simp add: well_formed_def fresh_def)
qed

lemma wf_reaped: "well_formed w \<Longrightarrow> well_formed (reaped c w)"
proof -
  assume w: "well_formed w"
  then have "no_orphans w" by (simp add: well_formed_def)
  then have "no_orphans (reaped c w)"
    by (rule no_orphans_mono) (auto simp: find_reaped split: if_splits)
  moreover have "ordered (table (reaped c w))" using w by (simp add: reaped_def ordered_filter well_formed_def)
  moreover have "distinct (pids (reaped c w))" using w by (simp add: well_formed_def reaped_def distinct_map_filter)
  moreover have "1 \<notin> set (pids (reaped c w))" using w by (simp add: well_formed_def)
  ultimately show ?thesis by (simp only: well_formed_def) simp
qed

lemma wf_boot: "1 < p \<Longrightarrow> s \<noteq> p \<Longrightarrow> well_formed (launch p s t)"
  by (auto simp: well_formed_def launch_def no_orphans_def entry_of_def split: if_splits)

text \<open>Every step keeps the table well-formed.\<close>

lemma fresh_goes_on [simp]: "fresh c (goes_on p t w) = fresh c w"
proof -
  have "map (\<lambda>x. parent (snd x)) (at p (\<lambda>r. r\<lparr>stage := Runs t\<rparr>) (table w)) = map (\<lambda>x. parent (snd x)) (table w)"
    by (auto simp: at_def)
  from arg_cong [OF this, of set] have "parent ` snd ` set (table (goes_on p t w)) = parent ` snd ` set (table w)"
    by (simp only: set_map goes_on_def image_image) simp
  moreover have "fst ` set (table (goes_on p t w)) = fst ` set (table w)"
    using arg_cong [OF goes_on_simps(1) [of p t w], of set] by (simp only: set_map)
  ultimately show ?thesis by (simp add: fresh_def)
qed

lemma wf_print: "well_formed w \<Longrightarrow> well_formed (do_print tty p r f w)"
  by (simp add: Let_def wf_buffers)

lemma entry_print:
  "entry_of w p = Some r \<Longrightarrow> stage r = Runs t \<Longrightarrow> \<exists>r'. entry_of (do_print tty p r f w) p = Some r' \<and> stage r' = Runs t"
  by (simp add: Let_def find_simps)

lemma wf_do_fork:
  assumes "well_formed w" and "entry_of w p = Some r" and "stage r = Runs t" and "do_fork p r c k w = Some w'"
  shows "well_formed w'"
proof (cases "c = -1")
  case True
  with assms(4) have w': "w' = goes_on p (k (-1)) (w\<lparr>lost := True\<rparr>)" by simp
  from assms(1-3) show ?thesis unfolding w' by (intro wf_goes_on) simp_all
next
  case False
  with assms(4) have c: "fresh c w" and w': "w' = born c \<lparr>parent = p, buf = buf r, stage = Runs (k 0)\<rparr> (goes_on p (k c) w)"
    by (auto split: if_splits)
  have "well_formed (goes_on p (k c) w)" using assms(1-3) by (rule wf_goes_on)
  moreover have "fresh c (goes_on p (k c) w)" using c by simp
  ultimately show ?thesis unfolding w'
    by (rule wf_born [where p = p and t = "k c" and r = "r\<lparr>stage := Runs (k c)\<rparr>" and t' = "k 0"])
      (use assms(2) in \<open>simp_all add: find_goes_on\<close>)
qed

lemma wf_do_wait:
  assumes "well_formed w" and "entry_of w p = Some r" and "stage r = Runs u" and "do_wait p c t h k w = Some w'"
  shows "well_formed w'"
proof -
  have go: "well_formed (goes_on p v w)" for v using assms(1-3) by (rule wf_goes_on)
  show ?thesis
  proof (cases "map_of (candidates p t w) c")
    case None
    with assms(4) show ?thesis by (auto split: if_splits intro: go)
  next
    case (Some x)
    then have "candidates p t w \<noteq> []" by auto
    with Some assms(4) obtain st where "w' = reaped c (goes_on p (k c st) w)" by (auto split: pstage.splits)
    with go show ?thesis by (auto intro: wf_reaped)
  qed
qed

lemma wf_step:
  assumes "well_formed w" and "entry_of w p = Some r" and "stage r = Runs t" and "step tty p c r t w = Some w'"
  shows "well_formed w'"
proof (cases t)
  case (Print f u)
  obtain r' where "entry_of (do_print tty p r f w) p = Some r'" "stage r' = Runs t"
    using entry_print [OF assms(2,3)] by blast
  from wf_goes_on [OF wf_print [OF assms(1)] this] assms(4) Print show ?thesis by auto
next
  case (Fork k)
  with assms(4) wf_do_fork [OF assms(1-3)] show ?thesis by auto
next
  case (Wait v h k)
  with assms(4) wf_do_wait [OF assms(1-3)] show ?thesis by auto
next
  case (Exit n)
  with assms(4) have w': "w' = ends_with p (n mod 256 * 256) (writes p (buf r) w)" by simp
  from assms(1,2) show ?thesis unfolding w' by (intro wf_ends_with) simp_all
next
  case Abort
  with assms(4) have w': "w' = ends_with p (if c = 0 then 6 else 134) w" by simp
  from assms(1,2) show ?thesis unfolding w' by (rule wf_ends_with)
next
  case Spin
  with assms(1,4) show ?thesis by simp
next
  case (Flush u)
  with assms(4) have w': "w' = goes_on p u (buffers p [] (writes p (buf r) w))" by simp
  from assms show ?thesis unfolding w' by (intro wf_goes_on [where r = "r\<lparr>buf := []\<rparr>" and t = t] wf_buffers) (simp_all add: find_simps)
next
  case (Complain x u)
  with assms(4) have w': "w' = goes_on p u (w\<lparr>err := err w @ [(p, x)]\<rparr>)" by simp
  from assms(1-3) show ?thesis unfolding w' by (intro wf_goes_on) simp_all
next
  case (Exec q u)
  with assms(4) have w': "w' = (if c = 0 then goes_on p q (buffers p [] w) else goes_on p u w)" by simp
  have "well_formed (goes_on p u w)" using assms(1-3) by (rule wf_goes_on)
  moreover have "well_formed (goes_on p q (buffers p [] w))"
    using assms(1-3) by (intro wf_goes_on [where r = "r\<lparr>buf := []\<rparr>" and t = t] wf_buffers) (simp_all add: find_simps)
  ultimately show ?thesis unfolding w' by simp
qed

lemma event_cases:
  assumes "act tty e w = Some w'"
  obtains (step) p c r t where "e = Step p c" "entry_of w p = Some r" "stage r = Runs t" "step tty p c r t w = Some w'"
  | (kill) p g core r t where "e = Kill p g core" "entry_of w p = Some r" "stage r = Runs t" "0 < g" "g < 127"
      "w' = ends_with p (if core then g + 128 else g) (w\<lparr>lost := True\<rparr>)"
proof (cases e)
  case (Step p c)
  with assms obtain r t where "entry_of w p = Some r" "stage r = Runs t" "step tty p c r t w = Some w'"
    by (auto simp: entry_of_def split: option.splits pstage.splits)
  with Step step show thesis by blast
next
  case (Kill p g core)
  with assms obtain r t where "entry_of w p = Some r" "stage r = Runs t" "0 < g" "g < 127"
    "w' = ends_with p (if core then g + 128 else g) (w\<lparr>lost := True\<rparr>)"
    by (auto simp: entry_of_def split: option.splits pstage.splits if_splits)
  with Kill kill show thesis by blast
qed

lemma wf_act: "well_formed w \<Longrightarrow> act tty e w = Some w' \<Longrightarrow> well_formed w'"
proof -
  assume a: "well_formed w" "act tty e w = Some w'"
  from a(2) show ?thesis
  proof (cases rule: event_cases)
    case (step p c r t)
    with wf_step a(1) show ?thesis by blast
  next
    case (kill p g core r t)
    with a(1) show ?thesis by (auto intro: wf_ends_with)
  qed
qed

section \<open>Every schedule ends\<close>

text \<open>
  \<open>costs t n\<close>: the program \<open>t\<close> with all the processes it creates makes at most \<open>n\<close> steps, whatever the calls
  return.
\<close>

primrec costs :: "prog \<Rightarrow> nat \<Rightarrow> bool" where
  "costs (Exit c) n \<longleftrightarrow> 0 < n"
| "costs Abort n \<longleftrightarrow> 0 < n"
| "costs Spin n \<longleftrightarrow> False"
| "costs (Print f t) n \<longleftrightarrow> (case n of 0 \<Rightarrow> False | Suc m \<Rightarrow> costs t m)"
| "costs (Flush t) n \<longleftrightarrow> (case n of 0 \<Rightarrow> False | Suc m \<Rightarrow> costs t m)"
| "costs (Complain s t) n \<longleftrightarrow> (case n of 0 \<Rightarrow> False | Suc m \<Rightarrow> costs t m)"
| "costs (Fork k) n \<longleftrightarrow> (\<exists>a b. a + b < n \<and> costs (k 0) a \<and> (\<forall>c. c \<noteq> 0 \<longrightarrow> costs (k c) b))"
| "costs (Wait v h k) n \<longleftrightarrow> (case n of 0 \<Rightarrow> False | Suc m \<Rightarrow> (\<forall>c st. costs (k c st) m))"
| "costs (Exec q t) n \<longleftrightarrow> (case n of 0 \<Rightarrow> False | Suc m \<Rightarrow> costs q m \<and> costs t m)"

definition fits :: "(pid \<Rightarrow> nat) \<Rightarrow> world \<Rightarrow> bool" where
  "fits f w \<longleftrightarrow> (\<forall>p r t. entry_of w p = Some r \<longrightarrow> stage r = Runs t \<longrightarrow> costs t (f p))"

abbreviation pool :: "world \<Rightarrow> pid set" where "pool w \<equiv> fst ` set (table w)"

lemma pool_pids: "pool w = set (pids w)"
  by simp

lemma pool_simps [simp]:
  "pool (goes_on p t w) = pool w" "pool (buffers p b w) = pool w" "pool (ends_with p st w) = pool w"
  "pool (born c r w) = insert c (pool w)"
  by (simp_all only: pool_pids goes_on_simps buffers_simps ends_with_simps) (simp add: born_def)

lemma entry_pool: "entry_of w p = Some r \<Longrightarrow> p \<in> pool w"
  by (force dest: entry_in)

lemma fits_update:
  assumes "fits f w"
    and "\<And>q r'. q \<noteq> p \<Longrightarrow> entry_of w' q = Some r' \<Longrightarrow> \<exists>r. entry_of w q = Some r \<and> stage r = stage r'"
    and "\<And>r' t. entry_of w' p = Some r' \<Longrightarrow> stage r' = Runs t \<Longrightarrow> costs t m"
  shows "fits (f(p := m)) w'"
  unfolding fits_def
proof (intro allI impI)
  fix q r' t
  assume a: "entry_of w' q = Some r'" "stage r' = Runs t"
  show "costs t ((f(p := m)) q)"
  proof (cases "q = p")
    case True
    with a assms(3) show ?thesis by simp
  next
    case False
    with a assms(2) obtain r where "entry_of w q = Some r" "stage r = Runs t" by metis
    with assms(1) False show ?thesis by (simp add: fits_def)
  qed
qed

lemma spend_less:
  fixes f :: "pid \<Rightarrow> nat"
  assumes "finite A" and "p \<in> A" and "m < f p"
  shows "sum (f(p := m)) A < sum f A"
  using assms by (intro sum_strict_mono_ex1) auto

text \<open>A step of \<open>p\<close> that changes nobody else and leaves \<open>p\<close> with less to do.\<close>

lemma spend_one:
  assumes "fits f w" and "entry_of w p = Some r" and "m < f p" and "pool w' \<subseteq> pool w"
    and "\<And>q r'. q \<noteq> p \<Longrightarrow> entry_of w' q = Some r' \<Longrightarrow> \<exists>r. entry_of w q = Some r \<and> stage r = stage r'"
    and "\<And>r' t. entry_of w' p = Some r' \<Longrightarrow> stage r' = Runs t \<Longrightarrow> costs t m"
  shows "\<exists>f'. fits f' w' \<and> sum f' (pool w') < sum f (pool w)"
proof (intro exI conjI)
  show "fits (f(p := m)) w'" using assms(1,5,6) by (rule fits_update)
  have "sum (f(p := m)) (pool w') \<le> sum (f(p := m)) (pool w)" using assms(4) by (intro sum_mono2) auto
  also have "\<dots> < sum f (pool w)" using assms(2,3) by (intro spend_less) (auto intro: entry_pool)
  finally show "sum (f(p := m)) (pool w') < sum f (pool w)" .
qed

lemma spend_fork:
  assumes w: "fits f w" and e: "entry_of w p = Some r" "stage r = Runs (Fork k)" and s: "do_fork p r c k w = Some w'"
  shows "\<exists>f'. fits f' w' \<and> sum f' (pool w') < sum f (pool w)"
proof -
  from w e have "costs (Fork k) (f p)" unfolding fits_def by blast
  then obtain a b where ab: "a + b < f p" "costs (k 0) a" "\<And>c. c \<noteq> 0 \<Longrightarrow> costs (k c) b" by auto
  show ?thesis
  proof (cases "c = -1")
    case True
    with s have w': "w' = goes_on p (k (-1)) (w\<lparr>lost := True\<rparr>)" by simp
    have "pool w' = pool w" using pool_simps(1) [of p "k (-1)" "w\<lparr>lost := True\<rparr>"] by (simp add: w')
    then show ?thesis using ab by (intro spend_one [OF w e(1), of b]) (auto simp: w' find_simps)
  next
    case False
    with s have c: "fresh c w" and w': "w' = born c \<lparr>parent = p, buf = buf r, stage = Runs (k 0)\<rparr> (goes_on p (k c) w)"
      by (auto split: if_splits)
    have none: "entry_of w c = None" "c \<notin> pool w" "c \<noteq> 0" using c fresh_none by (auto simp: fresh_def)
    with e(1) have cp: "c \<noteq> p" by auto
    have "fits (f(p := b)) (goes_on p (k c) w)"
      using ab none(3) by (intro fits_update [OF w]) (auto simp: find_simps)
    then have "fits ((f(p := b))(c := a)) w'"
      unfolding w' using ab(2) none by (elim fits_update) (auto simp: find_simps split: option.splits if_splits)
    moreover have "sum ((f(p := b))(c := a)) (pool w') < sum f (pool w)"
    proof -
      have fin: "finite (pool w)" by simp
      have "sum ((f(p := b))(c := a)) (pool w') = a + sum ((f(p := b))(c := a)) (pool w)"
        using none(2) by (simp add: w')
      also have "sum ((f(p := b))(c := a)) (pool w) = sum (f(p := b)) (pool w)"
        using none(2) by (intro sum.cong) auto
      also have "sum (f(p := b)) (pool w) = b + sum f (pool w - {p})"
        using entry_pool [OF e(1)] fin by (subst sum.remove [of _ p]) (auto intro: sum.cong)
      also have "a + (b + sum f (pool w - {p})) < f p + sum f (pool w - {p})" using ab(1) by simp
      also have "\<dots> = sum f (pool w)" using entry_pool [OF e(1)] fin by (simp add: sum.remove)
      finally show ?thesis .
    qed
    ultimately show ?thesis by blast
  qed
qed

lemma spend_wait:
  assumes w: "fits f w" and e: "entry_of w p = Some r" "stage r = Runs (Wait v h k)" and s: "do_wait p c v h k w = Some w'"
  shows "\<exists>f'. fits f' w' \<and> sum f' (pool w') < sum f (pool w)"
proof -
  from w e have "costs (Wait v h k) (f p)" unfolding fits_def by blast
  then obtain m where m: "f p = Suc m" "\<And>c st. costs (k c st) m" by (auto split: nat.splits)
  from s consider (go) c' st where "w' = goes_on p (k c' st) w" | (reap) st where "w' = reaped c (goes_on p (k c st) w)"
  proof (cases "map_of (candidates p v w) c")
    case None
    with s go show thesis by (auto split: if_splits)
  next
    case (Some x)
    then have "candidates p v w \<noteq> []" by auto
    with Some s reap show thesis by (auto split: pstage.splits)
  qed
  then show ?thesis
  proof cases
    case go
    show ?thesis
      by (rule spend_one [OF w e(1), of m]) (use m in \<open>auto simp: go find_simps\<close>)
  next
    case reap
    show ?thesis
      by (rule spend_one [OF w e(1), of m]) (use m in \<open>auto simp: reap find_simps split: if_splits\<close>)
  qed
qed

lemma spend_step:
  assumes w: "fits f w" and e: "entry_of w p = Some r" "stage r = Runs t" and s: "step tty p c r t w = Some w'"
  shows "\<exists>f'. fits f' w' \<and> sum f' (pool w') < sum f (pool w)"
proof -
  from w e have t: "costs t (f p)" by (simp add: fits_def)
  note one = spend_one [OF w e(1)]
  show ?thesis
  proof (cases t)
    case (Print g u)
    with t obtain m where m: "f p = Suc m" "costs u m" by (auto split: nat.splits)
    from s Print have w': "w' = goes_on p u (do_print tty p r g w)" by simp
    show ?thesis unfolding w' by (rule one [of m]) (use m in \<open>auto simp: find_simps Let_def split: if_splits\<close>)
  next
    case (Fork k)
    with spend_fork [OF w e(1)] e(2) s show ?thesis by simp
  next
    case (Wait v h k)
    with spend_wait [OF w e(1)] e(2) s show ?thesis by simp
  next
    case (Exit n)
    from s Exit have w': "w' = ends_with p (n mod 256 * 256) (writes p (buf r) w)" by simp
    show ?thesis unfolding w' by (rule one [of 0]) (use t Exit in \<open>auto simp: find_simps\<close>)
  next
    case Abort
    from s Abort have w': "w' = ends_with p (if c = 0 then 6 else 134) w" by simp
    show ?thesis unfolding w' by (rule one [of 0]) (use t Abort in \<open>auto simp: find_simps\<close>)
  next
    case Spin
    with t show ?thesis by simp
  next
    case (Flush u)
    with t obtain m where m: "f p = Suc m" "costs u m" by (auto split: nat.splits)
    from s Flush have w': "w' = goes_on p u (buffers p [] (writes p (buf r) w))" by simp
    show ?thesis unfolding w' by (rule one [of m]) (use m in \<open>auto simp: find_simps\<close>)
  next
    case (Complain x u)
    with t obtain m where m: "f p = Suc m" "costs u m" by (auto split: nat.splits)
    from s Complain have w': "w' = goes_on p u (w\<lparr>err := err w @ [(p, x)]\<rparr>)" by simp
    show ?thesis unfolding w' by (rule one [of m]) (use m pool_simps(1) [of p u "w\<lparr>err := err w @ [(p, x)]\<rparr>"] in \<open>auto simp: find_simps\<close>)
  next
    case (Exec q u)
    with t obtain m where m: "f p = Suc m" "costs q m" "costs u m" by (auto split: nat.splits)
    from s Exec have w': "w' = (if c = 0 then goes_on p q (buffers p [] w) else goes_on p u w)" by simp
    show ?thesis unfolding w' by (rule one [of m]) (use m in \<open>auto simp: find_simps split: if_splits\<close>)
  qed
qed

lemma spend_act:
  assumes w: "fits f w" and s: "act tty e w = Some w'"
  shows "\<exists>f'. fits f' w' \<and> sum f' (pool w') < sum f (pool w)"
  using s
proof (cases rule: event_cases)
  case (step p c r t)
  with spend_step [OF w] show ?thesis by blast
next
  case (kill p g core r t)
  from kill(2,3) w have t: "costs t (f p)" by (simp add: fits_def)
  have pos: "0 < n" if "costs t n" for n using that by (cases t) (auto split: nat.splits)
  have "pool w' = pool w" using pool_simps(3) [of p _ "w\<lparr>lost := True\<rparr>"] by (simp add: kill(6))
  then show ?thesis
    by (intro spend_one [OF w kill(2), of 0]) (use pos [OF t] in \<open>auto simp: kill(6) find_simps\<close>)
qed

text \<open>The least number of steps that are enough bounds every run.\<close>

definition size_of :: "world \<Rightarrow> nat" where
  "size_of w = (LEAST n. \<exists>f. fits f w \<and> sum f (pool w) = n)"

definition bounded_world :: "world \<Rightarrow> bool" where
  "bounded_world w \<longleftrightarrow> well_formed w \<and> (\<exists>f. fits f w)"

lemma size_of_le: "fits f w \<Longrightarrow> size_of w \<le> sum f (pool w)"
  unfolding size_of_def by (rule Least_le) blast

lemma size_of_attained: "fits f w \<Longrightarrow> \<exists>f'. fits f' w \<and> sum f' (pool w) = size_of w"
  unfolding size_of_def by (rule LeastI_ex) blast

lemma size_of_less:
  assumes "fits f w" and "act tty e w = Some w'"
  shows "size_of w' < size_of w"
proof -
  obtain f1 where f1: "fits f1 w" "sum f1 (pool w) = size_of w" using size_of_attained assms(1) by blast
  from spend_act [OF f1(1) assms(2)] obtain f' where "fits f' w'" "sum f' (pool w') < sum f1 (pool w)" by blast
  with size_of_le f1(2) show ?thesis by fastforce
qed

text \<open>
  As long as a process runs, one can make a step without being killed: nobody after the last running process
  in the table runs, so its children have ended and it has nothing to wait for.
\<close>

lemma last_running:
  assumes "\<not> all_over w"
  obtains xs p r ys t where "table w = xs @ (p, r) # ys" "stage r = Runs t" "\<forall>x \<in> set ys. \<exists>st. stage (snd x) = Ended st"
proof -
  from assms have "\<exists>x \<in> set (table w). case stage (snd x) of Ended _ \<Rightarrow> False | Runs _ \<Rightarrow> True"
    unfolding all_over_def by (force split: pstage.splits)
  from split_list_last_prop [OF this] obtain xs x ys
    where x: "table w = xs @ x # ys" "case stage (snd x) of Ended _ \<Rightarrow> False | Runs _ \<Rightarrow> True"
      "\<forall>y \<in> set ys. \<not> (case stage (snd y) of Ended _ \<Rightarrow> False | Runs _ \<Rightarrow> True)" by blast
  obtain p r where p: "x = (p, r)" by (cases x)
  from x(2) p obtain t where "stage r = Runs t" by (auto split: pstage.splits)
  moreover have "\<forall>y \<in> set ys. \<exists>st. stage (snd y) = Ended st"
  proof
    fix y assume "y \<in> set ys"
    with x(3) show "\<exists>st. stage (snd y) = Ended st" by (cases "stage (snd y)") auto
  qed
  ultimately show thesis using that x(1) p by blast
qed

lemma no_child_before: "ordered (xs @ (p, r) # ys) \<Longrightarrow> (q, x) \<in> set (xs @ [(p, r)]) \<Longrightarrow> parent x \<noteq> p"
  by (induction xs) (auto simp: image_iff)

lemma wait_possible:
  assumes "ordered (table w)" and "table w = xs @ (p, r) # ys" and "\<forall>x \<in> set ys. \<exists>st. stage (snd x) = Ended st"
  shows "\<exists>c w'. do_wait p c v h k w = Some w'"
proof (cases "candidates p v w")
  case Nil
  then show ?thesis by simp
next
  case (Cons x cs)
  obtain c y where x: "x = (c, y)" by (cases x)
  have "x \<in> set (candidates p v w)" using Cons by simp
  then have m: "x \<in> set (table w)" "parent y = p" by (auto simp: candidates_def x)
  have "x \<notin> set (xs @ [(p, r)])" using no_child_before [of xs p r ys c y] assms(1,2) m(2) x by auto
  with m(1) assms(2) have "x \<in> set ys" by auto
  with assms(3) x obtain st where "stage y = Ended st" by force
  then have "do_wait p c v h k w = Some (reaped c (goes_on p (k c st) w))" by (simp add: Cons x)
  then show ?thesis by blast
qed

lemma step_possible:
  assumes "well_formed w" and "\<not> all_over w"
  shows "\<exists>p c w'. act tty (Step p c) w = Some w'"
proof -
  obtain xs p r ys t where t: "table w = xs @ (p, r) # ys" "stage r = Runs t" "\<forall>x \<in> set ys. \<exists>st. stage (snd x) = Ended st"
    using last_running [OF assms(2)] .
  have e: "entry_of w p = Some r"
    unfolding entry_of_def using assms(1) t(1) by (intro map_of_is_SomeI) (auto simp: well_formed_def)
  have o: "ordered (table w)" using assms(1) by (simp add: well_formed_def)
  have "\<exists>c w'. step tty p c r t w = Some w'"
  proof (cases t)
    case (Fork k)
    have "do_fork p r (-1) k w = Some (goes_on p (k (-1)) (w\<lparr>lost := True\<rparr>))" by simp
    with Fork show ?thesis by fastforce
  next
    case (Wait v h k)
    with wait_possible [OF o t(1,3)] show ?thesis by simp
  qed auto
  then obtain c w' where "step tty p c r t w = Some w'" by blast
  with e t(2) have "act tty (Step p c) w = Some w'" by simp
  then show ?thesis by blast
qed

definition boots :: "nat \<Rightarrow> world \<Rightarrow> bool" where
  "boots n w \<longleftrightarrow> (\<exists>p s t. 1 < p \<and> s \<noteq> p \<and> costs t n \<and> w = launch p s t)"

lemma size_boot: "costs t n \<Longrightarrow> size_of (launch p s t) \<le> n"
proof -
  assume "costs t n"
  then have "fits (\<lambda>_. n) (launch p s t)" by (simp add: fits_def launch_def entry_of_def)
  from size_of_le [OF this] show ?thesis by (simp add: launch_def)
qed

interpretation processes: terminating_protocol "act tty" "boots n" bounded_world size_of all_over for tty n
proof unfold_locales
  fix w w' e
  show "boots n w \<Longrightarrow> bounded_world w"
    by (auto simp: boots_def bounded_world_def intro!: wf_boot exI [of _ "\<lambda>_. n"]) (simp add: fits_def launch_def entry_of_def)
  show "bounded_world w \<Longrightarrow> act tty e w = Some w' \<Longrightarrow> bounded_world w'"
    using wf_act spend_act unfolding bounded_world_def by blast
  show "bounded_world w \<Longrightarrow> act tty e w = Some w' \<Longrightarrow> size_of w' < size_of w"
    using size_of_less unfolding bounded_world_def by blast
  show "bounded_world w \<Longrightarrow> \<not> all_over w \<Longrightarrow> \<exists>e w'. act tty e w = Some w'"
    using step_possible unfolding bounded_world_def by blast
qed

lemma run_ends:
  assumes "costs t n" and "1 < p" and "s \<noteq> p" and "run (act tty) es (launch p s t) = Some w"
  shows "length es \<le> n \<and> well_formed w \<and> ((\<forall>q c. act tty (Step q c) w = None) \<longrightarrow> all_over w)"
proof -
  have "boots n (launch p s t)" using assms(1-3) by (auto simp: boots_def)
  then have b: "bounded_world (launch p s t)" by (rule processes.inv_init)
  have "length es \<le> n" using processes.run_bound [OF b assms(4)] size_boot [OF assms(1), of p s] by simp
  moreover have w: "well_formed w" using processes.bounded.run_keeps [OF b assms(4)] by (simp add: bounded_world_def)
  moreover have "all_over w" if "\<forall>q c. act tty (Step q c) w = None"
    using step_possible [OF w, of tty] that by fastforce
  ultimately show ?thesis by blast
qed

section \<open>What is printed\<close>

text \<open>
  \<open>yields tty t own b\<close> are the outputs of \<open>t\<close> and of the processes it creates, one list of each, when every \<^verbatim>\<open>fork\<close>
  succeeds: \<open>own\<close> is what the process has written and \<open>b\<close> is its buffer. A child inherits the buffer.
\<close>

primrec yields :: "bool \<Rightarrow> prog \<Rightarrow> form list \<Rightarrow> form list \<Rightarrow> form list multiset" where
  "yields tty (Exit n) own b = {#own @ b#}"
| "yields tty Abort own b = {#own#}"
| "yields tty Spin own b = {#}"
| "yields tty (Print f t) own b = (if tty \<and> full_line f then yields tty t (own @ b @ [f]) [] else yields tty t own (b @ [f]))"
| "yields tty (Flush t) own b = yields tty t (own @ b) []"
| "yields tty (Complain s t) own b = yields tty t own b"
| "yields tty (Fork k) own b = yields tty (k 1) own b + yields tty (k 0) [] b"
| "yields tty (Wait v h k) own b = {#}"
| "yields tty (Exec q t) own b = {#}"

text \<open>Programs that neither wait nor execute others, and whose parents do not use the number of the child.\<close>

primrec plain :: "prog \<Rightarrow> bool" where
  "plain (Exit n) \<longleftrightarrow> True"
| "plain Abort \<longleftrightarrow> True"
| "plain Spin \<longleftrightarrow> True"
| "plain (Print f t) \<longleftrightarrow> plain t"
| "plain (Flush t) \<longleftrightarrow> plain t"
| "plain (Complain s t) \<longleftrightarrow> plain t"
| "plain (Fork k) \<longleftrightarrow> (\<forall>c. plain (k c)) \<and> (\<forall>c > 0. k c = k 1)"
| "plain (Wait v h k) \<longleftrightarrow> False"
| "plain (Exec q t) \<longleftrightarrow> False"

definition share :: "bool \<Rightarrow> world \<Rightarrow> pid \<Rightarrow> form list multiset" where
  "share tty w p = (case entry_of w p of
     Some r \<Rightarrow> (case stage r of
         Runs t \<Rightarrow> yields tty t (forms (written_by p w)) (forms (buf r))
       | Ended st \<Rightarrow> {#forms (written_by p w)#})
   | None \<Rightarrow> {#})"

definition all_plain :: "world \<Rightarrow> bool" where
  "all_plain w \<longleftrightarrow> (\<forall>p r t. entry_of w p = Some r \<longrightarrow> stage r = Runs t \<longrightarrow> plain t)"

definition conserved :: "bool \<Rightarrow> form list multiset \<Rightarrow> world \<Rightarrow> bool" where
  "conserved tty Y w \<longleftrightarrow> well_formed w \<and> all_plain w \<and> fst ` set (out w) \<subseteq> pool w \<and> (\<Sum>p \<in> pool w. share tty w p) = Y"

lemma written_writes: "written_by q (writes p b w) = written_by q w @ (if q = p then b else [])"
  by (auto simp: written_by_def writes_def filter_map o_def)

lemma written_simps [simp]:
  "written_by q (goes_on p t w) = written_by q w" "written_by q (buffers p b w) = written_by q w"
  "written_by q (ends_with p st w) = written_by q w" "written_by q (born c r w) = written_by q w"
  "written_by q (w\<lparr>lost := l\<rparr>) = written_by q w" "written_by q (w\<lparr>err := e\<rparr>) = written_by q w"
  by (simp_all add: written_by_def)

lemma written_none: "fst ` set (out w) \<subseteq> pool w \<Longrightarrow> entry_of w c = None \<Longrightarrow> written_by c w = []"
  by (auto simp: written_by_def filter_empty_conv entry_of_def map_of_eq_None_iff)

lemma out_writes_pool:
  assumes "fst ` set (out w) \<subseteq> pool w" and "p \<in> pool w"
  shows "fst ` set (out (writes p b w)) \<subseteq> pool w"
proof -
  have "fst ` set (out (writes p b w)) \<subseteq> insert p (fst ` set (out w))" by (auto simp: writes_def)
  with assms show ?thesis by blast
qed

lemma share_runs: "entry_of w p = Some r \<Longrightarrow> stage r = Runs t \<Longrightarrow> share tty w p = yields tty t (forms (written_by p w)) (forms (buf r))"
  by (simp add: share_def)

lemma share_same:
  assumes "\<And>r. entry_of w q = Some r \<Longrightarrow> \<exists>r'. entry_of w' q = Some r' \<and> stage r' = stage r \<and> (buf r' = buf r)"
    and "entry_of w q = None \<Longrightarrow> entry_of w' q = None" and "written_by q w' = written_by q w"
  shows "share tty w' q = share tty w q"
proof (cases "entry_of w q")
  case None
  with assms(2) show ?thesis by (simp add: share_def)
next
  case (Some r)
  with assms(1) obtain r' where "entry_of w' q = Some r'" "stage r' = stage r" "buf r' = buf r" by blast
  with Some assms(3) show ?thesis by (simp add: share_def split: pstage.split)
qed

lemma total_one:
  fixes g :: "pid \<Rightarrow> 'b :: comm_monoid_add"
  assumes "finite A" and "\<And>q. q \<in> A \<Longrightarrow> q \<noteq> p \<Longrightarrow> g q = h q" and "g p = h p"
  shows "sum g A = sum h A"
  using assms by (intro sum.cong) auto

text \<open>Steps that leave the other processes alone and keep what \<open>p\<close> is to print.\<close>

lemma conserve_one:
  assumes c: "conserved tty Y w" and e: "entry_of w p = Some r" and wf: "well_formed w'"
    and pool: "pool w' = pool w" and plain: "all_plain w'" and out: "fst ` set (out w') \<subseteq> pool w"
    and others: "\<And>q. q \<noteq> p \<Longrightarrow> share tty w' q = share tty w q" and own: "share tty w' p = share tty w p"
  shows "conserved tty Y w'"
proof -
  have "(\<Sum>q \<in> pool w. share tty w' q) = (\<Sum>q \<in> pool w. share tty w q)"
    by (rule total_one [of _ p]) (use others own in auto)
  with c wf pool plain out show ?thesis by (simp add: conserved_def)
qed

lemma plain_update:
  assumes "all_plain w" and "\<And>q r'. q \<noteq> p \<Longrightarrow> entry_of w' q = Some r' \<Longrightarrow> \<exists>r. entry_of w q = Some r \<and> stage r = stage r'"
    and "\<And>r' t. entry_of w' p = Some r' \<Longrightarrow> stage r' = Runs t \<Longrightarrow> plain t"
  shows "all_plain w'"
  using assms unfolding all_plain_def by metis

lemma conserve_fork:
  assumes c: "conserved tty Y w" and e: "entry_of w p = Some r" "stage r = Runs (Fork k)"
    and s: "do_fork p r a k w = Some w'" and ok: "\<not> lost w'"
  shows "conserved tty Y w'"
proof -
  from c have w: "well_formed w" "all_plain w" "fst ` set (out w) \<subseteq> pool w" "(\<Sum>p \<in> pool w. share tty w p) = Y"
    by (simp_all add: conserved_def)
  from s ok have a: "a \<noteq> -1" "fresh a w" and w': "w' = born a \<lparr>parent = p, buf = buf r, stage = Runs (k 0)\<rparr> (goes_on p (k a) w)"
    by (auto split: if_splits)
  have none: "entry_of w a = None" "a \<notin> pool w" "0 < a" using a fresh_none by (auto simp: fresh_def)
  have "plain (Fork k)" using w(2) e unfolding all_plain_def by blast
  then have "\<forall>c. plain (k c)" "\<forall>c > 0. k c = k 1" unfolding plain.simps by blast+
  with none(3) have pl: "\<And>c. plain (k c)" "k a = k 1" by blast+
  have wr: "written_by a w = []" using w(3) none(1) by (rule written_none)
  have fin: "finite (pool w)" and p: "p \<in> pool w" and pa: "p \<noteq> a" using e(1) none(2) by (auto intro: entry_pool)
  have others: "share tty w' q = share tty w q" if "q \<noteq> p" "q \<noteq> a" for q
    by (rule share_same) (use that in \<open>auto simp: w' find_simps split: option.splits\<close>)
  have parent: "share tty w' p = yields tty (k 1) (forms (written_by p w)) (forms (buf r))"
    using e pa pl(2) by (simp add: w' share_def find_simps)
  have child: "share tty w' a = yields tty (k 0) [] (forms (buf r))"
    using none(1) pa wr by (simp add: w' share_def find_simps)
  have "(\<Sum>q \<in> pool w'. share tty w' q) = share tty w' a + (\<Sum>q \<in> pool w. share tty w' q)"
    using fin none(2) by (simp add: w')
  also have "(\<Sum>q \<in> pool w. share tty w' q) = share tty w' p + (\<Sum>q \<in> pool w - {p}. share tty w' q)"
    using fin p by (rule sum.remove)
  also have "(\<Sum>q \<in> pool w - {p}. share tty w' q) = (\<Sum>q \<in> pool w - {p}. share tty w q)"
    by (rule sum.cong) (use others none(2) in auto)
  also have "share tty w' a + (share tty w' p + (\<Sum>q \<in> pool w - {p}. share tty w q)) =
      share tty w p + (\<Sum>q \<in> pool w - {p}. share tty w q)"
    using share_runs [OF e, of tty] by (simp add: parent child ac_simps)
  also have "\<dots> = Y" using sum.remove [OF fin p, of "share tty w"] w(4) by simp
  finally have "(\<Sum>q \<in> pool w'. share tty w' q) = Y" .
  moreover have "well_formed w'" using wf_do_fork [OF w(1) e s] .
  moreover have "all_plain w'"
    using w(2) pl(1) unfolding all_plain_def w' by (auto simp: find_simps split: option.splits if_splits)
  moreover have "fst ` set (out w') \<subseteq> pool w'" using w(3) by (auto simp: w')
  ultimately show ?thesis by (simp add: conserved_def)
qed

lemma conserve_step:
  assumes c: "conserved tty Y w" and e: "entry_of w p = Some r" "stage r = Runs t"
    and s: "step tty p a r t w = Some w'" and ok: "\<not> lost w'"
  shows "conserved tty Y w'"
proof -
  from c have w: "well_formed w" "all_plain w" "fst ` set (out w) \<subseteq> pool w" by (simp_all add: conserved_def)
  have wf: "well_formed w'" using wf_step [OF w(1) e s] .
  have t: "plain t" using w(2) e unfolding all_plain_def by blast
  have p: "p \<in> pool w" using e(1) by (rule entry_pool)
  note one = conserve_one [OF c e(1) wf]
  note sh = share_runs [OF e, of tty]
  show ?thesis
  proof (cases t)
    case (Fork k)
    with conserve_fork [OF c e(1)] e(2) s ok show ?thesis by simp
  next
    case (Print f u)
    from s Print have w': "w' = goes_on p u (do_print tty p r f w)" by simp
    show ?thesis
    proof (rule one)
      show "pool w' = pool w" by (simp add: w' Let_def)
      show "all_plain w'"
        by (rule plain_update [OF w(2), of p]) (use t Print in \<open>auto simp: w' Let_def find_simps split: if_splits\<close>)
      show "fst ` set (out w') \<subseteq> pool w" using w(3) out_writes_pool [OF w(3) p] by (simp add: w' Let_def)
      show "share tty w' q = share tty w q" if "q \<noteq> p" for q
        by (rule share_same) (use that in \<open>auto simp: w' Let_def find_simps written_writes split: if_splits\<close>)
      show "share tty w' p = share tty w p"
        using e sh Print by (simp add: w' Let_def share_def find_simps written_writes)
    qed
  next
    case (Flush u)
    from s Flush have w': "w' = goes_on p u (buffers p [] (writes p (buf r) w))" by simp
    show ?thesis
    proof (rule one)
      show "pool w' = pool w" by (simp add: w')
      show "all_plain w'" by (rule plain_update [OF w(2), of p]) (use t Flush in \<open>auto simp: w' find_simps\<close>)
      show "fst ` set (out w') \<subseteq> pool w" using out_writes_pool [OF w(3) p] by (simp add: w')
      show "share tty w' q = share tty w q" if "q \<noteq> p" for q
        by (rule share_same) (use that in \<open>auto simp: w' find_simps written_writes\<close>)
      show "share tty w' p = share tty w p"
        using e sh Flush by (simp add: w' share_def find_simps written_writes)
    qed
  next
    case (Exit n)
    from s Exit have w': "w' = ends_with p (n mod 256 * 256) (writes p (buf r) w)" by simp
    show ?thesis
    proof (rule one)
      show "pool w' = pool w" by (simp add: w')
      show "all_plain w'" by (rule plain_update [OF w(2), of p]) (auto simp: w' find_simps)
      show "fst ` set (out w') \<subseteq> pool w" using out_writes_pool [OF w(3) p] by (simp add: w')
      show "share tty w' q = share tty w q" if "q \<noteq> p" for q
        by (rule share_same) (use that in \<open>auto simp: w' find_simps written_writes\<close>)
      show "share tty w' p = share tty w p"
        using e sh Exit by (simp add: w' share_def find_simps written_writes)
    qed
  next
    case Abort
    from s Abort have w': "w' = ends_with p (if a = 0 then 6 else 134) w" by simp
    show ?thesis
    proof (rule one)
      show "pool w' = pool w" by (simp add: w')
      show "all_plain w'" by (rule plain_update [OF w(2), of p]) (auto simp: w' find_simps)
      show "fst ` set (out w') \<subseteq> pool w" using w(3) by (simp add: w')
      show "share tty w' q = share tty w q" if "q \<noteq> p" for q
        by (rule share_same) (use that in \<open>auto simp: w' find_simps\<close>)
      show "share tty w' p = share tty w p" using e sh Abort by (simp add: w' share_def find_simps)
    qed
  next
    case (Complain x u)
    from s Complain have w': "w' = goes_on p u (w\<lparr>err := err w @ [(p, x)]\<rparr>)" by simp
    show ?thesis
    proof (rule one)
      show "pool w' = pool w" using pool_simps(1) [of p u "w\<lparr>err := err w @ [(p, x)]\<rparr>"] by (simp add: w')
      show "all_plain w'" by (rule plain_update [OF w(2), of p]) (use t Complain in \<open>auto simp: w' find_simps\<close>)
      show "fst ` set (out w') \<subseteq> pool w" using w(3) by (simp add: w')
      show "share tty w' q = share tty w q" if "q \<noteq> p" for q
        by (rule share_same) (use that in \<open>auto simp: w' find_simps\<close>)
      show "share tty w' p = share tty w p" using e sh Complain by (simp add: w' share_def find_simps)
    qed
  qed (use c s t in simp_all)
qed

lemma conserved_boot:
  assumes "1 < p" and "s \<noteq> p" and "plain t"
  shows "conserved tty (yields tty t [] []) (launch p s t)"
proof -
  have "all_plain (launch p s t)" using assms(3) by (auto simp: all_plain_def launch_def entry_of_def split: if_splits)
  moreover have "share tty (launch p s t) p = yields tty t [] []" by (simp add: share_def launch_def entry_of_def written_by_def)
  ultimately show ?thesis using wf_boot [OF assms(1,2)] by (simp add: conserved_def) (simp add: launch_def)
qed

lemma lost_kept: "act tty e w = Some w' \<Longrightarrow> lost w \<Longrightarrow> lost w'"
  by (cases e)
    (auto simp: Let_def split: option.splits pstage.splits if_splits elim!: step.elims)

interpretation forked: guarded_protocol "act tty" "\<lambda>w. \<exists>p s t. 1 < p \<and> s \<noteq> p \<and> plain t \<and> yields tty t [] [] = Y \<and> w = launch p s t"
  "\<lambda>w. \<not> lost w" "conserved tty Y" for tty Y
proof unfold_locales
  fix w w' e
  show "\<exists>p s t. 1 < p \<and> s \<noteq> p \<and> plain t \<and> yields tty t [] [] = Y \<and> w = launch p s t \<Longrightarrow> conserved tty Y w"
    using conserved_boot by blast
  show "act tty e w = Some w' \<Longrightarrow> \<not> lost w' \<Longrightarrow> \<not> lost w" using lost_kept by blast
  show "conserved tty Y w \<Longrightarrow> act tty e w = Some w' \<Longrightarrow> \<not> lost w' \<Longrightarrow> conserved tty Y w'"
    by (auto elim!: event_cases intro: conserve_step)
qed

text \<open>What the processes have written when all have ended and no \<^verbatim>\<open>fork\<close> failed.\<close>

definition outputs :: "world \<Rightarrow> form list multiset" where
  "outputs w = image_mset (\<lambda>p. forms (written_by p w)) (mset (pids w))"

lemma prints_all:
  assumes "plain t" and "1 < p" and "s \<noteq> p" and "run (act tty) es (launch p s t) = Some w" and "\<not> lost w" and "all_over w"
  shows "outputs w = yields tty t [] []"
proof -
  have c: "conserved tty (yields tty t [] []) w"
    by (rule forked.reach_inv [OF run_reach [OF assms(4)]]) (use assms in blast)+
  then have wf: "distinct (pids w)" by (simp add: conserved_def well_formed_def)
  have share: "share tty w q = {#forms (written_by q w)#}" if q: "q \<in> pool w" for q
  proof -
    obtain r where r: "entry_of w q = Some r" using q by (cases "entry_of w q") (auto simp: entry_of_def map_of_eq_None_iff)
    have "case stage r of Ended _ \<Rightarrow> True | Runs _ \<Rightarrow> False" using assms(6) entry_in [OF r] unfolding all_over_def by force
    then obtain st where "stage r = Ended st" by (cases "stage r") auto
    with r show ?thesis by (simp add: share_def)
  qed
  have "outputs w = (\<Sum>q \<in> pool w. {#forms (written_by q w)#})"
    using wf by (simp add: outputs_def sum_unfold_sum_mset mset_set_set flip: set_map)
  also have "\<dots> = (\<Sum>q \<in> pool w. share tty w q)" using share by simp
  also have "\<dots> = yields tty t [] []" using c by (simp add: conserved_def)
  finally show ?thesis .
qed

end
