(* ===== verification/Forks.thy ===== *)
theory Forks
  imports Processes
begin

text \<open>
  The programs of \<^verbatim>\<open>07_Processes\<close> that only create processes: \<^verbatim>\<open>child.c\<close>, \<^verbatim>\<open>child2.c\<close>, \<^verbatim>\<open>child3.c\<close>, \<^verbatim>\<open>child4.c\<close>,
  \<^verbatim>\<open>waise.c\<close> and \<^verbatim>\<open>zombie.c\<close>. What \<^verbatim>\<open>%p\<close> prints of the two variables is an argument.
\<close>

section \<open>Identities\<close>

text \<open>
  A program that writes its buffer before each \<^verbatim>\<open>fork\<close>: \<open>d\<close> tells whether something may be in the buffer.
\<close>

primrec flushes :: "bool \<Rightarrow> prog \<Rightarrow> bool \<Rightarrow> bool" where
  "flushes tty (Exit n) d \<longleftrightarrow> True"
| "flushes tty Abort d \<longleftrightarrow> True"
| "flushes tty Spin d \<longleftrightarrow> True"
| "flushes tty (Print f t) d \<longleftrightarrow> flushes tty t (\<not> (tty \<and> full_line f))"
| "flushes tty (Flush t) d \<longleftrightarrow> flushes tty t False"
| "flushes tty (Complain s t) d \<longleftrightarrow> flushes tty t d"
| "flushes tty (Fork k) d \<longleftrightarrow> \<not> d \<and> (\<forall>c. flushes tty (k c) False)"
| "flushes tty (Wait v h k) d \<longleftrightarrow> (\<forall>c st. flushes tty (k c st) d)"
| "flushes tty (Exec q t) d \<longleftrightarrow> flushes tty q False \<and> flushes tty t d"

text \<open>
  \<open>line_of q u qs\<close>: the numbers of a parent that a process has printed are those of \<open>q\<close>, who created it, and
  then those of process 1; \<open>u\<close> is its parent now.
\<close>

definition line_of :: "pid \<Rightarrow> pid \<Rightarrow> pid list \<Rightarrow> bool" where
  "line_of q u qs \<longleftrightarrow> (\<exists>m n. qs = replicate m q @ replicate n 1 \<and> (n = 0 \<or> u = 1) \<and> (u = q \<or> u = 1))"

definition own_lines :: "pid \<Rightarrow> bool \<Rightarrow> world \<Rightarrow> pid \<Rightarrow> proc \<Rightarrow> bool" where
  "own_lines root tty w p r \<longleftrightarrow>
     (\<forall>t. stage r = Runs t \<longrightarrow> flushes tty t (buf r \<noteq> []) \<and> plain t) \<and>
     (\<forall>x \<in> set (written_by p w @ buf r). fst (snd x) = p) \<and>
     (\<exists>q. line_of q (parent r) (map (\<lambda>x. snd (snd x)) (written_by p w @ buf r)) \<and> (p \<noteq> root \<longrightarrow> q \<in> pool w - {p}))"

definition families :: "pid \<Rightarrow> bool \<Rightarrow> world \<Rightarrow> bool" where
  "families root tty w \<longleftrightarrow> well_formed w \<and> root \<in> pool w \<and> fst ` set (out w) \<subseteq> pool w \<and>
     (\<forall>p r. entry_of w p = Some r \<longrightarrow> own_lines root tty w p r)"

lemma line_of_Nil [simp]: "line_of q q []"
  by (auto simp: line_of_def)

lemma line_of_snoc: "line_of q u qs \<Longrightarrow> line_of q u (qs @ [u])"
proof -
  assume "line_of q u qs"
  then obtain m n where mn: "qs = replicate m q @ replicate n 1" "n = 0 \<or> u = 1" "u = q \<or> u = 1"
    unfolding line_of_def by blast
  show ?thesis
  proof (cases "u = 1")
    case True
    then have "qs @ [u] = replicate m q @ replicate (Suc n) 1" using mn(1) by (simp add: replicate_append_same)
    with True show ?thesis unfolding line_of_def by blast
  next
    case False
    with mn have "qs @ [u] = replicate (Suc m) q @ replicate 0 1" "u = q" by (simp_all add: replicate_append_same)
    then show ?thesis unfolding line_of_def by blast
  qed
qed

lemma line_of_adopted: "line_of q u qs \<Longrightarrow> line_of q 1 qs"
  by (auto simp: line_of_def)

text \<open>A step of \<open>p\<close>: the others keep what they had, but may lose their parent.\<close>

lemma families_step:
  assumes f: "families root tty w" and wf: "well_formed w'" and pool: "pool w \<subseteq> pool w'"
    and out: "fst ` set (out w') \<subseteq> pool w'"
    and others: "\<And>q r'. q \<noteq> p \<Longrightarrow> entry_of w' q = Some r' \<Longrightarrow>
      \<exists>r. entry_of w q = Some r \<and> stage r' = stage r \<and> buf r' = buf r \<and> (parent r' = parent r \<or> parent r' = 1) \<and> written_by q w' = written_by q w"
    and own: "\<And>r'. entry_of w' p = Some r' \<Longrightarrow> own_lines root tty w' p r'"
  shows "families root tty w'"
  unfolding families_def
proof (intro conjI allI impI)
  fix q r'
  assume e: "entry_of w' q = Some r'"
  show "own_lines root tty w' q r'"
  proof (cases "q = p")
    case True
    with e own show ?thesis by simp
  next
    case False
    from others [OF False e] obtain r where r: "entry_of w q = Some r" "stage r' = stage r" "buf r' = buf r"
      "parent r' = parent r \<or> parent r' = 1" "written_by q w' = written_by q w" by blast
    from f r(1) have o: "own_lines root tty w q r" by (simp add: families_def)
    then obtain u where "line_of u (parent r) (map (\<lambda>x. snd (snd x)) (written_by q w @ buf r))" "q \<noteq> root \<longrightarrow> u \<in> pool w - {q}"
      unfolding own_lines_def by blast
    moreover from this(1) r(4) have "line_of u (parent r') (map (\<lambda>x. snd (snd x)) (written_by q w @ buf r))"
      using line_of_adopted by metis
    ultimately have "\<exists>u. line_of u (parent r') (map (\<lambda>x. snd (snd x)) (written_by q w @ buf r)) \<and> (q \<noteq> root \<longrightarrow> u \<in> pool w' - {q})"
      using pool by blast
    with o show ?thesis unfolding own_lines_def r(2,3,5) by blast
  qed
qed (use f wf out pool in \<open>auto simp: families_def\<close>)

lemma line_of_prefix: "line_of q u (xs @ ys) \<Longrightarrow> line_of q u xs"
proof -
  assume "line_of q u (xs @ ys)"
  then obtain m n where mn: "xs @ ys = replicate m q @ replicate n 1" "n = 0 \<or> u = 1" "u = q \<or> u = 1"
    unfolding line_of_def by blast
  from arg_cong [OF mn(1), of "take (length xs)"]
  have "xs = replicate (min (length xs) m) q @ replicate (min (length xs - m) n) 1" by (simp add: take_replicate)
  moreover have "min (length xs - m) n = 0 \<or> u = 1" using mn(2) by auto
  ultimately show ?thesis using mn(3) unfolding line_of_def by blast
qed

abbreviation ppids :: "shown_line list \<Rightarrow> pid list" where "ppids \<equiv> map (\<lambda>x. snd (snd x))"

lemma own_linesI:
  assumes "own_lines root tty w p r" and "pool w \<subseteq> pool w'" and "parent r' = parent r"
    and "prefix (written_by p w' @ buf r') (written_by p w @ buf r)"
    and "\<And>t. stage r' = Runs t \<Longrightarrow> flushes tty t (buf r' \<noteq> []) \<and> plain t"
  shows "own_lines root tty w' p r'"
proof -
  from assms(1) obtain q where q: "line_of q (parent r) (ppids (written_by p w @ buf r))" "p \<noteq> root \<longrightarrow> q \<in> pool w - {p}"
    unfolding own_lines_def by blast
  from assms(4) obtain zs where zs: "written_by p w @ buf r = (written_by p w' @ buf r') @ zs" by (rule prefixE)
  from q(1) have "line_of q (parent r') (ppids (written_by p w' @ buf r'))"
    unfolding zs assms(3) map_append [of _ _ zs] by (rule line_of_prefix)
  moreover have "\<forall>x \<in> set ((written_by p w' @ buf r') @ zs). fst (snd x) = p"
    using assms(1) unfolding own_lines_def zs by blast
  then have "\<forall>x \<in> set (written_by p w' @ buf r'). fst (snd x) = p" by (simp del: append_assoc)
  moreover have "p \<noteq> root \<longrightarrow> q \<in> pool w' - {p}" using q(2) assms(2) by blast
  ultimately show ?thesis using assms(5) unfolding own_lines_def by blast
qed

lemma own_lines_snoc:
  assumes "own_lines root tty w p r" and "pool w \<subseteq> pool w'" and "parent r' = parent r"
    and "written_by p w' @ buf r' = (written_by p w @ buf r) @ [(f, p, parent r)]"
    and "\<And>t. stage r' = Runs t \<Longrightarrow> flushes tty t (buf r' \<noteq> []) \<and> plain t"
  shows "own_lines root tty w' p r'"
proof -
  from assms(1) obtain q where q: "line_of q (parent r) (ppids (written_by p w @ buf r))" "p \<noteq> root \<longrightarrow> q \<in> pool w - {p}"
    unfolding own_lines_def by blast
  from line_of_snoc [OF q(1)] have "line_of q (parent r') (ppids (written_by p w' @ buf r'))"
    unfolding assms(3,4) by simp
  moreover have "\<forall>x \<in> set (written_by p w' @ buf r'). fst (snd x) = p"
    using assms(1) unfolding own_lines_def assms(4) by auto
  moreover have "p \<noteq> root \<longrightarrow> q \<in> pool w' - {p}" using q(2) assms(2) by blast
  ultimately show ?thesis using assms(5) unfolding own_lines_def by blast
qed

lemma families_fork:
  assumes f: "families root tty w" and e: "entry_of w p = Some r" "stage r = Runs (Fork k)"
    and s: "do_fork p r a k w = Some w'"
  shows "families root tty w'"
proof -
  from f have w: "well_formed w" "fst ` set (out w) \<subseteq> pool w" by (simp_all add: families_def)
  from f e(1) have o: "own_lines root tty w p r" by (simp add: families_def)
  then have fl: "flushes tty (Fork k) (buf r \<noteq> [])" "plain (Fork k)" using e(2) unfolding own_lines_def by blast+
  then have b: "buf r = []" and k: "\<And>c. flushes tty (k c) False" "\<And>c. plain (k c)" by auto
  have wf: "well_formed w'" using wf_do_fork [OF w(1) e s] .
  have p: "p \<in> pool w" using e(1) by (rule entry_pool)
  show ?thesis
  proof (cases "a = -1")
    case True
    with s have w': "w' = goes_on p (k (-1)) (w\<lparr>lost := True\<rparr>)" by simp
    have pool: "pool w' = pool w" using pool_simps(1) [of p "k (-1)" "w\<lparr>lost := True\<rparr>"] by (simp add: w')
    show ?thesis
    proof (rule families_step [OF f wf, of p])
      show "own_lines root tty w' p r'" if "entry_of w' p = Some r'" for r'
        by (rule own_linesI [OF o]) (use that e(1) k b pool in \<open>auto simp: w' find_simps\<close>)
    qed (use w(2) pool in \<open>auto simp: w' find_simps\<close>)
  next
    case False
    with s have a: "fresh a w" and w': "w' = born a \<lparr>parent = p, buf = buf r, stage = Runs (k 0)\<rparr> (goes_on p (k a) w)"
      by (auto split: if_splits)
    have none: "entry_of w a = None" "a \<notin> pool w" using a fresh_none by (auto simp: fresh_def)
    have pa: "p \<noteq> a" using e(1) none(1) by auto
    have wr: "written_by a w = []" using w(2) none(1) by (rule written_none)
    have pool: "pool w' = insert a (pool w)" by (simp add: w')
    have child: "own_lines root tty w' a \<lparr>parent = p, buf = [], stage = Runs (k 0)\<rparr>"
      using k p pa wr pool unfolding own_lines_def w' by (auto intro!: exI [of _ p])
    have par: "own_lines root tty w' p (r\<lparr>stage := Runs (k a)\<rparr>)"
      by (rule own_linesI [OF o]) (use k b pool in \<open>auto simp: w'\<close>)
    show ?thesis unfolding families_def
    proof (intro conjI allI impI)
      fix q r'
      assume e': "entry_of w' q = Some r'"
      consider "q = a" | "q = p" | "q \<noteq> a" "q \<noteq> p" by blast
      then show "own_lines root tty w' q r'"
      proof cases
        case 1
        with e' none(1) b child pa show ?thesis by (auto simp: w' find_simps)
      next
        case 2
        with e' e(1) pa par show ?thesis by (auto simp: w' find_simps)
      next
        case 3
        with e' have "entry_of w q = Some r'" by (auto simp: w' find_simps split: option.splits)
        with f have o': "own_lines root tty w q r'" by (simp add: families_def)
        then have "\<forall>t. stage r' = Runs t \<longrightarrow> flushes tty t (buf r' \<noteq> []) \<and> plain t" unfolding own_lines_def by blast
        then show ?thesis by (intro own_linesI [OF o']) (auto simp: pool w')
      qed
    qed (use f wf w(2) pool in \<open>auto simp: families_def w'\<close>)
  qed
qed

text \<open>A process that is stopped from outside loses its buffer.\<close>

lemma families_end:
  assumes f: "families root tty w" and e: "entry_of w p = Some r" "stage r = Runs t"
  shows "families root tty (ends_with p st w)"
proof (rule families_step [OF f, of _ p])
  from f have w: "well_formed w" "fst ` set (out w) \<subseteq> pool w" by (simp_all add: families_def)
  from f e(1) have o: "own_lines root tty w p r" by (simp add: families_def)
  show "well_formed (ends_with p st w)" using w(1) e(1) by (rule wf_ends_with)
  show "fst ` set (out (ends_with p st w)) \<subseteq> pool (ends_with p st w)" using w(2) by simp
  show "own_lines root tty (ends_with p st w) p r'" if "entry_of (ends_with p st w) p = Some r'" for r'
    by (rule own_linesI [OF o]) (use that e(1) in \<open>auto simp: find_simps\<close>)
qed (auto simp: find_simps)

lemma families_keep:
  assumes f: "families root tty w" and e: "entry_of w p = Some r" "stage r = Runs t"
    and s: "step tty p a r t w = Some w'"
  shows "families root tty w'"
proof -
  from f have w: "well_formed w" "fst ` set (out w) \<subseteq> pool w" by (simp_all add: families_def)
  from f e(1) have o: "own_lines root tty w p r" by (simp add: families_def)
  then have t: "flushes tty t (buf r \<noteq> [])" "plain t" using e(2) unfolding own_lines_def by blast+
  have wf: "well_formed w'" using wf_step [OF w(1) e s] .
  have p: "p \<in> pool w" using e(1) by (rule entry_pool)
  note outs = out_writes_pool [OF w(2) p]
  note one = families_step [OF f wf, of p]
  show ?thesis
  proof (cases t)
    case (Fork k)
    with families_fork [OF f e(1)] e(2) s show ?thesis by simp
  next
    case (Print g u)
    from s Print have w': "w' = goes_on p u (do_print tty p r g w)" by simp
    show ?thesis
    proof (rule one)
      show "own_lines root tty w' p r'" if "entry_of w' p = Some r'" for r'
        by (rule own_lines_snoc [OF o, of _ _ g])
          (use that e(1) t Print in \<open>auto simp: w' Let_def find_simps written_writes split: if_splits\<close>)
    qed (use w(2) outs in \<open>auto simp: w' Let_def find_simps written_writes split: if_splits\<close>)
  next
    case (Flush u)
    from s Flush have w': "w' = goes_on p u (buffers p [] (writes p (buf r) w))" by simp
    show ?thesis
    proof (rule one)
      show "own_lines root tty w' p r'" if "entry_of w' p = Some r'" for r'
        by (rule own_linesI [OF o]) (use that e(1) t Flush in \<open>auto simp: w' find_simps written_writes\<close>)
    qed (use w(2) outs in \<open>auto simp: w' find_simps written_writes\<close>)
  next
    case (Exit n)
    from s Exit have w': "w' = ends_with p (n mod 256 * 256) (writes p (buf r) w)" by simp
    show ?thesis
    proof (rule one)
      show "own_lines root tty w' p r'" if "entry_of w' p = Some r'" for r'
        by (rule own_linesI [OF o]) (use that e(1) in \<open>auto simp: w' find_simps written_writes\<close>)
    qed (use w(2) outs in \<open>auto simp: w' find_simps written_writes split: if_splits\<close>)
  next
    case Abort
    from s Abort have w': "w' = ends_with p (if a = 0 then 6 else 134) w" by simp
    show ?thesis unfolding w' by (rule families_end [OF f e])
  next
    case (Complain x u)
    from s Complain have w': "w' = goes_on p u (w\<lparr>err := err w @ [(p, x)]\<rparr>)" by simp
    have pool: "pool w' = pool w" using pool_simps(1) [of p u "w\<lparr>err := err w @ [(p, x)]\<rparr>"] by (simp add: w')
    show ?thesis
    proof (rule one)
      show "own_lines root tty w' p r'" if "entry_of w' p = Some r'" for r'
        by (rule own_linesI [OF o]) (use that e(1) t Complain pool in \<open>auto simp: w' find_simps\<close>)
    qed (use w(2) pool in \<open>auto simp: w' find_simps\<close>)
  qed (use f s t in simp_all)
qed

definition starts_flushing :: "pid \<Rightarrow> bool \<Rightarrow> world \<Rightarrow> bool" where
  "starts_flushing root tty w \<longleftrightarrow> (\<exists>s t. 1 < root \<and> s \<noteq> root \<and> plain t \<and> flushes tty t False \<and> w = launch root s t)"

lemma families_boot: "starts_flushing root tty w \<Longrightarrow> families root tty w"
proof -
  assume "starts_flushing root tty w"
  then obtain s t where a: "1 < root" "s \<noteq> root" "plain t" "flushes tty t False" "w = launch root s t"
    unfolding starts_flushing_def by blast
  have "own_lines root tty (launch root s t) root \<lparr>parent = s, buf = [], stage = Runs t\<rparr>"
    unfolding own_lines_def using a(3,4) by (auto simp: written_by_def launch_def intro!: exI [of _ s])
  then have "\<forall>p r. entry_of (launch root s t) p = Some r \<longrightarrow> own_lines root tty (launch root s t) p r"
    by (simp add: launch_def entry_of_def)
  then show ?thesis using wf_boot [OF a(1,2), of t] unfolding a(5) families_def by (simp add: launch_def)
qed

interpretation families: protocol "act tty" "starts_flushing root tty" "families root tty" for root tty
proof unfold_locales
  fix w w' e
  show "starts_flushing root tty w \<Longrightarrow> families root tty w" by (rule families_boot)
  assume f: "families root tty w" and a: "act tty e w = Some w'"
  from a show "families root tty w'"
  proof (cases rule: event_cases)
    case (step p c r t)
    with families_keep [OF f] show ?thesis by blast
  next
    case (kill p g core r t)
    have "families root tty (w\<lparr>lost := True\<rparr>)" using f by (simp add: families_def own_lines_def)
    from families_end [OF this] kill show ?thesis by simp
  qed
qed

section \<open>child.c, child2.c, child3.c\<close>

text \<open>The lines of one block: a heading and the two variables with their addresses.\<close>

definition var_line :: "string \<Rightarrow> int \<Rightarrow> string \<Rightarrow> form" where
  "var_line name v adr = [Lit (name @ show_int v @ ''; Speicheradresse: '' @ adr @ [LF])]"

definition block :: "string \<Rightarrow> string \<Rightarrow> form \<Rightarrow> int \<Rightarrow> int \<Rightarrow> form list" where
  "block ga la head g l = [head, var_line ''global_var = '' g ga, var_line ''lokal_var  = '' l la]"

fun prints :: "form list \<Rightarrow> prog \<Rightarrow> prog" where
  "prints [] t = t"
| "prints (f # fs) t = Print f (prints fs t)"

definition kind :: form where "kind = [Lit (''--- Im Kindprocess ---'' @ [LF])]"
definition eltern :: form where "eltern = [Lit (''--- Im Elternprozess ---'' @ [LF])]"

text \<open>\<open>flush\<close> is \<^verbatim>\<open>fflush(stdout)\<close>, which only \<^verbatim>\<open>child2.c\<close> calls after each block.\<close>

definition two_blocks :: "(prog \<Rightarrow> prog) \<Rightarrow> string \<Rightarrow> string \<Rightarrow> int \<Rightarrow> int \<Rightarrow> int \<Rightarrow> prog" where
  "two_blocks flush ga la g l c =
     (if c = -1 then Print [Lit (''Fehler bei fork()'' @ [LF])] (Exit 0)
      else if c = 0 then
        prints (block ga la kind g l) (flush (prints (block ga la kind (g + 1) (l + 1)) (flush (Exit 0))))
      else
        prints (block ga la eltern g l) (flush (prints (block ga la eltern g l) (flush (Exit 0)))))"

definition child1_main :: "string \<Rightarrow> string \<Rightarrow> prog" where
  "child1_main ga la = Fork (two_blocks (\<lambda>t. t) ga la 1 1)"

definition child2_main :: "string \<Rightarrow> string \<Rightarrow> prog" where
  "child2_main ga la = Fork (two_blocks Flush ga la 1 1)"

definition with_pid :: "string \<Rightarrow> form" where
  "with_pid h = [Lit (''--- '' @ h @ '' (''), Pid, Lit ('') ---'' @ [LF])]"

text \<open>In \<^verbatim>\<open>child3.c\<close> the child creates a process of its own; both go on in the same branch.\<close>

definition second_fork :: "string \<Rightarrow> string \<Rightarrow> int \<Rightarrow> int \<Rightarrow> int \<Rightarrow> prog" where
  "second_fork ga la g l c =
     (if c = -1 then Print [Lit (''Fehler bei fork() (2)'' @ [LF])] (Exit 0)
      else prints (block ga la (with_pid ''Im Kind-Kindprocess'') g l) (Flush (Exit 0)))"

definition child3_branch :: "string \<Rightarrow> string \<Rightarrow> int \<Rightarrow> int \<Rightarrow> int \<Rightarrow> prog" where
  "child3_branch ga la g l c =
     (if c = -1 then Print [Lit (''Fehler bei fork()'' @ [LF])] (Exit 0)
      else if c = 0 then
        prints (block ga la (with_pid ''Im Kindprocess'') g l) (Flush (Fork (second_fork ga la (g + 1) (l + 1))))
      else prints (block ga la (with_pid ''Im Elternprozess'') g l) (Flush (Exit 0)))"

definition child3_main :: "string \<Rightarrow> string \<Rightarrow> prog" where
  "child3_main ga la = Fork (child3_branch ga la 1 1)"

section \<open>child4.c\<close>

definition nth_fork :: "nat \<Rightarrow> form" where
  "nth_fork i = [Lit (show_nat i @ ''. fork()'' @ [LF])]"

definition pid_line :: form where
  "pid_line = [Lit ''PID: '', Pid, Lit '' PPID: '', PPid, Lit [LF]]"

definition child4_main :: prog where
  "child4_main =
     Print (nth_fork 1) (Flush (Fork (\<lambda>_.
     Print (nth_fork 2) (Flush (Fork (\<lambda>_.
     Print (nth_fork 3) (Flush (Fork (\<lambda>_.
     Print pid_line (Flush (Exit 0)))))))))))"

section \<open>waise.c, zombie.c\<close>

definition parent_line :: form where
  "parent_line = [Lit ''Elternprozess: '', PPid, Lit [LF]]"

definition im_kind :: form where "im_kind = with_pid ''Im Kindprozess''"
definition im_eltern :: form where "im_eltern = with_pid ''Im Elternprozess''"

definition waise_main :: prog where
  "waise_main = Fork (\<lambda>c.
     if c = -1 then Print [Lit ''Fehler bei fork()''] (Exit 0)
     else if c = 0 then prints [im_kind, parent_line, im_kind, parent_line] (Exit 0)
     else prints [im_eltern, [Lit (''--- Elternprozess endet vorzeitig ---'' @ [LF])]] (Exit 0))"

definition zombie_main :: prog where
  "zombie_main = Fork (\<lambda>c.
     if c = -1 then Print [Lit ''Fehler bei fork()''] (Exit 0)
     else if c = 0 then prints [im_kind, parent_line, [Lit (''Kindprozess beendet sich!!!'' @ [LF])]] (Exit 0)
     else prints [im_eltern, [Lit (''--- Beenden mit <ctrl>-<c>---'' @ [LF])]] Spin)"

section \<open>Facts about the programs\<close>

lemmas fork_texts = child1_main_def child2_main_def child3_main_def child4_main_def waise_main_def zombie_main_def

lemmas fork_branches = two_blocks_def second_fork_def child3_branch_def

lemma plain_prints [simp]: "plain (prints fs t) = plain t"
  by (induction fs) auto

lemma fork_plain:
  "plain (child1_main ga la)" "plain (child2_main ga la)" "plain (child3_main ga la)" "plain child4_main"
  "plain waise_main" "plain zombie_main"
  by (auto simp: fork_texts fork_branches)

lemma yields_prints:
  "\<not> tty \<Longrightarrow> yields tty (prints fs t) own b = yields tty t own (b @ fs)"
  by (induction fs arbitrary: b) auto

lemma yields_prints_tty:
  "\<forall>f \<in> set fs. full_line f \<Longrightarrow> yields True (prints fs t) own [] = yields True t (own @ fs) []"
  by (induction fs arbitrary: own) auto

lemma line_ends [simp]:
  "full_line kind" "full_line eltern" "full_line (var_line n v adr)" "full_line (with_pid h)" "full_line (nth_fork i)"
  "full_line pid_line" "full_line parent_line" "full_line im_kind" "full_line im_eltern" "full_line [Lit (s @ [LF])]"
  by (simp_all add: full_line_def kind_def eltern_def var_line_def with_pid_def nth_fork_def pid_line_def parent_line_def
      im_kind_def im_eltern_def)

lemma block_ends: "full_line h \<Longrightarrow> \<forall>f \<in> set (block ga la h g l). full_line f"
  by (simp add: block_def)

lemma yields_block_tty:
  "full_line h \<Longrightarrow> yields True (prints (block ga la h g l) t) own [] = yields True t (own @ block ga la h g l) []"
  by (rule yields_prints_tty [OF block_ends])

lemma child_yields:
  "yields tty (child1_main ga la) [] [] =
     {#block ga la eltern 1 1 @ block ga la eltern 1 1, block ga la kind 1 1 @ block ga la kind 2 2#}"
  by (cases tty) (simp_all add: fork_texts fork_branches yields_prints yields_block_tty)

lemma child2_yields:
  "yields tty (child2_main ga la) [] [] =
     {#block ga la eltern 1 1 @ block ga la eltern 1 1, block ga la kind 1 1 @ block ga la kind 2 2#}"
  by (cases tty) (simp_all add: fork_texts fork_branches yields_prints yields_block_tty)

lemma child3_yields:
  "yields tty (child3_main ga la) [] [] =
     {#block ga la (with_pid ''Im Elternprozess'') 1 1,
       block ga la (with_pid ''Im Kindprocess'') 1 1 @ block ga la (with_pid ''Im Kind-Kindprocess'') 2 2,
       block ga la (with_pid ''Im Kind-Kindprocess'') 2 2#}"
  by (cases tty) (simp_all add: fork_texts fork_branches yields_prints yields_block_tty)

lemma child4_yields:
  "yields tty child4_main [] [] =
     {#[nth_fork 1, nth_fork 2, nth_fork 3, pid_line], [nth_fork 2, nth_fork 3, pid_line],
       [nth_fork 3, pid_line], [nth_fork 3, pid_line], [pid_line], [pid_line], [pid_line], [pid_line]#}"
  by (cases tty) (simp_all add: child4_main_def)

lemma waise_yields:
  "yields tty waise_main [] [] =
     {#[im_eltern, [Lit (''--- Elternprozess endet vorzeitig ---'' @ [LF])]], [im_kind, parent_line, im_kind, parent_line]#}"
  by (cases tty) (simp_all add: waise_main_def)

text \<open>How many steps the programs make at most.\<close>

lemma costs_Fork: "costs (k 0) a \<Longrightarrow> (\<And>c. c \<noteq> 0 \<Longrightarrow> costs (k c) b) \<Longrightarrow> a + b < n \<Longrightarrow> costs (Fork k) n"
  by auto

lemma costs_prints: "costs t n \<Longrightarrow> costs (prints fs t) (length fs + n)"
  by (induction fs) auto

lemma costs_block: "costs t n \<Longrightarrow> costs (prints (block ga la h g l) t) (Suc (Suc (Suc n)))"
  using costs_prints [of t n "block ga la h g l"] by (simp add: block_def)

lemma child_costs: "costs (child1_main ga la) 19"
  unfolding child1_main_def
  by (rule costs_Fork [where a = 7 and b = 7]) (simp_all add: two_blocks_def eval_nat_numeral costs_block)

lemma child2_costs: "costs (child2_main ga la) 19"
  unfolding child2_main_def
  by (rule costs_Fork [where a = 9 and b = 9]) (simp_all add: two_blocks_def eval_nat_numeral costs_block)

lemma child3_costs: "costs (child3_main ga la) 21"
proof -
  have second: "costs (Fork (second_fork ga la g l)) 11" for g l
    by (rule costs_Fork [where a = 5 and b = 5]) (simp_all add: second_fork_def eval_nat_numeral costs_block)
  show ?thesis unfolding child3_main_def
    by (rule costs_Fork [where a = 15 and b = 5])
      (use second [of 2 2] in \<open>simp_all add: child3_branch_def eval_nat_numeral costs_block del: costs.simps(7)\<close>)
qed

lemma child4_costs: "costs child4_main 45"
proof -
  have "costs (Fork (\<lambda>_. Print pid_line (Flush (Exit 0)))) 7"
    by (rule costs_Fork [where a = 3 and b = 3]) (simp_all add: eval_nat_numeral)
  then have third: "costs (Print (nth_fork 3) (Flush (Fork (\<lambda>_. Print pid_line (Flush (Exit 0)))))) 9"
    by (simp add: eval_nat_numeral del: costs.simps(7))
  have "costs (Fork (\<lambda>_. Print (nth_fork 3) (Flush (Fork (\<lambda>_. Print pid_line (Flush (Exit 0))))))) 19"
    by (rule costs_Fork [OF third third]) simp
  then have second: "costs (Print (nth_fork 2) (Flush (Fork (\<lambda>_. Print (nth_fork 3) (Flush (Fork (\<lambda>_. Print pid_line (Flush (Exit 0))))))))) 21"
    by (simp add: eval_nat_numeral del: costs.simps(7))
  have "costs (Fork (\<lambda>_. Print (nth_fork 2) (Flush (Fork (\<lambda>_. Print (nth_fork 3) (Flush (Fork (\<lambda>_. Print pid_line (Flush (Exit 0)))))))))) 43"
    by (rule costs_Fork [OF second second]) simp
  then show ?thesis unfolding child4_main_def by (simp add: eval_nat_numeral del: costs.simps(7))
qed

lemma waise_costs: "costs waise_main 9"
  unfolding waise_main_def by (rule costs_Fork [where a = 5 and b = 3]) (simp_all add: eval_nat_numeral)

text \<open>The programs write their output before they create a process.\<close>

lemma flushes_prints [simp]: "(\<And>d. flushes tty t d) \<Longrightarrow> flushes tty (prints fs t) d"
  by (induction fs arbitrary: d) auto

lemma child3_flushes: "flushes tty (child3_main ga la) False"
  by (simp add: child3_main_def child3_branch_def second_fork_def)

lemma child4_flushes: "flushes tty child4_main False"
  by (simp add: child4_main_def)

lemma waise_flushes: "flushes tty waise_main False"
  by (auto simp: waise_main_def)

text \<open>What follows for every such program under every schedule.\<close>

lemma own_output:
  assumes "plain t" and "flushes tty t False" and "1 < p" and "s \<noteq> p" and "run (act tty) es (launch p s t) = Some w"
  shows "p \<in> pool w" and "x \<in> set (out w) \<Longrightarrow> fst x \<in> pool w \<and> fst (snd (snd x)) = fst x"
    and "c \<in> pool w - {p} \<Longrightarrow> \<exists>q m n. ppids (written_by c w) = replicate m q @ replicate n 1 \<and> q \<in> pool w - {c}"
proof -
  have "starts_flushing p tty (launch p s t)" using assms(1-4) by (auto simp: starts_flushing_def)
  from families.always [OF run_reach [OF assms(5)] this] have f: "families p tty w" .
  then have out: "fst ` set (out w) \<subseteq> pool w" by (simp add: families_def)
  show "p \<in> pool w" using f by (simp add: families_def)
  have own: "own_lines p tty w q r" if "entry_of w q = Some r" for q r using f that by (simp add: families_def)
  have found: "\<exists>r. entry_of w q = Some r" if "q \<in> pool w" for q
    using that by (cases "entry_of w q") (auto simp: entry_of_def map_of_eq_None_iff)
  show "fst x \<in> pool w \<and> fst (snd (snd x)) = fst x" if x: "x \<in> set (out w)"
  proof -
    have q: "fst x \<in> pool w" using out x by blast
    with found obtain r where "entry_of w (fst x) = Some r" by blast
    from own [OF this] have "\<forall>y \<in> set (written_by (fst x) w). fst (snd y) = fst x" unfolding own_lines_def by auto
    moreover have "snd x \<in> set (written_by (fst x) w)" using x by (auto simp: written_by_def)
    ultimately show ?thesis using q by blast
  qed
  show "\<exists>q m n. ppids (written_by c w) = replicate m q @ replicate n 1 \<and> q \<in> pool w - {c}" if c: "c \<in> pool w - {p}"
  proof -
    from c found obtain r where "entry_of w c = Some r" by blast
    from own [OF this] c obtain q where "line_of q (parent r) (ppids (written_by c w @ buf r))" "q \<in> pool w - {c}"
      unfolding own_lines_def by blast
    then show ?thesis using line_of_prefix [of q "parent r" "ppids (written_by c w)" "ppids (buf r)"]
      unfolding line_of_def map_append by blast
  qed
qed

section \<open>Correctness\<close>

lemma fork_run:
  assumes "costs t n" and "plain t" and "1 < p" and "s \<noteq> p" and "run (act tty) es (launch p s t) = Some w"
  shows "length es \<le> n \<and> ((\<forall>q c. act tty (Step q c) w = None) \<longrightarrow> \<not> lost w \<longrightarrow> outputs w = yields tty t [] [])"
  using run_ends [OF assms(1,3-5)] prints_all [OF assms(2-5)] by blast

text \<open>
  \<^verbatim>\<open>child.c\<close> and \<^verbatim>\<open>child2.c\<close>: every schedule ends. Parent and child have variables of their own: the child
  counts from 1 to 2, and the parent prints 1 before and after it, whichever comes first and whether the output is
  a terminal or not. If no \<^verbatim>\<open>fork\<close> fails nothing is printed twice or lost.
\<close>

theorem child_copies:
  assumes "t \<in> {child1_main ga la, child2_main ga la}" and "1 < p" and "s \<noteq> p" and "run (act tty) es (launch p s t) = Some w"
  shows "length es \<le> 19 \<and> ((\<forall>q c. act tty (Step q c) w = None) \<longrightarrow> \<not> lost w \<longrightarrow>
    outputs w = {#block ga la eltern 1 1 @ block ga la eltern 1 1, block ga la kind 1 1 @ block ga la kind 2 2#})"
proof -
  have "costs t 19" "plain t"
    "yields tty t [] [] = {#block ga la eltern 1 1 @ block ga la eltern 1 1, block ga la kind 1 1 @ block ga la kind 2 2#}"
    using assms(1) child_costs [of ga la] child2_costs [of ga la] fork_plain(1,2) [of ga la]
      child_yields [of tty ga la] child2_yields [of tty ga la] by blast+
  with fork_run [OF _ _ assms(2-4)] show ?thesis by simp
qed

text \<open>
  C26: \<^verbatim>\<open>child4.c\<close>: every run has at most 45 steps. When nothing can go on any more and no \<^verbatim>\<open>fork\<close> has failed (nor anybody been killed), eight processes come out of three calls: the first line is
  printed once, the second one twice, the third one four times, and each process ends with the line of its number,
  whether the output is a terminal or not. Every number in the output is that of the process that wrote it.
\<close>

theorem child4_lines:
  assumes "1 < p" and "s \<noteq> p" and "run (act tty) es (launch p s child4_main) = Some w"
  shows "length es \<le> 45 \<and> (\<forall>(q, f, q', u) \<in> set (out w). q' = q) \<and>
    ((\<forall>q c. act tty (Step q c) w = None) \<longrightarrow> \<not> lost w \<longrightarrow> outputs w =
      {#[nth_fork 1, nth_fork 2, nth_fork 3, pid_line], [nth_fork 2, nth_fork 3, pid_line],
        [nth_fork 3, pid_line], [nth_fork 3, pid_line], [pid_line], [pid_line], [pid_line], [pid_line]#})"
  using fork_run [OF child4_costs fork_plain(4) assms] own_output(2) [OF fork_plain(4) child4_flushes assms]
  by (auto simp: child4_yields)

text \<open>
  \<^verbatim>\<open>child3.c\<close>: the child's process has the variables as its parent left them, and it does not repeat what its
  parent printed; each process prints its own number. Every schedule ends.
\<close>

theorem child3_lines:
  assumes "1 < p" and "s \<noteq> p" and "run (act tty) es (launch p s (child3_main ga la)) = Some w"
  shows "length es \<le> 21 \<and> (\<forall>(q, f, q', u) \<in> set (out w). q' = q) \<and>
    ((\<forall>q c. act tty (Step q c) w = None) \<longrightarrow> \<not> lost w \<longrightarrow> outputs w =
      {#block ga la (with_pid ''Im Elternprozess'') 1 1,
        block ga la (with_pid ''Im Kindprocess'') 1 1 @ block ga la (with_pid ''Im Kind-Kindprocess'') 2 2,
        block ga la (with_pid ''Im Kind-Kindprocess'') 2 2#})"
  using fork_run [OF child3_costs fork_plain(3) assms] own_output(2) [OF fork_plain(3) child3_flushes assms]
  by (auto simp: child3_yields)

text \<open>
  C28: In every state that \<^verbatim>\<open>child3.c\<close>, \<^verbatim>\<open>child4.c\<close> and \<^verbatim>\<open>waise.c\<close> can reach, also when a \<^verbatim>\<open>fork\<close> fails or somebody kills a
  process, the table is a family tree: the numbers are distinct, no process is its own ancestor, and a process that
  has ended is nobody's parent. Each line was written by a process of the table and shows that process' own number, and
  what a child prints as the number of its parent is first always the same other process and then always process 1.
\<close>

theorem family_tree:
  assumes "t \<in> {child3_main ga la, child4_main, waise_main}" and "1 < p" and "s \<noteq> p" and "run (act tty) es (launch p s t) = Some w"
  shows "well_formed w \<and> p \<in> pool w \<and> (\<forall>(q, f, q', u) \<in> set (out w). q \<in> pool w \<and> q' = q) \<and>
    (\<forall>c \<in> pool w - {p}. \<exists>q m n. q \<in> pool w - {c} \<and> ppids (written_by c w) = replicate m q @ replicate n 1)"
proof -
  have t: "plain t" "flushes tty t False" "\<exists>n. costs t n"
    using assms(1) by (auto simp del: plain.simps flushes.simps costs.simps
      intro: fork_plain(3-5) child3_flushes child4_flushes waise_flushes child3_costs child4_costs waise_costs)
  from t(3) obtain n where "costs t n" ..
  from run_ends [OF this assms(2-4)] have "well_formed w" by blast
  moreover note own = own_output [OF t(1,2) assms(2-4)]
  moreover from own(3) have "\<forall>c \<in> pool w - {p}. \<exists>q m n. q \<in> pool w - {c} \<and> ppids (written_by c w) = replicate m q @ replicate n 1"
    by blast
  moreover from own(2) have "\<forall>x \<in> set (out w). fst x \<in> pool w \<and> fst (snd (snd x)) = fst x" by blast
  then have "\<forall>(q, f, q', u) \<in> set (out w). q \<in> pool w \<and> q' = q" by (simp add: split_beta)
  ultimately show ?thesis by blast
qed

lemma two_of: "distinct xs \<Longrightarrow> x \<in> set xs \<Longrightarrow> length xs = 2 \<Longrightarrow> \<exists>y. y \<noteq> x \<and> mset xs = {#x, y#}"
  by (auto simp: length_Suc_conv numeral_2_eq_2 add_mset_commute)

text \<open>
  \<^verbatim>\<open>waise.c\<close>: every schedule ends; the numbers of a parent that the child prints are those of the program
  as long as it runs and 1 afterwards, never the other way round.
\<close>

theorem waise_adopted:
  assumes "1 < p" and "s \<noteq> p" and "run (act tty) es (launch p s waise_main) = Some w" and "\<forall>q c. act tty (Step q c) w = None" and "\<not> lost w"
  shows "length es \<le> 9 \<and>
    outputs w = {#[im_eltern, [Lit (''--- Elternprozess endet vorzeitig ---'' @ [LF])]], [im_kind, parent_line, im_kind, parent_line]#} \<and>
    (\<exists>c m n. c \<noteq> p \<and> mset (pids w) = {#p, c#} \<and> ppids (written_by c w) = replicate m p @ replicate n 1)"
proof -
  from run_ends [OF waise_costs assms(1-3)] assms(4) have wf: "distinct (pids w)" and all: "all_over w" and len: "length es \<le> 9"
    by (auto simp: well_formed_def)
  have o: "outputs w = {#[im_eltern, [Lit (''--- Elternprozess endet vorzeitig ---'' @ [LF])]], [im_kind, parent_line, im_kind, parent_line]#}"
    using prints_all [OF fork_plain(5) assms(1-3,5) all] by (simp add: waise_yields)
  note own = own_output [OF fork_plain(5) waise_flushes assms(1-3)]
  have "length (pids w) = 2" using arg_cong [OF o, of size] by (simp add: outputs_def)
  then obtain c where cp: "c \<noteq> p" and c: "mset (pids w) = {#p, c#}"
    using two_of [OF wf own(1) [unfolded pool_pids]] by blast
  have pool: "pool w = {p, c}" using arg_cong [OF c, of set_mset] by simp
  with own(3) [of c] cp obtain m n where "ppids (written_by c w) = replicate m p @ replicate n 1" by auto
  with len o c cp show ?thesis by blast
qed

lemma rest_all_ended: "all_over w \<Longrightarrow> act tty (Step q c) w = None"
proof -
  assume a: "all_over w"
  show ?thesis
  proof (cases "entry_of w q")
    case (Some r)
    have "case stage r of Ended _ \<Rightarrow> True | Runs _ \<Rightarrow> False" using a entry_in [OF Some] unfolding all_over_def by force
    with Some show ?thesis by (cases "stage r") auto
  qed simp
qed

section \<open>Zombies\<close>

text \<open>A program that never ends, and whose children do not create processes.\<close>

primrec childless :: "prog \<Rightarrow> bool" where
  "childless (Exit n) \<longleftrightarrow> True"
| "childless Abort \<longleftrightarrow> True"
| "childless Spin \<longleftrightarrow> True"
| "childless (Print f t) \<longleftrightarrow> childless t"
| "childless (Flush t) \<longleftrightarrow> childless t"
| "childless (Complain s t) \<longleftrightarrow> childless t"
| "childless (Fork k) \<longleftrightarrow> False"
| "childless (Wait v h k) \<longleftrightarrow> False"
| "childless (Exec q t) \<longleftrightarrow> False"

primrec endless :: "prog \<Rightarrow> bool" where
  "endless (Exit n) \<longleftrightarrow> False"
| "endless Abort \<longleftrightarrow> False"
| "endless Spin \<longleftrightarrow> True"
| "endless (Print f t) \<longleftrightarrow> endless t"
| "endless (Flush t) \<longleftrightarrow> endless t"
| "endless (Complain s t) \<longleftrightarrow> endless t"
| "endless (Fork k) \<longleftrightarrow> childless (k 0) \<and> (\<forall>c > 0. endless (k c))"
| "endless (Wait v h k) \<longleftrightarrow> False"
| "endless (Exec q t) \<longleftrightarrow> False"

definition haunted :: "pid \<Rightarrow> world \<Rightarrow> bool" where
  "haunted p w \<longleftrightarrow> (\<exists>r t. entry_of w p = Some r \<and> stage r = Runs t \<and> endless t) \<and>
     (\<forall>c r t. c \<noteq> p \<longrightarrow> entry_of w c = Some r \<longrightarrow> parent r = p \<and> (stage r = Runs t \<longrightarrow> childless t))"

text \<open>A step changes the entry of the process that makes it and adds at most one entry.\<close>

lemma haunted_fork:
  assumes h: "haunted p w" and e: "entry_of w p = Some r" "stage r = Runs (Fork k)" and s: "do_fork p r a k w = Some w'" and ok: "\<not> lost w'"
  shows "haunted p w' \<and> (\<forall>c x. c \<noteq> p \<longrightarrow> entry_of w c = Some x \<longrightarrow> entry_of w' c = Some x)"
proof -
  from s ok have a: "fresh a w" and w': "w' = born a \<lparr>parent = p, buf = buf r, stage = Runs (k 0)\<rparr> (goes_on p (k a) w)"
    by (auto split: if_splits)
  from h e have "endless (Fork k)" by (auto simp: haunted_def)
  moreover have "0 < a" using a by (simp add: fresh_def)
  ultimately have k: "endless (k a)" "childless (k 0)" by simp_all
  have none: "entry_of w a = None" using a by (rule fresh_none)
  have "haunted p w'" unfolding haunted_def
  proof (intro conjI allI impI)
    show "\<exists>r t. entry_of w' p = Some r \<and> stage r = Runs t \<and> endless t" using e(1) k(1) by (simp add: w' find_simps)
    fix c x t assume c: "c \<noteq> p" "entry_of w' c = Some x"
    show "parent x = p" using h c none by (auto simp: haunted_def w' find_simps split: option.splits if_splits)
    show "childless t" if "stage x = Runs t" using h c none k(2) that by (auto simp: haunted_def w' find_simps split: option.splits if_splits)
  qed
  then show ?thesis by (auto simp: w' find_simps)
qed

lemma lost_run: "run (act tty) es w = Some w' \<Longrightarrow> lost w \<Longrightarrow> lost w'"
proof (induction es arbitrary: w)
  case (Cons e es)
  then obtain v where "act tty e w = Some v" "run (act tty) es v = Some w'" by (cases "act tty e w") auto
  with Cons lost_kept show ?case by blast
qed simp

text \<open>The calls after which the process just goes on.\<close>

fun next_prog :: "prog \<Rightarrow> prog option" where
  "next_prog (Print f t) = Some t"
| "next_prog (Flush t) = Some t"
| "next_prog (Complain s t) = Some t"
| "next_prog t = None"

lemma next_frame:
  assumes "entry_of w p = Some r" and "next_prog t = Some u" and "step tty p a r t w = Some w'"
  shows "\<exists>r'. entry_of w' p = Some r' \<and> stage r' = Runs u \<and> parent r' = parent r \<and> (\<forall>q. q \<noteq> p \<longrightarrow> entry_of w' q = entry_of w q)"
  using assms by (cases t) (auto simp: Let_def find_simps option.map_comp option.map_ident)

lemma next_kept: "next_prog t = Some u \<Longrightarrow> childless t \<Longrightarrow> childless u" "next_prog t = Some u \<Longrightarrow> endless t \<Longrightarrow> endless u"
  by (cases t; simp)+

definition graves_kept :: "world \<Rightarrow> world \<Rightarrow> bool" where
  "graves_kept w w' \<longleftrightarrow> (\<forall>c x st. entry_of w c = Some x \<longrightarrow> stage x = Ended st \<longrightarrow> (\<exists>y. entry_of w' c = Some y \<and> stage y = Ended st))"

lemma haunted_next:
  assumes h: "haunted p w" and e: "entry_of w q = Some r" "stage r = Runs t" and n: "next_prog t = Some u" and s: "step tty q a r t w = Some w'"
  shows "haunted p w' \<and> graves_kept w w'"
proof -
  obtain r' where r': "entry_of w' q = Some r'" "stage r' = Runs u" "parent r' = parent r" and o: "\<And>c. c \<noteq> q \<Longrightarrow> entry_of w' c = entry_of w c"
    using next_frame [OF e(1) n s] by blast
  have "graves_kept w w'" unfolding graves_kept_def using e o by (metis option.inject pstage.distinct(1))
  moreover have "haunted p w'"
  proof (cases "q = p")
    case True
    with h e n have "endless u" by (auto simp: haunted_def intro: next_kept)
    with True h r' o show ?thesis by (auto simp: haunted_def)
  next
    case False
    with h e n have "childless u" "parent r = p" by (auto simp: haunted_def intro: next_kept)
    with False h r' o show ?thesis unfolding haunted_def by (metis option.inject pstage.inject(1))
  qed
  ultimately show ?thesis by blast
qed

lemma haunted_end:
  assumes h: "haunted p w" and e: "entry_of w q = Some r" "stage r = Runs t" and q: "q \<noteq> p"
  shows "haunted p (ends_with q st w) \<and> graves_kept w (ends_with q st w)"
proof -
  have only: "parent x \<noteq> q" if "entry_of w c = Some x" "c \<noteq> p" for c x using h that q by (auto simp: haunted_def)
  have "graves_kept w (ends_with q st w)"
    using e unfolding graves_kept_def by (auto simp: find_ends_with)
  moreover have "haunted p (ends_with q st w)" unfolding haunted_def
  proof (intro conjI allI impI)
    from h obtain x v where x: "entry_of w p = Some x" "stage x = Runs v" "endless v" unfolding haunted_def by blast
    then show "\<exists>r t. entry_of (ends_with q st w) p = Some r \<and> stage r = Runs t \<and> endless t"
      using q by (cases "parent x = q") (simp_all add: find_ends_with)
    fix c x v assume c: "c \<noteq> p" "entry_of (ends_with q st w) c = Some x"
    then obtain y where y: "entry_of w c = Some y"
      and "x = (if c = q then y\<lparr>buf := [], stage := Ended st\<rparr> else if parent y = q then y\<lparr>parent := 1\<rparr> else y)"
      by (auto simp: find_ends_with)
    with only c(1) have x': "x = (if c = q then y\<lparr>buf := [], stage := Ended st\<rparr> else y)" by simp
    show "parent x = p" using h c(1) y x' by (auto simp: haunted_def)
    show "childless v" if "stage x = Runs v" using h c(1) y x' that by (auto simp: haunted_def split: if_splits)
  qed
  ultimately show ?thesis by blast
qed

lemma haunted_step:
  assumes h: "haunted p w" and e: "entry_of w q = Some r" "stage r = Runs t" and s: "step tty q a r t w = Some w'" and ok: "\<not> lost w'"
  shows "haunted p w' \<and> graves_kept w w'"
proof (cases "next_prog t")
  case (Some u)
  with haunted_next [OF h e _ s] show ?thesis by blast
next
  case None
  show ?thesis
  proof (cases "q = p")
    case True
    with h e have t: "endless t" by (auto simp: haunted_def)
    show ?thesis
    proof (cases t)
      case (Fork k)
      with s e True have f: "entry_of w p = Some r" "stage r = Runs (Fork k)" "do_fork p r a k w = Some w'" by simp_all
      from haunted_fork [OF h f ok] f(1,2) show ?thesis
        unfolding graves_kept_def by (metis option.inject pstage.distinct(1))
    next
      case Spin
      with s h show ?thesis by (auto simp: graves_kept_def)
    qed (use t None in auto)
  next
    case False
    with h e have t: "childless t" by (auto simp: haunted_def)
    show ?thesis
    proof (cases t)
      case (Exit n)
      have "haunted p (writes q (buf r) w)" using h by (simp add: haunted_def)
      moreover have "graves_kept (writes q (buf r) w) v = graves_kept w v" for v by (simp add: graves_kept_def)
      ultimately show ?thesis using haunted_end [of p "writes q (buf r) w" q r t] e s False Exit by auto
    next
      case Abort
      with haunted_end [OF h e False] s show ?thesis by auto
    next
      case Spin
      with s h show ?thesis by (auto simp: graves_kept_def)
    qed (use t None in auto)
  qed
qed

interpretation graves: guarded_protocol "act tty" "\<lambda>w. \<exists>s t. 1 < p \<and> s \<noteq> p \<and> endless t \<and> w = launch p s t" "\<lambda>w. \<not> lost w" "haunted p" for tty p
proof unfold_locales
  fix w w' e
  show "\<exists>s t. 1 < p \<and> s \<noteq> p \<and> endless t \<and> w = launch p s t \<Longrightarrow> haunted p w"
    by (auto simp: haunted_def launch_def entry_of_def)
  show "act tty e w = Some w' \<Longrightarrow> \<not> lost w' \<Longrightarrow> \<not> lost w" using lost_kept by blast
  show "haunted p w \<Longrightarrow> act tty e w = Some w' \<Longrightarrow> \<not> lost w' \<Longrightarrow> haunted p w'"
    by (auto elim!: event_cases dest: haunted_step)
qed

lemma graves_run:
  "haunted p w \<Longrightarrow> run (act tty) es w = Some w' \<Longrightarrow> \<not> lost w' \<Longrightarrow> haunted p w' \<and> graves_kept w w'"
proof (induction es arbitrary: w)
  case Nil
  then show ?case by (simp add: graves_kept_def)
next
  case (Cons e es)
  then obtain v where v: "act tty e w = Some v" "run (act tty) es v = Some w'" by (cases "act tty e w") auto
  have lost: "\<not> lost v" using v(2) Cons.prems(3) lost_run by blast
  from v(1) have "haunted p v \<and> graves_kept w v"
    using Cons.prems(1) lost by (auto elim!: event_cases dest: haunted_step)
  with Cons.IH [OF _ v(2) Cons.prems(3)] show ?case unfolding graves_kept_def by metis
qed

text \<open>
  \<^verbatim>\<open>zombie.c\<close>: the program never ends, so that the entry of its child, once it has ended, stays
  in the table for ever: a zombie whose parent is the program.
\<close>

theorem zombie_stays:
  assumes "1 < p" and "s \<noteq> p" and "run (act tty) es (launch p s zombie_main) = Some w" and "run (act tty) es' w = Some w'" and "\<not> lost w'"
    and "entry_of w c = Some r" and "stage r = Ended st"
  shows "\<exists>r' x t. entry_of w' c = Some r' \<and> stage r' = Ended st \<and> parent r' = p \<and> entry_of w' p = Some x \<and> stage x = Runs t"
proof -
  have lost: "\<not> lost w" using assms(4,5) lost_run by blast
  have "endless zombie_main" by (simp add: zombie_main_def)
  then have h: "haunted p w" using graves.reach_inv [OF run_reach [OF assms(3)] _ lost] assms(1,2) by blast
  from graves_run [OF h assms(4,5)] have h': "haunted p w'" and g: "graves_kept w w'" by blast+
  from g assms(6,7) obtain r' where r': "entry_of w' c = Some r'" "stage r' = Ended st" unfolding graves_kept_def by blast
  moreover obtain x t where "entry_of w' p = Some x" "stage x = Runs t" using h' unfolding haunted_def by blast
  moreover from this r' have "c \<noteq> p" by auto
  with h' r'(1) have "parent r' = p" by (auto simp: haunted_def)
  ultimately show ?thesis by blast
qed

section \<open>Witnesses\<close>

text \<open>A schedule in which the children overtake their parents.\<close>

definition child4_schedule :: "event list" where
  "child4_schedule = map (Step 100) [0, 0, 101] @ map (Step 101) [0, 0, 102] @ map (Step 102) [0, 0, 103] @ map (Step 103) [0, 0, 0] @
     map (Step 102) [0, 0, 0] @ map (Step 101) [0, 0, 104, 0, 0, 0] @ map (Step 104) [0, 0, 0] @
     map (Step 100) [0, 0, 105, 0, 0, 106, 0, 0, 0] @ map (Step 105) [0, 0, 107, 0, 0, 0] @ map (Step 106) [0, 0, 0] @ map (Step 107) [0, 0, 0]"

definition comes_to_rest :: "bool \<Rightarrow> event list \<Rightarrow> world \<Rightarrow> bool" where
  "comes_to_rest tty es w \<longleftrightarrow> (case run (act tty) es w of None \<Rightarrow> False | Some w' \<Rightarrow> all_over w' \<and> \<not> lost w')"

lemma settlesE:
  assumes "comes_to_rest tty es w"
  obtains w' where "run (act tty) es w = Some w'" "\<forall>q c. act tty (Step q c) w' = None" "\<not> lost w'" "the (run (act tty) es w) = w'"
  using assms rest_all_ended [of _ tty] unfolding comes_to_rest_def by (auto split: option.splits)

lemma child4_settles: "comes_to_rest False child4_schedule (launch 100 1 child4_main)"
  by code_simp

lemma child4_lines_witness:
  "length child4_schedule \<le> 45 \<and> size (outputs (the (run (act False) child4_schedule (launch 100 1 child4_main)))) = 8"
proof -
  from settlesE [OF child4_settles] obtain w where w: "run (act False) child4_schedule (launch 100 1 child4_main) = Some w"
    "\<forall>q c. act False (Step q c) w = None" "\<not> lost w" "the (run (act False) child4_schedule (launch 100 1 child4_main)) = w" .
  from child4_lines [OF _ _ w(1)] w(2,3) show ?thesis by (simp add: w(4) del: act.simps)
qed

definition child_schedule :: "event list" where
  "child_schedule = Step 100 101 # map (Step 101) [0, 0, 0, 0] @ map (Step 100) [0, 0, 0, 0, 0, 0, 0] @ map (Step 101) [0, 0, 0]"

lemma child_copies_witness:
  "\<exists>w. run (act True) child_schedule (launch 100 1 (child1_main ''0x1'' ''0x2'')) = Some w \<and>
     outputs w = {#block ''0x1'' ''0x2'' eltern 1 1 @ block ''0x1'' ''0x2'' eltern 1 1, block ''0x1'' ''0x2'' kind 1 1 @ block ''0x1'' ''0x2'' kind 2 2#}"
proof -
  have "comes_to_rest True child_schedule (launch 100 1 (child1_main ''0x1'' ''0x2''))" by code_simp
  then obtain w where w: "run (act True) child_schedule (launch 100 1 (child1_main ''0x1'' ''0x2'')) = Some w"
    "\<forall>q c. act True (Step q c) w = None" "\<not> lost w" by (rule settlesE)
  from child_copies [OF _ _ _ w(1)] w show ?thesis by simp
qed

definition child3_schedule :: "event list" where
  "child3_schedule = Step 100 101 # map (Step 101) [0, 0, 0, 0, 102, 0] @ map (Step 102) [0, 0, 0, 0, 0] @ map (Step 100) [0, 0, 0, 0, 0] @ map (Step 101) [0, 0, 0, 0]"

lemma child3_lines_witness:
  "\<exists>w. run (act False) child3_schedule (launch 100 1 (child3_main ''0x1'' ''0x2'')) = Some w \<and> size (outputs w) = 3"
proof -
  have "comes_to_rest False child3_schedule (launch 100 1 (child3_main ''0x1'' ''0x2''))" by code_simp
  then obtain w where w: "run (act False) child3_schedule (launch 100 1 (child3_main ''0x1'' ''0x2'')) = Some w"
    "\<forall>q c. act False (Step q c) w = None" "\<not> lost w" by (rule settlesE)
  from child3_lines [OF _ _ w(1)] w show ?thesis by auto
qed

definition waise_schedule :: "event list" where
  "waise_schedule = Step 100 101 # map (Step 101) [0, 0] @ map (Step 100) [0, 0, 0] @ map (Step 101) [0, 0, 0]"

lemma waise_adopted_witness:
  "\<exists>w c m n. run (act True) waise_schedule (launch 100 50 waise_main) = Some w \<and> c \<noteq> 100 \<and>
     ppids (written_by c w) = replicate m 100 @ replicate n 1"
proof -
  have "comes_to_rest True waise_schedule (launch 100 50 waise_main)" by code_simp
  then obtain w where w: "run (act True) waise_schedule (launch 100 50 waise_main) = Some w"
    "\<forall>q c. act True (Step q c) w = None" "\<not> lost w" by (rule settlesE)
  from waise_adopted [OF _ _ w(1-3)] w(1) show ?thesis by auto
qed

text \<open>A schedule that the shell's user stops: the first child is killed, its own child is adopted.\<close>

definition stopped_schedule :: "event list" where
  "stopped_schedule = map (Step 100) [0, 0, 101] @ map (Step 101) [0, 0, 102] @ [Kill 101 9 False]"

lemma family_tree_witness:
  "\<exists>w. run (act False) stopped_schedule (launch 100 1 child4_main) = Some w \<and> well_formed w \<and> 100 \<in> pool w"
proof -
  have "run (act False) stopped_schedule (launch 100 1 child4_main) \<noteq> None" by code_simp
  then obtain w where w: "run (act False) stopped_schedule (launch 100 1 child4_main) = Some w" by blast
  have "1 < (100 :: pid)" "(1 :: pid) \<noteq> 100" "child4_main \<in> {child3_main [] [], child4_main, waise_main}" by simp_all
  from family_tree [OF this(3,1,2) w] w show ?thesis by blast
qed

text \<open>In this schedule the child prints both numbers.\<close>

lemma waise_prints_both:
  "map (\<lambda>x. render (snd x)) (filter (\<lambda>x. fst x = 101 \<and> fst (snd x) = parent_line) (out (the (run (act True) waise_schedule (launch 100 50 waise_main)))))
   = [''Elternprozess: 100'' @ [LF], ''Elternprozess: 1'' @ [LF]]"
  by code_simp

end
