(* ===== verification/Waits.thy ===== *)
theory Waits
  imports Forks
begin

text \<open>
  The programs of \<^verbatim>\<open>07_Processes\<close> that wait for a child: \<^verbatim>\<open>wait.c\<close>, \<^verbatim>\<open>waitpid.c\<close> and \<^verbatim>\<open>exec_child.c\<close>, which executes
  \<^verbatim>\<open>my_programm.c\<close>; and what a status says.
\<close>

unbundle bit_operations_syntax

section \<open>wait.c\<close>

text \<open>The macros of \<^verbatim>\<open>sys/wait.h\<close> on the 32-bit status.\<close>

definition wtermsig :: "32 word \<Rightarrow> 32 word" where "wtermsig s = s AND 0x7F"
definition wifexited :: "32 word \<Rightarrow> bool" where "wifexited s \<longleftrightarrow> wtermsig s = 0"
definition wexitstatus :: "32 word \<Rightarrow> 32 word" where "wexitstatus s = drop_bit 8 (s AND 0xFF00)"
definition wifsignaled :: "32 word \<Rightarrow> bool" where
  "wifsignaled s \<longleftrightarrow> 0 < sint (ucast (wtermsig s + 1) :: 8 word) div 2"
definition wcoredump :: "32 word \<Rightarrow> bool" where "wcoredump s \<longleftrightarrow> s AND 0x80 \<noteq> 0"
definition wifstopped :: "32 word \<Rightarrow> bool" where "wifstopped s \<longleftrightarrow> s AND 0xFF = 0x7F"

definition text_line :: "string \<Rightarrow> form" where "text_line x = [Lit (x @ [LF])]"

definition child_status :: "32 word \<Rightarrow> form list" where
  "child_status s =
     (if wifexited s then [text_line (''Kind normal beendet mit Return-Wert '' @ show_int (sint (wexitstatus s)))]
      else if wifsignaled s then
        [text_line (''Kind mit Signal-Nr beendet '' @ show_int (sint (wtermsig s))),
         text_line (''Core-Dump '' @ (if wcoredump s then ''yes'' else ''no''))]
      else if wifstopped s then [text_line (''Kind wurde angehalten mit Signal-Nr '' @ show_int (sint (wexitstatus s)))]
      else [])"

text \<open>\<open>choice\<close> is \<^verbatim>\<open>end\<close> after \<^verbatim>\<open>scanf\<close>; without a number it keeps what was in it.\<close>

definition wait_child :: "int \<Rightarrow> prog" where
  "wait_child choice =
     prints [text_line ''--- Im Kindprozess ---'', text_line ''Wie den Prozess beenden?'', text_line ''- 1 - WIFEXITED (normal)'',
             text_line ''- 2 - WIFSIGNALED (abnormal)'', [Lit ''Auswahl: '']]
       (if choice = 1 then Exit 66
        else if choice = 2 then Abort
        else Print (text_line (''Was? ->'' @ show_int choice @ ''<- ???'')) (Exit 0))"

definition wait_main :: "int \<Rightarrow> prog" where
  "wait_main choice = Fork (\<lambda>c.
     if c = -1 then Complain ''Fehler bei fork()'' (Exit 1)
     else if c = 0 then wait_child choice
     else Wait (-1) False (\<lambda>r st.
       if r \<noteq> c then Complain ''wait()'' (Exit 1)
       else prints (child_status (word_of_int st)) (Exit 0)))"

section \<open>waitpid.c, exec_child.c, my_programm.c\<close>

definition waitpid_main :: prog where
  "waitpid_main = Fork (\<lambda>c.
     if c = -1 then Complain ''Fehler bei fork()'' (Exit 1)
     else if c = 0 then prints [text_line ''--- Im Kindprozess ---'', text_line ''--- Kindprozess ist fertig ---''] (Exit 0)
     else Wait c True (\<lambda>r st.
       if r \<noteq> 0 then Complain ''waitpid()'' (Exit 1)
       else Print (text_line ''--- Elternprozess blockiert nicht ---'') (Exit 0)))"

fun arg_lines :: "nat \<Rightarrow> string list \<Rightarrow> form list" where
  "arg_lines i [] = []"
| "arg_lines i (a # as) = text_line (''Argumente '' @ show_nat i @ '' : '' @ a) # arg_lines (Suc i) as"

definition my_programm :: "string list \<Rightarrow> prog" where
  "my_programm argv = prints (text_line (''Programmname : '' @ hd argv) # arg_lines 1 (tl argv)) (Exit 0)"

definition exec_child_main :: prog where
  "exec_child_main = Fork (\<lambda>c.
     if c = -1 then Complain ''fork()'' (Exit 1)
     else if c = 0 then
       Exec (my_programm [''./my_programm'', ''Hallo'', ''Welt'']) (Print (text_line ''Wird niemals erreicht ...'') (Exit 0))
     else Wait c False (\<lambda>r st. if r \<noteq> c then Complain ''waitpid()'' (Exit 1) else Exit 0))"

section \<open>What a status says\<close>

lemma int_masks: "(x :: int) AND 127 = x mod 128" "(x :: int) AND 255 = x mod 256"
  using take_bit_eq_mask [of 7 x] take_bit_eq_mask [of 8 x] by (simp_all add: take_bit_eq_mod mask_eq_exp_minus_1)

lemma uint_wtermsig: "uint (wtermsig s) = uint s mod 128"
  by (simp add: wtermsig_def unsigned_and_eq int_masks)

lemma uint_wexitstatus: "uint (wexitstatus s) = uint s div 256 mod 256"
proof -
  have "wexitstatus s = drop_bit 8 s AND 0xFF" by (simp add: wexitstatus_def drop_bit_and)
  then show ?thesis by (simp add: unsigned_and_eq int_masks drop_bit_eq_div uint_div_distrib)
qed

lemma sint_small:
  assumes "uint (s :: 32 word) < 256"
  shows "sint s = uint s"
proof -
  have "0 \<le> uint s" by simp
  with assms have "- 2147483648 \<le> uint s" by linarith
  with assms show ?thesis by (simp add: sint_uint signed_take_bit_int_eq_self_iff)
qed

lemma uint_of: "0 \<le> x \<Longrightarrow> x < 2 ^ 32 \<Longrightarrow> uint (word_of_int x :: 32 word) = x"
  by (simp add: uint_word_of_int)

lemma sint_wexitstatus: "sint (wexitstatus s) = uint s div 256 mod 256"
  using sint_small [of "wexitstatus s"] uint_wexitstatus [of s] by simp

lemma sint_wtermsig: "sint (wtermsig s) = uint s mod 128"
  using sint_small [of "wtermsig s"] uint_wtermsig [of s] by simp

lemma wifexited_uint: "wifexited s \<longleftrightarrow> uint s mod 128 = 0"
  using uint_wtermsig [of s] by (metis uint_0_iff wifexited_def)

lemma wifsignaled_uint: "wifsignaled s \<longleftrightarrow> 0 < uint s mod 128 \<and> uint s mod 128 < 127"
proof -
  define x where "x = uint (wtermsig s)"
  have x: "x = uint s mod 128" "0 \<le> x" "x < 128" by (simp_all add: x_def uint_wtermsig)
  have "uint (wtermsig s + 1) = x + 1" using x by (simp add: x_def uint_word_ariths)
  then have u: "uint (ucast (wtermsig s + 1) :: 8 word) = x + 1" using x by (simp add: unsigned_ucast_eq take_bit_eq_mod)
  show ?thesis
  proof (cases "x = 127")
    case True
    with arg_cong [OF u, of "word_of_int :: int \<Rightarrow> 8 word"] have "ucast (wtermsig s + 1) = (128 :: 8 word)"
      by (simp only: word_of_int_uint) simp
    then show ?thesis using True x(1) by (simp add: wifsignaled_def)
  next
    case False
    with x have "x + 1 < 128" by simp
    then have "sint (ucast (wtermsig s + 1) :: 8 word) = x + 1"
      using u x by (simp add: sint_uint signed_take_bit_int_eq_self_iff)
    moreover have "0 < (x + 1) div 2 \<longleftrightarrow> 0 < x" using x by linarith
    moreover have "x < 127" using x(3) False by linarith
    ultimately show ?thesis using x(1) by (simp add: wifsignaled_def)
  qed
qed

lemma wcoredump_uint: "wcoredump s \<longleftrightarrow> odd (uint s div 128)"
proof -
  have "wcoredump s \<longleftrightarrow> bit s 7" using and_exp_eq_0_iff_not_bit [of s 7] by (simp add: wcoredump_def)
  also have "\<dots> \<longleftrightarrow> bit (uint s) 7" by (simp add: bit_uint_iff)
  finally show ?thesis by (simp add: bit_iff_odd)
qed

definition exit_report :: "int \<Rightarrow> form list" where
  "exit_report n = [text_line (''Kind normal beendet mit Return-Wert '' @ show_int n)]"

definition signal_report :: "int \<Rightarrow> bool \<Rightarrow> form list" where
  "signal_report g core =
     [text_line (''Kind mit Signal-Nr beendet '' @ show_int g), text_line (''Core-Dump '' @ (if core then ''yes'' else ''no''))]"

text \<open>Each way to end is reported as it was; a stopped child would be reported too, but \<^verbatim>\<open>wait\<close> does not return for it.\<close>

lemma child_status_exit:
  "child_status (word_of_int (n mod 256 * 256)) = exit_report (n mod 256)"
proof -
  have u: "uint (word_of_int (n mod 256 * 256) :: 32 word) = n mod 256 * 256"
  proof (rule uint_of)
    have "0 \<le> n mod 256" "n mod 256 < 256" by simp_all
    then show "0 \<le> n mod 256 * 256" "n mod 256 * 256 < 2 ^ 32" by simp_all
  qed
  then have "wifexited (word_of_int (n mod 256 * 256))" by (simp add: wifexited_uint)
  with u show ?thesis by (simp add: child_status_def sint_wexitstatus exit_report_def)
qed

lemma child_status_signal:
  assumes "0 < g" and "g < 127"
  shows "child_status (word_of_int (if core then g + 128 else g)) = signal_report g core"
proof -
  let ?s = "word_of_int (if core then g + 128 else g) :: 32 word"
  have u: "uint ?s = (if core then g + 128 else g)"
    by (rule uint_of) (use assms in simp_all)
  have g: "(g + 128) mod 128 = g" "g mod 128 = g" "(g + 128) div 128 = 1" "g div 128 = 0" using assms by simp_all
  have m: "uint ?s mod 128 = g" unfolding u using g by simp
  moreover have "odd (uint ?s div 128) \<longleftrightarrow> core" unfolding u using g by simp
  ultimately show ?thesis
    using assms by (simp add: child_status_def wifexited_uint wifsignaled_uint sint_wtermsig wcoredump_uint signal_report_def)
qed

lemma child_status_stopped:
  assumes "0 \<le> g" and "g < 256"
  shows "child_status (word_of_int (g * 256 + 127)) = [text_line (''Kind wurde angehalten mit Signal-Nr '' @ show_int g)]"
proof -
  let ?s = "word_of_int (g * 256 + 127) :: 32 word"
  have u: "uint ?s = g * 256 + 127" by (rule uint_of) (use assms in simp_all)
  have "(127 + (2 * g) * 128) mod 128 = 127 mod 128" by (rule mod_mult_self1)
  then have m: "uint ?s mod 128 = 127" unfolding u by (simp add: algebra_simps)
  have "(127 + g * 256) div 256 = g + 127 div 256" by (rule div_mult_self1) simp
  then have d: "uint ?s div 256 mod 256 = g" unfolding u using assms by (simp add: algebra_simps)
  have "(127 + g * 256) mod 256 = 127 mod 256" by (rule mod_mult_self1)
  moreover have "uint (0xFF :: 32 word) = 255" by simp
  ultimately have "uint (?s AND 0xFF) = 127" by (simp only: unsigned_and_eq u int_masks) (simp add: algebra_simps)
  then have "wifstopped ?s" by (simp only: wifstopped_def word_uint_eq_iff) simp
  with m d show ?thesis
    by (simp add: child_status_def wifexited_uint wifsignaled_uint sint_wexitstatus)
qed

section \<open>A program and its child\<close>

text \<open>
  The pattern of these programs: \<open>F\<close> when the \<^verbatim>\<open>fork\<close> fails, \<open>T\<close> in the child, and in the parent a \<^verbatim>\<open>wait\<close> for
  the child that goes on as \<open>K\<close>. Nobody but the child is killed.
\<close>

definition awaits :: "prog \<Rightarrow> prog \<Rightarrow> (int \<Rightarrow> int) \<Rightarrow> (int \<Rightarrow> int \<Rightarrow> int \<Rightarrow> prog) \<Rightarrow> prog" where
  "awaits F T tgt K = Fork (\<lambda>c. if c = -1 then F else if c = 0 then T else Wait (tgt c) False (K c))"

primrec single :: "prog \<Rightarrow> bool" where
  "single (Exit n) \<longleftrightarrow> True"
| "single Abort \<longleftrightarrow> True"
| "single Spin \<longleftrightarrow> True"
| "single (Print f t) \<longleftrightarrow> single t"
| "single (Flush t) \<longleftrightarrow> single t"
| "single (Complain s t) \<longleftrightarrow> single t"
| "single (Fork k) \<longleftrightarrow> False"
| "single (Wait v h k) \<longleftrightarrow> False"
| "single (Exec q t) \<longleftrightarrow> single q \<and> single t"

text \<open>The statuses with which such a program can end by itself.\<close>

primrec statuses :: "prog \<Rightarrow> int set" where
  "statuses (Exit n) = {n mod 256 * 256}"
| "statuses Abort = {6, 134}"
| "statuses Spin = {}"
| "statuses (Print f t) = statuses t"
| "statuses (Flush t) = statuses t"
| "statuses (Complain s t) = statuses t"
| "statuses (Fork k) = {}"
| "statuses (Wait v h k) = {}"
| "statuses (Exec q t) = statuses q \<union> statuses t"

text \<open>What it says to the standard error, and what a process has said.\<close>

primrec complaints :: "prog \<Rightarrow> string list" where
  "complaints (Exit n) = []"
| "complaints Abort = []"
| "complaints Spin = []"
| "complaints (Print f t) = complaints t"
| "complaints (Flush t) = complaints t"
| "complaints (Complain s t) = s # complaints t"
| "complaints (Fork k) = []"
| "complaints (Wait v h k) = []"
| "complaints (Exec q t) = []"

definition err_by :: "pid \<Rightarrow> world \<Rightarrow> string list" where
  "err_by p w = map snd (filter (\<lambda>x. fst x = p) (err w))"

fun spared :: "pid \<Rightarrow> bool \<Rightarrow> event \<Rightarrow> world \<Rightarrow> world option" where
  "spared p tty (Kill q g core) w = (if q = p then None else act tty (Kill q g core) w)"
| "spared p tty (Step q c) w = act tty (Step q c) w"

definition telling :: "bool \<Rightarrow> pid \<Rightarrow> form list multiset \<Rightarrow> string list \<Rightarrow> world \<Rightarrow> bool" where
  "telling tty p Y E w \<longleftrightarrow> well_formed w \<and> pool w = {p} \<and> share tty w p = Y \<and>
     (\<exists>r. entry_of w p = Some r \<and> (\<forall>t. stage r = Runs t \<longrightarrow> childless t) \<and>
        err_by p w @ (case stage r of Runs t \<Rightarrow> complaints t | Ended st \<Rightarrow> []) = E)"

definition waiting :: "bool \<Rightarrow> pid \<Rightarrow> prog \<Rightarrow> (int \<Rightarrow> int) \<Rightarrow> (int \<Rightarrow> int \<Rightarrow> int \<Rightarrow> prog) \<Rightarrow> pid \<Rightarrow> world \<Rightarrow> bool" where
  "waiting tty p T tgt K c w \<longleftrightarrow> well_formed w \<and> 1 < c \<and> c \<noteq> p \<and> pool w = {p, c} \<and> written_by p w = [] \<and> err_by p w = [] \<and>
     (\<exists>r. entry_of w p = Some r \<and> stage r = Runs (Wait (tgt c) False (K c)) \<and> buf r = []) \<and>
     (\<exists>x. entry_of w c = Some x \<and> parent x = p \<and>
        (\<forall>t. stage x = Runs t \<longrightarrow> single t \<and> statuses t \<subseteq> statuses T) \<and>
        (\<forall>st. stage x = Ended st \<longrightarrow> (c, st) \<in> set (dead w) \<and> (lost w \<or> st \<in> statuses T)))"

definition awaiting :: "bool \<Rightarrow> pid \<Rightarrow> prog \<Rightarrow> prog \<Rightarrow> (int \<Rightarrow> int) \<Rightarrow> (int \<Rightarrow> int \<Rightarrow> int \<Rightarrow> prog) \<Rightarrow> world \<Rightarrow> bool" where
  "awaiting tty p F T tgt K w \<longleftrightarrow>
     (\<exists>s. 1 < p \<and> s \<noteq> p \<and> w = launch p s (awaits F T tgt K)) \<or>
     (lost w \<and> fst ` set (dead w) \<subseteq> {p} \<and> telling tty p (yields tty F [] []) (complaints F) w) \<or>
     (\<exists>c. waiting tty p T tgt K c w) \<or>
     (\<exists>c st. c \<noteq> p \<and> (c, st) \<in> set (dead w) \<and> (lost w \<or> st \<in> statuses T) \<and> telling tty p (yields tty (K c c st) [] []) (complaints (K c c st)) w)"

lemma single_next:
  "next_prog t = Some u \<Longrightarrow> single t \<Longrightarrow> single u" "next_prog t = Some u \<Longrightarrow> statuses u = statuses t"
  by (cases t; simp)+

lemma telling_step:
  assumes h: "telling tty p Y E w" and e: "entry_of w q = Some r" "stage r = Runs t" and s: "step tty q a r t w = Some w'"
  shows "telling tty p Y E w' \<and> lost w' = lost w \<and> set (dead w) \<subseteq> set (dead w') \<and>
    fst ` set (dead w') \<subseteq> insert p (fst ` set (dead w))"
proof -
  have wf: "well_formed w'" using wf_step [OF _ e s] h by (simp add: telling_def)
  have qp: "q = p" using h entry_pool [OF e(1)] by (simp add: telling_def)
  with h e have t: "childless t" and m: "err_by p w @ complaints t = E" and y: "yields tty t (forms (written_by p w)) (forms (buf r)) = Y"
    using share_runs [of w p r t tty] by (auto simp: telling_def)
  have p: "pool w = {p}" "entry_of w p = Some r" using h e qp by (simp_all add: telling_def)
  show ?thesis
  proof (cases t)
    case (Print f u)
    with s qp have w': "w' = goes_on p u (do_print tty p r f w)" by simp
    show ?thesis using wf p y t m Print by (auto simp: telling_def err_by_def w' Let_def share_def find_simps written_writes)
  next
    case (Flush u)
    with s qp have w': "w' = goes_on p u (buffers p [] (writes p (buf r) w))" by simp
    show ?thesis using wf p y t m Flush by (auto simp: telling_def err_by_def w' share_def find_simps written_writes)
  next
    case (Complain x u)
    with s qp have w': "w' = goes_on p u (w\<lparr>err := err w @ [(p, x)]\<rparr>)" by simp
    have "pool w' = {p}" using p pool_simps(1) [of p u "w\<lparr>err := err w @ [(p, x)]\<rparr>"] by (simp add: w')
    then show ?thesis using wf p y t m Complain by (auto simp: telling_def err_by_def w' share_def find_simps)
  next
    case (Exit n)
    with s qp have w': "w' = ends_with p (n mod 256 * 256) (writes p (buf r) w)" by simp
    show ?thesis using wf p y m Exit by (auto simp: telling_def err_by_def w' share_def find_simps written_writes)
  next
    case Abort
    with s qp have w': "w' = ends_with p (if a = 0 then 6 else 134) w" by simp
    show ?thesis using wf p y m Abort by (auto simp: telling_def err_by_def w' share_def find_simps)
  next
    case Spin
    with s h show ?thesis by auto
  qed (use t in auto)
qed

lemma await_start:
  assumes p: "1 < p" "s \<noteq> p" and F: "childless F" and T: "single T"
    and a: "spared p tty e (launch p s (awaits F T tgt K)) = Some w'"
  shows "awaiting tty p F T tgt K w'"
proof -
  let ?w = "launch p s (awaits F T tgt K)"
  let ?r = "\<lparr>parent = s, buf = [], stage = Runs (awaits F T tgt K)\<rparr>"
  let ?k = "\<lambda>c. if c = -1 then F else if c = 0 then T else Wait (tgt c) False (K c)"
  have e: "entry_of ?w q = (if q = p then Some ?r else None)" for q by (simp add: launch_def entry_of_def)
  have pool: "pool ?w = {p}" and wr: "written_by q ?w = []" and er: "err_by q ?w = []" and d: "dead ?w = []" for q
    by (simp_all add: launch_def written_by_def err_by_def)
  have st: "step tty p c ?r (awaits F T tgt K) v = do_fork p ?r c ?k v" for c v by (simp only: awaits_def step.simps)
  obtain c where f: "do_fork p ?r c ?k ?w = Some w'"
  proof (cases e)
    case (Step q c)
    with a st that show thesis by (auto simp: e simp del: do_fork.simps split: if_splits)
  next
    case (Kill q g core)
    with a show thesis by (auto simp: e split: if_splits)
  qed
  have wf: "well_formed w'"
  proof (rule wf_do_fork [OF wf_boot [OF p] _ _ f])
    show "entry_of ?w p = Some ?r" by (simp add: e)
    show "stage ?r = Runs (Fork ?k)" by (simp add: awaits_def)
  qed
  show ?thesis
  proof (cases "c = -1")
    case True
    with f have w': "w' = goes_on p F (?w\<lparr>lost := True\<rparr>)" by simp
    have "pool w' = {p}" using pool pool_simps(1) [of p F "?w\<lparr>lost := True\<rparr>"] by (simp add: w')
    then have "telling tty p (yields tty F [] []) (complaints F) w'"
      using wf F er [of p] by (simp add: telling_def err_by_def w' share_def find_simps e wr)
    moreover have "dead w' = []" using d by (simp add: w')
    ultimately show ?thesis by (simp add: awaiting_def w')
  next
    case False
    with f have c: "fresh c ?w" and w': "w' = born c \<lparr>parent = p, buf = [], stage = Runs (?k 0)\<rparr> (goes_on p (?k c) ?w)"
      by (auto split: if_splits)
    have c1: "1 < c" "c \<noteq> p" using c pool by (auto simp: fresh_def)
    have "waiting tty p T tgt K c w'"
      using wf c1 T pool er [of p] by (auto simp: waiting_def err_by_def w' find_simps e wr)
    then show ?thesis unfolding awaiting_def by blast
  qed
qed

lemma candidates_one:
  assumes w: "well_formed w" and pool: "pool w = {p, c}" "c \<noteq> p" and e: "entry_of w p = Some r" "entry_of w c = Some x" and "parent x = p"
    and t: "t = -1 \<or> t = c"
  shows "candidates p t w \<noteq> [] \<and> map_of (candidates p t w) a = (if a = c then Some x else None)"
proof -
  have pr: "parent r \<noteq> p" using own_parent [OF w e(1)] .
  have dist: "distinct (pids w)" using w by (simp add: well_formed_def)
  have mem: "(q, y) \<in> set (candidates p t w) \<longleftrightarrow> q = c \<and> y = x" for q y
  proof
    assume "(q, y) \<in> set (candidates p t w)"
    then have m: "(q, y) \<in> set (table w)" "parent y = p" by (auto simp: candidates_def)
    from m(1) dist have qy: "entry_of w q = Some y" by (simp add: entry_of_def)
    from m(1) pool(1) have "q = p \<or> q = c" by force
    with qy e pr m(2) show "q = c \<and> y = x" by auto
  next
    assume "q = c \<and> y = x"
    then show "(q, y) \<in> set (candidates p t w)" using assms(6) t entry_in [OF e(2)] by (auto simp: candidates_def)
  qed
  have "distinct (map fst (candidates p t w))" unfolding candidates_def using dist by (simp add: distinct_map_filter)
  with mem have "map_of (candidates p t w) c = Some x" by (simp add: mem)
  moreover have "map_of (candidates p t w) a = None" if "a \<noteq> c" using mem that by (auto simp: map_of_eq_None_iff)
  moreover have "candidates p t w \<noteq> []" using mem by (metis empty_iff list.set(1))
  ultimately show ?thesis by simp
qed

lemma await_reap:
  assumes h: "waiting tty p T tgt K c w" and tgt: "tgt c = -1 \<or> tgt c = c" and K: "\<And>st. childless (K c c st)"
    and e: "entry_of w p = Some r" "stage r = Runs t" and s: "step tty p a r t w = Some w'"
  shows "awaiting tty p F T tgt K w'"
proof -
  from h e have t: "t = Wait (tgt c) False (K c)" and b: "buf r = []" by (auto simp: waiting_def)
  from h obtain x where x: "entry_of w c = Some x" "parent x = p"
    "\<And>st. stage x = Ended st \<Longrightarrow> (c, st) \<in> set (dead w) \<and> (lost w \<or> st \<in> statuses T)" unfolding waiting_def by blast
  have w: "well_formed w" "pool w = {p, c}" "c \<noteq> p" "written_by p w = []" "err_by p w = []" using h by (simp_all add: waiting_def)
  from s t have "do_wait p a (tgt c) False (K c) w = Some w'" by simp
  with candidates_one [OF w(1-3) e(1) x(1,2) tgt, of a] obtain st
    where st: "stage x = Ended st" "a = c" and w': "w' = reaped c (goes_on p (K c c st) w)"
    by (auto split: if_splits pstage.splits)
  have "well_formed w'" using wf_step [OF w(1) e s] .
  then have "telling tty p (yields tty (K c c st) [] []) (complaints (K c c st)) w'"
    using w K e b by (auto simp: telling_def err_by_def w' share_def find_simps written_by_def)
  with x(3) [OF st(1)] w(3) show ?thesis unfolding awaiting_def w' by auto
qed

lemma await_child:
  assumes h: "waiting tty p T tgt K c w" and e: "entry_of w c = Some x" "stage x = Runs t" and s: "step tty c a x t w = Some w'"
  shows "waiting tty p T tgt K c w'"
proof -
  from h obtain r where r: "entry_of w p = Some r" "stage r = Runs (Wait (tgt c) False (K c))" "buf r = []"
    unfolding waiting_def by blast
  have w: "1 < c" "pool w = {p, c}" "c \<noteq> p" "written_by p w = []" "err_by p w = []" using h by (simp_all add: waiting_def)
  have "p \<noteq> 1" using not_init [OF _ r(1)] h by (simp add: waiting_def)
  then have x: "parent x = p" "single t" "statuses t \<subseteq> statuses T" and p1: "p \<noteq> 1" using h e by (auto simp: waiting_def)
  have wf: "well_formed w'" using wf_step [OF _ e s] h by (simp add: waiting_def)
  have go: ?thesis if "pool w' = pool w" "written_by p w' = written_by p w" "err_by p w' = err_by p w" "entry_of w' p = Some r" "entry_of w' c = Some y" "parent y = p"
    "stage y = Runs u" "single u" "statuses u \<subseteq> statuses T" for y u
    using that wf w r by (simp add: waiting_def)
  have stop: ?thesis if "w' = ends_with c st v" "pool v = pool w" "written_by p v = written_by p w" "err_by p v = err_by p w" "\<And>q. entry_of v q = entry_of w q" "dead v = dead w"
    "lost v = lost w" "st \<in> statuses T" for st v
    using that wf w r e x p1 by (auto simp: waiting_def find_simps err_by_def)
  show ?thesis
  proof (cases t)
    case (Exit n)
    with s x show ?thesis by (intro stop [of "n mod 256 * 256" "writes c (buf x) w"]) (use w in \<open>auto simp: written_writes err_by_def\<close>)
  next
    case Abort
    with s x show ?thesis by (intro stop [of "if a = 0 then 6 else 134" w]) auto
  next
    case Spin
    with s h show ?thesis by simp
  next
    case (Exec q u)
    with s have w': "w' = (if a = 0 then goes_on c q (buffers c [] w) else goes_on c u w)" by simp
    show ?thesis
      by (rule go [where u = "if a = 0 then q else u" and y = "if a = 0 then x\<lparr>buf := [], stage := Runs q\<rparr> else x\<lparr>stage := Runs u\<rparr>"])
        (use x Exec w r e in \<open>auto simp: w' find_simps err_by_def\<close>)
  next
    case (Print f u)
    with s have w': "w' = goes_on c u (do_print tty c x f w)" by simp
    show ?thesis
      by (rule go [where u = u and y = "x\<lparr>buf := (if tty \<and> full_line f then [] else buf x @ [(f, c, parent x)]), stage := Runs u\<rparr>"])
        (use x Print w r e in \<open>auto simp: w' Let_def find_simps written_writes err_by_def\<close>)
  next
    case (Flush u)
    with s have w': "w' = goes_on c u (buffers c [] (writes c (buf x) w))" by simp
    show ?thesis
      by (rule go [where u = u and y = "x\<lparr>buf := [], stage := Runs u\<rparr>"])
        (use x Flush w r e in \<open>auto simp: w' find_simps written_writes err_by_def\<close>)
  next
    case (Complain z u)
    with s have w': "w' = goes_on c u (w\<lparr>err := err w @ [(c, z)]\<rparr>)" by simp
    show ?thesis
      by (rule go [where u = u and y = "x\<lparr>stage := Runs u\<rparr>"])
        (use x Complain w r e pool_simps(1) [of c u "w\<lparr>err := err w @ [(c, z)]\<rparr>"] in \<open>auto simp: w' find_simps err_by_def\<close>)
  qed (use x in auto)
qed

lemma await_kill:
  assumes h: "waiting tty p T tgt K c w" and e: "entry_of w c = Some x" "stage x = Runs t"
  shows "waiting tty p T tgt K c (ends_with c st (w\<lparr>lost := True\<rparr>))"
proof -
  from h obtain r where r: "entry_of w p = Some r" "stage r = Runs (Wait (tgt c) False (K c))" "buf r = []" unfolding waiting_def by blast
  have w: "well_formed w" "1 < c" "pool w = {p, c}" "c \<noteq> p" "written_by p w = []" "err_by p w = []" "parent x = p" using h e by (auto simp: waiting_def)
  have "p \<noteq> 1" using not_init [OF w(1) r(1)] .
  moreover have "well_formed (ends_with c st (w\<lparr>lost := True\<rparr>))" by (rule wf_ends_with [of _ _ x]) (use w(1) e(1) in simp_all)
  moreover have "pool (ends_with c st (w\<lparr>lost := True\<rparr>)) = {p, c}" using w(3) pool_simps(3) [of c st "w\<lparr>lost := True\<rparr>"] by simp
  ultimately show ?thesis using w r e by (auto simp: waiting_def find_simps err_by_def)
qed

lemma await_step:
  assumes F: "childless F" and T: "single T" and K: "\<And>c st. childless (K c c st)" and tgt: "\<And>c. tgt c = -1 \<or> tgt c = c"
    and h: "awaiting tty p F T tgt K w" and a: "spared p tty e w = Some w'"
  shows "awaiting tty p F T tgt K w'"
proof -
  from a have act: "act tty e w = Some w'" and nk: "\<And>g core. e \<noteq> Kill p g core" by (cases e; auto split: if_splits)+
  have keep: "telling tty p Y E w' \<and> lost w' = lost w \<and> set (dead w) \<subseteq> set (dead w') \<and>
      fst ` set (dead w') \<subseteq> insert p (fst ` set (dead w))" if t: "telling tty p Y E w" for Y E
    using act
  proof (cases rule: event_cases)
    case (step q c r t)
    with telling_step [OF t] show ?thesis by blast
  next
    case (kill q g core r t')
    with entry_pool [OF kill(2)] t nk show ?thesis by (auto simp: telling_def)
  qed
  from h consider (start) s where "1 < p" "s \<noteq> p" "w = launch p s (awaits F T tgt K)"
    | (failed) "lost w" "fst ` set (dead w) \<subseteq> {p}" "telling tty p (yields tty F [] []) (complaints F) w"
    | (waits) c where "waiting tty p T tgt K c w"
    | (told) c st where "c \<noteq> p" "(c, st) \<in> set (dead w)" "lost w \<or> st \<in> statuses T" "telling tty p (yields tty (K c c st) [] []) (complaints (K c c st)) w"
    unfolding awaiting_def by blast
  then show ?thesis
  proof cases
    case start
    with await_start [OF start(1,2) F T] a show ?thesis by blast
  next
    case failed
    from keep [OF failed(3)] failed(1) have k: "lost w'" "fst ` set (dead w') \<subseteq> insert p (fst ` set (dead w))"
      "telling tty p (yields tty F [] []) (complaints F) w'" by blast+
    with failed(2) have "fst ` set (dead w') \<subseteq> {p}" by blast
    with k show ?thesis unfolding awaiting_def by blast
  next
    case (told c st)
    from keep [OF told(4)] told(1-3) show ?thesis unfolding awaiting_def by blast
  next
    case (waits c)
    from act show ?thesis
    proof (cases rule: event_cases)
      case (step q a' r t)
      from entry_pool [OF step(2)] waits consider "q = p" | "q = c" by (auto simp: waiting_def)
      then show ?thesis
      proof cases
        case 1
        with await_reap [OF waits tgt K] step show ?thesis by blast
      next
        case 2
        with await_child [OF waits] step show ?thesis unfolding awaiting_def by blast
      qed
    next
      case (kill q g core r t)
      with entry_pool [OF kill(2)] waits nk have "q = c" by (auto simp: waiting_def)
      with await_kill [OF waits] kill show ?thesis unfolding awaiting_def by blast
    qed
  qed
qed

definition waits_once :: "prog \<Rightarrow> prog \<Rightarrow> (int \<Rightarrow> int) \<Rightarrow> (int \<Rightarrow> int \<Rightarrow> int \<Rightarrow> prog) \<Rightarrow> bool" where
  "waits_once F T tgt K \<longleftrightarrow> childless F \<and> single T \<and> (\<forall>c st. childless (K c c st)) \<and> (\<forall>c. tgt c = -1 \<or> tgt c = c)"

interpretation awaited: protocol "spared p tty" "\<lambda>w. waits_once F T tgt K \<and> (\<exists>s. 1 < p \<and> s \<noteq> p \<and> w = launch p s (awaits F T tgt K))"
  "\<lambda>w. waits_once F T tgt K \<and> awaiting tty p F T tgt K w" for p tty F T tgt K
proof unfold_locales
  fix w w' e
  show "waits_once F T tgt K \<and> (\<exists>s. 1 < p \<and> s \<noteq> p \<and> w = launch p s (awaits F T tgt K)) \<Longrightarrow>
      waits_once F T tgt K \<and> awaiting tty p F T tgt K w"
    unfolding awaiting_def by blast
  show "waits_once F T tgt K \<and> awaiting tty p F T tgt K w \<Longrightarrow> spared p tty e w = Some w' \<Longrightarrow>
      waits_once F T tgt K \<and> awaiting tty p F T tgt K w'"
    using await_step unfolding waits_once_def by blast
qed

lemma run_spared: "run (spared p tty) es w = Some w' \<Longrightarrow> run (act tty) es w = Some w'"
proof (induction es arbitrary: w)
  case (Cons e es)
  then obtain v where v: "spared p tty e w = Some v" "run (spared p tty) es v = Some w'" by (cases "spared p tty e w") auto
  from v(1) have "act tty e w = Some v" by (cases e) (auto split: if_splits)
  with Cons.IH [OF v(2)] show ?case by simp
qed simp

lemma telling_done:
  assumes "telling tty p Y E w" and "all_over w"
  shows "pool w = {p} \<and> {#forms (written_by p w)#} = Y \<and> err_by p w = E"
proof -
  obtain r where r: "entry_of w p = Some r" using assms(1) unfolding telling_def by blast
  have "case stage r of Ended _ \<Rightarrow> True | Runs _ \<Rightarrow> False" using assms(2) entry_in [OF r] unfolding all_over_def by force
  then obtain st where "stage r = Ended st" by (cases "stage r") auto
  with r assms(1) show ?thesis by (simp add: telling_def share_def)
qed

text \<open>When nothing runs any more, the program has waited for its child and gone on with what the child left.\<close>

lemma awaits_result:
  assumes ok: "waits_once F T tgt K" and n: "costs (awaits F T tgt K) n" and p: "1 < p" "s \<noteq> p"
    and r: "run (spared p tty) es (launch p s (awaits F T tgt K)) = Some w"
  shows "length es \<le> n \<and> ((\<forall>q c. act tty (Step q c) w = None) \<longrightarrow> pool w = {p} \<and>
    ((lost w \<and> fst ` set (dead w) \<subseteq> {p} \<and> {#forms (written_by p w)#} = yields tty F [] [] \<and> err_by p w = complaints F) \<or>
     (\<exists>c st. c \<noteq> p \<and> (c, st) \<in> set (dead w) \<and> (lost w \<or> st \<in> statuses T) \<and> {#forms (written_by p w)#} = yields tty (K c c st) [] [] \<and>
        err_by p w = complaints (K c c st))))"
proof -
  from run_ends [OF n p run_spared [OF r]] have len: "length es \<le> n" and rest: "(\<forall>q c. act tty (Step q c) w = None) \<Longrightarrow> all_over w"
    by blast+
  have "awaiting tty p F T tgt K w" using awaited.always [OF run_reach [OF r]] ok p by blast
  then consider (running) r t where "entry_of w p = Some r" "stage r = Runs t"
    | (failed) "lost w" "fst ` set (dead w) \<subseteq> {p}" "telling tty p (yields tty F [] []) (complaints F) w"
    | (told) c st where "c \<noteq> p" "(c, st) \<in> set (dead w)" "lost w \<or> st \<in> statuses T" "telling tty p (yields tty (K c c st) [] []) (complaints (K c c st)) w"
    unfolding awaiting_def waiting_def by (fastforce simp: launch_def entry_of_def)
  then show ?thesis
  proof cases
    case running
    have "\<not> all_over w"
    proof
      assume "all_over w"
      then have "case stage r of Ended _ \<Rightarrow> True | Runs _ \<Rightarrow> False" using entry_in [OF running(1)] unfolding all_over_def by force
      with running(2) show False by simp
    qed
    with len rest show ?thesis by blast
  next
    case failed
    with len rest telling_done show ?thesis by blast
  next
    case (told c st)
    with len rest telling_done show ?thesis by blast
  qed
qed

lemma yields_prints_exit: "yields tty (prints fs (Exit n)) own b = {#own @ b @ fs#}"
  by (induction fs arbitrary: own b) auto

text \<open>The report for each choice, when nobody kills the child.\<close>

definition reports :: "int \<Rightarrow> form list set" where
  "reports choice =
     (if choice = 1 then {exit_report 66} else if choice = 2 then {signal_report 6 False, signal_report 6 True} else {exit_report 0})"

lemma wait_child_statuses:
  "single (wait_child choice)" "costs (wait_child choice) 7"
  "statuses (wait_child choice) = (if choice = 1 then {16896} else if choice = 2 then {6, 134} else {0})"
  by (simp_all add: wait_child_def eval_nat_numeral)

lemma reports_status: "st \<in> statuses (wait_child choice) \<Longrightarrow> child_status (word_of_int st) \<in> reports choice"
  using child_status_exit [of 66] child_status_exit [of 0] child_status_signal [of 6 True] child_status_signal [of 6 False]
  by (auto simp: wait_child_statuses reports_def split: if_splits)

lemma wait_main_awaits:
  "wait_main choice = awaits (Complain ''Fehler bei fork()'' (Exit 1)) (wait_child choice) (\<lambda>c. -1)
     (\<lambda>c r st. if r \<noteq> c then Complain ''wait()'' (Exit 1) else prints (child_status (word_of_int st)) (Exit 0))"
  by (simp add: wait_main_def awaits_def)

lemma childless_prints [simp]: "childless (prints fs t) = childless t"
  by (induction fs) auto

lemma length_child_status: "length (child_status s) \<le> 2"
  by (simp add: child_status_def)

lemma costs_mono: "costs t m \<Longrightarrow> m \<le> n \<Longrightarrow> costs t n"
proof (induction t arbitrary: m n)
  case (Fork k)
  from Fork.prems obtain a b where "a + b < m" "costs (k 0) a" "\<forall>c. c \<noteq> 0 \<longrightarrow> costs (k c) b" by auto
  with Fork.prems(2) have "a + b < n \<and> costs (k 0) a \<and> (\<forall>c. c \<noteq> 0 \<longrightarrow> costs (k c) b)" by simp
  then show ?case by auto
qed (fastforce split: nat.splits)+

lemma wait_main_costs: "costs (wait_main choice) 12"
proof -
  have "costs (prints (child_status s) (Exit 0)) 3" for s
    by (rule costs_mono [OF costs_prints [of "Exit 0" 1 "child_status s"]]) (use length_child_status [of s] in simp_all)
  then show ?thesis unfolding wait_main_def
    by (intro costs_Fork [where a = 7 and b = 4]) (use wait_child_statuses(2) in \<open>simp_all add: eval_nat_numeral\<close>)
qed

lemma complaints_prints: "complaints (prints fs t) = complaints t"
  by (induction fs) auto

text \<open>
  C13: \<^verbatim>\<open>wait.c\<close>: every run has at most twelve steps, and when nothing can go on any more no zombie
  is left and the program has reported how its child ended, by itself or by the signal of somebody else; if nobody
  kills the child the report is the one of the choice: the exit code 66, the signal of \<^verbatim>\<open>abort\<close>, or the exit
  code 0. Nothing is reported only when the \<^verbatim>\<open>fork\<close> has failed: then there was no child, and the program
  has said so on the standard error. The program itself is not killed (\<open>spared\<close>).
\<close>

theorem wait_reports:
  assumes "1 < p" and "s \<noteq> p" and "run (spared p tty) es (launch p s (wait_main choice)) = Some w"
  shows "length es \<le> 12 \<and> ((\<forall>q c. act tty (Step q c) w = None) \<longrightarrow> pool w = {p} \<and>
    ((lost w \<and> fst ` set (dead w) \<subseteq> {p} \<and> written_by p w = [] \<and> err_by p w = [''Fehler bei fork()'']) \<or>
     (\<exists>c st. c \<noteq> p \<and> (c, st) \<in> set (dead w) \<and> forms (written_by p w) = child_status (word_of_int st) \<and>
       err_by p w = [] \<and> (\<not> lost w \<longrightarrow> forms (written_by p w) \<in> reports choice))))"
proof -
  have ok: "waits_once (Complain ''Fehler bei fork()'' (Exit 1)) (wait_child choice) (\<lambda>c. -1)
      (\<lambda>c r st. if r \<noteq> c then Complain ''wait()'' (Exit 1) else prints (child_status (word_of_int st)) (Exit 0))"
    using wait_child_statuses(1) by (simp add: waits_once_def)
  from awaits_result [OF ok wait_main_costs [unfolded wait_main_awaits] assms(1,2) assms(3) [unfolded wait_main_awaits]]
  have len: "length es \<le> 12" and
    r: "\<forall>q c. act tty (Step q c) w = None \<Longrightarrow> pool w = {p} \<and>
      (lost w \<and> fst ` set (dead w) \<subseteq> {p} \<and> forms (written_by p w) = [] \<and> err_by p w = [''Fehler bei fork()''] \<or>
      (\<exists>c st. c \<noteq> p \<and> (c, st) \<in> set (dead w) \<and> (lost w \<or> st \<in> statuses (wait_child choice)) \<and>
        forms (written_by p w) = child_status (word_of_int st) \<and> err_by p w = []))"
    by (simp_all add: yields_prints_exit complaints_prints del: act.simps)
  show ?thesis using len
  proof (intro conjI impI)
    assume "\<forall>q c. act tty (Step q c) w = None"
    note r = r [OF this]
    then show "pool w = {p}" by blast
    from r consider "lost w" "fst ` set (dead w) \<subseteq> {p}" "forms (written_by p w) = []" "err_by p w = [''Fehler bei fork()'']"
      | c st where "c \<noteq> p" "(c, st) \<in> set (dead w)" "lost w \<or> st \<in> statuses (wait_child choice)"
        "forms (written_by p w) = child_status (word_of_int st)" "err_by p w = []" by blast
    then show "(lost w \<and> fst ` set (dead w) \<subseteq> {p} \<and> written_by p w = [] \<and> err_by p w = [''Fehler bei fork()'']) \<or>
     (\<exists>c st. c \<noteq> p \<and> (c, st) \<in> set (dead w) \<and> forms (written_by p w) = child_status (word_of_int st) \<and>
       err_by p w = [] \<and> (\<not> lost w \<longrightarrow> forms (written_by p w) \<in> reports choice))"
    proof cases
      case 1
      then show ?thesis by simp
    next
      case (2 c st)
      then have "\<not> lost w \<longrightarrow> forms (written_by p w) \<in> reports choice" using reports_status [of st choice] by auto
      with 2 show ?thesis by blast
    qed
  qed
qed

definition wait_schedule :: "event list" where
  "wait_schedule = [Step 100 101] @ replicate 6 (Step 101 0) @ [Step 100 101] @ replicate 3 (Step 100 0)"

definition kill_schedule :: "event list" where
  "kill_schedule = [Step 100 101, Step 101 0, Kill 101 9 False, Step 100 101] @ replicate 3 (Step 100 0)"

lemma wait_reports_witness:
  "\<exists>w. run (spared 100 True) wait_schedule (launch 100 1 (wait_main 2)) = Some w \<and> forms (written_by 100 w) \<in> reports 2 \<and> pool w = {100}"
proof -
  have "case run (spared 100 True) wait_schedule (launch 100 1 (wait_main 2)) of None \<Rightarrow> False | Some w \<Rightarrow> all_over w \<and> \<not> lost w"
    by code_simp
  then obtain w where w: "run (spared 100 True) wait_schedule (launch 100 1 (wait_main 2)) = Some w" "all_over w" "\<not> lost w"
    by (auto split: option.splits)
  from wait_reports [OF _ _ w(1)] rest_all_ended [OF w(2)] w show ?thesis by auto
qed

text \<open>A child that somebody kills is reported as killed.\<close>

lemma wait_killed:
  "map (\<lambda>x. render (snd x)) (filter (\<lambda>x. fst x = 100) (out (the (run (spared 100 True) kill_schedule (launch 100 1 (wait_main 1))))))
   = [''Kind mit Signal-Nr beendet 9'' @ [LF], ''Core-Dump no'' @ [LF]]"
  by code_simp

section \<open>Executing another program\<close>

lemma exec_child_awaits:
  "exec_child_main = awaits (Complain ''fork()'' (Exit 1))
     (Exec (my_programm [''./my_programm'', ''Hallo'', ''Welt'']) (Print (text_line ''Wird niemals erreicht ...'') (Exit 0)))
     (\<lambda>c. c) (\<lambda>c r st. if r \<noteq> c then Complain ''waitpid()'' (Exit 1) else Exit 0)"
  by (simp add: exec_child_main_def awaits_def)

lemma single_prints [simp]: "single (prints fs t) = single t"
  by (induction fs) auto

lemma exec_child_costs: "costs exec_child_main 9"
  unfolding exec_child_main_def
  by (rule costs_Fork [where a = 5 and b = 3]) (simp_all add: my_programm_def eval_nat_numeral)

text \<open>
  \<^verbatim>\<open>exec_child.c\<close>: the program ends after its child and prints nothing; no zombie is left.
\<close>

theorem exec_child_waits:
  assumes "1 < p" and "s \<noteq> p" and "run (spared p tty) es (launch p s exec_child_main) = Some w"
  shows "length es \<le> 9 \<and> ((\<forall>q c. act tty (Step q c) w = None) \<longrightarrow> pool w = {p} \<and> written_by p w = [])"
proof -
  have ok: "waits_once (Complain ''fork()'' (Exit 1))
      (Exec (my_programm [''./my_programm'', ''Hallo'', ''Welt'']) (Print (text_line ''Wird niemals erreicht ...'') (Exit 0)))
      (\<lambda>c. c) (\<lambda>c r st. if r \<noteq> c then Complain ''waitpid()'' (Exit 1) else Exit 0)"
    by (simp add: waits_once_def my_programm_def)
  from awaits_result [OF ok exec_child_costs [unfolded exec_child_awaits] assms(1,2) assms(3) [unfolded exec_child_awaits]]
  show ?thesis by (auto simp del: act.simps)
qed

definition exec_schedule :: "int \<Rightarrow> event list" where
  "exec_schedule answer = [Step 100 101, Step 101 answer] @ replicate (if answer = 0 then 4 else 2) (Step 101 0) @ [Step 100 101, Step 100 0]"

text \<open>The child prints the arguments, or goes on when it cannot execute the program.\<close>

lemma exec_child_prints:
  "map (\<lambda>x. render (snd x)) (out (the (run (spared 100 False) (exec_schedule 0) (launch 100 1 exec_child_main)))) =
     [''Programmname : ./my_programm'' @ [LF], ''Argumente 1 : Hallo'' @ [LF], ''Argumente 2 : Welt'' @ [LF]]"
  "map (\<lambda>x. render (snd x)) (out (the (run (spared 100 False) (exec_schedule 1) (launch 100 1 exec_child_main)))) =
     [''Wird niemals erreicht ...'' @ [LF]]"
  by code_simp+

section \<open>Not waiting\<close>

lemma waitpid_costs: "costs waitpid_main 7"
  unfolding waitpid_main_def by (rule costs_Fork [where a = 3 and b = 3]) (simp_all add: eval_nat_numeral)

text \<open>
  \<^verbatim>\<open>waitpid.c\<close>: if the child still runs the parent goes on. If it has ended already, \<^verbatim>\<open>waitpid\<close> returns its
  number, and the parent takes that for an error.
\<close>

lemma waitpid_runs:
  "map (\<lambda>x. render (snd x)) (out (the (run (act True) ([Step 100 101] @ replicate 3 (Step 100 0)) (launch 100 1 waitpid_main)))) =
     [''--- Elternprozess blockiert nicht ---'' @ [LF]]"
  by code_simp

lemma waitpid_complains:
  "let w = the (run (act True) ([Step 100 101] @ replicate 3 (Step 101 0) @ [Step 100 101, Step 100 0, Step 100 0]) (launch 100 1 waitpid_main))
   in err w = [(100, ''waitpid()'')] \<and> dead w = [(101, 0), (100, 256)]"
  by code_simp

end
