(* ===== verification/Daemon.thy ===== *)
theory Daemon
  imports Prelude CString
begin

text \<open>
  \<^verbatim>\<open>07_Processes/daemon.c\<close>, the steps by which a program becomes a daemon, and \<^verbatim>\<open>prio_child.c\<close>, the arguments of the
  program it starts. The state is what these steps change of a process: its session and terminal, its
  working directory, its mask and descriptors, what it does on \<^verbatim>\<open>SIGHUP\<close>, and what it says to \<^verbatim>\<open>syslog\<close>.
\<close>

section \<open>daemon.c\<close>

datatype disposition = Default | Ignored | Handler nat

record dproc =
  session_leader :: bool
  terminal :: bool
  cwd :: string
  mask_bits :: nat
  fds :: "nat list"
  on_signal :: "nat \<Rightarrow> disposition"
  messages :: "string list"
  said :: "string list"

definition SIGHUP :: nat where "SIGHUP = 1"

text \<open>\<^verbatim>\<open>sigaction\<close> returns the previous action; without success nothing changes and the result is \<^verbatim>\<open>SIG_ERR\<close>.\<close>

definition handle_signal :: "bool \<Rightarrow> nat \<Rightarrow> disposition \<Rightarrow> dproc \<Rightarrow> disposition option \<times> dproc" where
  "handle_signal ok g d s = (if ok then (Some (on_signal s g), s\<lparr>on_signal := (on_signal s)(g := d)\<rparr>) else (None, s))"

text \<open>\<^verbatim>\<open>for (i = sysconf(_SC_OPEN_MAX); i > 0; --i) close(i);\<close> (the second argument is \<open>i\<close>).\<close>

fun close_loop :: "nat list \<Rightarrow> nat \<Rightarrow> nat list" where
  "close_loop ds 0 = ds"
| "close_loop ds (Suc i) = close_loop (filter (\<lambda>d. d \<noteq> Suc i) ds) i"

text \<open>A new descriptor is the lowest one that is free.\<close>

fun lowest_free :: "nat list \<Rightarrow> nat \<Rightarrow> nat \<Rightarrow> nat" where
  "lowest_free ds i 0 = i"
| "lowest_free ds i (Suc n) = (if i \<in> set ds then lowest_free ds (Suc i) n else i)"

definition openlog :: "bool \<Rightarrow> dproc \<Rightarrow> dproc" where
  "openlog ok s = (if ok then s\<lparr>fds := lowest_free (fds s) 0 (length (fds s)) # fds s\<rparr> else s)"

definition syslog :: "string \<Rightarrow> dproc \<Rightarrow> dproc" where
  "syslog m s = s\<lparr>messages := messages s @ [m]\<rparr>"

text \<open>A new process is no session leader.\<close>

definition forked :: "dproc \<Rightarrow> dproc" where "forked s = s\<lparr>session_leader := False\<rparr>"

definition setsid :: "dproc \<Rightarrow> dproc" where "setsid s = s\<lparr>session_leader := True, terminal := False\<rparr>"

text \<open>
  What the system answers: the results of the two calls of \<^verbatim>\<open>fork\<close> in the process that is followed, whether \<^verbatim>\<open>setsid\<close>,
  \<^verbatim>\<open>sigaction\<close>, \<^verbatim>\<open>chdir\<close> and the connection to the logger succeed, and the limit of descriptors.
\<close>

record daemon_env =
  fork1 :: int
  setsid_ok :: bool
  sigaction_ok :: bool
  fork2 :: int
  chdir_ok :: bool
  open_max :: nat
  log_ok :: bool

text \<open>A process that exits has its exit code on the left.\<close>

definition start_deamon :: "string \<Rightarrow> daemon_env \<Rightarrow> dproc \<Rightarrow> int \<times> dproc + dproc" where
  "start_deamon log_name a s =
     (if fork1 a \<noteq> 0 then Inl (EXIT_FAILURE, s)
      else let s = forked s in
      if \<not> setsid_ok a then Inl (EXIT_FAILURE, s\<lparr>said := said s @ [log_name @ '' kann nicht Sessionfuehrer werden!'' @ [LF]]\<rparr>)
      else let s = snd (handle_signal (sigaction_ok a) SIGHUP Ignored (setsid s)) in
      if fork2 a \<noteq> 0 then Inl (EXIT_FAILURE, s)
      else let s = forked s;
               s = (if chdir_ok a then s\<lparr>cwd := ''/''\<rparr> else s);
               s = s\<lparr>mask_bits := 0\<rparr>;
               s = s\<lparr>fds := close_loop (fds s) (open_max a)\<rparr>
      in Inr (openlog (log_ok a) s))"

text \<open>The loop of \<^verbatim>\<open>main\<close> is left in its first round. \<^verbatim>\<open>closelog\<close> closes the connection.\<close>

definition daemon_main :: "daemon_env \<Rightarrow> dproc \<Rightarrow> int \<times> dproc" where
  "daemon_main a s =
     (case start_deamon ''meinDeamon'' a s of
        Inl r \<Rightarrow> r
      | Inr d \<Rightarrow>
          let e = syslog (''Daemon hat sich beendet'' @ [LF])
                   (syslog (''Daemon laeuft '' @ show_int 15 @ '' sek'' @ [LF]) (syslog (''Daemon gestartet ...'' @ [LF]) d))
          in (EXIT_SUCCESS, if log_ok a then e\<lparr>fds := tl (fds e)\<rparr> else e))"

section \<open>Descriptors\<close>

lemma close_loop_filter: "close_loop ds n = filter (\<lambda>d. d = 0 \<or> n < d) ds"
proof (induction n arbitrary: ds)
  case (Suc n)
  have "(\<lambda>d. (d = 0 \<or> n < d) \<and> d \<noteq> Suc n) = (\<lambda>d. d = 0 \<or> Suc n < d)" by (auto simp: fun_eq_iff)
  with Suc show ?case by (simp add: conj_commute)
next
  case 0
  have "(\<lambda>d :: nat. d = 0 \<or> 0 < d) = (\<lambda>_. True)" by auto
  then show ?case by simp
qed

text \<open>All open descriptors are below the limit.\<close>

lemma close_loop_all: "\<forall>d \<in> set ds. d < n \<Longrightarrow> close_loop ds n = filter (\<lambda>d. d = 0) ds"
  unfolding close_loop_filter by (intro filter_cong) auto

lemma only_0: "distinct (ds :: nat list) \<Longrightarrow> 0 \<in> set ds \<Longrightarrow> filter (\<lambda>d. d = 0) ds = [0]"
  by (induction ds) (auto simp: filter_empty_conv, metis not_gr_zero)

section \<open>Correctness\<close>

text \<open>
  \<^verbatim>\<open>daemon.c\<close>: the process that goes on as the daemon has no terminal and cannot get one (it leads no session), works
  in the root directory with an empty mask and ignores \<^verbatim>\<open>SIGHUP\<close>; its only descriptors are 0, which the loop leaves open, and
  the connection to the logger, which becomes descriptor 1; it logs its messages and ends with success.
\<close>

theorem daemon_detaches:
  assumes "fork1 a = 0" and "fork2 a = 0" and "setsid_ok a" and "sigaction_ok a" and "chdir_ok a" and "log_ok a"
    and "distinct (fds s)" and "0 \<in> set (fds s)" and "\<forall>d \<in> set (fds s). d < open_max a"
  shows "\<exists>d. start_deamon ''meinDeamon'' a s = Inr d \<and> \<not> terminal d \<and> \<not> session_leader d \<and> cwd d = ''/'' \<and> mask_bits d = 0 \<and>
    on_signal d SIGHUP = Ignored \<and> fds d = [1, 0] \<and> said d = said s \<and>
    fst (daemon_main a s) = EXIT_SUCCESS \<and> fds (snd (daemon_main a s)) = [0] \<and>
    messages (snd (daemon_main a s)) = messages s @
      [''Daemon gestartet ...'' @ [LF], ''Daemon laeuft '' @ show_int 15 @ '' sek'' @ [LF], ''Daemon hat sich beendet'' @ [LF]]"
proof -
  from only_0 [OF assms(7,8)] assms(9) have c: "close_loop (fds s) (open_max a) = [0]" by (simp add: close_loop_all)
  show ?thesis
    using assms(1-6) c
    by (simp add: daemon_main_def start_deamon_def forked_def setsid_def handle_signal_def openlog_def syslog_def Let_def)
qed

text \<open>
  The other two processes end with \<^verbatim>\<open>EXIT_FAILURE\<close> although nothing went wrong, and a failed \<^verbatim>\<open>fork\<close> looks the same: there is
  no daemon and no message.
\<close>

lemma daemon_parents:
  "fork1 a \<noteq> 0 \<Longrightarrow> daemon_main a s = (EXIT_FAILURE, s)"
  "fork1 a = 0 \<Longrightarrow> setsid_ok a \<Longrightarrow> fork2 a \<noteq> 0 \<Longrightarrow> fst (daemon_main a s) = EXIT_FAILURE \<and> said (snd (daemon_main a s)) = said s"
  by (simp_all add: daemon_main_def start_deamon_def forked_def setsid_def handle_signal_def Let_def)

text \<open>The signals other than \<^verbatim>\<open>SIGHUP\<close> keep their actions.\<close>

lemma handle_signal_other: "g' \<noteq> g \<Longrightarrow> on_signal (snd (handle_signal ok g d s)) g' = on_signal s g'"
  by (simp add: handle_signal_def)

definition shell_proc :: dproc where
  "shell_proc = \<lparr>session_leader = False, terminal = True, cwd = ''/home'', mask_bits = 18, fds = [0, 1, 2], on_signal = (\<lambda>_. Default),
     messages = [], said = []\<rparr>"

definition good_daemon_env :: daemon_env where
  "good_daemon_env = \<lparr>fork1 = 0, setsid_ok = True, sigaction_ok = True, fork2 = 0, chdir_ok = True, open_max = 16, log_ok = True\<rparr>"

lemma daemon_detaches_witness:
  "fst (daemon_main good_daemon_env shell_proc) = 0 \<and> fds (snd (daemon_main good_daemon_env shell_proc)) = [0]"
  proof -
  have "\<forall>d \<in> set (fds shell_proc). d < open_max good_daemon_env" by (simp add: good_daemon_env_def shell_proc_def)
  with daemon_detaches [of good_daemon_env shell_proc] show ?thesis by (auto simp: good_daemon_env_def shell_proc_def)
qed

section \<open>prio_child.c\<close>

text \<open>The array has 1025 elements: the program, its arguments and a null pointer.\<close>

definition put_arg :: "nat \<Rightarrow> string option \<Rightarrow> string option list \<Rightarrow> string option list cres" where
  "put_arg i x args = (if i < length args then Inr (args[i := x]) else Inl OutOfBounds)"

function args_loop :: "string list \<Rightarrow> nat \<Rightarrow> string option list \<Rightarrow> string option list cres" where
  "args_loop argv i args =
     (if i < length argv \<and> i < 1024 then
        (case put_arg i (Some (argv ! i)) args of Inl f \<Rightarrow> Inl f | Inr args \<Rightarrow> args_loop argv (Suc i) args)
      else put_arg i None args)"
  by pat_completeness auto
termination by (relation "measure (\<lambda>(argv, i, args). length argv - i)") auto

declare args_loop.simps [simp del]

definition prio_args :: "string list \<Rightarrow> string option list cres" where
  "prio_args argv = args_loop argv 1 (Some ''/usr/bin/find'' # replicate 1024 None)"

text \<open>The arguments that \<^verbatim>\<open>execvp\<close> sees.\<close>

definition arg_list :: "string option list \<Rightarrow> string list" where
  "arg_list args = map the (takeWhile (\<lambda>x. x \<noteq> None) args)"

lemma arg_list_some: "arg_list (map Some xs @ None # ys) = xs"
  by (induction xs) (simp_all add: arg_list_def)

lemma args_loop_correct:
  assumes "length args = 1025" and "1 \<le> i" and "i \<le> 1024" and "i \<le> length argv"
    and "take i args = Some f # map Some (drop 1 (take i argv))"
  shows "\<exists>args'. args_loop argv i args = Inr args' \<and> length args' = 1025 \<and>
    (\<exists>rest. args' = Some f # map Some (drop 1 (take 1024 argv)) @ None # rest)"
  using assms
proof (induction "1024 - i" arbitrary: i args)
  case 0
  then have i: "i = 1024" by simp
  have "args[i := None] = take i args @ None # drop (Suc i) args" using 0 by (simp add: upd_conv_take_nth_drop)
  with 0 i show ?case by (subst args_loop.simps) (auto simp: put_arg_def)
next
  case (Suc n)
  from Suc.hyps(2) have i: "i < 1024" by simp
  show ?case
  proof (cases "i < length argv")
    case False
    with Suc.prems have "argv = take i argv" "take 1024 argv = take i argv" by simp_all
    moreover have "args[i := None] = take i args @ None # drop (Suc i) args" using Suc.prems by (simp add: upd_conv_take_nth_drop)
    ultimately show ?thesis using Suc.prems False by (subst args_loop.simps) (auto simp: put_arg_def)
  next
    case True
    have "\<exists>args'. args_loop argv (Suc i) (args[i := Some (argv ! i)]) = Inr args' \<and> length args' = 1025 \<and>
      (\<exists>rest. args' = Some f # map Some (drop 1 (take 1024 argv)) @ None # rest)"
    proof (rule Suc.hyps(1))
      have "take (Suc i) (args[i := Some (argv ! i)]) = take i args @ [Some (argv ! i)]"
        using Suc.prems by (simp add: take_Suc_conv_app_nth)
      moreover have "drop 1 (take (Suc i) argv) = drop 1 (take i argv) @ [argv ! i]"
        using Suc.prems True by (simp add: take_Suc_conv_app_nth)
      ultimately show "take (Suc i) (args[i := Some (argv ! i)]) = Some f # map Some (drop 1 (take (Suc i) argv))"
        using Suc.prems by simp
    qed (use Suc True in auto)
    with Suc True i show ?thesis by (subst args_loop.simps) (simp add: put_arg_def)
  qed
qed

text \<open>
  C38: \<^verbatim>\<open>prio_child.c\<close>: however many arguments there are, the array is never left, and the program is started with
  the first 1023 of them behind its own name.
\<close>

theorem prio_args_fit:
  assumes "argv \<noteq> []"
  shows "\<exists>args. prio_args argv = Inr args \<and> length args = 1025 \<and> arg_list args = ''/usr/bin/find'' # drop 1 (take 1024 argv)"
proof -
  have "\<exists>args'. args_loop argv 1 (Some ''/usr/bin/find'' # replicate 1024 None) = Inr args' \<and> length args' = 1025 \<and>
      (\<exists>rest. args' = Some ''/usr/bin/find'' # map Some (drop 1 (take 1024 argv)) @ None # rest)"
    by (rule args_loop_correct) (use assms in \<open>simp_all add: Suc_le_eq take_Cons'\<close>)
  then obtain args rest where args: "args_loop argv 1 (Some ''/usr/bin/find'' # replicate 1024 None) = Inr args" "length args = 1025"
    "args = Some ''/usr/bin/find'' # map Some (drop 1 (take 1024 argv)) @ None # rest" by blast
  have "arg_list args = ''/usr/bin/find'' # drop 1 (take 1024 argv)"
    unfolding args(3) using arg_list_some [of "''/usr/bin/find'' # drop 1 (take 1024 argv)" rest] by simp
  with args(1,2) show ?thesis unfolding prio_args_def by blast
qed

lemma prio_args_fit_witness: "\<exists>args. prio_args [''prio'', ''/tmp''] = Inr args \<and> arg_list args = [''/usr/bin/find'', ''/tmp'']"
  using prio_args_fit [of "[''prio'', ''/tmp'']"] by auto

end
