(* ===== verification/Environment.thy ===== *)
theory Environment
  imports Prelude CString
begin

text \<open>
  What a process inherits, \<^verbatim>\<open>07_Processes\<close>: the environment, which \<^verbatim>\<open>environ1.c\<close>, \<^verbatim>\<open>environ2.c\<close>, \<^verbatim>\<open>get_env.c\<close>, \<^verbatim>\<open>put_env.c\<close>,
  \<^verbatim>\<open>set_env.c\<close> and \<^verbatim>\<open>unset_env.c\<close> read and change, and the limits that \<^verbatim>\<open>my_limit.c\<close> prints.
\<close>

section \<open>The environment\<close>

text \<open>The strings of \<^verbatim>\<open>environ\<close>, each of the form \<^verbatim>\<open>NAME=value\<close>.\<close>

type_synonym env = "string list"

definition assign :: "string \<Rightarrow> string \<Rightarrow> string" where "assign n v = n @ ''='' @ v"

fun getenv :: "string \<Rightarrow> env \<Rightarrow> string option" where
  "getenv n [] = None"
| "getenv n (e # es) = (if prefix (n @ ''='') e then Some (drop (Suc (length n)) e) else getenv n es)"

text \<open>An entry takes the place of the first one with its name, or comes last.\<close>

fun set_entry :: "string \<Rightarrow> string \<Rightarrow> env \<Rightarrow> env" where
  "set_entry n v [] = [assign n v]"
| "set_entry n v (e # es) = (if prefix (n @ ''='') e then assign n v # es else e # set_entry n v es)"

definition unset_entry :: "string \<Rightarrow> env \<Rightarrow> env" where
  "unset_entry n es = filter (\<lambda>e. \<not> prefix (n @ ''='') e) es"

definition valid_name :: "string \<Rightarrow> bool" where "valid_name n \<longleftrightarrow> n \<noteq> [] \<and> CHR ''='' \<notin> set n"

text \<open>
  \<^verbatim>\<open>putenv\<close> takes the name from its string; \<^verbatim>\<open>setenv\<close> and \<^verbatim>\<open>unsetenv\<close> refuse a name that is empty or contains \<^verbatim>\<open>=\<close>.
\<close>

definition putenv :: "string \<Rightarrow> env \<Rightarrow> int \<times> env" where
  "putenv s env =
     (let n = takeWhile (\<lambda>c. c \<noteq> CHR ''='') s
      in if CHR ''='' \<in> set s then (0, set_entry n (drop (Suc (length n)) s) env) else (0, unset_entry s env))"

definition setenv :: "string \<Rightarrow> string \<Rightarrow> env \<Rightarrow> int \<times> env" where
  "setenv n v env = (if valid_name n then (0, set_entry n v env) else (-1, env))"

definition unsetenv :: "string \<Rightarrow> env \<Rightarrow> int \<times> env" where
  "unsetenv n env = (if valid_name n then (0, unset_entry n env) else (-1, env))"

section \<open>Laws\<close>

text \<open>
  The contract of an environment: what is found under a name after another one has been set or removed.
\<close>

locale name_table =
  fixes get :: "string \<Rightarrow> 'e \<Rightarrow> string option"
    and put :: "string \<Rightarrow> string \<Rightarrow> 'e \<Rightarrow> 'e"
    and remove :: "string \<Rightarrow> 'e \<Rightarrow> 'e"
    and valid :: "string \<Rightarrow> bool"
  assumes get_put: "valid n \<Longrightarrow> valid m \<Longrightarrow> get m (put n v e) = (if m = n then Some v else get m e)"
    and get_remove: "valid n \<Longrightarrow> valid m \<Longrightarrow> get m (remove n e) = (if m = n then None else get m e)"
begin

lemma put_again: "valid n \<Longrightarrow> valid m \<Longrightarrow> get m (put n v (put n u e)) = get m (put n v e)"
  by (simp add: get_put)

lemma put_swap: "valid n \<Longrightarrow> valid n' \<Longrightarrow> valid m \<Longrightarrow> n \<noteq> n' \<Longrightarrow> get m (put n v (put n' u e)) = get m (put n' u (put n v e))"
  by (simp add: get_put)

lemma last_put_counts:
  "\<forall>(n, v) \<in> set kvs. valid n \<Longrightarrow> valid m \<Longrightarrow>
   get m (fold (\<lambda>(n, v). put n v) kvs e) = (case map_of (rev kvs) m of Some v \<Rightarrow> Some v | None \<Rightarrow> get m e)"
proof (induction kvs arbitrary: e)
  case (Cons x kvs)
  obtain n v where x: "x = (n, v)" by (cases x)
  with Cons show ?case by (auto simp: get_put map_add_def split: option.splits)
qed simp

end

lemma prefix_name_eq: "CHR ''='' \<notin> set n \<Longrightarrow> CHR ''='' \<notin> set m \<Longrightarrow> prefix (n @ ''='') e \<Longrightarrow> prefix (m @ ''='') e \<Longrightarrow> m = n"
proof -
  assume a: "CHR ''='' \<notin> set n" "CHR ''='' \<notin> set m" "prefix (n @ ''='') e" "prefix (m @ ''='') e"
  have name: "takeWhile (\<lambda>c. c \<noteq> CHR ''='') e = x" if "CHR ''='' \<notin> set x" "prefix (x @ ''='') e" for x
    using that by (auto simp: prefix_def takeWhile_append)
  from name [OF a(1,3)] name [OF a(2,4)] show ?thesis by simp
qed

lemma getenv_set:
  assumes "CHR ''='' \<notin> set n" and "CHR ''='' \<notin> set m"
  shows "getenv m (set_entry n v es) = (if m = n then Some v else getenv m es)"
proof (induction es)
  case Nil
  show ?case using prefix_name_eq [OF assms, of "assign n v"] by (auto simp: assign_def)
next
  case (Cons e es)
  then show ?case
    using prefix_name_eq [OF assms, of e] prefix_name_eq [OF assms, of "assign n v"] by (auto simp: assign_def)
qed

lemma getenv_unset:
  assumes "CHR ''='' \<notin> set n" and "CHR ''='' \<notin> set m"
  shows "getenv m (unset_entry n es) = (if m = n then None else getenv m es)"
proof (cases "m = n")
  case True
  then show ?thesis by (induction es) (auto simp: unset_entry_def)
next
  case False
  with prefix_name_eq [OF assms] have other: "prefix (n @ ''='') e \<Longrightarrow> \<not> prefix (m @ ''='') e" for e by blast
  with False show ?thesis by (induction es) (auto simp: unset_entry_def)
qed

interpretation environ: name_table getenv set_entry unset_entry valid_name
  by unfold_locales (auto simp: valid_name_def getenv_set getenv_unset)

section \<open>The programs\<close>

text \<open>
  \<^verbatim>\<open>scanf("%254s", name)\<close>: a word of at most 254 characters behind the white space. At the end of the input the
  array keeps what was in it.
\<close>

definition scan_word :: "char list \<Rightarrow> string \<Rightarrow> (string \<times> string) cres" where
  "scan_word arr inp =
     (let s = dropWhile is_space inp; w = take 254 (takeWhile (\<lambda>c. \<not> is_space c) s)
      in if w \<noteq> [] then Inr (w, drop (length w) s)
         else if terminated arr then Inr (cstr arr, []) else Inl OutOfBounds)"

text \<open>A null pointer is nothing that \<^verbatim>\<open>%s\<close> can print.\<close>

definition show_var :: "string \<Rightarrow> string option \<Rightarrow> say list cres" where
  "show_var label v = (case v of None \<Rightarrow> Inl NullDeref | Some x \<Rightarrow> Inr [Out (label @ x @ [LF])])"

definition ask_name :: "char list \<Rightarrow> string \<Rightarrow> env \<Rightarrow> (string \<times> string \<times> say list) cres" where
  "ask_name na inp env =
     (case scan_word na inp of Inl f \<Rightarrow> Inl f
      | Inr (name, inp) \<Rightarrow>
          (case show_var ''Wert        : '' (getenv name env) of Inl f \<Rightarrow> Inl f
           | Inr o1 \<Rightarrow> Inr (name, inp, Out ''Umgebungsvariable: '' # o1)))"

definition get_env_main :: "char list \<Rightarrow> string \<Rightarrow> env \<Rightarrow> (int \<times> say list) cres" where
  "get_env_main na inp env = (case ask_name na inp env of Inl f \<Rightarrow> Inl f | Inr (name, inp, o1) \<Rightarrow> Inr (EXIT_SUCCESS, o1))"

text \<open>\<open>put_env\<close> copies into a static array of 510 characters before it calls \<^verbatim>\<open>putenv\<close>.\<close>

definition put_env :: "char list \<Rightarrow> string \<Rightarrow> string \<Rightarrow> env \<Rightarrow> (int \<times> env) cres" where
  "put_env buffer name wert env =
     (case strcpy buffer name of Inl f \<Rightarrow> Inl f
      | Inr b \<Rightarrow> (case strcat b ''='' of Inl f \<Rightarrow> Inl f
      | Inr b \<Rightarrow> (case strcat b wert of Inl f \<Rightarrow> Inl f
      | Inr b \<Rightarrow> Inr (putenv (cstr b) env))))"

definition change_main :: "(string \<Rightarrow> string \<Rightarrow> env \<Rightarrow> (int \<times> env) cres) \<Rightarrow> char list \<Rightarrow> char list \<Rightarrow> string \<Rightarrow> env \<Rightarrow> (int \<times> say list \<times> env) cres" where
  "change_main change na nw inp env =
     (case ask_name na inp env of Inl f \<Rightarrow> Inl f
      | Inr (name, inp, o1) \<Rightarrow>
     (case scan_word nw inp of Inl f \<Rightarrow> Inl f
      | Inr (neu_wert, inp) \<Rightarrow>
     (case change name neu_wert env of Inl f \<Rightarrow> Inl f
      | Inr (r, env) \<Rightarrow>
          let o2 = (if r \<noteq> 0 then [Out (''Konnte neuen Wert nicht setzen'' @ [LF])] else [])
          in (case show_var (''Neuer Wert ('' @ name @ ''): '') (getenv name env) of Inl f \<Rightarrow> Inl f
              | Inr o3 \<Rightarrow> Inr (EXIT_SUCCESS, o1 @ [Out ''Wert aendern/setzen: ''] @ o2 @ o3, env)))))"

definition put_env_main :: "char list \<Rightarrow> char list \<Rightarrow> char list \<Rightarrow> string \<Rightarrow> env \<Rightarrow> (int \<times> say list \<times> env) cres" where
  "put_env_main buffer = change_main (put_env buffer)"

definition set_env_main :: "char list \<Rightarrow> char list \<Rightarrow> string \<Rightarrow> env \<Rightarrow> (int \<times> say list \<times> env) cres" where
  "set_env_main = change_main (\<lambda>name wert env. Inr (setenv name wert env))"

definition unset_env_main :: "char list \<Rightarrow> string \<Rightarrow> env \<Rightarrow> (int \<times> say list \<times> env) cres" where
  "unset_env_main na inp env =
     (case ask_name na inp env of Inl f \<Rightarrow> Inl f
      | Inr (name, inp, o1) \<Rightarrow>
          let env = snd (unsetenv name env)
          in (case show_var (''Neuer Wert ('' @ name @ ''): '') (getenv name env) of Inl f \<Rightarrow> Inl f
              | Inr o2 \<Rightarrow> Inr (EXIT_SUCCESS, o1 @ o2, env)))"

text \<open>\<^verbatim>\<open>environ1.c\<close> and \<^verbatim>\<open>environ2.c\<close> go through the array up to its null pointer, by index and by pointer.\<close>

fun environ1_loop :: "string option list \<Rightarrow> nat \<Rightarrow> nat \<Rightarrow> say list cres" where
  "environ1_loop environ i 0 = Inl OutOfBounds"
| "environ1_loop environ i (Suc n) =
     (if \<not> i < length environ then Inl OutOfBounds
      else case environ ! i of None \<Rightarrow> Inr []
      | Some e \<Rightarrow> (case environ1_loop environ (Suc i) n of Inl f \<Rightarrow> Inl f | Inr os \<Rightarrow> Inr (Out (e @ [LF]) # os)))"

definition environ1_main :: "string option list \<Rightarrow> (int \<times> say list) cres" where
  "environ1_main environ =
     (case environ1_loop environ 0 (Suc (length environ)) of Inl f \<Rightarrow> Inl f | Inr os \<Rightarrow> Inr (EXIT_SUCCESS, os))"

fun environ2_loop :: "string option list \<Rightarrow> say list cres" where
  "environ2_loop [] = Inl OutOfBounds"
| "environ2_loop (None # envp) = Inr []"
| "environ2_loop (Some e # envp) = (case environ2_loop envp of Inl f \<Rightarrow> Inl f | Inr os \<Rightarrow> Inr (Out (e @ [LF]) # os))"

definition environ2_main :: "string option list option \<Rightarrow> (int \<times> say list) cres" where
  "environ2_main envp =
     (case envp of None \<Rightarrow> Inr (EXIT_SUCCESS, [])
      | Some a \<Rightarrow> (case environ2_loop a of Inl f \<Rightarrow> Inl f | Inr os \<Rightarrow> Inr (EXIT_SUCCESS, os)))"

section \<open>Words\<close>

lemma scan_word_props:
  "scan_word arr inp = Inr (w, rest) \<Longrightarrow> length arr = 255 \<Longrightarrow> length w \<le> 254"
  by (auto simp: scan_word_def Let_def dest: cstr_length split: if_splits)

lemma scan_word_word:
  assumes "w \<noteq> []" and "length w \<le> 254" and "\<forall>c \<in> set w. \<not> is_space c" and "is_space c"
  shows "scan_word arr (w @ c # rest) = Inr (w, c # rest)"
proof -
  have "dropWhile is_space (w @ c # rest) = w @ c # rest" using assms(1,3) by (cases w) auto
  moreover have "takeWhile (\<lambda>c. \<not> is_space c) (w @ c # rest) = w" using assms(3,4) by (simp add: takeWhile_tail)
  ultimately show ?thesis using assms(1,2) by (simp add: scan_word_def)
qed

lemma scan_word_skip: "is_space c \<Longrightarrow> scan_word arr (c # inp) = scan_word arr inp"
  by (simp add: scan_word_def)

section \<open>Correctness\<close>

text \<open>Two words of at most 254 characters fit into the array together with the sign and the end of the string.\<close>

lemma put_env_fits:
  assumes "length buffer = 510" and "length name \<le> 254" and "length wert \<le> 254" and "no_nul name" and "no_nul wert"
  shows "put_env buffer name wert env = Inr (putenv (name @ ''='' @ wert) env)"
proof -
  obtain b1 where b1: "strcpy buffer name = Inr b1" using assms(1,2) strcpy_fits [of name buffer] by auto
  note c1 = strcpy_ok [OF b1 assms(4)]
  have eq: "no_nul ''=''" by simp
  obtain b2 where b2: "strcat b1 ''='' = Inr b2"
    using c1 assms(1,2) strcpy_fits [of "cstr b1 @ ''=''" b1] by (auto simp: strcat_def)
  note c2 = strcat_ok [OF b2 eq]
  obtain b3 where b3: "strcat b2 wert = Inr b3"
    using c1 c2 assms(1-3) strcpy_fits [of "cstr b2 @ wert" b2] by (auto simp: strcat_def)
  note c3 = strcat_ok [OF b3 assms(5)]
  from b1 b2 b3 c1 c2 c3 show ?thesis by (simp add: put_env_def)
qed

lemma putenv_assign: "CHR ''='' \<notin> set n \<Longrightarrow> putenv (n @ ''='' @ v) env = (0, set_entry n v env)"
proof -
  assume n: "CHR ''='' \<notin> set n"
  then have "takeWhile (\<lambda>c. c \<noteq> CHR ''='') n = n" by (auto simp: takeWhile_eq_all_conv)
  with n show ?thesis by (simp add: putenv_def Let_def takeWhile_tail)
qed

lemma change_main_runs:
  assumes "scan_word na inp = Inr (n, inp')" and "getenv n env = Some old" and "scan_word nw inp' = Inr (v, inp'')"
    and "change n v env = Inr (0, env')" and "getenv n env' = Some u"
  shows "change_main change na nw inp env = Inr (EXIT_SUCCESS,
    [Out ''Umgebungsvariable: '', Out (''Wert        : '' @ old @ [LF]), Out ''Wert aendern/setzen: '',
     Out (''Neuer Wert ('' @ n @ ''): '' @ u @ [LF])], env')"
  using assms by (simp add: change_main_def ask_name_def show_var_def)

text \<open>
  C36: \<^verbatim>\<open>put_env.c\<close> and \<^verbatim>\<open>set_env.c\<close>: for a variable that exists both programs print its old value and then the new one, which
  is what the environment has under the name from then on; all other variables keep their values. The array of
  \<^verbatim>\<open>put_env\<close> is large enough for all names and values.
\<close>

theorem env_change_round_trip:
  assumes "valid_name n" and "length n \<le> 254" and "v \<noteq> []" and "length v \<le> 254"
    and "\<forall>c \<in> set (n @ v). \<not> is_space c \<and> c \<noteq> NUL" and "getenv n env = Some old" and "length buffer = 510"
  shows "\<exists>env'. put_env_main buffer na nw (n @ [LF] @ v @ [LF]) env = set_env_main na nw (n @ [LF] @ v @ [LF]) env \<and>
    set_env_main na nw (n @ [LF] @ v @ [LF]) env = Inr (EXIT_SUCCESS,
      [Out ''Umgebungsvariable: '', Out (''Wert        : '' @ old @ [LF]), Out ''Wert aendern/setzen: '',
       Out (''Neuer Wert ('' @ n @ ''): '' @ v @ [LF])], env') \<and>
    (\<forall>m. valid_name m \<longrightarrow> getenv m env' = (if m = n then Some v else getenv m env))"
proof (intro exI conjI)
  have lf: "is_space LF" by (simp add: is_space_def)
  have n: "n \<noteq> []" "CHR ''='' \<notin> set n" using assms(1) by (simp_all add: valid_name_def)
  have sn: "scan_word na (n @ LF # v @ [LF]) = Inr (n, LF # v @ [LF])" by (rule scan_word_word) (use assms n lf in auto)
  have sv: "scan_word nw (LF # v @ [LF]) = Inr (v, [LF])"
    unfolding scan_word_skip [OF lf] by (rule scan_word_word) (use assms lf in auto)
  have nul: "no_nul n" "no_nul v" using assms(5) by (auto simp: no_nul_def)
  have put: "put_env buffer n v env = Inr (0, set_entry n v env)"
    using put_env_fits [OF assms(7,2,4) nul] putenv_assign [OF n(2)] by simp
  have g: "getenv n (set_entry n v env) = Some v" using environ.get_put [OF assms(1,1)] by simp
  have set: "(\<lambda>name wert env. Inr (setenv name wert env)) n v env = Inr (0, set_entry n v env)"
    using assms(1) by (simp add: setenv_def)
  have inp: "n @ [LF] @ v @ [LF] = n @ LF # v @ [LF]" by simp
  show "put_env_main buffer na nw (n @ [LF] @ v @ [LF]) env = set_env_main na nw (n @ [LF] @ v @ [LF]) env"
    unfolding put_env_main_def set_env_main_def inp
      change_main_runs [where change = "put_env buffer", OF sn assms(6) sv put g] change_main_runs [where change = "\<lambda>name wert env. Inr (setenv name wert env)", OF sn assms(6) sv set g] ..
  show "set_env_main na nw (n @ [LF] @ v @ [LF]) env = Inr (EXIT_SUCCESS,
      [Out ''Umgebungsvariable: '', Out (''Wert        : '' @ old @ [LF]), Out ''Wert aendern/setzen: '',
       Out (''Neuer Wert ('' @ n @ ''): '' @ v @ [LF])], set_entry n v env)"
    unfolding set_env_main_def inp
    by (rule change_main_runs [where change = "\<lambda>name wert env. Inr (setenv name wert env)", OF sn assms(6) sv set g])
  show "\<forall>m. valid_name m \<longrightarrow> getenv m (set_entry n v env) = (if m = n then Some v else getenv m env)"
    using environ.get_put [OF assms(1)] by blast
qed

text \<open>A variable that is not set cannot be set: the programs print the null pointer before they come to it.\<close>

lemma change_unset_fault:
  assumes "scan_word na inp = Inr (n, rest)" and "getenv n env = None"
  shows "put_env_main buffer na nw inp env = Inl NullDeref \<and> set_env_main na nw inp env = Inl NullDeref \<and>
    unset_env_main na inp env = Inl NullDeref \<and> get_env_main na inp env = Inl NullDeref"
  using assms by (simp add: put_env_main_def set_env_main_def unset_env_main_def get_env_main_def change_main_def ask_name_def show_var_def)

text \<open>\<^verbatim>\<open>unset_env.c\<close> prints the null pointer in any case, after it has removed the variable.\<close>

lemma unset_env_fault: "scan_word na inp = Inr (n, rest) \<Longrightarrow> valid_name n \<Longrightarrow> unset_env_main na inp env = Inl NullDeref"
  by (auto simp: unset_env_main_def ask_name_def show_var_def unsetenv_def environ.get_remove split: option.splits)

lemma environ_loops:
  "environ2_loop (map Some env @ None # rest) = Inr (map (\<lambda>e. Out (e @ [LF])) env)"
  "environ1_loop (pre @ map Some env @ None # rest) (length pre) (Suc (length env) + n) = Inr (map (\<lambda>e. Out (e @ [LF])) env)"
proof -
  show "environ2_loop (map Some env @ None # rest) = Inr (map (\<lambda>e. Out (e @ [LF])) env)" by (induction env) auto
  show "environ1_loop (pre @ map Some env @ None # rest) (length pre) (Suc (length env) + n) = Inr (map (\<lambda>e. Out (e @ [LF])) env)"
  proof (induction env arbitrary: pre)
    case (Cons e env)
    from Cons [of "pre @ [Some e]"] show ?case by (simp add: nth_append)
  qed (simp add: nth_append)
qed

text \<open>\<^verbatim>\<open>environ1.c\<close> and \<^verbatim>\<open>environ2.c\<close> print the same: every string of the environment on a line.\<close>

lemma environ_programs:
  "environ1_main (map Some env @ [None]) = environ2_main (Some (map Some env @ [None]))"
  "environ1_main (map Some env @ [None]) = Inr (EXIT_SUCCESS, map (\<lambda>e. Out (e @ [LF])) env)"
  using environ_loops(1) [of env "[]"] environ_loops(2) [of "[]" env "[]" 1]
  by (simp_all add: environ1_main_def environ2_main_def)

lemma env_change_round_trip_witness:
  "\<exists>env'. set_env_main [] [] (''HOME'' @ [LF] @ ''/tmp'' @ [LF]) [''HOME=/root'', ''A=1''] = Inr (0,
      [Out ''Umgebungsvariable: '', Out (''Wert        : '' @ ''/root'' @ [LF]), Out ''Wert aendern/setzen: '',
       Out (''Neuer Wert ('' @ ''HOME'' @ ''): '' @ ''/tmp'' @ [LF])], env')"
proof -
  have "getenv ''HOME'' [''HOME=/root'', ''A=1''] = Some ''/root''" by simp
  from env_change_round_trip [OF _ _ _ _ _ this, of "''/tmp''" "replicate 510 NUL" "[]" "[]"]
  show ?thesis by (auto simp: valid_name_def is_space_def)
qed

section \<open>my_limit.c\<close>

text \<open>Limits are unsigned and are printed with \<^verbatim>\<open>%ld\<close>; the greatest one is \<^verbatim>\<open>RLIM_INFINITY\<close>.\<close>

definition print_lim :: "64 word \<Rightarrow> say" where
  "print_lim lim = Out (if lim = -1 then ''kein Limit'' @ [LF] else show_int (sint lim) @ '' '' @ [LF])"

definition limits :: "(64 word \<times> 64 word) option \<Rightarrow> say list" where
  "limits l =
     (case l of None \<Rightarrow> [Out (''Keine Angaben'' @ [LF])]
      | Some (soft, hard) \<Rightarrow> [Out ''Soft-Limit: '', print_lim soft, Out ''Hard-Limit: '', print_lim hard])"

definition all_limits :: "string list" where
  "all_limits = [''RLIMIT_CORE'', ''RLIMIT_CPU'', ''RLIMIT_DATA'', ''RLIMIT_FSIZE'', ''RLIMIT_MEMLOCK'', ''RLIMIT_NOFILE'', ''RLIMIT_NPROC'',
     ''RLIMIT_RSS'', ''RLIMIT_STACK'', ''RLIMIT_AS'', ''RLIMIT_MSGQUEUE'', ''RLIMIT_NICE'', ''RLIMIT_RTPRIO'', ''RLIMIT_RTTIME'',
     ''RLIMIT_SIGPENDING'']"

definition my_limit_main :: "(string \<Rightarrow> (64 word \<times> 64 word) option) \<Rightarrow> int \<times> say list" where
  "my_limit_main getrlimit = (EXIT_SUCCESS, concat (map (\<lambda>n. Out ([LF] @ n @ '' :'' @ [LF]) # limits (getrlimit n)) all_limits))"

lemma sint_of_uint: "sint (v :: 64 word) = (if uint v < 2 ^ 63 then uint v else uint v - 2 ^ 64)"
proof -
  have b: "0 \<le> uint v" "uint v < 2 ^ 64" using uint_lt2p [of v] by simp_all
  have s: "sint v = (uint v + 2 ^ 63) mod 2 ^ 64 - 2 ^ 63"
    by (simp add: sint_uint signed_take_bit_eq_take_bit_shift take_bit_eq_mod)
  show ?thesis
  proof (cases "uint v < 2 ^ 63")
    case True
    with b have "(uint v + 2 ^ 63) mod 2 ^ 64 = uint v + 2 ^ 63" by (intro mod_pos_pos_trivial) simp_all
    with True s show ?thesis by simp
  next
    case False
    have "(uint v + 2 ^ 63) mod 2 ^ 64 = (uint v + 2 ^ 63 - 2 ^ 64) mod 2 ^ 64" by (rule minus_mod_self2 [symmetric])
    also have "\<dots> = uint v + 2 ^ 63 - 2 ^ 64" using False b by (intro mod_pos_pos_trivial) simp_all
    finally show ?thesis using False s by simp
  qed
qed

text \<open>A finite limit is printed as it is exactly when it is less than \<open>2 ^ 63\<close>; a greater one comes out negative.\<close>

lemma print_lim_exact: "lim \<noteq> -1 \<Longrightarrow> print_lim lim = Out (show_int (if uint lim < 2 ^ 63 then uint lim else uint lim - 2 ^ 64) @ '' '' @ [LF])"
  by (simp add: print_lim_def sint_of_uint)

end
