(* ===== verification/FileLock.thy ===== *)
theory FileLock
  imports Interleave CString
begin

text \<open>
  \<^verbatim>\<open>02_Files/sperre.c\<close>: programs that append the lines they read to one file, each under a record lock. The processes
  share the lock table of the file (which has room for one write lock) and its contents; each has its own terminal.
\<close>

section \<open>State\<close>

datatype lpc = Lopen | Lread | Llock string | Lwrite string | Lget | Lunlock | Lclose | Lend

text \<open>
  \<open>inp\<close> are the lines typed at the terminal, \<open>sbuf\<close> what the buffer of \<^verbatim>\<open>stdin\<close> holds of a line, for \<^verbatim>\<open>getchar\<close>
  reads a whole line and \<^verbatim>\<open>read\<close> goes past that buffer.
\<close>

record lproc =
  pcl :: lpc
  inp :: "string list"
  sbuf :: string
  told :: "say list"

record lsys =
  lps :: "lproc list"
  owner :: "nat option"
  content :: "(nat \<times> string) list"

datatype lock = Unlocked | ReadLock int | WriteLock int

definition status :: "lock \<Rightarrow> say" where
  "status l = Out (''Status: '' @ (case l of
      Unlocked \<Rightarrow> ''F_UNLCK (Sperre aufgehoben)'' @ [LF]
    | ReadLock p \<Rightarrow> ''F_RDLCK (PID: '' @ show_int p @ '' (Lesesperre)'' @ [LF]
    | WriteLock p \<Rightarrow> ''F_WRLCK (PID: '' @ show_int p @ '') (Scheibsperre)'' @ [LF]))"

section \<open>Operations\<close>

text \<open>One \<^verbatim>\<open>read\<close> of at most 100 characters, and one \<^verbatim>\<open>getchar\<close>.\<close>

fun next_read :: "string list \<Rightarrow> string \<times> string list" where
  "next_read [] = ([], [])"
| "next_read (l # ls) = (take 100 l, if length l > 100 then drop 100 l # ls else ls)"

fun get_char :: "string list \<Rightarrow> string \<Rightarrow> string list \<times> string" where
  "get_char ls (c # sb) = (ls, sb)"
| "get_char [] [] = ([], [])"
| "get_char (l # ls) [] = (ls, tl l)"

text \<open>\<open>ok\<close>: the file could be opened. Without a descriptor every \<^verbatim>\<open>fcntl\<close> fails and every \<^verbatim>\<open>write\<close> writes nothing.\<close>

definition free_for :: "nat \<Rightarrow> nat option \<Rightarrow> bool" where
  "free_for i w \<longleftrightarrow> w = None \<or> w = Some i"

text \<open>\<^verbatim>\<open>F_GETLK\<close> asks about a read lock, for that is what an empty \<^verbatim>\<open>struct flock\<close> is; if it fails the structure stays as it was.\<close>

definition get_lock :: "(nat \<Rightarrow> int) \<Rightarrow> bool \<Rightarrow> nat \<Rightarrow> nat option \<Rightarrow> lock" where
  "get_lock ids ok i w =
     (if \<not> ok then ReadLock 0
      else case w of Some j \<Rightarrow> (if j = i then Unlocked else WriteLock (ids j)) | None \<Rightarrow> Unlocked)"

definition locki :: "(nat \<Rightarrow> int) \<Rightarrow> bool \<Rightarrow> nat \<Rightarrow> nat option \<Rightarrow> say \<times> nat option" where
  "locki ids ok i w =
     (if ok \<and> free_for i w then (status (WriteLock (ids i)), Some i)
      else (Perror ''Fehler: fcntl(fd, F_SETLK, F_WRLCK'', w))"

definition unlock :: "bool \<Rightarrow> nat \<Rightarrow> nat option \<Rightarrow> say \<times> nat option" where
  "unlock ok i w =
     (if ok then (status Unlocked, if w = Some i then None else w) else (Perror ''Fehler: fcntl(fd, F_SETLK, F_UNLCK'', w))"

definition upd :: "nat \<Rightarrow> lproc \<Rightarrow> lsys \<Rightarrow> lsys" where
  "upd i p s = s\<lparr>lps := (lps s)[i := p]\<rparr>"

text \<open>The next step of the process \<open>i\<close>; \<open>p\<close> is its state.\<close>

fun sperre :: "(nat \<Rightarrow> int) \<Rightarrow> (nat \<Rightarrow> bool) \<Rightarrow> nat \<Rightarrow> lproc \<Rightarrow> lpc \<Rightarrow> lsys \<Rightarrow> lsys option" where
  "sperre ids ok i p Lopen s = Some (upd i (p\<lparr>pcl := Lread,
     told := told p @ [status (get_lock ids (ok i) i (owner s)), Out ([LF] @ ''Eingabe machen: '')]\<rparr>) s)"
| "sperre ids ok i p Lread s =
     (let (c, ls) = next_read (inp p)
      in Some (upd i (p\<lparr>pcl := (if 1 < length c then Llock c else Lclose), inp := ls\<rparr>) s))"
| "sperre ids ok i p (Llock c) s =
     (let (m, w) = locki ids (ok i) i (owner s) in Some (upd i (p\<lparr>pcl := Lwrite c, told := told p @ [m]\<rparr>) (s\<lparr>owner := w\<rparr>)))"
| "sperre ids ok i p (Lwrite c) s =
     Some (upd i (p\<lparr>pcl := Lget\<rparr>) (if ok i then s\<lparr>content := content s @ [(i, c)]\<rparr> else s))"
| "sperre ids ok i p Lget s =
     (let (ls, sb) = get_char (inp p) (sbuf p) in Some (upd i (p\<lparr>pcl := Lunlock, inp := ls, sbuf := sb\<rparr>) s))"
| "sperre ids ok i p Lunlock s =
     (let (m, w) = unlock (ok i) i (owner s) in Some (upd i (p\<lparr>pcl := Lread, told := told p @ [m]\<rparr>) (s\<lparr>owner := w\<rparr>)))"
| "sperre ids ok i p Lclose s =
     Some (upd i (p\<lparr>pcl := Lend\<rparr>) (s\<lparr>owner := (if owner s = Some i then None else owner s)\<rparr>))"
| "sperre ids ok i p Lend s = None"

definition lact :: "(nat \<Rightarrow> int) \<Rightarrow> (nat \<Rightarrow> bool) \<Rightarrow> nat \<Rightarrow> lsys \<Rightarrow> lsys option" where
  "lact ids ok i s = (if i < length (lps s) then sperre ids ok i (lps s ! i) (pcl (lps s ! i)) s else None)"

definition lstart :: "string list list \<Rightarrow> lsys" where
  "lstart inps = \<lparr>lps = map (\<lambda>ls. \<lparr>pcl = Lopen, inp = ls, sbuf = [], told = []\<rparr>) inps, owner = None, content = []\<rparr>"

section \<open>What a process is to write\<close>

definition chars :: "string list \<Rightarrow> nat" where "chars ls = sum_list (map length ls)"

lemma chars_next_read: "next_read ls = (c, ls') \<Longrightarrow> chars ls = length c + chars ls'"
  by (cases ls) (auto simp: chars_def)

lemma chars_get_char: "get_char ls sb = (ls', sb') \<Longrightarrow> chars ls' \<le> chars ls"
  by (cases "(ls, sb)" rule: get_char.cases) (auto simp: chars_def)

text \<open>The texts that are read, one after the other: each is followed by one \<^verbatim>\<open>getchar\<close>.\<close>

function writes_of :: "string list \<Rightarrow> string \<Rightarrow> string list" where
  "writes_of ls sb =
     (let (c, ls') = next_read ls
      in if 1 < length c then (let (ls'', sb') = get_char ls' sb in c # writes_of ls'' sb') else [])"
  by pat_completeness auto
termination
proof (relation "measure (\<lambda>(ls, sb). chars ls)")
  fix ls :: "string list" and sb c ls' x y ls'' sb'
  assume a: "x = next_read ls" "(c, ls') = x" "1 < length c" "y = get_char ls' sb" "(ls'', sb') = y"
  then have n: "next_read ls = (c, ls')" and g: "get_char ls' sb = (ls'', sb')" by simp_all
  from chars_next_read [OF n] chars_get_char [OF g] a(3)
  show "((ls'', sb'), ls, sb) \<in> measure (\<lambda>(ls, sb). chars ls)" by simp
qed simp_all

declare writes_of.simps [simp del]

definition after_get :: "lproc \<Rightarrow> string list" where
  "after_get p = (let (ls, sb) = get_char (inp p) (sbuf p) in writes_of ls sb)"

definition to_write :: "lproc \<Rightarrow> string list" where
  "to_write p = (case pcl p of
      Lopen \<Rightarrow> writes_of (inp p) (sbuf p)
    | Lread \<Rightarrow> writes_of (inp p) (sbuf p)
    | Llock c \<Rightarrow> c # after_get p
    | Lwrite c \<Rightarrow> c # after_get p
    | Lget \<Rightarrow> after_get p
    | Lunlock \<Rightarrow> writes_of (inp p) (sbuf p)
    | Lclose \<Rightarrow> []
    | Lend \<Rightarrow> [])"

definition by_proc :: "nat \<Rightarrow> lsys \<Rightarrow> string list" where
  "by_proc i s = map snd (filter (\<lambda>x. fst x = i) (content s))"

text \<open>The invariant: what a process has written and what it will write, and where the owner of the lock is.\<close>

definition holding :: "lpc \<Rightarrow> bool" where
  "holding c \<longleftrightarrow> (case c of Lwrite _ \<Rightarrow> True | Lget \<Rightarrow> True | Lunlock \<Rightarrow> True | _ \<Rightarrow> False)"

definition lock_ok :: "(nat \<Rightarrow> bool) \<Rightarrow> lsys \<Rightarrow> bool" where
  "lock_ok ok s \<longleftrightarrow> (\<forall>j. owner s = Some j \<longrightarrow> j < length (lps s) \<and> holding (pcl (lps s ! j)) \<and> ok j)"

definition texts_ok :: "string list list \<Rightarrow> (nat \<Rightarrow> bool) \<Rightarrow> lsys \<Rightarrow> bool" where
  "texts_ok inps ok s \<longleftrightarrow> length (lps s) = length inps \<and>
     (\<forall>i < length inps. by_proc i s @ (if ok i then to_write (lps s ! i) else []) = (if ok i then writes_of (inps ! i) [] else []))"

definition linv :: "string list list \<Rightarrow> (nat \<Rightarrow> bool) \<Rightarrow> lsys \<Rightarrow> bool" where
  "linv inps ok s \<longleftrightarrow> texts_ok inps ok s \<and> lock_ok ok s"

fun lrank :: "lpc \<Rightarrow> nat" where
  "lrank Lopen = 7" | "lrank (Llock c) = 6" | "lrank (Lwrite c) = 5" | "lrank Lget = 4" | "lrank Lunlock = 3" | "lrank Lread = 2"
| "lrank Lclose = 1" | "lrank Lend = 0"

definition lweight :: "lproc \<Rightarrow> nat" where "lweight p = 3 * chars (inp p) + lrank (pcl p)"

definition lsize :: "lsys \<Rightarrow> nat" where "lsize s = sum_list (map lweight (lps s))"

definition all_closed :: "lsys \<Rightarrow> bool" where "all_closed s \<longleftrightarrow> (\<forall>p \<in> set (lps s). pcl p = Lend)"

lemma by_proc_simps [simp]:
  "by_proc i (upd j p s) = by_proc i s" "by_proc i (s\<lparr>owner := w\<rparr>) = by_proc i s"
  "by_proc i (s\<lparr>content := content s @ [(j, c)]\<rparr>) = by_proc i s @ (if i = j then [c] else [])"
  by (simp_all add: by_proc_def upd_def)

lemma upd_simps [simp]:
  "lps (upd i p s) = (lps s)[i := p]" "owner (upd i p s) = owner s" "content (upd i p s) = content s"
  by (simp_all add: upd_def)

text \<open>What one step does to the process, the file and the lock.\<close>

definition does :: "(nat \<Rightarrow> bool) \<Rightarrow> nat \<Rightarrow> lproc \<Rightarrow> lsys \<Rightarrow> lproc \<Rightarrow> string list \<Rightarrow> lsys \<Rightarrow> bool" where
  "does ok i p s p' cs s' \<longleftrightarrow> lps s' = (lps s)[i := p'] \<and> content s' = content s @ map (Pair i) cs \<and>
     (ok i \<longrightarrow> cs @ to_write p' = to_write p) \<and> (\<not> ok i \<longrightarrow> cs = []) \<and> lweight p' < lweight p \<and>
     (\<forall>j. owner s' = Some j \<longrightarrow> j \<noteq> i \<and> owner s = Some j \<or> j = i \<and> ok i \<and> holding (pcl p') \<or>
        j = i \<and> owner s = Some i \<and> \<not> (holding (pcl p) \<and> ok i))"

lemma writes_of_read:
  "next_read ls = (c, ls') \<Longrightarrow>
   writes_of ls sb = (if 1 < length c then c # (let (ls'', sb') = get_char ls' sb in writes_of ls'' sb') else [])"
  by (subst writes_of.simps) (simp add: Let_def case_prod_beta)

lemma sperre_does:
  assumes s: "sperre ids ok i p (pcl p) s = Some s'"
  shows "\<exists>p' cs. does ok i p s p' cs s'"
proof (cases "pcl p")
  case Lopen
  let ?p = "p\<lparr>pcl := Lread, told := told p @ [status (get_lock ids (ok i) i (owner s)), Out ([LF] @ ''Eingabe machen: '')]\<rparr>"
  have "does ok i p s ?p [] s'" using s Lopen by (auto simp: does_def to_write_def lweight_def holding_def)
  then show ?thesis by blast
next
  case Lread
  obtain c ls where r: "next_read (inp p) = (c, ls)" by (cases "next_read (inp p)")
  let ?p = "p\<lparr>pcl := (if 1 < length c then Llock c else Lclose), inp := ls\<rparr>"
  have "to_write ?p = to_write p" using Lread writes_of_read [OF r, of "sbuf p"] by (simp add: to_write_def after_get_def)
  moreover have "lweight ?p < lweight p" using Lread chars_next_read [OF r] by (auto simp: lweight_def)
  ultimately have "does ok i p s ?p [] s'" using s Lread r by (auto simp: does_def holding_def)
  then show ?thesis by blast
next
  case (Llock c)
  obtain m w where l: "locki ids (ok i) i (owner s) = (m, w)" by (cases "locki ids (ok i) i (owner s)")
  let ?p = "p\<lparr>pcl := Lwrite c, told := told p @ [m]\<rparr>"
  have "does ok i p s ?p [] s'"
    using s Llock l by (auto simp: does_def holding_def to_write_def after_get_def lweight_def locki_def split: if_splits)
  then show ?thesis by blast
next
  case (Lwrite c)
  have "does ok i p s (p\<lparr>pcl := Lget\<rparr>) (if ok i then [c] else []) s'"
    using s Lwrite by (auto simp: does_def holding_def to_write_def after_get_def lweight_def)
  then show ?thesis by blast
next
  case Lget
  obtain ls sb where g: "get_char (inp p) (sbuf p) = (ls, sb)" by (cases "get_char (inp p) (sbuf p)")
  have "does ok i p s (p\<lparr>pcl := Lunlock, inp := ls, sbuf := sb\<rparr>) [] s'"
    using s Lget g chars_get_char [OF g] by (auto simp: does_def holding_def to_write_def after_get_def lweight_def)
  then show ?thesis by blast
next
  case Lunlock
  obtain m w where u: "unlock (ok i) i (owner s) = (m, w)" by (cases "unlock (ok i) i (owner s)")
  have "does ok i p s (p\<lparr>pcl := Lread, told := told p @ [m]\<rparr>) [] s'"
    using s Lunlock u by (auto simp: does_def holding_def to_write_def lweight_def unlock_def split: if_splits)
  then show ?thesis by blast
next
  case Lclose
  have "does ok i p s (p\<lparr>pcl := Lend\<rparr>) [] s'"
    using s Lclose by (auto simp: does_def holding_def to_write_def lweight_def split: if_splits)
  then show ?thesis by blast
qed (use s in simp)

lemma lact_does:
  assumes "lact ids ok i s = Some s'"
  obtains p' cs where "i < length (lps s)" "does ok i (lps s ! i) s p' cs s'"
  using assms sperre_does unfolding lact_def by (metis option.distinct(1))

lemma linv_step:
  assumes inv: "linv inps ok s" and a: "lact ids ok i s = Some s'"
  shows "linv inps ok s' \<and> lsize s' < lsize s"
proof -
  obtain p' cs where i: "i < length (lps s)" and d: "does ok i (lps s ! i) s p' cs s'" using lact_does [OF a] .
  from d have l: "lps s' = (lps s)[i := p']" "content s' = content s @ map (Pair i) cs" by (simp_all add: does_def)
  have t: "texts_ok inps ok s" and o: "lock_ok ok s" using inv by (simp_all add: linv_def)
  have bp: "by_proc j s' = by_proc j s @ (if j = i then cs else [])" for j by (simp add: by_proc_def l filter_map o_def)
  have "texts_ok inps ok s'"
    unfolding texts_ok_def
  proof (intro conjI allI impI)
    show "length (lps s') = length inps" using t l by (simp add: texts_ok_def)
    fix j assume j: "j < length inps"
    with t have "by_proc j s @ (if ok j then to_write (lps s ! j) else []) = (if ok j then writes_of (inps ! j) [] else [])"
      by (simp add: texts_ok_def)
    with d i show "by_proc j s' @ (if ok j then to_write (lps s' ! j) else []) = (if ok j then writes_of (inps ! j) [] else [])"
      by (cases "j = i") (auto simp: bp l does_def)
  qed
  moreover have "lock_ok ok s'"
    unfolding lock_ok_def
  proof (intro allI impI)
    fix j assume j: "owner s' = Some j"
    from d j have "j \<noteq> i \<and> owner s = Some j \<or> j = i \<and> ok i \<and> holding (pcl p') \<or>
        j = i \<and> owner s = Some i \<and> \<not> (holding (pcl (lps s ! i)) \<and> ok i)"
      unfolding does_def by blast
    with o i show "j < length (lps s') \<and> holding (pcl (lps s' ! j)) \<and> ok j" by (auto simp: lock_ok_def l)
  qed
  moreover have "lsize s' < lsize s"
  proof -
    have "lweight p' < lweight (lps s ! i)" using d by (simp add: does_def)
    moreover have "lweight (lps s ! i) \<le> sum_list (map lweight (lps s))"
      using elem_le_sum_list [of i "map lweight (lps s)"] i by simp
    ultimately show ?thesis using i unfolding lsize_def l by (simp add: map_update sum_list_update)
  qed
  ultimately show ?thesis by (simp add: linv_def)
qed

lemma linv_start: "linv inps ok (lstart inps)"
  by (auto simp: linv_def texts_ok_def lock_ok_def lstart_def by_proc_def to_write_def)

lemma lact_possible: "\<not> all_closed s \<Longrightarrow> \<exists>i s'. lact ids ok i s = Some s'"
proof -
  assume "\<not> all_closed s"
  then obtain i where i: "i < length (lps s)" "pcl (lps s ! i) \<noteq> Lend" by (auto simp: all_closed_def in_set_conv_nth)
  then have "sperre ids ok i (lps s ! i) (pcl (lps s ! i)) s \<noteq> None" by (cases "pcl (lps s ! i)") (simp_all add: case_prod_beta)
  then obtain s' where "sperre ids ok i (lps s ! i) (pcl (lps s ! i)) s = Some s'" by blast
  with i(1) have "lact ids ok i s = Some s'" by (simp add: lact_def)
  then show ?thesis by blast
qed

interpretation locked: terminating_protocol "lact ids ok" "\<lambda>s. s = lstart inps" "linv inps ok" lsize all_closed for ids ok inps
proof unfold_locales
  fix s s' i
  show "s = lstart inps \<Longrightarrow> linv inps ok s" by (simp add: linv_start)
  show "linv inps ok s \<Longrightarrow> lact ids ok i s = Some s' \<Longrightarrow> linv inps ok s'" using linv_step by blast
  show "linv inps ok s \<Longrightarrow> lact ids ok i s = Some s' \<Longrightarrow> lsize s' < lsize s" using linv_step by blast
  show "linv inps ok s \<Longrightarrow> \<not> all_closed s \<Longrightarrow> \<exists>i s'. lact ids ok i s = Some s'" by (rule lact_possible)
qed

section \<open>Correctness\<close>

text \<open>
  C25: \<^verbatim>\<open>sperre.c\<close>: however the processes overtake each other, every schedule ends; then each process that could open the
  file has appended what it read, piece by piece and in its order, nothing is lost or written twice, and the lock is free
  again. (A piece is written although the lock was refused, and \<^verbatim>\<open>getchar\<close> takes a line away from \<^verbatim>\<open>read\<close>: \<open>writes_of\<close>.)
\<close>

theorem sperre_appends:
  assumes "run (lact ids ok) is (lstart inps) = Some s"
  shows "length is \<le> 3 * sum_list (map chars inps) + 7 * length inps \<and>
    ((\<forall>i. lact ids ok i s = None) \<longrightarrow> owner s = None \<and>
      (\<forall>i < length inps. by_proc i s = (if ok i then writes_of (inps ! i) [] else [])))"
proof -
  have "lsize (lstart inps) = 3 * sum_list (map chars inps) + 7 * length inps"
    by (induction inps) (simp_all add: lsize_def lstart_def lweight_def)
  with locked.run_bound [OF linv_start assms] have len: "length is \<le> 3 * sum_list (map chars inps) + 7 * length inps" by simp
  have inv: "linv inps ok s" by (rule locked.bounded.run_keeps [OF linv_start assms])
  have "owner s = None \<and> (\<forall>i < length inps. by_proc i s = (if ok i then writes_of (inps ! i) [] else []))"
    if rest: "\<forall>i. lact ids ok i s = None"
  proof -
    have fin: "pcl (lps s ! i) = Lend" if "i < length (lps s)" for i
      using locked.stuck_final [OF linv_start assms] rest that by (simp add: all_closed_def)
    have "owner s = None" using inv fin by (cases "owner s") (auto simp: linv_def lock_ok_def holding_def)
    moreover have "by_proc i s = (if ok i then writes_of (inps ! i) [] else [])" if "i < length inps" for i
      using inv fin [of i] that by (auto simp: linv_def texts_ok_def to_write_def split: if_splits)
    ultimately show ?thesis by blast
  qed
  with len show ?thesis by blast
qed

text \<open>Two processes; the second one writes while the first one has the lock.\<close>

definition two_inputs :: "string list list" where
  "two_inputs = [[''ab'' @ [LF], ''x'' @ [LF], [LF]], [''cd'' @ [LF], ''y'' @ [LF], [LF]]]"

definition overlap :: "nat list" where "overlap = [0, 0, 0, 1, 1, 1, 1]"

definition both_done :: "nat list" where "both_done = overlap @ [0, 0, 0, 0, 0, 1, 1, 1, 1]"

lemma refused_but_written:
  "case run (lact (\<lambda>i. 500 + int i) (\<lambda>_. True)) overlap (lstart two_inputs) of None \<Rightarrow> False
   | Some s \<Rightarrow> owner s = Some 0 \<and> content s = [(1, ''cd'' @ [LF])] \<and> last (told (lps s ! 1)) = Perror ''Fehler: fcntl(fd, F_SETLK, F_WRLCK''"
  by code_simp

lemma sperre_appends_witness:
  "\<exists>s. run (lact (\<lambda>i. 500 + int i) (\<lambda>_. True)) both_done (lstart two_inputs) = Some s \<and> owner s = None \<and> by_proc 0 s = writes_of (two_inputs ! 0) []"
proof -
  have "case run (lact (\<lambda>i. 500 + int i) (\<lambda>_. True)) both_done (lstart two_inputs) of None \<Rightarrow> False | Some s \<Rightarrow> all_closed s" by code_simp
  then obtain s where s: "run (lact (\<lambda>i. 500 + int i) (\<lambda>_. True)) both_done (lstart two_inputs) = Some s" "all_closed s"
    by (auto split: option.splits)
  have "\<forall>i. lact (\<lambda>i. 500 + int i) (\<lambda>_. True) i s = None" using s(2) by (auto simp: lact_def all_closed_def)
  with sperre_appends [OF s(1)] s(1) show ?thesis by (auto simp: two_inputs_def)
qed

text \<open>What is written of two typed lines: \<^verbatim>\<open>getchar\<close> takes the second one.\<close>

lemma writes_of_example: "writes_of [''ab'' @ [LF], ''x'' @ [LF], ''ef'' @ [LF], [LF]] [] = [''ab'' @ [LF], ''ef'' @ [LF]]"
  by code_simp

end
