(* ===== verification/SystemFiles.thy ===== *)
theory SystemFiles
  imports CString
begin

text \<open>
  \<^verbatim>\<open>06_SystemFiles\<close>: \<^verbatim>\<open>pasname.c\<close> and \<^verbatim>\<open>pasname2.c\<close> show an entry of the user database, \<^verbatim>\<open>read_shadow.c\<close> and
  \<^verbatim>\<open>read_shadow2.c\<close> one of the shadow file, \<^verbatim>\<open>groupname.c\<close> one of the group database, and \<^verbatim>\<open>utsname.c\<close> the names
  of the system. A database is the list of the entries that the process may read, in the order of the file.
\<close>

section \<open>Going through a database\<close>

text \<open>
  A database with the place of the next entry. \<open>next_entry\<close> is \<^verbatim>\<open>getpwent\<close> and \<^verbatim>\<open>getspent\<close>, \<open>rewind\<close> is
  \<^verbatim>\<open>endpwent\<close> and \<^verbatim>\<open>endspent\<close>.
\<close>

record 'e db =
  entries :: "'e list"
  place :: nat

definition next_entry :: "'e db \<Rightarrow> 'e option \<times> 'e db" where
  "next_entry d = (if place d < length (entries d) then (Some (entries d ! place d), d\<lparr>place := Suc (place d)\<rparr>) else (None, d))"

definition rewind :: "'e db \<Rightarrow> 'e db" where
  "rewind d = d\<lparr>place := 0\<rparr>"

text \<open>The loop that \<open>getpasswd\<close> and \<open>getshadow\<close> have in common: it stops at the first entry with the name.\<close>

function search_db :: "('e \<Rightarrow> string) \<Rightarrow> string \<Rightarrow> 'e db \<Rightarrow> 'e option \<times> 'e db" where
  "search_db key name d =
     (case next_entry d of
        (None, d) \<Rightarrow> (None, rewind d)
      | (Some e, d) \<Rightarrow> if key e = name then (Some e, rewind d) else search_db key name d)"
  by pat_completeness auto
termination
  by (relation "measure (\<lambda>(key, name, d). length (entries d) - place d)")
     (auto simp: next_entry_def split: if_splits)

declare search_db.simps [simp del]

lemma search_db_find:
  "search_db key name d = (find (\<lambda>e. key e = name) (drop (place d) (entries d)), rewind d)"
proof (induction key name d rule: search_db.induct)
  case (1 key name d)
  show ?case
  proof (cases "place d < length (entries d)")
    case True
    then have "drop (place d) (entries d) = entries d ! place d # drop (Suc (place d)) (entries d)"
      by (simp add: Cons_nth_drop_Suc)
    with True "1.IH" show ?thesis by (simp add: search_db.simps [of key name d] next_entry_def rewind_def)
  qed (simp add: search_db.simps [of key name d] next_entry_def rewind_def)
qed

section \<open>pasname.c, pasname2.c\<close>

text \<open>User and group numbers are unsigned, and the programs print them with \<^verbatim>\<open>%d\<close>.\<close>

record passwd =
  pw_name :: string
  pw_uid :: "32 word"
  pw_gid :: "32 word"
  pw_gecos :: string
  pw_dir :: string
  pw_shell :: string

definition getpwnam :: "string \<Rightarrow> passwd db \<Rightarrow> passwd option" where
  "getpwnam name d = find (\<lambda>e. pw_name e = name) (entries d)"

definition getpwuid :: "32 word \<Rightarrow> passwd db \<Rightarrow> passwd option" where
  "getpwuid uid d = find (\<lambda>e. pw_uid e = uid) (entries d)"

definition getpasswd :: "string \<Rightarrow> passwd db \<Rightarrow> passwd option \<times> passwd db" where
  "getpasswd = search_db pw_name"

text \<open>
  \<^verbatim>\<open>strtoul(s, &rest, 10)\<close>: the value modulo $2^{64}$, negated after a minus sign; the greatest value if the digits are
  too many; 0 and the whole text if there is no digit.
\<close>

definition sign_of :: "string \<Rightarrow> bool \<times> string" where
  "sign_of t = (case t of [] \<Rightarrow> (False, []) | c # cs \<Rightarrow>
     if c = CHR ''-'' then (True, cs) else if c = CHR ''+'' then (False, cs) else (False, t))"

definition strtoul :: "string \<Rightarrow> 64 word \<times> string" where
  "strtoul s =
     (case sign_of (dropWhile is_space s) of (neg, u) \<Rightarrow>
       (case scan_unsigned u of
          None \<Rightarrow> (0, s)
        | Some (n, rest) \<Rightarrow> (if 2 ^ 64 \<le> n then -1 else if neg then - word_of_nat n else word_of_nat n, rest)))"

definition user_lines :: "passwd \<Rightarrow> say list" where
  "user_lines e =
     [Out (''User Angaben:'' @ [LF]),
      Out (''Benutzername        : '' @ pw_name e @ [LF]),
      Out (''Benutzernummer      : '' @ show_int (sint (pw_uid e)) @ [LF]),
      Out (''Gruppennummer       : '' @ show_int (sint (pw_gid e)) @ [LF]),
      Out (''Kommentar           : '' @ pw_gecos e @ [LF]),
      Out (''Home-Verzeichnis    : '' @ pw_dir e @ [LF]),
      Out (''Login-Shell         : '' @ pw_shell e @ [LF])]"

text \<open>The frame of all five programs: one argument, one entry, its lines.\<close>

definition name_usage :: "string list \<Rightarrow> int \<times> say list" where
  "name_usage argv = (EXIT_FAILURE, [Err (''Usage: '' @ concat (take 1 argv) @ '' Name'' @ [LF])])"

definition show_entry :: "('e \<Rightarrow> say list) \<Rightarrow> string \<Rightarrow> 'e option \<Rightarrow> int \<times> say list" where
  "show_entry lines name r =
     (case r of
        None \<Rightarrow> (EXIT_FAILURE, [Out (''Konnte nichts ueber '' @ name @ '' ermitteln'' @ [LF])])
      | Some e \<Rightarrow> (EXIT_SUCCESS, lines e))"

definition pasname_main :: "string list \<Rightarrow> passwd db \<Rightarrow> int \<times> say list" where
  "pasname_main argv d =
     (if length argv \<noteq> 2 then name_usage argv
      else let (n, str_rest) = strtoul (argv ! 1); uid = ucast n :: 32 word;
               pas_ptr = (if str_rest = [] then getpwuid uid d else getpwnam (argv ! 1) d)
      in show_entry user_lines (argv ! 1) pas_ptr)"

definition pasname2_main :: "string list \<Rightarrow> passwd db \<Rightarrow> int \<times> say list" where
  "pasname2_main argv d =
     (if length argv \<noteq> 2 then name_usage argv
      else show_entry user_lines (argv ! 1) (fst (getpasswd (argv ! 1) d)))"

section \<open>read_shadow.c, read_shadow2.c\<close>

record spwd =
  sp_namp :: string
  sp_pwdp :: string
  sp_lstchg :: "64 word"
  sp_min :: "64 word"
  sp_max :: "64 word"
  sp_warn :: "64 word"
  sp_inact :: "64 word"

definition getspnam :: "string \<Rightarrow> spwd db \<Rightarrow> spwd option" where
  "getspnam name d = find (\<lambda>e. sp_namp e = name) (entries d)"

definition getshadow :: "string \<Rightarrow> spwd db \<Rightarrow> spwd option \<times> spwd db" where
  "getshadow = search_db sp_namp"

definition shadow_lines :: "spwd \<Rightarrow> say list" where
  "shadow_lines e =
     [Out (''User (passwd) Angaben:'' @ [LF]),
      Out (''Benutzername                    : '' @ sp_namp e @ [LF]),
      Out (''Passwort (verschluesselt)       : '' @ sp_pwdp e @ [LF]),
      Out (''Tag der letzten Aenderung       : '' @ show_int (sint (sp_lstchg e)) @ '' Tage'' @ [LF]),
      Out (''Naechste Aenderung moeglich     : '' @ show_int (sint (sp_min e)) @ '' Tage'' @ [LF]),
      Out (''Naechste Aenderung faelllig     : '' @ show_int (sint (sp_max e)) @ '' Tage'' @ [LF]),
      Out (''Warnung wenn Aenderung faelllig : '' @ show_int (sint (sp_warn e)) @ '' Tage vorher'' @ [LF]),
      Out (''Konto nach '' @ show_int (sint (sp_inact e)) @ '' Tagen sperren'' @ [LF])]"

definition read_shadow_main :: "string list \<Rightarrow> spwd db \<Rightarrow> int \<times> say list" where
  "read_shadow_main argv d =
     (if length argv \<noteq> 2 then name_usage argv
      else show_entry shadow_lines (argv ! 1) (fst (getshadow (argv ! 1) d)))"

definition read_shadow2_main :: "string list \<Rightarrow> spwd db \<Rightarrow> int \<times> say list" where
  "read_shadow2_main argv d =
     (if length argv \<noteq> 2 then name_usage argv
      else show_entry shadow_lines (argv ! 1) (getspnam (argv ! 1) d))"

section \<open>groupname.c, utsname.c\<close>

record group =
  gr_name :: string
  gr_passwd :: string
  gr_gid :: "32 word"
  gr_mem :: "string option list"

definition getgrnam :: "string \<Rightarrow> group db \<Rightarrow> group option" where
  "getgrnam name d = find (\<lambda>e. gr_name e = name) (entries d)"

text \<open>The members are an array that ends with a null pointer.\<close>

function member_lines :: "string option list \<Rightarrow> nat \<Rightarrow> say list cres" where
  "member_lines mem i =
     (if \<not> i < length mem then Inl OutOfBounds
      else case mem ! i of
        None \<Rightarrow> Inr []
      | Some m \<Rightarrow> (case member_lines mem (Suc i) of Inl f \<Rightarrow> Inl f
          | Inr os \<Rightarrow> Inr (Out (TAB # ''Name                     : '' @ m @ [LF]) # os)))"
  by pat_completeness auto
termination by (relation "measure (\<lambda>(mem, i). length mem - i)") auto

declare member_lines.simps [simp del]

definition groupname_main :: "string list \<Rightarrow> group db \<Rightarrow> (int \<times> say list) cres" where
  "groupname_main argv d =
     (if length argv \<noteq> 2 then Inr (name_usage argv)
      else case getgrnam (argv ! 1) d of
        None \<Rightarrow> Inr (EXIT_FAILURE, [Out (''Konnte nichts ueber '' @ argv ! 1 @ '' ermitteln'' @ [LF])])
      | Some g \<Rightarrow> (case member_lines (gr_mem g) 0 of Inl f \<Rightarrow> Inl f | Inr os \<Rightarrow> Inr (EXIT_SUCCESS,
          [Out (''User Angaben:'' @ [LF]),
           Out (''Gruppenname                : '' @ gr_name g @ [LF]),
           Out (''Passwort (verschluesselt)  : '' @ gr_passwd g @ [LF]),
           Out (''GID                        : '' @ show_int (sint (gr_gid g)) @ [LF]),
           Out (''Member:'' @ [LF])] @ os)))"

record utsname =
  sysname :: string
  nodename :: string
  release :: string
  version :: string
  machine :: string
  domainname :: string

definition utsname_main :: "utsname option \<Rightarrow> int \<times> say list" where
  "utsname_main uname =
     (case uname of
        None \<Rightarrow> (EXIT_FAILURE, [Err (''Fehler bei uname()'' @ [LF])])
      | Some u \<Rightarrow> (EXIT_SUCCESS,
          [Out (''Folgende Angaben wurden ermittelt:'' @ [LF]),
           Out (''Betriebsystem   : '' @ sysname u @ [LF]),
           Out (''Knotenname      : '' @ nodename u @ [LF]),
           Out (''Release         : '' @ release u @ [LF]),
           Out (''Version         : '' @ version u @ [LF]),
           Out (''Architektur     : '' @ machine u @ [LF]),
           Out (''Domainname      : '' @ domainname u @ [LF])]))"

section \<open>Numbers and names\<close>

lemma strtoul_show_nat:
  assumes "n < 2 ^ 64"
  shows "strtoul (show_nat n) = (word_of_nat n, [])"
proof -
  obtain c cs where c: "show_nat n = c # cs" by (meson list.exhaust show_nat_nonempty)
  then have d: "is_digit c" using show_nat_digits [of n] by simp
  have "scan_unsigned (show_nat n) = Some (n, [])"
    using scan_unsigned_show_nat [of "[]" n] by (simp add: starts_digit_def)
  with c d digit_not_space_sign [OF d] assms show ?thesis by (simp add: strtoul_def sign_of_def)
qed

definition no_number_char :: "char \<Rightarrow> bool" where
  "no_number_char c \<longleftrightarrow> \<not> is_digit c \<and> \<not> is_space c \<and> c \<noteq> CHR ''-'' \<and> c \<noteq> CHR ''+''"

lemma sign_of_set: "sign_of t = (neg, u) \<Longrightarrow> set t \<subseteq> insert (CHR ''-'') (insert (CHR ''+'') (set u))"
  by (cases t) (auto simp: sign_of_def split: if_splits)

lemma strtoul_name:
  assumes "c \<in> set s" and "no_number_char c"
  shows "snd (strtoul s) \<noteq> []"
proof -
  obtain neg u where u: "sign_of (dropWhile is_space s) = (neg, u)" by fastforce
  have "c \<in> set (dropWhile is_space s)"
    using assms by (metis Un_iff no_number_char_def set_append set_takeWhileD takeWhile_dropWhile_id)
  with sign_of_set [OF u] assms(2) have cu: "c \<in> set u" by (auto simp: no_number_char_def)
  show ?thesis
  proof (cases "scan_unsigned u")
    case None
    with u assms(1) show ?thesis by (auto simp: strtoul_def)
  next
    case (Some r)
    moreover obtain n rest where "r = (n, rest)" by (cases r)
    ultimately have r: "scan_digits 0 u = (n, rest)" "scan_unsigned u = Some (n, rest)"
      by (simp_all add: scan_unsigned_def split: list.splits if_splits)
    from scan_digits_split [OF r(1)] cu assms(2) have "rest \<noteq> []" by (auto simp: no_number_char_def)
    with u r(2) show ?thesis by (simp add: strtoul_def)
  qed
qed

lemma unat_of_small: "n < 2 ^ 32 \<Longrightarrow> (w :: 32 word) = ucast (word_of_nat n :: 64 word) \<longleftrightarrow> unat w = n"
  by (auto simp: word_unat_eq_iff unat_of_nat unsigned_ucast_eq take_bit_eq_mod)

section \<open>What the programs show\<close>

lemma getpasswd_find: "place d = 0 \<Longrightarrow> getpasswd name d = (getpwnam name d, d)"
  by (simp add: getpasswd_def getpwnam_def search_db_find rewind_def)

lemma getshadow_find: "place d = 0 \<Longrightarrow> getshadow name d = (getspnam name d, d)"
  by (simp add: getshadow_def getspnam_def search_db_find rewind_def)

text \<open>
  C39: \<^verbatim>\<open>pasname.c\<close> and \<^verbatim>\<open>pasname2.c\<close> show the same for every name that is no number, although the one asks the library and the
  other goes through the database itself: the first entry with the name. For a number below $2^{32}$
  \<^verbatim>\<open>pasname.c\<close> shows the first entry with that user number. \<^verbatim>\<open>read_shadow.c\<close> and
  \<^verbatim>\<open>read_shadow2.c\<close> always show the same.
\<close>

theorem lookups_agree:
  assumes "place d = 0" and "place s = 0"
  shows "((\<exists>c \<in> set n. no_number_char c) \<longrightarrow> pasname_main [prog, n] d = pasname2_main [prog, n] d) \<and>
    pasname2_main [prog, n] d = show_entry user_lines n (find (\<lambda>e. pw_name e = n) (entries d)) \<and>
    (k < 2 ^ 32 \<longrightarrow> pasname_main [prog, show_nat k] d = show_entry user_lines (show_nat k) (find (\<lambda>e. unat (pw_uid e) = k) (entries d))) \<and>
    read_shadow_main argv s = read_shadow2_main argv s"
proof (intro conjI impI)
  assume "\<exists>c \<in> set n. no_number_char c"
  then have "snd (strtoul n) \<noteq> []" using strtoul_name by blast
  then show "pasname_main [prog, n] d = pasname2_main [prog, n] d"
    by (simp add: pasname_main_def pasname2_main_def getpasswd_find [OF assms(1)] split_beta)
next
  assume k: "k < 2 ^ 32"
  then have "strtoul (show_nat k) = (word_of_nat k, [])" by (intro strtoul_show_nat) simp
  then show "pasname_main [prog, show_nat k] d = show_entry user_lines (show_nat k) (find (\<lambda>e. unat (pw_uid e) = k) (entries d))"
    by (simp add: pasname_main_def getpwuid_def unat_of_small [OF k])
qed (simp_all add: pasname2_main_def read_shadow_main_def read_shadow2_main_def getpasswd_find [OF assms(1)] getpwnam_def
      getshadow_find [OF assms(2)])

text \<open>No name at all is the number 0, the administrator, and numbers that are too great wrap around.\<close>

lemma pasname_empty: "pasname_main [prog, []] d = show_entry user_lines [] (getpwuid 0 d)"
  by (simp add: pasname_main_def strtoul_def sign_of_def scan_unsigned_def)

lemma pasname_wraps: "pasname_main [prog, show_nat (2 ^ 32)] d = show_entry user_lines (show_nat (2 ^ 32)) (getpwuid 0 d)"
proof -
  have "strtoul (show_nat (2 ^ 32)) = (4294967296, [])" using strtoul_show_nat [of "2 ^ 32"] by simp
  moreover have "getpwuid 4294967296 d = getpwuid 0 d" by (rule arg_cong [of _ _ "\<lambda>u. getpwuid u d"], rule word_uint_eqI) simp
  ultimately show ?thesis by (simp add: pasname_main_def)
qed

definition root_entry :: passwd where
  "root_entry = \<lparr>pw_name = ''root'', pw_uid = 0, pw_gid = 0, pw_gecos = ''root'', pw_dir = ''/root'', pw_shell = ''/bin/sh''\<rparr>"

definition two_users :: "passwd db" where
  "two_users = \<lparr>entries = [root_entry, root_entry\<lparr>pw_name := ''eva'', pw_uid := 1000\<rparr>], place = 0\<rparr>"

lemma lookups_agree_witness:
  "pasname_main [''p'', ''eva''] two_users = pasname2_main [''p'', ''eva''] two_users \<and>
   pasname_main [''p'', show_nat 1000] two_users = (0, user_lines (root_entry\<lparr>pw_name := ''eva'', pw_uid := 1000\<rparr>))"
proof -
  have "place two_users = 0" "place \<lparr>entries = [] :: spwd list, place = 0\<rparr> = 0" by (simp_all add: two_users_def)
  note agree = lookups_agree [OF this, of "''eva''" "''p''" 1000 "[]"]
  have "\<exists>c \<in> set ''eva''. no_number_char c" by (simp add: no_number_char_def is_digit_def is_space_def)
  with agree have "pasname_main [''p'', ''eva''] two_users = pasname2_main [''p'', ''eva''] two_users" by blast
  moreover have "pasname_main [''p'', show_nat 1000] two_users =
      show_entry user_lines (show_nat 1000) (find (\<lambda>e. unat (pw_uid e) = 1000) (entries two_users))"
    using agree by simp
  then have "pasname_main [''p'', show_nat 1000] two_users = (0, user_lines (root_entry\<lparr>pw_name := ''eva'', pw_uid := 1000\<rparr>))"
    by (simp add: two_users_def root_entry_def show_entry_def)
  ultimately show ?thesis ..
qed

text \<open>The members of a group up to the null pointer.\<close>

lemma member_lines_all:
  "i \<le> length ms \<Longrightarrow> member_lines (map Some ms @ None # rest) i =
     Inr (map (\<lambda>m. Out (TAB # ''Name                     : '' @ m @ [LF])) (drop i ms))"
proof (induction "length ms - i" arbitrary: i)
  case 0
  then have "i = length ms" by simp
  then show ?case by (subst member_lines.simps) (simp add: nth_append)
next
  case (Suc n)
  then have i: "i < length ms" by simp
  with Suc have "member_lines (map Some ms @ None # rest) (Suc i) =
      Inr (map (\<lambda>m. Out (TAB # ''Name                     : '' @ m @ [LF])) (drop (Suc i) ms))" by simp
  with i show ?case by (subst member_lines.simps) (simp add: nth_append Cons_nth_drop_Suc [symmetric])
qed

lemma groupname_lists:
  assumes "getgrnam name d = Some g" and "gr_mem g = map Some ms @ [None]"
  shows "\<exists>os. groupname_main [prog, name] d = Inr (EXIT_SUCCESS, os) \<and>
    drop 5 os = map (\<lambda>m. Out (TAB # ''Name                     : '' @ m @ [LF])) ms"
  using assms member_lines_all [of 0 ms "[]"] by (simp add: groupname_main_def)

end
