(* ===== verification/Terminfo.thy ===== *)
theory Terminfo
  imports CString
begin

text \<open>
  \<^verbatim>\<open>13_Terminal/terminfo.c\<close> and \<^verbatim>\<open>terminfo2.c\<close> list capabilities of the terminal, the second one at places of the
  screen. The database of terminals is a parameter.
\<close>

section \<open>The database\<close>

text \<open>
  \<^verbatim>\<open>tigetstr\<close> returns a null pointer for a capability that the terminal does not have and \<^verbatim>\<open>(char *)-1\<close>
  for a name that is no string capability; neither can be read.
\<close>

datatype cap = Absent | NotString | Cap string

record terminfo =
  setupterm :: int
  tigetflag :: "string \<Rightarrow> int"
  tigetnum :: "string \<Rightarrow> int"
  tigetstr :: "string \<Rightarrow> cap"
  tparm :: "string \<Rightarrow> int \<Rightarrow> int \<Rightarrow> string"

text \<open>What goes to the terminal: text, and control strings by \<^verbatim>\<open>putp\<close>.\<close>

datatype tout = Text string | Control string

definition followed_by :: "tout list cres \<Rightarrow> tout list cres \<Rightarrow> tout list cres" where
  "followed_by a b = (case a of Inl f \<Rightarrow> Inl f | Inr x \<Rightarrow> (case b of Inl f \<Rightarrow> Inl f | Inr y \<Rightarrow> Inr (x @ y)))"

text \<open>\<^verbatim>\<open>putp\<close> of a null pointer writes nothing.\<close>

definition putp :: "cap \<Rightarrow> tout list cres" where
  "putp c = (case c of Absent \<Rightarrow> Inr [] | NotString \<Rightarrow> Inl OutOfBounds | Cap s \<Rightarrow> Inr [Control s])"

section \<open>terminfo.c\<close>

definition boolcaps :: "string list" where "boolcaps = [''am'', ''bm'', ''bce'', ''km'']"
definition numcaps :: "string list" where "numcaps = [''cols'', ''lines'', ''colors'', ''pairs'']"
definition strcaps :: "string list" where "strcaps = [''cup'', ''kf2'', ''flash'', ''hpa'']"

definition flag_line :: "terminfo \<Rightarrow> string \<Rightarrow> tout list cres" where
  "flag_line t c =
     Inr [Text (c @ (if tigetflag t c = -1 then '' wird nicht unterstuetzt'' else '' wird unterstuetzt'') @ [LF])]"

definition num_line :: "terminfo \<Rightarrow> string \<Rightarrow> tout list cres" where
  "num_line t c =
     (let ret = tigetnum t c
      in Inr [Text (if ret = -1 then c @ '' wird nicht unterstuetzt'' @ [LF] else c @ '' ist '' @ show_int ret @ [LF])])"

text \<open>The string is printed from its second character on, which the empty string does not have.\<close>

definition str_line :: "terminfo \<Rightarrow> string \<Rightarrow> tout list cres" where
  "str_line t c =
     (case tigetstr t c of
        Absent \<Rightarrow> Inr [Text (c @ '' wird nicht unterstuetzt'' @ [LF])]
      | NotString \<Rightarrow> Inl OutOfBounds
      | Cap s \<Rightarrow> if s = [] then Inl OutOfBounds else Inr [Text (c @ '' ist '' @ [CHR 0x5C] @ ''E'' @ tl s @ [LF])])"

text \<open>One of the loops over four names; \<open>i\<close> is its variable.\<close>

fun caps_loop :: "(nat \<Rightarrow> string \<Rightarrow> tout list cres) \<Rightarrow> nat \<Rightarrow> string list \<Rightarrow> tout list cres" where
  "caps_loop body i [] = Inr []"
| "caps_loop body i (c # cs) = followed_by (body i c) (caps_loop body (Suc i) cs)"

definition after_setup :: "terminfo \<Rightarrow> tout list cres \<Rightarrow> (int \<times> say list \<times> tout list) cres" where
  "after_setup t rest =
     (if setupterm t \<noteq> 0 then Inr (EXIT_FAILURE, [Perror ''setupterm()''], [])
      else case rest of Inl f \<Rightarrow> Inl f | Inr os \<Rightarrow> Inr (EXIT_SUCCESS, [], os))"

definition terminfo_main :: "terminfo \<Rightarrow> (int \<times> say list \<times> tout list) cres" where
  "terminfo_main t = after_setup t
     (followed_by (caps_loop (\<lambda>i. flag_line t) 0 boolcaps)
     (followed_by (Inr [Text [LF]])
     (followed_by (caps_loop (\<lambda>i. num_line t) 0 numcaps)
     (followed_by (Inr [Text [LF]])
       (caps_loop (\<lambda>i. str_line t) 0 strcaps)))))"

section \<open>terminfo2.c\<close>

definition clrscr :: "terminfo \<Rightarrow> tout list cres" where
  "clrscr t = putp (tigetstr t ''clear'')"

definition mvcursor :: "terminfo \<Rightarrow> int \<Rightarrow> int \<Rightarrow> tout list cres" where
  "mvcursor t zeile spalte =
     putp (case tigetstr t ''cup'' of Cap s \<Rightarrow> Cap (tparm t s zeile spalte) | c \<Rightarrow> c)"

definition myflash :: "terminfo \<Rightarrow> tout list cres" where
  "myflash t = followed_by (putp (tigetstr t ''flash'')) (putp (tigetstr t ''flash''))"

definition prompt :: tout where "prompt = Text (''Weiter mit ENTER'' @ [LF])"

text \<open>The line of a capability at its place, and the prompt at the end of a page (\<^verbatim>\<open>getchar\<close> always returns).\<close>

definition placed :: "terminfo \<Rightarrow> (string \<Rightarrow> tout list cres) \<Rightarrow> nat \<Rightarrow> string \<Rightarrow> tout list cres" where
  "placed t line i c = followed_by (mvcursor t (int i + 2) 10) (line c)"

definition page :: "terminfo \<Rightarrow> (string \<Rightarrow> tout list cres) \<Rightarrow> string list \<Rightarrow> tout list cres" where
  "page t line cs =
     followed_by (caps_loop (placed t line) 0 cs) (followed_by (mvcursor t 10 10) (Inr [prompt]))"

definition terminfo2_main :: "terminfo \<Rightarrow> (int \<times> say list \<times> tout list) cres" where
  "terminfo2_main t = after_setup t
     (followed_by (clrscr t)
     (followed_by (page t (flag_line t) boolcaps)
     (followed_by (clrscr t)
     (followed_by (page t (num_line t) numcaps)
     (followed_by (clrscr t)
     (followed_by (page t (str_line t) strcaps)
     (followed_by (myflash t)
       (clrscr t))))))))"

section \<open>Both programs list the same\<close>

text \<open>What a run shows of the capabilities: its text without the blank lines and the prompts.\<close>

definition shows_cap :: "tout \<Rightarrow> bool" where
  "shows_cap x \<longleftrightarrow> (\<exists>s. x = Text s) \<and> x \<noteq> Text [LF] \<and> x \<noteq> prompt"

definition listed :: "tout list cres \<Rightarrow> tout list cres" where
  "listed r = (case r of Inl f \<Rightarrow> Inl f | Inr os \<Rightarrow> Inr (filter shows_cap os))"

lemma listed_followed [simp]: "listed (followed_by a b) = followed_by (listed a) (listed b)"
  by (cases a; cases b) (simp_all add: listed_def followed_by_def)

lemma followed_Nil [simp]: "followed_by (Inr []) b = b" "followed_by a (Inr []) = a"
  by (cases b; simp add: followed_by_def) (cases a; simp add: followed_by_def)

lemma listed_simps [simp]:
  "listed (Inr [Text [LF]]) = Inr []" "listed (Inr [prompt]) = Inr []" "listed (Inr []) = Inr []"
  by (simp_all add: listed_def shows_cap_def)

definition readable :: "terminfo \<Rightarrow> bool" where
  "readable t \<longleftrightarrow> (\<forall>c \<in> insert ''clear'' (set strcaps). tigetstr t c \<noteq> NotString \<and> tigetstr t c \<noteq> Cap [])"

lemma listed_putp: "c \<noteq> NotString \<Longrightarrow> listed (putp c) = Inr []"
  by (cases c) (simp_all add: putp_def listed_def shows_cap_def)

lemma readable_cap: "readable t \<Longrightarrow> c \<in> {''clear'', ''cup'', ''kf2'', ''flash'', ''hpa''} \<Longrightarrow> tigetstr t c \<noteq> NotString \<and> tigetstr t c \<noteq> Cap []"
  by (auto simp: readable_def strcaps_def)

lemma listed_screen:
  assumes "readable t"
  shows "listed (clrscr t) = Inr []" "listed (mvcursor t z s) = Inr []" "listed (myflash t) = Inr []"
proof -
  note r = readable_cap [OF assms]
  have c: "tigetstr t ''clear'' \<noteq> NotString" "tigetstr t ''cup'' \<noteq> NotString" "tigetstr t ''flash'' \<noteq> NotString" using r by simp_all
  then show "listed (clrscr t) = Inr []" by (simp add: clrscr_def listed_putp)
  from c show "listed (myflash t) = Inr []" by (simp add: myflash_def listed_putp)
  have "(case tigetstr t ''cup'' of Cap u \<Rightarrow> Cap (tparm t u z s) | c \<Rightarrow> c) \<noteq> NotString" using c(2) by (cases "tigetstr t ''cup''") auto
  then show "listed (mvcursor t z s) = Inr []" by (simp add: mvcursor_def listed_putp)
qed

lemma listed_loop:
  assumes "readable t"
  shows "listed (caps_loop (placed t line) i cs) = listed (caps_loop (\<lambda>i. line) j cs)"
proof (induction cs arbitrary: i j)
  case (Cons c cs)
  from Cons.IH [of "Suc i" "Suc j"] show ?case using listed_screen(2) [OF assms] by (simp add: placed_def)
qed simp

lemma listed_page: "readable t \<Longrightarrow> listed (page t line cs) = listed (caps_loop (\<lambda>i. line) 0 cs)"
  using listed_loop [of t line 0 cs 0] listed_screen(2) [of t] by (simp add: page_def)

lemma line_runs:
  assumes "\<And>c. c \<in> set cs \<Longrightarrow> \<exists>x. line c = Inr [x] \<and> shows_cap x"
  shows "\<exists>xs. caps_loop (\<lambda>i. line) j cs = Inr xs \<and> length xs = length cs \<and> filter shows_cap xs = xs"
  using assms
proof (induction cs arbitrary: j)
  case (Cons c cs)
  from Cons.prems [of c] obtain x where x: "line c = Inr [x]" "shows_cap x" by auto
  from Cons.IH [of "Suc j"] Cons.prems obtain xs where
    "caps_loop (\<lambda>i. line) (Suc j) cs = Inr xs" "length xs = length cs" "filter shows_cap xs = xs" by auto
  with x show ?case by (simp add: followed_by_def)
qed simp

lemma flag_line_cap: "c \<in> set boolcaps \<Longrightarrow> \<exists>x. flag_line t c = Inr [x] \<and> shows_cap x"
  by (auto simp: flag_line_def boolcaps_def shows_cap_def prompt_def)

lemma num_line_cap: "c \<in> set numcaps \<Longrightarrow> \<exists>x. num_line t c = Inr [x] \<and> shows_cap x"
  by (auto simp: num_line_def numcaps_def shows_cap_def prompt_def Let_def)

lemma str_line_cap:
  assumes "readable t" and c: "c \<in> set strcaps"
  shows "\<exists>x. str_line t c = Inr [x] \<and> shows_cap x"
proof -
  from assms have "tigetstr t c \<noteq> NotString" "tigetstr t c \<noteq> Cap []" by (simp_all add: readable_def)
  with c show ?thesis by (cases "tigetstr t c") (auto simp: str_line_def strcaps_def shows_cap_def prompt_def)
qed

lemma listed_Inr: "listed r = Inr xs \<Longrightarrow> \<exists>os. r = Inr os \<and> filter shows_cap os = xs"
  by (cases r) (simp_all add: listed_def)

text \<open>
  \<^verbatim>\<open>terminfo.c\<close> and \<^verbatim>\<open>terminfo2.c\<close>: unless a capability is an empty string, both programs return, with the same exit
  code and the same message if the terminal is not known; otherwise they list the same twelve capabilities in the
  same words and the same order, whatever the second program does with the screen.
\<close>

theorem terminfo_lists_same:
  assumes "readable t"
  shows "\<exists>code err os os2. terminfo_main t = Inr (code, err, os) \<and> terminfo2_main t = Inr (code, err, os2) \<and>
    filter shows_cap os = filter shows_cap os2 \<and> (setupterm t = 0 \<longleftrightarrow> code = EXIT_SUCCESS) \<and>
    (setupterm t = 0 \<longrightarrow> err = [] \<and> length (filter shows_cap os) = 12)"
proof (cases "setupterm t = 0")
  case True
  obtain a where a: "caps_loop (\<lambda>i. flag_line t) 0 boolcaps = Inr a" "length a = 4" "filter shows_cap a = a"
    using line_runs [of boolcaps "flag_line t" 0] flag_line_cap by (auto simp: boolcaps_def)
  obtain b where b: "caps_loop (\<lambda>i. num_line t) 0 numcaps = Inr b" "length b = 4" "filter shows_cap b = b"
    using line_runs [of numcaps "num_line t" 0] num_line_cap by (auto simp: numcaps_def)
  obtain c where c: "caps_loop (\<lambda>i. str_line t) 0 strcaps = Inr c" "length c = 4" "filter shows_cap c = c"
    using line_runs [of strcaps "str_line t" 0] str_line_cap [OF assms] by (auto simp: strcaps_def)
  have l: "listed (Inr xs) = Inr (filter shows_cap xs)" for xs by (simp add: listed_def)
  obtain os where os: "terminfo_main t = Inr (EXIT_SUCCESS, [], os)" "filter shows_cap os = a @ b @ c"
    using True a b c by (simp add: terminfo_main_def after_setup_def followed_by_def shows_cap_def)
  let ?r = "followed_by (clrscr t) (followed_by (page t (flag_line t) boolcaps) (followed_by (clrscr t)
     (followed_by (page t (num_line t) numcaps) (followed_by (clrscr t) (followed_by (page t (str_line t) strcaps)
     (followed_by (myflash t) (clrscr t)))))))"
  have "listed ?r = Inr (a @ b @ c)"
    using a b c by (simp add: listed_screen [OF assms] listed_page [OF assms] l) (simp add: followed_by_def)
  from listed_Inr [OF this] obtain os2 where os2: "?r = Inr os2" "filter shows_cap os2 = a @ b @ c" by blast
  then have "terminfo2_main t = Inr (EXIT_SUCCESS, [], os2)" using True by (simp add: terminfo2_main_def after_setup_def)
  with os os2(2) True a(2) b(2) c(2) show ?thesis by simp
qed (simp add: terminfo_main_def terminfo2_main_def after_setup_def)

text \<open>An absent flag, for which \<^verbatim>\<open>tigetflag\<close> returns 0, is listed as supported.\<close>

lemma absent_flag: "tigetflag t c = 0 \<Longrightarrow> flag_line t c = Inr [Text (c @ '' wird unterstuetzt'' @ [LF])]"
  by (simp add: flag_line_def)

definition small_terminal :: terminfo where
  "small_terminal = \<lparr>setupterm = 0, tigetflag = (\<lambda>c. if c = ''am'' then 1 else 0), tigetnum = (\<lambda>c. if c = ''cols'' then 80 else -1),
     tigetstr = (\<lambda>c. if c = ''clear'' then Cap ''X'' else if c = ''cup'' then Cap ''Y'' else Absent), tparm = (\<lambda>s z c. s)\<rparr>"

lemma terminfo_lists_same_witness:
  "\<exists>os os2. terminfo_main small_terminal = Inr (0, [], os) \<and> terminfo2_main small_terminal = Inr (0, [], os2) \<and>
     filter shows_cap os = filter shows_cap os2 \<and> length (filter shows_cap os) = 12"
proof -
  have "readable small_terminal" by (simp add: readable_def small_terminal_def strcaps_def)
  moreover have "setupterm small_terminal = 0" by (simp add: small_terminal_def)
  ultimately show ?thesis using terminfo_lists_same [of small_terminal] by auto
qed

end
