(* ===== verification/FdFlags.thy ===== *)
theory FdFlags
  imports CString
begin

text \<open>
  \<^verbatim>\<open>02_Files/play_fd.c\<close>: flags of a descriptor and of the open file behind it, by \<^verbatim>\<open>fcntl\<close>, on 32-bit words.
\<close>

unbundle bit_operations_syntax

section \<open>fcntl\<close>

definition O_WRONLY :: "32 word" where "O_WRONLY = 1"
definition O_RDWR :: "32 word" where "O_RDWR = 2"
definition O_RDONLY :: "32 word" where "O_RDONLY = 0"
definition O_ACCMODE :: "32 word" where "O_ACCMODE = 3"
definition O_APPEND :: "32 word" where "O_APPEND = 0x400"
definition O_NONBLOCK :: "32 word" where "O_NONBLOCK = 0x800"
definition FD_CLOEXEC :: "32 word" where "FD_CLOEXEC = 1"

lemmas flag_defs = O_WRONLY_def O_RDWR_def O_RDONLY_def O_ACCMODE_def O_APPEND_def O_NONBLOCK_def FD_CLOEXEC_def

record ofile =
  fd_flags :: "32 word"
  status_flags :: "32 word"

text \<open>
  \<^verbatim>\<open>F_SETFL\<close> changes the flags for appending, signals, direct access, access times and non-blocking mode; it ignores the access
  mode. A call that fails changes nothing.
\<close>

definition settable :: "32 word" where "settable = 0x46C00"

definition change_flags :: "32 word \<Rightarrow> 32 word \<Rightarrow> 32 word" where
  "change_flags s a = (s AND NOT settable) OR (a AND settable)"

definition f_setfl :: "bool \<Rightarrow> 32 word \<Rightarrow> ofile \<Rightarrow> int \<times> ofile" where
  "f_setfl ok a f =
     (if ok then (0, f\<lparr>status_flags := change_flags (status_flags f) a\<rparr>) else (-1, f))"

definition f_setfd :: "bool \<Rightarrow> 32 word \<Rightarrow> ofile \<Rightarrow> int \<times> ofile" where
  "f_setfd ok a f = (if ok then (0, f\<lparr>fd_flags := a\<rparr>) else (-1, f))"

section \<open>play_fd.c\<close>

text \<open>What the calls answer: the opened file, and which of the later calls succeed.\<close>

record fd_env =
  opened :: "ofile option"
  dup_ok :: bool
  setfd_ok :: bool
  append_ok :: bool
  nonblock_ok :: bool

definition dup_msg :: say where "dup_msg = Out (''Filedescriptor erfolgreich dupliziert'' @ [LF])"
definition append_msg :: say where "append_msg = Out (''O_APPEND gesetzt'' @ [LF])"
definition nonblock_msg :: say where "nonblock_msg = Out (''O_NONBLOCK erfolgreich gesetzt'' @ [LF])"
definition no_nonblock_msg :: say where "no_nonblock_msg = Out (''Konnte O_NONBLOCK nicht setzen'' @ [LF])"

lemmas msg_defs = dup_msg_def append_msg_def nonblock_msg_def no_nonblock_msg_def

definition dup_part :: "fd_env \<Rightarrow> say list" where
  "dup_part e = (if dup_ok e then [] else [dup_msg])"

definition cloexec_part :: "fd_env \<Rightarrow> ofile \<Rightarrow> say list \<times> ofile" where
  "cloexec_part e f =
     (if fd_flags f = 1 then ([Out (''Close-on-exec-Bit ist schon gesetzt'' @ [LF])], f)
      else case f_setfd (setfd_ok e) FD_CLOEXEC f of (r, f) \<Rightarrow>
        if r < 0 then ([Out (''Konnte close-on-exec-Bit nicht setzen'' @ [LF])], f)
        else ([Out (''Close-on-exec Bit wurde gesetzt'' @ [LF])], f))"

definition oeffnet :: string where "oeffnet = ''ge'' @ [CHR 0xC3, CHR 0xB6] @ ''ffnet'' @ [LF]"

definition mode_part :: "32 word \<Rightarrow> say list" where
  "mode_part modus =
     (if modus = O_RDWR then [Out (''Datei nur zum lesen und schreiben '' @ oeffnet)]
      else if modus = O_RDONLY then [Out (''Datei nur zum lesen '' @ oeffnet)]
      else if modus = O_WRONLY then [Out (''Datei nur zum schreiben '' @ oeffnet)]
      else []) @
     (if modus = O_APPEND then [Out (''Wir k'' @ [CHR 0xC3, CHR 0xB6] @ ''nnen am Dateiende schreiben'' @ [LF])] else [])"

definition append_part :: "fd_env \<Rightarrow> 32 word \<Rightarrow> ofile \<Rightarrow> say list \<times> ofile" where
  "append_part e modus f =
     (let modus = modus OR O_APPEND in
      case f_setfl (append_ok e) modus f of (r, f) \<Rightarrow>
        ((if r < 0 then [Out (''Konnte Attribut O_APPEND nicht setzen'' @ [LF])] else []) @
         (if modus = O_APPEND then [append_msg] else []), f))"

text \<open>The flags of the descriptor are taken for those of the file here.\<close>

definition nonblock_part :: "fd_env \<Rightarrow> ofile \<Rightarrow> say list \<times> ofile" where
  "nonblock_part e f =
     (let modus = fd_flags f AND O_ACCMODE in
      if modus = O_NONBLOCK then ([Out (''O_NONBLOCK schon gesetzt'' @ [LF])], f)
      else let modus = modus OR O_NONBLOCK; (r, f) = f_setfl (nonblock_ok e) modus f
      in ([if modus = O_NONBLOCK then nonblock_msg else no_nonblock_msg], f))"

definition play_fd_main :: "string list \<Rightarrow> fd_env \<Rightarrow> int \<times> say list \<times> ofile option" where
  "play_fd_main argv e =
     (if length argv < 2 then (EXIT_FAILURE, [Err (''Usage: '' @ concat (take 1 argv) @ '' DATEI'' @ [LF])], None)
      else case opened e of
        None \<Rightarrow> (EXIT_FAILURE, [Err (''Konnte '' @ argv ! 1 @ '' nicht '' @ [CHR 0xC3, CHR 0xB6] @ ''ffnen!'' @ [LF])], None)
      | Some f \<Rightarrow>
          let (o2, f) = cloexec_part e f;
              modus = status_flags f AND O_ACCMODE;
              (o4, f) = append_part e modus f;
              (o5, f) = nonblock_part e f
          in (EXIT_SUCCESS, dup_part e @ o2 @ mode_part modus @ o4 @ o5, Some f))"

section \<open>What the messages are worth\<close>

lemma change_bits: "n < 32 \<Longrightarrow> bit (change_flags s a) n = (if bit settable n then bit a n else bit s n)"
  by (simp add: change_flags_def bit_simps)

lemma settable_bits: "bit settable 10" "bit settable 11" "\<not> bit settable 0" "\<not> bit settable (Suc 0)"
  by (simp_all add: settable_def bit_numeral_rec)

lemma acc_mode_bits: "(s :: 32 word) AND O_ACCMODE = O_RDONLY \<longleftrightarrow> \<not> bit s 0 \<and> \<not> bit s 1"
proof
  assume "s AND O_ACCMODE = O_RDONLY"
  then have "bit (s AND O_ACCMODE) n = False" for n by (simp add: flag_defs)
  from this [of 0] this [of 1] show "\<not> bit s 0 \<and> \<not> bit s 1" by (simp add: flag_defs bit_and_iff bit_numeral_rec)
next
  assume b: "\<not> bit s 0 \<and> \<not> bit s 1"
  have "(3 :: 32 word) = mask 2" by (simp add: mask_eq_exp_minus_1)
  then have "bit (3 :: 32 word) n \<longleftrightarrow> n = 0 \<or> n = 1" for n
    by (simp only: bit_mask_iff) (auto simp: less_2_cases_iff)
  note three = this
  show "s AND O_ACCMODE = O_RDONLY"
  proof (rule bit_word_eqI)
    fix n
    show "bit (s AND O_ACCMODE) n = bit O_RDONLY n"
      unfolding O_ACCMODE_def O_RDONLY_def bit_and_iff three using b by (cases "n = 0"; cases "n = 1") auto
  qed
qed

text \<open>
  C21: \<^verbatim>\<open>play_fd.c\<close> with a file that can be opened: it ends with success, and in the end the close-on-exec bit is set if that
  call succeeded, the file is in non-blocking mode if that call succeeded, and then no longer in append mode,
  for the second \<^verbatim>\<open>F_SETFL\<close> takes back the first. The messages say something else: the duplicate is announced exactly when
  there is none, append mode always, and non-blocking mode is denied exactly when the close-on-exec bit was set.
\<close>

theorem play_fd_reports:
  assumes "opened e = Some f" and "fd_flags f = 0" and "status_flags f AND O_ACCMODE = O_RDONLY" and "2 \<le> length argv"
  shows "\<exists>out f'. play_fd_main argv e = (EXIT_SUCCESS, out, Some f') \<and>
    fd_flags f' = (if setfd_ok e then FD_CLOEXEC else 0) \<and> status_flags f' AND O_ACCMODE = O_RDONLY \<and>
    (bit (status_flags f') 11 \<longleftrightarrow> nonblock_ok e \<or> \<not> append_ok e \<and> bit (status_flags f) 11) \<and>
    (bit (status_flags f') 10 \<longleftrightarrow> \<not> nonblock_ok e \<and> (append_ok e \<or> bit (status_flags f) 10)) \<and>
    (dup_msg \<in> set out \<longleftrightarrow> \<not> dup_ok e) \<and> append_msg \<in> set out \<and>
    (no_nonblock_msg \<in> set out \<longleftrightarrow> setfd_ok e) \<and> (nonblock_msg \<in> set out \<longleftrightarrow> \<not> setfd_ok e)"
proof -
  define g where "g = (if setfd_ok e then FD_CLOEXEC else 0)"
  define s1 where "s1 = (if append_ok e then change_flags (status_flags f) O_APPEND else status_flags f)"
  define s2 where "s2 = (if nonblock_ok e then change_flags s1 (g OR O_NONBLOCK) else s1)"
  have g: "g AND O_ACCMODE = g" "g \<noteq> O_NONBLOCK" "g OR O_NONBLOCK = O_NONBLOCK \<longleftrightarrow> \<not> setfd_ok e"
    by (simp_all add: g_def flag_defs)
  have m: "O_RDONLY \<noteq> O_RDWR" "O_RDONLY \<noteq> O_APPEND" "O_RDONLY OR O_APPEND = O_APPEND" "fd_flags f \<noteq> 1"
    using assms(2) by (simp_all add: flag_defs)
  obtain o2 where c: "cloexec_part e f = (o2, f\<lparr>fd_flags := g\<rparr>)" "set o2 \<inter> {dup_msg, append_msg, nonblock_msg, no_nonblock_msg} = {}"
    using assms(2) by (cases "setfd_ok e") (auto simp: cloexec_part_def f_setfd_def g_def msg_defs)
  obtain o4 where a: "append_part e O_RDONLY (f\<lparr>fd_flags := g\<rparr>) = (o4, f\<lparr>fd_flags := g, status_flags := s1\<rparr>)"
      "append_msg \<in> set o4" "set o4 \<inter> {dup_msg, nonblock_msg, no_nonblock_msg} = {}"
    using m(3) by (cases "append_ok e") (auto simp: append_part_def f_setfl_def s1_def msg_defs)
  have n: "nonblock_part e (f\<lparr>fd_flags := g, status_flags := s1\<rparr>) =
      ([if setfd_ok e then no_nonblock_msg else nonblock_msg], f\<lparr>fd_flags := g, status_flags := s2\<rparr>)"
    using g by (simp add: nonblock_part_def f_setfl_def s2_def)
  let ?out = "dup_part e @ o2 @ mode_part O_RDONLY @ o4 @ [if setfd_ok e then no_nonblock_msg else nonblock_msg]"
  have "play_fd_main argv e = (EXIT_SUCCESS, ?out, Some (f\<lparr>fd_flags := g, status_flags := s2\<rparr>))"
    using assms(1,3,4) c(1) a(1) n by (simp add: play_fd_main_def)
  moreover have "s2 AND O_ACCMODE = O_RDONLY"
    using assms(3) unfolding acc_mode_bits by (simp add: s2_def s1_def change_bits settable_bits)
  moreover have "bit s2 11 \<longleftrightarrow> nonblock_ok e \<or> \<not> append_ok e \<and> bit (status_flags f) 11"
    by (simp add: s2_def s1_def change_bits settable_bits flag_defs bit_or_iff bit_numeral_rec)
  moreover have "bit s2 10 \<longleftrightarrow> \<not> nonblock_ok e \<and> (append_ok e \<or> bit (status_flags f) 10)"
    by (simp add: s2_def s1_def g_def change_bits settable_bits flag_defs bit_or_iff bit_numeral_rec)
  moreover have "set (mode_part O_RDONLY) \<inter> {dup_msg, append_msg, nonblock_msg, no_nonblock_msg} = {}"
    using m by (simp add: mode_part_def msg_defs)
  then have "(dup_msg \<in> set ?out \<longleftrightarrow> \<not> dup_ok e) \<and> append_msg \<in> set ?out \<and>
      (no_nonblock_msg \<in> set ?out \<longleftrightarrow> setfd_ok e) \<and> (nonblock_msg \<in> set ?out \<longleftrightarrow> \<not> setfd_ok e)"
    using c(2) a(2,3) by (auto simp: dup_part_def msg_defs split: if_splits)
  ultimately show ?thesis by (simp add: g_def)
qed

definition fd_example :: fd_env where
  "fd_example = \<lparr>opened = Some \<lparr>fd_flags = 0, status_flags = 0x8000\<rparr>, dup_ok = True, setfd_ok = True, append_ok = True, nonblock_ok = True\<rparr>"

lemma play_fd_reports_witness:
  "\<exists>out f'. play_fd_main [''play_fd'', ''x''] fd_example = (0, out, Some f') \<and> bit (status_flags f') 11 \<and> no_nonblock_msg \<in> set out"
  using play_fd_reports [of fd_example "\<lparr>fd_flags = 0, status_flags = 0x8000\<rparr>" "[''play_fd'', ''x'']"]
  by (auto simp: fd_example_def flag_defs)

end
