(* ===== verification/Directories.thy ===== *)
theory Directories
  imports CString "HOL-Library.List_Lexorder" "HOL-Library.Char_ord" "HOL-Library.Multiset"
begin

text \<open>
  The programs of \<^verbatim>\<open>02_Files\<close> about directories: \<^verbatim>\<open>scan_dir.c\<close>, \<^verbatim>\<open>find_dir.c\<close> and \<^verbatim>\<open>list_wd.c\<close> list one, \<^verbatim>\<open>ftwalk.c\<close> shows a
  tree, \<^verbatim>\<open>mymkdir.c\<close> and \<^verbatim>\<open>mychdir.c\<close> create one; and \<^verbatim>\<open>poll_stdin_time.c\<close>. The contents of directories, regular expressions
  and what \<^verbatim>\<open>ftw\<close> visits are arguments.
\<close>

section \<open>scan_dir.c, find_dir.c\<close>

text \<open>
  \<open>dir\<close> gives the entries of a directory in the order of the disk. \<^verbatim>\<open>alphasort\<close> compares as \<^verbatim>\<open>strcmp\<close> does, for the programs
  do not set a locale.
\<close>

definition scandir :: "(string \<Rightarrow> string list option) \<Rightarrow> string \<Rightarrow> (string \<Rightarrow> bool) \<Rightarrow> (string list \<Rightarrow> string list) \<Rightarrow> string list option" where
  "scandir dir ptr select order = map_option (\<lambda>es. order (filter select es)) (dir ptr)"

text \<open>
  The array \<^verbatim>\<open>namelist\<close>: each element is a block of its own, \<open>None\<close> after \<^verbatim>\<open>free\<close>. The loop prints and frees them.
\<close>

function print_entries :: "nat \<Rightarrow> nat \<Rightarrow> string option list \<Rightarrow> (say list \<times> string option list) cres" where
  "print_entries num i namelist =
     (if i < num then
        if \<not> i < length namelist then Inl OutOfBounds
        else case namelist ! i of
          None \<Rightarrow> Inl NullDeref
        | Some name \<Rightarrow> (case print_entries num (Suc i) (namelist[i := None]) of
            Inl f \<Rightarrow> Inl f
          | Inr (os, ns) \<Rightarrow> Inr (Out (SPC # name @ [LF]) # os, ns))
      else Inr ([], namelist))"
  by pat_completeness auto
termination by (relation "measure (\<lambda>(num, i, ns). num - i)") auto

declare print_entries.simps [simp del]

definition eintraege :: string where "eintraege = ''Eintr'' @ [CHR 0xC3, CHR 0xA4] @ ''ge''"

definition dir_header :: "string \<Rightarrow> nat \<Rightarrow> say" where
  "dir_header wd n = Out (''Anzahl der '' @ eintraege @ '' in '' @ wd @ '': '' @ show_nat n @ [LF])"

text \<open>
  Both programs after \<^verbatim>\<open>scandir\<close>: \<open>wd\<close> is the array after \<^verbatim>\<open>getcwd\<close>, which leaves it as it is if it fails. The last components
  are the elements of \<^verbatim>\<open>namelist\<close> and whether the array itself is freed.
\<close>

definition show_dir :: "char list \<Rightarrow> string list \<Rightarrow> (int \<times> say list \<times> string option list \<times> bool) cres" where
  "show_dir wd names =
     (if \<not> terminated wd then Inl OutOfBounds
      else if names = [] then Inr (EXIT_SUCCESS, [dir_header (cstr wd) 0, Out [LF]], [], False)
      else case print_entries (length names) 0 (map Some names) of
        Inl f \<Rightarrow> Inl f
      | Inr (os, ns) \<Rightarrow> Inr (EXIT_SUCCESS, [dir_header (cstr wd) (length names), Out (''Die '' @ eintraege @ '':'' @ [LF])] @ os @
            [Out [LF], Out [LF]], ns, True))"

definition start_dir :: "string list \<Rightarrow> string" where
  "start_dir argv = (if length argv < 2 then ''.'' else argv ! 1)"

definition scan_failed :: "(int \<times> say list \<times> string option list \<times> bool) cres" where
  "scan_failed = Inr (EXIT_FAILURE, [Err (''Unerwarteter Fehler'' @ [LF])], [], False)"

definition scan_dir_main :: "(string \<Rightarrow> string list option) \<Rightarrow> char list \<Rightarrow> string list \<Rightarrow> (int \<times> say list \<times> string option list \<times> bool) cres" where
  "scan_dir_main dir wd argv =
     (case scandir dir (start_dir argv) (\<lambda>n. True) sort of None \<Rightarrow> scan_failed | Some names \<Rightarrow> show_dir wd names)"

text \<open>\<open>regexpr\<close> is \<open>None\<close> before \<^verbatim>\<open>regcomp\<close>; \<open>search\<close> tells whether it is used.\<close>

definition my_select :: "bool \<Rightarrow> (string \<Rightarrow> bool) option \<Rightarrow> string \<Rightarrow> bool" where
  "my_select search regexpr name =
     (if \<not> search then True else case regexpr of None \<Rightarrow> False | Some matches \<Rightarrow> matches name)"

definition find_dir_main ::
    "(string \<Rightarrow> (string \<Rightarrow> bool) option) \<Rightarrow> (string \<Rightarrow> string list option) \<Rightarrow> char list \<Rightarrow> string list \<Rightarrow> (int \<times> say list \<times> string option list \<times> bool) cres" where
  "find_dir_main regcomp dir wd argv =
     (let regexpr = (if length argv = 3 then regcomp (argv ! 2) else None); search = (length argv = 3) in
      if search \<and> regexpr = None then Inr (EXIT_FAILURE, [Out (''Problem beim Ausdruck '' @ argv ! 2 @ ''n'')], [], False)
      else case scandir dir (start_dir argv) (my_select search regexpr) (\<lambda>ns. ns) of
        None \<Rightarrow> scan_failed | Some names \<Rightarrow> show_dir wd names)"

section \<open>list_wd.c\<close>

datatype d_type = DT_REG | DT_DIR | DT_UNKNOWN | DT_other

definition type_text :: "d_type \<Rightarrow> string" where
  "type_text t = (case t of DT_REG \<Rightarrow> ''Normale Datei : '' | DT_DIR \<Rightarrow> ''Verzeichnis   : '' | DT_UNKNOWN \<Rightarrow> ''???           : '' | DT_other \<Rightarrow> '''')"

fun list_loop :: "(d_type \<times> string) list \<Rightarrow> nat \<Rightarrow> say list \<times> nat" where
  "list_loop [] files = ([], files)"
| "list_loop ((t, n) # ep) files = (let (os, m) = list_loop ep (Suc files) in (Out (type_text t @ n @ [LF]) # os, m))"

definition list_wd_main :: "(d_type \<times> string) list option \<Rightarrow> int \<times> say list" where
  "list_wd_main dp =
     (let (os, files) = (case dp of
            None \<Rightarrow> ([Perror (''Kann Verzeichnis nicht '' @ [CHR 0xC3, CHR 0xB6] @ ''ffnen'')], 0)
          | Some es \<Rightarrow> list_loop es 0)
      in (EXIT_SUCCESS, os @ [Out (''--- Insgesammt '' @ show_nat files @ '' Dateien im Verzeichnis ---'' @ [LF])]))"

section \<open>ftwalk.c\<close>

lemma strchr_shorter: "strchr s c = Some q \<Longrightarrow> length (tl q) < length s"
  using strchr_Some [of s c q] by fastforce

function deep_loop :: "string \<Rightarrow> nat \<Rightarrow> nat" where
  "deep_loop ptr deep = (case strchr ptr (CHR ''/'') of None \<Rightarrow> deep | Some q \<Rightarrow> deep_loop (tl q) (Suc deep))"
  by pat_completeness auto
termination by (relation "measure (\<lambda>(ptr, deep). length ptr)") (auto dest: strchr_shorter)

declare deep_loop.simps [simp del]

definition dir_deep :: "string \<Rightarrow> nat" where "dir_deep pfad = deep_loop pfad 0"

datatype ftw_flag = FTW_F | FTW_D | FTW_DNR | FTW_other

definition flag_end :: "ftw_flag \<Rightarrow> string" where
  "flag_end f = (case f of FTW_F \<Rightarrow> '']'' @ [LF] | FTW_D \<Rightarrow> ''/]'' @ [LF] | FTW_DNR \<Rightarrow> ''/-]'' @ [LF] | FTW_other \<Rightarrow> ''???]'' @ [LF])"

text \<open>The static variables of \<open>fn\<close>: the first call has none, the others have the depth of the start.\<close>

definition two_wide :: "string \<Rightarrow> string" where "two_wide s = replicate (2 - length s) SPC @ s"

definition fn :: "string \<times> ftw_flag \<Rightarrow> nat option \<Rightarrow> (string \<times> nat option) cres" where
  "fn = (\<lambda>(pfadname, flag) st.
     case st of
       None \<Rightarrow> Inr (''['' @ pfadname @ flag_end flag, Some (dir_deep pfadname))
     | Some deep \<Rightarrow>
         (case strchr pfadname (CHR ''/'') of
            None \<Rightarrow> Inl NullDeref
          | Some q \<Rightarrow> Inr (concat (replicate (dir_deep pfadname - deep) (two_wide pfadname @ ''|'')) @ ''---['' @ tl q @ flag_end flag, st)))"

fun ftw_calls :: "(string \<times> ftw_flag) list \<Rightarrow> nat option \<Rightarrow> string list cres" where
  "ftw_calls [] st = Inr []"
| "ftw_calls (x # xs) st =
     (case fn x st of Inl f \<Rightarrow> Inl f
      | Inr (o1, st) \<Rightarrow> (case ftw_calls xs st of Inl f \<Rightarrow> Inl f | Inr os \<Rightarrow> Inr (o1 # os)))"

text \<open>\<open>walk\<close> gives what \<^verbatim>\<open>ftw\<close> visits and whether it succeeds.\<close>

definition ftwalk_main :: "(string \<Rightarrow> (string \<times> ftw_flag) list \<times> bool) \<Rightarrow> string list \<Rightarrow> (int \<times> string list) cres" where
  "ftwalk_main walk argv =
     (let (xs, ok) = walk (start_dir argv) in
      case ftw_calls xs None of Inl f \<Rightarrow> Inl f
      | Inr os \<Rightarrow> Inr (EXIT_SUCCESS, os @ (if ok then [] else [''Fehler bei ftw() ...!'' @ [LF]])))"

section \<open>mymkdir.c, mychdir.c, poll_stdin_time.c\<close>

text \<open>\<open>made\<close> is \<open>None\<close> if \<^verbatim>\<open>mkdir\<close> succeeds, and otherwise the text of the error.\<close>

definition mkdir_usage :: "string list \<Rightarrow> int \<times> say list" where
  "mkdir_usage argv = (EXIT_FAILURE, [Out (''USAGE: '' @ concat (take 1 argv) @ '' neues_verzeichnis'' @ [LF])])"

definition created :: "string \<Rightarrow> say" where
  "created d = Out (''Verzeichnis '' @ [CHR 0x22] @ d @ [CHR 0x22] @ '' erfolgreich erstellt'' @ [LF])"

definition mymkdir_main :: "string option \<Rightarrow> string list \<Rightarrow> int \<times> say list" where
  "mymkdir_main made argv =
     (if length argv < 2 then mkdir_usage argv
      else (EXIT_SUCCESS, [case made of None \<Rightarrow> created (argv ! 1)
              | Some e \<Rightarrow> Out (''Konnte Verzeichnis nicht erstellen ('' @ e @ '')'' @ [LF])]))"

definition mychdir_main :: "string option \<Rightarrow> bool \<Rightarrow> string option \<Rightarrow> string list \<Rightarrow> int \<times> say list" where
  "mychdir_main made changed wd argv =
     (if length argv < 2 then mkdir_usage argv
      else (EXIT_SUCCESS,
        [case made of None \<Rightarrow> created (argv ! 1)
         | Some e \<Rightarrow> Out (''Konnte das Verzeichnis nicht erstellen ('' @ e @ '')'' @ [LF])] @
        (if changed then [] else [Out (''Konnte das Verzeichnis nicht wechseln'' @ [LF])]) @
        (case wd of None \<Rightarrow> [] | Some d \<Rightarrow> [Out (''Neues Arbeitsverzeichnis: '' @ d @ [LF])])))"

text \<open>\<open>select\<close> is the result of \<^verbatim>\<open>poll_stdin_time(5)\<close>: the number of descriptors that are ready, or -1.\<close>

definition poll_stdin_main :: "int \<Rightarrow> int \<times> say list" where
  "poll_stdin_main select =
     (0, [Out (''Warte 5 Sek. auf Eingabe (ENTER-Taste)!'' @ [LF]),
          if select = 0 then Out (''Zeit abgelaufen'' @ [LF])
          else if select = 1 then Out (''Danke!!!'' @ [LF]) else Perror ''select()''])"

section \<open>Listings\<close>

definition entry_line :: "string \<Rightarrow> say" where "entry_line n = Out (SPC # n @ [LF])"

lemma print_entries_all:
  assumes "i \<le> length names"
  shows "print_entries (length names) i (replicate i None @ map Some (drop i names)) =
     Inr (map entry_line (drop i names), replicate (length names) None)"
  using assms
proof (induction "length names - i" arbitrary: i)
  case 0
  then show ?case by (subst print_entries.simps) simp
next
  case (Suc n)
  then have i: "i < length names" by simp
  then have d: "drop i names = names ! i # drop (Suc i) names" by (simp add: Cons_nth_drop_Suc)
  let ?l = "replicate i None @ map Some (drop i names)"
  have u: "?l[i := None] = replicate (Suc i) None @ map Some (drop (Suc i) names)"
    by (simp add: d list_update_append replicate_append_same [symmetric])
  have IH: "print_entries (length names) (Suc i) (?l[i := None]) = Inr (map entry_line (drop (Suc i) names), replicate (length names) None)"
    unfolding u by (rule Suc(1)) (use Suc(2) i in simp_all)
  have "i < length ?l" "?l ! i = Some (names ! i)" using i by (simp_all add: nth_append)
  with i IH show ?case by (subst print_entries.simps) (simp add: d entry_line_def del: list_update_append)
qed

text \<open>The lines for the entries \<open>names\<close>.\<close>

definition listing :: "string \<Rightarrow> string list \<Rightarrow> say list" where
  "listing wd names = dir_header wd (length names) #
     (if names = [] then [Out [LF]]
      else Out (''Die '' @ eintraege @ '':'' @ [LF]) # map entry_line names @ [Out [LF], Out [LF]])"

lemma show_dir_lists:
  "terminated wd \<Longrightarrow> show_dir wd names = Inr (EXIT_SUCCESS, listing (cstr wd) names, replicate (length names) None, names \<noteq> [])"
  using print_entries_all [of 0 names] by (simp add: show_dir_def listing_def)

text \<open>
  \<^verbatim>\<open>scan_dir.c\<close> and \<^verbatim>\<open>find_dir.c\<close>: for a directory that can be read the first program prints the number of its entries
  and all of them in sorted order, the second one those that match the pattern, or all of them, in the order of the disk.
  Each block is freed once and after its use, and so is the array of the blocks.
\<close>

theorem directory_lists:
  assumes "dir ptr = Some es" and "terminated wd" and "regcomp pat = Some matches"
  shows "\<exists>names. scan_dir_main dir wd [prog, ptr] = Inr (EXIT_SUCCESS, listing (cstr wd) names, replicate (length es) None, es \<noteq> []) \<and>
      sorted names \<and> mset names = mset es \<and>
    find_dir_main regcomp dir wd [prog, ptr] = Inr (EXIT_SUCCESS, listing (cstr wd) es, replicate (length es) None, es \<noteq> []) \<and>
    find_dir_main regcomp dir wd [prog, ptr, pat] =
      Inr (EXIT_SUCCESS, listing (cstr wd) (filter matches es), replicate (length (filter matches es)) None, filter matches es \<noteq> [])"
proof -
  have "sort es = [] \<longleftrightarrow> es = []" by (metis length_0_conv length_sort)
  moreover have "my_select False r = (\<lambda>n. True)" "my_select True (Some matches) = matches" for r
    by (simp_all add: my_select_def fun_eq_iff)
  ultimately show ?thesis
    using assms by (intro exI [of _ "sort es"])
      (simp add: scan_dir_main_def find_dir_main_def scandir_def start_dir_def show_dir_lists)
qed

definition home_dir :: "string \<Rightarrow> string list option" where
  "home_dir d = (if d = ''/home'' then Some [''eva'', ''adam'', ''.''] else None)"

lemma directory_lists_witness:
  "\<exists>names. scan_dir_main home_dir (''/home'' @ [NUL]) [''scan_dir'', ''/home''] = Inr (0, listing ''/home'' names, [None, None, None], True) \<and>
     sorted names \<and> mset names = mset [''eva'', ''adam'', ''.'']"
proof -
  have "home_dir ''/home'' = Some [''eva'', ''adam'', ''.'']" "terminated (''/home'' @ [NUL])" "cstr (''/home'' @ [NUL]) = ''/home''"
    by (simp_all add: home_dir_def terminated_def cstr_def)
  with directory_lists [of home_dir "''/home''" "[''eva'', ''adam'', ''.'']" "''/home'' @ [NUL]" "\<lambda>p. Some (\<lambda>n. False)" "''x''" "\<lambda>n. False"]
  show ?thesis by (simp del: append.simps mset.simps) blast
qed

lemma list_loop_count: "snd (list_loop es n) = n + length es \<and> length (fst (list_loop es n)) = length es"
  by (induction es n rule: list_loop.induct) (auto simp: split_beta Let_def)

section \<open>Trees\<close>

lemma deep_loop_count: "deep_loop s n = n + count_list s (CHR ''/'')"
proof (induction s n rule: deep_loop.induct)
  case (1 s n)
  show ?case
  proof (cases "strchr s (CHR ''/'')")
    case None
    then have "CHR ''/'' \<notin> set s" by (simp add: strchr_None)
    with None show ?thesis by (subst deep_loop.simps) (simp add: count_notin)
  next
    case (Some q)
    from strchr_Some [OF Some] obtain u where u: "s = u @ CHR ''/'' # tl q" "CHR ''/'' \<notin> set u" by blast
    then have "count_list s (CHR ''/'') = Suc (count_list (tl q) (CHR ''/''))" 
      using arg_cong [OF u(1), of "\<lambda>x. count_list x (CHR ''/'')"] by (simp add: count_notin)
    with Some 1 show ?thesis by (subst deep_loop.simps) simp
  qed
qed

lemma dir_deep_count: "dir_deep s = count_list s (CHR ''/'')"
  by (simp add: dir_deep_def deep_loop_count)

lemma strchr_first: "c \<notin> set u \<Longrightarrow> strchr (u @ c # s) c = Some (c # s)"
  by (induction u) auto

text \<open>The line of an entry \<open>rel\<close> below the start: a bar for each directory between them.\<close>

definition tree_line :: "string \<Rightarrow> string \<times> ftw_flag \<Rightarrow> string" where
  "tree_line root = (\<lambda>(rel, f). concat (replicate (Suc (count_list rel (CHR ''/''))) (two_wide (root @ CHR ''/'' # rel) @ ''|'')) @
     ''---['' @ rel @ flag_end f)"

lemma ftw_calls_below:
  assumes "CHR ''/'' \<notin> set root"
  shows "ftw_calls (map (\<lambda>(rel, f). (root @ CHR ''/'' # rel, f)) xs) (Some 0) = Inr (map (tree_line root) xs)"
proof (induction xs)
  case (Cons x xs)
  obtain rel f where x: "x = (rel, f)" by (cases x)
  have "dir_deep (root @ CHR ''/'' # rel) = Suc (count_list rel (CHR ''/''))" using assms by (simp add: dir_deep_count count_notin)
  then have "fn (root @ CHR ''/'' # rel, f) (Some 0) = Inr (tree_line root x, Some 0)"
    using strchr_first [OF assms, of rel] by (simp add: fn_def tree_line_def x)
  with Cons x show ?case by simp
qed simp

text \<open>
  \<^verbatim>\<open>ftwalk.c\<close>, started for a directory without a slash in its name: every entry below it has one line, with as many
  bars as it is deep and with its path from there, and \<^verbatim>\<open>strchr\<close> always finds the slash behind which that path starts.
\<close>

theorem ftwalk_shows_tree:
  assumes "walk root = ((root, f) # map (\<lambda>(rel, f). (root @ CHR ''/'' # rel, f)) xs, True)" and "CHR ''/'' \<notin> set root"
  shows "ftwalk_main walk [prog, root] = Inr (EXIT_SUCCESS, (''['' @ root @ flag_end f) # map (tree_line root) xs)"
proof -
  have "dir_deep root = 0" using assms(2) by (simp add: dir_deep_count count_notin)
  then have "fn (root, f) None = Inr (''['' @ root @ flag_end f, Some 0)" by (simp add: fn_def)
  with assms ftw_calls_below [OF assms(2), of xs] show ?thesis by (simp add: ftwalk_main_def start_dir_def)
qed

lemma ftwalk_shows_tree_witness:
  "ftwalk_main (\<lambda>d. ([(d, FTW_D), (d @ ''/src'', FTW_D), (d @ ''/src/a.c'', FTW_F)], True)) [''ftwalk'', ''prj''] =
     Inr (0, [''[prj/]'' @ [LF], ''prj/src|---[src/]'' @ [LF], ''prj/src/a.c|prj/src/a.c|---[src/a.c]'' @ [LF]])"
  by (subst ftwalk_shows_tree [of _ "''prj''" FTW_D "[(''src'', FTW_D), (''src/a.c'', FTW_F)]"])
     (simp_all add: tree_line_def two_wide_def flag_end_def)

end
