(* ===== verification/ProcFs.thy ===== *)
theory ProcFs
  imports CString
begin

text \<open>
  \<^verbatim>\<open>04_ProcFs\<close>: \<^verbatim>\<open>myinfo.c\<close> shows files of \<^verbatim>\<open>/proc\<close> from a menu, \<^verbatim>\<open>procfs_memory.c\<close> the size of the memory and
  \<^verbatim>\<open>my_getid.c\<close> the number of the process. The files are an argument, and so is what the arrays on the stack hold
  before they are written.
\<close>

section \<open>A file in an array\<close>

text \<open>
  \<^verbatim>\<open>fread\<close> of the whole array at its beginning, and the line feed behind what was read (where the string should end). \<open>None\<close>:
  nothing was read, or the array is full.
\<close>

definition read_into :: "char list \<Rightarrow> string \<Rightarrow> char list option" where
  "read_into buffer content =
     (let n = length (take (length buffer) content) in
      if n = 0 \<or> n = length buffer then None
      else Some ((take n content @ drop n buffer)[n := LF]))"

section \<open>myinfo.c\<close>

definition info :: "string list" where
  "info = [''/proc/cpuinfo'', ''/proc devices'', ''/proc/dma'', ''/proc/interrupts'', ''/proc/ioports'', ''/proc/meminfo'',
     ''/proc/pci'', ''/proc/version'', ''/proc/scsi/scsi'']"

definition EXIT :: int where "EXIT = 9"

definition weiter :: say where "weiter = Out ''Weiter mit ENTER''"

text \<open>The result has the output and what is left of the input.\<close>

definition get_info :: "(string \<Rightarrow> string option) \<Rightarrow> char list \<Rightarrow> nat \<Rightarrow> string \<Rightarrow> (say list \<times> string) cres" where
  "get_info files buffer nr inp =
     (case files (info ! nr) of
        None \<Rightarrow> Inr ([Perror ''fopen()''], inp)
      | Some content \<Rightarrow> (case read_into buffer content of
          None \<Rightarrow> Inr ([], inp)
        | Some b \<Rightarrow> if terminated b then Inr ([Out (cstr b), weiter], tl inp) else Inl OutOfBounds))"

text \<open>
  \<^verbatim>\<open>do { scanf("%d", &auswahl); } while(getchar() != '\n');\<close> At the end of the input \<^verbatim>\<open>getchar\<close> never returns a line feed.
\<close>

partial_function (option) read_choice :: "int \<Rightarrow> string \<Rightarrow> (int \<times> string) option" where
  "read_choice auswahl inp =
     (case scan_d inp of (v, r) \<Rightarrow>
       (let auswahl = (case v of None \<Rightarrow> auswahl | Some x \<Rightarrow> x) in
        case r of
          [] \<Rightarrow> read_choice auswahl []
        | c # r \<Rightarrow> if c = LF then Some (auswahl, r) else read_choice auswahl r))"

declare read_choice.simps [code]

definition menu_line :: "int \<Rightarrow> string \<Rightarrow> say" where "menu_line i s = Out (''-'' @ show_int i @ ''- '' @ s @ [LF])"

definition proc_menu :: "say list" where
  "proc_menu = [Out (''Wozu benoetigen Sie Informationen?'' @ [LF, LF]),
     menu_line 0 ''Prozessor'', menu_line 1 ''Geraete'', menu_line 2 ''DMA'', menu_line 3 ''Interrupts'', menu_line 4 ''I/O-Ports'',
     menu_line 5 ''Speicher'', menu_line 6 ''PCI-Bus'', menu_line 7 ''Version'', menu_line 8 ''SCSI'', menu_line 9 ''Programmende'',
     Out (LF # ''Ihre Auswahl : '')]"

definition chosen :: "(string \<Rightarrow> string option) \<Rightarrow> char list \<Rightarrow> int \<Rightarrow> string \<Rightarrow> (say list \<times> string) cres" where
  "chosen files buffer auswahl inp =
     (if 0 \<le> auswahl \<and> auswahl < EXIT then get_info files buffer (nat auswahl) inp
      else if auswahl = EXIT then Inr ([Out (''Bye'' @ [LF])], inp)
      else Inr ([Out (''Falsche Eingabe?'' @ [LF])], inp))"

text \<open>\<open>stack k\<close> is the array of \<open>get_info\<close> in the round \<open>k\<close>.\<close>

partial_function (option) myinfo_loop ::
    "(string \<Rightarrow> string option) \<Rightarrow> (nat \<Rightarrow> char list) \<Rightarrow> nat \<Rightarrow> int \<Rightarrow> string \<Rightarrow> say list \<Rightarrow> (int \<times> say list) cres option" where
  "myinfo_loop files stack k auswahl inp out =
     (case read_choice auswahl inp of
        None \<Rightarrow> None
      | Some (auswahl, inp) \<Rightarrow>
          (case chosen files (stack k) auswahl inp of
             Inl f \<Rightarrow> Some (Inl f)
           | Inr (os, inp) \<Rightarrow>
               if auswahl \<noteq> EXIT then myinfo_loop files stack (Suc k) auswahl inp (out @ proc_menu @ os)
               else Some (Inr (EXIT_SUCCESS, out @ proc_menu @ os))))"

definition myinfo_main :: "(string \<Rightarrow> string option) \<Rightarrow> (nat \<Rightarrow> char list) \<Rightarrow> int \<Rightarrow> string \<Rightarrow> (int \<times> say list) cres option" where
  "myinfo_main files stack auswahl inp = myinfo_loop files stack 0 auswahl inp []"

section \<open>procfs_memory.c\<close>

text \<open>
  \<^verbatim>\<open>strstr\<close> and \<^verbatim>\<open>sscanf\<close> read a string, and an array without its end is none. \<open>mem_tot\<close> is what the
  variable holds before the conversion. A full array or an empty one is the size 0.
\<close>

definition find_in :: "char list \<Rightarrow> string \<Rightarrow> string option cres" where
  "find_in b s = (if terminated b then Inr (strstr (cstr b) s) else Inl OutOfBounds)"

definition MemTotal :: string where "MemTotal = ''MemTotal''"

definition scan_mem :: "string \<Rightarrow> int \<Rightarrow> int" where
  "scan_mem match mem_tot =
     (case drop (length MemTotal) match of
        c # cs \<Rightarrow> if c = CHR '':'' then (case scan_int cs of Some (v, r) \<Rightarrow> v | None \<Rightarrow> mem_tot) else mem_tot
      | [] \<Rightarrow> mem_tot)"

definition get_mem_total :: "string option \<Rightarrow> char list \<Rightarrow> int \<Rightarrow> (say list + int) cres" where
  "get_mem_total meminfo buffer mem_tot =
     (case meminfo of
        None \<Rightarrow> Inr (Inl [Perror ''fopen()''])
      | Some content \<Rightarrow> (case read_into buffer content of
          None \<Rightarrow> Inr (Inr 0)
        | Some b \<Rightarrow> (case find_in b MemTotal of
            Inl f \<Rightarrow> Inl f
          | Inr None \<Rightarrow> Inr (Inr 0)
          | Inr (Some match) \<Rightarrow> (let v = scan_mem match mem_tot in Inr (Inr (if v < 0 then - (- v div 1024) else v div 1024))))))"

definition procfs_memory_main :: "string option \<Rightarrow> char list \<Rightarrow> int \<Rightarrow> (int \<times> say list) cres" where
  "procfs_memory_main meminfo buffer mem_tot =
     (case get_mem_total meminfo buffer mem_tot of
        Inl f \<Rightarrow> Inl f
      | Inr (Inl os) \<Rightarrow> Inr (EXIT_FAILURE, os)
      | Inr (Inr memory) \<Rightarrow> Inr (EXIT_SUCCESS,
          [if memory = 0 then Out (''Konnte RAM nicht ermitteln'' @ [LF])
           else Out (''Vorhandener Arbeitsspeicher: '' @ show_int memory @ ''MB'' @ [LF])]))"

section \<open>my_getid.c\<close>

text \<open>The array is cleared, and \<^verbatim>\<open>readlink\<close> writes at most 63 characters of the 64.\<close>

definition my_getid_main :: "string option \<Rightarrow> int \<Rightarrow> int \<times> say list" where
  "my_getid_main self pid =
     (case self of
        None \<Rightarrow> (EXIT_FAILURE, [Perror ''readlink()''])
      | Some target \<Rightarrow>
          let buf = take 63 target @ replicate (64 - length (take 63 target)) NUL;
              pid = (case scan_int (cstr buf) of Some (v, r) \<Rightarrow> v | None \<Rightarrow> pid)
          in (EXIT_SUCCESS, [Out (''Meine Process-ID lautet: '' @ show_int pid @ [LF])]))"

section \<open>Reading into the array\<close>

lemma read_into_Some:
  assumes "content \<noteq> []" and "length content < length buffer"
  shows "read_into buffer content = Some (content @ LF # drop (Suc (length content)) buffer)"
proof -
  have "(content @ drop (length content) buffer)[length content := LF] = content @ LF # drop (Suc (length content)) buffer"
    using assms(2) by (simp add: list_update_append Cons_nth_drop_Suc [symmetric])
  with assms show ?thesis by (simp add: read_into_def Let_def)
qed

lemma read_into_None: "content = [] \<or> length buffer \<le> length content \<Longrightarrow> read_into buffer content = None"
  by (auto simp: read_into_def Let_def min_def)

text \<open>What is printed: the file, the line feed, and whatever stands in the array up to the next zero.\<close>

definition overread :: "string \<Rightarrow> char list \<Rightarrow> string" where
  "overread content buffer = content @ LF # cstr (drop (Suc (length content)) buffer)"

lemma cstr_append: "no_nul s \<Longrightarrow> cstr (s @ t) = s @ cstr t"
  by (induction s) (simp_all add: cstr_def)

lemma terminated_append: "no_nul s \<Longrightarrow> terminated (s @ t) = terminated t"
  by (auto simp: terminated_def no_nul_def)

lemma get_info_shows:
  assumes "files (info ! nr) = Some content" and "content \<noteq> []" and "length content < length buffer" and "no_nul content"
  shows "get_info files buffer nr inp =
    (if terminated (drop (Suc (length content)) buffer) then Inr ([Out (overread content buffer), weiter], tl inp) else Inl OutOfBounds)"
proof -
  have t: "terminated (content @ LF # r) = terminated r" "cstr (content @ LF # r) = content @ LF # cstr r" for r
    using assms(4) terminated_append [of "content @ [LF]" r] cstr_append [of "content @ [LF]" r] by simp_all
  show ?thesis
    using read_into_Some [OF assms(2,3)] assms(1) by (simp add: get_info_def t overread_def)
qed

section \<open>The proc_menu\<close>

lemma read_choice_line: "read_choice a (show_int i @ LF # rest) = Some (conv_d i, rest)"
proof -
  have "\<not> starts_digit (LF # rest)" by (simp add: starts_digit_def is_digit_def)
  from scan_d_number [OF this, of i] show ?thesis by (subst read_choice.simps) simp
qed

text \<open>Without another line feed the program asks for ever.\<close>

lemma read_choice_LF: "read_choice a inp = Some r \<Longrightarrow> LF \<in> set inp"
proof (rule read_choice.raw_induct [where P = "\<lambda>a inp r. LF \<in> set inp"])
  fix f a inp r
  assume IH: "\<And>b i q. f b i = Some q \<Longrightarrow> LF \<in> set i"
    and e: "(case scan_d inp of (v, r) \<Rightarrow>
       (let auswahl = (case v of None \<Rightarrow> a | Some x \<Rightarrow> x) in
        case r of [] \<Rightarrow> f auswahl [] | c # r \<Rightarrow> if c = LF then Some (auswahl, r) else f auswahl r)) = Some r"
  obtain v s where s: "scan_d inp = (v, s)" by fastforce
  with scan_d_suffix [of inp] have sub: "set s \<subseteq> set inp" by (auto simp: suffix_def)
  show "LF \<in> set inp"
  proof (cases s)
    case Nil
    with e s have "\<exists>b. f b [] = Some r" by (auto simp: Let_def)
    with IH have "LF \<in> set []" by blast
    then show ?thesis by simp
  next
    case (Cons c cs)
    with e s have "c = LF \<or> (\<exists>b. f b cs = Some r)" by (auto simp: Let_def split: if_splits)
    with IH have "c = LF \<or> LF \<in> set cs" by blast
    with Cons sub show ?thesis by auto
  qed
qed

section \<open>Sessions\<close>

text \<open>
  The proper files hold text, and behind what is read of one, the array of 4096 characters holds a zero by chance (so no file
  has exactly 4095 characters: there is nothing behind it).
\<close>

definition proper :: "(string \<Rightarrow> string option) \<Rightarrow> (nat \<Rightarrow> char list) \<Rightarrow> bool" where
  "proper files stack \<longleftrightarrow>
     (\<forall>k. length (stack k) = 4096) \<and>
     (\<forall>f content. files f = Some content \<longrightarrow> no_nul content \<and>
        (\<forall>k. content \<noteq> [] \<and> length content < 4096 \<longrightarrow> terminated (drop (Suc (length content)) (stack k))))"

definition shows_file :: "(string \<Rightarrow> string option) \<Rightarrow> int \<Rightarrow> bool" where
  "shows_file files n \<longleftrightarrow> 0 \<le> n \<and> n < 9 \<and>
     (case files (info ! nat n) of None \<Rightarrow> False | Some content \<Rightarrow> content \<noteq> [] \<and> length content < 4096)"

text \<open>The user types a number, which is converted to an \<^verbatim>\<open>int\<close>, and, when a file is shown, ENTER.\<close>

fun typed :: "(string \<Rightarrow> string option) \<Rightarrow> int list \<Rightarrow> string" where
  "typed files [] = []"
| "typed files (n # ns) = show_int n @ [LF] @ (if shows_file files (conv_d n) then [LF] else []) @ typed files ns"

definition reply :: "(string \<Rightarrow> string option) \<Rightarrow> char list \<Rightarrow> int \<Rightarrow> say list" where
  "reply files buffer n =
     (if 0 \<le> n \<and> n < 9 then
        (case files (info ! nat n) of None \<Rightarrow> [Perror ''fopen()'']
         | Some content \<Rightarrow> if shows_file files n then [Out (overread content buffer), weiter] else [])
      else [Out (''Falsche Eingabe?'' @ [LF])])"

fun replies :: "(string \<Rightarrow> string option) \<Rightarrow> (nat \<Rightarrow> char list) \<Rightarrow> nat \<Rightarrow> int list \<Rightarrow> say list" where
  "replies files stack k [] = []"
| "replies files stack k (n # ns) = proc_menu @ reply files (stack k) (conv_d n) @ replies files stack (Suc k) ns"

lemma chosen_reply:
  assumes "proper files stack" and "n \<noteq> 9"
  shows "chosen files (stack k) n ((if shows_file files n then [LF] else []) @ rest) = Inr (reply files (stack k) n, rest)"
proof (cases "0 \<le> n \<and> n < 9")
  case True
  then have c: "chosen files (stack k) n inp = get_info files (stack k) (nat n) inp" for inp by (simp add: chosen_def EXIT_def)
  have len: "length (stack k) = 4096" using assms(1) by (simp add: proper_def)
  show ?thesis
  proof (cases "files (info ! nat n)")
    case None
    with True show ?thesis by (simp add: c get_info_def reply_def shows_file_def)
  next
    case (Some content)
    then have n: "no_nul content" using assms(1) by (auto simp: proper_def)
    show ?thesis
    proof (cases "content \<noteq> [] \<and> length content < 4096")
      case short: True
      then have t: "terminated (drop (Suc (length content)) (stack k))" using assms(1) Some by (auto simp: proper_def)
      have "shows_file files n" using short Some True by (simp add: shows_file_def)
      then show ?thesis
        using get_info_shows [of files "nat n" content "stack k" "LF # rest"] Some short n len t True by (simp add: c reply_def)
    next
      case False
      then have "read_into (stack k) content = None" using len by (intro read_into_None) auto
      with Some False True show ?thesis by (auto simp: c get_info_def reply_def shows_file_def)
    qed
  qed
qed (use assms(2) in \<open>auto simp: chosen_def EXIT_def reply_def shows_file_def\<close>)

lemma loop_typed:
  assumes "proper files stack" and "\<forall>n \<in> set ns. conv_d n \<noteq> 9"
  shows "\<exists>a'. myinfo_loop files stack k a (typed files ns @ rest) out =
    myinfo_loop files stack (k + length ns) a' rest (out @ replies files stack k ns)"
  using assms(2)
proof (induction ns arbitrary: k a out)
  case (Cons n ns)
  then have n: "conv_d n \<noteq> 9" by simp
  have "typed files (n # ns) @ rest = show_int n @ LF # (if shows_file files (conv_d n) then [LF] else []) @ typed files ns @ rest" by simp
  with read_choice_line [of a n] chosen_reply [OF assms(1) n, of k "typed files ns @ rest"] n
  have "myinfo_loop files stack k a (typed files (n # ns) @ rest) out =
      myinfo_loop files stack (Suc k) (conv_d n) (typed files ns @ rest) (out @ proc_menu @ reply files (stack k) (conv_d n))"
    by (subst myinfo_loop.simps) (simp add: EXIT_def)
  with Cons.IH [of "Suc k" "conv_d n" "out @ proc_menu @ reply files (stack k) (conv_d n)"] Cons.prems show ?case by simp
qed auto

text \<open>
  C30: \<^verbatim>\<open>myinfo.c\<close>: when the user types a number that \<^verbatim>\<open>scanf\<close> converts to 9 (9 itself, but also 4294967305) after other numbers,
  the program ends with success and has answered each number as it was converted: with the file and whatever is in the array
  behind it, with a message if there is none, and otherwise with a complaint. If the input ends before that the program does not
  return. Assumed (\<open>proper\<close>): the files hold no zero, and the array happens to hold one behind what is read of each file that is
  shown; this excludes files of exactly 4095 characters. Otherwise the array is left (\<open>myinfo_leaves_array\<close>).
\<close>

theorem myinfo_session:
  assumes "proper files stack" and "\<forall>n \<in> set ns. conv_d n \<noteq> 9" and "conv_d e = 9"
  shows "myinfo_main files stack a (typed files ns @ show_int e @ LF # rest) =
      Some (Inr (EXIT_SUCCESS, replies files stack 0 ns @ proc_menu @ [Out (''Bye'' @ [LF])])) \<and>
    myinfo_main files stack a (typed files ns) = None"
proof
  obtain a' where a': "myinfo_main files stack a (typed files ns @ show_int e @ LF # rest) =
      myinfo_loop files stack (length ns) a' (show_int e @ LF # rest) (replies files stack 0 ns)"
    using loop_typed [OF assms(1,2), of 0 a "show_int e @ LF # rest" "[]"] by (auto simp: myinfo_main_def)
  show "myinfo_main files stack a (typed files ns @ show_int e @ LF # rest) =
      Some (Inr (EXIT_SUCCESS, replies files stack 0 ns @ proc_menu @ [Out (''Bye'' @ [LF])]))"
    unfolding a' by (subst myinfo_loop.simps) (simp add: read_choice_line chosen_def EXIT_def assms(3))
next
  obtain a' where "myinfo_main files stack a (typed files ns) = myinfo_loop files stack (length ns) a' [] (replies files stack 0 ns)"
    using loop_typed [OF assms(1,2), of 0 a "[]" "[]"] by (auto simp: myinfo_main_def)
  moreover have "read_choice a' [] = None" using read_choice_LF [of a' "[]"] by (cases "read_choice a' []") auto
  ultimately show "myinfo_main files stack a (typed files ns) = None" by (subst (asm) myinfo_loop.simps) simp
qed

definition proc_files :: "string \<Rightarrow> string option" where
  "proc_files f = (if f = ''/proc/version'' then Some ''Linux'' else if f = ''/proc/dma'' then Some [] else None)"

lemma myinfo_session_witness:
  "myinfo_main proc_files (\<lambda>k. replicate 4096 NUL) 0 (typed proc_files [7, 1, 2, 4294967338] @ show_int 4294967305 @ LF # []) =
      Some (Inr (0, replies proc_files (\<lambda>k. replicate 4096 NUL) 0 [7, 1, 2, 4294967338] @ proc_menu @ [Out (''Bye'' @ [LF])])) \<and>
   replies proc_files (\<lambda>k. replicate 4096 NUL) 0 [7, 1, 2, 4294967338] =
     proc_menu @ [Out (''Linux'' @ [LF]), weiter] @ proc_menu @ [Perror ''fopen()''] @ proc_menu @ proc_menu @ [Out (''Falsche Eingabe?'' @ [LF])]"
proof
  have "proper proc_files (\<lambda>k. replicate 4096 NUL)" by (auto simp: proper_def proc_files_def terminated_def drop_replicate split: if_splits)
  then show "myinfo_main proc_files (\<lambda>k. replicate 4096 NUL) 0 (typed proc_files [7, 1, 2, 4294967338] @ show_int 4294967305 @ LF # []) =
      Some (Inr (0, replies proc_files (\<lambda>k. replicate 4096 NUL) 0 [7, 1, 2, 4294967338] @ proc_menu @ [Out (''Bye'' @ [LF])]))"
    using myinfo_session [of proc_files "\<lambda>k. replicate 4096 NUL" "[7, 1, 2, 4294967338]" 4294967305 0 "[]"] by (simp add: conv_d_def int32_def)
  show "replies proc_files (\<lambda>k. replicate 4096 NUL) 0 [7, 1, 2, 4294967338] =
     proc_menu @ [Out (''Linux'' @ [LF]), weiter] @ proc_menu @ [Perror ''fopen()''] @ proc_menu @ proc_menu @ [Out (''Falsche Eingabe?'' @ [LF])]"
    by (simp add: reply_def shows_file_def proc_files_def info_def overread_def drop_replicate cstr_def conv_d_def int32_def)
qed

text \<open>The entry for the devices is misspelt, so that no file of \<^verbatim>\<open>/proc\<close> is shown for it.\<close>

lemma devices_entry: "info ! 1 = ''/proc devices''"
  by (simp add: info_def)

text \<open>Without a zero behind what was read the array is left.\<close>

lemma myinfo_leaves_array:
  assumes "files (info ! nr) = Some content" and "content \<noteq> []" and "length content < length buffer" and "no_nul content" and "no_nul buffer"
  shows "get_info files buffer nr inp = Inl OutOfBounds"
  using get_info_shows [of files nr content buffer inp] assms by (auto simp: terminated_def no_nul_def dest: in_set_dropD)

section \<open>Numbers read back\<close>

text \<open>
  The first line of \<^verbatim>\<open>/proc/meminfo\<close> gives the memory in units of 1024; the program divides by 1024.
\<close>

lemma memory_shown:
  assumes "content = ''MemTotal:'' @ replicate n SPC @ show_int (int k) @ '' kB'' @ more" and "length content < length buffer"
    and "no_nul content" and "terminated (drop (Suc (length content)) buffer)" and "k < 2 ^ 31"
  shows "procfs_memory_main (Some content) buffer m = Inr (EXIT_SUCCESS,
    [if k < 1024 then Out (''Konnte RAM nicht ermitteln'' @ [LF])
     else Out (''Vorhandener Arbeitsspeicher: '' @ show_int (int k div 1024) @ ''MB'' @ [LF])])"
proof -
  let ?b = "content @ LF # drop (Suc (length content)) buffer"
  let ?rest = "'' kB'' @ more @ LF # cstr (drop (Suc (length content)) buffer)"
  have r: "read_into buffer content = Some ?b" using assms(1,2) by (intro read_into_Some) auto
  have t: "terminated ?b" using assms(4) by (simp add: terminated_def)
  have b: "cstr ?b = ''MemTotal:'' @ replicate n SPC @ show_int (int k) @ ?rest"
    using cstr_append [of "content @ [LF]" "drop (Suc (length content)) buffer"] assms(3) unfolding assms(1) by simp
  have "\<not> starts_digit ?rest" by (simp add: starts_digit_def is_digit_def)
  then have "scan_int (show_int (int k) @ ?rest) = Some (int k, ?rest)" using scan_int_show_int [of ?rest "int k"] assms(5) by simp
  moreover have "dropWhile is_space (replicate n SPC @ x) = dropWhile is_space x" for x by (induction n) (simp_all add: is_space_def)
  then have "scan_int (replicate n SPC @ x) = scan_int x" for x by (simp add: scan_int_def)
  ultimately have "scan_int (replicate n SPC @ show_int (int k) @ ?rest) = Some (int k, ?rest)" by simp
  then have v: "scan_mem (cstr ?b) m = int k" unfolding b by (simp add: scan_mem_def MemTotal_def)
  have "find_in ?b MemTotal = Inr (Some (cstr ?b))" using t by (simp add: find_in_def b MemTotal_def)
  with r v have g: "get_mem_total (Some content) buffer m = Inr (Inr (int k div 1024))" by (simp add: get_mem_total_def)
  have "int k div 1024 = 0 \<longleftrightarrow> k < 1024" by linarith
  with g show ?thesis by (simp add: procfs_memory_main_def)
qed

lemma getid_shown:
  assumes "length (show_int pid) \<le> 63" and "0 \<le> pid" and "pid < 2 ^ 31"
  shows "my_getid_main (Some (show_int pid)) p = (EXIT_SUCCESS, [Out (''Meine Process-ID lautet: '' @ show_int pid @ [LF])])"
proof -
  have "NUL \<notin> set (show_nat m)" for m using show_nat_digits [of m] by (auto simp: is_digit_def)
  then have n: "no_nul (show_int pid)" by (simp add: show_int_def no_nul_def)
  obtain m where m: "64 - length (show_int pid) = Suc m" using assms by (cases "64 - length (show_int pid)") auto
  have "scan_int (show_int pid @ []) = Some (pid, [])" using scan_int_show_int [of "[]" pid] assms(2,3) by (simp add: starts_digit_def)
  with n m assms show ?thesis by (simp add: my_getid_main_def Let_def)
qed

end
