(* ===== verification/NonBlock.thy ===== *)
theory NonBlock
  imports CString
begin

text \<open>
  \<^verbatim>\<open>11_Network/non_block.c\<close>, a server whose sockets do not block, and \<^verbatim>\<open>unix_domain_sockets/fullduplex.c\<close>, which talks to
  itself through a pair of sockets. What \<^verbatim>\<open>accept\<close> and \<^verbatim>\<open>recv\<close> return are arguments.
\<close>

section \<open>non_block.c\<close>

text \<open>The array has 1025 characters. \<^verbatim>\<open>fgets\<close> leaves it as it was at the end of the input.\<close>

definition entered_line :: "char list \<Rightarrow> string \<Rightarrow> char list \<times> string" where
  "entered_line buffer inp = (case fgets 1024 inp of None \<Rightarrow> (buffer, inp) | Some (l, rest) \<Rightarrow> (put_string buffer l, rest))"

text \<open>
  \<^verbatim>\<open>recv\<close> of at most 1023 bytes: \<open>None\<close> if there is nothing to read, no bytes if the client has closed the connection. In both cases
  the array is not touched.
\<close>

definition receive :: "char list \<Rightarrow> string option \<Rightarrow> char list" where
  "receive buffer r =
     (case r of None \<Rightarrow> buffer
      | Some d \<Rightarrow> (let d = take 1023 d in if d = [] then buffer else put_string buffer d))"

definition quit_text :: string where "quit_text = ''quit'' @ [LF]"

text \<open>
  The conversation with one client; the list is what the calls of \<^verbatim>\<open>recv\<close> return. The result: the array, the input that is left, the
  messages sent and shown, and whether the loop was left.
\<close>

record talk_state =
  tbuf :: "char list"
  tinp :: string
  sent :: "string list"
  shown :: "say list"
  over :: bool

definition one_round :: "string option \<Rightarrow> talk_state \<Rightarrow> talk_state cres" where
  "one_round r s =
     (let (b, rest) = entered_line (tbuf s) (tinp s) in
      if \<not> terminated b then Inl OutOfBounds
      else let m = cstr b; b = receive b r
           in Inr (s\<lparr>tbuf := b, tinp := rest, sent := sent s @ [m],
                shown := shown s @ [Out ''Nachricht zum versenden: '', Out (''Nachricht empfangen: '' @ cstr b @ [LF])],
                over := (cstr b = quit_text)\<rparr>))"

fun conversation :: "string option list \<Rightarrow> talk_state \<Rightarrow> talk_state cres" where
  "conversation [] s = Inr s"
| "conversation (r # rs) s =
     (case one_round r s of Inl f \<Rightarrow> Inl f | Inr s \<Rightarrow> if over s then Inr s else conversation rs s)"

text \<open>
  The loop over \<^verbatim>\<open>accept\<close>: \<open>None\<close> if there is no client, otherwise its address and what it sends. The server has no end; the
  result is its state when the list ends.
\<close>

fun accept_loop :: "(string \<times> string option list) option list \<Rightarrow> talk_state \<Rightarrow> talk_state cres" where
  "accept_loop [] s = Inr s"
| "accept_loop (None # as) s = accept_loop as (s\<lparr>shown := shown s @ [Out (''Poll: Kein Client am Socket ...'' @ [LF])]\<rparr>)"
| "accept_loop (Some (ip, rs) # as) s =
     (case conversation rs (s\<lparr>shown := shown s @ [Out (''Ein client ('' @ ip @ '') ist verbunden ...'' @ [LF])], over := False\<rparr>) of
        Inl f \<Rightarrow> Inl f
      | Inr s \<Rightarrow> if over s then accept_loop as s else Inr s)"

definition non_block_main :: "bool \<Rightarrow> bool \<Rightarrow> char list \<Rightarrow> string \<Rightarrow> (string \<times> string option list) option list \<Rightarrow> talk_state cres" where
  "non_block_main socket_ok bind_ok buffer inp as =
     accept_loop as \<lparr>tbuf = buffer, tinp = inp, sent = [],
       shown = [Out ([CHR 0x1B] @ ''[2J'')] @ (if socket_ok then [Out (''Socket wurde angelegt'' @ [LF])] else []) @
         (if bind_ok then [] else [Out (''Port ist nicht frei!'' @ [LF])]), over = False\<rparr>"

section \<open>What the messages are\<close>

definition short_line :: "string \<Rightarrow> bool" where
  "short_line l \<longleftrightarrow> no_nul l \<and> LF \<notin> set l \<and> length l \<le> 1022"

text \<open>What is shown as received: the client's message if there is one, and else the server's own.\<close>

definition taken_for :: "string \<Rightarrow> string option \<Rightarrow> string" where
  "taken_for own r = (case r of None \<Rightarrow> own | Some d \<Rightarrow> if d = [] then own else d)"

definition recv_ok :: "string option \<Rightarrow> bool" where
  "recv_ok r \<longleftrightarrow> (case r of None \<Rightarrow> True | Some d \<Rightarrow> no_nul d \<and> length d \<le> 1023)"

lemma entered_line_line: "short_line l \<Longrightarrow> entered_line buffer (l @ LF # rest) = (put_string buffer (l @ [LF]), rest)"
  using line_upto_line [of l 1023 rest] by (simp add: entered_line_def fgets_def short_line_def)

lemma cstr_receive: "recv_ok r \<Longrightarrow> no_nul own \<Longrightarrow> cstr (receive (put_string buffer own) r) = taken_for own r"
  by (auto simp: receive_def taken_for_def recv_ok_def cstr_put_string split: option.splits)

lemma round_line:
  assumes "short_line l" and "recv_ok r" and "tinp s = l @ LF # rest"
  shows "\<exists>b. one_round r s = Inr (s\<lparr>tbuf := b, tinp := rest, sent := sent s @ [l @ [LF]],
     shown := shown s @ [Out ''Nachricht zum versenden: '', Out (''Nachricht empfangen: '' @ taken_for (l @ [LF]) r @ [LF])],
     over := (taken_for (l @ [LF]) r = quit_text)\<rparr>)"
proof -
  have n: "no_nul (l @ [LF])" using assms(1) by (simp add: short_line_def)
  show ?thesis
    using entered_line_line [OF assms(1)] cstr_receive [OF assms(2) n, of "tbuf s"] assms(3) n
    by (simp add: one_round_def Let_def cstr_put_string exI [of _ "receive (put_string (tbuf s) (l @ [LF])) r"])
qed

text \<open>The messages of a conversation up to the first \<^verbatim>\<open>quit\<close>, with the lines that were typed for them.\<close>

fun upto_quit :: "(string \<times> string option) list \<Rightarrow> (string \<times> string) list" where
  "upto_quit [] = []"
| "upto_quit ((l, r) # ps) =
     (let m = taken_for (l @ [LF]) r in (l @ [LF], m) # (if m = quit_text then [] else upto_quit ps))"

definition shown_for :: "string \<times> string \<Rightarrow> say list" where
  "shown_for = (\<lambda>(own, m). [Out ''Nachricht zum versenden: '', Out (''Nachricht empfangen: '' @ m @ [LF])])"

text \<open>
  \<^verbatim>\<open>non_block.c\<close>: in each round the line that was typed is sent, and what is shown as received is the client's message only
  if it has come already; otherwise it is the server's own line, because \<^verbatim>\<open>recv\<close> does not wait and its result is not looked at. The
  conversation ends at the first \<^verbatim>\<open>quit\<close> that is shown, the client's or the server's own.
\<close>

theorem non_block_conversation:
  assumes "\<forall>(l, r) \<in> set ps. short_line l \<and> recv_ok r" and "tinp s = concat (map (\<lambda>(l, r). l @ [LF]) ps) @ rest" and "\<not> over s"
  shows "\<exists>s'. conversation (map snd ps) s = Inr s' \<and> sent s' = sent s @ map fst (upto_quit ps) \<and>
    shown s' = shown s @ concat (map shown_for (upto_quit ps)) \<and> (over s' \<longleftrightarrow> quit_text \<in> snd ` set (upto_quit ps))"
  using assms
proof (induction ps arbitrary: s)
  case (Cons p ps)
  obtain l r where p: "p = (l, r)" by (cases p)
  define m where "m = taken_for (l @ [LF]) r"
  from Cons.prems p obtain b where b: "one_round r s = Inr (s\<lparr>tbuf := b, tinp := concat (map (\<lambda>(l, r). l @ [LF]) ps) @ rest,
     sent := sent s @ [l @ [LF]], shown := shown s @ shown_for (l @ [LF], m), over := (m = quit_text)\<rparr>)"
    using round_line [of l r s] by (auto simp: m_def shown_for_def)
  show ?case
  proof (cases "m = quit_text")
    case True
    with b p show ?thesis by (simp add: m_def [symmetric] Let_def)
  next
    case False
    let ?s = "s\<lparr>tbuf := b, tinp := concat (map (\<lambda>(l, r). l @ [LF]) ps) @ rest, sent := sent s @ [l @ [LF]],
       shown := shown s @ shown_for (l @ [LF], m), over := False\<rparr>"
    from Cons.IH [of ?s] Cons.prems obtain s' where s': "conversation (map snd ps) ?s = Inr s'"
      "sent s' = sent s @ (l @ [LF]) # map fst (upto_quit ps)"
      "shown s' = shown s @ shown_for (l @ [LF], m) @ concat (map shown_for (upto_quit ps))"
      "over s' \<longleftrightarrow> quit_text \<in> snd ` set (upto_quit ps)" by auto
    moreover have "conversation (map snd (p # ps)) s = Inr s'" using b False s'(1) p by simp
    moreover have "upto_quit (p # ps) = (l @ [LF], m) # upto_quit ps" using False p by (simp add: m_def Let_def)
    ultimately show ?thesis using False by simp
  qed
qed simp

definition quiet_client :: talk_state where
  "quiet_client = \<lparr>tbuf = replicate 1025 NUL, tinp = ''hallo'' @ [LF] @ ''quit'' @ [LF], sent = [], shown = [], over = False\<rparr>"

lemma non_block_conversation_witness:
  "\<exists>s'. conversation [None, None, Some ''spaet''] quiet_client = Inr s' \<and> over s' \<and>
     shown s' = concat (map shown_for [(''hallo'' @ [LF], ''hallo'' @ [LF]), (quit_text, quit_text)])"
proof -
  have "\<forall>(l, r) \<in> set [(''hallo'', None), (''quit'', None :: string option)]. short_line l \<and> recv_ok r"
    by (simp add: short_line_def recv_ok_def)
  from non_block_conversation [OF this, of quiet_client "[]"]
  have "\<exists>s'. conversation [None, None] quiet_client = Inr s' \<and> over s' \<and>
     shown s' = concat (map shown_for [(''hallo'' @ [LF], ''hallo'' @ [LF]), (quit_text, quit_text)])"
    by (auto simp: quiet_client_def taken_for_def quit_text_def Let_def)
  moreover have "conversation [None, None] quiet_client = Inr s' \<Longrightarrow> over s' \<Longrightarrow> conversation [None, None, r] quiet_client = Inr s'" for s' r
    by (auto split: sum.splits if_splits)
  ultimately show ?thesis by blast
qed

text \<open>A poll without a client only says so.\<close>

lemma polls: "accept_loop (replicate n None @ as) s =
    accept_loop as (s\<lparr>shown := shown s @ replicate n (Out (''Poll: Kein Client am Socket ...'' @ [LF]))\<rparr>)"
  by (induction n arbitrary: s) simp_all

section \<open>fullduplex.c\<close>

text \<open>
  Both arrays have 1025 characters, and the whole of \<^verbatim>\<open>buf1\<close> is written. \<^verbatim>\<open>read\<close> returns the first \<open>c\<close> bytes of it.
\<close>

definition set_char :: "nat \<Rightarrow> char \<Rightarrow> char list \<Rightarrow> char list cres" where
  "set_char i c b = (if i < length b then Inr (b[i := c]) else Inl OutOfBounds)"

definition read_array :: "nat \<Rightarrow> char list \<Rightarrow> char list \<Rightarrow> char list" where
  "read_array c buf1 buf2 = take c buf1 @ drop (length (take c buf1)) buf2"

definition print_array :: "string \<Rightarrow> char list \<Rightarrow> say list cres" where
  "print_array label b = (if terminated b then Inr [Out (label @ cstr b @ [LF])] else Inl OutOfBounds)"

definition eingabe :: say where "eingabe = Out ''Eingabe machen: ''"

text \<open>The result has what was printed before a fault.\<close>

definition fullduplex_main :: "bool \<Rightarrow> char list \<Rightarrow> char list \<Rightarrow> string \<Rightarrow> nat \<Rightarrow> nat \<Rightarrow> say list \<times> (int cres)" where
  "fullduplex_main pair_ok buf1 buf2 inp c1 c2 =
     (if \<not> pair_ok then ([Perror ''Fehler bei socketpair''], Inr EXIT_FAILURE)
      else let (buf1, inp) = entered_line buf1 inp; buf2 = read_array c1 buf1 buf2 in
      case set_char 2 LF buf2 of Inl f \<Rightarrow> ([eingabe], Inl f) | Inr buf2 \<Rightarrow>
     (case print_array ''sv[0] --> sv[1] : '' buf2 of Inl f \<Rightarrow> ([eingabe], Inl f) | Inr o1 \<Rightarrow>
      let (buf1, inp) = entered_line buf1 inp; buf2 = read_array c2 buf1 buf2 in
     (case set_char c2 NUL buf2 of Inl f \<Rightarrow> ([eingabe] @ o1 @ [eingabe], Inl f) | Inr buf2 \<Rightarrow>
     (case print_array ''sv[1] --> sv[0] : '' buf2 of Inl f \<Rightarrow> ([eingabe] @ o1 @ [eingabe], Inl f) | Inr o2 \<Rightarrow>
       ([eingabe] @ o1 @ [eingabe] @ o2, Inr EXIT_SUCCESS)))))"

lemma cstr_update:
  assumes "no_nul l" and "i < length l" and "c \<noteq> NUL"
  shows "cstr ((l @ NUL # r)[i := c]) = l[i := c]"
proof -
  have "set (l[i := c]) \<subseteq> insert c (set l)" by (rule set_update_subset_insert)
  then have "no_nul (l[i := c])" using assms(1,3) by (auto simp: no_nul_def)
  then show ?thesis using assms(2) by (simp add: list_update_append)
qed

text \<open>
  When \<^verbatim>\<open>read\<close> delivers what \<^verbatim>\<open>write\<close> has written, the third character of the first message becomes a line feed, and the second
  message is not shown: the zero is written behind the end of the array.
\<close>

theorem fullduplex_overflows:
  assumes "short_line l" and "short_line l'" and "2 \<le> length l" and "length buf1 = 1025" and "length buf2 = 1025"
  shows "fullduplex_main True buf1 buf2 (l @ LF # l' @ LF # rest) 1025 1025 =
    ([eingabe, Out (''sv[0] --> sv[1] : '' @ (l @ [LF])[2 := LF] @ [LF]), eingabe], Inl OutOfBounds)"
proof -
  let ?b1 = "put_string buf1 (l @ [LF])" and ?b2 = "put_string (put_string buf1 (l @ [LF])) (l' @ [LF])"
  have len: "length (l @ [LF]) < length buf1" "length ?b1 = 1025" "length ?b2 = 1025"
    using assms by (simp_all add: short_line_def)
  have read: "read_array 1025 b c = b" if "length b = 1025" "length c = 1025" for b c using that by (simp add: read_array_def)
  have n: "no_nul (l @ [LF])" using assms(1) by (simp add: short_line_def)
  have "terminated (?b1[2 := LF])"
    unfolding terminated_def put_string_def using assms(3) by (simp add: list_update_append split: nat.splits)
  moreover have "cstr (?b1[2 := LF]) = (l @ [LF])[2 := LF]"
    unfolding put_string_def using assms(3) n by (intro cstr_update) simp_all
  ultimately have p: "print_array ''sv[0] --> sv[1] : '' (?b1[2 := LF]) = Inr [Out (''sv[0] --> sv[1] : '' @ (l @ [LF])[2 := LF] @ [LF])]"
    by (simp add: print_array_def)
  show ?thesis
    using entered_line_line [OF assms(1), of buf1 "l' @ LF # rest"] entered_line_line [OF assms(2), of ?b1 rest] p assms(5) len
    by (simp add: fullduplex_main_def read set_char_def)
qed

end
