(* ===== verification/Netdb.thy ===== *)
theory Netdb
  imports Inet
begin

text \<open>
  \<^verbatim>\<open>11_Network/hostent.c\<close>, \<^verbatim>\<open>servent.c\<close> and \<^verbatim>\<open>servent2.c\<close>: lookups in the databases of hosts and services. The databases and
  \<^verbatim>\<open>inet_aton\<close> are arguments; the entries are structures with arrays that end with a null pointer.
\<close>

section \<open>Arrays that end with a null pointer\<close>

text \<open>\<^verbatim>\<open>while (*ptr != NULL) printf(..., *ptr++);\<close>\<close>

fun each_until_null :: "('a \<Rightarrow> say) \<Rightarrow> 'a option list \<Rightarrow> say list cres" where
  "each_until_null line [] = Inl OutOfBounds"
| "each_until_null line (None # ptr) = Inr []"
| "each_until_null line (Some x # ptr) = (case each_until_null line ptr of Inl f \<Rightarrow> Inl f | Inr os \<Rightarrow> Inr (line x # os))"

lemma each_until_null_all: "each_until_null line (map Some xs @ None # rest) = Inr (map line xs)"
  by (induction xs) simp_all

lemma each_until_null_open: "None \<notin> set ptr \<Longrightarrow> each_until_null line ptr = Inl OutOfBounds"
  by (induction line ptr rule: each_until_null.induct) auto

section \<open>hostent.c\<close>

record hostent =
  h_name :: string
  h_aliases :: "string option list"
  h_addr_list :: "addr option list"

text \<open>\<open>aton\<close> is \<^verbatim>\<open>inet_aton\<close>; \<open>herr\<close> is the text that \<^verbatim>\<open>herror\<close> adds.\<close>

record netdb =
  aton :: "string \<Rightarrow> addr option"
  gethostbyaddr :: "addr \<Rightarrow> hostent option"
  gethostbyname :: "string \<Rightarrow> hostent option"
  herr :: string

definition herror :: "netdb \<Rightarrow> string \<Rightarrow> say" where "herror db m = Err (m @ '': '' @ herr db @ [LF])"

definition lookup_host :: "netdb \<Rightarrow> string \<Rightarrow> hostent option" where
  "lookup_host db a = (case aton db a of Some ip \<Rightarrow> gethostbyaddr db ip | None \<Rightarrow> gethostbyname db a)"

definition hostent_main :: "netdb \<Rightarrow> string list \<Rightarrow> (int \<times> say list) cres" where
  "hostent_main db argv =
     (if length argv \<noteq> 2 then
        Inr (EXIT_FAILURE, [Out (''Usage: '' @ concat (take 1 argv) @ '' (Rechnername oder IP-Adresse)'' @ [LF])])
      else case lookup_host db (argv ! 1) of
        None \<Rightarrow> Inr (EXIT_FAILURE, [herror db ''Konnte Rechner nicht finden''])
      | Some host \<Rightarrow>
          (case each_until_null (\<lambda>a. Out (TAB # a @ [LF])) (h_aliases host) of Inl f \<Rightarrow> Inl f | Inr o1 \<Rightarrow>
          (case each_until_null (\<lambda>ip. Out (TAB # inet_ntoa ip @ [LF])) (h_addr_list host) of Inl f \<Rightarrow> Inl f | Inr o2 \<Rightarrow>
             Inr (EXIT_SUCCESS, [Out (''Hostname    : '' @ h_name host @ [LF]), Out (''Aliase      :'' @ [LF])] @ o1 @
               [Out (''IP-Adressen :'' @ [LF])] @ o2))))"

section \<open>servent.c, servent2.c\<close>

record servent =
  s_name :: string
  s_aliases :: "string option list"
  s_port :: "16 word"
  s_proto :: string

text \<open>Ports are in the order of the network, most significant byte first; the machine has the least significant byte first.\<close>

unbundle bit_operations_syntax

definition swap16 :: "16 word \<Rightarrow> 16 word" where "swap16 p = push_bit 8 p OR drop_bit 8 p"

abbreviation "htons \<equiv> swap16"
abbreviation "ntohs \<equiv> swap16"

definition servent_main :: "(string \<Rightarrow> string \<Rightarrow> servent option) \<Rightarrow> string \<Rightarrow> string list \<Rightarrow> (int \<times> say list) cres" where
  "servent_main getservbyname reason argv =
     (if length argv \<noteq> 3 then
        Inr (EXIT_FAILURE, [Out (''Usage: '' @ concat (take 1 argv) @ '' dienst protokoll'' @ [LF])])
      else case getservbyname (argv ! 1) (argv ! 2) of
        None \<Rightarrow> Inr (EXIT_FAILURE, [Err (''Konnte Service nicht finden'' @ [LF] @ '': '' @ reason @ [LF])])
      | Some s \<Rightarrow>
          (case each_until_null (\<lambda>a. Out (a @ [LF])) (s_aliases s) of Inl f \<Rightarrow> Inl f | Inr o1 \<Rightarrow>
             Inr (EXIT_SUCCESS, [Out (''Service    : '' @ s_name s @ [LF]),
               Out (''Port       : '' @ show_int (uint (ntohs (s_port s))) @ [LF]), Out (''Aliase     : '' @ [LF])] @ o1 @
               [Out (''Protokoll  : '' @ s_proto s @ [LF])])))"

definition port_lines :: "(16 word \<Rightarrow> string \<Rightarrow> servent option) \<Rightarrow> int \<Rightarrow> say list" where
  "port_lines getservbyport port =
     (case getservbyport (htons (word_of_int port)) ''tcp'' of
        None \<Rightarrow> [Out (''Port '' @ show_int port @ '' : Keine Infos'' @ [LF])]
      | Some s \<Rightarrow> [Out (''Service   : '' @ pad_left 10 (s_name s) @ '' ''),
          Out (''    Port    : '' @ pad_left 3 (show_int (uint (ntohs (s_port s)))) @ '' ''),
          Out (''    Protokoll : '' @ pad_left 5 (s_proto s) @ [LF])])"

text \<open>\<^verbatim>\<open>while (port++ < 100)\<close>\<close>

function port_loop :: "(16 word \<Rightarrow> string \<Rightarrow> servent option) \<Rightarrow> int \<Rightarrow> say list" where
  "port_loop getservbyport port =
     (if port < 100 then port_lines getservbyport (port + 1) @ port_loop getservbyport (port + 1) else [])"
  by pat_completeness auto
termination by (relation "measure (\<lambda>(g, port). nat (100 - port))") auto

declare port_loop.simps [simp del]

definition servent2_main :: "(16 word \<Rightarrow> string \<Rightarrow> servent option) \<Rightarrow> int \<times> say list" where
  "servent2_main getservbyport = (EXIT_SUCCESS, port_loop getservbyport 0)"

section \<open>What is shown\<close>

lemma bit_swap16: "n < 16 \<Longrightarrow> bit (swap16 p) n = bit p (if n < 8 then n + 8 else n - 8)"
  by (auto simp: swap16_def bit_simps add.commute dest: bit_imp_le_length)

lemma swap16_swap16 [simp]: "swap16 (swap16 p) = p"
proof (rule bit_word_eqI)
  fix n assume n: "n < LENGTH(16)"
  then show "bit (swap16 (swap16 p)) n = bit p n" by (auto simp: bit_swap16)
qed

lemma port_loop_all: "port \<le> 100 \<Longrightarrow> port_loop g port = concat (map (port_lines g) [port + 1..100])"
proof (induction g port rule: port_loop.induct)
  case (1 g port)
  show ?case
  proof (cases "port < 100")
    case True
    then have "[port + 1..100] = (port + 1) # [port + 1 + 1..100]" by (intro upto_rec1) simp
    with True 1 show ?thesis by (subst port_loop.simps) simp
  next
    case False
    then have "[port + 1..100] = []" by simp
    with False show ?thesis by (subst port_loop.simps) simp
  qed
qed

lemma hostent_lists:
  assumes "lookup_host db a = Some h" and "h_aliases h = map Some as @ [None]" and "h_addr_list h = map Some ips @ [None]"
  shows "hostent_main db [prog, a] = Inr (EXIT_SUCCESS,
    [Out (''Hostname    : '' @ h_name h @ [LF]), Out (''Aliase      :'' @ [LF])] @ map (\<lambda>a. Out (TAB # a @ [LF])) as @
    [Out (''IP-Adressen :'' @ [LF])] @ map (\<lambda>ip. Out (TAB # inet_ntoa ip @ [LF])) ips)"
  using assms each_until_null_all [of _ as "[]"] each_until_null_all [of _ ips "[]"] by (simp add: hostent_main_def)

lemma uint_port: "1 \<le> p \<Longrightarrow> p \<le> 100 \<Longrightarrow> uint (word_of_int p :: 16 word) = p"
  by (simp add: uint_word_of_int)

definition service_lines :: "int \<Rightarrow> servent \<Rightarrow> say list" where
  "service_lines p s =
     [Out (''Service   : '' @ pad_left 10 (s_name s) @ '' ''), Out (''    Port    : '' @ pad_left 3 (show_int p) @ '' ''),
      Out (''    Protokoll : '' @ pad_left 5 (s_proto s) @ [LF])]"

text \<open>
  \<^verbatim>\<open>servent2.c\<close>: the ports from 1 to 100 are looked up, each once and in this order, and for each there is the service with
  its port as the machine reads it, or the message that there is none.
\<close>

theorem ports_listed:
  assumes "\<And>p s. getservbyport p ''tcp'' = Some s \<Longrightarrow> s_port s = p"
  shows "servent2_main getservbyport = (EXIT_SUCCESS, concat (map (\<lambda>p. case getservbyport (htons (word_of_int p)) ''tcp'' of
     None \<Rightarrow> [Out (''Port '' @ show_int p @ '' : Keine Infos'' @ [LF])] | Some s \<Rightarrow> service_lines p s) [1..100]))"
proof -
  have "port_lines getservbyport p = (case getservbyport (htons (word_of_int p)) ''tcp'' of
     None \<Rightarrow> [Out (''Port '' @ show_int p @ '' : Keine Infos'' @ [LF])] | Some s \<Rightarrow> service_lines p s)"
    if "p \<in> set [1..100]" for p
  proof (cases "getservbyport (htons (word_of_int p)) ''tcp''")
    case (Some s)
    from assms [OF Some] uint_port [of p] that Some show ?thesis by (simp add: port_lines_def service_lines_def)
  qed (simp add: port_lines_def)
  then have m: "map (port_lines getservbyport) [1..100] = map (\<lambda>p. case getservbyport (htons (word_of_int p)) ''tcp'' of
     None \<Rightarrow> [Out (''Port '' @ show_int p @ '' : Keine Infos'' @ [LF])] | Some s \<Rightarrow> service_lines p s) [1..100]"
    by (intro map_cong refl)
  show ?thesis unfolding m [symmetric] using port_loop_all [of 0 getservbyport] by (simp add: servent2_main_def)
qed

definition ssh_only :: "16 word \<Rightarrow> string \<Rightarrow> servent option" where
  "ssh_only p proto = (if p = 0x1600 then Some \<lparr>s_name = ''ssh'', s_aliases = [None], s_port = 0x1600, s_proto = proto\<rparr> else None)"

lemma ports_listed_witness:
  "service_lines 22 \<lparr>s_name = ''ssh'', s_aliases = [None], s_port = 0x1600, s_proto = ''tcp''\<rparr> =
     [Out (''Service   :        ssh ''), Out (''    Port    :  22 ''), Out (''    Protokoll :   tcp'' @ [LF])] \<and>
   set (service_lines 22 \<lparr>s_name = ''ssh'', s_aliases = [None], s_port = 0x1600, s_proto = ''tcp''\<rparr>) \<subseteq> set (snd (servent2_main ssh_only))"
proof
  have s: "show_int 22 = ''22''" by code_simp
  show "service_lines 22 \<lparr>s_name = ''ssh'', s_aliases = [None], s_port = 0x1600, s_proto = ''tcp''\<rparr> =
     [Out (''Service   :        ssh ''), Out (''    Port    :  22 ''), Out (''    Protokoll :   tcp'' @ [LF])]"
    by (simp add: service_lines_def pad_left_def s numeral_eq_Suc)
  have e: "\<And>p s. ssh_only p ''tcp'' = Some s \<Longrightarrow> s_port s = p" by (auto simp: ssh_only_def split: if_splits)
  have "htons (word_of_int 22) = 0x1600" by (simp add: swap16_def)
  then have "ssh_only (htons (word_of_int 22)) ''tcp'' = Some \<lparr>s_name = ''ssh'', s_aliases = [None], s_port = 0x1600, s_proto = ''tcp''\<rparr>"
    by (simp add: ssh_only_def)
  then show "set (service_lines 22 \<lparr>s_name = ''ssh'', s_aliases = [None], s_port = 0x1600, s_proto = ''tcp''\<rparr>) \<subseteq> set (snd (servent2_main ssh_only))"
    by (subst ports_listed [of ssh_only]) (rule e, assumption, auto intro!: bexI [of _ 22])
qed

end
