(* ===== verification/FileInfo.thy ===== *)
theory FileInfo
  imports CString
begin

text \<open>
  Programs of \<^verbatim>\<open>03_Attributes\<close> on the attributes of files: \<^verbatim>\<open>file_size.c\<close>, \<^verbatim>\<open>file_times.c\<close>, \<^verbatim>\<open>ugid.c\<close>, and \<^verbatim>\<open>backward.c\<close>, which
  sets the times of a file back to the beginning. The state is the map from names to attributes; the text of an error and
  \<^verbatim>\<open>ctime\<close>, which knows the time zone, are arguments.
\<close>

record attrs =
  st_size :: "64 word"
  st_uid :: "32 word"
  st_gid :: "32 word"
  st_atime :: int
  st_mtime :: int
  st_ctime :: int

type_synonym attr_fs = "string \<rightharpoonup> attrs"

definition datei_usage :: "string list \<Rightarrow> int \<times> say list" where
  "datei_usage argv = (EXIT_FAILURE, [Out (''usage: '' @ concat (take 1 argv) @ '' datei'' @ [LF])])"

definition stat_error :: "string \<Rightarrow> say" where "stat_error e = Err (''Fehler bei stat: '' @ e @ [LF])"

text \<open>The size has 64 bits and is converted to an \<^verbatim>\<open>int\<close> of 32.\<close>

definition filesize :: "string \<Rightarrow> attr_fs \<Rightarrow> string \<Rightarrow> int \<times> say list" where
  "filesize e fs name =
     (case fs name of
        None \<Rightarrow> (-1, [stat_error e])
      | Some st \<Rightarrow> (1, [Out (''Groesse in st_size  : '' @ show_int (sint (ucast (st_size st) :: 32 word)) @ '' Bytes'' @ [LF])]))"

definition file_size_main :: "string \<Rightarrow> attr_fs \<Rightarrow> string list \<Rightarrow> int \<times> say list" where
  "file_size_main e fs argv =
     (if length argv < 2 then datei_usage argv
      else let (r, os) = filesize e fs (argv ! 1) in (if r < 0 then EXIT_FAILURE else EXIT_SUCCESS, os))"

definition file_times :: "(int \<Rightarrow> string) \<Rightarrow> string \<Rightarrow> attr_fs \<Rightarrow> string \<Rightarrow> int \<times> say list" where
  "file_times ctime e fs name =
     (case fs name of
        None \<Rightarrow> (-1, [stat_error e])
      | Some st \<Rightarrow> (1,
          [Out (''Letzter Zugriff           : '' @ ctime (st_atime st)),
           Out (''Letzte Aenderung (Inhalt) : '' @ ctime (st_mtime st)),
           Out (''Letzte Aenderung (inode)  : '' @ ctime (st_ctime st))]))"

definition file_times_main :: "(int \<Rightarrow> string) \<Rightarrow> string \<Rightarrow> attr_fs \<Rightarrow> string list \<Rightarrow> int \<times> say list" where
  "file_times_main ctime e fs argv =
     (if length argv < 2 then datei_usage argv
      else let (r, os) = file_times ctime e fs (argv ! 1) in (if r < 0 then EXIT_FAILURE else EXIT_SUCCESS, os))"

text \<open>\<^verbatim>\<open>utime\<close> fails for a file that does not exist or that the process may not change; it records the time \<open>now\<close> of the change.\<close>

definition utime :: "(string \<Rightarrow> bool) \<Rightarrow> int \<Rightarrow> string \<Rightarrow> int \<Rightarrow> int \<Rightarrow> attr_fs \<Rightarrow> int \<times> attr_fs" where
  "utime allowed now name actime modtime fs =
     (case fs name of
        None \<Rightarrow> (-1, fs)
      | Some st \<Rightarrow> if allowed name
          then (0, fs(name \<mapsto> st\<lparr>st_atime := actime, st_mtime := modtime, st_ctime := now\<rparr>)) else (-1, fs))"

definition set_back_main :: "(string \<Rightarrow> bool) \<Rightarrow> int \<Rightarrow> string list \<Rightarrow> attr_fs \<Rightarrow> (int \<times> say list) \<times> attr_fs" where
  "set_back_main allowed now argv fs =
     (if length argv < 2 then (datei_usage argv, fs)
      else let (r, fs) = utime allowed now (argv ! 1) 0 0 fs
      in (if r < 0 then (EXIT_FAILURE, [Perror ''utime'']) else (EXIT_SUCCESS, []), fs))"

text \<open>\<^verbatim>\<open>while (*++argv != NULL)\<close> over the arguments.\<close>

fun ugid_loop :: "string \<Rightarrow> attr_fs \<Rightarrow> string list \<Rightarrow> int \<times> say list" where
  "ugid_loop e fs [] = (EXIT_SUCCESS, [])"
| "ugid_loop e fs (a # argv) =
     (case fs a of
        None \<Rightarrow> (EXIT_FAILURE, [Err (''stat(): '' @ e @ [LF])])
      | Some st \<Rightarrow>
          let (r, os) = ugid_loop e fs argv
          in (r, [Out (a @ replicate (18 - length a) SPC @ [LF]),
                  Out (''USER-ID  : '' @ show_int (sint (st_uid st)) @ [LF]),
                  Out (''GROUP-ID : '' @ show_int (sint (st_gid st)) @ [LF])] @ os))"

definition ugid_main :: "string \<Rightarrow> attr_fs \<Rightarrow> string list \<Rightarrow> int \<times> say list" where
  "ugid_main e fs argv =
     (let (r, os) = ugid_loop e fs (tl argv)
      in (r, (if length argv < 2 then [Out (''usage: '' @ concat (take 1 argv) @ '' datei(en)'' @ [LF])] else []) @ os))"

section \<open>What the programs show\<close>

lemma int_of_size:
  assumes "uint (s :: 64 word) < 2 ^ 31"
  shows "sint (ucast s :: 32 word) = uint s"
proof -
  have "0 \<le> uint s" by simp
  then have "- 2147483648 \<le> uint s" by linarith
  with assms show ?thesis by (simp add: sint_uint unsigned_ucast_eq take_bit_int_eq_self signed_take_bit_int_eq_self_iff)
qed

text \<open>The size is right for files of less than $2^{31}$ bytes; one byte more is shown as a negative number.\<close>

lemma file_size_shows:
  "fs f = Some st \<Longrightarrow> uint (st_size st) < 2 ^ 31 \<Longrightarrow>
     file_size_main e fs [prog, f] = (EXIT_SUCCESS, [Out (''Groesse in st_size  : '' @ show_int (uint (st_size st)) @ '' Bytes'' @ [LF])])"
  by (simp add: file_size_main_def filesize_def int_of_size)

lemma file_size_negative:
  "fs f = Some st \<Longrightarrow> st_size st = 0x80000000 \<Longrightarrow>
     file_size_main e fs [prog, f] = (EXIT_SUCCESS, [Out (''Groesse in st_size  : '' @ show_int (- 2147483648) @ '' Bytes'' @ [LF])])"
  by (simp add: file_size_main_def filesize_def)

text \<open>
  \<^verbatim>\<open>backward.c\<close> and then \<^verbatim>\<open>file_times.c\<close> for the same file: the times of the last access and of the last change of the
  contents are shown as 0, that of the last change of the inode as the time at which \<^verbatim>\<open>backward.c\<close> ran; other files and all
  other attributes are as they were. If the change is not allowed, \<^verbatim>\<open>backward.c\<close> fails and nothing changes.
\<close>

theorem backward_shown:
  assumes "fs f = Some st"
  shows "(allowed f \<longrightarrow> (\<exists>fs'. set_back_main allowed now [prog, f] fs = ((EXIT_SUCCESS, []), fs') \<and>
      file_times_main ctime e fs' [prog', f] = (EXIT_SUCCESS,
        [Out (''Letzter Zugriff           : '' @ ctime 0), Out (''Letzte Aenderung (Inhalt) : '' @ ctime 0),
         Out (''Letzte Aenderung (inode)  : '' @ ctime now)]) \<and>
      (\<forall>g. g \<noteq> f \<longrightarrow> fs' g = fs g) \<and> file_size_main e fs' argv = file_size_main e fs argv \<and> ugid_main e fs' argv = ugid_main e fs argv)) \<and>
    (\<not> allowed f \<longrightarrow> set_back_main allowed now [prog, f] fs = ((EXIT_FAILURE, [Perror ''utime'']), fs))"
proof (intro conjI impI)
  let ?fs = "fs(f \<mapsto> st\<lparr>st_atime := 0, st_mtime := 0, st_ctime := now\<rparr>)"
  have s: "file_size_main e ?fs argv = file_size_main e fs argv" using assms by (simp add: file_size_main_def filesize_def)
  have "ugid_loop e ?fs as = ugid_loop e fs as" for as by (induction as) (use assms in \<open>auto split: option.splits\<close>)
  then have u: "ugid_main e ?fs argv = ugid_main e fs argv" by (simp add: ugid_main_def)
  assume "allowed f"
  with assms have "set_back_main allowed now [prog, f] fs = ((EXIT_SUCCESS, []), ?fs)" by (simp add: set_back_main_def utime_def)
  with s u show "\<exists>fs'. set_back_main allowed now [prog, f] fs = ((EXIT_SUCCESS, []), fs') \<and>
      file_times_main ctime e fs' [prog', f] = (EXIT_SUCCESS,
        [Out (''Letzter Zugriff           : '' @ ctime 0), Out (''Letzte Aenderung (Inhalt) : '' @ ctime 0),
         Out (''Letzte Aenderung (inode)  : '' @ ctime now)]) \<and>
      (\<forall>g. g \<noteq> f \<longrightarrow> fs' g = fs g) \<and> file_size_main e fs' argv = file_size_main e fs argv \<and> ugid_main e fs' argv = ugid_main e fs argv"
    by (intro exI [of _ ?fs]) (simp add: file_times_main_def file_times_def)
next
  assume "\<not> allowed f"
  with assms show "set_back_main allowed now [prog, f] fs = ((EXIT_FAILURE, [Perror ''utime'']), fs)"
    by (simp add: set_back_main_def utime_def)
qed

definition one_file :: attr_fs where
  "one_file = [''x'' \<mapsto> \<lparr>st_size = 5, st_uid = 1000, st_gid = 100, st_atime = 9, st_mtime = 8, st_ctime = 7\<rparr>]"

lemma backward_shown_witness:
  "\<exists>fs'. set_back_main (\<lambda>f. True) 42 [''backward'', ''x''] one_file = ((0, []), fs') \<and>
     file_times_main show_int ''E'' fs' [''file_times'', ''x''] = (0,
       [Out (''Letzter Zugriff           : '' @ show_int 0), Out (''Letzte Aenderung (Inhalt) : '' @ show_int 0),
        Out (''Letzte Aenderung (inode)  : '' @ show_int 42)])"
  using backward_shown [of one_file "''x''" "\<lparr>st_size = 5, st_uid = 1000, st_gid = 100, st_atime = 9, st_mtime = 8, st_ctime = 7\<rparr>"
      "\<lambda>f. True" 42 "''backward''" show_int "''E''" "''file_times''"]
  by (auto simp: one_file_def)

text \<open>The loop of \<^verbatim>\<open>ugid.c\<close> stops at the first file that does not exist, after those before it.\<close>

lemma ugid_loop_stops:
  assumes "\<forall>a \<in> set as. fs a \<noteq> None" and "fs b = None"
  shows "fst (ugid_loop e fs (as @ b # bs)) = EXIT_FAILURE \<and>
    snd (ugid_loop e fs (as @ b # bs)) = snd (ugid_loop e fs as) @ [Err (''stat(): '' @ e @ [LF])]"
  using assms by (induction as) (auto simp: Let_def split_beta)

end
