(* ===== verification/Tools.thy ===== *)
theory Tools
  imports CString
begin

text \<open>
  \<^verbatim>\<open>17_Tools\<close>: the library \<^verbatim>\<open>myequal.c\<close>, \<^verbatim>\<open>testlist.c\<close>, which is linked with it, and \<^verbatim>\<open>dynamisch.c\<close>, which loads it in every
  round; and \<^verbatim>\<open>memory.c\<close>, an example of faults. What the dynamic linker answers is an argument.
\<close>

section \<open>myequal.c, testlist.c\<close>

definition MYTRUE :: int where "MYTRUE = 1"
definition MYFALSE :: int where "MYFALSE = 0"

definition my_equal :: "int \<Rightarrow> int \<Rightarrow> int" where "my_equal a b = (if a = b then MYTRUE else MYFALSE)"

definition testlist_main :: "(int \<Rightarrow> int \<Rightarrow> int) \<Rightarrow> int \<times> say list" where
  "testlist_main equal = (0, [if equal 5 5 = MYTRUE then Out (''Beide Werte sind gleich'' @ [LF]) else Out (''Die Werte sind nich gleich'' @ [LF])])"

section \<open>dynamisch.c\<close>

text \<open>
  \<open>symbol\<close> is what the library has under \<^verbatim>\<open>"my_equal"\<close>, \<open>dlerror\<close> the text of an error. The state counts how often the library is
  loaded.
\<close>

record linker =
  lib_found :: bool
  symbol :: "(int \<Rightarrow> int \<Rightarrow> int) option"
  close_ok :: bool
  dlerror :: string

definition my_load_dyn :: "linker \<Rightarrow> nat \<Rightarrow> say list + nat" where
  "my_load_dyn l handles =
     (if lib_found l then Inr (Suc handles) else Inl [Out (''Fehler bei dlopen(): '' @ dlerror l @ [LF])])"

definition my_load_func :: "linker \<Rightarrow> say list + (int \<Rightarrow> int \<Rightarrow> int)" where
  "my_load_func l = (case symbol l of Some f \<Rightarrow> Inr f | None \<Rightarrow> Inl [Out (''Fehler bei dlsym(): '' @ dlerror l @ [LF])])"

definition my_close_func :: "linker \<Rightarrow> nat \<Rightarrow> say list \<times> nat" where
  "my_close_func l handles = (if close_ok l then ([], handles - 1) else ([Out (''Fehler bei dlclose(): '' @ dlerror l @ [LF])], handles))"

definition same_text :: "int \<Rightarrow> say" where
  "same_text ret = (if ret = MYTRUE then Out (''Die Werte sind gleich'' @ [LF]) else Out (''Die Werte sind nicht gleich'' @ [LF]))"

definition ask_values :: "say list" where "ask_values = [Out ''Zahl 1 eingeben: '', Out ''Zahl 2 eingeben: '']"

text \<open>A conversion that fails leaves the value of the round before. The result: exit code, output, and how often the library is loaded.\<close>

definition scan_value :: "int \<Rightarrow> string \<Rightarrow> int \<times> string" where
  "scan_value val inp = (case scan_d inp of (Some v, r) \<Rightarrow> (v, r) | (None, r) \<Rightarrow> (val, r))"

partial_function (option) dyn_loop :: "linker \<Rightarrow> nat \<Rightarrow> int \<Rightarrow> int \<Rightarrow> string \<Rightarrow> say list \<Rightarrow> (int \<times> say list \<times> nat) option" where
  "dyn_loop l handles val1 val2 inp out =
     (let (val1, inp) = scan_value val1 inp; (val2, inp) = scan_value val2 inp; out = out @ ask_values in
      if val1 = 0 \<or> val2 = 0 then Some (EXIT_SUCCESS, out, handles)
      else case my_load_dyn l handles of
        Inl e \<Rightarrow> Some (EXIT_FAILURE, out @ e, handles)
      | Inr handles \<Rightarrow> (case my_load_func l of
          Inl e \<Rightarrow> Some (EXIT_FAILURE, out @ e, handles)
        | Inr equal \<Rightarrow>
            (case my_close_func l handles of (e, handles) \<Rightarrow>
              dyn_loop l handles val1 val2 inp (out @ [same_text (equal val1 val2)] @ e))))"

definition dynamisch_main :: "linker \<Rightarrow> string \<Rightarrow> (int \<times> say list \<times> nat) option" where
  "dynamisch_main l inp = dyn_loop l 0 1 2 inp []"

section \<open>Comparing numbers\<close>

text \<open>The input: two numbers on each line. They are converted to \<^verbatim>\<open>int\<close> before they are compared.\<close>

fun pairs_text :: "(int \<times> int) list \<Rightarrow> string" where
  "pairs_text [] = []"
| "pairs_text ((a, b) # ps) = show_int a @ [SPC] @ show_int b @ [LF] @ pairs_text ps"

fun pairs_out :: "(int \<times> int) list \<Rightarrow> say list" where
  "pairs_out [] = []"
| "pairs_out ((a, b) # ps) =
     ask_values @ [Out ((if conv_d a = conv_d b then ''Die Werte sind gleich'' else ''Die Werte sind nicht gleich'') @ [LF])] @ pairs_out ps"

lemma scan_value_space: "is_space c \<Longrightarrow> scan_value v (c # s) = scan_value v s"
  by (simp add: scan_value_def scan_d_def)

lemma scan_value_number: "\<not> starts_digit rest \<Longrightarrow> scan_value v (show_int i @ rest) = (conv_d i, rest)"
  by (simp add: scan_value_def scan_d_number)

lemma stops [simp]: "\<not> starts_digit (SPC # s)" "\<not> starts_digit (LF # s)"
  by (simp_all add: starts_digit_def is_digit_def)

text \<open>The line feed behind a pair is left in the input and is skipped in the next round.\<close>

fun with_LF :: "bool \<Rightarrow> string \<Rightarrow> string" where "with_LF b s = (if b then LF # s else s)"

lemma scan_pair:
  "scan_value u (with_LF b (pairs_text ((x, y) # ps) @ rest)) = (conv_d x, SPC # show_int y @ LF # pairs_text ps @ rest)"
  "scan_value v (SPC # show_int y @ LF # pairs_text ps @ rest) = (conv_d y, LF # pairs_text ps @ rest)"
proof -
  have sp: "is_space LF" "is_space SPC" by (simp_all add: is_space_def)
  show "scan_value u (with_LF b (pairs_text ((x, y) # ps) @ rest)) = (conv_d x, SPC # show_int y @ LF # pairs_text ps @ rest)"
    using scan_value_number [of "SPC # show_int y @ LF # pairs_text ps @ rest" u x] by (simp add: scan_value_space sp)
  show "scan_value v (SPC # show_int y @ LF # pairs_text ps @ rest) = (conv_d y, LF # pairs_text ps @ rest)"
    using scan_value_number [of "LF # pairs_text ps @ rest" v y] by (simp add: scan_value_space sp)
qed

definition works :: "linker \<Rightarrow> bool" where
  "works l \<longleftrightarrow> lib_found l \<and> symbol l = Some my_equal \<and> close_ok l"

lemma dyn_loop_pairs:
  assumes "works l" and "\<forall>(a, b) \<in> set ps. conv_d a \<noteq> 0 \<and> conv_d b \<noteq> 0"
  shows "\<exists>u' v'. (ps = [] \<longrightarrow> u' = u \<and> v' = v) \<and> (ps \<noteq> [] \<longrightarrow> u' \<noteq> 0 \<and> v' \<noteq> 0) \<and>
    dyn_loop l h u v (with_LF c (pairs_text ps @ rest)) out = dyn_loop l h u' v' (with_LF (c \<or> ps \<noteq> []) rest) (out @ pairs_out ps)"
  using assms(2)
proof (induction ps arbitrary: u v c out)
  case (Cons p ps)
  obtain x y where p: "p = (x, y)" by (cases p)
  with Cons.prems have xy: "conv_d x \<noteq> 0" "conv_d y \<noteq> 0" by auto
  let ?t = "Out ((if conv_d x = conv_d y then ''Die Werte sind gleich'' else ''Die Werte sind nicht gleich'') @ [LF])"
  have "same_text (my_equal (conv_d x) (conv_d y)) = ?t" by (simp add: same_text_def my_equal_def MYTRUE_def MYFALSE_def)
  then have step: "dyn_loop l h u v (with_LF c (pairs_text (p # ps) @ rest)) out =
      dyn_loop l h (conv_d x) (conv_d y) (with_LF True (pairs_text ps @ rest)) (out @ ask_values @ [?t])"
    using scan_pair(1) [of u c x y ps rest] scan_pair(2) [of v y ps rest] xy assms(1) unfolding p
    by (subst dyn_loop.simps) (simp del: pairs_text.simps with_LF.simps add: with_LF.simps [of True] scan_pair works_def my_load_dyn_def my_load_func_def my_close_func_def)
  obtain u' v' where uv: "ps = [] \<longrightarrow> u' = conv_d x \<and> v' = conv_d y" "ps \<noteq> [] \<longrightarrow> u' \<noteq> 0 \<and> v' \<noteq> 0"
    "dyn_loop l h (conv_d x) (conv_d y) (with_LF True (pairs_text ps @ rest)) (out @ ask_values @ [?t]) =
     dyn_loop l h u' v' (with_LF True rest) (out @ ask_values @ [?t] @ pairs_out ps)"
    using Cons.IH [of "conv_d x" "conv_d y" True "out @ ask_values @ [?t]"] Cons.prems by auto
  have "u' \<noteq> 0 \<and> v' \<noteq> 0" using uv(1,2) xy by (cases "ps = []") simp_all
  with step uv(3) p show ?case by (intro exI [of _ u'] exI [of _ v']) simp
qed auto

text \<open>Without numbers the last ones are compared again and again.\<close>

lemma dyn_loop_starves:
  "dyn_loop l h u v inp out = Some r \<Longrightarrow> works l \<longrightarrow> dropWhile is_space inp = [] \<longrightarrow> u = 0 \<or> v = 0"
proof (rule dyn_loop.raw_induct [where P = "\<lambda>l h u v inp out r. works l \<longrightarrow> dropWhile is_space inp = [] \<longrightarrow> u = 0 \<or> v = 0"])
  fix w l h u v inp out y
  assume IH: "\<And>l h u v inp out y. w l h u v inp out = Some y \<Longrightarrow> works l \<longrightarrow> dropWhile is_space inp = [] \<longrightarrow> u = 0 \<or> v = 0"
    and e: "(let (val1, inp) = scan_value u inp; (val2, inp) = scan_value v inp; out = out @ ask_values in
      if val1 = 0 \<or> val2 = 0 then Some (EXIT_SUCCESS, out, h)
      else case my_load_dyn l h of
        Inl e \<Rightarrow> Some (EXIT_FAILURE, out @ e, h)
      | Inr handles \<Rightarrow> (case my_load_func l of
          Inl e \<Rightarrow> Some (EXIT_FAILURE, out @ e, handles)
        | Inr equal \<Rightarrow>
            (case my_close_func l handles of (e, handles) \<Rightarrow>
              w l handles val1 val2 inp (out @ [same_text (equal val1 val2)] @ e)))) = Some y"
  show "works l \<longrightarrow> dropWhile is_space inp = [] \<longrightarrow> u = 0 \<or> v = 0"
  proof (intro impI, rule ccontr)
    assume l: "works l" and i: "dropWhile is_space inp = []" and n: "\<not> (u = 0 \<or> v = 0)"
    have s: "scan_value a inp = (a, [])" "scan_value a [] = (a, [])" for a
      by (simp only: scan_value_def scan_d_def i dropWhile.simps list.case prod.case option.case)+
    from e n l s have "w l h u v [] (out @ ask_values @ [same_text (my_equal u v)]) = Some y"
      by (simp add: works_def my_load_dyn_def my_load_func_def my_close_func_def)
    from IH [OF this] l n show False by simp
  qed
qed

text \<open>
  \<^verbatim>\<open>dynamisch.c\<close> with a library that can be loaded: pairs of numbers are compared until one is 0, and then the program ends
  with success and the library is loaded as often as it was closed. If the input ends before that, the program does not
  return: it compares the last two numbers for ever.
\<close>

theorem dynamisch_session:
  assumes "works l" and "\<forall>(a, b) \<in> set ps. conv_d a \<noteq> 0 \<and> conv_d b \<noteq> 0" and "conv_d x = 0 \<or> conv_d y = 0"
  shows "dynamisch_main l (pairs_text (ps @ [(x, y)])) = Some (EXIT_SUCCESS, pairs_out ps @ ask_values, 0) \<and>
    dynamisch_main l (pairs_text ps) = None"
proof
  have app: "pairs_text (ps @ qs) = pairs_text ps @ pairs_text qs" for qs by (induction ps rule: pairs_text.induct) auto
  from dyn_loop_pairs [OF assms(1,2), of 1 2 0 False "pairs_text [(x, y)]" "[]"] obtain u v where
    uv: "dynamisch_main l (pairs_text (ps @ [(x, y)])) = dyn_loop l 0 u v (with_LF (ps \<noteq> []) (pairs_text [(x, y)])) (pairs_out ps)"
    unfolding dynamisch_main_def app by auto
  show "dynamisch_main l (pairs_text (ps @ [(x, y)])) = Some (EXIT_SUCCESS, pairs_out ps @ ask_values, 0)"
    unfolding uv using scan_pair(1) [of u "ps \<noteq> []" x y "[]" "[]"] scan_pair(2) [of v y "[]" "[]"] assms(3)
    by (subst dyn_loop.simps) (auto simp del: pairs_text.simps(2) with_LF.simps)
next
  have sp: "is_space LF" by (simp add: is_space_def)
  from dyn_loop_pairs [OF assms(1,2), of 1 2 0 False "[]" "[]"] obtain u v where
    uv0: "ps = [] \<longrightarrow> u = 1 \<and> v = 2" "ps \<noteq> [] \<longrightarrow> u \<noteq> 0 \<and> v \<noteq> 0"
    "dynamisch_main l (pairs_text ps) = dyn_loop l 0 u v (with_LF (ps \<noteq> []) []) (pairs_out ps)"
    unfolding dynamisch_main_def by (simp only: with_LF.simps if_False append_Nil append_Nil2 simp_thms) blast
  then have uv: "dynamisch_main l (pairs_text ps) = dyn_loop l 0 u v (with_LF (ps \<noteq> []) []) (pairs_out ps)" "u \<noteq> 0" "v \<noteq> 0"
    by (cases "ps = []"; simp)+
  have "dropWhile is_space (with_LF (ps \<noteq> []) []) = []" using sp by simp
  with dyn_loop_starves [of l 0 u v "with_LF (ps \<noteq> []) []" "pairs_out ps"] uv(2,3) assms(1)
  have "dyn_loop l 0 u v (with_LF (ps \<noteq> []) []) (pairs_out ps) \<noteq> Some r" for r by blast
  then show "dynamisch_main l (pairs_text ps) = None" unfolding uv(1) by (metis option.exhaust)
qed

definition linked :: linker where
  "linked = \<lparr>lib_found = True, symbol = Some my_equal, close_ok = True, dlerror = []\<rparr>"

lemma dynamisch_session_witness:
  "dynamisch_main linked (pairs_text [(3, 3), (3, 4), (0, 1)]) = Some (0, pairs_out [(3, 3), (3, 4)] @ ask_values, 0)"
  using dynamisch_session [of linked "[(3, 3), (3, 4)]" 0 1] by (simp add: works_def linked_def)

lemma testlist_equal: "testlist_main my_equal = (0, [Out (''Beide Werte sind gleich'' @ [LF])])"
  by (simp add: testlist_main_def my_equal_def)

section \<open>memory.c\<close>

text \<open>
  \<open>block\<close> is the block of ten characters that \<^verbatim>\<open>malloc\<close> returns, if it does. To free the block a second time is a fault.
\<close>

fun free_loop :: "nat \<Rightarrow> bool \<Rightarrow> unit cres" where
  "free_loop 0 allocated = Inr ()"
| "free_loop (Suc n) allocated = (if allocated then free_loop n False else Inl NullDeref)"

definition memory_main :: "char list option \<Rightarrow> string \<Rightarrow> say list \<times> int cres" where
  "memory_main block inp =
     (let o1 = [Out ''Eingabe machen: ''] in
      case block of None \<Rightarrow> (o1, Inl NullDeref)
      | Some ptr \<Rightarrow>
          let ptr = (case fgets 10 inp of None \<Rightarrow> ptr | Some (l, r) \<Rightarrow> put_string ptr l) in
          if \<not> terminated ptr then (o1, Inl OutOfBounds)
          else let o2 = o1 @ [Out (''Die Eingabe lautet: '' @ cstr ptr)] in
            (case strcat ptr '' 123456789'' of
               Inl f \<Rightarrow> (o2, Inl f)
             | Inr ptr \<Rightarrow> (o2 @ [Out (cstr ptr @ [LF])], case free_loop 10 True of Inl f \<Rightarrow> Inl f | Inr u \<Rightarrow> Inr EXIT_SUCCESS)))"

text \<open>The text to append is as long as the block: there is no input for which it fits.\<close>

lemma memory_faults: "length ptr = 10 \<Longrightarrow> memory_main block inp = (os, r) \<Longrightarrow> block = Some ptr \<or> block = None \<Longrightarrow> \<exists>f. r = Inl f"
proof -
  assume a: "length ptr = 10" "memory_main block inp = (os, r)" "block = Some ptr \<or> block = None"
  have l: "length (put_string ptr l) = 10" if "fgets 10 inp = Some (l, t)" for l t
  proof -
    from that have "length l \<le> 9" using line_upto_split [of 9 inp l t] by (auto simp: fgets_def split: if_splits)
    with a(1) show ?thesis by (simp add: put_string_def)
  qed
  have "strcat b '' 123456789'' = Inl OutOfBounds" if "length b = 10" for b using that by (simp add: strcat_def strcpy_def)
  with a l show ?thesis by (auto simp: memory_main_def Let_def split: option.splits if_splits)
qed

end
