(* ===== verification/Spec2Isabelle.thy ===== *)
theory Spec2Isabelle
  imports FileTools FileTransfer HttpServer MultiServer MsgQueue Interleave SharedMem SemLock
    ThreadCond Terminal SigSync SigHandlers Cdrom PrintQueue ThreadData ThreadSem ThreadFile FileAttr Inet Dialogue
    PipePairs PipeFilter Datagram Curses ThreadResults ThreadIds ThreadLocal ThreadRace ThreadSum ThreadCancel ThreadKill
    Waits Daemon Environment FileLock
    SystemFiles Terminfo FdFlags Directories ProcFs NonBlock Netdb FileInfo Tools
begin

text \<open>
  A verification development for the programs of the repository, a collection of Linux programs in
  C by topic: files (\<^verbatim>\<open>02_Files\<close>, \<^verbatim>\<open>03_Attributes\<close>), \<^verbatim>\<open>/proc\<close> (\<^verbatim>\<open>04_ProcFs\<close>), devices
  (\<^verbatim>\<open>05_Devices\<close>), system files (\<^verbatim>\<open>06_SystemFiles\<close>), processes (\<^verbatim>\<open>07_Processes\<close>), signals (\<^verbatim>\<open>08_Signals\<close>), inter-process communication (\<^verbatim>\<open>09_IPC\<close>), threads (\<^verbatim>\<open>10_Threads\<close>), sockets
  (\<^verbatim>\<open>11_Network\<close>), the terminal (\<^verbatim>\<open>13_Terminal\<close>) and tools (\<^verbatim>\<open>17_Tools\<close>). The programs do not share a library of their
  own; they work together in groups: a client with its servers, a sender with a receiver, two
  processes with a semaphore, threads with a mutex. Each group has a theory.

  How the code is modelled. A program is a function from what the environment gives it (arguments,
  input, the results of its system calls) to its exit code and what it says; \<open>say\<close> is a line on the
  standard output, on the standard error output, or a call of \<^verbatim>\<open>perror\<close>. Descriptors, open file
  descriptions and files are the state of theory \<open>Posix\<close>, with schedules of the failures and short
  counts that the next calls meet. An array that the code indexes is a list of its full length whose
  contents before the first write are an argument; a read or write outside it, a null pointer that
  is used and a freed node are values of the type \<open>fault\<close>, on the left of a sum. Machine integers
  are words where the bits or the wrap-around matter (\<open>Inet\<close>, \<open>Waits\<close>, \<open>FdFlags\<close>, \<open>SystemFiles\<close>, \<open>Netdb\<close>, \<open>FileInfo\<close>,
  the identities in \<open>ThreadFile\<close>); an \<^verbatim>\<open>int\<close> that adds up what comes from outside wraps round (\<open>int32\<close>), and a number that
  \<^verbatim>\<open>scanf\<close> reads with \<^verbatim>\<open>%d\<close> is converted as the C library does it (\<open>conv_d\<close>); the others stay small and are unbounded. Messages keep
  the program's own text. What the code gets from outside (\<^verbatim>\<open>strerror\<close>, \<^verbatim>\<open>inet_aton\<close>, the CD drive,
  dates, the environment variable \<^verbatim>\<open>HOME\<close>) is an argument.

  Loops whose end depends on the environment are \<open>partial_function\<close>s, and \<open>None\<close> means that they do not
  return; that they return is part of each theorem about them. There is no fuel. Loops over the
  input are recursive over the list of what is still to come. Concurrent programs are a function
  \<open>act\<close> on a state of all of them, one system call or one access to shared memory at a time, and are
  run under every schedule (\<open>Interleave\<close>); that they end is shown by a measure that every step
  lowers, and the measure of the initial state bounds the number of steps.

  The theories.
  \<^item> \<open>Prelude\<close>, \<open>CString\<close>: faults, output, lists; C strings, decimal output, \<^verbatim>\<open>strtok\<close>, \<^verbatim>\<open>fgets\<close>.
  \<^item> \<open>Posix\<close>: system calls on descriptors. \<open>Channel\<close>: the contracts \<open>byte_sink\<close>, \<open>byte_source\<close>,
    \<open>byte_copy\<close>, \<open>retry_loop\<close> and their reliable versions as locales, interpreted on the system calls
    (\<open>posix_sink\<close>, \<open>posix_copy\<close>, \<open>posix_reliable\<close>, \<open>posix_full\<close>, \<open>posix_listen\<close>, \<open>posix_steady\<close>); the
    transfer loops are verified against the contracts and are themselves instances of
    \<open>retry_loop\<close> (by \<^theory_text>\<open>sublocale\<close>).
  \<^item> \<open>FileTools\<close>: \<^verbatim>\<open>02_Files\<close>: \<^verbatim>\<open>cpy_file.c\<close>, \<^verbatim>\<open>backward.c\<close>, \<^verbatim>\<open>dup_fd.c\<close>, \<^verbatim>\<open>write_file.c\<close>, \<^verbatim>\<open>write_vec.c\<close>,
    \<^verbatim>\<open>create_file.c\<close>, \<^verbatim>\<open>trash.c\<close>. \<open>FileAttr\<close>: \<^verbatim>\<open>03_Attributes\<close>: \<^verbatim>\<open>my_stat.c\<close>, \<^verbatim>\<open>my_link.c\<close>.
    \<open>FdFlags\<close>: \<^verbatim>\<open>play_fd.c\<close>, flags on words. \<open>Directories\<close>: \<^verbatim>\<open>scan_dir.c\<close>, \<^verbatim>\<open>find_dir.c\<close>, \<^verbatim>\<open>list_wd.c\<close>,
    \<^verbatim>\<open>ftwalk.c\<close>, \<^verbatim>\<open>mymkdir.c\<close>, \<^verbatim>\<open>mychdir.c\<close>, \<^verbatim>\<open>poll_stdin_time.c\<close>. \<open>FileInfo\<close>: \<^verbatim>\<open>file_size.c\<close>, \<^verbatim>\<open>file_times.c\<close>,
    \<^verbatim>\<open>backward.c\<close>, \<^verbatim>\<open>ugid.c\<close>. \<open>ProcFs\<close>: \<^verbatim>\<open>myinfo.c\<close>, \<^verbatim>\<open>procfs_memory.c\<close>, \<^verbatim>\<open>my_getid.c\<close>. \<open>SystemFiles\<close>: \<^verbatim>\<open>pasname.c\<close>,
    \<^verbatim>\<open>pasname2.c\<close>, \<^verbatim>\<open>read_shadow.c\<close>, \<^verbatim>\<open>read_shadow2.c\<close>, \<^verbatim>\<open>groupname.c\<close>, \<^verbatim>\<open>utsname.c\<close>. \<open>Tools\<close>: \<^verbatim>\<open>dynamisch.c\<close>,
    \<^verbatim>\<open>myequal.c\<close>, \<^verbatim>\<open>testlist.c\<close>, \<^verbatim>\<open>memory.c\<close>.
  \<^item> \<open>FileTransfer\<close>: \<^verbatim>\<open>client2.c\<close> sends a file to \<^verbatim>\<open>server2.c\<close>, \<^verbatim>\<open>pserver.c\<close> or \<^verbatim>\<open>thserver.c\<close>.
  \<^item> \<open>HttpServer\<close>: \<^verbatim>\<open>http_server.c\<close>: tokens, responses, one request, the child's loop, the accept loop.
  \<^item> \<open>MultiServer\<close>: \<^verbatim>\<open>multi_server.c\<close> and \<^verbatim>\<open>client3.c\<close>, the server with \<^verbatim>\<open>select\<close>.
  \<^item> \<open>Inet\<close>: \<^verbatim>\<open>addr.c\<close>, the arithmetic of network and local parts on 32-bit words. \<open>Netdb\<close>: \<^verbatim>\<open>hostent.c\<close>,
    \<^verbatim>\<open>servent.c\<close>, \<^verbatim>\<open>servent2.c\<close>. \<open>NonBlock\<close>: \<^verbatim>\<open>non_block.c\<close>, \<^verbatim>\<open>fullduplex.c\<close>.
  \<^item> \<open>MsgQueue\<close>: \<^verbatim>\<open>msq_server.c\<close>, \<^verbatim>\<open>msq_client.c\<close>, the linked list of clients on a heap; the locale
    \<open>registry\<close> is the contract of the list. \<open>PrintQueue\<close>: \<^verbatim>\<open>client.c\<close>, \<^verbatim>\<open>server.c\<close>, \<^verbatim>\<open>sender.c\<close>,
    \<^verbatim>\<open>printme.c\<close>, \<^verbatim>\<open>filter.c\<close>.
  \<^item> \<open>Interleave\<close>: runs of concurrent systems, with the locales \<open>guarded_protocol\<close>, \<open>protocol\<close>,
    \<open>mutual_exclusion\<close>, \<open>bounded_protocol\<close>, \<open>terminating_protocol\<close> and \<open>refinement_mapping\<close> (steps carry labels: the labels of a
    run are, in order, a run of the specification); each
    concurrent program interprets those it satisfies.
  \<^item> \<open>Processes\<close>: the table of processes with \<^verbatim>\<open>fork\<close>, \<^verbatim>\<open>wait\<close>, \<^verbatim>\<open>exec\<close>, the exit and signals, and the buffers of
    \<^verbatim>\<open>stdout\<close>; a program is the tree of its next calls. Every schedule ends (\<open>terminating_protocol\<close>), and what is
    printed is what the tree says (\<open>guarded_protocol\<close>). \<open>Forks\<close>: \<^verbatim>\<open>child.c\<close>, \<^verbatim>\<open>child2.c\<close>, \<^verbatim>\<open>child3.c\<close>,
    \<^verbatim>\<open>child4.c\<close>, \<^verbatim>\<open>waise.c\<close>, \<^verbatim>\<open>zombie.c\<close>. \<open>Waits\<close>: \<^verbatim>\<open>wait.c\<close>, \<^verbatim>\<open>waitpid.c\<close>, \<^verbatim>\<open>exec_child.c\<close> with
    \<^verbatim>\<open>my_programm.c\<close>. \<open>Daemon\<close>: \<^verbatim>\<open>daemon.c\<close>, \<^verbatim>\<open>prio_child.c\<close>. \<open>Environment\<close>: the environment (locale
    \<open>name_table\<close>) with \<^verbatim>\<open>put_env.c\<close>, \<^verbatim>\<open>set_env.c\<close>, \<^verbatim>\<open>unset_env.c\<close>, \<^verbatim>\<open>get_env.c\<close>, \<^verbatim>\<open>environ1.c\<close>,
    \<^verbatim>\<open>environ2.c\<close>, and \<^verbatim>\<open>my_limit.c\<close>. \<open>FileLock\<close>: \<^verbatim>\<open>sperre.c\<close>.
  \<^item> \<open>SharedMem\<close>: \<^verbatim>\<open>shm_header.h\<close>, \<^verbatim>\<open>shm_server.c\<close>, \<^verbatim>\<open>shm_client.c\<close>. \<open>SemLock\<close>: \<^verbatim>\<open>sem.c\<close>. \<open>SigSync\<close>:
    \<^verbatim>\<open>sig_sync.c\<close>. \<open>SigHandlers\<close>: \<^verbatim>\<open>sig.c\<close>, \<^verbatim>\<open>ping_pong.c\<close>.
  \<^item> \<open>Pthread\<close>: mutexes, condition variables, semaphores. \<open>ThreadCond\<close>: \<^verbatim>\<open>thread9.c\<close>. \<open>ThreadData\<close>:
    \<^verbatim>\<open>thread12.c\<close>. \<open>ThreadSem\<close>: \<^verbatim>\<open>thread13.c\<close>. \<open>ThreadFile\<close>: \<^verbatim>\<open>thread6.c\<close>, \<^verbatim>\<open>thread8.c\<close>.
  \<^item> \<open>Crew\<close>: a program that creates threads, which run on their own memory, and joins them; the locale
    \<open>joined_crew\<close> shows once that every schedule ends and that what a thread does is the replay of its
    own actions. It is interpreted for \<^verbatim>\<open>thread1.c\<close> (\<open>ThreadCrew\<close>), \<^verbatim>\<open>thread2.c\<close> (\<open>ThreadResults\<close>),
    \<^verbatim>\<open>thread3.c\<close>, \<^verbatim>\<open>thread4.c\<close> (\<open>ThreadIds\<close>), \<^verbatim>\<open>thread17.c\<close> to \<^verbatim>\<open>thread19.c\<close> (\<open>ThreadLocal\<close>).
    \<open>ThreadRace\<close>: \<^verbatim>\<open>thread5.c\<close>. \<open>ThreadSum\<close>: \<^verbatim>\<open>thread10.c\<close>, \<^verbatim>\<open>thread11.c\<close>. \<open>ThreadCancel\<close>:
    \<^verbatim>\<open>thread14.c\<close>, \<^verbatim>\<open>thread15.c\<close>. \<open>ThreadKill\<close>: \<^verbatim>\<open>thread20.c\<close>.
  \<^item> \<open>Terminal\<close>: \<^verbatim>\<open>baud.c\<close>, \<^verbatim>\<open>setbaud.c\<close>, \<^verbatim>\<open>my_getch.c\<close>, \<^verbatim>\<open>keystroke.c\<close>, \<^verbatim>\<open>my_getpass.c\<close>, \<^verbatim>\<open>my_eof.c\<close>.
    \<open>Cdrom\<close>: \<^verbatim>\<open>cdrom.c\<close>, with the drive as a parameter. \<open>Curses\<close>: the game \<^verbatim>\<open>cur10.c\<close>, \<^verbatim>\<open>cur11.c\<close>, the
    windows \<^verbatim>\<open>cur12.c\<close>, \<^verbatim>\<open>cur15.c\<close>, the mouse \<^verbatim>\<open>cur13.c\<close>, \<^verbatim>\<open>cur14.c\<close>. \<open>Terminfo\<close>: \<^verbatim>\<open>terminfo.c\<close>, \<^verbatim>\<open>terminfo2.c\<close>.
  \<^item> \<open>Dialogue\<close>: \<^verbatim>\<open>server1.c\<close> with \<^verbatim>\<open>client1.c\<close>, \<^verbatim>\<open>uds_server.c\<close> with \<^verbatim>\<open>uds_client.c\<close>. \<open>Datagram\<close>:
    \<^verbatim>\<open>udp_server.c\<close> with \<^verbatim>\<open>udp_client.c\<close>, \<^verbatim>\<open>multicast_server.c\<close> with \<^verbatim>\<open>multicast_client.c\<close>.
  \<^item> \<open>PipePairs\<close>: parent and child with a pipe, \<^verbatim>\<open>pipe1.c\<close>, \<^verbatim>\<open>pipe2.c\<close>, or a FIFO, \<^verbatim>\<open>fifo4.c\<close>.
    \<open>PipeFilter\<close>: \<^verbatim>\<open>popen1.c\<close>, \<^verbatim>\<open>pipe3.c\<close>, \<^verbatim>\<open>pipe3b.c\<close> before the filter of \<open>PrintQueue\<close>,
    \<^verbatim>\<open>polling_fifo.c\<close> behind its senders, \<^verbatim>\<open>fifo2.c\<close>, \<^verbatim>\<open>popen2.c\<close>.

  What the theorems show: a file of any length sent by the client arrives under its name with the same contents,
  however the bytes are cut into pieces, as long as no \<^verbatim>\<open>read\<close> of the client fills its array of 1024 characters
  (then it writes behind the array, \<open>read_fills\<close>), and a sequence of uploads is stored by each server; a copied
  file equals its source; an HTTP request is answered completely; the servers' tables of clients
  implement plain lists and serve every client that \<^verbatim>\<open>select\<close> reports (unless \<^verbatim>\<open>select\<close> fails); the critical sections exclude each other and the
  protocols with semaphores, signals, mutexes and conditions come to their end under every schedule,
  or do not where the code allows it; programs that fork leave a family tree, and what they print does
  not depend on the schedule; programs that ask for input end when it ends properly and, where it is so, never
  when it does not; settings of the terminal are restored when the programs end, and changed while they wait for a key; text that is
  parsed, filtered or taken apart is what the code says it is; a thread is not cancelled before its critical section is complete. Where the code is only right under
  a condition (a number of four digits, a wake-up that is not lost, a client that stays, a layout of the variables of \<^verbatim>\<open>main\<close> that keeps
  the eight bytes of \<^verbatim>\<open>pthread_join\<close> off the identities of the threads, an uninitialised array with a zero at the right place), the
  theorem has the condition and another one shows what happens without it.

  Not modelled: what ncurses paints (\<^verbatim>\<open>cur2.c\<close> to \<^verbatim>\<open>cur9.c\<close>), programs that make one call and print its result or
  become another program (\<^verbatim>\<open>exec1.c\<close> to \<^verbatim>\<open>exec6.c\<close>, \<^verbatim>\<open>proc_dat.c\<close>, \<^verbatim>\<open>logging.c\<close>, \<^verbatim>\<open>my_find.c\<close>, \<^verbatim>\<open>fifo_buf.c\<close>,
  \<^verbatim>\<open>key_ftok.c\<close>, \<^verbatim>\<open>my_tty.c\<close>, \<^verbatim>\<open>sende.c\<close>), and the example for make. Time
  (\<^verbatim>\<open>sleep\<close>) orders nothing in the models. Interrupted system calls are failures.
\<close>

end
